(* ===== verification/Prelude.thy ===== *)
theory Prelude
  imports Main "HOL-Library.Word" "HOL-Library.Multiset"
begin

text \<open>
  Shared ground of the development: the collections of simplification facts the component
  theories extend, the C++ integer types with their limits and conversions (the part of the
  language and of \<open>std::numeric_limits\<close> every numeric component uses), and generic lemmas on
  bit truncation.
\<close>

named_theorems ctype_simps \<open>unfolding facts about C++ integer types\<close>
named_theorems range_intros \<open>facts that a value lies in the range of its type\<close>

section \<open>C++ integer types\<close>

text \<open>
  An integral type is its signedness and its width in bits. The types of the program are the
  eight exact-width ones; \<open>cint\<close> singles them out. Values of every type are mathematical
  integers, and \<open>in_range t v\<close> says that \<open>v\<close> is a value of type \<open>t\<close>.
\<close>

datatype ctype = CType (is_signed: bool) (int_bits: nat)

definition cint :: "ctype \<Rightarrow> bool" where
  "cint t \<longleftrightarrow> int_bits t \<in> {8, 16, 32, 64}"

abbreviation "int8 \<equiv> CType True 8"
abbreviation "uint8 \<equiv> CType False 8"
abbreviation "int16 \<equiv> CType True 16"
abbreviation "uint16 \<equiv> CType False 16"
abbreviation "int32 \<equiv> CType True 32"
abbreviation "uint32 \<equiv> CType False 32"
abbreviation "int64 \<equiv> CType True 64"
abbreviation "uint64 \<equiv> CType False 64"

definition make_signed :: "ctype \<Rightarrow> ctype" where
  "make_signed t = CType True (int_bits t)"

definition make_unsigned :: "ctype \<Rightarrow> ctype" where
  "make_unsigned t = CType False (int_bits t)"

text \<open>\<open>std::numeric_limits\<close>: the value bits, the least and the greatest value.\<close>

definition nl_digits :: "ctype \<Rightarrow> nat" where
  "nl_digits t = (if is_signed t then int_bits t - 1 else int_bits t)"

definition nl_lowest :: "ctype \<Rightarrow> int" where
  "nl_lowest t = (if is_signed t then - (2 ^ (int_bits t - 1)) else 0)"

definition nl_max :: "ctype \<Rightarrow> int" where
  "nl_max t = (if is_signed t then 2 ^ (int_bits t - 1) - 1 else 2 ^ int_bits t - 1)"

definition in_range :: "ctype \<Rightarrow> int \<Rightarrow> bool" where
  "in_range t v \<longleftrightarrow> nl_lowest t \<le> v \<and> v \<le> nl_max t"

text \<open>
  \<open>static_cast\<close> between integral types keeps the low bits and reads them with the sign of the
  destination (two's complement).
\<close>

definition static_cast :: "ctype \<Rightarrow> int \<Rightarrow> int" where
  "static_cast t v =
     (if is_signed t then signed_take_bit (int_bits t - 1) v else take_bit (int_bits t) v)"

text \<open>
  Integral promotion (\<open>int\<close> has 32 bits) and the usual arithmetic conversions, which give the
  type of \<open>lhs + rhs\<close>.
\<close>

definition int_promote :: "ctype \<Rightarrow> ctype" where
  "int_promote t = (if int_bits t < 32 then int32 else t)"

definition arith_type :: "ctype \<Rightarrow> ctype \<Rightarrow> ctype" where
  "arith_type L R =
     (let l = int_promote L; r = int_promote R in
      if is_signed l = is_signed r then (if int_bits r \<le> int_bits l then l else r)
      else if is_signed l then (if int_bits l \<le> int_bits r then r else l)
      else (if int_bits r \<le> int_bits l then l else r))"

text \<open>C++ division truncates towards zero: the quotient of the magnitudes, negated when the signs differ.\<close>

definition trunc_div :: "int \<Rightarrow> int \<Rightarrow> int" where
  "trunc_div n d = (if n < 0 \<longleftrightarrow> d < 0 then \<bar>n\<bar> div \<bar>d\<bar> else - (\<bar>n\<bar> div \<bar>d\<bar>))"

definition trunc_mod :: "int \<Rightarrow> int \<Rightarrow> int" where
  "trunc_mod a b = a - trunc_div a b * b"

section \<open>Lemmas on the types\<close>

lemma trunc_div_sgn: "trunc_div n d = sgn n * sgn d * (\<bar>n\<bar> div \<bar>d\<bar>)"
  by (auto simp: trunc_div_def sgn_if)

lemmas ctype_defs = nl_digits_def nl_lowest_def nl_max_def in_range_def

lemma ctype_sel_simps [simp]:
  "is_signed (make_signed t)" "int_bits (make_signed t) = int_bits t"
  "\<not> is_signed (make_unsigned t)" "int_bits (make_unsigned t) = int_bits t"
  by (simp_all add: make_signed_def make_unsigned_def)

lemma cint_make [simp]: "cint (make_signed t) = cint t" "cint (make_unsigned t) = cint t"
  by (simp_all add: cint_def)

lemma cint_concrete [simp]:
  "cint (CType s 8)" "cint (CType s 16)" "cint (CType s 32)" "cint (CType s 64)"
  by (simp_all add: cint_def)

lemma cint_cases [consumes 1, case_names c8 c16 c32 c64]:
  assumes "cint t"
  obtains "int_bits t = 8" | "int_bits t = 16" | "int_bits t = 32" | "int_bits t = 64"
  using assms by (auto simp: cint_def)

lemma cint_pos [simp]: "cint t \<Longrightarrow> 0 < int_bits t"
  by (auto simp: cint_def)

lemma cint_exhaust [consumes 1]:
  assumes "cint t"
    and "t = int8 \<Longrightarrow> P" "t = uint8 \<Longrightarrow> P" "t = int16 \<Longrightarrow> P" "t = uint16 \<Longrightarrow> P"
    and "t = int32 \<Longrightarrow> P" "t = uint32 \<Longrightarrow> P" "t = int64 \<Longrightarrow> P" "t = uint64 \<Longrightarrow> P"
  shows P
  using assms by (cases t; cases "is_signed t") (auto simp: cint_def)

lemma power_bits_split: "0 < b \<Longrightarrow> (2::int) ^ b = 2 * 2 ^ (b - 1)"
  by (cases b) auto

lemma take_bit_id: "0 \<le> v \<Longrightarrow> v < 2 ^ b \<Longrightarrow> take_bit b v = (v::int)"
  by (simp add: take_bit_int_eq_self)

lemma signed_take_bit_id:
  "- (2 ^ n) \<le> v \<Longrightarrow> v < 2 ^ n \<Longrightarrow> signed_take_bit n v = (v::int)"
  by (simp add: signed_take_bit_int_eq_self)

lemma static_cast_id [simp]: "in_range t v \<Longrightarrow> static_cast t v = v"
  by (auto simp: static_cast_def ctype_defs intro!: take_bit_id signed_take_bit_id split: if_splits)

lemma static_cast_in_range [range_intros]: "0 < int_bits t \<Longrightarrow> in_range t (static_cast t v)"
  by (auto simp: static_cast_def ctype_defs signed_take_bit_int_greater_eq_minus_exp
      signed_take_bit_int_less_exp)

lemma static_cast_eq_iff: "0 < int_bits t \<Longrightarrow> static_cast t v = v \<longleftrightarrow> in_range t v"
  by (metis static_cast_id static_cast_in_range)

lemma in_range_0 [simp]: "0 < int_bits t \<Longrightarrow> in_range t 0"
  by (auto simp: ctype_defs)

lemma nl_lowest_le_0 [simp]: "nl_lowest t \<le> 0"
  by (simp add: nl_lowest_def)

lemma nl_max_ge_0 [simp]: "0 \<le> nl_max t"
  by (simp add: nl_max_def)

lemma in_range_lowest [simp]: "in_range t (nl_lowest t)" and in_range_max [simp]: "in_range t (nl_max t)"
  by (auto simp: ctype_defs add_increasing intro: order_trans [of _ 0])

lemma lowest_le_max: "nl_lowest t \<le> nl_max s"
  by (rule order_trans [of _ 0]) simp_all

lemma in_range_limits:
  "nl_max s \<le> nl_max t \<Longrightarrow> in_range t (nl_max s)"
  "nl_lowest t \<le> nl_lowest s \<Longrightarrow> in_range t (nl_lowest s)"
  by (auto simp: in_range_def lowest_le_max)

text \<open>Two casts to types of the same width only keep the bits.\<close>

lemma take_bit_signed_take_bit_Suc:
  "0 < b \<Longrightarrow> take_bit b (signed_take_bit (b - 1) v) = take_bit b (v::int)"
  by (simp add: take_bit_signed_take_bit)

lemma static_cast_mod:
  assumes "0 < int_bits t"
  shows "static_cast t v mod 2 ^ int_bits t = v mod 2 ^ int_bits t"
  using assms take_bit_signed_take_bit_Suc [of "int_bits t" v]
  by (auto simp: static_cast_def take_bit_eq_mod)

lemma static_cast_cong:
  assumes "0 < int_bits t" and "v mod 2 ^ int_bits t = w mod 2 ^ int_bits t"
  shows "static_cast t v = static_cast t w"
proof -
  have eq: "take_bit (int_bits t) v = take_bit (int_bits t) w"
    using assms(2) by (simp add: take_bit_eq_mod)
  have "signed_take_bit (int_bits t - 1) v = signed_take_bit (int_bits t - 1) w"
    using eq assms(1) by (metis Suc_pred' signed_take_bit_eq_iff_take_bit_eq)
  with eq show ?thesis by (simp add: static_cast_def)
qed

lemma static_cast_static_cast [simp]:
  "0 < int_bits t \<Longrightarrow> int_bits s = int_bits t \<Longrightarrow> static_cast t (static_cast s v) = static_cast t v"
  using static_cast_mod [of s v] by (intro static_cast_cong) auto

end
