(* ===== verification/Safe_Conversions.thy ===== *)
theory Safe_Conversions
  imports Prelude
begin

text \<open>
  Range checks and conversions between integer types:
  \<open>base/numerics/safe_conversions_impl.h\<close> and \<open>base/numerics/safe_conversions.h\<close>.
  Template parameters become arguments of type \<open>ctype\<close>; a template specialisation on
  signedness becomes a case of the definition. Only the integral instantiations are modelled.
\<close>

section \<open>Static properties of types\<close>

definition MaxExponent :: "ctype \<Rightarrow> nat" where
  "MaxExponent t = nl_digits t + 1"

definition IntegerBitsPlusSign :: "ctype \<Rightarrow> nat" where
  "IntegerBitsPlusSign t = nl_digits t + (if is_signed t then 1 else 0)"

definition PositionOfSignBit :: "ctype \<Rightarrow> nat" where
  "PositionOfSignBit t = IntegerBitsPlusSign t - 1"

definition IsValueNegative :: "ctype \<Rightarrow> int \<Rightarrow> bool" where
  "IsValueNegative t v = (if is_signed t then v < 0 else False)"

text \<open>\<open>ConditionalNegate\<close> flips the bits by xor with all ones and adds one, in the unsigned type.\<close>

definition ConditionalNegate :: "ctype \<Rightarrow> int \<Rightarrow> bool \<Rightarrow> int" where
  "ConditionalNegate t x is_negative =
     (let u = make_unsigned t; s = make_signed t;
          mask = static_cast u (static_cast s (- of_bool is_negative))
      in static_cast s
           (static_cast u (xor (static_cast u x) mask + of_bool is_negative)))"

definition SafeUnsignedAbs :: "ctype \<Rightarrow> int \<Rightarrow> int" where
  "SafeUnsignedAbs t value =
     (let u = make_unsigned t in
      if IsValueNegative t value then static_cast u (0 - static_cast u value)
      else static_cast u value)"

datatype NumericRangeRepresentation = NUMERIC_RANGE_NOT_CONTAINED | NUMERIC_RANGE_CONTAINED

definition StaticDstRangeRelationToSrcRange ::
  "ctype \<Rightarrow> ctype \<Rightarrow> NumericRangeRepresentation" where
  "StaticDstRangeRelationToSrcRange Dst Src =
     (if is_signed Dst = is_signed Src then
        (if MaxExponent Src \<le> MaxExponent Dst then NUMERIC_RANGE_CONTAINED
         else NUMERIC_RANGE_NOT_CONTAINED)
      else if is_signed Dst then
        (if MaxExponent Src < MaxExponent Dst then NUMERIC_RANGE_CONTAINED
         else NUMERIC_RANGE_NOT_CONTAINED)
      else NUMERIC_RANGE_NOT_CONTAINED)"

definition IsTypeInRangeForNumericType :: "ctype \<Rightarrow> ctype \<Rightarrow> bool" where
  "IsTypeInRangeForNumericType Dst Src \<longleftrightarrow>
     StaticDstRangeRelationToSrcRange Dst Src = NUMERIC_RANGE_CONTAINED"

section \<open>Range checks\<close>

record RangeCheck =
  is_underflow :: bool
  is_overflow :: bool

definition mk_RangeCheck :: "bool \<Rightarrow> bool \<Rightarrow> RangeCheck" where
  "mk_RangeCheck is_in_lower_bound is_in_upper_bound =
     \<lparr>is_underflow = (\<not> is_in_lower_bound), is_overflow = (\<not> is_in_upper_bound)\<rparr>"

definition RC_IsValid :: "RangeCheck \<Rightarrow> bool" where
  "RC_IsValid r \<longleftrightarrow> \<not> is_overflow r \<and> \<not> is_underflow r"

definition RC_IsInvalid :: "RangeCheck \<Rightarrow> bool" where
  "RC_IsInvalid r \<longleftrightarrow> is_overflow r \<and> is_underflow r"

definition RC_IsOverflow :: "RangeCheck \<Rightarrow> bool" where
  "RC_IsOverflow r \<longleftrightarrow> is_overflow r \<and> \<not> is_underflow r"

definition RC_IsUnderflow :: "RangeCheck \<Rightarrow> bool" where
  "RC_IsUnderflow r \<longleftrightarrow> \<not> is_overflow r \<and> is_underflow r"

text \<open>
  The limits of the destination, masked to the precision of the source. For integral types the
  shift is always zero, but the computation through \<open>SafeUnsignedAbs\<close> and
  \<open>ConditionalNegate\<close> is what the code runs.
\<close>

definition NarrowingRange_kShift :: "ctype \<Rightarrow> ctype \<Rightarrow> nat" where
  "NarrowingRange_kShift Dst Src =
     (if MaxExponent Dst < MaxExponent Src \<and> nl_digits Src < nl_digits Dst
      then nl_digits Dst - nl_digits Src else 0)"

definition NarrowingRange_Adjust :: "ctype \<Rightarrow> ctype \<Rightarrow> int \<Rightarrow> int" where
  "NarrowingRange_Adjust Dst Src value =
     (let mt = arith_type (make_unsigned Dst) Dst;
          mask = not (push_bit (NarrowingRange_kShift Dst Src) 1 - 1) in
      static_cast Dst
        (ConditionalNegate mt (static_cast mt (and (SafeUnsignedAbs Dst value) mask))
           (IsValueNegative Dst value)))"

definition NarrowingRange_max :: "ctype \<Rightarrow> ctype \<Rightarrow> int" where
  "NarrowingRange_max Dst Src = NarrowingRange_Adjust Dst Src (nl_max Dst)"

definition NarrowingRange_lowest :: "ctype \<Rightarrow> ctype \<Rightarrow> int" where
  "NarrowingRange_lowest Dst Src = NarrowingRange_Adjust Dst Src (nl_lowest Dst)"

text \<open>
  \<open>DstRangeRelationToSrcRangeImpl::Check\<close>, one case per specialisation. Comparisons between
  operands of different types happen in their common arithmetic type.
\<close>

definition DstRangeRelationToSrcRange :: "ctype \<Rightarrow> ctype \<Rightarrow> int \<Rightarrow> RangeCheck" where
  "DstRangeRelationToSrcRange Dst Src value =
     (let lo = NarrowingRange_lowest Dst Src; hi = NarrowingRange_max Dst Src;
          P = arith_type Src Dst in
      if StaticDstRangeRelationToSrcRange Dst Src = NUMERIC_RANGE_CONTAINED then
        mk_RangeCheck
          (static_cast Dst (nl_lowest Src) \<ge> lo \<or> static_cast Dst value \<ge> lo)
          (static_cast Dst (nl_max Src) \<le> hi \<or> static_cast Dst value \<le> hi)
      else if is_signed Dst \<and> is_signed Src then
        mk_RangeCheck (static_cast P value \<ge> static_cast P lo)
          (static_cast P value \<le> static_cast P hi)
      else if \<not> is_signed Dst \<and> \<not> is_signed Src then
        mk_RangeCheck (lo = 0 \<or> static_cast P value \<ge> static_cast P lo)
          (static_cast P value \<le> static_cast P hi)
      else if is_signed Dst \<and> \<not> is_signed Src then
        mk_RangeCheck (lo \<le> 0 \<or> static_cast P value \<ge> static_cast P lo)
          (static_cast P value \<le> static_cast P hi)
      else
        mk_RangeCheck (value \<ge> 0 \<and> (lo = 0 \<or> static_cast Dst value \<ge> lo))
          (static_cast P (nl_max Src) \<le> static_cast P hi
            \<or> static_cast P value \<le> static_cast P hi))"

section \<open>Promotions\<close>

definition TwiceWiderInteger :: "ctype \<Rightarrow> bool \<Rightarrow> ctype" where
  "TwiceWiderInteger t s = CType s (IntegerBitsPlusSign t * 2)"

definition MaxExponentPromotion :: "ctype \<Rightarrow> ctype \<Rightarrow> ctype" where
  "MaxExponentPromotion Lhs Rhs = (if MaxExponent Lhs > MaxExponent Rhs then Lhs else Rhs)"

definition LowestValuePromotion :: "ctype \<Rightarrow> ctype \<Rightarrow> ctype" where
  "LowestValuePromotion Lhs Rhs =
     (if is_signed Lhs then
        (if is_signed Rhs then
           (if MaxExponent Lhs > MaxExponent Rhs then Lhs else Rhs)
         else Lhs)
      else
        (if is_signed Rhs then Rhs
         else (if MaxExponent Lhs < MaxExponent Rhs then Lhs else Rhs)))"

definition BigEnough_is_intmax :: "ctype \<Rightarrow> ctype \<Rightarrow> bool" where
  "BigEnough_is_intmax Lhs Rhs \<longleftrightarrow>
     IntegerBitsPlusSign (MaxExponentPromotion Lhs Rhs) = IntegerBitsPlusSign int64"

definition BigEnough_is_max_exponent :: "ctype \<Rightarrow> ctype \<Rightarrow> bool" where
  "BigEnough_is_max_exponent Lhs Rhs \<longleftrightarrow>
     StaticDstRangeRelationToSrcRange (MaxExponentPromotion Lhs Rhs) Lhs = NUMERIC_RANGE_CONTAINED
     \<and> StaticDstRangeRelationToSrcRange (MaxExponentPromotion Lhs Rhs) Rhs = NUMERIC_RANGE_CONTAINED"

definition BigEnoughPromotion :: "ctype \<Rightarrow> ctype \<Rightarrow> ctype" where
  "BigEnoughPromotion Lhs Rhs =
     (if BigEnough_is_max_exponent Lhs Rhs then MaxExponentPromotion Lhs Rhs
      else if \<not> BigEnough_is_intmax Lhs Rhs then
        TwiceWiderInteger (MaxExponentPromotion Lhs Rhs) (is_signed Lhs \<or> is_signed Rhs)
      else MaxExponentPromotion Lhs Rhs)"

definition BigEnough_is_contained :: "ctype \<Rightarrow> ctype \<Rightarrow> bool" where
  "BigEnough_is_contained Lhs Rhs \<longleftrightarrow>
     BigEnough_is_max_exponent Lhs Rhs \<or> \<not> BigEnough_is_intmax Lhs Rhs"

definition IsIntegerArithmeticSafe :: "ctype \<Rightarrow> ctype \<Rightarrow> ctype \<Rightarrow> bool" where
  "IsIntegerArithmeticSafe T Lhs Rhs \<longleftrightarrow>
     (is_signed Lhs \<longrightarrow> is_signed T) \<and> IntegerBitsPlusSign T \<ge> 2 * IntegerBitsPlusSign Lhs \<and>
     (is_signed Rhs \<longrightarrow> is_signed T) \<and> IntegerBitsPlusSign T \<ge> 2 * IntegerBitsPlusSign Rhs"

definition FastIntegerArithmeticPromotion :: "ctype \<Rightarrow> ctype \<Rightarrow> ctype" where
  "FastIntegerArithmeticPromotion Lhs Rhs =
     (let m = MaxExponentPromotion Lhs Rhs; sg = is_signed Lhs \<or> is_signed Rhs in
      if IsIntegerArithmeticSafe (if sg then int64 else uint64) m m
      then TwiceWiderInteger m sg
      else BigEnoughPromotion Lhs Rhs)"

definition as_signed :: "ctype \<Rightarrow> int \<Rightarrow> int" where
  "as_signed t v = static_cast (make_signed t) v"

definition as_unsigned :: "ctype \<Rightarrow> int \<Rightarrow> int" where
  "as_unsigned t v = static_cast (make_unsigned t) v"

section \<open>Comparisons across types\<close>

text \<open>
  \<open>IsLess\<close> and its five siblings decide by the range checks of each operand against the other
  type first, and compare in the common arithmetic type only when these agree.
\<close>

definition IsLess :: "ctype \<Rightarrow> ctype \<Rightarrow> int \<Rightarrow> int \<Rightarrow> bool" where
  "IsLess L R lhs rhs =
     (let l_range = DstRangeRelationToSrcRange R L lhs;
          r_range = DstRangeRelationToSrcRange L R rhs; A = arith_type L R in
      RC_IsUnderflow l_range \<or> RC_IsOverflow r_range \<or>
      (l_range = r_range \<and> static_cast A lhs < static_cast A rhs))"

definition IsLessOrEqual :: "ctype \<Rightarrow> ctype \<Rightarrow> int \<Rightarrow> int \<Rightarrow> bool" where
  "IsLessOrEqual L R lhs rhs =
     (let l_range = DstRangeRelationToSrcRange R L lhs;
          r_range = DstRangeRelationToSrcRange L R rhs; A = arith_type L R in
      RC_IsUnderflow l_range \<or> RC_IsOverflow r_range \<or>
      (l_range = r_range \<and> static_cast A lhs \<le> static_cast A rhs))"

definition IsGreater :: "ctype \<Rightarrow> ctype \<Rightarrow> int \<Rightarrow> int \<Rightarrow> bool" where
  "IsGreater L R lhs rhs =
     (let l_range = DstRangeRelationToSrcRange R L lhs;
          r_range = DstRangeRelationToSrcRange L R rhs; A = arith_type L R in
      RC_IsOverflow l_range \<or> RC_IsUnderflow r_range \<or>
      (l_range = r_range \<and> static_cast A lhs > static_cast A rhs))"

definition IsGreaterOrEqual :: "ctype \<Rightarrow> ctype \<Rightarrow> int \<Rightarrow> int \<Rightarrow> bool" where
  "IsGreaterOrEqual L R lhs rhs =
     (let l_range = DstRangeRelationToSrcRange R L lhs;
          r_range = DstRangeRelationToSrcRange L R rhs; A = arith_type L R in
      RC_IsOverflow l_range \<or> RC_IsUnderflow r_range \<or>
      (l_range = r_range \<and> static_cast A lhs \<ge> static_cast A rhs))"

definition IsEqual :: "ctype \<Rightarrow> ctype \<Rightarrow> int \<Rightarrow> int \<Rightarrow> bool" where
  "IsEqual L R lhs rhs =
     (DstRangeRelationToSrcRange R L lhs = DstRangeRelationToSrcRange L R rhs \<and>
      static_cast (arith_type L R) lhs = static_cast (arith_type L R) rhs)"

definition IsNotEqual :: "ctype \<Rightarrow> ctype \<Rightarrow> int \<Rightarrow> int \<Rightarrow> bool" where
  "IsNotEqual L R lhs rhs =
     (DstRangeRelationToSrcRange R L lhs \<noteq> DstRangeRelationToSrcRange L R rhs \<or>
      static_cast (arith_type L R) lhs \<noteq> static_cast (arith_type L R) rhs)"

definition SafeCompare ::
  "(ctype \<Rightarrow> ctype \<Rightarrow> int \<Rightarrow> int \<Rightarrow> bool) \<Rightarrow> ctype \<Rightarrow> ctype \<Rightarrow> int \<Rightarrow> int \<Rightarrow> bool" where
  "SafeCompare C L R lhs rhs =
     (let B = BigEnoughPromotion L R in
      if BigEnough_is_contained L R
      then C B B (static_cast B (static_cast L lhs)) (static_cast B (static_cast R rhs))
      else C L R lhs rhs)"

definition IsMaxInRangeForNumericType :: "ctype \<Rightarrow> ctype \<Rightarrow> bool" where
  "IsMaxInRangeForNumericType Dst Src = IsGreaterOrEqual Dst Src (nl_max Dst) (nl_max Src)"

definition IsMinInRangeForNumericType :: "ctype \<Rightarrow> ctype \<Rightarrow> bool" where
  "IsMinInRangeForNumericType Dst Src = IsLessOrEqual Dst Src (nl_lowest Dst) (nl_lowest Src)"

definition CommonMax :: "ctype \<Rightarrow> ctype \<Rightarrow> int" where
  "CommonMax Dst Src =
     (if \<not> IsMaxInRangeForNumericType Dst Src then static_cast Dst (nl_max Dst)
      else static_cast Dst (nl_max Src))"

definition CommonMin :: "ctype \<Rightarrow> ctype \<Rightarrow> int" where
  "CommonMin Dst Src =
     (if \<not> IsMinInRangeForNumericType Dst Src then static_cast Dst (nl_lowest Dst)
      else static_cast Dst (nl_lowest Src))"

definition CommonMaxOrMin :: "ctype \<Rightarrow> ctype \<Rightarrow> bool \<Rightarrow> int" where
  "CommonMaxOrMin Dst Src is_min = (if is_min then CommonMin Dst Src else CommonMax Dst Src)"

section \<open>Conversions\<close>

text \<open>
  \<open>IsValueInRangeFastOp\<close> has two specialisations; everything else goes through
  \<open>DstRangeRelationToSrcRange\<close>.
\<close>

definition IsValueInRangeFastOp_signed :: "ctype \<Rightarrow> ctype \<Rightarrow> int \<Rightarrow> bool" where
  "IsValueInRangeFastOp_signed Dst Src value \<longleftrightarrow>
     (let A = arith_type Src Dst in
      static_cast A value = static_cast A (static_cast Dst value))"

definition IsValueInRangeFastOp_unsigned :: "ctype \<Rightarrow> ctype \<Rightarrow> int \<Rightarrow> bool" where
  "IsValueInRangeFastOp_unsigned Dst Src value \<longleftrightarrow>
     as_unsigned Src value \<le> as_unsigned Src (CommonMax Src Dst)"

definition IsValueInRangeForNumericType :: "ctype \<Rightarrow> ctype \<Rightarrow> int \<Rightarrow> bool" where
  "IsValueInRangeForNumericType Dst Src value \<longleftrightarrow>
     (if is_signed Dst \<and> is_signed Src \<and> \<not> IsTypeInRangeForNumericType Dst Src
      then IsValueInRangeFastOp_signed Dst Src value
      else if \<not> is_signed Dst \<and> is_signed Src \<and> \<not> IsTypeInRangeForNumericType Dst Src
      then IsValueInRangeFastOp_unsigned Dst Src value
      else RC_IsValid (DstRangeRelationToSrcRange Dst Src value))"

text \<open>\<open>checked_cast\<close> crashes (\<open>CheckOnFailure\<close>) out of range: \<open>None\<close>.\<close>

definition checked_cast :: "ctype \<Rightarrow> ctype \<Rightarrow> int \<Rightarrow> int option" where
  "checked_cast Dst Src value =
     (if IsValueInRangeForNumericType Dst Src value then Some (static_cast Dst value) else None)"

definition saturated_cast_impl :: "ctype \<Rightarrow> ctype \<Rightarrow> int \<Rightarrow> RangeCheck \<Rightarrow> int" where
  "saturated_cast_impl Dst Src value c =
     (if \<not> is_overflow c
      then (if \<not> is_underflow c then static_cast Dst value else nl_lowest Dst)
      else nl_max Dst)"

definition SaturateFastOp :: "ctype \<Rightarrow> ctype \<Rightarrow> int \<Rightarrow> int" where
  "SaturateFastOp Dst Src value =
     (let saturated = CommonMaxOrMin Dst Src
            (IsMaxInRangeForNumericType Dst Src \<or>
             (\<not> IsMinInRangeForNumericType Dst Src \<and> IsValueNegative Src value))
      in if IsValueInRangeForNumericType Dst Src value then static_cast Dst value else saturated)"

text \<open>
  \<open>saturated_cast\<close> takes the fast path for a run-time value and \<open>saturated_cast_impl\<close> for a
  compile-time constant; which one is the parameter \<open>ct\<close>.
\<close>

definition saturated_cast :: "bool \<Rightarrow> ctype \<Rightarrow> ctype \<Rightarrow> int \<Rightarrow> int" where
  "saturated_cast ct Dst Src value =
     (if \<not> ct then SaturateFastOp Dst Src value
      else saturated_cast_impl Dst Src value (DstRangeRelationToSrcRange Dst Src value))"

text \<open>\<open>strict_cast\<close> only compiles when the destination contains the source: \<open>None\<close> otherwise.\<close>

definition strict_cast :: "ctype \<Rightarrow> ctype \<Rightarrow> int \<Rightarrow> int option" where
  "strict_cast Dst Src value =
     (if StaticDstRangeRelationToSrcRange Dst Src = NUMERIC_RANGE_CONTAINED
      then Some (static_cast Dst value) else None)"

definition ClampToRange :: "int \<Rightarrow> int \<Rightarrow> int \<Rightarrow> int" where
  "ClampToRange value mn mx = min (max value mn) mx"

text \<open>Clamping a mathematical integer to the range of a type.\<close>

definition clamp_to :: "ctype \<Rightarrow> int \<Rightarrow> int" where
  "clamp_to t v = max (nl_lowest t) (min (nl_max t) v)"

section \<open>The computed limits are the limits\<close>

lemma ConditionalNegate_eq:
  assumes "0 < int_bits t"
  shows "ConditionalNegate t x neg = static_cast (make_signed t) (if neg then - x else x)"
proof -
  let ?b = "int_bits t"
  have "take_bit ?b (xor x (-1)) = xor (take_bit ?b x) (take_bit ?b (-1))"
    by (rule take_bit_xor)
  then have flip: "xor (take_bit ?b x) (take_bit ?b (-1)) = take_bit ?b (- x - 1)"
    by (simp add: not_eq_complement)
  have neg1: "take_bit ?b (static_cast (make_signed t) (-1)) = take_bit ?b (-1)"
    using assms by (simp add: static_cast_def)
  have "static_cast (make_signed t) (take_bit ?b (take_bit ?b (- x - 1) + 1))
      = static_cast (make_signed t) (- x)"
    using assms by (intro static_cast_cong) (simp_all add: take_bit_eq_mod mod_simps)
  moreover have "static_cast (make_signed t) (take_bit ?b (take_bit ?b x))
      = static_cast (make_signed t) x"
    using assms by (intro static_cast_cong) (simp_all add: take_bit_eq_mod)
  ultimately show ?thesis
    using flip neg1 assms
    by (simp add: ConditionalNegate_def Let_def static_cast_def)
qed

lemma SafeUnsignedAbs_eq:
  assumes "0 < int_bits t" and "in_range t v"
  shows "SafeUnsignedAbs t v = \<bar>v\<bar>"
proof (cases "IsValueNegative t v")
  case True
  have "take_bit (int_bits t) (- take_bit (int_bits t) v) = take_bit (int_bits t) (- v)"
    by (simp add: take_bit_eq_mod mod_simps)
  moreover have "take_bit (int_bits t) (- v) = - v"
    using True assms power_bits_split [of "int_bits t"]
    by (intro take_bit_id) (auto simp: IsValueNegative_def ctype_defs split: if_splits)
  ultimately show ?thesis
    using True by (simp add: SafeUnsignedAbs_def static_cast_def IsValueNegative_def split: if_splits)
next
  case False
  have "take_bit (int_bits t) v = v" "0 \<le> v"
    using False assms power_bits_split [of "int_bits t"]
    by (auto intro!: take_bit_id simp: IsValueNegative_def ctype_defs split: if_splits)
  then show ?thesis
    using False by (simp add: SafeUnsignedAbs_def static_cast_def)
qed

lemma kShift_0 [simp]: "NarrowingRange_kShift Dst Src = 0"
  by (auto simp: NarrowingRange_kShift_def MaxExponent_def)

lemma NarrowingRange_Adjust_id:
  assumes "cint Dst" and "in_range Dst v"
  shows "NarrowingRange_Adjust Dst Src v = v"
  using assms
  by (elim cint_exhaust)
    (auto simp: NarrowingRange_Adjust_def ConditionalNegate_eq SafeUnsignedAbs_eq arith_type_def
      int_promote_def make_unsigned_def make_signed_def IsValueNegative_def ctype_defs Let_def)

lemma NarrowingRange_limits [simp]:
  "cint Dst \<Longrightarrow> NarrowingRange_max Dst Src = nl_max Dst"
  "cint Dst \<Longrightarrow> NarrowingRange_lowest Dst Src = nl_lowest Dst"
  by (simp_all add: NarrowingRange_max_def NarrowingRange_lowest_def NarrowingRange_Adjust_id)

lemma DstRangeRelationToSrcRange_eq:
  assumes "cint Dst" and "cint Src" and "in_range Src v"
  shows "DstRangeRelationToSrcRange Dst Src v =
    mk_RangeCheck (nl_lowest Dst \<le> v) (v \<le> nl_max Dst)"
  using assms
  by (elim cint_exhaust)
    (simp_all add: DstRangeRelationToSrcRange_def StaticDstRangeRelationToSrcRange_def
      MaxExponent_def ctype_defs arith_type_def int_promote_def Let_def mk_RangeCheck_def)
section \<open>Comparisons across types decide the mathematical order\<close>

lemma RC_simps [simp]:
  "RC_IsValid (mk_RangeCheck a b) = (a \<and> b)"
  "RC_IsUnderflow (mk_RangeCheck a b) = (\<not> a \<and> b)"
  "RC_IsOverflow (mk_RangeCheck a b) = (a \<and> \<not> b)"
  "mk_RangeCheck a b = mk_RangeCheck c d \<longleftrightarrow> a = c \<and> b = d"
  "is_underflow (mk_RangeCheck a b) = (\<not> a)"
  "is_overflow (mk_RangeCheck a b) = (\<not> b)"
  by (auto simp: RC_IsValid_def RC_IsUnderflow_def RC_IsOverflow_def mk_RangeCheck_def)

lemma arith_type_preserves:
  assumes "cint L" "cint R" "in_range L x" "in_range R y"
    and "mk_RangeCheck (nl_lowest R \<le> x) (x \<le> nl_max R) = mk_RangeCheck (nl_lowest L \<le> y) (y \<le> nl_max L)"
  shows "static_cast (arith_type L R) x = x \<and> static_cast (arith_type L R) y = y"
proof -
  have "in_range (arith_type L R) x \<and> in_range (arith_type L R) y"
    using assms
    by (elim cint_exhaust) (auto simp: arith_type_def int_promote_def Let_def ctype_defs)
  then show ?thesis by simp
qed

lemmas compare_defs = IsLess_def IsLessOrEqual_def IsGreater_def IsGreaterOrEqual_def
  IsEqual_def IsNotEqual_def

lemma cross_range:
  assumes "in_range L x" and "in_range R y"
  shows "nl_lowest R \<le> y" "y \<le> nl_max R" "nl_lowest L \<le> x" "x \<le> nl_max L"
  using assms by (auto simp: in_range_def)

lemma compare_correct:
  assumes "cint L" "cint R" "in_range L x" "in_range R y"
  shows "IsLess L R x y \<longleftrightarrow> x < y"
    and "IsLessOrEqual L R x y \<longleftrightarrow> x \<le> y"
    and "IsGreater L R x y \<longleftrightarrow> x > y"
    and "IsGreaterOrEqual L R x y \<longleftrightarrow> x \<ge> y"
    and "IsEqual L R x y \<longleftrightarrow> x = y"
    and "IsNotEqual L R x y \<longleftrightarrow> x \<noteq> y"
  using arith_type_preserves [OF assms] cross_range [OF assms(3,4)]
  by (auto simp: compare_defs DstRangeRelationToSrcRange_eq assms Let_def)

lemma IsMaxInRange_eq:
  "cint Dst \<Longrightarrow> cint Src \<Longrightarrow> IsMaxInRangeForNumericType Dst Src \<longleftrightarrow> nl_max Src \<le> nl_max Dst"
  by (simp add: IsMaxInRangeForNumericType_def compare_correct)

lemma IsMinInRange_eq:
  "cint Dst \<Longrightarrow> cint Src \<Longrightarrow> IsMinInRangeForNumericType Dst Src \<longleftrightarrow> nl_lowest Dst \<le> nl_lowest Src"
  by (simp add: IsMinInRangeForNumericType_def compare_correct)

lemma CommonMax_eq: "cint Dst \<Longrightarrow> cint Src \<Longrightarrow> CommonMax Dst Src = min (nl_max Dst) (nl_max Src)"
  by (auto simp: CommonMax_def IsMaxInRange_eq min_def in_range_limits)

lemma CommonMin_eq: "cint Dst \<Longrightarrow> cint Src \<Longrightarrow> CommonMin Dst Src = max (nl_lowest Dst) (nl_lowest Src)"
  by (auto simp: CommonMin_def IsMinInRange_eq max_def in_range_limits)

lemma CommonMaxOrMin_self [simp]:
  "cint V \<Longrightarrow> CommonMaxOrMin V V neg = (if neg then nl_lowest V else nl_max V)"
  by (simp add: CommonMaxOrMin_def CommonMax_eq CommonMin_eq)

lemma IsValueInRange_iff [simp]:
  assumes "cint Dst" "cint Src" "in_range Src v"
  shows "IsValueInRangeForNumericType Dst Src v \<longleftrightarrow> in_range Dst v"
proof -
  have "IsValueInRangeFastOp_signed Dst Src v \<longleftrightarrow> in_range Dst v"
    if "is_signed Dst" "is_signed Src" "\<not> IsTypeInRangeForNumericType Dst Src"
  proof -
    have "in_range (arith_type Src Dst) v" "in_range (arith_type Src Dst) (static_cast Dst v)"
      using that assms static_cast_in_range [of Dst v]
      by (elim cint_exhaust;
          auto simp: arith_type_def int_promote_def Let_def ctype_defs)+
    then show ?thesis
      using static_cast_eq_iff [of Dst v] assms(1)
      by (auto simp: IsValueInRangeFastOp_signed_def Let_def)
  qed
  moreover have "IsValueInRangeFastOp_unsigned Dst Src v \<longleftrightarrow> in_range Dst v"
    if "\<not> is_signed Dst" "is_signed Src"
  proof (cases "0 \<le> v")
    case True
    then have "in_range (make_unsigned Src) v"
      "in_range (make_unsigned Src) (min (nl_max Src) (nl_max Dst))"
      using that assms power_bits_split [of "int_bits Src"] by (auto simp: ctype_defs)
    then show ?thesis
      using that assms True
      by (auto simp: IsValueInRangeFastOp_unsigned_def as_unsigned_def CommonMax_eq in_range_def
          nl_lowest_def)
  next
    case False
    then have "as_unsigned Src v = v + 2 ^ int_bits Src"
    proof -
      have "(v + 2 ^ int_bits Src) mod 2 ^ int_bits Src = v + 2 ^ int_bits Src"
        using False assms that power_bits_split [of "int_bits Src"]
        by (intro mod_pos_pos_trivial) (auto simp: ctype_defs)
      then show ?thesis
        by (simp add: as_unsigned_def static_cast_def take_bit_eq_mod)
    qed
    moreover have "in_range (make_unsigned Src) (min (nl_max Src) (nl_max Dst))"
      using that assms power_bits_split [of "int_bits Src"] by (auto simp: ctype_defs)
    ultimately show ?thesis
      using False that assms power_bits_split [of "int_bits Src"]
      by (auto simp: IsValueInRangeFastOp_unsigned_def as_unsigned_def CommonMax_eq in_range_def
          nl_lowest_def nl_max_def)
  qed
  ultimately show ?thesis
    using assms
    by (auto simp: IsValueInRangeForNumericType_def DstRangeRelationToSrcRange_eq in_range_def)
qed

lemma clamp_to_id [simp]: "in_range t v \<Longrightarrow> clamp_to t v = v"
  by (auto simp: clamp_to_def in_range_def)

lemma clamp_to_in_range [range_intros]: "in_range t (clamp_to t v)"
  by (auto simp: clamp_to_def in_range_def intro: order_trans [of _ 0])

lemma saturated_cast_eq:
  assumes "cint Dst" "cint Src" "in_range Src v"
  shows "saturated_cast ct Dst Src v = clamp_to Dst v"
proof -
  have "SaturateFastOp Dst Src v = clamp_to Dst v"
    using assms
    by (elim cint_exhaust)
      (auto simp: SaturateFastOp_def CommonMaxOrMin_def CommonMax_eq CommonMin_eq Let_def
        IsMaxInRange_eq IsMinInRange_eq IsValueNegative_def clamp_to_def ctype_defs)
  moreover have "saturated_cast_impl Dst Src v (DstRangeRelationToSrcRange Dst Src v) = clamp_to Dst v"
    using assms lowest_le_max [of Dst Dst]
    by (auto simp: saturated_cast_impl_def DstRangeRelationToSrcRange_eq clamp_to_def in_range_def)
  ultimately show ?thesis by (simp add: saturated_cast_def)
qed

lemma IsTypeInRange_iff:
  assumes "cint Dst" "cint Src"
  shows "IsTypeInRangeForNumericType Dst Src \<longleftrightarrow> (\<forall>v. in_range Src v \<longrightarrow> in_range Dst v)"
proof -
  have "IsTypeInRangeForNumericType Dst Src \<longleftrightarrow> nl_lowest Dst \<le> nl_lowest Src \<and> nl_max Src \<le> nl_max Dst"
    using assms
    by (elim cint_exhaust)
      (simp_all add: IsTypeInRangeForNumericType_def StaticDstRangeRelationToSrcRange_def
        MaxExponent_def ctype_defs)
  also have "\<dots> \<longleftrightarrow> (\<forall>v. in_range Src v \<longrightarrow> in_range Dst v)"
    by (auto simp: in_range_def) (meson in_range_def in_range_lowest in_range_max)+
  finally show ?thesis .
qed

section \<open>Properties\<close>

text \<open>
  C30: Comparing integers of two different types: IsLess and its siblings, which first classify both
  operands with range checks and only then compare in the common arithmetic type, decide the order
  of the mathematical values, for every pair of integer types.
\<close>

theorem cross_type_comparison:
  assumes "cint L" "cint R" "in_range L x" "in_range R y"
  shows "(IsLess L R x y \<longleftrightarrow> x < y) \<and> (IsLessOrEqual L R x y \<longleftrightarrow> x \<le> y)
    \<and> (IsGreater L R x y \<longleftrightarrow> x > y) \<and> (IsGreaterOrEqual L R x y \<longleftrightarrow> x \<ge> y)
    \<and> (IsEqual L R x y \<longleftrightarrow> x = y) \<and> (IsNotEqual L R x y \<longleftrightarrow> x \<noteq> y)"
  using compare_correct [OF assms] by simp

theorem cross_type_comparison_witness:
  "IsLess int32 uint32 (-1) 1 \<and> IsGreater uint64 int8 18446744073709551615 (-1)"
  using cross_type_comparison [of int32 uint32 "-1" 1]
    cross_type_comparison [of uint64 int8 18446744073709551615 "-1"]
  by (simp add: ctype_defs)

text \<open>
  C5: saturated_cast, by the fast run-time path and by the constant-expression path, clamps the
  value to the limits of the destination; checked_cast returns the value exactly when it is in
  range and crashes otherwise.
\<close>

theorem casts_respect_range:
  assumes "cint Dst" "cint Src" "in_range Src v"
  shows "saturated_cast ct Dst Src v = max (nl_lowest Dst) (min (nl_max Dst) v)
    \<and> checked_cast Dst Src v = (if in_range Dst v then Some v else None)"
  using assms saturated_cast_eq [OF assms]
  by (simp add: clamp_to_def checked_cast_def)

theorem casts_respect_range_witness:
  "saturated_cast False uint8 int32 (-5) = 0 \<and> saturated_cast True int8 uint64 300 = 127
   \<and> checked_cast uint8 int32 256 = None"
  using casts_respect_range [of uint8 int32 "-5" False] casts_respect_range [of int8 uint64 300 True]
    casts_respect_range [of uint8 int32 256 False]
  by (simp add: ctype_defs)

text \<open>
  The static range relation is exact: strict_cast compiles precisely for the pairs of types
  whose conversion never changes a value, and then is the identity.
\<close>

theorem strict_cast_exact:
  assumes "cint Dst" "cint Src"
  shows "(\<forall>v. in_range Src v \<longrightarrow> in_range Dst v) \<longleftrightarrow> (\<forall>v. in_range Src v \<longrightarrow> strict_cast Dst Src v = Some v)"
proof -
  have "in_range Src 0" using assms by simp
  then show ?thesis
    using IsTypeInRange_iff [OF assms]
    by (auto simp: strict_cast_def IsTypeInRangeForNumericType_def)
qed

theorem strict_cast_exact_witness:
  "strict_cast int32 uint16 65535 = Some 65535"
proof -
  have "in_range int32 v" if "in_range uint16 v" for v using that by (simp add: ctype_defs)
  then show ?thesis
    using strict_cast_exact [of int32 uint16] by (simp add: ctype_defs)
qed

end
