(* ===== verification/Checked_Math.thy ===== *)
theory Checked_Math
  imports Safe_Conversions
begin

text \<open>
  Checked integer arithmetic: \<open>base/numerics/checked_math_impl.h\<close>,
  \<open>base/numerics/checked_math.h\<close> and the overflow builtins of
  \<open>base/numerics/safe_math_clang_gcc_impl.h\<close>. An operation \<open>Do(x, y, &result)\<close> is a function
  of the operand types, the type \<open>V\<close> of \<open>*result\<close>, the operands and the old value of
  \<open>*result\<close>; it returns the boolean and the new value of \<open>*result\<close>. Division and remainder
  return an option: \<open>None\<close> is undefined behaviour of the C++ operator.
\<close>

section \<open>Build configuration\<close>

text \<open>
  Which of the three compiled variants runs: no compiler support
  (\<open>BASE_HAS_OPTIMIZED_SAFE_MATH\<close> is 0), GCC, or Clang (whose multiply builtin is only used
  up to \<open>intptr_t\<close>); and the width of \<open>intptr_t\<close>.
\<close>

datatype math_backend = Portable | Gcc | Clang

record math_cfg =
  backend :: math_backend
  ptr_bits :: nat

definition intptr_t :: "math_cfg \<Rightarrow> ctype" where
  "intptr_t cfg = CType True (ptr_bits cfg)"

definition uintptr_t :: "math_cfg \<Rightarrow> ctype" where
  "uintptr_t cfg = CType False (ptr_bits cfg)"

definition cfg_ok :: "math_cfg \<Rightarrow> bool" where
  "cfg_ok cfg \<longleftrightarrow> ptr_bits cfg \<in> {32, 64}"

section \<open>The builtins\<close>

text \<open>
  \<open>__builtin_add_overflow\<close> and its siblings compute in unbounded precision, store the result
  cast to the destination type and report whether the cast changed it.
\<close>

definition CheckedAddFastOp :: "ctype \<Rightarrow> int \<Rightarrow> int \<Rightarrow> bool \<times> int" where
  "CheckedAddFastOp V x y = (in_range V (x + y), static_cast V (x + y))"

definition CheckedSubFastOp :: "ctype \<Rightarrow> int \<Rightarrow> int \<Rightarrow> bool \<times> int" where
  "CheckedSubFastOp V x y = (in_range V (x - y), static_cast V (x - y))"

definition CheckedMulFastOp :: "ctype \<Rightarrow> int \<Rightarrow> int \<Rightarrow> bool \<times> int" where
  "CheckedMulFastOp V x y = (in_range V (x * y), static_cast V (x * y))"

definition CheckedMulFastOp_is_supported :: "math_cfg \<Rightarrow> ctype \<Rightarrow> ctype \<Rightarrow> bool" where
  "CheckedMulFastOp_is_supported cfg T U \<longleftrightarrow>
     (case backend cfg of
        Portable \<Rightarrow> False
      | Gcc \<Rightarrow> True
      | Clang \<Rightarrow>
          (IsTypeInRangeForNumericType (intptr_t cfg) T
            \<and> IsTypeInRangeForNumericType (intptr_t cfg) U) \<or>
          (IsTypeInRangeForNumericType (uintptr_t cfg) T
            \<and> IsTypeInRangeForNumericType (uintptr_t cfg) U))"

section \<open>Addition, subtraction, multiplication\<close>

definition CheckedAddImpl :: "ctype \<Rightarrow> int \<Rightarrow> int \<Rightarrow> bool \<times> int" where
  "CheckedAddImpl T x y =
     (let UnsignedDst = make_unsigned T; SignedDst = make_signed T;
          ux = static_cast UnsignedDst x;
          uy = static_cast UnsignedDst y;
          uresult = static_cast UnsignedDst (ux + uy) in
      (if is_signed T
       then static_cast SignedDst (and (xor uresult ux) (xor uresult uy)) \<ge> 0
       else uresult \<ge> uy,
       static_cast T uresult))"

definition CheckedSubImpl :: "ctype \<Rightarrow> int \<Rightarrow> int \<Rightarrow> bool \<times> int" where
  "CheckedSubImpl T x y =
     (let UnsignedDst = make_unsigned T; SignedDst = make_signed T;
          ux = static_cast UnsignedDst x;
          uy = static_cast UnsignedDst y;
          uresult = static_cast UnsignedDst (ux - uy) in
      (if is_signed T
       then static_cast SignedDst (and (xor uresult ux) (xor ux uy)) \<ge> 0
       else x \<ge> y,
       static_cast T uresult))"

definition CheckedMulImpl :: "ctype \<Rightarrow> int \<Rightarrow> int \<Rightarrow> bool \<times> int" where
  "CheckedMulImpl T x y =
     (let UnsignedDst = make_unsigned T; SignedDst = make_signed T;
          ux = SafeUnsignedAbs T x;
          uy = SafeUnsignedAbs T y;
          uresult = static_cast UnsignedDst (ux * uy);
          is_negative = (is_signed T \<and> static_cast SignedDst (xor x y) < 0) in
      (uy \<le> of_bool (\<not> is_signed T \<or> is_negative) \<or>
       ux \<le> (nl_max T + of_bool is_negative) div uy,
       static_cast T (if is_negative then 0 - uresult else uresult)))"

text \<open>Doubling the operand type, but not past the machine word.\<close>

definition AddSubPromotion :: "math_cfg \<Rightarrow> ctype \<Rightarrow> ctype \<Rightarrow> ctype" where
  "AddSubPromotion cfg T U =
     (let FastPromotion = FastIntegerArithmeticPromotion T U in
      if IntegerBitsPlusSign FastPromotion > IntegerBitsPlusSign (intptr_t cfg)
      then BigEnoughPromotion T U else FastPromotion)"

definition CheckedAddOp ::
  "math_cfg \<Rightarrow> ctype \<Rightarrow> ctype \<Rightarrow> ctype \<Rightarrow> int \<Rightarrow> int \<Rightarrow> int \<Rightarrow> bool \<times> int" where
  "CheckedAddOp cfg T U V x y result =
     (if backend cfg \<noteq> Portable then CheckedAddFastOp V x y
      else
        let P = AddSubPromotion cfg T U in
        if \<not> IsValueInRangeForNumericType P T x \<or> \<not> IsValueInRangeForNumericType P U y
        then (False, result)
        else
          let (is_valid, presult) =
                (if IsIntegerArithmeticSafe P T U
                 then (True, static_cast P (static_cast P x + static_cast P y))
                 else CheckedAddImpl P (static_cast P x) (static_cast P y)) in
          (is_valid \<and> IsValueInRangeForNumericType V P presult, static_cast V presult))"

definition CheckedSubOp ::
  "math_cfg \<Rightarrow> ctype \<Rightarrow> ctype \<Rightarrow> ctype \<Rightarrow> int \<Rightarrow> int \<Rightarrow> int \<Rightarrow> bool \<times> int" where
  "CheckedSubOp cfg T U V x y result =
     (if backend cfg \<noteq> Portable then CheckedSubFastOp V x y
      else
        let P = AddSubPromotion cfg T U in
        if \<not> IsValueInRangeForNumericType P T x \<or> \<not> IsValueInRangeForNumericType P U y
        then (False, result)
        else
          let (is_valid, presult) =
                (if IsIntegerArithmeticSafe P T U
                 then (True, static_cast P (static_cast P x - static_cast P y))
                 else CheckedSubImpl P (static_cast P x) (static_cast P y)) in
          (is_valid \<and> IsValueInRangeForNumericType V P presult, static_cast V presult))"

definition CheckedMulOp ::
  "math_cfg \<Rightarrow> ctype \<Rightarrow> ctype \<Rightarrow> ctype \<Rightarrow> int \<Rightarrow> int \<Rightarrow> int \<Rightarrow> bool \<times> int" where
  "CheckedMulOp cfg T U V x y result =
     (if CheckedMulFastOp_is_supported cfg T U then CheckedMulFastOp V x y
      else
        let P = FastIntegerArithmeticPromotion T U in
        if (\<not> IsValueInRangeForNumericType P T x \<or> \<not> IsValueInRangeForNumericType P U y)
           \<and> x \<noteq> 0 \<and> y \<noteq> 0
        then (False, result)
        else
          let (is_valid, presult) =
                (if CheckedMulFastOp_is_supported cfg P P
                 then CheckedMulFastOp P (static_cast P x) (static_cast P y)
                 else if IsIntegerArithmeticSafe P T U
                 then (True, static_cast P (static_cast P x * static_cast P y))
                 else CheckedMulImpl P (static_cast P x) (static_cast P y)) in
          (is_valid \<and> IsValueInRangeForNumericType V P presult, static_cast V presult))"

section \<open>Division and remainder\<close>

text \<open>
  The C++ operators on two operands of type \<open>P\<close>: undefined for a zero divisor, and for the
  least signed value divided by \<open>-1\<close> in the promoted type.
\<close>

definition div_undefined :: "ctype \<Rightarrow> int \<Rightarrow> int \<Rightarrow> bool" where
  "div_undefined P a b \<longleftrightarrow>
     b = 0 \<or> (is_signed P \<and> a = nl_lowest (int_promote P) \<and> b = -1)"

definition CheckedDivOp ::
  "ctype \<Rightarrow> ctype \<Rightarrow> ctype \<Rightarrow> int \<Rightarrow> int \<Rightarrow> int \<Rightarrow> (bool \<times> int) option" where
  "CheckedDivOp T U V x y result =
     (if y = 0 then Some (False, result)
      else
        let P = BigEnoughPromotion T U in
        if is_signed T \<and> is_signed U \<and> IsTypeInRangeForNumericType T P
           \<and> static_cast P x = nl_lowest P \<and> y = static_cast U (-1)
        then Some (False, result)
        else if (\<not> IsValueInRangeForNumericType P T x \<or> \<not> IsValueInRangeForNumericType P U y)
                \<and> x \<noteq> 0
        then Some (False, result)
        else if div_undefined P (static_cast P x) (static_cast P y) then None
        else
          let presult = static_cast P (trunc_div (static_cast P x) (static_cast P y)) in
          Some (IsValueInRangeForNumericType V P presult, static_cast V presult))"

definition CheckedModOp ::
  "ctype \<Rightarrow> ctype \<Rightarrow> ctype \<Rightarrow> int \<Rightarrow> int \<Rightarrow> int \<Rightarrow> (bool \<times> int) option" where
  "CheckedModOp T U V x y result =
     (let P = BigEnoughPromotion T U in
      if y \<noteq> 0 then
        if div_undefined P (static_cast P x) (static_cast P y) then None
        else
          let presult = static_cast P (trunc_mod (static_cast P x) (static_cast P y)) in
          Some (IsValueInRangeForNumericType V P presult, static_cast V (static_cast P presult))
      else Some (False, result))"

section \<open>Shifts, bit operations, maximum and minimum\<close>

definition CheckedLshOp ::
  "ctype \<Rightarrow> ctype \<Rightarrow> ctype \<Rightarrow> int \<Rightarrow> int \<Rightarrow> int \<Rightarrow> bool \<times> int" where
  "CheckedLshOp T U V x shift result =
     (if \<not> IsValueNegative T x \<and> as_unsigned U shift < int (nl_digits T)
      then
        let r = static_cast V (static_cast (int_promote (make_unsigned T))
                  (push_bit (nat shift) (as_unsigned T x))); A = arith_type V T in
        (static_cast A (drop_bit (nat shift) r) = static_cast A x, r)
      else (is_signed T \<and> x = 0 \<and> as_unsigned U shift = int (nl_digits T), result))"

definition CheckedRshOp ::
  "ctype \<Rightarrow> ctype \<Rightarrow> ctype \<Rightarrow> int \<Rightarrow> int \<Rightarrow> int \<Rightarrow> bool \<times> int" where
  "CheckedRshOp T U V x shift result =
     (if as_unsigned U shift < int (IntegerBitsPlusSign T)
      then
        let tmp = static_cast T (drop_bit (nat shift) x) in
        (IsValueInRangeForNumericType V T tmp, static_cast V tmp)
      else (False, result))"

definition BitResultType :: "ctype \<Rightarrow> ctype \<Rightarrow> ctype" where
  "BitResultType T U = make_unsigned (MaxExponentPromotion T U)"

definition CheckedAndOp :: "ctype \<Rightarrow> ctype \<Rightarrow> ctype \<Rightarrow> int \<Rightarrow> int \<Rightarrow> bool \<times> int" where
  "CheckedAndOp T U V x y =
     (let R = BitResultType T U; tmp = and (static_cast R x) (static_cast R y) in
      (IsValueInRangeForNumericType V R tmp, static_cast V tmp))"

definition CheckedOrOp :: "ctype \<Rightarrow> ctype \<Rightarrow> ctype \<Rightarrow> int \<Rightarrow> int \<Rightarrow> bool \<times> int" where
  "CheckedOrOp T U V x y =
     (let R = BitResultType T U; tmp = or (static_cast R x) (static_cast R y) in
      (IsValueInRangeForNumericType V R tmp, static_cast V tmp))"

definition CheckedXorOp :: "ctype \<Rightarrow> ctype \<Rightarrow> ctype \<Rightarrow> int \<Rightarrow> int \<Rightarrow> bool \<times> int" where
  "CheckedXorOp T U V x y =
     (let R = BitResultType T U; tmp = xor (static_cast R x) (static_cast R y) in
      (IsValueInRangeForNumericType V R tmp, static_cast V tmp))"

definition CheckedMaxOp :: "ctype \<Rightarrow> ctype \<Rightarrow> ctype \<Rightarrow> int \<Rightarrow> int \<Rightarrow> bool \<times> int" where
  "CheckedMaxOp T U V x y =
     (let R = MaxExponentPromotion T U;
          tmp = (if IsGreater T U x y then static_cast R x else static_cast R y) in
      (IsValueInRangeForNumericType V R tmp, static_cast V tmp))"

definition CheckedMinOp :: "ctype \<Rightarrow> ctype \<Rightarrow> ctype \<Rightarrow> int \<Rightarrow> int \<Rightarrow> bool \<times> int" where
  "CheckedMinOp T U V x y =
     (let R = LowestValuePromotion T U;
          tmp = (if IsLess T U x y then static_cast R x else static_cast R y) in
      (IsValueInRangeForNumericType V R tmp, static_cast V tmp))"

section \<open>Static checks over all types\<close>

text \<open>
  The eight types as a list: a fact about static type computations is checked by evaluating it
  on all of them.
\<close>

definition all_ctypes :: "ctype list" where
  "all_ctypes = [int8, uint8, int16, uint16, int32, uint32, int64, uint64]"

definition promotions_ok :: "math_cfg \<Rightarrow> ctype \<Rightarrow> ctype \<Rightarrow> bool" where
  "promotions_ok cfg T U \<longleftrightarrow>
     int_bits (BigEnoughPromotion T U) \<in> {8, 16, 32, 64} \<and>
     int_bits (FastIntegerArithmeticPromotion T U) \<in> {8, 16, 32, 64} \<and>
     int_bits T \<le> int_bits (BigEnoughPromotion T U) \<and>
     int_bits U \<le> int_bits (BigEnoughPromotion T U) \<and>
     (BigEnough_is_contained T U \<longrightarrow>
       IsTypeInRangeForNumericType (BigEnoughPromotion T U) T \<and>
       IsTypeInRangeForNumericType (BigEnoughPromotion T U) U \<and>
       IsTypeInRangeForNumericType (FastIntegerArithmeticPromotion T U) T \<and>
       IsTypeInRangeForNumericType (FastIntegerArithmeticPromotion T U) U)"

section \<open>The portable algorithms compute the exact result or report overflow\<close>

lemma static_cast_wrap:
  assumes "0 < int_bits t" and "in_range t (v - k * 2 ^ int_bits t)"
  shows "static_cast t v = v - k * 2 ^ int_bits t"
proof -
  have "(v - k * 2 ^ int_bits t) mod 2 ^ int_bits t = v mod 2 ^ int_bits t"
    by (metis mod_diff_right_eq mod_mult_self2_is_0 diff_zero)
  then have "static_cast t v = static_cast t (v - k * 2 ^ int_bits t)"
    using assms(1) by (intro static_cast_cong) simp_all
  then show ?thesis using assms(2) by simp
qed

lemma signed_cast_nonneg_iff:
  "is_signed t \<Longrightarrow> 0 \<le> static_cast t w \<longleftrightarrow> \<not> bit w (int_bits t - Suc 0)"
  by (simp add: static_cast_def signed_take_bit_nonnegative_iff)

lemma sign_bit_of_value:
  assumes "is_signed t" "in_range t x"
  shows "bit x (int_bits t - Suc 0) \<longleftrightarrow> x < 0"
  using signed_cast_nonneg_iff [OF assms(1), of x] assms(2) by auto

lemma bit_cast_unsigned:
  "0 < int_bits t \<Longrightarrow>
   bit (static_cast (make_unsigned t) v) (int_bits t - Suc 0) \<longleftrightarrow> bit v (int_bits t - Suc 0)"
  by (simp add: static_cast_def bit_take_bit_iff)

lemma bit_wrapped_sum:
  assumes "is_signed t" "0 < int_bits t"
  shows "bit v (int_bits t - Suc 0) \<longleftrightarrow> static_cast t v < 0"
  using signed_cast_nonneg_iff [OF assms(1), of v] by auto

lemma static_cast_unsigned_sum:
  assumes "0 < int_bits t"
  shows "static_cast t (static_cast (make_unsigned t) x + static_cast (make_unsigned t) y)
      = static_cast t (x + y)"
    and "static_cast t (static_cast (make_unsigned t) x - static_cast (make_unsigned t) y)
      = static_cast t (x - y)"
proof -
  have m: "static_cast (make_unsigned t) v mod 2 ^ int_bits t = v mod 2 ^ int_bits t" for v
    using static_cast_mod [of "make_unsigned t" v] assms by simp
  show "static_cast t (static_cast (make_unsigned t) x + static_cast (make_unsigned t) y)
      = static_cast t (x + y)"
    using assms m by (intro static_cast_cong) (auto intro: mod_add_cong)
  show "static_cast t (static_cast (make_unsigned t) x - static_cast (make_unsigned t) y)
      = static_cast t (x - y)"
    using assms m by (intro static_cast_cong) (auto intro: mod_diff_cong)
qed

lemma signed_overflow_wraps:
  assumes "is_signed t" "0 < int_bits t"
  shows "nl_max t < v \<Longrightarrow> v \<le> nl_max t + 2 ^ (int_bits t - 1) \<Longrightarrow> static_cast t v < 0"
    and "v < nl_lowest t \<Longrightarrow> nl_lowest t - 2 ^ (int_bits t - 1) \<le> v \<Longrightarrow> 0 \<le> static_cast t v"
  using assms static_cast_wrap [of t v 1] static_cast_wrap [of t v "-1"]
    power_bits_split [of "int_bits t"]
  by (auto simp: ctype_defs)

lemma signed_sum_sign_test:
  assumes t: "is_signed t" "0 < int_bits t" and r: "in_range t x" "in_range t y"
  shows "in_range t (x + y) \<longleftrightarrow>
    \<not> ((static_cast t (x + y) < 0) \<noteq> (x < 0) \<and> (static_cast t (x + y) < 0) \<noteq> (y < 0))"
  using signed_overflow_wraps [OF t, of "x + y"] r t
  by (cases "in_range t (x + y)") (auto simp: ctype_defs not_le)

lemma signed_diff_sign_test:
  assumes t: "is_signed t" "0 < int_bits t" and r: "in_range t x" "in_range t y"
  shows "in_range t (x - y) \<longleftrightarrow>
    \<not> ((static_cast t (x - y) < 0) \<noteq> (x < 0) \<and> (x < 0) \<noteq> (y < 0))"
  using signed_overflow_wraps [OF t, of "x - y"] r t
  by (cases "in_range t (x - y)") (auto simp: ctype_defs not_le)

lemma CheckedAddImpl_correct:
  assumes t: "0 < int_bits T" and r: "in_range T x" "in_range T y"
  shows "CheckedAddImpl T x y = (in_range T (x + y), static_cast T (x + y))"
proof (cases "is_signed T")
  case True
  then show ?thesis
    using t r signed_sum_sign_test [OF True t r] static_cast_unsigned_sum(1) [OF t, of x y]
      bit_wrapped_sum [OF True t, of "static_cast (make_unsigned T) x + static_cast (make_unsigned T) y"]
    by (simp add: CheckedAddImpl_def Let_def signed_cast_nonneg_iff bit_and_iff bit_xor_iff
        bit_cast_unsigned sign_bit_of_value del: static_cast_id)
next
  case False
  then have u: "make_unsigned T = T" by (cases T) (simp add: make_unsigned_def)
  have "static_cast T (x + y) = (if x + y < 2 ^ int_bits T then x + y else x + y - 2 ^ int_bits T)"
    using static_cast_wrap [OF t, of "x + y" 0] static_cast_wrap [OF t, of "x + y" 1] r False
    by (auto simp: ctype_defs)
  then have "y \<le> static_cast T (x + y) \<longleftrightarrow> in_range T (x + y)"
    using r False by (auto simp: ctype_defs)
  with False u t r show ?thesis
    by (simp add: CheckedAddImpl_def Let_def)
qed

lemma CheckedSubImpl_correct:
  assumes t: "0 < int_bits T" and r: "in_range T x" "in_range T y"
  shows "CheckedSubImpl T x y = (in_range T (x - y), static_cast T (x - y))"
proof (cases "is_signed T")
  case True
  then show ?thesis
    using t r signed_diff_sign_test [OF True t r] static_cast_unsigned_sum(2) [OF t, of x y]
      bit_wrapped_sum [OF True t, of "static_cast (make_unsigned T) x - static_cast (make_unsigned T) y"]
    by (simp add: CheckedSubImpl_def Let_def signed_cast_nonneg_iff bit_and_iff bit_xor_iff
        bit_cast_unsigned sign_bit_of_value del: static_cast_id)
next
  case False
  then have u: "make_unsigned T = T" by (cases T) (simp add: make_unsigned_def)
  have "y \<le> x \<longleftrightarrow> in_range T (x - y)"
    using r False by (auto simp: ctype_defs)
  with False u t r show ?thesis
    by (simp add: CheckedSubImpl_def Let_def)
qed

lemma le_div_iff_mult_le:
  assumes b: "0 < (b::int)"
  shows "a \<le> c div b \<longleftrightarrow> a * b \<le> c"
proof
  assume "a \<le> c div b"
  then have "a * b \<le> (c div b) * b" using b by simp
  also have "\<dots> \<le> c" using b by (simp add: minus_mod_eq_div_mult [symmetric])
  finally show "a * b \<le> c" .
next
  assume "a * b \<le> c"
  then show "a \<le> c div b" using b zdiv_mono1 [of "a * b" c b] by simp
qed

lemma abs_mult_sign:
  "x * y = (if (x < 0) \<noteq> (y < (0::int)) then - (\<bar>x\<bar> * \<bar>y\<bar>) else \<bar>x\<bar> * \<bar>y\<bar>)"
  by (auto simp: abs_if)

lemma CheckedMulImpl_correct:
  assumes t: "0 < int_bits T" and r: "in_range T x" "in_range T y"
  shows "CheckedMulImpl T x y = (in_range T (x * y), static_cast T (x * y))"
proof -
  define neg where "neg \<longleftrightarrow> is_signed T \<and> static_cast (make_signed T) (xor x y) < 0"
  have neg: "neg \<longleftrightarrow> (x < 0) \<noteq> (y < 0)"
  proof (cases "is_signed T")
    case True
    then have "make_signed T = T" by (cases T) (simp add: make_signed_def)
    then show ?thesis
      using True r t bit_wrapped_sum [OF True t, of "xor x y"]
      by (simp add: neg_def bit_xor_iff sign_bit_of_value)
  qed (use r in \<open>auto simp: neg_def ctype_defs\<close>)
  define m where "m = nl_max T + of_bool neg"
  have bound: "in_range T (x * y) \<longleftrightarrow> \<bar>x\<bar> * \<bar>y\<bar> \<le> m"
  proof -
    define p where "p = \<bar>x\<bar> * \<bar>y\<bar>"
    have "0 \<le> p" by (simp add: p_def)
    moreover have "x * y = (if neg then - p else p)"
      using abs_mult_sign [of x y] neg by (simp add: p_def)
    moreover have "neg \<Longrightarrow> is_signed T" by (simp add: neg_def)
    ultimately show ?thesis
      unfolding m_def in_range_def p_def [symmetric]
      by (auto simp: nl_lowest_def nl_max_def intro: le_less_trans [of _ 0] split: if_splits)
  qed
  have test: "\<bar>y\<bar> \<le> of_bool (\<not> is_signed T \<or> neg) \<or> \<bar>x\<bar> \<le> m div \<bar>y\<bar> \<longleftrightarrow> \<bar>x\<bar> * \<bar>y\<bar> \<le> m"
  proof (cases "y = 0")
    case True then show ?thesis by (simp add: m_def add_increasing)
  next
    case False
    have "\<bar>x\<bar> * \<bar>y\<bar> \<le> m" if y1: "\<bar>y\<bar> \<le> of_bool (\<not> is_signed T \<or> neg)"
    proof -
      have "\<bar>y\<bar> = 1" "\<not> is_signed T \<or> neg"
        using y1 False by (cases "\<not> is_signed T \<or> neg"; auto)+
      moreover from this(2) have "\<bar>x\<bar> \<le> m"
        using r unfolding m_def by (auto simp: ctype_defs neg abs_if split: if_splits)
      ultimately show ?thesis by simp
    qed
    then show ?thesis
      using False le_div_iff_mult_le [of "\<bar>y\<bar>" "\<bar>x\<bar>" m] by auto
  qed
  have res: "static_cast T (if neg then 0 - static_cast (make_unsigned T) (\<bar>x\<bar> * \<bar>y\<bar>)
        else static_cast (make_unsigned T) (\<bar>x\<bar> * \<bar>y\<bar>)) = static_cast T (x * y)"
    using t neg abs_mult_sign [of x y] static_cast_unsigned_sum(2) [OF t, of 0 "\<bar>x\<bar> * \<bar>y\<bar>"]
    by (auto split: if_splits)
  show ?thesis
    unfolding CheckedMulImpl_def Let_def SafeUnsignedAbs_eq [OF t r(1)] SafeUnsignedAbs_eq [OF t r(2)]
      neg_def [symmetric] m_def [symmetric]
    by (simp only: test bound res)
qed

section \<open>Promotions contain the operands\<close>

lemma cint_iff_all: "cint t \<longleftrightarrow> t \<in> set all_ctypes"
  by (cases t; cases "is_signed t") (auto simp: cint_def all_ctypes_def)

lemma promotions_ok_all: "list_all (\<lambda>T. list_all (promotions_ok cfg T) all_ctypes) all_ctypes"
  by (simp add: all_ctypes_def promotions_ok_def BigEnoughPromotion_def BigEnough_is_contained_def
      FastIntegerArithmeticPromotion_def IsTypeInRangeForNumericType_def
      BigEnough_is_max_exponent_def BigEnough_is_intmax_def StaticDstRangeRelationToSrcRange_def
      IsIntegerArithmeticSafe_def TwiceWiderInteger_def MaxExponentPromotion_def MaxExponent_def
      IntegerBitsPlusSign_def nl_digits_def Let_def)

lemma promotions_ok: "cint T \<Longrightarrow> cint U \<Longrightarrow> promotions_ok cfg T U"
  using promotions_ok_all [of cfg] by (auto simp: cint_iff_all list_all_iff)

lemma BigEnough_cint [simp]: "cint T \<Longrightarrow> cint U \<Longrightarrow> cint (BigEnoughPromotion T U)"
  and Fast_cint [simp]: "cint T \<Longrightarrow> cint U \<Longrightarrow> cint (FastIntegerArithmeticPromotion T U)"
  and MaxExponent_cint [simp]: "cint T \<Longrightarrow> cint U \<Longrightarrow> cint (MaxExponentPromotion T U)"
  and LowestValue_cint [simp]: "cint T \<Longrightarrow> cint U \<Longrightarrow> cint (LowestValuePromotion T U)"
  and AddSub_cint [simp]: "cint T \<Longrightarrow> cint U \<Longrightarrow> cint (AddSubPromotion cfg T U)"
  using promotions_ok [of T U undefined]
  by (auto simp: promotions_ok_def cint_def AddSubPromotion_def MaxExponentPromotion_def
      LowestValuePromotion_def Let_def)

lemma promotion_contains:
  assumes "cint T" "cint U" "BigEnough_is_contained T U" "in_range T x" "in_range U y"
  shows "in_range (BigEnoughPromotion T U) x" "in_range (BigEnoughPromotion T U) y"
    and "in_range (FastIntegerArithmeticPromotion T U) x"
    and "in_range (FastIntegerArithmeticPromotion T U) y"
    and "in_range (AddSubPromotion cfg T U) x" "in_range (AddSubPromotion cfg T U) y"
  using promotions_ok [OF assms(1,2), of undefined] assms IsTypeInRange_iff
  by (auto simp: promotions_ok_def AddSubPromotion_def Let_def)

lemma IntegerBits_cint [simp]: "cint t \<Longrightarrow> IntegerBitsPlusSign t = int_bits t"
  by (auto simp: IntegerBitsPlusSign_def nl_digits_def)

lemma in_range_abs_bound: "0 < int_bits t \<Longrightarrow> in_range t x \<Longrightarrow> \<bar>x\<bar> < 2 ^ int_bits t"
  using power_bits_split [of "int_bits t"]
  by (auto simp: ctype_defs abs_if split: if_splits)

lemma safe_bounds:
  assumes "cint P" "cint T" "cint U" and safe: "IsIntegerArithmeticSafe P T U"
    and r: "in_range T x" "in_range U y"
  shows "\<bar>x\<bar> * 4 < 2 ^ int_bits P \<and> \<bar>y\<bar> * 4 < 2 ^ int_bits P"
    and "\<not> is_signed P \<Longrightarrow> 0 \<le> x \<and> 0 \<le> y"
proof -
  have b: "int_bits T + 2 \<le> int_bits P" "int_bits U + 2 \<le> int_bits P"
    using safe assms(1-3) by (auto simp: IsIntegerArithmeticSafe_def cint_def)
  have "(2::int) ^ (int_bits T + 2) \<le> 2 ^ int_bits P" "(2::int) ^ (int_bits U + 2) \<le> 2 ^ int_bits P"
    by (rule power_increasing [OF b(1)], simp) (rule power_increasing [OF b(2)], simp)
  then show "\<bar>x\<bar> * 4 < 2 ^ int_bits P \<and> \<bar>y\<bar> * 4 < 2 ^ int_bits P"
    using in_range_abs_bound [of T x] in_range_abs_bound [of U y] r assms(2,3)
    by (auto simp: power_add)
  show "\<not> is_signed P \<Longrightarrow> 0 \<le> x \<and> 0 \<le> y"
    using safe r by (auto simp: IsIntegerArithmeticSafe_def ctype_defs split: if_splits)
qed

lemma in_range_small: "0 < int_bits P \<Longrightarrow> \<bar>v\<bar> * 2 < 2 ^ int_bits P \<Longrightarrow> (\<not> is_signed P \<Longrightarrow> 0 \<le> v) \<Longrightarrow> in_range P v"
  using power_bits_split [of "int_bits P"]
  by (auto simp: ctype_defs abs_if split: if_splits)

lemma safe_sum_in_range:
  assumes "cint P" "cint T" "cint U" "IsIntegerArithmeticSafe P T U" "in_range T x" "in_range U y"
  shows "in_range P x" "in_range P y" "in_range P (x + y)" "is_signed P \<Longrightarrow> in_range P (x - y)"
  using safe_bounds [OF assms] assms(1) abs_triangle_ineq [of x y] abs_triangle_ineq4 [of x y]
  by (auto intro!: in_range_small)

section \<open>Correctness of the checked operations\<close>

text \<open>
  On the portable path an operation succeeds exactly when both operands and the result fit the
  promoted type and the result fits the destination.
\<close>

lemma CheckedAddOp_portable:
  assumes "backend cfg = Portable" and ct: "cint T" "cint U" "cint V"
    and r: "in_range T x" "in_range U y"
  defines "P \<equiv> AddSubPromotion cfg T U"
  shows "fst (CheckedAddOp cfg T U V x y result) \<longleftrightarrow>
      in_range P x \<and> in_range P y \<and> in_range P (x + y) \<and> in_range V (x + y)"
    and "fst (CheckedAddOp cfg T U V x y result) \<Longrightarrow> snd (CheckedAddOp cfg T U V x y result) = x + y"
proof -
  have P: "cint P" using ct by (simp add: P_def)
  have "CheckedAddOp cfg T U V x y result =
     (if in_range P x \<and> in_range P y
      then (in_range P (x + y) \<and> in_range V (static_cast P (x + y)), static_cast V (static_cast P (x + y)))
      else (False, result))"
    using assms(1) P ct r safe_sum_in_range(3) [OF P ct(1,2) _ r]
    by (auto simp: CheckedAddOp_def P_def [symmetric] CheckedAddImpl_correct static_cast_in_range Let_def)
  then show "fst (CheckedAddOp cfg T U V x y result) \<longleftrightarrow>
      in_range P x \<and> in_range P y \<and> in_range P (x + y) \<and> in_range V (x + y)"
    and "fst (CheckedAddOp cfg T U V x y result) \<Longrightarrow> snd (CheckedAddOp cfg T U V x y result) = x + y"
    by (auto split: if_splits)
qed

lemma CheckedSubOp_portable:
  assumes "backend cfg = Portable" and ct: "cint T" "cint U" "cint V"
    and r: "in_range T x" "in_range U y"
    and V: "nl_max V \<le> max (nl_max T) (nl_max U)"
  defines "P \<equiv> AddSubPromotion cfg T U"
  shows "fst (CheckedSubOp cfg T U V x y result) \<longleftrightarrow>
      in_range P x \<and> in_range P y \<and> in_range P (x - y) \<and> in_range V (x - y)"
    and "fst (CheckedSubOp cfg T U V x y result) \<Longrightarrow> snd (CheckedSubOp cfg T U V x y result) = x - y"
proof -
  have P: "cint P" using ct by (simp add: P_def)
  have wrapped: "\<not> in_range V (static_cast P (x - y))"
    if safe: "IsIntegerArithmeticSafe P T U" and out: "\<not> in_range P (x - y)"
  proof -
    have uns: "\<not> is_signed P" using safe_sum_in_range(4) [OF P ct(1,2) safe r] out by auto
    note b = safe_bounds [OF P ct(1,2) safe] 
    have xy: "x < y" "0 \<le> x"
      using b(2) [OF r uns] out uns b(1) [OF r] by (auto simp: ctype_defs)
    have "static_cast P (x - y) = x - y + 2 ^ int_bits P"
      using static_cast_wrap [of P "x - y" "-1"] P xy uns b(1) [OF r] by (simp add: ctype_defs)
    moreover have "nl_max T * 4 < 2 ^ int_bits P" "nl_max U * 4 < 2 ^ int_bits P"
      using b(1) [of "nl_max T" "nl_max U"] by auto
    ultimately show ?thesis
      using V xy b(1) [OF r] by (auto simp: in_range_def)
  qed
  have "CheckedSubOp cfg T U V x y result =
     (if in_range P x \<and> in_range P y
      then ((IsIntegerArithmeticSafe P T U \<or> in_range P (x - y)) \<and> in_range V (static_cast P (x - y)),
            static_cast V (static_cast P (x - y)))
      else (False, result))"
    using assms(1) P ct r
    by (auto simp: CheckedSubOp_def P_def [symmetric] CheckedSubImpl_correct static_cast_in_range Let_def)
  then show "fst (CheckedSubOp cfg T U V x y result) \<longleftrightarrow>
      in_range P x \<and> in_range P y \<and> in_range P (x - y) \<and> in_range V (x - y)"
    and "fst (CheckedSubOp cfg T U V x y result) \<Longrightarrow> snd (CheckedSubOp cfg T U V x y result) = x - y"
    using wrapped by (auto split: if_splits) (metis static_cast_id)+
qed

lemma in_range_abs_signed: "is_signed t \<Longrightarrow> in_range t x \<Longrightarrow> \<bar>x\<bar> \<le> 2 ^ (int_bits t - 1)"
  by (auto simp: ctype_defs abs_if split: if_splits)

lemma safe_product_in_range:
  assumes ct: "cint P" "cint T" "cint U" and safe: "IsIntegerArithmeticSafe P T U"
    and r: "in_range T x" "in_range U y" and sg: "is_signed P \<Longrightarrow> is_signed T \<or> is_signed U"
  shows "in_range P (x * y)"
proof -
  have b: "int_bits T + int_bits U \<le> int_bits P" "0 < int_bits T" "0 < int_bits U"
    using safe ct by (auto simp: IsIntegerArithmeticSafe_def)
  have pb: "(2::int) ^ (int_bits T + int_bits U) \<le> 2 ^ int_bits P"
    using b by (intro power_increasing) auto
  have lt: "\<bar>x\<bar> < 2 ^ int_bits T" "\<bar>y\<bar> < 2 ^ int_bits U"
    using in_range_abs_bound r b by auto
  have "\<bar>x * y\<bar> < 2 ^ int_bits T * 2 ^ int_bits U"
    using lt by (auto simp: abs_mult intro: mult_strict_mono)
  then have full: "\<bar>x * y\<bar> < 2 ^ int_bits P" using pb by (simp add: power_add)
  show ?thesis
  proof (cases "is_signed P")
    case False
    then have "0 \<le> x" "0 \<le> y" using safe_bounds(2) [OF ct safe r] by auto
    then show ?thesis using False full by (simp add: ctype_defs)
  next
    case True
    have half: "(2::int) ^ int_bits P = 2 * 2 ^ (int_bits P - 1)"
      using ct by (simp add: power_bits_split)
    have "\<bar>x\<bar> * \<bar>y\<bar> * 2 < 2 ^ int_bits T * 2 ^ int_bits U"
    proof (cases "is_signed T")
      case True
      have "2 * \<bar>x\<bar> \<le> 2 ^ int_bits T"
        using in_range_abs_signed [OF True r(1)] power_bits_split [OF b(2)] by simp
      then have "(2 * \<bar>x\<bar>) * \<bar>y\<bar> \<le> 2 ^ int_bits T * \<bar>y\<bar>"
        by (intro mult_right_mono) auto
      also have "\<dots> < 2 ^ int_bits T * 2 ^ int_bits U"
        using lt by (intro mult_strict_left_mono) auto
      finally have "(2 * \<bar>x\<bar>) * \<bar>y\<bar> < 2 ^ int_bits T * 2 ^ int_bits U" .
      then show ?thesis by (simp add: mult_ac)
    next
      case False
      then have "is_signed U" using sg True by auto
      then have "2 * \<bar>y\<bar> \<le> 2 ^ int_bits U"
        using in_range_abs_signed [OF _ r(2)] power_bits_split [OF b(3)] by simp
      then have "\<bar>x\<bar> * (2 * \<bar>y\<bar>) \<le> \<bar>x\<bar> * 2 ^ int_bits U"
        by (intro mult_left_mono) auto
      also have "\<dots> < 2 ^ int_bits T * 2 ^ int_bits U"
        using lt by (intro mult_strict_right_mono) auto
      finally have "\<bar>x\<bar> * (2 * \<bar>y\<bar>) < 2 ^ int_bits T * 2 ^ int_bits U" .
      then show ?thesis by (simp add: mult_ac)
    qed
    then have "\<bar>x * y\<bar> * 2 < 2 ^ int_bits P"
      using pb by (simp add: power_add abs_mult)
    then show ?thesis using True ct by (intro in_range_small) auto
  qed
qed

lemma Fast_signed: "is_signed (FastIntegerArithmeticPromotion T U) \<Longrightarrow> is_signed T \<or> is_signed U"
  by (auto simp: FastIntegerArithmeticPromotion_def BigEnoughPromotion_def TwiceWiderInteger_def
      MaxExponentPromotion_def Let_def split: if_splits)

lemma CheckedMulOp_correct:
  assumes "\<not> CheckedMulFastOp_is_supported cfg T U" and ct: "cint T" "cint U" "cint V"
    and r: "in_range T x" "in_range U y"
  defines "P \<equiv> FastIntegerArithmeticPromotion T U"
  shows "fst (CheckedMulOp cfg T U V x y result) \<longleftrightarrow>
      (x = 0 \<or> y = 0 \<or> in_range P x \<and> in_range P y \<and> in_range P (x * y)) \<and> in_range V (x * y)"
    and "fst (CheckedMulOp cfg T U V x y result) \<Longrightarrow> snd (CheckedMulOp cfg T U V x y result) = x * y"
proof -
  have P: "cint P" using ct by (simp add: P_def)
  define px py where "px = static_cast P x" and "py = static_cast P y"
  have rp: "in_range P px" "in_range P py" using P by (simp_all add: px_def py_def static_cast_in_range)
  have safe: "IsIntegerArithmeticSafe P T U \<Longrightarrow> in_range P (px * py)"
    using safe_product_in_range [OF P ct(1,2) _ r] safe_sum_in_range(1,2) [OF P ct(1,2) _ r]
      Fast_signed [of T U] by (auto simp: px_def py_def P_def [symmetric])
  have z: "x = 0 \<Longrightarrow> px = 0" "y = 0 \<Longrightarrow> py = 0" using P by (simp_all add: px_def py_def)
  have zero: "px * py = x * y" if "x = 0 \<or> y = 0 \<or> in_range P x \<and> in_range P y"
    using that P by (auto simp: px_def py_def)
  have "CheckedMulOp cfg T U V x y result =
     (if x = 0 \<or> y = 0 \<or> in_range P x \<and> in_range P y
      then (in_range P (px * py) \<and> in_range V (static_cast P (px * py)),
            static_cast V (static_cast P (px * py)))
      else (False, result))"
    using assms(1) P ct r rp safe z
    by (auto simp: CheckedMulOp_def P_def [symmetric] CheckedMulImpl_correct CheckedMulFastOp_def
        static_cast_in_range Let_def px_def [symmetric] py_def [symmetric])
  then show "fst (CheckedMulOp cfg T U V x y result) \<longleftrightarrow>
      (x = 0 \<or> y = 0 \<or> in_range P x \<and> in_range P y \<and> in_range P (x * y)) \<and> in_range V (x * y)"
    and "fst (CheckedMulOp cfg T U V x y result) \<Longrightarrow> snd (CheckedMulOp cfg T U V x y result) = x * y"
    using zero P by (auto split: if_splits)
qed

lemma BigEnough_wide:
  "cint T \<Longrightarrow> cint U \<Longrightarrow> int_bits T \<le> int_bits (BigEnoughPromotion T U)"
  "cint T \<Longrightarrow> cint U \<Longrightarrow> int_bits U \<le> int_bits (BigEnoughPromotion T U)"
  using promotions_ok [of T U undefined] by (auto simp: promotions_ok_def)

lemma trunc_div_abs: "\<bar>trunc_div a b\<bar> = \<bar>a\<bar> div \<bar>b\<bar>"
proof (cases "a = 0 \<or> b = 0")
  case False
  then show ?thesis
    by (simp add: trunc_div_sgn abs_mult abs_sgn_eq pos_imp_zdiv_nonneg_iff)
qed (auto simp: trunc_div_sgn)

lemma trunc_div_abs_le: "\<bar>trunc_div a b\<bar> \<le> \<bar>a\<bar>"
  using zdiv_mono2 [of "\<bar>a\<bar>" 1 "\<bar>b\<bar>"] by (cases "b = 0") (auto simp: trunc_div_abs)

lemma trunc_div_nonneg: "0 \<le> a \<Longrightarrow> 0 \<le> b \<Longrightarrow> 0 \<le> trunc_div a b"
  by (auto simp: trunc_div_sgn sgn_if pos_imp_zdiv_nonneg_iff)

lemma trunc_div_small: "\<bar>b\<bar> \<noteq> 1 \<Longrightarrow> b \<noteq> 0 \<Longrightarrow> \<bar>trunc_div a b\<bar> * 2 \<le> \<bar>a\<bar>"
proof -
  assume "\<bar>b\<bar> \<noteq> 1" "b \<noteq> 0"
  then have "2 \<le> \<bar>b\<bar>" by (auto simp: abs_if)
  then have "\<bar>a\<bar> div \<bar>b\<bar> \<le> \<bar>a\<bar> div 2" by (intro zdiv_mono2) auto
  then show ?thesis by (simp add: trunc_div_abs)
qed

lemma trunc_div_in_range:
  assumes P: "0 < int_bits P" and r: "in_range P a" "in_range P b" and "b \<noteq> 0"
    and no: "\<not> (is_signed P \<and> a = nl_lowest P \<and> b = -1)"
  shows "in_range P (trunc_div a b)"
proof (cases "is_signed P")
  case False
  then show ?thesis
    using r trunc_div_nonneg [of a b] trunc_div_abs_le [of a b] by (auto simp: ctype_defs)
next
  case True
  have h: "\<bar>a\<bar> \<le> 2 ^ (int_bits P - 1)" by (rule in_range_abs_signed [OF True r(1)])
  consider "\<bar>b\<bar> \<noteq> 1" | "b = 1" | "b = -1" by linarith
  then show ?thesis
  proof cases
    case 1
    then have "\<bar>trunc_div a b\<bar> * 2 \<le> 2 ^ (int_bits P - 1)"
      using trunc_div_small [of b a] \<open>b \<noteq> 0\<close> h by linarith
    moreover have "0 < (2::int) ^ (int_bits P - 1)" by simp
    ultimately show ?thesis
      using True unfolding ctype_defs by (auto simp only: if_True abs_le_iff)
  next
    case 2 then show ?thesis using r by (simp add: trunc_div_sgn mult_sgn_abs)
  next
    case 3
    then have "trunc_div a b = - a" by (simp add: trunc_div_sgn) (metis mult_sgn_abs)
    then show ?thesis using r True 3 no by (auto simp: ctype_defs)
  qed
qed


lemma static_cast_nonzero:
  assumes "cint P" "cint U" "int_bits U \<le> int_bits P" "in_range U y" "y \<noteq> 0"
  shows "static_cast P y \<noteq> 0"
proof
  assume "static_cast P y = 0"
  then have "2 ^ int_bits P dvd y"
    using static_cast_mod [of P y] assms(1) by (simp add: dvd_eq_mod_eq_0)
  then have "(2::int) ^ int_bits P \<le> \<bar>y\<bar>" using \<open>y \<noteq> 0\<close> zdvd_imp_le [of "2 ^ int_bits P" "\<bar>y\<bar>"] by simp
  moreover have "\<bar>y\<bar> < 2 ^ int_bits U" using assms in_range_abs_bound by simp
  moreover have "(2::int) ^ int_bits U \<le> 2 ^ int_bits P" using assms by simp
  ultimately show False by linarith
qed

lemma div_undefined_iff:
  assumes "cint P" "in_range P a"
  shows "div_undefined P a b \<Longrightarrow> b = 0 \<or> (is_signed P \<and> a = nl_lowest P \<and> b = -1)"
  using assms by (elim cint_exhaust) (auto simp: div_undefined_def int_promote_def ctype_defs)

lemma min_by_minus_one:
  assumes ct: "cint T" "cint U" "cint P" and r: "in_range T x" "in_range U y"
    and "is_signed P" "x = nl_lowest P" "y = -1"
  shows "is_signed T \<and> is_signed U \<and> IsTypeInRangeForNumericType T P \<and> y = static_cast U (-1)"
  using assms
  by (elim cint_exhaust)
    (simp_all add: ctype_defs IsTypeInRangeForNumericType_def StaticDstRangeRelationToSrcRange_def
      MaxExponent_def)

lemma BigEnoughPromotion_same_sign:
  "is_signed T = is_signed U \<Longrightarrow> BigEnoughPromotion T U = MaxExponentPromotion T U"
  "is_signed T = is_signed U \<Longrightarrow> BigEnough_is_contained T U"
  by (auto simp: BigEnoughPromotion_def BigEnough_is_max_exponent_def MaxExponentPromotion_def
      StaticDstRangeRelationToSrcRange_def BigEnough_is_contained_def)

lemma in_range_minus_one: "is_signed t \<Longrightarrow> 0 < int_bits t \<Longrightarrow> in_range t (-1)"
  by (auto simp: ctype_defs intro: le_less_trans [of _ 0])

lemma trunc_div_minus_one: "trunc_div a (-1) = - a"
  by (simp add: trunc_div_sgn) (metis mult_sgn_abs)

lemma CheckedDivOp_total:
  assumes ct: "cint T" "cint U" "cint V" and r: "in_range T x" "in_range U y"
  shows "\<exists>ok q. CheckedDivOp T U V x y result = Some (ok, q)
      \<and> (ok \<longrightarrow> y \<noteq> 0 \<and> q = trunc_div x y \<and> in_range V q)
      \<and> (BigEnough_is_contained T U \<and> V = MaxExponentPromotion T U \<and> y \<noteq> 0 \<and> in_range V (trunc_div x y) \<longrightarrow> ok)"
proof -
  define P where "P = BigEnoughPromotion T U"
  have P: "cint P" using ct by (simp add: P_def)
  let ?min = "is_signed T \<and> is_signed U \<and> IsTypeInRangeForNumericType T P
     \<and> static_cast P x = nl_lowest P \<and> y = static_cast U (-1)"
  let ?out = "(\<not> in_range P x \<or> \<not> in_range P y) \<and> x \<noteq> 0"
  have contained: "in_range P x \<and> in_range P y" if "BigEnough_is_contained T U"
    using promotion_contains [OF ct(1,2) that r] by (simp add: P_def)
  consider "y = 0" | "y \<noteq> 0" "?min" | "y \<noteq> 0" "\<not> ?min" "?out" | "y \<noteq> 0" "\<not> ?min" "x = 0"
    | "y \<noteq> 0" "\<not> ?min" "in_range P x" "in_range P y" by blast
  then show ?thesis
  proof cases
    case 1 then show ?thesis by (auto simp: CheckedDivOp_def)
  next
    case 2
    have PM: "P = MaxExponentPromotion T U"
      using 2 by (simp add: P_def BigEnoughPromotion_same_sign)
    then have "is_signed P" using 2 by (simp add: MaxExponentPromotion_def)
    then have out: "\<not> in_range P (- nl_lowest P)" by (simp add: ctype_defs)
    have "y = -1" using 2 ct by (simp add: in_range_minus_one)
    moreover have "x = nl_lowest P" if "BigEnough_is_contained T U"
      using contained [OF that] 2 by simp
    ultimately have no: "\<not> (BigEnough_is_contained T U \<and> V = P \<and> in_range V (trunc_div x y))"
      using out by (auto simp: trunc_div_minus_one)
    have "CheckedDivOp T U V x y result = Some (False, result)"
      using 2 P ct r by (auto simp: CheckedDivOp_def P_def [symmetric] Let_def)
    with no PM show ?thesis by auto
  next
    case 3
    then have "CheckedDivOp T U V x y result = Some (False, result)"
      using P ct r by (auto simp: CheckedDivOp_def P_def [symmetric] Let_def)
    then show ?thesis using 3 contained by blast
  next
    case 4
    have nz: "static_cast P y \<noteq> 0"
      using static_cast_nonzero [OF P ct(2) _ r(2) 4(1)] BigEnough_wide(2) [OF ct(1,2)]
      by (simp add: P_def)
    have nl: "nl_lowest (int_promote P) \<noteq> 0 \<or> \<not> is_signed P"
      by (auto simp: nl_lowest_def int_promote_def)
    have "CheckedDivOp T U V x y result = Some (True, 0)"
      unfolding CheckedDivOp_def P_def [symmetric] Let_def
      using 4 nz P ct r nl by (auto simp: div_undefined_def trunc_div_sgn)
    then show ?thesis using 4 ct by (auto simp: trunc_div_sgn)
  next
    case 5
    have no: "\<not> (is_signed P \<and> x = nl_lowest P \<and> y = -1)"
      using 5 min_by_minus_one [OF ct(1,2) P r] by auto
    then have q: "in_range P (trunc_div x y)"
      using trunc_div_in_range 5 P by simp
    have nd: "\<not> div_undefined P x y" using div_undefined_iff [OF P, of x y] 5 no by auto
    have "CheckedDivOp T U V x y result =
      Some (in_range V (trunc_div x y), static_cast V (trunc_div x y))"
      unfolding CheckedDivOp_def P_def [symmetric] Let_def
      using 5 P ct r q nd by auto
    then show ?thesis using 5 by auto
  qed
qed
lemma as_unsigned_eq:
  assumes "cint U" "in_range U s"
  shows "as_unsigned U s = (if 0 \<le> s then s else s + 2 ^ int_bits U)"
proof -
  have b: "(2::int) ^ int_bits U = 2 * 2 ^ (int_bits U - 1)" using assms by (simp add: power_bits_split)
  show ?thesis
    using static_cast_wrap [of "make_unsigned U" s "if 0 \<le> s then 0 else -1"] assms b
    by (auto simp: as_unsigned_def ctype_defs split: if_splits)
qed

lemma as_unsigned_lt_iff:
  assumes "cint U" "in_range U s" "n \<le> 64"
  shows "as_unsigned U s < int n \<longleftrightarrow> 0 \<le> s \<and> s < int n"
    and "as_unsigned U s = int n \<longleftrightarrow> s = int n"
proof -
  have "int n < s + 2 ^ int_bits U" if "s < 0"
    using assms that by (elim cint_exhaust) (auto simp: ctype_defs)
  then show "as_unsigned U s < int n \<longleftrightarrow> 0 \<le> s \<and> s < int n"
    and "as_unsigned U s = int n \<longleftrightarrow> s = int n"
    using as_unsigned_eq [OF assms(1,2)] by auto
qed

lemma static_cast_narrow:
  assumes "0 < int_bits t" "int_bits t \<le> int_bits s"
  shows "static_cast t (static_cast s v) = static_cast t v"
proof (rule static_cast_cong [OF assms(1)])
  have "(2::int) ^ int_bits t dvd 2 ^ int_bits s" using assms by (simp add: le_imp_power_dvd)
  from mod_mod_cancel [OF this] have c: "w mod 2 ^ int_bits t = w mod 2 ^ int_bits s mod 2 ^ int_bits t" for w :: int
    by simp
  have "0 < int_bits s" using assms by simp
  then show "static_cast s v mod 2 ^ int_bits t = v mod 2 ^ int_bits t"
    unfolding c [of "static_cast s v"] c [of v] by (simp only: static_cast_mod)
qed

lemma in_range_int_promote: "cint T \<Longrightarrow> in_range T v \<Longrightarrow> in_range (int_promote T) v"
  by (elim cint_exhaust) (auto simp: int_promote_def ctype_defs)

lemma shift_reversible:
  assumes "cint T" "N < int_bits T" "in_range T x"
  shows "static_cast T (x * 2 ^ N) div 2 ^ N = x \<longleftrightarrow> in_range T (x * 2 ^ N)"
proof
  let ?r = "static_cast T (x * 2 ^ N)"
  assume eq: "?r div 2 ^ N = x"
  have "(2::int) ^ N dvd 2 ^ int_bits T" using assms by (simp add: le_imp_power_dvd)
  from mod_mod_cancel [OF this] have c: "w mod 2 ^ N = w mod 2 ^ int_bits T mod 2 ^ N" for w :: int
    by simp
  have "?r mod 2 ^ N = (x * 2 ^ N) mod 2 ^ N"
    unfolding c [of ?r] c [of "x * 2 ^ N"] using assms(1) by (simp only: static_cast_mod cint_pos)
  then have "?r = x * 2 ^ N"
    using eq div_mult_mod_eq [of ?r "2 ^ N"] by simp
  then show "in_range T (x * 2 ^ N)" using static_cast_in_range [of T "x * 2 ^ N"] assms(1) by simp
qed simp

lemma drop_bit_in_range:
  assumes "0 < int_bits T" "in_range T v" shows "in_range T (drop_bit N v)"
proof -
  have "0 \<le> v \<longleftrightarrow> 0 \<le> drop_bit N v" by simp
  moreover have "drop_bit N v \<le> v" if "0 \<le> v"
    using zdiv_mono2 [OF that, of 1 "2 ^ N"] by (simp add: drop_bit_eq_div)
  moreover have "v \<le> drop_bit N v" if "v < 0"
    using zdiv_mono2_neg [OF that, of 1 "2 ^ N"] by (simp add: drop_bit_eq_div)
  ultimately show ?thesis
    using assms nl_max_ge_0 [of T] nl_lowest_le_0 [of T] unfolding in_range_def by linarith
qed

lemma CheckedLshOp_correct:
  assumes ct: "cint T" "cint U" and r: "in_range T x" "in_range U s"
  shows "fst (CheckedLshOp T U T x s 0) \<longleftrightarrow>
      0 \<le> x \<and> 0 \<le> s \<and> in_range T (x * 2 ^ nat s)
      \<and> (s < int (nl_digits T) \<or> is_signed T \<and> x = 0 \<and> s = int (nl_digits T))"
    and "fst (CheckedLshOp T U T x s 0) \<Longrightarrow> snd (CheckedLshOp T U T x s 0) = x * 2 ^ nat s"
proof -
  have d: "nl_digits T \<le> 64" "nl_digits T \<le> int_bits T" using ct by (auto simp: nl_digits_def cint_def)
  have neg: "IsValueNegative T x \<longleftrightarrow> x < 0" using r by (auto simp: IsValueNegative_def ctype_defs)
  have A: "arith_type T T = int_promote T" by (simp add: arith_type_def Let_def)
  have wide: "int_bits T \<le> int_bits (int_promote (make_unsigned T))" by (simp add: int_promote_def)
  let ?v = "static_cast T (x * 2 ^ nat s)"
  have rng: "in_range (int_promote T) x" "in_range (int_promote T) (drop_bit (nat s) ?v)"
    using ct r by (simp_all add: in_range_int_promote drop_bit_in_range static_cast_in_range)
  have main: "CheckedLshOp T U T x s 0 =
    (if 0 \<le> x \<and> 0 \<le> s \<and> s < int (nl_digits T) then (?v div 2 ^ nat s = x, ?v)
     else (is_signed T \<and> x = 0 \<and> s = int (nl_digits T), 0))"
    using as_unsigned_lt_iff [OF ct(2) r(2) d(1)] as_unsigned_eq [OF ct(1) r(1)] A neg rng
      static_cast_narrow [OF _ wide] ct
    by (auto simp: CheckedLshOp_def Let_def push_bit_eq_mult drop_bit_eq_div)
  have rev: "?v div 2 ^ nat s = x \<longleftrightarrow> in_range T (x * 2 ^ nat s)" if "0 \<le> s" "s < int (nl_digits T)"
    using that d by (intro shift_reversible ct r) auto
  show "fst (CheckedLshOp T U T x s 0) \<longleftrightarrow>
      0 \<le> x \<and> 0 \<le> s \<and> in_range T (x * 2 ^ nat s)
      \<and> (s < int (nl_digits T) \<or> is_signed T \<and> x = 0 \<and> s = int (nl_digits T))"
    unfolding main using rev ct by auto
  show "fst (CheckedLshOp T U T x s 0) \<Longrightarrow> snd (CheckedLshOp T U T x s 0) = x * 2 ^ nat s"
    unfolding main using rev by (auto split: if_splits)
qed

lemma CheckedRshOp_correct:
  assumes ct: "cint T" "cint U" "cint V" and r: "in_range T x" "in_range U s"
  shows "CheckedRshOp T U V x s result =
    (if 0 \<le> s \<and> s < int (int_bits T) then (in_range V (x div 2 ^ nat s), static_cast V (x div 2 ^ nat s))
     else (False, result))"
proof -
  have "int_bits T \<le> 64" using ct by (auto simp: cint_def)
  then show ?thesis
    using as_unsigned_lt_iff(1) [OF ct(2) r(2)] ct drop_bit_in_range [OF _ r(1), of "nat s"]
    by (simp add: CheckedRshOp_def Let_def drop_bit_eq_div)
qed

lemma MaxExponentPromotion_max:
  assumes ct: "cint T" "cint U" and r: "in_range T x" "in_range U y"
  shows "in_range (MaxExponentPromotion T U) (max x y)"
  using assms
  by (elim cint_exhaust) (auto simp: MaxExponentPromotion_def MaxExponent_def ctype_defs)

lemma LowestValuePromotion_min:
  assumes ct: "cint T" "cint U" and r: "in_range T x" "in_range U y"
  shows "in_range (LowestValuePromotion T U) (min x y)"
  using assms
  by (elim cint_exhaust) (auto simp: LowestValuePromotion_def MaxExponent_def ctype_defs)

lemma CheckedMaxOp_correct:
  assumes ct: "cint T" "cint U" "cint V" and r: "in_range T x" "in_range U y"
  shows "CheckedMaxOp T U V x y = (in_range V (max x y), static_cast V (max x y))"
  using assms MaxExponentPromotion_max [OF ct(1,2) r]
  by (auto simp: CheckedMaxOp_def compare_correct Let_def max_def)

lemma CheckedMinOp_correct:
  assumes ct: "cint T" "cint U" "cint V" and r: "in_range T x" "in_range U y"
  shows "CheckedMinOp T U V x y = (in_range V (min x y), static_cast V (min x y))"
  using assms LowestValuePromotion_min [OF ct(1,2) r]
  by (cases "x < y") (auto simp: CheckedMinOp_def compare_correct Let_def not_less min.absorb2)

end
