(* ===== verification/Checked_Numeric.thy ===== *)
theory Checked_Numeric
  imports Checked_Math
begin

text \<open>
  The class template \<open>CheckedNumeric<T>\<close> of \<open>base/numerics/checked_math.h\<close> over the checked
  operations, its state \<open>CheckedNumericState\<close>, and what it promises: a checked number is
  invalid for ever once an operation overflowed, and a valid one holds the exact result.
\<close>

section \<open>The class CheckedNumeric\<close>

text \<open>
  \<open>CheckedNumericState\<close> for integers: a validity flag and a value. The value type \<open>T\<close> of the
  class template is an argument of each operation.
\<close>

record CheckedNumeric =
  cn_is_valid :: bool
  cn_value :: int

definition CheckedNumericState2 :: "ctype \<Rightarrow> ctype \<Rightarrow> int \<Rightarrow> bool \<Rightarrow> CheckedNumeric" where
  "CheckedNumericState2 T Src value is_valid =
     \<lparr>cn_is_valid = (is_valid \<and> IsValueInRangeForNumericType T Src value),
      cn_value = static_cast T value\<rparr>"

definition CheckedNumeric_default :: CheckedNumeric where
  "CheckedNumeric_default = \<lparr>cn_is_valid = True, cn_value = 0\<rparr>"

definition CheckedNumeric_of :: "ctype \<Rightarrow> ctype \<Rightarrow> int \<Rightarrow> CheckedNumeric" where
  "CheckedNumeric_of T Src value =
     \<lparr>cn_is_valid = IsValueInRangeForNumericType T Src value, cn_value = static_cast T value\<rparr>"

definition cn_IsValid :: "ctype \<Rightarrow> ctype \<Rightarrow> CheckedNumeric \<Rightarrow> bool" where
  "cn_IsValid Dst T c \<longleftrightarrow> cn_is_valid c \<and> IsValueInRangeForNumericType Dst T (cn_value c)"

definition cn_copy :: "ctype \<Rightarrow> ctype \<Rightarrow> CheckedNumeric \<Rightarrow> CheckedNumeric" where
  "cn_copy T Src rhs = CheckedNumericState2 T Src (cn_value rhs) (cn_IsValid Src Src rhs)"

definition cn_AssignIfValid :: "ctype \<Rightarrow> ctype \<Rightarrow> CheckedNumeric \<Rightarrow> int \<Rightarrow> bool \<times> int" where
  "cn_AssignIfValid Dst T c result =
     (if cn_IsValid Dst T c then (True, static_cast Dst (cn_value c)) else (False, result))"

definition cn_ValueOrDie :: "ctype \<Rightarrow> ctype \<Rightarrow> CheckedNumeric \<Rightarrow> int option" where
  "cn_ValueOrDie Dst T c =
     (if cn_IsValid Dst T c then Some (static_cast Dst (cn_value c)) else None)"

definition cn_ValueOrDefault :: "ctype \<Rightarrow> ctype \<Rightarrow> ctype \<Rightarrow> CheckedNumeric \<Rightarrow> int \<Rightarrow> int option" where
  "cn_ValueOrDefault Dst T Src c default_value =
     (if cn_IsValid Dst T c then Some (static_cast Dst (cn_value c))
      else checked_cast Dst Src default_value)"

definition NegateWrapper :: "ctype \<Rightarrow> int \<Rightarrow> int" where
  "NegateWrapper T value = static_cast T (0 - static_cast (make_unsigned T) value)"

definition InvertWrapper :: "ctype \<Rightarrow> int \<Rightarrow> int" where
  "InvertWrapper T value = static_cast (make_unsigned T) (not value)"

definition AbsWrapper :: "ctype \<Rightarrow> int \<Rightarrow> int" where
  "AbsWrapper T value = static_cast T (SafeUnsignedAbs T value)"

definition cn_FastRuntimeNegate :: "math_cfg \<Rightarrow> ctype \<Rightarrow> CheckedNumeric \<Rightarrow> CheckedNumeric" where
  "cn_FastRuntimeNegate cfg T c =
     (let (success, result) = CheckedSubOp cfg T T T 0 (cn_value c) 0 in
      CheckedNumericState2 T T result (cn_IsValid T T c \<and> success))"

text \<open>Unary minus; \<open>ct\<close> is \<open>MustTreatAsConstexpr\<close>.\<close>

definition cn_Negate :: "math_cfg \<Rightarrow> bool \<Rightarrow> ctype \<Rightarrow> CheckedNumeric \<Rightarrow> CheckedNumeric" where
  "cn_Negate cfg ct T c =
     (if ct \<or> \<not> is_signed T
      then CheckedNumericState2 T T (NegateWrapper T (cn_value c))
             (cn_IsValid T T c \<and> (\<not> is_signed T \<or> NegateWrapper T (cn_value c) \<noteq> nl_lowest T))
      else cn_FastRuntimeNegate cfg T c)"

definition cn_Invert :: "ctype \<Rightarrow> CheckedNumeric \<Rightarrow> CheckedNumeric" where
  "cn_Invert T c =
     (let U = make_unsigned T in
      cn_copy T U (CheckedNumericState2 U U (InvertWrapper T (cn_value c)) (cn_IsValid T T c)))"

definition cn_Abs :: "math_cfg \<Rightarrow> bool \<Rightarrow> ctype \<Rightarrow> CheckedNumeric \<Rightarrow> CheckedNumeric" where
  "cn_Abs cfg ct T c = (if \<not> IsValueNegative T (cn_value c) then c else cn_Negate cfg ct T c)"

definition cn_UnsignedAbs :: "ctype \<Rightarrow> CheckedNumeric \<Rightarrow> CheckedNumeric" where
  "cn_UnsignedAbs T c =
     (let U = make_unsigned T in
      CheckedNumericState2 U U (SafeUnsignedAbs T (cn_value c)) (cn_is_valid c))"

definition cn_Max :: "ctype \<Rightarrow> ctype \<Rightarrow> CheckedNumeric \<Rightarrow> CheckedNumeric \<Rightarrow> CheckedNumeric" where
  "cn_Max T U c rhs =
     (let R = MaxExponentPromotion T U in
      CheckedNumericState2 R R
        (static_cast R (static_cast (arith_type T U)
          (if IsGreater T U (cn_value c) (cn_value rhs) then cn_value c else cn_value rhs)))
        (cn_is_valid c \<and> cn_IsValid U U rhs))"

definition cn_Min :: "ctype \<Rightarrow> ctype \<Rightarrow> CheckedNumeric \<Rightarrow> CheckedNumeric \<Rightarrow> CheckedNumeric" where
  "cn_Min T U c rhs =
     (let R = LowestValuePromotion T U in
      CheckedNumericState2 R R
        (static_cast R (static_cast (arith_type T U)
          (if IsLess T U (cn_value c) (cn_value rhs) then cn_value c else cn_value rhs)))
        (cn_is_valid c \<and> cn_IsValid U U rhs))"

text \<open>
  The operation templates \<open>Checked##NAME##Op\<close>, selected by name; \<open>None\<close> is undefined
  behaviour.
\<close>

datatype math_op = OpAdd | OpSub | OpMul | OpDiv | OpMod | OpLsh | OpRsh | OpAnd | OpOr | OpXor
  | OpMax | OpMin

fun CheckedOp ::
  "math_cfg \<Rightarrow> math_op \<Rightarrow> ctype \<Rightarrow> ctype \<Rightarrow> ctype \<Rightarrow> int \<Rightarrow> int \<Rightarrow> int \<Rightarrow> (bool \<times> int) option" where
  "CheckedOp cfg OpAdd T U V x y r = Some (CheckedAddOp cfg T U V x y r)"
| "CheckedOp cfg OpSub T U V x y r = Some (CheckedSubOp cfg T U V x y r)"
| "CheckedOp cfg OpMul T U V x y r = Some (CheckedMulOp cfg T U V x y r)"
| "CheckedOp cfg OpDiv T U V x y r = CheckedDivOp T U V x y r"
| "CheckedOp cfg OpMod T U V x y r = CheckedModOp T U V x y r"
| "CheckedOp cfg OpLsh T U V x y r = Some (CheckedLshOp T U V x y r)"
| "CheckedOp cfg OpRsh T U V x y r = Some (CheckedRshOp T U V x y r)"
| "CheckedOp cfg OpAnd T U V x y r = Some (CheckedAndOp T U V x y)"
| "CheckedOp cfg OpOr T U V x y r = Some (CheckedOrOp T U V x y)"
| "CheckedOp cfg OpXor T U V x y r = Some (CheckedXorOp T U V x y)"
| "CheckedOp cfg OpMax T U V x y r = Some (CheckedMaxOp T U V x y)"
| "CheckedOp cfg OpMin T U V x y r = Some (CheckedMinOp T U V x y)"

fun MathResultType :: "math_op \<Rightarrow> ctype \<Rightarrow> ctype \<Rightarrow> ctype" where
  "MathResultType OpLsh T U = T"
| "MathResultType OpRsh T U = T"
| "MathResultType OpAnd T U = BitResultType T U"
| "MathResultType OpOr T U = BitResultType T U"
| "MathResultType OpXor T U = BitResultType T U"
| "MathResultType OpMin T U = LowestValuePromotion T U"
| "MathResultType _ T U = MaxExponentPromotion T U"

text \<open>
  The static \<open>MathOp\<close>, with destination type \<open>D\<close>: validity of both operands short-circuits
  the operation, whose result starts at 0. The assigning form \<open>lhs OP= rhs\<close> is the case
  \<open>D = L\<close>.
\<close>

definition cn_MathOp ::
  "math_cfg \<Rightarrow> math_op \<Rightarrow> ctype \<Rightarrow> ctype \<Rightarrow> ctype \<Rightarrow> CheckedNumeric \<Rightarrow> CheckedNumeric \<Rightarrow>
   CheckedNumeric option" where
  "cn_MathOp cfg M D L R lhs rhs =
     (if cn_IsValid L L lhs \<and> cn_IsValid R R rhs
      then (case CheckedOp cfg M L R D (cn_value lhs) (cn_value rhs) 0 of
              None \<Rightarrow> None
            | Some (is_valid, result) \<Rightarrow> Some (CheckedNumericState2 D D result is_valid))
      else Some (CheckedNumericState2 D D 0 False))"

definition cn_MathOp_assign ::
  "math_cfg \<Rightarrow> math_op \<Rightarrow> ctype \<Rightarrow> ctype \<Rightarrow> CheckedNumeric \<Rightarrow> CheckedNumeric \<Rightarrow>
   CheckedNumeric option" where
  "cn_MathOp_assign cfg M T R c rhs =
     (if cn_is_valid c \<and> cn_IsValid R R rhs
      then (case CheckedOp cfg M T R T (cn_value c) (cn_value rhs) 0 of
              None \<Rightarrow> None
            | Some (is_valid, result) \<Rightarrow> Some (CheckedNumericState2 T T result is_valid))
      else Some (CheckedNumericState2 T T 0 False))"

definition cn_Increment :: "math_cfg \<Rightarrow> ctype \<Rightarrow> CheckedNumeric \<Rightarrow> CheckedNumeric option" where
  "cn_Increment cfg T c = cn_MathOp_assign cfg OpAdd T int32 c (CheckedNumeric_of int32 int32 1)"

definition cn_Decrement :: "math_cfg \<Rightarrow> ctype \<Rightarrow> CheckedNumeric \<Rightarrow> CheckedNumeric option" where
  "cn_Decrement cfg T c = cn_MathOp_assign cfg OpSub T int32 c (CheckedNumeric_of int32 int32 1)"

definition CheckMathOp ::
  "math_cfg \<Rightarrow> math_op \<Rightarrow> ctype \<Rightarrow> ctype \<Rightarrow> CheckedNumeric \<Rightarrow> CheckedNumeric \<Rightarrow>
   CheckedNumeric option" where
  "CheckMathOp cfg M L R lhs rhs = cn_MathOp cfg M (MathResultType M L R) L R lhs rhs"

text \<open>The variadic form folds from the left, each step at the result type of the previous one.\<close>

fun CheckMathOpN ::
  "math_cfg \<Rightarrow> math_op \<Rightarrow> ctype \<Rightarrow> CheckedNumeric \<Rightarrow> (ctype \<times> CheckedNumeric) list \<Rightarrow>
   (ctype \<times> CheckedNumeric) option" where
  "CheckMathOpN cfg M L lhs [] = Some (L, lhs)"
| "CheckMathOpN cfg M L lhs ((R, rhs) # args) =
     (case CheckMathOp cfg M L R lhs rhs of
        None \<Rightarrow> None
      | Some c \<Rightarrow> CheckMathOpN cfg M (MathResultType M L R) c args)"

section \<open>What a checked number means\<close>

text \<open>
  The specification: a checked number of type \<open>T\<close> stands for a mathematical integer or for
  nothing, and an operation is the exact one where it is defined and fits the result type.
\<close>

definition cn_wf :: "ctype \<Rightarrow> CheckedNumeric \<Rightarrow> bool" where
  "cn_wf T c \<longleftrightarrow> in_range T (cn_value c)"

definition cn_abs :: "CheckedNumeric \<Rightarrow> int option" where
  "cn_abs c = (if cn_is_valid c then Some (cn_value c) else None)"

fun math_exact :: "math_op \<Rightarrow> int \<Rightarrow> int \<Rightarrow> int" where
  "math_exact OpAdd x y = x + y"
| "math_exact OpSub x y = x - y"
| "math_exact OpMul x y = x * y"
| "math_exact OpDiv x y = trunc_div x y"
| "math_exact OpMod x y = trunc_mod x y"
| "math_exact OpLsh x y = x * 2 ^ nat y"
| "math_exact OpRsh x y = x div 2 ^ nat y"
| "math_exact OpAnd x y = and x y"
| "math_exact OpOr x y = or x y"
| "math_exact OpXor x y = xor x y"
| "math_exact OpMax x y = max x y"
| "math_exact OpMin x y = min x y"

text \<open>The domain on which an operation is defined, given its result type.\<close>

fun math_defined :: "ctype \<Rightarrow> math_op \<Rightarrow> int \<Rightarrow> int \<Rightarrow> bool" where
  "math_defined T OpDiv x y \<longleftrightarrow> y \<noteq> 0"
| "math_defined T OpLsh x y \<longleftrightarrow>
     0 \<le> x \<and> 0 \<le> y \<and> (y < int (nl_digits T) \<or> is_signed T \<and> x = 0 \<and> y = int (nl_digits T))"
| "math_defined T OpRsh x y \<longleftrightarrow> 0 \<le> y \<and> y < int (int_bits T)"
| "math_defined T _ x y \<longleftrightarrow> True"

definition math_spec :: "math_op \<Rightarrow> ctype \<Rightarrow> ctype \<Rightarrow> int option \<Rightarrow> int option \<Rightarrow> int option" where
  "math_spec M L D a b =
     (case (a, b) of
        (Some x, Some y) \<Rightarrow>
          if math_defined L M x y \<and> in_range D (math_exact M x y) then Some (math_exact M x y) else None
      | _ \<Rightarrow> None)"

section \<open>Lemmas\<close>

lemma contained_result:
  assumes "cint T" "cint U" "BigEnough_is_contained T U" "in_range (MaxExponentPromotion T U) v"
  shows "in_range (AddSubPromotion cfg T U) v" "in_range (FastIntegerArithmeticPromotion T U) v"
    "in_range (BigEnoughPromotion T U) v"
  using promotion_contains [OF assms(1-3), of v 0] promotion_contains [OF assms(1-3), of 0 v] assms
  by (auto simp: MaxExponentPromotion_def split: if_splits)

lemma nl_max_MaxExponent:
  "cint T \<Longrightarrow> cint U \<Longrightarrow> nl_max (MaxExponentPromotion T U) \<le> max (nl_max T) (nl_max U)"
  by (auto simp: MaxExponentPromotion_def)

definition exact_result :: "ctype \<Rightarrow> bool \<times> int \<Rightarrow> bool \<Rightarrow> int \<Rightarrow> bool" where
  "exact_result V r ok z \<longleftrightarrow> (fst r \<longleftrightarrow> ok \<and> in_range V z) \<and> (fst r \<longrightarrow> snd r = z)"

lemma exact_AddSubMul:
  assumes ct: "cint T" "cint U" and r: "in_range T x" "in_range U y"
    and C: "BigEnough_is_contained T U"
  defines "V \<equiv> MaxExponentPromotion T U"
  shows "exact_result V (CheckedAddOp cfg T U V x y res) True (x + y)"
    and "exact_result V (CheckedSubOp cfg T U V x y res) True (x - y)"
    and "exact_result V (CheckedMulOp cfg T U V x y res) True (x * y)"
proof -
  have V: "cint V" "nl_max V \<le> max (nl_max T) (nl_max U)"
    using ct nl_max_MaxExponent by (auto simp: V_def)
  note cr = contained_result [OF ct C, folded V_def] and pc = promotion_contains [OF ct C r]
  show "exact_result V (CheckedAddOp cfg T U V x y res) True (x + y)"
    using CheckedAddOp_portable [OF _ ct V(1) r, of cfg res] cr pc
    by (cases "backend cfg = Portable")
      (auto simp: exact_result_def CheckedAddOp_def CheckedAddFastOp_def)
  show "exact_result V (CheckedSubOp cfg T U V x y res) True (x - y)"
    using CheckedSubOp_portable [OF _ ct V(1) r V(2), of cfg res] cr pc
    by (cases "backend cfg = Portable")
      (auto simp: exact_result_def CheckedSubOp_def CheckedSubFastOp_def)
  show "exact_result V (CheckedMulOp cfg T U V x y res) True (x * y)"
    using CheckedMulOp_correct [OF _ ct V(1) r, of cfg res] cr pc
    by (cases "CheckedMulFastOp_is_supported cfg T U")
      (auto simp: exact_result_def CheckedMulOp_def CheckedMulFastOp_def)
qed

lemma State2_simps [simp]:
  "cn_is_valid (CheckedNumericState2 T Src v b) = (b \<and> IsValueInRangeForNumericType T Src v)"
  "cn_value (CheckedNumericState2 T Src v b) = static_cast T v"
  by (simp_all add: CheckedNumericState2_def)

lemma cn_IsValid_self: "cint T \<Longrightarrow> cn_wf T c \<Longrightarrow> cn_IsValid T T c = cn_is_valid c"
  by (auto simp: cn_IsValid_def cn_wf_def)

lemma cn_wf_State2: "cint T \<Longrightarrow> cn_wf T (CheckedNumericState2 T Src v b)"
  by (simp add: cn_wf_def static_cast_in_range)

lemma CheckMathOp_exact_aux:
  assumes ct: "cint L" "cint R" and wf: "cn_wf L a" "cn_wf R b"
    and D: "D = MathResultType M L R" "cint D"
    and ex: "cn_is_valid a \<Longrightarrow> cn_is_valid b \<Longrightarrow>
      \<exists>r. CheckedOp cfg M L R D (cn_value a) (cn_value b) 0 = Some r
        \<and> exact_result D r (math_defined L M (cn_value a) (cn_value b)) (math_exact M (cn_value a) (cn_value b))"
  shows "\<exists>c. CheckMathOp cfg M L R a b = Some c \<and> cn_wf D c
      \<and> cn_abs c = math_spec M L D (cn_abs a) (cn_abs b)"
proof (cases "cn_is_valid a \<and> cn_is_valid b")
  case True
  then obtain ok q where q: "CheckedOp cfg M L R D (cn_value a) (cn_value b) 0 = Some (ok, q)"
    and e: "exact_result D (ok, q) (math_defined L M (cn_value a) (cn_value b)) (math_exact M (cn_value a) (cn_value b))"
    using ex by auto
  show ?thesis
    using True q e ct wf D(2) unfolding CheckMathOp_def cn_MathOp_def D(1) [symmetric]
    by (auto simp: cn_IsValid_self cn_wf_State2 cn_abs_def math_spec_def exact_result_def)
next
  case False
  then show ?thesis
    using ct wf D(2) unfolding CheckMathOp_def cn_MathOp_def D(1) [symmetric]
    by (auto simp: cn_IsValid_self cn_wf_State2 cn_abs_def math_spec_def)
qed

lemma trunc_mod_eq: "trunc_mod a b = sgn a * (\<bar>a\<bar> mod \<bar>b\<bar>)"
proof -
  have "a - sgn a * sgn b * (\<bar>a\<bar> div \<bar>b\<bar>) * b = sgn a * \<bar>a\<bar> - sgn a * (\<bar>a\<bar> div \<bar>b\<bar> * \<bar>b\<bar>)"
    using mult_sgn_abs [of a] by (simp add: abs_sgn [of b] mult_ac)
  also have "\<dots> = sgn a * (\<bar>a\<bar> - \<bar>a\<bar> div \<bar>b\<bar> * \<bar>b\<bar>)" by (simp add: right_diff_distrib)
  finally show ?thesis by (simp add: trunc_mod_def trunc_div_sgn minus_div_mult_eq_mod)
qed

lemma trunc_mod_sign:
  "0 \<le> x \<Longrightarrow> y \<noteq> 0 \<Longrightarrow> 0 \<le> trunc_mod x y" "x \<le> 0 \<Longrightarrow> y \<noteq> 0 \<Longrightarrow> trunc_mod x y \<le> 0"
  by (auto simp: trunc_mod_eq sgn_if)

lemma trunc_mod_abs_le: "y \<noteq> 0 \<Longrightarrow> \<bar>trunc_mod x y\<bar> \<le> \<bar>x\<bar>"
  by (auto simp: trunc_mod_eq abs_mult abs_sgn_eq zmod_le_nonneg_dividend)

lemma exact_Div:
  assumes ct: "cint T" "cint U" and r: "in_range T x" "in_range U y"
    and C: "BigEnough_is_contained T U"
  shows "\<exists>q. CheckedDivOp T U (MaxExponentPromotion T U) x y res = Some q
      \<and> exact_result (MaxExponentPromotion T U) q (y \<noteq> 0) (trunc_div x y)"
  using CheckedDivOp_total [OF ct MaxExponent_cint [OF ct] r, of res] C
  by (auto simp: exact_result_def)

lemma MathResultType_cint [simp]: "cint L \<Longrightarrow> cint R \<Longrightarrow> cint (MathResultType M L R)"
  by (cases M) (simp_all add: BitResultType_def)

lemma exact_Op:
  assumes ct: "cint L" "cint R" and r: "in_range L x" "in_range R y"
    and C: "BigEnough_is_contained L R" and M: "M \<notin> {OpMod, OpAnd, OpOr, OpXor}"
  shows "\<exists>q. CheckedOp cfg M L R (MathResultType M L R) x y 0 = Some q
    \<and> exact_result (MathResultType M L R) q (math_defined L M x y) (math_exact M x y)"
proof -
  note max = CheckedMaxOp_correct [OF ct _ r] and min = CheckedMinOp_correct [OF ct _ r]
    and lsh = CheckedLshOp_correct [OF ct r] and rsh = CheckedRshOp_correct [OF ct _ r]
  note div = exact_Div [OF ct r C, of 0] and asm = exact_AddSubMul [OF ct r C, of cfg 0]
  show ?thesis
    using M ct div asm lsh
    by (cases M) (auto simp: max min rsh exact_result_def)
qed

section \<open>Properties\<close>

text \<open>
  C3: Every binary operation of CheckedNumeric except remainder and the bit operations, on two
  checked numbers of any types that some integer type contains (all pairs but a signed type with
  a 64-bit unsigned one), on every compiler backend, refines exact integer arithmetic: it never
  has undefined behaviour, the result is valid exactly when both operands are valid, the
  operation is defined on them and the exact result fits the result type, and it then holds
  that exact result.
\<close>

theorem CheckMathOp_refines:
  assumes "cint L" "cint R" and "cn_wf L a" "cn_wf R b"
    and "BigEnough_is_contained L R" and "M \<notin> {OpMod, OpAnd, OpOr, OpXor}"
  shows "\<exists>c. CheckMathOp cfg M L R a b = Some c \<and> cn_wf (MathResultType M L R) c
      \<and> cn_abs c = math_spec M L (MathResultType M L R) (cn_abs a) (cn_abs b)"
  using assms exact_Op [OF assms(1,2) _ _ assms(5,6), of "cn_value a" "cn_value b" cfg]
  by (intro CheckMathOp_exact_aux) (auto simp: cn_wf_def)

theorem CheckMathOp_refines_witness:
  "\<exists>c. CheckMathOp \<lparr>backend = Portable, ptr_bits = 64\<rparr> OpMul int32 uint8
         (CheckedNumeric_of int32 int32 (-70000)) (CheckedNumeric_of uint8 uint8 200) = Some c
      \<and> cn_wf int32 c \<and> cn_abs c = Some (-14000000)"
proof -
  have "BigEnough_is_contained int32 uint8"
    by (simp add: BigEnough_is_contained_def BigEnough_is_max_exponent_def MaxExponentPromotion_def
        MaxExponent_def StaticDstRangeRelationToSrcRange_def nl_digits_def)
  then show ?thesis
    using CheckMathOp_refines [of int32 uint8 "CheckedNumeric_of int32 int32 (-70000)"
        "CheckedNumeric_of uint8 uint8 200" OpMul "\<lparr>backend = Portable, ptr_bits = 64\<rparr>"]
    by (simp add: cn_wf_def CheckedNumeric_of_def cn_abs_def math_spec_def ctype_defs
        MaxExponentPromotion_def MaxExponent_def)
qed
text \<open>
  The variadic functions (CheckAdd(a, b, c, ...) and their siblings) over arguments of one
  type compute the left fold of the exact operations: once one step overflows the result stays
  invalid, and otherwise it is the exact result of the whole chain.
\<close>

theorem CheckMathOpN_refines:
  assumes "cint T" and "M \<notin> {OpMod, OpAnd, OpOr, OpXor}"
    and "cn_wf T a" and "list_all (cn_wf T) bs"
  shows "\<exists>c. CheckMathOpN cfg M T a (map (Pair T) bs) = Some (T, c) \<and> cn_wf T c
      \<and> cn_abs c = foldl (math_spec M T T) (cn_abs a) (map cn_abs bs)"
  using assms(3,4)
proof (induction bs arbitrary: a)
  case Nil
  then show ?case by simp
next
  case (Cons b bs)
  have T: "MathResultType M T T = T"
    using assms(2) by (cases M) (auto simp: MaxExponentPromotion_def LowestValuePromotion_def)
  obtain c where c: "CheckMathOp cfg M T T a b = Some c" "cn_wf T c"
    "cn_abs c = math_spec M T T (cn_abs a) (cn_abs b)"
    using CheckMathOp_exact_aux [of T T a b T M cfg] exact_Op [of T T "cn_value a" "cn_value b" M cfg]
      assms(1,2) Cons.prems T BigEnoughPromotion_same_sign(2) [of T T]
    by (auto simp: cn_wf_def)
  with Cons.IH [of c] Cons.prems T show ?case by simp
qed

theorem CheckMathOpN_refines_witness:
  "\<exists>c. CheckMathOpN \<lparr>backend = Clang, ptr_bits = 32\<rparr> OpAdd int8 \<lparr>cn_is_valid = True, cn_value = 100\<rparr>
         (map (Pair int8) [\<lparr>cn_is_valid = True, cn_value = 100\<rparr>, \<lparr>cn_is_valid = True, cn_value = -100\<rparr>])
       = Some (int8, c) \<and> cn_wf int8 c \<and> cn_abs c = None"
  using CheckMathOpN_refines [of int8 OpAdd "\<lparr>cn_is_valid = True, cn_value = 100\<rparr>"
      "[\<lparr>cn_is_valid = True, cn_value = 100\<rparr>, \<lparr>cn_is_valid = True, cn_value = -100\<rparr>]"
      "\<lparr>backend = Clang, ptr_bits = 32\<rparr>"]
  by (simp add: cn_wf_def ctype_defs cn_abs_def math_spec_def)

text \<open>
  Unary minus of a signed CheckedNumeric, on the constant-expression path and on the run-time
  path of every backend, is the exact negation, invalid exactly for the least value of the type.
\<close>

theorem cn_Negate_exact:
  assumes "cint T" "is_signed T" "cn_wf T c"
  shows "cn_abs (cn_Negate cfg ct T c) =
    (case cn_abs c of None \<Rightarrow> None | Some x \<Rightarrow> if x = nl_lowest T then None else Some (- x))"
proof -
  have rx: "in_range T (- cn_value c) \<longleftrightarrow> cn_value c \<noteq> nl_lowest T" "- cn_value c \<noteq> nl_lowest T"
    using assms by (auto simp: cn_wf_def ctype_defs)
  have "NegateWrapper T (cn_value c) = static_cast T (- cn_value c)"
    using static_cast_unsigned_sum(2) [of T 0 "cn_value c"] assms by (simp add: NegateWrapper_def)
  moreover have "static_cast T (- nl_lowest T) = nl_lowest T"
    using static_cast_wrap [of T "- nl_lowest T" 1] assms power_bits_split [of "int_bits T"]
    by (simp add: ctype_defs)
  moreover have "exact_result T (CheckedSubOp cfg T T T 0 (cn_value c) 0) True (0 - cn_value c)"
    using exact_AddSubMul(2) [of T T 0 "cn_value c" cfg 0] assms BigEnoughPromotion_same_sign(2) [of T T]
    by (simp add: cn_wf_def MaxExponentPromotion_def)
  ultimately show ?thesis
    using assms rx
    by (auto simp: cn_Negate_def cn_FastRuntimeNegate_def cn_abs_def cn_IsValid_self exact_result_def
        split: prod.splits)
qed

theorem cn_Negate_exact_witness:
  "cn_abs (cn_Negate \<lparr>backend = Gcc, ptr_bits = 64\<rparr> False int64
     \<lparr>cn_is_valid = True, cn_value = -9223372036854775808\<rparr>) = None
   \<and> cn_abs (cn_Negate \<lparr>backend = Gcc, ptr_bits = 64\<rparr> False int64
     \<lparr>cn_is_valid = True, cn_value = 5\<rparr>) = Some (-5)"
  using cn_Negate_exact [of int64 "\<lparr>cn_is_valid = True, cn_value = -9223372036854775808\<rparr>"
      "\<lparr>backend = Gcc, ptr_bits = 64\<rparr>" False]
    cn_Negate_exact [of int64 "\<lparr>cn_is_valid = True, cn_value = 5\<rparr>"
      "\<lparr>backend = Gcc, ptr_bits = 64\<rparr>" False]
  by (simp add: cn_wf_def ctype_defs cn_abs_def)

text \<open>
  C31: Remainder by a non-zero divisor, of two types that some integer type contains (all pairs but
  a signed type with a 64-bit unsigned one, for which \<open>CheckedModOp_mixed_wrong\<close> below is a wrong
  result): CheckedModOp computes the exact remainder and reports it valid exactly when the result
  type has it, except for the least value divided by minus one: there CheckedModOp, unlike
  CheckedDivOp, performs the undefined C++ remainder as soon as the promoted type has the width of
  int or more.
\<close>

theorem CheckedModOp_exact:
  assumes "cint T" "cint U" "in_range T x" "in_range U y" "BigEnough_is_contained T U" "y \<noteq> 0"
  defines "P \<equiv> BigEnoughPromotion T U"
  shows "CheckedModOp T U (MaxExponentPromotion T U) x y result =
    (if is_signed P \<and> 32 \<le> int_bits P \<and> x = nl_lowest P \<and> y = -1 then None
     else Some (in_range (MaxExponentPromotion T U) (trunc_mod x y),
                static_cast (MaxExponentPromotion T U) (trunc_mod x y)))"
proof -
  have P: "cint P" using assms by (simp add: P_def)
  have p: "in_range P x" "in_range P y"
    using promotion_contains [OF assms(1,2,5,3,4)] by (simp_all add: P_def)
  have "div_undefined P x y \<longleftrightarrow> is_signed P \<and> 32 \<le> int_bits P \<and> x = nl_lowest P \<and> y = -1"
    using P p assms(6)
    by (elim cint_exhaust) (auto simp: div_undefined_def int_promote_def ctype_defs)
  moreover have "in_range P (trunc_mod x y)"
    using p(1) trunc_mod_abs_le [OF assms(6), of x] trunc_mod_sign [of x y] assms(6)
      nl_max_ge_0 [of P] nl_lowest_le_0 [of P] unfolding in_range_def by linarith
  ultimately show ?thesis
    using p P assms(1,2,6) unfolding CheckedModOp_def P_def [symmetric] Let_def by simp
qed

theorem CheckedModOp_exact_witness:
  "CheckedModOp int32 int32 int32 (-2147483648) (-1) 0 = None
   \<and> CheckedModOp int32 int32 int32 (-7) 2 0 = Some (True, -1)"
proof -
  have [simp]: "MaxExponentPromotion int32 int32 = int32" "BigEnoughPromotion int32 int32 = int32"
    "BigEnough_is_contained int32 int32"
    using BigEnoughPromotion_same_sign [of int32 int32] by (simp_all add: MaxExponentPromotion_def)
  show ?thesis
    using CheckedModOp_exact [of int32 int32 "-2147483648" "-1" 0]
      CheckedModOp_exact [of int32 int32 "-7" 2 0]
    by (simp add: ctype_defs trunc_mod_def trunc_div_sgn)
qed

text \<open>
  Remainder of a negative signed operand by a 64-bit unsigned one is computed on the wrapped
  operand and reported valid, although the exact remainder is another number.
\<close>

theorem CheckedModOp_mixed_wrong:
  "CheckedModOp int64 uint64 uint64 (-3) 10 0 = Some (True, 3) \<and> trunc_mod (-3) 10 = -3"
  by code_simp

end
