(* ===== verification/Clamped_Math.thy ===== *)
theory Clamped_Math
  imports Checked_Numeric
begin

text \<open>
  Saturating integer arithmetic: \<open>base/numerics/clamped_math_impl.h\<close> and the class template
  \<open>ClampedNumeric<T>\<close> of \<open>base/numerics/clamped_math.h\<close>. An operation \<open>Do<V>(x, y)\<close> is a
  function of the operand types, the result type \<open>V\<close> and the operands; the ARM assembler paths
  are not supported on the modelled targets. Division and remainder inherit the option of the
  checked operations (\<open>None\<close> is undefined behaviour).
\<close>

section \<open>Unary operations\<close>

text \<open>\<open>ct\<close> is \<open>MustTreatAsConstexpr\<close>; the builtin path exists on GCC and Clang.\<close>

definition ClampedNegFastOp :: "ctype \<Rightarrow> int \<Rightarrow> int" where
  "ClampedNegFastOp T value =
     (let (ok, result) = CheckedSubFastOp T 0 value in if ok then result else nl_max T)"

definition SaturatedNegWrapper :: "math_cfg \<Rightarrow> bool \<Rightarrow> ctype \<Rightarrow> int \<Rightarrow> int" where
  "SaturatedNegWrapper cfg ct T value =
     (if is_signed T then
        (if ct \<or> backend cfg = Portable
         then (if NegateWrapper T value \<noteq> nl_lowest T then NegateWrapper T value else nl_max T)
         else ClampedNegFastOp T value)
      else 0)"

definition SaturatedAbsWrapper :: "ctype \<Rightarrow> int \<Rightarrow> int" where
  "SaturatedAbsWrapper T value =
     static_cast T (SafeUnsignedAbs T value
       - of_bool (IsValueNegative T (static_cast T (SafeUnsignedAbs T value))))"

section \<open>Binary operations\<close>

definition ClampedAddOp ::
  "math_cfg \<Rightarrow> ctype \<Rightarrow> ctype \<Rightarrow> ctype \<Rightarrow> int \<Rightarrow> int \<Rightarrow> int" where
  "ClampedAddOp cfg T U V x y =
     (let saturated = CommonMaxOrMin V V (IsValueNegative U y);
          (ok, result) = CheckedAddOp cfg T U V x y 0
      in if ok then result else saturated)"

definition ClampedSubOp ::
  "math_cfg \<Rightarrow> ctype \<Rightarrow> ctype \<Rightarrow> ctype \<Rightarrow> int \<Rightarrow> int \<Rightarrow> int" where
  "ClampedSubOp cfg T U V x y =
     (let saturated = CommonMaxOrMin V V (\<not> IsValueNegative U y);
          (ok, result) = CheckedSubOp cfg T U V x y 0
      in if ok then result else saturated)"

definition ClampedMulOp ::
  "math_cfg \<Rightarrow> ctype \<Rightarrow> ctype \<Rightarrow> ctype \<Rightarrow> int \<Rightarrow> int \<Rightarrow> int" where
  "ClampedMulOp cfg T U V x y =
     (let saturated = CommonMaxOrMin V V (IsValueNegative T x \<noteq> IsValueNegative U y);
          (ok, result) = CheckedMulOp cfg T U V x y 0
      in if ok then result else saturated)"

definition ClampedDivOp :: "ctype \<Rightarrow> ctype \<Rightarrow> ctype \<Rightarrow> int \<Rightarrow> int \<Rightarrow> int option" where
  "ClampedDivOp T U V x y =
     (case CheckedDivOp T U V x y 0 of
        None \<Rightarrow> None
      | Some (ok, result) \<Rightarrow>
          if ok then Some result
          else if x \<noteq> 0
          then Some (CommonMaxOrMin V V (IsValueNegative T x \<noteq> IsValueNegative U y))
          else Some 0)"

definition ClampedModOp :: "ctype \<Rightarrow> ctype \<Rightarrow> ctype \<Rightarrow> int \<Rightarrow> int \<Rightarrow> int option" where
  "ClampedModOp T U V x y =
     (case CheckedModOp T U V x y 0 of
        None \<Rightarrow> None
      | Some (ok, result) \<Rightarrow> Some (if ok then result else static_cast V x))"

definition ClampedLshOp :: "ctype \<Rightarrow> ctype \<Rightarrow> ctype \<Rightarrow> int \<Rightarrow> int \<Rightarrow> int" where
  "ClampedLshOp T U V x shift =
     (let result = static_cast V (static_cast (int_promote (make_unsigned T))
            (push_bit (nat shift) (as_unsigned T x))); A = arith_type V T in
      if shift < int (nl_digits T) \<and> static_cast A (drop_bit (nat shift) result) = static_cast A x
      then result
      else if x \<noteq> 0 then CommonMaxOrMin V V (IsValueNegative T x) else 0)"

definition ClampedRshOp :: "bool \<Rightarrow> ctype \<Rightarrow> ctype \<Rightarrow> ctype \<Rightarrow> int \<Rightarrow> int \<Rightarrow> int" where
  "ClampedRshOp ct T U V x shift =
     (let saturated = static_cast V (as_unsigned V 0 - of_bool (IsValueNegative T x)) in
      if shift < int (IntegerBitsPlusSign T)
      then saturated_cast ct V (int_promote T) (drop_bit (nat shift) x) else saturated)"

definition ClampedAndOp :: "ctype \<Rightarrow> ctype \<Rightarrow> ctype \<Rightarrow> int \<Rightarrow> int \<Rightarrow> int" where
  "ClampedAndOp T U V x y =
     static_cast V (and (static_cast (BitResultType T U) x) (static_cast (BitResultType T U) y))"

definition ClampedOrOp :: "ctype \<Rightarrow> ctype \<Rightarrow> ctype \<Rightarrow> int \<Rightarrow> int \<Rightarrow> int" where
  "ClampedOrOp T U V x y =
     static_cast V (or (static_cast (BitResultType T U) x) (static_cast (BitResultType T U) y))"

definition ClampedXorOp :: "ctype \<Rightarrow> ctype \<Rightarrow> ctype \<Rightarrow> int \<Rightarrow> int \<Rightarrow> int" where
  "ClampedXorOp T U V x y =
     static_cast V (xor (static_cast (BitResultType T U) x) (static_cast (BitResultType T U) y))"

definition ClampedMaxOp :: "bool \<Rightarrow> ctype \<Rightarrow> ctype \<Rightarrow> ctype \<Rightarrow> int \<Rightarrow> int \<Rightarrow> int" where
  "ClampedMaxOp ct T U V x y =
     (if IsGreater T U x y then saturated_cast ct V T x else saturated_cast ct V U y)"

definition ClampedMinOp :: "bool \<Rightarrow> ctype \<Rightarrow> ctype \<Rightarrow> ctype \<Rightarrow> int \<Rightarrow> int \<Rightarrow> int" where
  "ClampedMinOp ct T U V x y =
     (if IsLess T U x y then saturated_cast ct V T x else saturated_cast ct V U y)"

section \<open>The class ClampedNumeric\<close>

text \<open>
  A \<open>ClampedNumeric<T>\<close> is its value; construction and conversion saturate. \<open>ct\<close> says
  whether the operands are compile-time constants.
\<close>

definition ClampedNumeric_of :: "bool \<Rightarrow> ctype \<Rightarrow> ctype \<Rightarrow> int \<Rightarrow> int" where
  "ClampedNumeric_of ct T Src value = saturated_cast ct T Src value"

definition cl_Negate :: "math_cfg \<Rightarrow> bool \<Rightarrow> ctype \<Rightarrow> int \<Rightarrow> int" where
  "cl_Negate cfg ct T v = ClampedNumeric_of ct T T (SaturatedNegWrapper cfg ct T v)"

definition cl_Abs :: "bool \<Rightarrow> ctype \<Rightarrow> int \<Rightarrow> int" where
  "cl_Abs ct T v = ClampedNumeric_of ct T T (SaturatedAbsWrapper T v)"

definition cl_Invert :: "bool \<Rightarrow> ctype \<Rightarrow> int \<Rightarrow> int" where
  "cl_Invert ct T v =
     (let U = make_unsigned T in
      ClampedNumeric_of ct T U (ClampedNumeric_of ct U U (InvertWrapper T v)))"

definition cl_UnsignedAbs :: "bool \<Rightarrow> ctype \<Rightarrow> int \<Rightarrow> int" where
  "cl_UnsignedAbs ct T v =
     ClampedNumeric_of ct (make_unsigned T) (make_unsigned T) (SafeUnsignedAbs T v)"

fun ClampedOp ::
  "math_cfg \<Rightarrow> bool \<Rightarrow> math_op \<Rightarrow> ctype \<Rightarrow> ctype \<Rightarrow> ctype \<Rightarrow> int \<Rightarrow> int \<Rightarrow> int option" where
  "ClampedOp cfg ct OpAdd T U V x y = Some (ClampedAddOp cfg T U V x y)"
| "ClampedOp cfg ct OpSub T U V x y = Some (ClampedSubOp cfg T U V x y)"
| "ClampedOp cfg ct OpMul T U V x y = Some (ClampedMulOp cfg T U V x y)"
| "ClampedOp cfg ct OpDiv T U V x y = ClampedDivOp T U V x y"
| "ClampedOp cfg ct OpMod T U V x y = ClampedModOp T U V x y"
| "ClampedOp cfg ct OpLsh T U V x y = Some (ClampedLshOp T U V x y)"
| "ClampedOp cfg ct OpRsh T U V x y = Some (ClampedRshOp ct T U V x y)"
| "ClampedOp cfg ct OpAnd T U V x y = Some (ClampedAndOp T U V x y)"
| "ClampedOp cfg ct OpOr T U V x y = Some (ClampedOrOp T U V x y)"
| "ClampedOp cfg ct OpXor T U V x y = Some (ClampedXorOp T U V x y)"
| "ClampedOp cfg ct OpMax T U V x y = Some (ClampedMaxOp ct T U V x y)"
| "ClampedOp cfg ct OpMin T U V x y = Some (ClampedMinOp ct T U V x y)"

definition cl_MathOp ::
  "math_cfg \<Rightarrow> bool \<Rightarrow> math_op \<Rightarrow> ctype \<Rightarrow> ctype \<Rightarrow> ctype \<Rightarrow> int \<Rightarrow> int \<Rightarrow> int option" where
  "cl_MathOp cfg ct M D L R lhs rhs =
     map_option (ClampedNumeric_of ct D D) (ClampedOp cfg ct M L R D lhs rhs)"

definition ClampMathOp ::
  "math_cfg \<Rightarrow> bool \<Rightarrow> math_op \<Rightarrow> ctype \<Rightarrow> ctype \<Rightarrow> int \<Rightarrow> int \<Rightarrow> int option" where
  "ClampMathOp cfg ct M L R lhs rhs = cl_MathOp cfg ct M (MathResultType M L R) L R lhs rhs"

text \<open>\<open>base::ClampAdd\<close> and \<open>base::ClampSub\<close> on two \<open>int\<close>s, converted back to \<open>int\<close>.\<close>

definition ClampAdd :: "math_cfg \<Rightarrow> int \<Rightarrow> int \<Rightarrow> int" where
  "ClampAdd cfg a b = saturated_cast False int32 int32
     (saturated_cast False int32 int32 (ClampedAddOp cfg int32 int32 int32 a b))"

definition ClampSub :: "math_cfg \<Rightarrow> int \<Rightarrow> int \<Rightarrow> int" where
  "ClampSub cfg a b = saturated_cast False int32 int32
     (saturated_cast False int32 int32 (ClampedSubOp cfg int32 int32 int32 a b))"

text \<open>
  When the saturation direction an operation derives from the signs of its operands is the
  direction of the exact result: always, but for sums and differences of a signed left operand
  at an unsigned result type.
\<close>

fun clamp_direction_ok :: "math_op \<Rightarrow> ctype \<Rightarrow> ctype \<Rightarrow> bool" where
  "clamp_direction_ok OpAdd L R \<longleftrightarrow> is_signed (MaxExponentPromotion L R) \<or> \<not> is_signed L"
| "clamp_direction_ok OpSub L R \<longleftrightarrow>
     is_signed (MaxExponentPromotion L R) \<or> \<not> is_signed L \<or> \<not> is_signed R"
| "clamp_direction_ok OpLsh L R \<longleftrightarrow> \<not> is_signed R"
| "clamp_direction_ok OpRsh L R \<longleftrightarrow> \<not> is_signed R"
| "clamp_direction_ok _ L R \<longleftrightarrow> True"

section \<open>Lemmas\<close>

lemma exact_clamp:
  assumes e: "exact_result V r True z" and V: "cint V"
    and dir: "\<not> in_range V z \<Longrightarrow> neg \<longleftrightarrow> z < nl_lowest V"
  shows "(if fst r then snd r else CommonMaxOrMin V V neg) = clamp_to V z"
  using e V dir lowest_le_max [of V V]
  by (auto simp: exact_result_def clamp_to_def in_range_def)

lemma IsValueNegative_iff: "in_range T x \<Longrightarrow> IsValueNegative T x \<longleftrightarrow> x < 0"
  by (auto simp: IsValueNegative_def ctype_defs)

text \<open>
  The saturation direction is taken from the operands. For addition it is right unless the
  result type is unsigned and the left operand signed.
\<close>

lemma add_direction:
  assumes "cint T" "cint U" and r: "in_range T x" "in_range U y"
    and "is_signed (MaxExponentPromotion T U) \<or> \<not> is_signed T"
    and "\<not> in_range (MaxExponentPromotion T U) (x + y)"
  shows "y < 0 \<longleftrightarrow> x + y < nl_lowest (MaxExponentPromotion T U)"
  using assms
  by (elim cint_exhaust) (auto simp: MaxExponentPromotion_def MaxExponent_def ctype_defs)

lemma sub_direction:
  assumes "cint T" "cint U" and r: "in_range T x" "in_range U y"
    and "\<not> in_range (MaxExponentPromotion T U) (x - y)"
    and "is_signed (MaxExponentPromotion T U) \<or> \<not> is_signed T \<or> \<not> is_signed U"
  shows "\<not> y < 0 \<longleftrightarrow> x - y < nl_lowest (MaxExponentPromotion T U)"
  using assms
  by (elim cint_exhaust) (auto simp: MaxExponentPromotion_def MaxExponent_def ctype_defs)

lemma mul_direction:
  assumes "\<not> in_range V (x * y)" "0 < int_bits V"
  shows "(x < 0) \<noteq> (y < 0) \<longleftrightarrow> x * y < nl_lowest V"
proof -
  have "x * y < nl_lowest V \<Longrightarrow> x * y < 0" using nl_lowest_le_0 [of V] by linarith
  moreover have "nl_max V < x * y \<Longrightarrow> 0 < x * y" using nl_max_ge_0 [of V] by linarith
  ultimately show ?thesis
    using assms by (auto simp: in_range_def mult_less_0_iff zero_less_mult_iff)
qed


lemma cl_cast [simp]: "cint D \<Longrightarrow> in_range D v \<Longrightarrow> ClampedNumeric_of ct D D v = v"
  by (simp add: ClampedNumeric_of_def saturated_cast_eq)

lemma ClampedAddOp_clamps:
  assumes ct: "cint T" "cint U" and r: "in_range T x" "in_range U y"
    and C: "BigEnough_is_contained T U"
    and d: "is_signed (MaxExponentPromotion T U) \<or> \<not> is_signed T"
  shows "ClampedAddOp cfg T U (MaxExponentPromotion T U) x y
    = clamp_to (MaxExponentPromotion T U) (x + y)"
  using add_direction [OF ct r d] ct r
  unfolding ClampedAddOp_def Let_def case_prod_unfold
  by (intro exact_clamp exact_AddSubMul(1) C) (simp_all add: IsValueNegative_iff)

lemma ClampedSubOp_clamps:
  assumes ct: "cint T" "cint U" and r: "in_range T x" "in_range U y"
    and C: "BigEnough_is_contained T U"
    and d: "is_signed (MaxExponentPromotion T U) \<or> \<not> is_signed T \<or> \<not> is_signed U"
  shows "ClampedSubOp cfg T U (MaxExponentPromotion T U) x y
    = clamp_to (MaxExponentPromotion T U) (x - y)"
  using sub_direction [OF ct r _ d] ct r
  unfolding ClampedSubOp_def Let_def case_prod_unfold
  by (intro exact_clamp exact_AddSubMul(2) C) (simp_all add: IsValueNegative_iff)

lemma ClampedMulOp_clamps:
  assumes ct: "cint T" "cint U" and r: "in_range T x" "in_range U y"
    and C: "BigEnough_is_contained T U"
  shows "ClampedMulOp cfg T U (MaxExponentPromotion T U) x y
    = clamp_to (MaxExponentPromotion T U) (x * y)"
  using mul_direction [of "MaxExponentPromotion T U" x y] ct r
  unfolding ClampedMulOp_def Let_def case_prod_unfold
  by (intro exact_clamp exact_AddSubMul(3) C) (simp_all add: IsValueNegative_iff)

lemma trunc_div_signs:
  "trunc_div x y < 0 \<Longrightarrow> x \<noteq> 0 \<and> (x < 0) \<noteq> (y < 0)"
  "0 < trunc_div x y \<Longrightarrow> x \<noteq> 0 \<and> (x < 0) = (y < 0)"
  by (auto simp: trunc_div_sgn sgn_if zero_less_mult_iff mult_less_0_iff pos_imp_zdiv_neg_iff
      not_less div_int_pos_iff split: if_splits)

lemma ClampedDivOp_clamps:
  assumes ct: "cint T" "cint U" and r: "in_range T x" "in_range U y"
    and C: "BigEnough_is_contained T U" and V: "V = MaxExponentPromotion T U"
  shows "ClampedDivOp T U V x y =
    Some (if y \<noteq> 0 then clamp_to V (trunc_div x y)
          else if x < 0 then nl_lowest V else if x = 0 then 0 else nl_max V)"
proof -
  obtain q where q: "CheckedDivOp T U V x y 0 = Some q" "exact_result V q (y \<noteq> 0) (trunc_div x y)"
    using exact_Div [OF ct r C] V by blast
  have cV: "cint V" using ct V by simp
  show ?thesis
  proof (cases "y = 0")
    case True
    then show ?thesis
      using q r ct cV by (auto simp: ClampedDivOp_def exact_result_def IsValueNegative_iff case_prod_unfold Let_def)
  next
    case False
    have sg: "x \<noteq> 0 \<and> ((x < 0) \<noteq> (y < 0) \<longleftrightarrow> trunc_div x y < nl_lowest V)"
      if "\<not> in_range V (trunc_div x y)"
      using that trunc_div_signs [of x y] nl_lowest_le_0 [of V] nl_max_ge_0 [of V]
      unfolding in_range_def by (smt (verit))
    show ?thesis
      using False q r ct cV sg lowest_le_max [of V V]
      by (auto simp: ClampedDivOp_def exact_result_def IsValueNegative_iff case_prod_unfold
          clamp_to_def in_range_def)
  qed
qed

lemma ClampedLshOp_clamps:
  assumes ct: "cint T" and x: "in_range T x" and s: "0 \<le> s"
  shows "ClampedLshOp T U T x s = clamp_to T (x * 2 ^ nat s)"
proof -
  have A: "arith_type T T = int_promote T" by (simp add: arith_type_def Let_def)
  have wide: "int_bits T \<le> int_bits (int_promote (make_unsigned T))" by (simp add: int_promote_def)
  let ?v = "static_cast T (x * 2 ^ nat s)"
  have rng: "in_range (int_promote T) x" "in_range (int_promote T) (drop_bit (nat s) ?v)"
    using ct x by (simp_all add: in_range_int_promote drop_bit_in_range static_cast_in_range)
  have v: "static_cast T (static_cast (int_promote (make_unsigned T)) (push_bit (nat s) (as_unsigned T x))) = ?v"
  proof -
    have "static_cast T (static_cast (int_promote (make_unsigned T)) (push_bit (nat s) (as_unsigned T x)))
       = static_cast T (as_unsigned T x * 2 ^ nat s)"
      using static_cast_narrow [OF _ wide] ct by (simp add: push_bit_eq_mult)
    also have "\<dots> = ?v"
      using ct by (intro static_cast_cong)
        (simp_all add: as_unsigned_def static_cast_def take_bit_eq_mod mod_simps)
    finally show ?thesis .
  qed
  have main: "ClampedLshOp T U T x s =
    (if s < int (nl_digits T) \<and> ?v div 2 ^ nat s = x then ?v
     else if x \<noteq> 0 then (if x < 0 then nl_lowest T else nl_max T) else 0)"
    using A rng ct x by (simp add: ClampedLshOp_def v Let_def drop_bit_eq_div IsValueNegative_iff)
  have dir: "x * 2 ^ nat s < nl_lowest T \<longleftrightarrow> x < 0" if "\<not> in_range T (x * 2 ^ nat s)"
    using mul_direction [OF that] ct by simp
  have rev: "?v div 2 ^ nat s = x \<longleftrightarrow> in_range T (x * 2 ^ nat s)" if "s < int (nl_digits T)"
    using that s ct x by (intro shift_reversible) (auto simp: nl_digits_def split: if_splits)
  have "clamp_to T (x * 2 ^ nat s) = (if x \<noteq> 0 then (if x < 0 then nl_lowest T else nl_max T) else 0)"
    if "\<not> s < int (nl_digits T)"
  proof -
    have "(2::int) ^ nl_digits T \<le> 2 ^ nat s" using that by (intro power_increasing) auto
    moreover have "x < 0 \<Longrightarrow> x * 2 ^ nat s \<le> - (2 ^ nat s)" "x > 0 \<Longrightarrow> x * 2 ^ nat s \<ge> 2 ^ nat s"
      using mult_right_mono [of x "-1" "2 ^ nat s"] mult_right_mono [of 1 x "2 ^ nat s"] by auto
    moreover have "nl_max T = 2 ^ nl_digits T - 1" "- (2 ^ nl_digits T) \<le> nl_lowest T"
      by (simp_all add: nl_max_def nl_lowest_def nl_digits_def)
    ultimately show ?thesis
      using nl_lowest_le_0 [of T] nl_max_ge_0 [of T] unfolding clamp_to_def by (smt (verit) mult_eq_0_iff)
  qed
  then show ?thesis
    unfolding main using rev dir ct lowest_le_max [of T T]
    by (auto simp: clamp_to_def in_range_def)
qed

lemma cint_int_promote: "cint T \<Longrightarrow> cint (int_promote T)"
  by (simp add: int_promote_def)

lemma div_pow_sign:
  assumes "cint T" "in_range T x" "int (int_bits T) \<le> s"
  shows "x div 2 ^ nat s = - of_bool (x < 0)"
proof -
  have "(2::int) ^ int_bits T \<le> 2 ^ nat s" using assms(3) by (intro power_increasing) auto
  moreover have "- (2 ^ int_bits T) \<le> x" "x < 2 ^ int_bits T"
    using assms(1,2) power_bits_split [of "int_bits T"] by (auto simp: ctype_defs split: if_splits)
  ultimately have "- (2 ^ nat s) \<le> x" "x < 2 ^ nat s" by linarith+
  then show ?thesis
    using int_div_pos_eq [of x "2 ^ nat s" "-1" "x + 2 ^ nat s"] by auto
qed

lemma ClampedRshOp_clamps:
  assumes ct: "cint T" and x: "in_range T x" and s: "0 \<le> s"
  shows "ClampedRshOp cst T U T x s = clamp_to T (x div 2 ^ nat s)"
proof -
  have r: "in_range T (x div 2 ^ nat s)"
    using drop_bit_in_range [OF _ x, of "nat s"] ct by (simp add: drop_bit_eq_div)
  have b: "IntegerBitsPlusSign T = int_bits T" using ct by (auto simp: IntegerBitsPlusSign_def nl_digits_def cint_def)
  have "saturated_cast cst T (int_promote T) (x div 2 ^ nat s) = x div 2 ^ nat s"
    using ct r by (subst saturated_cast_eq) (auto simp: in_range_int_promote cint_int_promote)
  moreover have "in_range T (- of_bool (x < 0))" using x ct by (auto simp: ctype_defs split: if_splits)
  ultimately show ?thesis
    using r b div_pow_sign [OF ct x, of s] ct x
    by (auto simp: ClampedRshOp_def drop_bit_eq_div as_unsigned_def IsValueNegative_iff)
qed

lemma ClampedMaxMinOp_clamps:
  assumes "cint T" "cint U" "cint V" "in_range T x" "in_range U y"
  shows "ClampedMaxOp cst T U V x y = clamp_to V (max x y)"
    and "ClampedMinOp cst T U V x y = clamp_to V (min x y)"
  using assms
  by (auto simp: ClampedMaxOp_def ClampedMinOp_def compare_correct saturated_cast_eq max_def min_def)

lemma cl_MathOp_Some:
  "ClampedOp cfg cst M L R D x y = Some v \<Longrightarrow> cint D \<Longrightarrow> in_range D v \<Longrightarrow>
   cl_MathOp cfg cst M D L R x y = Some v"
  by (simp add: cl_MathOp_def)

lemma ClampAddSub_clamps:
  assumes "in_range int32 a" "in_range int32 b"
  shows "ClampAdd cfg a b = clamp_to int32 (a + b)" "ClampSub cfg a b = clamp_to int32 (a - b)"
proof -
  have "BigEnough_is_contained int32 int32" "MaxExponentPromotion int32 int32 = int32"
    using BigEnoughPromotion_same_sign [of int32 int32] by (simp_all add: MaxExponentPromotion_def)
  then show "ClampAdd cfg a b = clamp_to int32 (a + b)" "ClampSub cfg a b = clamp_to int32 (a - b)"
    using ClampedAddOp_clamps [of int32 int32 a b cfg] ClampedSubOp_clamps [of int32 int32 a b cfg] assms
    by (simp_all add: ClampAdd_def ClampSub_def saturated_cast_eq clamp_to_in_range)
qed

section \<open>Properties\<close>

text \<open>
  C4: ClampMathOp: every clamped operation but remainder and the bit operations returns the exact
  result clamped to the limits of the result type, on every backend, for constants and at run
  time. The conditions are: some integer type contains both operand types, except for maximum,
  minimum and shifts, where any two types will do; the divisor is not zero; sums and differences
  have a result type whose signedness fits the direction rule of the code (see
  \<open>ClampedAddOp_wrong_direction\<close> for one that does not), and shifts an unsigned shift (asserted
  statically).
\<close>

theorem ClampMathOp_saturates:
  assumes "cint L" "cint R" and "in_range L x" "in_range R y"
    and "BigEnough_is_contained L R \<or> M \<in> {OpMax, OpMin, OpLsh, OpRsh}"
    and "M \<notin> {OpMod, OpAnd, OpOr, OpXor}" and "M = OpDiv \<longrightarrow> y \<noteq> 0"
    and "clamp_direction_ok M L R"
  shows "ClampMathOp cfg cst M L R x y = Some (clamp_to (MathResultType M L R) (math_exact M x y))"
proof -
  have "0 \<le> y" if "\<not> is_signed R" using that assms(4) by (simp add: in_range_def nl_lowest_def)
  then have "ClampedOp cfg cst M L R (MathResultType M L R) x y
      = Some (clamp_to (MathResultType M L R) (math_exact M x y))"
    using assms ClampedDivOp_clamps [OF assms(1-4)]
    by (cases M) (auto simp: ClampedAddOp_clamps ClampedSubOp_clamps ClampedMulOp_clamps
        ClampedLshOp_clamps ClampedRshOp_clamps ClampedMaxMinOp_clamps)
  then show ?thesis
    using assms(1,2) unfolding ClampMathOp_def by (intro cl_MathOp_Some) (auto intro: range_intros)
qed

theorem ClampMathOp_saturates_witness:
  "ClampMathOp \<lparr>backend = Clang, ptr_bits = 64\<rparr> False OpMul int32 int32 (-65536) 65536
   = Some (-2147483648)"
proof -
  have "BigEnough_is_contained int32 int32" "MaxExponentPromotion int32 int32 = int32"
    using BigEnoughPromotion_same_sign [of int32 int32] by (simp_all add: MaxExponentPromotion_def)
  then show ?thesis
    using ClampMathOp_saturates [of int32 int32 "-65536" 65536 OpMul "\<lparr>backend = Clang, ptr_bits = 64\<rparr>" False]
    by (simp add: ctype_defs clamp_to_def)
qed

text \<open>
  The saturation direction of ClampedAddOp comes from the sign of the right operand alone: for
  a signed left operand and an unsigned result type a sum below zero saturates upwards.
\<close>

theorem ClampedAddOp_wrong_direction:
  "ClampedAddOp cfg int8 uint8 (MaxExponentPromotion int8 uint8) (-100) 50 = 255
   \<and> clamp_to (MaxExponentPromotion int8 uint8) (-100 + 50) = 0"
proof -
  have V: "MaxExponentPromotion int8 uint8 = uint8"
    by (simp add: MaxExponentPromotion_def MaxExponent_def nl_digits_def)
  have "BigEnough_is_contained int8 uint8"
    by (simp add: BigEnough_is_contained_def BigEnough_is_max_exponent_def MaxExponentPromotion_def
        BigEnough_is_intmax_def MaxExponent_def StaticDstRangeRelationToSrcRange_def nl_digits_def)
  then have "exact_result uint8 (CheckedAddOp cfg int8 uint8 uint8 (-100) 50 0) True (-50)"
    using exact_AddSubMul(1) [of int8 uint8 "-100" 50 cfg 0] V by (simp add: ctype_defs)
  then show ?thesis
    unfolding V by (auto simp: ClampedAddOp_def exact_result_def ctype_defs IsValueNegative_def
        clamp_to_def split: prod.splits)
qed

text \<open>
  Negation and absolute value of a ClampedNumeric saturate: they are the exact negation and
  absolute value clamped to the type, for constants and at run time; unsigned negation gives 0.
\<close>

theorem cl_Negate_Abs_saturate:
  assumes "cint T" "in_range T v"
  shows "cl_Negate cfg cst T v = clamp_to T (- v) \<and> cl_Abs cst T v = clamp_to T \<bar>v\<bar>
    \<and> cl_UnsignedAbs cst T v = \<bar>v\<bar>"
proof -
  have neg: "SaturatedNegWrapper cfg cst T v = clamp_to T (- v)"
  proof (cases "is_signed T")
    case True
    have rx: "in_range T (- v) \<longleftrightarrow> v \<noteq> nl_lowest T" "- v \<noteq> nl_lowest T"
      using assms True by (auto simp: ctype_defs)
    have "NegateWrapper T v = static_cast T (- v)"
      using static_cast_unsigned_sum(2) [of T 0 v] assms by (simp add: NegateWrapper_def)
    moreover have "static_cast T (- nl_lowest T) = nl_lowest T"
      using static_cast_wrap [of T "- nl_lowest T" 1] assms True power_bits_split [of "int_bits T"]
      by (simp add: ctype_defs)
    moreover have "clamp_to T (- nl_lowest T) = nl_max T"
      using True by (simp add: clamp_to_def ctype_defs)
    ultimately show ?thesis
      using rx True assms
      by (auto simp: SaturatedNegWrapper_def ClampedNegFastOp_def CheckedSubFastOp_def)
  next
    case False
    then show ?thesis
      using assms by (simp add: SaturatedNegWrapper_def clamp_to_def ctype_defs)
  qed
  moreover have "SaturatedAbsWrapper T v = clamp_to T \<bar>v\<bar>"
  proof (cases "in_range T \<bar>v\<bar>")
    case True
    then show ?thesis
      using assms SafeUnsignedAbs_eq [of T v]
      by (simp add: SaturatedAbsWrapper_def IsValueNegative_iff)
  next
    case False
    then have v: "v = nl_lowest T" "is_signed T" using assms by (auto simp: ctype_defs split: if_splits)
    have "static_cast T (- nl_lowest T) = nl_lowest T" "nl_lowest T < 0"
      using static_cast_wrap [of T "- nl_lowest T" 1] assms v(2) power_bits_split [of "int_bits T"]
      by (simp_all add: ctype_defs)
    moreover have "- nl_lowest T - 1 = nl_max T" using v(2) by (simp add: ctype_defs)
    ultimately show ?thesis
      using v assms SafeUnsignedAbs_eq [of T v]
      by (simp add: SaturatedAbsWrapper_def IsValueNegative_iff clamp_to_def)
  qed
  moreover have "in_range (make_unsigned T) \<bar>v\<bar>"
    using assms power_bits_split [of "int_bits T"] by (auto simp: ctype_defs split: if_splits)
  ultimately show ?thesis
    using assms SafeUnsignedAbs_eq [of T v]
    by (simp add: cl_Negate_def cl_Abs_def cl_UnsignedAbs_def clamp_to_in_range)
qed

theorem cl_Negate_Abs_saturate_witness:
  "cl_Negate \<lparr>backend = Gcc, ptr_bits = 64\<rparr> False int8 (-128) = 127 \<and> cl_Abs True int8 (-128) = 127
   \<and> cl_UnsignedAbs True int8 (-128) = 128"
  using cl_Negate_Abs_saturate [of int8 "-128" "\<lparr>backend = Gcc, ptr_bits = 64\<rparr>"]
  by (simp add: ctype_defs clamp_to_def)

end
