(* ===== verification/Vector_Buffer.thy ===== *)
theory Vector_Buffer
  imports Prelude "HOL-Library.Monad_Syntax"
begin

text \<open>
  Raw storage for containers: \<open>base/containers/vector_buffer.h\<close>. A buffer of capacity \<open>n\<close> is
  a list of \<open>n\<close> cells, each raw memory (\<open>None\<close>) or a live object (\<open>Some v\<close>). The operations
  return \<open>None\<close> where the program has undefined behaviour or loses an object: an index out of
  bounds, a read or a destructor call on raw memory, a construction on top of a live object.
\<close>

type_synonym 'a vector_buffer = "'a option list"

section \<open>Operations\<close>

definition vb_new :: "nat \<Rightarrow> 'a vector_buffer" where
  "vb_new n = replicate n None"

definition vb_capacity :: "'a vector_buffer \<Rightarrow> nat" where
  "vb_capacity buf = length buf"

definition vb_get :: "'a vector_buffer \<Rightarrow> nat \<Rightarrow> 'a option" where
  "vb_get buf i = (if i < length buf then buf ! i else None)"

text \<open>Placement new on a cell, and assignment to the live object of a cell.\<close>

definition vb_construct :: "'a vector_buffer \<Rightarrow> nat \<Rightarrow> 'a \<Rightarrow> 'a vector_buffer option" where
  "vb_construct buf i v =
     (if i < length buf \<and> buf ! i = None then Some (buf[i := Some v]) else None)"

definition vb_assign :: "'a vector_buffer \<Rightarrow> nat \<Rightarrow> 'a \<Rightarrow> 'a vector_buffer option" where
  "vb_assign buf i v =
     (if i < length buf \<and> buf ! i \<noteq> None then Some (buf[i := Some v]) else None)"

definition vb_destroy :: "'a vector_buffer \<Rightarrow> nat \<Rightarrow> 'a vector_buffer option" where
  "vb_destroy buf i =
     (if i < length buf \<and> buf ! i \<noteq> None then Some (buf[i := None]) else None)"

text \<open>
  \<open>DestructRange(begin, end)\<close> runs while \<open>begin != end\<close>: past \<open>end\<close> it would leave the buffer.
\<close>

function vb_DestructRange :: "'a vector_buffer \<Rightarrow> nat \<Rightarrow> nat \<Rightarrow> 'a vector_buffer option" where
  "vb_DestructRange buf b e =
     (if b = e then Some buf
      else if e < b then None
      else do { buf \<leftarrow> vb_destroy buf b; vb_DestructRange buf (b + 1) e })"
  by auto
termination by (relation "measure (\<lambda>(_, b, e). e - b)") auto

definition vb_RangesOverlap :: "nat \<Rightarrow> nat \<Rightarrow> nat \<Rightarrow> bool" where
  "vb_RangesOverlap from_begin from_end to \<longleftrightarrow>
     \<not> (from_end \<le> to \<or> to + (from_end - from_begin) \<le> from_begin)"

text \<open>
  \<open>MoveRange\<close>: each object is move-constructed at its destination and destroyed at its source.
  The first form moves between two buffers, the second inside one, where the ranges must not
  overlap.
\<close>

function vb_MoveRange ::
  "'a vector_buffer \<Rightarrow> nat \<Rightarrow> nat \<Rightarrow> 'a vector_buffer \<Rightarrow> nat \<Rightarrow>
   ('a vector_buffer \<times> 'a vector_buffer) option" where
  "vb_MoveRange from b e to t =
     (if b = e then Some (from, to)
      else if e < b then None
      else do {
        v \<leftarrow> vb_get from b;
        to \<leftarrow> vb_construct to t v;
        from \<leftarrow> vb_destroy from b;
        vb_MoveRange from (b + 1) e to (t + 1)
      })"
  by auto
termination by (relation "measure (\<lambda>(_, b, e, _). e - b)") auto

function vb_MoveLoop :: "'a vector_buffer \<Rightarrow> nat \<Rightarrow> nat \<Rightarrow> nat \<Rightarrow> 'a vector_buffer option" where
  "vb_MoveLoop buf b e t =
     (if b = e then Some buf
      else if e < b then None
      else do {
        v \<leftarrow> vb_get buf b;
        buf \<leftarrow> vb_construct buf t v;
        buf \<leftarrow> vb_destroy buf b;
        vb_MoveLoop buf (b + 1) e (t + 1)
      })"
  by auto
termination by (relation "measure (\<lambda>(_, b, e, _). e - b)") auto

definition vb_MoveWithin :: "'a vector_buffer \<Rightarrow> nat \<Rightarrow> nat \<Rightarrow> nat \<Rightarrow> 'a vector_buffer option" where
  "vb_MoveWithin buf b e t = (if vb_RangesOverlap b e t then None else vb_MoveLoop buf b e t)"

declare vb_DestructRange.simps [simp del] vb_MoveRange.simps [simp del] vb_MoveLoop.simps [simp del]

section \<open>Lemmas\<close>

lemma vb_new_simps [simp]:
  "length (vb_new n) = n" "i < n \<Longrightarrow> vb_new n ! i = None" "vb_new 0 = []"
  by (simp_all add: vb_new_def)

lemma vb_DestructRange_eq:
  assumes "b \<le> e" "e \<le> length buf" "\<And>i. b \<le> i \<Longrightarrow> i < e \<Longrightarrow> buf ! i \<noteq> None"
  shows "vb_DestructRange buf b e = Some (take b buf @ replicate (e - b) None @ drop e buf)"
  using assms
proof (induction "e - b" arbitrary: b buf)
  case 0
  then show ?case by (simp add: vb_DestructRange.simps)
next
  case (Suc n)
  have "vb_DestructRange (buf[b := None]) (Suc b) e
      = Some (take (Suc b) (buf[b := None]) @ replicate (e - Suc b) None @ drop e (buf[b := None]))"
    using Suc by (intro Suc.hyps(1)) auto
  moreover have "take (Suc b) (buf[b := None]) = take b buf @ [None]"
    using Suc.hyps(2) Suc.prems by (simp add: take_Suc_conv_app_nth)
  moreover have "replicate (e - b) (None :: 'a option) = None # replicate (e - Suc b) None"
    using Suc.hyps(2) by (metis diff_Suc_Suc diff_diff_left plus_1_eq_Suc replicate_Suc Suc_diff_Suc zero_less_Suc zero_less_diff)
  ultimately show ?case
    using Suc.hyps(2) Suc.prems by (subst vb_DestructRange.simps) (simp add: vb_destroy_def)
qed

lemma vb_MoveRange_eq:
  assumes "b \<le> e" "e \<le> length from" "t + (e - b) \<le> length to"
    and "\<And>i. b \<le> i \<Longrightarrow> i < e \<Longrightarrow> from ! i \<noteq> None"
    and "\<And>i. t \<le> i \<Longrightarrow> i < t + (e - b) \<Longrightarrow> to ! i = None"
  shows "\<exists>from'. length from' = length from
      \<and> (\<forall>i < length from. from' ! i = (if b \<le> i \<and> i < e then None else from ! i))
      \<and> vb_MoveRange from b e to t =
        Some (from', take t to @ take (e - b) (drop b from) @ drop (t + (e - b)) to)"
  using assms
proof (induction "e - b" arbitrary: b t "from" to)
  case 0
  then show ?case by (intro exI [of _ "from"]) (auto simp: vb_MoveRange.simps)
next
  case (Suc n)
  obtain v where v: "from ! b = Some v" using Suc.prems(4) [of b] Suc.hyps(2) by fastforce
  let ?from = "from[b := None]" and ?to = "to[t := Some v]"
  have "\<exists>from'. length from' = length ?from
      \<and> (\<forall>i < length ?from. from' ! i = (if Suc b \<le> i \<and> i < e then None else ?from ! i))
      \<and> vb_MoveRange ?from (Suc b) e ?to (Suc t) =
        Some (from', take (Suc t) ?to @ take (e - Suc b) (drop (Suc b) ?from) @ drop (Suc t + (e - Suc b)) ?to)"
    using Suc by (intro Suc.hyps(1)) auto
  then obtain from' where f: "length from' = length from"
    "\<forall>i < length from. from' ! i = (if Suc b \<le> i \<and> i < e then None else ?from ! i)"
    "vb_MoveRange ?from (Suc b) e ?to (Suc t) =
        Some (from', take (Suc t) ?to @ take (e - Suc b) (drop (Suc b) ?from) @ drop (Suc t + (e - Suc b)) ?to)"
    by auto
  have eb: "e - b = Suc (e - Suc b)" using Suc.hyps(2) by linarith
  have "take (Suc t) ?to = take t to @ [Some v]"
    using eb Suc.prems by (simp add: take_Suc_conv_app_nth)
  moreover have "take (e - b) (drop b from) = Some v # take (e - Suc b) (drop (Suc b) from)"
    using eb Suc.prems v Cons_nth_drop_Suc [of b "from"] by (metis Suc_le_lessD diff_is_0_eq leI le_trans nat.distinct(1) order_less_le_trans take_Suc_Cons zero_less_Suc zero_less_diff)
  moreover have "vb_MoveRange from b e to t = vb_MoveRange ?from (Suc b) e ?to (Suc t)"
    using v Suc.prems eb
    by (subst vb_MoveRange.simps) (auto simp: vb_get_def vb_construct_def vb_destroy_def)
  ultimately have "vb_MoveRange from b e to t
      = Some (from', take t to @ take (e - b) (drop b from) @ drop (t + (e - b)) to)"
    using f(3) eb by simp
  moreover have "\<forall>i < length from. from' ! i = (if b \<le> i \<and> i < e then None else from ! i)"
    using f(2) eb Suc.prems by (auto simp: nth_list_update)
  ultimately show ?case using f(1) by blast
qed

lemma vb_MoveWithin_one:
  assumes "b < length buf" "t < length buf" "buf ! b = Some v" "buf ! t = None"
  shows "vb_MoveWithin buf b (b + 1) t = Some (buf[t := Some v, b := None])"
proof -
  have "b \<noteq> t" using assms by auto
  then show ?thesis
    using assms
    by (auto simp: vb_MoveWithin_def vb_RangesOverlap_def vb_MoveLoop.simps [of buf]
        vb_MoveLoop.simps [of _ "Suc b"] vb_get_def vb_construct_def vb_destroy_def)
qed

end
