(* ===== verification/Refinement.thy ===== *)
theory Refinement
  imports Prelude "HOL-Library.Monad_Syntax"
begin

text \<open>
  The interfaces the containers are proved against. \<open>data_refinement\<close>: a state-based component
  with a step function implements an abstract one when each abstract step is matched, with the
  same output; then every run is. \<open>fifo_queue\<close>: what a client of a queue relies on, whichever
  container provides it. Every step function returns \<open>None\<close> where the operation may not be
  called (a failed check or undefined behaviour), so a matched step also says that none of that
  happens.
\<close>

section \<open>Runs of operations\<close>

fun run_ops :: "('s \<Rightarrow> 'op \<Rightarrow> ('s \<times> 'out) option) \<Rightarrow> 's \<Rightarrow> 'op list \<Rightarrow> ('s \<times> 'out list) option" where
  "run_ops step s [] = Some (s, [])"
| "run_ops step s (op # ops) = do {
     (s, out) \<leftarrow> step s op;
     (s, outs) \<leftarrow> run_ops step s ops;
     Some (s, out # outs)
   }"

datatype 'a queue_op = Enqueue 'a | Dequeue

fun queue_step ::
  "('s \<Rightarrow> 'a \<Rightarrow> 's option) \<Rightarrow> ('s \<Rightarrow> 's option) \<Rightarrow> ('s \<Rightarrow> 'a option) \<Rightarrow>
   's \<Rightarrow> 'a queue_op \<Rightarrow> ('s \<times> 'a option) option" where
  "queue_step enq deq first s (Enqueue v) = do { s \<leftarrow> enq s v; Some (s, None) }"
| "queue_step enq deq first s Dequeue = do { v \<leftarrow> first s; s \<leftarrow> deq s; Some (s, Some v) }"

fun list_queue_step :: "'a list \<Rightarrow> 'a queue_op \<Rightarrow> ('a list \<times> 'a option) option" where
  "list_queue_step xs (Enqueue v) = Some (xs @ [v], None)"
| "list_queue_step [] Dequeue = None"
| "list_queue_step (x # xs) Dequeue = Some (xs, Some x)"

section \<open>Refinement\<close>

locale data_refinement =
  fixes rep :: "'s \<Rightarrow> 'm \<Rightarrow> bool"
    and cstep :: "'s \<Rightarrow> 'op \<Rightarrow> ('s \<times> 'out) option"
    and astep :: "'m \<Rightarrow> 'op \<Rightarrow> ('m \<times> 'out) option"
  assumes step: "rep s m \<Longrightarrow> astep m op = Some (m', out) \<Longrightarrow> \<exists>s'. cstep s op = Some (s', out) \<and> rep s' m'"
begin

lemma run:
  assumes "rep s m" and "run_ops astep m ops = Some (m', outs)"
  shows "\<exists>s'. run_ops cstep s ops = Some (s', outs) \<and> rep s' m'"
  using assms
proof (induction ops arbitrary: s m outs)
  case (Cons op ops)
  then obtain m1 out outs' where a: "astep m op = Some (m1, out)" "run_ops astep m1 ops = Some (m', outs')"
    "outs = out # outs'"
    by (auto simp: bind_eq_Some_conv)
  obtain s1 where s1: "cstep s op = Some (s1, out)" "rep s1 m1" using step [OF Cons.prems(1) a(1)] by blast
  obtain s' where "run_ops cstep s1 ops = Some (s', outs')" "rep s' m'" using Cons.IH [OF s1(2) a(2)] by blast
  with s1(1) a(3) show ?case by simp
qed simp

end

locale fifo_queue =
  fixes rep :: "'s \<Rightarrow> 'a list \<Rightarrow> bool"
    and enq :: "'s \<Rightarrow> 'a \<Rightarrow> 's option" and deq :: "'s \<Rightarrow> 's option" and first :: "'s \<Rightarrow> 'a option"
  assumes rep_enq: "rep s xs \<Longrightarrow> \<exists>s'. enq s v = Some s' \<and> rep s' (xs @ [v])"
    and rep_deq: "rep s (x # xs) \<Longrightarrow> \<exists>s'. deq s = Some s' \<and> rep s' xs"
    and rep_first: "rep s (x # xs) \<Longrightarrow> first s = Some x"
begin

lemma queue_match:
  assumes "rep s xs" "list_queue_step xs op = Some (xs', out)"
  shows "\<exists>s'. queue_step enq deq first s op = Some (s', out) \<and> rep s' xs'"
proof (cases op)
  case (Enqueue v)
  then show ?thesis using assms rep_enq [OF assms(1), of v] by auto
next
  case Dequeue
  then show ?thesis using assms rep_deq rep_first by (cases xs) fastforce+
qed

end

sublocale fifo_queue \<subseteq> queue: data_refinement rep "queue_step enq deq first" list_queue_step
  by unfold_locales (rule queue_match)

context fifo_queue
begin

text \<open>Elements leave a queue in the order they entered it.\<close>

lemma first_in_first_out:
  assumes "rep s []"
  shows "\<exists>s'. run_ops (queue_step enq deq first) s (map Enqueue vs @ replicate (length vs) Dequeue)
    = Some (s', replicate (length vs) None @ map Some vs) \<and> rep s' []"
proof -
  have deqs: "run_ops list_queue_step xs (replicate (length xs) Dequeue) = Some ([], map Some xs)" for xs :: "'a list"
    by (induction xs) auto
  have "run_ops list_queue_step ys (map Enqueue vs @ replicate (length (ys @ vs)) Dequeue)
      = Some ([], replicate (length vs) None @ map Some (ys @ vs))" for ys
  proof (induction vs arbitrary: ys)
    case (Cons v vs)
    then show ?case using Cons [of "ys @ [v]"] by simp
  qed (simp add: deqs)
  from queue.run [OF assms this [of "[]"], simplified] show ?thesis .
qed

end

end
