(* ===== verification/Circular_Deque.thy ===== *)
theory Circular_Deque
  imports Vector_Buffer Refinement
begin

text \<open>
  The double-ended queue of \<open>base/containers/circular_deque.h\<close> with debug checks on
  (\<open>DCHECK_IS_ON\<close>): live elements occupy the circular index range from \<open>begin_\<close> to \<open>end_\<close> of
  a buffer that always keeps one cell free, every mutation bumps a generation counter, and
  iterators carry the generation they were made at. An operation returns \<open>None\<close> when a
  \<open>DCHECK\<close> fails or memory is misused (see \<open>Vector_Buffer\<close>). Sizes are natural numbers.
  Arguments are passed by value: a call that is given a reference to an element of the same deque
  is not distinguished from one that is given a copy.
\<close>

section \<open>State and iterators\<close>

record 'a circular_deque =
  cd_buffer :: "'a vector_buffer"
  cd_begin :: nat
  cd_end :: nat
  cd_generation :: "64 word"

record cd_iterator =
  it_index :: nat
  it_generation :: "64 word"

definition kCircularBufferInitialCapacity :: nat where
  "kCircularBufferInitialCapacity = 3"

definition cd_new :: "'a circular_deque" where
  "cd_new = \<lparr>cd_buffer = [], cd_begin = 0, cd_end = 0, cd_generation = 0\<rparr>"

definition cd_IncrementGeneration :: "'a circular_deque \<Rightarrow> 'a circular_deque" where
  "cd_IncrementGeneration d = d\<lparr>cd_generation := cd_generation d + 1\<rparr>"

definition cd_empty :: "'a circular_deque \<Rightarrow> bool" where
  "cd_empty d \<longleftrightarrow> cd_begin d = cd_end d"

definition cd_size :: "'a circular_deque \<Rightarrow> nat" where
  "cd_size d =
     (if cd_begin d \<le> cd_end d then cd_end d - cd_begin d
      else vb_capacity (cd_buffer d) - cd_begin d + cd_end d)"

definition cd_capacity :: "'a circular_deque \<Rightarrow> nat" where
  "cd_capacity d =
     (if vb_capacity (cd_buffer d) = 0 then 0 else vb_capacity (cd_buffer d) - 1)"

text \<open>An index modulo the capacity of the buffer; modulo zero is undefined.\<close>

definition cd_wrap :: "'a circular_deque \<Rightarrow> nat \<Rightarrow> nat option" where
  "cd_wrap d n = (if vb_capacity (cd_buffer d) = 0 then None else Some (n mod vb_capacity (cd_buffer d)))"

definition cd_mk_iterator :: "'a circular_deque \<Rightarrow> nat \<Rightarrow> cd_iterator" where
  "cd_mk_iterator d i = \<lparr>it_index = i, it_generation = cd_generation d\<rparr>"

definition cd_iter_begin :: "'a circular_deque \<Rightarrow> cd_iterator" where
  "cd_iter_begin d = cd_mk_iterator d (cd_begin d)"

definition cd_iter_end :: "'a circular_deque \<Rightarrow> cd_iterator" where
  "cd_iter_end d = cd_mk_iterator d (cd_end d)"

definition cd_CheckValidIndex :: "'a circular_deque \<Rightarrow> nat \<Rightarrow> bool" where
  "cd_CheckValidIndex d i \<longleftrightarrow>
     (if cd_begin d \<le> cd_end d then cd_begin d \<le> i \<and> i < cd_end d
      else (cd_begin d \<le> i \<and> i < vb_capacity (cd_buffer d)) \<or> i < cd_end d)"

definition cd_CheckValidIndexOrEnd :: "'a circular_deque \<Rightarrow> nat \<Rightarrow> bool" where
  "cd_CheckValidIndexOrEnd d i \<longleftrightarrow> i \<noteq> cd_end d \<longrightarrow> cd_CheckValidIndex d i"

definition it_CheckUnstableUsage :: "'a circular_deque \<Rightarrow> cd_iterator \<Rightarrow> bool" where
  "it_CheckUnstableUsage d it \<longleftrightarrow> it_generation it = cd_generation d"

definition cd_ValidateIterator :: "'a circular_deque \<Rightarrow> cd_iterator \<Rightarrow> bool" where
  "cd_ValidateIterator d it \<longleftrightarrow> it_CheckUnstableUsage d it"

definition it_CheckComparable :: "cd_iterator \<Rightarrow> cd_iterator \<Rightarrow> bool" where
  "it_CheckComparable a b \<longleftrightarrow> it_generation a = it_generation b"

definition it_OffsetFromBegin :: "'a circular_deque \<Rightarrow> cd_iterator \<Rightarrow> nat" where
  "it_OffsetFromBegin d it =
     (if cd_begin d \<le> it_index it then it_index it - cd_begin d
      else vb_capacity (cd_buffer d) - cd_begin d + it_index it)"

definition it_eq :: "cd_iterator \<Rightarrow> cd_iterator \<Rightarrow> bool option" where
  "it_eq a b = (if it_CheckComparable a b then Some (it_index a = it_index b) else None)"

definition it_less :: "'a circular_deque \<Rightarrow> cd_iterator \<Rightarrow> cd_iterator \<Rightarrow> bool option" where
  "it_less d a b =
     (if it_CheckComparable a b then Some (it_OffsetFromBegin d a < it_OffsetFromBegin d b) else None)"

definition it_minus :: "'a circular_deque \<Rightarrow> cd_iterator \<Rightarrow> cd_iterator \<Rightarrow> int option" where
  "it_minus d a b =
     (if it_CheckComparable a b
      then Some (int (it_OffsetFromBegin d a) - int (it_OffsetFromBegin d b)) else None)"

definition it_deref :: "'a circular_deque \<Rightarrow> cd_iterator \<Rightarrow> 'a option" where
  "it_deref d it =
     (if it_CheckUnstableUsage d it \<and> cd_CheckValidIndex d (it_index it)
      then vb_get (cd_buffer d) (it_index it) else None)"

definition it_Increment :: "'a circular_deque \<Rightarrow> cd_iterator \<Rightarrow> cd_iterator option" where
  "it_Increment d it =
     (if it_CheckUnstableUsage d it \<and> cd_CheckValidIndex d (it_index it)
      then Some (it\<lparr>it_index := (if it_index it + 1 = vb_capacity (cd_buffer d) then 0
                                 else it_index it + 1)\<rparr>)
      else None)"

definition it_Decrement :: "'a circular_deque \<Rightarrow> cd_iterator \<Rightarrow> cd_iterator option" where
  "it_Decrement d it =
     (if it_CheckUnstableUsage d it \<and> cd_CheckValidIndexOrEnd d (it_index it)
      then Some (it\<lparr>it_index := (if it_index it = 0 then vb_capacity (cd_buffer d) - 1
                                 else it_index it - 1)\<rparr>)
      else None)"

definition it_Add :: "'a circular_deque \<Rightarrow> cd_iterator \<Rightarrow> int \<Rightarrow> cd_iterator option" where
  "it_Add d it delta =
     (if it_CheckUnstableUsage d it \<and>
         (if delta \<le> 0 then cd_CheckValidIndexOrEnd d (it_index it)
          else cd_CheckValidIndex d (it_index it))
      then if delta = 0 then Some it
           else let new_offset = int (it_OffsetFromBegin d it) + delta in
             if 0 \<le> new_offset \<and> new_offset \<le> int (cd_size d)
             then do { i \<leftarrow> cd_wrap d (nat new_offset + cd_begin d); Some (it\<lparr>it_index := i\<rparr>) }
             else None
      else None)"

section \<open>Element access\<close>

definition cd_at :: "'a circular_deque \<Rightarrow> nat \<Rightarrow> 'a option" where
  "cd_at d i =
     (if i < cd_size d
      then let right_size = vb_capacity (cd_buffer d) - cd_begin d in
        if cd_begin d \<le> cd_end d \<or> i < right_size then vb_get (cd_buffer d) (cd_begin d + i)
        else vb_get (cd_buffer d) (i - right_size)
      else None)"

definition cd_front :: "'a circular_deque \<Rightarrow> 'a option" where
  "cd_front d = (if \<not> cd_empty d then vb_get (cd_buffer d) (cd_begin d) else None)"

definition cd_back :: "'a circular_deque \<Rightarrow> 'a option" where
  "cd_back d =
     (if \<not> cd_empty d then do { it \<leftarrow> it_Decrement d (cd_iter_end d); it_deref d it } else None)"

section \<open>Memory management\<close>

definition cd_MoveBuffer ::
  "'a vector_buffer \<Rightarrow> nat \<Rightarrow> nat \<Rightarrow> 'a vector_buffer \<Rightarrow>
   ('a vector_buffer \<times> 'a vector_buffer \<times> nat \<times> nat) option" where
  "cd_MoveBuffer from_buf from_begin from_end to_buf =
     (let from_capacity = vb_capacity from_buf in
      if from_begin < from_end then do {
        (from_buf, to_buf) \<leftarrow> vb_MoveRange from_buf from_begin from_end to_buf 0;
        Some (from_buf, to_buf, 0, from_end - from_begin)
      } else if from_end < from_begin then do {
        (from_buf, to_buf) \<leftarrow> vb_MoveRange from_buf from_begin from_capacity to_buf 0;
        let right_size = from_capacity - from_begin;
        (from_buf, to_buf) \<leftarrow> vb_MoveRange from_buf 0 from_end to_buf right_size;
        Some (from_buf, to_buf, 0, right_size + from_end)
      } else Some (from_buf, to_buf, 0, 0))"

text \<open>The old buffer is freed; every object must have left it.\<close>

definition vb_free :: "'a vector_buffer \<Rightarrow> unit option" where
  "vb_free buf = (if list_all (\<lambda>c. c = None) buf then Some () else None)"

definition cd_SetCapacityTo :: "'a circular_deque \<Rightarrow> nat \<Rightarrow> 'a circular_deque option" where
  "cd_SetCapacityTo d new_capacity = do {
     (old, new_buffer, b, e) \<leftarrow>
        cd_MoveBuffer (cd_buffer d) (cd_begin d) (cd_end d) (vb_new (new_capacity + 1));
     vb_free old;
     Some (d\<lparr>cd_buffer := new_buffer, cd_begin := b, cd_end := e\<rparr>)
   }"

definition cd_ExpandCapacityIfNecessary :: "'a circular_deque \<Rightarrow> nat \<Rightarrow> 'a circular_deque option" where
  "cd_ExpandCapacityIfNecessary d additional_elts =
     (let min_new_capacity = cd_size d + additional_elts in
      if min_new_capacity \<le> cd_capacity d then Some d
      else
        let min_new_capacity = max min_new_capacity kCircularBufferInitialCapacity;
            new_capacity = max min_new_capacity (cd_capacity d + cd_capacity d div 4)
        in cd_SetCapacityTo d new_capacity)"

definition cd_ShrinkCapacityIfNecessary :: "'a circular_deque \<Rightarrow> 'a circular_deque option" where
  "cd_ShrinkCapacityIfNecessary d =
     (if cd_capacity d \<le> kCircularBufferInitialCapacity then Some d
      else
        let sz = cd_size d; empty_spaces = cd_capacity d - sz in
        if empty_spaces < sz then Some d
        else
          let new_capacity = max kCircularBufferInitialCapacity (sz + sz div 4) in
          if new_capacity < cd_capacity d then cd_SetCapacityTo d new_capacity else Some d)"

definition cd_DestructRange :: "'a circular_deque \<Rightarrow> nat \<Rightarrow> nat \<Rightarrow> 'a circular_deque option" where
  "cd_DestructRange d b e =
     (if e = b then Some d
      else if b < e then do {
        buf \<leftarrow> vb_DestructRange (cd_buffer d) b e;
        Some (d\<lparr>cd_buffer := buf\<rparr>)
      } else do {
        buf \<leftarrow> vb_DestructRange (cd_buffer d) b (vb_capacity (cd_buffer d));
        buf \<leftarrow> vb_DestructRange buf 0 e;
        Some (d\<lparr>cd_buffer := buf\<rparr>)
      })"

definition cd_ClearRetainCapacity :: "'a circular_deque \<Rightarrow> 'a circular_deque option" where
  "cd_ClearRetainCapacity d = do {
     d \<leftarrow> cd_DestructRange d (cd_begin d) (cd_end d);
     Some (cd_IncrementGeneration (d\<lparr>cd_begin := 0, cd_end := 0\<rparr>))
   }"

definition cd_reserve :: "'a circular_deque \<Rightarrow> nat \<Rightarrow> 'a circular_deque option" where
  "cd_reserve d new_capacity =
     (if cd_capacity d < new_capacity then cd_SetCapacityTo d new_capacity else Some d)"

definition cd_shrink_to_fit :: "'a circular_deque \<Rightarrow> 'a circular_deque option" where
  "cd_shrink_to_fit d =
     (if cd_empty d
      then if vb_capacity (cd_buffer d) \<noteq> 0
           then do { vb_free (cd_buffer d); Some (d\<lparr>cd_buffer := []\<rparr>) }
           else Some d
      else cd_SetCapacityTo d (cd_size d))"

definition cd_clear :: "'a circular_deque \<Rightarrow> 'a circular_deque option" where
  "cd_clear d = do {
     d \<leftarrow> cd_ClearRetainCapacity d;
     vb_free (cd_buffer d);
     Some (d\<lparr>cd_buffer := []\<rparr>)
   }"

section \<open>Pushing and popping\<close>

definition cd_emplace_front :: "'a circular_deque \<Rightarrow> 'a \<Rightarrow> 'a circular_deque option" where
  "cd_emplace_front d v = do {
     d \<leftarrow> cd_ExpandCapacityIfNecessary d 1;
     let b = (if cd_begin d = 0 then vb_capacity (cd_buffer d) - 1 else cd_begin d - 1);
     let d = cd_IncrementGeneration (d\<lparr>cd_begin := b\<rparr>);
     buf \<leftarrow> vb_construct (cd_buffer d) (cd_begin d) v;
     let d = d\<lparr>cd_buffer := buf\<rparr>;
     _ \<leftarrow> cd_front d;
     Some d
   }"

definition cd_emplace_back :: "'a circular_deque \<Rightarrow> 'a \<Rightarrow> 'a circular_deque option" where
  "cd_emplace_back d v = do {
     d \<leftarrow> cd_ExpandCapacityIfNecessary d 1;
     buf \<leftarrow> vb_construct (cd_buffer d) (cd_end d) v;
     let e = (if cd_end d = vb_capacity buf - 1 then 0 else cd_end d + 1);
     let d = cd_IncrementGeneration (d\<lparr>cd_buffer := buf, cd_end := e\<rparr>);
     _ \<leftarrow> cd_back d;
     Some d
   }"

definition cd_pop_front :: "'a circular_deque \<Rightarrow> 'a circular_deque option" where
  "cd_pop_front d =
     (if cd_size d = 0 then None
      else do {
        buf \<leftarrow> vb_DestructRange (cd_buffer d) (cd_begin d) (cd_begin d + 1);
        let b = (if cd_begin d + 1 = vb_capacity buf then 0 else cd_begin d + 1);
        d \<leftarrow> cd_ShrinkCapacityIfNecessary (d\<lparr>cd_buffer := buf, cd_begin := b\<rparr>);
        Some (cd_IncrementGeneration d)
      })"

definition cd_pop_back :: "'a circular_deque \<Rightarrow> 'a circular_deque option" where
  "cd_pop_back d =
     (if cd_size d = 0 then None
      else do {
        let e = (if cd_end d = 0 then vb_capacity (cd_buffer d) - 1 else cd_end d - 1);
        buf \<leftarrow> vb_DestructRange (cd_buffer d) e (e + 1);
        d \<leftarrow> cd_ShrinkCapacityIfNecessary (d\<lparr>cd_buffer := buf, cd_end := e\<rparr>);
        Some (cd_IncrementGeneration d)
      })"

primrec cd_push_back_all :: "'a list \<Rightarrow> 'a circular_deque \<Rightarrow> 'a circular_deque option" where
  "cd_push_back_all [] d = Some d"
| "cd_push_back_all (v # vs) d = do { d \<leftarrow> cd_emplace_back d v; cd_push_back_all vs d }"

primrec cd_push_front_n :: "nat \<Rightarrow> 'a \<Rightarrow> 'a circular_deque \<Rightarrow> 'a circular_deque option" where
  "cd_push_front_n 0 v d = Some d"
| "cd_push_front_n (Suc n) v d = do { d \<leftarrow> cd_emplace_front d v; cd_push_front_n n v d }"

text \<open>\<open>assign(first, last)\<close> and \<open>assign(count, value)\<close>.\<close>

definition cd_assign :: "'a circular_deque \<Rightarrow> 'a list \<Rightarrow> 'a circular_deque option" where
  "cd_assign d vs = do {
     d \<leftarrow> cd_ClearRetainCapacity d;
     d \<leftarrow> cd_push_back_all vs d;
     Some (cd_IncrementGeneration d)
   }"

definition cd_assign_n :: "'a circular_deque \<Rightarrow> nat \<Rightarrow> 'a \<Rightarrow> 'a circular_deque option" where
  "cd_assign_n d n v = do {
     d \<leftarrow> cd_ClearRetainCapacity d;
     d \<leftarrow> cd_reserve d n;
     d \<leftarrow> cd_push_back_all (replicate n v) d;
     Some (cd_IncrementGeneration d)
   }"

text \<open>The loop \<open>while (size() < count) emplace_back(value)\<close> of \<open>resize\<close>.\<close>

partial_function (option) cd_grow :: "nat \<Rightarrow> 'a \<Rightarrow> 'a circular_deque \<Rightarrow> 'a circular_deque option" where
  "cd_grow n v d =
     (if cd_size d < n then do { d \<leftarrow> cd_emplace_back d v; cd_grow n v d } else Some d)"

definition cd_resize :: "'a circular_deque \<Rightarrow> nat \<Rightarrow> 'a \<Rightarrow> 'a circular_deque option" where
  "cd_resize d n v = do {
     d \<leftarrow>
       (if cd_size d < n then do {
          d \<leftarrow> cd_ExpandCapacityIfNecessary d (n - cd_size d);
          cd_grow n v d
        } else if n < cd_size d then do {
          new_end \<leftarrow> cd_wrap d (cd_begin d + n);
          d \<leftarrow> cd_DestructRange d new_end (cd_end d);
          cd_ShrinkCapacityIfNecessary (d\<lparr>cd_end := new_end\<rparr>)
        } else Some d);
     Some (cd_IncrementGeneration d)
   }"

section \<open>Insertion\<close>

text \<open>
  The loop of \<open>MakeRoomFor\<close> moves the elements behind the insertion point, from the last one on.
\<close>

partial_function (option) cd_shift_up ::
  "cd_iterator \<Rightarrow> cd_iterator \<Rightarrow> cd_iterator \<Rightarrow> 'a circular_deque \<Rightarrow> 'a circular_deque option" where
  "cd_shift_up insert_begin src dest d = do {
     stop \<leftarrow> it_eq src insert_begin;
     if stop then Some d
     else do {
       src \<leftarrow> it_Decrement d src;
       dest \<leftarrow> it_Decrement d dest;
       buf \<leftarrow> vb_MoveWithin (cd_buffer d) (it_index src) (it_index src + 1) (it_index dest);
       cd_shift_up insert_begin src dest (d\<lparr>cd_buffer := buf\<rparr>)
     }
   }"

definition cd_MakeRoomFor ::
  "'a circular_deque \<Rightarrow> nat \<Rightarrow> cd_iterator \<Rightarrow> ('a circular_deque \<times> cd_iterator \<times> cd_iterator) option" where
  "cd_MakeRoomFor d n insert_begin =
     (if n = 0 then Some (d, insert_begin, insert_begin)
      else do {
        let begin_offset = it_OffsetFromBegin d insert_begin;
        d \<leftarrow> cd_ExpandCapacityIfNecessary d n;
        i \<leftarrow> cd_wrap d (cd_begin d + begin_offset);
        let insert_begin = insert_begin\<lparr>it_index := i\<rparr>;
        j \<leftarrow> cd_wrap d (i + n);
        let insert_end = cd_mk_iterator d j;
        let src = cd_iter_end d;
        e \<leftarrow> cd_wrap d (cd_end d + n);
        let d = d\<lparr>cd_end := e\<rparr>;
        let dest = cd_iter_end d;
        d \<leftarrow> cd_shift_up insert_begin src dest d;
        Some (d, insert_begin, insert_end)
      })"

text \<open>
  The loop \<open>while (insert_cur < insert_end)\<close> that constructs the inserted values; \<open>vs\<close> is the
  source range, which is exhausted exactly at the end.
\<close>

partial_function (option) cd_fill ::
  "'a list \<Rightarrow> cd_iterator \<Rightarrow> cd_iterator \<Rightarrow> 'a circular_deque \<Rightarrow> 'a circular_deque option" where
  "cd_fill vs insert_cur insert_end d = do {
     more \<leftarrow> it_less d insert_cur insert_end;
     if more
     then (case vs of
             [] \<Rightarrow> None
           | v # vs' \<Rightarrow> do {
               buf \<leftarrow> vb_construct (cd_buffer d) (it_index insert_cur) v;
               let d = d\<lparr>cd_buffer := buf\<rparr>;
               insert_cur \<leftarrow> it_Increment d insert_cur;
               cd_fill vs' insert_cur insert_end d
             })
     else Some d
   }"

definition cd_insert_n ::
  "'a circular_deque \<Rightarrow> cd_iterator \<Rightarrow> nat \<Rightarrow> 'a \<Rightarrow> 'a circular_deque option" where
  "cd_insert_n d pos n v =
     (if \<not> cd_ValidateIterator d pos then None
      else do {
        at_begin \<leftarrow> it_eq pos (cd_iter_begin d);
        if at_begin then do {
          d \<leftarrow> cd_ExpandCapacityIfNecessary d n;
          cd_push_front_n n v d
        } else do {
          (d, insert_cur, insert_end) \<leftarrow> cd_MakeRoomFor d n (cd_mk_iterator d (it_index pos));
          d \<leftarrow> cd_fill (replicate n v) insert_cur insert_end d;
          Some (cd_IncrementGeneration d)
        }
      })"

definition cd_insert_range ::
  "'a circular_deque \<Rightarrow> cd_iterator \<Rightarrow> 'a list \<Rightarrow> 'a circular_deque option" where
  "cd_insert_range d pos vs =
     (if \<not> cd_ValidateIterator d pos then None
      else let inserted_items = length vs in
      if inserted_items = 0 then Some d
      else do {
        at_begin \<leftarrow> it_eq pos (cd_iter_begin d);
        (d, insert_cur, insert_end) \<leftarrow>
          (if at_begin then do {
             d \<leftarrow> cd_ExpandCapacityIfNecessary d inserted_items;
             let insert_end = cd_iter_begin d;
             b \<leftarrow> cd_wrap d (cd_begin d + vb_capacity (cd_buffer d) - inserted_items);
             let d = d\<lparr>cd_begin := b\<rparr>;
             Some (d, cd_iter_begin d, insert_end)
           } else cd_MakeRoomFor d inserted_items (cd_mk_iterator d (it_index pos)));
        d \<leftarrow> cd_fill vs insert_cur insert_end d;
        Some (cd_IncrementGeneration d)
      })"

definition cd_emplace ::
  "'a circular_deque \<Rightarrow> cd_iterator \<Rightarrow> 'a \<Rightarrow> ('a circular_deque \<times> cd_iterator) option" where
  "cd_emplace d pos v =
     (if \<not> cd_ValidateIterator d pos then None
      else do {
        at_begin \<leftarrow> it_eq pos (cd_iter_begin d);
        if at_begin then do {
          d \<leftarrow> cd_emplace_front d v;
          Some (d, cd_iter_begin d)
        } else do {
          let d = cd_IncrementGeneration d;
          (d, insert_begin, insert_end) \<leftarrow> cd_MakeRoomFor d 1 (cd_mk_iterator d (it_index pos));
          buf \<leftarrow> vb_construct (cd_buffer d) (it_index insert_begin) v;
          Some (d\<lparr>cd_buffer := buf\<rparr>, insert_begin)
        }
      })"

section \<open>Erasure\<close>

partial_function (option) cd_shift_down ::
  "cd_iterator \<Rightarrow> cd_iterator \<Rightarrow> cd_iterator \<Rightarrow> 'a circular_deque \<Rightarrow>
   ('a circular_deque \<times> cd_iterator) option" where
  "cd_shift_down move_src move_src_end move_dest d = do {
     more \<leftarrow> it_less d move_src move_src_end;
     if more then do {
       buf \<leftarrow> vb_MoveWithin (cd_buffer d) (it_index move_src) (it_index move_src + 1) (it_index move_dest);
       let d = d\<lparr>cd_buffer := buf\<rparr>;
       move_src \<leftarrow> it_Increment d move_src;
       move_dest \<leftarrow> it_Increment d move_dest;
       cd_shift_down move_src move_src_end move_dest d
     } else Some (d, move_dest)
   }"

definition cd_erase_range ::
  "'a circular_deque \<Rightarrow> cd_iterator \<Rightarrow> cd_iterator \<Rightarrow> ('a circular_deque \<times> cd_iterator) option" where
  "cd_erase_range d first lst =
     (if \<not> cd_ValidateIterator d first \<or> \<not> cd_ValidateIterator d lst then None
      else let d = cd_IncrementGeneration d in
      if it_index first = it_index lst then Some (d, cd_mk_iterator d (it_index first))
      else do {
        buf \<leftarrow>
          (if it_index first < it_index lst
           then vb_DestructRange (cd_buffer d) (it_index first) (it_index lst)
           else do {
             buf \<leftarrow> vb_DestructRange (cd_buffer d) (it_index first) (vb_capacity (cd_buffer d));
             vb_DestructRange buf 0 (it_index lst)
           });
        let d = d\<lparr>cd_buffer := buf\<rparr>;
        if it_index first = cd_begin d
        then let d = d\<lparr>cd_begin := it_index lst\<rparr> in Some (d, cd_mk_iterator d (it_index lst))
        else do {
          (d, move_dest) \<leftarrow> cd_shift_down (cd_mk_iterator d (it_index lst)) (cd_iter_end d)
             (cd_mk_iterator d (it_index first)) d;
          let d = d\<lparr>cd_end := it_index move_dest\<rparr>;
          Some (d, cd_mk_iterator d (it_index first))
        }
      })"

definition cd_erase ::
  "'a circular_deque \<Rightarrow> cd_iterator \<Rightarrow> ('a circular_deque \<times> cd_iterator) option" where
  "cd_erase d pos = do { next \<leftarrow> it_Add d pos 1; cd_erase_range d pos next }"

text \<open>
  \<open>std::remove_if\<close> over the iterators of the deque assigns each kept element to the next
  destination and returns the new logical end; \<open>EraseIf\<close> erases the rest.
\<close>

partial_function (option) cd_remove_if ::
  "('a \<Rightarrow> bool) \<Rightarrow> cd_iterator \<Rightarrow> cd_iterator \<Rightarrow> 'a circular_deque \<Rightarrow>
   ('a circular_deque \<times> cd_iterator) option" where
  "cd_remove_if p src dest d = do {
     stop \<leftarrow> it_eq src (cd_iter_end d);
     if stop then Some (d, dest)
     else do {
       v \<leftarrow> it_deref d src;
       next \<leftarrow> it_Increment d src;
       if p v then cd_remove_if p next dest d
       else do {
         _ \<leftarrow> it_deref d dest;
         buf \<leftarrow> vb_assign (cd_buffer d) (it_index dest) v;
         let d = d\<lparr>cd_buffer := buf\<rparr>;
         dest \<leftarrow> it_Increment d dest;
         cd_remove_if p next dest d
       }
     }
   }"

definition cd_EraseIf :: "('a \<Rightarrow> bool) \<Rightarrow> 'a circular_deque \<Rightarrow> 'a circular_deque option" where
  "cd_EraseIf p d = do {
     (d, new_end) \<leftarrow> cd_remove_if p (cd_iter_begin d) (cd_iter_begin d) d;
     (d, it) \<leftarrow> cd_erase_range d new_end (cd_iter_end d);
     Some d
   }"

definition cd_Erase :: "'a circular_deque \<Rightarrow> 'a \<Rightarrow> 'a circular_deque option" where
  "cd_Erase d v = cd_EraseIf (\<lambda>x. x = v) d"

section \<open>Whole-container operations\<close>

text \<open>Reading the elements from an iterator to the end, as \<open>assign(first, last)\<close> does.\<close>

partial_function (option) cd_iterate :: "cd_iterator \<Rightarrow> 'a circular_deque \<Rightarrow> 'a list option" where
  "cd_iterate it d = do {
     stop \<leftarrow> it_eq it (cd_iter_end d);
     if stop then Some []
     else do {
       v \<leftarrow> it_deref d it;
       it \<leftarrow> it_Increment d it;
       vs \<leftarrow> cd_iterate it d;
       Some (v # vs)
     }
   }"

definition cd_copy :: "'a circular_deque \<Rightarrow> 'a circular_deque option" where
  "cd_copy other = do {
     vs \<leftarrow> cd_iterate (cd_iter_begin other) other;
     cd_assign (cd_new\<lparr>cd_buffer := vb_new (cd_size other + 1)\<rparr>) vs
   }"

text \<open>Copy assignment from another deque; assigning a deque to itself does nothing.\<close>

definition cd_copy_assign :: "'a circular_deque \<Rightarrow> 'a circular_deque \<Rightarrow> 'a circular_deque option" where
  "cd_copy_assign d other = do {
     d \<leftarrow> cd_reserve d (cd_size other);
     vs \<leftarrow> cd_iterate (cd_iter_begin other) other;
     cd_assign d vs
   }"

text \<open>Move construction and move assignment return the destination and the emptied source.\<close>

definition cd_move :: "'a circular_deque \<Rightarrow> 'a circular_deque \<times> 'a circular_deque" where
  "cd_move other =
     (cd_new\<lparr>cd_buffer := cd_buffer other, cd_begin := cd_begin other, cd_end := cd_end other\<rparr>,
      other\<lparr>cd_buffer := [], cd_begin := 0, cd_end := 0\<rparr>)"

definition cd_move_assign ::
  "'a circular_deque \<Rightarrow> 'a circular_deque \<Rightarrow> ('a circular_deque \<times> 'a circular_deque) option" where
  "cd_move_assign d other = do {
     d \<leftarrow> cd_ClearRetainCapacity d;
     vb_free (cd_buffer d);
     let d = d\<lparr>cd_buffer := cd_buffer other, cd_begin := cd_begin other, cd_end := cd_end other\<rparr>;
     Some (cd_IncrementGeneration d, other\<lparr>cd_buffer := [], cd_begin := 0, cd_end := 0\<rparr>)
   }"

text \<open>\<open>swap\<close> exchanges buffers and indices and bumps the generation of the receiver only.\<close>

definition cd_swap ::
  "'a circular_deque \<Rightarrow> 'a circular_deque \<Rightarrow> 'a circular_deque \<times> 'a circular_deque" where
  "cd_swap d other =
     (cd_IncrementGeneration
        (d\<lparr>cd_buffer := cd_buffer other, cd_begin := cd_begin other, cd_end := cd_end other\<rparr>),
      other\<lparr>cd_buffer := cd_buffer d, cd_begin := cd_begin d, cd_end := cd_end d\<rparr>)"

definition cd_destroy :: "'a circular_deque \<Rightarrow> unit option" where
  "cd_destroy d = do {
     d \<leftarrow> cd_DestructRange d (cd_begin d) (cd_end d);
     vb_free (cd_buffer d)
   }"

section \<open>Representation\<close>

text \<open>
  \<open>cd_wf d n\<close>: a non-empty buffer whose index range holds \<open>n\<close> elements. \<open>cd_cell d i\<close> is the
  cell at offset \<open>i\<close> from the beginning. \<open>cd_rep d xs\<close>: the deque represents the list \<open>xs\<close>,
  every live object is one of its elements and every other cell is raw memory.
\<close>

abbreviation cd_cap :: "'a circular_deque \<Rightarrow> nat" where
  "cd_cap d \<equiv> length (cd_buffer d)"

definition cd_idx :: "'a circular_deque \<Rightarrow> nat \<Rightarrow> nat" where
  "cd_idx d k = (cd_begin d + k) mod cd_cap d"

definition cd_wf :: "'a circular_deque \<Rightarrow> nat \<Rightarrow> bool" where
  "cd_wf d n \<longleftrightarrow> cd_begin d < cd_cap d \<and> n < cd_cap d \<and> cd_end d = cd_idx d n"

definition cd_cell :: "'a circular_deque \<Rightarrow> nat \<Rightarrow> 'a option" where
  "cd_cell d i = cd_buffer d ! cd_idx d i"

definition cd_rep :: "'a circular_deque \<Rightarrow> 'a list \<Rightarrow> bool" where
  "cd_rep d xs \<longleftrightarrow>
     (if cd_buffer d = [] then cd_begin d = cd_end d \<and> xs = []
      else cd_wf d (length xs) \<and>
        (\<forall>i < cd_cap d. cd_cell d i = (if i < length xs then Some (xs ! i) else None)))"

definition cd_iter_at :: "'a circular_deque \<Rightarrow> nat \<Rightarrow> cd_iterator" where
  "cd_iter_at d k = cd_mk_iterator d (cd_idx d k)"

definition cd_put :: "'a circular_deque \<Rightarrow> nat \<Rightarrow> 'a option \<Rightarrow> 'a circular_deque" where
  "cd_put d k c = d\<lparr>cd_buffer := (cd_buffer d)[cd_idx d k := c]\<rparr>"

text \<open>The deque after all elements moved to a fresh buffer of capacity \<open>n\<close>.\<close>

definition cd_flat :: "'a circular_deque \<Rightarrow> nat \<Rightarrow> 'a list \<Rightarrow> 'a circular_deque" where
  "cd_flat d n xs = d\<lparr>cd_buffer := map Some xs @ replicate (Suc n - length xs) None,
     cd_begin := 0, cd_end := length xs\<rparr>"

text \<open>
  One call of the public interface, positions being \<open>begin() + k\<close>, and the same call on lists,
  where \<open>None\<close> is a violated precondition. The output is the element an accessor returns.
\<close>

datatype 'a cd_op = PushBack 'a | PushFront 'a | PopBack | PopFront
  | InsertRange nat "'a list" | InsertN nat nat 'a | Emplace nat 'a
  | EraseRange nat nat | EraseAt nat | EraseIf "'a \<Rightarrow> bool"
  | Resize nat 'a | Assign "'a list" | AssignN nat 'a | Reserve nat | ShrinkToFit | Clear
  | At nat | Front | Back

fun cd_step :: "'a circular_deque \<Rightarrow> 'a cd_op \<Rightarrow> ('a circular_deque \<times> 'a option) option" where
  "cd_step d (PushBack v) = do { d \<leftarrow> cd_emplace_back d v; Some (d, None) }"
| "cd_step d (PushFront v) = do { d \<leftarrow> cd_emplace_front d v; Some (d, None) }"
| "cd_step d PopBack = do { d \<leftarrow> cd_pop_back d; Some (d, None) }"
| "cd_step d PopFront = do { d \<leftarrow> cd_pop_front d; Some (d, None) }"
| "cd_step d (InsertRange k vs) = do {
     pos \<leftarrow> it_Add d (cd_iter_begin d) (int k); d \<leftarrow> cd_insert_range d pos vs; Some (d, None) }"
| "cd_step d (InsertN k n v) = do {
     pos \<leftarrow> it_Add d (cd_iter_begin d) (int k); d \<leftarrow> cd_insert_n d pos n v; Some (d, None) }"
| "cd_step d (Emplace k v) = do {
     pos \<leftarrow> it_Add d (cd_iter_begin d) (int k); (d, it) \<leftarrow> cd_emplace d pos v; v \<leftarrow> it_deref d it; Some (d, Some v) }"
| "cd_step d (EraseRange s t) = do {
     first \<leftarrow> it_Add d (cd_iter_begin d) (int s); lst \<leftarrow> it_Add d (cd_iter_begin d) (int t);
     (d, it) \<leftarrow> cd_erase_range d first lst; Some (d, None) }"
| "cd_step d (EraseAt k) = do {
     pos \<leftarrow> it_Add d (cd_iter_begin d) (int k); (d, it) \<leftarrow> cd_erase d pos; Some (d, None) }"
| "cd_step d (EraseIf p) = do { d \<leftarrow> cd_EraseIf p d; Some (d, None) }"
| "cd_step d (Resize n v) = do { d \<leftarrow> cd_resize d n v; Some (d, None) }"
| "cd_step d (Assign vs) = do { d \<leftarrow> cd_assign d vs; Some (d, None) }"
| "cd_step d (AssignN n v) = do { d \<leftarrow> cd_assign_n d n v; Some (d, None) }"
| "cd_step d (Reserve n) = do { d \<leftarrow> cd_reserve d n; Some (d, None) }"
| "cd_step d ShrinkToFit = do { d \<leftarrow> cd_shrink_to_fit d; Some (d, None) }"
| "cd_step d Clear = do { d \<leftarrow> cd_clear d; Some (d, None) }"
| "cd_step d (At k) = do { v \<leftarrow> cd_at d k; Some (d, Some v) }"
| "cd_step d Front = do { v \<leftarrow> cd_front d; Some (d, Some v) }"
| "cd_step d Back = do { v \<leftarrow> cd_back d; Some (d, Some v) }"

fun list_step :: "'a list \<Rightarrow> 'a cd_op \<Rightarrow> ('a list \<times> 'a option) option" where
  "list_step xs (PushBack v) = Some (xs @ [v], None)"
| "list_step xs (PushFront v) = Some (v # xs, None)"
| "list_step xs PopBack = (if xs = [] then None else Some (butlast xs, None))"
| "list_step xs PopFront = (if xs = [] then None else Some (tl xs, None))"
| "list_step xs (InsertRange k vs) = (if k \<le> length xs then Some (take k xs @ vs @ drop k xs, None) else None)"
| "list_step xs (InsertN k n v) =
     (if k \<le> length xs then Some (take k xs @ replicate n v @ drop k xs, None) else None)"
| "list_step xs (Emplace k v) = (if k \<le> length xs then Some (take k xs @ v # drop k xs, Some v) else None)"
| "list_step xs (EraseRange s t) =
     (if s \<le> t \<and> t \<le> length xs then Some (take s xs @ drop t xs, None) else None)"
| "list_step xs (EraseAt k) = (if k < length xs then Some (take k xs @ drop (Suc k) xs, None) else None)"
| "list_step xs (EraseIf p) = Some (filter (\<lambda>x. \<not> p x) xs, None)"
| "list_step xs (Resize n v) = Some (take n xs @ replicate (n - length xs) v, None)"
| "list_step xs (Assign vs) = Some (vs, None)"
| "list_step xs (AssignN n v) = Some (replicate n v, None)"
| "list_step xs (Reserve n) = Some (xs, None)"
| "list_step xs ShrinkToFit = Some (xs, None)"
| "list_step xs Clear = Some ([], None)"
| "list_step xs (At k) = (if k < length xs then Some (xs, Some (xs ! k)) else None)"
| "list_step xs Front = (if xs = [] then None else Some (xs, Some (hd xs)))"
| "list_step xs Back = (if xs = [] then None else Some (xs, Some (last xs)))"

section \<open>Lemmas\<close>

lemma ring_idx: "b < c \<Longrightarrow> k \<le> c \<Longrightarrow> (b + k) mod c = (if b + k < c then b + k else b + k - c)"
  for b c k :: nat
  by (auto simp: mod_if)

lemma ring_inj: "i < c \<Longrightarrow> k < c \<Longrightarrow> (b + i) mod c = (b + k) mod c \<longleftrightarrow> i = k"
  for b c k :: nat
proof (induction b)
  case (Suc b)
  then show ?case by (auto simp: mod_Suc split: if_splits)
qed simp

lemma ring_succ:
  fixes b c i :: nat
  assumes "b < c" "i < c"
  shows "((if Suc b = c then 0 else Suc b) + i) mod c = (b + (if Suc i = c then 0 else Suc i)) mod c"
  using assms by (auto simp: mod_if)

lemma ring_pred:
  fixes b c i :: nat
  assumes "b < c" "i < c"
  shows "((if b = 0 then c - 1 else b - 1) + i) mod c = (b + (if i = 0 then c - 1 else i - 1)) mod c"
  using assms by (auto simp: mod_if)

lemma cd_idx_lt [simp]: "cd_wf d n \<Longrightarrow> cd_idx d k < cd_cap d"
  unfolding cd_idx_def by (rule mod_less_divisor) (auto simp: cd_wf_def)

lemma cd_idx_inj [simp]:
  "i < cd_cap d \<Longrightarrow> k < cd_cap d \<Longrightarrow> cd_idx d i = cd_idx d k \<longleftrightarrow> i = k"
  by (simp add: cd_idx_def ring_inj)

lemma cd_idx_eq:
  "cd_wf d n \<Longrightarrow> k \<le> cd_cap d \<Longrightarrow>
   cd_idx d k = (if cd_begin d + k < cd_cap d then cd_begin d + k else cd_begin d + k - cd_cap d)"
  by (simp add: cd_idx_def cd_wf_def ring_idx)

lemma cd_idx_0: "cd_wf d n \<Longrightarrow> cd_idx d 0 = cd_begin d"
  by (simp add: cd_idx_def cd_wf_def)

lemma cd_wf_pos [simp]: "cd_wf d n \<Longrightarrow> 0 < cd_cap d" "cd_wf d n \<Longrightarrow> cd_buffer d \<noteq> []"
  by (auto simp: cd_wf_def)

lemma cd_wf_less: "cd_wf d n \<Longrightarrow> n < cd_cap d"
  by (simp add: cd_wf_def)

lemma cd_wf_begin: "cd_wf d n \<Longrightarrow> cd_begin d < cd_cap d"
  by (simp add: cd_wf_def)

lemma cd_wf_size: "cd_wf d n \<Longrightarrow> cd_size d = n"
  using cd_idx_eq [of d n n] by (auto simp: cd_size_def vb_capacity_def cd_wf_def split: if_splits)

lemma cd_wf_capacity: "cd_wf d n \<Longrightarrow> cd_capacity d = cd_cap d - 1"
  by (auto simp: cd_capacity_def vb_capacity_def)

lemma cd_rep_size: "cd_rep d xs \<Longrightarrow> cd_size d = length xs"
  by (cases "cd_buffer d = []") (simp_all add: cd_rep_def cd_wf_size, simp add: cd_size_def)

lemma cd_rep_empty: "cd_rep d xs \<Longrightarrow> cd_empty d \<longleftrightarrow> xs = []"
  using cd_rep_size [of d xs] cd_idx_inj [of 0 d "length xs"] cd_idx_0 [of d "length xs"]
  by (cases "cd_buffer d = []") (auto simp: cd_rep_def cd_empty_def cd_wf_def)

lemma cd_rep_wf: "cd_rep d xs \<Longrightarrow> cd_buffer d \<noteq> [] \<Longrightarrow> cd_wf d (length xs)"
  by (simp add: cd_rep_def)

lemma cd_rep_cell:
  "cd_rep d xs \<Longrightarrow> i < cd_cap d \<Longrightarrow> cd_cell d i = (if i < length xs then Some (xs ! i) else None)"
  by (auto simp: cd_rep_def split: if_splits)

lemma cd_rep_nonempty: "cd_rep d xs \<Longrightarrow> xs \<noteq> [] \<Longrightarrow> cd_buffer d \<noteq> []"
  by (auto simp: cd_rep_def split: if_splits)

lemma cd_repI:
  "cd_wf d (length xs) \<Longrightarrow>
   (\<And>i. i < cd_cap d \<Longrightarrow> cd_cell d i = (if i < length xs then Some (xs ! i) else None)) \<Longrightarrow> cd_rep d xs"
  by (simp add: cd_rep_def)

lemma cd_gen_simps [simp]:
  "cd_rep (cd_IncrementGeneration d) xs = cd_rep d xs"
  "cd_wf (cd_IncrementGeneration d) n = cd_wf d n"
  "cd_buffer (cd_IncrementGeneration d) = cd_buffer d"
  "cd_begin (cd_IncrementGeneration d) = cd_begin d"
  "cd_end (cd_IncrementGeneration d) = cd_end d"
  "cd_size (cd_IncrementGeneration d) = cd_size d"
  "cd_capacity (cd_IncrementGeneration d) = cd_capacity d"
  "cd_cell (cd_IncrementGeneration d) i = cd_cell d i"
  "cd_idx (cd_IncrementGeneration d) i = cd_idx d i"
  by (simp_all add: cd_IncrementGeneration_def cd_rep_def cd_wf_def cd_idx_def cd_cell_def cd_size_def
      cd_capacity_def)

lemma cd_end_simps [simp]:
  "cd_cell (d\<lparr>cd_end := e\<rparr>) i = cd_cell d i" "cd_idx (d\<lparr>cd_end := e\<rparr>) i = cd_idx d i"
  by (simp_all add: cd_cell_def cd_idx_def)

lemma cd_put_simps [simp]:
  "cd_wf (cd_put d k c) n = cd_wf d n" "cd_cap (cd_put d k c) = cd_cap d"
  "cd_begin (cd_put d k c) = cd_begin d" "cd_end (cd_put d k c) = cd_end d"
  "cd_generation (cd_put d k c) = cd_generation d" "cd_idx (cd_put d k c) i = cd_idx d i"
  "cd_iter_at (cd_put d k c) i = cd_iter_at d i"
  by (simp_all add: cd_put_def cd_wf_def cd_idx_def cd_iter_at_def cd_mk_iterator_def)

lemma cd_cell_put:
  assumes "i < cd_cap d" "k < cd_cap d"
  shows "cd_cell (cd_put d k c) i = (if i = k then c else cd_cell d i)"
proof -
  have "cd_idx d k < cd_cap d" unfolding cd_idx_def using assms by (intro mod_less_divisor) linarith
  moreover have "cd_cell (cd_put d k c) i = (cd_buffer d)[cd_idx d k := c] ! cd_idx d i"
    by (simp add: cd_cell_def cd_put_def cd_idx_def)
  ultimately show ?thesis using assms cd_idx_inj [of i d k] by (auto simp: cd_cell_def)
qed

text \<open>Iterator operations at an offset.\<close>

lemma iter_at_simps [simp]:
  "it_index (cd_iter_at d k) = cd_idx d k" "it_generation (cd_iter_at d k) = cd_generation d"
  "it_CheckUnstableUsage d (cd_iter_at d k)" "cd_ValidateIterator d (cd_iter_at d k)"
  by (simp_all add: cd_iter_at_def cd_mk_iterator_def it_CheckUnstableUsage_def cd_ValidateIterator_def)

lemma offset_iter_at: "cd_wf d n \<Longrightarrow> k < cd_cap d \<Longrightarrow> it_OffsetFromBegin d (cd_iter_at d k) = k"
  using cd_idx_eq [of d n k]
  by (cases "cd_begin d + k < cd_cap d") (auto simp: it_OffsetFromBegin_def vb_capacity_def cd_wf_def)

lemma valid_index: "cd_wf d n \<Longrightarrow> k < cd_cap d \<Longrightarrow> cd_CheckValidIndex d (cd_idx d k) \<longleftrightarrow> k < n"
  using cd_idx_eq [of d n k] cd_idx_eq [of d n n] unfolding cd_CheckValidIndex_def vb_capacity_def cd_wf_def
  by (cases "cd_begin d + k < cd_cap d"; cases "cd_begin d + n < cd_cap d") (simp_all, linarith+)

lemma valid_index_end:
  "cd_wf d n \<Longrightarrow> k < cd_cap d \<Longrightarrow> cd_CheckValidIndexOrEnd d (cd_idx d k) \<longleftrightarrow> k \<le> n"
  using valid_index [of d n k] by (auto simp: cd_CheckValidIndexOrEnd_def cd_wf_def)

lemma it_Increment_at: "cd_wf d n \<Longrightarrow> k < n \<Longrightarrow> it_Increment d (cd_iter_at d k) = Some (cd_iter_at d (Suc k))"
  using valid_index [of d n k] cd_idx_eq [of d n k] cd_idx_eq [of d n "Suc k"]
  by (auto simp: it_Increment_def cd_iter_at_def cd_mk_iterator_def it_CheckUnstableUsage_def vb_capacity_def
      cd_wf_def)

lemma it_Decrement_at: "cd_wf d n \<Longrightarrow> k < n \<Longrightarrow> it_Decrement d (cd_iter_at d (Suc k)) = Some (cd_iter_at d k)"
  using valid_index_end [of d n "Suc k"] cd_idx_eq [of d n k] cd_idx_eq [of d n "Suc k"]
  by (auto simp: it_Decrement_def cd_iter_at_def cd_mk_iterator_def it_CheckUnstableUsage_def vb_capacity_def
      cd_wf_def)

lemma it_deref_at: "cd_wf d n \<Longrightarrow> k < n \<Longrightarrow> it_deref d (cd_iter_at d k) = cd_cell d k"
  using valid_index [of d n k]
  by (auto simp: it_deref_def vb_get_def cd_cell_def cd_wf_def)

lemma it_less_at:
  "cd_wf d n \<Longrightarrow> k < cd_cap d \<Longrightarrow> j < cd_cap d \<Longrightarrow> it_less d (cd_iter_at d k) (cd_iter_at d j) = Some (k < j)"
  by (simp add: it_less_def it_CheckComparable_def offset_iter_at)

lemma it_eq_at:
  "k < cd_cap d \<Longrightarrow> j < cd_cap d \<Longrightarrow> it_eq (cd_iter_at d k) (cd_iter_at d j) = Some (k = j)"
  by (simp add: it_eq_def it_CheckComparable_def)

lemma iter_end_at: "cd_wf d n \<Longrightarrow> cd_iter_end d = cd_iter_at d n"
  by (simp add: cd_iter_end_def cd_iter_at_def cd_wf_def)

lemma iter_begin_at: "cd_wf d n \<Longrightarrow> cd_iter_begin d = cd_iter_at d 0"
  by (simp add: cd_iter_begin_def cd_iter_at_def cd_idx_0)

lemmas iter_ops = it_Increment_at it_Decrement_at it_deref_at it_less_at it_eq_at iter_end_at
  iter_begin_at offset_iter_at

text \<open>Buffer operations at an offset.\<close>

lemma construct_at:
  "cd_wf d n \<Longrightarrow> cd_cell d k = None \<Longrightarrow>
   vb_construct (cd_buffer d) (cd_idx d k) v = Some (cd_buffer (cd_put d k (Some v)))"
  by (simp add: vb_construct_def cd_cell_def cd_put_def)

lemma put_buffer [simp]:
  "d\<lparr>cd_buffer := cd_buffer (cd_put d k c)\<rparr> = cd_put d k c"
  "d\<lparr>cd_buffer := cd_buffer (cd_put (cd_put d k c) j e)\<rparr> = cd_put (cd_put d k c) j e"
  "(cd_put d k c)\<lparr>cd_buffer := buf\<rparr> = d\<lparr>cd_buffer := buf\<rparr>"
  by (simp_all add: cd_put_def)

lemma move_at:
  assumes "cd_wf d n" "cd_cell d j = Some v" "cd_cell d k = None"
  shows "vb_MoveWithin (cd_buffer d) (cd_idx d j) (cd_idx d j + 1) (cd_idx d k)
    = Some (cd_buffer (cd_put (cd_put d k (Some v)) j None))"
  using assms vb_MoveWithin_one [of "cd_idx d j" "cd_buffer d" "cd_idx d k" v]
  by (simp add: cd_cell_def cd_put_def cd_idx_def)

text \<open>The loops: filling a raw range, moving a block up and moving it down.\<close>

lemma cd_fill_spec:
  assumes "cd_wf d n" "k + length vs \<le> n" "\<And>i. k \<le> i \<Longrightarrow> i < k + length vs \<Longrightarrow> cd_cell d i = None"
  shows "\<exists>buf. length buf = cd_cap d
    \<and> cd_fill vs (cd_iter_at d k) (cd_iter_at d (k + length vs)) d = Some (d\<lparr>cd_buffer := buf\<rparr>)
    \<and> (\<forall>i < cd_cap d. cd_cell (d\<lparr>cd_buffer := buf\<rparr>) i
         = (if k \<le> i \<and> i < k + length vs then Some (vs ! (i - k)) else cd_cell d i))"
  using assms
proof (induction vs arbitrary: k d)
  case Nil
  then show ?case
    using cd_wf_less [OF Nil(1)]
    by (intro exI [of _ "cd_buffer d"], subst cd_fill.simps) (auto simp: it_less_at [of d n])
next
  case (Cons v vs)
  let ?d = "cd_put d k (Some v)"
  have n: "n < cd_cap d" using Cons.prems(1) by (simp add: cd_wf_def)
  have "\<exists>buf. length buf = cd_cap ?d
    \<and> cd_fill vs (cd_iter_at ?d (Suc k)) (cd_iter_at ?d (Suc k + length vs)) ?d = Some (?d\<lparr>cd_buffer := buf\<rparr>)
    \<and> (\<forall>i < cd_cap ?d. cd_cell (?d\<lparr>cd_buffer := buf\<rparr>) i
         = (if Suc k \<le> i \<and> i < Suc k + length vs then Some (vs ! (i - Suc k)) else cd_cell ?d i))"
    using Cons.prems n by (intro Cons.IH) (auto simp: cd_cell_put)
  then obtain buf where buf: "length buf = cd_cap d"
    "cd_fill vs (cd_iter_at d (Suc k)) (cd_iter_at d (Suc k + length vs)) ?d = Some (?d\<lparr>cd_buffer := buf\<rparr>)"
    "\<And>i. i < cd_cap d \<Longrightarrow> cd_cell (?d\<lparr>cd_buffer := buf\<rparr>) i
         = (if Suc k \<le> i \<and> i < Suc k + length vs then Some (vs ! (i - Suc k)) else cd_cell ?d i)"
    by auto
  have inc: "it_Increment ?d (cd_iter_at d k) = Some (cd_iter_at d (Suc k))"
    using it_Increment_at [of ?d n k] Cons.prems by simp
  have "cd_fill (v # vs) (cd_iter_at d k) (cd_iter_at d (k + length (v # vs))) d = Some (?d\<lparr>cd_buffer := buf\<rparr>)"
    using Cons.prems n buf(2) inc
    by (subst cd_fill.simps) (simp add: it_less_at construct_at [of d n] Let_def)
  then show ?case
    using buf(1,3) Cons.prems n
    by (intro exI [of _ buf]) (auto simp: cd_cell_put nth_Cons' le_Suc_eq)
qed

lemma cd_shift_up_spec:
  assumes "cd_wf d n" "k \<le> j" "j + m \<le> n" "0 < m"
    and "\<And>i. k \<le> i \<Longrightarrow> i < j \<Longrightarrow> cd_cell d i \<noteq> None" "\<And>i. j \<le> i \<Longrightarrow> i < j + m \<Longrightarrow> cd_cell d i = None"
  shows "\<exists>buf. length buf = cd_cap d
    \<and> cd_shift_up (cd_iter_at d k) (cd_iter_at d j) (cd_iter_at d (j + m)) d = Some (d\<lparr>cd_buffer := buf\<rparr>)
    \<and> (\<forall>i < cd_cap d. cd_cell (d\<lparr>cd_buffer := buf\<rparr>) i
         = (if k \<le> i \<and> i < k + m then None else if k + m \<le> i \<and> i < j + m then cd_cell d (i - m)
            else cd_cell d i))"
  using assms
proof (induction "j - k" arbitrary: j d)
  case 0
  then show ?case
    using cd_wf_less [OF 0(2)]
    by (intro exI [of _ "cd_buffer d"], subst cd_shift_up.simps) (auto simp: it_eq_at)
next
  case (Suc l)
  then obtain j' where j: "j = Suc j'" by (cases j) auto
  obtain v where v: "cd_cell d j' = Some v" using Suc.prems(5) [of j'] Suc.hyps(2) j by fastforce
  let ?d = "cd_put (cd_put d (j' + m) (Some v)) j' None"
  have n: "n < cd_cap d" using Suc.prems(1) by (simp add: cd_wf_def)
  have "\<exists>buf. length buf = cd_cap ?d
    \<and> cd_shift_up (cd_iter_at ?d k) (cd_iter_at ?d j') (cd_iter_at ?d (j' + m)) ?d = Some (?d\<lparr>cd_buffer := buf\<rparr>)
    \<and> (\<forall>i < cd_cap ?d. cd_cell (?d\<lparr>cd_buffer := buf\<rparr>) i
         = (if k \<le> i \<and> i < k + m then None else if k + m \<le> i \<and> i < j' + m then cd_cell ?d (i - m)
            else cd_cell ?d i))"
    using Suc j n by (intro Suc.hyps(1)) (auto simp: cd_cell_put)
  then obtain buf where buf: "length buf = cd_cap d"
    "cd_shift_up (cd_iter_at d k) (cd_iter_at d j') (cd_iter_at d (j' + m)) ?d = Some (?d\<lparr>cd_buffer := buf\<rparr>)"
    "\<And>i. i < cd_cap d \<Longrightarrow> cd_cell (?d\<lparr>cd_buffer := buf\<rparr>) i
         = (if k \<le> i \<and> i < k + m then None else if k + m \<le> i \<and> i < j' + m then cd_cell ?d (i - m)
            else cd_cell ?d i)"
    by auto
  have "cd_shift_up (cd_iter_at d k) (cd_iter_at d j) (cd_iter_at d (j + m)) d = Some (?d\<lparr>cd_buffer := buf\<rparr>)"
    using Suc.prems Suc.hyps(2) n buf(2) j v move_at [of d n j' v "j' + m"]
    by (subst cd_shift_up.simps)
      (simp add: it_eq_at it_Decrement_at [of d n] cd_put_def [of "cd_put d (j' + m) (Some v)"] cd_put_def)
  then show ?case
    using buf(1,3) Suc.prems Suc.hyps(2) n j v
    by (intro exI [of _ buf]) (auto simp: cd_cell_put)
qed

lemma cd_shift_down_spec:
  assumes "cd_wf d n" "t < s" "s \<le> n"
    and "\<And>i. s \<le> i \<Longrightarrow> i < n \<Longrightarrow> cd_cell d i \<noteq> None" "\<And>i. t \<le> i \<Longrightarrow> i < s \<Longrightarrow> cd_cell d i = None"
  shows "\<exists>buf. length buf = cd_cap d
    \<and> cd_shift_down (cd_iter_at d s) (cd_iter_at d n) (cd_iter_at d t) d
        = Some (d\<lparr>cd_buffer := buf\<rparr>, cd_iter_at d (t + (n - s)))
    \<and> (\<forall>i < cd_cap d. cd_cell (d\<lparr>cd_buffer := buf\<rparr>) i
         = (if t \<le> i \<and> i < t + (n - s) then cd_cell d (i + (s - t))
            else if t + (n - s) \<le> i \<and> i < n then None else cd_cell d i))"
  using assms
proof (induction "n - s" arbitrary: s t d)
  case 0
  then show ?case
    using cd_wf_less [OF 0(2)]
    by (intro exI [of _ "cd_buffer d"], subst cd_shift_down.simps) (auto simp: it_less_at [of _ n])
next
  case (Suc l)
  obtain v where v: "cd_cell d s = Some v" using Suc.prems(4) [of s] Suc.hyps(2) by fastforce
  let ?d = "cd_put (cd_put d t (Some v)) s None"
  have n: "n < cd_cap d" using Suc.prems(1) by (simp add: cd_wf_def)
  have "\<exists>buf. length buf = cd_cap ?d
    \<and> cd_shift_down (cd_iter_at ?d (Suc s)) (cd_iter_at ?d n) (cd_iter_at ?d (Suc t)) ?d
        = Some (?d\<lparr>cd_buffer := buf\<rparr>, cd_iter_at ?d (Suc t + (n - Suc s)))
    \<and> (\<forall>i < cd_cap ?d. cd_cell (?d\<lparr>cd_buffer := buf\<rparr>) i
         = (if Suc t \<le> i \<and> i < Suc t + (n - Suc s) then cd_cell ?d (i + (Suc s - Suc t))
            else if Suc t + (n - Suc s) \<le> i \<and> i < n then None else cd_cell ?d i))"
    using Suc n by (intro Suc.hyps(1)) (auto simp: cd_cell_put)
  then obtain buf where buf: "length buf = cd_cap d"
    "cd_shift_down (cd_iter_at d (Suc s)) (cd_iter_at d n) (cd_iter_at d (Suc t)) ?d
        = Some (?d\<lparr>cd_buffer := buf\<rparr>, cd_iter_at d (Suc t + (n - Suc s)))"
    "\<And>i. i < cd_cap d \<Longrightarrow> cd_cell (?d\<lparr>cd_buffer := buf\<rparr>) i
         = (if Suc t \<le> i \<and> i < Suc t + (n - Suc s) then cd_cell ?d (i + (s - t))
            else if Suc t + (n - Suc s) \<le> i \<and> i < n then None else cd_cell ?d i)"
    by auto
  have inc: "it_Increment ?d (cd_iter_at d s) = Some (cd_iter_at d (Suc s))"
      "it_Increment ?d (cd_iter_at d t) = Some (cd_iter_at d (Suc t))"
    using it_Increment_at [of ?d n s] it_Increment_at [of ?d n t] Suc.prems Suc.hyps(2) by simp_all
  have sn: "Suc t + (n - Suc s) = t + (n - s)" using Suc.hyps(2) by linarith
  have "cd_shift_down (cd_iter_at d s) (cd_iter_at d n) (cd_iter_at d t) d
      = Some (?d\<lparr>cd_buffer := buf\<rparr>, cd_iter_at d (t + (n - s)))"
    using Suc.prems Suc.hyps(2) n buf(2) inc sn v move_at [of d n s v t]
    by (subst cd_shift_down.simps) (simp add: it_less_at [of _ n] Let_def)
  then show ?case
    using buf(1,3) Suc.prems(1-3) Suc.hyps(2) n v sn
    by (intro exI [of _ buf]) (auto simp: cd_cell_put Suc_le_eq)
qed

text \<open>Every cell by its index in the buffer.\<close>

lemma cd_idx_surj:
  assumes "cd_wf d n" "i < cd_cap d"
  defines "k \<equiv> (if cd_begin d \<le> i then i - cd_begin d else cd_cap d - cd_begin d + i)"
  shows "k < cd_cap d" "cd_idx d k = i"
proof -
  show k: "k < cd_cap d" using assms by (auto simp: cd_wf_def)
  show "cd_idx d k = i"
    using cd_idx_eq [OF assms(1), of k] k assms by (auto simp: cd_wf_def)
qed

lemma cd_rep_nth:
  assumes "cd_rep d xs" "i < cd_cap d"
  shows "cd_begin d \<le> i \<Longrightarrow> cd_buffer d ! i = (if i - cd_begin d < length xs then Some (xs ! (i - cd_begin d)) else None)"
    and "i < cd_begin d \<Longrightarrow> cd_buffer d ! i =
      (if cd_cap d - cd_begin d + i < length xs then Some (xs ! (cd_cap d - cd_begin d + i)) else None)"
proof -
  have ne: "cd_buffer d \<noteq> []" using assms(2) by auto
  note w = cd_rep_wf [OF assms(1) ne]
  show "cd_begin d \<le> i \<Longrightarrow> cd_buffer d ! i = (if i - cd_begin d < length xs then Some (xs ! (i - cd_begin d)) else None)"
    using cd_idx_surj [OF w assms(2)] cd_rep_cell [OF assms(1), of "i - cd_begin d"] by (simp add: cd_cell_def)
  show "i < cd_begin d \<Longrightarrow> cd_buffer d ! i =
      (if cd_cap d - cd_begin d + i < length xs then Some (xs ! (cd_cap d - cd_begin d + i)) else None)"
    using cd_idx_surj [OF w assms(2)] cd_rep_cell [OF assms(1), of "cd_cap d - cd_begin d + i"]
    by (simp add: cd_cell_def)
qed

text \<open>Moving all elements to a new buffer.\<close>

lemma vb_free_all: "(\<And>i. i < length buf \<Longrightarrow> buf ! i = None) \<Longrightarrow> vb_free buf = Some ()"
  by (auto simp: vb_free_def list_all_length)

lemma cd_flat_rep: "length xs \<le> n \<Longrightarrow> cd_rep (cd_flat d n xs) xs"
  by (auto simp: cd_rep_def cd_flat_def cd_wf_def cd_idx_def cd_cell_def nth_append)

lemma cd_flat_simps [simp]:
  "length xs \<le> n \<Longrightarrow> cd_cap (cd_flat d n xs) = Suc n" "cd_begin (cd_flat d n xs) = 0"
  "cd_generation (cd_flat d n xs) = cd_generation d" "cd_buffer (cd_flat d n xs) \<noteq> []"
  by (auto simp: cd_flat_def)

text \<open>One move of a block of live cells to raw cells of another buffer, as an equation on lists.\<close>

lemma move_block:
  assumes "b \<le> e" "e \<le> length from" "t + (e - b) \<le> length to"
    and "\<And>i. b \<le> i \<Longrightarrow> i < e \<Longrightarrow> from ! i \<noteq> None"
    and "\<And>i. t \<le> i \<Longrightarrow> i < t + (e - b) \<Longrightarrow> to ! i = None"
  obtains from' where "length from' = length from"
    and "\<And>i. i < length from \<Longrightarrow> from' ! i = (if b \<le> i \<and> i < e then None else from ! i)"
    and "vb_MoveRange from b e to t = Some (from', take t to @ take (e - b) (drop b from) @ drop (t + (e - b)) to)"
  using vb_MoveRange_eq [OF assms] by blast

lemma cd_MoveBuffer_spec:
  assumes rep: "cd_rep d xs" and n: "length xs \<le> n"
  shows "\<exists>old. vb_free old = Some () \<and>
    cd_MoveBuffer (cd_buffer d) (cd_begin d) (cd_end d) (vb_new (n + 1))
      = Some (old, map Some xs @ replicate (Suc n - length xs) None, 0, length xs)"
proof (cases "xs = []")
  case True
  moreover have "cd_begin d = cd_end d" using cd_rep_empty [OF rep] True by (simp add: cd_empty_def)
  moreover have "cd_buffer d ! i = None" if "i < cd_cap d" for i
    using cd_rep_nth [OF rep that] True by (cases "cd_begin d \<le> i") simp_all
  ultimately show ?thesis
    by (intro exI [of _ "cd_buffer d"])
      (simp add: cd_MoveBuffer_def vb_free_all vb_new_def flip: replicate_Suc)
next
  case ne: False
  note w = cd_rep_wf [OF rep cd_rep_nonempty [OF rep ne]]
  note nth = cd_rep_nth [OF rep]
  let ?b = "cd_begin d" and ?e = "cd_end d" and ?c = "cd_cap d" and ?l = "length xs"
  let ?new = "vb_new (n + 1) :: 'a vector_buffer"
  have bc: "?b < ?c" "?l < ?c" "0 < ?l" using w ne by (auto simp: cd_wf_def)
  show ?thesis
  proof (cases "?b + ?l < ?c")
    case True
    then have e: "?e = ?b + ?l" using cd_idx_eq [OF w, of ?l] w by (simp add: cd_wf_def)
    obtain old where o: "length old = ?c" "\<And>i. i < ?c \<Longrightarrow> old ! i = (if ?b \<le> i \<and> i < ?e then None else cd_buffer d ! i)"
      "vb_MoveRange (cd_buffer d) ?b ?e ?new 0
        = Some (old, take 0 ?new @ take (?e - ?b) (drop ?b (cd_buffer d)) @ drop (0 + (?e - ?b)) ?new)"
      by (rule move_block [of ?b ?e "cd_buffer d" 0 ?new]) (use e True n nth(1) in auto)
    have "vb_free old = Some ()"
    proof (rule vb_free_all)
      fix i assume "i < length old"
      then show "old ! i = None" using o(1,2) nth [of i] e True by (cases "?b \<le> i") auto
    qed
    moreover have "take ?l (drop ?b (cd_buffer d)) = map Some xs"
      using True nth(1) by (intro nth_equalityI) auto
    ultimately show ?thesis
      using o(3) e bc by (auto simp: cd_MoveBuffer_def vb_new_def simp flip: replicate_Suc)
  next
    case False
    then have e: "?e = ?b + ?l - ?c" using cd_idx_eq [OF w, of ?l] w bc by (simp add: cd_wf_def)
    let ?r = "?c - ?b"
    obtain old where o: "length old = ?c" "\<And>i. i < ?c \<Longrightarrow> old ! i = (if ?b \<le> i \<and> i < ?c then None else cd_buffer d ! i)"
      "vb_MoveRange (cd_buffer d) ?b ?c ?new 0
        = Some (old, take 0 ?new @ take ?r (drop ?b (cd_buffer d)) @ drop (0 + ?r) ?new)"
      by (rule move_block [of ?b ?c "cd_buffer d" 0 ?new]) (use e False n nth(1) bc in auto)
    let ?mid = "take ?r (drop ?b (cd_buffer d)) @ drop ?r ?new"
    obtain old2 where o2: "length old2 = length old" "\<And>i. i < length old \<Longrightarrow> old2 ! i = (if 0 \<le> i \<and> i < ?e then None else old ! i)"
      "vb_MoveRange old 0 ?e ?mid ?r = Some (old2, take ?r ?mid @ take (?e - 0) (drop 0 old) @ drop (?r + (?e - 0)) ?mid)"
      by (rule move_block [of 0 ?e old ?r ?mid]) (use e False n nth(2) bc o(1,2) in \<open>auto simp: nth_append\<close>)
    have "vb_free old2 = Some ()"
    proof (rule vb_free_all)
      fix i assume "i < length old2"
      then show "old2 ! i = None" using o(1,2) o2(1,2) nth [of i] e bc False by (cases "?b \<le> i") auto
    qed
    moreover have "take ?r (drop ?b (cd_buffer d)) @ take ?e old = map Some xs"
      using o(1,2) e bc False nth by (intro nth_equalityI) (auto simp: nth_append)
    moreover have "take ?r ?mid = take ?r (drop ?b (cd_buffer d))" using bc by simp
    moreover have "drop (?r + ?e) ?mid = replicate (Suc n - ?l) None"
      using e bc False n by (simp add: vb_new_def flip: replicate_Suc)
    ultimately show ?thesis
      using o(3) o2(3) e bc False by (auto simp: cd_MoveBuffer_def vb_capacity_def Let_def simp flip: append_assoc)
  qed
qed

lemma cd_SetCapacityTo_spec:
  "cd_rep d xs \<Longrightarrow> length xs \<le> n \<Longrightarrow> cd_SetCapacityTo d n = Some (cd_flat d n xs)"
  using cd_MoveBuffer_spec [of d xs n] by (auto simp: cd_SetCapacityTo_def cd_flat_def)


text \<open>Capacity changes keep the contents; growing makes room for the added elements.\<close>

lemma cd_Expand_spec:
  assumes rep: "cd_rep d xs"
  shows "\<exists>d'. cd_ExpandCapacityIfNecessary d k = Some d' \<and> cd_rep d' xs
    \<and> (length xs + k < cd_cap d' \<or> k = 0) \<and> cd_generation d' = cd_generation d"
proof (cases "length xs + k \<le> cd_capacity d")
  case True
  then show ?thesis
    using rep cd_rep_wf [OF rep] cd_rep_size [OF rep]
    by (auto simp: cd_ExpandCapacityIfNecessary_def cd_capacity_def vb_capacity_def split: if_splits)
next
  case False
  let ?n = "max (max (length xs + k) kCircularBufferInitialCapacity) (cd_capacity d + cd_capacity d div 4)"
  have "cd_ExpandCapacityIfNecessary d k = Some (cd_flat d ?n xs)"
    using False cd_rep_size [OF rep] cd_SetCapacityTo_spec [OF rep, of ?n]
    by (simp add: cd_ExpandCapacityIfNecessary_def Let_def)
  then show ?thesis using cd_flat_rep [of xs ?n d] by (auto simp: less_Suc_eq_le)
qed

lemma cd_Shrink_spec:
  assumes rep: "cd_rep d xs"
  shows "\<exists>d'. cd_ShrinkCapacityIfNecessary d = Some d' \<and> cd_rep d' xs"
proof -
  have "cd_SetCapacityTo d (max kCircularBufferInitialCapacity (length xs + length xs div 4))
      = Some (cd_flat d (max kCircularBufferInitialCapacity (length xs + length xs div 4)) xs)"
    using rep by (intro cd_SetCapacityTo_spec) auto
  then show ?thesis
    using rep cd_flat_rep [of xs "max kCircularBufferInitialCapacity (length xs + length xs div 4)" d]
    by (auto simp: cd_ShrinkCapacityIfNecessary_def cd_rep_size Let_def)
qed

lemma cd_rep_capacity: "cd_rep d xs \<Longrightarrow> length xs \<le> cd_capacity d"
  using cd_rep_wf [of d xs] cd_wf_capacity [of d "length xs"] cd_wf_less [of d "length xs"]
    cd_rep_nonempty [of d xs]
  by (cases "xs = []") auto

lemma cd_reserve_spec:
  assumes "cd_rep d xs"
  shows "\<exists>d'. cd_reserve d n = Some d' \<and> cd_rep d' xs"
  using assms cd_rep_capacity [OF assms] cd_SetCapacityTo_spec [OF assms, of n] cd_flat_rep [of xs n d]
  by (cases "cd_capacity d < n") (simp_all add: cd_reserve_def)

text \<open>Reading elements.\<close>

lemma cd_front_spec:
  assumes rep: "cd_rep d xs"
  shows "cd_front d = (if xs = [] then None else Some (hd xs))"
proof (cases "xs = []")
  case False
  note w = cd_rep_wf [OF rep cd_rep_nonempty [OF rep False]]
  show ?thesis
    using False w cd_rep_empty [OF rep] cd_rep_nth(1) [OF rep, of "cd_begin d"]
    by (auto simp: cd_front_def vb_get_def cd_wf_def hd_conv_nth)
qed (simp add: cd_front_def cd_rep_empty [OF rep])

lemma cd_back_spec:
  assumes rep: "cd_rep d xs"
  shows "cd_back d = (if xs = [] then None else Some (last xs))"
proof (cases xs rule: rev_cases)
  case (snoc ys y)
  note w = cd_rep_wf [OF rep cd_rep_nonempty [OF rep]]
  have wf: "cd_wf d (Suc (length ys))" using w snoc by simp
  show ?thesis
    using snoc cd_rep_empty [OF rep] cd_rep_cell [OF rep, of "length ys"] cd_wf_less [OF wf]
    by (simp add: cd_back_def iter_end_at [OF wf] it_Decrement_at [OF wf] it_deref_at [OF wf])
qed (simp add: cd_back_def cd_rep_empty [OF rep])

lemma cd_at_spec:
  assumes rep: "cd_rep d xs"
  shows "cd_at d i = (if i < length xs then Some (xs ! i) else None)"
proof (cases "i < length xs")
  case True
  note w = cd_rep_wf [OF rep cd_rep_nonempty [OF rep]]
  have wf: "cd_wf d (length xs)" using w True by (cases xs) auto
  have cell: "cd_buffer d ! cd_idx d i = Some (xs ! i)" "cd_idx d i < cd_cap d"
    using cd_rep_cell [OF rep, of i] True cd_wf_less [OF wf] wf by (auto simp: cd_cell_def)
  have "cd_at d i = vb_get (cd_buffer d) (cd_idx d i)"
    using True cd_rep_size [OF rep] cd_idx_eq [OF wf, of i] cd_idx_eq [OF wf, of "length xs"] wf
    by (cases "cd_begin d + i < cd_cap d"; cases "cd_begin d + length xs < cd_cap d")
      (auto simp: cd_at_def vb_capacity_def cd_wf_def Let_def add.commute)
  then show ?thesis using cell True by (simp add: vb_get_def)
qed (simp add: cd_at_def cd_rep_size [OF rep])

text \<open>Pushing and popping.\<close>

lemma cd_emplace_back_spec:
  assumes rep: "cd_rep d xs"
  shows "\<exists>d'. cd_emplace_back d v = Some d' \<and> cd_rep d' (xs @ [v])"
proof -
  obtain d1 where d1: "cd_ExpandCapacityIfNecessary d 1 = Some d1" "cd_rep d1 xs"
    "length xs + 1 < cd_cap d1" using cd_Expand_spec [OF rep, of 1] by auto
  have ne: "cd_buffer d1 \<noteq> []" using d1(3) by auto
  note w = cd_rep_wf [OF d1(2) ne]
  let ?l = "length xs" and ?c = "cd_cap d1"
  let ?e = "if cd_end d1 = ?c - 1 then 0 else cd_end d1 + 1"
  let ?d = "cd_IncrementGeneration ((cd_put d1 ?l (Some v))\<lparr>cd_end := ?e\<rparr>)"
  have e: "cd_end d1 = cd_idx d1 ?l" using w by (simp add: cd_wf_def)
  have cons: "vb_construct (cd_buffer d1) (cd_end d1) v = Some (cd_buffer (cd_put d1 ?l (Some v)))"
    using construct_at [OF w, of ?l v] cd_rep_cell [OF d1(2), of ?l] d1(3) e by simp
  have "?e = cd_idx d1 (Suc ?l)"
    using cd_idx_eq [OF w, of ?l] cd_idx_eq [OF w, of "Suc ?l"] d1(3) cd_wf_begin [OF w] unfolding e
    by (cases "cd_begin d1 + ?l < ?c") auto
  then have wf: "cd_wf ?d (Suc ?l)" using w d1(3) by (simp add: cd_wf_def cd_idx_def)
  have rep': "cd_rep ?d (xs @ [v])"
    using wf d1(3) cd_rep_cell [OF d1(2)] by (intro cd_repI) (auto simp: cd_cell_put nth_append)
  have d: "cd_IncrementGeneration (d1\<lparr>cd_buffer := cd_buffer (cd_put d1 ?l (Some v)), cd_end := ?e\<rparr>) = ?d"
    by (simp add: cd_put_def)
  have "cd_emplace_back d v = Some ?d"
    using d1(1) cons cd_back_spec [OF rep'] d by (simp add: cd_emplace_back_def vb_capacity_def Let_def)
  with rep' show ?thesis by blast
qed

lemma cd_emplace_front_spec:
  assumes rep: "cd_rep d xs"
  shows "\<exists>d'. cd_emplace_front d v = Some d' \<and> cd_rep d' (v # xs)"
proof -
  obtain d1 where d1: "cd_ExpandCapacityIfNecessary d 1 = Some d1" "cd_rep d1 xs"
    "length xs + 1 < cd_cap d1" using cd_Expand_spec [OF rep, of 1] by auto
  have ne: "cd_buffer d1 \<noteq> []" using d1(3) by auto
  note w = cd_rep_wf [OF d1(2) ne]
  let ?l = "length xs" and ?c = "cd_cap d1"
  define b where "b = (if cd_begin d1 = 0 then ?c - 1 else cd_begin d1 - 1)"
  let ?d1 = "cd_IncrementGeneration (d1\<lparr>cd_begin := b\<rparr>)"
  let ?d = "cd_put ?d1 0 (Some v)"
  have idx: "cd_idx ?d1 i = cd_idx d1 (if i = 0 then ?c - 1 else i - 1)" if "i < ?c" for i
  proof -
    have "(b + i) mod ?c = (cd_begin d1 + (if i = 0 then ?c - 1 else i - 1)) mod ?c"
      unfolding b_def by (rule ring_pred) (use that cd_wf_begin [OF w] in auto)
    then show ?thesis by (simp add: cd_idx_def)
  qed
  have wf: "cd_wf ?d1 (Suc ?l)" using w d1(3) idx [of "Suc ?l"] by (auto simp: cd_wf_def b_def)
  have cell: "cd_cell ?d1 i = (if i = 0 \<or> ?l < i then None else Some (xs ! (i - 1)))" if "i < ?c" for i
    using idx [OF that] that cd_rep_cell [OF d1(2), of "if i = 0 then ?c - 1 else i - 1"] d1(3)
    by (auto simp: cd_cell_def)
  have rep': "cd_rep ?d (v # xs)"
    using wf d1(3) cell ne by (intro cd_repI) (auto simp: cd_cell_put nth_Cons')
  have "vb_construct (cd_buffer ?d1) (cd_begin ?d1) v = Some (cd_buffer ?d)"
    using construct_at [OF wf, of 0 v] cell [of 0] ne cd_idx_0 [OF wf] by simp
  moreover have "?d1\<lparr>cd_buffer := cd_buffer ?d\<rparr> = ?d" by simp
  ultimately have "cd_emplace_front d v = Some ?d"
    using d1(1) cd_front_spec [OF rep']
    by (cases "cd_begin d1 = 0") (simp_all add: cd_emplace_front_def vb_capacity_def Let_def b_def)
  with rep' show ?thesis by blast
qed

lemma destroy_one: "i < length buf \<Longrightarrow> buf ! i = Some v \<Longrightarrow> vb_DestructRange buf i (Suc i) = Some (buf[i := None])"
  by (simp add: vb_DestructRange.simps [of buf] vb_DestructRange.simps [of _ "Suc i"] vb_destroy_def)

lemma cd_pop_back_spec:
  assumes rep: "cd_rep d (xs @ [x])"
  shows "\<exists>d'. cd_pop_back d = Some d' \<and> cd_rep d' xs"
proof -
  let ?l = "length xs" and ?c = "cd_cap d"
  have w: "cd_wf d (Suc ?l)" using cd_rep_wf [OF rep cd_rep_nonempty [OF rep]] by simp
  let ?e = "if cd_end d = 0 then ?c - 1 else cd_end d - 1"
  let ?d = "(cd_put d ?l None)\<lparr>cd_end := ?e\<rparr>"
  have e: "?e = cd_idx d ?l"
    using cd_idx_eq [OF w, of ?l] cd_idx_eq [OF w, of "Suc ?l"] w by (auto simp: cd_wf_def)
  have "cd_cell d ?l = Some x" using cd_rep_cell [OF rep, of ?l] cd_wf_less [OF w] by simp
  then have des: "vb_DestructRange (cd_buffer d) ?e (Suc ?e) = Some (cd_buffer (cd_put d ?l None))"
    using destroy_one [of ?e "cd_buffer d" x] w e by (simp add: cd_cell_def cd_put_def)
  have rep': "cd_rep ?d xs"
  proof (rule cd_repI)
    show "cd_wf ?d (length xs)" using w e by (simp add: cd_wf_def cd_idx_def)
    show "cd_cell ?d i = (if i < length xs then Some (xs ! i) else None)" if "i < cd_cap ?d" for i
      using that cd_wf_less [OF w] cd_rep_cell [OF rep, of i]
      by (auto simp: cd_cell_put nth_append)
  qed
  moreover have "d\<lparr>cd_buffer := cd_buffer (cd_put d ?l None), cd_end := ?e\<rparr> = ?d" by (simp add: cd_put_def)
  ultimately show ?thesis
    using cd_Shrink_spec [OF rep'] des cd_rep_size [OF rep]
    by (auto simp: cd_pop_back_def vb_capacity_def Let_def)
qed

lemma cd_pop_front_spec:
  assumes rep: "cd_rep d (x # xs)"
  shows "\<exists>d'. cd_pop_front d = Some d' \<and> cd_rep d' xs"
proof -
  let ?l = "length xs" and ?c = "cd_cap d"
  have w: "cd_wf d (Suc ?l)" using cd_rep_wf [OF rep cd_rep_nonempty [OF rep]] by simp
  let ?b = "if Suc (cd_begin d) = ?c then 0 else Suc (cd_begin d)"
  let ?d = "(cd_put d 0 None)\<lparr>cd_begin := ?b\<rparr>"
  have "cd_cell d 0 = Some x" using cd_rep_cell [OF rep, of 0] cd_wf_pos(1) [OF w] by simp
  then have des: "vb_DestructRange (cd_buffer d) (cd_begin d) (Suc (cd_begin d)) = Some (cd_buffer (cd_put d 0 None))"
    using destroy_one [of "cd_begin d" "cd_buffer d" x] w cd_idx_0 [OF w]
    by (simp add: cd_cell_def cd_put_def cd_wf_def)
  have idx: "cd_idx ?d i = cd_idx d (if Suc i = ?c then 0 else Suc i)" if "i < ?c" for i
    using that ring_succ [OF cd_wf_begin [OF w] that] by (simp add: cd_idx_def)
  have rep': "cd_rep ?d xs"
  proof (rule cd_repI)
    show "cd_wf ?d (length xs)" using w idx [of ?l] by (auto simp: cd_wf_def)
    show "cd_cell ?d i = (if i < length xs then Some (xs ! i) else None)" if "i < cd_cap ?d" for i
    proof -
      have "cd_cell ?d i = cd_cell (cd_put d 0 None) (if Suc i = ?c then 0 else Suc i)"
        using idx [of i] that by (simp add: cd_cell_def cd_idx_def)
      then show ?thesis
        using that cd_wf_less [OF w] cd_wf_pos(2) [OF w] cd_rep_cell [OF rep, of "Suc i"] by (auto simp: cd_cell_put)
    qed
  qed
  moreover have "d\<lparr>cd_buffer := cd_buffer (cd_put d 0 None), cd_begin := ?b\<rparr> = ?d" by (simp add: cd_put_def)
  ultimately show ?thesis
    using cd_Shrink_spec [OF rep'] des cd_rep_size [OF rep]
    by (auto simp: cd_pop_front_def vb_capacity_def Let_def)
qed

text \<open>Destroying a range of offsets.\<close>

lemma cd_DestructRange_spec:
  assumes w: "cd_wf d n" and st: "s \<le> t" "t < cd_cap d"
    and live: "\<And>i. s \<le> i \<Longrightarrow> i < t \<Longrightarrow> cd_cell d i \<noteq> None"
  shows "\<exists>buf. length buf = cd_cap d
    \<and> cd_DestructRange d (cd_idx d s) (cd_idx d t) = Some (d\<lparr>cd_buffer := buf\<rparr>)
    \<and> (\<forall>i < cd_cap d. cd_cell (d\<lparr>cd_buffer := buf\<rparr>) i = (if s \<le> i \<and> i < t then None else cd_cell d i))"
proof -
  let ?b = "cd_begin d" and ?c = "cd_cap d" and ?s = "cd_idx d s" and ?t = "cd_idx d t"
  have bc: "?b < ?c" using w by (rule cd_wf_begin)
  note se = cd_idx_eq [OF w, of s] and te = cd_idx_eq [OF w, of t]
  have live': "cd_buffer d ! cd_idx d i \<noteq> None" if "s \<le> i" "i < t" for i
    using live [OF that] by (simp add: cd_cell_def)
  have cellI: "\<forall>i < ?c. cd_cell (d\<lparr>cd_buffer := buf\<rparr>) i = (if s \<le> i \<and> i < t then None else cd_cell d i)"
    if "length buf = ?c" "\<And>i. i < ?c \<Longrightarrow> buf ! cd_idx d i = (if s \<le> i \<and> i < t then None else cd_buffer d ! cd_idx d i)" for buf
    using that by (auto simp: cd_cell_def cd_idx_def)
  consider "s = t" | "s < t" "?s < ?t" | "s < t" "?t < ?s"
    using st cd_idx_inj [of s d t] by linarith
  then show ?thesis
  proof cases
    case 1
    then show ?thesis by (intro exI [of _ "cd_buffer d"]) (auto simp: cd_DestructRange_def)
  next
    case 2
    let ?buf = "take ?s (cd_buffer d) @ replicate (?t - ?s) None @ drop ?t (cd_buffer d)"
    have tl: "?t \<le> ?c" "?t - ?s = t - s"
      using 2 te se st bc cd_idx_lt [OF w, of t] by (auto split: if_splits)
    have "vb_DestructRange (cd_buffer d) ?s ?t = Some ?buf"
    proof (rule vb_DestructRange_eq)
      fix i assume "?s \<le> i" "i < ?t"
      then have "cd_idx d (s + (i - ?s)) = i" "s + (i - ?s) < t"
        using 2 st bc se te cd_idx_eq [OF w, of "s + (i - ?s)"] by (auto split: if_splits)
      then show "cd_buffer d ! i \<noteq> None" using live' [of "s + (i - ?s)"] by simp
    qed (use 2 tl in auto)
    moreover have "?buf ! cd_idx d i = (if s \<le> i \<and> i < t then None else cd_buffer d ! cd_idx d i)" if "i < ?c" for i
    proof -
      have "s \<le> i \<and> i < t \<longleftrightarrow> ?s \<le> cd_idx d i \<and> cd_idx d i < ?t"
        using that 2 st bc se te cd_idx_eq [OF w, of i] by (auto split: if_splits)
      then show ?thesis using tl(1) 2 cd_idx_lt [OF w, of i] by (auto simp: nth_append)
    qed
    ultimately show ?thesis
      using 2 tl by (intro exI [of _ ?buf] conjI cellI) (auto simp: cd_DestructRange_def)
  next
    case 3
    let ?buf1 = "take ?s (cd_buffer d) @ replicate (?c - ?s) None"
    let ?buf = "replicate ?t None @ drop ?t ?buf1"
    have sb: "?b \<le> ?s" "?s < ?c" "?t < ?b"
      using 3 te se st bc cd_idx_lt [OF w, of t] by (auto split: if_splits)
    have "vb_DestructRange (cd_buffer d) ?s ?c = Some (take ?s (cd_buffer d) @ replicate (?c - ?s) None @ drop ?c (cd_buffer d))"
    proof (rule vb_DestructRange_eq)
      fix i assume "?s \<le> i" "i < ?c"
      then have "cd_idx d (i - ?b) = i" "s \<le> i - ?b" "i - ?b < t"
        using 3 st bc se te sb cd_idx_eq [OF w, of "i - ?b"] by (auto split: if_splits)
      then show "cd_buffer d ! i \<noteq> None" using live' [of "i - ?b"] by simp
    qed (use sb in auto)
    moreover have "vb_DestructRange ?buf1 0 ?t = Some (take 0 ?buf1 @ replicate (?t - 0) None @ drop ?t ?buf1)"
    proof (rule vb_DestructRange_eq)
      fix i assume "i < ?t"
      then have "cd_idx d (?c - ?b + i) = i" "s \<le> ?c - ?b + i" "?c - ?b + i < t"
        using 3 st bc se te sb cd_idx_eq [OF w, of "?c - ?b + i"] by (auto split: if_splits)
      then show "?buf1 ! i \<noteq> None" using live' [of "?c - ?b + i"] \<open>i < ?t\<close> sb by (simp add: nth_append)
    qed (use sb in auto)
    moreover have "?buf ! cd_idx d i = (if s \<le> i \<and> i < t then None else cd_buffer d ! cd_idx d i)" if "i < ?c" for i
    proof -
      have "s \<le> i \<and> i < t \<longleftrightarrow> ?s \<le> cd_idx d i \<or> cd_idx d i < ?t"
        using that 3 st bc se te sb cd_idx_eq [OF w, of i] by (auto split: if_splits)
      then show ?thesis using sb 3 cd_idx_lt [OF w, of i] by (auto simp: nth_append)
    qed
    ultimately show ?thesis
      using 3 sb by (intro exI [of _ ?buf] conjI cellI) (auto simp: cd_DestructRange_def vb_capacity_def)
  qed
qed

lemma cd_wf_buffer [simp]:
  "length buf = cd_cap d \<Longrightarrow> cd_wf (d\<lparr>cd_buffer := buf\<rparr>) n = cd_wf d n"
  "length buf = cd_cap d \<Longrightarrow> cd_idx (d\<lparr>cd_buffer := buf\<rparr>) n = cd_idx d n"
  by (simp_all add: cd_wf_def cd_idx_def)

lemma cd_Clear_spec:
  assumes rep: "cd_rep d xs"
  shows "\<exists>d'. cd_ClearRetainCapacity d = Some d' \<and> cd_rep d' [] \<and> cd_cap d' = cd_cap d"
proof (cases "cd_buffer d = []")
  case True
  then show ?thesis using rep by (simp add: cd_rep_def cd_ClearRetainCapacity_def cd_DestructRange_def)
next
  case False
  note w = cd_rep_wf [OF rep False]
  obtain buf where buf: "length buf = cd_cap d"
    "cd_DestructRange d (cd_begin d) (cd_end d) = Some (d\<lparr>cd_buffer := buf\<rparr>)"
    "\<And>i. i < cd_cap d \<Longrightarrow> cd_cell (d\<lparr>cd_buffer := buf\<rparr>) i = (if i < length xs then None else cd_cell d i)"
    using cd_DestructRange_spec [OF w, of 0 "length xs"] cd_rep_cell [OF rep] cd_wf_less [OF w] cd_idx_0 [OF w] w
    by (auto simp: cd_wf_def)
  have "buf ! i = None" if "i < cd_cap d" for i
    using cd_idx_surj [OF w that] buf(1) buf(3) [of "if cd_begin d \<le> i then i - cd_begin d else cd_cap d - cd_begin d + i"]
      cd_rep_cell [OF rep, of "if cd_begin d \<le> i then i - cd_begin d else cd_cap d - cd_begin d + i"]
    by (auto simp: cd_cell_def split: if_splits)
  moreover have "0 < cd_cap d" using False by simp
  ultimately show ?thesis
    using buf(1,2) False
    by (auto simp: cd_ClearRetainCapacity_def cd_rep_def cd_wf_def cd_idx_def cd_cell_def)
qed

lemma cd_rep_nil_free: "cd_rep d [] \<Longrightarrow> vb_free (cd_buffer d) = Some ()"
proof (rule vb_free_all)
  fix i assume "cd_rep d []" "i < cd_cap d"
  then show "cd_buffer d ! i = None" using cd_rep_nth [of d "[]" i] by (cases "cd_begin d \<le> i") auto
qed

lemma cd_push_back_all_spec: "cd_rep d xs \<Longrightarrow> \<exists>d'. cd_push_back_all vs d = Some d' \<and> cd_rep d' (xs @ vs)"
proof (induction vs arbitrary: d xs)
  case (Cons v vs)
  obtain d1 where "cd_emplace_back d v = Some d1" "cd_rep d1 (xs @ [v])"
    using cd_emplace_back_spec [OF Cons.prems] by blast
  then show ?case using Cons.IH [of d1 "xs @ [v]"] by simp
qed simp

lemma cd_push_front_n_spec:
  "cd_rep d xs \<Longrightarrow> \<exists>d'. cd_push_front_n n v d = Some d' \<and> cd_rep d' (replicate n v @ xs)"
proof (induction n arbitrary: d xs)
  case (Suc n)
  obtain d1 where "cd_emplace_front d v = Some d1" "cd_rep d1 (v # xs)"
    using cd_emplace_front_spec [OF Suc.prems] by blast
  then show ?case using Suc.IH [of d1 "v # xs"] by (simp add: replicate_app_Cons_same)
qed simp

lemma cd_assign_spec: "cd_rep d xs \<Longrightarrow> \<exists>d'. cd_assign d vs = Some d' \<and> cd_rep d' vs"
  using cd_Clear_spec [of d xs] cd_push_back_all_spec [of _ "[]" vs] by (fastforce simp: cd_assign_def)

lemma cd_grow_spec:
  "cd_rep d xs \<Longrightarrow> \<exists>d'. cd_grow n v d = Some d' \<and> cd_rep d' (xs @ replicate (n - length xs) v)"
proof (induction "n - length xs" arbitrary: d xs)
  case 0
  then show ?case by (subst cd_grow.simps) (simp add: cd_rep_size)
next
  case (Suc m)
  obtain d1 where d1: "cd_emplace_back d v = Some d1" "cd_rep d1 (xs @ [v])"
    using cd_emplace_back_spec [OF Suc.prems] by blast
  have "replicate (n - length xs) v = v # replicate (n - length (xs @ [v])) v"
    using Suc.hyps(2) by (metis Suc_diff_Suc diff_Suc_eq_diff_pred diff_diff_left length_append_singleton plus_1_eq_Suc replicate_Suc zero_less_Suc zero_less_diff)
  moreover have "cd_grow n v d = cd_grow n v d1"
    using Suc.hyps(2) d1(1) cd_rep_size [OF Suc.prems] by (subst cd_grow.simps) auto
  ultimately show ?case using Suc.hyps(1) [OF _ d1(2)] Suc.hyps(2) by auto
qed

lemma cd_truncate:
  assumes rep: "cd_rep d xs" and n: "n < length xs"
  shows "\<exists>buf. cd_wrap d (cd_begin d + n) = Some (cd_idx d n)
    \<and> cd_DestructRange d (cd_idx d n) (cd_end d) = Some (d\<lparr>cd_buffer := buf\<rparr>)
    \<and> cd_rep (d\<lparr>cd_buffer := buf, cd_end := cd_idx d n\<rparr>) (take n xs)"
proof -
  have w: "cd_wf d (length xs)" using cd_rep_wf [OF rep cd_rep_nonempty [OF rep]] n by (cases xs) auto
  obtain buf where buf: "length buf = cd_cap d"
    "cd_DestructRange d (cd_idx d n) (cd_idx d (length xs)) = Some (d\<lparr>cd_buffer := buf\<rparr>)"
    "\<And>i. i < cd_cap d \<Longrightarrow> cd_cell (d\<lparr>cd_buffer := buf\<rparr>) i
        = (if n \<le> i \<and> i < length xs then None else cd_cell d i)"
    using cd_DestructRange_spec [OF w, of n "length xs"] cd_rep_cell [OF rep] cd_wf_less [OF w] n by fastforce
  have "cd_rep (d\<lparr>cd_buffer := buf, cd_end := cd_idx d n\<rparr>) (take n xs)"
    using buf(1,3) cd_rep_cell [OF rep] w n
    by (intro cd_repI) (auto simp: cd_wf_def cd_idx_def)
  then show ?thesis
    using buf(2) w by (auto simp: cd_wrap_def vb_capacity_def cd_wf_def cd_idx_def)
qed

lemma cd_resize_spec:
  assumes rep: "cd_rep d xs"
  shows "\<exists>d'. cd_resize d n v = Some d' \<and> cd_rep d' (take n xs @ replicate (n - length xs) v)"
proof (cases "n < length xs")
  case True
  obtain buf where "cd_wrap d (cd_begin d + n) = Some (cd_idx d n)"
    "cd_DestructRange d (cd_idx d n) (cd_end d) = Some (d\<lparr>cd_buffer := buf\<rparr>)"
    and r: "cd_rep (d\<lparr>cd_buffer := buf, cd_end := cd_idx d n\<rparr>) (take n xs)"
    using cd_truncate [OF rep True] by blast
  then show ?thesis
    using cd_Shrink_spec [OF r] True by (auto simp: cd_resize_def cd_rep_size [OF rep])
next
  case False
  obtain d1 where d1: "cd_ExpandCapacityIfNecessary d (n - length xs) = Some d1" "cd_rep d1 xs"
    using cd_Expand_spec [OF rep] by blast
  then show ?thesis
    using cd_grow_spec [OF d1(2), of n v] False rep
    by (cases "length xs < n") (auto simp: cd_resize_def cd_rep_size [OF rep])
qed

text \<open>Insertion at an offset.\<close>

lemma offset_rep:
  assumes rep: "cd_rep d xs" and k: "k \<le> length xs"
  shows "it_OffsetFromBegin d (cd_iter_at d k) = k"
proof (cases "cd_buffer d = []")
  case True
  then show ?thesis using rep k by (simp add: cd_rep_def it_OffsetFromBegin_def cd_idx_def)
next
  case False
  note w = cd_rep_wf [OF rep False]
  show ?thesis using offset_iter_at [OF w] cd_wf_less [OF w] k by simp
qed

lemma cd_MakeRoomFor_spec:
  assumes rep: "cd_rep d xs" and k: "k \<le> length xs" and m: "0 < m"
  shows "\<exists>d'. cd_MakeRoomFor d m (cd_iter_at d k) = Some (d', cd_iter_at d' k, cd_iter_at d' (k + m))
    \<and> cd_wf d' (length xs + m) \<and> cd_generation d' = cd_generation d
    \<and> (\<forall>i < cd_cap d'. cd_cell d' i = (if i < k then Some (xs ! i) else if i < k + m then None
         else if i < length xs + m then Some (xs ! (i - m)) else None))"
proof -
  let ?l = "length xs"
  obtain d1 where d1: "cd_ExpandCapacityIfNecessary d m = Some d1" "cd_rep d1 xs" "?l + m < cd_cap d1"
    "cd_generation d1 = cd_generation d"
    using cd_Expand_spec [OF rep, of m] m by auto
  have ne: "cd_buffer d1 \<noteq> []" using d1(3) by auto
  note w1 = cd_rep_wf [OF d1(2) ne]
  let ?d2 = "d1\<lparr>cd_end := cd_idx d1 (?l + m)\<rparr>"
  have w: "cd_wf ?d2 (?l + m)" using w1 d1(3) by (simp add: cd_wf_def)
  have at2: "cd_iter_at ?d2 i = cd_iter_at d1 i" for i by (simp add: cd_iter_at_def cd_mk_iterator_def)
  obtain buf where buf: "length buf = cd_cap d1"
    "cd_shift_up (cd_iter_at d1 k) (cd_iter_at d1 ?l) (cd_iter_at d1 (?l + m)) ?d2 = Some (?d2\<lparr>cd_buffer := buf\<rparr>)"
    "\<And>i. i < cd_cap d1 \<Longrightarrow> cd_cell (?d2\<lparr>cd_buffer := buf\<rparr>) i
       = (if k \<le> i \<and> i < k + m then None else if k + m \<le> i \<and> i < ?l + m then cd_cell d1 (i - m) else cd_cell d1 i)"
    using cd_shift_up_spec [OF w k, of m] m cd_rep_cell [OF d1(2)] d1(3) by (fastforce simp: at2)
  let ?d3 = "?d2\<lparr>cd_buffer := buf\<rparr>"
  have at3: "cd_iter_at ?d3 i = cd_iter_at d1 i" for i
    using buf(1) by (simp add: cd_iter_at_def cd_mk_iterator_def cd_idx_def)
  have wrap: "cd_wrap d1 (cd_begin d1 + i) = Some (cd_idx d1 i)"
    "cd_wrap d1 (cd_idx d1 i + m) = Some (cd_idx d1 (i + m))" for i
    using ne by (simp_all add: cd_wrap_def vb_capacity_def cd_idx_def mod_simps add_ac)
  have it: "(cd_iter_at d k)\<lparr>it_index := cd_idx d1 k\<rparr> = cd_iter_at d1 k"
    using d1(4) by (simp add: cd_iter_at_def cd_mk_iterator_def)
  have e: "cd_end d1 = cd_idx d1 ?l" using w1 by (simp add: cd_wf_def)
  have ends: "cd_iter_end d1 = cd_iter_at d1 ?l" "cd_iter_end ?d2 = cd_iter_at d1 (?l + m)"
    "cd_mk_iterator d1 (cd_idx d1 (k + m)) = cd_iter_at d1 (k + m)"
    by (simp_all add: cd_iter_end_def cd_iter_at_def cd_mk_iterator_def e)
  have "cd_MakeRoomFor d m (cd_iter_at d k) = Some (?d3, cd_iter_at ?d3 k, cd_iter_at ?d3 (k + m))"
    using m d1(1) buf(2) unfolding cd_MakeRoomFor_def offset_rep [OF rep k] at3
    by (simp add: wrap it e ends)
  moreover have "cd_wf ?d3 (?l + m)" using w buf(1) by simp
  moreover have "cd_cell ?d3 i = (if i < k then Some (xs ! i) else if i < k + m then None
         else if i < length xs + m then Some (xs ! (i - m)) else None)" if "i < cd_cap ?d3" for i
    using buf(1) buf(3) [of i] that k m cd_rep_cell [OF d1(2), of i] cd_rep_cell [OF d1(2), of "i - m"] by auto
  ultimately show ?thesis using d1(4) buf(1) by (intro exI [of _ ?d3]) auto
qed

lemma at_begin:
  assumes rep: "cd_rep d xs" and k: "k \<le> length xs"
  shows "it_eq (cd_iter_at d k) (cd_iter_begin d) = Some (k = 0)"
proof (cases "cd_buffer d = []")
  case True
  then show ?thesis
    using rep k by (auto simp: cd_rep_def it_eq_def it_CheckComparable_def cd_iter_begin_def cd_mk_iterator_def cd_idx_def)
next
  case False
  note w = cd_rep_wf [OF rep False]
  show ?thesis using k cd_wf_less [OF w] False by (simp add: iter_begin_at [OF w] it_eq_at)
qed

lemma cd_insert_room:
  assumes rep: "cd_rep d xs" and k: "k \<le> length xs" and vs: "vs \<noteq> []"
  shows "\<exists>d1 d2. cd_MakeRoomFor d (length vs) (cd_iter_at d k) = Some (d1, cd_iter_at d1 k, cd_iter_at d1 (k + length vs))
    \<and> cd_fill vs (cd_iter_at d1 k) (cd_iter_at d1 (k + length vs)) d1 = Some d2
    \<and> cd_rep d2 (take k xs @ vs @ drop k xs)"
proof -
  let ?m = "length vs"
  obtain d1 where d1: "cd_MakeRoomFor d ?m (cd_iter_at d k) = Some (d1, cd_iter_at d1 k, cd_iter_at d1 (k + ?m))"
    "cd_wf d1 (length xs + ?m)"
    "\<And>i. i < cd_cap d1 \<Longrightarrow> cd_cell d1 i = (if i < k then Some (xs ! i) else if i < k + ?m then None
         else if i < length xs + ?m then Some (xs ! (i - ?m)) else None)"
    using cd_MakeRoomFor_spec [OF rep k, of ?m] vs by auto
  obtain buf where buf: "length buf = cd_cap d1"
    "cd_fill vs (cd_iter_at d1 k) (cd_iter_at d1 (k + ?m)) d1 = Some (d1\<lparr>cd_buffer := buf\<rparr>)"
    "\<And>i. i < cd_cap d1 \<Longrightarrow> cd_cell (d1\<lparr>cd_buffer := buf\<rparr>) i
         = (if k \<le> i \<and> i < k + ?m then Some (vs ! (i - k)) else cd_cell d1 i)"
    using cd_fill_spec [OF d1(2), of k vs] d1(3) cd_wf_less [OF d1(2)] k by fastforce
  have "cd_rep (d1\<lparr>cd_buffer := buf\<rparr>) (take k xs @ vs @ drop k xs)"
  proof (rule cd_repI)
    show "cd_wf (d1\<lparr>cd_buffer := buf\<rparr>) (length (take k xs @ vs @ drop k xs))"
      using d1(2) buf(1) k by (simp add: add.commute)
    show "cd_cell (d1\<lparr>cd_buffer := buf\<rparr>) i = (if i < length (take k xs @ vs @ drop k xs)
        then Some ((take k xs @ vs @ drop k xs) ! i) else None)" if "i < cd_cap (d1\<lparr>cd_buffer := buf\<rparr>)" for i
      using buf(1) buf(3) [of i] d1(3) [of i] that k by (auto simp: nth_append)
  qed
  with d1(1) buf(2) show ?thesis by blast
qed

lemma cd_insert_n_spec:
  assumes rep: "cd_rep d xs" and k: "k \<le> length xs"
  shows "\<exists>d'. cd_insert_n d (cd_iter_at d k) n v = Some d' \<and> cd_rep d' (take k xs @ replicate n v @ drop k xs)"
proof (cases "k = 0")
  case True
  obtain d1 where d1: "cd_ExpandCapacityIfNecessary d n = Some d1" "cd_rep d1 xs"
    using cd_Expand_spec [OF rep] by blast
  show ?thesis
    using cd_push_front_n_spec [OF d1(2), of n v] d1(1) at_begin [OF rep k] True by (auto simp: cd_insert_n_def)
next
  case False
  have at: "cd_mk_iterator d (cd_idx d k) = cd_iter_at d k" by (simp add: cd_iter_at_def)
  have w: "cd_wf d (length xs)" using cd_rep_wf [OF rep cd_rep_nonempty [OF rep]] False k by (cases xs) auto
  show ?thesis
  proof (cases "n = 0")
    case True
    have "cd_fill [] (cd_iter_at d k) (cd_iter_at d k) d = Some d"
      using k cd_wf_less [OF w] by (subst cd_fill.simps) (simp add: it_less_at [OF w])
    then show ?thesis
      using True False at_begin [OF rep k] rep k
      by (auto simp: cd_insert_n_def cd_MakeRoomFor_def at)
  next
    case n: False
    then show ?thesis
      using cd_insert_room [OF rep k, of "replicate n v"] False at_begin [OF rep k]
      by (auto simp: cd_insert_n_def at)
  qed
qed

lemma cd_insert_range_spec:
  assumes rep: "cd_rep d xs" and k: "k \<le> length xs"
  shows "\<exists>d'. cd_insert_range d (cd_iter_at d k) vs = Some d' \<and> cd_rep d' (take k xs @ vs @ drop k xs)"
proof -
  consider "vs = []" | "vs \<noteq> []" "k \<noteq> 0" | "vs \<noteq> []" "k = 0" by blast
  then show ?thesis
  proof cases
    case 1
    then show ?thesis using rep by (simp add: cd_insert_range_def)
  next
    case 2
    then show ?thesis
      using cd_insert_room [OF rep k, of vs] at_begin [OF rep k]
      by (auto simp: cd_insert_range_def cd_iter_at_def [symmetric])
  next
    case 3
    let ?m = "length vs" and ?l = "length xs"
    obtain d1 where d1: "cd_ExpandCapacityIfNecessary d ?m = Some d1" "cd_rep d1 xs" "?l + ?m < cd_cap d1"
      using cd_Expand_spec [OF rep, of ?m] 3 by auto
    let ?c = "cd_cap d1"
    have ne: "cd_buffer d1 \<noteq> []" using d1(3) by auto
    note w1 = cd_rep_wf [OF d1(2) ne]
    have bc: "cd_begin d1 < ?c" using w1 by (rule cd_wf_begin)
    define b where "b = (cd_begin d1 + ?c - ?m) mod ?c"
    let ?d2 = "d1\<lparr>cd_begin := b\<rparr>"
    have idx: "cd_idx ?d2 i = cd_idx d1 (if i < ?m then ?c - ?m + i else i - ?m)" if "i < ?c" for i
    proof -
      have "(b + i) mod ?c = (cd_begin d1 + ?c - ?m + i) mod ?c" by (simp add: b_def mod_simps)
      also have "\<dots> = (cd_begin d1 + (if i < ?m then ?c - ?m + i else i - ?m)) mod ?c"
        using d1(3) that mod_add_self2 [of "cd_begin d1 + (i - ?m)" ?c] by (auto simp: add_ac)
      finally show ?thesis by (simp add: cd_idx_def)
    qed
    have bl: "b < ?c" unfolding b_def using bc by (intro mod_less_divisor) linarith
    have w2: "cd_wf ?d2 (?l + ?m)" using w1 d1(3) idx [of "?l + ?m"] bl by (auto simp: cd_wf_def)
    have cell: "cd_cell ?d2 i = (if ?m \<le> i \<and> i < ?l + ?m then Some (xs ! (i - ?m)) else None)" if "i < ?c" for i
      using idx [OF that] that d1(3) cd_rep_cell [OF d1(2), of "if i < ?m then ?c - ?m + i else i - ?m"]
      by (auto simp: cd_cell_def)
    obtain buf where buf: "length buf = ?c"
      "cd_fill vs (cd_iter_at ?d2 0) (cd_iter_at ?d2 ?m) ?d2 = Some (?d2\<lparr>cd_buffer := buf\<rparr>)"
      "\<And>i. i < ?c \<Longrightarrow> cd_cell (?d2\<lparr>cd_buffer := buf\<rparr>) i = (if i < ?m then Some (vs ! i) else cd_cell ?d2 i)"
      using cd_fill_spec [OF w2, of 0 vs] cell d1(3) by auto
    have r: "cd_rep (?d2\<lparr>cd_buffer := buf\<rparr>) (vs @ xs)"
    proof (rule cd_repI)
      show "cd_wf (?d2\<lparr>cd_buffer := buf\<rparr>) (length (vs @ xs))" using w2 buf(1) by (simp add: add.commute)
      show "cd_cell (?d2\<lparr>cd_buffer := buf\<rparr>) i = (if i < length (vs @ xs) then Some ((vs @ xs) ! i) else None)"
        if "i < cd_cap (?d2\<lparr>cd_buffer := buf\<rparr>)" for i
        using buf(1) buf(3) [of i] cell [of i] that by (auto simp: nth_append)
    qed
    have it: "cd_iter_begin d1 = cd_iter_at ?d2 ?m" "cd_iter_begin ?d2 = cd_iter_at ?d2 0"
      using idx [of ?m] d1(3) cd_idx_0 [OF w1] cd_idx_0 [OF w2]
      by (simp_all add: cd_iter_begin_def cd_iter_at_def cd_mk_iterator_def)
    have wrap: "cd_wrap d1 (cd_begin d1 + ?c - ?m) = Some b" using ne by (simp add: cd_wrap_def vb_capacity_def b_def)
    have "cd_insert_range d (cd_iter_at d k) vs = Some (cd_IncrementGeneration (?d2\<lparr>cd_buffer := buf\<rparr>))"
      using 3 d1(1) at_begin [OF rep k] buf(2) wrap
      by (simp add: cd_insert_range_def it(1) it(2) vb_capacity_def Let_def)
    then show ?thesis using r 3 by simp
  qed
qed

lemma cd_emplace_spec:
  assumes rep: "cd_rep d xs" and k: "k \<le> length xs"
  shows "\<exists>d'. cd_emplace d (cd_iter_at d k) v = Some (d', cd_iter_at d' k)
    \<and> cd_rep d' (take k xs @ v # drop k xs)"
proof (cases "k = 0")
  case True
  obtain d1 where d1: "cd_emplace_front d v = Some d1" "cd_rep d1 (v # xs)"
    using cd_emplace_front_spec [OF rep] by blast
  have "cd_iter_begin d1 = cd_iter_at d1 0"
    using iter_begin_at [OF cd_rep_wf [OF d1(2) cd_rep_nonempty [OF d1(2)]]] by simp
  then show ?thesis using d1 at_begin [OF rep k] True by (simp add: cd_emplace_def)
next
  case False
  let ?d = "cd_IncrementGeneration d"
  obtain d1 where d1: "cd_MakeRoomFor ?d 1 (cd_iter_at ?d k) = Some (d1, cd_iter_at d1 k, cd_iter_at d1 (k + 1))"
    "cd_wf d1 (length xs + 1)"
    "\<And>i. i < cd_cap d1 \<Longrightarrow> cd_cell d1 i = (if i < k then Some (xs ! i) else if i < k + 1 then None
         else if i < length xs + 1 then Some (xs ! (i - 1)) else None)"
    using cd_MakeRoomFor_spec [of ?d xs k 1] rep k by auto
  have kc: "k < cd_cap d1" using cd_wf_less [OF d1(2)] k by simp
  have "cd_rep (cd_put d1 k (Some v)) (take k xs @ v # drop k xs)"
  proof (rule cd_repI)
    show "cd_wf (cd_put d1 k (Some v)) (length (take k xs @ v # drop k xs))" using d1(2) k by simp
    show "cd_cell (cd_put d1 k (Some v)) i = (if i < length (take k xs @ v # drop k xs)
        then Some ((take k xs @ v # drop k xs) ! i) else None)" if "i < cd_cap (cd_put d1 k (Some v))" for i
      using d1(3) [of i] that k kc by (auto simp: cd_cell_put nth_append nth_Cons')
  qed
  moreover have "vb_construct (cd_buffer d1) (cd_idx d1 k) v = Some (cd_buffer (cd_put d1 k (Some v)))"
    using construct_at [OF d1(2)] d1(3) [OF kc] by simp
  moreover have "cd_mk_iterator ?d (cd_idx d k) = cd_iter_at ?d k" by (simp add: cd_iter_at_def)
  ultimately show ?thesis
    using False at_begin [OF rep k] d1(1) by (auto simp: cd_emplace_def)
qed

text \<open>Erasure.\<close>

lemma cd_erase_destruct:
  assumes w: "cd_wf d n" and st: "s < t" "t \<le> n"
    and live: "\<And>i. s \<le> i \<Longrightarrow> i < t \<Longrightarrow> cd_cell d i \<noteq> None"
  shows "\<exists>buf. length buf = cd_cap d
    \<and> (if cd_idx d s < cd_idx d t then vb_DestructRange (cd_buffer d) (cd_idx d s) (cd_idx d t)
       else do {
         buf \<leftarrow> vb_DestructRange (cd_buffer d) (cd_idx d s) (vb_capacity (cd_buffer d));
         vb_DestructRange buf 0 (cd_idx d t)
       }) = Some buf
    \<and> (\<forall>i < cd_cap d. cd_cell (d\<lparr>cd_buffer := buf\<rparr>) i = (if s \<le> i \<and> i < t then None else cd_cell d i))"
proof -
  have tc: "t < cd_cap d" using cd_wf_less [OF w] st by linarith
  obtain buf where buf: "length buf = cd_cap d"
    "cd_DestructRange d (cd_idx d s) (cd_idx d t) = Some (d\<lparr>cd_buffer := buf\<rparr>)"
    "\<forall>i < cd_cap d. cd_cell (d\<lparr>cd_buffer := buf\<rparr>) i = (if s \<le> i \<and> i < t then None else cd_cell d i)"
    using cd_DestructRange_spec [OF w, of s t] st live tc by auto
  have "cd_idx d s \<noteq> cd_idx d t" using st tc by simp
  then show ?thesis
    using buf by (intro exI [of _ buf])
      (auto simp: cd_DestructRange_def bind_eq_Some_conv dest!: arg_cong [where f = cd_buffer] split: if_splits)
qed

lemma cd_erase_range_spec:
  assumes rep: "cd_rep d xs" and st: "s \<le> t" "t \<le> length xs"
  shows "\<exists>d'. cd_erase_range d (cd_iter_at d s) (cd_iter_at d t) = Some (d', cd_iter_at d' s)
    \<and> cd_rep d' (take s xs @ drop t xs)"
proof (cases "s = t")
  case True
  then show ?thesis using rep by (simp add: cd_erase_range_def Let_def) (simp add: cd_iter_at_def)
next
  case False
  let ?l = "length xs" and ?g = "cd_IncrementGeneration d"
  have w: "cd_wf d ?l" using cd_rep_wf [OF rep cd_rep_nonempty [OF rep]] st False by (cases xs) auto
  have lc: "?l < cd_cap d" using w by (rule cd_wf_less)
  have stne: "cd_idx d s \<noteq> cd_idx d t" using False st lc by simp
  obtain buf where buf: "length buf = cd_cap d"
    "(if cd_idx d s < cd_idx d t then vb_DestructRange (cd_buffer d) (cd_idx d s) (cd_idx d t)
       else do {
         buf \<leftarrow> vb_DestructRange (cd_buffer d) (cd_idx d s) (vb_capacity (cd_buffer d));
         vb_DestructRange buf 0 (cd_idx d t)
       }) = Some buf"
    "\<And>i. i < cd_cap d \<Longrightarrow> cd_cell (?g\<lparr>cd_buffer := buf\<rparr>) i = (if s \<le> i \<and> i < t then None else cd_cell d i)"
    using cd_erase_destruct [OF w, of s t] st False cd_rep_cell [OF rep] lc
    by (fastforce simp: cd_cell_def cd_idx_def cd_IncrementGeneration_def)
  let ?d = "?g\<lparr>cd_buffer := buf\<rparr>"
  have wd: "cd_wf ?d ?l" using w buf(1) by simp
  have idx: "cd_idx ?d i = cd_idx d i" for i using buf(1) by simp
  have unf: "cd_erase_range d (cd_iter_at d s) (cd_iter_at d t) =
    (if cd_idx d s = cd_begin d
     then let d' = ?d\<lparr>cd_begin := cd_idx d t\<rparr> in Some (d', cd_mk_iterator d' (cd_idx d t))
     else do {
       (d', move_dest) \<leftarrow> cd_shift_down (cd_iter_at ?d t) (cd_iter_end ?d) (cd_iter_at ?d s) ?d;
       let d' = d'\<lparr>cd_end := it_index move_dest\<rparr>;
       Some (d', cd_mk_iterator d' (cd_idx d s))
     })"
  proof (cases "cd_idx d s < cd_idx d t")
    case True
    then show ?thesis
      using stne buf(2) by (simp add: cd_erase_range_def cd_iter_at_def [of ?d] idx Let_def)
  next
    case False
    then obtain b1 where "vb_DestructRange (cd_buffer d) (cd_idx d s) (vb_capacity (cd_buffer d)) = Some b1"
      "vb_DestructRange b1 0 (cd_idx d t) = Some buf"
      using buf(2) by (auto simp: bind_eq_Some_conv)
    with False show ?thesis
      using stne by (simp add: cd_erase_range_def cd_iter_at_def [of ?d] idx Let_def)
  qed
  show ?thesis
  proof (cases "s = 0")
    case True
    let ?d' = "?d\<lparr>cd_begin := cd_idx d t\<rparr>"
    have wf0: "cd_begin d < cd_cap d" using w by (rule cd_wf_begin)
    have idx': "cd_idx ?d' i = cd_idx d (if t + i < cd_cap d then t + i else t + i - cd_cap d)" if "i < cd_cap d" for i
    proof -
      have "cd_idx ?d' i = (cd_begin d + (t + i)) mod cd_cap d"
        using buf(1) by (simp add: cd_idx_def mod_simps add_ac)
      also have "\<dots> = cd_idx d (if t + i < cd_cap d then t + i else t + i - cd_cap d)"
        using mod_add_self2 [of "cd_begin d + (t + i - cd_cap d)" "cd_cap d"] by (auto simp: cd_idx_def add_ac)
      finally show ?thesis .
    qed
    have r: "cd_rep ?d' (drop t xs)"
    proof (rule cd_repI)
      show "cd_wf ?d' (length (drop t xs))"
        using wd w buf(1) st lc idx' [of "?l - t"] by (simp add: cd_wf_def)
      show "cd_cell ?d' i = (if i < length (drop t xs) then Some (drop t xs ! i) else None)" if "i < cd_cap ?d'" for i
      proof -
        let ?k = "if t + i < cd_cap d then t + i else t + i - cd_cap d"
        have "cd_cell ?d' i = cd_cell ?d ?k" using idx' [of i] that buf(1) by (simp add: cd_cell_def)
        then show ?thesis
          using buf(1) buf(3) [of ?k] that cd_rep_cell [OF rep, of ?k] st lc True by auto
      qed
    qed
    have "cd_mk_iterator ?d' (cd_idx d t) = cd_iter_at ?d' 0"
      using buf(1) wf0 by (simp add: cd_iter_at_def cd_idx_def)
    then show ?thesis using r unf True cd_idx_0 [OF w] by (simp add: Let_def)
  next
    case s0: False
    have nb: "cd_idx d s \<noteq> cd_begin d" using cd_idx_0 [OF w] cd_idx_inj [of s d 0] s0 st lc False by fastforce
    obtain buf2 where b2: "length buf2 = cd_cap d"
      "cd_shift_down (cd_iter_at ?d t) (cd_iter_end ?d) (cd_iter_at ?d s) ?d
        = Some (?d\<lparr>cd_buffer := buf2\<rparr>, cd_iter_at ?d (s + (?l - t)))"
      "\<And>i. i < cd_cap d \<Longrightarrow> cd_cell (?d\<lparr>cd_buffer := buf2\<rparr>) i
         = (if s \<le> i \<and> i < s + (?l - t) then cd_cell ?d (i + (t - s))
            else if s + (?l - t) \<le> i \<and> i < ?l then None else cd_cell ?d i)"
      using cd_shift_down_spec [OF wd, of s t] st False buf(1,3) cd_rep_cell [OF rep] lc
      by (fastforce simp: iter_end_at [OF wd])
    let ?d' = "?d\<lparr>cd_buffer := buf2, cd_end := cd_idx d (s + (?l - t))\<rparr>"
    have r: "cd_rep ?d' (take s xs @ drop t xs)"
    proof (rule cd_repI)
      show "cd_wf ?d' (length (take s xs @ drop t xs))"
        using wd b2(1) buf(1) st lc by (simp add: cd_wf_def cd_idx_def)
      show "cd_cell ?d' i = (if i < length (take s xs @ drop t xs) then Some ((take s xs @ drop t xs) ! i) else None)"
        if "i < cd_cap ?d'" for i
        using b2(1) b2(3) [of i] buf(3) [of i] buf(3) [of "i + (t - s)"] that st lc False
          cd_rep_cell [OF rep, of i] cd_rep_cell [OF rep, of "i + (t - s)"]
        by (auto simp: nth_append add.commute)
    qed
    have "cd_erase_range d (cd_iter_at d s) (cd_iter_at d t) = Some (?d', cd_mk_iterator ?d' (cd_idx d s))"
      using unf nb b2(2) idx by (simp add: Let_def)
    moreover have "cd_mk_iterator ?d' (cd_idx d s) = cd_iter_at ?d' s"
      using b2(1) by (simp add: cd_iter_at_def cd_idx_def)
    ultimately show ?thesis using r by metis
  qed
qed

lemma iter_end_rep: "cd_rep d xs \<Longrightarrow> cd_iter_end d = cd_iter_at d (length xs)"
  by (cases "cd_buffer d = []")
    (simp_all add: cd_rep_def iter_end_at, simp add: cd_iter_end_def cd_iter_at_def cd_idx_def)

lemma iter_begin_rep: "cd_rep d xs \<Longrightarrow> cd_iter_begin d = cd_iter_at d 0"
  by (cases "cd_buffer d = []")
    (simp add: cd_iter_begin_def cd_iter_at_def cd_idx_def, auto simp: cd_rep_def intro: iter_begin_at)

lemma cd_erase_spec:
  assumes rep: "cd_rep d xs" and k: "k < length xs"
  shows "\<exists>d'. cd_erase d (cd_iter_at d k) = Some (d', cd_iter_at d' k)
    \<and> cd_rep d' (take k xs @ drop (Suc k) xs)"
proof -
  have w: "cd_wf d (length xs)" using cd_rep_wf [OF rep cd_rep_nonempty [OF rep]] k by (cases xs) auto
  have kc: "k < cd_cap d" "Suc k < cd_cap d" using cd_wf_less [OF w] k by simp_all
  have "it_Add d (cd_iter_at d k) 1 = Some (cd_iter_at d (Suc k))"
    using valid_index [OF w kc(1)] offset_iter_at [OF w kc(1)] cd_rep_size [OF rep] k cd_wf_pos(2) [OF w]
    by (simp add: it_Add_def cd_wrap_def vb_capacity_def cd_iter_at_def cd_mk_iterator_def cd_idx_def
        it_CheckUnstableUsage_def nat_add_distrib add_ac Let_def)
  then show ?thesis using cd_erase_range_spec [OF rep, of k "Suc k"] k by (simp add: cd_erase_def)
qed

lemma cd_remove_if_spec:
  assumes "cd_rep d xs" "t \<le> s" "s \<le> length xs"
  shows "\<exists>d' ys. cd_remove_if p (cd_iter_at d s) (cd_iter_at d t) d
      = Some (d', cd_iter_at d' (t + length (filter (\<lambda>x. \<not> p x) (drop s xs))))
    \<and> cd_rep d' ys \<and> length ys = length xs
    \<and> take (t + length (filter (\<lambda>x. \<not> p x) (drop s xs))) ys = take t xs @ filter (\<lambda>x. \<not> p x) (drop s xs)"
  using assms
proof (induction "length xs - s" arbitrary: s t d xs)
  case 0
  then have "it_eq (cd_iter_at d s) (cd_iter_end d) = Some True"
    by (simp add: iter_end_rep it_eq_def it_CheckComparable_def)
  then show ?case using 0 by (subst cd_remove_if.simps) auto
next
  case (Suc m)
  let ?l = "length xs"
  have sl: "s < ?l" using Suc.hyps(2) by linarith
  have w: "cd_wf d ?l" using cd_rep_wf [OF Suc.prems(1) cd_rep_nonempty [OF Suc.prems(1)]] sl by (cases xs) auto
  have lc: "?l < cd_cap d" using w by (rule cd_wf_less)
  have step: "it_eq (cd_iter_at d s) (cd_iter_end d) = Some False" "it_deref d (cd_iter_at d s) = Some (xs ! s)"
    "it_Increment d (cd_iter_at d s) = Some (cd_iter_at d (Suc s))" "it_deref d (cd_iter_at d t) = Some (xs ! t)"
    using sl lc Suc.prems(2) cd_rep_cell [OF Suc.prems(1)]
    by (simp_all add: iter_end_at [OF w] it_eq_at it_deref_at [OF w] it_Increment_at [OF w])
  have drop: "drop s xs = xs ! s # drop (Suc s) xs" using sl by (simp add: Cons_nth_drop_Suc)
  show ?case
  proof (cases "p (xs ! s)")
    case True
    have "cd_remove_if p (cd_iter_at d s) (cd_iter_at d t) d = cd_remove_if p (cd_iter_at d (Suc s)) (cd_iter_at d t) d"
      using step True by (subst cd_remove_if.simps) simp
    then show ?thesis
      using Suc.hyps(1) [of xs "Suc s" d t] Suc.hyps(2) Suc.prems sl True by (simp add: drop)
  next
    case False
    let ?d = "cd_put d t (Some (xs ! s))" and ?xs = "xs[t := xs ! s]"
    have tc: "t < cd_cap d" "t < ?l" using Suc.prems(2) sl lc by simp_all
    have rep': "cd_rep ?d ?xs"
    proof (rule cd_repI)
      show "cd_wf ?d (length ?xs)" using w by simp
      show "cd_cell ?d i = (if i < length ?xs then Some (?xs ! i) else None)" if "i < cd_cap ?d" for i
        using that tc cd_rep_cell [OF Suc.prems(1), of i] by (auto simp: cd_cell_put nth_list_update)
    qed
    have "vb_assign (cd_buffer d) (cd_idx d t) (xs ! s) = Some (cd_buffer ?d)"
      using cd_rep_cell [OF Suc.prems(1) tc(1)] tc(2) cd_idx_lt [OF w]
      by (simp add: vb_assign_def cd_cell_def cd_put_def)
    moreover have "it_Increment ?d (cd_iter_at d t) = Some (cd_iter_at d (Suc t))"
      using it_Increment_at [of ?d ?l t] w tc by simp
    ultimately have "cd_remove_if p (cd_iter_at d s) (cd_iter_at d t) d
        = cd_remove_if p (cd_iter_at ?d (Suc s)) (cd_iter_at ?d (Suc t)) ?d"
      using step False by (subst cd_remove_if.simps) simp
    moreover have "drop (Suc s) ?xs = drop (Suc s) xs" "take (Suc t) ?xs = take t xs @ [xs ! s]"
      using Suc.prems(2) tc(2) by (simp_all add: take_Suc_conv_app_nth)
    ultimately show ?thesis
      using Suc.hyps(1) [of ?xs "Suc s" ?d "Suc t"] Suc.hyps(2) Suc.prems sl False rep' by (simp add: drop)
  qed
qed

lemma cd_EraseIf_spec:
  assumes rep: "cd_rep d xs"
  shows "\<exists>d'. cd_EraseIf p d = Some d' \<and> cd_rep d' (filter (\<lambda>x. \<not> p x) xs)"
proof -
  let ?n = "length (filter (\<lambda>x. \<not> p x) xs)"
  obtain d1 ys where d1: "cd_remove_if p (cd_iter_at d 0) (cd_iter_at d 0) d = Some (d1, cd_iter_at d1 ?n)"
    "cd_rep d1 ys" "length ys = length xs" "take ?n ys = filter (\<lambda>x. \<not> p x) xs"
    using cd_remove_if_spec [OF rep, of 0 0 p] by auto
  show ?thesis
    using cd_erase_range_spec [OF d1(2), of ?n "length ys"] d1 iter_begin_rep [OF rep] iter_end_rep [OF d1(2)]
    by (auto simp: cd_EraseIf_def)
qed

lemma cd_iterate_spec:
  assumes "cd_rep d xs" "s \<le> length xs"
  shows "cd_iterate (cd_iter_at d s) d = Some (drop s xs)"
  using assms
proof (induction "length xs - s" arbitrary: s)
  case 0
  then have "it_eq (cd_iter_at d s) (cd_iter_end d) = Some True"
    by (simp add: iter_end_rep it_eq_def it_CheckComparable_def)
  then show ?case using 0 by (subst cd_iterate.simps) auto
next
  case (Suc m)
  let ?l = "length xs"
  have sl: "s < ?l" using Suc.hyps(2) by linarith
  have w: "cd_wf d ?l" using cd_rep_wf [OF Suc.prems(1) cd_rep_nonempty [OF Suc.prems(1)]] sl by (cases xs) auto
  have lc: "?l < cd_cap d" using w by (rule cd_wf_less)
  show ?case
    using Suc.hyps(1) [of "Suc s"] Suc.hyps(2) Suc.prems sl lc cd_rep_cell [OF Suc.prems(1), of s]
    by (subst cd_iterate.simps)
      (simp add: iter_end_at [OF w] it_eq_at it_deref_at [OF w] it_Increment_at [OF w] Cons_nth_drop_Suc)
qed

lemma cd_new_rep [simp]: "cd_rep cd_new []"
  by (simp add: cd_new_def cd_rep_def)

lemma cd_copy_spec: "cd_rep d xs \<Longrightarrow> \<exists>d'. cd_copy d = Some d' \<and> cd_rep d' xs"
proof -
  assume rep: "cd_rep d xs"
  have "cd_rep (cd_new\<lparr>cd_buffer := vb_new (cd_size d + 1)\<rparr>) ([] :: 'a list)"
    by (intro cd_repI) (simp_all add: cd_new_def cd_wf_def cd_idx_def cd_cell_def)
  then show ?thesis
    using cd_assign_spec [of _ "[]" xs] cd_iterate_spec [OF rep, of 0]
    by (simp add: cd_copy_def iter_begin_rep [OF rep])
qed

lemma cd_assign_n_spec:
  assumes "cd_rep d xs"
  shows "\<exists>d'. cd_assign_n d n v = Some d' \<and> cd_rep d' (replicate n v)"
proof -
  obtain d1 where "cd_ClearRetainCapacity d = Some d1" "cd_rep d1 []" using cd_Clear_spec [OF assms] by blast
  moreover from this(2) obtain d2 where "cd_reserve d1 n = Some d2" "cd_rep d2 []" using cd_reserve_spec by blast
  ultimately show ?thesis
    using cd_push_back_all_spec [of d2 "[]" "replicate n v"] by (auto simp: cd_assign_n_def)
qed

lemma cd_shrink_to_fit_spec:
  assumes rep: "cd_rep d xs"
  shows "\<exists>d'. cd_shrink_to_fit d = Some d' \<and> cd_rep d' xs"
proof (cases "xs = []")
  case True
  then show ?thesis
    using rep cd_rep_nil_free [of d] cd_rep_empty [OF rep]
    by (auto simp: cd_shrink_to_fit_def vb_capacity_def cd_rep_def [of "d\<lparr>cd_buffer := []\<rparr>"] cd_empty_def)
next
  case False
  then show ?thesis
    using cd_SetCapacityTo_spec [OF rep, of "length xs"] cd_flat_rep [of xs "length xs" d]
    by (simp add: cd_shrink_to_fit_def cd_rep_empty [OF rep] cd_rep_size [OF rep])
qed

lemma cd_clear_spec:
  assumes "cd_rep d xs"
  shows "\<exists>d'. cd_clear d = Some d' \<and> cd_rep d' []"
proof -
  obtain d1 where d1: "cd_ClearRetainCapacity d = Some d1" "cd_rep d1 []" using cd_Clear_spec [OF assms] by blast
  moreover have "cd_begin d1 = cd_end d1" using cd_rep_empty [OF d1(2)] by (simp add: cd_empty_def)
  ultimately show ?thesis
    using cd_rep_nil_free [OF d1(2)] by (simp add: cd_clear_def cd_rep_def)
qed

lemma it_Add_begin:
  assumes rep: "cd_rep d xs" and k: "k \<le> length xs"
  shows "it_Add d (cd_iter_begin d) (int k) = Some (cd_iter_at d k)"
proof (cases "k = 0")
  case True
  have "cd_CheckValidIndexOrEnd d (cd_idx d 0)"
    using rep valid_index_end [of d "length xs" 0] cd_rep_wf [OF rep]
    by (cases "cd_buffer d = []") (auto simp: cd_rep_def cd_CheckValidIndexOrEnd_def cd_idx_def)
  then show ?thesis using True by (simp add: it_Add_def iter_begin_rep [OF rep])
next
  case False
  then have w: "cd_wf d (length xs)" using cd_rep_wf [OF rep cd_rep_nonempty [OF rep]] k by (cases xs) auto
  have "0 < cd_cap d" "0 < length xs" using w False k by auto
  then show ?thesis
    using valid_index [OF w, of 0] offset_iter_at [OF w, of 0] cd_rep_size [OF rep] k False
    by (simp add: it_Add_def iter_begin_at [OF w] cd_wrap_def vb_capacity_def cd_iter_at_def cd_mk_iterator_def
        it_CheckUnstableUsage_def Let_def) (simp add: cd_idx_def add.commute)
qed

lemmas cd_op_specs = cd_emplace_back_spec cd_emplace_front_spec cd_EraseIf_spec cd_resize_spec
  cd_assign_spec cd_assign_n_spec cd_clear_spec

lemma cd_step_None:
  "\<exists>d'. f = Some d' \<and> P d' \<Longrightarrow> \<exists>d'. Option.bind f (\<lambda>d. Some (d, None)) = Some (d', None) \<and> P d'"
  by auto

lemma cd_step_match:
  assumes rep: "cd_rep d xs" and st: "list_step xs op = Some (ys, out)"
  shows "\<exists>d'. cd_step d op = Some (d', out) \<and> cd_rep d' ys"
proof (cases op)
  case PopBack
  then show ?thesis using st rep cd_pop_back_spec [of d "butlast xs" "last xs"] by (auto split: if_splits)
next
  case PopFront
  then show ?thesis using st rep cd_pop_front_spec [of d "hd xs" "tl xs"] by (auto split: if_splits)
next
  case (Emplace k v)
  then have k: "k \<le> length xs" and ys: "ys = take k xs @ v # drop k xs" "out = Some v"
    using st by (auto split: if_splits)
  obtain d1 where d1: "cd_emplace d (cd_iter_at d k) v = Some (d1, cd_iter_at d1 k)" "cd_rep d1 ys"
    using cd_emplace_spec [OF rep k, of v] ys by blast
  have w: "cd_wf d1 (length ys)" using cd_rep_wf [OF d1(2) cd_rep_nonempty [OF d1(2)]] ys by simp
  have "k < length ys" using k ys by simp
  then have "it_deref d1 (cd_iter_at d1 k) = Some v"
    using cd_rep_cell [OF d1(2), of k] cd_wf_less [OF w] k ys(1) it_deref_at [OF w, of k] by (simp add: nth_append)
  then show ?thesis using Emplace d1 ys(2) it_Add_begin [OF rep k] by simp
next
  case (InsertRange k vs)
  then show ?thesis
    using st cd_insert_range_spec [OF rep, of k vs] by (auto simp: it_Add_begin [OF rep] split: if_splits)
next
  case (InsertN k n v)
  then show ?thesis
    using st cd_insert_n_spec [OF rep, of k n v] by (auto simp: it_Add_begin [OF rep] split: if_splits)
next
  case (EraseRange s t)
  then show ?thesis
    using st cd_erase_range_spec [OF rep, of s t] by (auto simp: it_Add_begin [OF rep] split: if_splits)
next
  case (EraseAt k)
  then show ?thesis
    using st cd_erase_spec [OF rep, of k] by (auto simp: it_Add_begin [OF rep] split: if_splits)
next
  case (Reserve n)
  then show ?thesis using st cd_reserve_spec [OF rep, of n] by auto
next
  case ShrinkToFit
  then show ?thesis using st cd_shrink_to_fit_spec [OF rep] by auto
qed (use st rep in
    \<open>auto intro!: cd_step_None cd_op_specs [OF rep]
      simp: cd_at_spec [OF rep] cd_front_spec [OF rep] cd_back_spec [OF rep] split: if_splits\<close>)

section \<open>Interpretations\<close>

interpretation cd: data_refinement cd_rep cd_step list_step
  by unfold_locales (rule cd_step_match)

text \<open>\<open>base::queue\<close> is \<open>std::queue\<close> over this container: \<open>push\<close>, \<open>pop\<close> and \<open>front\<close>.\<close>

interpretation cd_queue: fifo_queue cd_rep cd_emplace_back cd_pop_front cd_front
  by unfold_locales (auto simp: cd_emplace_back_spec cd_pop_front_spec cd_front_spec)

section \<open>Properties\<close>

text \<open>
  C1: circular_deque implements a sequence. Whatever calls are made on a deque that represents a
  list, as long as each respects its documented precondition, no debug check fails, no raw cell is
  read or destroyed, no live object is overwritten or leaked, and the deque ends up representing
  the list that the same calls produce, each accessor having returned the right element: through
  wrap-around, reallocation, shrinking, insertion and erasure in the middle.
\<close>

theorem circular_deque_refines_list:
  assumes "cd_rep d xs" and "run_ops list_step xs ops = Some (ys, outs)"
  shows "\<exists>d'. run_ops cd_step d ops = Some (d', outs) \<and> cd_rep d' ys \<and> cd_size d' = length ys"
  using cd.run [OF assms] cd_rep_size by blast

theorem circular_deque_refines_list_witness:
  "\<exists>d'. run_ops cd_step cd_new
      [PushBack (1::nat), PushBack 2, PushFront 0, InsertRange 2 [7, 8, 9], EraseRange 1 3, At 2, PopFront, Back]
    = Some (d', [None, None, None, None, None, Some 9, None, Some 2]) \<and> cd_rep d' [8, 9, 2] \<and> cd_size d' = length [8::nat, 9, 2]"
proof -
  have "run_ops list_step []
      [PushBack (1::nat), PushBack 2, PushFront 0, InsertRange 2 [7, 8, 9], EraseRange 1 3, At 2, PopFront, Back]
    = Some ([8, 9, 2], [None, None, None, None, None, Some 9, None, Some 2])" by simp
  from circular_deque_refines_list [OF cd_new_rep this] show ?thesis .
qed

text \<open>
  Elements leave a base::queue over circular_deque in the order they entered, starting from any
  empty deque, wherever its index range has wandered to.
\<close>

theorem circular_deque_fifo:
  assumes "cd_rep d []"
  shows "\<exists>d'. run_ops (queue_step cd_emplace_back cd_pop_front cd_front) d
      (map Enqueue vs @ replicate (length vs) Dequeue)
    = Some (d', replicate (length vs) None @ map Some vs) \<and> cd_rep d' []"
  using assms by (rule cd_queue.first_in_first_out)

theorem circular_deque_fifo_witness:
  "\<exists>d'. run_ops (queue_step cd_emplace_back cd_pop_front cd_front) cd_new
      [Enqueue (5::nat), Enqueue 6, Dequeue, Dequeue]
    = Some (d', [None, None, Some 5, Some 6]) \<and> cd_rep d' []"
proof -
  have "map Enqueue [5::nat, 6] @ replicate (length [5::nat, 6]) Dequeue = [Enqueue 5, Enqueue 6, Dequeue, Dequeue]"
    "replicate (length [5::nat, 6]) None @ map Some [5::nat, 6] = [None, None, Some 5, Some 6]" by simp_all
  with circular_deque_fifo [OF cd_new_rep, of "[5::nat, 6]"] show ?thesis by metis
qed

text \<open>
  The automatic capacity policy: growing at least reaches the requested room, and by a quarter at
  least, and shrinking never goes below the number of elements or below the initial capacity.
\<close>

theorem cd_capacity_policy:
  assumes "cd_rep d xs"
  shows "\<exists>d1 d2. cd_ExpandCapacityIfNecessary d k = Some d1 \<and> cd_rep d1 xs
      \<and> length xs + k \<le> cd_capacity d1
      \<and> (d1 = d \<or> cd_capacity d + cd_capacity d div 4 \<le> cd_capacity d1)
      \<and> cd_ShrinkCapacityIfNecessary d = Some d2 \<and> cd_rep d2 xs
      \<and> (d2 = d \<or> length xs \<le> cd_capacity d2 \<and> kCircularBufferInitialCapacity \<le> cd_capacity d2
            \<and> cd_capacity d2 < cd_capacity d \<and> 2 * length xs \<le> cd_capacity d)"
proof -
  let ?n = "max (max (length xs + k) kCircularBufferInitialCapacity) (cd_capacity d + cd_capacity d div 4)"
  let ?m = "max kCircularBufferInitialCapacity (length xs + length xs div 4)"
  have cap: "cd_capacity (cd_flat d n xs) = n" if "length xs \<le> n" for n
    using that by (simp add: cd_capacity_def vb_capacity_def)
  have nm: "length xs \<le> ?n" "length xs \<le> ?m" by auto
  note lc = cd_rep_capacity [OF assms]
  have 1: "\<exists>d1. cd_ExpandCapacityIfNecessary d k = Some d1 \<and> cd_rep d1 xs \<and> length xs + k \<le> cd_capacity d1
      \<and> (d1 = d \<or> cd_capacity d + cd_capacity d div 4 \<le> cd_capacity d1)"
    using assms cd_SetCapacityTo_spec [OF assms nm(1)] cd_flat_rep [OF nm(1), of d] cap [OF nm(1)]
    by (cases "length xs + k \<le> cd_capacity d")
      (simp_all add: cd_ExpandCapacityIfNecessary_def cd_rep_size [OF assms] Let_def)
  have 2: "\<exists>d2. cd_ShrinkCapacityIfNecessary d = Some d2 \<and> cd_rep d2 xs
      \<and> (d2 = d \<or> length xs \<le> cd_capacity d2 \<and> kCircularBufferInitialCapacity \<le> cd_capacity d2
            \<and> cd_capacity d2 < cd_capacity d \<and> 2 * length xs \<le> cd_capacity d)"
    using assms cd_SetCapacityTo_spec [OF assms nm(2)] cd_flat_rep [OF nm(2), of d] cap [OF nm(2)] lc
    by (auto simp: cd_ShrinkCapacityIfNecessary_def cd_rep_size [OF assms] Let_def)
  from 1 2 show ?thesis by blast
qed

theorem cd_capacity_policy_witness:
  "\<exists>d1 d2. cd_ExpandCapacityIfNecessary (cd_new :: nat circular_deque) 2 = Some d1 \<and> 2 \<le> cd_capacity d1
     \<and> cd_ShrinkCapacityIfNecessary (cd_new :: nat circular_deque) = Some d2"
  using cd_capacity_policy [of "cd_new :: nat circular_deque" "[]" 2] by auto

text \<open>
  The debug generation does not see every reallocation: reserve() moves the elements to a new
  buffer and resets the indices without bumping it, so an iterator to a live element taken before
  still passes the generation check and reads another element.
\<close>

theorem cd_reserve_stale_iterator:
  "do {
     (d, _) \<leftarrow> run_ops cd_step cd_new [PushBack (1::nat), PushBack 2, PushFront 3];
     it \<leftarrow> it_Add d (cd_iter_begin d) 1;
     d' \<leftarrow> cd_reserve d 20;
     Some (it_deref d it, cd_ValidateIterator d' it, it_deref d' it)
   } = Some (Some 1, True, Some 3)"
  by code_simp

end
