(* ===== verification/Geometry.thy ===== *)
theory Geometry
  imports Clamped_Math "HOL-Library.Monad_Syntax"
begin

text \<open>
  Integer geometry: \<open>Point\<close>, \<open>Vector2d\<close>, \<open>Size\<close>, \<open>Insets\<close> and \<open>Rect\<close> of
  \<open>ui/gfx/geometry\<close>. Coordinates are values of the 32-bit \<open>int\<close>. Plain \<open>+\<close> and \<open>-\<close> on
  \<open>int\<close> are undefined on overflow, so an operation that uses them returns an option and
  \<open>None\<close> is that undefined behaviour (or a failed \<open>CHECK\<close>); \<open>ClampAdd\<close> and \<open>ClampSub\<close> come
  from the theory of saturating arithmetic. Float scaling is not modelled.
\<close>

section \<open>Plain int arithmetic\<close>

abbreviation int_max :: int where "int_max \<equiv> nl_max int32"
abbreviation int_ok :: "int \<Rightarrow> bool" where "int_ok \<equiv> in_range int32"

definition c_add :: "int \<Rightarrow> int \<Rightarrow> int option" where
  "c_add a b = (if int_ok (a + b) then Some (a + b) else None)"

definition c_sub :: "int \<Rightarrow> int \<Rightarrow> int option" where
  "c_sub a b = (if int_ok (a - b) then Some (a - b) else None)"

definition c_neg :: "int \<Rightarrow> int option" where
  "c_neg a = (if int_ok (- a) then Some (- a) else None)"

section \<open>Vector2d and Point\<close>

record Vector2d =
  v2_x :: int
  v2_y :: int

definition v2_IsZero :: "Vector2d \<Rightarrow> bool" where
  "v2_IsZero v \<longleftrightarrow> v2_x v = 0 \<and> v2_y v = 0"

definition v2_Add :: "math_cfg \<Rightarrow> Vector2d \<Rightarrow> Vector2d \<Rightarrow> Vector2d" where
  "v2_Add cfg v other =
     \<lparr>v2_x = ClampAdd cfg (v2_x other) (v2_x v), v2_y = ClampAdd cfg (v2_y other) (v2_y v)\<rparr>"

definition v2_Subtract :: "math_cfg \<Rightarrow> Vector2d \<Rightarrow> Vector2d \<Rightarrow> Vector2d" where
  "v2_Subtract cfg v other =
     \<lparr>v2_x = ClampSub cfg (v2_x v) (v2_x other), v2_y = ClampSub cfg (v2_y v) (v2_y other)\<rparr>"

definition v2_SetToMin :: "Vector2d \<Rightarrow> Vector2d \<Rightarrow> Vector2d" where
  "v2_SetToMin v other =
     \<lparr>v2_x = (if v2_x v \<le> v2_x other then v2_x v else v2_x other),
      v2_y = (if v2_y v \<le> v2_y other then v2_y v else v2_y other)\<rparr>"

definition v2_SetToMax :: "Vector2d \<Rightarrow> Vector2d \<Rightarrow> Vector2d" where
  "v2_SetToMax v other =
     \<lparr>v2_x = (if v2_x v \<ge> v2_x other then v2_x v else v2_x other),
      v2_y = (if v2_y v \<ge> v2_y other then v2_y v else v2_y other)\<rparr>"

text \<open>The square is computed in \<open>int64_t\<close>, where it is undefined on overflow.\<close>

definition v2_LengthSquared :: "Vector2d \<Rightarrow> int option" where
  "v2_LengthSquared v =
     (let xx = v2_x v * v2_x v; yy = v2_y v * v2_y v in
      if in_range int64 xx \<and> in_range int64 yy \<and> in_range int64 (xx + yy) then Some (xx + yy) else None)"

definition v2_neg :: "Vector2d \<Rightarrow> Vector2d option" where
  "v2_neg v = do { x \<leftarrow> c_neg (v2_x v); y \<leftarrow> c_neg (v2_y v); Some \<lparr>v2_x = x, v2_y = y\<rparr> }"

definition v2_plus :: "math_cfg \<Rightarrow> Vector2d \<Rightarrow> Vector2d \<Rightarrow> Vector2d" where
  "v2_plus cfg lhs rhs = v2_Add cfg lhs rhs"

text \<open>The free \<open>operator-\<close> negates its right operand first.\<close>

definition v2_minus :: "math_cfg \<Rightarrow> Vector2d \<Rightarrow> Vector2d \<Rightarrow> Vector2d option" where
  "v2_minus cfg lhs rhs = do { n \<leftarrow> v2_neg rhs; Some (v2_Add cfg lhs n) }"

record Point =
  pt_x :: int
  pt_y :: int

definition pt_Offset :: "math_cfg \<Rightarrow> Point \<Rightarrow> int \<Rightarrow> int \<Rightarrow> Point" where
  "pt_Offset cfg p delta_x delta_y =
     \<lparr>pt_x = ClampAdd cfg (pt_x p) delta_x, pt_y = ClampAdd cfg (pt_y p) delta_y\<rparr>"

definition pt_plus :: "math_cfg \<Rightarrow> Point \<Rightarrow> Vector2d \<Rightarrow> Point" where
  "pt_plus cfg p v = \<lparr>pt_x = ClampAdd cfg (pt_x p) (v2_x v), pt_y = ClampAdd cfg (pt_y p) (v2_y v)\<rparr>"

definition pt_minus :: "math_cfg \<Rightarrow> Point \<Rightarrow> Vector2d \<Rightarrow> Point" where
  "pt_minus cfg p v = \<lparr>pt_x = ClampSub cfg (pt_x p) (v2_x v), pt_y = ClampSub cfg (pt_y p) (v2_y v)\<rparr>"

definition pt_diff :: "math_cfg \<Rightarrow> Point \<Rightarrow> Point \<Rightarrow> Vector2d" where
  "pt_diff cfg lhs rhs =
     \<lparr>v2_x = ClampSub cfg (pt_x lhs) (pt_x rhs), v2_y = ClampSub cfg (pt_y lhs) (pt_y rhs)\<rparr>"

definition pt_SetToMin :: "Point \<Rightarrow> Point \<Rightarrow> Point" where
  "pt_SetToMin p other =
     \<lparr>pt_x = (if pt_x p \<le> pt_x other then pt_x p else pt_x other),
      pt_y = (if pt_y p \<le> pt_y other then pt_y p else pt_y other)\<rparr>"

definition pt_SetToMax :: "Point \<Rightarrow> Point \<Rightarrow> Point" where
  "pt_SetToMax p other =
     \<lparr>pt_x = (if pt_x p \<ge> pt_x other then pt_x p else pt_x other),
      pt_y = (if pt_y p \<ge> pt_y other then pt_y p else pt_y other)\<rparr>"

text \<open>\<open>std::tie(y_, x_) < std::tie(rhs.y_, rhs.x_)\<close>.\<close>

definition pt_less :: "Point \<Rightarrow> Point \<Rightarrow> bool" where
  "pt_less p q \<longleftrightarrow> pt_y p < pt_y q \<or> (pt_y p = pt_y q \<and> pt_x p < pt_x q)"

section \<open>Size and Insets\<close>

record Size =
  sz_width :: int
  sz_height :: int

definition mk_Size :: "int \<Rightarrow> int \<Rightarrow> Size" where
  "mk_Size w h = \<lparr>sz_width = (if w < 0 then 0 else w), sz_height = (if h < 0 then 0 else h)\<rparr>"

definition sz_set_width :: "Size \<Rightarrow> int \<Rightarrow> Size" where
  "sz_set_width s w = s\<lparr>sz_width := (if w < 0 then 0 else w)\<rparr>"

definition sz_set_height :: "Size \<Rightarrow> int \<Rightarrow> Size" where
  "sz_set_height s h = s\<lparr>sz_height := (if h < 0 then 0 else h)\<rparr>"

definition sz_SetSize :: "Size \<Rightarrow> int \<Rightarrow> int \<Rightarrow> Size" where
  "sz_SetSize s w h = sz_set_height (sz_set_width s w) h"

definition sz_IsEmpty :: "Size \<Rightarrow> bool" where
  "sz_IsEmpty s \<longleftrightarrow> sz_width s = 0 \<or> sz_height s = 0"

definition sz_Enlarge :: "math_cfg \<Rightarrow> Size \<Rightarrow> int \<Rightarrow> int \<Rightarrow> Size" where
  "sz_Enlarge cfg s grow_width grow_height =
     sz_SetSize s (ClampAdd cfg (sz_width s) grow_width) (ClampAdd cfg (sz_height s) grow_height)"

definition sz_SetToMin :: "Size \<Rightarrow> Size \<Rightarrow> Size" where
  "sz_SetToMin s other =
     \<lparr>sz_width = (if sz_width s \<le> sz_width other then sz_width s else sz_width other),
      sz_height = (if sz_height s \<le> sz_height other then sz_height s else sz_height other)\<rparr>"

definition sz_SetToMax :: "Size \<Rightarrow> Size \<Rightarrow> Size" where
  "sz_SetToMax s other =
     \<lparr>sz_width = (if sz_width s \<ge> sz_width other then sz_width s else sz_width other),
      sz_height = (if sz_height s \<ge> sz_height other then sz_height s else sz_height other)\<rparr>"

text \<open>\<open>GetCheckedArea\<close> multiplies in a \<open>CheckedNumeric<int>\<close>; \<open>GetArea\<close> crashes when it is invalid.\<close>

definition sz_GetCheckedArea :: "math_cfg \<Rightarrow> Size \<Rightarrow> CheckedNumeric option" where
  "sz_GetCheckedArea cfg s =
     cn_MathOp_assign cfg OpMul int32 int32 (CheckedNumeric_of int32 int32 (sz_width s))
       (CheckedNumeric_of int32 int32 (sz_height s))"

definition sz_GetArea :: "math_cfg \<Rightarrow> Size \<Rightarrow> int option" where
  "sz_GetArea cfg s = do { c \<leftarrow> sz_GetCheckedArea cfg s; cn_ValueOrDie int32 int32 c }"

record Insets =
  in_top :: int
  in_left :: int
  in_bottom :: int
  in_right :: int

definition in_width :: "Insets \<Rightarrow> int option" where
  "in_width i = c_add (in_left i) (in_right i)"

definition in_height :: "Insets \<Rightarrow> int option" where
  "in_height i = c_add (in_top i) (in_bottom i)"

definition in_plus :: "Insets \<Rightarrow> Insets \<Rightarrow> Insets option" where
  "in_plus i j = do {
     t \<leftarrow> c_add (in_top i) (in_top j);
     l \<leftarrow> c_add (in_left i) (in_left j);
     b \<leftarrow> c_add (in_bottom i) (in_bottom j);
     r \<leftarrow> c_add (in_right i) (in_right j);
     Some \<lparr>in_top = t, in_left = l, in_bottom = b, in_right = r\<rparr>
   }"

definition in_minus :: "Insets \<Rightarrow> Insets \<Rightarrow> Insets option" where
  "in_minus i j = do {
     t \<leftarrow> c_sub (in_top i) (in_top j);
     l \<leftarrow> c_sub (in_left i) (in_left j);
     b \<leftarrow> c_sub (in_bottom i) (in_bottom j);
     r \<leftarrow> c_sub (in_right i) (in_right j);
     Some \<lparr>in_top = t, in_left = l, in_bottom = b, in_right = r\<rparr>
   }"

definition in_Offset :: "Insets \<Rightarrow> Vector2d \<Rightarrow> Insets option" where
  "in_Offset i v = do {
     t \<leftarrow> c_add (in_top i) (v2_y v);
     l \<leftarrow> c_add (in_left i) (v2_x v);
     b \<leftarrow> c_sub (in_bottom i) (v2_y v);
     r \<leftarrow> c_sub (in_right i) (v2_x v);
     Some \<lparr>in_top = t, in_left = l, in_bottom = b, in_right = r\<rparr>
   }"

section \<open>Rect\<close>

record Rect =
  r_origin :: Point
  r_size :: Size

definition AddWouldOverflow :: "int \<Rightarrow> int \<Rightarrow> bool" where
  "AddWouldOverflow a b \<longleftrightarrow>
     a > 0 \<and> b > 0 \<and> static_cast uint32 (int_max - a) < static_cast uint32 b"

definition GetClampedValue :: "int \<Rightarrow> int \<Rightarrow> int" where
  "GetClampedValue origin sz = (if AddWouldOverflow origin sz then int_max - origin else sz)"

definition mk_Rect :: "int \<Rightarrow> int \<Rightarrow> int \<Rightarrow> int \<Rightarrow> Rect" where
  "mk_Rect x y w h =
     \<lparr>r_origin = \<lparr>pt_x = x, pt_y = y\<rparr>, r_size = mk_Size (GetClampedValue x w) (GetClampedValue y h)\<rparr>"

definition r_x :: "Rect \<Rightarrow> int" where "r_x r = pt_x (r_origin r)"
definition r_y :: "Rect \<Rightarrow> int" where "r_y r = pt_y (r_origin r)"
definition r_width :: "Rect \<Rightarrow> int" where "r_width r = sz_width (r_size r)"
definition r_height :: "Rect \<Rightarrow> int" where "r_height r = sz_height (r_size r)"
definition r_right :: "Rect \<Rightarrow> int option" where "r_right r = c_add (r_x r) (r_width r)"
definition r_bottom :: "Rect \<Rightarrow> int option" where "r_bottom r = c_add (r_y r) (r_height r)"
definition r_IsEmpty :: "Rect \<Rightarrow> bool" where "r_IsEmpty r = sz_IsEmpty (r_size r)"

definition r_set_width :: "Rect \<Rightarrow> int \<Rightarrow> Rect" where
  "r_set_width r w = r\<lparr>r_size := sz_set_width (r_size r) (GetClampedValue (r_x r) w)\<rparr>"

definition r_set_height :: "Rect \<Rightarrow> int \<Rightarrow> Rect" where
  "r_set_height r h = r\<lparr>r_size := sz_set_height (r_size r) (GetClampedValue (r_y r) h)\<rparr>"

definition r_set_x :: "Rect \<Rightarrow> int \<Rightarrow> Rect" where
  "r_set_x r x =
     r\<lparr>r_origin := (r_origin r)\<lparr>pt_x := x\<rparr>,
       r_size := sz_set_width (r_size r) (GetClampedValue x (r_width r))\<rparr>"

definition r_set_y :: "Rect \<Rightarrow> int \<Rightarrow> Rect" where
  "r_set_y r y =
     r\<lparr>r_origin := (r_origin r)\<lparr>pt_y := y\<rparr>,
       r_size := sz_set_height (r_size r) (GetClampedValue y (r_height r))\<rparr>"

definition r_set_origin :: "Rect \<Rightarrow> Point \<Rightarrow> Rect" where
  "r_set_origin r p =
     (let r = r\<lparr>r_origin := p\<rparr>; r = r_set_width r (r_width r) in r_set_height r (r_height r))"

definition r_set_size :: "Rect \<Rightarrow> Size \<Rightarrow> Rect" where
  "r_set_size r s = r_set_height (r_set_width r (sz_width s)) (sz_height s)"

definition r_SetRect :: "Rect \<Rightarrow> int \<Rightarrow> int \<Rightarrow> int \<Rightarrow> int \<Rightarrow> Rect" where
  "r_SetRect r x y w h =
     r_set_height (r_set_width (r\<lparr>r_origin := \<lparr>pt_x = x, pt_y = y\<rparr>\<rparr>) w) h"

text \<open>\<open>AdjustAlongAxis\<close> returns the new origin and size.\<close>

definition AdjustAlongAxis :: "int \<Rightarrow> int \<Rightarrow> int \<Rightarrow> int \<Rightarrow> (int \<times> int) option" where
  "AdjustAlongAxis dst_origin dst_size origin sz =
     (let sz = min dst_size sz in
      if origin < dst_origin then Some (dst_origin, sz)
      else do {
        a \<leftarrow> c_add dst_origin dst_size;
        b \<leftarrow> c_add origin sz;
        o' \<leftarrow> c_sub (min a b) sz;
        Some (o', sz)
      })"

definition kMaxDimension :: int where
  "kMaxDimension = int_max div 2"

definition SaturatedClampRange :: "math_cfg \<Rightarrow> int \<Rightarrow> int \<Rightarrow> (int \<times> int) option" where
  "SaturatedClampRange cfg mn mx =
     (if mx < mn then Some (mn, 0)
      else do {
        let effective_span = ClampSub cfg mx mn;
        e \<leftarrow> c_add mn effective_span;
        let span_loss = ClampSub cfg mx e;
        if span_loss = 0 then Some (mn, effective_span)
        else if SafeUnsignedAbs int32 mx < kMaxDimension then do {
          o' \<leftarrow> c_sub mx effective_span;
          Some (o', effective_span)
        } else if SafeUnsignedAbs int32 mn < kMaxDimension then Some (mn, effective_span)
        else do {
          o' \<leftarrow> c_add mn (trunc_div span_loss 2);
          Some (o', effective_span)
        }
      })"

definition r_SetByBounds :: "math_cfg \<Rightarrow> Rect \<Rightarrow> int \<Rightarrow> int \<Rightarrow> int \<Rightarrow> int \<Rightarrow> Rect option" where
  "r_SetByBounds cfg r left tp right bottom = do {
     (x, w) \<leftarrow> SaturatedClampRange cfg left right;
     (y, h) \<leftarrow> SaturatedClampRange cfg tp bottom;
     Some (r\<lparr>r_origin := \<lparr>pt_x = x, pt_y = y\<rparr>, r_size := sz_SetSize (r_size r) w h\<rparr>)
   }"

definition r_Inset :: "math_cfg \<Rightarrow> Rect \<Rightarrow> int \<Rightarrow> int \<Rightarrow> int \<Rightarrow> int \<Rightarrow> Rect" where
  "r_Inset cfg r left tp right bottom =
     (let r = r\<lparr>r_origin := pt_plus cfg (r_origin r) \<lparr>v2_x = left, v2_y = tp\<rparr>\<rparr>;
          r = r_set_width r (ClampSub cfg (r_width r) (ClampAdd cfg left right))
      in r_set_height r (ClampSub cfg (r_height r) (ClampAdd cfg tp bottom)))"

definition r_Inset_Insets :: "math_cfg \<Rightarrow> Rect \<Rightarrow> Insets \<Rightarrow> Rect" where
  "r_Inset_Insets cfg r i = r_Inset cfg r (in_left i) (in_top i) (in_right i) (in_bottom i)"

definition r_Offset :: "math_cfg \<Rightarrow> Rect \<Rightarrow> int \<Rightarrow> int \<Rightarrow> Rect" where
  "r_Offset cfg r horizontal vertical =
     (let r = r\<lparr>r_origin := pt_plus cfg (r_origin r) \<lparr>v2_x = horizontal, v2_y = vertical\<rparr>\<rparr>;
          r = r_set_width r (r_width r)
      in r_set_height r (r_height r))"

definition r_plus_assign :: "math_cfg \<Rightarrow> Rect \<Rightarrow> Vector2d \<Rightarrow> Rect" where
  "r_plus_assign cfg r offset =
     (let r = r\<lparr>r_origin := pt_plus cfg (r_origin r) offset\<rparr>; r = r_set_width r (r_width r)
      in r_set_height r (r_height r))"

definition r_minus_assign :: "math_cfg \<Rightarrow> Rect \<Rightarrow> Vector2d \<Rightarrow> Rect" where
  "r_minus_assign cfg r offset = r\<lparr>r_origin := pt_minus cfg (r_origin r) offset\<rparr>"

definition r_InsetsFrom :: "Rect \<Rightarrow> Rect \<Rightarrow> Insets option" where
  "r_InsetsFrom r inner = do {
     t \<leftarrow> c_sub (r_y inner) (r_y r);
     l \<leftarrow> c_sub (r_x inner) (r_x r);
     rb \<leftarrow> r_bottom r; ib \<leftarrow> r_bottom inner;
     b \<leftarrow> c_sub rb ib;
     rr \<leftarrow> r_right r; ir \<leftarrow> r_right inner;
     rt \<leftarrow> c_sub rr ir;
     Some \<lparr>in_top = t, in_left = l, in_bottom = b, in_right = rt\<rparr>
   }"

definition r_less :: "Rect \<Rightarrow> Rect \<Rightarrow> bool" where
  "r_less r other =
     (if r_origin r = r_origin other
      then if r_width r = r_width other then r_height r < r_height other
           else r_width r < r_width other
      else pt_less (r_origin r) (r_origin other))"

definition r_Contains :: "Rect \<Rightarrow> int \<Rightarrow> int \<Rightarrow> bool option" where
  "r_Contains r px py = do {
     right \<leftarrow> r_right r; bottom \<leftarrow> r_bottom r;
     Some (px \<ge> r_x r \<and> px < right \<and> py \<ge> r_y r \<and> py < bottom)
   }"

definition r_ContainsRect :: "Rect \<Rightarrow> Rect \<Rightarrow> bool option" where
  "r_ContainsRect r q = do {
     right \<leftarrow> r_right r; bottom \<leftarrow> r_bottom r;
     qright \<leftarrow> r_right q; qbottom \<leftarrow> r_bottom q;
     Some (r_x q \<ge> r_x r \<and> qright \<le> right \<and> r_y q \<ge> r_y r \<and> qbottom \<le> bottom)
   }"

definition r_Intersects :: "Rect \<Rightarrow> Rect \<Rightarrow> bool option" where
  "r_Intersects r q = do {
     right \<leftarrow> r_right r; bottom \<leftarrow> r_bottom r;
     qright \<leftarrow> r_right q; qbottom \<leftarrow> r_bottom q;
     Some (\<not> (r_IsEmpty r \<or> r_IsEmpty q \<or> r_x q \<ge> right \<or> qright \<le> r_x r \<or> r_y q \<ge> bottom
              \<or> qbottom \<le> r_y r))
   }"

definition r_Intersect :: "math_cfg \<Rightarrow> Rect \<Rightarrow> Rect \<Rightarrow> Rect option" where
  "r_Intersect cfg r q =
     (if r_IsEmpty r \<or> r_IsEmpty q then Some (r_SetRect r 0 0 0 0)
      else do {
        right \<leftarrow> r_right r; qright \<leftarrow> r_right q;
        bottom \<leftarrow> r_bottom r; qbottom \<leftarrow> r_bottom q;
        let left = max (r_x r) (r_x q);
        let tp = max (r_y r) (r_y q);
        let new_right = min right qright;
        let new_bottom = min bottom qbottom;
        if left \<ge> new_right \<or> tp \<ge> new_bottom then Some (r_SetRect r 0 0 0 0)
        else r_SetByBounds cfg r left tp new_right new_bottom
      })"

definition r_Union :: "math_cfg \<Rightarrow> Rect \<Rightarrow> Rect \<Rightarrow> Rect option" where
  "r_Union cfg r q =
     (if r_IsEmpty r then Some q
      else if r_IsEmpty q then Some r
      else do {
        right \<leftarrow> r_right r; qright \<leftarrow> r_right q;
        bottom \<leftarrow> r_bottom r; qbottom \<leftarrow> r_bottom q;
        r_SetByBounds cfg r (min (r_x r) (r_x q)) (min (r_y r) (r_y q))
          (max right qright) (max bottom qbottom)
      })"

definition r_Subtract :: "math_cfg \<Rightarrow> Rect \<Rightarrow> Rect \<Rightarrow> Rect option" where
  "r_Subtract cfg r q = do {
     i \<leftarrow> r_Intersects r q;
     if \<not> i then Some r
     else do {
       c \<leftarrow> r_ContainsRect q r;
       if c then Some (r_SetRect r 0 0 0 0)
       else do {
         rr \<leftarrow> r_right r; rb \<leftarrow> r_bottom r;
         qr \<leftarrow> r_right q; qb \<leftarrow> r_bottom q;
         let (rx', ry', rr', rb') =
           (if r_y q \<le> r_y r \<and> qb \<ge> rb then
              (if r_x q \<le> r_x r then (qr, r_y r, rr, rb)
               else if qr \<ge> rr then (r_x r, r_y r, r_x q, rb)
               else (r_x r, r_y r, rr, rb))
            else if r_x q \<le> r_x r \<and> qr \<ge> rr then
              (if r_y q \<le> r_y r then (r_x r, qb, rr, rb)
               else if qb \<ge> rb then (r_x r, r_y r, rr, r_y q)
               else (r_x r, r_y r, rr, rb))
            else (r_x r, r_y r, rr, rb));
         r_SetByBounds cfg r rx' ry' rr' rb'
       }
     }
   }"

definition r_AdjustToFit :: "Rect \<Rightarrow> Rect \<Rightarrow> Rect option" where
  "r_AdjustToFit r q = do {
     (x, w) \<leftarrow> AdjustAlongAxis (r_x q) (r_width q) (r_x r) (r_width r);
     (y, h) \<leftarrow> AdjustAlongAxis (r_y q) (r_height q) (r_y r) (r_height r);
     Some (r_SetRect r x y w h)
   }"

definition r_CenterPoint :: "Rect \<Rightarrow> Point option" where
  "r_CenterPoint r = do {
     x \<leftarrow> c_add (r_x r) (trunc_div (r_width r) 2);
     y \<leftarrow> c_add (r_y r) (trunc_div (r_height r) 2);
     Some \<lparr>pt_x = x, pt_y = y\<rparr>
   }"

definition r_ClampToCenteredSize :: "Rect \<Rightarrow> Size \<Rightarrow> Rect option" where
  "r_ClampToCenteredSize r s = do {
     let new_width = min (r_width r) (sz_width s);
     let new_height = min (r_height r) (sz_height s);
     dw \<leftarrow> c_sub (r_width r) new_width;
     x \<leftarrow> c_add (r_x r) (trunc_div dw 2);
     dh \<leftarrow> c_sub (r_height r) new_height;
     y \<leftarrow> c_add (r_y r) (trunc_div dh 2);
     Some (r_SetRect r x y new_width new_height)
   }"

text \<open>\<open>l0\<close> and \<open>r0\<close> are the rectangles the output parameters pointed to.\<close>

definition r_SplitVertically :: "Rect \<Rightarrow> Rect \<Rightarrow> Rect \<Rightarrow> (Rect \<times> Rect) option" where
  "r_SplitVertically r l0 r0 = do {
     let left_half = r_SetRect l0 (r_x r) (r_y r) (trunc_div (r_width r) 2) (r_height r);
     right \<leftarrow> r_right left_half;
     w \<leftarrow> c_sub (r_width r) (r_width left_half);
     Some (left_half, r_SetRect r0 right (r_y r) w (r_height r))
   }"

definition r_SharesEdgeWith :: "Rect \<Rightarrow> Rect \<Rightarrow> bool option" where
  "r_SharesEdgeWith r q = do {
     right \<leftarrow> r_right r; bottom \<leftarrow> r_bottom r;
     qright \<leftarrow> r_right q; qbottom \<leftarrow> r_bottom q;
     Some ((r_y r = r_y q \<and> r_height r = r_height q \<and> (r_x r = qright \<or> right = r_x q))
         \<or> (r_x r = r_x q \<and> r_width r = r_width q \<and> (r_y r = qbottom \<or> bottom = r_y q)))
   }"

definition r_ManhattanDistanceToPoint :: "Rect \<Rightarrow> Point \<Rightarrow> int option" where
  "r_ManhattanDistanceToPoint r p = do {
     right \<leftarrow> r_right r; bottom \<leftarrow> r_bottom r;
     a \<leftarrow> c_sub (r_x r) (pt_x p); b \<leftarrow> c_sub (pt_x p) right;
     c \<leftarrow> c_sub (r_y r) (pt_y p); d \<leftarrow> c_sub (pt_y p) bottom;
     c_add (max 0 (max a b)) (max 0 (max c d))
   }"

definition r_ManhattanInternalDistance :: "math_cfg \<Rightarrow> Rect \<Rightarrow> Rect \<Rightarrow> int option" where
  "r_ManhattanInternalDistance cfg r q = do {
     c \<leftarrow> r_Union cfg r q;
     a \<leftarrow> c_sub (r_width c) (r_width r); a \<leftarrow> c_sub a (r_width q); a \<leftarrow> c_add a 1;
     b \<leftarrow> c_sub (r_height c) (r_height r); b \<leftarrow> c_sub b (r_height q); b \<leftarrow> c_add b 1;
     c_add (max 0 a) (max 0 b)
   }"

definition BoundingRect :: "math_cfg \<Rightarrow> Point \<Rightarrow> Point \<Rightarrow> Rect option" where
  "BoundingRect cfg p1 p2 =
     r_SetByBounds cfg (mk_Rect 0 0 0 0) (min (pt_x p1) (pt_x p2)) (min (pt_y p1) (pt_y p2))
       (max (pt_x p1) (pt_x p2)) (max (pt_y p1) (pt_y p2))"

section \<open>What a rectangle promises\<close>

text \<open>
  The class invariant: the size is not negative and \<open>right()\<close> and \<open>bottom()\<close> do not overflow.
  \<open>r_points\<close> is the set of points a rectangle covers.
\<close>

definition rect_ok :: "Rect \<Rightarrow> bool" where
  "rect_ok r \<longleftrightarrow> int_ok (r_x r) \<and> int_ok (r_y r) \<and> 0 \<le> r_width r \<and> 0 \<le> r_height r
     \<and> r_width r \<le> int_max \<and> r_height r \<le> int_max
     \<and> r_x r + r_width r \<le> int_max \<and> r_y r + r_height r \<le> int_max"

definition r_points :: "Rect \<Rightarrow> (int \<times> int) set" where
  "r_points r = {r_x r..<r_x r + r_width r} \<times> {r_y r..<r_y r + r_height r}"

definition size_ok :: "Size \<Rightarrow> bool" where
  "size_ok s \<longleftrightarrow> 0 \<le> sz_width s \<and> sz_width s \<le> int_max \<and> 0 \<le> sz_height s \<and> sz_height s \<le> int_max"

text \<open>The mutating operations, with the values their arguments may have.\<close>

datatype rect_op = SetX int | SetY int | SetWidth int | SetHeight int | SetOrigin Point
  | SetSize Size | SetRect int int int int | SetByBounds int int int int | Inset int int int int
  | Offset int int | PlusAssign Vector2d | Intersect Rect | Union Rect | Subtract Rect
  | AdjustToFit Rect | ClampToCenteredSize Size

fun rect_op_ok :: "rect_op \<Rightarrow> bool" where
  "rect_op_ok (SetX v) = int_ok v"
| "rect_op_ok (SetY v) = int_ok v"
| "rect_op_ok (SetWidth v) = int_ok v"
| "rect_op_ok (SetHeight v) = int_ok v"
| "rect_op_ok (SetOrigin p) = (int_ok (pt_x p) \<and> int_ok (pt_y p))"
| "rect_op_ok (SetSize s) = size_ok s"
| "rect_op_ok (SetRect x y w h) = (int_ok x \<and> int_ok y \<and> int_ok w \<and> int_ok h)"
| "rect_op_ok (SetByBounds l t r b) = (int_ok l \<and> int_ok t \<and> int_ok r \<and> int_ok b)"
| "rect_op_ok (Inset l t r b) = (int_ok l \<and> int_ok t \<and> int_ok r \<and> int_ok b)"
| "rect_op_ok (Offset h v) = (int_ok h \<and> int_ok v)"
| "rect_op_ok (PlusAssign v) = (int_ok (v2_x v) \<and> int_ok (v2_y v))"
| "rect_op_ok (Intersect q) = rect_ok q"
| "rect_op_ok (Union q) = rect_ok q"
| "rect_op_ok (Subtract q) = rect_ok q"
| "rect_op_ok (AdjustToFit q) = rect_ok q"
| "rect_op_ok (ClampToCenteredSize s) = size_ok s"

fun rect_step :: "math_cfg \<Rightarrow> Rect \<Rightarrow> rect_op \<Rightarrow> Rect option" where
  "rect_step cfg r (SetX v) = Some (r_set_x r v)"
| "rect_step cfg r (SetY v) = Some (r_set_y r v)"
| "rect_step cfg r (SetWidth v) = Some (r_set_width r v)"
| "rect_step cfg r (SetHeight v) = Some (r_set_height r v)"
| "rect_step cfg r (SetOrigin p) = Some (r_set_origin r p)"
| "rect_step cfg r (SetSize s) = Some (r_set_size r s)"
| "rect_step cfg r (SetRect x y w h) = Some (r_SetRect r x y w h)"
| "rect_step cfg r (SetByBounds a b c d) = r_SetByBounds cfg r a b c d"
| "rect_step cfg r (Inset a b c d) = Some (r_Inset cfg r a b c d)"
| "rect_step cfg r (Offset h v) = Some (r_Offset cfg r h v)"
| "rect_step cfg r (PlusAssign v) = Some (r_plus_assign cfg r v)"
| "rect_step cfg r (Intersect q) = r_Intersect cfg r q"
| "rect_step cfg r (Union q) = r_Union cfg r q"
| "rect_step cfg r (Subtract q) = r_Subtract cfg r q"
| "rect_step cfg r (AdjustToFit q) = r_AdjustToFit r q"
| "rect_step cfg r (ClampToCenteredSize s) = r_ClampToCenteredSize r s"

fun rect_run :: "math_cfg \<Rightarrow> Rect \<Rightarrow> rect_op list \<Rightarrow> Rect option" where
  "rect_run cfg r [] = Some r"
| "rect_run cfg r (op # ops) = do { r \<leftarrow> rect_step cfg r op; rect_run cfg r ops }"

section \<open>Saturating arithmetic as an interface\<close>

locale saturating_int =
  fixes add sub :: "int \<Rightarrow> int \<Rightarrow> int"
  assumes add_clamp: "int_ok a \<Longrightarrow> int_ok b \<Longrightarrow> add a b = clamp_to int32 (a + b)"
    and sub_clamp: "int_ok a \<Longrightarrow> int_ok b \<Longrightarrow> sub a b = clamp_to int32 (a - b)"
begin

lemma sat_range:
  "int_ok a \<Longrightarrow> int_ok b \<Longrightarrow> int_ok (add a b)" "int_ok a \<Longrightarrow> int_ok b \<Longrightarrow> int_ok (sub a b)"
  by (simp_all add: add_clamp sub_clamp clamp_to_in_range)

lemma sub_ordered:
  assumes "int_ok a" "int_ok b" "b \<le> a"
  shows "sub a b = min int_max (a - b)"
  using assms by (simp add: sub_clamp clamp_to_def) (simp add: nl_lowest_def nl_max_def in_range_def)

end

interpretation sat: saturating_int "ClampAdd cfg" "ClampSub cfg" for cfg
  by unfold_locales (simp_all add: ClampAddSub_clamps)

section \<open>Lemmas\<close>

lemma int_limits: "int_max = 2147483647" "nl_lowest int32 = - 2147483648"
  by (simp_all add: ctype_defs)

lemma int_ok_iff: "int_ok v \<longleftrightarrow> - 2147483648 \<le> v \<and> v \<le> 2147483647"
  by (simp add: ctype_defs)

lemmas c_defs = c_add_def c_sub_def

lemma GetClampedValue_eq:
  "int_ok a \<Longrightarrow> int_ok b \<Longrightarrow> GetClampedValue a b = (if a > 0 \<and> b > 0 then min b (int_max - a) else b)"
  by (auto simp: GetClampedValue_def AddWouldOverflow_def static_cast_def int_ok_iff int_limits
      take_bit_int_eq_self)

lemma rect_sel [simp]:
  "r_x (r_set_width r w) = r_x r" "r_y (r_set_width r w) = r_y r" "r_height (r_set_width r w) = r_height r"
  "r_x (r_set_height r h) = r_x r" "r_y (r_set_height r h) = r_y r" "r_width (r_set_height r h) = r_width r"
  "r_width (r_set_width r w) = max 0 (GetClampedValue (r_x r) w)"
  "r_height (r_set_height r h) = max 0 (GetClampedValue (r_y r) h)"
  "r_width (r\<lparr>r_origin := p\<rparr>) = r_width r" "r_height (r\<lparr>r_origin := p\<rparr>) = r_height r"
  "r_x (r\<lparr>r_origin := p\<rparr>) = pt_x p" "r_y (r\<lparr>r_origin := p\<rparr>) = pt_y p"
  by (simp_all add: r_set_width_def r_set_height_def r_x_def r_y_def r_width_def r_height_def
      sz_set_width_def sz_set_height_def)

lemma SetRect_sel [simp]:
  "r_x (r_SetRect r x y w h) = x" "r_y (r_SetRect r x y w h) = y"
  "r_width (r_SetRect r x y w h) = max 0 (GetClampedValue x w)"
  "r_height (r_SetRect r x y w h) = max 0 (GetClampedValue y h)"
  by (simp_all add: r_SetRect_def)

lemma rect_okI_set:
  assumes "int_ok x" "int_ok y" "int_ok w" "int_ok h"
    and "r_x r = x" "r_y r = y" "r_width r = max 0 (GetClampedValue x w)" "r_height r = max 0 (GetClampedValue y h)"
  shows "rect_ok r"
  using assms by (auto simp: rect_ok_def GetClampedValue_eq int_ok_iff int_limits)

lemma rect_ok_ints: "rect_ok r \<Longrightarrow> int_ok (r_x r) \<and> int_ok (r_y r) \<and> int_ok (r_width r) \<and> int_ok (r_height r)"
  by (auto simp: rect_ok_def int_ok_iff int_limits)

lemma SetRect_ok: "int_ok x \<Longrightarrow> int_ok y \<Longrightarrow> int_ok w \<Longrightarrow> int_ok h \<Longrightarrow> rect_ok (r_SetRect r x y w h)"
  by (rule rect_okI_set) auto

lemma right_bottom [simp]:
  "rect_ok r \<Longrightarrow> r_right r = Some (r_x r + r_width r)" "rect_ok r \<Longrightarrow> r_bottom r = Some (r_y r + r_height r)"
  by (auto simp: r_right_def r_bottom_def rect_ok_def c_add_def int_ok_iff int_limits)

text \<open>The per-axis clamping keeps the range exactly when its span fits, and stays inside it otherwise.\<close>

lemma SaturatedClampRange_spec:
  assumes "int_ok mn" "int_ok mx"
  shows "\<exists>o' s. SaturatedClampRange cfg mn mx = Some (o', s) \<and> int_ok o' \<and> 0 \<le> s \<and> s \<le> int_max
    \<and> o' + s \<le> int_max
    \<and> (mx < mn \<longrightarrow> o' = mn \<and> s = 0)
    \<and> (mn \<le> mx \<longrightarrow> s = min int_max (mx - mn) \<and> mn \<le> o' \<and> o' + s \<le> mx)"
proof (cases "mx < mn")
  case True
  then show ?thesis using assms by (auto simp: SaturatedClampRange_def int_ok_iff int_limits)
next
  case False
  define s where "s = ClampSub cfg mx mn"
  have s: "s = min int_max (mx - mn)" using sat.sub_ordered [OF assms(2,1)] False by (simp add: s_def)
  have ms: "c_add mn s = Some (mn + s)" "int_ok (mn + s)"
    using assms False by (auto simp: s c_add_def int_ok_iff int_limits)
  define l where "l = ClampSub cfg mx (mn + s)"
  have l: "l = min int_max (mx - (mn + s))"
    using sat.sub_ordered [OF assms(2) ms(2), of cfg] assms False by (simp add: l_def s)
  have half: "0 \<le> trunc_div l 2" "trunc_div l 2 \<le> l"
    using assms False by (auto simp: l s trunc_div_sgn int_ok_iff int_limits sgn_if)
  have "SaturatedClampRange cfg mn mx =
    (if l = 0 then Some (mn, s)
     else if SafeUnsignedAbs int32 mx < kMaxDimension then do { o' \<leftarrow> c_sub mx s; Some (o', s) }
     else if SafeUnsignedAbs int32 mn < kMaxDimension then Some (mn, s)
     else do { o' \<leftarrow> c_add mn (trunc_div l 2); Some (o', s) })"
    using False ms by (simp add: SaturatedClampRange_def s_def [symmetric] l_def [symmetric])
  moreover have "c_sub mx s = Some (mx - s)" if "l \<noteq> 0"
    using that assms False by (auto simp: l s c_sub_def int_ok_iff int_limits)
  moreover have "c_add mn (trunc_div l 2) = Some (mn + trunc_div l 2)"
    using half assms False by (auto simp: l s c_add_def int_ok_iff int_limits)
  moreover have "s \<le> int_max" "0 \<le> s" using s False by (auto simp: int_limits)
  ultimately show ?thesis
    using half assms False by (auto simp: l s int_ok_iff int_limits)
qed

lemma SetByBounds_spec:
  assumes "int_ok l" "int_ok t" "int_ok r" "int_ok b"
  shows "\<exists>q. r_SetByBounds cfg p l t r b = Some q \<and> rect_ok q
    \<and> (l \<le> r \<and> r - l \<le> int_max \<longrightarrow> r_x q = l \<and> r_width q = r - l)
    \<and> (t \<le> b \<and> b - t \<le> int_max \<longrightarrow> r_y q = t \<and> r_height q = b - t)"
proof -
  obtain x w where x: "SaturatedClampRange cfg l r = Some (x, w)" "int_ok x" "0 \<le> w" "w \<le> int_max"
    "x + w \<le> int_max" "l \<le> r \<longrightarrow> w = min int_max (r - l) \<and> l \<le> x \<and> x + w \<le> r"
    using SaturatedClampRange_spec [OF assms(1,3), of cfg] by blast
  obtain y h where y: "SaturatedClampRange cfg t b = Some (y, h)" "int_ok y" "0 \<le> h" "h \<le> int_max"
    "y + h \<le> int_max" "t \<le> b \<longrightarrow> h = min int_max (b - t) \<and> t \<le> y \<and> y + h \<le> b"
    using SaturatedClampRange_spec [OF assms(2,4), of cfg] by blast
  let ?q = "p\<lparr>r_origin := \<lparr>pt_x = x, pt_y = y\<rparr>, r_size := sz_SetSize (r_size p) w h\<rparr>"
  have sel: "r_x ?q = x" "r_y ?q = y" "r_width ?q = w" "r_height ?q = h"
    using x(3) y(3)
    by (simp_all add: r_x_def r_y_def r_width_def r_height_def sz_SetSize_def sz_set_width_def sz_set_height_def)
  have "r_SetByBounds cfg p l t r b = Some ?q" using x(1) y(1) by (simp add: r_SetByBounds_def)
  moreover have "rect_ok ?q" using x y unfolding rect_ok_def sel by blast
  ultimately show ?thesis using x(6) y(6) sel by auto
qed

lemma IsEmpty_iff: "r_IsEmpty r \<longleftrightarrow> r_width r = 0 \<or> r_height r = 0"
  by (simp add: r_IsEmpty_def sz_IsEmpty_def r_width_def r_height_def)

lemma edge_ok: "rect_ok r \<Longrightarrow> int_ok (r_x r + r_width r)" "rect_ok r \<Longrightarrow> int_ok (r_y r + r_height r)"
  by (auto simp: rect_ok_def int_ok_iff int_limits)

lemma zero_rect: "rect_ok (r_SetRect r 0 0 0 0)" "r_points (r_SetRect r 0 0 0 0) = {}"
  by (auto simp: r_points_def int_ok_iff GetClampedValue_eq intro!: SetRect_ok)

lemma min_max_ok: "int_ok a \<Longrightarrow> int_ok b \<Longrightarrow> int_ok (min a b)" "int_ok a \<Longrightarrow> int_ok b \<Longrightarrow> int_ok (max a b)"
  by (auto simp: min_def max_def)

lemma Intersect_spec:
  assumes "rect_ok r" "rect_ok q"
  shows "\<exists>z. r_Intersect cfg r q = Some z \<and> rect_ok z \<and> r_points z = r_points r \<inter> r_points q"
proof (cases "r_IsEmpty r \<or> r_IsEmpty q")
  case True
  then show ?thesis
    using assms zero_rect by (auto simp: r_Intersect_def IsEmpty_iff r_points_def rect_ok_def)
next
  case False
  let ?l = "max (r_x r) (r_x q)" and ?t = "max (r_y r) (r_y q)"
  let ?r = "min (r_x r + r_width r) (r_x q + r_width q)" and ?b = "min (r_y r + r_height r) (r_y q + r_height q)"
  have ok: "int_ok ?l" "int_ok ?t" "int_ok ?r" "int_ok ?b"
    using assms rect_ok_ints edge_ok by (auto intro!: min_max_ok)
  have eq: "r_Intersect cfg r q = (if ?l \<ge> ?r \<or> ?t \<ge> ?b then Some (r_SetRect r 0 0 0 0)
      else r_SetByBounds cfg r ?l ?t ?r ?b)"
    using assms False by (simp add: r_Intersect_def)
  have pts: "r_points r \<inter> r_points q = {?l..<?r} \<times> {?t..<?b}"
    by (auto simp: r_points_def)
  show ?thesis
  proof (cases "?l \<ge> ?r \<or> ?t \<ge> ?b")
    case True
    then have "r_points r \<inter> r_points q = {}" unfolding pts by auto
    then show ?thesis using True eq zero_rect by simp
  next
    case F: False
    have "?r - ?l \<le> int_max" "?b - ?t \<le> int_max" using assms by (auto simp: rect_ok_def)
    moreover obtain z where "r_SetByBounds cfg r ?l ?t ?r ?b = Some z" "rect_ok z"
      "?l \<le> ?r \<and> ?r - ?l \<le> int_max \<longrightarrow> r_x z = ?l \<and> r_width z = ?r - ?l"
      "?t \<le> ?b \<and> ?b - ?t \<le> int_max \<longrightarrow> r_y z = ?t \<and> r_height z = ?b - ?t"
      using SetByBounds_spec [OF ok, of cfg r] by blast
    moreover have "?l \<le> ?r" "?t \<le> ?b" using F by linarith+
    ultimately have "r_SetByBounds cfg r ?l ?t ?r ?b = Some z" "rect_ok z" "r_points z = {?l..<?r} \<times> {?t..<?b}"
      by (auto simp only: r_points_def add_diff_cancel_left' diff_add_cancel add.commute [of _ "_ - _"])
    then show ?thesis using F unfolding eq pts by auto
  qed
qed

lemma Union_spec:
  assumes "rect_ok r" "rect_ok q"
  shows "\<exists>z. r_Union cfg r q = Some z \<and> rect_ok z
    \<and> (\<not> r_IsEmpty r \<and> \<not> r_IsEmpty q
        \<and> max (r_x r + r_width r) (r_x q + r_width q) - min (r_x r) (r_x q) \<le> int_max
        \<and> max (r_y r + r_height r) (r_y q + r_height q) - min (r_y r) (r_y q) \<le> int_max
       \<longrightarrow> r_x z = min (r_x r) (r_x q) \<and> r_y z = min (r_y r) (r_y q)
         \<and> r_x z + r_width z = max (r_x r + r_width r) (r_x q + r_width q)
         \<and> r_y z + r_height z = max (r_y r + r_height r) (r_y q + r_height q))"
proof (cases "r_IsEmpty r \<or> r_IsEmpty q")
  case True
  then show ?thesis using assms by (auto simp: r_Union_def)
next
  case False
  let ?l = "min (r_x r) (r_x q)" and ?t = "min (r_y r) (r_y q)"
  let ?r = "max (r_x r + r_width r) (r_x q + r_width q)" and ?b = "max (r_y r + r_height r) (r_y q + r_height q)"
  have ok: "int_ok ?l" "int_ok ?t" "int_ok ?r" "int_ok ?b"
    using assms rect_ok_ints edge_ok by (auto intro!: min_max_ok)
  obtain z where "r_SetByBounds cfg r ?l ?t ?r ?b = Some z" "rect_ok z"
    "?l \<le> ?r \<and> ?r - ?l \<le> int_max \<longrightarrow> r_x z = ?l \<and> r_width z = ?r - ?l"
    "?t \<le> ?b \<and> ?b - ?t \<le> int_max \<longrightarrow> r_y z = ?t \<and> r_height z = ?b - ?t"
    using SetByBounds_spec [OF ok, of cfg r] by blast
  moreover have "?l \<le> ?r" "?t \<le> ?b" using assms by (auto simp: rect_ok_def)
  ultimately show ?thesis
    using assms False by (intro exI [of _ z]) (auto simp: r_Union_def)
qed

text \<open>A box lies in every box around a set that touches its four sides.\<close>

lemma box_least:
  fixes l t e b :: int
  assumes "\<exists>y. (l, y) \<in> D" "\<exists>y. (e - 1, y) \<in> D" "\<exists>x. (x, t) \<in> D" "\<exists>x. (x, b - 1) \<in> D" "D \<subseteq> {x1..<x2} \<times> {y1..<y2}"
  shows "{l..<e} \<times> {t..<b} \<subseteq> {x1..<x2} \<times> {y1..<y2}"
proof -
  have "x1 \<le> l" "e - 1 < x2" "y1 \<le> t" "b - 1 < y2" using assms by auto
  then show ?thesis by auto
qed

text \<open>What is left of a box when a box that meets it and does not cover it is cut away touches these four sides.\<close>

lemma difference_sides:
  fixes x y r b u v s c :: int
  defines "D \<equiv> {x..<r} \<times> {y..<b} - {u..<s} \<times> {v..<c}"
  assumes "u < r" "x < s" "v < b" "y < c" "x < r" "y < b" "\<not> (u \<le> x \<and> r \<le> s \<and> v \<le> y \<and> b \<le> c)"
  shows "\<exists>k. (if v \<le> y \<and> c \<ge> b \<and> u \<le> x then s else x, k) \<in> D"
    and "\<exists>k. ((if v \<le> y \<and> c \<ge> b \<and> \<not> u \<le> x \<and> s \<ge> r then u else r) - 1, k) \<in> D"
    and "\<exists>k. (k, if \<not> (v \<le> y \<and> c \<ge> b) \<and> u \<le> x \<and> s \<ge> r \<and> v \<le> y then c else y) \<in> D"
    and "\<exists>k. (k, (if \<not> (v \<le> y \<and> c \<ge> b) \<and> u \<le> x \<and> s \<ge> r \<and> \<not> v \<le> y \<and> c \<ge> b then v else b) - 1) \<in> D"
proof -
  define j where "j = (if y < v then y else if c < b then b - 1 else y)"
  define i where "i = (if x < u then x else if s < r then r - 1 else x)"
  show "\<exists>k. (if v \<le> y \<and> c \<ge> b \<and> u \<le> x then s else x, k) \<in> D" "\<exists>k. ((if v \<le> y \<and> c \<ge> b \<and> \<not> u \<le> x \<and> s \<ge> r then u else r) - 1, k) \<in> D"
    using assms(2-) by (auto simp: D_def j_def intro!: exI [of _ j] split: if_splits)
  show "\<exists>k. (k, if \<not> (v \<le> y \<and> c \<ge> b) \<and> u \<le> x \<and> s \<ge> r \<and> v \<le> y then c else y) \<in> D"
    "\<exists>k. (k, (if \<not> (v \<le> y \<and> c \<ge> b) \<and> u \<le> x \<and> s \<ge> r \<and> \<not> v \<le> y \<and> c \<ge> b then v else b) - 1) \<in> D"
    using assms(2-) by (auto simp: D_def i_def intro!: exI [of _ i] split: if_splits)
qed

lemma Subtract_spec:
  assumes "rect_ok r" "rect_ok q"
  shows "\<exists>z. r_Subtract cfg r q = Some z \<and> rect_ok z
    \<and> r_points r - r_points q \<subseteq> r_points z \<and> r_points z \<subseteq> r_points r
    \<and> (\<forall>x1 x2 y1 y2. r_points r - r_points q \<subseteq> {x1..<x2} \<times> {y1..<y2} \<longrightarrow> r_points z \<subseteq> {x1..<x2} \<times> {y1..<y2})"
proof -
  let ?rr = "r_x r + r_width r" and ?rb = "r_y r + r_height r"
  let ?qr = "r_x q + r_width q" and ?qb = "r_y q + r_height q"
  define hit where "hit \<longleftrightarrow> \<not> (r_IsEmpty r \<or> r_IsEmpty q \<or> r_x q \<ge> ?rr \<or> ?qr \<le> r_x r \<or> r_y q \<ge> ?rb \<or> ?qb \<le> r_y r)"
  define cov where "cov \<longleftrightarrow> r_x r \<ge> r_x q \<and> ?rr \<le> ?qr \<and> r_y r \<ge> r_y q \<and> ?rb \<le> ?qb"
  define l t e b where "l = (if r_y q \<le> r_y r \<and> ?qb \<ge> ?rb \<and> r_x q \<le> r_x r then ?qr else r_x r)"
    and "t = (if \<not> (r_y q \<le> r_y r \<and> ?qb \<ge> ?rb) \<and> r_x q \<le> r_x r \<and> ?qr \<ge> ?rr \<and> r_y q \<le> r_y r then ?qb else r_y r)"
    and "e = (if r_y q \<le> r_y r \<and> ?qb \<ge> ?rb \<and> \<not> r_x q \<le> r_x r \<and> ?qr \<ge> ?rr then r_x q else ?rr)"
    and "b = (if \<not> (r_y q \<le> r_y r \<and> ?qb \<ge> ?rb) \<and> r_x q \<le> r_x r \<and> ?qr \<ge> ?rr \<and> \<not> r_y q \<le> r_y r \<and> ?qb \<ge> ?rb then r_y q else ?rb)"
  have eq: "r_Subtract cfg r q = (if \<not> hit then Some r else if cov then Some (r_SetRect r 0 0 0 0)
      else r_SetByBounds cfg r l t e b)"
    using assms
    by (auto simp: r_Subtract_def r_Intersects_def r_ContainsRect_def hit_def cov_def l_def t_def e_def b_def)
  consider "\<not> hit" | "hit" "cov" | "hit" "\<not> cov" by blast
  then show ?thesis
  proof cases
    case 1
    have "r_points r - r_points q = r_points r" using 1 assms by (auto simp: hit_def r_points_def IsEmpty_iff rect_ok_def)
    then show ?thesis using 1 assms eq by auto
  next
    case 2
    then have "r_points r \<subseteq> r_points q" by (auto simp: cov_def r_points_def)
    then show ?thesis using 2 eq zero_rect by auto
  next
    case 3
    have ok: "int_ok l" "int_ok t" "int_ok e" "int_ok b"
      using rect_ok_ints [OF assms(1)] rect_ok_ints [OF assms(2)] edge_ok [OF assms(1)] edge_ok [OF assms(2)]
      by (auto simp: l_def t_def e_def b_def)
    have le: "l \<le> e" "t \<le> b" "r_x r \<le> l" "r_y r \<le> t" "e \<le> ?rr" "b \<le> ?rb"
      using 3 assms unfolding l_def t_def e_def b_def hit_def cov_def rect_ok_def by auto
    have fit: "e - l \<le> int_max" "b - t \<le> int_max" using le assms(1) unfolding rect_ok_def by auto
    obtain z where z: "r_SetByBounds cfg r l t e b = Some z" "rect_ok z"
      "r_x z = l" "r_width z = e - l" "r_y z = t" "r_height z = b - t"
      using SetByBounds_spec [OF ok, of cfg r] le fit by blast
    have pz: "r_points z = {l..<e} \<times> {t..<b}" using z by (simp add: r_points_def)
    moreover have "r_points r - r_points q \<subseteq> {l..<e} \<times> {t..<b}"
      using 3(1) by (auto simp: r_points_def l_def t_def e_def b_def hit_def)
    moreover have "{l..<e} \<times> {t..<b} \<subseteq> r_points r" using le by (auto simp: r_points_def)
    moreover have "r_points z \<subseteq> {x1..<x2} \<times> {y1..<y2}" if "r_points r - r_points q \<subseteq> {x1..<x2} \<times> {y1..<y2}" for x1 x2 y1 y2
      unfolding pz
    proof (rule box_least [OF _ _ _ _ that])
      have "r_x q < ?rr" "r_x r < ?qr" "r_y q < ?rb" "r_y r < ?qb" "r_x r < ?rr" "r_y r < ?rb"
        using 3(1) assms by (auto simp: hit_def IsEmpty_iff rect_ok_def)
      moreover have "\<not> (r_x q \<le> r_x r \<and> ?rr \<le> ?qr \<and> r_y q \<le> r_y r \<and> ?rb \<le> ?qb)" using 3(2) by (auto simp: cov_def)
      ultimately show "\<exists>y. (l, y) \<in> r_points r - r_points q" "\<exists>y. (e - 1, y) \<in> r_points r - r_points q"
        "\<exists>x. (x, t) \<in> r_points r - r_points q" "\<exists>x. (x, b - 1) \<in> r_points r - r_points q"
        unfolding r_points_def l_def e_def t_def b_def by (rule difference_sides)+
    qed
    ultimately show ?thesis using 3 eq z(1,2) by auto
  qed
qed

lemma AdjustAlongAxis_spec:
  assumes "int_ok d" "0 \<le> n" "d + n \<le> int_max" "int_ok p" "0 \<le> s" "p + s \<le> int_max" "n \<le> int_max" "s \<le> int_max"
  shows "\<exists>p'. AdjustAlongAxis d n p s = Some (p', min n s) \<and> d \<le> p' \<and> p' + min n s \<le> d + n"
  using assms by (auto simp: AdjustAlongAxis_def c_defs int_ok_iff int_limits min_def Let_def)

lemma AdjustToFit_spec:
  assumes "rect_ok r" "rect_ok q"
  shows "\<exists>z. r_AdjustToFit r q = Some z \<and> rect_ok z \<and> r_points z \<subseteq> r_points q
    \<and> r_width z = min (r_width q) (r_width r) \<and> r_height z = min (r_height q) (r_height r)"
proof -
  obtain x where x: "AdjustAlongAxis (r_x q) (r_width q) (r_x r) (r_width r) = Some (x, min (r_width q) (r_width r))"
    "r_x q \<le> x" "x + min (r_width q) (r_width r) \<le> r_x q + r_width q"
    using AdjustAlongAxis_spec [of "r_x q" "r_width q" "r_x r" "r_width r"] assms by (auto simp: rect_ok_def)
  obtain y where y: "AdjustAlongAxis (r_y q) (r_height q) (r_y r) (r_height r) = Some (y, min (r_height q) (r_height r))"
    "r_y q \<le> y" "y + min (r_height q) (r_height r) \<le> r_y q + r_height q"
    using AdjustAlongAxis_spec [of "r_y q" "r_height q" "r_y r" "r_height r"] assms by (auto simp: rect_ok_def)
  let ?w = "min (r_width q) (r_width r)" and ?h = "min (r_height q) (r_height r)"
  have ok: "int_ok x" "int_ok y" "int_ok ?w" "int_ok ?h" "0 \<le> ?w" "0 \<le> ?h" "x + ?w \<le> int_max" "y + ?h \<le> int_max"
    using x(2,3) y(2,3) assms by (auto simp: rect_ok_def int_ok_iff int_limits)
  then have sel: "max 0 (GetClampedValue x ?w) = ?w" "max 0 (GetClampedValue y ?h) = ?h"
    by (auto simp: GetClampedValue_eq)
  show ?thesis
    using x y ok(1-4) SetRect_ok [OF ok(1-4), of r]
    by (intro exI [of _ "r_SetRect r x y ?w ?h"]) (auto simp: r_AdjustToFit_def sel r_points_def)
qed

lemma half_bounds: "0 \<le> a \<Longrightarrow> 0 \<le> trunc_div a 2 \<and> trunc_div a 2 \<le> a"
  by (auto simp: trunc_div_sgn sgn_if)

lemma ClampToCenteredSize_spec:
  assumes "rect_ok r" "size_ok s"
  shows "\<exists>z. r_ClampToCenteredSize r s = Some z \<and> rect_ok z \<and> r_points z \<subseteq> r_points r"
proof -
  let ?w = "min (r_width r) (sz_width s)" and ?h = "min (r_height r) (sz_height s)"
  let ?x = "r_x r + trunc_div (r_width r - ?w) 2" and ?y = "r_y r + trunc_div (r_height r - ?h) 2"
  have w: "0 \<le> ?w" "?w \<le> r_width r" "0 \<le> ?h" "?h \<le> r_height r" using assms by (auto simp: rect_ok_def size_ok_def)
  then have hw: "0 \<le> trunc_div (r_width r - ?w) 2" "trunc_div (r_width r - ?w) 2 \<le> r_width r - ?w"
    "0 \<le> trunc_div (r_height r - ?h) 2" "trunc_div (r_height r - ?h) 2 \<le> r_height r - ?h"
    using half_bounds by force+
  have ok: "int_ok ?x" "int_ok ?y" "int_ok ?w" "int_ok ?h" "int_ok (r_width r - ?w)" "int_ok (r_height r - ?h)"
    and fit: "?x + ?w \<le> int_max" "?y + ?h \<le> int_max"
    using w hw assms(1) unfolding rect_ok_def int_ok_iff int_limits by linarith+
  have sel: "max 0 (GetClampedValue ?x ?w) = ?w" "max 0 (GetClampedValue ?y ?h) = ?h"
    using ok fit w by (auto simp: GetClampedValue_eq)
  have "r_ClampToCenteredSize r s = Some (r_SetRect r ?x ?y ?w ?h)"
    using ok by (simp add: r_ClampToCenteredSize_def c_defs Let_def)
  moreover have "r_points (r_SetRect r ?x ?y ?w ?h) \<subseteq> r_points r"
    unfolding r_points_def SetRect_sel sel using w hw by auto
  ultimately show ?thesis using SetRect_ok [OF ok(1-4)] by auto
qed

lemma rect_step_ok:
  assumes "rect_ok r" "rect_op_ok op"
  shows "\<exists>z. rect_step cfg r op = Some z \<and> rect_ok z"
proof -
  note ints = rect_ok_ints [OF assms(1)]
  show ?thesis
  proof (cases op)
    case (SetX v)
    then show ?thesis
      using assms ints by (auto intro!: rect_okI_set [of v "r_y r" "r_width r" "r_height r"]
          simp: r_set_x_def r_x_def r_y_def r_width_def r_height_def sz_set_width_def GetClampedValue_eq rect_ok_def int_ok_iff int_limits)
  next
    case (SetY v)
    then show ?thesis
      using assms ints by (auto intro!: rect_okI_set [of "r_x r" v "r_width r" "r_height r"]
          simp: r_set_y_def r_x_def r_y_def r_width_def r_height_def sz_set_height_def GetClampedValue_eq rect_ok_def int_ok_iff int_limits)
  next
    case (SetWidth v)
    then show ?thesis
      using assms ints by (auto intro!: rect_okI_set [of "r_x r" "r_y r" v "r_height r"]
          simp: GetClampedValue_eq rect_ok_def int_ok_iff int_limits)
  next
    case (SetHeight v)
    then show ?thesis
      using assms ints by (auto intro!: rect_okI_set [of "r_x r" "r_y r" "r_width r" v]
          simp: GetClampedValue_eq rect_ok_def int_ok_iff int_limits)
  next
    case (SetOrigin p)
    then show ?thesis
      using assms ints by (auto intro!: rect_okI_set [of "pt_x p" "pt_y p" "r_width r" "r_height r"]
          simp: r_set_origin_def Let_def)
  next
    case (SetSize s)
    then show ?thesis
      using assms ints by (auto intro!: rect_okI_set [of "r_x r" "r_y r" "sz_width s" "sz_height s"]
          simp: r_set_size_def size_ok_def int_ok_iff int_limits)
  next
    case (Inset a b c d)
    then show ?thesis
      using assms ints
      by (auto intro!: rect_okI_set [of "ClampAdd cfg (r_x r) a" "ClampAdd cfg (r_y r) b"
            "ClampSub cfg (r_width r) (ClampAdd cfg a c)" "ClampSub cfg (r_height r) (ClampAdd cfg b d)"]
          simp: r_Inset_def pt_plus_def sat.sat_range Let_def) (simp_all add: r_x_def r_y_def)
  next
    case (Offset h v)
    then show ?thesis
      using assms ints
      by (auto intro!: rect_okI_set [of "ClampAdd cfg (r_x r) h" "ClampAdd cfg (r_y r) v" "r_width r" "r_height r"]
          simp: r_Offset_def pt_plus_def sat.sat_range Let_def) (simp_all add: r_x_def r_y_def)
  next
    case (PlusAssign v)
    then show ?thesis
      using assms ints
      by (auto intro!: rect_okI_set [of "ClampAdd cfg (r_x r) (v2_x v)" "ClampAdd cfg (r_y r) (v2_y v)" "r_width r" "r_height r"]
          simp: r_plus_assign_def pt_plus_def sat.sat_range Let_def) (simp_all add: r_x_def r_y_def)
  next
    case (SetByBounds l t e b)
    then show ?thesis using assms SetByBounds_spec [of l t e b cfg r] by auto
  next
    case (Intersect q)
    then show ?thesis using assms Intersect_spec [of r q cfg] by auto
  next
    case (Union q)
    then show ?thesis using assms Union_spec [of r q cfg] by auto
  next
    case (Subtract q)
    then show ?thesis using assms Subtract_spec [of r q cfg] by auto
  next
    case (AdjustToFit q)
    then show ?thesis using assms AdjustToFit_spec [of r q] by auto
  next
    case (ClampToCenteredSize s)
    then show ?thesis using assms ClampToCenteredSize_spec [of r s] by auto
  qed (use assms SetRect_ok in auto)
qed

section \<open>Properties\<close>

text \<open>
  C33: The class invariant of Rect: whatever mutating operations are applied to a valid rectangle,
  with any int arguments and valid rectangles, none of them overflows and the result is valid again:
  its size is not negative and right() and bottom() can be computed.
\<close>

theorem rect_invariant:
  assumes "rect_ok r" and "list_all rect_op_ok ops"
  shows "\<exists>z. rect_run cfg r ops = Some z \<and> rect_ok z"
  using assms
proof (induction ops arbitrary: r)
  case (Cons op ops)
  then obtain q where "rect_step cfg r op = Some q" "rect_ok q" using rect_step_ok [of r op cfg] by auto
  with Cons show ?case by simp
qed simp

theorem rect_invariant_witness:
  "\<exists>z. rect_run \<lparr>backend = Gcc, ptr_bits = 64\<rparr> (mk_Rect 0 0 10 10)
     [Offset 2147483647 5, Inset (-2147483648) 0 7 7, Union (mk_Rect 1 2 3 4), SetWidth 2147483647] = Some z
   \<and> rect_ok z"
proof -
  have "rect_ok (mk_Rect 0 0 10 10)" "rect_ok (mk_Rect 1 2 3 4)"
    by (simp_all add: rect_ok_def mk_Rect_def mk_Size_def r_x_def r_y_def r_width_def r_height_def
        GetClampedValue_eq int_ok_iff int_limits)
  then show ?thesis
    by (intro rect_invariant) (simp_all add: int_ok_iff)
qed

text \<open>
  C34: Intersect is set intersection: on valid rectangles it never overflows, and a point is in the
  result exactly when it is in both.
\<close>

theorem rect_intersect_exact:
  assumes "rect_ok r" "rect_ok q"
  shows "\<exists>z. r_Intersect cfg r q = Some z
    \<and> r_Contains z px py = Some ((px, py) \<in> r_points r \<and> (px, py) \<in> r_points q)"
proof -
  obtain z where z: "r_Intersect cfg r q = Some z" "rect_ok z" "r_points z = r_points r \<inter> r_points q"
    using Intersect_spec [OF assms] by blast
  moreover have "r_Contains z px py = Some ((px, py) \<in> r_points z)"
    using z(2) by (auto simp: r_Contains_def r_points_def)
  ultimately show ?thesis by auto
qed

theorem rect_intersect_exact_witness:
  "\<exists>z. r_Intersect \<lparr>backend = Gcc, ptr_bits = 64\<rparr> (mk_Rect 0 0 10 10) (mk_Rect 5 5 10 10) = Some z
    \<and> r_Contains z 7 9 = Some True"
proof -
  have "rect_ok (mk_Rect 0 0 10 10)" "rect_ok (mk_Rect 5 5 10 10)"
    "(7, 9) \<in> r_points (mk_Rect 0 0 10 10)" "(7, 9) \<in> r_points (mk_Rect 5 5 10 10)"
    by (simp_all add: rect_ok_def mk_Rect_def mk_Size_def r_x_def r_y_def r_width_def r_height_def
        GetClampedValue_eq int_ok_iff int_limits r_points_def)
  then show ?thesis
    using rect_intersect_exact [of "mk_Rect 0 0 10 10" "mk_Rect 5 5 10 10" "\<lparr>backend = Gcc, ptr_bits = 64\<rparr>" 7 9]
    by simp
qed

text \<open>
  C35: Union of two valid non-empty rectangles is the least rectangle around both, whenever that one
  has sides an int can hold.
\<close>

theorem rect_union_bounding_box:
  assumes "rect_ok r" "rect_ok q" "\<not> r_IsEmpty r" "\<not> r_IsEmpty q"
    and "max (r_x r + r_width r) (r_x q + r_width q) - min (r_x r) (r_x q) \<le> int_max"
    and "max (r_y r + r_height r) (r_y q + r_height q) - min (r_y r) (r_y q) \<le> int_max"
  shows "\<exists>z. r_Union cfg r q = Some z \<and> r_ContainsRect z r = Some True \<and> r_ContainsRect z q = Some True
    \<and> (\<forall>b. rect_ok b \<longrightarrow> r_ContainsRect b r = Some True \<longrightarrow> r_ContainsRect b q = Some True
         \<longrightarrow> r_ContainsRect b z = Some True)"
proof -
  obtain z where "r_Union cfg r q = Some z" "rect_ok z"
    "r_x z = min (r_x r) (r_x q)" "r_y z = min (r_y r) (r_y q)"
    "r_x z + r_width z = max (r_x r + r_width r) (r_x q + r_width q)"
    "r_y z + r_height z = max (r_y r + r_height r) (r_y q + r_height q)"
    using Union_spec [OF assms(1,2), of cfg] assms(3-6) by blast
  then show ?thesis
    using assms(1,2) by (intro exI [of _ z]) (auto simp: r_ContainsRect_def)
qed

theorem rect_union_bounding_box_witness:
  "\<exists>z. r_Union \<lparr>backend = Gcc, ptr_bits = 64\<rparr> (mk_Rect 0 0 10 10) (mk_Rect 5 5 10 10) = Some z
    \<and> r_ContainsRect z (mk_Rect 0 0 10 10) = Some True"
proof -
  have "rect_ok (mk_Rect 0 0 10 10)" "rect_ok (mk_Rect 5 5 10 10)"
    "\<not> r_IsEmpty (mk_Rect 0 0 10 10)" "\<not> r_IsEmpty (mk_Rect 5 5 10 10)"
    "max (r_x (mk_Rect 0 0 10 10) + r_width (mk_Rect 0 0 10 10)) (r_x (mk_Rect 5 5 10 10) + r_width (mk_Rect 5 5 10 10))
      - min (r_x (mk_Rect 0 0 10 10)) (r_x (mk_Rect 5 5 10 10)) \<le> int_max"
    "max (r_y (mk_Rect 0 0 10 10) + r_height (mk_Rect 0 0 10 10)) (r_y (mk_Rect 5 5 10 10) + r_height (mk_Rect 5 5 10 10))
      - min (r_y (mk_Rect 0 0 10 10)) (r_y (mk_Rect 5 5 10 10)) \<le> int_max"
    by (simp_all add: rect_ok_def mk_Rect_def mk_Size_def r_x_def r_y_def r_width_def r_height_def
        GetClampedValue_eq int_ok_iff int_limits IsEmpty_iff)
  from rect_union_bounding_box [OF this, of "\<lparr>backend = Gcc, ptr_bits = 64\<rparr>"] show ?thesis by blast
qed

text \<open>
  C36: Subtract gives the bounding rectangle of the difference: the result contains every point of the
  first rectangle that is not in the second, lies in the first, and lies in every box that contains
  the difference.
\<close>

theorem rect_subtract_bounding_box:
  assumes "rect_ok r" "rect_ok q"
  shows "\<exists>z. r_Subtract cfg r q = Some z \<and> rect_ok z
    \<and> r_points r - r_points q \<subseteq> r_points z \<and> r_points z \<subseteq> r_points r
    \<and> (\<forall>x1 x2 y1 y2. r_points r - r_points q \<subseteq> {x1..<x2} \<times> {y1..<y2} \<longrightarrow> r_points z \<subseteq> {x1..<x2} \<times> {y1..<y2})"
  using Subtract_spec [OF assms] .

theorem rect_subtract_bounding_box_witness:
  "\<exists>z. r_Subtract \<lparr>backend = Gcc, ptr_bits = 64\<rparr> (mk_Rect 0 0 10 10) (mk_Rect 0 0 4 10) = Some z \<and> r_points z = {4..<10} \<times> {0..<10}"
proof -
  have p: "r_points (mk_Rect 0 0 10 10) - r_points (mk_Rect 0 0 4 10) = {4..<10} \<times> {0..<10}"
    by (auto simp: mk_Rect_def mk_Size_def r_x_def r_y_def r_width_def r_height_def GetClampedValue_eq int_ok_iff int_limits r_points_def)
  have "rect_ok (mk_Rect 0 0 10 10)" "rect_ok (mk_Rect 0 0 4 10)"
    by (simp_all add: rect_ok_def mk_Rect_def mk_Size_def r_x_def r_y_def r_width_def r_height_def GetClampedValue_eq int_ok_iff int_limits)
  from rect_subtract_bounding_box [OF this, of "\<lparr>backend = Gcc, ptr_bits = 64\<rparr>", unfolded p] show ?thesis by (meson order_antisym order_refl)
qed

text \<open>
  SplitVertically cuts a valid rectangle into two valid halves that share no point and together
  cover it, whatever the output rectangles held before.
\<close>

theorem rect_split_partition:
  assumes "rect_ok r"
  shows "\<exists>a b. r_SplitVertically r l0 r0 = Some (a, b) \<and> rect_ok a \<and> rect_ok b
    \<and> r_points a \<union> r_points b = r_points r \<and> r_points a \<inter> r_points b = {}"
proof -
  let ?h = "trunc_div (r_width r) 2"
  have h: "0 \<le> ?h" "?h \<le> r_width r" using half_bounds [of "r_width r"] assms by (auto simp: rect_ok_def)
  note ints = rect_ok_ints [OF assms]
  have ok: "int_ok ?h" "int_ok (r_x r + ?h)" "int_ok (r_width r - ?h)"
    and fit: "r_x r + ?h \<le> int_max" "r_x r + r_width r \<le> int_max" "r_y r + r_height r \<le> int_max" "0 \<le> r_height r"
    using h assms unfolding rect_ok_def int_ok_iff int_limits by linarith+
  have sel: "max 0 (GetClampedValue (r_x r) ?h) = ?h" "max 0 (GetClampedValue (r_y r) (r_height r)) = r_height r"
    "max 0 (GetClampedValue (r_x r + ?h) (r_width r - ?h)) = r_width r - ?h"
    using ok fit ints h by (auto simp: GetClampedValue_eq)
  let ?a = "r_SetRect l0 (r_x r) (r_y r) ?h (r_height r)"
  let ?b = "r_SetRect r0 (r_x r + ?h) (r_y r) (r_width r - ?h) (r_height r)"
  have oks: "rect_ok ?a" "rect_ok ?b" using ints ok by (auto intro!: SetRect_ok)
  have "r_SplitVertically r l0 r0 = Some (?a, ?b)"
    using oks(1) ok by (simp add: r_SplitVertically_def sel c_defs Let_def)
  moreover have "r_points ?a \<union> r_points ?b = r_points r" "r_points ?a \<inter> r_points ?b = {}"
    unfolding r_points_def SetRect_sel sel using h by auto
  ultimately show ?thesis using oks by blast
qed

theorem rect_split_partition_witness:
  "\<exists>a b. r_SplitVertically (mk_Rect 3 4 7 5) (mk_Rect 0 0 0 0) (mk_Rect 0 0 0 0) = Some (a, b)
    \<and> r_points a \<union> r_points b = r_points (mk_Rect 3 4 7 5)"
proof -
  have "rect_ok (mk_Rect 3 4 7 5)"
    by (simp add: rect_ok_def mk_Rect_def mk_Size_def r_x_def r_y_def r_width_def r_height_def
        GetClampedValue_eq int_ok_iff int_limits)
  from rect_split_partition [OF this] show ?thesis by blast
qed

text \<open>
  operator-= moves the origin without clamping the size again, unlike operator+=: subtracting a
  negative offset from a valid rectangle can leave one whose right() overflows.
\<close>

theorem rect_minus_assign_breaks_invariant:
  "rect_ok (mk_Rect 2147483000 0 600 10)
   \<and> r_right (r_minus_assign cfg (mk_Rect 2147483000 0 600 10) \<lparr>v2_x = -100, v2_y = 0\<rparr>) = None
   \<and> r_right (r_plus_assign cfg (mk_Rect 2147483000 0 600 10) \<lparr>v2_x = 100, v2_y = 0\<rparr>) = Some 2147483647"
proof -
  have c: "ClampSub cfg 2147483000 (-100) = 2147483100" "ClampAdd cfg 2147483000 100 = 2147483100"
    "ClampSub cfg 0 0 = 0" "ClampAdd cfg 0 0 = 0"
    by (simp_all add: ClampAddSub_clamps int_ok_iff clamp_to_def int_limits)
  show ?thesis
    by (simp add: rect_ok_def mk_Rect_def mk_Size_def r_x_def r_y_def r_width_def r_height_def r_right_def
        r_minus_assign_def r_plus_assign_def pt_minus_def pt_plus_def c c_add_def Let_def
        r_set_width_def r_set_height_def sz_set_width_def sz_set_height_def GetClampedValue_eq int_ok_iff int_limits)
qed

text \<open>
  GetArea returns the exact area of a valid size and crashes exactly when it exceeds the greatest
  int, on every backend of the checked arithmetic.
\<close>

theorem size_area_exact:
  assumes "size_ok s"
  shows "sz_GetArea cfg s = (if sz_width s * sz_height s \<le> int_max then Some (sz_width s * sz_height s) else None)"
proof -
  have w: "int_ok (sz_width s)" "int_ok (sz_height s)" using assms by (auto simp: size_ok_def int_ok_iff int_limits)
  have "BigEnough_is_contained int32 int32" "MaxExponentPromotion int32 int32 = int32"
    using BigEnoughPromotion_same_sign [of int32 int32] by (simp_all add: MaxExponentPromotion_def)
  then have "exact_result int32 (CheckedMulOp cfg int32 int32 int32 (sz_width s) (sz_height s) 0) True (sz_width s * sz_height s)"
    using exact_AddSubMul(3) [of int32 int32 "sz_width s" "sz_height s" cfg 0] w by simp
  moreover have "in_range int32 (sz_width s * sz_height s) \<longleftrightarrow> sz_width s * sz_height s \<le> int_max"
    using assms by (auto simp: size_ok_def in_range_def intro: order_trans [OF nl_lowest_le_0])
  ultimately show ?thesis
    using w by (auto simp: sz_GetArea_def sz_GetCheckedArea_def cn_MathOp_assign_def CheckedNumeric_of_def cn_IsValid_def
        cn_ValueOrDie_def exact_result_def split: prod.splits)
qed

theorem size_area_exact_witness:
  "sz_GetArea \<lparr>backend = Clang, ptr_bits = 64\<rparr> \<lparr>sz_width = 50000, sz_height = 50000\<rparr> = None"
  using size_area_exact [of "\<lparr>sz_width = 50000, sz_height = 50000\<rparr>" "\<lparr>backend = Clang, ptr_bits = 64\<rparr>"]
  by (simp add: size_ok_def int_limits)

text \<open>
  Rect::operator< is a strict total order on rectangles, by origin first and then by width before
  height.
\<close>

theorem rect_less_strict_order:
  "\<not> r_less a a \<and> (r_less a b \<and> r_less b c \<longrightarrow> r_less a c)
   \<and> (r_less a b \<or> a = b \<or> r_less b a)
   \<and> r_less (mk_Rect 0 0 1 9) (mk_Rect 0 0 2 3)"
proof -
  have "a = b" if "r_origin a = r_origin b" "r_width a = r_width b" "r_height a = r_height b"
    using that by (cases a; cases b; cases "r_size a"; cases "r_size b") (simp add: r_width_def r_height_def)
  moreover have "r_origin a = r_origin b" if "pt_x (r_origin a) = pt_x (r_origin b)" "pt_y (r_origin a) = pt_y (r_origin b)"
    using that by (cases "r_origin a"; cases "r_origin b") simp
  moreover have "r_less (mk_Rect 0 0 1 9) (mk_Rect 0 0 2 3)"
    by (simp add: r_less_def mk_Rect_def mk_Size_def r_width_def r_height_def GetClampedValue_eq int_ok_iff)
  ultimately show ?thesis
    unfolding r_less_def pt_less_def by (smt (verit))
qed

theorem rect_less_strict_order_witness:
  "\<not> r_less (mk_Rect 0 0 1 9) (mk_Rect 0 0 1 9) \<and> r_less (mk_Rect 0 0 1 9) (mk_Rect 0 0 2 3)"
  using rect_less_strict_order [of "mk_Rect 0 0 1 9"] by simp

end
