(* ===== verification/Flat_Tree.thy ===== *)
theory Flat_Tree
  imports Refinement Geometry
begin

text \<open>
  Sorted-vector containers: \<open>base/containers/flat_tree.h\<close>, \<open>flat_map.h\<close> and \<open>flat_set.h\<close>.
  The body is a list, an iterator an index into it; the key comparator \<open>lt\<close> (\<open>KeyCompare\<close>) and
  the key extractor \<open>ky\<close> (\<open>GetKeyFromValue\<close>) are arguments, the comparator being any strict
  weak order. The standard algorithms the code calls are written out first.
\<close>

section \<open>Standard algorithms\<close>

text \<open>
  The binary search behind \<open>std::lower_bound\<close> and \<open>std::upper_bound\<close>: the first position in
  \<open>[first, first + len)\<close> whose element fails \<open>p\<close>.
\<close>

function partition_loop :: "('v \<Rightarrow> bool) \<Rightarrow> 'v list \<Rightarrow> nat \<Rightarrow> nat \<Rightarrow> nat" where
  "partition_loop p xs first len =
     (if len = 0 then first
      else let half = len div 2; mid = first + half in
        if p (xs ! mid) then partition_loop p xs (mid + 1) (len - half - 1)
        else partition_loop p xs first half)"
  by auto
termination by (relation "measure (\<lambda>(_, _, _, len). len)") auto

declare partition_loop.simps [simp del]

fun stable_insert :: "('v \<Rightarrow> 'v \<Rightarrow> bool) \<Rightarrow> 'v \<Rightarrow> 'v list \<Rightarrow> 'v list" where
  "stable_insert cmp x [] = [x]"
| "stable_insert cmp x (y # ys) = (if cmp y x then y # stable_insert cmp x ys else x # y # ys)"

definition stable_sort :: "('v \<Rightarrow> 'v \<Rightarrow> bool) \<Rightarrow> 'v list \<Rightarrow> 'v list" where
  "stable_sort cmp xs = foldr (stable_insert cmp) xs []"

text \<open>\<open>std::unique\<close>: the elements kept in front, the first of each run of equal ones.\<close>

fun std_unique :: "('v \<Rightarrow> 'v \<Rightarrow> bool) \<Rightarrow> 'v list \<Rightarrow> 'v list" where
  "std_unique eq [] = []"
| "std_unique eq [x] = [x]"
| "std_unique eq (x # y # ys) = (if eq x y then std_unique eq (x # ys) else x # std_unique eq (y # ys))"

text \<open>\<open>std::adjacent_find\<close> from \<open>i\<close>: the first position equal to its successor, else the end.\<close>

function adjacent_find :: "('v \<Rightarrow> 'v \<Rightarrow> bool) \<Rightarrow> 'v list \<Rightarrow> nat \<Rightarrow> nat" where
  "adjacent_find eq xs i =
     (if length xs \<le> i + 1 then length xs
      else if eq (xs ! i) (xs ! (i + 1)) then i
      else adjacent_find eq xs (i + 1))"
  by auto
termination by (relation "measure (\<lambda>(_, xs, i). length xs - i)") auto

declare adjacent_find.simps [simp del]

text \<open>\<open>std::inplace_merge\<close> of two sorted ranges, the first range winning ties.\<close>

fun std_merge :: "('v \<Rightarrow> 'v \<Rightarrow> bool) \<Rightarrow> 'v list \<Rightarrow> 'v list \<Rightarrow> 'v list" where
  "std_merge cmp [] ys = ys"
| "std_merge cmp xs [] = xs"
| "std_merge cmp (x # xs) (y # ys) =
     (if cmp y x then y # std_merge cmp (x # xs) ys else x # std_merge cmp xs (y # ys))"

section \<open>LastUnique\<close>

datatype FlatContainerDupes = KEEP_FIRST_OF_DUPES | KEEP_LAST_OF_DUPES

text \<open>The loop: \<open>next\<close> is one past \<open>first\<close>; the state is the vector, \<open>first\<close> and \<open>replacable\<close>.\<close>

function LastUnique_loop ::
  "('v \<Rightarrow> 'v \<Rightarrow> bool) \<Rightarrow> 'v list \<Rightarrow> nat \<Rightarrow> nat \<Rightarrow> 'v list \<times> nat \<times> nat" where
  "LastUnique_loop eq xs first replacable =
     (if length xs \<le> first + 1 then (xs, first, replacable)
      else if \<not> eq (xs ! first) (xs ! (first + 1))
      then LastUnique_loop eq (xs[replacable := xs ! first]) (first + 1) (replacable + 1)
      else LastUnique_loop eq xs (first + 1) replacable)"
  by auto
termination by (relation "measure (\<lambda>(_, xs, first, _). length xs - first)") auto

declare LastUnique_loop.simps [simp del]

text \<open>The result is the vector with the kept elements in front and the new logical end.\<close>

definition LastUnique :: "('v \<Rightarrow> 'v \<Rightarrow> bool) \<Rightarrow> 'v list \<Rightarrow> 'v list \<times> nat" where
  "LastUnique eq xs =
     (let replacable = adjacent_find eq xs 0 in
      if replacable = length xs then (xs, length xs)
      else let first = replacable + 1 in
        if first = length xs then (xs, replacable)
        else
          let (xs, first, replacable) = LastUnique_loop eq xs first replacable
          in (xs[replacable := xs ! first], replacable + 1))"

section \<open>Lookup\<close>

definition ft_lower_bound :: "('k \<Rightarrow> 'k \<Rightarrow> bool) \<Rightarrow> ('v \<Rightarrow> 'k) \<Rightarrow> 'v list \<Rightarrow> 'k \<Rightarrow> nat" where
  "ft_lower_bound lt ky body k = partition_loop (\<lambda>x. lt (ky x) k) body 0 (length body)"

definition ft_upper_bound :: "('k \<Rightarrow> 'k \<Rightarrow> bool) \<Rightarrow> ('v \<Rightarrow> 'k) \<Rightarrow> 'v list \<Rightarrow> 'k \<Rightarrow> nat" where
  "ft_upper_bound lt ky body k = partition_loop (\<lambda>x. \<not> lt k (ky x)) body 0 (length body)"

definition ft_equal_range :: "('k \<Rightarrow> 'k \<Rightarrow> bool) \<Rightarrow> ('v \<Rightarrow> 'k) \<Rightarrow> 'v list \<Rightarrow> 'k \<Rightarrow> nat \<times> nat" where
  "ft_equal_range lt ky body k =
     (let lower = ft_lower_bound lt ky body k in
      if lower = length body \<or> lt k (ky (body ! lower)) then (lower, lower) else (lower, lower + 1))"

definition ft_count :: "('k \<Rightarrow> 'k \<Rightarrow> bool) \<Rightarrow> ('v \<Rightarrow> 'k) \<Rightarrow> 'v list \<Rightarrow> 'k \<Rightarrow> nat" where
  "ft_count lt ky body k = (let (a, b) = ft_equal_range lt ky body k in b - a)"

definition ft_find :: "('k \<Rightarrow> 'k \<Rightarrow> bool) \<Rightarrow> ('v \<Rightarrow> 'k) \<Rightarrow> 'v list \<Rightarrow> 'k \<Rightarrow> nat" where
  "ft_find lt ky body k =
     (let (a, b) = ft_equal_range lt ky body k in if a = b then length body else a)"

section \<open>Insertion\<close>

definition ft_unsafe_emplace :: "'v list \<Rightarrow> nat \<Rightarrow> 'v \<Rightarrow> 'v list" where
  "ft_unsafe_emplace body position v = take position body @ v # drop position body"

definition ft_emplace_key_args ::
  "('k \<Rightarrow> 'k \<Rightarrow> bool) \<Rightarrow> ('v \<Rightarrow> 'k) \<Rightarrow> 'v list \<Rightarrow> 'k \<Rightarrow> 'v \<Rightarrow> 'v list \<times> nat \<times> bool" where
  "ft_emplace_key_args lt ky body key v =
     (let lower = ft_lower_bound lt ky body key in
      if lower = length body \<or> lt key (ky (body ! lower))
      then (ft_unsafe_emplace body lower v, lower, True)
      else (body, lower, False))"

definition ft_emplace_hint_key_args ::
  "('k \<Rightarrow> 'k \<Rightarrow> bool) \<Rightarrow> ('v \<Rightarrow> 'k) \<Rightarrow> 'v list \<Rightarrow> nat \<Rightarrow> 'k \<Rightarrow> 'v \<Rightarrow> 'v list \<times> nat \<times> bool" where
  "ft_emplace_hint_key_args lt ky body hint key v =
     (if hint = 0 \<or> lt (ky (body ! (hint - 1))) key then
        if hint = length body \<or> lt key (ky (body ! hint))
        then (ft_unsafe_emplace body hint v, hint, True)
        else if \<not> lt (ky (body ! hint)) key then (body, hint, False)
        else ft_emplace_key_args lt ky body key v
      else ft_emplace_key_args lt ky body key v)"

definition ft_insert ::
  "('k \<Rightarrow> 'k \<Rightarrow> bool) \<Rightarrow> ('v \<Rightarrow> 'k) \<Rightarrow> 'v list \<Rightarrow> 'v \<Rightarrow> 'v list \<times> nat \<times> bool" where
  "ft_insert lt ky body v = ft_emplace_key_args lt ky body (ky v) v"

definition ft_insert_hint ::
  "('k \<Rightarrow> 'k \<Rightarrow> bool) \<Rightarrow> ('v \<Rightarrow> 'k) \<Rightarrow> 'v list \<Rightarrow> nat \<Rightarrow> 'v \<Rightarrow> 'v list \<times> nat" where
  "ft_insert_hint lt ky body hint v =
     (let (body, i, _) = ft_emplace_hint_key_args lt ky body hint (ky v) v in (body, i))"

definition ft_insert_or_assign ::
  "('k \<Rightarrow> 'k \<Rightarrow> bool) \<Rightarrow> ('v \<Rightarrow> 'k) \<Rightarrow> 'v list \<Rightarrow> 'v \<Rightarrow> 'v list \<times> nat \<times> bool" where
  "ft_insert_or_assign lt ky body v =
     (let position = ft_lower_bound lt ky body (ky v) in
      if position = length body \<or> lt (ky v) (ky (body ! position))
      then (ft_unsafe_emplace body position v, position, True)
      else (body[position := v], position, False))"

text \<open>\<open>append_or_assign\<close> and \<open>append_unique\<close> search \<open>[begin, last)\<close> and append at the end.\<close>

definition ft_append_or_assign ::
  "('k \<Rightarrow> 'k \<Rightarrow> bool) \<Rightarrow> ('v \<Rightarrow> 'k) \<Rightarrow> 'v list \<Rightarrow> nat \<Rightarrow> 'v \<Rightarrow> 'v list \<times> nat \<times> bool" where
  "ft_append_or_assign lt ky body n v =
     (let position = partition_loop (\<lambda>x. lt (ky x) (ky v)) body 0 n in
      if position = n \<or> lt (ky v) (ky (body ! position)) then (body @ [v], position, True)
      else (body[position := v], position, False))"

definition ft_append_unique ::
  "('k \<Rightarrow> 'k \<Rightarrow> bool) \<Rightarrow> ('v \<Rightarrow> 'k) \<Rightarrow> 'v list \<Rightarrow> nat \<Rightarrow> 'v \<Rightarrow> 'v list \<times> nat \<times> bool" where
  "ft_append_unique lt ky body n v =
     (let position = partition_loop (\<lambda>x. lt (ky x) (ky v)) body 0 n in
      if position = n \<or> lt (ky v) (ky (body ! position)) then (body @ [v], position, True)
      else (body, position, False))"

text \<open>\<open>sort_and_unique(first, end(), dupes)\<close>.\<close>

definition ft_sort_and_unique ::
  "('k \<Rightarrow> 'k \<Rightarrow> bool) \<Rightarrow> ('v \<Rightarrow> 'k) \<Rightarrow> 'v list \<Rightarrow> nat \<Rightarrow> FlatContainerDupes \<Rightarrow> 'v list" where
  "ft_sort_and_unique lt ky body first dupes =
     (let sorted = stable_sort (\<lambda>a b. lt (ky a) (ky b)) (drop first body);
          comparator = (\<lambda>lhs rhs. \<not> lt (ky lhs) (ky rhs)) in
      take first body @
        (case dupes of
           KEEP_FIRST_OF_DUPES \<Rightarrow> std_unique comparator sorted
         | KEEP_LAST_OF_DUPES \<Rightarrow> (let (v, e) = LastUnique comparator sorted in take e v)))"

fun ft_append_loop ::
  "bool \<Rightarrow> ('k \<Rightarrow> 'k \<Rightarrow> bool) \<Rightarrow> ('v \<Rightarrow> 'k) \<Rightarrow> nat \<Rightarrow> 'v list \<Rightarrow> nat \<Rightarrow> 'v list \<Rightarrow> 'v list \<times> nat" where
  "ft_append_loop overwrite lt ky n body pos_first_new [] = (body, pos_first_new)"
| "ft_append_loop overwrite lt ky n body pos_first_new (v # vs) =
     (let (body, pos, inserted) =
        (if overwrite then ft_append_or_assign lt ky body n v else ft_append_unique lt ky body n v)
      in ft_append_loop overwrite lt ky n body
           (if inserted then min pos_first_new pos else pos_first_new) vs)"

text \<open>\<open>multipass\<close> says whether the input iterators can be read twice.\<close>

definition ft_insert_range ::
  "bool \<Rightarrow> ('k \<Rightarrow> 'k \<Rightarrow> bool) \<Rightarrow> ('v \<Rightarrow> 'k) \<Rightarrow> 'v list \<Rightarrow> 'v list \<Rightarrow> FlatContainerDupes \<Rightarrow> 'v list" where
  "ft_insert_range multipass lt ky body vs dupes =
     (if vs = [] then body
      else
        let overwrite_existing = (dupes = KEEP_LAST_OF_DUPES);
            insert_inplace = (multipass \<and> length vs = 1) in
        if insert_inplace then
          (if overwrite_existing then fst (ft_insert_or_assign lt ky body (hd vs))
           else fst (ft_insert_hint lt ky body (length body) (hd vs)))
        else
          let original_size = length body;
              (body, pos_first_new) =
                ft_append_loop overwrite_existing lt ky original_size body original_size vs;
              body = ft_sort_and_unique lt ky body original_size dupes
          in take pos_first_new body
             @ std_merge (\<lambda>a b. lt (ky a) (ky b))
                 (drop pos_first_new (take original_size body)) (drop original_size body))"

definition ft_of_range ::
  "('k \<Rightarrow> 'k \<Rightarrow> bool) \<Rightarrow> ('v \<Rightarrow> 'k) \<Rightarrow> 'v list \<Rightarrow> FlatContainerDupes \<Rightarrow> 'v list" where
  "ft_of_range lt ky items dupes = ft_sort_and_unique lt ky items 0 dupes"

section \<open>Erasure\<close>

definition ft_erase_range :: "'v list \<Rightarrow> nat \<Rightarrow> nat \<Rightarrow> 'v list" where
  "ft_erase_range body first lst = take first body @ drop lst body"

definition ft_erase_key ::
  "('k \<Rightarrow> 'k \<Rightarrow> bool) \<Rightarrow> ('v \<Rightarrow> 'k) \<Rightarrow> 'v list \<Rightarrow> 'k \<Rightarrow> 'v list \<times> nat" where
  "ft_erase_key lt ky body k =
     (let (a, b) = ft_equal_range lt ky body k in (ft_erase_range body a b, b - a))"

definition ft_EraseIf :: "('v \<Rightarrow> bool) \<Rightarrow> 'v list \<Rightarrow> 'v list" where
  "ft_EraseIf p body = filter (\<lambda>x. \<not> p x) body"

section \<open>flat_map\<close>

text \<open>\<open>operator[]\<close> returns the position of the mapped value, inserting a default one.\<close>

definition fm_index ::
  "('k \<Rightarrow> 'k \<Rightarrow> bool) \<Rightarrow> 'm \<Rightarrow> ('k \<times> 'm) list \<Rightarrow> 'k \<Rightarrow> ('k \<times> 'm) list \<times> nat" where
  "fm_index lt dflt body key =
     (let found = ft_lower_bound lt fst body key in
      if found = length body \<or> lt key (fst (body ! found))
      then (ft_unsafe_emplace body found (key, dflt), found)
      else (body, found))"

definition fm_insert_or_assign ::
  "('k \<Rightarrow> 'k \<Rightarrow> bool) \<Rightarrow> ('k \<times> 'm) list \<Rightarrow> 'k \<Rightarrow> 'm \<Rightarrow> ('k \<times> 'm) list \<times> nat \<times> bool" where
  "fm_insert_or_assign lt body key obj =
     (let (body, i, ok) = ft_emplace_key_args lt fst body key (key, obj) in
      (if ok then body else body[i := (fst (body ! i), obj)], i, ok))"

definition fm_insert_or_assign_hint ::
  "('k \<Rightarrow> 'k \<Rightarrow> bool) \<Rightarrow> ('k \<times> 'm) list \<Rightarrow> nat \<Rightarrow> 'k \<Rightarrow> 'm \<Rightarrow> ('k \<times> 'm) list \<times> nat" where
  "fm_insert_or_assign_hint lt body hint key obj =
     (let (body, i, ok) = ft_emplace_hint_key_args lt fst body hint key (key, obj) in
      (if ok then body else body[i := (fst (body ! i), obj)], i))"

definition fm_try_emplace ::
  "('k \<Rightarrow> 'k \<Rightarrow> bool) \<Rightarrow> ('k \<times> 'm) list \<Rightarrow> 'k \<Rightarrow> 'm \<Rightarrow> ('k \<times> 'm) list \<times> nat \<times> bool" where
  "fm_try_emplace lt body key obj = ft_emplace_key_args lt fst body key (key, obj)"

section \<open>What the containers promise\<close>

text \<open>
  \<open>ft_sorted\<close> is the class invariant: strictly increasing keys. \<open>ft_look\<close> is the abstract view,
  the element stored under a key (up to equivalence of keys).
\<close>

definition ft_eqv :: "('k \<Rightarrow> 'k \<Rightarrow> bool) \<Rightarrow> 'k \<Rightarrow> 'k \<Rightarrow> bool" where
  "ft_eqv lt a b \<longleftrightarrow> \<not> lt a b \<and> \<not> lt b a"

definition ft_sorted :: "('k \<Rightarrow> 'k \<Rightarrow> bool) \<Rightarrow> ('v \<Rightarrow> 'k) \<Rightarrow> 'v list \<Rightarrow> bool" where
  "ft_sorted lt ky body = sorted_wrt (\<lambda>a b. lt (ky a) (ky b)) body"

definition ft_look :: "('k \<Rightarrow> 'k \<Rightarrow> bool) \<Rightarrow> ('v \<Rightarrow> 'k) \<Rightarrow> 'v list \<Rightarrow> 'k \<Rightarrow> 'v option" where
  "ft_look lt ky body k = List.find (\<lambda>x. ft_eqv lt (ky x) k) body"

text \<open>The last element of each run, the reference for \<open>LastUnique\<close>.\<close>

fun last_of_runs :: "('v \<Rightarrow> 'v \<Rightarrow> bool) \<Rightarrow> 'v list \<Rightarrow> 'v list" where
  "last_of_runs eq [] = []"
| "last_of_runs eq [x] = [x]"
| "last_of_runs eq (x # y # ys) = (if eq x y then last_of_runs eq (y # ys) else x # last_of_runs eq (y # ys))"

text \<open>
  The operations of a flat_set or flat_map and, on the abstract side, what they do to the function
  from keys to elements. A hint is any valid iterator, begin to end.
\<close>

datatype ('k, 'v) ft_op = Insert 'v | InsertHint nat 'v | InsertOrAssign 'v
  | InsertRange bool "'v list" FlatContainerDupes | OfRange "'v list" FlatContainerDupes
  | EraseKey 'k | EraseWhere "'v \<Rightarrow> bool" | Find 'k | Count 'k

datatype 'v ft_out = OutNone | OutBool bool | OutElem "'v option" | OutCount nat

fun ft_step ::
  "('k \<Rightarrow> 'k \<Rightarrow> bool) \<Rightarrow> ('v \<Rightarrow> 'k) \<Rightarrow> 'v list \<Rightarrow> ('k, 'v) ft_op \<Rightarrow> ('v list \<times> 'v ft_out) option" where
  "ft_step lt ky body (Insert v) = (let (b, i, ok) = ft_insert lt ky body v in Some (b, OutBool ok))"
| "ft_step lt ky body (InsertHint h v) =
     (let (b, i) = ft_insert_hint lt ky body (h mod (length body + 1)) v in Some (b, OutNone))"
| "ft_step lt ky body (InsertOrAssign v) =
     (let (b, i, ok) = ft_insert_or_assign lt ky body v in Some (b, OutBool ok))"
| "ft_step lt ky body (InsertRange multipass vs dupes) =
     Some (ft_insert_range multipass lt ky body vs dupes, OutNone)"
| "ft_step lt ky body (OfRange vs dupes) = Some (ft_of_range lt ky vs dupes, OutNone)"
| "ft_step lt ky body (EraseKey k) = (let (b, n) = ft_erase_key lt ky body k in Some (b, OutCount n))"
| "ft_step lt ky body (EraseWhere p) = Some (ft_EraseIf p body, OutNone)"
| "ft_step lt ky body (Find k) =
     (let i = ft_find lt ky body k in
      Some (body, OutElem (if i = length body then None else Some (body ! i))))"
| "ft_step lt ky body (Count k) = Some (body, OutCount (ft_count lt ky body k))"

fun map_step ::
  "('k \<Rightarrow> 'k \<Rightarrow> bool) \<Rightarrow> ('v \<Rightarrow> 'k) \<Rightarrow> ('k \<Rightarrow> 'v option) \<Rightarrow> ('k, 'v) ft_op \<Rightarrow>
   (('k \<Rightarrow> 'v option) \<times> 'v ft_out) option" where
  "map_step lt ky m (Insert v) =
     Some (if m (ky v) = None then \<lambda>k. if ft_eqv lt (ky v) k then Some v else m k else m,
           OutBool (m (ky v) = None))"
| "map_step lt ky m (InsertHint h v) =
     Some (if m (ky v) = None then \<lambda>k. if ft_eqv lt (ky v) k then Some v else m k else m, OutNone)"
| "map_step lt ky m (InsertOrAssign v) =
     Some (\<lambda>k. if ft_eqv lt (ky v) k then Some v else m k, OutBool (m (ky v) = None))"
| "map_step lt ky m (InsertRange multipass vs dupes) =
     Some (case dupes of
             KEEP_FIRST_OF_DUPES \<Rightarrow> (\<lambda>k. case m k of None \<Rightarrow> ft_look lt ky vs k | Some x \<Rightarrow> Some x)
           | KEEP_LAST_OF_DUPES \<Rightarrow> (\<lambda>k. case ft_look lt ky (rev vs) k of None \<Rightarrow> m k | Some x \<Rightarrow> Some x),
           OutNone)"
| "map_step lt ky m (OfRange vs dupes) =
     Some (case dupes of KEEP_FIRST_OF_DUPES \<Rightarrow> ft_look lt ky vs
           | KEEP_LAST_OF_DUPES \<Rightarrow> ft_look lt ky (rev vs), OutNone)"
| "map_step lt ky m (EraseKey k) =
     Some (\<lambda>k'. if ft_eqv lt k k' then None else m k', OutCount (if m k = None then 0 else 1))"
| "map_step lt ky m (EraseWhere p) =
     Some (\<lambda>k. case m k of None \<Rightarrow> None | Some x \<Rightarrow> if p x then None else Some x, OutNone)"
| "map_step lt ky m (Find k) = Some (m, OutElem (m k))"
| "map_step lt ky m (Count k) = Some (m, OutCount (if m k = None then 0 else 1))"

definition ft_rep ::
  "('k \<Rightarrow> 'k \<Rightarrow> bool) \<Rightarrow> ('v \<Rightarrow> 'k) \<Rightarrow> 'v list \<Rightarrow> ('k \<Rightarrow> 'v option) \<Rightarrow> bool" where
  "ft_rep lt ky body m \<longleftrightarrow> ft_sorted lt ky body \<and> m = ft_look lt ky body"

section \<open>Lemmas on the algorithms\<close>

lemma option_eq_iffI: "(\<And>x. a = Some x \<longleftrightarrow> b = Some x) \<Longrightarrow> a = b"
  by (cases a; cases b) auto

lemma partition_loop_spec:
  assumes "first + len \<le> length xs"
    and "\<And>i j. first \<le> i \<Longrightarrow> i < j \<Longrightarrow> j < first + len \<Longrightarrow> p (xs ! j) \<Longrightarrow> p (xs ! i)"
  shows "first \<le> partition_loop p xs first len \<and> partition_loop p xs first len \<le> first + len
    \<and> (\<forall>i. first \<le> i \<and> i < partition_loop p xs first len \<longrightarrow> p (xs ! i))
    \<and> (\<forall>i. partition_loop p xs first len \<le> i \<and> i < first + len \<longrightarrow> \<not> p (xs ! i))"
  using assms
proof (induction p xs first len rule: partition_loop.induct)
  case (1 p xs first len)
  show ?case
  proof (cases "len = 0")
    case True
    then have "partition_loop p xs first len = first" by (subst partition_loop.simps) simp
    then show ?thesis using True by auto
  next
    case False
    let ?h = "len div 2" and ?m = "first + len div 2"
    have h: "?h < len" using False by simp
    show ?thesis
    proof (cases "p (xs ! ?m)")
      case True
      let ?r = "partition_loop p xs (?m + 1) (len - ?h - 1)"
      have r: "partition_loop p xs first len = ?r"
        using False True by (simp add: partition_loop.simps [of p xs first len] Let_def)
      have sum: "?m + 1 + (len - ?h - 1) = first + len" using h by linarith
      have "?m + 1 \<le> ?r \<and> ?r \<le> ?m + 1 + (len - ?h - 1)
        \<and> (\<forall>i. ?m + 1 \<le> i \<and> i < ?r \<longrightarrow> p (xs ! i))
        \<and> (\<forall>i. ?r \<le> i \<and> i < ?m + 1 + (len - ?h - 1) \<longrightarrow> \<not> p (xs ! i))"
        by (rule 1(1) [OF False refl refl True]) (use 1(3,4) sum in auto)
      moreover have "p (xs ! i)" if "first \<le> i" "i \<le> ?m" for i
        using 1(4) [OF that(1), of ?m] True that(2) h by (cases "i = ?m") auto
      ultimately show ?thesis unfolding r sum by (auto simp: not_less_eq_eq) (metis Suc_leI not_le)
    next
      case F: False
      let ?r = "partition_loop p xs first ?h"
      have r: "partition_loop p xs first len = ?r"
        using False F by (simp add: partition_loop.simps [of p xs first len] Let_def)
      have "first \<le> ?r \<and> ?r \<le> ?m \<and> (\<forall>i. first \<le> i \<and> i < ?r \<longrightarrow> p (xs ! i))
        \<and> (\<forall>i. ?r \<le> i \<and> i < ?m \<longrightarrow> \<not> p (xs ! i))"
        by (rule 1(2) [OF False refl refl F]) (use 1(3,4) h in auto)
      moreover have "\<not> p (xs ! i)" if "?m \<le> i" "i < first + len" for i
        using 1(4) [of ?m i] F that by (cases "i = ?m") auto
      moreover have "?m \<le> first + len" using h by simp
      ultimately show ?thesis unfolding r by (auto simp: not_less) (meson not_le)
    qed
  qed
qed

lemma partition_loop_cong:
  "(\<And>i. i < first + len \<Longrightarrow> xs ! i = ys ! i) \<Longrightarrow> partition_loop p xs first len = partition_loop p ys first len"
proof (induction p xs first len rule: partition_loop.induct)
  case (1 p xs first len)
  then show ?case
    by (subst (1 2) partition_loop.simps) (auto simp: Let_def)
qed

lemma stable_insert_set [simp]: "set (stable_insert cmp x ys) = insert x (set ys)"
  by (induction ys) auto

lemma stable_sort_set [simp]: "set (stable_sort cmp xs) = set xs"
  by (induction xs) (auto simp: stable_sort_def)

lemma last_of_runs_Cons:
  "last_of_runs eq (x # xs) = (if xs \<noteq> [] \<and> eq x (hd xs) then last_of_runs eq xs else x # last_of_runs eq xs)"
  by (cases xs) auto

lemma LastUnique_loop_spec:
  assumes "replacable < first" "first < length xs"
  shows "\<exists>ys r. LastUnique_loop eq xs first replacable = (ys, length xs - 1, r) \<and> length ys = length xs
    \<and> r < length xs - 1 \<and> take r ys @ [ys ! (length xs - 1)] = take replacable xs @ last_of_runs eq (drop first xs)"
  using assms
proof (induction eq xs first replacable rule: LastUnique_loop.induct)
  case (1 eq xs first replacable)
  show ?case
  proof (cases "length xs \<le> first + 1")
    case True
    then have f: "first = length xs - 1" "drop first xs = [xs ! first]"
      using 1(4) by (auto simp: Cons_nth_drop_Suc [symmetric])
    then show ?thesis using True 1(3) by (subst LastUnique_loop.simps) simp
  next
    case False
    let ?n = "length xs - 1"
    have dr: "drop first xs = xs ! first # drop (first + 1) xs" using 1(4) by (simp add: Cons_nth_drop_Suc)
    have hd: "drop (first + 1) xs \<noteq> []" "hd (drop (first + 1) xs) = xs ! (first + 1)"
      using False by (auto simp: hd_drop_conv_nth)
    show ?thesis
    proof (cases "eq (xs ! first) (xs ! (first + 1))")
      case True
      have "\<exists>ys r. LastUnique_loop eq xs (first + 1) replacable = (ys, ?n, r) \<and> length ys = length xs
        \<and> r < ?n \<and> take r ys @ [ys ! ?n] = take replacable xs @ last_of_runs eq (drop (first + 1) xs)"
        by (rule 1(2)) (use False True 1(3) in auto)
      then show ?thesis
        using False True hd by (subst LastUnique_loop.simps) (simp add: dr last_of_runs_Cons)
    next
      case F: False
      let ?xs = "xs[replacable := xs ! first]"
      have "\<exists>ys r. LastUnique_loop eq ?xs (first + 1) (replacable + 1) = (ys, length ?xs - 1, r) \<and> length ys = length ?xs
        \<and> r < length ?xs - 1
        \<and> take r ys @ [ys ! (length ?xs - 1)] = take (replacable + 1) ?xs @ last_of_runs eq (drop (first + 1) ?xs)"
        by (rule 1(1)) (use False F 1(3) in auto)
      moreover have "take (replacable + 1) ?xs = take replacable xs @ [xs ! first]"
        using 1(3,4) by (simp add: take_Suc_conv_app_nth)
      moreover have "drop (first + 1) ?xs = drop (first + 1) xs" using 1(3) by simp
      ultimately show ?thesis
        using False F hd by (subst LastUnique_loop.simps) (simp add: dr last_of_runs_Cons)
    qed
  qed
qed

lemma adjacent_find_spec:
  "(adjacent_find eq xs i = length xs \<and> (i \<le> length xs \<longrightarrow> last_of_runs eq (drop i xs) = drop i xs))
   \<or> (\<exists>n. adjacent_find eq xs i = n \<and> i \<le> n \<and> n + 1 < length xs \<and> eq (xs ! n) (xs ! (n + 1))
       \<and> last_of_runs eq (drop i xs) = drop i (take n xs) @ last_of_runs eq (drop n xs))"
proof (induction eq xs i rule: adjacent_find.induct)
  case (1 eq xs i)
  consider "length xs \<le> i + 1" | "i + 1 < length xs" "eq (xs ! i) (xs ! (i + 1))"
    | "i + 1 < length xs" "\<not> eq (xs ! i) (xs ! (i + 1))" by linarith
  then show ?case
  proof cases
    case 1
    moreover have "drop i xs = [] \<or> (\<exists>x. drop i xs = [x])"
      using 1 by (cases "i < length xs") (simp_all add: Cons_nth_drop_Suc [symmetric])
    ultimately show ?thesis by (subst (1 2) adjacent_find.simps) auto
  next
    case 2
    then show ?thesis by (subst (1 2) adjacent_find.simps) (auto intro!: disjI2)
  next
    case 3
    have eq: "adjacent_find eq xs i = adjacent_find eq xs (i + 1)" using 3 by (subst adjacent_find.simps) simp
    have dr: "drop i xs = xs ! i # drop (i + 1) xs" using 3 by (simp add: Cons_nth_drop_Suc)
    have hd: "drop (i + 1) xs \<noteq> []" "hd (drop (i + 1) xs) = xs ! (i + 1)"
      using 3 by (auto simp: hd_drop_conv_nth)
    have lr: "last_of_runs eq (drop i xs) = xs ! i # last_of_runs eq (drop (i + 1) xs)"
      using 3 hd by (simp add: dr last_of_runs_Cons)
    have tk: "drop i (take n xs) = xs ! i # drop (i + 1) (take n xs)" if "i + 1 \<le> n" for n
      using that 3 by (simp add: Cons_nth_drop_Suc [symmetric])
    have "(adjacent_find eq xs (i + 1) = length xs
        \<and> (i + 1 \<le> length xs \<longrightarrow> last_of_runs eq (drop (i + 1) xs) = drop (i + 1) xs))
      \<or> (\<exists>n. adjacent_find eq xs (i + 1) = n \<and> i + 1 \<le> n \<and> n + 1 < length xs \<and> eq (xs ! n) (xs ! (n + 1))
        \<and> last_of_runs eq (drop (i + 1) xs) = drop (i + 1) (take n xs) @ last_of_runs eq (drop n xs))"
      using 1 3 by auto
    then show ?thesis
    proof (elim disjE conjE exE)
      assume "adjacent_find eq xs (i + 1) = length xs"
        and "i + 1 \<le> length xs \<longrightarrow> last_of_runs eq (drop (i + 1) xs) = drop (i + 1) xs"
      then have "adjacent_find eq xs i = length xs" "last_of_runs eq (drop i xs) = drop i xs"
        unfolding eq lr using 3 dr by auto
      then show ?thesis by blast
    next
      fix n assume n: "adjacent_find eq xs (i + 1) = n" "i + 1 \<le> n" "n + 1 < length xs" "eq (xs ! n) (xs ! (n + 1))"
        "last_of_runs eq (drop (i + 1) xs) = drop (i + 1) (take n xs) @ last_of_runs eq (drop n xs)"
      then have "last_of_runs eq (drop i xs) = drop i (take n xs) @ last_of_runs eq (drop n xs)" "i \<le> n"
        unfolding lr using tk by auto
      with n eq show ?thesis by metis
    qed
  qed
qed

lemma LastUnique_eq: "take (snd (LastUnique eq xs)) (fst (LastUnique eq xs)) = last_of_runs eq xs"
proof -
  consider "adjacent_find eq xs 0 = length xs" "last_of_runs eq xs = xs"
    | n where "adjacent_find eq xs 0 = n" "n + 1 < length xs" "eq (xs ! n) (xs ! (n + 1))"
      "last_of_runs eq xs = take n xs @ last_of_runs eq (drop n xs)"
    using adjacent_find_spec [of eq xs 0] by auto
  then show ?thesis
  proof cases
    case 1
    then show ?thesis by (simp add: LastUnique_def Let_def)
  next
    case 2
    obtain ys r where l: "LastUnique_loop eq xs (n + 1) n = (ys, length xs - 1, r)" "length ys = length xs"
      "r < length xs - 1" "take r ys @ [ys ! (length xs - 1)] = take n xs @ last_of_runs eq (drop (n + 1) xs)"
      using LastUnique_loop_spec [of n "n + 1" xs eq] 2(2) by auto
    have "drop n xs = xs ! n # drop (n + 1) xs" "drop (n + 1) xs \<noteq> []" "hd (drop (n + 1) xs) = xs ! (n + 1)"
      using 2(2) by (auto simp: Cons_nth_drop_Suc hd_drop_conv_nth)
    then have "last_of_runs eq xs = take n xs @ last_of_runs eq (drop (n + 1) xs)"
      using 2(3,4) by (simp add: last_of_runs_Cons)
    then show ?thesis
      using 2 l by (simp add: LastUnique_def Let_def take_Suc_conv_app_nth)
  qed
qed

section \<open>Comparators\<close>

text \<open>What \<open>KeyCompare\<close> must be: a strict weak order.\<close>

locale strict_weak_order =
  fixes lt :: "'k \<Rightarrow> 'k \<Rightarrow> bool"
  assumes irrefl: "\<not> lt a a"
    and trans: "lt a b \<Longrightarrow> lt b c \<Longrightarrow> lt a c"
    and eqv_trans: "ft_eqv lt a b \<Longrightarrow> ft_eqv lt b c \<Longrightarrow> ft_eqv lt a c"
begin

abbreviation "eqv \<equiv> ft_eqv lt"

lemma eqv_sym: "eqv a b \<Longrightarrow> eqv b a"
  by (auto simp: ft_eqv_def)

lemma eqv_refl [simp]: "eqv a a"
  by (simp add: ft_eqv_def irrefl)

lemma asym: "lt a b \<Longrightarrow> \<not> lt b a"
  using trans irrefl by blast

lemma lt_cong:
  assumes "eqv a b"
  shows "lt a c \<longleftrightarrow> lt b c" "lt c a \<longleftrightarrow> lt c b"
proof -
  have "lt y z" if "eqv x y" "lt x z" for x y z
    using that trans eqv_trans unfolding ft_eqv_def by metis
  moreover have "lt z y" if "eqv x y" "lt z x" for x y z
    using that trans eqv_trans unfolding ft_eqv_def by metis
  ultimately show "lt a c \<longleftrightarrow> lt b c" "lt c a \<longleftrightarrow> lt c b" using assms eqv_sym by metis+
qed

lemma neg_trans: "\<not> lt a b \<Longrightarrow> \<not> lt b c \<Longrightarrow> \<not> lt a c"
  using trans lt_cong unfolding ft_eqv_def by metis

text \<open>The elements of one equivalence class, in order; lookups are its first or last element.\<close>

lemma look_filter:
  "ft_look lt ky xs k = (case filter (\<lambda>x. eqv (ky x) k) xs of [] \<Rightarrow> None | x # _ \<Rightarrow> Some x)"
  unfolding ft_look_def by (induction xs) auto

lemma look_None_iff: "ft_look lt ky xs k = None \<longleftrightarrow> (\<forall>x \<in> set xs. \<not> eqv (ky x) k)"
  by (auto simp: ft_look_def find_None_iff)

lemma look_SomeD: "ft_look lt ky xs k = Some x \<Longrightarrow> x \<in> set xs \<and> eqv (ky x) k"
  by (auto simp: ft_look_def find_Some_iff)

lemma sorted_nth: "ft_sorted lt ky xs \<Longrightarrow> i < j \<Longrightarrow> j < length xs \<Longrightarrow> lt (ky (xs ! i)) (ky (xs ! j))"
  by (simp add: ft_sorted_def sorted_wrt_iff_nth_less)

lemma sorted_unique:
  assumes "ft_sorted lt ky xs" "x \<in> set xs" "y \<in> set xs" "eqv (ky x) (ky y)"
  shows "x = y"
proof -
  obtain i j where ij: "i < length xs" "xs ! i = x" "j < length xs" "xs ! j = y"
    using assms(2,3) by (auto simp: in_set_conv_nth)
  then have "\<not> i < j" "\<not> j < i"
    using sorted_nth [OF assms(1)] assms(4) by (auto simp: ft_eqv_def)
  then show ?thesis using ij by simp
qed

lemma look_Some_iff:
  assumes "ft_sorted lt ky xs"
  shows "ft_look lt ky xs k = Some x \<longleftrightarrow> x \<in> set xs \<and> eqv (ky x) k"
proof
  assume x: "x \<in> set xs \<and> eqv (ky x) k"
  then obtain y where "ft_look lt ky xs k = Some y" using look_None_iff [of ky xs k] by fastforce
  with x show "ft_look lt ky xs k = Some x"
    using look_SomeD [of ky xs k y] sorted_unique [OF assms, of x y] eqv_trans [of "ky x" k "ky y"] eqv_sym by metis
qed (rule look_SomeD)

lemma look_cong: "eqv k k' \<Longrightarrow> ft_look lt ky xs k = ft_look lt ky xs k'"
  unfolding ft_look_def using eqv_trans eqv_sym by metis

text \<open>Binary search in a strictly sorted prefix.\<close>

lemma prefix_bound:
  fixes k :: 'k
  assumes "ft_sorted lt ky xs" "n \<le> length xs"
  defines "r \<equiv> partition_loop (\<lambda>x. lt (ky x) k) xs 0 n"
  shows "r \<le> n" "\<And>i. i < r \<Longrightarrow> lt (ky (xs ! i)) k" "\<And>i. r \<le> i \<Longrightarrow> i < n \<Longrightarrow> \<not> lt (ky (xs ! i)) k"
proof -
  have "lt (ky (xs ! i)) k" if "i < j" "j < n" "lt (ky (xs ! j)) k" for i j
    using sorted_nth [OF assms(1), of i j] that assms(2) trans by simp
  then have "0 \<le> r \<and> r \<le> 0 + n \<and> (\<forall>i. 0 \<le> i \<and> i < r \<longrightarrow> lt (ky (xs ! i)) k)
      \<and> (\<forall>i. r \<le> i \<and> i < 0 + n \<longrightarrow> \<not> lt (ky (xs ! i)) k)"
    unfolding r_def using assms(2) by (intro partition_loop_spec) auto
  then show "r \<le> n" "\<And>i. i < r \<Longrightarrow> lt (ky (xs ! i)) k" "\<And>i. r \<le> i \<Longrightarrow> i < n \<Longrightarrow> \<not> lt (ky (xs ! i)) k"
    by simp_all
qed

lemma prefix_search:
  fixes k :: 'k
  assumes s: "ft_sorted lt ky xs" and n: "n \<le> length xs"
  defines "r \<equiv> partition_loop (\<lambda>x. lt (ky x) k) xs 0 n"
  shows "r = n \<or> lt k (ky (xs ! r)) \<Longrightarrow> ft_look lt ky (take n xs) k = None
      \<and> (\<forall>x \<in> set (take r xs). lt (ky x) k) \<and> (\<forall>x \<in> set (drop r (take n xs)). lt k (ky x))"
    and "\<not> (r = n \<or> lt k (ky (xs ! r))) \<Longrightarrow> r < n \<and> eqv (ky (xs ! r)) k \<and> ft_look lt ky (take n xs) k = Some (xs ! r)"
proof -
  note b = prefix_bound [OF s n, where k = k, folded r_def]
  have lo: "\<forall>x \<in> set (take r xs). lt (ky x) k" using b(1,2) n by (auto simp: in_set_conv_nth)
  show "ft_look lt ky (take n xs) k = None
      \<and> (\<forall>x \<in> set (take r xs). lt (ky x) k) \<and> (\<forall>x \<in> set (drop r (take n xs)). lt k (ky x))"
    if hit: "r = n \<or> lt k (ky (xs ! r))"
  proof -
    have hi: "lt k (ky (xs ! i))" if "r \<le> i" "i < n" for i
      using hit that sorted_nth [OF s, of r i] n trans by (cases "i = r") auto
    have "\<forall>x \<in> set (drop r (take n xs)). lt k (ky x)"
      using hi n b(1) by (auto simp: in_set_conv_nth nth_drop nth_take)
    moreover have "\<not> eqv (ky (xs ! i)) k" if "i < n" for i
      using b(2) [of i] hi [of i] that by (cases "i < r") (auto simp: ft_eqv_def)
    ultimately show ?thesis using lo n by (auto simp: look_None_iff in_set_conv_nth)
  qed
  show "r < n \<and> eqv (ky (xs ! r)) k \<and> ft_look lt ky (take n xs) k = Some (xs ! r)"
    if "\<not> (r = n \<or> lt k (ky (xs ! r)))"
  proof -
    have r: "r < n" "eqv (ky (xs ! r)) k" using that b(1) b(3) [of r] by (auto simp: ft_eqv_def)
    moreover have "ft_sorted lt ky (take n xs)" using s by (simp add: ft_sorted_def sorted_wrt_take)
    moreover have "xs ! r \<in> set (take n xs)" using r n by (auto simp: in_set_conv_nth)
    ultimately show ?thesis using look_Some_iff [of ky "take n xs" k "xs ! r"] by simp
  qed
qed

lemma search:
  assumes "ft_sorted lt ky xs"
  shows "ft_lower_bound lt ky xs k = length xs \<or> lt k (ky (xs ! ft_lower_bound lt ky xs k)) \<Longrightarrow>
      ft_look lt ky xs k = None \<and> (\<forall>x \<in> set (take (ft_lower_bound lt ky xs k) xs). lt (ky x) k)
      \<and> (\<forall>x \<in> set (drop (ft_lower_bound lt ky xs k) xs). lt k (ky x))"
    and "\<not> (ft_lower_bound lt ky xs k = length xs \<or> lt k (ky (xs ! ft_lower_bound lt ky xs k))) \<Longrightarrow>
      ft_lower_bound lt ky xs k < length xs \<and> eqv (ky (xs ! ft_lower_bound lt ky xs k)) k
      \<and> ft_look lt ky xs k = Some (xs ! ft_lower_bound lt ky xs k)"
  using prefix_search [OF assms order_refl, where k = k, folded ft_lower_bound_def] by simp_all

lemma sorted_append:
  "ft_sorted lt ky (xs @ ys) \<longleftrightarrow> ft_sorted lt ky xs \<and> ft_sorted lt ky ys
     \<and> (\<forall>x \<in> set xs. \<forall>y \<in> set ys. lt (ky x) (ky y))"
  by (simp add: ft_sorted_def sorted_wrt_append)

lemma emplace_sorted:
  assumes "ft_sorted lt ky xs" "\<forall>x \<in> set (take r xs). lt (ky x) (ky v)" "\<forall>x \<in> set (drop r xs). lt (ky v) (ky x)"
  shows "ft_sorted lt ky (ft_unsafe_emplace xs r v)"
proof -
  have "ft_sorted lt ky (take r xs @ drop r xs)" using assms(1) by simp
  then show ?thesis
    using assms(2,3) unfolding ft_unsafe_emplace_def
    by (simp only: sorted_append) (auto simp: ft_sorted_def)
qed

lemma update_sorted:
  assumes "ft_sorted lt ky xs" "r < length xs" "eqv (ky (xs ! r)) (ky v)"
  shows "ft_sorted lt ky (xs[r := v])"
  using assms lt_cong [OF assms(3)]
  by (auto simp: ft_sorted_def sorted_wrt_iff_nth_less nth_list_update)

lemma look_emplace:
  assumes "ft_sorted lt ky (ft_unsafe_emplace xs r v)" "ft_sorted lt ky xs"
  shows "ft_look lt ky (ft_unsafe_emplace xs r v) k = (if eqv (ky v) k then Some v else ft_look lt ky xs k)"
proof (cases "eqv (ky v) k")
  case True
  then show ?thesis using look_Some_iff [OF assms(1), of k v] by (simp add: ft_unsafe_emplace_def)
next
  case False
  have "filter (\<lambda>x. eqv (ky x) k) (ft_unsafe_emplace xs r v) = filter (\<lambda>x. eqv (ky x) k) (take r xs @ drop r xs)"
    using False unfolding ft_unsafe_emplace_def filter_append by simp
  then show ?thesis using False by (simp add: look_filter)
qed

lemma look_update:
  assumes "ft_sorted lt ky xs" "r < length xs" "eqv (ky (xs ! r)) (ky v)"
  shows "ft_look lt ky (xs[r := v]) k = (if eqv (ky v) k then Some v else ft_look lt ky xs k)"
proof -
  note s' = update_sorted [OF assms]
  show ?thesis
  proof (cases "eqv (ky v) k")
    case True
    then show ?thesis using look_Some_iff [OF s', of k v] assms(2) by (simp add: set_update_memI)
  next
    case False
    have nk: "\<not> eqv (ky (xs ! r)) k" using False assms(3) eqv_trans eqv_sym by blast
    have "x \<in> set (xs[r := v]) \<and> eqv (ky x) k \<longleftrightarrow> x \<in> set xs \<and> eqv (ky x) k" for x
      using False nk assms(2) by (auto simp: in_set_conv_nth nth_list_update split: if_splits)
    then show ?thesis
      using False look_Some_iff [OF s'] look_Some_iff [OF assms(1)] by (metis option.exhaust)
  qed
qed

text \<open>Sorting is stable and weakly sorts; both ways of removing duplicates make it strict.\<close>

abbreviation "vlt ky \<equiv> \<lambda>a b. lt (ky a) (ky b)"
abbreviation "weakly ky \<equiv> sorted_wrt (\<lambda>a b. \<not> lt (ky b) (ky a))"

lemma stable_insert_class:
  "filter (\<lambda>z. eqv (ky z) k) (stable_insert (vlt ky) x ys) = filter (\<lambda>z. eqv (ky z) k) (x # ys)"
proof (induction ys)
  case (Cons y ys)
  have "\<not> (eqv (ky x) k \<and> eqv (ky y) k)" if "lt (ky y) (ky x)"
    using that eqv_trans eqv_sym unfolding ft_eqv_def by metis
  with Cons show ?case by auto
qed simp

lemma stable_sort_class: "filter (\<lambda>z. eqv (ky z) k) (stable_sort (vlt ky) xs) = filter (\<lambda>z. eqv (ky z) k) xs"
  by (induction xs) (simp_all add: stable_sort_def stable_insert_class)

lemma stable_insert_weakly: "weakly ky ys \<Longrightarrow> weakly ky (stable_insert (vlt ky) x ys)"
  by (induction ys) (auto dest: asym, meson neg_trans)

lemma stable_sort_weakly: "weakly ky (stable_sort (vlt ky) xs)"
  by (induction xs) (simp_all add: stable_sort_def stable_insert_weakly)

lemma weakly_eqv:
  assumes "weakly ky (x # y # ys)" "\<not> lt (ky x) (ky y)"
  shows "eqv (ky x) (ky y)"
  using assms by (simp add: ft_eqv_def)

lemma std_unique_spec:
  assumes "weakly ky xs"
  shows "ft_sorted lt ky (std_unique (\<lambda>a b. \<not> lt (ky a) (ky b)) xs)
    \<and> set (std_unique (\<lambda>a b. \<not> lt (ky a) (ky b)) xs) \<subseteq> set xs
    \<and> (\<forall>k. ft_look lt ky (std_unique (\<lambda>a b. \<not> lt (ky a) (ky b)) xs) k = ft_look lt ky xs k)"
  using assms
proof (induction "\<lambda>a b. \<not> lt (ky a) (ky b)" xs rule: std_unique.induct)
  case (3 x y ys)
  show ?case
  proof (cases "lt (ky x) (ky y)")
    case True
    let ?u = "std_unique (\<lambda>a b. \<not> lt (ky a) (ky b)) (y # ys)"
    have w: "weakly ky (y # ys)" using 3(3) by simp
    have ih: "ft_sorted lt ky ?u" "set ?u \<subseteq> set (y # ys)" "\<And>k. ft_look lt ky ?u k = ft_look lt ky (y # ys) k"
      using 3(2) True w by auto
    have "lt (ky x) (ky z)" if "z \<in> set (y # ys)" for z
      using that True w neg_trans [of "ky x" "ky z" "ky y"] by auto
    then have "ft_sorted lt ky (x # ?u)" using ih(1,2) by (auto simp: ft_sorted_def)
    then show ?thesis using True ih by (auto simp: ft_look_def)
  next
    case False
    let ?u = "std_unique (\<lambda>a b. \<not> lt (ky a) (ky b)) (x # ys)"
    have w: "weakly ky (x # ys)" using 3(3) by simp
    have ih: "ft_sorted lt ky ?u" "set ?u \<subseteq> set (x # ys)" "\<And>k. ft_look lt ky ?u k = ft_look lt ky (x # ys) k"
      using 3(1) False w by auto
    have "ft_look lt ky (x # ys) k = ft_look lt ky (x # y # ys) k" for k
    proof (cases "eqv (ky x) k")
      case xk: False
      then have "\<not> eqv (ky y) k" using weakly_eqv [OF 3(3) False] eqv_trans by blast
      then show ?thesis using xk by (simp add: ft_look_def)
    qed (simp add: ft_look_def)
    then show ?thesis using False ih by auto
  qed
qed (auto simp: ft_sorted_def)

lemma last_of_runs_spec:
  assumes "weakly ky xs"
  shows "ft_sorted lt ky (last_of_runs (\<lambda>a b. \<not> lt (ky a) (ky b)) xs)
    \<and> set (last_of_runs (\<lambda>a b. \<not> lt (ky a) (ky b)) xs) \<subseteq> set xs
    \<and> (\<forall>k. ft_look lt ky (last_of_runs (\<lambda>a b. \<not> lt (ky a) (ky b)) xs) k = ft_look lt ky (rev xs) k)"
  using assms
proof (induction "\<lambda>a b. \<not> lt (ky a) (ky b)" xs rule: last_of_runs.induct)
  case (3 x y ys)
  let ?u = "last_of_runs (\<lambda>a b. \<not> lt (ky a) (ky b)) (y # ys)"
  have w: "weakly ky (y # ys)" using 3(3) by simp
  have ih: "ft_sorted lt ky ?u" "set ?u \<subseteq> set (y # ys)" "\<And>k. ft_look lt ky ?u k = ft_look lt ky (rev (y # ys)) k"
    using 3(1,2) w by (cases "lt (ky x) (ky y)"; auto)+
  have look_rev: "ft_look lt ky (rev (x # zs)) k = (case ft_look lt ky (rev zs) k of
      None \<Rightarrow> if eqv (ky x) k then Some x else None | Some z \<Rightarrow> Some z)" for zs k
    by (auto simp: look_filter split: list.splits)
  show ?case
  proof (cases "lt (ky x) (ky y)")
    case True
    have "lt (ky x) (ky z)" if "z \<in> set (y # ys)" for z
      using that True w neg_trans [of "ky x" "ky z" "ky y"] by auto
    then have s: "ft_sorted lt ky (x # ?u)" "\<And>z. z \<in> set (y # ys) \<Longrightarrow> \<not> eqv (ky x) (ky z)"
      using ih(1,2) by (auto simp: ft_sorted_def ft_eqv_def)
    have "ft_look lt ky (x # ?u) k = ft_look lt ky (rev (x # y # ys)) k" for k
    proof (cases "eqv (ky x) k")
      case xk: True
      have "ft_look lt ky (rev (y # ys)) k = None"
        unfolding look_None_iff using s(2) xk eqv_trans eqv_sym by (metis set_rev)
      then show ?thesis using xk look_rev [of "y # ys" k] by (simp add: ft_look_def)
    next
      case xk: False
      then show ?thesis using ih(3) [of k] look_rev [of "y # ys" k] by (simp add: ft_look_def split: option.splits)
    qed
    then show ?thesis using True s(1) ih(2) by auto
  next
    case False
    have e: "eqv (ky x) (ky y)" using weakly_eqv [OF 3(3) False] .
    have "ft_look lt ky (rev (x # y # ys)) k = ft_look lt ky (rev (y # ys)) k" for k
    proof (cases "eqv (ky x) k")
      case True
      then have "ft_look lt ky (rev (y # ys)) k \<noteq> None"
        unfolding look_None_iff using e eqv_trans eqv_sym by (metis list.set_intros(1) set_rev)
      then show ?thesis unfolding look_rev [of "y # ys" k] by (auto split: option.splits)
    next
      case xk: False
      then show ?thesis unfolding look_rev [of "y # ys" k] by (auto split: option.splits)
    qed
    then show ?thesis using False ih by auto
  qed
qed (auto simp: ft_sorted_def)

lemma sort_and_unique_spec:
  fixes dupes :: FlatContainerDupes
  assumes "n \<le> length body"
  obtains ys where "ft_sort_and_unique lt ky body n dupes = take n body @ ys" "ft_sorted lt ky ys"
    "set ys \<subseteq> set (drop n body)"
    "\<And>k. ft_look lt ky ys k = (if dupes = KEEP_FIRST_OF_DUPES then ft_look lt ky (drop n body) k
        else ft_look lt ky (rev (drop n body)) k)"
proof -
  let ?s = "stable_sort (vlt ky) (drop n body)"
  note w = stable_sort_weakly [of ky "drop n body"]
  have f: "ft_look lt ky ?s k = ft_look lt ky (drop n body) k" for k
    by (simp add: look_filter stable_sort_class)
  have l: "ft_look lt ky (rev ?s) k = ft_look lt ky (rev (drop n body)) k" for k
    by (simp add: look_filter stable_sort_class flip: rev_filter)
  show thesis
  proof (cases dupes)
    case KEEP_FIRST_OF_DUPES
    then show ?thesis
      using std_unique_spec [OF w] f
      by (intro that [of "std_unique (\<lambda>a b. \<not> lt (ky a) (ky b)) ?s"]) (auto simp: ft_sort_and_unique_def)
  next
    case KEEP_LAST_OF_DUPES
    then show ?thesis
      using last_of_runs_spec [OF w] l LastUnique_eq [of "\<lambda>a b. \<not> lt (ky a) (ky b)" ?s]
      by (intro that [of "last_of_runs (\<lambda>a b. \<not> lt (ky a) (ky b)) ?s"])
        (auto simp: ft_sort_and_unique_def case_prod_unfold)
  qed
qed

lemma std_merge_set: "set (std_merge cmp xs ys) = set xs \<union> set ys"
  by (induction cmp xs ys rule: std_merge.induct) auto

lemma std_merge_sorted:
  assumes "ft_sorted lt ky xs" "ft_sorted lt ky ys" "\<forall>x \<in> set xs. \<forall>y \<in> set ys. \<not> eqv (ky x) (ky y)"
  shows "ft_sorted lt ky (std_merge (vlt ky) xs ys)"
  using assms
proof (induction "vlt ky" xs ys rule: std_merge.induct)
  case (3 x xs y ys)
  show ?case
  proof (cases "lt (ky y) (ky x)")
    case True
    have "lt (ky y) (ky z)" if "z \<in> set (x # xs) \<union> set ys" for z
      using that True 3(3,4) trans by (auto simp: ft_sorted_def)
    moreover have "ft_sorted lt ky (std_merge (vlt ky) (x # xs) ys)"
      using 3(1) [OF True] 3(3-5) by (auto simp: ft_sorted_def)
    ultimately show ?thesis using True by (auto simp: ft_sorted_def std_merge_set)
  next
    case False
    then have xy: "lt (ky x) (ky y)" using 3(5) by (auto simp: ft_eqv_def)
    have "lt (ky x) (ky z)" if "z \<in> set xs \<union> set (y # ys)" for z
      using that xy 3(3,4) trans by (auto simp: ft_sorted_def)
    moreover have "ft_sorted lt ky (std_merge (vlt ky) xs (y # ys))"
      using 3(2) [OF False] 3(3-5) by (auto simp: ft_sorted_def)
    ultimately show ?thesis using False by (auto simp: ft_sorted_def std_merge_set)
  qed
qed auto

text \<open>Single insertions.\<close>

lemma emplace_key_args_spec:
  assumes s: "ft_sorted lt ky xs" and k: "eqv key (ky v)"
  shows "\<exists>ys i. ft_emplace_key_args lt ky xs key v = (ys, i, ft_look lt ky xs (ky v) = None)
    \<and> ft_sorted lt ky ys \<and> i < length ys \<and> eqv (ky (ys ! i)) (ky v)
    \<and> (\<forall>k. ft_look lt ky ys k
         = (if ft_look lt ky xs (ky v) = None \<and> eqv (ky v) k then Some v else ft_look lt ky xs k))"
proof -
  define r where "r = ft_lower_bound lt ky xs key"
  note se = search [OF s, of key, folded r_def] and lk = look_cong [OF k, of ky xs]
  have rl: "r \<le> length xs" using prefix_bound(1) [OF s, of "length xs"] by (simp add: r_def ft_lower_bound_def)
  show ?thesis
  proof (cases "r = length xs \<or> lt key (ky (xs ! r))")
    case True
    have "ft_sorted lt ky (ft_unsafe_emplace xs r v)"
      using se(1) [OF True] lt_cong [OF k] by (intro emplace_sorted s) auto
    then show ?thesis
      using True se(1) [OF True] lk rl look_emplace [OF _ s, of r v]
      by (auto simp: ft_emplace_key_args_def r_def [symmetric] Let_def ft_unsafe_emplace_def nth_append)
  next
    case False
    then show ?thesis
      using se(2) [OF False] lk s k eqv_trans
      by (auto simp: ft_emplace_key_args_def r_def [symmetric] Let_def)
  qed
qed

lemma emplace_hint_spec:
  assumes s: "ft_sorted lt ky xs" and h: "h \<le> length xs"
  shows "\<exists>ys i. ft_emplace_hint_key_args lt ky xs h (ky v) v = (ys, i, ft_look lt ky xs (ky v) = None)
    \<and> ft_sorted lt ky ys \<and> i < length ys \<and> eqv (ky (ys ! i)) (ky v)
    \<and> (\<forall>k. ft_look lt ky ys k
         = (if ft_look lt ky xs (ky v) = None \<and> eqv (ky v) k then Some v else ft_look lt ky xs k))"
proof -
  consider "h = 0 \<or> lt (ky (xs ! (h - 1))) (ky v)" "h = length xs \<or> lt (ky v) (ky (xs ! h))"
    | "h = 0 \<or> lt (ky (xs ! (h - 1))) (ky v)" "\<not> (h = length xs \<or> lt (ky v) (ky (xs ! h)))" "\<not> lt (ky (xs ! h)) (ky v)"
    | "ft_emplace_hint_key_args lt ky xs h (ky v) v = ft_emplace_key_args lt ky xs (ky v) v"
    unfolding ft_emplace_hint_key_args_def by metis
  then show ?thesis
  proof cases
    case 1
    have lo: "\<forall>x \<in> set (take h xs). lt (ky x) (ky v)"
    proof
      fix x assume "x \<in> set (take h xs)"
      then obtain i where i: "i < h" "x = xs ! i" by (auto simp: in_set_conv_nth)
      then have "i = h - 1 \<or> lt (ky (xs ! i)) (ky (xs ! (h - 1)))"
        using h sorted_nth [OF s, of i "h - 1"] by linarith
      then show "lt (ky x) (ky v)" using 1(1) i trans by blast
    qed
    have hi: "\<forall>x \<in> set (drop h xs). lt (ky v) (ky x)"
    proof
      fix x assume "x \<in> set (drop h xs)"
      then obtain i where i: "h \<le> i" "i < length xs" "x = xs ! i"
        by (auto simp: in_set_conv_nth) (metis le_add1 less_diff_conv add.commute)
      then show "lt (ky v) (ky x)"
        using 1(2) sorted_nth [OF s, of h i] trans by (cases "i = h") auto
    qed
    have none: "ft_look lt ky xs (ky v) = None"
      unfolding look_None_iff using lo hi set_append [of "take h xs" "drop h xs"] by (auto simp: ft_eqv_def)
    have "ft_sorted lt ky (ft_unsafe_emplace xs h v)" using lo hi by (intro emplace_sorted s)
    then show ?thesis
      using 1 h none look_emplace [OF _ s, of h v]
      by (auto simp: ft_emplace_hint_key_args_def ft_unsafe_emplace_def nth_append)
  next
    case 2
    then have e: "eqv (ky (xs ! h)) (ky v)" "h < length xs" using h by (auto simp: ft_eqv_def)
    then have "ft_look lt ky xs (ky v) = Some (xs ! h)" using look_Some_iff [OF s] by simp
    then show ?thesis using 2 e s by (auto simp: ft_emplace_hint_key_args_def)
  next
    case 3
    then show ?thesis using emplace_key_args_spec [OF s eqv_refl, of v] by auto
  qed
qed

lemma insert_or_assign_spec:
  assumes s: "ft_sorted lt ky xs"
  shows "\<exists>ys i. ft_insert_or_assign lt ky xs v = (ys, i, ft_look lt ky xs (ky v) = None) \<and> ft_sorted lt ky ys
    \<and> (\<forall>k. ft_look lt ky ys k = (if eqv (ky v) k then Some v else ft_look lt ky xs k))"
proof -
  define r where "r = ft_lower_bound lt ky xs (ky v)"
  note se = search [OF s, of "ky v", folded r_def]
  show ?thesis
  proof (cases "r = length xs \<or> lt (ky v) (ky (xs ! r))")
    case True
    have "ft_sorted lt ky (ft_unsafe_emplace xs r v)" using se(1) [OF True] by (intro emplace_sorted s) auto
    then show ?thesis
      using True se(1) [OF True] look_emplace [OF _ s, of r v]
      by (simp add: ft_insert_or_assign_def r_def [symmetric] Let_def)
  next
    case False
    then show ?thesis
      using se(2) [OF False] look_update [OF s, of r v] update_sorted [OF s, of r v]
      by (simp add: ft_insert_or_assign_def r_def [symmetric] Let_def)
  qed
qed

text \<open>The append loop of the range insertion.\<close>

lemma append_step:
  assumes s: "ft_sorted lt ky A" and r: "r = partition_loop (\<lambda>x. lt (ky x) (ky v)) (A @ B) 0 (length A)"
  shows "ft_look lt ky A (ky v) = None \<Longrightarrow> (r = length A \<or> lt (ky v) (ky ((A @ B) ! r)))
      \<and> r \<le> length A \<and> (\<forall>i < r. lt (ky (A ! i)) (ky v))"
    and "ft_look lt ky A (ky v) \<noteq> None \<Longrightarrow> \<not> (r = length A \<or> lt (ky v) (ky ((A @ B) ! r)))
      \<and> r < length A \<and> eqv (ky (A ! r)) (ky v)"
proof -
  have r': "r = ft_lower_bound lt ky A (ky v)"
    unfolding r ft_lower_bound_def by (rule partition_loop_cong) (simp add: nth_append)
  note b = prefix_bound [OF s order_refl, where k = "ky v", folded ft_lower_bound_def r']
  note se = search [OF s, of "ky v", folded r']
  have nth: "r < length A \<Longrightarrow> (A @ B) ! r = A ! r" by (simp add: nth_append)
  show "(r = length A \<or> lt (ky v) (ky ((A @ B) ! r))) \<and> r \<le> length A \<and> (\<forall>i < r. lt (ky (A ! i)) (ky v))"
    if "ft_look lt ky A (ky v) = None"
    using se(2) that b(1,2) nth by (cases "r = length A") auto
  show "\<not> (r = length A \<or> lt (ky v) (ky ((A @ B) ! r))) \<and> r < length A \<and> eqv (ky (A ! r)) (ky v)"
    if "ft_look lt ky A (ky v) \<noteq> None"
    using se that nth by (cases "r = length A \<or> lt (ky v) (ky (A ! r))") auto
qed

lemma look_rev_Cons:
  "ft_look lt ky (rev (x # zs)) k = (case ft_look lt ky (rev zs) k of
      None \<Rightarrow> if eqv (ky x) k then Some x else None | Some z \<Rightarrow> Some z)"
  by (auto simp: look_filter split: list.splits)

text \<open>
  Old elements are overwritten or kept in place, elements with new keys are appended in order,
  and the returned position has only smaller keys before it.
\<close>

definition append_post ::
  "bool \<Rightarrow> ('v \<Rightarrow> 'k) \<Rightarrow> 'v list \<Rightarrow> nat \<Rightarrow> 'v list \<Rightarrow> 'v list \<Rightarrow> nat \<Rightarrow> bool" where
  "append_post ow ky A pos vs A' pos' \<longleftrightarrow> length A' = length A \<and> ft_sorted lt ky A' \<and> pos' \<le> pos
    \<and> (\<forall>i < length A. eqv (ky (A' ! i)) (ky (A ! i)))
    \<and> (\<forall>v \<in> set vs. ft_look lt ky A (ky v) = None \<longrightarrow> (\<forall>i < min pos' (length A). lt (ky (A' ! i)) (ky v)))
    \<and> (\<forall>k. ft_look lt ky A' k = (if ow \<and> ft_look lt ky A k \<noteq> None
         then case ft_look lt ky (rev vs) k of None \<Rightarrow> ft_look lt ky A k | Some x \<Rightarrow> Some x
         else ft_look lt ky A k))"

lemma append_loop_spec:
  assumes "ft_sorted lt ky A"
  shows "\<exists>A' pos'. ft_append_loop ow lt ky (length A) (A @ B) pos vs
      = (A' @ B @ filter (\<lambda>v. ft_look lt ky A (ky v) = None) vs, pos') \<and> append_post ow ky A pos vs A' pos'"
  using assms
proof (induction vs arbitrary: A B pos)
  case Nil
  then show ?case by (auto simp: append_post_def ft_look_def)
next
  case (Cons v vs)
  define r where "r = partition_loop (\<lambda>x. lt (ky x) (ky v)) (A @ B) 0 (length A)"
  note st = append_step [OF Cons.prems r_def]
  show ?case
  proof (cases "ft_look lt ky A (ky v) = None")
    case True
    obtain A' pos' where IH: "ft_append_loop ow lt ky (length A) (A @ B @ [v]) (min pos r) vs
        = (A' @ (B @ [v]) @ filter (\<lambda>v. ft_look lt ky A (ky v) = None) vs, pos')"
      "append_post ow ky A (min pos r) vs A' pos'"
      using Cons.IH [OF Cons.prems, of "B @ [v]" "min pos r"] by auto
    have "lt (ky (A' ! i)) (ky v)" if "i < min pos' (length A)" for i
    proof -
      have "i < r" "eqv (ky (A' ! i)) (ky (A ! i))" using that IH(2) by (auto simp: append_post_def)
      then show ?thesis using st(1) [OF True] lt_cong(1) by blast
    qed
    moreover have "\<not> eqv (ky v) k" if "ft_look lt ky A k \<noteq> None" for k
      using that True look_cong by metis
    ultimately have "append_post ow ky A pos (v # vs) A' pos'"
      using IH(2) by (auto simp: append_post_def look_rev_Cons simp del: rev.simps split: option.splits)
    then show ?thesis
      using IH(1) True st(1) [OF True]
      by (auto simp: ft_append_or_assign_def ft_append_unique_def r_def [symmetric] Let_def)
  next
    case False
    define A1 where "A1 = (if ow then A[r := v] else A)"
    note f = st(2) [OF False]
    have A1: "ft_sorted lt ky A1" "length A1 = length A"
      "\<And>k. ft_look lt ky A1 k = (if ow \<and> eqv (ky v) k then Some v else ft_look lt ky A k)"
      using f update_sorted [OF Cons.prems, of r v] look_update [OF Cons.prems, of r v] Cons.prems
      by (auto simp: A1_def)
    have none: "ft_look lt ky A1 k = None \<longleftrightarrow> ft_look lt ky A k = None" for k
      using A1(3) False look_cong by (metis option.distinct(1))
    have nth: "eqv (ky (A1 ! i)) (ky (A ! i))" if "i < length A" for i
      using that f eqv_sym by (auto simp: A1_def nth_list_update)
    obtain A' pos' where IH: "ft_append_loop ow lt ky (length A) (A1 @ B) pos vs
        = (A' @ B @ filter (\<lambda>v. ft_look lt ky A (ky v) = None) vs, pos')" "append_post ow ky A1 pos vs A' pos'"
      using Cons.IH [OF A1(1), of B pos] A1(2) none by auto
    have "append_post ow ky A pos (v # vs) A' pos'"
      unfolding append_post_def look_rev_Cons
    proof (intro conjI allI impI ballI)
      show "eqv (ky (A' ! i)) (ky (A ! i))" if "i < length A" for i
        using that IH(2) nth A1(2) eqv_trans unfolding append_post_def by metis
      show "ft_look lt ky A' k = (if ow \<and> ft_look lt ky A k \<noteq> None
          then case case ft_look lt ky (rev vs) k of None \<Rightarrow> if eqv (ky v) k then Some v else None | Some z \<Rightarrow> Some z of
            None \<Rightarrow> ft_look lt ky A k | Some x \<Rightarrow> Some x else ft_look lt ky A k)" for k
        using IH(2) none [of k] A1(3) [of k] unfolding append_post_def by (auto split: option.splits)
    qed (use IH(2) False none A1(2) in \<open>auto simp: append_post_def\<close>)
    then show ?thesis
      using IH(1) False f
      by (auto simp: A1_def list_update_append ft_append_or_assign_def ft_append_unique_def r_def [symmetric] Let_def)
  qed
qed

text \<open>Range insertion.\<close>

lemma look_union:
  assumes "ft_sorted lt ky zs" "ft_sorted lt ky xs" "ft_sorted lt ky ys" "set zs = set xs \<union> set ys"
    and "\<forall>x \<in> set xs. \<forall>y \<in> set ys. \<not> eqv (ky x) (ky y)"
  shows "ft_look lt ky zs k = (case ft_look lt ky xs k of None \<Rightarrow> ft_look lt ky ys k | Some x \<Rightarrow> Some x)"
proof (cases "ft_look lt ky xs k")
  case None
  have "ft_look lt ky zs k = Some x \<longleftrightarrow> ft_look lt ky ys k = Some x" for x
    using None assms(4) unfolding look_Some_iff [OF assms(1)] look_Some_iff [OF assms(3)] look_None_iff by auto
  then show ?thesis using None by (metis option.exhaust option.simps(4))
next
  case (Some x)
  then have "ft_look lt ky zs k = Some x"
    using assms(4) unfolding look_Some_iff [OF assms(1)] look_Some_iff [OF assms(2)] by simp
  then show ?thesis using Some by simp
qed

lemma look_filter_new:
  assumes "ft_look lt ky A k = None"
  shows "ft_look lt ky (filter (\<lambda>v. ft_look lt ky A (ky v) = None) vs) k = ft_look lt ky vs k"
proof -
  have "eqv (ky v) k \<Longrightarrow> ft_look lt ky A (ky v) = None" for v using assms look_cong by metis
  then have "filter (\<lambda>x. eqv (ky x) k) (filter (\<lambda>v. ft_look lt ky A (ky v) = None) vs)
      = filter (\<lambda>x. eqv (ky x) k) vs"
    by (auto simp: filter_filter intro!: filter_cong)
  then show ?thesis by (simp add: look_filter)
qed

definition range_view :: "('v \<Rightarrow> 'k) \<Rightarrow> ('k \<Rightarrow> 'v option) \<Rightarrow> 'v list \<Rightarrow> FlatContainerDupes \<Rightarrow> 'k \<Rightarrow> 'v option" where
  "range_view ky m vs dupes = (case dupes of
       KEEP_FIRST_OF_DUPES \<Rightarrow> (\<lambda>k. case m k of None \<Rightarrow> ft_look lt ky vs k | Some x \<Rightarrow> Some x)
     | KEEP_LAST_OF_DUPES \<Rightarrow> (\<lambda>k. case ft_look lt ky (rev vs) k of None \<Rightarrow> m k | Some x \<Rightarrow> Some x))"

lemma merge_back:
  assumes A: "ft_sorted lt ky A" and ys: "ft_sorted lt ky ys" and post: "append_post ow ky A (length A) vs A' pos"
    and new: "set ys \<subseteq> set (filter (\<lambda>v. ft_look lt ky A (ky v) = None) vs)"
  shows "ft_sorted lt ky (take pos A' @ std_merge (vlt ky) (drop pos A') ys)"
    and "ft_look lt ky (take pos A' @ std_merge (vlt ky) (drop pos A') ys) k
      = (case ft_look lt ky A' k of None \<Rightarrow> ft_look lt ky ys k | Some x \<Rightarrow> Some x)"
proof -
  note p = post [unfolded append_post_def]
  have s': "ft_sorted lt ky (take pos A' @ drop pos A')" using p by simp
  have none: "ft_look lt ky A' (ky y) = None" if "y \<in> set ys" for y using that new p by auto
  then have apart: "\<forall>x \<in> set A'. \<forall>y \<in> set ys. \<not> eqv (ky x) (ky y)" by (auto simp: look_None_iff)
  have ms: "ft_sorted lt ky (std_merge (vlt ky) (drop pos A') ys)"
    using s' apart unfolding sorted_append by (intro std_merge_sorted ys) (auto dest: in_set_dropD)
  have "lt (ky x) (ky y)" if x: "x \<in> set (take pos A')" and y: "y \<in> set ys" for x y
  proof -
    have "length A' = length A" using p by blast
    then obtain i where "i < min pos (length A)" "x = A' ! i"
      using x by (auto simp: in_set_conv_nth)
    then show ?thesis using y new p by auto
  qed
  then show srt: "ft_sorted lt ky (take pos A' @ std_merge (vlt ky) (drop pos A') ys)"
    using ms s' unfolding sorted_append by (auto simp: std_merge_set)
  have "set (take pos A' @ std_merge (vlt ky) (drop pos A') ys) = set (take pos A' @ drop pos A') \<union> set ys"
    unfolding set_append std_merge_set by blast
  then show "ft_look lt ky (take pos A' @ std_merge (vlt ky) (drop pos A') ys) k
      = (case ft_look lt ky A' k of None \<Rightarrow> ft_look lt ky ys k | Some x \<Rightarrow> Some x)"
    using look_union [OF srt _ ys _ apart] p by simp
qed

lemma insert_range_spec:
  assumes s: "ft_sorted lt ky xs"
  shows "ft_sorted lt ky (ft_insert_range mp lt ky xs vs dupes)
    \<and> ft_look lt ky (ft_insert_range mp lt ky xs vs dupes) = range_view ky (ft_look lt ky xs) vs dupes"
proof -
  consider "vs = []" | v where "mp" "vs = [v]" "dupes = KEEP_LAST_OF_DUPES"
    | v where "mp" "vs = [v]" "dupes = KEEP_FIRST_OF_DUPES" | "vs \<noteq> []" "\<not> (mp \<and> length vs = 1)"
    by (cases dupes) (auto simp: length_Suc_conv)
  then show ?thesis
  proof cases
    case 1
    then show ?thesis using s
      by (cases dupes) (auto simp: ft_insert_range_def range_view_def ft_look_def split: option.splits)
  next
    case (2 v)
    then show ?thesis using insert_or_assign_spec [OF s, of v]
      by (auto simp: ft_insert_range_def range_view_def ft_look_def)
  next
    case (3 v)
    obtain ys i where "ft_emplace_hint_key_args lt ky xs (length xs) (ky v) v = (ys, i, ft_look lt ky xs (ky v) = None)"
      "ft_sorted lt ky ys"
      and l: "\<And>k. ft_look lt ky ys k
         = (if ft_look lt ky xs (ky v) = None \<and> eqv (ky v) k then Some v else ft_look lt ky xs k)"
      using emplace_hint_spec [OF s order_refl, of v] by blast
    moreover have "ft_look lt ky ys k = (case ft_look lt ky xs k of None \<Rightarrow> ft_look lt ky [v] k | Some x \<Rightarrow> Some x)" for k
      unfolding l [of k] using look_cong [of "ky v" k ky xs]
      by (auto simp: look_filter [of ky "[v]" k] split: option.splits)
    ultimately show ?thesis
      using 3 by (auto simp: ft_insert_range_def range_view_def ft_insert_hint_def)
  next
    case 4
    define ow where "ow \<longleftrightarrow> dupes = KEEP_LAST_OF_DUPES"
    define F where "F = filter (\<lambda>v. ft_look lt ky xs (ky v) = None) vs"
    obtain A' pos where l: "ft_append_loop ow lt ky (length xs) xs (length xs) vs = (A' @ F, pos)"
      and post: "append_post ow ky xs (length xs) vs A' pos"
      using append_loop_spec [OF s, of ow "[]" "length xs" vs] by (auto simp: F_def)
    then have n: "length A' = length xs" "pos \<le> length xs" by (auto simp: append_post_def)
    obtain ys where ys: "ft_sort_and_unique lt ky (A' @ F) (length xs) dupes = A' @ ys" "ft_sorted lt ky ys"
      "set ys \<subseteq> set F" "\<And>k. ft_look lt ky ys k = (if \<not> ow then ft_look lt ky F k else ft_look lt ky (rev F) k)"
      by (rule sort_and_unique_spec [where n = "length xs" and body = "A' @ F" and ky = ky and dupes = dupes];
          use n in \<open>cases dupes; simp add: ow_def\<close>)
    have res: "ft_insert_range mp lt ky xs vs dupes = take pos A' @ std_merge (vlt ky) (drop pos A') ys"
      using 4 l ys(1) n unfolding ft_insert_range_def Let_def ow_def by auto
    note mb = merge_back [OF s ys(2) post ys(3) [unfolded F_def], folded res]
    have new: "ft_look lt ky ys k = (if \<not> ow then ft_look lt ky vs k else ft_look lt ky (rev vs) k)"
      if "ft_look lt ky xs k = None" for k
      using ys(4) [of k] look_filter_new [OF that] by (auto simp: F_def rev_filter)
    have old: "ft_look lt ky A' k = (if ow \<and> ft_look lt ky xs k \<noteq> None
         then case ft_look lt ky (rev vs) k of None \<Rightarrow> ft_look lt ky xs k | Some x \<Rightarrow> Some x
         else ft_look lt ky xs k)" for k
      using post by (simp add: append_post_def)
    have "ft_look lt ky (ft_insert_range mp lt ky xs vs dupes) k = range_view ky (ft_look lt ky xs) vs dupes k" for k
      using mb(2) [of k] old [of k] new [of k]
      by (cases "ft_look lt ky xs k"; cases dupes) (auto simp: range_view_def ow_def split: option.splits)
    then show ?thesis using mb(1) by auto
  qed
qed

text \<open>Lookup and erasure.\<close>

lemma equal_range_spec:
  assumes s: "ft_sorted lt ky xs"
  shows "\<exists>r \<le> length xs. ft_equal_range lt ky xs k = (r, if ft_look lt ky xs k = None then r else r + 1)
    \<and> (ft_look lt ky xs k \<noteq> None \<longrightarrow> r < length xs \<and> eqv (ky (xs ! r)) k \<and> ft_look lt ky xs k = Some (xs ! r))"
proof -
  let ?r = "ft_lower_bound lt ky xs k"
  have "?r \<le> length xs" using prefix_bound(1) [OF s order_refl] by (simp add: ft_lower_bound_def)
  then show ?thesis
    using search [OF s, of k]
    by (cases "?r = length xs \<or> lt k (ky (xs ! ?r))") (auto simp: ft_equal_range_def Let_def)
qed

lemma find_spec:
  assumes "ft_sorted lt ky xs"
  shows "ft_find lt ky xs k \<le> length xs"
    and "(if ft_find lt ky xs k = length xs then None else Some (xs ! ft_find lt ky xs k)) = ft_look lt ky xs k"
  using equal_range_spec [OF assms, of k] by (auto simp: ft_find_def)

lemma count_spec:
  assumes "ft_sorted lt ky xs"
  shows "ft_count lt ky xs k = (if ft_look lt ky xs k = None then 0 else 1)"
  using equal_range_spec [OF assms, of k] by (auto simp: ft_count_def)

lemma erase_key_spec:
  assumes s: "ft_sorted lt ky xs"
  shows "\<exists>ys. ft_erase_key lt ky xs k = (ys, if ft_look lt ky xs k = None then 0 else 1) \<and> ft_sorted lt ky ys
    \<and> (\<forall>k'. ft_look lt ky ys k' = (if eqv k k' then None else ft_look lt ky xs k'))"
proof -
  obtain r where r: "r \<le> length xs" "ft_equal_range lt ky xs k = (r, if ft_look lt ky xs k = None then r else r + 1)"
    "ft_look lt ky xs k \<noteq> None \<longrightarrow> r < length xs \<and> eqv (ky (xs ! r)) k"
    using equal_range_spec [OF s, of k] by blast
  show ?thesis
  proof (cases "ft_look lt ky xs k = None")
    case True
    moreover have "ft_look lt ky xs k' = None" if "eqv k k'" for k' using True look_cong [OF that] by metis
    ultimately show ?thesis
      using r s by (auto simp: ft_erase_key_def ft_erase_range_def)
  next
    case False
    with r have rl: "r < length xs" and e: "eqv (ky (xs ! r)) k" by auto
    have xs: "xs = take r xs @ xs ! r # drop (Suc r) xs" using rl by (rule id_take_nth_drop)
    let ?ys = "take r xs @ drop (Suc r) xs"
    have sp: "ft_sorted lt ky (take r xs @ [xs ! r] @ drop (Suc r) xs)" using s xs by simp
    have sy: "ft_sorted lt ky ?ys" using sp unfolding sorted_append by auto
    have ne: "\<not> eqv (ky x) (ky (xs ! r))" if "x \<in> set ?ys" for x
      using that sp unfolding sorted_append by (auto simp: ft_eqv_def)
    have "ft_look lt ky ?ys k' = (if eqv k k' then None else ft_look lt ky xs k')" for k'
    proof (cases "eqv k k'")
      case True
      then have "eqv (ky (xs ! r)) k'" using e eqv_trans by blast
      then have "\<not> eqv (ky x) k'" if "x \<in> set ?ys" for x using ne [OF that] eqv_trans eqv_sym by blast
      then show ?thesis using True by (simp add: look_None_iff)
    next
      case False
      then have "\<not> eqv (ky (xs ! r)) k'" using e eqv_trans eqv_sym by blast
      then have "filter (\<lambda>x. eqv (ky x) k') (take r xs @ xs ! r # drop (Suc r) xs) = filter (\<lambda>x. eqv (ky x) k') ?ys"
        by simp
      then show ?thesis using False xs by (simp add: look_filter)
    qed
    then show ?thesis
      using False r(2) sy by (auto simp: ft_erase_key_def ft_erase_range_def)
  qed
qed

lemma EraseIf_spec:
  assumes s: "ft_sorted lt ky xs"
  shows "ft_sorted lt ky (ft_EraseIf p xs)"
    and "ft_look lt ky (ft_EraseIf p xs) k
      = (case ft_look lt ky xs k of None \<Rightarrow> None | Some x \<Rightarrow> if p x then None else Some x)"
proof -
  show s': "ft_sorted lt ky (ft_EraseIf p xs)" using s by (simp add: ft_EraseIf_def ft_sorted_def sorted_wrt_filter)
  have "ft_look lt ky (ft_EraseIf p xs) k = Some x \<longleftrightarrow> ft_look lt ky xs k = Some x \<and> \<not> p x" for x
    unfolding look_Some_iff [OF s] look_Some_iff [OF s'] by (auto simp: ft_EraseIf_def)
  then show "ft_look lt ky (ft_EraseIf p xs) k
      = (case ft_look lt ky xs k of None \<Rightarrow> None | Some x \<Rightarrow> if p x then None else Some x)"
    by (intro option_eq_iffI) (auto split: option.splits)
qed

lemma of_range_spec:
  "ft_sorted lt ky (ft_of_range lt ky vs dupes)
   \<and> ft_look lt ky (ft_of_range lt ky vs dupes) = range_view ky (\<lambda>_. None) vs dupes"
proof -
  obtain ys where "ft_sort_and_unique lt ky vs 0 dupes = take 0 vs @ ys" "ft_sorted lt ky ys"
    "\<And>k. ft_look lt ky ys k = (if dupes = KEEP_FIRST_OF_DUPES then ft_look lt ky (drop 0 vs) k
        else ft_look lt ky (rev (drop 0 vs)) k)"
    by (rule sort_and_unique_spec [where n = 0 and body = vs and ky = ky and dupes = dupes]) auto
  then show ?thesis
    by (cases dupes) (auto simp: ft_of_range_def range_view_def split: option.splits)
qed

lemma flat_tree_match:
  assumes "ft_rep lt ky xs m" "map_step lt ky m op = Some (m', out)"
  shows "\<exists>ys. ft_step lt ky xs op = Some (ys, out) \<and> ft_rep lt ky ys m'"
proof -
  have s: "ft_sorted lt ky xs" and m: "m = ft_look lt ky xs" using assms(1) by (auto simp: ft_rep_def)
  show ?thesis
  proof (cases op)
    case (Insert v)
    then show ?thesis
      using assms(2) emplace_key_args_spec [OF s eqv_refl, of v]
      by (auto simp: ft_rep_def m ft_insert_def intro!: ext)
  next
    case (InsertHint h v)
    have "h mod (length xs + 1) \<le> length xs" by (simp add: less_Suc_eq_le [symmetric])
    then show ?thesis
      using InsertHint assms(2) emplace_hint_spec [OF s, of "h mod (length xs + 1)" v]
      by (auto simp: ft_rep_def m ft_insert_hint_def intro!: ext)
  next
    case (InsertOrAssign v)
    then show ?thesis
      using assms(2) insert_or_assign_spec [OF s, of v] by (auto simp: ft_rep_def m intro!: ext)
  next
    case (InsertRange mp vs dupes)
    then show ?thesis
      using assms(2) insert_range_spec [OF s, of mp vs dupes] by (auto simp: ft_rep_def m range_view_def)
  next
    case (OfRange vs dupes)
    then show ?thesis
      using assms(2) of_range_spec [of ky vs dupes] 
      by (cases dupes) (auto simp: ft_rep_def range_view_def intro!: ext split: option.splits)
  next
    case (EraseKey k)
    then show ?thesis
      using assms(2) erase_key_spec [OF s, of k] by (auto simp: ft_rep_def m intro!: ext)
  next
    case (EraseWhere p)
    then show ?thesis
      using assms(2) EraseIf_spec [OF s, of p] by (auto simp: ft_rep_def m intro!: ext)
  next
    case (Find k)
    then show ?thesis
      using assms find_spec [OF s, of k] by (auto simp: m Let_def)
  next
    case (Count k)
    then show ?thesis
      using assms count_spec [OF s, of k] by (auto simp: m)
  qed
qed

text \<open>The members of \<open>flat_map\<close>.\<close>

lemma fm_index_spec:
  assumes s: "ft_sorted lt fst body"
  shows "\<exists>ys i. fm_index lt dflt body key = (ys, i) \<and> ft_sorted lt fst ys \<and> i < length ys \<and> eqv (fst (ys ! i)) key
    \<and> (\<forall>k. ft_look lt fst ys k
         = (if ft_look lt fst body key = None \<and> eqv key k then Some (key, dflt) else ft_look lt fst body k))"
proof -
  have "fm_index lt dflt body key = (let (b, i, _) = ft_emplace_key_args lt fst body key (key, dflt) in (b, i))"
    by (simp add: fm_index_def ft_emplace_key_args_def Let_def)
  then show ?thesis using emplace_key_args_spec [OF s, of key "(key, dflt)"] by auto
qed

definition assigned :: "('k \<times> 'm) list \<Rightarrow> 'k \<Rightarrow> 'm \<Rightarrow> 'k \<Rightarrow> ('k \<times> 'm) option" where
  "assigned body key obj k = (if eqv key k
     then Some (case ft_look lt fst body key of None \<Rightarrow> (key, obj) | Some (k0, _) \<Rightarrow> (k0, obj))
     else ft_look lt fst body k)"

lemma assign_after_emplace:
  assumes s: "ft_sorted lt fst ys" and i: "i < length ys" "eqv (fst (ys ! i)) key"
    and ok: "ok \<longleftrightarrow> ft_look lt fst body key = None"
    and l: "\<And>k. ft_look lt fst ys k = (if ok \<and> eqv key k then Some (key, obj) else ft_look lt fst body k)"
  shows "ft_sorted lt fst (if ok then ys else ys[i := (fst (ys ! i), obj)])"
    and "ft_look lt fst (if ok then ys else ys[i := (fst (ys ! i), obj)]) = assigned body key obj"
proof -
  have e: "eqv (fst (ys ! i)) (fst (fst (ys ! i), obj))" by simp
  show "ft_sorted lt fst (if ok then ys else ys[i := (fst (ys ! i), obj)])"
    using update_sorted [OF s i(1) e] s by simp
  show "ft_look lt fst (if ok then ys else ys[i := (fst (ys ! i), obj)]) = assigned body key obj"
  proof (cases ok)
    case True
    then show ?thesis using l ok by (auto simp: assigned_def)
  next
    case False
    then have "ft_look lt fst body key = Some (ys ! i)"
      using l [of key] i look_Some_iff [OF s, of key "ys ! i"] by auto
    moreover have "eqv (fst (ys ! i)) k \<longleftrightarrow> eqv key k" for k using i(2) eqv_trans eqv_sym by metis
    ultimately show ?thesis
      using False l look_update [OF s i(1) e] by (auto simp: assigned_def case_prod_unfold)
  qed
qed

lemma fm_insert_or_assign_spec:
  assumes s: "ft_sorted lt fst body"
  shows "\<exists>ys i. fm_insert_or_assign lt body key obj = (ys, i, ft_look lt fst body key = None)
    \<and> ft_sorted lt fst ys \<and> ft_look lt fst ys = assigned body key obj"
proof -
  obtain ys i where e: "ft_emplace_key_args lt fst body key (key, obj) = (ys, i, ft_look lt fst body key = None)"
    and f: "ft_sorted lt fst ys" "i < length ys" "eqv (fst (ys ! i)) key"
      "\<And>k. ft_look lt fst ys k
        = (if ft_look lt fst body key = None \<and> eqv key k then Some (key, obj) else ft_look lt fst body k)"
    using emplace_key_args_spec [OF s, of key "(key, obj)"] by auto
  show ?thesis
    using assign_after_emplace [OF f(1-3) refl f(4)] e by (simp add: fm_insert_or_assign_def)
qed

lemma fm_insert_or_assign_hint_spec:
  assumes s: "ft_sorted lt fst body" and h: "h \<le> length body"
  shows "\<exists>ys i. fm_insert_or_assign_hint lt body h key obj = (ys, i)
    \<and> ft_sorted lt fst ys \<and> ft_look lt fst ys = assigned body key obj"
proof -
  obtain ys i where e: "ft_emplace_hint_key_args lt fst body h key (key, obj) = (ys, i, ft_look lt fst body key = None)"
    and f: "ft_sorted lt fst ys" "i < length ys" "eqv (fst (ys ! i)) key"
      "\<And>k. ft_look lt fst ys k
        = (if ft_look lt fst body key = None \<and> eqv key k then Some (key, obj) else ft_look lt fst body k)"
    using emplace_hint_spec [OF s h, of "(key, obj)"] by auto
  show ?thesis
    using assign_after_emplace [OF f(1-3) refl f(4)] e by (simp add: fm_insert_or_assign_hint_def)
qed

text \<open>Binary search finds what a scan from the front finds.\<close>

lemma partition_scan:
  assumes "\<And>i j. i < j \<Longrightarrow> j < length xs \<Longrightarrow> p (xs ! j) \<Longrightarrow> p (xs ! i)"
  shows "partition_loop p xs 0 (length xs) = length (takeWhile p xs)"
proof -
  let ?r = "partition_loop p xs 0 (length xs)"
  have r: "?r \<le> length xs" "\<forall>i < ?r. p (xs ! i)" "\<forall>i. ?r \<le> i \<and> i < length xs \<longrightarrow> \<not> p (xs ! i)"
    using partition_loop_spec [of 0 "length xs" xs p] assms by auto
  have "?r \<le> length (takeWhile p xs)" using r by (intro length_takeWhile_less_P_nth) auto
  moreover have "length (takeWhile p xs) \<le> ?r"
  proof (rule ccontr)
    assume "\<not> length (takeWhile p xs) \<le> ?r"
    then have q: "?r < length (takeWhile p xs)" by simp
    then have "p (takeWhile p xs ! ?r)" using nth_mem set_takeWhileD by metis
    then show False using q r(3) length_takeWhile_le [of p xs] by (auto simp: takeWhile_nth)
  qed
  ultimately show ?thesis by simp
qed

lemma lower_bound_scan:
  assumes "ft_sorted lt ky xs"
  shows "ft_lower_bound lt ky xs k = length (takeWhile (\<lambda>x. lt (ky x) k) xs)"
  unfolding ft_lower_bound_def using sorted_nth [OF assms] trans by (intro partition_scan) blast

lemma upper_bound_scan:
  assumes "ft_sorted lt ky xs"
  shows "ft_upper_bound lt ky xs k = length (takeWhile (\<lambda>x. \<not> lt k (ky x)) xs)"
  unfolding ft_upper_bound_def using sorted_nth [OF assms] trans by (intro partition_scan) blast

lemma equal_range_scan:
  assumes "ft_sorted lt ky xs"
  shows "ft_equal_range lt ky xs k = (ft_lower_bound lt ky xs k, ft_upper_bound lt ky xs k)"
proof -
  let ?r = "ft_lower_bound lt ky xs k"
  have mono: "\<not> lt k (ky (xs ! i))" if "i < j" "j < length xs" "\<not> lt k (ky (xs ! j))" for i j
    using sorted_nth [OF assms that(1,2)] that(3) trans by blast
  have "0 \<le> ft_upper_bound lt ky xs k \<and> ft_upper_bound lt ky xs k \<le> 0 + length xs
      \<and> (\<forall>i. 0 \<le> i \<and> i < ft_upper_bound lt ky xs k \<longrightarrow> \<not> lt k (ky (xs ! i)))
      \<and> (\<forall>i. ft_upper_bound lt ky xs k \<le> i \<and> i < 0 + length xs \<longrightarrow> \<not> \<not> lt k (ky (xs ! i)))"
    unfolding ft_upper_bound_def using mono by (intro partition_loop_spec) auto
  then have u: "ft_upper_bound lt ky xs k \<le> length xs" "\<And>i. i < ft_upper_bound lt ky xs k \<Longrightarrow> \<not> lt k (ky (xs ! i))"
    "\<And>i. ft_upper_bound lt ky xs k \<le> i \<Longrightarrow> i < length xs \<Longrightarrow> lt k (ky (xs ! i))" by auto
  note b = prefix_bound [OF assms order_refl, where k = k, folded ft_lower_bound_def]
  show ?thesis
  proof (cases "?r = length xs \<or> lt k (ky (xs ! ?r))")
    case True
    have "\<not> ?r < ft_upper_bound lt ky xs k" using True u(1,2) by auto
    moreover have "\<not> ft_upper_bound lt ky xs k < ?r" using u(3) b(1,2) asym by (meson less_le_trans order_refl)
    ultimately show ?thesis using True by (simp add: ft_equal_range_def Let_def)
  next
    case False
    then have r: "?r < length xs" "eqv (ky (xs ! ?r)) k" using search(2) [OF assms, of k] by auto
    have "?r < ft_upper_bound lt ky xs k" using u(3) [of ?r] r False by (meson not_le)
    moreover have "\<not> Suc ?r < ft_upper_bound lt ky xs k"
    proof
      assume q: "Suc ?r < ft_upper_bound lt ky xs k"
      then have "lt (ky (xs ! ?r)) (ky (xs ! Suc ?r))" using sorted_nth [OF assms, of ?r "Suc ?r"] u(1) by simp
      then have "lt k (ky (xs ! Suc ?r))" using lt_cong(1) [OF r(2)] by blast
      then show False using u(2) [OF q] by simp
    qed
    ultimately show ?thesis using False by (simp add: ft_equal_range_def Let_def)
  qed
qed

lemma count_scan:
  assumes "ft_sorted lt ky xs"
  shows "ft_count lt ky xs k = length (filter (\<lambda>x. eqv (ky x) k) xs)"
proof -
  have "\<not> (eqv (ky x) k \<and> eqv (ky y) k)" if "lt (ky x) (ky y)" for x y
    using that eqv_trans eqv_sym unfolding ft_eqv_def by metis
  then have "length (filter (\<lambda>x. eqv (ky x) k) xs) \<le> 1"
    using assms by (induction xs) (auto simp: ft_sorted_def filter_empty_conv)
  then show ?thesis
    using count_spec [OF assms, of k] by (auto simp: look_filter split: list.splits)
qed

end

sublocale strict_weak_order \<subseteq> flat_tree: data_refinement "ft_rep lt ky" "ft_step lt ky" "map_step lt ky" for ky
  by unfold_locales (rule flat_tree_match)

context strict_weak_order
begin

lemmas flat_tree_run = flat_tree.run

end

text \<open>
  \<open>std::less\<close> on a totally ordered type, and the orders of \<open>gfx::Point\<close> and \<open>gfx::Rect\<close>, are
  strict weak orders, so containers keyed by them behave as maps.
\<close>

interpretation std_less: strict_weak_order "(<) :: 'k :: linorder \<Rightarrow> 'k \<Rightarrow> bool"
  by unfold_locales (auto simp: ft_eqv_def)

interpretation point_less: strict_weak_order pt_less
  by unfold_locales (auto simp: ft_eqv_def pt_less_def)

interpretation rect_less: strict_weak_order r_less
  by unfold_locales (auto simp: ft_eqv_def r_less_def pt_less_def split: if_splits)

lemma map_steps_total: "\<exists>m' outs. run_ops (map_step lt ky) m ops = Some (m', outs)"
proof (induction ops arbitrary: m)
  case (Cons op ops)
  obtain m1 out where "map_step lt ky m op = Some (m1, out)" by (cases op) auto
  with Cons [of m1] show ?case by auto
qed simp

section \<open>Properties\<close>

text \<open>
  C32: for every comparator that is a strict weak order and every sequence of insertions (single,
  hinted, by range with either policy for duplicates), reconstructions, erasures and lookups, the
  sorted vector stays strictly sorted and gives the same outputs and contents as the map from
  keys to elements.
\<close>

theorem flat_tree_refines_map:
  assumes "strict_weak_order lt" and "ft_sorted lt ky body"
  shows "\<exists>body' outs. run_ops (ft_step lt ky) body ops = Some (body', outs)
    \<and> run_ops (map_step lt ky) (ft_look lt ky body) ops = Some (ft_look lt ky body', outs)
    \<and> ft_sorted lt ky body'"
proof -
  obtain m' outs where m': "run_ops (map_step lt ky) (ft_look lt ky body) ops = Some (m', outs)"
    using map_steps_total by blast
  from strict_weak_order.flat_tree_run [OF assms(1) _ m', of body] assms(2)
  show ?thesis using m' by (auto simp: ft_rep_def)
qed

theorem flat_tree_refines_map_witness:
  "\<exists>body' outs. run_ops (ft_step (<) id) [2 :: nat, 5]
      [Insert 7, InsertRange True [9, 5, 1, 9] KEEP_LAST_OF_DUPES, EraseKey 2, Count 9] = Some (body', outs)
    \<and> run_ops (map_step (<) id) (ft_look (<) id [2 :: nat, 5])
      [Insert 7, InsertRange True [9, 5, 1, 9] KEEP_LAST_OF_DUPES, EraseKey 2, Count 9]
      = Some (ft_look (<) id body', outs)
    \<and> ft_sorted (<) id body'"
  by (rule flat_tree_refines_map) (unfold_locales, simp add: ft_sorted_def)

text \<open>
  \<open>lower_bound\<close>, \<open>upper_bound\<close> and \<open>equal_range\<close>, found by binary search, are the positions a
  scan from the front finds, and \<open>count\<close> is the number of equivalent elements.
\<close>

theorem ft_bounds_scan:
  assumes "strict_weak_order lt" and "ft_sorted lt ky body"
  shows "ft_lower_bound lt ky body k = length (takeWhile (\<lambda>x. lt (ky x) k) body)
    \<and> ft_upper_bound lt ky body k = length (takeWhile (\<lambda>x. \<not> lt k (ky x)) body)
    \<and> ft_equal_range lt ky body k = (ft_lower_bound lt ky body k, ft_upper_bound lt ky body k)
    \<and> ft_count lt ky body k = length (filter (\<lambda>x. ft_eqv lt (ky x) k) body)"
  using strict_weak_order.lower_bound_scan [OF assms] strict_weak_order.upper_bound_scan [OF assms]
    strict_weak_order.equal_range_scan [OF assms] strict_weak_order.count_scan [OF assms]
  by simp

theorem ft_bounds_scan_witness:
  "ft_sorted (<) id [2, 5, 7 :: nat] \<and> ft_lower_bound (<) id [2, 5, 7 :: nat] 5 = 1
    \<and> ft_upper_bound (<) id [2, 5, 7 :: nat] 5 = 2"
proof -
  have "ft_sorted (<) id [2, 5, 7 :: nat]" by (simp add: ft_sorted_def)
  with ft_bounds_scan [of "(<)" id "[2, 5, 7 :: nat]" 5, OF std_less.strict_weak_order_axioms this]
  show ?thesis by simp
qed

text \<open>
  \<open>LastUnique\<close>, which moves elements within the range with two cursors, leaves in front of the
  end it returns exactly the last element of each run of equal elements, in order.
\<close>

theorem LastUnique_keeps_last: "take (snd (LastUnique eq xs)) (fst (LastUnique eq xs)) = last_of_runs eq xs"
  by (rule LastUnique_eq)

text \<open>
  on a sorted \<open>flat_map\<close>, \<open>operator[]\<close> inserts a default value exactly when the key is new and
  returns the position of the key's element; both forms of \<open>insert_or_assign\<close> set the mapped value
  of the key, keep the key already stored and touch no other entry; \<open>try_emplace\<close> changes nothing
  when the key is present.
\<close>

theorem flat_map_assignment:
  assumes "strict_weak_order lt" and "ft_sorted lt fst body" and "h \<le> length body"
  shows "(\<exists>ys i. fm_index lt dflt body key = (ys, i) \<and> ft_sorted lt fst ys \<and> i < length ys
      \<and> ft_eqv lt (fst (ys ! i)) key
      \<and> (\<forall>k. ft_look lt fst ys k = (if ft_look lt fst body key = None \<and> ft_eqv lt key k then Some (key, dflt)
           else ft_look lt fst body k)))
    \<and> (\<exists>ys i. fm_insert_or_assign lt body key obj = (ys, i, ft_look lt fst body key = None)
      \<and> ft_sorted lt fst ys
      \<and> (\<forall>k. ft_look lt fst ys k = (if ft_eqv lt key k
           then Some (case ft_look lt fst body key of None \<Rightarrow> (key, obj) | Some (k0, _) \<Rightarrow> (k0, obj))
           else ft_look lt fst body k)))
    \<and> (\<exists>ys i. fm_insert_or_assign_hint lt body h key obj = (ys, i) \<and> ft_sorted lt fst ys
      \<and> (\<forall>k. ft_look lt fst ys k = (if ft_eqv lt key k
           then Some (case ft_look lt fst body key of None \<Rightarrow> (key, obj) | Some (k0, _) \<Rightarrow> (k0, obj))
           else ft_look lt fst body k)))
    \<and> (ft_look lt fst body key \<noteq> None \<longrightarrow> (\<exists>i. fm_try_emplace lt body key obj = (body, i, False)))"
proof (intro conjI impI)
  note eqs = strict_weak_order.assigned_def [OF assms(1)]
  show "\<exists>ys i. fm_index lt dflt body key = (ys, i) \<and> ft_sorted lt fst ys \<and> i < length ys
      \<and> ft_eqv lt (fst (ys ! i)) key
      \<and> (\<forall>k. ft_look lt fst ys k = (if ft_look lt fst body key = None \<and> ft_eqv lt key k then Some (key, dflt)
           else ft_look lt fst body k))"
    by (rule strict_weak_order.fm_index_spec [OF assms(1,2)])
  show "\<exists>ys i. fm_insert_or_assign lt body key obj = (ys, i, ft_look lt fst body key = None) \<and> ft_sorted lt fst ys
      \<and> (\<forall>k. ft_look lt fst ys k = (if ft_eqv lt key k
           then Some (case ft_look lt fst body key of None \<Rightarrow> (key, obj) | Some (k0, _) \<Rightarrow> (k0, obj))
           else ft_look lt fst body k))"
    using strict_weak_order.fm_insert_or_assign_spec [OF assms(1,2), of key obj] by (simp add: fun_eq_iff eqs)
  show "\<exists>ys i. fm_insert_or_assign_hint lt body h key obj = (ys, i) \<and> ft_sorted lt fst ys
      \<and> (\<forall>k. ft_look lt fst ys k = (if ft_eqv lt key k
           then Some (case ft_look lt fst body key of None \<Rightarrow> (key, obj) | Some (k0, _) \<Rightarrow> (k0, obj))
           else ft_look lt fst body k))"
    using strict_weak_order.fm_insert_or_assign_hint_spec [OF assms, of key obj] by (simp add: fun_eq_iff eqs)
  show "\<exists>i. fm_try_emplace lt body key obj = (body, i, False)" if "ft_look lt fst body key \<noteq> None"
    using strict_weak_order.search [OF assms(1,2), of key] that
    by (auto simp: fm_try_emplace_def ft_emplace_key_args_def Let_def)
qed

theorem flat_map_assignment_witness:
  "\<exists>ys i. fm_insert_or_assign (<) [(1 :: nat, CHR ''a''), (4, CHR ''d'')] 4 CHR ''x'' = (ys, i, False)
    \<and> ft_sorted (<) fst ys \<and> ft_look (<) fst ys 4 = Some (4, CHR ''x'') \<and> ft_look (<) fst ys 1 = Some (1, CHR ''a'')"
proof -
  let ?b = "[(1 :: nat, CHR ''a''), (4, CHR ''d'')]"
  have "ft_sorted (<) fst ?b" "0 \<le> length ?b" by (simp_all add: ft_sorted_def)
  from flat_map_assignment [OF std_less.strict_weak_order_axioms this, of "CHR ''0''" 4 "CHR ''x''"]
  obtain ys i where "fm_insert_or_assign (<) ?b 4 CHR ''x'' = (ys, i, ft_look (<) fst ?b 4 = None)" "ft_sorted (<) fst ys"
    "\<And>k. ft_look (<) fst ys k = (if ft_eqv (<) 4 k
       then Some (case ft_look (<) fst ?b 4 of None \<Rightarrow> (4, CHR ''x'') | Some (k0, _) \<Rightarrow> (k0, CHR ''x''))
       else ft_look (<) fst ?b k)" by blast
  moreover have "ft_look (<) fst ?b 4 = Some (4, CHR ''d'')" "ft_look (<) fst ?b 1 = Some (1, CHR ''a'')"
    by (simp_all add: ft_look_def ft_eqv_def)
  ultimately show ?thesis by (simp add: ft_eqv_def del: One_nat_def)
qed

end
