(* ===== verification/Lazily_Deallocated_Deque.thy ===== *)
theory Lazily_Deallocated_Deque
  imports Circular_Deque
begin

text \<open>
  The queue under the work queues,
  \<open>base/task/sequence_manager/lazily_deallocated_deque.h\<close>: a chain of ring buffers, the first
  ones full, that grows by appending a larger ring and is only reallocated when the surrounding
  code asks for it. The chain is the list of its rings from \<open>head_\<close> on, so \<open>tail_\<close> is the last
  one, null exactly when there is none; cells are raw or live as in a vector buffer. The clock, in
  microseconds, is an argument.
\<close>

section \<open>Ring\<close>

record 'a Ring =
  rg_capacity :: nat
  rg_front_index :: nat
  rg_back_index :: nat
  rg_data :: "'a vector_buffer"

definition kMinimumRingSize :: nat where "kMinimumRingSize = 4"
definition kReclaimThreshold :: nat where "kReclaimThreshold = 16"
definition kMinimumShrinkIntervalInSeconds :: int where "kMinimumShrinkIntervalInSeconds = 5"

definition rg_new :: "nat \<Rightarrow> 'a Ring option" where
  "rg_new capacity =
     (if kMinimumRingSize \<le> capacity
      then Some \<lparr>rg_capacity = capacity, rg_front_index = 0, rg_back_index = 0, rg_data = vb_new capacity\<rparr>
      else None)"

definition rg_empty :: "'a Ring \<Rightarrow> bool" where
  "rg_empty r \<longleftrightarrow> rg_back_index r = rg_front_index r"

definition rg_CircularDecrement :: "'a Ring \<Rightarrow> nat \<Rightarrow> nat" where
  "rg_CircularDecrement r index = (if index = 0 then rg_capacity r - 1 else index - 1)"

definition rg_CircularIncrement :: "'a Ring \<Rightarrow> nat \<Rightarrow> nat option" where
  "rg_CircularIncrement r index =
     (if index < rg_capacity r then Some (if index + 1 = rg_capacity r then 0 else index + 1) else None)"

definition rg_CanPush :: "'a Ring \<Rightarrow> bool option" where
  "rg_CanPush r = do { i \<leftarrow> rg_CircularIncrement r (rg_back_index r); Some (rg_front_index r \<noteq> i) }"

definition rg_push_front :: "'a Ring \<Rightarrow> 'a \<Rightarrow> 'a Ring option" where
  "rg_push_front r t =
     (if rg_CircularDecrement r (rg_front_index r) = rg_back_index r then None
      else do {
        data \<leftarrow> vb_construct (rg_data r) (rg_front_index r) t;
        Some (r\<lparr>rg_data := data, rg_front_index := rg_CircularDecrement r (rg_front_index r)\<rparr>)
      })"

definition rg_push_back :: "'a Ring \<Rightarrow> 'a \<Rightarrow> 'a Ring option" where
  "rg_push_back r t = do {
     i \<leftarrow> rg_CircularIncrement r (rg_back_index r);
     let r = r\<lparr>rg_back_index := i\<rparr>;
     if rg_empty r then None
     else do { data \<leftarrow> vb_construct (rg_data r) i t; Some (r\<lparr>rg_data := data\<rparr>) }
   }"

definition rg_pop_front :: "'a Ring \<Rightarrow> 'a Ring option" where
  "rg_pop_front r =
     (if rg_empty r then None
      else do {
        i \<leftarrow> rg_CircularIncrement r (rg_front_index r);
        data \<leftarrow> vb_destroy (rg_data r) i;
        Some (r\<lparr>rg_front_index := i, rg_data := data\<rparr>)
      })"

definition rg_front :: "'a Ring \<Rightarrow> 'a option" where
  "rg_front r =
     (if rg_empty r then None
      else do { i \<leftarrow> rg_CircularIncrement r (rg_front_index r); vb_get (rg_data r) i })"

definition rg_back :: "'a Ring \<Rightarrow> 'a option" where
  "rg_back r = (if rg_empty r then None else vb_get (rg_data r) (rg_back_index r))"

text \<open>The destructor pops what is left; a live object in the freed memory would be lost.\<close>

partial_function (option) rg_destroy :: "'a Ring \<Rightarrow> unit option" where
  "rg_destroy r =
     (if rg_empty r then (if list_all (\<lambda>c. c = None) (rg_data r) then Some () else None)
      else do { r \<leftarrow> rg_pop_front r; rg_destroy r })"

section \<open>The deque\<close>

record 'a LazilyDeallocatedDeque =
  ld_rings :: "'a Ring list"
  ld_size :: nat
  ld_max_size :: nat
  ld_next_resize_time :: int

definition ld_new :: "'a LazilyDeallocatedDeque" where
  "ld_new = \<lparr>ld_rings = [], ld_size = 0, ld_max_size = 0, ld_next_resize_time = 0\<rparr>"

definition ld_empty :: "'a LazilyDeallocatedDeque \<Rightarrow> bool" where
  "ld_empty d \<longleftrightarrow> ld_size d = 0"

definition ld_capacity :: "'a LazilyDeallocatedDeque \<Rightarrow> nat" where
  "ld_capacity d = sum_list (map rg_capacity (ld_rings d))"

fun ld_free :: "'a Ring list \<Rightarrow> unit option" where
  "ld_free [] = Some ()"
| "ld_free (r # rs) = do { _ \<leftarrow> rg_destroy r; ld_free rs }"

definition ld_clear :: "'a LazilyDeallocatedDeque \<Rightarrow> 'a LazilyDeallocatedDeque option" where
  "ld_clear d = do { _ \<leftarrow> ld_free (ld_rings d); Some (d\<lparr>ld_rings := [], ld_size := 0\<rparr>) }"

definition ld_ensure_ring :: "'a LazilyDeallocatedDeque \<Rightarrow> 'a Ring list option" where
  "ld_ensure_ring d =
     (if ld_rings d = [] then do { r \<leftarrow> rg_new kMinimumRingSize; Some [r] } else Some (ld_rings d))"

definition ld_pushed :: "'a LazilyDeallocatedDeque \<Rightarrow> 'a Ring list \<Rightarrow> 'a LazilyDeallocatedDeque" where
  "ld_pushed d rings = d\<lparr>ld_rings := rings, ld_size := ld_size d + 1, ld_max_size := max (ld_max_size d) (ld_size d + 1)\<rparr>"

definition ld_push_front :: "'a LazilyDeallocatedDeque \<Rightarrow> 'a \<Rightarrow> 'a LazilyDeallocatedDeque option" where
  "ld_push_front d t = do {
     rings \<leftarrow> ld_ensure_ring d;
     b \<leftarrow> rg_CanPush (hd rings);
     rings \<leftarrow> (if b then Some rings else do { r \<leftarrow> rg_new kMinimumRingSize; Some (r # rings) });
     r \<leftarrow> rg_push_front (hd rings) t;
     Some (ld_pushed d (r # tl rings))
   }"

definition ld_push_back :: "'a LazilyDeallocatedDeque \<Rightarrow> 'a \<Rightarrow> 'a LazilyDeallocatedDeque option" where
  "ld_push_back d t = do {
     rings \<leftarrow> ld_ensure_ring d;
     b \<leftarrow> rg_CanPush (last rings);
     rings \<leftarrow> (if b then Some rings else do { r \<leftarrow> rg_new (rg_capacity (last rings) * 2); Some (rings @ [r]) });
     r \<leftarrow> rg_push_back (last rings) t;
     Some (ld_pushed d (butlast rings @ [r]))
   }"

definition ld_front :: "'a LazilyDeallocatedDeque \<Rightarrow> 'a option" where
  "ld_front d = (if ld_rings d = [] then None else rg_front (hd (ld_rings d)))"

definition ld_back :: "'a LazilyDeallocatedDeque \<Rightarrow> 'a option" where
  "ld_back d = (if ld_rings d = [] then None else rg_back (last (ld_rings d)))"

definition ld_pop_front :: "'a LazilyDeallocatedDeque \<Rightarrow> 'a LazilyDeallocatedDeque option" where
  "ld_pop_front d =
     (if ld_rings d = [] \<or> ld_size d = 0 then None
      else do {
        r \<leftarrow> rg_pop_front (hd (ld_rings d));
        rings \<leftarrow> (if rg_empty r \<and> tl (ld_rings d) \<noteq> [] then do { _ \<leftarrow> rg_destroy r; Some (tl (ld_rings d)) }
                 else Some (r # tl (ld_rings d)));
        Some (d\<lparr>ld_rings := rings, ld_size := ld_size d - 1\<rparr>)
      })"

definition ld_swap :: "'a LazilyDeallocatedDeque \<Rightarrow> 'a LazilyDeallocatedDeque \<Rightarrow> 'a LazilyDeallocatedDeque \<times> 'a LazilyDeallocatedDeque" where
  "ld_swap d other = (other, d)"

text \<open>The loop of \<open>SetCapacity\<close> moves the elements one by one.\<close>

lemma ld_pop_front_less: "ld_pop_front d = Some d' \<Longrightarrow> ld_size d' < ld_size d"
  by (auto simp: ld_pop_front_def bind_eq_Some_conv split: if_splits)

function ld_move_all :: "'a LazilyDeallocatedDeque \<Rightarrow> 'a Ring \<Rightarrow> ('a LazilyDeallocatedDeque \<times> 'a Ring) option" where
  "ld_move_all d new_ring =
     (if ld_empty d then Some (d, new_ring)
      else do {
        b \<leftarrow> rg_CanPush new_ring;
        if b \<and> ld_rings d \<noteq> [] then do {
          v \<leftarrow> rg_front (hd (ld_rings d));
          new_ring \<leftarrow> rg_push_back new_ring v;
          d \<leftarrow> ld_pop_front d;
          ld_move_all d new_ring
        } else None
      })"
  by auto
termination
  by (relation "measure (\<lambda>(d, _). ld_size d)") (auto simp: ld_pop_front_less)

definition ld_SetCapacity :: "'a LazilyDeallocatedDeque \<Rightarrow> nat \<Rightarrow> 'a LazilyDeallocatedDeque option" where
  "ld_SetCapacity d new_capacity = do {
     new_ring \<leftarrow> rg_new new_capacity;
     if ld_size d + 1 \<le> new_capacity then do {
       (d', new_ring) \<leftarrow> ld_move_all d new_ring;
       if length (ld_rings d') \<le> 1 then do {
         _ \<leftarrow> ld_free (ld_rings d');
         Some (d'\<lparr>ld_rings := [new_ring], ld_size := ld_size d\<rparr>)
       } else None
     } else None
   }"

definition ld_MaybeShrinkQueue :: "'a LazilyDeallocatedDeque \<Rightarrow> int \<Rightarrow> 'a LazilyDeallocatedDeque option" where
  "ld_MaybeShrinkQueue d current_time =
     (if ld_rings d = [] then Some d
      else if ld_max_size d < ld_size d then None
      else if current_time < ld_next_resize_time d then Some d
      else
        let new_capacity = max (ld_max_size d + 1) kMinimumRingSize;
            d = d\<lparr>ld_max_size := ld_size d\<rparr> in
        if new_capacity + kReclaimThreshold \<ge> ld_capacity d then Some d
        else do {
          d \<leftarrow> ld_SetCapacity d new_capacity;
          Some (d\<lparr>ld_next_resize_time := current_time + 1000000 * kMinimumShrinkIntervalInSeconds\<rparr>)
        })"

section \<open>Iterators\<close>

text \<open>
  An iterator points into a ring of the chain: the rings from there on, none for the null pointer,
  and an index. The range-based loop compares iterators by their conversion to \<open>bool\<close>.
\<close>

type_synonym 'a ld_iterator = "'a Ring list \<times> nat"

definition ld_begin :: "'a LazilyDeallocatedDeque \<Rightarrow> 'a ld_iterator option" where
  "ld_begin d =
     (if ld_rings d = [] \<or> rg_empty (hd (ld_rings d)) then Some ([], 0)
      else do {
        i \<leftarrow> rg_CircularIncrement (hd (ld_rings d)) (rg_front_index (hd (ld_rings d)));
        Some (ld_rings d, i)
      })"

fun ldi_deref :: "'a ld_iterator \<Rightarrow> 'a option" where
  "ldi_deref ([], i) = None"
| "ldi_deref (r # rs, i) = vb_get (rg_data r) i"

fun ldi_increment :: "'a ld_iterator \<Rightarrow> 'a ld_iterator option" where
  "ldi_increment ([], i) = None"
| "ldi_increment (r # rs, i) =
     (if i = rg_back_index r then Some (rs, 0)
      else do { i \<leftarrow> rg_CircularIncrement r i; Some (r # rs, i) })"

partial_function (option) ldi_collect :: "'a ld_iterator \<Rightarrow> 'a list option" where
  "ldi_collect it =
     (if fst it = [] then Some []
      else do { v \<leftarrow> ldi_deref it; it \<leftarrow> ldi_increment it; vs \<leftarrow> ldi_collect it; Some (v # vs) })"

definition ld_iterate :: "'a LazilyDeallocatedDeque \<Rightarrow> 'a list option" where
  "ld_iterate d = do { it \<leftarrow> ld_begin d; ldi_collect it }"

section \<open>A ring holds a list\<close>

text \<open>
  Read from the cell after \<open>front_index_\<close> on, the buffer is the live elements followed by raw
  memory, at least one cell of it.
\<close>

definition rg_rep :: "'a Ring \<Rightarrow> 'a list \<Rightarrow> bool" where
  "rg_rep r xs \<longleftrightarrow> length (rg_data r) = rg_capacity r \<and> 4 \<le> rg_capacity r \<and> length xs < rg_capacity r
    \<and> rg_front_index r < rg_capacity r \<and> rg_back_index r = (rg_front_index r + length xs) mod rg_capacity r
    \<and> rotate (Suc (rg_front_index r)) (rg_data r) = map Some xs @ replicate (rg_capacity r - length xs) None"

declare rotate_Suc [simp del]

lemma rotate_update:
  assumes "i < length xs"
  shows "rotate n (xs[(n + i) mod length xs := v]) = (rotate n xs)[i := v]"
proof (rule nth_equalityI)
  fix j assume j: "j < length (rotate n (xs[(n + i) mod length xs := v]))"
  then have "(n + j) mod length xs = (n + i) mod length xs \<longleftrightarrow> j = i" using assms ring_inj [of j "length xs" i n] by simp
  moreover have "(n + j) mod length xs < length xs" using assms by (intro mod_less_divisor) auto
  ultimately show "rotate n (xs[(n + i) mod length xs := v]) ! j = (rotate n xs)[i := v] ! j"
    using j assms by (cases "i = j") (simp_all add: nth_rotate)
qed simp

lemma rg_rep_capacity: "rg_rep r xs \<Longrightarrow> 4 \<le> rg_capacity r"
  by (simp add: rg_rep_def)

lemma rg_cell:
  assumes "rg_rep r xs" "i < rg_capacity r"
  shows "rg_data r ! ((Suc (rg_front_index r) + i) mod rg_capacity r) = (if i < length xs then Some (xs ! i) else None)"
proof -
  have "rotate (Suc (rg_front_index r)) (rg_data r) ! i = rg_data r ! ((Suc (rg_front_index r) + i) mod rg_capacity r)"
    using nth_rotate [of i "rg_data r" "Suc (rg_front_index r)"] assms by (auto simp: rg_rep_def)
  moreover have "(map Some xs @ replicate (rg_capacity r - length xs) None) ! i = (if i < length xs then Some (xs ! i) else None)"
    using assms by (auto simp: rg_rep_def nth_append)
  ultimately show ?thesis using assms(1) by (simp add: rg_rep_def)
qed

lemma rg_empty_rep: "rg_rep r xs \<Longrightarrow> rg_empty r \<longleftrightarrow> xs = []"
  using ring_inj [of "length xs" "rg_capacity r" 0 "rg_front_index r"] by (auto simp: rg_rep_def rg_empty_def)

lemma rg_inc: "i < rg_capacity r \<Longrightarrow> rg_CircularIncrement r i = Some (Suc i mod rg_capacity r)"
  by (auto simp: rg_CircularIncrement_def mod_Suc)

lemma rg_CanPush_rep:
  assumes "rg_rep r xs"
  shows "rg_CanPush r = Some (length xs + 1 < rg_capacity r)"
proof -
  let ?c = "rg_capacity r" and ?f = "rg_front_index r"
  have b: "rg_back_index r < ?c" using assms by (auto simp: rg_rep_def)
  have "Suc (rg_back_index r) mod ?c = (?f + Suc (length xs)) mod ?c" using assms by (simp add: rg_rep_def mod_Suc_eq)
  moreover have "?f = (?f + Suc (length xs)) mod ?c \<longleftrightarrow> Suc (length xs) = ?c"
    using ring_inj [of 0 ?c "Suc (length xs)" ?f] assms by (cases "Suc (length xs) = ?c") (auto simp: rg_rep_def)
  ultimately show ?thesis using b assms by (auto simp: rg_CanPush_def rg_inc rg_rep_def)
qed

lemma rotate_replicate: "rotate m (replicate n x) = replicate n x"
  by (rule nth_equalityI) (auto simp: nth_rotate)

lemma rg_new_rep: "4 \<le> n \<Longrightarrow> \<exists>r. rg_new n = Some r \<and> rg_rep r [] \<and> rg_capacity r = n"
  by (auto simp: rg_new_def kMinimumRingSize_def rg_rep_def vb_new_def rotate_replicate)

lemma rg_push_back_rep:
  assumes "rg_rep r xs" "length xs + 1 < rg_capacity r"
  shows "\<exists>r'. rg_push_back r v = Some r' \<and> rg_rep r' (xs @ [v]) \<and> rg_capacity r' = rg_capacity r"
proof -
  let ?c = "rg_capacity r" and ?f = "rg_front_index r" and ?i = "(Suc (rg_front_index r) + length xs) mod rg_capacity r"
  have b: "rg_back_index r < ?c" using assms by (auto simp: rg_rep_def)
  have i: "rg_CircularIncrement r (rg_back_index r) = Some ?i" using assms b by (simp add: rg_inc rg_rep_def mod_Suc_eq)
  have lt: "?i < ?c" using assms(2) by (intro mod_less_divisor) simp
  have ne: "?i \<noteq> ?f" using ring_inj [of 0 ?c "Suc (length xs)" ?f] assms by (auto simp: rg_rep_def)
  have raw: "rg_data r ! ?i = None" using rg_cell [OF assms(1), of "length xs"] assms(2) by simp
  let ?r = "r\<lparr>rg_back_index := ?i, rg_data := (rg_data r)[?i := Some v]\<rparr>"
  have "rg_push_back r v = Some ?r"
    using i lt ne raw assms(1) by (simp add: rg_push_back_def rg_empty_def vb_construct_def rg_rep_def Let_def)
  moreover have "rotate (Suc ?f) ((rg_data r)[?i := Some v]) = map Some (xs @ [v]) @ replicate (?c - length (xs @ [v])) None"
  proof -
    have "rotate (Suc ?f) ((rg_data r)[?i := Some v]) = (map Some xs @ replicate (?c - length xs) None)[length xs := Some v]"
      using rotate_update [of "length xs" "rg_data r" "Suc ?f" "Some v"] assms by (simp add: rg_rep_def)
    moreover have "?c - length xs = Suc (?c - Suc (length xs))" using assms(2) by simp
    ultimately show ?thesis by (simp add: list_update_append)
  qed
  ultimately show ?thesis using assms by (auto simp: rg_rep_def)
qed

lemma rg_push_front_rep:
  assumes "rg_rep r xs" "length xs + 1 < rg_capacity r"
  shows "\<exists>r'. rg_push_front r v = Some r' \<and> rg_rep r' (v # xs) \<and> rg_capacity r' = rg_capacity r"
proof -
  let ?c = "rg_capacity r" and ?f = "rg_front_index r"
  let ?d = "rg_CircularDecrement r ?f"
  have f: "?f < ?c" and len: "length (rg_data r) = ?c" using assms by (auto simp: rg_rep_def)
  have d: "?d < ?c" "Suc ?d mod ?c = ?f" using f by (auto simp: rg_CircularDecrement_def)
  have bk: "(?d + Suc (length xs)) mod ?c = rg_back_index r"
    using d(2) assms(1) mod_add_left_eq [of "Suc ?d" ?c "length xs"] by (simp add: rg_rep_def)
  have ne: "?d \<noteq> rg_back_index r" using ring_inj [of 0 ?c "Suc (length xs)" ?d] assms(2) d(1) bk by auto
  have lst: "(Suc ?f + (?c - 1)) mod ?c = ?f" using f by simp
  have raw: "rg_data r ! ?f = None" using rg_cell [OF assms(1), of "?c - 1"] assms(2) lst by simp
  let ?r = "r\<lparr>rg_data := (rg_data r)[?f := Some v], rg_front_index := ?d\<rparr>"
  have "rg_push_front r v = Some ?r" using ne raw f len by (simp add: rg_push_front_def vb_construct_def)
  moreover have "rotate (Suc ?d) ((rg_data r)[?f := Some v]) = map Some (v # xs) @ replicate (?c - Suc (length xs)) None"
  proof -
    have "rotate (Suc ?f) ((rg_data r)[?f := Some v]) = (map Some xs @ replicate (?c - length xs) None)[?c - 1 := Some v]"
      using rotate_update [of "?c - 1" "rg_data r" "Suc ?f" "Some v"] assms lst len by (simp add: rg_rep_def)
    also have "\<dots> = (map Some xs @ replicate (?c - Suc (length xs)) None) @ [Some v]"
    proof -
      have "replicate (?c - length xs) (None :: 'a option) = replicate (?c - Suc (length xs)) None @ [None]"
        using assms(2) by (simp add: replicate_append_same flip: replicate_Suc)
      then show ?thesis using assms(2) by (simp add: list_update_append)
    qed
    finally have "rotate1 (rotate ?f ((rg_data r)[?f := Some v])) = (map Some xs @ replicate (?c - Suc (length xs)) None) @ [Some v]"
      by (simp add: rotate_Suc)
    then have "rotate ?f ((rg_data r)[?f := Some v]) = Some v # map Some xs @ replicate (?c - Suc (length xs)) None"
      by (cases "rotate ?f ((rg_data r)[?f := Some v])") auto
    moreover have "rotate (Suc ?d) ((rg_data r)[?f := Some v]) = rotate ?f ((rg_data r)[?f := Some v])"
      using rotate_conv_mod [of "Suc ?d" "(rg_data r)[?f := Some v]"] d(2) len by simp
    ultimately show ?thesis by simp
  qed
  ultimately show ?thesis using assms d(1) bk len by (auto simp: rg_rep_def)
qed

lemma rg_pop_front_rep:
  assumes "rg_rep r (x # xs)"
  shows "rg_front r = Some x"
    and "\<exists>r'. rg_pop_front r = Some r' \<and> rg_rep r' xs \<and> rg_capacity r' = rg_capacity r"
proof -
  let ?c = "rg_capacity r" and ?f = "rg_front_index r" and ?i = "Suc (rg_front_index r) mod rg_capacity r"
  have f: "?f < ?c" and len: "length (rg_data r) = ?c" and c: "0 < ?c" using assms by (auto simp: rg_rep_def)
  have i: "rg_CircularIncrement r ?f = Some ?i" "?i < ?c" using f c by (auto simp: rg_inc)
  have ne: "\<not> rg_empty r" using rg_empty_rep [OF assms] by simp
  have cell: "rg_data r ! ?i = Some x" using rg_cell [OF assms, of 0] c by simp
  show "rg_front r = Some x" using ne i cell len by (simp add: rg_front_def vb_get_def)
  let ?r = "r\<lparr>rg_front_index := ?i, rg_data := (rg_data r)[?i := None]\<rparr>"
  have "rg_pop_front r = Some ?r" using ne i cell len by (simp add: rg_pop_front_def vb_destroy_def)
  moreover have "rotate (Suc ?i) ((rg_data r)[?i := None]) = map Some xs @ replicate (?c - length xs) None"
  proof -
    have "rotate (Suc ?f) ((rg_data r)[?i := None]) = (map Some (x # xs) @ replicate (?c - length (x # xs)) None)[0 := None]"
      using rotate_update [of 0 "rg_data r" "Suc ?f" None] assms len c by (simp add: rg_rep_def)
    then have "rotate (Suc (Suc ?f)) ((rg_data r)[?i := None]) = map Some xs @ replicate (?c - Suc (length xs)) None @ [None]"
      by (simp add: rotate_Suc [of "Suc ?f"])
    moreover have "replicate (?c - Suc (length xs)) (None :: 'a option) @ [None] = replicate (?c - length xs) None"
      using assms by (simp add: rg_rep_def replicate_append_same flip: replicate_Suc) (metis Suc_diff_Suc Suc_lessD)
    moreover have "rotate (Suc ?i) ((rg_data r)[?i := None]) = rotate (Suc (Suc ?f)) ((rg_data r)[?i := None])"
      using rotate_conv_mod [of "Suc ?i" "(rg_data r)[?i := None]"] rotate_conv_mod [of "Suc (Suc ?f)" "(rg_data r)[?i := None]"] len
      by (metis length_list_update mod_Suc_eq)
    ultimately show ?thesis by simp
  qed
  ultimately show "\<exists>r'. rg_pop_front r = Some r' \<and> rg_rep r' xs \<and> rg_capacity r' = rg_capacity r"
    using assms i(2) len mod_add_left_eq [of "Suc ?f" ?c "length xs"] by (auto simp: rg_rep_def)
qed

lemma rg_back_rep:
  assumes "rg_rep r xs" "xs \<noteq> []"
  shows "rg_back r = Some (last xs)"
proof -
  have eq: "rg_back_index r = (Suc (rg_front_index r) + (length xs - 1)) mod rg_capacity r"
    using assms by (cases xs) (simp_all add: rg_rep_def)
  have "rg_data r ! rg_back_index r = Some (xs ! (length xs - 1))"
    unfolding eq using rg_cell [OF assms(1), of "length xs - 1"] assms by (auto simp: rg_rep_def)
  moreover have "rg_back_index r < length (rg_data r)" using assms(1) by (auto simp: rg_rep_def)
  ultimately show ?thesis
    using rg_empty_rep [OF assms(1)] assms(2) by (simp add: rg_back_def vb_get_def last_conv_nth)
qed

lemma rg_destroy_rep: "rg_rep r xs \<Longrightarrow> rg_destroy r = Some ()"
proof (induction xs arbitrary: r)
  case Nil
  then have "set (rotate (Suc (rg_front_index r)) (rg_data r)) \<subseteq> {None}" by (auto simp: rg_rep_def simp del: set_rotate)
  then have "set (rg_data r) \<subseteq> {None}" by simp
  then show ?case using rg_empty_rep [OF Nil] by (subst rg_destroy.simps) (auto simp: list_all_iff)
next
  case (Cons x xs)
  obtain r' where "rg_pop_front r = Some r'" "rg_rep r' xs" using rg_pop_front_rep(2) [OF Cons.prems] by blast
  then show ?case using rg_empty_rep [OF Cons.prems] Cons.IH by (subst rg_destroy.simps) simp
qed

section \<open>The chain holds a list\<close>

text \<open>A ring other than the only one is never empty, so the ends of the chain are those of the list.\<close>

definition ld_chain :: "'a Ring list \<Rightarrow> 'a list list \<Rightarrow> bool" where
  "ld_chain rs xss \<longleftrightarrow> list_all2 rg_rep rs xss \<and> (1 < length xss \<longrightarrow> [] \<notin> set xss)"

definition ld_rep :: "'a LazilyDeallocatedDeque \<Rightarrow> 'a list \<Rightarrow> bool" where
  "ld_rep d xs \<longleftrightarrow> (\<exists>xss. ld_chain (ld_rings d) xss \<and> xs = concat xss)
    \<and> ld_size d = length xs \<and> length xs \<le> ld_max_size d"

lemma ld_ensure_ring_rep:
  assumes "ld_chain (ld_rings d) xss"
  shows "\<exists>rs yss. ld_ensure_ring d = Some rs \<and> rs \<noteq> [] \<and> ld_chain rs yss \<and> concat yss = concat xss"
proof (cases "ld_rings d = []")
  case True
  obtain r where "rg_new 4 = Some (r :: 'a Ring)" "rg_rep r []" using rg_new_rep [of 4] by auto
  then have "ld_ensure_ring d = Some [r]" "ld_chain [r] [[]]"
    using True by (simp_all add: ld_ensure_ring_def ld_chain_def kMinimumRingSize_def)
  then show ?thesis using assms True by (intro exI [of _ "[r]"] exI [of _ "[[]]"]) (auto simp: ld_chain_def)
next
  case False
  then show ?thesis using assms by (auto simp: ld_ensure_ring_def)
qed

lemma ld_pushed_rep:
  assumes "ld_rep d xs" "ld_chain rs yss" "length (concat yss) = Suc (length xs)"
  shows "ld_rep (ld_pushed d rs) (concat yss)"
  using assms by (auto simp: ld_rep_def ld_pushed_def)

lemma ld_push_front_rep:
  assumes "ld_rep d xs"
  shows "\<exists>d'. ld_push_front d v = Some d' \<and> ld_rep d' (v # xs)"
proof -
  obtain xss where "ld_chain (ld_rings d) xss" "xs = concat xss" using assms by (auto simp: ld_rep_def)
  then obtain rs yss where e: "ld_ensure_ring d = Some rs" "rs \<noteq> []" "ld_chain rs yss" "concat yss = xs"
    using ld_ensure_ring_rep by blast
  then obtain r rt ys yt where rs: "rs = r # rt" and yss: "yss = ys # yt" and r: "rg_rep r ys" and rt: "list_all2 rg_rep rt yt"
    by (cases rs; cases yss) (auto simp: ld_chain_def)
  have "\<exists>r' rt' ys' yt'. ld_push_front d v = Some (ld_pushed d (r' # rt')) \<and> ld_chain (r' # rt') (ys' # yt')
    \<and> concat (ys' # yt') = v # xs"
  proof (cases "length ys + 1 < rg_capacity r")
    case True
    then obtain r' where "rg_push_front r v = Some r'" "rg_rep r' (v # ys)" using rg_push_front_rep [OF r] by blast
    then show ?thesis using True e rs yss rt r rg_CanPush_rep [OF r]
      by (intro exI [of _ r'] exI [of _ rt] exI [of _ "v # ys"] exI [of _ yt]) (auto simp: ld_push_front_def ld_chain_def)
  next
    case False
    obtain n :: "'a Ring" where n: "rg_new 4 = Some n" "rg_rep n []" "rg_capacity n = 4" using rg_new_rep [of 4] by auto
    then obtain r' where "rg_push_front n v = Some r'" "rg_rep r' [v]" using rg_push_front_rep [OF n(2), of v] by auto
    moreover have "ys \<noteq> []" using False r by (auto simp: rg_rep_def)
    ultimately show ?thesis using False e rs yss rt r n rg_CanPush_rep [OF r]
      by (intro exI [of _ r'] exI [of _ "r # rt"] exI [of _ "[v]"] exI [of _ "ys # yt"])
        (auto simp: ld_push_front_def ld_chain_def kMinimumRingSize_def)
  qed
  then show ?thesis using ld_pushed_rep [OF assms] by (metis length_Cons)
qed

lemma ld_push_back_rep:
  assumes "ld_rep d xs"
  shows "\<exists>d'. ld_push_back d v = Some d' \<and> ld_rep d' (xs @ [v])"
proof -
  obtain xss where "ld_chain (ld_rings d) xss" "xs = concat xss" using assms by (auto simp: ld_rep_def)
  then obtain rs yss where e: "ld_ensure_ring d = Some rs" "rs \<noteq> []" "ld_chain rs yss" "concat yss = xs"
    using ld_ensure_ring_rep by blast
  obtain r rt where rs: "rs = rt @ [r]" using e(2) by (cases rs rule: rev_cases) auto
  then obtain ys yt where yss: "yss = yt @ [ys]" and r: "rg_rep r ys" and rt: "list_all2 rg_rep rt yt"
    using e(3) by (auto simp: ld_chain_def list_all2_append1 list_all2_Cons1)
  have "\<exists>r' rt' ys' yt'. ld_push_back d v = Some (ld_pushed d (rt' @ [r'])) \<and> ld_chain (rt' @ [r']) (yt' @ [ys'])
    \<and> concat (yt' @ [ys']) = xs @ [v]"
  proof (cases "length ys + 1 < rg_capacity r")
    case True
    then obtain r' where "rg_push_back r v = Some r'" "rg_rep r' (ys @ [v])" using rg_push_back_rep [OF r] by blast
    then show ?thesis using True e rs yss rt r rg_CanPush_rep [OF r]
      by (intro exI [of _ r'] exI [of _ rt] exI [of _ "ys @ [v]"] exI [of _ yt])
        (auto simp: ld_push_back_def ld_chain_def intro: list_all2_appendI)
  next
    case False
    obtain n :: "'a Ring" where n: "rg_new (rg_capacity r * 2) = Some n" "rg_rep n []" "rg_capacity n = rg_capacity r * 2"
      using rg_new_rep [of "rg_capacity r * 2"] rg_rep_capacity [OF r] by auto
    then obtain r' where "rg_push_back n v = Some r'" "rg_rep r' [v]"
      using rg_push_back_rep [OF n(2), of v] rg_rep_capacity [OF r] by auto
    moreover have "ys \<noteq> []" using False r by (auto simp: rg_rep_def)
    moreover have "list_all2 rg_rep (rt @ [r]) (yt @ [ys])" using rt r by (intro list_all2_appendI) auto
    ultimately show ?thesis using False e rs yss rt r n rg_CanPush_rep [OF r]
      by (intro exI [of _ r'] exI [of _ "rt @ [r]"] exI [of _ "[v]"] exI [of _ "yt @ [ys]"])
        (auto simp: ld_push_back_def ld_chain_def butlast_append intro!: list_all2_appendI)
  qed
  then show ?thesis using ld_pushed_rep [OF assms] by (metis length_append_singleton)
qed

lemma ld_chain_Cons: "ld_chain (ld_rings d) xss \<Longrightarrow> ld_rings d \<noteq> [] \<Longrightarrow>
    \<exists>r rs ys yss. ld_rings d = r # rs \<and> xss = ys # yss \<and> rg_rep r ys \<and> list_all2 rg_rep rs yss"
  by (cases "ld_rings d"; cases xss) (auto simp: ld_chain_def)

text \<open>What an operation at the front of a non-empty deque finds.\<close>

lemma ld_rep_Cons:
  assumes "ld_rep d (x # xs)"
  shows "\<exists>r rs ys yss. ld_rings d = r # rs \<and> rg_rep r (x # ys) \<and> ld_chain (r # rs) ((x # ys) # yss) \<and> xs = ys @ concat yss
    \<and> list_all2 rg_rep rs yss"
proof -
  obtain xss where c: "ld_chain (ld_rings d) xss" "x # xs = concat xss" using assms by (auto simp: ld_rep_def)
  then have "ld_rings d \<noteq> []" by (auto simp: ld_chain_def)
  then obtain r rs ys yss where y: "ld_rings d = r # rs" "xss = ys # yss" "rg_rep r ys" "list_all2 rg_rep rs yss"
    using ld_chain_Cons [OF c(1)] by blast
  moreover have "ys \<noteq> []" using c y by (cases yss) (auto simp: ld_chain_def)
  ultimately show ?thesis using c by (cases ys) auto
qed

lemma ld_front_rep: "ld_rep d (x # xs) \<Longrightarrow> ld_front d = Some x"
  using ld_rep_Cons rg_pop_front_rep(1) by (fastforce simp: ld_front_def)

lemma ld_back_rep:
  assumes "ld_rep d xs" "xs \<noteq> []"
  shows "ld_back d = Some (last xs)"
proof -
  obtain xss where c: "ld_chain (ld_rings d) xss" "xs = concat xss" using assms by (auto simp: ld_rep_def)
  then have "ld_rings d \<noteq> []" using assms(2) by (auto simp: ld_chain_def)
  then obtain rt r where rt: "ld_rings d = rt @ [r]" by (cases "ld_rings d" rule: rev_cases) auto
  then obtain yt ys where y: "xss = yt @ [ys]" "rg_rep r ys" "list_all2 rg_rep rt yt"
    using c(1) by (auto simp: ld_chain_def list_all2_append1 list_all2_Cons1)
  moreover have "ys \<noteq> []" using c y assms(2) by (cases yt) (auto simp: ld_chain_def)
  ultimately show ?thesis using rt c rg_back_rep [OF y(2)] by (simp add: ld_back_def)
qed

lemma ld_pop_front_rep:
  assumes "ld_rep d (x # xs)"
  shows "\<exists>d'. ld_pop_front d = Some d' \<and> ld_rep d' xs \<and> ld_rings d' \<noteq> [] \<and> ld_next_resize_time d' = ld_next_resize_time d
    \<and> ld_max_size d' = ld_max_size d \<and> (xs = [] \<longrightarrow> length (ld_rings d') = 1)"
proof -
  obtain r rs ys yss where y: "ld_rings d = r # rs" "rg_rep r (x # ys)" "ld_chain (r # rs) ((x # ys) # yss)"
    "xs = ys @ concat yss" "list_all2 rg_rep rs yss" using ld_rep_Cons [OF assms] by blast
  obtain r' where r': "rg_pop_front r = Some r'" "rg_rep r' ys" using rg_pop_front_rep(2) [OF y(2)] by blast
  have len: "length rs = length yss" using y(5) by (rule list_all2_lengthD)
  have sz: "ld_size d = Suc (length xs)" "Suc (length xs) \<le> ld_max_size d" using assms by (auto simp: ld_rep_def)
  have ne: "ld_chain rs yss" "[] \<notin> set yss" using y(3,5) by (auto simp: ld_chain_def)
  show ?thesis
  proof (cases "ys = [] \<and> rs \<noteq> []")
    case True
    then have "ld_pop_front d = Some (d\<lparr>ld_rings := rs, ld_size := length xs\<rparr>)"
      using y r' rg_empty_rep [OF r'(2)] rg_destroy_rep [OF r'(2)] sz by (simp add: ld_pop_front_def)
    moreover have "ld_rep (d\<lparr>ld_rings := rs, ld_size := length xs\<rparr>) xs"
      using sz ne True y(4) by (auto simp: ld_rep_def)
    moreover have "xs \<noteq> []" using True y(4) ne len by (cases yss) auto
    ultimately show ?thesis using True by auto
  next
    case False
    then have "ld_pop_front d = Some (d\<lparr>ld_rings := r' # rs, ld_size := length xs\<rparr>)"
      using y r' rg_empty_rep [OF r'(2)] sz by (auto simp: ld_pop_front_def)
    moreover have "ld_chain (r' # rs) (ys # yss)" using False y(5) r'(2) ne(2) len by (auto simp: ld_chain_def)
    then have "ld_rep (d\<lparr>ld_rings := r' # rs, ld_size := length xs\<rparr>) xs" using sz y(4) by (auto simp: ld_rep_def)
    moreover have "xs = [] \<longrightarrow> rs = []" using y(4) ne len by (cases yss) auto
    ultimately show ?thesis by auto
  qed
qed

lemma ld_free_rep: "list_all2 rg_rep rs xss \<Longrightarrow> ld_free rs = Some ()"
  by (induction rule: list_all2_induct) (auto simp: rg_destroy_rep)

lemma ld_clear_rep: "ld_rep d xs \<Longrightarrow> \<exists>d'. ld_clear d = Some d' \<and> ld_rep d' []"
  by (auto simp: ld_rep_def ld_chain_def ld_clear_def ld_free_rep)

lemma ld_move_all_rep:
  assumes "ld_rep d xs" "rg_rep n ys" "length (ys @ xs) < rg_capacity n" "ld_rings d \<noteq> []"
    "xs = [] \<Longrightarrow> length (ld_rings d) = 1"
  shows "\<exists>d' n'. ld_move_all d n = Some (d', n') \<and> ld_rep d' [] \<and> rg_rep n' (ys @ xs) \<and> length (ld_rings d') = 1
    \<and> rg_capacity n' = rg_capacity n \<and> ld_max_size d' = ld_max_size d \<and> ld_next_resize_time d' = ld_next_resize_time d"
  using assms
proof (induction xs arbitrary: d n ys)
  case Nil
  then show ?case by (auto simp: ld_move_all.simps [of d] ld_empty_def ld_rep_def)
next
  case (Cons x xs)
  obtain d' where d': "ld_pop_front d = Some d'" "ld_rep d' xs" "ld_rings d' \<noteq> []" "ld_max_size d' = ld_max_size d"
      "ld_next_resize_time d' = ld_next_resize_time d" "xs = [] \<Longrightarrow> length (ld_rings d') = 1"
    using ld_pop_front_rep [OF Cons.prems(1)] by blast
  obtain n' where n': "rg_push_back n x = Some n'" "rg_rep n' (ys @ [x])" "rg_capacity n' = rg_capacity n"
    using rg_push_back_rep [OF Cons.prems(2)] Cons.prems(3) by fastforce
  have "rg_front (hd (ld_rings d)) = Some x" using ld_front_rep [OF Cons.prems(1)] Cons.prems(4) by (simp add: ld_front_def)
  moreover have "\<not> ld_empty d" using Cons.prems(1) by (simp add: ld_empty_def ld_rep_def)
  moreover have "rg_CanPush n = Some True" using rg_CanPush_rep [OF Cons.prems(2)] Cons.prems(3) by simp
  ultimately have "ld_move_all d n = ld_move_all d' n'"
    using d'(1) n'(1) Cons.prems(4) by (subst ld_move_all.simps) simp
  then show ?case using Cons.IH [OF d'(2) n'(2)] d'(3-6) n'(3) Cons.prems(3) by simp
qed

lemma ld_chain_empty:
  assumes "ld_chain rs xss" "[] = concat xss" "rs \<noteq> []"
  shows "length rs = Suc 0"
proof -
  have "length rs = length xss" using assms(1) by (auto simp: ld_chain_def dest: list_all2_lengthD)
  moreover have "\<not> 1 < length xss" using assms(1,2) by (cases xss) (auto simp: ld_chain_def)
  ultimately show ?thesis using assms(3) by (cases rs) auto
qed

lemma ld_SetCapacity_rep:
  assumes "ld_rep d xs" "ld_rings d \<noteq> []" "length xs < n" "4 \<le> n"
  shows "\<exists>d'. ld_SetCapacity d n = Some d' \<and> ld_rep d' xs \<and> ld_capacity d' = n
    \<and> ld_max_size d' = ld_max_size d \<and> ld_next_resize_time d' = ld_next_resize_time d"
proof -
  obtain r :: "'a Ring" where r: "rg_new n = Some r" "rg_rep r []" "rg_capacity r = n" using rg_new_rep [OF assms(4)] by auto
  have one: "xs = [] \<Longrightarrow> length (ld_rings d) = 1"
    using assms(1,2) by (auto simp: ld_rep_def intro: ld_chain_empty)
  obtain d' n' where m: "ld_move_all d r = Some (d', n')" "ld_rep d' []" "rg_rep n' xs" "length (ld_rings d') = 1"
      "rg_capacity n' = n" "ld_max_size d' = ld_max_size d" "ld_next_resize_time d' = ld_next_resize_time d"
    using ld_move_all_rep [OF assms(1) r(2) _ assms(2) one] assms(3) r(3) by auto
  have free: "ld_free (ld_rings d') = Some ()" using m(2) by (auto simp: ld_rep_def ld_chain_def intro: ld_free_rep)
  let ?d = "d'\<lparr>ld_rings := [n'], ld_size := ld_size d\<rparr>"
  have "ld_SetCapacity d n = Some ?d"
    using r m free assms(1,3) by (simp add: ld_SetCapacity_def ld_rep_def)
  moreover have "ld_rep ?d xs" using assms(1) m by (auto simp: ld_rep_def ld_chain_def intro!: exI [of _ "[xs]"])
  ultimately show ?thesis using m by (auto simp: ld_capacity_def)
qed

text \<open>
  What \<open>MaybeShrinkQueue\<close> does: it keeps the list, and unless the rate limit stops it leaves at most
  sixteen cells more than the largest size since the last call needed.
\<close>

lemma ld_MaybeShrinkQueue_rep:
  assumes "ld_rep d xs"
  shows "\<exists>d'. ld_MaybeShrinkQueue d now = Some d' \<and> ld_rep d' xs
    \<and> (ld_next_resize_time d \<le> now \<longrightarrow> ld_capacity d' \<le> max (ld_max_size d + 1) 4 + 16)
    \<and> (ld_capacity d' \<noteq> ld_capacity d \<longrightarrow> ld_next_resize_time d \<le> now \<and> ld_next_resize_time d' = now + 5000000
        \<and> ld_capacity d' = max (ld_max_size d + 1) 4 \<and> ld_capacity d' + 16 < ld_capacity d)"
proof (cases "ld_rings d = [] \<or> now < ld_next_resize_time d \<or> ld_capacity d \<le> max (ld_max_size d + 1) 4 + 16")
  case True
  then show ?thesis using assms
    by (auto simp: ld_MaybeShrinkQueue_def ld_rep_def ld_capacity_def Let_def kMinimumRingSize_def kReclaimThreshold_def)
next
  case False
  let ?n = "max (ld_max_size d + 1) 4" and ?d = "d\<lparr>ld_max_size := ld_size d\<rparr>"
  have "ld_rep ?d xs" "length xs < ?n" using assms by (auto simp: ld_rep_def)
  then obtain d' where "ld_SetCapacity ?d ?n = Some d'" "ld_rep d' xs" "ld_capacity d' = ?n"
    using ld_SetCapacity_rep [of ?d xs ?n] False by auto
  moreover have "ld_capacity ?d = ld_capacity d" by (simp add: ld_capacity_def)
  moreover have "\<not> ld_max_size d < ld_size d" using assms by (simp add: ld_rep_def)
  ultimately show ?thesis using False
    by (auto simp: ld_MaybeShrinkQueue_def ld_rep_def Let_def kMinimumRingSize_def kReclaimThreshold_def
        kMinimumShrinkIntervalInSeconds_def ld_capacity_def)
qed

section \<open>Refinement of a list\<close>

datatype 'a ld_op = LdPushFront 'a | LdPushBack 'a | LdPopFront | LdFront | LdBack | LdClear | LdMaybeShrink int

fun ld_step :: "'a LazilyDeallocatedDeque \<Rightarrow> 'a ld_op \<Rightarrow> ('a LazilyDeallocatedDeque \<times> 'a option) option" where
  "ld_step d (LdPushFront v) = do { d \<leftarrow> ld_push_front d v; Some (d, None) }"
| "ld_step d (LdPushBack v) = do { d \<leftarrow> ld_push_back d v; Some (d, None) }"
| "ld_step d LdPopFront = do { d \<leftarrow> ld_pop_front d; Some (d, None) }"
| "ld_step d LdFront = do { v \<leftarrow> ld_front d; Some (d, Some v) }"
| "ld_step d LdBack = do { v \<leftarrow> ld_back d; Some (d, Some v) }"
| "ld_step d LdClear = do { d \<leftarrow> ld_clear d; Some (d, None) }"
| "ld_step d (LdMaybeShrink now) = do { d \<leftarrow> ld_MaybeShrinkQueue d now; Some (d, None) }"

fun ld_list_step :: "'a list \<Rightarrow> 'a ld_op \<Rightarrow> ('a list \<times> 'a option) option" where
  "ld_list_step xs (LdPushFront v) = Some (v # xs, None)"
| "ld_list_step xs (LdPushBack v) = Some (xs @ [v], None)"
| "ld_list_step xs LdPopFront = (if xs = [] then None else Some (tl xs, None))"
| "ld_list_step xs LdFront = (if xs = [] then None else Some (xs, Some (hd xs)))"
| "ld_list_step xs LdBack = (if xs = [] then None else Some (xs, Some (last xs)))"
| "ld_list_step xs LdClear = Some ([], None)"
| "ld_list_step xs (LdMaybeShrink now) = Some (xs, None)"

lemma ld_step_match:
  assumes "ld_rep d xs" "ld_list_step xs op = Some (xs', out)"
  shows "\<exists>d'. ld_step d op = Some (d', out) \<and> ld_rep d' xs'"
proof (cases op)
  case (LdPushFront v)
  then show ?thesis using assms ld_push_front_rep [OF assms(1), of v] by auto
next
  case (LdPushBack v)
  then show ?thesis using assms ld_push_back_rep [OF assms(1), of v] by auto
next
  case LdPopFront
  then show ?thesis using assms ld_pop_front_rep [of d "hd xs" "tl xs"] by (auto split: if_splits)
next
  case LdFront
  then show ?thesis using assms ld_front_rep [of d "hd xs" "tl xs"] by (auto split: if_splits)
next
  case LdBack
  then show ?thesis using assms ld_back_rep [OF assms(1)] by (auto split: if_splits)
next
  case LdClear
  then show ?thesis using assms ld_clear_rep [OF assms(1)] by auto
next
  case (LdMaybeShrink now)
  then show ?thesis using assms ld_MaybeShrinkQueue_rep [OF assms(1), of now] by auto
qed

interpretation ld: data_refinement ld_rep ld_step ld_list_step
  by unfold_locales (rule ld_step_match)

interpretation ldq: fifo_queue ld_rep ld_push_back ld_pop_front ld_front
  by unfold_locales (rule ld_push_back_rep, assumption, drule ld_pop_front_rep, blast, rule ld_front_rep)

lemma ld_new_rep: "ld_rep ld_new []"
  by (simp add: ld_new_def ld_rep_def ld_chain_def)

text \<open>
  C9: The lazily deallocated deque is a list. Whatever pushes and pops at the ends, clears and
  attempts to shrink at whatever times a program makes on a fresh deque, if it never takes from an
  empty list the chain of rings does the same and answers the same: no check fails, no raw cell is
  read, no live one is overwritten, no freed ring still holds an object, and the size is the
  length of the list.
\<close>

theorem lazily_deallocated_deque_refines_list:
  assumes "run_ops ld_list_step [] ops = Some (xs, outs)"
  shows "\<exists>d. run_ops ld_step ld_new ops = Some (d, outs) \<and> ld_rep d xs \<and> ld_size d = length xs
    \<and> ld_clear d \<noteq> None"
  using ld.run [OF ld_new_rep assms] ld_clear_rep by (fastforce simp: ld_rep_def)

theorem lazily_deallocated_deque_refines_list_witness:
  "\<exists>d. run_ops ld_step ld_new [LdPushBack (1::nat), LdPushBack 2, LdPushFront 3, LdPushBack 4, LdPopFront, LdMaybeShrink 7, LdFront, LdBack]
     = Some (d, [None, None, None, None, None, None, Some 1, Some 4])
     \<and> ld_rep d [1, 2, 4] \<and> ld_size d = 3 \<and> ld_clear d \<noteq> None"
  using lazily_deallocated_deque_refines_list [of "[LdPushBack (1::nat), LdPushBack 2, LdPushFront 3, LdPushBack 4, LdPopFront, LdMaybeShrink 7, LdFront, LdBack]" "[1, 2, 4]"
      "[None, None, None, None, None, None, Some 1, Some 4]"]
  by (simp add: numeral_3_eq_3)

text \<open>
  Memory is given back. Unless the rate limit stops it, \<open>MaybeShrinkQueue\<close> leaves a deque
  whose rings have at most sixteen cells more than the largest size since the previous call
  needs; the elements stay; and it reallocates, to exactly that size, only when more than sixteen
  cells are wasted, and then not again for five seconds.
\<close>

theorem MaybeShrinkQueue_reclaims:
  assumes "ld_rep d xs"
  shows "\<exists>d'. ld_MaybeShrinkQueue d now = Some d' \<and> ld_rep d' xs
    \<and> (ld_next_resize_time d \<le> now \<longrightarrow> ld_capacity d' \<le> max (ld_max_size d + 1) 4 + 16)
    \<and> (ld_capacity d' \<noteq> ld_capacity d \<longrightarrow> ld_next_resize_time d \<le> now \<and> ld_next_resize_time d' = now + 5000000
        \<and> ld_capacity d' = max (ld_max_size d + 1) 4 \<and> ld_capacity d' + 16 < ld_capacity d)"
  using assms by (rule ld_MaybeShrinkQueue_rep)

theorem MaybeShrinkQueue_reclaims_witness:
  "\<exists>d'. ld_MaybeShrinkQueue (ld_new :: char LazilyDeallocatedDeque) 3 = Some d' \<and> ld_rep d' [] \<and> ld_capacity d' \<le> 20"
  using MaybeShrinkQueue_reclaims [OF ld_new_rep, of 3] by (fastforce simp: ld_new_def)

section \<open>Iteration\<close>

lemma ldi_collect_ring:
  assumes "rg_rep r xs" "k < length xs"
  shows "ldi_collect (r # rs, (Suc (rg_front_index r) + k) mod rg_capacity r)
    = do { vs \<leftarrow> ldi_collect (rs, 0); Some (drop k xs @ vs) }"
  using assms(2)
proof (induction "length xs - Suc k" arbitrary: k)
  case (0 k)
  let ?i = "(Suc (rg_front_index r) + k) mod rg_capacity r"
  have k: "length xs = Suc k" using 0 by simp
  have "rg_back_index r = ?i" using assms(1) k by (simp add: rg_rep_def)
  moreover have "vb_get (rg_data r) ?i = Some (xs ! k)"
    using rg_cell [OF assms(1), of k] assms(1) k by (auto simp: vb_get_def rg_rep_def)
  moreover have "drop k xs = [xs ! k]" using k by (simp flip: Cons_nth_drop_Suc)
  ultimately show ?case by (subst ldi_collect.simps) simp
next
  case (Suc n k)
  let ?i = "(Suc (rg_front_index r) + k) mod rg_capacity r"
  have k: "Suc k < length xs" "n = length xs - Suc (Suc k)" using Suc.hyps(2) by linarith+
  have lt: "?i < rg_capacity r" using rg_rep_capacity [OF assms(1)] by (intro mod_less_divisor) simp
  have "rg_back_index r = (Suc (rg_front_index r) + (length xs - 1)) mod rg_capacity r"
    using assms(1) k by (cases xs) (simp_all add: rg_rep_def)
  then have "?i \<noteq> rg_back_index r"
    using ring_inj [of k "rg_capacity r" "length xs - 1" "Suc (rg_front_index r)"] k assms(1) by (auto simp: rg_rep_def)
  moreover have "vb_get (rg_data r) ?i = Some (xs ! k)"
    using rg_cell [OF assms(1), of k] assms(1) k lt by (auto simp: vb_get_def rg_rep_def)
  moreover have "rg_CircularIncrement r ?i = Some ((Suc (rg_front_index r) + Suc k) mod rg_capacity r)"
    using rg_inc [OF lt] by (simp add: mod_Suc_eq)
  moreover have "drop k xs = xs ! k # drop (Suc k) xs" using k by (simp flip: Cons_nth_drop_Suc)
  ultimately show ?case using Suc.hyps(1) [OF k(2,1)] by (subst ldi_collect.simps) simp
qed

lemma ldi_collect_end [simp]: "ldi_collect ([], i) = Some []"
  by (subst ldi_collect.simps) simp

lemma ld_iterate_head:
  assumes "ld_rings d = r # rs" "rg_rep r xs" "xs \<noteq> []"
  shows "ld_iterate d = do { vs \<leftarrow> ldi_collect (rs, 0); Some (xs @ vs) }"
proof -
  have "rg_front_index r < rg_capacity r" using assms(2) by (simp add: rg_rep_def)
  then have "ld_begin d = Some (r # rs, Suc (rg_front_index r) mod rg_capacity r)"
    using assms rg_empty_rep [OF assms(2)] by (simp add: ld_begin_def rg_inc)
  then show ?thesis using ldi_collect_ring [OF assms(2), of 0 rs] assms(3) by (simp add: ld_iterate_def)
qed

text \<open>
  Iterators are right on one ring only. Iterating over a deque of a single ring gives its
  elements in order; but the push that makes the deque grow, the one that finds the single ring full,
  leaves a deque over which iteration reads a raw cell: \<open>operator++\<close> enters the next ring at index 0,
  where no element is, not after its \<open>front_index_\<close>.
\<close>

theorem iteration_breaks_on_growth:
  assumes "ld_rep d xs" "ld_rings d = [r]"
  shows "ld_iterate d = Some xs
    \<and> (length xs + 1 = rg_capacity r \<longrightarrow>
        (\<exists>d'. ld_push_back d v = Some d' \<and> ld_rep d' (xs @ [v]) \<and> ld_iterate d' = None))"
proof (intro conjI impI)
  have r: "rg_rep r xs" using assms by (auto simp: ld_rep_def ld_chain_def list_all2_Cons1)
  show "ld_iterate d = Some xs"
  proof (cases "xs = []")
    case True
    then show ?thesis using assms(2) rg_empty_rep [OF r] by (simp add: ld_iterate_def ld_begin_def)
  next
    case False
    then show ?thesis using ld_iterate_head [OF assms(2) r] by simp
  qed
  assume full: "length xs + 1 = rg_capacity r"
  obtain d' where d': "ld_push_back d v = Some d'" "ld_rep d' (xs @ [v])" using ld_push_back_rep [OF assms(1)] by blast
  define n where "n = \<lparr>rg_capacity = rg_capacity r * 2, rg_front_index = 0, rg_back_index = 1,
    rg_data = (replicate (rg_capacity r * 2) None)[1 := Some v]\<rparr>"
  have "ld_rings d' = [r, n]"
    using d'(1) assms(2) rg_CanPush_rep [OF r] full rg_rep_capacity [OF r]
    by (auto simp: ld_push_back_def ld_ensure_ring_def ld_pushed_def rg_new_def rg_push_back_def rg_CircularIncrement_def
        vb_new_def vb_construct_def bind_eq_Some_conv n_def Let_def rg_empty_def split: if_splits)
  then have "ld_iterate d' = do { vs \<leftarrow> ldi_collect ([n], 0); Some (xs @ vs) }"
    using r full rg_rep_capacity [OF r] by (intro ld_iterate_head) auto
  moreover have "ldi_collect ([n], 0) = None"
    using rg_rep_capacity [OF r] by (subst ldi_collect.simps) (simp add: n_def vb_get_def)
  ultimately show "\<exists>d'. ld_push_back d v = Some d' \<and> ld_rep d' (xs @ [v]) \<and> ld_iterate d' = None" using d' by auto
qed

theorem iteration_breaks_on_growth_witness:
  "let r = \<lparr>rg_capacity = 4, rg_front_index = 0, rg_back_index = 3, rg_data = [None, Some 1, Some 2, Some 3]\<rparr>;
       d = \<lparr>ld_rings = [r], ld_size = 3, ld_max_size = 3, ld_next_resize_time = 0\<rparr> in
   ld_iterate d = Some [1 :: nat, 2, 3] \<and> (\<exists>d'. ld_push_back d 4 = Some d' \<and> ld_rep d' [1, 2, 3, 4] \<and> ld_iterate d' = None)"
proof -
  let ?r = "\<lparr>rg_capacity = 4, rg_front_index = 0, rg_back_index = 3, rg_data = [None, Some (1 :: nat), Some 2, Some 3]\<rparr>"
  let ?d = "\<lparr>ld_rings = [?r], ld_size = 3, ld_max_size = 3, ld_next_resize_time = 0\<rparr>"
  have "rg_rep ?r [1, 2, 3]" by (simp add: rg_rep_def rotate_Suc)
  then have "ld_rep ?d [1, 2, 3]" by (auto simp: ld_rep_def ld_chain_def intro!: exI [of _ "[[1, 2, 3]]"])
  then show ?thesis using iteration_breaks_on_growth [of ?d "[1, 2, 3]" ?r 4] by (simp add: Let_def)
qed

end
