(* ===== verification/Intrusive_Heap.thy ===== *)
theory Intrusive_Heap
  imports Refinement "HOL-Library.Multiset"
begin

text \<open>
  The min-heap of the sequence manager, \<open>base/task/sequence_manager/intrusive_heap.h\<close>. The nodes are
  indexed from 1. An element tells its owner its position (\<open>SetHeapHandle\<close>), so that the owner can
  erase it or change its key later. \<open>le\<close> is the element type's \<open>operator<=\<close> and \<open>own\<close> the object
  whose heap handle \<open>SetHeapHandle\<close> writes; \<open>hs\<close> holds the index of the handle of each owner, 0
  when it is not valid. A node that is default constructed or moved from is \<open>None\<close>, and reading it,
  an index out of range or a failed check gives \<open>None\<close>.
\<close>

section \<open>The class\<close>

record 'a IntrusiveHeap =
  ih_nodes :: "'a option list"
  ih_size :: nat

type_synonym 'q handles = "'q \<Rightarrow> nat"

definition HeapHandle_IsValid :: "nat \<Rightarrow> bool" where
  "HeapHandle_IsValid index = (index \<noteq> 0)"

definition kMinimumHeapSize :: nat where
  "kMinimumHeapSize = 4"

definition ih_init :: "'a IntrusiveHeap" where
  "ih_init = \<lparr>ih_nodes = replicate kMinimumHeapSize None, ih_size = 0\<rparr>"

definition ih_empty :: "'a IntrusiveHeap \<Rightarrow> bool" where
  "ih_empty h = (ih_size h = 0)"

text \<open>\<open>nodes_[i]\<close>.\<close>

definition ih_node :: "'a IntrusiveHeap \<Rightarrow> nat \<Rightarrow> 'a option" where
  "ih_node h i = (if i < length (ih_nodes h) then ih_nodes h ! i else None)"

definition ih_Min :: "'a IntrusiveHeap \<Rightarrow> 'a option" where
  "ih_Min h = (if 1 \<le> ih_size h then ih_node h 1 else None)"

text \<open>\<open>DCHECK(std::is_heap(begin(), end(), CompareNodes))\<close>: no node is above a smaller child.\<close>

definition ih_is_heap :: "('a \<Rightarrow> 'a \<Rightarrow> bool) \<Rightarrow> 'a IntrusiveHeap \<Rightarrow> bool" where
  "ih_is_heap le h = (\<forall>i \<in> set [2..<ih_size h + 1].
     case (ih_node h (i div 2), ih_node h i) of (Some p, Some c) \<Rightarrow> le p c | _ \<Rightarrow> False)"

definition ih_MoveHole ::
  "('a \<Rightarrow> 'q) \<Rightarrow> 'a IntrusiveHeap \<Rightarrow> 'q handles \<Rightarrow> nat \<Rightarrow> nat \<Rightarrow> ('a IntrusiveHeap \<times> 'q handles \<times> nat) option" where
  "ih_MoveHole own h hs new_hole_pos old_hole_pos =
     (if 0 < new_hole_pos \<and> new_hole_pos \<le> ih_size h \<and> old_hole_pos \<noteq> new_hole_pos
        \<and> old_hole_pos < length (ih_nodes h) then do {
        e \<leftarrow> ih_node h new_hole_pos;
        Some (h\<lparr>ih_nodes := (ih_nodes h)[old_hole_pos := Some e, new_hole_pos := None]\<rparr>,
              hs(own e := old_hole_pos), new_hole_pos)
      } else None)"

definition ih_MakeHole :: "('a \<Rightarrow> 'q) \<Rightarrow> 'a IntrusiveHeap \<Rightarrow> 'q handles \<Rightarrow> nat \<Rightarrow> 'q handles option" where
  "ih_MakeHole own h hs index =
     (if 0 < index \<and> index \<le> ih_size h then do { e \<leftarrow> ih_node h index; Some (hs(own e := 0)) } else None)"

definition ih_FillHole ::
  "('a \<Rightarrow> 'a \<Rightarrow> bool) \<Rightarrow> ('a \<Rightarrow> 'q) \<Rightarrow> 'a IntrusiveHeap \<Rightarrow> 'q handles \<Rightarrow> nat \<Rightarrow> 'a \<Rightarrow>
   ('a IntrusiveHeap \<times> 'q handles) option" where
  "ih_FillHole le own h hs hole e =
     (if 0 < hole \<and> hole \<le> ih_size h \<and> hole < length (ih_nodes h) then
        let h = h\<lparr>ih_nodes := (ih_nodes h)[hole := Some e]\<rparr> in
        if ih_is_heap le h then Some (h, hs(own e := hole)) else None
      else None)"

section \<open>Moving the hole\<close>

text \<open>The loop of \<open>MoveHoleUpAndFillWithElement\<close>.\<close>

function ih_up_loop ::
  "('a \<Rightarrow> 'a \<Rightarrow> bool) \<Rightarrow> ('a \<Rightarrow> 'q) \<Rightarrow> 'a IntrusiveHeap \<Rightarrow> 'q handles \<Rightarrow> nat \<Rightarrow> 'a \<Rightarrow>
   ('a IntrusiveHeap \<times> 'q handles \<times> nat) option" where
  "ih_up_loop le own h hs hole e =
     (if 2 \<le> hole then
        case ih_node h (hole div 2) of
          None \<Rightarrow> None
        | Some p \<Rightarrow>
            if le p e then Some (h, hs, hole)
            else (case ih_MoveHole own h hs (hole div 2) hole of
                    None \<Rightarrow> None
                  | Some (h, hs, hole) \<Rightarrow> ih_up_loop le own h hs hole e)
      else Some (h, hs, hole))"
  by pat_completeness auto
termination
  by (relation "measure (\<lambda>(_, _, _, _, hole, _). hole)") (auto simp: ih_MoveHole_def bind_eq_Some_conv split: if_splits)

definition ih_MoveHoleUpAndFillWithElement ::
  "('a \<Rightarrow> 'a \<Rightarrow> bool) \<Rightarrow> ('a \<Rightarrow> 'q) \<Rightarrow> 'a IntrusiveHeap \<Rightarrow> 'q handles \<Rightarrow> nat \<Rightarrow> 'a \<Rightarrow>
   ('a IntrusiveHeap \<times> 'q handles) option" where
  "ih_MoveHoleUpAndFillWithElement le own h hs hole e =
     (if 0 < hole \<and> hole \<le> ih_size h then do {
        (h, hs, hole) \<leftarrow> ih_up_loop le own h hs hole e;
        ih_FillHole le own h hs hole e
      } else None)"

text \<open>The choice of the smaller child at the start of each round of the downward loops.\<close>

definition ih_smaller_child :: "('a \<Rightarrow> 'a \<Rightarrow> bool) \<Rightarrow> 'a IntrusiveHeap \<Rightarrow> nat \<Rightarrow> nat option" where
  "ih_smaller_child le h child_pos = do {
     second \<leftarrow> ih_node h (child_pos + 1);
     first \<leftarrow> ih_node h child_pos;
     Some (if le second first then child_pos + 1 else child_pos)
   }"

text \<open>The loop of \<open>MoveHoleDownAndFillWithElement\<close>, from \<open>hole\<close> and \<open>child_pos\<close>.\<close>

function ih_down_loop ::
  "('a \<Rightarrow> 'a \<Rightarrow> bool) \<Rightarrow> ('a \<Rightarrow> 'q) \<Rightarrow> 'a IntrusiveHeap \<Rightarrow> 'q handles \<Rightarrow> nat \<Rightarrow> nat \<Rightarrow> 'a \<Rightarrow>
   ('a IntrusiveHeap \<times> 'q handles \<times> nat \<times> nat) option" where
  "ih_down_loop le own h hs hole child_pos e =
     (if child_pos < ih_size h then
        case ih_smaller_child le h child_pos of
          None \<Rightarrow> None
        | Some child_pos \<Rightarrow>
            (case ih_node h child_pos of
               None \<Rightarrow> None
             | Some c \<Rightarrow>
                 if le e c then Some (h, hs, hole, child_pos)
                 else (case ih_MoveHole own h hs child_pos hole of
                         None \<Rightarrow> None
                       | Some (h, hs, hole) \<Rightarrow> ih_down_loop le own h hs hole (child_pos * 2) e))
      else Some (h, hs, hole, child_pos))"
  by pat_completeness auto
termination
  by (relation "measure (\<lambda>(_, _, h, _, _, child_pos, _). ih_size h - child_pos)")
    (auto simp: ih_MoveHole_def ih_smaller_child_def bind_eq_Some_conv split: if_splits)

definition ih_MoveHoleDownAndFillWithElement ::
  "('a \<Rightarrow> 'a \<Rightarrow> bool) \<Rightarrow> ('a \<Rightarrow> 'q) \<Rightarrow> 'a IntrusiveHeap \<Rightarrow> 'q handles \<Rightarrow> nat \<Rightarrow> 'a \<Rightarrow>
   ('a IntrusiveHeap \<times> 'q handles) option" where
  "ih_MoveHoleDownAndFillWithElement le own h hs hole e =
     (if 0 < hole \<and> hole \<le> ih_size h then do {
        (h, hs, hole, child_pos) \<leftarrow> ih_down_loop le own h hs hole (hole * 2) e;
        (h, hs, hole) \<leftarrow>
          (if child_pos = ih_size h then do {
             c \<leftarrow> ih_node h child_pos;
             if \<not> le e c then ih_MoveHole own h hs child_pos hole else Some (h, hs, hole)
           } else Some (h, hs, hole));
        ih_FillHole le own h hs hole e
      } else None)"

text \<open>The loop of \<open>MoveHoleDownAndFillWithLeafElement\<close>: down to a leaf, one comparison a level.\<close>

function ih_leaf_loop ::
  "('a \<Rightarrow> 'a \<Rightarrow> bool) \<Rightarrow> ('a \<Rightarrow> 'q) \<Rightarrow> 'a IntrusiveHeap \<Rightarrow> 'q handles \<Rightarrow> nat \<Rightarrow> nat \<Rightarrow>
   ('a IntrusiveHeap \<times> 'q handles \<times> nat \<times> nat) option" where
  "ih_leaf_loop le own h hs hole child_pos =
     (if child_pos < ih_size h then
        case ih_smaller_child le h child_pos of
          None \<Rightarrow> None
        | Some child_pos \<Rightarrow>
            (case ih_MoveHole own h hs child_pos hole of
               None \<Rightarrow> None
             | Some (h, hs, hole) \<Rightarrow> ih_leaf_loop le own h hs hole (child_pos * 2))
      else Some (h, hs, hole, child_pos))"
  by pat_completeness auto
termination
  by (relation "measure (\<lambda>(_, _, h, _, _, child_pos). ih_size h - child_pos)")
    (auto simp: ih_MoveHole_def ih_smaller_child_def bind_eq_Some_conv split: if_splits)

definition ih_MoveHoleDownAndFillWithLeafElement ::
  "('a \<Rightarrow> 'a \<Rightarrow> bool) \<Rightarrow> ('a \<Rightarrow> 'q) \<Rightarrow> 'a IntrusiveHeap \<Rightarrow> 'q handles \<Rightarrow> nat \<Rightarrow> 'a \<Rightarrow>
   ('a IntrusiveHeap \<times> 'q handles) option" where
  "ih_MoveHoleDownAndFillWithLeafElement le own h hs hole leaf_element =
     (if 0 < hole \<and> hole \<le> ih_size h then do {
        (h, hs, hole, child_pos) \<leftarrow> ih_leaf_loop le own h hs hole (hole * 2);
        (h, hs, hole) \<leftarrow>
          (if child_pos = ih_size h then ih_MoveHole own h hs child_pos hole else Some (h, hs, hole));
        ih_MoveHoleUpAndFillWithElement le own h hs hole leaf_element
      } else None)"

declare ih_up_loop.simps [simp del] ih_down_loop.simps [simp del] ih_leaf_loop.simps [simp del]

section \<open>The operations\<close>

text \<open>The loop of \<open>Clear\<close> and of the destructor.\<close>

fun ih_clear_handles :: "('a \<Rightarrow> 'q) \<Rightarrow> 'a IntrusiveHeap \<Rightarrow> 'q handles \<Rightarrow> nat list \<Rightarrow> 'q handles option" where
  "ih_clear_handles own h hs [] = Some hs"
| "ih_clear_handles own h hs (i # is) = do { hs \<leftarrow> ih_MakeHole own h hs i; ih_clear_handles own h hs is }"

text \<open>\<open>std::vector::resize\<close>.\<close>

definition ih_resize :: "'a option list \<Rightarrow> nat \<Rightarrow> 'a option list" where
  "ih_resize ns n = take n ns @ replicate (n - length ns) None"

definition ih_Clear :: "('a \<Rightarrow> 'q) \<Rightarrow> 'a IntrusiveHeap \<Rightarrow> 'q handles \<Rightarrow> ('a IntrusiveHeap \<times> 'q handles) option" where
  "ih_Clear own h hs = do {
     hs \<leftarrow> ih_clear_handles own h hs [1..<ih_size h + 1];
     Some (\<lparr>ih_nodes = ih_resize (ih_nodes h) kMinimumHeapSize, ih_size = 0\<rparr>, hs)
   }"

text \<open>Taking the element of \<open>nodes_[index]\<close> leaves a moved-from node.\<close>

definition ih_take :: "'a IntrusiveHeap \<Rightarrow> nat \<Rightarrow> ('a IntrusiveHeap \<times> 'a) option" where
  "ih_take h index = do { e \<leftarrow> ih_node h index; Some (h\<lparr>ih_nodes := (ih_nodes h)[index := None]\<rparr>, e) }"

definition ih_Pop ::
  "('a \<Rightarrow> 'a \<Rightarrow> bool) \<Rightarrow> ('a \<Rightarrow> 'q) \<Rightarrow> 'a IntrusiveHeap \<Rightarrow> 'q handles \<Rightarrow> ('a IntrusiveHeap \<times> 'q handles) option" where
  "ih_Pop le own h hs =
     (if 1 \<le> ih_size h then do {
        hs \<leftarrow> ih_MakeHole own h hs 1;
        let top_index = ih_size h;
        let h = h\<lparr>ih_size := ih_size h - 1\<rparr>;
        if \<not> ih_empty h then do {
          (h, e) \<leftarrow> ih_take h top_index;
          ih_MoveHoleDownAndFillWithLeafElement le own h hs 1 e
        } else Some (h, hs)
      } else None)"

definition ih_insert ::
  "('a \<Rightarrow> 'a \<Rightarrow> bool) \<Rightarrow> ('a \<Rightarrow> 'q) \<Rightarrow> 'a IntrusiveHeap \<Rightarrow> 'q handles \<Rightarrow> 'a \<Rightarrow> ('a IntrusiveHeap \<times> 'q handles) option" where
  "ih_insert le own h hs e =
     (let h = h\<lparr>ih_size := ih_size h + 1\<rparr>;
          h = (if length (ih_nodes h) \<le> ih_size h
               then h\<lparr>ih_nodes := ih_resize (ih_nodes h) (length (ih_nodes h) * 2)\<rparr> else h)
      in ih_MoveHoleUpAndFillWithElement le own h hs (ih_size h) e)"

definition ih_erase ::
  "('a \<Rightarrow> 'a \<Rightarrow> bool) \<Rightarrow> ('a \<Rightarrow> 'q) \<Rightarrow> 'a IntrusiveHeap \<Rightarrow> 'q handles \<Rightarrow> nat \<Rightarrow> ('a IntrusiveHeap \<times> 'q handles) option" where
  "ih_erase le own h hs index =
     (if 0 < index \<and> index \<le> ih_size h then do {
        hs \<leftarrow> ih_MakeHole own h hs index;
        let top_index = ih_size h;
        let h = h\<lparr>ih_size := ih_size h - 1\<rparr>;
        if ih_empty h \<or> top_index = index then Some (h, hs)
        else do {
          a \<leftarrow> ih_node h index;
          (h, e) \<leftarrow> ih_take h top_index;
          if le a e then ih_MoveHoleDownAndFillWithLeafElement le own h hs index e
          else ih_MoveHoleUpAndFillWithElement le own h hs index e
        }
      } else None)"

definition ih_ReplaceMin ::
  "('a \<Rightarrow> 'a \<Rightarrow> bool) \<Rightarrow> ('a \<Rightarrow> 'q) \<Rightarrow> 'a IntrusiveHeap \<Rightarrow> 'q handles \<Rightarrow> 'a \<Rightarrow> ('a IntrusiveHeap \<times> 'q handles) option" where
  "ih_ReplaceMin le own h hs e = ih_MoveHoleDownAndFillWithElement le own h hs 1 e"

definition ih_ChangeKey ::
  "('a \<Rightarrow> 'a \<Rightarrow> bool) \<Rightarrow> ('a \<Rightarrow> 'q) \<Rightarrow> 'a IntrusiveHeap \<Rightarrow> 'q handles \<Rightarrow> nat \<Rightarrow> 'a \<Rightarrow> ('a IntrusiveHeap \<times> 'q handles) option" where
  "ih_ChangeKey le own h hs index e = do {
     a \<leftarrow> ih_node h index;
     if le a e then ih_MoveHoleDownAndFillWithLeafElement le own h hs index e
     else ih_MoveHoleUpAndFillWithElement le own h hs index e
   }"

section \<open>What the heap promises\<close>

text \<open>
  The abstract content of a heap is the map from owners to their elements. \<open>ih_filled\<close>: outside
  the hole \<open>k\<close> (0 when there is none) the nodes hold exactly the elements of \<open>m\<close>, each owner's
  handle being the position of its element. \<open>ih_ordered\<close>: no node is above a smaller one, the
  node above the hole counting as the parent of the nodes below it.
\<close>

definition ih_filled :: "('a \<Rightarrow> 'q) \<Rightarrow> 'a IntrusiveHeap \<Rightarrow> 'q handles \<Rightarrow> ('q \<Rightarrow> 'a option) \<Rightarrow> nat \<Rightarrow> bool" where
  "ih_filled own h hs m k \<longleftrightarrow> ih_size h < length (ih_nodes h) \<and> k \<le> ih_size h
    \<and> (\<forall>i \<in> {1..ih_size h} - {k}. \<exists>e. ih_node h i = Some e \<and> m (own e) = Some e \<and> hs (own e) = i)
    \<and> (\<forall>q e. m q = Some e \<longrightarrow> own e = q \<and> hs q \<in> {1..ih_size h} - {k} \<and> ih_node h (hs q) = Some e)"

definition ih_le :: "('a \<Rightarrow> 'a \<Rightarrow> bool) \<Rightarrow> 'a option \<Rightarrow> 'a option \<Rightarrow> bool" where
  "ih_le le x y = (case (x, y) of (Some a, Some b) \<Rightarrow> le a b | _ \<Rightarrow> False)"

definition ih_ordered :: "('a \<Rightarrow> 'a \<Rightarrow> bool) \<Rightarrow> (nat \<Rightarrow> 'a option) \<Rightarrow> nat \<Rightarrow> nat \<Rightarrow> bool" where
  "ih_ordered le f n k \<longleftrightarrow>
     (\<forall>i \<in> {2..n}. i \<noteq> k \<longrightarrow> i div 2 \<noteq> k \<longrightarrow> ih_le le (f (i div 2)) (f i))
   \<and> (\<forall>i \<in> {2..n}. i div 2 = k \<longrightarrow> 2 \<le> k \<longrightarrow> ih_le le (f (k div 2)) (f i))"

definition ih_rep :: "('a \<Rightarrow> 'a \<Rightarrow> bool) \<Rightarrow> ('a \<Rightarrow> 'q) \<Rightarrow> 'a IntrusiveHeap \<Rightarrow> 'q handles \<Rightarrow> ('q \<Rightarrow> 'a option) \<Rightarrow> bool" where
  "ih_rep le own h hs m \<longleftrightarrow> ih_filled own h hs m 0 \<and> ih_ordered le (ih_node h) (ih_size h) 0 \<and> 0 < length (ih_nodes h)"

text \<open>Taking the elements out one by one, until the \<open>n\<close> elements are gone.\<close>

fun drain_queue ::
  "('s \<Rightarrow> 'a option) \<Rightarrow> ('s \<Rightarrow> 'q handles \<Rightarrow> ('s \<times> 'q handles) option) \<Rightarrow> nat \<Rightarrow> 's \<Rightarrow> 'q handles \<Rightarrow> 'a list option" where
  "drain_queue qmin pop 0 s hs = (if qmin s = None then Some [] else None)"
| "drain_queue qmin pop (Suc n) s hs = do {
     e \<leftarrow> qmin s;
     (s, hs) \<leftarrow> pop s hs;
     es \<leftarrow> drain_queue qmin pop n s hs;
     Some (e # es)
   }"

fun ih_insert_all ::
  "('a \<Rightarrow> 'a \<Rightarrow> bool) \<Rightarrow> ('a \<Rightarrow> 'q) \<Rightarrow> 'a IntrusiveHeap \<Rightarrow> 'q handles \<Rightarrow> 'a list \<Rightarrow> ('a IntrusiveHeap \<times> 'q handles) option" where
  "ih_insert_all le own h hs [] = Some (h, hs)"
| "ih_insert_all le own h hs (e # es) = do { (h, hs) \<leftarrow> ih_insert le own h hs e; ih_insert_all le own h hs es }"

text \<open>
  One call, with an owner's handle read from the owner; when it may be made; and what it does to
  the map from owners to elements, where \<open>Pop\<close> removes one of the least elements.
\<close>

datatype ('a, 'q) ih_op = HInsert 'a | HErase 'q | HPop | HReplaceMin 'a | HChangeKey 'q 'a | HClear

fun ih_step ::
  "('a \<Rightarrow> 'a \<Rightarrow> bool) \<Rightarrow> ('a \<Rightarrow> 'q) \<Rightarrow> 'a IntrusiveHeap \<Rightarrow> 'q handles \<Rightarrow> ('a, 'q) ih_op \<Rightarrow> ('a IntrusiveHeap \<times> 'q handles) option" where
  "ih_step le own h hs (HInsert e) = ih_insert le own h hs e"
| "ih_step le own h hs (HErase q) = ih_erase le own h hs (hs q)"
| "ih_step le own h hs HPop = ih_Pop le own h hs"
| "ih_step le own h hs (HReplaceMin e) = ih_ReplaceMin le own h hs e"
| "ih_step le own h hs (HChangeKey q e) = ih_ChangeKey le own h hs (hs q) e"
| "ih_step le own h hs HClear = ih_Clear own h hs"

fun ih_allowed :: "('a \<Rightarrow> 'q) \<Rightarrow> 'a IntrusiveHeap \<Rightarrow> ('q \<Rightarrow> 'a option) \<Rightarrow> ('a, 'q) ih_op \<Rightarrow> bool" where
  "ih_allowed own h m (HInsert e) = (m (own e) = None)"
| "ih_allowed own h m (HErase q) = (m q \<noteq> None)"
| "ih_allowed own h m HPop = (\<not> ih_empty h)"
| "ih_allowed own h m (HReplaceMin e) = (case ih_Min h of None \<Rightarrow> False | Some a \<Rightarrow> own e = own a)"
| "ih_allowed own h m (HChangeKey q e) = (m q \<noteq> None \<and> own e = q)"
| "ih_allowed own h m HClear = True"

inductive pq_step :: "('a \<Rightarrow> 'a \<Rightarrow> bool) \<Rightarrow> ('a \<Rightarrow> 'q) \<Rightarrow> ('q \<Rightarrow> 'a option) \<Rightarrow> ('a, 'q) ih_op \<Rightarrow> ('q \<Rightarrow> 'a option) \<Rightarrow> bool"
  for le own where
  PQInsert: "m (own e) = None \<Longrightarrow> pq_step le own m (HInsert e) (m(own e \<mapsto> e))"
| PQErase: "m q = Some e \<Longrightarrow> pq_step le own m (HErase q) (m(q := None))"
| PQPop: "m (own e) = Some e \<Longrightarrow> (\<And>q e'. m q = Some e' \<Longrightarrow> le e e') \<Longrightarrow> pq_step le own m HPop (m(own e := None))"
| PQReplaceMin: "m (own e) = Some a \<Longrightarrow> (\<And>q e'. m q = Some e' \<Longrightarrow> le a e') \<Longrightarrow>
    pq_step le own m (HReplaceMin e) (m(own e \<mapsto> e))"
| PQChangeKey: "m q = Some a \<Longrightarrow> own e = q \<Longrightarrow> pq_step le own m (HChangeKey q e) (m(q \<mapsto> e))"
| PQClear: "pq_step le own m HClear Map.empty"

section \<open>Holes\<close>

lemma ih_le_Some [simp]: "ih_le le (Some a) (Some b) = le a b"
  by (simp add: ih_le_def)

lemma ih_le_iff: "ih_le le x y \<longleftrightarrow> (\<exists>a b. x = Some a \<and> y = Some b \<and> le a b)"
  by (auto simp: ih_le_def split: option.splits)

lemma is_heap_iff: "ih_is_heap le h \<longleftrightarrow> (\<forall>i \<in> {2..ih_size h}. ih_le le (ih_node h (i div 2)) (ih_node h i))"
  by (simp add: ih_is_heap_def ih_le_def atLeastLessThanSuc_atLeastAtMost del: upt_Suc)

lemma node_update: "ih_node (h\<lparr>ih_nodes := (ih_nodes h)[i := x]\<rparr>) j = (if i = j \<and> j < length (ih_nodes h) then x else ih_node h j)"
  by (simp add: ih_node_def nth_list_update)

lemma node_ext [simp]: "ih_node (h\<lparr>ih_size := n\<rparr>) = ih_node h"
  by (simp add: ih_node_def fun_eq_iff)

lemma filled_node:
  assumes "ih_filled own h hs m k" "1 \<le> i" "i \<le> ih_size h" "i \<noteq> k"
  obtains e where "ih_node h i = Some e" "m (own e) = Some e" "hs (own e) = i"
proof -
  have "i \<in> {1..ih_size h} - {k}" using assms(2-4) by simp
  then show thesis using assms(1) that unfolding ih_filled_def by blast
qed

lemma filled_owner:
  assumes "ih_filled own h hs m k" "m q = Some e"
  shows "own e = q" "1 \<le> hs q" "hs q \<le> ih_size h" "hs q \<noteq> k" "ih_node h (hs q) = Some e"
proof -
  have "own e = q \<and> hs q \<in> {1..ih_size h} - {k} \<and> ih_node h (hs q) = Some e"
    using assms unfolding ih_filled_def by blast
  then show "own e = q" "1 \<le> hs q" "hs q \<le> ih_size h" "hs q \<noteq> k" "ih_node h (hs q) = Some e" by auto
qed

text \<open>Moving the element at \<open>c\<close> into the hole \<open>k\<close>.\<close>

lemma MoveHole_filled:
  assumes f: "ih_filled own h hs m k" and c: "1 \<le> c" "c \<le> ih_size h" "c \<noteq> k" and k: "1 \<le> k"
  shows "\<exists>h' hs'. ih_MoveHole own h hs c k = Some (h', hs', c) \<and> ih_filled own h' hs' m c
    \<and> ih_size h' = ih_size h \<and> ih_node h' = (ih_node h)(k := ih_node h c, c := None)
    \<and> (\<forall>q. m q = None \<longrightarrow> hs' q = hs q)"
proof -
  obtain e where e: "ih_node h c = Some e" "m (own e) = Some e" "hs (own e) = c"
    using filled_node [OF f c] .
  let ?h = "h\<lparr>ih_nodes := (ih_nodes h)[k := Some e, c := None]\<rparr>"
  have len: "ih_size h < length (ih_nodes h)" "k \<le> ih_size h" using f by (auto simp: ih_filled_def)
  have node: "ih_node ?h = (ih_node h)(k := ih_node h c, c := None)"
    using len c e(1) by (auto simp: fun_eq_iff ih_node_def nth_list_update)
  have "ih_filled own ?h (hs(own e := k)) m c"
    unfolding ih_filled_def
  proof (intro conjI ballI allI impI)
    fix i assume i: "i \<in> {1..ih_size ?h} - {c}"
    show "\<exists>e'. ih_node ?h i = Some e' \<and> m (own e') = Some e' \<and> (hs(own e := k)) (own e') = i"
    proof (cases "i = k")
      case True
      then show ?thesis using e node i by auto
    next
      case False
      obtain e' where e': "ih_node h i = Some e'" "m (own e') = Some e'" "hs (own e') = i"
        by (rule filled_node [OF f, of i]) (use i False in auto)
      moreover have "own e' \<noteq> own e" using e'(3) e(3) i by (metis DiffD2 singletonI)
      moreover have "ih_node ?h i = Some e'" unfolding node using False i e'(1) by simp
      ultimately show ?thesis by auto
    qed
  next
    fix q e' assume q: "m q = Some e'"
    note fo = filled_owner [OF f q]
    show "own e' = q" by (rule fo(1))
    have ne: "q \<noteq> own e \<Longrightarrow> hs q \<noteq> c" using fo(5) fo(1) e(1) by auto
    show "(hs(own e := k)) q \<in> {1..ih_size ?h} - {c}"
      using fo(2,3) ne k len(2) c(3) by (cases "q = own e") simp_all
    show "ih_node ?h ((hs(own e := k)) q) = Some e'"
      using fo(4,5) ne c(3) e(1,2) q unfolding node by (cases "q = own e") simp_all
  qed (use len c in auto)
  then show ?thesis using c k len e node by (auto simp: ih_MoveHole_def)
qed

lemma FillHole_spec:
  assumes f: "ih_filled own h hs m k" and k: "1 \<le> k" and new: "m (own e) = None"
    and o: "ih_ordered le (ih_node h) (ih_size h) k"
    and up: "2 \<le> k \<Longrightarrow> ih_le le (ih_node h (k div 2)) (Some e)"
    and down: "\<And>i. i \<in> {2..ih_size h} \<Longrightarrow> i div 2 = k \<Longrightarrow> ih_le le (Some e) (ih_node h i)"
  shows "\<exists>h'. ih_FillHole le own h hs k e = Some (h', hs(own e := k)) \<and> ih_rep le own h' (hs(own e := k)) (m(own e \<mapsto> e))"
proof -
  let ?h = "h\<lparr>ih_nodes := (ih_nodes h)[k := Some e]\<rparr>"
  have len: "ih_size h < length (ih_nodes h)" "k \<le> ih_size h" using f by (auto simp: ih_filled_def)
  have node: "ih_node ?h = (ih_node h)(k := Some e)"
    using len by (auto simp: fun_eq_iff ih_node_def nth_list_update)
  have ord: "ih_le le (ih_node ?h (i div 2)) (ih_node ?h i)" if "i \<in> {2..ih_size h}" for i
    using that up down [of i] o k by (auto simp: node ih_ordered_def)
  then have "ih_is_heap le ?h" by (simp add: is_heap_iff)
  moreover have "ih_ordered le (ih_node ?h) (ih_size ?h) 0" using ord by (auto simp: ih_ordered_def)
  moreover have "ih_filled own ?h (hs(own e := k)) (m(own e \<mapsto> e)) 0"
    unfolding ih_filled_def
  proof (intro conjI ballI allI impI)
    fix i assume i: "i \<in> {1..ih_size ?h} - {0}"
    show "\<exists>e'. ih_node ?h i = Some e' \<and> (m(own e \<mapsto> e)) (own e') = Some e' \<and> (hs(own e := k)) (own e') = i"
    proof (cases "i = k")
      case True
      then show ?thesis using node by auto
    next
      case False
      obtain e' where e': "ih_node h i = Some e'" "m (own e') = Some e'" "hs (own e') = i"
        by (rule filled_node [OF f, of i]) (use i False in auto)
      moreover have "own e' \<noteq> own e" using e' new by auto
      moreover have "ih_node ?h i = Some e'" unfolding node using False e'(1) by simp
      ultimately show ?thesis by auto
    qed
  next
    fix q e' assume q: "(m(own e \<mapsto> e)) q = Some e'"
    show "own e' = q" "(hs(own e := k)) q \<in> {1..ih_size ?h} - {0}" "ih_node ?h ((hs(own e := k)) q) = Some e'"
      using q filled_owner [OF f, of q e'] k len node by (auto split: if_splits)
  qed (use len in auto)
  ultimately show ?thesis using k len by (auto simp: ih_FillHole_def ih_rep_def Let_def)
qed

section \<open>Sifting\<close>

text \<open>What \<open>operator<=\<close> must be: a total preorder.\<close>

locale total_preorder =
  fixes le :: "'a \<Rightarrow> 'a \<Rightarrow> bool"
  assumes total: "le a b \<or> le b a"
    and trans: "le a b \<Longrightarrow> le b c \<Longrightarrow> le a c"
begin

lemma ih_le_trans: "ih_le le x y \<Longrightarrow> ih_le le y z \<Longrightarrow> ih_le le x z"
  using trans by (fastforce simp: ih_le_iff)

lemma ordered_up:
  assumes o: "ih_ordered le f n k" and k: "2 \<le> k" "k \<le> n"
  shows "ih_ordered le (f(k := f (k div 2), k div 2 := None)) n (k div 2)"
proof -
  let ?p = "k div 2"
  let ?g = "f(k := f ?p, ?p := None)"
  have a: "\<And>i. i \<in> {2..n} \<Longrightarrow> i \<noteq> k \<Longrightarrow> i div 2 \<noteq> k \<Longrightarrow> ih_le le (f (i div 2)) (f i)"
    and b: "\<And>i. i \<in> {2..n} \<Longrightarrow> i div 2 = k \<Longrightarrow> ih_le le (f ?p) (f i)"
    using o k unfolding ih_ordered_def by auto
  have pk: "?p < k" "1 \<le> ?p" using k by auto
  show ?thesis
    unfolding ih_ordered_def
  proof (intro conjI ballI impI)
    fix i assume i: "i \<in> {2..n}" "i \<noteq> ?p" "i div 2 \<noteq> ?p"
    show "ih_le le (?g (i div 2)) (?g i)"
      using i a [of i] b [of i] pk by (cases "i = k"; cases "i div 2 = k") auto
  next
    fix i assume i: "i \<in> {2..n}" "i div 2 = ?p" "2 \<le> ?p"
    have top: "ih_le le (f (?p div 2)) (f ?p)" using a [of ?p] i(3) pk k by auto
    have ne: "?p div 2 \<noteq> ?p" "?p div 2 \<noteq> k" "i \<noteq> ?p" using i pk by auto
    show "ih_le le (?g (?p div 2)) (?g i)"
    proof (cases "i = k")
      case True
      then show ?thesis using top ne by simp
    next
      case False
      then have "ih_le le (f ?p) (f i)" using a [OF i(1)] i(2) pk by simp
      with False show ?thesis using ih_le_trans [OF top] ne by simp
    qed
  qed
qed

lemma ordered_down:
  assumes o: "ih_ordered le f n k" and c: "c div 2 = k" "2 \<le> c" "c \<le> n"
    and least: "\<And>i. i \<in> {2..n} \<Longrightarrow> i div 2 = k \<Longrightarrow> ih_le le (f c) (f i)"
  shows "ih_ordered le (f(k := f c, c := None)) n c"
proof -
  let ?g = "f(k := f c, c := None)"
  have a: "\<And>i. i \<in> {2..n} \<Longrightarrow> i \<noteq> k \<Longrightarrow> i div 2 \<noteq> k \<Longrightarrow> ih_le le (f (i div 2)) (f i)"
    and b: "\<And>i. i \<in> {2..n} \<Longrightarrow> i div 2 = k \<Longrightarrow> 2 \<le> k \<Longrightarrow> ih_le le (f (k div 2)) (f i)"
    using o unfolding ih_ordered_def by auto
  have ck: "k < c" "1 \<le> k" using c by auto
  show ?thesis
    unfolding ih_ordered_def
  proof (intro conjI ballI impI)
    fix i assume i: "i \<in> {2..n}" "i \<noteq> c" "i div 2 \<noteq> c"
    consider "i = k" | "i \<noteq> k" "i div 2 = k" | "i \<noteq> k" "i div 2 \<noteq> k" by blast
    then show "ih_le le (?g (i div 2)) (?g i)"
    proof cases
      case 1
      then show ?thesis using i b [of c] c by auto
    next
      case 2
      then show ?thesis using i least [of i] by auto
    next
      case 3
      then show ?thesis using i a [of i] by auto
    qed
  next
    fix i assume i: "i \<in> {2..n}" "i div 2 = c" "2 \<le> c"
    then have "i \<noteq> k" "i \<noteq> c" using ck by auto
    then show "ih_le le (?g (c div 2)) (?g i)" using a [OF i(1)] i(2) c ck by auto
  qed
qed

definition above :: "'a IntrusiveHeap \<Rightarrow> nat \<Rightarrow> 'a \<Rightarrow> bool" where
  "above h k e \<longleftrightarrow> (2 \<le> k \<longrightarrow> ih_le le (ih_node h (k div 2)) (Some e))"

definition below :: "'a IntrusiveHeap \<Rightarrow> nat \<Rightarrow> 'a \<Rightarrow> bool" where
  "below h k e \<longleftrightarrow> (\<forall>i \<in> {2..ih_size h}. i div 2 = k \<longrightarrow> ih_le le (Some e) (ih_node h i))"

text \<open>A heap with a hole at \<open>k\<close> that holds \<open>m\<close>, reached from handles \<open>hs0\<close>.\<close>

definition hole :: "('a \<Rightarrow> 'q) \<Rightarrow> 'q handles \<Rightarrow> ('q \<Rightarrow> 'a option) \<Rightarrow> 'a IntrusiveHeap \<Rightarrow> 'q handles \<Rightarrow> nat \<Rightarrow> bool" where
  "hole own hs0 m h hs k \<longleftrightarrow> ih_filled own h hs m k \<and> 1 \<le> k \<and> ih_ordered le (ih_node h) (ih_size h) k
    \<and> (\<forall>q. m q = None \<longrightarrow> hs q = hs0 q)"

lemma hole_bounds: "hole own hs0 m h hs k \<Longrightarrow> 1 \<le> k \<and> k \<le> ih_size h"
  by (simp add: hole_def ih_filled_def)

lemma hole_node:
  assumes "hole own hs0 m h hs k" "1 \<le> i" "i \<le> ih_size h" "i \<noteq> k"
  obtains e where "ih_node h i = Some e"
  using assms filled_node unfolding hole_def by metis

lemma MoveHole_up:
  assumes "hole own hs0 m h hs k" "2 \<le> k"
  shows "\<exists>h' hs'. ih_MoveHole own h hs (k div 2) k = Some (h', hs', k div 2) \<and> hole own hs0 m h' hs' (k div 2)
    \<and> ih_size h' = ih_size h \<and> ih_node h' = (ih_node h)(k := ih_node h (k div 2), k div 2 := None)"
proof -
  have f: "ih_filled own h hs m k" "k \<le> ih_size h" using assms(1) hole_bounds [OF assms(1)] by (auto simp: hole_def)
  have p: "1 \<le> k div 2" "k div 2 \<le> ih_size h" "k div 2 \<noteq> k" "1 \<le> k" using assms(2) f(2) by auto
  obtain h' hs' where "ih_MoveHole own h hs (k div 2) k = Some (h', hs', k div 2)" "ih_filled own h' hs' m (k div 2)"
    "ih_size h' = ih_size h" "ih_node h' = (ih_node h)(k := ih_node h (k div 2), k div 2 := None)"
    "\<forall>q. m q = None \<longrightarrow> hs' q = hs q"
    using MoveHole_filled [OF f(1) p] by blast
  then show ?thesis
    using assms p ordered_up [of "ih_node h" "ih_size h" k] f(2) by (auto simp: hole_def)
qed

lemma MoveHole_down:
  assumes "hole own hs0 m h hs k" "c div 2 = k" "2 \<le> c" "c \<le> ih_size h"
    and "\<And>i. i \<in> {2..ih_size h} \<Longrightarrow> i div 2 = k \<Longrightarrow> ih_le le (ih_node h c) (ih_node h i)"
  shows "\<exists>h' hs'. ih_MoveHole own h hs c k = Some (h', hs', c) \<and> hole own hs0 m h' hs' c
    \<and> ih_size h' = ih_size h \<and> ih_node h' = (ih_node h)(k := ih_node h c, c := None)"
proof -
  have f: "ih_filled own h hs m k" "ih_ordered le (ih_node h) (ih_size h) k" "1 \<le> k" using assms(1) by (auto simp: hole_def)
  have c: "1 \<le> c" "c \<noteq> k" using assms(2,3) by auto
  obtain h' hs' where "ih_MoveHole own h hs c k = Some (h', hs', c)" "ih_filled own h' hs' m c"
    "ih_size h' = ih_size h" "ih_node h' = (ih_node h)(k := ih_node h c, c := None)"
    "\<forall>q. m q = None \<longrightarrow> hs' q = hs q"
    using MoveHole_filled [OF f(1) c(1) assms(4) c(2) f(3)] by blast
  then show ?thesis
    using assms c ordered_down [OF f(2) assms(2-4)] by (auto simp: hole_def)
qed

lemma up_loop_spec:
  assumes "hole own hs0 m h hs k" "below h k e"
  shows "\<exists>h' hs' k'. ih_up_loop le own h hs k e = Some (h', hs', k') \<and> hole own hs0 m h' hs' k'
    \<and> above h' k' e \<and> below h' k' e"
  using assms
proof (induction k arbitrary: h hs rule: less_induct)
  case (less k)
  note simps = ih_up_loop.simps [of le own h hs k e]
  show ?case
  proof (cases "2 \<le> k")
    case False
    then show ?thesis using less.prems unfolding simps by (auto simp: above_def)
  next
    case True
    let ?p = "k div 2"
    have b: "1 \<le> ?p" "?p \<le> ih_size h" "?p \<noteq> k" "?p < k" "k \<le> ih_size h"
      using True hole_bounds [OF less.prems(1)] by auto
    obtain p where p: "ih_node h ?p = Some p" by (rule hole_node [OF less.prems(1) b(1-3)])
    show ?thesis
    proof (cases "le p e")
      case le: True
      then show ?thesis using less.prems True p unfolding simps by (auto simp: above_def)
    next
      case False
      then have ep: "le e p" using total by blast
      obtain h' hs' where mv: "ih_MoveHole own h hs ?p k = Some (h', hs', ?p)" "hole own hs0 m h' hs' ?p"
        "ih_size h' = ih_size h" "ih_node h' = (ih_node h)(k := ih_node h ?p, ?p := None)"
        using MoveHole_up [OF less.prems(1) True] by blast
      have "ih_le le (Some e) (ih_node h' i)" if i: "i \<in> {2..ih_size h'}" "i div 2 = ?p" for i
      proof (cases "i = k")
        case True
        then show ?thesis using mv(4) p ep b(3) by simp
      next
        case False
        have "ih_le le (ih_node h ?p) (ih_node h i)"
          using less.prems(1) i mv(3) False b(3) by (auto simp: hole_def ih_ordered_def)
        moreover have "i \<noteq> ?p" using i by auto
        ultimately show ?thesis using False mv(4) p ep ih_le_trans [of "Some e" "Some p"] by simp
      qed
      then have "below h' ?p e" by (auto simp: below_def)
      from less.IH [OF b(4) mv(2) this] show ?thesis
        unfolding simps using True False p mv(1) by simp
    qed
  qed
qed

lemma MoveHoleUp_spec:
  assumes "hole own hs0 m h hs k" "below h k e" "m (own e) = None"
  shows "\<exists>h' hs'. ih_MoveHoleUpAndFillWithElement le own h hs k e = Some (h', hs')
    \<and> ih_rep le own h' hs' (m(own e \<mapsto> e)) \<and> (\<forall>q. m q = None \<longrightarrow> q \<noteq> own e \<longrightarrow> hs' q = hs0 q)"
proof -
  obtain h1 hs1 k1 where l: "ih_up_loop le own h hs k e = Some (h1, hs1, k1)" "hole own hs0 m h1 hs1 k1"
    "above h1 k1 e" "below h1 k1 e"
    using up_loop_spec [OF assms(1,2)] by blast
  then obtain h2 where "ih_FillHole le own h1 hs1 k1 e = Some (h2, hs1(own e := k1))"
    "ih_rep le own h2 (hs1(own e := k1)) (m(own e \<mapsto> e))"
    using FillHole_spec [of own h1 hs1 m k1 e le] assms(3) by (auto simp: hole_def above_def below_def)
  then show ?thesis
    using l(1,2) hole_bounds [OF assms(1)] by (auto simp: ih_MoveHoleUpAndFillWithElement_def hole_def)
qed

text \<open>The children of a hole, and the smaller of two.\<close>

lemma child_cases: "i div 2 = k \<Longrightarrow> i = 2 * k \<or> i = 2 * k + 1" for i k :: nat
  by linarith

lemma smaller_child_spec:
  assumes "hole own hs0 m h hs k" "2 * k < ih_size h"
  shows "\<exists>c. ih_smaller_child le h (2 * k) = Some c \<and> c div 2 = k \<and> 2 \<le> c \<and> c \<le> ih_size h
    \<and> (\<forall>i \<in> {2..ih_size h}. i div 2 = k \<longrightarrow> ih_le le (ih_node h c) (ih_node h i))"
proof -
  have k: "1 \<le> k" using hole_bounds [OF assms(1)] by simp
  obtain a where a: "ih_node h (2 * k) = Some a" by (rule hole_node [OF assms(1), of "2 * k"]) (use k assms(2) in auto)
  obtain b where b: "ih_node h (2 * k + 1) = Some b"
    by (rule hole_node [OF assms(1), of "2 * k + 1"]) (use k assms(2) in auto)
  let ?c = "if le b a then 2 * k + 1 else 2 * k"
  have "ih_le le (ih_node h ?c) (ih_node h i)" if i: "i div 2 = k" for i
  proof -
    consider "i = 2 * k" | "i = 2 * k + 1" using child_cases [OF i] by blast
    then show ?thesis using a b total [of a b] total [of a a] total [of b b] by cases auto
  qed
  moreover have "ih_smaller_child le h (2 * k) = Some ?c" using a b by (simp add: ih_smaller_child_def)
  ultimately show ?thesis using k assms(2) by (intro exI [of _ ?c]) auto
qed

lemma leaf_loop_spec:
  assumes "hole own hs0 m h hs k"
  shows "\<exists>h' hs' k'. ih_leaf_loop le own h hs k (2 * k) = Some (h', hs', k', 2 * k') \<and> hole own hs0 m h' hs' k'
    \<and> ih_size h' = ih_size h \<and> ih_size h' \<le> 2 * k'"
  using assms
proof (induction "ih_size h - k" arbitrary: h hs k rule: less_induct)
  case less
  note simps = ih_leaf_loop.simps [of le own h hs k]
  show ?case
  proof (cases "2 * k < ih_size h")
    case False
    then show ?thesis using less.prems by (subst simps) auto
  next
    case True
    obtain c where c: "ih_smaller_child le h (2 * k) = Some c" "c div 2 = k" "2 \<le> c" "c \<le> ih_size h"
      "\<forall>i \<in> {2..ih_size h}. i div 2 = k \<longrightarrow> ih_le le (ih_node h c) (ih_node h i)"
      using smaller_child_spec [OF less.prems True] by blast
    obtain h' hs' where mv: "ih_MoveHole own h hs c k = Some (h', hs', c)" "hole own hs0 m h' hs' c" "ih_size h' = ih_size h"
      using MoveHole_down [OF less.prems c(2-4)] c(5) by blast
    have "ih_size h' - c < ih_size h - k" using mv(3) c by auto
    from less.hyps [OF this mv(2)] show ?thesis
      using True c(1) mv(1,3) by (subst simps) (auto simp: mult.commute)
  qed
qed

lemma MoveHoleLeaf_spec:
  assumes "hole own hs0 m h hs k" "m (own e) = None"
  shows "\<exists>h' hs'. ih_MoveHoleDownAndFillWithLeafElement le own h hs k e = Some (h', hs')
    \<and> ih_rep le own h' hs' (m(own e \<mapsto> e)) \<and> (\<forall>q. m q = None \<longrightarrow> q \<noteq> own e \<longrightarrow> hs' q = hs0 q)"
proof -
  obtain h1 hs1 k1 where l: "ih_leaf_loop le own h hs k (2 * k) = Some (h1, hs1, k1, 2 * k1)" "hole own hs0 m h1 hs1 k1"
    "ih_size h1 \<le> 2 * k1"
    using leaf_loop_spec [OF assms(1)] by blast
  have "\<exists>h2 hs2 k2. (if 2 * k1 = ih_size h1 then ih_MoveHole own h1 hs1 (2 * k1) k1 else Some (h1, hs1, k1)) = Some (h2, hs2, k2)
      \<and> hole own hs0 m h2 hs2 k2 \<and> ih_size h2 < 2 * k2"
  proof (cases "2 * k1 = ih_size h1")
    case True
    have k1: "1 \<le> k1" using hole_bounds [OF l(2)] by simp
    then obtain e1 where e1: "ih_node h1 (2 * k1) = Some e1"
      by (rule_tac hole_node [OF l(2), of "2 * k1"]) (use True in auto)
    have least: "ih_le le (ih_node h1 (2 * k1)) (ih_node h1 i)" if "i \<in> {2..ih_size h1}" "i div 2 = k1" for i
    proof -
      have "i = 2 * k1" using that True child_cases [OF that(2)] by auto
      then show ?thesis using e1 total [of e1 e1] by simp
    qed
    have "2 * k1 div 2 = k1" "2 \<le> 2 * k1" "2 * k1 \<le> ih_size h1" using True k1 by auto
    from MoveHole_down [OF l(2) this least] obtain h2 hs2 where
      "ih_MoveHole own h1 hs1 (2 * k1) k1 = Some (h2, hs2, 2 * k1)" "hole own hs0 m h2 hs2 (2 * k1)" "ih_size h2 = ih_size h1"
      by blast
    then show ?thesis using True k1 by auto
  next
    case False
    then show ?thesis using l by auto
  qed
  then obtain h2 hs2 k2 where m2: "(if 2 * k1 = ih_size h1 then ih_MoveHole own h1 hs1 (2 * k1) k1 else Some (h1, hs1, k1))
      = Some (h2, hs2, k2)" "hole own hs0 m h2 hs2 k2" "ih_size h2 < 2 * k2" by blast
  have "below h2 k2 e" using m2(3) by (auto simp: below_def)
  from MoveHoleUp_spec [OF m2(2) this assms(2)] show ?thesis
    using l(1) m2(1) hole_bounds [OF assms(1)]
    by (cases "2 * k1 = ih_size h1") (auto simp: ih_MoveHoleDownAndFillWithLeafElement_def mult.commute)
qed

lemma down_loop_spec:
  assumes "hole own hs0 m h hs k" "above h k e"
  shows "\<exists>h' hs' k' c. ih_down_loop le own h hs k (2 * k) e = Some (h', hs', k', c) \<and> hole own hs0 m h' hs' k'
    \<and> above h' k' e
    \<and> (c = 2 * k' \<and> ih_size h' \<le> c \<or> below h' k' e \<and> ih_le le (Some e) (ih_node h' c))"
  using assms
proof (induction "ih_size h - k" arbitrary: h hs k rule: less_induct)
  case less
  note simps = ih_down_loop.simps [of le own h hs k]
  show ?case
  proof (cases "2 * k < ih_size h")
    case False
    then show ?thesis using less.prems by (subst simps) auto
  next
    case True
    obtain c where c: "ih_smaller_child le h (2 * k) = Some c" "c div 2 = k" "2 \<le> c" "c \<le> ih_size h"
      "\<forall>i \<in> {2..ih_size h}. i div 2 = k \<longrightarrow> ih_le le (ih_node h c) (ih_node h i)"
      using smaller_child_spec [OF less.prems(1) True] by blast
    have ck: "1 \<le> c" "c \<noteq> k" using c(2,3) by auto
    obtain a where a: "ih_node h c = Some a" by (rule hole_node [OF less.prems(1) ck(1) c(4) ck(2)])
    show ?thesis
    proof (cases "le e a")
      case le: True
      then have "below h k e" using c(5) a ih_le_trans [of "Some e" "Some a"] by (auto simp: below_def)
      then show ?thesis using True c(1) a le less.prems by (subst simps) auto
    next
      case False
      obtain h' hs' where mv: "ih_MoveHole own h hs c k = Some (h', hs', c)" "hole own hs0 m h' hs' c" "ih_size h' = ih_size h"
        "ih_node h' = (ih_node h)(k := ih_node h c, c := None)"
        using MoveHole_down [OF less.prems(1) c(2-4)] c(5) by blast
      have lt: "ih_size h' - c < ih_size h - k" using mv(3) c by auto
      have "above h' c e" using False total [of e a] a mv(4) c(2) ck by (auto simp: above_def)
      from less.hyps [OF lt mv(2) this] show ?thesis
        using True c(1) a False mv(1) by (subst simps) (auto simp: mult.commute)
    qed
  qed
qed

lemma MoveHoleDown_spec:
  assumes "hole own hs0 m h hs k" "above h k e" "m (own e) = None"
  shows "\<exists>h' hs'. ih_MoveHoleDownAndFillWithElement le own h hs k e = Some (h', hs')
    \<and> ih_rep le own h' hs' (m(own e \<mapsto> e)) \<and> (\<forall>q. m q = None \<longrightarrow> q \<noteq> own e \<longrightarrow> hs' q = hs0 q)"
proof -
  obtain h1 hs1 k1 c where l: "ih_down_loop le own h hs k (2 * k) e = Some (h1, hs1, k1, c)" "hole own hs0 m h1 hs1 k1"
    "above h1 k1 e" "c = 2 * k1 \<and> ih_size h1 \<le> c \<or> below h1 k1 e \<and> ih_le le (Some e) (ih_node h1 c)"
    using down_loop_spec [OF assms(1,2)] by blast
  have k1: "1 \<le> k1" using hole_bounds [OF l(2)] by simp
  let ?last = "\<lambda>h hs k. if c = ih_size h then do {
      a \<leftarrow> ih_node h c; if \<not> le e a then ih_MoveHole own h hs c k else Some (h, hs, k) } else Some (h, hs, k)"
  have "\<exists>h2 hs2 k2. ?last h1 hs1 k1 = Some (h2, hs2, k2) \<and> hole own hs0 m h2 hs2 k2 \<and> above h2 k2 e \<and> below h2 k2 e"
  proof (cases "c = ih_size h1 \<and> c = 2 * k1")
    case True
    obtain a where a: "ih_node h1 c = Some a" by (rule hole_node [OF l(2), of c]) (use True k1 in auto)
    have only: "i = c" if "i \<in> {2..ih_size h1}" "i div 2 = k1" for i using that True child_cases [OF that(2)] by auto
    show ?thesis
    proof (cases "le e a")
      case le: True
      then have "below h1 k1 e" unfolding below_def using only a by auto
      then show ?thesis using True a le l by auto
    next
      case False
      have least: "ih_le le (ih_node h1 c) (ih_node h1 i)" if "i \<in> {2..ih_size h1}" "i div 2 = k1" for i
        using only [OF that] a total [of a a] by auto
      have c: "c div 2 = k1" "2 \<le> c" "c \<le> ih_size h1" using True k1 by auto
      obtain h2 hs2 where mv: "ih_MoveHole own h1 hs1 c k1 = Some (h2, hs2, c)" "hole own hs0 m h2 hs2 c"
        "ih_size h2 = ih_size h1" "ih_node h2 = (ih_node h1)(k1 := ih_node h1 c, c := None)"
        using MoveHole_down [OF l(2) c least] by blast
      have "above h2 c e" using mv(4) a False total [of e a] c True k1 by (auto simp: above_def)
      moreover have "below h2 c e" using mv(3) True k1 by (auto simp: below_def)
      ultimately show ?thesis using True a False mv(1,2) by auto
    qed
  next
    case False
    then have "?last h1 hs1 k1 = Some (h1, hs1, k1)" "below h1 k1 e"
      using l(4) by (auto simp: ih_le_iff below_def dest!: child_cases)
    then show ?thesis using l by auto
  qed
  then obtain h2 hs2 k2 where m2: "?last h1 hs1 k1 = Some (h2, hs2, k2)" "hole own hs0 m h2 hs2 k2" "above h2 k2 e" "below h2 k2 e"
    by blast
  then obtain h3 where "ih_FillHole le own h2 hs2 k2 e = Some (h3, hs2(own e := k2))"
    "ih_rep le own h3 (hs2(own e := k2)) (m(own e \<mapsto> e))"
    using FillHole_spec [of own h2 hs2 m k2 e le] assms(3) by (auto simp: hole_def above_def below_def)
  then show ?thesis
    using l(1) m2(1,2) hole_bounds [OF assms(1)]
    by (auto simp: ih_MoveHoleDownAndFillWithElement_def hole_def mult.commute)
qed

section \<open>Operations\<close>

lemma rep_node:
  assumes "ih_rep le own h hs m" "1 \<le> i" "i \<le> ih_size h"
  obtains e where "ih_node h i = Some e" "m (own e) = Some e" "hs (own e) = i"
  using filled_node [of own h hs m 0 i] assms by (auto simp: ih_rep_def)

lemma rep_owner:
  assumes "ih_rep le own h hs m" "m q = Some e"
  shows "own e = q" "1 \<le> hs q" "hs q \<le> ih_size h" "ih_node h (hs q) = Some e"
  using filled_owner [of own h hs m 0 q e] assms by (auto simp: ih_rep_def)

lemma rep_child:
  assumes "ih_rep le own h hs m" "i \<in> {2..ih_size h}"
  shows "ih_le le (ih_node h (i div 2)) (ih_node h i)"
  using assms by (auto simp: ih_rep_def ih_ordered_def)

lemma ordered_mono:
  assumes "ih_ordered le f n k" "n' \<le> n" "k \<le> n'" "\<And>i. i \<le> n' \<Longrightarrow> g i = f i"
  shows "ih_ordered le g n' k"
proof -
  have "i div 2 \<le> n'" if "i \<le> n'" for i using that by auto
  then show ?thesis using assms unfolding ih_ordered_def by auto
qed

lemma ordered_hole:
  assumes "ih_rep le own h hs m"
  shows "ih_ordered le (ih_node h) (ih_size h) k"
  unfolding ih_ordered_def
proof (intro conjI ballI impI)
  fix i assume i: "i \<in> {2..ih_size h}" "i div 2 = k" "2 \<le> k"
  then have "k \<in> {2..ih_size h}" by auto
  from rep_child [OF assms this] rep_child [OF assms i(1)] show "ih_le le (ih_node h (k div 2)) (ih_node h i)"
    using i(2) ih_le_trans by blast
qed (use rep_child [OF assms] in auto)

text \<open>Making a hole where an owner's element is, whatever is done to that owner's handle.\<close>

lemma rep_hole:
  assumes r: "ih_rep le own h hs m" and q: "m q = Some e" and k: "k = hs q"
  shows "hole own (hs(q := x)) (m(q := None)) h (hs(q := x)) k"
proof -
  note o = rep_owner [OF r q, folded k]
  have "ih_filled own h (hs(q := x)) (m(q := None)) k"
    unfolding ih_filled_def
  proof (intro conjI ballI allI impI)
    fix i assume i: "i \<in> {1..ih_size h} - {k}"
    then obtain a where a: "ih_node h i = Some a" "m (own a) = Some a" "hs (own a) = i"
      using rep_node [OF r, of i] by (metis DiffD1 atLeastAtMost_iff)
    then have "own a \<noteq> q" using i k by (metis DiffD2 singletonI)
    then show "\<exists>a. ih_node h i = Some a \<and> (m(q := None)) (own a) = Some a \<and> (hs(q := x)) (own a) = i"
      using a by auto
  next
    fix q' a assume a: "(m(q := None)) q' = Some a"
    then have q': "q' \<noteq> q" "m q' = Some a" by (auto split: if_splits)
    note o' = rep_owner [OF r q'(2)]
    have "hs q' \<noteq> k" using o(1,4) o'(1,4) q'(1) by auto
    then show "own a = q'" "(hs(q := x)) q' \<in> {1..ih_size h} - {k}" "ih_node h ((hs(q := x)) q') = Some a"
      using o' q'(1) by auto
  qed (use o r in \<open>auto simp: ih_rep_def ih_filled_def\<close>)
  then show ?thesis using o ordered_hole [OF r] by (auto simp: hole_def)
qed

text \<open>Taking the last element away from a heap with a hole, and when the hole is the last node.\<close>

lemma hole_shrink:
  assumes h: "hole own hs m h hs k" and n: "n = ih_size h" "k \<noteq> n" and e: "ih_node h n = Some e"
  shows "hole own hs (m(own e := None)) (h\<lparr>ih_size := n - 1, ih_nodes := (ih_nodes h)[n := None]\<rparr>) hs k"
    and "m (own e) = Some e"
proof -
  let ?h = "h\<lparr>ih_size := n - 1, ih_nodes := (ih_nodes h)[n := None]\<rparr>"
  have f: "ih_filled own h hs m k" "1 \<le> k" "k \<le> n" "n < length (ih_nodes h)"
    using h n by (auto simp: hole_def ih_filled_def)
  have node: "ih_node ?h = (ih_node h)(n := None)" using f(4) by (auto simp: fun_eq_iff ih_node_def)
  have n1: "1 \<le> n" "n \<le> ih_size h" "n \<noteq> k" using f n by auto
  obtain e' where "ih_node h n = Some e'" "m (own e') = Some e'" "hs (own e') = n" by (rule filled_node [OF f(1) n1])
  with e show me: "m (own e) = Some e" by auto
  have "ih_filled own ?h hs (m(own e := None)) k"
    unfolding ih_filled_def
  proof (intro conjI ballI allI impI)
    fix i assume i: "i \<in> {1..ih_size ?h} - {k}"
    then have b: "1 \<le> i" "i \<le> ih_size h" "i \<noteq> k" "i \<noteq> n" using n by auto
    obtain a where a: "ih_node h i = Some a" "m (own a) = Some a" "hs (own a) = i" by (rule filled_node [OF f(1) b(1-3)])
    have "own a \<noteq> own e" using a e me b(4) by (metis filled_owner(5) [OF f(1)] \<open>hs (own e') = n\<close> \<open>ih_node h n = Some e'\<close> option.inject)
    then show "\<exists>a. ih_node ?h i = Some a \<and> (m(own e := None)) (own a) = Some a \<and> hs (own a) = i"
      using a b(4) node by auto
  next
    fix q a assume a: "(m(own e := None)) q = Some a"
    then have q: "q \<noteq> own e" "m q = Some a" by (auto split: if_splits)
    note o = filled_owner [OF f(1) q(2)]
    have "hs q \<noteq> n" using o(1,5) e q(1) by auto
    then show "own a = q" "hs q \<in> {1..ih_size ?h} - {k}" "ih_node ?h (hs q) = Some a" using o n node by auto
  qed (use f n in auto)
  moreover have "ih_ordered le (ih_node ?h) (ih_size ?h) k"
  proof (rule ordered_mono)
    show "ih_ordered le (ih_node h) n k" using h n(1) by (simp add: hole_def)
    show "ih_node ?h i = ih_node h i" if "i \<le> ih_size ?h" for i using that f(2,3) n(2) unfolding node by auto
  qed (use f(3) n(2) in simp_all)
  ultimately show "hole own hs (m(own e := None)) ?h hs k" using f by (auto simp: hole_def)
qed

lemma hole_last:
  assumes h: "hole own hs m h hs k" and "k = ih_size h"
  shows "ih_rep le own (h\<lparr>ih_size := k - 1\<rparr>) hs m"
proof -
  have "ih_filled own (h\<lparr>ih_size := k - 1\<rparr>) hs m 0"
  proof -
    have "{1..ih_size h} - {k} = {1..k - 1} - {0}" using assms(2) by auto
    then show ?thesis using h assms(2) unfolding hole_def ih_filled_def by (simp add: less_imp_diff_less)
  qed
  moreover have "ih_ordered le (ih_node h) (k - 1) 0"
  proof -
    have "i \<noteq> k \<and> i div 2 \<noteq> k" if "i \<in> {2..k - 1}" for i using that by auto
    then show ?thesis using assms unfolding hole_def ih_ordered_def by auto
  qed
  moreover have "0 < length (ih_nodes h)" using h by (auto simp: hole_def ih_filled_def)
  ultimately show ?thesis by (simp add: ih_rep_def)
qed

lemma rep_init: "ih_rep le own ih_init hs Map.empty"
  by (simp add: ih_rep_def ih_filled_def ih_ordered_def ih_init_def kMinimumHeapSize_def)

lemma insert_hole:
  assumes r: "ih_rep le own h hs m"
  defines "h1 \<equiv> (let h = h\<lparr>ih_size := ih_size h + 1\<rparr> in if length (ih_nodes h) \<le> ih_size h
      then h\<lparr>ih_nodes := ih_resize (ih_nodes h) (length (ih_nodes h) * 2)\<rparr> else h)"
  shows "hole own hs m h1 hs (ih_size h1)" "ih_size h1 = ih_size h + 1"
proof -
  let ?n = "ih_size h + 1"
  have len: "ih_size h < length (ih_nodes h)" using r by (simp add: ih_rep_def ih_filled_def)
  show sz: "ih_size h1 = ?n" by (simp add: h1_def Let_def)
  have node: "ih_node h1 i = ih_node h i" if "i \<le> ih_size h" for i
    using that len by (auto simp: h1_def Let_def ih_node_def ih_resize_def nth_append)
  have len1: "?n < length (ih_nodes h1)" using len by (auto simp: h1_def Let_def ih_resize_def)
  have set: "{1..ih_size h1} - {?n} = {1..ih_size h} - {0}" using sz by auto
  have "ih_filled own h1 hs m ?n"
    unfolding ih_filled_def set
  proof (intro conjI ballI allI impI)
    fix i assume "i \<in> {1..ih_size h} - {0}"
    then have b: "1 \<le> i" "i \<le> ih_size h" by auto
    obtain e where "ih_node h i = Some e" "m (own e) = Some e" "hs (own e) = i" by (rule rep_node [OF r b])
    then show "\<exists>e. ih_node h1 i = Some e \<and> m (own e) = Some e \<and> hs (own e) = i" using node [OF b(2)] by auto
  next
    fix q e assume q: "m q = Some e"
    show "own e = q" "hs q \<in> {1..ih_size h} - {0}" "ih_node h1 (hs q) = Some e"
      using rep_owner [OF r q] node [of "hs q"] by auto
  qed (use len1 sz in auto)
  moreover have "ih_ordered le (ih_node h1) ?n ?n"
  proof -
    have "ih_le le (ih_node h1 (i div 2)) (ih_node h1 i)" if "i \<in> {2..?n}" "i \<noteq> ?n" for i
    proof -
      have i: "i \<in> {2..ih_size h}" using that by auto
      then have "i div 2 \<le> ih_size h" by auto
      then show ?thesis using rep_child [OF r i] node i by auto
    qed
    then show ?thesis unfolding ih_ordered_def by auto
  qed
  ultimately show "hole own hs m h1 hs (ih_size h1)" by (simp add: hole_def sz)
qed

lemma insert_spec:
  assumes r: "ih_rep le own h hs m" and new: "m (own e) = None"
  shows "\<exists>h' hs'. ih_insert le own h hs e = Some (h', hs') \<and> ih_rep le own h' hs' (m(own e \<mapsto> e))
    \<and> (\<forall>q. m q = None \<longrightarrow> q \<noteq> own e \<longrightarrow> hs' q = hs q)"
proof -
  define h1 where "h1 = (let h = h\<lparr>ih_size := ih_size h + 1\<rparr> in if length (ih_nodes h) \<le> ih_size h
      then h\<lparr>ih_nodes := ih_resize (ih_nodes h) (length (ih_nodes h) * 2)\<rparr> else h)"
  have eq: "ih_insert le own h hs e = ih_MoveHoleUpAndFillWithElement le own h1 hs (ih_size h1) e"
    by (simp add: ih_insert_def h1_def Let_def)
  note ho = insert_hole [OF r, folded h1_def]
  have "below h1 (ih_size h1) e" by (auto simp: below_def)
  from MoveHoleUp_spec [OF ho(1) this new] show ?thesis by (simp add: eq)
qed

lemma below_smaller:
  assumes r: "ih_rep le own h hs m" and a: "ih_node h k = Some a" "le e a"
    and h': "ih_size h' \<le> ih_size h" "\<And>i. i \<le> ih_size h' \<Longrightarrow> ih_node h' i = ih_node h i"
  shows "below h' k e"
  unfolding below_def
proof (intro ballI impI)
  fix i assume i: "i \<in> {2..ih_size h'}" "i div 2 = k"
  then have "i \<in> {2..ih_size h}" using h'(1) by auto
  from rep_child [OF r this] show "ih_le le (Some e) (ih_node h' i)"
    using i a h'(2) ih_le_trans [of "Some e" "Some a"] by simp
qed

lemma frame_shrink:
  assumes fr: "\<forall>q'. (m(q := None, r := None)) q' = None \<longrightarrow> q' \<noteq> r \<longrightarrow> hs' q' = (hs(q := 0)) q'"
    and m: "m q = Some a" "m r = Some e" "r \<noteq> q"
  shows "hs' q = 0 \<and> (\<forall>q'. m q' = None \<longrightarrow> hs' q' = hs q')"
proof (intro conjI allI impI)
  show "hs' q = 0" using fr [rule_format, of q] m by simp
  fix q' assume q': "m q' = None"
  then have "q' \<noteq> q" "q' \<noteq> r" using m by auto
  with fr [rule_format, of q'] q' show "hs' q' = hs q'" by simp
qed

lemma erase_spec:
  assumes r: "ih_rep le own h hs m" and q: "m q = Some a"
  shows "\<exists>h' hs'. ih_erase le own h hs (hs q) = Some (h', hs') \<and> ih_rep le own h' hs' (m(q := None))
    \<and> hs' q = 0 \<and> (\<forall>q'. m q' = None \<longrightarrow> hs' q' = hs q')"
proof -
  let ?k = "hs q" and ?n = "ih_size h" and ?hs = "hs(q := 0)" and ?m = "m(q := None)"
  note o = rep_owner [OF r q]
  note ho = rep_hole [OF r q refl, of 0]
  have mk: "ih_MakeHole own h hs ?k = Some ?hs" using o by (simp add: ih_MakeHole_def)
  show ?thesis
  proof (cases "?k = ?n")
    case True
    have "ih_erase le own h hs ?k = Some (h\<lparr>ih_size := ?n - 1\<rparr>, ?hs)"
      using mk o True by (simp add: ih_erase_def Let_def)
    moreover have "ih_rep le own (h\<lparr>ih_size := ?n - 1\<rparr>) ?hs ?m" using hole_last [OF ho True] True by simp
    ultimately show ?thesis using q by auto
  next
    case False
    have n1: "1 \<le> ?n" using o by simp
    then obtain e where e: "ih_node h ?n = Some e" by (rule rep_node [OF r _ order_refl])
    let ?h = "h\<lparr>ih_size := ?n - 1, ih_nodes := (ih_nodes h)[?n := None]\<rparr>"
    have ne: "?n - 1 \<noteq> 0" using False o by auto
    have eq: "ih_erase le own h hs ?k = (if le a e then ih_MoveHoleDownAndFillWithLeafElement le own ?h ?hs ?k e
        else ih_MoveHoleUpAndFillWithElement le own ?h ?hs ?k e)"
      using mk o False ne e by (simp add: ih_erase_def ih_empty_def ih_take_def Let_def)
    note sh = hole_shrink [OF ho refl False e]
    have me: "m (own e) = Some e" "own e \<noteq> q" using sh(2) by (auto split: if_splits)
    then have mm: "?m(own e := None, own e \<mapsto> e) = ?m" by (auto simp: fun_eq_iff)
    have "\<exists>h' hs'. ih_erase le own h hs ?k = Some (h', hs') \<and> ih_rep le own h' hs' (?m(own e := None, own e \<mapsto> e))
        \<and> (\<forall>q'. (?m(own e := None)) q' = None \<longrightarrow> q' \<noteq> own e \<longrightarrow> hs' q' = ?hs q')"
    proof (cases "le a e")
      case True
      with MoveHoleLeaf_spec [OF sh(1), of e] show ?thesis by (simp add: eq)
    next
      case False
      have "below ?h ?k e"
        by (rule below_smaller [OF r o(4)]) (use False total n1 in \<open>auto simp: ih_node_def nth_list_update\<close>)
      with False MoveHoleUp_spec [OF sh(1), of e] show ?thesis by (simp add: eq)
    qed
    then show ?thesis unfolding mm using frame_shrink [OF _ q me] by blast
  qed
qed

lemma Min_least:
  assumes r: "ih_rep le own h hs m" and i: "1 \<le> i" "i \<le> ih_size h"
  shows "ih_le le (ih_node h 1) (ih_node h i)"
  using i
proof (induction i rule: less_induct)
  case (less i)
  show ?case
  proof (cases "i = 1")
    case True
    obtain e where "ih_node h i = Some e" by (rule rep_node [OF r less.prems])
    then show ?thesis using True total [of e e] by simp
  next
    case False
    then have "i div 2 < i" "1 \<le> i div 2" "i div 2 \<le> ih_size h" "i \<in> {2..ih_size h}" using less.prems by auto
    then show ?thesis using less.IH rep_child [OF r] ih_le_trans by blast
  qed
qed

lemma Min_spec:
  assumes r: "ih_rep le own h hs m"
  shows "case ih_Min h of None \<Rightarrow> m = Map.empty
    | Some e \<Rightarrow> m (own e) = Some e \<and> hs (own e) = 1 \<and> 1 \<le> ih_size h \<and> (\<forall>q e'. m q = Some e' \<longrightarrow> le e e')"
proof (cases "1 \<le> ih_size h")
  case True
  obtain e where e: "ih_node h 1 = Some e" "m (own e) = Some e" "hs (own e) = 1" by (rule rep_node [OF r order_refl True])
  have "le e e'" if "m q = Some e'" for q e'
    using Min_least [OF r, of "hs q"] rep_owner [OF r that] e(1) by simp
  then show ?thesis using True e by (simp add: ih_Min_def)
next
  case False
  have "m q = None" for q
  proof (cases "m q")
    case (Some e)
    then show ?thesis using rep_owner(2,3) [OF r Some] False by simp
  qed
  then show ?thesis using False by (auto simp: ih_Min_def)
qed

lemma Pop_spec:
  assumes r: "ih_rep le own h hs m" and mn: "ih_Min h = Some a"
  shows "\<exists>h' hs'. ih_Pop le own h hs = Some (h', hs') \<and> ih_rep le own h' hs' (m(own a := None))
    \<and> hs' (own a) = 0 \<and> (\<forall>q. m q = None \<longrightarrow> hs' q = hs q)"
proof -
  let ?q = "own a" and ?n = "ih_size h"
  let ?hs = "hs(?q := 0)" and ?m = "m(?q := None)"
  have a: "m ?q = Some a" "hs ?q = 1" "1 \<le> ?n" using Min_spec [OF r] mn by auto
  note o = rep_owner [OF r a(1)]
  note ho = rep_hole [OF r a(1) refl, of 0, unfolded a(2)]
  have mk: "ih_MakeHole own h hs 1 = Some ?hs" using o a by (simp add: ih_MakeHole_def)
  show ?thesis
  proof (cases "?n = 1")
    case True
    have "ih_Pop le own h hs = Some (h\<lparr>ih_size := ?n - 1\<rparr>, ?hs)" using mk True by (simp add: ih_Pop_def ih_empty_def Let_def)
    moreover have "ih_rep le own (h\<lparr>ih_size := ?n - 1\<rparr>) ?hs ?m" using hole_last [OF ho] True by simp
    ultimately show ?thesis using a(1) by auto
  next
    case False
    obtain e where e: "ih_node h ?n = Some e" by (rule rep_node [OF r a(3) order_refl])
    let ?h = "h\<lparr>ih_size := ?n - 1, ih_nodes := (ih_nodes h)[?n := None]\<rparr>"
    have eq: "ih_Pop le own h hs = ih_MoveHoleDownAndFillWithLeafElement le own ?h ?hs 1 e"
      using mk a(3) False e by (simp add: ih_Pop_def ih_empty_def ih_take_def Let_def)
    note sh = hole_shrink [OF ho refl _ e]
    have me: "m (own e) = Some e" "own e \<noteq> ?q" using sh(2) False by (auto split: if_splits)
    then have mm: "?m(own e := None, own e \<mapsto> e) = ?m" by (auto simp: fun_eq_iff)
    have "\<exists>h' hs'. ih_Pop le own h hs = Some (h', hs') \<and> ih_rep le own h' hs' (?m(own e := None, own e \<mapsto> e))
        \<and> (\<forall>q'. (?m(own e := None)) q' = None \<longrightarrow> q' \<noteq> own e \<longrightarrow> hs' q' = ?hs q')"
      unfolding eq by (rule MoveHoleLeaf_spec [OF sh(1)]) (use False in auto)
    then show ?thesis unfolding mm using frame_shrink [OF _ a(1) me] by blast
  qed
qed

lemma ReplaceMin_spec:
  assumes r: "ih_rep le own h hs m" and mn: "ih_Min h = Some a" and e: "own e = own a"
  shows "\<exists>h' hs'. ih_ReplaceMin le own h hs e = Some (h', hs') \<and> ih_rep le own h' hs' (m(own e \<mapsto> e))
    \<and> (\<forall>q. m q = None \<longrightarrow> hs' q = hs q)"
proof -
  have a: "m (own a) = Some a" "hs (own a) = 1" using Min_spec [OF r] mn by auto
  note ho = rep_hole [OF r a(1) refl, of "hs (own a)", unfolded a(2)]
  have "hs(own a := 1) = hs" using a(2) by auto
  with ho have "hole own hs (m(own a := None)) h hs 1" by simp
  moreover have "above h 1 e" by (simp add: above_def)
  moreover have "(m(own a := None)) (own e) = None" using e by simp
  ultimately obtain h' hs' where "ih_ReplaceMin le own h hs e = Some (h', hs')"
    "ih_rep le own h' hs' (m(own a := None, own e \<mapsto> e))"
    "\<forall>q. (m(own a := None)) q = None \<longrightarrow> q \<noteq> own e \<longrightarrow> hs' q = hs q"
    using MoveHoleDown_spec unfolding ih_ReplaceMin_def by blast
  moreover have "m(own a := None, own e \<mapsto> e) = m(own e \<mapsto> e)" using e by auto
  ultimately show ?thesis using a(1) e by (metis (no_types, lifting) fun_upd_apply option.distinct(1))
qed

lemma ChangeKey_spec:
  assumes r: "ih_rep le own h hs m" and q: "m q = Some a" and e: "own e = q"
  shows "\<exists>h' hs'. ih_ChangeKey le own h hs (hs q) e = Some (h', hs') \<and> ih_rep le own h' hs' (m(q \<mapsto> e))
    \<and> (\<forall>q'. m q' = None \<longrightarrow> hs' q' = hs q')"
proof -
  note o = rep_owner [OF r q]
  have ho: "hole own hs (m(q := None)) h hs (hs q)" using rep_hole [OF r q refl, of "hs q"] by simp
  have new: "(m(q := None)) (own e) = None" using e by simp
  have mm: "m(q := None, own e \<mapsto> e) = m(q \<mapsto> e)" using e by auto
  have frame: "\<And>q'. m q' = None \<Longrightarrow> q' \<noteq> own e" using q e by auto
  show ?thesis
  proof (cases "le a e")
    case True
    then show ?thesis using MoveHoleLeaf_spec [OF ho new] o(4) frame unfolding mm by (auto simp: ih_ChangeKey_def)
  next
    case False
    have "below h (hs q) e" by (rule below_smaller [OF r o(4)]) (use False total in auto)
    from MoveHoleUp_spec [OF ho this new] False show ?thesis
      using o(4) frame unfolding mm by (auto simp: ih_ChangeKey_def)
  qed
qed

lemma rep_finite:
  assumes r: "ih_rep le own h hs m"
  shows "finite (dom m)" "card (dom m) = ih_size h"
proof -
  have "bij_betw hs (dom m) {1..ih_size h}"
  proof (rule bij_betw_imageI)
    show "inj_on hs (dom m)" by (rule inj_onI) (use rep_owner(1,4) [OF r] in \<open>metis domD option.inject\<close>)
    have "i \<in> hs ` dom m" if "i \<in> {1..ih_size h}" for i
      by (rule rep_node [OF r, of i]) (use that in auto)
    then show "hs ` dom m = {1..ih_size h}" using rep_owner(2,3) [OF r] by auto
  qed
  then show "finite (dom m)" "card (dom m) = ih_size h"
    using bij_betw_finite bij_betw_same_card by fastforce+
qed

lemma clear_handles_spec:
  assumes r: "ih_rep le own h hs m" and "set is \<subseteq> {1..ih_size h}"
  shows "ih_clear_handles own h hs0 is = Some (\<lambda>q. if m q \<noteq> None \<and> hs q \<in> set is then 0 else hs0 q)"
  using assms(2)
proof (induction "is" arbitrary: hs0)
  case (Cons i "is")
  have b: "1 \<le> i" "i \<le> ih_size h" using Cons.prems by auto
  obtain e where e: "ih_node h i = Some e" "m (own e) = Some e" "hs (own e) = i" by (rule rep_node [OF r b])
  have u: "m q \<noteq> None \<and> hs q = i \<longleftrightarrow> q = own e" for q
  proof
    assume q: "m q \<noteq> None \<and> hs q = i"
    then obtain a where a: "m q = Some a" by blast
    then show "q = own e" using rep_owner(1,4) [OF r a] q e(1) by simp
  qed (use e in simp)
  have "ih_MakeHole own h hs0 i = Some (hs0(own e := 0))" using e b by (simp add: ih_MakeHole_def)
  moreover have "(\<lambda>q. if m q \<noteq> None \<and> hs q \<in> set is then 0 else (hs0(own e := 0)) q)
      = (\<lambda>q. if m q \<noteq> None \<and> hs q \<in> set (i # is) then 0 else hs0 q)"
    by (rule ext) (use u in \<open>metis fun_upd_apply set_ConsD list.set_intros\<close>)
  ultimately show ?case using Cons by simp
qed simp

lemma Clear_spec:
  assumes r: "ih_rep le own h hs m"
  shows "\<exists>h' hs'. ih_Clear own h hs = Some (h', hs') \<and> ih_rep le own h' hs' Map.empty
    \<and> (\<forall>q. hs' q = (if m q = None then hs q else 0))"
proof -
  have "ih_clear_handles own h hs [1..<ih_size h + 1] = Some (\<lambda>q. if m q \<noteq> None \<and> hs q \<in> set [1..<ih_size h + 1] then 0 else hs q)"
    by (rule clear_handles_spec [OF r]) auto
  moreover have "m q \<noteq> None \<longrightarrow> hs q \<in> set [1..<ih_size h + 1]" for q using rep_owner(2,3) [OF r] by fastforce
  ultimately show ?thesis
    by (auto simp: ih_Clear_def ih_rep_def ih_filled_def ih_ordered_def ih_resize_def kMinimumHeapSize_def split: if_splits)
qed

end

section \<open>The interface of the heap\<close>

text \<open>
  What the scheduler relies on: a queue of elements with an order, holding one element for each
  owner in it, whose operations keep every owner's handle right and touch no other handle.
\<close>

locale handle_queue =
  fixes le :: "'a \<Rightarrow> 'a \<Rightarrow> bool" and own :: "'a \<Rightarrow> 'q" and rep :: "'s \<Rightarrow> 'q handles \<Rightarrow> ('q \<Rightarrow> 'a option) \<Rightarrow> bool"
    and qmin :: "'s \<Rightarrow> 'a option" and insert :: "'s \<Rightarrow> 'q handles \<Rightarrow> 'a \<Rightarrow> ('s \<times> 'q handles) option"
    and erase :: "'s \<Rightarrow> 'q handles \<Rightarrow> nat \<Rightarrow> ('s \<times> 'q handles) option"
    and pop :: "'s \<Rightarrow> 'q handles \<Rightarrow> ('s \<times> 'q handles) option"
    and replace :: "'s \<Rightarrow> 'q handles \<Rightarrow> 'a \<Rightarrow> ('s \<times> 'q handles) option"
    and change :: "'s \<Rightarrow> 'q handles \<Rightarrow> nat \<Rightarrow> 'a \<Rightarrow> ('s \<times> 'q handles) option"
  assumes finite: "rep s hs m \<Longrightarrow> finite (dom m)"
    and owner: "rep s hs m \<Longrightarrow> m q = Some e \<Longrightarrow> own e = q \<and> hs q \<noteq> 0"
    and least: "rep s hs m \<Longrightarrow> qmin s = Some e \<Longrightarrow> m (own e) = Some e \<and> (\<forall>q e'. m q = Some e' \<longrightarrow> le e e')"
    and none: "rep s hs m \<Longrightarrow> qmin s = None \<longleftrightarrow> m = Map.empty"
    and insert: "rep s hs m \<Longrightarrow> m (own e) = None \<Longrightarrow> \<exists>s' hs'. insert s hs e = Some (s', hs')
      \<and> rep s' hs' (m(own e \<mapsto> e)) \<and> (\<forall>q. m q = None \<longrightarrow> q \<noteq> own e \<longrightarrow> hs' q = hs q)"
    and erase: "rep s hs m \<Longrightarrow> m q = Some e \<Longrightarrow> \<exists>s' hs'. erase s hs (hs q) = Some (s', hs')
      \<and> rep s' hs' (m(q := None)) \<and> hs' q = 0 \<and> (\<forall>q'. m q' = None \<longrightarrow> hs' q' = hs q')"
    and pop: "rep s hs m \<Longrightarrow> qmin s = Some e \<Longrightarrow> \<exists>s' hs'. pop s hs = Some (s', hs')
      \<and> rep s' hs' (m(own e := None)) \<and> hs' (own e) = 0 \<and> (\<forall>q. m q = None \<longrightarrow> hs' q = hs q)"
    and replace: "rep s hs m \<Longrightarrow> qmin s = Some a \<Longrightarrow> own e = own a \<Longrightarrow> \<exists>s' hs'. replace s hs e = Some (s', hs')
      \<and> rep s' hs' (m(own e \<mapsto> e)) \<and> (\<forall>q. m q = None \<longrightarrow> hs' q = hs q)"
    and change: "rep s hs m \<Longrightarrow> m q = Some a \<Longrightarrow> own e = q \<Longrightarrow> \<exists>s' hs'. change s hs (hs q) e = Some (s', hs')
      \<and> rep s' hs' (m(q \<mapsto> e)) \<and> (\<forall>q'. m q' = None \<longrightarrow> hs' q' = hs q')"
begin

text \<open>Popping until the queue is empty gives its elements in order.\<close>

lemma drain:
  assumes "rep s hs m" "card (dom m) = n"
  shows "\<exists>es. drain_queue qmin pop n s hs = Some es \<and> sorted_wrt le es \<and> distinct (map own es) \<and> set es = ran m"
  using assms
proof (induction n arbitrary: s hs m)
  case 0
  then have "m = Map.empty" using finite [OF 0(1)] by simp
  then show ?case using none [OF 0(1)] by simp
next
  case (Suc n)
  then have "m \<noteq> Map.empty" by auto
  then obtain e where e: "qmin s = Some e" using none [OF Suc.prems(1)] by auto
  note l = least [OF Suc.prems(1) e]
  obtain s' hs' where p: "pop s hs = Some (s', hs')" "rep s' hs' (m(own e := None))"
    using pop [OF Suc.prems(1) e] by blast
  have "card (dom (m(own e := None))) = n" using Suc.prems(2) l finite [OF Suc.prems(1)] by (simp add: card_Diff_singleton domI)
  from Suc.IH [OF p(2) this] obtain es where es: "drain_queue qmin pop n s' hs' = Some es" "sorted_wrt le es"
    "distinct (map own es)" "set es = ran (m(own e := None))" by blast
  have set: "x \<in> set es \<longleftrightarrow> (\<exists>q. q \<noteq> own e \<and> m q = Some x)" for x by (auto simp: es(4) ran_def)
  have "own e \<notin> own ` set es" using set owner [OF Suc.prems(1)] by auto
  moreover have "\<forall>x \<in> set es. le e x" using set l by auto
  moreover have "x \<in> Set.insert e (set es) \<longleftrightarrow> x \<in> ran m" for x
  proof
    assume "x \<in> ran m"
    then obtain q where "m q = Some x" by (auto simp: ran_def)
    then show "x \<in> Set.insert e (set es)" using set [of x] l by (cases "q = own e") auto
  qed (use set l in \<open>auto simp: ran_def\<close>)
  then have "Set.insert e (set es) = ran m" by blast
  ultimately show ?case using e p(1) es(1-3) by auto
qed

end

sublocale total_preorder \<subseteq> heap: handle_queue le own "ih_rep le own" ih_Min "ih_insert le own" "ih_erase le own"
  "ih_Pop le own" "ih_ReplaceMin le own" "ih_ChangeKey le own" for own
proof unfold_locales
  fix h :: "'a IntrusiveHeap" and hs m assume r: "ih_rep le own h hs m"
  show "finite (dom m)" by (rule rep_finite [OF r])
  show "own e = q \<and> hs q \<noteq> 0" if "m q = Some e" for q e using rep_owner [OF r that] by simp
  show "m (own e) = Some e \<and> (\<forall>q e'. m q = Some e' \<longrightarrow> le e e')" if "ih_Min h = Some e" for e
    using Min_spec [OF r] that by simp
  show "ih_Min h = None \<longleftrightarrow> m = Map.empty" using Min_spec [OF r] by (auto split: option.splits)
qed (rule insert_spec erase_spec Pop_spec ReplaceMin_spec ChangeKey_spec; assumption)+

context total_preorder
begin

lemmas heap_drain = heap.drain

lemma insert_all_spec:
  assumes "ih_rep le own h hs m" "distinct (map own es)" "\<forall>e \<in> set es. m (own e) = None"
  shows "\<exists>h' hs'. ih_insert_all le own h hs es = Some (h', hs') \<and> ih_rep le own h' hs' (m ++ map_of (map (\<lambda>e. (own e, e)) es))"
  using assms
proof (induction es arbitrary: h hs m)
  case (Cons e es)
  obtain h1 hs1 where i: "ih_insert le own h hs e = Some (h1, hs1)" "ih_rep le own h1 hs1 (m(own e \<mapsto> e))"
    using insert_spec [OF Cons.prems(1), of e] Cons.prems(3) by auto
  have "\<forall>x \<in> set es. (m(own e \<mapsto> e)) (own x) = None" using Cons.prems(2,3) by (auto simp: image_iff)
  then obtain h' hs' where all: "ih_insert_all le own h1 hs1 es = Some (h', hs')"
    and rep: "ih_rep le own h' hs' (m(own e \<mapsto> e) ++ map_of (map (\<lambda>e. (own e, e)) es))"
    using Cons.IH [OF i(2)] Cons.prems(2) by fastforce
  have eq: "m(own e \<mapsto> e) ++ map_of (map (\<lambda>e. (own e, e)) es) = m ++ map_of (map (\<lambda>e. (own e, e)) (e # es))"
    using Cons.prems(2) by (simp add: map_add_upd_left dom_map_of_conv_image_fst image_image)
  have "ih_insert_all le own h hs (e # es) = Some (h', hs')" using i(1) all by simp
  with rep [unfolded eq] show ?case by blast
qed simp

lemma step_match:
  assumes r: "ih_rep le own h hs m" and a: "ih_allowed own h m op"
  shows "\<exists>h' hs' m'. ih_step le own h hs op = Some (h', hs') \<and> pq_step le own m op m' \<and> ih_rep le own h' hs' m'"
proof (cases op)
  case (HInsert e)
  then show ?thesis using a insert_spec [OF r, of e] PQInsert [of m own e le] by auto
next
  case (HErase q)
  then show ?thesis using a erase_spec [OF r, of q] PQErase [of m q _ le own] by fastforce
next
  case HPop
  obtain e where e: "ih_Min h = Some e"
    using a HPop Min_spec [OF r] rep_finite [OF r] by (cases "ih_Min h") (auto simp: ih_empty_def)
  then show ?thesis using HPop Pop_spec [OF r e] Min_spec [OF r] PQPop [of m own e le] by fastforce
next
  case (HReplaceMin e)
  then obtain b where b: "ih_Min h = Some b" "own e = own b" using a by (auto split: option.splits)
  then show ?thesis using HReplaceMin ReplaceMin_spec [OF r b] Min_spec [OF r] PQReplaceMin [of m own e b le] by fastforce
next
  case (HChangeKey q e)
  then show ?thesis using a ChangeKey_spec [OF r, of q _ e] PQChangeKey [of m q _ own e le] by fastforce
next
  case HClear
  then show ?thesis using Clear_spec [OF r] PQClear by fastforce
qed

end

section \<open>Properties\<close>

text \<open>
  C7: for every total preorder, each call on a heap that respects the preconditions passes all
  checks, among them that the nodes form a heap after every fill, reads no moved-from or missing
  node, keeps every owner's handle equal to the position of its element, and has the effect of
  the same operation on a priority queue with one element for each owner.
\<close>

theorem intrusive_heap_refines_queue:
  assumes "total_preorder le" and "ih_rep le own h hs m" and "ih_allowed own h m op"
  shows "\<exists>h' hs' m'. ih_step le own h hs op = Some (h', hs') \<and> pq_step le own m op m' \<and> ih_rep le own h' hs' m'"
  by (rule total_preorder.step_match [OF assms])

text \<open>
  elements with distinct owners inserted in any order into an empty heap come out of repeated
  \<open>Min\<close> and \<open>Pop\<close> calls in order, each exactly once.
\<close>

theorem intrusive_heap_sorts:
  assumes "total_preorder le" and "distinct (map own es)"
  shows "\<exists>h hs ys. ih_insert_all le own ih_init (\<lambda>_. 0) es = Some (h, hs)
    \<and> drain_queue ih_Min (ih_Pop le own) (length es) h hs = Some ys \<and> sorted_wrt le ys \<and> mset ys = mset es"
proof -
  let ?m = "map_of (map (\<lambda>e. (own e, e)) es)"
  obtain h hs where i: "ih_insert_all le own ih_init (\<lambda>_. 0) es = Some (h, hs)" "ih_rep le own h hs ?m"
    using total_preorder.insert_all_spec [OF assms(1) total_preorder.rep_init [OF assms(1), of own "\<lambda>_. 0"] assms(2)] by auto
  have d: "distinct (map fst (map (\<lambda>e. (own e, e)) es))" using assms(2) by (simp add: comp_def)
  have "dom ?m = own ` set es" by (simp add: dom_map_of_conv_image_fst image_image)
  then have "card (dom ?m) = length es" using assms(2) by (metis distinct_card length_map list.set_map)
  from total_preorder.heap_drain [OF assms(1) i(2) this] obtain ys where
    ys: "drain_queue ih_Min (ih_Pop le own) (length es) h hs = Some ys" "sorted_wrt le ys" "distinct (map own ys)"
      "set ys = ran ?m" by blast
  have "ran ?m = set es" using ran_distinct [OF d] by (simp add: image_image)
  then have "mset ys = mset es" using ys(3,4) assms(2) by (metis distinct_map set_eq_iff_mset_eq_distinct)
  then show ?thesis using i(1) ys by blast
qed

text \<open>A heap of keys that are their own owners, for concrete runs.\<close>

interpretation nat_heap: total_preorder "(\<le>) :: nat \<Rightarrow> nat \<Rightarrow> bool"
  by unfold_locales auto

theorem intrusive_heap_refines_queue_witness:
  "\<exists>h' hs' m'. ih_step (\<le>) id ih_init (\<lambda>_. 0) (HInsert (5 :: nat)) = Some (h', hs')
    \<and> pq_step (\<le>) id Map.empty (HInsert 5) m' \<and> ih_rep (\<le>) id h' hs' m'"
  by (rule intrusive_heap_refines_queue [OF nat_heap.total_preorder_axioms nat_heap.rep_init]) simp

theorem intrusive_heap_sorts_witness:
  "\<exists>h hs ys. ih_insert_all (\<le>) id ih_init (\<lambda>_. 0) [5, 2, 9, 1 :: nat] = Some (h, hs)
    \<and> drain_queue ih_Min (ih_Pop (\<le>) id) (length [5, 2, 9, 1 :: nat]) h hs = Some ys \<and> sorted_wrt (\<le>) ys \<and> mset ys = mset [5, 2, 9, 1]"
  by (rule intrusive_heap_sorts [OF nat_heap.total_preorder_axioms]) simp

end
