(* ===== verification/Work_Queue.thy ===== *)
theory Work_Queue
  imports Intrusive_Heap
begin

text \<open>
  The work queues of the sequence manager and the sets that order them:
  \<open>base/task/sequence_manager/work_queue.cc\<close>, \<open>work_queue_sets.cc\<close>, \<open>enqueue_order.h\<close> and the parts of
  \<open>task_queue_impl.cc\<close> that reload a queue and place its fences. Work queues refer to their sets and
  the heap nodes of the sets refer back to the queues, so the state is one record: the work queues
  by identity, the task queues that own them, and the heaps of the two \<open>WorkQueueSets\<close> of the
  selector, one heap for each priority. A \<open>TaskDeque\<close> is the list of its tasks. A failed check or a
  null pointer dereference gives \<open>None\<close>. The loop over the reloaded tasks that looks for one past a
  delayed fence visits them in order here; the iterator of the deque does so while the tasks are in
  one ring, and \<open>iteration_breaks_on_growth\<close> in \<open>Lazily_Deallocated_Deque\<close> shows what it does else.
\<close>

section \<open>Data\<close>

text \<open>\<open>EnqueueOrder\<close>: \<open>none()\<close>, \<open>blocking_fence()\<close> and the first generated value.\<close>

definition eo_none :: nat where
  "eo_none = 0"

definition eo_blocking_fence :: nat where
  "eo_blocking_fence = 1"

definition eo_first :: nat where
  "eo_first = 2"

record Task =
  t_enqueue_order :: nat
  t_delayed_run_time :: int
  t_cancelled :: bool
  t_nestable :: bool

datatype QueueType = kImmediate | kDelayed

text \<open>Which of the two sets of the selector a \<open>WorkQueueSets*\<close> points to.\<close>

datatype SetsId = DelayedSets | ImmediateSets

record 't WorkQueue =
  wq_tasks :: "Task list"
  wq_sets :: "SetsId option"
  wq_task_queue :: 't
  wq_set_index :: nat
  wq_handle :: nat
  wq_fence :: nat
  wq_type :: QueueType

record 'w TaskQueueImpl =
  tq_incoming :: "Task list"
  tq_delayed_fence :: "int option"
  tq_current_fence :: nat
  tq_immediate :: 'w
  tq_delayed :: 'w

type_synonym 'w oldest = "nat \<times> 'w"

record ('w, 't) world =
  w_wq :: "'w \<Rightarrow> 't WorkQueue"
  w_tq :: "'t \<Rightarrow> 'w TaskQueueImpl"
  w_heaps :: "SetsId \<Rightarrow> 'w oldest IntrusiveHeap list"
  w_next :: nat

text \<open>\<open>OldestTaskEnqueueOrder\<close>: compared by key, its handle kept in the queue it points to.\<close>

definition oldest_le :: "'w oldest \<Rightarrow> 'w oldest \<Rightarrow> bool" where
  "oldest_le a b = (fst a \<le> fst b)"

definition w_handles :: "('w, 't) world \<Rightarrow> 'w handles" where
  "w_handles s = (\<lambda>w. wq_handle (w_wq s w))"

definition w_set_handles :: "('w, 't) world \<Rightarrow> 'w handles \<Rightarrow> ('w, 't) world" where
  "w_set_handles s hs = s\<lparr>w_wq := \<lambda>w. (w_wq s w)\<lparr>wq_handle := hs w\<rparr>\<rparr>"

definition w_upd :: "('w, 't) world \<Rightarrow> 'w \<Rightarrow> ('t WorkQueue \<Rightarrow> 't WorkQueue) \<Rightarrow> ('w, 't) world" where
  "w_upd s w f = s\<lparr>w_wq := (w_wq s)(w := f (w_wq s w))\<rparr>"

text \<open>A call on \<open>work_queue_heaps_[i]\<close>, which writes the handles of the queues it moves.\<close>

definition on_heap ::
  "SetsId \<Rightarrow> nat \<Rightarrow> ('w oldest IntrusiveHeap \<Rightarrow> 'w handles \<Rightarrow> ('w oldest IntrusiveHeap \<times> 'w handles) option) \<Rightarrow>
   ('w, 't) world \<Rightarrow> ('w, 't) world option" where
  "on_heap sid i f s =
     (if i < length (w_heaps s sid) then do {
        (h, hs) \<leftarrow> f (w_heaps s sid ! i) (w_handles s);
        Some (w_set_handles (s\<lparr>w_heaps := (w_heaps s)(sid := (w_heaps s sid)[i := h])\<rparr>) hs)
      } else None)"

section \<open>WorkQueue: queries\<close>

definition wq_BlockedByFence :: "'t WorkQueue \<Rightarrow> bool" where
  "wq_BlockedByFence q =
     (if wq_fence q = eo_none then False
      else wq_tasks q = [] \<or> wq_fence q \<le> t_enqueue_order (hd (wq_tasks q)))"

text \<open>The outer option is the sanity check, the inner one the boolean result.\<close>

definition wq_GetFrontTaskEnqueueOrder :: "'t WorkQueue \<Rightarrow> nat option option" where
  "wq_GetFrontTaskEnqueueOrder q =
     (if wq_tasks q = [] \<or> wq_BlockedByFence q then Some None
      else if t_enqueue_order (hd (wq_tasks q)) \<le> t_enqueue_order (last (wq_tasks q))
      then Some (Some (t_enqueue_order (hd (wq_tasks q)))) else None)"

definition wq_GetFrontTask :: "'t WorkQueue \<Rightarrow> Task option" where
  "wq_GetFrontTask q = (if wq_tasks q = [] then None else Some (hd (wq_tasks q)))"

definition wq_GetBackTask :: "'t WorkQueue \<Rightarrow> Task option" where
  "wq_GetBackTask q = (if wq_tasks q = [] then None else Some (last (wq_tasks q)))"

definition wq_ShouldRunBefore :: "'t WorkQueue \<Rightarrow> 't WorkQueue \<Rightarrow> bool option" where
  "wq_ShouldRunBefore q other =
     (if wq_tasks q \<noteq> [] \<and> wq_tasks other \<noteq> [] then do {
        a \<leftarrow> wq_GetFrontTaskEnqueueOrder q;
        b \<leftarrow> wq_GetFrontTaskEnqueueOrder other;
        a \<leftarrow> a;
        b \<leftarrow> b;
        Some (a < b)
      } else None)"

section \<open>WorkQueueSets\<close>

definition wqs_AddQueue :: "SetsId \<Rightarrow> ('w, 't) world \<Rightarrow> 'w \<Rightarrow> nat \<Rightarrow> ('w, 't) world option" where
  "wqs_AddQueue sid s w set_index =
     (if wq_sets (w_wq s w) = None \<and> set_index < length (w_heaps s sid) then do {
        enqueue_order \<leftarrow> wq_GetFrontTaskEnqueueOrder (w_wq s w);
        let s = w_upd s w (\<lambda>q. q\<lparr>wq_sets := Some sid\<rparr>);
        let s = w_upd s w (\<lambda>q. q\<lparr>wq_set_index := set_index\<rparr>);
        (case enqueue_order of
           None \<Rightarrow> Some s
         | Some k \<Rightarrow> on_heap sid set_index (\<lambda>h hs. ih_insert oldest_le snd h hs (k, w)) s)
      } else None)"

definition wqs_RemoveQueue :: "SetsId \<Rightarrow> ('w, 't) world \<Rightarrow> 'w \<Rightarrow> ('w, 't) world option" where
  "wqs_RemoveQueue sid s w =
     (if wq_sets (w_wq s w) = Some sid then
        let s = w_upd s w (\<lambda>q. q\<lparr>wq_sets := None\<rparr>);
            heap_handle = wq_handle (w_wq s w) in
        if \<not> HeapHandle_IsValid heap_handle then Some s
        else on_heap sid (wq_set_index (w_wq s w)) (\<lambda>h hs. ih_erase oldest_le snd h hs heap_handle) s
      else None)"

definition wqs_ChangeSetIndex :: "SetsId \<Rightarrow> ('w, 't) world \<Rightarrow> 'w \<Rightarrow> nat \<Rightarrow> ('w, 't) world option" where
  "wqs_ChangeSetIndex sid s w set_index =
     (if wq_sets (w_wq s w) = Some sid \<and> set_index < length (w_heaps s sid) then do {
        enqueue_order \<leftarrow> wq_GetFrontTaskEnqueueOrder (w_wq s w);
        let old_set = wq_set_index (w_wq s w);
        if old_set < length (w_heaps s sid) \<and> old_set \<noteq> set_index then
          let s = w_upd s w (\<lambda>q. q\<lparr>wq_set_index := set_index\<rparr>) in
          case enqueue_order of
            None \<Rightarrow> Some s
          | Some k \<Rightarrow> do {
              s \<leftarrow> on_heap sid old_set (\<lambda>h hs. ih_erase oldest_le snd h hs (wq_handle (w_wq s w))) s;
              on_heap sid set_index (\<lambda>h hs. ih_insert oldest_le snd h hs (k, w)) s
            }
        else None
      } else None)"

definition wqs_OnFrontTaskChanged :: "SetsId \<Rightarrow> ('w, 't) world \<Rightarrow> 'w \<Rightarrow> ('w, 't) world option" where
  "wqs_OnFrontTaskChanged sid s w = do {
     enqueue_order \<leftarrow> wq_GetFrontTaskEnqueueOrder (w_wq s w);
     k \<leftarrow> enqueue_order;
     on_heap sid (wq_set_index (w_wq s w)) (\<lambda>h hs. ih_ChangeKey oldest_le snd h hs (wq_handle (w_wq s w)) (k, w)) s
   }"

definition wqs_OnTaskPushedToEmptyQueue :: "SetsId \<Rightarrow> ('w, 't) world \<Rightarrow> 'w \<Rightarrow> ('w, 't) world option" where
  "wqs_OnTaskPushedToEmptyQueue sid s w =
     (if wq_sets (w_wq s w) = Some sid then do {
        enqueue_order \<leftarrow> wq_GetFrontTaskEnqueueOrder (w_wq s w);
        k \<leftarrow> enqueue_order;
        if wq_set_index (w_wq s w) < length (w_heaps s sid) \<and> \<not> HeapHandle_IsValid (wq_handle (w_wq s w))
        then on_heap sid (wq_set_index (w_wq s w)) (\<lambda>h hs. ih_insert oldest_le snd h hs (k, w)) s
        else None
      } else None)"

definition wqs_OnPopQueue :: "SetsId \<Rightarrow> ('w, 't) world \<Rightarrow> 'w \<Rightarrow> ('w, 't) world option" where
  "wqs_OnPopQueue sid s w =
     (let set_index = wq_set_index (w_wq s w) in
      if wq_sets (w_wq s w) = Some sid \<and> set_index < length (w_heaps s sid)
        \<and> \<not> ih_empty (w_heaps s sid ! set_index)
        \<and> map_option snd (ih_Min (w_heaps s sid ! set_index)) = Some w
        \<and> HeapHandle_IsValid (wq_handle (w_wq s w)) then do {
        enqueue_order \<leftarrow> wq_GetFrontTaskEnqueueOrder (w_wq s w);
        (case enqueue_order of
           Some k \<Rightarrow> on_heap sid set_index (\<lambda>h hs. ih_ReplaceMin oldest_le snd h hs (k, w)) s
         | None \<Rightarrow> do {
             s \<leftarrow> on_heap sid set_index (\<lambda>h hs. ih_Pop oldest_le snd h hs) s;
             if ih_empty (w_heaps s sid ! set_index) \<or> map_option snd (ih_Min (w_heaps s sid ! set_index)) \<noteq> Some w
             then Some s else None
           })
      } else None)"

definition wqs_OnQueueBlocked :: "SetsId \<Rightarrow> ('w, 't) world \<Rightarrow> 'w \<Rightarrow> ('w, 't) world option" where
  "wqs_OnQueueBlocked sid s w =
     (if wq_sets (w_wq s w) = Some sid then
        let heap_handle = wq_handle (w_wq s w) in
        if \<not> HeapHandle_IsValid heap_handle then Some s
        else on_heap sid (wq_set_index (w_wq s w)) (\<lambda>h hs. ih_erase oldest_le snd h hs heap_handle) s
      else None)"

definition wqs_GetOldestQueueInSet :: "SetsId \<Rightarrow> ('w, 't) world \<Rightarrow> nat \<Rightarrow> 'w option option" where
  "wqs_GetOldestQueueInSet sid s set_index =
     (if set_index < length (w_heaps s sid) then
        if ih_empty (w_heaps s sid ! set_index) then Some None
        else do {
          (k, w) \<leftarrow> ih_Min (w_heaps s sid ! set_index);
          if set_index = wq_set_index (w_wq s w) \<and> HeapHandle_IsValid (wq_handle (w_wq s w))
          then Some (Some w) else None
        }
      else None)"

definition wqs_GetOldestQueueAndEnqueueOrderInSet :: "SetsId \<Rightarrow> ('w, 't) world \<Rightarrow> nat \<Rightarrow> ('w \<times> nat) option option" where
  "wqs_GetOldestQueueAndEnqueueOrderInSet sid s set_index =
     (if set_index < length (w_heaps s sid) then
        if ih_empty (w_heaps s sid ! set_index) then Some None
        else do {
          (k, w) \<leftarrow> ih_Min (w_heaps s sid ! set_index);
          enqueue_order \<leftarrow> wq_GetFrontTaskEnqueueOrder (w_wq s w);
          if enqueue_order = Some k then Some (Some (w, k)) else None
        }
      else None)"

definition wqs_IsSetEmpty :: "SetsId \<Rightarrow> ('w, 't) world \<Rightarrow> nat \<Rightarrow> bool option" where
  "wqs_IsSetEmpty sid s set_index =
     (if set_index < length (w_heaps s sid) then Some (ih_empty (w_heaps s sid ! set_index)) else None)"

text \<open>
  \<open>ContainsWorkQueueForTest\<close>, used in checks of the selector: a node for the queue must have the
  key of the queue's front task, and a queue of these sets without a node must have none to run.
\<close>

fun wqs_find_node :: "('w, 't) world \<Rightarrow> 'w \<Rightarrow> nat option \<Rightarrow> SetsId \<Rightarrow> 'w oldest option list \<Rightarrow> bool option" where
  "wqs_find_node s w order sid [] = Some False"
| "wqs_find_node s w order sid (node # nodes) = do {
     (k, v) \<leftarrow> node;
     if v = w then if order = Some k \<and> wq_sets (w_wq s w) = Some sid then Some True else None
     else wqs_find_node s w order sid nodes
   }"

definition wqs_ContainsWorkQueueForTest :: "SetsId \<Rightarrow> ('w, 't) world \<Rightarrow> 'w \<Rightarrow> bool option" where
  "wqs_ContainsWorkQueueForTest sid s w = do {
     order \<leftarrow> wq_GetFrontTaskEnqueueOrder (w_wq s w);
     found \<leftarrow> wqs_find_node s w order sid
       (concat (map (\<lambda>h. map (ih_node h) [1..<ih_size h + 1]) (w_heaps s sid)));
     if found then Some True
     else if wq_sets (w_wq s w) = Some sid then if order = None then Some True else None
     else Some False
   }"

section \<open>WorkQueue: operations\<close>

text \<open>\<open>work_queue_sets_->f(this)\<close>: a null pointer cannot be dereferenced.\<close>

definition wq_Push :: "('w, 't) world \<Rightarrow> 'w \<Rightarrow> Task \<Rightarrow> ('w, 't) world option" where
  "wq_Push s w task =
     (let was_empty = (wq_tasks (w_wq s w) = []) in
      if t_enqueue_order task \<noteq> eo_none
        \<and> (was_empty \<or> t_enqueue_order (last (wq_tasks (w_wq s w))) < t_enqueue_order task) then
        let s = w_upd s w (\<lambda>q. q\<lparr>wq_tasks := wq_tasks q @ [task]\<rparr>) in
        if \<not> was_empty then Some s
        else (case wq_sets (w_wq s w) of
                Some sid \<Rightarrow> if \<not> wq_BlockedByFence (w_wq s w) then wqs_OnTaskPushedToEmptyQueue sid s w else Some s
              | None \<Rightarrow> Some s)
      else None)"

definition wq_PushNonNestableTaskToFront :: "('w, 't) world \<Rightarrow> 'w \<Rightarrow> Task \<Rightarrow> ('w, 't) world option" where
  "wq_PushNonNestableTaskToFront s w task =
     (let was_empty = (wq_tasks (w_wq s w) = []);
          was_blocked = wq_BlockedByFence (w_wq s w) in
      if \<not> t_nestable task \<and> t_enqueue_order task \<noteq> eo_none
        \<and> (was_empty \<or> t_enqueue_order task \<le> t_enqueue_order (hd (wq_tasks (w_wq s w)))) then
        let s = w_upd s w (\<lambda>q. q\<lparr>wq_tasks := task # wq_tasks q\<rparr>) in
        case wq_sets (w_wq s w) of
          None \<Rightarrow> Some s
        | Some sid \<Rightarrow>
            if wq_BlockedByFence (w_wq s w) then Some s
            else if was_empty \<or> was_blocked then wqs_OnTaskPushedToEmptyQueue sid s w
            else wqs_OnFrontTaskChanged sid s w
      else None)"

definition wq_InsertFenceImpl :: "('w, 't) world \<Rightarrow> 'w \<Rightarrow> nat \<Rightarrow> (('w, 't) world \<times> bool) option" where
  "wq_InsertFenceImpl s w fence =
     (if fence \<noteq> 0 \<and> (wq_fence (w_wq s w) \<le> fence \<or> fence = eo_blocking_fence)
      then Some (w_upd s w (\<lambda>q. q\<lparr>wq_fence := fence\<rparr>), wq_BlockedByFence (w_wq s w)) else None)"

definition wq_InsertFenceSilently :: "('w, 't) world \<Rightarrow> 'w \<Rightarrow> nat \<Rightarrow> ('w, 't) world option" where
  "wq_InsertFenceSilently s w fence =
     (if wq_fence (w_wq s w) = eo_none \<or> wq_fence (w_wq s w) = eo_blocking_fence
      then map_option fst (wq_InsertFenceImpl s w fence) else None)"

definition wq_InsertFence :: "('w, 't) world \<Rightarrow> 'w \<Rightarrow> nat \<Rightarrow> (('w, 't) world \<times> bool) option" where
  "wq_InsertFence s w fence = do {
     (s, was_blocked_by_fence) \<leftarrow> wq_InsertFenceImpl s w fence;
     if wq_sets (w_wq s w) \<noteq> None \<and> wq_tasks (w_wq s w) \<noteq> [] \<and> was_blocked_by_fence
       \<and> \<not> wq_BlockedByFence (w_wq s w) then do {
       sid \<leftarrow> wq_sets (w_wq s w);
       s \<leftarrow> wqs_OnTaskPushedToEmptyQueue sid s w;
       Some (s, True)
     } else if wq_BlockedByFence (w_wq s w) then do {
       sid \<leftarrow> wq_sets (w_wq s w);
       s \<leftarrow> wqs_OnQueueBlocked sid s w;
       Some (s, False)
     } else Some (s, False)
   }"

definition wq_RemoveFence :: "('w, 't) world \<Rightarrow> 'w \<Rightarrow> (('w, 't) world \<times> bool) option" where
  "wq_RemoveFence s w =
     (let was_blocked_by_fence = wq_BlockedByFence (w_wq s w);
          s = w_upd s w (\<lambda>q. q\<lparr>wq_fence := eo_none\<rparr>) in
      if wq_sets (w_wq s w) \<noteq> None \<and> wq_tasks (w_wq s w) \<noteq> [] \<and> was_blocked_by_fence then do {
        sid \<leftarrow> wq_sets (w_wq s w);
        s \<leftarrow> wqs_OnTaskPushedToEmptyQueue sid s w;
        Some (s, True)
      } else Some (s, False))"

section \<open>TaskQueueImpl: reloading a work queue\<close>

text \<open>
  \<open>TaskQueueImpl::ReloadEmptyImmediateQueue(&tasks_)\<close>: the deque of work queue \<open>w\<close> is swapped with the
  incoming queue; a delayed fence that a reloaded task has reached becomes a fence at that task.
\<close>

definition tq_ReloadEmptyImmediateQueue :: "('w, 't) world \<Rightarrow> 'w \<Rightarrow> ('w, 't) world option" where
  "tq_ReloadEmptyImmediateQueue s w =
     (let t = wq_task_queue (w_wq s w); tq = w_tq s t in
      if wq_tasks (w_wq s w) = [] then
        let queue = tq_incoming tq;
            s = w_upd s w (\<lambda>q. q\<lparr>wq_tasks := queue\<rparr>);
            tq = tq\<lparr>tq_incoming := []\<rparr>;
            s = s\<lparr>w_tq := (w_tq s)(t := tq)\<rparr> in
        case tq_delayed_fence tq of
          None \<Rightarrow> Some s
        | Some fence_time \<Rightarrow>
            (case List.find (\<lambda>task. fence_time \<le> t_delayed_run_time task) queue of
               None \<Rightarrow> Some s
             | Some task \<Rightarrow>
                 if tq_current_fence tq = eo_none then
                   let tq = tq\<lparr>tq_delayed_fence := None, tq_current_fence := t_enqueue_order task\<rparr>;
                       s = s\<lparr>w_tq := (w_tq s)(t := tq)\<rparr> in
                   do {
                     s \<leftarrow> wq_InsertFenceSilently s (tq_immediate tq) (tq_current_fence tq);
                     wq_InsertFenceSilently s (tq_delayed tq) (tq_current_fence tq)
                   }
                 else None)
      else None)"

definition wq_ReloadEmptyImmediateQueue :: "('w, 't) world \<Rightarrow> 'w \<Rightarrow> ('w, 't) world option" where
  "wq_ReloadEmptyImmediateQueue s w =
     (if wq_tasks (w_wq s w) = [] then do {
        s \<leftarrow> tq_ReloadEmptyImmediateQueue s w;
        if wq_tasks (w_wq s w) = [] then Some s
        else (case wq_sets (w_wq s w) of
                Some sid \<Rightarrow> if \<not> wq_BlockedByFence (w_wq s w) then wqs_OnTaskPushedToEmptyQueue sid s w else Some s
              | None \<Rightarrow> Some s)
      } else None)"

definition wq_reload_after_pop :: "('w, 't) world \<Rightarrow> 'w \<Rightarrow> ('w, 't) world option" where
  "wq_reload_after_pop s w =
     (if wq_type (w_wq s w) = kImmediate \<and> wq_tasks (w_wq s w) = [] then tq_ReloadEmptyImmediateQueue s w else Some s)"

definition wq_TakeTaskFromWorkQueue :: "('w, 't) world \<Rightarrow> 'w \<Rightarrow> (('w, 't) world \<times> Task) option" where
  "wq_TakeTaskFromWorkQueue s w =
     (case wq_sets (w_wq s w) of
        None \<Rightarrow> None
      | Some sid \<Rightarrow>
          (case wq_tasks (w_wq s w) of
             [] \<Rightarrow> None
           | pending_task # tasks \<Rightarrow> do {
               s \<leftarrow> wq_reload_after_pop (w_upd s w (\<lambda>q. q\<lparr>wq_tasks := tasks\<rparr>)) w;
               s \<leftarrow> wqs_OnPopQueue sid s w;
               Some (s, pending_task)
             }))"

definition wq_RemoveAllCanceledTasksFromFront :: "('w, 't) world \<Rightarrow> 'w \<Rightarrow> (('w, 't) world \<times> bool) option" where
  "wq_RemoveAllCanceledTasksFromFront s w =
     (case wq_sets (w_wq s w) of
        None \<Rightarrow> None
      | Some sid \<Rightarrow>
          (let tasks = dropWhile t_cancelled (wq_tasks (w_wq s w));
               task_removed = (tasks \<noteq> wq_tasks (w_wq s w)) in
           if task_removed then do {
             s \<leftarrow> wq_reload_after_pop (w_upd s w (\<lambda>q. q\<lparr>wq_tasks := tasks\<rparr>)) w;
             s \<leftarrow> wqs_OnPopQueue sid s w;
             Some (s, True)
           } else Some (s, False)))"

section \<open>TaskQueueImpl: posting and fences\<close>

text \<open>\<open>PostImmediateTaskImpl\<close>, with the next enqueue order from the generator.\<close>

definition tq_PostImmediateTask :: "('w, 't) world \<Rightarrow> 't \<Rightarrow> int \<Rightarrow> bool \<Rightarrow> bool \<Rightarrow> ('w, 't) world" where
  "tq_PostImmediateTask s t now cancelled nestable =
     (let task = \<lparr>t_enqueue_order = w_next s, t_delayed_run_time = now, t_cancelled = cancelled, t_nestable = nestable\<rparr> in
      s\<lparr>w_next := w_next s + 1,
        w_tq := (w_tq s)(t := (w_tq s t)\<lparr>tq_incoming := tq_incoming (w_tq s t) @ [task]\<rparr>)\<rparr>)"

datatype InsertFencePosition = kNow | kBeginningOfTime

definition tq_InsertFence :: "('w, 't) world \<Rightarrow> 't \<Rightarrow> InsertFencePosition \<Rightarrow> (('w, 't) world \<times> bool) option" where
  "tq_InsertFence s t position =
     (let previous_fence = tq_current_fence (w_tq s t);
          current_fence = (if position = kNow then w_next s else eo_blocking_fence);
          s = (if position = kNow then s\<lparr>w_next := w_next s + 1\<rparr> else s);
          s = s\<lparr>w_tq := (w_tq s)(t := (w_tq s t)\<lparr>tq_delayed_fence := None, tq_current_fence := current_fence\<rparr>)\<rparr> in
      do {
        (s, u1) \<leftarrow> wq_InsertFence s (tq_immediate (w_tq s t)) current_fence;
        (s, u2) \<leftarrow> wq_InsertFence s (tq_delayed (w_tq s t)) current_fence;
        let incoming = tq_incoming (w_tq s t);
        Some (s, u1 \<or> u2 \<or> previous_fence \<noteq> 0 \<and> previous_fence < current_fence \<and> incoming \<noteq> []
                 \<and> previous_fence < t_enqueue_order (hd incoming) \<and> t_enqueue_order (hd incoming) < current_fence)
      })"

definition tq_RemoveFence :: "('w, 't) world \<Rightarrow> 't \<Rightarrow> (('w, 't) world \<times> bool) option" where
  "tq_RemoveFence s t =
     (let previous_fence = tq_current_fence (w_tq s t);
          s = s\<lparr>w_tq := (w_tq s)(t := (w_tq s t)\<lparr>tq_delayed_fence := None, tq_current_fence := eo_none\<rparr>)\<rparr> in
      do {
        (s, u1) \<leftarrow> wq_RemoveFence s (tq_immediate (w_tq s t));
        (s, u2) \<leftarrow> wq_RemoveFence s (tq_delayed (w_tq s t));
        let incoming = tq_incoming (w_tq s t);
        Some (s, u1 \<or> u2 \<or> previous_fence \<noteq> 0 \<and> incoming \<noteq> [] \<and> previous_fence < t_enqueue_order (hd incoming))
      })"

definition tq_InsertFenceAt :: "('w, 't) world \<Rightarrow> 't \<Rightarrow> int \<Rightarrow> ('w, 't) world option" where
  "tq_InsertFenceAt s t time = do {
     (s, _) \<leftarrow> tq_RemoveFence s t;
     Some (s\<lparr>w_tq := (w_tq s)(t := (w_tq s t)\<lparr>tq_delayed_fence := Some time\<rparr>)\<rparr>)
   }"

definition tq_ActivateDelayedFenceIfNeeded :: "('w, 't) world \<Rightarrow> 't \<Rightarrow> int \<Rightarrow> ('w, 't) world option" where
  "tq_ActivateDelayedFenceIfNeeded s t now =
     (case tq_delayed_fence (w_tq s t) of
        None \<Rightarrow> Some s
      | Some fence_time \<Rightarrow>
          if now < fence_time then Some s
          else do {
            (s, _) \<leftarrow> tq_InsertFence s t kNow;
            Some (s\<lparr>w_tq := (w_tq s)(t := (w_tq s t)\<lparr>tq_delayed_fence := None\<rparr>)\<rparr>)
          })"

definition tq_BlockedByFence :: "('w, 't) world \<Rightarrow> 't \<Rightarrow> bool" where
  "tq_BlockedByFence s t =
     (let tq = w_tq s t in
      if tq_current_fence tq = eo_none then False
      else if \<not> wq_BlockedByFence (w_wq s (tq_immediate tq)) \<or> \<not> wq_BlockedByFence (w_wq s (tq_delayed tq)) then False
      else if tq_incoming tq = [] then True
      else tq_current_fence tq < t_enqueue_order (hd (tq_incoming tq)))"

text \<open>The body of the loop of \<open>WakeUpForDelayedWork\<close> for a task that is due and not cancelled.\<close>

definition tq_wake_up_task :: "('w, 't) world \<Rightarrow> 't \<Rightarrow> Task \<Rightarrow> ('w, 't) world option" where
  "tq_wake_up_task s t task = do {
     s \<leftarrow> tq_ActivateDelayedFenceIfNeeded s t (t_delayed_run_time task);
     if t_enqueue_order task \<noteq> eo_none then None
     else wq_Push (s\<lparr>w_next := w_next s + 1\<rparr>) (tq_delayed (w_tq s t)) (task\<lparr>t_enqueue_order := w_next s\<rparr>)
   }"

section \<open>Construction\<close>

text \<open>
  The state after construction: empty queues in no sets, \<open>num_sets\<close> empty heaps in each sets, and
  for every task queue its two work queues.
\<close>

definition wq_init :: "'t \<Rightarrow> QueueType \<Rightarrow> 't WorkQueue" where
  "wq_init t ty = \<lparr>wq_tasks = [], wq_sets = None, wq_task_queue = t, wq_set_index = 0, wq_handle = 0,
     wq_fence = eo_none, wq_type = ty\<rparr>"

definition w_init :: "nat \<Rightarrow> ('w \<Rightarrow> 't) \<Rightarrow> ('w \<Rightarrow> QueueType) \<Rightarrow> ('t \<Rightarrow> 'w) \<Rightarrow> ('t \<Rightarrow> 'w) \<Rightarrow> ('w, 't) world" where
  "w_init num_sets tq_of type_of immediate delayed =
     \<lparr>w_wq = \<lambda>w. wq_init (tq_of w) (type_of w),
      w_tq = \<lambda>t. \<lparr>tq_incoming = [], tq_delayed_fence = None, tq_current_fence = eo_none,
                    tq_immediate = immediate t, tq_delayed = delayed t\<rparr>,
      w_heaps = \<lambda>_. replicate num_sets ih_init, w_next = eo_first\<rparr>"

text \<open>
  A run for one task queue with an immediate work queue (0) and a delayed one (1): a task runs
  from the immediate queue while a fence at time 10 is pending, a second task was posted at time
  12, and a task due at time 9 has been woken up late.
\<close>

definition delayed_fence_run :: "(nat, unit) world option" where
  "delayed_fence_run = do {
     let s = w_init 6 (\<lambda>_. ()) (\<lambda>w. if w = 0 then kImmediate else kDelayed) (\<lambda>_. 0) (\<lambda>_. 1);
     s \<leftarrow> wqs_AddQueue ImmediateSets s 0 3;
     s \<leftarrow> wqs_AddQueue DelayedSets s 1 3;
     s \<leftarrow> wq_ReloadEmptyImmediateQueue (tq_PostImmediateTask s () 0 False True) 0;
     s \<leftarrow> tq_InsertFenceAt s () 10;
     let s = tq_PostImmediateTask s () 12 False True;
     s \<leftarrow> tq_wake_up_task s () \<lparr>t_enqueue_order = eo_none, t_delayed_run_time = 9, t_cancelled = False, t_nestable = True\<rparr>;
     (s, _) \<leftarrow> wq_TakeTaskFromWorkQueue s 0;
     Some s
   }"

section \<open>What the sets promise\<close>

text \<open>
  The enqueue order of the task a queue may run next, and the place of a queue in the sets: the
  sets and the index it is assigned to and that order. \<open>heaps_rep\<close>: the heaps hold exactly the
  queues that have a place, at that place, and the other queues have no valid handle.
\<close>

definition wq_runnable :: "'t WorkQueue \<Rightarrow> nat option" where
  "wq_runnable q =
     (if wq_tasks q = [] \<or> wq_BlockedByFence q then None else Some (t_enqueue_order (hd (wq_tasks q))))"

definition wq_place :: "'t WorkQueue \<Rightarrow> (SetsId \<times> nat \<times> nat) option" where
  "wq_place q = do { sid \<leftarrow> wq_sets q; k \<leftarrow> wq_runnable q; Some (sid, wq_set_index q, k) }"

definition heap_view :: "('w \<Rightarrow> (SetsId \<times> nat \<times> nat) option) \<Rightarrow> SetsId \<Rightarrow> nat \<Rightarrow> 'w \<Rightarrow> 'w oldest option" where
  "heap_view c sid i w =
     (case c w of Some (sid', i', k) \<Rightarrow> if sid' = sid \<and> i' = i then Some (k, w) else None | None \<Rightarrow> None)"

definition heaps_rep :: "nat \<Rightarrow> ('w, 't) world \<Rightarrow> ('w \<Rightarrow> (SetsId \<times> nat \<times> nat) option) \<Rightarrow> bool" where
  "heaps_rep n s c \<longleftrightarrow>
     (\<forall>sid. length (w_heaps s sid) = n)
   \<and> (\<forall>sid. \<forall>i < n. ih_rep oldest_le snd (w_heaps s sid ! i) (w_handles s) (heap_view c sid i))
   \<and> (\<forall>w. c w = None \<longrightarrow> w_handles s w = 0)
   \<and> (\<forall>w sid i k. c w = Some (sid, i, k) \<longrightarrow> i < n)"

definition tasks_ok :: "Task list \<Rightarrow> bool" where
  "tasks_ok ts \<longleftrightarrow> sorted (map t_enqueue_order ts) \<and> (\<forall>t \<in> set ts. t_enqueue_order t \<noteq> eo_none)"

definition world_ok :: "nat \<Rightarrow> ('w, 't) world \<Rightarrow> bool" where
  "world_ok n s \<longleftrightarrow> heaps_rep n s (\<lambda>w. wq_place (w_wq s w))
    \<and> (\<forall>w. tasks_ok (wq_tasks (w_wq s w)) \<and> (wq_sets (w_wq s w) \<noteq> None \<longrightarrow> wq_set_index (w_wq s w) < n))"

text \<open>The state without the heaps: each queue but for its handle.\<close>

definition w_view :: "('w, 't) world \<Rightarrow> 'w \<Rightarrow> 't WorkQueue" where
  "w_view s = (\<lambda>w. (w_wq s w)\<lparr>wq_handle := 0\<rparr>)"

text \<open>Nothing but the heaps and the handles differs.\<close>

definition same_queues :: "('w, 't) world \<Rightarrow> ('w, 't) world \<Rightarrow> bool" where
  "same_queues s s' \<longleftrightarrow> w_view s' = w_view s \<and> w_tq s' = w_tq s \<and> w_next s' = w_next s"

text \<open>
  The calls on the work queues and, on the abstract side, what they do to the queues when nothing
  records which queue is the oldest. An abstract call is refused where the code's preconditions
  fail; taking a task needs the queue to be the only oldest one of its set, and reloading a queue
  needs its task queue to have no delayed fence.
\<close>

datatype ('w, 't) wq_op = OpPush 'w Task | OpPushFront 'w Task | OpTake 'w | OpRemoveCanceled 'w | OpReload 'w
  | OpInsertFence 'w nat | OpRemoveFence 'w | OpAddQueue SetsId 'w nat | OpRemoveQueue SetsId 'w
  | OpChangeSetIndex SetsId 'w nat | OpPost 't int bool bool

datatype wq_out = OUnit | OTask Task | OBool bool

fun wq_step :: "('w, 't) world \<Rightarrow> ('w, 't) wq_op \<Rightarrow> (('w, 't) world \<times> wq_out) option" where
  "wq_step s (OpPush w t) = do { s \<leftarrow> wq_Push s w t; Some (s, OUnit) }"
| "wq_step s (OpPushFront w t) = do { s \<leftarrow> wq_PushNonNestableTaskToFront s w t; Some (s, OUnit) }"
| "wq_step s (OpTake w) = do { (s, t) \<leftarrow> wq_TakeTaskFromWorkQueue s w; Some (s, OTask t) }"
| "wq_step s (OpRemoveCanceled w) = do { (s, b) \<leftarrow> wq_RemoveAllCanceledTasksFromFront s w; Some (s, OBool b) }"
| "wq_step s (OpReload w) = do { s \<leftarrow> wq_ReloadEmptyImmediateQueue s w; Some (s, OUnit) }"
| "wq_step s (OpInsertFence w f) = do { (s, b) \<leftarrow> wq_InsertFence s w f; Some (s, OBool b) }"
| "wq_step s (OpRemoveFence w) = do { (s, b) \<leftarrow> wq_RemoveFence s w; Some (s, OBool b) }"
| "wq_step s (OpAddQueue sid w i) = do { s \<leftarrow> wqs_AddQueue sid s w i; Some (s, OUnit) }"
| "wq_step s (OpRemoveQueue sid w) = do { s \<leftarrow> wqs_RemoveQueue sid s w; Some (s, OUnit) }"
| "wq_step s (OpChangeSetIndex sid w i) = do { s \<leftarrow> wqs_ChangeSetIndex sid s w i; Some (s, OUnit) }"
| "wq_step s (OpPost t now c ne) = Some (tq_PostImmediateTask s t now c ne, OUnit)"

record ('w, 't) queues =
  v_wq :: "'w \<Rightarrow> 't WorkQueue"
  v_tq :: "'t \<Rightarrow> 'w TaskQueueImpl"
  v_next :: nat

definition v_oldest :: "('w \<Rightarrow> 't WorkQueue) \<Rightarrow> 'w \<Rightarrow> bool" where
  "v_oldest v w \<longleftrightarrow> (\<exists>sid i k. wq_place (v w) = Some (sid, i, k)
     \<and> (\<forall>w' k'. w' \<noteq> w \<longrightarrow> wq_place (v w') = Some (sid, i, k') \<longrightarrow> k < k'))"

definition v_put :: "('w, 't) queues \<Rightarrow> 'w \<Rightarrow> ('t WorkQueue \<Rightarrow> 't WorkQueue) \<Rightarrow> ('w, 't) queues" where
  "v_put v w f = v\<lparr>v_wq := (v_wq v)(w := f (v_wq v w))\<rparr>"

text \<open>
  An immediate queue left with the tasks \<open>ts\<close>: reloaded when there are none. A reload that reaches
  the delayed fence of the task queue is outside of the specification, which is the case the lemma
  \<open>silent_fence_leaves_blocked_queue\<close> is about.
\<close>

definition fence_ahead :: "'w TaskQueueImpl \<Rightarrow> bool" where
  "fence_ahead tq \<longleftrightarrow> (case tq_delayed_fence tq of
     None \<Rightarrow> True
   | Some fence_time \<Rightarrow> (\<forall>task \<in> set (tq_incoming tq). t_delayed_run_time task < fence_time))"

definition v_reload :: "('w, 't) queues \<Rightarrow> 'w \<Rightarrow> Task list \<Rightarrow> ('w, 't) queues option" where
  "v_reload v w ts =
     (let t = wq_task_queue (v_wq v w) in
      if wq_type (v_wq v w) = kImmediate \<and> ts = [] then
        if fence_ahead (v_tq v t) then
          Some ((v_put v w (\<lambda>q. q\<lparr>wq_tasks := tq_incoming (v_tq v t)\<rparr>))\<lparr>v_tq := (v_tq v)(t := (v_tq v t)\<lparr>tq_incoming := []\<rparr>)\<rparr>)
        else None
      else Some (v_put v w (\<lambda>q. q\<lparr>wq_tasks := ts\<rparr>)))"

fun v_step :: "nat \<Rightarrow> ('w, 't) queues \<Rightarrow> ('w, 't) wq_op \<Rightarrow> (('w, 't) queues \<times> wq_out) option" where
  "v_step n v (OpPush w t) =
     (if t_enqueue_order t \<noteq> 0 \<and> (\<forall>x \<in> set (wq_tasks (v_wq v w)). t_enqueue_order x < t_enqueue_order t)
      then Some (v_put v w (\<lambda>q. q\<lparr>wq_tasks := wq_tasks q @ [t]\<rparr>), OUnit) else None)"
| "v_step n v (OpPushFront w t) =
     (if \<not> t_nestable t \<and> t_enqueue_order t \<noteq> 0 \<and> (\<forall>x \<in> set (wq_tasks (v_wq v w)). t_enqueue_order t \<le> t_enqueue_order x)
      then Some (v_put v w (\<lambda>q. q\<lparr>wq_tasks := t # wq_tasks q\<rparr>), OUnit) else None)"
| "v_step n v (OpTake w) =
     (if v_oldest (v_wq v) w then do {
        v' \<leftarrow> v_reload v w (tl (wq_tasks (v_wq v w)));
        Some (v', OTask (hd (wq_tasks (v_wq v w))))
      } else None)"
| "v_step n v (OpRemoveCanceled w) =
     (let ts = wq_tasks (v_wq v w); ts' = dropWhile t_cancelled ts in
      if wq_sets (v_wq v w) = None then None
      else if ts' = ts then Some (v, OBool False)
      else if v_oldest (v_wq v) w then do { v' \<leftarrow> v_reload v w ts'; Some (v', OBool True) }
      else None)"
| "v_step n v (OpReload w) =
     (if wq_tasks (v_wq v w) = [] \<and> wq_type (v_wq v w) = kImmediate
      then do { v' \<leftarrow> v_reload v w []; Some (v', OUnit) } else None)"
| "v_step n v (OpInsertFence w f) =
     (let q = v_wq v w; q' = q\<lparr>wq_fence := f\<rparr> in
      if f \<noteq> 0 \<and> (wq_fence q \<le> f \<or> f = eo_blocking_fence) \<and> (wq_sets q \<noteq> None \<or> \<not> wq_BlockedByFence q')
      then Some (v_put v w (\<lambda>q. q\<lparr>wq_fence := f\<rparr>), OBool (wq_sets q \<noteq> None \<and> wq_tasks q \<noteq> [] \<and> wq_runnable q = None \<and> wq_runnable q' \<noteq> None)) else None)"
| "v_step n v (OpRemoveFence w) =
     (let q = v_wq v w in
      Some (v_put v w (\<lambda>q. q\<lparr>wq_fence := eo_none\<rparr>), OBool (wq_sets q \<noteq> None \<and> wq_tasks q \<noteq> [] \<and> wq_runnable q = None)))"
| "v_step n v (OpAddQueue sid w i) =
     (if wq_sets (v_wq v w) = None \<and> i < n
      then Some (v_put v w (\<lambda>q. q\<lparr>wq_sets := Some sid, wq_set_index := i\<rparr>), OUnit) else None)"
| "v_step n v (OpRemoveQueue sid w) =
     (if wq_sets (v_wq v w) = Some sid then Some (v_put v w (\<lambda>q. q\<lparr>wq_sets := None\<rparr>), OUnit) else None)"
| "v_step n v (OpChangeSetIndex sid w i) =
     (if wq_sets (v_wq v w) = Some sid \<and> i < n \<and> i \<noteq> wq_set_index (v_wq v w)
      then Some (v_put v w (\<lambda>q. q\<lparr>wq_set_index := i\<rparr>), OUnit) else None)"
| "v_step n v (OpPost t now c ne) =
     (let task = \<lparr>t_enqueue_order = v_next v, t_delayed_run_time = now, t_cancelled = c, t_nestable = ne\<rparr> in
      Some (v\<lparr>v_next := v_next v + 1,
              v_tq := (v_tq v)(t := (v_tq v t)\<lparr>tq_incoming := tq_incoming (v_tq v t) @ [task]\<rparr>)\<rparr>, OUnit))"

definition incoming_ok :: "('w, 't) world \<Rightarrow> bool" where
  "incoming_ok s \<longleftrightarrow> eo_first \<le> w_next s
    \<and> (\<forall>t. tasks_ok (tq_incoming (w_tq s t)) \<and> (\<forall>x \<in> set (tq_incoming (w_tq s t)). t_enqueue_order x < w_next s))"

definition w_rep :: "nat \<Rightarrow> ('w, 't) world \<Rightarrow> ('w, 't) queues \<Rightarrow> bool" where
  "w_rep n s v \<longleftrightarrow> world_ok n s \<and> incoming_ok s \<and> v = \<lparr>v_wq = w_view s, v_tq = w_tq s, v_next = w_next s\<rparr>"

text \<open>Every queue but \<open>w\<close> is where it belongs; \<open>w\<close> is where the map \<open>c\<close> says.\<close>

definition nearly_ok :: "nat \<Rightarrow> ('w, 't) world \<Rightarrow> 'w \<Rightarrow> ('w \<Rightarrow> (SetsId \<times> nat \<times> nat) option) \<Rightarrow> bool" where
  "nearly_ok n s w c \<longleftrightarrow> heaps_rep n s c \<and> (\<forall>q. q \<noteq> w \<longrightarrow> c q = wq_place (w_wq s q))
    \<and> (\<forall>q. tasks_ok (wq_tasks (w_wq s q)) \<and> (wq_sets (w_wq s q) \<noteq> None \<longrightarrow> wq_set_index (w_wq s q) < n))"

section \<open>The heaps as one map\<close>

interpretation oldest: total_preorder "oldest_le :: 'w oldest \<Rightarrow> 'w oldest \<Rightarrow> bool"
  by unfold_locales (auto simp: oldest_le_def)

lemma heap_view_Some: "heap_view c sid i w = Some e \<longleftrightarrow> (\<exists>k. c w = Some (sid, i, k) \<and> e = (k, w))"
  by (auto simp: heap_view_def split: option.splits if_splits)

lemma heap_view_upd:
  "heap_view (c(w := Some (sid, i, k))) sid' j
     = (if sid' = sid \<and> j = i then (heap_view c sid i)(w \<mapsto> (k, w)) else (heap_view c sid' j)(w := None))"
  "heap_view (c(w := None)) sid' j = (heap_view c sid' j)(w := None)"
  by (auto simp: heap_view_def fun_eq_iff)

lemma rep_cong:
  assumes "ih_rep le own h hs m" "\<And>q. m q \<noteq> None \<Longrightarrow> hs' q = hs q"
  shows "ih_rep le own h hs' m"
proof -
  have "\<exists>e. ih_node h i = Some e \<and> m (own e) = Some e \<and> hs' (own e) = i" if "i \<in> {1..ih_size h} - {0}" for i
    using assms that unfolding ih_rep_def ih_filled_def by (metis option.distinct(1))
  then show ?thesis using assms unfolding ih_rep_def ih_filled_def by (metis option.distinct(1))
qed

text \<open>
  One lemma for all calls on a heap: when the call takes the heap at \<open>(sid, i)\<close> from its view
  under \<open>c\<close> to its view under \<open>c'\<close>, and \<open>c\<close> and \<open>c'\<close> differ at \<open>w\<close> only, the heaps go from
  \<open>c\<close> to \<open>c'\<close>, and nothing but handles changes.
\<close>

lemma on_heap_spec:
  assumes rep: "heaps_rep n s c" and i: "i < n"
    and call: "\<exists>h hs. f (w_heaps s sid ! i) (w_handles s) = Some (h, hs) \<and> ih_rep oldest_le snd h hs (heap_view c' sid i)
      \<and> (\<forall>q. heap_view c sid i q = None \<longrightarrow> q \<noteq> w \<longrightarrow> hs q = w_handles s q)
      \<and> (c' w = None \<longrightarrow> hs w = 0)"
    and c: "\<And>q. q \<noteq> w \<Longrightarrow> c' q = c q" "\<And>sid' j k. c w = Some (sid', j, k) \<Longrightarrow> sid' = sid \<and> j = i"
      "\<And>sid' j k. c' w = Some (sid', j, k) \<Longrightarrow> sid' = sid \<and> j = i"
  shows "\<exists>s'. on_heap sid i f s = Some s' \<and> heaps_rep n s' c' \<and> same_queues s s'"
proof -
  obtain h hs where f: "f (w_heaps s sid ! i) (w_handles s) = Some (h, hs)" "ih_rep oldest_le snd h hs (heap_view c' sid i)"
    "\<And>q. heap_view c sid i q = None \<Longrightarrow> q \<noteq> w \<Longrightarrow> hs q = w_handles s q" "c' w = None \<Longrightarrow> hs w = 0"
    using call by auto
  let ?s = "w_set_handles (s\<lparr>w_heaps := (w_heaps s)(sid := (w_heaps s sid)[i := h])\<rparr>) hs"
  have len: "length (w_heaps s sid') = n" for sid' using rep by (simp add: heaps_rep_def)
  have hnd: "w_handles ?s = hs" by (simp add: w_handles_def w_set_handles_def)
  have other: "heap_view c' sid' j = heap_view c sid' j" if "(sid', j) \<noteq> (sid, i)" for sid' j
  proof
    fix q show "heap_view c' sid' j q = heap_view c sid' j q"
      using that c by (cases "q = w") (auto simp: heap_view_def split: option.splits)
  qed
  have "heaps_rep n ?s c'"
    unfolding heaps_rep_def hnd
  proof (intro conjI allI impI)
    fix sid' j assume j: "j < n"
    show "ih_rep oldest_le snd (w_heaps ?s sid' ! j) hs (heap_view c' sid' j)"
    proof (cases "(sid', j) = (sid, i)")
      case True
      then show ?thesis using f(2) len i by (simp add: w_set_handles_def)
    next
      case False
      have "ih_rep oldest_le snd (w_heaps s sid' ! j) hs (heap_view c sid' j)"
      proof (rule rep_cong)
        show "ih_rep oldest_le snd (w_heaps s sid' ! j) (w_handles s) (heap_view c sid' j)"
          using rep j by (simp add: heaps_rep_def)
        fix q assume "heap_view c sid' j q \<noteq> None"
        then obtain k where k: "c q = Some (sid', j, k)" by (auto simp: heap_view_Some)
        then have "q \<noteq> w" using c(2) False by auto
        then show "hs q = w_handles s q" using f(3) [of q] k False by (auto simp: heap_view_def)
      qed
      moreover have "w_heaps ?s sid' ! j = w_heaps s sid' ! j" using False by (auto simp: w_set_handles_def)
      ultimately show ?thesis using other [OF False] by simp
    qed
  next
    fix q assume q: "c' q = None"
    then show "hs q = 0"
      using f(3,4) rep c(1) by (cases "q = w") (auto simp: heaps_rep_def heap_view_def)
  next
    fix q sid' j k assume q: "c' q = Some (sid', j, k)"
    show "j < n"
    proof (cases "q = w")
      case True
      then show ?thesis using c(3) q i by blast
    next
      case False
      then show ?thesis using c(1) q rep unfolding heaps_rep_def by metis
    qed
  qed (use len in \<open>auto simp: w_set_handles_def\<close>)
  then show ?thesis using f(1) i len by (auto simp: on_heap_def same_queues_def w_view_def w_set_handles_def)
qed

lemma on_heap_put:
  assumes "heaps_rep n s c" "i < n" "c w = None \<or> (\<exists>k0. c w = Some (sid, i, k0))"
    and "f (w_heaps s sid ! i) (w_handles s) = Some (h, hs)" "ih_rep oldest_le snd h hs ((heap_view c sid i)(w \<mapsto> (k, w)))"
    and "\<And>q. heap_view c sid i q = None \<Longrightarrow> q \<noteq> w \<Longrightarrow> hs q = w_handles s q"
  shows "\<exists>s'. on_heap sid i f s = Some s' \<and> heaps_rep n s' (c(w := Some (sid, i, k))) \<and> same_queues s s'"
proof (rule on_heap_spec [OF assms(1,2)])
  show "\<exists>h hs. f (w_heaps s sid ! i) (w_handles s) = Some (h, hs) \<and> ih_rep oldest_le snd h hs (heap_view (c(w := Some (sid, i, k))) sid i)
      \<and> (\<forall>q. heap_view c sid i q = None \<longrightarrow> q \<noteq> w \<longrightarrow> hs q = w_handles s q)
      \<and> ((c(w := Some (sid, i, k))) w = None \<longrightarrow> hs w = 0)"
    using assms(4-6) by (simp add: heap_view_upd)
qed (use assms(3) in auto)

lemma on_heap_del:
  assumes "heaps_rep n s c" "i < n" "c w = Some (sid, i, k)"
    and "f (w_heaps s sid ! i) (w_handles s) = Some (h, hs)" "ih_rep oldest_le snd h hs ((heap_view c sid i)(w := None))"
    and "hs w = 0" "\<And>q. heap_view c sid i q = None \<Longrightarrow> hs q = w_handles s q"
  shows "\<exists>s'. on_heap sid i f s = Some s' \<and> heaps_rep n s' (c(w := None)) \<and> same_queues s s'"
proof (rule on_heap_spec [OF assms(1,2)])
  show "\<exists>h hs. f (w_heaps s sid ! i) (w_handles s) = Some (h, hs) \<and> ih_rep oldest_le snd h hs (heap_view (c(w := None)) sid i)
      \<and> (\<forall>q. heap_view c sid i q = None \<longrightarrow> q \<noteq> w \<longrightarrow> hs q = w_handles s q)
      \<and> ((c(w := None)) w = None \<longrightarrow> hs w = 0)"
    using assms(4-7) by (simp add: heap_view_upd)
qed (use assms(3) in auto)


lemma heaps_insert:
  assumes "heaps_rep n s c" "i < n" "c w = None"
  shows "\<exists>s'. on_heap sid i (\<lambda>h hs. ih_insert oldest_le snd h hs (k, w)) s = Some s'
    \<and> heaps_rep n s' (c(w := Some (sid, i, k))) \<and> same_queues s s'"
proof -
  let ?m = "heap_view c sid i"
  have r: "ih_rep oldest_le snd (w_heaps s sid ! i) (w_handles s) ?m" using assms by (simp add: heaps_rep_def)
  have "?m (snd (k, w)) = None" using assms(3) by (simp add: heap_view_def)
  then obtain h hs where "ih_insert oldest_le snd (w_heaps s sid ! i) (w_handles s) (k, w) = Some (h, hs)"
    "ih_rep oldest_le snd h hs (?m(w \<mapsto> (k, w)))" "\<forall>q. ?m q = None \<longrightarrow> q \<noteq> w \<longrightarrow> hs q = w_handles s q"
    using oldest.heap.insert [OF r, of "(k, w)"] by auto
  then show ?thesis using assms by (intro on_heap_put [where h = h and hs = hs]) auto
qed

lemma heaps_erase:
  assumes "heaps_rep n s c" "c w = Some (sid, i, k)"
  shows "\<exists>s'. on_heap sid i (\<lambda>h hs. ih_erase oldest_le snd h hs (w_handles s w)) s = Some s'
    \<and> heaps_rep n s' (c(w := None)) \<and> same_queues s s'"
proof -
  let ?m = "heap_view c sid i"
  have i: "i < n" using assms unfolding heaps_rep_def by blast
  then have r: "ih_rep oldest_le snd (w_heaps s sid ! i) (w_handles s) ?m" using assms by (simp add: heaps_rep_def)
  have "?m w = Some (k, w)" using assms(2) by (simp add: heap_view_def)
  from oldest.heap.erase [OF r this] obtain h hs where
    "ih_erase oldest_le snd (w_heaps s sid ! i) (w_handles s) (w_handles s w) = Some (h, hs)"
    "ih_rep oldest_le snd h hs (?m(w := None))" "hs w = 0" "\<forall>q. ?m q = None \<longrightarrow> hs q = w_handles s q"
    by blast
  then show ?thesis using assms i by (intro on_heap_del [where h = h and hs = hs]) auto
qed

lemma heaps_change:
  assumes "heaps_rep n s c" "c w = Some (sid, i, k)"
  shows "\<exists>s'. on_heap sid i (\<lambda>h hs. ih_ChangeKey oldest_le snd h hs (w_handles s w) (k', w)) s = Some s'
    \<and> heaps_rep n s' (c(w := Some (sid, i, k'))) \<and> same_queues s s'"
proof -
  let ?m = "heap_view c sid i"
  have i: "i < n" using assms unfolding heaps_rep_def by blast
  then have r: "ih_rep oldest_le snd (w_heaps s sid ! i) (w_handles s) ?m" using assms by (simp add: heaps_rep_def)
  have "?m w = Some (k, w)" using assms(2) by (simp add: heap_view_def)
  then obtain h hs where "ih_ChangeKey oldest_le snd (w_heaps s sid ! i) (w_handles s) (w_handles s w) (k', w) = Some (h, hs)"
    "ih_rep oldest_le snd h hs (?m(w \<mapsto> (k', w)))" "\<forall>q. ?m q = None \<longrightarrow> hs q = w_handles s q"
    using oldest.heap.change [OF r, of w "(k, w)" "(k', w)"] by auto
  then show ?thesis using assms i by (intro on_heap_put [where h = h and hs = hs]) auto
qed

lemma heaps_Min:
  assumes "heaps_rep n s c" "i < n" "ih_Min (w_heaps s sid ! i) = Some (k, w)"
  shows "c w = Some (sid, i, k)" "\<And>w' k'. c w' = Some (sid, i, k') \<Longrightarrow> k \<le> k'" "w_handles s w \<noteq> 0"
proof -
  let ?m = "heap_view c sid i"
  have r: "ih_rep oldest_le snd (w_heaps s sid ! i) (w_handles s) ?m" using assms by (simp add: heaps_rep_def)
  note l = oldest.heap.least [OF r assms(3)]
  then show c: "c w = Some (sid, i, k)" by (auto simp: heap_view_Some)
  show "k \<le> k'" if "c w' = Some (sid, i, k')" for w' k'
  proof -
    have "?m w' = Some (k', w')" using that by (simp add: heap_view_def)
    then show ?thesis using l by (auto simp: oldest_le_def)
  qed
  show "w_handles s w \<noteq> 0" using oldest.heap.owner [OF r, of w "(k, w)"] l by simp
qed

lemma heaps_empty:
  assumes "heaps_rep n s c" "i < n"
  shows "ih_empty (w_heaps s sid ! i) \<longleftrightarrow> (\<forall>w k. c w \<noteq> Some (sid, i, k))"
    and "\<not> ih_empty (w_heaps s sid ! i) \<Longrightarrow> \<exists>k w. ih_Min (w_heaps s sid ! i) = Some (k, w)"
proof -
  let ?m = "heap_view c sid i" and ?h = "w_heaps s sid ! i"
  have r: "ih_rep oldest_le snd ?h (w_handles s) ?m" using assms by (simp add: heaps_rep_def)
  have e: "ih_empty ?h \<longleftrightarrow> ?m = Map.empty"
    using oldest.rep_finite [OF r] by (auto simp: ih_empty_def)
  also have "\<dots> \<longleftrightarrow> (\<forall>w k. c w \<noteq> Some (sid, i, k))"
    by (auto simp: fun_eq_iff heap_view_def split: option.splits if_splits)
  finally show "ih_empty ?h \<longleftrightarrow> (\<forall>w k. c w \<noteq> Some (sid, i, k))" .
  show "\<exists>k w. ih_Min ?h = Some (k, w)" if "\<not> ih_empty ?h"
    using oldest.heap.none [OF r] e that by (cases "ih_Min ?h") auto
qed

lemma heaps_pop:
  assumes "heaps_rep n s c" "i < n" "ih_Min (w_heaps s sid ! i) = Some (k, w)"
  shows "\<exists>s'. on_heap sid i (\<lambda>h hs. ih_Pop oldest_le snd h hs) s = Some s'
    \<and> heaps_rep n s' (c(w := None)) \<and> same_queues s s'"
proof -
  let ?m = "heap_view c sid i"
  have r: "ih_rep oldest_le snd (w_heaps s sid ! i) (w_handles s) ?m" using assms by (simp add: heaps_rep_def)
  obtain h hs where "ih_Pop oldest_le snd (w_heaps s sid ! i) (w_handles s) = Some (h, hs)"
    "ih_rep oldest_le snd h hs (?m(w := None))" "hs w = 0" "\<forall>q. ?m q = None \<longrightarrow> hs q = w_handles s q"
    using oldest.heap.pop [OF r assms(3)] by auto
  then show ?thesis using assms(1,2) heaps_Min(1) [OF assms] by (intro on_heap_del [where h = h and hs = hs]) auto
qed

lemma heaps_replace:
  assumes "heaps_rep n s c" "i < n" "ih_Min (w_heaps s sid ! i) = Some (k, w)"
  shows "\<exists>s'. on_heap sid i (\<lambda>h hs. ih_ReplaceMin oldest_le snd h hs (k', w)) s = Some s'
    \<and> heaps_rep n s' (c(w := Some (sid, i, k'))) \<and> same_queues s s'"
proof -
  let ?m = "heap_view c sid i"
  have r: "ih_rep oldest_le snd (w_heaps s sid ! i) (w_handles s) ?m" using assms by (simp add: heaps_rep_def)
  obtain h hs where "ih_ReplaceMin oldest_le snd (w_heaps s sid ! i) (w_handles s) (k', w) = Some (h, hs)"
    "ih_rep oldest_le snd h hs (?m(w \<mapsto> (k', w)))" "\<forall>q. ?m q = None \<longrightarrow> hs q = w_handles s q"
    using oldest.heap.replace [OF r assms(3), of "(k', w)"] by auto
  then show ?thesis using assms(1,2) heaps_Min(1) [OF assms] by (intro on_heap_put [where h = h and hs = hs]) auto
qed

section \<open>The calls of the work queues on the sets\<close>

lemma tasks_ok_last: "tasks_ok ts \<Longrightarrow> ts \<noteq> [] \<Longrightarrow> t_enqueue_order (hd ts) \<le> t_enqueue_order (last ts)"
  unfolding tasks_ok_def by (cases ts) (auto simp: last_ConsR)

lemma GetFront_ok [simp]: "tasks_ok (wq_tasks q) \<Longrightarrow> wq_GetFrontTaskEnqueueOrder q = Some (wq_runnable q)"
  by (simp add: wq_GetFrontTaskEnqueueOrder_def wq_runnable_def tasks_ok_last)

lemma view_fields [simp]:
  "wq_tasks (w_view s w) = wq_tasks (w_wq s w)" "wq_sets (w_view s w) = wq_sets (w_wq s w)"
  "wq_set_index (w_view s w) = wq_set_index (w_wq s w)" "wq_fence (w_view s w) = wq_fence (w_wq s w)"
  "wq_type (w_view s w) = wq_type (w_wq s w)" "wq_task_queue (w_view s w) = wq_task_queue (w_wq s w)"
  "wq_BlockedByFence (w_view s w) = wq_BlockedByFence (w_wq s w)"
  "wq_runnable (w_view s w) = wq_runnable (w_wq s w)" "wq_place (w_view s w) = wq_place (w_wq s w)"
  by (simp_all add: w_view_def wq_BlockedByFence_def wq_runnable_def wq_place_def)

lemma same_fields:
  assumes "same_queues s s'"
  shows "wq_tasks (w_wq s' w) = wq_tasks (w_wq s w)" "wq_sets (w_wq s' w) = wq_sets (w_wq s w)"
    "wq_set_index (w_wq s' w) = wq_set_index (w_wq s w)" "wq_place (w_wq s' w) = wq_place (w_wq s w)"
  using assms unfolding same_queues_def
  by (metis view_fields(1), metis view_fields(2), metis view_fields(3), metis view_fields(9))

lemma same_trans: "same_queues s s' \<Longrightarrow> same_queues s' s'' \<Longrightarrow> same_queues s s''"
  by (simp add: same_queues_def)

lemma same_refl [simp]: "same_queues s s"
  by (simp add: same_queues_def)

lemma upd_simps [simp]:
  "w_wq (w_upd s w f) = (w_wq s)(w := f (w_wq s w))" "w_tq (w_upd s w f) = w_tq s"
  "w_next (w_upd s w f) = w_next s" "w_heaps (w_upd s w f) = w_heaps s"
  by (simp_all add: w_upd_def)

lemma upd_upd [simp]: "w_upd (w_upd s w f) w g = w_upd s w (\<lambda>q. g (f q))"
  by (simp add: w_upd_def)

lemma handles_upd: "(\<And>q. wq_handle (f q) = wq_handle q) \<Longrightarrow> w_handles (w_upd s w f) = w_handles s"
  by (auto simp: w_handles_def)

lemma nearly_okD:
  assumes "nearly_ok n s w c"
  shows "heaps_rep n s c" "\<And>q. q \<noteq> w \<Longrightarrow> c q = wq_place (w_wq s q)" "\<And>q. tasks_ok (wq_tasks (w_wq s q))"
    "\<And>q sid. wq_sets (w_wq s q) = Some sid \<Longrightarrow> wq_set_index (w_wq s q) < n" "\<And>sid. length (w_heaps s sid) = n"
  using assms by (auto simp: nearly_ok_def heaps_rep_def)

lemma world_ok_nearly: "world_ok n s \<longleftrightarrow> nearly_ok n s w (\<lambda>w. wq_place (w_wq s w))"
  by (auto simp: world_ok_def nearly_ok_def)

lemma nearly_settled:
  assumes near: "nearly_ok n s w c" and rep: "heaps_rep n s' (c(w := wq_place (w_wq s w)))" and same: "same_queues s s'"
  shows "world_ok n s'"
proof -
  have "c(w := wq_place (w_wq s w)) = (\<lambda>w. wq_place (w_wq s' w))"
    using nearly_okD(2) [OF near] by (auto simp: fun_eq_iff same_fields [OF same])
  then show ?thesis
    using rep near by (auto simp: world_ok_def nearly_ok_def same_fields [OF same])
qed

lemma nearly_settled_now: "nearly_ok n s w c \<Longrightarrow> c w = wq_place (w_wq s w) \<Longrightarrow> world_ok n s"
  using nearly_settled [of n s w c s] nearly_okD(1) [of n s w c] by (simp add: fun_upd_idem)

lemma world_upd:
  assumes "world_ok n s" "\<And>q. wq_handle (f q) = wq_handle q"
    and "tasks_ok (wq_tasks (f (w_wq s w)))" "wq_sets (f (w_wq s w)) \<noteq> None \<Longrightarrow> wq_set_index (f (w_wq s w)) < n"
  shows "nearly_ok n (w_upd s w f) w (\<lambda>w. wq_place (w_wq s w))"
  using assms handles_upd [of f s w] by (auto simp: world_ok_def nearly_ok_def heaps_rep_def)

lemma place_Some: "wq_place q = Some (sid, i, k) \<longleftrightarrow> wq_sets q = Some sid \<and> wq_set_index q = i \<and> wq_runnable q = Some k"
  by (auto simp: wq_place_def bind_eq_Some_conv)

lemma place_None: "wq_place q = None \<longleftrightarrow> wq_sets q = None \<or> wq_runnable q = None"
  by (auto simp: wq_place_def bind_eq_None_conv)

lemma near_handle:
  assumes "nearly_ok n s w c"
  shows "HeapHandle_IsValid (wq_handle (w_wq s w)) \<longleftrightarrow> c w \<noteq> None"
proof (cases "c w")
  case None
  then show ?thesis using nearly_okD(1) [OF assms] by (simp add: heaps_rep_def w_handles_def HeapHandle_IsValid_def)
next
  case (Some p)
  obtain sid i k where p: "c w = Some (sid, i, k)" using Some by (metis prod_cases3)
  note h = nearly_okD(1) [OF assms]
  have i: "i < n" using h p unfolding heaps_rep_def by blast
  then have "ih_rep oldest_le snd (w_heaps s sid ! i) (w_handles s) (heap_view c sid i)" using h by (simp add: heaps_rep_def)
  moreover have "heap_view c sid i w = Some (k, w)" using p by (simp add: heap_view_def)
  ultimately show ?thesis
    using oldest.heap.owner p by (fastforce simp: HeapHandle_IsValid_def w_handles_def)
qed

lemma OnTaskPushedToEmptyQueue_spec:
  assumes near: "nearly_ok n s w c" and c: "c w = None" and p: "wq_place (w_wq s w) = Some (sid, i, k)"
  shows "\<exists>s'. wqs_OnTaskPushedToEmptyQueue sid s w = Some s' \<and> world_ok n s' \<and> same_queues s s'"
proof -
  note nd = nearly_okD [OF near] and q = p [unfolded place_Some]
  have i: "i < n" using nd(4) q by auto
  obtain s' where s': "on_heap sid i (\<lambda>h hs. ih_insert oldest_le snd h hs (k, w)) s = Some s'"
    "heaps_rep n s' (c(w := Some (sid, i, k)))" "same_queues s s'"
    using heaps_insert [OF nd(1) i c] by blast
  then have "wqs_OnTaskPushedToEmptyQueue sid s w = Some s'"
    using q i nd(3,5) near_handle [OF near] c by (simp add: wqs_OnTaskPushedToEmptyQueue_def)
  then show ?thesis using nearly_settled [OF near] s' p by simp
qed

lemma OnFrontTaskChanged_spec:
  assumes near: "nearly_ok n s w c" and c: "c w = Some (sid, i, k0)" and p: "wq_place (w_wq s w) = Some (sid, i, k)"
  shows "\<exists>s'. wqs_OnFrontTaskChanged sid s w = Some s' \<and> world_ok n s' \<and> same_queues s s'"
proof -
  note nd = nearly_okD [OF near] and q = p [unfolded place_Some]
  obtain s' where s': "on_heap sid i (\<lambda>h hs. ih_ChangeKey oldest_le snd h hs (w_handles s w) (k, w)) s = Some s'"
    "heaps_rep n s' (c(w := Some (sid, i, k)))" "same_queues s s'"
    using heaps_change [OF nd(1) c] by blast
  then have "wqs_OnFrontTaskChanged sid s w = Some s'"
    using q nd(3) by (simp add: wqs_OnFrontTaskChanged_def w_handles_def)
  then show ?thesis using nearly_settled [OF near] s' p by simp
qed

lemma OnQueueBlocked_spec:
  assumes near: "nearly_ok n s w c" and c: "c w = None \<or> (\<exists>k. c w = Some (sid, wq_set_index (w_wq s w), k))"
    and p: "wq_sets (w_wq s w) = Some sid" "wq_runnable (w_wq s w) = None"
  shows "\<exists>s'. wqs_OnQueueBlocked sid s w = Some s' \<and> world_ok n s' \<and> same_queues s s'"
proof -
  note nd = nearly_okD [OF near]
  have pl: "wq_place (w_wq s w) = None" using p by (simp add: place_None)
  show ?thesis
  proof (cases "c w = None")
    case True
    then show ?thesis
      using p near_handle [OF near] nearly_settled_now [OF near] pl by (auto simp: wqs_OnQueueBlocked_def Let_def)
  next
    case False
    then obtain k where k: "c w = Some (sid, wq_set_index (w_wq s w), k)" using c by auto
    obtain s' where s': "on_heap sid (wq_set_index (w_wq s w)) (\<lambda>h hs. ih_erase oldest_le snd h hs (w_handles s w)) s = Some s'"
      "heaps_rep n s' (c(w := None))" "same_queues s s'"
      using heaps_erase [OF nd(1) k] by blast
    then have "wqs_OnQueueBlocked sid s w = Some s'"
      using p k near_handle [OF near] by (simp add: wqs_OnQueueBlocked_def w_handles_def)
    then show ?thesis using nearly_settled [OF near] s' pl by simp
  qed
qed

lemma OnPopQueue_spec:
  assumes near: "nearly_ok n s w c" and p: "wq_sets (w_wq s w) = Some sid"
    and mn: "ih_Min (w_heaps s sid ! wq_set_index (w_wq s w)) = Some (k0, w)"
  shows "\<exists>s'. wqs_OnPopQueue sid s w = Some s' \<and> world_ok n s' \<and> same_queues s s'"
proof -
  let ?i = "wq_set_index (w_wq s w)"
  note nd = nearly_okD [OF near]
  have i: "?i < n" using nd(4) p by auto
  have c: "c w = Some (sid, ?i, k0)" by (rule heaps_Min(1) [OF nd(1) i mn])
  have ne: "\<not> ih_empty (w_heaps s sid ! ?i)" using heaps_empty(1) [OF nd(1) i] c by blast
  have guard: "wq_sets (w_wq s w) = Some sid \<and> ?i < length (w_heaps s sid) \<and> \<not> ih_empty (w_heaps s sid ! ?i)
      \<and> map_option snd (ih_Min (w_heaps s sid ! ?i)) = Some w \<and> HeapHandle_IsValid (wq_handle (w_wq s w))"
    using p i nd(5) ne mn c near_handle [OF near] by simp
  show ?thesis
  proof (cases "wq_runnable (w_wq s w)")
    case (Some k)
    obtain s' where s': "on_heap sid ?i (\<lambda>h hs. ih_ReplaceMin oldest_le snd h hs (k, w)) s = Some s'"
      "heaps_rep n s' (c(w := Some (sid, ?i, k)))" "same_queues s s'"
      using heaps_replace [OF nd(1) i mn] by blast
    moreover have "wq_place (w_wq s w) = Some (sid, ?i, k)" using p Some by (simp add: place_Some)
    ultimately show ?thesis
      using nearly_settled [OF near] guard nd(3) Some by (simp add: wqs_OnPopQueue_def Let_def)
  next
    case None
    obtain s' where s': "on_heap sid ?i (\<lambda>h hs. ih_Pop oldest_le snd h hs) s = Some s'"
      "heaps_rep n s' (c(w := None))" "same_queues s s'"
      using heaps_pop [OF nd(1) i mn] by blast
    have "map_option snd (ih_Min (w_heaps s' sid ! ?i)) \<noteq> Some w"
    proof
      assume "map_option snd (ih_Min (w_heaps s' sid ! ?i)) = Some w"
      then obtain k where "ih_Min (w_heaps s' sid ! ?i) = Some (k, w)" by auto
      from heaps_Min(1) [OF s'(2) i this] show False by simp
    qed
    moreover have "wq_place (w_wq s w) = None" using None by (simp add: place_None)
    ultimately show ?thesis
      using s' nearly_settled [OF near] guard nd(3) None by (simp add: wqs_OnPopQueue_def Let_def)
  qed
qed

section \<open>Each operation\<close>

lemma rep_view:
  assumes "w_rep n s v"
  shows "world_ok n s" "v_wq v = w_view s" "v_tq v = w_tq s" "v_next v = w_next s" "incoming_ok s"
  using assms by (auto simp: w_rep_def)

lemma rep_put:
  assumes "w_rep n s v" "world_ok n s'" "same_queues (w_upd s w f) s'"
    and "\<And>q. (f q)\<lparr>wq_handle := 0\<rparr> = f (q\<lparr>wq_handle := 0\<rparr>)"
  shows "w_rep n s' (v_put v w f)"
  using assms by (auto simp: w_rep_def same_queues_def v_put_def w_view_def fun_eq_iff incoming_ok_def)

lemma rep_put_tq:
  assumes "w_rep n s v" "world_ok n s'" "same_queues ((w_upd s w f)\<lparr>w_tq := x\<rparr>) s'"
    and "\<And>q. (f q)\<lparr>wq_handle := 0\<rparr> = f (q\<lparr>wq_handle := 0\<rparr>)"
    and "\<And>t. tasks_ok (tq_incoming (x t)) \<and> (\<forall>y \<in> set (tq_incoming (x t)). t_enqueue_order y < w_next s)"
  shows "w_rep n s' ((v_put v w f)\<lparr>v_tq := x\<rparr>)"
  using assms by (auto simp: w_rep_def same_queues_def v_put_def w_view_def fun_eq_iff incoming_ok_def)

lemma world_okD:
  assumes "world_ok n s"
  shows "tasks_ok (wq_tasks (w_wq s w))" "wq_sets (w_wq s w) = Some sid \<Longrightarrow> wq_set_index (w_wq s w) < n"
    "length (w_heaps s sid) = n"
  using assms by (auto simp: world_ok_def heaps_rep_def)

lemma tasks_ok_snoc:
  assumes "tasks_ok ts" "t_enqueue_order t \<noteq> 0" "\<forall>x \<in> set ts. t_enqueue_order x \<le> t_enqueue_order t"
  shows "tasks_ok (ts @ [t])"
  using assms by (auto simp: tasks_ok_def sorted_append eo_none_def)

text \<open>A queue that gained its first task, or whose fence moved past its first task.\<close>

lemma notify_if_placed:
  assumes near: "nearly_ok n s w c" and c: "c w = None" and t: "wq_tasks (w_wq s w) \<noteq> []"
  shows "\<exists>s'. (case wq_sets (w_wq s w) of
      Some sid \<Rightarrow> if \<not> wq_BlockedByFence (w_wq s w) then wqs_OnTaskPushedToEmptyQueue sid s w else Some s
    | None \<Rightarrow> Some s) = Some s' \<and> world_ok n s' \<and> same_queues s s'"
proof (cases "wq_place (w_wq s w)")
  case None
  then have "wq_sets (w_wq s w) = None \<or> wq_BlockedByFence (w_wq s w)" using t by (auto simp: place_None wq_runnable_def)
  then show ?thesis using nearly_settled_now [OF near] c None by (auto split: option.splits)
next
  case (Some p)
  then obtain sid i k where p: "wq_place (w_wq s w) = Some (sid, i, k)" by (metis prod_cases3)
  then show ?thesis
    using OnTaskPushedToEmptyQueue_spec [OF near c p] by (auto simp: place_Some wq_runnable_def split: if_splits)
qed

lemma Push_match:
  assumes rep: "w_rep n s v" and st: "v_step n v (OpPush w t) = Some (v', out)"
  shows "\<exists>s'. wq_step s (OpPush w t) = Some (s', out) \<and> w_rep n s' v'"
proof -
  let ?f = "\<lambda>q :: 'b WorkQueue. q\<lparr>wq_tasks := wq_tasks q @ [t]\<rparr>" and ?ts = "wq_tasks (w_wq s w)"
  note r = rep_view [OF rep]
  have a: "t_enqueue_order t \<noteq> 0" "\<forall>x \<in> set ?ts. t_enqueue_order x < t_enqueue_order t"
    "v' = v_put v w ?f" "out = OUnit" using st r by (auto split: if_splits)
  have near: "nearly_ok n (w_upd s w ?f) w (\<lambda>w. wq_place (w_wq s w))"
    by (rule world_upd [OF r(1)]) (use world_okD [OF r(1)] a tasks_ok_snoc in \<open>auto simp: less_imp_le\<close>)
  have guard: "t_enqueue_order t \<noteq> eo_none \<and> (?ts = [] \<or> t_enqueue_order (last ?ts) < t_enqueue_order t)"
    using a(1,2) by (cases ?ts rule: rev_cases) (auto simp: eo_none_def)
  have "\<exists>s'. wq_Push s w t = Some s' \<and> world_ok n s' \<and> same_queues (w_upd s w ?f) s'"
  proof (cases "?ts = []")
    case True
    then have "wq_place (w_wq s w) = None" by (simp add: place_None wq_runnable_def)
    from notify_if_placed [OF near this] show ?thesis using guard True by (simp add: wq_Push_def Let_def)
  next
    case False
    then have "wq_place (?f (w_wq s w)) = wq_place (w_wq s w)"
      by (simp add: wq_place_def wq_runnable_def wq_BlockedByFence_def)
    then have "world_ok n (w_upd s w ?f)" using nearly_settled_now [OF near] by simp
    then show ?thesis using guard False by (simp add: wq_Push_def Let_def)
  qed
  then show ?thesis using rep_put [OF rep] a by fastforce
qed

lemma PushFront_match:
  assumes rep: "w_rep n s v" and st: "v_step n v (OpPushFront w t) = Some (v', out)"
  shows "\<exists>s'. wq_step s (OpPushFront w t) = Some (s', out) \<and> w_rep n s' v'"
proof -
  let ?f = "\<lambda>q :: 'b WorkQueue. q\<lparr>wq_tasks := t # wq_tasks q\<rparr>" and ?ts = "wq_tasks (w_wq s w)"
  note r = rep_view [OF rep]
  have a: "\<not> t_nestable t" "t_enqueue_order t \<noteq> 0" "\<forall>x \<in> set ?ts. t_enqueue_order t \<le> t_enqueue_order x"
    "v' = v_put v w ?f" "out = OUnit" using st r by (auto split: if_splits)
  let ?s = "w_upd s w ?f"
  have near: "nearly_ok n ?s w (\<lambda>w. wq_place (w_wq s w))"
    by (rule world_upd [OF r(1)]) (use world_okD [OF r(1)] a in \<open>auto simp: tasks_ok_def eo_none_def\<close>)
  have guard: "\<not> t_nestable t \<and> t_enqueue_order t \<noteq> eo_none \<and> (?ts = [] \<or> t_enqueue_order t \<le> t_enqueue_order (hd ?ts))"
    using a(1-3) by (cases ?ts) (auto simp: eo_none_def)
  have "\<exists>s'. wq_PushNonNestableTaskToFront s w t = Some s' \<and> world_ok n s' \<and> same_queues ?s s'"
  proof (cases "?ts = [] \<or> wq_BlockedByFence (w_wq s w) \<or> wq_sets (w_wq s w) = None \<or> wq_BlockedByFence (?f (w_wq s w))")
    case True
    have "wq_BlockedByFence (?f (w_wq s w)) \<Longrightarrow> ?ts = [] \<or> wq_BlockedByFence (w_wq s w)"
      using guard by (auto simp: wq_BlockedByFence_def)
    with True have "wq_place (w_wq s w) = None" by (auto simp: place_None wq_runnable_def)
    from notify_if_placed [OF near this] obtain s' where
      "(case wq_sets (w_wq ?s w) of
          Some sid \<Rightarrow> if \<not> wq_BlockedByFence (w_wq ?s w) then wqs_OnTaskPushedToEmptyQueue sid ?s w else Some ?s
        | None \<Rightarrow> Some ?s) = Some s'" "world_ok n s'" "same_queues ?s s'" by auto
    then show ?thesis
      using guard True by (auto simp: wq_PushNonNestableTaskToFront_def Let_def split: option.splits if_splits)
  next
    case False
    then obtain sid where p: "wq_sets (w_wq s w) = Some sid" by auto
    let ?i = "wq_set_index (w_wq s w)"
    have "wq_place (w_wq s w) = Some (sid, ?i, t_enqueue_order (hd ?ts))"
      "wq_place (w_wq ?s w) = Some (sid, ?i, t_enqueue_order t)"
      using False p by (auto simp: place_Some wq_runnable_def)
    from OnFrontTaskChanged_spec [OF near this] show ?thesis
      using guard False p by (simp add: wq_PushNonNestableTaskToFront_def Let_def)
  qed
  then show ?thesis using rep_put [OF rep] a by fastforce
qed

lemma nearly_put:
  assumes "nearly_ok n s w c" "\<And>q. wq_handle (f q) = wq_handle q"
    and "tasks_ok (wq_tasks (f (w_wq s w)))" "wq_sets (f (w_wq s w)) \<noteq> None \<Longrightarrow> wq_set_index (f (w_wq s w)) < n"
  shows "nearly_ok n (w_upd s w f) w c"
  using assms handles_upd [of f s w] by (auto simp: nearly_ok_def heaps_rep_def)

lemma nearly_tq [simp]: "nearly_ok n (s\<lparr>w_tq := x\<rparr>) w c = nearly_ok n s w c"
  by (simp add: nearly_ok_def heaps_rep_def w_handles_def)

lemma view_upd: "w_view (w_upd s w f) = (w_view s)(w := (f (w_wq s w))\<lparr>wq_handle := 0\<rparr>)"
  by (auto simp: w_view_def)

lemma view_tq [simp]: "w_view (s\<lparr>w_tq := x\<rparr>) = w_view s"
  by (simp add: w_view_def)

lemma oldest_Min:
  assumes ok: "world_ok n s" and o: "v_oldest (w_view s) w"
  obtains sid k where "wq_sets (w_wq s w) = Some sid" "wq_runnable (w_wq s w) = Some k"
    "ih_Min (w_heaps s sid ! wq_set_index (w_wq s w)) = Some (k, w)" "wq_set_index (w_wq s w) < n"
proof -
  obtain sid i k where p: "wq_place (w_wq s w) = Some (sid, i, k)"
    and u: "\<And>w' k'. w' \<noteq> w \<Longrightarrow> wq_place (w_wq s w') = Some (sid, i, k') \<Longrightarrow> k < k'"
    using o by (auto simp: v_oldest_def)
  have h: "heaps_rep n s (\<lambda>w. wq_place (w_wq s w))" using ok by (simp add: world_ok_def)
  then have i: "i < n" using p unfolding heaps_rep_def by blast
  have "\<not> ih_empty (w_heaps s sid ! i)" using heaps_empty(1) [OF h i] p by blast
  then obtain k' w' where m: "ih_Min (w_heaps s sid ! i) = Some (k', w')" using heaps_empty(2) [OF h i] by blast
  note hm = heaps_Min [OF h i m]
  have "w' = w" using hm(1) hm(2) [OF p] u [of w' k'] by force
  then have "k' = k" using hm(1) p by simp
  then show thesis using that m p i \<open>w' = w\<close> by (auto simp: place_Some)
qed

lemma Reload_ahead:
  assumes "wq_tasks (w_wq s w) = []" "fence_ahead (w_tq s (wq_task_queue (w_wq s w)))"
  shows "tq_ReloadEmptyImmediateQueue s w
    = Some ((w_upd s w (\<lambda>q. q\<lparr>wq_tasks := tq_incoming (w_tq s (wq_task_queue (w_wq s w)))\<rparr>))
        \<lparr>w_tq := (w_tq s)(wq_task_queue (w_wq s w) := (w_tq s (wq_task_queue (w_wq s w)))\<lparr>tq_incoming := []\<rparr>)\<rparr>)"
proof -
  let ?tq = "w_tq s (wq_task_queue (w_wq s w))"
  have "List.find (\<lambda>task. f \<le> t_delayed_run_time task) (tq_incoming ?tq) = None" if "tq_delayed_fence ?tq = Some f" for f
    using assms(2) that by (auto simp: fence_ahead_def find_None_iff not_le)
  then show ?thesis
    using assms(1) by (cases "tq_delayed_fence ?tq") (simp_all add: tq_ReloadEmptyImmediateQueue_def Let_def w_upd_def)
qed

text \<open>Taking tasks off the front, then reloading when nothing is left, then telling the sets.\<close>

lemma pop_and_reload:
  assumes rep: "w_rep n s v" and o: "v_oldest (v_wq v) w" and vr: "v_reload v w ts = Some v'" and ts: "tasks_ok ts"
    and sid: "wq_sets (w_wq s w) = Some sid"
  shows "\<exists>s1 s'. wq_reload_after_pop (w_upd s w (\<lambda>q. q\<lparr>wq_tasks := ts\<rparr>)) w = Some s1
    \<and> wqs_OnPopQueue sid s1 w = Some s' \<and> w_rep n s' v'"
proof -
  note r = rep_view [OF rep]
  let ?f = "\<lambda>q :: 'b WorkQueue. q\<lparr>wq_tasks := ts\<rparr>" and ?t = "wq_task_queue (w_wq s w)"
  let ?s1 = "w_upd s w ?f"
  obtain k where m: "ih_Min (w_heaps s sid ! wq_set_index (w_wq s w)) = Some (k, w)"
    by (rule oldest_Min [OF r(1), of w]) (use o r(2) sid in auto)
  have near: "nearly_ok n ?s1 w (\<lambda>w. wq_place (w_wq s w))"
    by (rule world_upd [OF r(1)]) (use world_okD [OF r(1)] ts in auto)
  show ?thesis
  proof (cases "wq_type (w_wq s w) = kImmediate \<and> ts = []")
    case False
    then have v': "v' = v_put v w ?f" using vr r by (auto simp: v_reload_def Let_def)
    have re: "wq_reload_after_pop ?s1 w = Some ?s1" using False by (auto simp: wq_reload_after_pop_def)
    obtain s' where s': "wqs_OnPopQueue sid ?s1 w = Some s'" "world_ok n s'" "same_queues ?s1 s'"
      using OnPopQueue_spec [OF near, of sid k] sid m by auto
    then have "w_rep n s' (v_put v w ?f)" using rep_put [OF rep s'(2,3)] by simp
    then show ?thesis using re s'(1) v' by blast
  next
    case True
    let ?in = "tq_incoming (w_tq s ?t)"
    let ?g = "\<lambda>q :: 'b WorkQueue. q\<lparr>wq_tasks := ?in\<rparr>" and ?tq = "(w_tq s)(?t := (w_tq s ?t)\<lparr>tq_incoming := []\<rparr>)"
    let ?s2 = "(w_upd ?s1 w ?g)\<lparr>w_tq := ?tq\<rparr>"
    have df: "fence_ahead (w_tq s ?t)" and v': "v' = (v_put v w ?g)\<lparr>v_tq := ?tq\<rparr>"
      using vr True r by (auto simp: v_reload_def Let_def split: if_splits)
    have re: "wq_reload_after_pop ?s1 w = Some ?s2"
      using True Reload_ahead [of ?s1 w] df by (simp add: wq_reload_after_pop_def w_upd_def)
    have "tasks_ok ?in" using r(5) by (simp add: incoming_ok_def)
    then have near2: "nearly_ok n ?s2 w (\<lambda>w. wq_place (w_wq s w))"
      using world_okD [OF r(1)] by (auto intro!: world_upd [OF r(1)])
    obtain s' where s': "wqs_OnPopQueue sid ?s2 w = Some s'" "world_ok n s'" "same_queues ?s2 s'"
      using OnPopQueue_spec [OF near2, of sid k] sid m by auto
    have "w_rep n s' v'"
      unfolding v'
    proof (rule rep_put_tq [OF rep s'(2)])
      show "same_queues ((w_upd s w ?g)\<lparr>w_tq := ?tq\<rparr>) s'" using s'(3) by (simp add: w_upd_def)
    qed (use r(5) in \<open>auto simp: incoming_ok_def tasks_ok_def\<close>)
    then show ?thesis using re s'(1) by blast
  qed
qed

lemma tasks_ok_tl: "tasks_ok ts \<Longrightarrow> tasks_ok (tl ts)"
  by (cases ts) (auto simp: tasks_ok_def)

lemma tasks_ok_dropWhile: "tasks_ok ts \<Longrightarrow> tasks_ok (dropWhile p ts)"
  by (induction ts) (auto simp: tasks_ok_def)

lemma Take_match:
  assumes rep: "w_rep n s v" and st: "v_step n v (OpTake w) = Some (v', out)"
  shows "\<exists>s'. wq_step s (OpTake w) = Some (s', out) \<and> w_rep n s' v'"
proof -
  let ?ts = "wq_tasks (w_wq s w)"
  note r = rep_view [OF rep]
  have a: "v_oldest (v_wq v) w" "v_reload v w (tl ?ts) = Some v'" "out = OTask (hd ?ts)"
    using st r by (auto simp: bind_eq_Some_conv split: if_splits)
  obtain sid k where sid: "wq_sets (w_wq s w) = Some sid" and k: "wq_runnable (w_wq s w) = Some k"
    by (rule oldest_Min [OF r(1), of w]) (use a(1) r(2) in auto)
  then obtain t ts where ts: "?ts = t # ts" by (cases ?ts) (auto simp: wq_runnable_def)
  then have "v_reload v w ts = Some v'" "tasks_ok ts" using a(2) tasks_ok_tl [OF world_okD(1) [OF r(1), of w]] by auto
  from pop_and_reload [OF rep a(1) this sid] show ?thesis
    using sid ts a(3) by (auto simp: wq_TakeTaskFromWorkQueue_def)
qed

lemma RemoveCanceled_match:
  assumes rep: "w_rep n s v" and st: "v_step n v (OpRemoveCanceled w) = Some (v', out)"
  shows "\<exists>s'. wq_step s (OpRemoveCanceled w) = Some (s', out) \<and> w_rep n s' v'"
proof -
  let ?ts = "wq_tasks (w_wq s w)" and ?ts' = "dropWhile t_cancelled (wq_tasks (w_wq s w))"
  note r = rep_view [OF rep]
  obtain sid where sid: "wq_sets (w_wq s w) = Some sid" using st r by (auto simp: Let_def split: if_splits)
  show ?thesis
  proof (cases "?ts' = ?ts")
    case True
    then show ?thesis using st sid rep r by (auto simp: wq_RemoveAllCanceledTasksFromFront_def Let_def)
  next
    case False
    have a: "v_oldest (v_wq v) w" "v_reload v w ?ts' = Some v'" "out = OBool True"
      using st r sid False by (auto simp: Let_def bind_eq_Some_conv split: if_splits)
    from pop_and_reload [OF rep a(1,2) tasks_ok_dropWhile [OF world_okD(1) [OF r(1)]] sid] show ?thesis
      using sid False a(3) by (auto simp: wq_RemoveAllCanceledTasksFromFront_def Let_def)
  qed
qed

lemma Reload_match:
  assumes rep: "w_rep n s v" and st: "v_step n v (OpReload w) = Some (v', out)"
  shows "\<exists>s'. wq_step s (OpReload w) = Some (s', out) \<and> w_rep n s' v'"
proof -
  note r = rep_view [OF rep]
  let ?t = "wq_task_queue (w_wq s w)"
  let ?in = "tq_incoming (w_tq s ?t)"
  let ?g = "\<lambda>q :: 'b WorkQueue. q\<lparr>wq_tasks := ?in\<rparr>" and ?tq = "(w_tq s)(?t := (w_tq s ?t)\<lparr>tq_incoming := []\<rparr>)"
  let ?s1 = "(w_upd s w ?g)\<lparr>w_tq := ?tq\<rparr>"
  have a: "wq_tasks (w_wq s w) = []" "fence_ahead (w_tq s ?t)" "v' = (v_put v w ?g)\<lparr>v_tq := ?tq\<rparr>" "out = OUnit"
    using st r by (auto simp: v_reload_def Let_def split: if_splits)
  have in_ok: "tasks_ok ?in" using r(5) by (simp add: incoming_ok_def)
  have near: "nearly_ok n ?s1 w (\<lambda>w. wq_place (w_wq s w))"
    unfolding nearly_tq by (rule world_upd [OF r(1)]) (use world_okD [OF r(1)] in_ok in auto)
  have pl: "wq_place (w_wq s w) = None" using a(1) by (simp add: place_None wq_runnable_def)
  have re: "tq_ReloadEmptyImmediateQueue s w = Some ?s1"
    using a(1,2) by (rule Reload_ahead)
  have "\<exists>s'. wq_ReloadEmptyImmediateQueue s w = Some s' \<and> world_ok n s' \<and> same_queues ?s1 s'"
  proof (cases "?in = []")
    case True
    then have "wq_place (w_wq ?s1 w) = None" by (simp add: place_None wq_runnable_def)
    then show ?thesis using True nearly_settled_now [OF near] pl a(1) re by (simp add: wq_ReloadEmptyImmediateQueue_def)
  next
    case False
    then show ?thesis using notify_if_placed [OF near pl] a(1) re by (simp add: wq_ReloadEmptyImmediateQueue_def)
  qed
  then obtain s' where s': "wq_ReloadEmptyImmediateQueue s w = Some s'" "world_ok n s'" "same_queues ?s1 s'" by blast
  have "w_rep n s' v'"
    unfolding a(3) by (rule rep_put_tq [OF rep s'(2,3)]) (use r(5) in \<open>auto simp: incoming_ok_def tasks_ok_def\<close>)
  then show ?thesis using s'(1) a(4) by simp
qed

lemma runnable_fence:
  "wq_runnable (q\<lparr>wq_fence := f\<rparr>)
     = (if wq_tasks q = [] \<or> f \<noteq> eo_none \<and> f \<le> t_enqueue_order (hd (wq_tasks q)) then None
        else Some (t_enqueue_order (hd (wq_tasks q))))"
  by (auto simp: wq_runnable_def wq_BlockedByFence_def)

lemma InsertFence_match:
  assumes rep: "w_rep n s v" and st: "v_step n v (OpInsertFence w f) = Some (v', out)"
  shows "\<exists>s'. wq_step s (OpInsertFence w f) = Some (s', out) \<and> w_rep n s' v'"
proof -
  let ?f = "\<lambda>q :: 'b WorkQueue. q\<lparr>wq_fence := f\<rparr>" and ?q = "w_wq s w"
  let ?s = "w_upd s w ?f"
  note r = rep_view [OF rep]
  have sets: "wq_sets ?q \<noteq> None \<or> \<not> wq_BlockedByFence (?f ?q)" and f: "f \<noteq> 0" "wq_fence ?q \<le> f \<or> f = eo_blocking_fence"
    and v': "v' = v_put v w ?f"
    and out: "out = OBool (wq_sets ?q \<noteq> None \<and> wq_tasks ?q \<noteq> [] \<and> wq_runnable ?q = None \<and> wq_runnable (?f ?q) \<noteq> None)"
    using st r by (auto simp: Let_def runnable_fence wq_BlockedByFence_def split: if_splits)
  have near: "nearly_ok n ?s w (\<lambda>w. wq_place (w_wq s w))"
    by (rule world_upd [OF r(1)]) (use world_okD [OF r(1)] in auto)
  have impl: "wq_InsertFenceImpl s w f = Some (?s, wq_BlockedByFence ?q)" using f by (simp add: wq_InsertFenceImpl_def)
  consider (unblock) sid where "wq_sets ?q = Some sid" "wq_tasks ?q \<noteq> []" "wq_BlockedByFence ?q" "\<not> wq_BlockedByFence (?f ?q)"
    | (block) sid where "wq_sets ?q = Some sid" "wq_BlockedByFence (?f ?q)" | (no_sets) "wq_sets ?q = None" "\<not> wq_BlockedByFence (?f ?q)" | (none) "wq_tasks ?q \<noteq> []" "\<not> wq_BlockedByFence ?q" "\<not> wq_BlockedByFence (?f ?q)"
    using f sets by (cases "wq_sets ?q") (auto simp: wq_BlockedByFence_def eo_none_def)
  then have "\<exists>s'. wq_step s (OpInsertFence w f) = Some (s', out) \<and> world_ok n s' \<and> same_queues ?s s'"
  proof cases
    case unblock
    then have p: "wq_place ?q = None" "wq_place (w_wq ?s w) = Some (sid, wq_set_index ?q, t_enqueue_order (hd (wq_tasks ?q)))"
      by (auto simp: place_None place_Some wq_runnable_def)
    from OnTaskPushedToEmptyQueue_spec [OF near this] show ?thesis
      using impl unblock out by (auto simp: wq_InsertFence_def wq_runnable_def)
  next
    case block
    then have run: "wq_runnable (w_wq ?s w) = None" by (simp add: wq_runnable_def)
    have "wq_place ?q = None \<or> (\<exists>k. wq_place ?q = Some (sid, wq_set_index (w_wq ?s w), k))"
      using block(1) by (cases "wq_runnable ?q") (auto simp: wq_place_def)
    from OnQueueBlocked_spec [OF near this _ run] show ?thesis
      using impl block out by (auto simp: wq_InsertFence_def wq_runnable_def)
  next
    case no_sets
    then have "world_ok n ?s" by (intro nearly_settled_now [OF near]) (simp add: wq_place_def)
    then show ?thesis using impl no_sets out by (auto simp: wq_InsertFence_def)
  next
    case none
    then have "world_ok n ?s"
      by (intro nearly_settled_now [OF near]) (simp add: wq_place_def wq_runnable_def)
    then show ?thesis using impl none out by (auto simp: wq_InsertFence_def wq_runnable_def)
  qed
  then show ?thesis using rep_put [OF rep] v' by fastforce
qed

lemma RemoveFence_match:
  assumes rep: "w_rep n s v" and st: "v_step n v (OpRemoveFence w) = Some (v', out)"
  shows "\<exists>s'. wq_step s (OpRemoveFence w) = Some (s', out) \<and> w_rep n s' v'"
proof -
  let ?f = "\<lambda>q :: 'b WorkQueue. q\<lparr>wq_fence := eo_none\<rparr>" and ?q = "w_wq s w"
  let ?s = "w_upd s w ?f"
  note r = rep_view [OF rep]
  have v': "v' = v_put v w ?f" and out: "out = OBool (wq_sets ?q \<noteq> None \<and> wq_tasks ?q \<noteq> [] \<and> wq_runnable ?q = None)"
    using st r by (auto simp: Let_def)
  have near: "nearly_ok n ?s w (\<lambda>w. wq_place (w_wq s w))"
    by (rule world_upd [OF r(1)]) (use world_okD [OF r(1)] in auto)
  have nb: "\<not> wq_BlockedByFence (?f ?q)" by (simp add: wq_BlockedByFence_def)
  have "\<exists>s'. wq_step s (OpRemoveFence w) = Some (s', out) \<and> world_ok n s' \<and> same_queues ?s s'"
  proof (cases "wq_sets ?q \<noteq> None \<and> wq_tasks ?q \<noteq> [] \<and> wq_BlockedByFence ?q")
    case True
    then obtain sid where sid: "wq_sets ?q = Some sid" by auto
    have p: "wq_place ?q = None" "wq_place (w_wq ?s w) = Some (sid, wq_set_index ?q, t_enqueue_order (hd (wq_tasks ?q)))"
      using True sid nb by (auto simp: place_None place_Some wq_runnable_def)
    from OnTaskPushedToEmptyQueue_spec [OF near this] show ?thesis
      using True sid out by (auto simp: wq_RemoveFence_def wq_runnable_def Let_def)
  next
    case False
    then have "wq_place (?f ?q) = wq_place ?q"
      using nb by (cases "wq_sets ?q") (auto simp: wq_place_def wq_runnable_def)
    then have "world_ok n ?s" using nearly_settled_now [OF near] by simp
    then show ?thesis using False out by (auto simp: wq_RemoveFence_def wq_runnable_def Let_def)
  qed
  then show ?thesis using rep_put [OF rep] v' by fastforce
qed

lemma AddQueue_match:
  assumes rep: "w_rep n s v" and st: "v_step n v (OpAddQueue sid w i) = Some (v', out)"
  shows "\<exists>s'. wq_step s (OpAddQueue sid w i) = Some (s', out) \<and> w_rep n s' v'"
proof -
  let ?f = "\<lambda>q :: 'b WorkQueue. q\<lparr>wq_sets := Some sid, wq_set_index := i\<rparr>" and ?q = "w_wq s w"
  let ?s = "w_upd s w ?f"
  note r = rep_view [OF rep]
  have a: "wq_sets ?q = None" "i < n" "v' = v_put v w ?f" "out = OUnit" using st r by (auto split: if_splits)
  have near: "nearly_ok n ?s w (\<lambda>w. wq_place (w_wq s w))"
    by (rule world_upd [OF r(1)]) (use world_okD [OF r(1)] a in auto)
  have two: "w_upd (w_upd s w (\<lambda>q. q\<lparr>wq_sets := Some sid\<rparr>)) w (\<lambda>q. q\<lparr>wq_set_index := i\<rparr>) = ?s" by (simp add: w_upd_def)
  have front: "wq_GetFrontTaskEnqueueOrder ?q = Some (wq_runnable ?q)" using world_okD(1) [OF r(1)] by simp
  have run: "wq_runnable (?f ?q) = wq_runnable ?q" by (simp add: wq_runnable_def wq_BlockedByFence_def)
  have p: "wq_place ?q = None" using a(1) by (simp add: place_None)
  have "\<exists>s'. wqs_AddQueue sid s w i = Some s' \<and> world_ok n s' \<and> same_queues ?s s'"
  proof (cases "wq_runnable ?q")
    case None
    then have "wq_place (w_wq ?s w) = None" using run by (simp add: place_None)
    then have "world_ok n ?s" using p by (intro nearly_settled_now [OF near]) simp
    then show ?thesis using a front None two world_okD(3) [OF r(1)] by (simp add: wqs_AddQueue_def Let_def)
  next
    case (Some k)
    obtain s' where s': "on_heap sid i (\<lambda>h hs. ih_insert oldest_le snd h hs (k, w)) ?s = Some s'"
      "heaps_rep n s' ((\<lambda>w. wq_place (w_wq s w))(w := Some (sid, i, k)))" "same_queues ?s s'"
      using heaps_insert [OF nearly_okD(1) [OF near] a(2) p] by blast
    moreover have "wq_place (w_wq ?s w) = Some (sid, i, k)" using Some run by (simp add: place_Some)
    ultimately show ?thesis
      using nearly_settled [OF near] a front Some two world_okD(3) [OF r(1)] by (simp add: wqs_AddQueue_def Let_def)
  qed
  then show ?thesis using rep_put [OF rep] a by fastforce
qed

lemma RemoveQueue_match:
  assumes rep: "w_rep n s v" and st: "v_step n v (OpRemoveQueue sid w) = Some (v', out)"
  shows "\<exists>s'. wq_step s (OpRemoveQueue sid w) = Some (s', out) \<and> w_rep n s' v'"
proof -
  let ?f = "\<lambda>q :: 'b WorkQueue. q\<lparr>wq_sets := None\<rparr>" and ?q = "w_wq s w"
  let ?s = "w_upd s w ?f"
  note r = rep_view [OF rep]
  have a: "wq_sets ?q = Some sid" "v' = v_put v w ?f" "out = OUnit" using st r by (auto split: if_splits)
  have near: "nearly_ok n ?s w (\<lambda>w. wq_place (w_wq s w))"
    by (rule world_upd [OF r(1)]) (use world_okD [OF r(1)] a in auto)
  have p: "wq_place (w_wq ?s w) = None" by (simp add: place_None)
  have "\<exists>s'. wqs_RemoveQueue sid s w = Some s' \<and> world_ok n s' \<and> same_queues ?s s'"
  proof (cases "wq_place ?q")
    case None
    then have "world_ok n ?s" using p by (intro nearly_settled_now [OF near]) simp
    then show ?thesis using a None near_handle [OF near] by (simp add: wqs_RemoveQueue_def Let_def)
  next
    case (Some x)
    then obtain k where k: "wq_place ?q = Some (sid, wq_set_index ?q, k)" using a(1) by (auto simp: wq_place_def bind_eq_Some_conv)
    obtain s' where s': "on_heap sid (wq_set_index ?q) (\<lambda>h hs. ih_erase oldest_le snd h hs (w_handles ?s w)) ?s = Some s'"
      "heaps_rep n s' ((\<lambda>w. wq_place (w_wq s w))(w := None))" "same_queues ?s s'"
      using heaps_erase [OF nearly_okD(1) [OF near] k] by blast
    then show ?thesis
      using nearly_settled [OF near] p a near_handle [OF near] Some by (simp add: wqs_RemoveQueue_def Let_def w_handles_def)
  qed
  then show ?thesis using rep_put [OF rep] a by fastforce
qed

lemma ChangeSetIndex_match:
  assumes rep: "w_rep n s v" and st: "v_step n v (OpChangeSetIndex sid w i) = Some (v', out)"
  shows "\<exists>s'. wq_step s (OpChangeSetIndex sid w i) = Some (s', out) \<and> w_rep n s' v'"
proof -
  let ?f = "\<lambda>q :: 'b WorkQueue. q\<lparr>wq_set_index := i\<rparr>" and ?q = "w_wq s w" and ?c = "\<lambda>w. wq_place (w_wq s w)"
  let ?s = "w_upd s w ?f" and ?old = "wq_set_index (w_wq s w)"
  note r = rep_view [OF rep]
  have a: "wq_sets ?q = Some sid" "i < n" "i \<noteq> ?old" "v' = v_put v w ?f" "out = OUnit" using st r by (auto split: if_splits)
  have near: "nearly_ok n ?s w ?c" by (rule world_upd [OF r(1)]) (use world_okD [OF r(1)] a in auto)
  have old: "?old < n" using world_okD(2) [OF r(1)] a(1) by blast
  have front: "wq_GetFrontTaskEnqueueOrder ?q = Some (wq_runnable ?q)" using world_okD(1) [OF r(1)] by simp
  have run: "wq_runnable (?f ?q) = wq_runnable ?q" by (simp add: wq_runnable_def wq_BlockedByFence_def)
  have "\<exists>s'. wqs_ChangeSetIndex sid s w i = Some s' \<and> world_ok n s' \<and> same_queues ?s s'"
  proof (cases "wq_runnable ?q")
    case None
    then have "world_ok n ?s" using run by (intro nearly_settled_now [OF near]) (simp add: wq_place_def)
    then show ?thesis using a old front None world_okD(3) [OF r(1)] by (simp add: wqs_ChangeSetIndex_def Let_def)
  next
    case (Some k)
    have p: "?c w = Some (sid, ?old, k)" using a(1) Some by (simp add: place_Some)
    obtain s1 where s1: "on_heap sid ?old (\<lambda>h hs. ih_erase oldest_le snd h hs (w_handles ?s w)) ?s = Some s1"
      "heaps_rep n s1 (?c(w := None))" "same_queues ?s s1"
      using heaps_erase [OF nearly_okD(1) [OF near] p] by blast
    obtain s' where s': "on_heap sid i (\<lambda>h hs. ih_insert oldest_le snd h hs (k, w)) s1 = Some s'"
      "heaps_rep n s' (?c(w := None, w := Some (sid, i, k)))" "same_queues s1 s'"
      using heaps_insert [OF s1(2) a(2), where w = w and sid = sid and k = k] by auto
    have "wq_place (w_wq ?s w) = Some (sid, i, k)" using a(1) Some run by (simp add: place_Some)
    then have "world_ok n s'" using nearly_settled [OF near] s'(2) same_trans [OF s1(3) s'(3)] by simp
    then show ?thesis
      using s1(1) s'(1) same_trans [OF s1(3) s'(3)] a old front Some world_okD(3) [OF r(1)]
      by (simp add: wqs_ChangeSetIndex_def Let_def w_handles_def)
  qed
  then show ?thesis using rep_put [OF rep] a by fastforce
qed

lemma Post_match:
  assumes rep: "w_rep n s v" and st: "v_step n v (OpPost t now c ne) = Some (v', out)"
  shows "\<exists>s'. wq_step s (OpPost t now c ne) = Some (s', out) \<and> w_rep n s' v'"
proof -
  note r = rep_view [OF rep]
  let ?s = "tq_PostImmediateTask s t now c ne"
  have "world_ok n ?s" using r(1) by (simp add: world_ok_def heaps_rep_def w_handles_def tq_PostImmediateTask_def Let_def)
  moreover have "incoming_ok ?s"
  proof -
    have b: "eo_first \<le> w_next s" "\<And>t. tasks_ok (tq_incoming (w_tq s t))"
      "\<And>t x. x \<in> set (tq_incoming (w_tq s t)) \<Longrightarrow> t_enqueue_order x < w_next s"
      using r(5) by (auto simp: incoming_ok_def)
    have "tasks_ok (tq_incoming (w_tq s t) @ [\<lparr>t_enqueue_order = w_next s, t_delayed_run_time = now, t_cancelled = c, t_nestable = ne\<rparr>])"
      using b by (intro tasks_ok_snoc) (auto simp: eo_first_def less_imp_le)
    then show ?thesis using b by (auto simp: incoming_ok_def tq_PostImmediateTask_def Let_def less_Suc_eq)
  qed
  ultimately show ?thesis
    using st rep by (auto simp: w_rep_def tq_PostImmediateTask_def Let_def w_view_def)
qed

lemma wq_match:
  assumes "w_rep n s v" "v_step n v op = Some (v', out)"
  shows "\<exists>s'. wq_step s op = Some (s', out) \<and> w_rep n s' v'"
proof (cases op)
  case (OpPush w t)
  show ?thesis unfolding OpPush by (rule Push_match [OF assms(1) assms(2) [unfolded OpPush]])
next
  case (OpPushFront w t)
  show ?thesis unfolding OpPushFront by (rule PushFront_match [OF assms(1) assms(2) [unfolded OpPushFront]])
next
  case (OpTake w)
  show ?thesis unfolding OpTake by (rule Take_match [OF assms(1) assms(2) [unfolded OpTake]])
next
  case (OpRemoveCanceled w)
  show ?thesis unfolding OpRemoveCanceled by (rule RemoveCanceled_match [OF assms(1) assms(2) [unfolded OpRemoveCanceled]])
next
  case (OpReload w)
  show ?thesis unfolding OpReload by (rule Reload_match [OF assms(1) assms(2) [unfolded OpReload]])
next
  case (OpInsertFence w f)
  show ?thesis unfolding OpInsertFence by (rule InsertFence_match [OF assms(1) assms(2) [unfolded OpInsertFence]])
next
  case (OpRemoveFence w)
  show ?thesis unfolding OpRemoveFence by (rule RemoveFence_match [OF assms(1) assms(2) [unfolded OpRemoveFence]])
next
  case (OpAddQueue sid w i)
  show ?thesis unfolding OpAddQueue by (rule AddQueue_match [OF assms(1) assms(2) [unfolded OpAddQueue]])
next
  case (OpRemoveQueue sid w)
  show ?thesis unfolding OpRemoveQueue by (rule RemoveQueue_match [OF assms(1) assms(2) [unfolded OpRemoveQueue]])
next
  case (OpChangeSetIndex sid w i)
  show ?thesis unfolding OpChangeSetIndex by (rule ChangeSetIndex_match [OF assms(1) assms(2) [unfolded OpChangeSetIndex]])
next
  case (OpPost t now c ne)
  show ?thesis unfolding OpPost by (rule Post_match [OF assms(1) assms(2) [unfolded OpPost]])
qed

interpretation work_queues: data_refinement "w_rep n" wq_step "v_step n" for n
  by unfold_locales (rule wq_match)

lemma init_rep:
  "w_rep n (w_init n tq_of type_of im de)
     \<lparr>v_wq = w_view (w_init n tq_of type_of im de), v_tq = w_tq (w_init n tq_of type_of im de), v_next = eo_first\<rparr>"
proof -
  have p: "wq_place (wq_init t ty) = None" for t :: 'b and ty by (simp add: wq_place_def wq_init_def)
  have "heap_view (\<lambda>w :: 'a. None) sid i = Map.empty" for sid i by (simp add: heap_view_def fun_eq_iff)
  then have "heaps_rep n (w_init n tq_of type_of im de) (\<lambda>w. wq_place (w_wq (w_init n tq_of type_of im de) w))"
    using oldest.rep_init by (auto simp: heaps_rep_def w_init_def p w_handles_def) (auto simp: wq_init_def)
  then show ?thesis
    by (auto simp: w_rep_def world_ok_def incoming_ok_def w_init_def wq_init_def tasks_ok_def)
qed

section \<open>The check of the selector\<close>

lemma find_node_spec:
  assumes "\<And>x. x \<in> set nodes \<Longrightarrow> \<exists>k v. x = Some (k, v) \<and> (v = w \<longrightarrow> order = Some k \<and> wq_sets (w_wq s w) = Some sid)"
  shows "wqs_find_node s w order sid nodes = Some (\<exists>k. Some (k, w) \<in> set nodes)"
  using assms
proof (induction nodes)
  case (Cons x nodes)
  obtain k v where x: "x = Some (k, v)" "v = w \<longrightarrow> order = Some k \<and> wq_sets (w_wq s w) = Some sid"
    using Cons.prems [of x] by auto
  show ?case using x Cons by (cases "v = w") auto
qed simp

lemma ContainsWorkQueueForTest_spec:
  assumes "world_ok n s"
  shows "wqs_ContainsWorkQueueForTest sid s w = Some (wq_sets (w_wq s w) = Some sid)"
proof -
  let ?c = "\<lambda>w. wq_place (w_wq s w)" and ?nodes = "concat (map (\<lambda>h. map (ih_node h) [1..<ih_size h + 1]) (w_heaps s sid))"
  have h: "heaps_rep n s ?c" using assms by (simp add: world_ok_def)
  have rep: "ih_rep oldest_le snd (w_heaps s sid ! i) (w_handles s) (heap_view ?c sid i)" if "i < n" for i
    using h that by (simp add: heaps_rep_def)
  have len: "length (w_heaps s sid) = n" using world_okD(3) [OF assms] .
  have node: "\<exists>i < n. \<exists>e. x = Some e \<and> heap_view ?c sid i (snd e) = Some e" if x: "x \<in> set ?nodes" for x
  proof -
    obtain i j where i: "i < n" "j \<in> {1..ih_size (w_heaps s sid ! i)}" "x = ih_node (w_heaps s sid ! i) j"
      using x len by (auto simp: in_set_conv_nth [of _ "w_heaps s sid"] less_Suc_eq_le simp del: upt_Suc)
    have j: "1 \<le> j" "j \<le> ih_size (w_heaps s sid ! i)" using i(2) by auto
    obtain e where "ih_node (w_heaps s sid ! i) j = Some e" "heap_view ?c sid i (snd e) = Some e"
      by (rule oldest.rep_node [OF rep [OF i(1)] j])
    then show ?thesis using i by auto
  qed
  have front: "wq_GetFrontTaskEnqueueOrder (w_wq s w) = Some (wq_runnable (w_wq s w))" using world_okD(1) [OF assms] by simp
  have find: "wqs_find_node s w (wq_runnable (w_wq s w)) sid ?nodes = Some (\<exists>k. Some (k, w) \<in> set ?nodes)"
  proof (rule find_node_spec)
    fix x assume "x \<in> set ?nodes"
    then obtain i e where e: "x = Some e" "heap_view ?c sid i (snd e) = Some e" using node by blast
    then show "\<exists>k v. x = Some (k, v) \<and> (v = w \<longrightarrow> wq_runnable (w_wq s w) = Some k \<and> wq_sets (w_wq s w) = Some sid)"
      by (cases e) (auto simp: heap_view_Some place_Some)
  qed
  have "Some (k, w) \<in> set ?nodes" if k: "wq_place (w_wq s w) = Some (sid, i, k)" for i k
  proof -
    have i: "i < n" using h k unfolding heaps_rep_def by blast
    have "heap_view ?c sid i w = Some (k, w)" using k by (simp add: heap_view_def)
    note o = oldest.rep_owner [OF rep [OF i] this]
    have "w_heaps s sid ! i \<in> set (w_heaps s sid)" using i len by auto
    moreover have "w_handles s w \<in> set [1..<ih_size (w_heaps s sid ! i) + 1]" using o(2,3) by auto
    ultimately have "ih_node (w_heaps s sid ! i) (w_handles s w) \<in> set ?nodes"
      by (auto simp del: upt_Suc intro!: bexI [of _ "w_heaps s sid ! i"] imageI)
    then show ?thesis using o(4) by simp
  qed
  moreover have "wq_sets (w_wq s w) = Some sid" if "Some (k, w) \<in> set ?nodes" for k
    using node [OF that] by (auto simp: heap_view_Some place_Some)
  ultimately show ?thesis
    using find front unfolding wqs_ContainsWorkQueueForTest_def
    by (cases "wq_runnable (w_wq s w)") (auto simp: place_Some simp del: upt_Suc)
qed

section \<open>Looking up the oldest queue\<close>

lemma oldest_lookups:
  assumes "world_ok n s" and "i < n"
  shows "(wqs_GetOldestQueueInSet sid s i = Some None
      \<and> wqs_GetOldestQueueAndEnqueueOrderInSet sid s i = Some None
      \<and> (\<forall>w k. wq_place (w_wq s w) \<noteq> Some (sid, i, k)))
    \<or> (\<exists>w k. wqs_GetOldestQueueInSet sid s i = Some (Some w)
      \<and> wqs_GetOldestQueueAndEnqueueOrderInSet sid s i = Some (Some (w, k))
      \<and> wq_place (w_wq s w) = Some (sid, i, k)
      \<and> (\<forall>w' k'. wq_place (w_wq s w') = Some (sid, i, k') \<longrightarrow> k \<le> k'))"
proof -
  have h: "heaps_rep n s (\<lambda>w. wq_place (w_wq s w))" using assms(1) by (simp add: world_ok_def)
  note len = world_okD(3) [OF assms(1), of sid]
  show ?thesis
  proof (cases "ih_empty (w_heaps s sid ! i)")
    case True
    then show ?thesis using heaps_empty(1) [OF h assms(2)] len assms(2)
      by (simp add: wqs_GetOldestQueueInSet_def wqs_GetOldestQueueAndEnqueueOrderInSet_def)
  next
    case False
    then obtain k w where m: "ih_Min (w_heaps s sid ! i) = Some (k, w)" using heaps_empty(2) [OF h assms(2)] by blast
    note hm = heaps_Min [OF h assms(2) m]
    have "wqs_GetOldestQueueInSet sid s i = Some (Some w)"
      "wqs_GetOldestQueueAndEnqueueOrderInSet sid s i = Some (Some (w, k))"
      using False m len assms(2) hm(1,3) world_okD(1) [OF assms(1)]
      by (auto simp: wqs_GetOldestQueueInSet_def wqs_GetOldestQueueAndEnqueueOrderInSet_def place_Some w_handles_def
          HeapHandle_IsValid_def)
    then show ?thesis using hm(1,2) by blast
  qed
qed

section \<open>Properties\<close>

text \<open>
  C2: the work queues, their sets and the heaps of the sets implement plain queues, on every sequence
  of calls that the plain queues allow. These are: a task is pushed after all others in order, or to
  the front when it is not nestable and older than all others; a task is taken, or cancelled tasks
  removed, from the one queue of its set whose first runnable task is oldest; an empty immediate
  queue is reloaded, in the same call or on its own, as long as no incoming task has reached the
  delayed fence of the task queue; a fence is not moved back, except to the blocking fence, and a
  queue in no sets gets no fence that blocks it; a queue is added to a set while it is in none, and
  removed from or moved in the set it is in. Two of the conditions exclude calls that the code
  allows but gets wrong, see \<open>silent_fence_leaves_blocked_queue\<close> and
  \<open>InsertFence_disabled_queue_undefined\<close>. Then no check fails, the heaps hold exactly the queues with a task they may run, keyed by the
  enqueue order of that task, every queue's handle is the position of its node, and the queues
  hold and return the tasks they would if there were no heaps at all.
\<close>

theorem work_queues_refine_queues:
  assumes "w_rep n s v" and "run_ops (v_step n) v ops = Some (v', outs)"
  shows "\<exists>s'. run_ops wq_step s ops = Some (s', outs) \<and> w_rep n s' v'"
  by (rule work_queues.run [OF assms])

text \<open>A small system for concrete runs: one task queue with work queues 0 and 1.\<close>

lemma small_run:
  fixes s :: "(nat, unit) world"
  defines "s \<equiv> w_init 6 (\<lambda>_. ()) (\<lambda>w. if w = 0 then kImmediate else kDelayed) (\<lambda>_. 0) (\<lambda>_. 1)"
  shows "\<exists>v'. run_ops (v_step 6) \<lparr>v_wq = w_view s, v_tq = w_tq s, v_next = eo_first\<rparr>
      [OpAddQueue ImmediateSets 0 3, OpPost () 7 False True, OpReload 0, OpTake 0]
    = Some (v', [OUnit, OUnit, OUnit, OTask \<lparr>t_enqueue_order = 2, t_delayed_run_time = 7, t_cancelled = False, t_nestable = True\<rparr>])"
  by (simp add: s_def w_init_def w_view_def wq_init_def v_put_def v_reload_def fence_ahead_def v_oldest_def wq_place_def wq_runnable_def
      wq_BlockedByFence_def eo_none_def eo_first_def Let_def)

theorem work_queues_refine_queues_witness:
  "\<exists>s' v'. run_ops wq_step (w_init 6 (\<lambda>_. ()) (\<lambda>w. if w = 0 then kImmediate else kDelayed) (\<lambda>_. 0) (\<lambda>_. 1 :: nat))
      [OpAddQueue ImmediateSets 0 3, OpPost () 7 False True, OpReload 0, OpTake 0]
    = Some (s', [OUnit, OUnit, OUnit, OTask \<lparr>t_enqueue_order = 2, t_delayed_run_time = 7, t_cancelled = False, t_nestable = True\<rparr>])
    \<and> w_rep 6 s' v'"
  using small_run work_queues_refine_queues [OF init_rep] by blast

text \<open>
  the queue the sets return for a priority is in that set, may run a task, and no queue of the
  set has an older task to run; they return none exactly when no queue of the set may run a task.
  Both lookups agree and neither fails a check.
\<close>

theorem oldest_queue_is_oldest:
  assumes "world_ok n s" and "i < n"
  shows "(wqs_GetOldestQueueInSet sid s i = Some None
      \<and> wqs_GetOldestQueueAndEnqueueOrderInSet sid s i = Some None
      \<and> (\<forall>w k. wq_place (w_wq s w) \<noteq> Some (sid, i, k)))
    \<or> (\<exists>w k. wqs_GetOldestQueueInSet sid s i = Some (Some w)
      \<and> wqs_GetOldestQueueAndEnqueueOrderInSet sid s i = Some (Some (w, k))
      \<and> wq_place (w_wq s w) = Some (sid, i, k)
      \<and> (\<forall>w' k'. wq_place (w_wq s w') = Some (sid, i, k') \<longrightarrow> k \<le> k'))"
  by (rule oldest_lookups [OF assms])

theorem oldest_queue_is_oldest_witness:
  "wqs_GetOldestQueueInSet DelayedSets (w_init 6 (\<lambda>_. ()) (\<lambda>_. kDelayed) (\<lambda>_. 0) (\<lambda>_. 1 :: nat)) 3 = Some None"
proof -
  let ?s = "w_init 6 (\<lambda>_. ()) (\<lambda>_. kDelayed) (\<lambda>_. 0) (\<lambda>_. 1 :: nat)"
  have ok: "world_ok 6 ?s" by (rule rep_view(1) [OF init_rep])
  have "wq_place (w_wq ?s w) = None" for w by (simp add: w_init_def wq_init_def wq_place_def)
  with oldest_queue_is_oldest [OF ok, of 3 DelayedSets] show ?thesis by simp
qed

text \<open>
  inserting a blocking fence into a task queue whose work queues are in no sets, which is the
  case while the task queue is disabled, calls a member function through a null pointer, which is
  undefined behaviour: \<open>InsertFence\<close> tests
  \<open>work_queue_sets_\<close> before it reports an unblocked queue but not before it reports a blocked one.
\<close>

theorem InsertFence_disabled_queue_undefined:
  assumes "wq_sets (w_wq s (tq_immediate (w_tq s t))) = None" and "tasks_ok (wq_tasks (w_wq s (tq_immediate (w_tq s t))))"
  shows "tq_InsertFence s t kBeginningOfTime = None"
proof -
  let ?w = "tq_immediate (w_tq s t)"
  have "eo_blocking_fence \<le> t_enqueue_order (hd (wq_tasks (w_wq s ?w)))" if "wq_tasks (w_wq s ?w) \<noteq> []"
    using assms(2) that by (cases "wq_tasks (w_wq s ?w)") (auto simp: tasks_ok_def eo_none_def eo_blocking_fence_def)
  then have "wq_InsertFence (s\<lparr>w_tq := x\<rparr>) ?w eo_blocking_fence = None" for x
    using assms(1)
    by (auto simp: wq_InsertFence_def wq_InsertFenceImpl_def wq_BlockedByFence_def eo_blocking_fence_def eo_none_def)
  then show ?thesis by (simp add: tq_InsertFence_def Let_def)
qed

theorem InsertFence_disabled_queue_undefined_witness:
  "tq_InsertFence (w_init 6 (\<lambda>_. ()) (\<lambda>_. kDelayed) (\<lambda>_. 0) (\<lambda>_. 1 :: nat)) () kBeginningOfTime = None"
  by (rule InsertFence_disabled_queue_undefined) (simp_all add: w_init_def wq_init_def tasks_ok_def)

text \<open>
  the fence that a reloaded immediate task activates is placed on the delayed work queue
  without telling the sets, so a delayed task that was enqueued after that task is left in the
  heap of its set although it is blocked: the sets still choose it, and the lookup that compares
  enqueue orders fails its check.
\<close>

theorem silent_fence_leaves_blocked_queue:
  "\<exists>s. delayed_fence_run = Some s \<and> wq_BlockedByFence (w_wq s 1)
    \<and> wqs_GetOldestQueueInSet DelayedSets s 3 = Some (Some 1)
    \<and> wqs_GetOldestQueueAndEnqueueOrderInSet DelayedSets s 3 = None"
proof -
  have "(case delayed_fence_run of None \<Rightarrow> False | Some s \<Rightarrow> wq_BlockedByFence (w_wq s 1)
    \<and> wqs_GetOldestQueueInSet DelayedSets s 3 = Some (Some 1)
    \<and> wqs_GetOldestQueueAndEnqueueOrderInSet DelayedSets s 3 = None)"
    by code_simp
  then show ?thesis by (auto split: option.splits)
qed

end
