(* ===== verification/Task_Queue_Selector.thy ===== *)
theory Task_Queue_Selector
  imports Work_Queue
begin

text \<open>
  The choice of the next work queue to service,
  \<open>base/task/sequence_manager/task_queue_selector.cc\<close>: the oldest queue of the most urgent priority,
  with counters that keep high, normal and low priority queues and immediate tasks from being
  starved. A priority is the index of its set. The recording of histograms has no effect on the
  state and is left out; the observer of enabled queues and the thread checks are not modelled.
\<close>

section \<open>Priorities and scores\<close>

definition kControlPriority :: nat where "kControlPriority = 0"
definition kHighestPriority :: nat where "kHighestPriority = 1"
definition kHighPriority :: nat where "kHighPriority = 2"
definition kNormalPriority :: nat where "kNormalPriority = 3"
definition kLowPriority :: nat where "kLowPriority = 4"
definition kBestEffortPriority :: nat where "kBestEffortPriority = 5"
definition kQueuePriorityCount :: nat where "kQueuePriorityCount = 6"

definition kMaxHighPriorityStarvationScore :: nat where "kMaxHighPriorityStarvationScore = 3"
definition kSmallScoreIncrementForHighPriorityStarvation :: nat where "kSmallScoreIncrementForHighPriorityStarvation = 1"
definition kMaxNormalPriorityStarvationScore :: nat where "kMaxNormalPriorityStarvationScore = 5"
definition kLargeScoreIncrementForNormalPriorityStarvation :: nat where "kLargeScoreIncrementForNormalPriorityStarvation = 2"
definition kSmallScoreIncrementForNormalPriorityStarvation :: nat where "kSmallScoreIncrementForNormalPriorityStarvation = 1"
definition kMaxLowPriorityStarvationScore :: nat where "kMaxLowPriorityStarvationScore = 25"
definition kLargeScoreIncrementForLowPriorityStarvation :: nat where "kLargeScoreIncrementForLowPriorityStarvation = 5"
definition kSmallScoreIncrementForLowPriorityStarvation :: nat where "kSmallScoreIncrementForLowPriorityStarvation = 1"
definition kMaxDelayedStarvationTasks :: nat where "kMaxDelayedStarvationTasks = 3"

lemmas priority_defs = kControlPriority_def kHighestPriority_def kHighPriority_def kNormalPriority_def
  kLowPriority_def kBestEffortPriority_def kQueuePriorityCount_def

lemmas score_defs = kMaxHighPriorityStarvationScore_def kSmallScoreIncrementForHighPriorityStarvation_def
  kMaxNormalPriorityStarvationScore_def kLargeScoreIncrementForNormalPriorityStarvation_def
  kSmallScoreIncrementForNormalPriorityStarvation_def kMaxLowPriorityStarvationScore_def
  kLargeScoreIncrementForLowPriorityStarvation_def kSmallScoreIncrementForLowPriorityStarvation_def
  kMaxDelayedStarvationTasks_def

record TaskQueueSelector =
  immediate_starvation_count :: nat
  high_priority_starvation_score :: nat
  normal_priority_starvation_score :: nat
  low_priority_starvation_score :: nat

definition ts_init :: TaskQueueSelector where
  "ts_init = \<lparr>immediate_starvation_count = 0, high_priority_starvation_score = 0,
     normal_priority_starvation_score = 0, low_priority_starvation_score = 0\<rparr>"

section \<open>Queues come and go\<close>

text \<open>A task queue is added, removed and re-prioritised with both of its work queues.\<close>

definition ps_CheckContainsQueueForTest :: "('w, 't) world \<Rightarrow> 't \<Rightarrow> bool option" where
  "ps_CheckContainsQueueForTest s t = do {
     d \<leftarrow> wqs_ContainsWorkQueueForTest DelayedSets s (tq_delayed (w_tq s t));
     i \<leftarrow> wqs_ContainsWorkQueueForTest ImmediateSets s (tq_immediate (w_tq s t));
     if d = i then Some d else None
   }"

definition ps_AddQueue :: "('w, 't) world \<Rightarrow> 't \<Rightarrow> nat \<Rightarrow> ('w, 't) world option" where
  "ps_AddQueue s t priority = do {
     b \<leftarrow> ps_CheckContainsQueueForTest s t;
     if b then None
     else do {
       s \<leftarrow> wqs_AddQueue DelayedSets s (tq_delayed (w_tq s t)) priority;
       s \<leftarrow> wqs_AddQueue ImmediateSets s (tq_immediate (w_tq s t)) priority;
       b \<leftarrow> ps_CheckContainsQueueForTest s t;
       if b then Some s else None
     }
   }"

definition ps_ChangeSetIndex :: "('w, 't) world \<Rightarrow> 't \<Rightarrow> nat \<Rightarrow> ('w, 't) world option" where
  "ps_ChangeSetIndex s t priority = do {
     b \<leftarrow> ps_CheckContainsQueueForTest s t;
     if b then do {
       s \<leftarrow> wqs_ChangeSetIndex DelayedSets s (tq_delayed (w_tq s t)) priority;
       s \<leftarrow> wqs_ChangeSetIndex ImmediateSets s (tq_immediate (w_tq s t)) priority;
       b \<leftarrow> ps_CheckContainsQueueForTest s t;
       if b then Some s else None
     } else None
   }"

definition ps_RemoveQueue :: "('w, 't) world \<Rightarrow> 't \<Rightarrow> ('w, 't) world option" where
  "ps_RemoveQueue s t = do {
     b \<leftarrow> ps_CheckContainsQueueForTest s t;
     if b then do {
       s \<leftarrow> wqs_RemoveQueue DelayedSets s (tq_delayed (w_tq s t));
       s \<leftarrow> wqs_RemoveQueue ImmediateSets s (tq_immediate (w_tq s t));
       b \<leftarrow> ps_CheckContainsQueueForTest s t;
       if b then None else Some s
     } else None
   }"

text \<open>\<open>enabled\<close> is the task queue's \<open>IsQueueEnabled()\<close>.\<close>

definition ts_AddQueue :: "bool \<Rightarrow> ('w, 't) world \<Rightarrow> 't \<Rightarrow> ('w, 't) world option" where
  "ts_AddQueue enabled s t = (if enabled then ps_AddQueue s t kNormalPriority else None)"

definition ts_RemoveQueue :: "bool \<Rightarrow> ('w, 't) world \<Rightarrow> 't \<Rightarrow> ('w, 't) world option" where
  "ts_RemoveQueue enabled s t = (if enabled then ps_RemoveQueue s t else Some s)"

text \<open>\<open>GetQueuePriority()\<close> of a task queue reads the set index of its immediate work queue.\<close>

definition tq_GetQueuePriority :: "('w, 't) world \<Rightarrow> 't \<Rightarrow> nat option" where
  "tq_GetQueuePriority s t =
     (let i = wq_set_index (w_wq s (tq_immediate (w_tq s t))) in
      if i = wq_set_index (w_wq s (tq_delayed (w_tq s t))) then Some i else None)"

definition ts_EnableQueue :: "bool \<Rightarrow> ('w, 't) world \<Rightarrow> 't \<Rightarrow> ('w, 't) world option" where
  "ts_EnableQueue enabled s t =
     (if enabled then do { p \<leftarrow> tq_GetQueuePriority s t; ps_AddQueue s t p } else None)"

definition ts_DisableQueue :: "bool \<Rightarrow> ('w, 't) world \<Rightarrow> 't \<Rightarrow> ('w, 't) world option" where
  "ts_DisableQueue enabled s t = (if \<not> enabled then ps_RemoveQueue s t else None)"

definition ts_SetQueuePriority :: "bool \<Rightarrow> ('w, 't) world \<Rightarrow> 't \<Rightarrow> nat \<Rightarrow> ('w, 't) world option" where
  "ts_SetQueuePriority enabled s t priority =
     (if priority < kQueuePriorityCount then do {
        s \<leftarrow> (if enabled then ps_ChangeSetIndex s t priority
             else Some (w_upd (w_upd s (tq_delayed (w_tq s t)) (\<lambda>q. q\<lparr>wq_set_index := priority\<rparr>))
                    (tq_immediate (w_tq s t)) (\<lambda>q. q\<lparr>wq_set_index := priority\<rparr>)));
        p \<leftarrow> tq_GetQueuePriority s t;
        if p = priority then Some s else None
      } else None)"

section \<open>Choosing a queue\<close>

text \<open>
  Each choice returns the chosen work queue, if any, and whether a delayed queue was chosen over
  an immediate one.
\<close>

definition ps_ChooseOldestImmediateOrDelayedTaskWithPriority ::
  "('w, 't) world \<Rightarrow> nat \<Rightarrow> ('w option \<times> bool) option" where
  "ps_ChooseOldestImmediateOrDelayedTaskWithPriority s priority = do {
     immediate \<leftarrow> wqs_GetOldestQueueAndEnqueueOrderInSet ImmediateSets s priority;
     (case immediate of
        Some (immediate_queue, immediate_enqueue_order) \<Rightarrow> do {
          delayed \<leftarrow> wqs_GetOldestQueueAndEnqueueOrderInSet DelayedSets s priority;
          (case delayed of
             Some (delayed_queue, delayed_enqueue_order) \<Rightarrow>
               if immediate_enqueue_order < delayed_enqueue_order then Some (Some immediate_queue, False)
               else Some (Some delayed_queue, True)
           | None \<Rightarrow> Some (Some immediate_queue, False))
        }
      | None \<Rightarrow> do { q \<leftarrow> wqs_GetOldestQueueInSet DelayedSets s priority; Some (q, False) })
   }"

definition ps_ChooseOldestWithPriority ::
  "TaskQueueSelector \<Rightarrow> ('w, 't) world \<Rightarrow> nat \<Rightarrow> ('w option \<times> bool) option" where
  "ps_ChooseOldestWithPriority ts s priority =
     (if kMaxDelayedStarvationTasks \<le> immediate_starvation_count ts then do {
        q \<leftarrow> wqs_GetOldestQueueInSet ImmediateSets s priority;
        (case q of
           Some w \<Rightarrow> Some (Some w, False)
         | None \<Rightarrow> do { q \<leftarrow> wqs_GetOldestQueueInSet DelayedSets s priority; Some (q, False) })
      } else ps_ChooseOldestImmediateOrDelayedTaskWithPriority s priority)"

text \<open>The candidates in turn: the first that has a queue is taken.\<close>

fun ps_first_of :: "TaskQueueSelector \<Rightarrow> ('w, 't) world \<Rightarrow> (bool \<times> nat) list \<Rightarrow> ('w option \<times> bool) option" where
  "ps_first_of ts s [] = Some (None, False)"
| "ps_first_of ts s ((guard, priority) # rest) =
     (if guard then do {
        (q, chose_delayed) \<leftarrow> ps_ChooseOldestWithPriority ts s priority;
        if q \<noteq> None then Some (q, chose_delayed) else ps_first_of ts s rest
      } else ps_first_of ts s rest)"

text \<open>
  The control priority first, then the starved priorities, lowest first, then the priorities in
  order from \<open>kHighestPriority\<close> up to \<open>max_priority\<close>.
\<close>

definition ps_SelectWorkQueueToService ::
  "TaskQueueSelector \<Rightarrow> ('w, 't) world \<Rightarrow> nat \<Rightarrow> ('w option \<times> bool) option" where
  "ps_SelectWorkQueueToService ts s max_priority =
     ps_first_of ts s
       ([(kControlPriority < max_priority, kControlPriority),
         (kLowPriority < max_priority \<and> kMaxLowPriorityStarvationScore \<le> low_priority_starvation_score ts, kLowPriority),
         (kNormalPriority < max_priority \<and> kMaxNormalPriorityStarvationScore \<le> normal_priority_starvation_score ts,
          kNormalPriority),
         (kHighPriority < max_priority \<and> kMaxHighPriorityStarvationScore \<le> high_priority_starvation_score ts, kHighPriority)]
        @ map (\<lambda>p. (True, p)) [kHighestPriority..<max_priority])"

section \<open>Scores\<close>

definition ts_HasTasksWithPriority :: "('w, 't) world \<Rightarrow> nat \<Rightarrow> bool option" where
  "ts_HasTasksWithPriority s priority = do {
     d \<leftarrow> wqs_IsSetEmpty DelayedSets s priority;
     i \<leftarrow> wqs_IsSetEmpty ImmediateSets s priority;
     Some (\<not> d \<or> \<not> i)
   }"

definition ts_DidSelectQueueWithPriority ::
  "TaskQueueSelector \<Rightarrow> ('w, 't) world \<Rightarrow> nat \<Rightarrow> bool \<Rightarrow> TaskQueueSelector option" where
  "ts_DidSelectQueueWithPriority ts s priority chose_delayed_over_immediate = do {
     low \<leftarrow> ts_HasTasksWithPriority s kLowPriority;
     normal \<leftarrow> ts_HasTasksWithPriority s kNormalPriority;
     high \<leftarrow> ts_HasTasksWithPriority s kHighPriority;
     ts \<leftarrow>
       (if priority = kControlPriority then Some ts
        else if priority = kHighestPriority then
          Some (ts\<lparr>low_priority_starvation_score := low_priority_starvation_score ts
                     + (if low then kSmallScoreIncrementForLowPriorityStarvation else 0),
                   normal_priority_starvation_score := normal_priority_starvation_score ts
                     + (if normal then kSmallScoreIncrementForNormalPriorityStarvation else 0),
                   high_priority_starvation_score := high_priority_starvation_score ts
                     + (if high then kSmallScoreIncrementForHighPriorityStarvation else 0)\<rparr>)
        else if priority = kHighPriority then
          Some (ts\<lparr>low_priority_starvation_score := low_priority_starvation_score ts
                     + (if low then kLargeScoreIncrementForLowPriorityStarvation else 0),
                   normal_priority_starvation_score := normal_priority_starvation_score ts
                     + (if normal then kLargeScoreIncrementForNormalPriorityStarvation else 0),
                   high_priority_starvation_score := 0\<rparr>)
        else if priority = kNormalPriority then
          Some (ts\<lparr>low_priority_starvation_score := low_priority_starvation_score ts
                     + (if low then kLargeScoreIncrementForLowPriorityStarvation else 0),
                   normal_priority_starvation_score := 0\<rparr>)
        else if priority = kLowPriority \<or> priority = kBestEffortPriority then
          Some (ts\<lparr>low_priority_starvation_score := 0, high_priority_starvation_score := 0,
                   normal_priority_starvation_score := 0\<rparr>)
        else None);
     Some (ts\<lparr>immediate_starvation_count :=
       (if chose_delayed_over_immediate then immediate_starvation_count ts + 1 else 0)\<rparr>)
   }"

definition ts_SelectWorkQueueToService ::
  "TaskQueueSelector \<Rightarrow> ('w, 't) world \<Rightarrow> (TaskQueueSelector \<times> 'w option) option" where
  "ts_SelectWorkQueueToService ts s = do {
     (q, chose_delayed_over_immediate) \<leftarrow> ps_SelectWorkQueueToService ts s kQueuePriorityCount;
     (case q of
        None \<Rightarrow> Some (ts, None)
      | Some w \<Rightarrow> do {
          ts \<leftarrow> ts_DidSelectQueueWithPriority ts s (wq_set_index (w_wq s w)) chose_delayed_over_immediate;
          Some (ts, Some w)
        })
   }"

definition ts_AllEnabledWorkQueuesAreEmpty :: "('w, 't) world \<Rightarrow> bool" where
  "ts_AllEnabledWorkQueuesAreEmpty s =
     (\<forall>p \<in> set [kControlPriority..<kQueuePriorityCount].
        wqs_IsSetEmpty DelayedSets s p = Some True \<and> wqs_IsSetEmpty ImmediateSets s p = Some True)"

section \<open>What is chosen\<close>

text \<open>
  A queue may run a task at a priority; the priority the selector serves, as a function of the
  scores and of the priorities that have tasks; and what is promised of the queue it returns.
\<close>

definition has_tasks :: "('w, 't) world \<Rightarrow> nat \<Rightarrow> bool" where
  "has_tasks s p \<longleftrightarrow> (\<exists>sid w k. wq_place (w_wq s w) = Some (sid, p, k))"

definition served_priority :: "TaskQueueSelector \<Rightarrow> (nat \<Rightarrow> bool) \<Rightarrow> nat option" where
  "served_priority ts has =
     (if has 0 then Some 0
      else if 25 \<le> low_priority_starvation_score ts \<and> has 4 then Some 4
      else if 5 \<le> normal_priority_starvation_score ts \<and> has 3 then Some 3
      else if 3 \<le> high_priority_starvation_score ts \<and> has 2 then Some 2
      else find has [1, 2, 3, 4, 5])"

definition well_chosen :: "TaskQueueSelector \<Rightarrow> ('w, 't) world \<Rightarrow> nat \<Rightarrow> 'w \<Rightarrow> bool \<Rightarrow> bool" where
  "well_chosen ts s p w over \<longleftrightarrow>
     (let runs = \<lambda>sid w k. wq_place (w_wq s w) = Some (sid, p, k);
          starved = (3 \<le> immediate_starvation_count ts) in
      \<exists>sid k. runs sid w k \<and> (\<forall>w' k'. runs sid w' k' \<longrightarrow> k \<le> k')
        \<and> (sid = ImmediateSets \<longrightarrow> starved \<or> (\<forall>w' k'. runs DelayedSets w' k' \<longrightarrow> k < k'))
        \<and> (sid = DelayedSets \<longrightarrow> (\<forall>w' k'. runs ImmediateSets w' k' \<longrightarrow> \<not> starved \<and> k \<le> k'))
        \<and> (over \<longleftrightarrow> sid = DelayedSets \<and> (\<exists>w' k'. runs ImmediateSets w' k')))"

lemma lookup_cases:
  assumes "world_ok n s" "p < n"
  obtains (none) "wqs_GetOldestQueueInSet sid s p = Some None" "wqs_GetOldestQueueAndEnqueueOrderInSet sid s p = Some None"
      "\<And>w k. wq_place (w_wq s w) \<noteq> Some (sid, p, k)"
    | (some) w k where "wqs_GetOldestQueueInSet sid s p = Some (Some w)"
      "wqs_GetOldestQueueAndEnqueueOrderInSet sid s p = Some (Some (w, k))" "wq_place (w_wq s w) = Some (sid, p, k)"
      "\<And>w' k'. wq_place (w_wq s w') = Some (sid, p, k') \<Longrightarrow> k \<le> k'"
  using oldest_lookups [OF assms, of sid] by blast

lemma has_tasks_sets: "has_tasks s p \<longleftrightarrow> (\<exists>w k. wq_place (w_wq s w) = Some (ImmediateSets, p, k)) \<or> (\<exists>w k. wq_place (w_wq s w) = Some (DelayedSets, p, k))"
  unfolding has_tasks_def by (metis SetsId.exhaust)

lemma chose_immediate:
  assumes "wq_place (w_wq s w) = Some (ImmediateSets, p, k)"
    "\<And>w' k'. wq_place (w_wq s w') = Some (ImmediateSets, p, k') \<Longrightarrow> k \<le> k'"
    "3 \<le> immediate_starvation_count ts \<or> (\<forall>w' k'. wq_place (w_wq s w') = Some (DelayedSets, p, k') \<longrightarrow> k < k')"
  shows "well_chosen ts s p w False"
  unfolding well_chosen_def Let_def by (rule exI [of _ ImmediateSets], rule exI [of _ k]) (use assms in auto)

lemma chose_delayed:
  assumes "wq_place (w_wq s w) = Some (DelayedSets, p, k)"
    "\<And>w' k'. wq_place (w_wq s w') = Some (DelayedSets, p, k') \<Longrightarrow> k \<le> k'"
    "\<And>w' k'. wq_place (w_wq s w') = Some (ImmediateSets, p, k') \<Longrightarrow> immediate_starvation_count ts < 3 \<and> k \<le> k'"
    "over \<longleftrightarrow> (\<exists>w' k'. wq_place (w_wq s w') = Some (ImmediateSets, p, k'))"
  shows "well_chosen ts s p w over"
  unfolding well_chosen_def Let_def
proof (rule exI [of _ DelayedSets], rule exI [of _ k], intro conjI impI allI)
  show "over = (DelayedSets = DelayedSets \<and> (\<exists>w' k'. wq_place (w_wq s w') = Some (ImmediateSets, p, k')))" using assms(4) by simp
qed (use assms(1-3) in force)+

lemma Choose_spec:
  assumes ok: "world_ok n s" and p: "p < n"
  shows "\<exists>q over. ps_ChooseOldestWithPriority ts s p = Some (q, over) \<and> (q = None \<longleftrightarrow> \<not> has_tasks s p)
    \<and> (\<forall>w. q = Some w \<longrightarrow> well_chosen ts s p w over)"
proof (rule lookup_cases [OF ok p, of ImmediateSets])
  assume im: "wqs_GetOldestQueueInSet ImmediateSets s p = Some None"
    "wqs_GetOldestQueueAndEnqueueOrderInSet ImmediateSets s p = Some None"
    "\<And>w k. wq_place (w_wq s w) \<noteq> Some (ImmediateSets, p, k)"
  have choose: "ps_ChooseOldestWithPriority ts s p = do { q \<leftarrow> wqs_GetOldestQueueInSet DelayedSets s p; Some (q, False) }"
    using im(1,2) by (simp add: ps_ChooseOldestWithPriority_def ps_ChooseOldestImmediateOrDelayedTaskWithPriority_def)
  show ?thesis
  proof (rule lookup_cases [OF ok p, of DelayedSets])
    fix w k assume de: "wqs_GetOldestQueueInSet DelayedSets s p = Some (Some w)" "wq_place (w_wq s w) = Some (DelayedSets, p, k)"
      "\<And>w' k'. wq_place (w_wq s w') = Some (DelayedSets, p, k') \<Longrightarrow> k \<le> k'"
    have "well_chosen ts s p w False" by (rule chose_delayed [OF de(2,3)]) (use im(3) in auto)
    then show ?thesis using choose de(1,2) by (auto simp: has_tasks_sets)
  qed (use choose im(3) in \<open>auto simp: has_tasks_sets\<close>)
next
  fix w k assume im: "wqs_GetOldestQueueInSet ImmediateSets s p = Some (Some w)"
    "wqs_GetOldestQueueAndEnqueueOrderInSet ImmediateSets s p = Some (Some (w, k))"
    "wq_place (w_wq s w) = Some (ImmediateSets, p, k)"
    "\<And>w' k'. wq_place (w_wq s w') = Some (ImmediateSets, p, k') \<Longrightarrow> k \<le> k'"
  have has: "has_tasks s p" using im(3) by (auto simp: has_tasks_sets)
  show ?thesis
  proof (cases "3 \<le> immediate_starvation_count ts")
    case True
    then have "well_chosen ts s p w False" by (intro chose_immediate [OF im(3,4)]) auto
    then show ?thesis using True im(1) has by (auto simp: ps_ChooseOldestWithPriority_def kMaxDelayedStarvationTasks_def)
  next
    case False
    show ?thesis
    proof (rule lookup_cases [OF ok p, of DelayedSets])
      assume de: "wqs_GetOldestQueueAndEnqueueOrderInSet DelayedSets s p = Some None"
        "\<And>w k. wq_place (w_wq s w) \<noteq> Some (DelayedSets, p, k)"
      have "well_chosen ts s p w False" by (rule chose_immediate [OF im(3,4)]) (use de(2) in auto)
      then show ?thesis using False im(2) de(1) has
        by (auto simp: ps_ChooseOldestWithPriority_def ps_ChooseOldestImmediateOrDelayedTaskWithPriority_def kMaxDelayedStarvationTasks_def)
    next
      fix w' k' assume de: "wqs_GetOldestQueueAndEnqueueOrderInSet DelayedSets s p = Some (Some (w', k'))"
        "wq_place (w_wq s w') = Some (DelayedSets, p, k')"
        "\<And>v l. wq_place (w_wq s v) = Some (DelayedSets, p, l) \<Longrightarrow> k' \<le> l"
      have "k < k' \<Longrightarrow> well_chosen ts s p w False"
        by (rule chose_immediate [OF im(3,4)]) (use de(3) less_le_trans in blast)+
      moreover have "\<not> k < k' \<Longrightarrow> well_chosen ts s p w' True"
        by (rule chose_delayed [OF de(2,3)]) (use False im(3,4) in \<open>fastforce+\<close>)
      ultimately show ?thesis using False im(2) de(1) has
        by (auto simp: ps_ChooseOldestWithPriority_def ps_ChooseOldestImmediateOrDelayedTaskWithPriority_def kMaxDelayedStarvationTasks_def)
    qed
  qed
qed


lemma first_of_spec:
  assumes "world_ok n s" and "\<forall>(guard, p) \<in> set candidates. guard \<longrightarrow> p < n"
  shows "\<exists>q over. ps_first_of ts s candidates = Some (q, over)
    \<and> (case find (\<lambda>(guard, p). guard \<and> has_tasks s p) candidates of
         None \<Rightarrow> q = None
       | Some (guard, p) \<Rightarrow> \<exists>w. q = Some w \<and> well_chosen ts s p w over)"
  using assms(2)
proof (induction candidates)
  case (Cons c candidates)
  obtain guard p where c: "c = (guard, p)" by fastforce
  show ?case
  proof (cases guard)
    case True
    then obtain q over where q: "ps_ChooseOldestWithPriority ts s p = Some (q, over)" "q = None \<longleftrightarrow> \<not> has_tasks s p"
      "\<forall>w. q = Some w \<longrightarrow> well_chosen ts s p w over"
      using Choose_spec [OF assms(1), of p ts] Cons.prems c by auto
    then show ?thesis using Cons c True by (cases q) auto
  qed (use Cons c in auto)
qed auto

lemma Select_spec:
  assumes "world_ok 6 s"
  shows "\<exists>q over. ps_SelectWorkQueueToService ts s kQueuePriorityCount = Some (q, over)
    \<and> (case served_priority ts (has_tasks s) of
         None \<Rightarrow> q = None
       | Some p \<Rightarrow> \<exists>w. q = Some w \<and> well_chosen ts s p w over)"
proof -
  let ?cs = "[(True, 0), (25 \<le> low_priority_starvation_score ts, 4), (5 \<le> normal_priority_starvation_score ts, 3),
    (3 \<le> high_priority_starvation_score ts, 2), (True, 1), (True, 2), (True, 3), (True, 4), (True, 5)] :: (bool \<times> nat) list"
  have cs: "ps_SelectWorkQueueToService ts s kQueuePriorityCount = ps_first_of ts s ?cs"
    unfolding ps_SelectWorkQueueToService_def by (simp add: priority_defs score_defs upt_rec numeral_eq_Suc del: ps_first_of.simps)
  have served: "served_priority ts (has_tasks s) = map_option snd (find (\<lambda>(guard, p). guard \<and> has_tasks s p) ?cs)"
    by (simp add: served_priority_def)
  have "\<exists>q over. ps_first_of ts s ?cs = Some (q, over)
    \<and> (case find (\<lambda>(guard, p). guard \<and> has_tasks s p) ?cs of
         None \<Rightarrow> q = None
       | Some (guard, p) \<Rightarrow> \<exists>w. q = Some w \<and> well_chosen ts s p w over)"
    by (rule first_of_spec [OF assms]) auto
  then show ?thesis unfolding cs served by (auto split: option.splits simp del: ps_first_of.simps find.simps)
qed

lemma served_has_tasks:
  assumes "served_priority ts (has_tasks s) = Some p"
  shows "has_tasks s p \<and> p < 6"
  using assms unfolding served_priority_def by (auto split: if_splits)

lemma HasTasks_spec:
  assumes "world_ok n s" "p < n"
  shows "ts_HasTasksWithPriority s p = Some (has_tasks s p)"
proof -
  have h: "heaps_rep n s (\<lambda>w. wq_place (w_wq s w))" using assms(1) by (simp add: world_ok_def)
  have "wqs_IsSetEmpty sid s p = Some (\<forall>w k. wq_place (w_wq s w) \<noteq> Some (sid, p, k))" for sid
    using heaps_empty [OF h assms(2), of sid] heaps_Min(1) [OF h assms(2), of sid] world_okD(3) [OF assms(1), of sid] assms(2)
    by (auto simp: wqs_IsSetEmpty_def)
  then show ?thesis by (auto simp: ts_HasTasksWithPriority_def has_tasks_sets)
qed

lemma served_exists: "has p \<Longrightarrow> p < 6 \<Longrightarrow> \<exists>p'. served_priority ts has = Some p'"
proof -
  assume "has p" "p < 6"
  moreover have "p = 0 \<or> p = 1 \<or> p = 2 \<or> p = 3 \<or> p = 4 \<or> p = 5" using \<open>p < 6\<close> by auto
  ultimately show ?thesis unfolding served_priority_def by auto
qed

lemma AllEmpty_spec:
  assumes "world_ok 6 s"
  shows "ts_AllEnabledWorkQueuesAreEmpty s \<longleftrightarrow> served_priority ts (has_tasks s) = None"
proof -
  have e: "wqs_IsSetEmpty DelayedSets s p = Some True \<and> wqs_IsSetEmpty ImmediateSets s p = Some True \<longleftrightarrow> \<not> has_tasks s p"
    if "p < 6" for p
    using HasTasks_spec [OF assms that] by (auto simp: ts_HasTasksWithPriority_def bind_eq_Some_conv)
  have "ts_AllEnabledWorkQueuesAreEmpty s \<longleftrightarrow> (\<forall>p < 6. \<not> has_tasks s p)"
    unfolding ts_AllEnabledWorkQueuesAreEmpty_def using e by (auto simp: priority_defs)
  also have "\<dots> \<longleftrightarrow> served_priority ts (has_tasks s) = None"
    using served_exists [of "has_tasks s"] served_has_tasks [of ts s] by (metis not_None_eq)
  finally show ?thesis .
qed

text \<open>The scores after a queue of a priority was served.\<close>

definition next_scores :: "TaskQueueSelector \<Rightarrow> (nat \<Rightarrow> bool) \<Rightarrow> nat \<Rightarrow> bool \<Rightarrow> TaskQueueSelector" where
  "next_scores ts has p over =
     (let low = low_priority_starvation_score ts; normal = normal_priority_starvation_score ts;
          high = high_priority_starvation_score ts in
      \<lparr>immediate_starvation_count = (if over then immediate_starvation_count ts + 1 else 0),
       high_priority_starvation_score =
         (if p = 1 \<and> has 2 then high + 1 else if p \<in> {2, 4, 5} then 0 else high),
       normal_priority_starvation_score =
         (if p = 1 \<and> has 3 then normal + 1 else if p = 2 \<and> has 3 then normal + 2 else if p \<in> {3, 4, 5} then 0 else normal),
       low_priority_starvation_score =
         (if p = 1 \<and> has 4 then low + 1 else if p \<in> {2, 3} \<and> has 4 then low + 5 else if p \<in> {4, 5} then 0 else low)\<rparr>)"

lemma DidSelect_spec:
  assumes "world_ok 6 s" "p < 6"
  shows "ts_DidSelectQueueWithPriority ts s p over = Some (next_scores ts (has_tasks s) p over)"
proof -
  have "p = 0 \<or> p = 1 \<or> p = 2 \<or> p = 3 \<or> p = 4 \<or> p = 5" using assms(2) by auto
  then show ?thesis using HasTasks_spec [OF assms(1)]
    by (elim disjE) (simp_all add: ts_DidSelectQueueWithPriority_def next_scores_def Let_def priority_defs score_defs)
qed

lemma selection_spec:
  assumes "world_ok 6 s"
  shows "case served_priority ts (has_tasks s) of
      None \<Rightarrow> ts_SelectWorkQueueToService ts s = Some (ts, None)
    | Some p \<Rightarrow> \<exists>w over. well_chosen ts s p w over
        \<and> ts_SelectWorkQueueToService ts s = Some (next_scores ts (has_tasks s) p over, Some w)"
proof -
  obtain q over where q: "ps_SelectWorkQueueToService ts s kQueuePriorityCount = Some (q, over)"
    "case served_priority ts (has_tasks s) of None \<Rightarrow> q = None | Some p \<Rightarrow> \<exists>w. q = Some w \<and> well_chosen ts s p w over"
    using Select_spec [OF assms, of ts] by blast
  show ?thesis
  proof (cases "served_priority ts (has_tasks s)")
    case None
    then show ?thesis using q by (simp add: ts_SelectWorkQueueToService_def)
  next
    case (Some p)
    obtain w where w: "q = Some w" "well_chosen ts s p w over" using q(2) Some by auto
    have "wq_set_index (w_wq s w) = p" using w(2) by (auto simp: well_chosen_def Let_def place_Some)
    then have "ts_SelectWorkQueueToService ts s = Some (next_scores ts (has_tasks s) p over, Some w)"
      using q(1) w(1) DidSelect_spec [OF assms] served_has_tasks [OF Some] by (simp add: ts_SelectWorkQueueToService_def)
    then show ?thesis using w(2) Some by auto
  qed
qed


section \<open>Scores stay small\<close>

definition scores_ok :: "TaskQueueSelector \<Rightarrow> bool" where
  "scores_ok ts \<longleftrightarrow> low_priority_starvation_score ts \<le> 29 \<and> normal_priority_starvation_score ts \<le> 6
    \<and> high_priority_starvation_score ts \<le> 3 \<and> immediate_starvation_count ts \<le> 3"

lemma served_cases:
  assumes "served_priority ts has = Some p"
  shows "p = 0 \<and> has 0
    \<or> p = 1 \<and> has 1 \<and> \<not> has 0 \<and> (has 4 \<longrightarrow> low_priority_starvation_score ts < 25)
        \<and> (has 3 \<longrightarrow> normal_priority_starvation_score ts < 5) \<and> (has 2 \<longrightarrow> high_priority_starvation_score ts < 3)
    \<or> p = 2 \<and> has 2 \<and> \<not> has 0 \<and> (has 4 \<longrightarrow> low_priority_starvation_score ts < 25)
        \<and> (has 3 \<longrightarrow> normal_priority_starvation_score ts < 5)
    \<or> p = 3 \<and> has 3 \<and> \<not> has 0 \<and> (has 4 \<longrightarrow> low_priority_starvation_score ts < 25)
        \<and> (normal_priority_starvation_score ts < 5 \<longrightarrow> \<not> has 1 \<and> \<not> has 2)
    \<or> p = 4 \<and> has 4 \<and> \<not> has 0 \<and> (low_priority_starvation_score ts < 25 \<longrightarrow> \<not> has 1 \<and> \<not> has 2 \<and> \<not> has 3)
    \<or> p = 5 \<and> has 5 \<and> \<not> has 0 \<and> \<not> has 1 \<and> \<not> has 2 \<and> \<not> has 3 \<and> \<not> has 4"
  using assms unfolding served_priority_def by (auto split: if_splits)

lemma next_scores_ok:
  assumes "served_priority ts has = Some p" "scores_ok ts" "over \<longrightarrow> immediate_starvation_count ts < 3"
  shows "scores_ok (next_scores ts has p over)"
  using served_cases [OF assms(1)] assms(2,3)
  by (elim disjE) (auto simp: scores_ok_def next_scores_def Let_def)

lemma well_chosen_over: "well_chosen ts s p w True \<Longrightarrow> immediate_starvation_count ts < 3"
  unfolding well_chosen_def Let_def by (meson not_le)

section \<open>No priority above best effort starves\<close>

text \<open>
  A run of selections, each on the state of the queues at that moment: between two selections
  tasks may be posted, run and cancelled and queues may come and go in any way.
\<close>

fun select_run :: "TaskQueueSelector \<Rightarrow> ('w, 't) world list \<Rightarrow> (TaskQueueSelector \<times> 'w option list) option" where
  "select_run ts [] = Some (ts, [])"
| "select_run ts (s # ss) = do {
     (ts, q) \<leftarrow> ts_SelectWorkQueueToService ts s;
     (ts, qs) \<leftarrow> select_run ts ss;
     Some (ts, q # qs)
   }"

definition starvation_bound :: "nat \<Rightarrow> nat" where
  "starvation_bound p = (if p = kHighPriority then 9 else if p = kNormalPriority then 12 else 26)"

text \<open>
  How many selections may still pass before a priority is served: it drops with each selection
  that serves another one.
\<close>

definition rank :: "nat \<Rightarrow> TaskQueueSelector \<Rightarrow> nat" where
  "rank p ts =
     (let low = low_priority_starvation_score ts; normal = normal_priority_starvation_score ts;
          high = high_priority_starvation_score ts in
      if p = 4 then 25 - low
      else if p = 3 then (if low \<le> 3 * normal \<and> normal \<le> 6 then 5 - normal else 6 + (5 - normal))
      else if low \<le> high \<and> normal \<le> high \<and> high \<le> 3 then 3 - high
      else 4 + (3 - high) + (if 5 \<le> normal + (3 - high) then 1 else 0))"

lemma rank_bound: "p \<in> {2, 3, 4} \<Longrightarrow> rank p ts < starvation_bound p"
  by (auto simp: rank_def starvation_bound_def priority_defs Let_def)

lemma rank_drops_high:
  assumes "served_priority ts has = Some p'" "has 2" "\<not> has 0" "p' \<noteq> 2"
  shows "rank 2 (next_scores ts has p' over) < rank 2 ts"
proof -
  obtain l n h where f: "low_priority_starvation_score ts = l" "normal_priority_starvation_score ts = n"
    "high_priority_starvation_score ts = h" by blast
  consider "p' = 1" "has 4 \<longrightarrow> l < 25" "has 3 \<longrightarrow> n < 5" "h < 3" | "p' = 3" "5 \<le> n" | "p' = 4" "25 \<le> l"
    using served_cases [OF assms(1)] assms f by fastforce
  then show ?thesis
  proof cases
    case 1
    then show ?thesis using f assms(2)
      by (cases "has 3"; cases "has 4") (auto simp: rank_def next_scores_def Let_def)
  next
    case 2
    then show ?thesis using f assms(2)
      by (cases "has 4") (auto simp: rank_def next_scores_def Let_def)
  next
    case 3
    then show ?thesis using f assms by (simp add: rank_def next_scores_def Let_def)
  qed
qed

lemma rank_drops_normal:
  assumes "served_priority ts has = Some p'" "has 3" "\<not> has 0" "p' \<noteq> 3"
  shows "rank 3 (next_scores ts has p' over) < rank 3 ts"
proof -
  obtain l n where f: "low_priority_starvation_score ts = l" "normal_priority_starvation_score ts = n" by blast
  consider "p' = 1" "n < 5" | "p' = 2" "n < 5" | "p' = 4" "25 \<le> l"
    using served_cases [OF assms(1)] assms f by fastforce
  then show ?thesis
  proof cases
    case 1
    then show ?thesis using f assms(2)
      by (cases "has 3"; cases "has 4") (auto simp: rank_def next_scores_def Let_def)
  next
    case 2
    then show ?thesis using f assms(2)
      by (cases "has 4") (auto simp: rank_def next_scores_def Let_def)
  next
    case 3
    then show ?thesis using f assms by (simp add: rank_def next_scores_def Let_def)
  qed
qed

lemma rank_drops_low:
  assumes "served_priority ts has = Some p'" "has 4" "\<not> has 0" "p' \<noteq> 4"
  shows "rank 4 (next_scores ts has p' over) < rank 4 ts"
proof -
  have "p' \<in> {1, 2, 3}" "low_priority_starvation_score ts < 25" using served_cases [OF assms(1)] assms by auto
  then show ?thesis using assms(2) by (auto simp: rank_def next_scores_def Let_def)
qed

lemma rank_drops:
  assumes "served_priority ts has = Some p'" and p: "p \<in> {2, 3, 4}" "has p" "\<not> has 0" "p' \<noteq> p"
  shows "rank p (next_scores ts has p' over) < rank p ts"
  using p rank_drops_high [OF assms(1)] rank_drops_normal [OF assms(1)] rank_drops_low [OF assms(1)] by blast

lemma select_step:
  assumes "world_ok 6 s" "has_tasks s p" "p < 6"
  obtains p' w over where "served_priority ts (has_tasks s) = Some p'" "wq_set_index (w_wq s w) = p'"
    "ts_SelectWorkQueueToService ts s = Some (next_scores ts (has_tasks s) p' over, Some w)"
proof -
  obtain p' where p': "served_priority ts (has_tasks s) = Some p'" using served_exists assms(2,3) by blast
  obtain w over where w: "well_chosen ts s p' w over"
    "ts_SelectWorkQueueToService ts s = Some (next_scores ts (has_tasks s) p' over, Some w)"
    using selection_spec [OF assms(1), of ts] p' by auto
  then show thesis using that p' by (auto simp: well_chosen_def Let_def place_Some)
qed

lemma select_run_returns:
  assumes "\<forall>s \<in> set ss. world_ok 6 s"
  shows "\<exists>ts' qs. select_run ts ss = Some (ts', qs) \<and> length qs = length ss"
  using assms
proof (induction ss arbitrary: ts)
  case (Cons s ss)
  have ok: "world_ok 6 s" using Cons.prems by simp
  have "\<exists>ts' q. ts_SelectWorkQueueToService ts s = Some (ts', q)"
    using selection_spec [OF ok, of ts] by (auto split: option.splits)
  then obtain ts1 q where q: "ts_SelectWorkQueueToService ts s = Some (ts1, q)" by blast
  obtain ts' qs where "select_run ts1 ss = Some (ts', qs)" "length qs = length ss" using Cons by fastforce
  then show ?case using q by simp
qed simp

lemma rank_selects:
  assumes "\<forall>s \<in> set ss. world_ok 6 s \<and> has_tasks s p \<and> \<not> has_tasks s 0" "p \<in> {2, 3, 4}" "rank p ts < length ss"
    "select_run ts ss = Some (ts', qs)"
  shows "\<exists>i < length ss. \<exists>w. qs ! i = Some w \<and> wq_set_index (w_wq (ss ! i) w) = p"
  using assms
proof (induction ss arbitrary: ts qs)
  case (Cons s ss)
  have s: "world_ok 6 s" "has_tasks s p" "\<not> has_tasks s 0" using Cons.prems(1) by auto
  have p6: "p < 6" using assms(2) by auto
  obtain p' w over where sel: "served_priority ts (has_tasks s) = Some p'" "wq_set_index (w_wq s w) = p'"
    "ts_SelectWorkQueueToService ts s = Some (next_scores ts (has_tasks s) p' over, Some w)"
    by (rule select_step [OF s(1,2) p6])
  obtain qs' where qs: "qs = Some w # qs'" "select_run (next_scores ts (has_tasks s) p' over) ss = Some (ts', qs')"
    using Cons.prems(4) sel(3) by (auto simp: bind_eq_Some_conv)
  show ?case
  proof (cases "p' = p")
    case True
    then show ?thesis using sel(2) qs(1) by auto
  next
    case False
    have "rank p (next_scores ts (has_tasks s) p' over) < length ss"
      using rank_drops [OF sel(1) assms(2) s(2,3) False, of over] Cons.prems(3) by simp
    then obtain i w where "i < length ss" "qs' ! i = Some w" "wq_set_index (w_wq (ss ! i) w) = p"
      using Cons.IH [OF _ assms(2) _ qs(2)] Cons.prems(1) by auto
    then show ?thesis using qs(1) by (intro exI [of _ "Suc i"]) auto
  qed
qed simp


section \<open>Adding, removing and re-prioritising task queues\<close>

text \<open>What the calls do to the two work queues of a task queue; a task queue in the sets at a priority.\<close>

definition v_both :: "('w, 't) queues \<Rightarrow> 't \<Rightarrow> (SetsId \<Rightarrow> 't WorkQueue \<Rightarrow> 't WorkQueue) \<Rightarrow> ('w, 't) queues" where
  "v_both v t f = v_put (v_put v (tq_delayed (v_tq v t)) (f DelayedSets)) (tq_immediate (v_tq v t)) (f ImmediateSets)"

definition tq_in_sets :: "('w, 't) queues \<Rightarrow> 't \<Rightarrow> nat \<Rightarrow> bool" where
  "tq_in_sets v t p \<longleftrightarrow>
     (let d = v_wq v (tq_delayed (v_tq v t)); i = v_wq v (tq_immediate (v_tq v t)) in
      tq_delayed (v_tq v t) \<noteq> tq_immediate (v_tq v t) \<and> wq_sets d = Some DelayedSets \<and> wq_sets i = Some ImmediateSets
      \<and> wq_set_index d = p \<and> wq_set_index i = p)"

definition tq_in_no_sets :: "('w, 't) queues \<Rightarrow> 't \<Rightarrow> nat \<Rightarrow> bool" where
  "tq_in_no_sets v t p \<longleftrightarrow>
     (let d = v_wq v (tq_delayed (v_tq v t)); i = v_wq v (tq_immediate (v_tq v t)) in
      tq_delayed (v_tq v t) \<noteq> tq_immediate (v_tq v t) \<and> wq_sets d = None \<and> wq_sets i = None
      \<and> wq_set_index d = p \<and> wq_set_index i = p)"

lemma put_fields [simp]:
  "v_tq (v_put v w f) = v_tq v"
  "v_wq (v_put v w f) = (v_wq v)(w := f (v_wq v w))"
  by (simp_all add: v_put_def)

lemma CheckContains_spec:
  assumes "w_rep n s v"
  shows "tq_in_sets v t p \<Longrightarrow> ps_CheckContainsQueueForTest s t = Some True"
    and "tq_in_no_sets v t p \<Longrightarrow> ps_CheckContainsQueueForTest s t = Some False"
  using ContainsWorkQueueForTest_spec [OF rep_view(1) [OF assms]] rep_view(2,3) [OF assms]
  by (auto simp: ps_CheckContainsQueueForTest_def tq_in_sets_def tq_in_no_sets_def Let_def)

lemma GetQueuePriority_spec:
  assumes "w_rep n s v"
  shows "tq_in_sets v t p \<Longrightarrow> tq_GetQueuePriority s t = Some p" "tq_in_no_sets v t p \<Longrightarrow> tq_GetQueuePriority s t = Some p"
  using rep_view(2,3) [OF assms] by (auto simp: tq_GetQueuePriority_def tq_in_sets_def tq_in_no_sets_def Let_def)

lemma sets_step_match:
  assumes "w_rep n s v"
  shows "wq_sets (v_wq v w) = None \<Longrightarrow> i < n \<Longrightarrow>
      \<exists>s'. wqs_AddQueue sid s w i = Some s' \<and> w_rep n s' (v_put v w (\<lambda>q. q\<lparr>wq_sets := Some sid, wq_set_index := i\<rparr>))"
    and "wq_sets (v_wq v w) = Some sid \<Longrightarrow>
      \<exists>s'. wqs_RemoveQueue sid s w = Some s' \<and> w_rep n s' (v_put v w (\<lambda>q. q\<lparr>wq_sets := None\<rparr>))"
    and "wq_sets (v_wq v w) = Some sid \<Longrightarrow> i < n \<Longrightarrow> i \<noteq> wq_set_index (v_wq v w) \<Longrightarrow>
      \<exists>s'. wqs_ChangeSetIndex sid s w i = Some s' \<and> w_rep n s' (v_put v w (\<lambda>q. q\<lparr>wq_set_index := i\<rparr>))"
  using AddQueue_match [OF assms, of sid w i] RemoveQueue_match [OF assms, of sid w] ChangeSetIndex_match [OF assms, of sid w i]
  by (auto simp: bind_eq_Some_conv)

lemma both_match:
  assumes rep: "w_rep n s v"
    and step: "\<And>s v w sid. w_rep n s v \<Longrightarrow> P sid (v_wq v w) \<Longrightarrow> \<exists>s'. g sid s w = Some s' \<and> w_rep n s' (v_put v w (f sid))"
    and P: "P DelayedSets (v_wq v (tq_delayed (v_tq v t)))" "P ImmediateSets (v_wq v (tq_immediate (v_tq v t)))"
    and ne: "tq_delayed (v_tq v t) \<noteq> tq_immediate (v_tq v t)"
  shows "\<exists>s1 s'. g DelayedSets s (tq_delayed (w_tq s t)) = Some s1 \<and> g ImmediateSets s1 (tq_immediate (w_tq s1 t)) = Some s'
    \<and> w_rep n s' (v_both v t f)"
proof -
  obtain s1 where s1: "g DelayedSets s (tq_delayed (w_tq s t)) = Some s1"
    "w_rep n s1 (v_put v (tq_delayed (v_tq v t)) (f DelayedSets))"
    using step [OF rep P(1)] rep_view(3) [OF rep] by auto
  note v1 = rep_view(3) [OF s1(2)]
  obtain s' where "g ImmediateSets s1 (tq_immediate (w_tq s1 t)) = Some s'" "w_rep n s' (v_both v t f)"
    using step [OF s1(2), of ImmediateSets "tq_immediate (v_tq v t)"] P(2) ne v1 by (auto simp: v_both_def)
  then show ?thesis using s1(1) by blast
qed

lemma AddQueue_both:
  assumes rep: "w_rep n s v" and no: "tq_in_no_sets v t p0" and p: "p < n"
  shows "\<exists>s'. ps_AddQueue s t p = Some s' \<and> w_rep n s' (v_both v t (\<lambda>sid q. q\<lparr>wq_sets := Some sid, wq_set_index := p\<rparr>))"
proof -
  have "\<exists>s1 s'. wqs_AddQueue DelayedSets s (tq_delayed (w_tq s t)) p = Some s1
      \<and> wqs_AddQueue ImmediateSets s1 (tq_immediate (w_tq s1 t)) p = Some s' \<and> w_rep n s' (v_both v t (\<lambda>sid q. q\<lparr>wq_sets := Some sid, wq_set_index := p\<rparr>))"
    by (rule both_match [OF rep, where P = "\<lambda>_ q. wq_sets q = None" and g = "\<lambda>sid s w. wqs_AddQueue sid s w p" and f = "\<lambda>sid q. q\<lparr>wq_sets := Some sid, wq_set_index := p\<rparr>"])
      (use sets_step_match(1) no p in \<open>auto simp: tq_in_no_sets_def Let_def\<close>)
  then obtain s1 s' where s': "wqs_AddQueue DelayedSets s (tq_delayed (w_tq s t)) p = Some s1"
    "wqs_AddQueue ImmediateSets s1 (tq_immediate (w_tq s1 t)) p = Some s'" "w_rep n s' (v_both v t (\<lambda>sid q. q\<lparr>wq_sets := Some sid, wq_set_index := p\<rparr>))"
    by blast
  have "tq_in_sets (v_both v t (\<lambda>sid q. q\<lparr>wq_sets := Some sid, wq_set_index := p\<rparr>)) t p"
    using no by (simp add: tq_in_sets_def tq_in_no_sets_def v_both_def Let_def)
  then show ?thesis
    using s' CheckContains_spec(2) [OF rep no] CheckContains_spec(1) [OF s'(3)] by (simp add: ps_AddQueue_def)
qed

lemma RemoveQueue_both:
  assumes rep: "w_rep n s v" and in_sets: "tq_in_sets v t p"
  shows "\<exists>s'. ps_RemoveQueue s t = Some s' \<and> w_rep n s' (v_both v t (\<lambda>sid q. q\<lparr>wq_sets := None\<rparr>))"
proof -
  have "\<exists>s1 s'. wqs_RemoveQueue DelayedSets s (tq_delayed (w_tq s t)) = Some s1
      \<and> wqs_RemoveQueue ImmediateSets s1 (tq_immediate (w_tq s1 t)) = Some s' \<and> w_rep n s' (v_both v t (\<lambda>sid q. q\<lparr>wq_sets := None\<rparr>))"
    by (rule both_match [OF rep, where P = "\<lambda>sid q. wq_sets q = Some sid" and g = "wqs_RemoveQueue" and f = "\<lambda>sid q. q\<lparr>wq_sets := None\<rparr>"])
      (use sets_step_match(2) in_sets in \<open>auto simp: tq_in_sets_def Let_def\<close>)
  then obtain s1 s' where s': "wqs_RemoveQueue DelayedSets s (tq_delayed (w_tq s t)) = Some s1"
    "wqs_RemoveQueue ImmediateSets s1 (tq_immediate (w_tq s1 t)) = Some s'" "w_rep n s' (v_both v t (\<lambda>sid q. q\<lparr>wq_sets := None\<rparr>))"
    by blast
  have "tq_in_no_sets (v_both v t (\<lambda>sid q. q\<lparr>wq_sets := None\<rparr>)) t p"
    using in_sets by (simp add: tq_in_sets_def tq_in_no_sets_def v_both_def Let_def)
  then show ?thesis
    using s' CheckContains_spec(1) [OF rep in_sets] CheckContains_spec(2) [OF s'(3)] by (simp add: ps_RemoveQueue_def)
qed

lemma ChangeSetIndex_both:
  assumes rep: "w_rep n s v" and in_sets: "tq_in_sets v t p0" and p: "p < n" "p \<noteq> p0"
  shows "\<exists>s'. ps_ChangeSetIndex s t p = Some s' \<and> w_rep n s' (v_both v t (\<lambda>sid q. q\<lparr>wq_set_index := p\<rparr>))"
proof -
  have "\<exists>s1 s'. wqs_ChangeSetIndex DelayedSets s (tq_delayed (w_tq s t)) p = Some s1
      \<and> wqs_ChangeSetIndex ImmediateSets s1 (tq_immediate (w_tq s1 t)) p = Some s' \<and> w_rep n s' (v_both v t (\<lambda>sid q. q\<lparr>wq_set_index := p\<rparr>))"
    by (rule both_match [OF rep, where P = "\<lambda>sid q. wq_sets q = Some sid \<and> p \<noteq> wq_set_index q" and g = "\<lambda>sid s w. wqs_ChangeSetIndex sid s w p" and f = "\<lambda>sid q. q\<lparr>wq_set_index := p\<rparr>"])
      (use sets_step_match(3) in_sets p in \<open>auto simp: tq_in_sets_def Let_def\<close>)
  then obtain s1 s' where s': "wqs_ChangeSetIndex DelayedSets s (tq_delayed (w_tq s t)) p = Some s1"
    "wqs_ChangeSetIndex ImmediateSets s1 (tq_immediate (w_tq s1 t)) p = Some s'" "w_rep n s' (v_both v t (\<lambda>sid q. q\<lparr>wq_set_index := p\<rparr>))"
    by blast
  have "tq_in_sets (v_both v t (\<lambda>sid q. q\<lparr>wq_set_index := p\<rparr>)) t p"
    using in_sets by (auto simp: tq_in_sets_def v_both_def Let_def)
  then show ?thesis
    using s' CheckContains_spec(1) [OF rep in_sets] CheckContains_spec(1) [OF s'(3)] by (simp add: ps_ChangeSetIndex_def)
qed


lemma SetPriority_disabled:
  assumes rep: "w_rep n s v" and no: "tq_in_no_sets v t p0" and p: "p < 6"
  shows "\<exists>s'. ts_SetQueuePriority False s t p = Some s' \<and> w_rep n s' (v_both v t (\<lambda>sid q. q\<lparr>wq_set_index := p\<rparr>))"
proof -
  let ?set = "\<lambda>q. q\<lparr>wq_set_index := p\<rparr>" and ?d = "tq_delayed (w_tq s t)" and ?i = "tq_immediate (w_tq s t)"
  let ?s1 = "w_upd s ?d ?set" and ?v1 = "v_put v (tq_delayed (v_tq v t)) ?set"
  note r = rep_view [OF rep]
  have settled: "w_rep n (w_upd s w ?set) (v_put v w ?set)"
    if "w_rep n s v" "wq_sets (v_wq v w) = None" for s :: "('a, 'b) world" and v w
  proof (rule rep_put [OF that(1) _ same_refl])
    have "wq_place (?set q) = None" if "wq_sets q = None" for q :: "'b WorkQueue" using that by (simp add: wq_place_def)
    then have "nearly_ok n (w_upd s w ?set) w (\<lambda>w. wq_place (w_wq s w))"
      using that rep_view(1,2) [OF that(1)] by (intro world_upd) (auto simp: world_ok_def)
    then show "world_ok n (w_upd s w ?set)"
      using that(2) rep_view(2) [OF that(1)] by (elim nearly_settled_now) (simp add: wq_place_def)
  qed simp
  have rep1: "w_rep n ?s1 ?v1" using settled [OF rep] no r(3) by (simp add: tq_in_no_sets_def Let_def)
  have rep2: "w_rep n (w_upd ?s1 ?i ?set) (v_both v t (\<lambda>sid q. q\<lparr>wq_set_index := p\<rparr>))"
    using settled [OF rep1, of ?i] no r(3) by (simp add: tq_in_no_sets_def Let_def v_both_def)
  have "tq_in_no_sets (v_both v t (\<lambda>sid q. q\<lparr>wq_set_index := p\<rparr>)) t p"
    using no by (auto simp: tq_in_no_sets_def v_both_def Let_def)
  then show ?thesis
    using rep2 GetQueuePriority_spec(2) [OF rep2] p by (simp add: ts_SetQueuePriority_def kQueuePriorityCount_def)
qed

lemma both_both:
  assumes "tq_delayed (v_tq v t) \<noteq> tq_immediate (v_tq v t)"
  shows "v_both (v_both v t f) t g = v_both v t (\<lambda>sid q. g sid (f sid q))"
  using assms by (auto simp: v_both_def v_put_def fun_upd_twist)

lemma same_sets: "wq_sets q = Some sid \<Longrightarrow> q\<lparr>wq_sets := Some sid, wq_set_index := p\<rparr> = q\<lparr>wq_set_index := p\<rparr>"
  by (cases q) simp

text \<open>
  A concrete run: one task queue with the work queues 0 (immediate) and 1 (delayed), enabled at
  low priority, with a task posted and moved to the immediate queue.
\<close>

definition low_world_run :: "((nat, unit) world \<times> wq_out list) option" where
  "low_world_run = run_ops wq_step (w_init 6 (\<lambda>_. ()) (\<lambda>w. if w = 0 then kImmediate else kDelayed) (\<lambda>_. 0) (\<lambda>_. 1))
     [OpAddQueue DelayedSets 1 kLowPriority, OpAddQueue ImmediateSets 0 kLowPriority, OpPost () 7 False True, OpReload 0]"

lemma low_world:
  obtains s v outs where "low_world_run = Some (s, outs)" "w_rep 6 s v" "has_tasks s kLowPriority" "\<not> has_tasks s kControlPriority"
    "tq_in_sets v () kLowPriority" "served_priority ts_init (has_tasks s) = Some kLowPriority"
    "\<And>w x. wq_place (w_wq s w) = Some x \<Longrightarrow> w = 0"
proof -
  let ?s0 = "w_init 6 (\<lambda>_. ()) (\<lambda>w. if w = 0 then kImmediate else kDelayed) (\<lambda>_. 0) (\<lambda>_. 1 :: nat)"
  let ?t = "\<lparr>t_enqueue_order = 2, t_delayed_run_time = 7, t_cancelled = False, t_nestable = True\<rparr>"
  have "\<exists>v outs. run_ops (v_step 6) \<lparr>v_wq = w_view ?s0, v_tq = w_tq ?s0, v_next = eo_first\<rparr>
      [OpAddQueue DelayedSets 1 kLowPriority, OpAddQueue ImmediateSets 0 kLowPriority, OpPost () 7 False True, OpReload 0] = Some (v, outs)
    \<and> tq_in_sets v () kLowPriority
    \<and> (\<forall>w. wq_place (v_wq v w) = (if w = 0 then Some (ImmediateSets, 4, 2) else None))"
    by (simp add: w_init_def w_view_def wq_init_def v_put_def v_reload_def fence_ahead_def wq_place_def wq_runnable_def tq_in_sets_def
        wq_BlockedByFence_def eo_none_def eo_first_def Let_def priority_defs)
  then obtain v outs where v: "run_ops (v_step 6) \<lparr>v_wq = w_view ?s0, v_tq = w_tq ?s0, v_next = eo_first\<rparr>
      [OpAddQueue DelayedSets 1 kLowPriority, OpAddQueue ImmediateSets 0 kLowPriority, OpPost () 7 False True, OpReload 0] = Some (v, outs)"
    "tq_in_sets v () kLowPriority" "\<And>w. wq_place (v_wq v w) = (if w = 0 then Some (ImmediateSets, 4, 2) else None)"
    by blast
  obtain s where s: "low_world_run = Some (s, outs)" "w_rep 6 s v"
    using work_queues.run [OF init_rep v(1)] by (auto simp: low_world_run_def)
  have place: "wq_place (w_wq s w) = (if w = 0 then Some (ImmediateSets, 4, 2) else None)" for w
    using v(3) [of w] rep_view(2) [OF s(2)] by simp
  have has: "has_tasks s p \<longleftrightarrow> p = 4" for p by (auto simp: has_tasks_def place split: if_splits)
  moreover have "w = 0" if "wq_place (w_wq s w) = Some x" for w x using that place [of w] by (cases "w = 0") auto
  ultimately show thesis using that [OF s(1,2)] v(2) by (simp add: priority_defs served_priority_def ts_init_def)
qed

section \<open>Properties of the selector\<close>

text \<open>
  C8: on queues that are in order, selecting a queue never fails a check; it returns none exactly
  when no enabled queue may run a task, and then changes nothing. Otherwise it serves the control
  priority if it has tasks, else the lowest starved priority, else the most urgent one, and of that
  priority the queue with the oldest task, an immediate one when immediate tasks are starved; the
  scores are updated for the priority that was served.
\<close>

theorem selector_serves_right_queue:
  assumes "world_ok 6 s"
  shows "(ts_AllEnabledWorkQueuesAreEmpty s \<longleftrightarrow> served_priority ts (has_tasks s) = None)
    \<and> (case served_priority ts (has_tasks s) of
      None \<Rightarrow> ts_SelectWorkQueueToService ts s = Some (ts, None)
    | Some p \<Rightarrow> \<exists>w over. well_chosen ts s p w over
        \<and> ts_SelectWorkQueueToService ts s = Some (next_scores ts (has_tasks s) p over, Some w))"
  using AllEmpty_spec [OF assms] selection_spec [OF assms] by blast

theorem selector_serves_right_queue_witness:
  "\<exists>s outs over ts'. low_world_run = Some (s, outs) \<and> well_chosen ts_init s kLowPriority 0 over
    \<and> ts_SelectWorkQueueToService ts_init s = Some (ts', Some 0)"
proof -
  obtain s v outs where s: "low_world_run = Some (s, outs)" "w_rep 6 s v" "served_priority ts_init (has_tasks s) = Some kLowPriority"
    "\<And>w x. wq_place (w_wq s w) = Some x \<Longrightarrow> w = 0"
    using low_world by metis
  obtain w over where w: "well_chosen ts_init s kLowPriority w over"
      "ts_SelectWorkQueueToService ts_init s = Some (next_scores ts_init (has_tasks s) kLowPriority over, Some w)"
    using selector_serves_right_queue [OF rep_view(1) [OF s(2)], of ts_init] s(3) by auto
  have "\<exists>x. wq_place (w_wq s w) = Some x" using w(1) unfolding well_chosen_def Let_def by blast
  then have "w = 0" using s(4) by blast
  then show ?thesis using s(1) w by blast
qed

text \<open>
  C6: whatever happens to the queues between the selections, as long as a priority from high to
  low has tasks and no control task is waiting, that priority is served at least once in every 9
  (high), 12 (normal) or 26 (low) selections.
\<close>

theorem no_priority_starves:
  assumes "\<forall>s \<in> set ss. world_ok 6 s \<and> has_tasks s p \<and> \<not> has_tasks s kControlPriority"
    and "p \<in> {kHighPriority, kNormalPriority, kLowPriority}" and "starvation_bound p \<le> length ss"
  shows "\<exists>ts' qs. select_run ts ss = Some (ts', qs)
    \<and> (\<exists>i < length ss. \<exists>w. qs ! i = Some w \<and> wq_set_index (w_wq (ss ! i) w) = p)"
proof -
  have p: "p \<in> {2, 3, 4}" using assms(2) by (simp add: priority_defs)
  have "rank p ts < length ss" using rank_bound [OF p, of ts] assms(3) by simp
  moreover obtain ts' qs where "select_run ts ss = Some (ts', qs)" using select_run_returns [of ss ts] assms(1) by auto
  ultimately show ?thesis using rank_selects [of ss p ts ts' qs] p assms(1) by (auto simp: kControlPriority_def)
qed

theorem no_priority_starves_witness:
  "\<exists>s outs ts' qs. low_world_run = Some (s, outs) \<and> select_run ts_init (replicate 26 s) = Some (ts', qs)
    \<and> (\<exists>i < 26. \<exists>w. qs ! i = Some w \<and> wq_set_index (w_wq s w) = kLowPriority)"
proof -
  obtain s v outs where s: "low_world_run = Some (s, outs)" "w_rep 6 s v" "has_tasks s kLowPriority" "\<not> has_tasks s kControlPriority"
    by (rule low_world)
  have "\<exists>ts' qs. select_run ts_init (replicate 26 s) = Some (ts', qs)
    \<and> (\<exists>i < length (replicate 26 s). \<exists>w. qs ! i = Some w \<and> wq_set_index (w_wq (replicate 26 s ! i) w) = kLowPriority)"
    by (rule no_priority_starves) (use s rep_view(1) [OF s(2)] in \<open>auto simp: starvation_bound_def priority_defs\<close>)
  then obtain ts' qs i w where "select_run ts_init (replicate 26 s) = Some (ts', qs)" "i < 26" "qs ! i = Some w"
    "wq_set_index (w_wq s w) = kLowPriority" by auto
  then show ?thesis using s(1) by blast
qed

text \<open>
  C37: the starvation scores stay bounded in every run of selections, so their additions never wrap
  around, and a delayed queue is chosen over an immediate one at most three times in a row.
\<close>

theorem starvation_scores_bounded:
  assumes "scores_ok ts" and "\<forall>s \<in> set ss. world_ok 6 s"
  shows "\<exists>ts' qs. select_run ts ss = Some (ts', qs) \<and> scores_ok ts'"
  using assms
proof (induction ss arbitrary: ts)
  case (Cons s ss)
  have "\<exists>ts1 q. ts_SelectWorkQueueToService ts s = Some (ts1, q) \<and> scores_ok ts1"
  proof (cases "served_priority ts (has_tasks s)")
    case (Some p)
    then obtain w over where w: "well_chosen ts s p w over"
      "ts_SelectWorkQueueToService ts s = Some (next_scores ts (has_tasks s) p over, Some w)"
      using selection_spec [of s ts] Cons.prems(2) by auto
    then show ?thesis using next_scores_ok [OF Some Cons.prems(1), of over] well_chosen_over [of ts s p w] by (cases over) auto
  qed (use selection_spec [of s ts] Cons.prems in auto)
  then obtain ts1 q where q: "ts_SelectWorkQueueToService ts s = Some (ts1, q)" "scores_ok ts1" by blast
  then show ?case using Cons.IH [OF q(2)] Cons.prems(2) by auto
qed simp

theorem starvation_scores_bounded_witness:
  "\<exists>s outs ts' qs. low_world_run = Some (s, outs) \<and> select_run ts_init (replicate 40 s) = Some (ts', qs) \<and> scores_ok ts'"
proof -
  obtain s v outs where s: "low_world_run = Some (s, outs)" "w_rep 6 s v" by (rule low_world)
  have "scores_ok ts_init" by (simp add: scores_ok_def ts_init_def)
  then show ?thesis using starvation_scores_bounded [of ts_init "replicate 40 s"] rep_view(1) [OF s(2)] s(1) by auto
qed

text \<open>
  disabling a task queue, giving it a priority while it is disabled and enabling it again
  leaves every queue as it was but for that priority; no check fails on the way, and with the old
  priority it is a round trip.
\<close>

theorem disable_set_priority_enable:
  assumes "w_rep 6 s v" and "tq_in_sets v t p" and "p' < kQueuePriorityCount"
  shows "\<exists>s1 s2 s3. ts_DisableQueue False s t = Some s1 \<and> ts_SetQueuePriority False s1 t p' = Some s2
    \<and> ts_EnableQueue True s2 t = Some s3 \<and> tq_GetQueuePriority s3 t = Some p'
    \<and> w_rep 6 s3 (v_both v t (\<lambda>_ q. q\<lparr>wq_set_index := p'\<rparr>))"
proof -
  have p': "p' < 6" using assms(3) by (simp add: kQueuePriorityCount_def)
  have ne: "tq_delayed (v_tq v t) \<noteq> tq_immediate (v_tq v t)" using assms(2) by (simp add: tq_in_sets_def Let_def)
  let ?v1 = "v_both v t (\<lambda>sid q. q\<lparr>wq_sets := None\<rparr>)" and ?v2 = "v_both v t (\<lambda>sid q. q\<lparr>wq_sets := None, wq_set_index := p'\<rparr>)"
    and ?v3 = "v_both v t (\<lambda>_ q. q\<lparr>wq_set_index := p'\<rparr>)"
  obtain s1 where s1: "ts_DisableQueue False s t = Some s1" "w_rep 6 s1 ?v1"
    using RemoveQueue_both [OF assms(1,2)] by (auto simp: ts_DisableQueue_def)
  have no1: "tq_in_no_sets ?v1 t p" using assms(2) by (simp add: tq_in_sets_def tq_in_no_sets_def v_both_def Let_def)
  obtain s2 where s2: "ts_SetQueuePriority False s1 t p' = Some s2" "w_rep 6 s2 ?v2"
    using SetPriority_disabled [OF s1(2) no1 p'] both_both [OF ne] by auto
  have no2: "tq_in_no_sets ?v2 t p'" using assms(2) by (simp add: tq_in_sets_def tq_in_no_sets_def v_both_def Let_def)
  obtain s3 where s3: "ps_AddQueue s2 t p' = Some s3"
    "w_rep 6 s3 (v_both ?v2 t (\<lambda>sid q. q\<lparr>wq_sets := Some sid, wq_set_index := p'\<rparr>))"
    using AddQueue_both [OF s2(2) no2 p'] by auto
  have "v_both ?v2 t (\<lambda>sid q. q\<lparr>wq_sets := Some sid, wq_set_index := p'\<rparr>) = ?v3"
    using assms(2) by (simp add: both_both [OF ne]) (auto simp: v_both_def v_put_def tq_in_sets_def Let_def same_sets)
  then have rep3: "w_rep 6 s3 ?v3" using s3(2) by simp
  have "tq_in_sets ?v3 t p'" using assms(2) by (auto simp: tq_in_sets_def v_both_def Let_def)
  then show ?thesis
    using s1(1) s2(1) s3(1) rep3 GetQueuePriority_spec(2) [OF s2(2) no2] GetQueuePriority_spec(1) [OF rep3]
    by (auto simp: ts_EnableQueue_def)
qed

theorem disable_set_priority_enable_witness:
  "\<exists>s outs s1 s2 s3. low_world_run = Some (s, outs) \<and> ts_DisableQueue False s () = Some s1
    \<and> ts_SetQueuePriority False s1 () kHighPriority = Some s2 \<and> ts_EnableQueue True s2 () = Some s3
    \<and> tq_GetQueuePriority s3 () = Some kHighPriority"
proof -
  obtain s v outs where s: "low_world_run = Some (s, outs)" "w_rep 6 s v" "tq_in_sets v () kLowPriority" by (rule low_world)
  have "kHighPriority < kQueuePriorityCount" by (simp add: priority_defs)
  from disable_set_priority_enable [OF s(2,3) this] s(1) show ?thesis by blast
qed

end
