(* ===== verification/Pickle.thy ===== *)
theory Pickle
  imports Checked_Numeric Clamped_Math "HOL-Library.Monad_Syntax"
begin

text \<open>
  Serialisation of primitive values, \<open>base/pickle.cc\<close> and \<open>base/pickle.h\<close>, on a little-endian
  machine with 64-bit \<open>size_t\<close> and \<open>long\<close>. The block a pickle points to is a list of bytes, raw
  where nothing was written; an access outside of it or a read of raw memory is \<open>None\<close>, as is a
  failed check. A \<open>float\<close> or \<open>double\<close> is its bit pattern, which the code only copies. Attachments
  belong to subclasses and are not modelled, and neither is the alignment of the addresses that
  \<open>ReadBuiltinType\<close> loads from: a load gives the bytes at any address.
\<close>

section \<open>Bytes and memory\<close>

type_synonym byte = "8 word"

fun to_bytes :: "nat \<Rightarrow> int \<Rightarrow> byte list" where
  "to_bytes 0 v = []"
| "to_bytes (Suc n) v = word_of_int v # to_bytes n (v div 256)"

fun of_bytes :: "byte list \<Rightarrow> int" where
  "of_bytes [] = 0"
| "of_bytes (b # bs) = uint b + 256 * of_bytes bs"

text \<open>Loads, stores (\<open>memcpy\<close> and \<open>memset\<close>) and \<open>realloc\<close> of a block.\<close>

definition mem_load :: "byte option list \<Rightarrow> nat \<Rightarrow> nat \<Rightarrow> byte list option" where
  "mem_load m pos n =
     (let cells = take n (drop pos m) in
      if pos + n \<le> length m \<and> None \<notin> set cells then Some (map the cells) else None)"

definition mem_store :: "byte option list \<Rightarrow> nat \<Rightarrow> byte option list \<Rightarrow> byte option list option" where
  "mem_store m pos cells =
     (if pos + length cells \<le> length m then Some (take pos m @ cells @ drop (pos + length cells) m) else None)"

definition mem_realloc :: "byte option list option \<Rightarrow> nat \<Rightarrow> byte option list" where
  "mem_realloc p n = (let m = (case p of None \<Rightarrow> [] | Some m \<Rightarrow> m) in take n m @ replicate (n - length m) None)"

text \<open>\<open>bits::IsPowerOfTwo\<close> and \<open>bits::Align\<close> of \<open>base/bits.h\<close>, on \<open>size_t\<close>.\<close>

definition bits_IsPowerOfTwo :: "int \<Rightarrow> bool" where
  "bits_IsPowerOfTwo value \<longleftrightarrow> value > 0 \<and> and value (value - 1) = 0"

definition bits_Align :: "nat \<Rightarrow> nat \<Rightarrow> nat option" where
  "bits_Align n alignment =
     (if bits_IsPowerOfTwo (int alignment)
      then Some (nat (and (static_cast uint64 (int n + int alignment - 1)) (static_cast uint64 (not (int alignment - 1)))))
      else None)"

section \<open>Pickle\<close>

record Pickle =
  pk_header :: "byte option list option"
  pk_header_size :: nat
  pk_capacity_after_header :: nat
  pk_write_offset :: nat

definition kPayloadUnit :: nat where "kPayloadUnit = 64"

definition kCapacityReadOnly :: nat where "kCapacityReadOnly = 2 ^ 64 - 1"

definition pk_GetTotalAllocatedSize :: "Pickle \<Rightarrow> nat" where
  "pk_GetTotalAllocatedSize p =
     (if pk_capacity_after_header p = kCapacityReadOnly then 0
      else (pk_header_size p + pk_capacity_after_header p) mod 2 ^ 64)"

definition pk_Resize :: "Pickle \<Rightarrow> nat \<Rightarrow> Pickle option" where
  "pk_Resize p new_capacity =
     (if pk_capacity_after_header p = kCapacityReadOnly then None
      else do {
        capacity \<leftarrow> bits_Align new_capacity kPayloadUnit;
        let p = p\<lparr>pk_capacity_after_header := capacity\<rparr>;
        Some (p\<lparr>pk_header := Some (mem_realloc (pk_header p) (pk_GetTotalAllocatedSize p))\<rparr>)
      })"

text \<open>\<open>header_->payload_size\<close>, the first four bytes of the block.\<close>

definition pk_header_payload_size :: "Pickle \<Rightarrow> nat option" where
  "pk_header_payload_size p = do {
     m \<leftarrow> pk_header p;
     bs \<leftarrow> mem_load m 0 4;
     Some (nat (of_bytes bs))
   }"

definition pk_store :: "Pickle \<Rightarrow> nat \<Rightarrow> byte option list \<Rightarrow> Pickle option" where
  "pk_store p pos cells = do {
     m \<leftarrow> pk_header p;
     m \<leftarrow> mem_store m pos cells;
     Some (p\<lparr>pk_header := Some m\<rparr>)
   }"

definition pk_set_payload_size :: "Pickle \<Rightarrow> nat \<Rightarrow> Pickle option" where
  "pk_set_payload_size p n = pk_store p 0 (map Some (to_bytes 4 (static_cast uint32 (int n))))"

definition pk_payload_size :: "Pickle \<Rightarrow> nat option" where
  "pk_payload_size p = (if pk_header p = None then Some 0 else pk_header_payload_size p)"

definition pk_size :: "Pickle \<Rightarrow> nat option" where
  "pk_size p = do { n \<leftarrow> pk_header_payload_size p; Some (pk_header_size p + n) }"

text \<open>The bytes from \<open>data()\<close> on, as many as \<open>size()\<close> says.\<close>

definition pk_data :: "Pickle \<Rightarrow> byte list option" where
  "pk_data p = do { n \<leftarrow> pk_size p; m \<leftarrow> pk_header p; mem_load m 0 n }"

definition Pickle_new :: "Pickle option" where
  "Pickle_new = do {
     p \<leftarrow> pk_Resize \<lparr>pk_header = None, pk_header_size = 4, pk_capacity_after_header = 0, pk_write_offset = 0\<rparr> kPayloadUnit;
     pk_set_payload_size p 0
   }"

definition Pickle_sized :: "int \<Rightarrow> Pickle option" where
  "Pickle_sized header_size = do {
     aligned \<leftarrow> bits_Align (nat (static_cast uint64 header_size)) 4;
     if static_cast uint64 header_size \<ge> 4 \<and> header_size \<le> int kPayloadUnit then do {
       p \<leftarrow> pk_Resize \<lparr>pk_header = None, pk_header_size = aligned, pk_capacity_after_header = 0, pk_write_offset = 0\<rparr> kPayloadUnit;
       pk_set_payload_size p 0
     } else None
   }"

text \<open>
  A pickle over a constant block. \<open>data_len - header_->payload_size\<close> is computed in 32-bit
  unsigned arithmetic.
\<close>

definition Pickle_data :: "byte list \<Rightarrow> Pickle option" where
  "Pickle_data data = do {
     let data_len = int (length data);
     let header_size = (if data_len \<ge> 4 then nat (static_cast uint32 (data_len - of_bytes (take 4 data))) else 0);
     let header_size = (if header_size > length data then 0 else header_size);
     aligned \<leftarrow> bits_Align header_size 4;
     let header_size = (if header_size \<noteq> aligned then 0 else header_size);
     Some \<lparr>pk_header = (if header_size = 0 then None else Some (map Some data)), pk_header_size = header_size,
           pk_capacity_after_header = kCapacityReadOnly, pk_write_offset = 0\<rparr>
   }"

text \<open>The copy of \<open>header_size_ + payload_size\<close> bytes from another pickle's block; raw bytes may be copied.\<close>

definition pk_copy_block :: "Pickle \<Rightarrow> Pickle \<Rightarrow> Pickle option" where
  "pk_copy_block p other = do {
     n \<leftarrow> pk_size other;
     m \<leftarrow> pk_header other;
     if n \<le> length m then pk_store p 0 (take n m) else None
   }"

definition Pickle_copy :: "Pickle \<Rightarrow> Pickle option" where
  "Pickle_copy other = do {
     n \<leftarrow> pk_header_payload_size other;
     p \<leftarrow> pk_Resize \<lparr>pk_header = None, pk_header_size = pk_header_size other, pk_capacity_after_header = 0,
                    pk_write_offset = pk_write_offset other\<rparr> n;
     pk_copy_block p other
   }"

text \<open>Assignment between two different objects; assigning a pickle to itself does nothing.\<close>

definition pk_assign :: "Pickle \<Rightarrow> Pickle \<Rightarrow> Pickle option" where
  "pk_assign p other = do {
     let p = (if pk_capacity_after_header p = kCapacityReadOnly
              then p\<lparr>pk_header := None, pk_capacity_after_header := 0\<rparr> else p);
     let p = (if pk_header_size p \<noteq> pk_header_size other
              then p\<lparr>pk_header := None, pk_header_size := pk_header_size other\<rparr> else p);
     n \<leftarrow> pk_header_payload_size other;
     p \<leftarrow> pk_Resize p n;
     p \<leftarrow> pk_copy_block p other;
     Some (p\<lparr>pk_write_offset := pk_write_offset other\<rparr>)
   }"

section \<open>Writing\<close>

text \<open>The checks of \<open>Reserve\<close> and \<open>ClaimUninitializedBytesInternal\<close>: the aligned length.\<close>

definition pk_data_len :: "Pickle \<Rightarrow> nat \<Rightarrow> nat option" where
  "pk_data_len p n = do {
     data_len \<leftarrow> bits_Align n 4;
     if data_len \<ge> n \<and> data_len \<le> 2 ^ 32 - 1 \<and> pk_write_offset p \<le> 2 ^ 32 - 1 - data_len
     then Some data_len else None
   }"

definition pk_Reserve :: "Pickle \<Rightarrow> nat \<Rightarrow> Pickle option" where
  "pk_Reserve p n = do {
     data_len \<leftarrow> pk_data_len p n;
     let new_size = pk_write_offset p + data_len;
     if new_size > pk_capacity_after_header p then pk_Resize p (pk_capacity_after_header p * 2 + new_size) else Some p
   }"

text \<open>Returns the pickle and the position of the claimed bytes in the block.\<close>

definition pk_ClaimUninitializedBytesInternal :: "Pickle \<Rightarrow> nat \<Rightarrow> (Pickle \<times> nat) option" where
  "pk_ClaimUninitializedBytesInternal p n =
     (if pk_capacity_after_header p = kCapacityReadOnly then None
      else do {
        data_len \<leftarrow> pk_data_len p n;
        let new_size = pk_write_offset p + data_len;
        p \<leftarrow> (if new_size > pk_capacity_after_header p then do {
               let new_capacity = pk_capacity_after_header p * 2;
               new_capacity \<leftarrow> (if new_capacity > 4096
                               then do { c \<leftarrow> bits_Align new_capacity 4096; Some (c - kPayloadUnit) }
                               else Some new_capacity);
               pk_Resize p (max new_capacity new_size)
             } else Some p);
        let write = pk_header_size p + pk_write_offset p;
        p \<leftarrow> pk_store p (write + n) (replicate (data_len - n) (Some 0));
        p \<leftarrow> pk_set_payload_size p new_size;
        Some (p\<lparr>pk_write_offset := new_size\<rparr>, write)
      })"

definition pk_ClaimBytes :: "Pickle \<Rightarrow> nat \<Rightarrow> (Pickle \<times> nat) option" where
  "pk_ClaimBytes p num_bytes = do {
     (p, write) \<leftarrow> pk_ClaimUninitializedBytesInternal p num_bytes;
     p \<leftarrow> pk_store p write (replicate num_bytes (Some 0));
     Some (p, write)
   }"

definition pk_WriteBytesCommon :: "Pickle \<Rightarrow> byte list \<Rightarrow> Pickle option" where
  "pk_WriteBytesCommon p data = do {
     (p, write) \<leftarrow> pk_ClaimUninitializedBytesInternal p (length data);
     pk_store p write (map Some data)
   }"

text \<open>\<open>WriteBytes(data, length)\<close>: a length beyond the data is an out-of-bounds read.\<close>

definition pk_WriteBytes :: "Pickle \<Rightarrow> byte list \<Rightarrow> int \<Rightarrow> Pickle option" where
  "pk_WriteBytes p data len =
     (let n = nat (static_cast uint64 len) in
      if n \<le> length data then pk_WriteBytesCommon p (take n data) else None)"

definition pk_WritePOD :: "Pickle \<Rightarrow> ctype \<Rightarrow> int \<Rightarrow> Pickle option" where
  "pk_WritePOD p t v = pk_WriteBytesCommon p (to_bytes (int_bits t div 8) v)"

definition pk_WriteInt :: "Pickle \<Rightarrow> int \<Rightarrow> Pickle option" where
  "pk_WriteInt p v = pk_WritePOD p int32 v"

definition pk_WriteBool :: "Pickle \<Rightarrow> bool \<Rightarrow> Pickle option" where
  "pk_WriteBool p v = pk_WriteInt p (if v then 1 else 0)"

definition pk_WriteLong :: "Pickle \<Rightarrow> int \<Rightarrow> Pickle option" where
  "pk_WriteLong p v = pk_WritePOD p int64 (static_cast int64 v)"

definition pk_WriteString :: "Pickle \<Rightarrow> byte list \<Rightarrow> Pickle option" where
  "pk_WriteString p value = do {
     p \<leftarrow> pk_WriteInt p (static_cast int32 (int (length value)));
     pk_WriteBytes p value (static_cast int32 (int (length value)))
   }"

text \<open>UTF-16 code units; the byte length is computed in \<open>size_t\<close> and passed as an \<open>int\<close>.\<close>

definition char16_bytes :: "16 word list \<Rightarrow> byte list" where
  "char16_bytes cs = concat (map (\<lambda>c. to_bytes 2 (uint c)) cs)"

definition pk_WriteString16 :: "Pickle \<Rightarrow> 16 word list \<Rightarrow> Pickle option" where
  "pk_WriteString16 p value = do {
     let len = static_cast int32 (int (length value));
     p \<leftarrow> pk_WriteInt p len;
     pk_WriteBytes p (char16_bytes value) (static_cast int32 (static_cast uint64 (static_cast uint64 len * 2)))
   }"

definition pk_WriteData :: "Pickle \<Rightarrow> byte list \<Rightarrow> int \<Rightarrow> Pickle option" where
  "pk_WriteData p data len =
     (if len \<ge> 0 then do { p \<leftarrow> pk_WriteInt p len; pk_WriteBytes p data len } else None)"

section \<open>Finding a pickle in a buffer\<close>

text \<open>\<open>[start, end)\<close> is the list \<open>data\<close>; the result of \<open>PeekNext\<close> is the size, if it returns true.\<close>

definition pk_PeekNext :: "math_cfg \<Rightarrow> nat \<Rightarrow> byte list \<Rightarrow> nat option option" where
  "pk_PeekNext cfg header_size data = do {
     aligned \<leftarrow> bits_Align header_size 4;
     if header_size = aligned \<and> header_size \<ge> 4 \<and> header_size \<le> kPayloadUnit then
       if length data < 4 then Some None
       else if length data < header_size then Some None
       else do {
         s \<leftarrow> ClampMathOp cfg False OpAdd uint64 uint32 (int header_size) (of_bytes (take 4 data));
         Some (Some (nat s))
       }
     else None
   }"

text \<open>The offset of the end of the pickle, if it is in the buffer.\<close>

definition pk_FindNext :: "math_cfg \<Rightarrow> nat \<Rightarrow> byte list \<Rightarrow> nat option option" where
  "pk_FindNext cfg header_size data = do {
     r \<leftarrow> pk_PeekNext cfg header_size data;
     (case r of
        None \<Rightarrow> Some None
      | Some pickle_size \<Rightarrow> if pickle_size > length data then Some None else Some (Some pickle_size))
   }"

section \<open>Reading\<close>

text \<open>
  An iterator keeps the payload pointer, here the block from there on and whether the pointer is
  null, as it is for a pickle whose bytes were rejected, and two indices; the
  difference \<open>end_index_ - read_index_\<close> never wraps since the read index stays below the end. A read
  returns the iterator and the value, \<open>None\<close> when it returns false.
\<close>

record PickleIterator =
  it_null :: bool
  it_payload :: "byte option list"
  it_read_index :: nat
  it_end_index :: nat

definition PickleIterator_of :: "Pickle \<Rightarrow> PickleIterator option" where
  "PickleIterator_of p = do {
     n \<leftarrow> pk_payload_size p;
     Some \<lparr>it_null = (pk_header p = None \<and> pk_header_size p = 0),
           it_payload = (case pk_header p of None \<Rightarrow> [] | Some m \<Rightarrow> drop (pk_header_size p) m),
           it_read_index = 0, it_end_index = n\<rparr>
   }"

definition it_Advance :: "PickleIterator \<Rightarrow> nat \<Rightarrow> PickleIterator option" where
  "it_Advance it n = do {
     aligned_size \<leftarrow> bits_Align n 4;
     Some (if it_end_index it - it_read_index it < aligned_size
           then it\<lparr>it_read_index := it_end_index it\<rparr>
           else it\<lparr>it_read_index := it_read_index it + aligned_size\<rparr>)
   }"

text \<open>
  The three \<open>GetReadPointerAndAdvance\<close>: for a type, for a number of bytes, for an array. They return
  \<open>payload_ + read_index_\<close>, which is the null pointer again at the start of a null payload, so that
  there even a read of no bytes returns false.
\<close>

definition it_pointer :: "PickleIterator \<Rightarrow> nat option" where
  "it_pointer it = (if it_null it \<and> it_read_index it = 0 then None else Some (it_read_index it))"

definition it_GetReadPointerAndAdvance :: "PickleIterator \<Rightarrow> nat \<Rightarrow> (PickleIterator \<times> nat option) option" where
  "it_GetReadPointerAndAdvance it n =
     (if n > it_end_index it - it_read_index it then Some (it\<lparr>it_read_index := it_end_index it\<rparr>, None)
      else do { it' \<leftarrow> it_Advance it n; Some (it', it_pointer it) })"

definition it_GetReadPointerAndAdvance_bytes :: "PickleIterator \<Rightarrow> int \<Rightarrow> (PickleIterator \<times> nat option) option" where
  "it_GetReadPointerAndAdvance_bytes it num_bytes =
     (if num_bytes < 0 \<or> it_end_index it - it_read_index it < nat (static_cast uint64 num_bytes)
      then Some (it\<lparr>it_read_index := it_end_index it\<rparr>, None)
      else do { it' \<leftarrow> it_Advance it (nat num_bytes); Some (it', it_pointer it) })"

definition it_GetReadPointerAndAdvance_array ::
  "math_cfg \<Rightarrow> PickleIterator \<Rightarrow> int \<Rightarrow> int \<Rightarrow> (PickleIterator \<times> nat option) option" where
  "it_GetReadPointerAndAdvance_array cfg it num_elements size_element = do {
     c \<leftarrow> CheckMathOp cfg OpMul int32 uint64 (CheckedNumeric_of int32 int32 num_elements)
            (CheckedNumeric_of uint64 uint64 size_element);
     let (ok, num_bytes) = cn_AssignIfValid int32 (MathResultType OpMul int32 uint64) c 0;
     if \<not> ok then Some (it, None) else it_GetReadPointerAndAdvance_bytes it num_bytes
   }"

definition it_ReadBuiltinType :: "ctype \<Rightarrow> PickleIterator \<Rightarrow> (PickleIterator \<times> int option) option" where
  "it_ReadBuiltinType t it = do {
     (it', read_from) \<leftarrow> it_GetReadPointerAndAdvance it (int_bits t div 8);
     (case read_from of
        None \<Rightarrow> Some (it', None)
      | Some pos \<Rightarrow> do { bs \<leftarrow> mem_load (it_payload it) pos (int_bits t div 8); Some (it', Some (static_cast t (of_bytes bs))) })
   }"

text \<open>A \<open>bool\<close> object whose byte is neither 0 nor 1 may not be read.\<close>

definition it_ReadBool :: "PickleIterator \<Rightarrow> (PickleIterator \<times> bool option) option" where
  "it_ReadBool it = do {
     (it, r) \<leftarrow> it_ReadBuiltinType uint8 it;
     (case r of
        None \<Rightarrow> Some (it, None)
      | Some b \<Rightarrow> if b = 0 \<or> b = 1 then Some (it, Some (b = 1)) else None)
   }"

definition it_ReadInt :: "PickleIterator \<Rightarrow> (PickleIterator \<times> int option) option" where
  "it_ReadInt it = it_ReadBuiltinType int32 it"

definition it_ReadLong :: "PickleIterator \<Rightarrow> (PickleIterator \<times> int option) option" where
  "it_ReadLong it = do {
     (it, r) \<leftarrow> it_ReadBuiltinType int64 it;
     (case r of
        None \<Rightarrow> Some (it, None)
      | Some v \<Rightarrow> do { v \<leftarrow> checked_cast int64 int64 v; Some (it, Some v) })
   }"

definition it_ReadBytes :: "PickleIterator \<Rightarrow> int \<Rightarrow> (PickleIterator \<times> byte list option) option" where
  "it_ReadBytes it len = do {
     (it', read_from) \<leftarrow> it_GetReadPointerAndAdvance_bytes it len;
     (case read_from of
        None \<Rightarrow> Some (it', None)
      | Some pos \<Rightarrow> do { bs \<leftarrow> mem_load (it_payload it) pos (nat len); Some (it', Some bs) })
   }"

text \<open>\<open>ReadString\<close> and \<open>ReadStringPiece\<close>; \<open>ReadData\<close> also returns the length it read.\<close>

definition it_ReadString :: "PickleIterator \<Rightarrow> (PickleIterator \<times> byte list option) option" where
  "it_ReadString it = do {
     (it, r) \<leftarrow> it_ReadInt it;
     (case r of None \<Rightarrow> Some (it, None) | Some len \<Rightarrow> it_ReadBytes it len)
   }"

definition it_ReadData :: "PickleIterator \<Rightarrow> (PickleIterator \<times> byte list option \<times> int) option" where
  "it_ReadData it = do {
     (it, r) \<leftarrow> it_ReadInt it;
     (case r of
        None \<Rightarrow> Some (it, None, 0)
      | Some len \<Rightarrow> do { (it, d) \<leftarrow> it_ReadBytes it len; Some (it, d, len) })
   }"

fun char16s :: "byte list \<Rightarrow> 16 word list" where
  "char16s (a # b # bs) = word_of_int (of_bytes [a, b]) # char16s bs"
| "char16s bs = []"

definition it_ReadString16 :: "math_cfg \<Rightarrow> PickleIterator \<Rightarrow> (PickleIterator \<times> 16 word list option) option" where
  "it_ReadString16 cfg it = do {
     (it, r) \<leftarrow> it_ReadInt it;
     (case r of
        None \<Rightarrow> Some (it, None)
      | Some len \<Rightarrow> do {
          (it', read_from) \<leftarrow> it_GetReadPointerAndAdvance_array cfg it len 2;
          (case read_from of
             None \<Rightarrow> Some (it', None)
           | Some pos \<Rightarrow> do { bs \<leftarrow> mem_load (it_payload it) pos (2 * nat len); Some (it', Some (char16s bs)) })
        })
   }"

definition it_ReadLength :: "PickleIterator \<Rightarrow> (PickleIterator \<times> int option) option" where
  "it_ReadLength it = do {
     (it, r) \<leftarrow> it_ReadInt it;
     (case r of None \<Rightarrow> Some (it, None) | Some v \<Rightarrow> Some (it, if v \<ge> 0 then Some v else None))
   }"

definition it_SkipBytes :: "PickleIterator \<Rightarrow> int \<Rightarrow> (PickleIterator \<times> bool) option" where
  "it_SkipBytes it num_bytes = do {
     (it, read_from) \<leftarrow> it_GetReadPointerAndAdvance_bytes it num_bytes;
     Some (it, read_from \<noteq> None)
   }"

section \<open>Bytes, alignment and memory\<close>

lemma length_to_bytes [simp]: "length (to_bytes n v) = n"
  by (induction n arbitrary: v) auto

lemma of_to_bytes: "of_bytes (to_bytes n v) = take_bit (8 * n) v"
proof (induction n arbitrary: v)
  case (Suc n)
  have "v mod (256 * 2 ^ (8 * n)) = 256 * (v div 256 mod 2 ^ (8 * n)) + v mod 256" by (rule zmod_zmult2_eq) simp
  then show ?case using Suc [of "v div 256"] by (simp add: take_bit_eq_mod uint_word_of_int power_add mult.commute)
qed simp

lemma load_store_value:
  assumes "cint t" "in_range t v"
  shows "static_cast t (of_bytes (to_bytes (int_bits t div 8) v)) = v"
proof -
  have "8 * (int_bits t div 8) = int_bits t" using assms(1) by (auto simp: cint_def)
  then have "of_bytes (to_bytes (int_bits t div 8) v) = take_bit (int_bits t) v" by (simp add: of_to_bytes)
  moreover have "static_cast t (take_bit (int_bits t) v) = static_cast t v"
    using assms(1) by (intro static_cast_cong) (auto simp: take_bit_eq_mod)
  ultimately show ?thesis using assms by simp
qed

lemma of_bytes_range: "0 \<le> of_bytes bs \<and> of_bytes bs < 256 ^ length bs"
proof (induction bs)
  case (Cons b bs)
  have "0 \<le> uint b" "uint b < 256" using uint_bounded [of b] by auto
  then show ?case using Cons by (auto simp: algebra_simps)
qed simp

text \<open>Rounding up to a multiple of four.\<close>

definition align4 :: "nat \<Rightarrow> nat" where
  "align4 n = 4 * ((n + 3) div 4)"

lemma align4_bounds: "n \<le> align4 n" "align4 n < n + 4" "4 dvd align4 n"
  unfolding align4_def by auto

lemma align4_id: "4 dvd n \<Longrightarrow> align4 n = n"
  unfolding align4_def by auto

lemma and_not_mask: "and (x :: int) (not (2 ^ k - 1)) = 2 ^ k * (x div 2 ^ k)"
proof -
  have "and x (not (mask k)) = push_bit k (drop_bit k x)"
    by (rule bit_eqI) (auto simp: bit_simps)
  then show ?thesis by (simp add: mask_eq_exp_minus_1 push_bit_eq_mult drop_bit_eq_div)
qed

lemma and_take_bit: "take_bit n x = x \<Longrightarrow> and (x :: int) (take_bit n y) = and x y"
proof (rule bit_eqI)
  fix i
  assume "take_bit n x = x"
  then have "bit x i \<longleftrightarrow> bit (take_bit n x) i" by simp
  then show "bit (and x (take_bit n y)) i \<longleftrightarrow> bit (and x y) i" by (auto simp: bit_simps)
qed

lemma Align_pow:
  assumes "n + 2 ^ k < 2 ^ 63" "k < 63"
  shows "bits_Align n (2 ^ k) = Some (2 ^ k * ((n + 2 ^ k - 1) div 2 ^ k))"
proof -
  have x: "int (n + 2 ^ k - 1) = int n + 2 ^ k - 1"
  proof -
    have "(1 :: nat) \<le> 2 ^ k" by simp
    then have "int (n + 2 ^ k - 1) = int n + int (2 ^ k) - 1" by linarith
    then show ?thesis by simp
  qed
  have "n + 2 ^ k - 1 < 2 ^ 63" using assms(1) by linarith
  then have "int (n + 2 ^ k - 1) < int (2 ^ 63)" by (simp only: of_nat_less_iff)
  then have lt: "int n + 2 ^ k - 1 < 2 ^ 63" using x by simp
  then have c: "static_cast uint64 (int n + 2 ^ k - 1) = int n + 2 ^ k - 1"
    by (intro static_cast_id) (auto simp: ctype_defs x [symmetric])
  have "and (2 ^ k :: int) (2 ^ k - 1) = 0" by (simp add: mask_eq_exp_minus_1 [symmetric] and_exp_eq_0_iff_not_bit bit_simps flip: take_bit_eq_mask)
  then have p: "bits_IsPowerOfTwo (int (2 ^ k))" by (simp add: bits_IsPowerOfTwo_def)
  have "and (int n + 2 ^ k - 1) (static_cast uint64 (not (2 ^ k - 1))) = and (int n + 2 ^ k - 1) (not (2 ^ k - 1))"
    using c and_take_bit [of 64 "int n + 2 ^ k - 1"] by (simp add: static_cast_def)
  also have "\<dots> = 2 ^ k * (int (n + 2 ^ k - 1) div 2 ^ k)" by (simp only: and_not_mask x)
  also have "\<dots> = int (2 ^ k * ((n + 2 ^ k - 1) div 2 ^ k))" by (simp add: zdiv_int)
  finally show ?thesis using p c by (simp add: bits_Align_def nat_mult_distrib nat_power_eq)
qed


lemma Align_4: "n < 2 ^ 62 \<Longrightarrow> bits_Align n 4 = Some (align4 n)"
  using Align_pow [of n 2] by (simp add: align4_def)

lemma Align_64: "n < 2 ^ 62 \<Longrightarrow> bits_Align n 64 = Some (64 * ((n + 63) div 64))"
  using Align_pow [of n 6] by simp

lemma Align_4096: "n < 2 ^ 62 \<Longrightarrow> bits_Align n 4096 = Some (4096 * ((n + 4095) div 4096))"
  using Align_pow [of n 12] by simp

lemma load_app: "length a = pos \<Longrightarrow> length bs = n \<Longrightarrow> mem_load (a @ map Some bs @ c) pos n = Some bs"
  by (auto simp: mem_load_def o_def)

lemma store_app: "length a = pos \<Longrightarrow> length b = length cells \<Longrightarrow> mem_store (a @ b @ c) pos cells = Some (a @ cells @ c)"
  by (simp add: mem_store_def)


section \<open>What a pickle holds\<close>

text \<open>
  The block: a header of \<open>header_size_\<close> bytes that starts with the payload size \<open>n\<close>, the cells
  \<open>body\<close>, and the rest of the capacity. \<open>pk_rep\<close>: a pickle being written whose payload is \<open>bs\<close>.
\<close>

definition pk_block :: "Pickle \<Rightarrow> nat \<Rightarrow> byte option list \<Rightarrow> byte option list \<Rightarrow> byte option list \<Rightarrow> bool" where
  "pk_block p n h body rest \<longleftrightarrow> pk_header p = Some (h @ body @ rest) \<and> length h = pk_header_size p
    \<and> 4 \<le> length h \<and> length h \<le> 64 \<and> 4 dvd length h \<and> take 4 h = map Some (to_bytes 4 (int n))
    \<and> length body + length rest = pk_capacity_after_header p \<and> pk_capacity_after_header p < 2 ^ 34 \<and> n < 2 ^ 32"

definition pk_rep :: "Pickle \<Rightarrow> byte list \<Rightarrow> bool" where
  "pk_rep p bs \<longleftrightarrow> (\<exists>h rest. pk_block p (length bs) h (map Some bs) rest) \<and> pk_write_offset p = length bs
    \<and> 4 dvd length bs"

text \<open>The bytes before the write offset, whatever size the header gives.\<close>

definition pk_writing :: "Pickle \<Rightarrow> byte list \<Rightarrow> bool" where
  "pk_writing p bs \<longleftrightarrow> (\<exists>n h rest. pk_block p n h (map Some bs) rest) \<and> pk_write_offset p = length bs \<and> 4 dvd length bs"

lemma rep_writing: "pk_rep p bs \<Longrightarrow> pk_writing p bs"
  by (auto simp: pk_rep_def pk_writing_def)

lemma block_writable: "pk_block p n h body rest \<Longrightarrow> pk_capacity_after_header p \<noteq> kCapacityReadOnly"
  by (auto simp: pk_block_def kCapacityReadOnly_def)

lemma block_offset [simp]: "pk_block (p\<lparr>pk_write_offset := k\<rparr>) n h body rest = pk_block p n h body rest"
  by (simp add: pk_block_def)

lemma block_Resize:
  assumes "pk_block p n h body rest" "length body \<le> c" "c < 2 ^ 33 + 2 ^ 32 + 2 ^ 12"
  shows "\<exists>p' rest'. pk_Resize p c = Some p' \<and> pk_block p' n h body rest' \<and> c \<le> pk_capacity_after_header p'
    \<and> pk_header_size p' = pk_header_size p \<and> pk_write_offset p' = pk_write_offset p"
proof -
  let ?c = "64 * ((c + 63) div 64)"
  let ?p = "p\<lparr>pk_capacity_after_header := ?c\<rparr>"
  have c: "c \<le> ?c" "?c < 2 ^ 34" using assms(3) by auto
  note b = assms(1) [unfolded pk_block_def]
  have total: "pk_GetTotalAllocatedSize ?p = length h + ?c"
    using b c by (simp add: pk_GetTotalAllocatedSize_def kCapacityReadOnly_def)
  have "pk_Resize p c = Some (?p\<lparr>pk_header := Some (mem_realloc (pk_header p) (length h + ?c))\<rparr>)"
    using block_writable [OF assms(1)] assms(3) total by (simp add: pk_Resize_def kPayloadUnit_def Align_64 Let_def)
  moreover have "\<exists>rest'. mem_realloc (pk_header p) (length h + ?c) = h @ body @ rest' \<and> length body + length rest' = ?c"
    using b assms(2) c by (intro exI [of _ "take (?c - length body) rest @ replicate (?c - length (body @ rest)) None"])
      (auto simp: mem_realloc_def)
  ultimately show ?thesis using b c by (auto simp: pk_block_def)
qed

lemma block_set_size:
  assumes "pk_block p n h body rest" "n' < 2 ^ 32"
  shows "\<exists>p' h'. pk_set_payload_size p n' = Some p' \<and> pk_block p' n' h' body rest \<and> length h' = length h
    \<and> pk_header_size p' = pk_header_size p \<and> pk_write_offset p' = pk_write_offset p"
proof -
  note b = assms(1) [unfolded pk_block_def]
  have "static_cast uint32 (int n') = int n'"
    using assms(2) by (intro static_cast_id) (auto simp: ctype_defs)
  moreover have "mem_store (h @ body @ rest) 0 (map Some (to_bytes 4 (int n'))) = Some (map Some (to_bytes 4 (int n')) @ drop 4 h @ body @ rest)"
    using b by (simp add: mem_store_def)
  ultimately have "pk_set_payload_size p n' = Some (p\<lparr>pk_header := Some (map Some (to_bytes 4 (int n')) @ drop 4 h @ body @ rest)\<rparr>)"
    using b by (simp add: pk_set_payload_size_def pk_store_def)
  then show ?thesis using b assms(2)
    by (intro exI [of _ "p\<lparr>pk_header := Some (map Some (to_bytes 4 (int n')) @ drop 4 h @ body @ rest)\<rparr>"]
        exI [of _ "map Some (to_bytes 4 (int n')) @ drop 4 h"]) (auto simp: pk_block_def)
qed

lemma block_store:
  assumes "pk_block p n h (a @ b @ c) rest" "length b = length cells"
  shows "\<exists>p'. pk_store p (length h + length a) cells = Some p' \<and> pk_block p' n h (a @ cells @ c) rest
    \<and> pk_header_size p' = pk_header_size p \<and> pk_write_offset p' = pk_write_offset p"
  using assms store_app [of "h @ a" "length h + length a" b cells "c @ rest"]
  by (auto simp: pk_block_def pk_store_def)

text \<open>Growing never fails and keeps the payload.\<close>

lemma data_len_spec:
  assumes "pk_write_offset p + align4 n < 2 ^ 32"
  shows "pk_data_len p n = Some (align4 n)"
  using assms align4_bounds(1) [of n] Align_4 [of n] by (simp add: pk_data_len_def)

lemma grow_spec:
  assumes b: "pk_block p n h body rest" and size: "new_size < 2 ^ 32" "length body \<le> new_size"
  shows "\<exists>p' rest'. (if new_size > pk_capacity_after_header p then do {
               let new_capacity = pk_capacity_after_header p * 2;
               new_capacity \<leftarrow> (if new_capacity > 4096
                               then do { c \<leftarrow> bits_Align new_capacity 4096; Some (c - kPayloadUnit) }
                               else Some new_capacity);
               pk_Resize p (max new_capacity new_size)
             } else Some p) = Some p'
    \<and> pk_block p' n h body rest' \<and> new_size \<le> pk_capacity_after_header p' \<and> pk_header_size p' = pk_header_size p
    \<and> pk_write_offset p' = pk_write_offset p"
proof (cases "new_size > pk_capacity_after_header p")
  case True
  let ?c = "pk_capacity_after_header p * 2"
  define nc where "nc = (if ?c > 4096 then 4096 * ((?c + 4095) div 4096) - kPayloadUnit else ?c)"
  have c: "?c < 2 ^ 33" using True size(1) by simp
  have nc: "nc < 2 ^ 33 + 2 ^ 12" using c by (auto simp: nc_def kPayloadUnit_def)
  obtain p' rest' where p': "pk_Resize p (max nc new_size) = Some p'" "pk_block p' n h body rest'"
    "max nc new_size \<le> pk_capacity_after_header p'" "pk_header_size p' = pk_header_size p"
    "pk_write_offset p' = pk_write_offset p"
  proof -
    have "length body \<le> max nc new_size" "max nc new_size < 2 ^ 33 + 2 ^ 32 + 2 ^ 12" using size nc by auto
    from block_Resize [OF b this] show ?thesis using that by blast
  qed
  then show ?thesis using True c Align_4096 [of ?c]
    by (intro exI [of _ p'] exI [of _ rest']) (auto simp: nc_def Let_def split: if_splits)
qed (use b in auto)

lemma Claim_spec:
  assumes rep: "pk_writing p bs" and size: "length bs + align4 n < 2 ^ 32"
  shows "\<exists>p' h mid rest. pk_ClaimUninitializedBytesInternal p n = Some (p', length h + length bs)
    \<and> pk_block p' (length bs + align4 n) h (map Some bs @ mid @ replicate (align4 n - n) (Some 0)) rest
    \<and> length mid = n \<and> pk_write_offset p' = length bs + align4 n \<and> pk_header_size p' = pk_header_size p"
proof -
  obtain n0 h rest where b: "pk_block p n0 h (map Some bs) rest" and wo: "pk_write_offset p = length bs"
    using rep by (auto simp: pk_writing_def)
  let ?new = "length bs + align4 n"
  obtain p1 rest1 where p1: "(if ?new > pk_capacity_after_header p then do {
               let new_capacity = pk_capacity_after_header p * 2;
               new_capacity \<leftarrow> (if new_capacity > 4096
                               then do { c \<leftarrow> bits_Align new_capacity 4096; Some (c - kPayloadUnit) }
                               else Some new_capacity);
               pk_Resize p (max new_capacity ?new)
             } else Some p) = Some p1"
    "pk_block p1 n0 h (map Some bs) rest1" "?new \<le> pk_capacity_after_header p1"
    "pk_header_size p1 = pk_header_size p" "pk_write_offset p1 = length bs"
    using grow_spec [OF b size] wo by auto
  have len: "length h = pk_header_size p" using b by (simp add: pk_block_def)
  have rest1: "align4 n \<le> length rest1" using p1(2,3) by (simp add: pk_block_def)
  let ?mid = "take n rest1" and ?pad = "take (align4 n - n) (drop n rest1)" and ?rest = "drop (align4 n) rest1"
  have split: "rest1 = ?mid @ ?pad @ ?rest"
    using align4_bounds(1) [of n] by (metis append_take_drop_id drop_drop le_add_diff_inverse add.commute)
  have lens: "length ?mid = n" "length ?pad = align4 n - n" using rest1 align4_bounds(1) [of n] by auto
  have "pk_block p1 n0 h ((map Some bs @ ?mid) @ ?pad @ []) ?rest"
    using p1(2) split lens unfolding pk_block_def by (metis (no_types, lifting) append.assoc append_Nil2 length_append add.assoc)
  then obtain p2 where p2: "pk_store p1 (length h + length (map Some bs @ ?mid)) (replicate (align4 n - n) (Some 0)) = Some p2"
    "pk_block p2 n0 h ((map Some bs @ ?mid) @ replicate (align4 n - n) (Some 0) @ []) ?rest"
    "pk_header_size p2 = pk_header_size p" "pk_write_offset p2 = length bs"
    using block_store [of p1 n0 h "map Some bs @ ?mid" ?pad "[]" ?rest "replicate (align4 n - n) (Some 0)"] lens p1(4,5)
    by auto
  obtain p3 h3 where p3: "pk_set_payload_size p2 ?new = Some p3" "pk_block p3 ?new h3 (map Some bs @ ?mid @ replicate (align4 n - n) (Some 0)) ?rest"
    "length h3 = length h"
    using block_set_size [OF p2(2), of ?new] size by auto
  have "pk_ClaimUninitializedBytesInternal p n = Some (p3\<lparr>pk_write_offset := ?new\<rparr>, length h3 + length bs)"
    using block_writable [OF b] data_len_spec [of p n] size wo p1 p2(1) p3(1,3) len lens(1)
    by (simp add: pk_ClaimUninitializedBytesInternal_def Let_def add.assoc)
  moreover have "pk_block (p3\<lparr>pk_write_offset := ?new\<rparr>) ?new h3 (map Some bs @ ?mid @ replicate (align4 n - n) (Some 0)) ?rest"
    using p3(2) by simp
  moreover have "pk_header_size p3 = pk_header_size p" using p3(2,3) len by (simp add: pk_block_def)
  ultimately show ?thesis using lens(1) by fastforce
qed


text \<open>The bytes of a write: the data and zeros up to the next multiple of four.\<close>

definition padded :: "byte list \<Rightarrow> byte list" where
  "padded bs = bs @ replicate (align4 (length bs) - length bs) 0"

lemma length_padded [simp]: "length (padded bs) = align4 (length bs)"
  using align4_bounds(1) [of "length bs"] by (simp add: padded_def)

lemma WriteBytesCommon_spec:
  assumes "pk_writing p bs" "length bs + align4 (length xs) < 2 ^ 32"
  shows "\<exists>p'. pk_WriteBytesCommon p xs = Some p' \<and> pk_rep p' (bs @ padded xs) \<and> pk_header_size p' = pk_header_size p"
proof -
  let ?n = "length xs" and ?z = "replicate (align4 (length xs) - length xs) (Some (0 :: byte))"
  obtain p1 h mid rest where c: "pk_ClaimUninitializedBytesInternal p ?n = Some (p1, length h + length bs)"
    "pk_block p1 (length bs + align4 ?n) h (map Some bs @ mid @ ?z) rest" "length mid = ?n"
    "pk_write_offset p1 = length bs + align4 ?n" "pk_header_size p1 = pk_header_size p"
    using Claim_spec [OF assms] by blast
  obtain p2 where p2: "pk_store p1 (length h + length (map Some bs)) (map Some xs) = Some p2"
    "pk_block p2 (length bs + align4 ?n) h (map Some bs @ map Some xs @ ?z) rest" "pk_write_offset p2 = pk_write_offset p1"
    "pk_header_size p2 = pk_header_size p"
    using block_store [OF c(2), of "map Some xs"] c(3,5) by auto
  have "map Some (bs @ padded xs) = map Some bs @ map Some xs @ ?z" by (simp add: padded_def)
  moreover have "4 dvd length bs" using assms(1) by (simp add: pk_writing_def)
  ultimately have "pk_rep p2 (bs @ padded xs)"
    using p2(2,3) c(4) align4_bounds(3) [of ?n] unfolding pk_rep_def by (simp, blast)
  then show ?thesis using c(1) p2(1,4) by (simp add: pk_WriteBytesCommon_def)
qed

lemma new_rep: "\<exists>p. Pickle_new = Some p \<and> pk_rep p [] \<and> pk_header_size p = 4"
proof -
  let ?m = "replicate 68 None :: byte option list"
  let ?p = "\<lparr>pk_header = Some ?m, pk_header_size = 4, pk_capacity_after_header = 64, pk_write_offset = 0\<rparr>"
  have "pk_Resize \<lparr>pk_header = None, pk_header_size = 4, pk_capacity_after_header = 0, pk_write_offset = 0\<rparr> 64 = Some ?p"
    by (simp add: pk_Resize_def kCapacityReadOnly_def kPayloadUnit_def Align_64 pk_GetTotalAllocatedSize_def mem_realloc_def)
  moreover have "pk_set_payload_size ?p 0 = Some (?p\<lparr>pk_header := Some (map Some (to_bytes 4 0) @ replicate 64 None)\<rparr>)"
    by (simp add: pk_set_payload_size_def pk_store_def mem_store_def static_cast_def)
  moreover have "pk_rep (?p\<lparr>pk_header := Some (map Some (to_bytes 4 0) @ replicate 64 None)\<rparr>) []"
    unfolding pk_rep_def pk_block_def
    by (simp add: exI [of _ "map Some (to_bytes 4 0)"])
  ultimately show ?thesis by (simp add: Pickle_new_def kPayloadUnit_def)
qed


section \<open>Values\<close>

text \<open>What can be written and read, and how it is encoded.\<close>

datatype pk_value = VBool bool | VInt int | VLong int | VUInt16 int | VUInt32 int | VInt64 int | VUInt64 int
  | VFloat int | VDouble int | VString "byte list" | VString16 "16 word list" | VData "byte list" | VBytes "byte list"

datatype pk_type = TBool | TInt | TLong | TUInt16 | TUInt32 | TInt64 | TUInt64 | TFloat | TDouble
  | TString | TString16 | TData | TBytes int | TLength | TSkip int

fun pk_write :: "Pickle \<Rightarrow> pk_value \<Rightarrow> Pickle option" where
  "pk_write p (VBool b) = pk_WriteBool p b"
| "pk_write p (VInt v) = pk_WriteInt p v"
| "pk_write p (VLong v) = pk_WriteLong p v"
| "pk_write p (VUInt16 v) = pk_WritePOD p uint16 v"
| "pk_write p (VUInt32 v) = pk_WritePOD p uint32 v"
| "pk_write p (VInt64 v) = pk_WritePOD p int64 v"
| "pk_write p (VUInt64 v) = pk_WritePOD p uint64 v"
| "pk_write p (VFloat v) = pk_WritePOD p uint32 v"
| "pk_write p (VDouble v) = pk_WritePOD p uint64 v"
| "pk_write p (VString bs) = pk_WriteString p bs"
| "pk_write p (VString16 cs) = pk_WriteString16 p cs"
| "pk_write p (VData bs) = pk_WriteData p bs (int (length bs))"
| "pk_write p (VBytes bs) = pk_WriteBytes p bs (int (length bs))"

definition read_as :: "(PickleIterator \<times> 'a option) option \<Rightarrow> ('a \<Rightarrow> pk_value) \<Rightarrow> (PickleIterator \<times> pk_value option) option" where
  "read_as r f = map_option (\<lambda>(it, v). (it, map_option f v)) r"

fun pk_read :: "math_cfg \<Rightarrow> PickleIterator \<Rightarrow> pk_type \<Rightarrow> (PickleIterator \<times> pk_value option) option" where
  "pk_read cfg it TBool = read_as (it_ReadBool it) VBool"
| "pk_read cfg it TInt = read_as (it_ReadInt it) VInt"
| "pk_read cfg it TLong = read_as (it_ReadLong it) VLong"
| "pk_read cfg it TUInt16 = read_as (it_ReadBuiltinType uint16 it) VUInt16"
| "pk_read cfg it TUInt32 = read_as (it_ReadBuiltinType uint32 it) VUInt32"
| "pk_read cfg it TInt64 = read_as (it_ReadBuiltinType int64 it) VInt64"
| "pk_read cfg it TUInt64 = read_as (it_ReadBuiltinType uint64 it) VUInt64"
| "pk_read cfg it TFloat = read_as (it_ReadBuiltinType uint32 it) VFloat"
| "pk_read cfg it TDouble = read_as (it_ReadBuiltinType uint64 it) VDouble"
| "pk_read cfg it TString = read_as (it_ReadString it) VString"
| "pk_read cfg it TString16 = read_as (it_ReadString16 cfg it) VString16"
| "pk_read cfg it TData = map_option (\<lambda>(it, d, _). (it, map_option VData d)) (it_ReadData it)"
| "pk_read cfg it (TBytes n) = read_as (it_ReadBytes it n) VBytes"
| "pk_read cfg it TLength = read_as (it_ReadLength it) VInt"
| "pk_read cfg it (TSkip n) = map_option (\<lambda>(it, b). (it, if b then Some (VBytes []) else None)) (it_SkipBytes it n)"

fun pk_write_all :: "Pickle \<Rightarrow> pk_value list \<Rightarrow> Pickle option" where
  "pk_write_all p [] = Some p"
| "pk_write_all p (v # vs) = do { p \<leftarrow> pk_write p v; pk_write_all p vs }"

fun pk_read_all :: "math_cfg \<Rightarrow> PickleIterator \<Rightarrow> pk_type list \<Rightarrow> (PickleIterator \<times> pk_value option list) option" where
  "pk_read_all cfg it [] = Some (it, [])"
| "pk_read_all cfg it (t # ts) = do {
     (it, v) \<leftarrow> pk_read cfg it t;
     (it, vs) \<leftarrow> pk_read_all cfg it ts;
     Some (it, v # vs)
   }"

fun pk_type_of :: "pk_value \<Rightarrow> pk_type" where
  "pk_type_of (VBool _) = TBool"
| "pk_type_of (VInt _) = TInt"
| "pk_type_of (VLong _) = TLong"
| "pk_type_of (VUInt16 _) = TUInt16"
| "pk_type_of (VUInt32 _) = TUInt32"
| "pk_type_of (VInt64 _) = TInt64"
| "pk_type_of (VUInt64 _) = TUInt64"
| "pk_type_of (VFloat _) = TFloat"
| "pk_type_of (VDouble _) = TDouble"
| "pk_type_of (VString _) = TString"
| "pk_type_of (VString16 _) = TString16"
| "pk_type_of (VData _) = TData"
| "pk_type_of (VBytes bs) = TBytes (int (length bs))"

fun value_ok :: "pk_value \<Rightarrow> bool" where
  "value_ok (VInt v) = in_range int32 v"
| "value_ok (VLong v) = in_range int64 v"
| "value_ok (VUInt16 v) = in_range uint16 v"
| "value_ok (VUInt32 v) = in_range uint32 v"
| "value_ok (VInt64 v) = in_range int64 v"
| "value_ok (VUInt64 v) = in_range uint64 v"
| "value_ok (VFloat v) = in_range uint32 v"
| "value_ok (VDouble v) = in_range uint64 v"
| "value_ok _ = True"

fun enc :: "pk_value \<Rightarrow> byte list" where
  "enc (VBool b) = to_bytes 4 (if b then 1 else 0)"
| "enc (VInt v) = to_bytes 4 v"
| "enc (VLong v) = to_bytes 8 v"
| "enc (VUInt16 v) = padded (to_bytes 2 v)"
| "enc (VUInt32 v) = to_bytes 4 v"
| "enc (VInt64 v) = to_bytes 8 v"
| "enc (VUInt64 v) = to_bytes 8 v"
| "enc (VFloat v) = to_bytes 4 v"
| "enc (VDouble v) = to_bytes 8 v"
| "enc (VString bs) = to_bytes 4 (int (length bs)) @ padded bs"
| "enc (VString16 cs) = to_bytes 4 (int (length cs)) @ padded (char16_bytes cs)"
| "enc (VData bs) = to_bytes 4 (int (length bs)) @ padded bs"
| "enc (VBytes bs) = padded bs"

lemma padded_id: "4 dvd length bs \<Longrightarrow> padded bs = bs"
  by (simp add: padded_def align4_id)

lemma length_char16_bytes [simp]: "length (char16_bytes cs) = 2 * length cs"
  by (induction cs) (auto simp: char16_bytes_def)

lemma WritePOD_spec:
  assumes "pk_writing p bs" "length bs + align4 (int_bits t div 8) < 2 ^ 32"
  shows "\<exists>p'. pk_WritePOD p t v = Some p' \<and> pk_rep p' (bs @ padded (to_bytes (int_bits t div 8) v)) \<and> pk_header_size p' = pk_header_size p"
  using WriteBytesCommon_spec [OF assms(1), of "to_bytes (int_bits t div 8) v"] assms(2) by (simp add: pk_WritePOD_def)

lemma Write4_spec:
  assumes "pk_writing p bs" "length bs + 4 < 2 ^ 32" "int_bits t = 32"
  shows "\<exists>p'. pk_WritePOD p t v = Some p' \<and> pk_rep p' (bs @ to_bytes 4 v) \<and> pk_header_size p' = pk_header_size p"
  using WritePOD_spec [OF assms(1), of t v] assms(2,3) by (simp add: padded_id align4_id)

lemma Write8_spec:
  assumes "pk_writing p bs" "length bs + 8 < 2 ^ 32" "int_bits t = 64"
  shows "\<exists>p'. pk_WritePOD p t v = Some p' \<and> pk_rep p' (bs @ to_bytes 8 v) \<and> pk_header_size p' = pk_header_size p"
  using WritePOD_spec [OF assms(1), of t v] assms(2,3) by (simp add: padded_id align4_id)

lemma cast_small: "0 \<le> v \<Longrightarrow> v < 2 ^ 31 \<Longrightarrow> static_cast int32 v = v" "0 \<le> v \<Longrightarrow> v < 2 ^ 31 \<Longrightarrow> static_cast uint64 v = v"
  by (intro static_cast_id; simp add: ctype_defs)+

lemma WriteBytes_spec:
  assumes "pk_writing p bs" "length bs + align4 (length xs) < 2 ^ 32" "length xs < 2 ^ 31"
  shows "\<exists>p'. pk_WriteBytes p xs (int (length xs)) = Some p' \<and> pk_rep p' (bs @ padded xs) \<and> pk_header_size p' = pk_header_size p"
  using WriteBytesCommon_spec [OF assms(1,2)] assms(3) by (simp add: pk_WriteBytes_def cast_small)

lemma write_counted:
  assumes "pk_rep p bs" "length bs + 4 + align4 (length xs) < 2 ^ 32" "length xs < 2 ^ 31"
  shows "\<exists>p1 p'. pk_WriteInt p k = Some p1 \<and> pk_WriteBytes p1 xs (int (length xs)) = Some p'
    \<and> pk_rep p' (bs @ to_bytes 4 k @ padded xs) \<and> pk_header_size p' = pk_header_size p"
proof -
  obtain p1 where p1: "pk_WriteInt p k = Some p1" "pk_rep p1 (bs @ to_bytes 4 k)" "pk_header_size p1 = pk_header_size p"
    using Write4_spec [OF rep_writing [OF assms(1)], of int32 k] assms(2) by (auto simp: pk_WriteInt_def)
  then show ?thesis using WriteBytes_spec [OF rep_writing [OF p1(2)], of xs] assms(2,3) by auto
qed

lemma write_spec:
  assumes rep: "pk_rep p bs" and ok: "value_ok v" and size: "length bs + length (enc v) < 2 ^ 31"
  shows "\<exists>p'. pk_write p v = Some p' \<and> pk_rep p' (bs @ enc v) \<and> pk_header_size p' = pk_header_size p"
proof (cases v)
  case (VString xs)
  then show ?thesis using write_counted [OF rep, of xs "int (length xs)"] size align4_bounds(1) [of "length xs"]
    by (auto simp: pk_WriteString_def cast_small)
next
  case (VString16 cs)
  have "2 * length cs < 2 ^ 31" using size VString16 align4_bounds(1) [of "2 * length cs"] by simp
  then show ?thesis using write_counted [OF rep, of "char16_bytes cs" "int (length cs)"] size VString16
    by (auto simp: pk_WriteString16_def cast_small mult.commute)
next
  case (VData xs)
  then show ?thesis using write_counted [OF rep, of xs "int (length xs)"] size align4_bounds(1) [of "length xs"]
    by (auto simp: pk_WriteData_def cast_small)
next
  case (VBytes xs)
  then show ?thesis using WriteBytes_spec [OF rep_writing [OF rep], of xs] size align4_bounds(1) [of "length xs"] by auto
next
  case (VUInt16 x)
  then show ?thesis using WritePOD_spec [OF rep_writing [OF rep], of uint16 x] size by simp
qed (use Write4_spec [OF rep_writing [OF rep]] Write8_spec [OF rep_writing [OF rep]] ok size in
    \<open>auto simp: pk_WriteBool_def pk_WriteInt_def pk_WriteLong_def split: if_splits\<close>)


lemma write_all_spec:
  assumes "pk_rep p bs" "\<forall>v \<in> set vs. value_ok v" "length bs + length (concat (map enc vs)) < 2 ^ 31"
  shows "\<exists>p'. pk_write_all p vs = Some p' \<and> pk_rep p' (bs @ concat (map enc vs)) \<and> pk_header_size p' = pk_header_size p"
  using assms
proof (induction vs arbitrary: p bs)
  case (Cons v vs)
  obtain p1 where p1: "pk_write p v = Some p1" "pk_rep p1 (bs @ enc v)" "pk_header_size p1 = pk_header_size p"
    using write_spec [OF Cons.prems(1), of v] Cons.prems(2,3) by auto
  show ?case using Cons.IH [OF p1(2)] Cons.prems(2,3) p1(1,3) by (auto simp: add.assoc)
qed simp

section \<open>What an iterator has left to read\<close>

definition it_at :: "bool \<Rightarrow> PickleIterator \<Rightarrow> byte list \<Rightarrow> bool" where
  "it_at z it r \<longleftrightarrow> (\<exists>bs junk. it_null it = z \<and> it_payload it = map Some bs @ junk \<and> it_end_index it = length bs \<and> length bs < 2 ^ 32
    \<and> it_read_index it \<le> length bs \<and> r = drop (it_read_index it) bs)"

lemma at_length: "it_at z it r \<Longrightarrow> it_end_index it - it_read_index it = length r \<and> length r < 2 ^ 32"
  by (auto simp: it_at_def)

lemma at_load: "it_at z it r \<Longrightarrow> n \<le> length r \<Longrightarrow> mem_load (it_payload it) (it_read_index it) n = Some (take n r)"
  by (auto simp: it_at_def mem_load_def o_def drop_map take_map)

lemma at_pointer: "it_at z it r \<Longrightarrow> it_pointer it = (if z \<and> it_read_index it = 0 then None else Some (it_read_index it))"
  by (auto simp: it_at_def it_pointer_def)

lemma at_end: "it_at z it r \<Longrightarrow> it_at z (it\<lparr>it_read_index := it_end_index it\<rparr>) []"
  by (auto simp: it_at_def)

lemma at_Advance:
  assumes "it_at z it r" "n \<le> length r"
  shows "\<exists>it'. it_Advance it n = Some it' \<and> it_at z it' (drop (align4 n) r)"
proof -
  have al: "bits_Align n 4 = Some (align4 n)" using assms(2) at_length [OF assms(1)] by (intro Align_4) simp
  show ?thesis
  proof (cases "length r < align4 n")
    case True
    then show ?thesis using at_end [OF assms(1)] at_length [OF assms(1)] al by (simp add: it_Advance_def)
  next
    case False
    then have "it_at z (it\<lparr>it_read_index := it_read_index it + align4 n\<rparr>) (drop (align4 n) r)"
      using assms(1) unfolding it_at_def by (fastforce simp: add.commute)
    then show ?thesis using False at_length [OF assms(1)] al by (simp add: it_Advance_def)
  qed
qed

lemma pointer_spec:
  assumes "it_at z it r"
  shows "\<exists>it'. it_GetReadPointerAndAdvance it n = Some (it', if n \<le> length r then it_pointer it else None)
    \<and> it_at z it' (if n \<le> length r then drop (align4 n) r else [])"
  using at_Advance [OF assms, of n] at_end [OF assms] at_length [OF assms]
  by (auto simp: it_GetReadPointerAndAdvance_def)

lemma pointer_bytes_spec:
  assumes "it_at z it r" "n < 2 ^ 31"
  shows "\<exists>it'. it_GetReadPointerAndAdvance_bytes it n = Some (it', if 0 \<le> n \<and> nat n \<le> length r then it_pointer it else None)
    \<and> it_at z it' (if 0 \<le> n \<and> nat n \<le> length r then drop (align4 (nat n)) r else [])"
  using at_Advance [OF assms(1), of "nat n"] at_end [OF assms(1)] at_length [OF assms(1)] assms(2) cast_small(2) [of n]
  by (cases "0 \<le> n") (auto simp: it_GetReadPointerAndAdvance_bytes_def)

lemma CheckedMul_pairs:
  assumes "in_range int32 n"
  shows "\<exists>v. CheckedMulOp cfg int32 uint64 uint64 n 2 0 = (in_range uint64 (2 * n), v) \<and> (in_range uint64 (2 * n) \<longrightarrow> v = 2 * n)"
proof (cases "CheckedMulFastOp_is_supported cfg int32 uint64")
  case True
  then show ?thesis by (simp add: CheckedMulOp_def CheckedMulFastOp_def mult.commute)
next
  case False
  have F: "FastIntegerArithmeticPromotion int32 uint64 = uint64" by code_simp
  have "in_range uint64 2" by (simp add: ctype_defs)
  moreover have "in_range uint64 (2 * n) \<Longrightarrow> in_range uint64 n" by (simp add: ctype_defs)
  ultimately show ?thesis
    using CheckedMulOp_correct [OF False, of uint64 n 2 0] assms F
    by (cases "CheckedMulOp cfg int32 uint64 uint64 n 2 0") (auto simp: mult.commute)
qed

lemma CheckMul_pairs:
  assumes "in_range int32 n"
  shows "it_GetReadPointerAndAdvance_array cfg it n 2
    = (if 0 \<le> n \<and> 2 * n < 2 ^ 31 then it_GetReadPointerAndAdvance_bytes it (2 * n) else Some (it, None))"
proof -
  have D: "MaxExponentPromotion int32 uint64 = uint64" by (simp add: MaxExponentPromotion_def MaxExponent_def nl_digits_def)
  obtain v where v: "CheckedMulOp cfg int32 uint64 uint64 n 2 0 = (in_range uint64 (2 * n), v)" "in_range uint64 (2 * n) \<Longrightarrow> v = 2 * n"
    using CheckedMul_pairs [OF assms, of cfg] by blast
  have two: "in_range uint64 2" by (simp add: ctype_defs)
  have c: "CheckMathOp cfg OpMul int32 uint64 (CheckedNumeric_of int32 int32 n) (CheckedNumeric_of uint64 uint64 2)
    = Some (CheckedNumericState2 uint64 uint64 v (in_range uint64 (2 * n)))"
    using v(1) assms two by (simp add: CheckMathOp_def cn_MathOp_def CheckedNumeric_of_def cn_IsValid_def D IsValueInRange_iff)
  have "cn_AssignIfValid int32 uint64 (CheckedNumericState2 uint64 uint64 v (in_range uint64 (2 * n))) 0
    = (if 0 \<le> n \<and> 2 * n < 2 ^ 31 then (True, 2 * n) else (False, 0))"
  proof (cases "in_range uint64 (2 * n)")
    case True
    then have "cn_AssignIfValid int32 uint64 (CheckedNumericState2 uint64 uint64 v True) 0
      = (if in_range int32 (2 * n) then (True, 2 * n) else (False, 0))"
      using v(2) by (simp add: cn_AssignIfValid_def CheckedNumericState2_def cn_IsValid_def IsValueInRange_iff)
    then show ?thesis using True by (auto simp: ctype_defs)
  next
    case False
    then show ?thesis using assms by (auto simp: cn_AssignIfValid_def CheckedNumericState2_def cn_IsValid_def ctype_defs)
  qed
  then show ?thesis using c D by (simp add: it_GetReadPointerAndAdvance_array_def)
qed

lemma builtin_spec:
  assumes "it_at z it r"
  shows "\<exists>it'. it_ReadBuiltinType t it
      = Some (it', if int_bits t div 8 \<le> length r \<and> it_pointer it \<noteq> None then Some (static_cast t (of_bytes (take (int_bits t div 8) r))) else None)
    \<and> it_at z it' (if int_bits t div 8 \<le> length r then drop (align4 (int_bits t div 8)) r else [])"
  using pointer_spec [OF assms, of "int_bits t div 8"] at_load [OF assms, of "int_bits t div 8"] at_pointer [OF assms]
  by (auto simp: it_ReadBuiltinType_def)

lemma bytes_spec:
  assumes "it_at z it r" "n < 2 ^ 31"
  shows "\<exists>it'. it_ReadBytes it n = Some (it', if 0 \<le> n \<and> nat n \<le> length r \<and> it_pointer it \<noteq> None then Some (take (nat n) r) else None)
    \<and> it_at z it' (if 0 \<le> n \<and> nat n \<le> length r then drop (align4 (nat n)) r else [])"
  using pointer_bytes_spec [OF assms] at_load [OF assms(1), of "nat n"] at_pointer [OF assms(1)]
  by (auto simp: it_ReadBytes_def)

text \<open>From a pickle whose bytes were rejected not even nothing can be read.\<close>

lemma rejected_pickle_reads_nothing:
  assumes "pk_header p = None" "pk_header_size p = 0" "n < 2 ^ 31"
  shows "\<exists>it it'. PickleIterator_of p = Some it \<and> it_ReadBytes it n = Some (it', None)"
proof -
  let ?it = "\<lparr>it_null = True, it_payload = [], it_read_index = 0, it_end_index = 0\<rparr>"
  have "PickleIterator_of p = Some ?it" using assms(1,2) by (simp add: PickleIterator_of_def pk_payload_size_def)
  moreover have "it_at True ?it []" by (simp add: it_at_def)
  moreover have "it_pointer ?it = None" by (simp add: it_pointer_def)
  ultimately show ?thesis using bytes_spec [of True ?it "[]" n] assms(3) by auto
qed

section \<open>Reading is total\<close>

fun type_ok :: "pk_type \<Rightarrow> bool" where
  "type_ok TBool = False"
| "type_ok (TBytes n) = in_range int32 n"
| "type_ok (TSkip n) = in_range int32 n"
| "type_ok _ = True"

lemma ReadBytes_total:
  assumes "it_at z it r" "n < 2 ^ 31"
  shows "\<exists>it' v r'. it_ReadBytes it n = Some (it', v) \<and> it_at z it' r'"
  using bytes_spec [OF assms] by blast

lemma ReadBuiltin_total:
  assumes "it_at z it r"
  shows "\<exists>it' v r'. it_ReadBuiltinType t it = Some (it', v) \<and> it_at z it' r'
    \<and> (cint t \<longrightarrow> (\<forall>x. v = Some x \<longrightarrow> in_range t x))"
  using builtin_spec [OF assms, of t] by (auto simp: static_cast_in_range)

lemma ReadInt_total:
  assumes "it_at z it r"
  shows "\<exists>it' v r'. it_ReadInt it = Some (it', v) \<and> it_at z it' r' \<and> (\<forall>n. v = Some n \<longrightarrow> in_range int32 n \<and> n < 2 ^ 31)"
  using ReadBuiltin_total [OF assms, of int32] by (auto simp: it_ReadInt_def ctype_defs)

lemma ReadString_total:
  assumes "it_at z it r"
  shows "\<exists>it' v r'. it_ReadString it = Some (it', v) \<and> it_at z it' r'"
    and "\<exists>it' v n r'. it_ReadData it = Some (it', v, n) \<and> it_at z it' r'"
    and "\<exists>it' v r'. it_ReadLength it = Some (it', v) \<and> it_at z it' r'"
proof -
  obtain it1 v r1 where i: "it_ReadInt it = Some (it1, v)" "it_at z it1 r1" "\<forall>n. v = Some n \<longrightarrow> in_range int32 n \<and> n < 2 ^ 31"
    using ReadInt_total [OF assms] by blast
  have b: "\<exists>it' x r'. it_ReadBytes it1 n = Some (it', x) \<and> it_at z it' r'" if "v = Some n" for n
    using ReadBytes_total [OF i(2)] i(3) that by blast
  show "\<exists>it' v r'. it_ReadString it = Some (it', v) \<and> it_at z it' r'"
    using i(1,2) b by (cases v) (auto simp: it_ReadString_def)
  show "\<exists>it' v n r'. it_ReadData it = Some (it', v, n) \<and> it_at z it' r'"
    using i(1,2) b by (cases v) (fastforce simp: it_ReadData_def)+
  show "\<exists>it' v r'. it_ReadLength it = Some (it', v) \<and> it_at z it' r'"
    using i(1,2) by (cases v) (auto simp: it_ReadLength_def)
qed

lemma array_spec:
  assumes "it_at z it r" "in_range int32 n"
  shows "\<exists>it' r'. it_GetReadPointerAndAdvance_array cfg it n 2
      = Some (it', if 0 \<le> n \<and> 2 * n < 2 ^ 31 \<and> nat (2 * n) \<le> length r then it_pointer it else None)
    \<and> it_at z it' r' \<and> (0 \<le> n \<and> 2 * n < 2 ^ 31 \<and> nat (2 * n) \<le> length r \<longrightarrow> r' = drop (align4 (nat (2 * n))) r)"
proof (cases "0 \<le> n \<and> 2 * n < 2 ^ 31")
  case True
  then show ?thesis using pointer_bytes_spec [OF assms(1), of "2 * n"] by (auto simp: CheckMul_pairs [OF assms(2)])
next
  case False
  then show ?thesis using assms(1) by (auto simp: CheckMul_pairs [OF assms(2)])
qed

lemma ReadString16_total:
  assumes "it_at z it r"
  shows "\<exists>it' v r'. it_ReadString16 cfg it = Some (it', v) \<and> it_at z it' r'"
proof -
  obtain it1 v r1 where i: "it_ReadInt it = Some (it1, v)" "it_at z it1 r1" "\<forall>n. v = Some n \<longrightarrow> in_range int32 n \<and> n < 2 ^ 31"
    using ReadInt_total [OF assms] by blast
  show ?thesis
  proof (cases v)
    case (Some n)
    obtain it2 r2 where a: "it_GetReadPointerAndAdvance_array cfg it1 n 2
        = Some (it2, if 0 \<le> n \<and> 2 * n < 2 ^ 31 \<and> nat (2 * n) \<le> length r1 then it_pointer it1 else None)" "it_at z it2 r2"
      using array_spec [OF i(2)] i(3) Some by blast
    have "2 * nat n = nat (2 * n)" by (simp add: nat_mult_distrib)
    then show ?thesis using a i(1) Some at_load [OF i(2), of "2 * nat n"] at_pointer [OF i(2)]
      by (auto simp: it_ReadString16_def)
  qed (use i in \<open>auto simp: it_ReadString16_def\<close>)
qed

lemma read_total:
  assumes "it_at z it r" "type_ok t"
  shows "\<exists>it' v r'. pk_read cfg it t = Some (it', v) \<and> it_at z it' r'"
proof (cases t)
  case TString
  then show ?thesis using ReadString_total(1) [OF assms(1)] by (auto simp: read_as_def)
next
  case TString16
  then show ?thesis using ReadString16_total [OF assms(1), of cfg] by (auto simp: read_as_def)
next
  case TData
  then show ?thesis using ReadString_total(2) [OF assms(1)] by fastforce
next
  case TLength
  then show ?thesis using ReadString_total(3) [OF assms(1)] by (auto simp: read_as_def)
next
  case (TBytes n)
  then show ?thesis using ReadBytes_total [OF assms(1), of n] assms(2) by (auto simp: read_as_def ctype_defs)
next
  case (TSkip n)
  then show ?thesis using pointer_bytes_spec [OF assms(1), of n] assms(2) by (auto simp: it_SkipBytes_def ctype_defs)
next
  case TLong
  obtain it' v r' where b: "it_ReadBuiltinType int64 it = Some (it', v)" "it_at z it' r'" "\<forall>x. v = Some x \<longrightarrow> in_range int64 x"
    using ReadBuiltin_total [OF assms(1), of int64] by auto
  then show ?thesis using TLong by (cases v) (auto simp: it_ReadLong_def checked_cast_def read_as_def)
next
  case TInt
  then show ?thesis using ReadBuiltin_total [OF assms(1), of int32] by (auto simp: read_as_def it_ReadInt_def)
qed (use assms(2) ReadBuiltin_total [OF assms(1)] in \<open>fastforce simp: read_as_def\<close>)+


section \<open>What was written is read\<close>

lemma take_padded: "take (length xs) (padded xs @ r) = xs" "drop (align4 (length xs)) (padded xs @ r) = r"
  "length xs \<le> length (padded xs @ r)"
  using align4_bounds(1) [of "length xs"] by (simp_all add: padded_def)

lemma read_POD:
  assumes "it_at False it (padded (to_bytes (int_bits t div 8) v) @ r)" "cint t" "in_range t v"
  shows "\<exists>it'. it_ReadBuiltinType t it = Some (it', Some v) \<and> it_at False it' r"
  using builtin_spec [OF assms(1), of t] take_padded [of "to_bytes (int_bits t div 8) v" r] load_store_value [OF assms(2,3)]
    at_pointer [OF assms(1)] by auto

lemma read_POD4:
  assumes "it_at False it (to_bytes 4 v @ r)" "int_bits t = 32" "in_range t v"
  shows "\<exists>it'. it_ReadBuiltinType t it = Some (it', Some v) \<and> it_at False it' r"
  using read_POD [of it t v r] assms by (simp add: padded_id cint_def)

lemma read_POD8:
  assumes "it_at False it (to_bytes 8 v @ r)" "int_bits t = 64" "in_range t v"
  shows "\<exists>it'. it_ReadBuiltinType t it = Some (it', Some v) \<and> it_at False it' r"
  using read_POD [of it t v r] assms by (simp add: padded_id cint_def)

lemma read_bytes:
  assumes "it_at False it (padded xs @ r)" "length xs < 2 ^ 31"
  shows "\<exists>it'. it_ReadBytes it (int (length xs)) = Some (it', Some xs) \<and> it_at False it' r"
  using bytes_spec [OF assms(1), of "int (length xs)"] assms(2) take_padded [of xs r] at_pointer [OF assms(1)] by auto

lemma read_count:
  assumes "it_at False it (to_bytes 4 (int n) @ r)" "n < 2 ^ 31"
  shows "\<exists>it'. it_ReadInt it = Some (it', Some (int n)) \<and> it_at False it' r"
  using read_POD4 [OF assms(1), of int32] assms(2) by (simp add: it_ReadInt_def ctype_defs)

lemma char16s_bytes: "char16s (char16_bytes cs) = cs"
proof (induction cs)
  case (Cons c cs)
  have "take_bit 16 (uint c) = uint c" using uint_bounded [of c] by (intro take_bit_int_eq_self) auto
  then have "of_bytes (to_bytes 2 (uint c)) = uint c" by (simp add: of_to_bytes)
  then show ?case using Cons by (simp add: char16_bytes_def numeral_2_eq_2)
qed (simp add: char16_bytes_def)

lemma read_string16:
  assumes "it_at False it (to_bytes 4 (int (length cs)) @ padded (char16_bytes cs) @ r)" "2 * length cs < 2 ^ 31"
  shows "\<exists>it'. it_ReadString16 cfg it = Some (it', Some cs) \<and> it_at False it' r"
proof -
  obtain it1 where i: "it_ReadInt it = Some (it1, Some (int (length cs)))" "it_at False it1 (padded (char16_bytes cs) @ r)"
    using read_count [OF assms(1)] assms(2) by auto
  let ?n = "int (length cs)" and ?r = "padded (char16_bytes cs) @ r"
  have c: "in_range int32 ?n" "2 * ?n < 2 ^ 31" "nat (2 * ?n) = length (char16_bytes cs)"
    using assms(2) by (auto simp: ctype_defs nat_mult_distrib)
  note t = take_padded [of "char16_bytes cs" r]
  obtain it2 where a: "it_GetReadPointerAndAdvance_array cfg it1 ?n 2 = Some (it2, Some (it_read_index it1))" "it_at False it2 r"
    using array_spec [OF i(2) c(1), of cfg] c t at_pointer [OF i(2)] by auto
  have "mem_load (it_payload it1) (it_read_index it1) (2 * length cs) = Some (char16_bytes cs)"
    using at_load [OF i(2), of "2 * length cs"] t by simp
  then show ?thesis using i(1) a char16s_bytes [of cs] by (simp add: it_ReadString16_def)
qed

lemma read_bool:
  assumes "it_at False it (to_bytes 4 (if b then 1 else 0) @ r)"
  shows "\<exists>it'. it_ReadBool it = Some (it', Some b) \<and> it_at False it' r"
proof -
  have "take 1 (to_bytes 4 (if b then 1 else 0) @ r) = [if b then 1 else 0]" by (simp add: numeral_eq_Suc)
  moreover have "align4 1 = 4" by (simp add: align4_def)
  ultimately obtain it' where "it_ReadBuiltinType uint8 it = Some (it', Some (if b then 1 else 0))" "it_at False it' r"
    using builtin_spec [OF assms, of uint8] at_pointer [OF assms] by (auto simp: static_cast_def)
  then show ?thesis by (auto simp: it_ReadBool_def)
qed

lemma read_enc:
  assumes it: "it_at False it (enc v @ r)" and ok: "value_ok v" and size: "length (enc v) < 2 ^ 31"
  shows "\<exists>it'. pk_read cfg it (pk_type_of v) = Some (it', Some v) \<and> it_at False it' r"
proof (cases v)
  case (VBool b)
  then show ?thesis using read_bool [of it b r] it by (auto simp: read_as_def)
next
  case (VInt x)
  then show ?thesis using read_POD4 [of it x r int32] it ok by (auto simp: read_as_def it_ReadInt_def)
next
  case (VLong x)
  then obtain it' where "it_ReadBuiltinType int64 it = Some (it', Some x)" "it_at False it' r" using read_POD8 [of it x r int64] it ok by auto
  then show ?thesis using VLong ok by (auto simp: read_as_def it_ReadLong_def checked_cast_def)
next
  case (VUInt16 x)
  then show ?thesis using read_POD [of it uint16 x r] it ok by (auto simp: read_as_def)
next
  case (VUInt32 x)
  then show ?thesis using read_POD4 [of it x r uint32] it ok by (auto simp: read_as_def)
next
  case (VInt64 x)
  then show ?thesis using read_POD8 [of it x r int64] it ok by (auto simp: read_as_def)
next
  case (VUInt64 x)
  then show ?thesis using read_POD8 [of it x r uint64] it ok by (auto simp: read_as_def)
next
  case (VFloat x)
  then show ?thesis using read_POD4 [of it x r uint32] it ok by (auto simp: read_as_def)
next
  case (VDouble x)
  then show ?thesis using read_POD8 [of it x r uint64] it ok by (auto simp: read_as_def)
next
  case (VString xs)
  have len: "length xs < 2 ^ 31" using size VString align4_bounds(1) [of "length xs"] by simp
  then obtain it1 where "it_ReadInt it = Some (it1, Some (int (length xs)))" "it_at False it1 (padded xs @ r)"
    using read_count [of it "length xs"] it VString by auto
  then show ?thesis using read_bytes [of it1 xs r] len VString by (auto simp: read_as_def it_ReadString_def)
next
  case (VString16 cs)
  then show ?thesis using read_string16 [of it cs r cfg] it size align4_bounds(1) [of "2 * length cs"] by (auto simp: read_as_def)
next
  case (VData xs)
  have len: "length xs < 2 ^ 31" using size VData align4_bounds(1) [of "length xs"] by simp
  then obtain it1 where "it_ReadInt it = Some (it1, Some (int (length xs)))" "it_at False it1 (padded xs @ r)"
    using read_count [of it "length xs"] it VData by auto
  then show ?thesis using read_bytes [of it1 xs r] len VData by (auto simp: it_ReadData_def)
next
  case (VBytes xs)
  then show ?thesis using read_bytes [of it xs r] it size align4_bounds(1) [of "length xs"] by (auto simp: read_as_def)
qed

lemma read_all_enc:
  assumes "it_at False it (concat (map enc vs))" "\<forall>v \<in> set vs. value_ok v" "length (concat (map enc vs)) < 2 ^ 31"
  shows "\<exists>it'. pk_read_all cfg it (map pk_type_of vs) = Some (it', map Some vs)"
  using assms
proof (induction vs arbitrary: it)
  case (Cons v vs)
  obtain it1 where "pk_read cfg it (pk_type_of v) = Some (it1, Some v)" "it_at False it1 (concat (map enc vs))"
    using read_enc [of it v "concat (map enc vs)" cfg] Cons.prems by auto
  then show ?case using Cons.IH [of it1] Cons.prems(2,3) by auto
qed simp

lemma read_all_total:
  assumes "it_at z it r" "\<forall>t \<in> set ts. type_ok t"
  shows "\<exists>it' vs. pk_read_all cfg it ts = Some (it', vs) \<and> length vs = length ts"
  using assms
proof (induction ts arbitrary: it r)
  case (Cons t ts)
  obtain it1 v r1 where "pk_read cfg it t = Some (it1, v)" "it_at z it1 r1" using read_total [OF Cons.prems(1), of t cfg] Cons.prems(2) by auto
  then show ?case using Cons.IH [of it1 r1] Cons.prems(2) by auto
qed simp

section \<open>Blocks received from elsewhere\<close>

lemma unsigned_difference:
  assumes "0 \<le> x" "x < 2 ^ 32" "n < 2 ^ 31" "h = (n - x) mod 2 ^ 32" "h \<le> n"
  shows "x = n - (h :: int)"
proof (cases "x \<le> n")
  case True
  then show ?thesis using assms by simp
next
  case False
  have "(n - x) mod 2 ^ 32 = (n - x + 2 ^ 32) mod 2 ^ 32" by simp
  also have "\<dots> = n - x + 2 ^ 32" using False assms by (intro mod_pos_pos_trivial) auto
  finally show ?thesis using assms by simp
qed

lemma data_iterator:
  assumes "length data < 2 ^ 31"
  shows "\<exists>p it r z. Pickle_data data = Some p \<and> PickleIterator_of p = Some it \<and> it_at z it r
    \<and> (\<forall>bs h. data = to_bytes 4 (int (length bs)) @ h @ bs \<and> 4 dvd length h \<longrightarrow> r = bs \<and> \<not> z
      \<and> p = \<lparr>pk_header = Some (map Some data), pk_header_size = 4 + length h, pk_capacity_after_header = kCapacityReadOnly, pk_write_offset = 0\<rparr>)"
proof -
  define len where "len = int (length data)"
  define psz where "psz = of_bytes (take 4 data)"
  define h0 where "h0 = (if len \<ge> 4 then nat (static_cast uint32 (len - psz)) else 0)"
  define h1 where "h1 = (if h0 > length data then 0 else h0)"
  define h2 where "h2 = (if h1 \<noteq> align4 h1 then 0 else h1)"
  have len: "0 \<le> len" "len < 2 ^ 31" using assms by (auto simp: len_def)
  have psz: "0 \<le> psz" "psz < 2 ^ 32" if "len \<ge> 4" using of_bytes_range [of "take 4 data"] that by (auto simp: psz_def len_def)
  have "h1 \<le> length data" by (simp add: h1_def)
  then have "bits_Align h1 4 = Some (align4 h1)" using assms by (intro Align_4) simp
  then have p: "Pickle_data data = Some \<lparr>pk_header = (if h2 = 0 then None else Some (map Some data)), pk_header_size = h2,
      pk_capacity_after_header = kCapacityReadOnly, pk_write_offset = 0\<rparr>"
    unfolding Pickle_data_def Let_def h2_def h1_def h0_def len_def psz_def by simp
  have empty: "it_at True \<lparr>it_null = True, it_payload = [], it_read_index = 0, it_end_index = 0\<rparr> []" by (simp add: it_at_def)
  have h2: "h2 \<le> length data \<and> 4 \<le> length data \<and> nat psz = length data - h2" if "h2 \<noteq> 0"
  proof -
    have "h2 = h0" "h0 \<le> length data" "len \<ge> 4" using that by (auto simp: h2_def h1_def h0_def split: if_splits)
    moreover have "int h0 = (len - psz) mod 2 ^ 32"
      using \<open>len \<ge> 4\<close> by (simp add: h0_def static_cast_def take_bit_eq_mod)
    ultimately have "psz = len - int h0" using unsigned_difference [OF psz len(2)] by (simp add: len_def)
    then show ?thesis using \<open>h2 = h0\<close> \<open>h0 \<le> length data\<close> \<open>len \<ge> 4\<close> by (simp add: len_def nat_diff_distrib)
  qed
  define r where "r = (if h2 = 0 then [] else drop h2 data)"
  have it: "\<exists>it. PickleIterator_of \<lparr>pk_header = (if h2 = 0 then None else Some (map Some data)), pk_header_size = h2,
      pk_capacity_after_header = kCapacityReadOnly, pk_write_offset = 0\<rparr> = Some it \<and> it_at (h2 = 0) it r"
  proof (cases "h2 = 0")
    case True
    then show ?thesis using empty by (simp add: PickleIterator_of_def pk_payload_size_def r_def)
  next
    case False
    have "mem_load (map Some data) 0 4 = Some (take 4 data)" using h2 [OF False] by (auto simp: mem_load_def take_map o_def)
    moreover have "it_at False \<lparr>it_null = False, it_payload = map Some (drop h2 data), it_read_index = 0, it_end_index = length data - h2\<rparr> (drop h2 data)"
      using assms unfolding it_at_def by (intro exI [of _ "drop h2 data"] exI [of _ "[]"]) auto
    ultimately show ?thesis using False h2 [OF False] psz_def
      by (simp add: PickleIterator_of_def pk_payload_size_def pk_header_payload_size_def r_def drop_map)
  qed
  have shape: "r = bs \<and> h2 = 4 + length h" if d: "data = to_bytes 4 (int (length bs)) @ h @ bs" "4 dvd length h" for bs h
  proof -
    have n: "len = 4 + int (length h) + int (length bs)" using d(1) by (simp add: len_def)
    have "psz = int (length bs)" using d(1) n len by (simp add: psz_def of_to_bytes take_bit_int_eq_self)
    then have "len - psz = 4 + int (length h)" using n by simp
    moreover have "in_range uint32 (4 + int (length h))" using n len by (simp add: ctype_defs)
    ultimately have "static_cast uint32 (len - psz) = 4 + int (length h)" by (simp add: static_cast_id)
    then have "h0 = 4 + length h" using n by (simp add: h0_def nat_add_distrib)
    then have "h2 = 4 + length h" using d n by (simp add: h2_def h1_def align4_id)
    then show ?thesis using d(1) by (simp add: r_def)
  qed
  obtain it where it: "PickleIterator_of \<lparr>pk_header = (if h2 = 0 then None else Some (map Some data)), pk_header_size = h2,
      pk_capacity_after_header = kCapacityReadOnly, pk_write_offset = 0\<rparr> = Some it" "it_at (h2 = 0) it r"
    using it by blast
  show ?thesis
  proof (rule exI, rule exI [of _ it], rule exI [of _ r], rule exI [of _ "h2 = 0"], intro conjI allI impI)
    show "Pickle_data data = Some \<lparr>pk_header = (if h2 = 0 then None else Some (map Some data)), pk_header_size = h2,
      pk_capacity_after_header = kCapacityReadOnly, pk_write_offset = 0\<rparr>" by (rule p)
  qed (use it shape in auto)
qed


lemma shaped_iterator:
  assumes "length bs + 4 < 2 ^ 31"
  shows "\<exists>q it. Pickle_data (to_bytes 4 (int (length bs)) @ bs) = Some q \<and> PickleIterator_of q = Some it \<and> it_at False it bs
    \<and> q = \<lparr>pk_header = Some (map Some (to_bytes 4 (int (length bs)) @ bs)), pk_header_size = 4,
           pk_capacity_after_header = kCapacityReadOnly, pk_write_offset = 0\<rparr>"
proof -
  let ?d = "to_bytes 4 (int (length bs)) @ bs"
  have "length ?d < 2 ^ 31" using assms by simp
  from data_iterator [OF this] obtain q it r z where q: "Pickle_data ?d = Some q" "PickleIterator_of q = Some it" "it_at z it r"
    and shape: "\<forall>bs h. ?d = to_bytes 4 (int (length bs)) @ h @ bs \<and> 4 dvd length h \<longrightarrow> r = bs \<and> \<not> z
      \<and> q = \<lparr>pk_header = Some (map Some ?d), pk_header_size = 4 + length h, pk_capacity_after_header = kCapacityReadOnly, pk_write_offset = 0\<rparr>"
    by blast
  have "r = bs \<and> z = False \<and> q = \<lparr>pk_header = Some (map Some ?d), pk_header_size = 4, pk_capacity_after_header = kCapacityReadOnly, pk_write_offset = 0\<rparr>"
    using shape [rule_format, of bs "[]"] by simp
  then show ?thesis using q by blast
qed

lemma data_prefix:
  assumes "pk_header p = Some (map Some (to_bytes 4 (int (length bs)) @ bs) @ rest)" "pk_header_size p = 4" "length bs < 2 ^ 32"
  shows "pk_header_payload_size p = Some (length bs)" "pk_data p = Some (to_bytes 4 (int (length bs)) @ bs)"
proof -
  have "nat (of_bytes (to_bytes 4 (int (length bs)))) = length bs" using assms(3) by (simp add: of_to_bytes take_bit_int_eq_self)
  moreover have "mem_load (map Some (to_bytes 4 (int (length bs)) @ bs) @ rest) 0 4 = Some (to_bytes 4 (int (length bs)))"
    using load_app [of "[]" 0 "to_bytes 4 (int (length bs))" 4 "map Some bs @ rest"] by simp
  ultimately show n: "pk_header_payload_size p = Some (length bs)" using assms(1) by (simp add: pk_header_payload_size_def)
  show "pk_data p = Some (to_bytes 4 (int (length bs)) @ bs)"
    using n assms(1,2) load_app [of "[]" 0 "to_bytes 4 (int (length bs)) @ bs" "4 + length bs" rest] by (simp add: pk_data_def pk_size_def)
qed

lemma rep_data:
  assumes "pk_rep p bs" "pk_header_size p = 4"
  shows "pk_data p = Some (to_bytes 4 (int (length bs)) @ bs)"
    and "\<exists>it. PickleIterator_of p = Some it \<and> it_at False it bs"
proof -
  obtain h rest where b: "pk_header p = Some (h @ map Some bs @ rest)" "length h = 4" "take 4 h = map Some (to_bytes 4 (int (length bs)))"
    "length bs < 2 ^ 32"
    using assms by (auto simp: pk_rep_def pk_block_def)
  have m: "pk_header p = Some (map Some (to_bytes 4 (int (length bs)) @ bs) @ rest)" using b by simp
  note d = data_prefix [OF m assms(2) b(4)]
  show "pk_data p = Some (to_bytes 4 (int (length bs)) @ bs)" by (rule d(2))
  have "it_at False \<lparr>it_null = False, it_payload = map Some bs @ rest, it_read_index = 0, it_end_index = length bs\<rparr> bs"
    using b(4) unfolding it_at_def by auto
  then show "\<exists>it. PickleIterator_of p = Some it \<and> it_at False it bs"
    using d(1) m assms(2) by (auto simp: PickleIterator_of_def pk_payload_size_def)
qed

lemma copy_spec:
  assumes "p = \<lparr>pk_header = Some (map Some (to_bytes 4 (int (length bs)) @ bs)), pk_header_size = 4,
      pk_capacity_after_header = c, pk_write_offset = 0\<rparr>" "length bs < 2 ^ 31"
  shows "\<exists>q. Pickle_copy p = Some q \<and> pk_data q = Some (to_bytes 4 (int (length bs)) @ bs) \<and> pk_writing q [] \<and> pk_header_size q = 4"
proof -
  let ?n = "length bs" and ?d = "to_bytes 4 (int (length bs)) @ bs"
  let ?c = "64 * ((?n + 63) div 64)"
  let ?r = "replicate (?c - ?n) (None :: byte option)"
  let ?q = "\<lparr>pk_header = Some (map Some ?d @ ?r), pk_header_size = 4, pk_capacity_after_header = ?c, pk_write_offset = 0\<rparr>"
  have c: "?n \<le> ?c" "?c < 2 ^ 32" using assms(2) by auto
  have n: "pk_header_payload_size p = Some ?n" using data_prefix(1) [of p bs "[]"] assms by simp
  have "pk_Resize \<lparr>pk_header = None, pk_header_size = 4, pk_capacity_after_header = 0, pk_write_offset = 0\<rparr> ?n
      = Some (?q\<lparr>pk_header := Some (replicate (4 + ?c) None)\<rparr>)"
    using assms(2) c(2) by (simp add: pk_Resize_def kCapacityReadOnly_def kPayloadUnit_def Align_64 pk_GetTotalAllocatedSize_def mem_realloc_def Let_def)
  moreover have "pk_copy_block (?q\<lparr>pk_header := Some (replicate (4 + ?c) None)\<rparr>) p = Some ?q"
    using n assms(1) c(1) by (simp add: pk_copy_block_def pk_size_def pk_store_def mem_store_def add.commute)
  ultimately have "Pickle_copy p = Some ?q" using n assms(1) by (simp add: Pickle_copy_def)
  moreover have "pk_data ?q = Some ?d" using data_prefix(2) [of ?q bs ?r] assms(2) by simp
  moreover have "pk_block ?q ?n (map Some (to_bytes 4 (int ?n))) [] (map Some bs @ ?r)"
    using c assms(2) by (simp add: pk_block_def)
  then have "pk_writing ?q []" unfolding pk_writing_def by auto
  ultimately show ?thesis by auto
qed

lemma PeekNext_spec:
  assumes "4 dvd hs" "4 \<le> hs" "hs \<le> 64" "hs \<le> length data"
  shows "pk_PeekNext cfg hs data = Some (Some (hs + nat (of_bytes (take 4 data))))"
proof -
  let ?n = "of_bytes (take 4 data)"
  have n: "0 \<le> ?n" "?n < 2 ^ 32" using of_bytes_range [of "take 4 data"] assms(2,4) by auto
  have C: "BigEnough_is_contained uint64 uint32" "MaxExponentPromotion uint64 uint32 = uint64" by code_simp+
  have r: "in_range uint64 (int hs)" "in_range uint32 ?n" "in_range uint64 (int hs + ?n)" using n assms(3) by (simp_all add: ctype_defs)
  have "ClampedAddOp cfg uint64 uint32 uint64 (int hs) ?n = int hs + ?n"
    using ClampedAddOp_clamps [of uint64 uint32 "int hs" ?n cfg] C r by (simp add: clamp_to_id)
  then have "ClampMathOp cfg False OpAdd uint64 uint32 (int hs) ?n = Some (int hs + ?n)"
    using C r by (simp add: ClampMathOp_def cl_MathOp_def ClampedNumeric_of_def saturated_cast_eq clamp_to_id)
  moreover have "bits_Align hs 4 = Some hs" using assms(1,3) by (simp add: Align_4 align4_id)
  ultimately show ?thesis using assms n by (simp add: pk_PeekNext_def kPayloadUnit_def nat_add_distrib)
qed

lemma FindNext_spec:
  assumes "length bs < 2 ^ 32"
  shows "pk_FindNext cfg 4 (to_bytes 4 (int (length bs)) @ bs @ rest) = Some (Some (4 + length bs))"
  using PeekNext_spec [of 4 "to_bytes 4 (int (length bs)) @ bs @ rest" cfg] assms
  by (simp add: pk_FindNext_def of_to_bytes take_bit_int_eq_self)

section \<open>Properties\<close>

text \<open>
  C28: values written to a pickle one after the other are read back, in that order and with those
  types, both from the pickle itself and from a pickle over a copy of its bytes, as on the other
  side of a pipe, and \<open>FindNext\<close> finds the end of those bytes in a longer stream; no check fails and no access is out of bounds on the way, as long as the whole
  fits in 31 bits.
\<close>

theorem pickle_round_trip:
  assumes "\<forall>v \<in> set vs. value_ok v" and "length (concat (map enc vs)) + 4 < 2 ^ 31"
  shows "\<exists>p data it it' q it2 it2'. do { p \<leftarrow> Pickle_new; pk_write_all p vs } = Some p \<and> pk_data p = Some data
    \<and> PickleIterator_of p = Some it \<and> pk_read_all cfg it (map pk_type_of vs) = Some (it', map Some vs)
    \<and> Pickle_data data = Some q \<and> PickleIterator_of q = Some it2
    \<and> pk_read_all cfg it2 (map pk_type_of vs) = Some (it2', map Some vs)
    \<and> pk_FindNext cfg 4 (data @ rest) = Some (Some (length data))"
proof -
  let ?bs = "concat (map enc vs)"
  obtain p where p: "do { p \<leftarrow> Pickle_new; pk_write_all p vs } = Some p" "pk_rep p ?bs" "pk_header_size p = 4"
    proof -
    obtain p0 where p0: "Pickle_new = Some p0" "pk_rep p0 []" "pk_header_size p0 = 4" using new_rep by blast
    obtain p where p: "pk_write_all p0 vs = Some p" "pk_rep p ?bs" "pk_header_size p = 4"
      using write_all_spec [OF p0(2) assms(1)] assms(2) p0(3) by auto
    have "do { p \<leftarrow> Pickle_new; pk_write_all p vs } = Some p" unfolding p0(1) using p(1) by simp
    then show ?thesis using p(2,3) by (rule that)
  qed
  note d = rep_data [OF p(2,3)]
  obtain it where it: "PickleIterator_of p = Some it" "it_at False it ?bs" using d(2) by blast
  obtain q it2 where q: "Pickle_data (to_bytes 4 (int (length ?bs)) @ ?bs) = Some q" "PickleIterator_of q = Some it2" "it_at False it2 ?bs"
    using shaped_iterator [of ?bs] assms(2) by auto
  show ?thesis
    using p(1) d(1) it(1) q(1,2) read_all_enc [OF it(2) assms(1), of cfg] read_all_enc [OF q(3) assms(1), of cfg]
      FindNext_spec [of ?bs cfg rest] assms(2) by fastforce
qed

theorem pickle_round_trip_witness:
  "\<exists>p it it'. do { p \<leftarrow> Pickle_new; pk_write_all p [VBool True, VInt (-5), VString [104, 105], VUInt16 9] } = Some p
    \<and> PickleIterator_of p = Some it
    \<and> pk_read_all \<lparr>backend = Clang, ptr_bits = 64\<rparr> it [TBool, TInt, TString, TUInt16]
        = Some (it', [Some (VBool True), Some (VInt (-5)), Some (VString [104, 105]), Some (VUInt16 9)])"
proof -
  have "\<forall>v \<in> set [VBool True, VInt (-5), VString [104, 105], VUInt16 9]. value_ok v" by (simp add: ctype_defs)
  moreover have "length (concat (map enc [VBool True, VInt (-5), VString [104, 105], VUInt16 9])) + 4 < 2 ^ 31"
    by (simp add: align4_def)
  ultimately show ?thesis using pickle_round_trip [of _ "\<lparr>backend = Clang, ptr_bits = 64\<rparr>" "[]"] by fastforce
qed

text \<open>
  C29: whatever bytes a pickle is made from and whatever is read from it, in any order and however
  many reads fail, no read leaves the block, reads raw memory or fails a check; reads of \<open>bool\<close>
  are the only exception.
\<close>

theorem pickle_reads_are_safe:
  assumes "length data < 2 ^ 31" and "\<forall>t \<in> set ts. type_ok t"
  shows "\<exists>p it it' vs. Pickle_data data = Some p \<and> PickleIterator_of p = Some it
    \<and> pk_read_all cfg it ts = Some (it', vs) \<and> length vs = length ts"
  using data_iterator [OF assms(1)] read_all_total [OF _ assms(2), of _ _ _ cfg] by blast

theorem pickle_reads_are_safe_witness:
  "\<exists>p it it' vs. Pickle_data [1, 0, 0, 0, 9] = Some p \<and> PickleIterator_of p = Some it
    \<and> pk_read_all \<lparr>backend = Clang, ptr_bits = 64\<rparr> it [TString16, TInt, TBytes (-1)] = Some (it', vs) \<and> length vs = 3"
  using pickle_reads_are_safe [of "[1, 0, 0, 0, 9]" "[TString16, TInt, TBytes (-1)]" "\<lparr>backend = Clang, ptr_bits = 64\<rparr>"]
  by (simp add: ctype_defs numeral_3_eq_3 del: pk_read_all.simps)

text \<open>
  C40: the copy of a pickle made from a block of bytes is writable but starts writing at offset 0:
  it holds the same bytes as the original, and after one write it holds that write alone.
\<close>

theorem copy_of_read_only_pickle_overwrites:
  assumes "length bs < 2 ^ 30"
  shows "\<exists>p q q'. Pickle_data (to_bytes 4 (int (length bs)) @ bs) = Some p \<and> Pickle_copy p = Some q
    \<and> pk_data q = Some (to_bytes 4 (int (length bs)) @ bs) \<and> pk_WriteInt q x = Some q'
    \<and> pk_data q' = Some (to_bytes 4 4 @ to_bytes 4 x)"
proof -
  let ?h = "to_bytes 4 (int (length bs))"
  let ?p = "\<lparr>pk_header = Some (map Some (?h @ bs)), pk_header_size = 4, pk_capacity_after_header = kCapacityReadOnly, pk_write_offset = 0\<rparr>"
  have p: "Pickle_data (?h @ bs) = Some ?p" using shaped_iterator [of bs] assms by auto
  obtain q where q: "Pickle_copy ?p = Some q" "pk_data q = Some (?h @ bs)" "pk_writing q []" "pk_header_size q = 4"
    using copy_spec [of ?p bs] assms by auto
  obtain q' where "pk_WriteInt q x = Some q'" "pk_rep q' (to_bytes 4 x)" "pk_header_size q' = 4"
    using Write4_spec [OF q(3), of int32 x] q(4) by (auto simp: pk_WriteInt_def)
  then show ?thesis using p q(1,2) rep_data(1) [of q' "to_bytes 4 x"] by auto
qed

theorem copy_of_read_only_pickle_overwrites_witness:
  "\<exists>p q q'. Pickle_data (to_bytes 4 4 @ to_bytes 4 7) = Some p \<and> Pickle_copy p = Some q
    \<and> pk_data q = Some (to_bytes 4 4 @ to_bytes 4 7) \<and> pk_WriteInt q 9 = Some q'
    \<and> pk_data q' = Some (to_bytes 4 4 @ to_bytes 4 9)"
  using copy_of_read_only_pickle_overwrites [of "to_bytes 4 7" 9] by simp

end
