(* ===== verification/Utf.thy ===== *)
theory Utf
  imports Prelude "HOL-Library.Monad_Syntax"
begin

text \<open>
  Unicode: the macros of \<open>base/third_party/icu/icu_utf.h\<close>, \<open>icu_utf.cc\<close>, the readers and writers of
  \<open>base/strings/utf_string_conversion_utils.cc\<close> and the conversions of
  \<open>base/strings/utf_string_conversions.cc\<close>, with the functions of \<open>base/strings/string_util.cc\<close> that
  decode text. Lengths are cast to \<open>int32_t\<close> where the code does so. A string is the list of its code units, each as an unsigned value (\<open>char\<close> is
  unsigned, as on ARM); a pointer into a string is the suffix that starts there, so the offset and
  the length a macro takes are the length of that suffix. Code points and the value -1 of
  \<open>CBU_SENTINEL\<close> are integers.
\<close>

unbundle bit_operations_syntax

section \<open>The macros of \<open>icu_utf.h\<close>\<close>

definition u8 :: "int \<Rightarrow> int" where "u8 v = v mod 256"
definition u16 :: "int \<Rightarrow> int" where "u16 v = v mod 65536"

definition CBU_SENTINEL :: int where "CBU_SENTINEL = - 1"

definition CBU_IS_UNICODE_NONCHAR :: "int \<Rightarrow> bool" where
  "CBU_IS_UNICODE_NONCHAR c \<longleftrightarrow> c \<ge> 0xfdd0 \<and> (c \<le> 0xfdef \<or> c AND 0xfffe = 0xfffe) \<and> c \<le> 0x10ffff"

definition CBU_IS_SURROGATE :: "int \<Rightarrow> bool" where
  "CBU_IS_SURROGATE c \<longleftrightarrow> c AND 0xfffff800 = 0xd800"

definition CBU8_LEAD3_T1_BITS :: "int list" where
  "CBU8_LEAD3_T1_BITS = [0x20, 0x30, 0x30, 0x30, 0x30, 0x30, 0x30, 0x30, 0x30, 0x30, 0x30, 0x30, 0x30, 0x10, 0x30, 0x30]"

definition CBU8_IS_VALID_LEAD3_AND_T1 :: "int \<Rightarrow> int \<Rightarrow> bool" where
  "CBU8_IS_VALID_LEAD3_AND_T1 lead t1 \<longleftrightarrow>
     CBU8_LEAD3_T1_BITS ! nat (lead AND 0xf) AND push_bit (nat (drop_bit 5 (u8 t1))) 1 \<noteq> 0"

definition CBU8_LEAD4_T1_BITS :: "int list" where
  "CBU8_LEAD4_T1_BITS = [0x00, 0x00, 0x00, 0x00, 0x00, 0x00, 0x00, 0x00, 0x1E, 0x0F, 0x0F, 0x0F, 0x00, 0x00, 0x00, 0x00]"

definition CBU8_IS_VALID_LEAD4_AND_T1 :: "int \<Rightarrow> int \<Rightarrow> bool" where
  "CBU8_IS_VALID_LEAD4_AND_T1 lead t1 \<longleftrightarrow>
     CBU8_LEAD4_T1_BITS ! nat (drop_bit 4 (u8 t1)) AND push_bit (nat (lead AND 7)) 1 \<noteq> 0"

definition CBU8_IS_SINGLE :: "int \<Rightarrow> bool" where
  "CBU8_IS_SINGLE c \<longleftrightarrow> c AND 0x80 = 0"

definition utf8_errorValue :: "int list" where
  "utf8_errorValue = [0x15, 0x9f, 0xffff, 0x10ffff, 0, 0]"

definition errorValue :: "nat \<Rightarrow> int \<Rightarrow> int" where
  "errorValue n strict =
     (if strict \<ge> 0 then utf8_errorValue ! n else if strict = - 3 then 0xfffd else CBU_SENTINEL)"

text \<open>
  The cases the macro does not handle inline: \<open>s\<close> is the text after the byte \<open>c\<close>. An error
  consumes the bytes that were valid so far.
\<close>

definition utf8_nextCharSafeBody :: "int list \<Rightarrow> int \<Rightarrow> int \<Rightarrow> int \<times> int list" where
  "utf8_nextCharSafeBody s c strict =
     (let err = (\<lambda>i. (errorValue i strict, drop i s)) in
      if s = [] \<or> c > 0xf4 then err 0
      else if c \<ge> 0xf0 then
        let t1 = s ! 0; c = c AND 7 in
        if \<not> CBU8_IS_VALID_LEAD4_AND_T1 c t1 then err 0
        else if length s = 1 \<or> u8 (s ! 1 - 0x80) > 0x3f then err 1
        else if length s = 2 \<or> u8 (s ! 2 - 0x80) > 0x3f then err 2
        else
          let t2 = u8 (s ! 1 - 0x80); t3 = u8 (s ! 2 - 0x80);
              c = push_bit 18 c OR push_bit 12 (t1 AND 0x3f) OR push_bit 6 t2 OR t3 in
          if strict \<le> 0 \<or> \<not> CBU_IS_UNICODE_NONCHAR c then (c, drop 3 s) else err 3
      else if c \<ge> 0xe0 then
        let c = c AND 0xf in
        if strict \<noteq> - 2 then
          let t1 = s ! 0 in
          if \<not> CBU8_IS_VALID_LEAD3_AND_T1 c t1 then err 0
          else if length s = 1 \<or> u8 (s ! 1 - 0x80) > 0x3f then err 1
          else
            let t2 = u8 (s ! 1 - 0x80); c = push_bit 12 c OR push_bit 6 (t1 AND 0x3f) OR t2 in
            if strict \<le> 0 \<or> \<not> CBU_IS_UNICODE_NONCHAR c then (c, drop 2 s) else err 2
        else
          let t1 = u8 (s ! 0 - 0x80) in
          if \<not> (t1 \<le> 0x3f \<and> (c > 0 \<or> t1 \<ge> 0x20)) then err 0
          else if length s = 1 \<or> u8 (s ! 1 - 0x80) > 0x3f then err 1
          else (push_bit 12 c OR push_bit 6 t1 OR u8 (s ! 1 - 0x80), drop 2 s)
      else if c \<ge> 0xc2 then
        let t1 = u8 (s ! 0 - 0x80) in
        if t1 \<le> 0x3f then (push_bit 6 (c - 0xc0) OR t1, drop 1 s) else err 0
      else err 0)"

text \<open>\<open>None\<close>: the macro reads past the end of the text.\<close>

fun CBU8_NEXT :: "int list \<Rightarrow> (int \<times> int list) option" where
  "CBU8_NEXT [] = None"
| "CBU8_NEXT (b # s) = Some
     (let c = u8 b in
      if CBU8_IS_SINGLE c then (c, s)
      else if (0xe0 \<le> c \<and> c < 0xf0) \<and> 1 < length s \<and> CBU8_IS_VALID_LEAD3_AND_T1 c (s ! 0) \<and> u8 (s ! 1 - 0x80) \<le> 0x3f
      then (push_bit 12 (c AND 0xf) OR push_bit 6 (u8 (s ! 0) AND 0x3f) OR u8 (s ! 1 - 0x80), drop 2 s)
      else if (c < 0xe0 \<and> c \<ge> 0xc2) \<and> s \<noteq> [] \<and> u8 (s ! 0 - 0x80) \<le> 0x3f
      then (push_bit 6 (c AND 0x1f) OR u8 (s ! 0 - 0x80), drop 1 s)
      else utf8_nextCharSafeBody s c (- 1))"

text \<open>The units a code point is written as; the caller says where.\<close>

definition CBU8_APPEND_UNSAFE :: "int \<Rightarrow> int list" where
  "CBU8_APPEND_UNSAFE c =
     (if c \<le> 0x7f then [u8 c]
      else
        (if c \<le> 0x7ff then [u8 (drop_bit 6 c OR 0xc0)]
         else
           (if c \<le> 0xffff then [u8 (drop_bit 12 c OR 0xe0)]
            else [u8 (drop_bit 18 c OR 0xf0), u8 ((drop_bit 12 c AND 0x3f) OR 0x80)])
           @ [u8 ((drop_bit 6 c AND 0x3f) OR 0x80)])
        @ [u8 ((c AND 0x3f) OR 0x80)])"

definition CBU16_IS_SINGLE :: "int \<Rightarrow> bool" where
  "CBU16_IS_SINGLE c \<longleftrightarrow> \<not> CBU_IS_SURROGATE c"

definition CBU16_IS_LEAD :: "int \<Rightarrow> bool" where
  "CBU16_IS_LEAD c \<longleftrightarrow> c AND 0xfffffc00 = 0xd800"

definition CBU16_IS_TRAIL :: "int \<Rightarrow> bool" where
  "CBU16_IS_TRAIL c \<longleftrightarrow> c AND 0xfffffc00 = 0xdc00"

definition CBU16_IS_SURROGATE :: "int \<Rightarrow> bool" where
  "CBU16_IS_SURROGATE c \<longleftrightarrow> CBU_IS_SURROGATE c"

definition CBU16_IS_SURROGATE_LEAD :: "int \<Rightarrow> bool" where
  "CBU16_IS_SURROGATE_LEAD c \<longleftrightarrow> c AND 0x400 = 0"

definition CBU16_SURROGATE_OFFSET :: int where
  "CBU16_SURROGATE_OFFSET = push_bit 10 0xd800 + 0xdc00 - 0x10000"

definition CBU16_GET_SUPPLEMENTARY :: "int \<Rightarrow> int \<Rightarrow> int" where
  "CBU16_GET_SUPPLEMENTARY lead trail = push_bit 10 lead + trail - CBU16_SURROGATE_OFFSET"

definition CBU16_LENGTH :: "int \<Rightarrow> nat" where
  "CBU16_LENGTH c = (if c \<le> 0xffff then 1 else 2)"

fun CBU16_NEXT :: "int list \<Rightarrow> (int \<times> int list) option" where
  "CBU16_NEXT [] = None"
| "CBU16_NEXT (c # s) = Some
     (if CBU16_IS_LEAD c \<and> s \<noteq> [] \<and> CBU16_IS_TRAIL (hd s) then (CBU16_GET_SUPPLEMENTARY c (hd s), tl s) else (c, s))"

definition CBU16_APPEND_UNSAFE :: "int \<Rightarrow> int list" where
  "CBU16_APPEND_UNSAFE c =
     (if c \<le> 0xffff then [u16 c] else [u16 (drop_bit 10 c + 0xd7c0), u16 ((c AND 0x3ff) OR 0xdc00)])"

section \<open>Reading and writing one character\<close>

text \<open>The argument is a \<open>uint32_t\<close>, so a negative code point becomes a large one.\<close>

definition IsValidCodepoint :: "int \<Rightarrow> bool" where
  "IsValidCodepoint v = (let code_point = v mod 2 ^ 32 in
     code_point < 0xD800 \<or> (code_point \<ge> 0xE000 \<and> code_point \<le> 0x10FFFF))"

definition IsValidCharacter :: "int \<Rightarrow> bool" where
  "IsValidCharacter v = (let code_point = v mod 2 ^ 32 in
     code_point < 0xD800 \<or> (code_point \<ge> 0xE000 \<and> code_point < 0xFDD0)
     \<or> (code_point > 0xFDEF \<and> code_point \<le> 0x10FFFF \<and> code_point AND 0xFFFE \<noteq> 0xFFFE))"

text \<open>
  \<open>ReadUnicodeCharacter\<close> on the whole source and an index: whether it succeeded, the index of the last
  unit read and the code point.
\<close>

definition ReadUnicodeCharacter8 :: "int list \<Rightarrow> nat \<Rightarrow> (bool \<times> nat \<times> int) option" where
  "ReadUnicodeCharacter8 src char_index = do {
     (code_point, rest) \<leftarrow> CBU8_NEXT (drop char_index src);
     Some (IsValidCodepoint code_point, length src - length rest - 1, code_point mod 2 ^ 32)
   }"

definition ReadUnicodeCharacter16 :: "int list \<Rightarrow> nat \<Rightarrow> int \<Rightarrow> (bool \<times> nat \<times> int) option" where
  "ReadUnicodeCharacter16 src char_index code_point =
     (if char_index < length src then
        let u = src ! char_index in
        if CBU16_IS_SURROGATE u then
          if \<not> CBU16_IS_SURROGATE_LEAD u \<or> char_index + 1 \<ge> length src \<or> \<not> CBU16_IS_TRAIL (src ! (char_index + 1))
          then Some (False, char_index, code_point)
          else
            let code_point = CBU16_GET_SUPPLEMENTARY u (src ! (char_index + 1)) in
            Some (IsValidCodepoint code_point, char_index + 1, code_point)
        else Some (IsValidCodepoint u, char_index, u)
      else None)"

definition ReadUnicodeCharacter32 :: "int list \<Rightarrow> nat \<Rightarrow> (bool \<times> nat \<times> int) option" where
  "ReadUnicodeCharacter32 src char_index =
     (if char_index < length src then Some (IsValidCodepoint (src ! char_index), char_index, src ! char_index) else None)"

definition WriteUnicodeCharacter8 :: "int \<Rightarrow> int list \<Rightarrow> nat \<times> int list" where
  "WriteUnicodeCharacter8 code_point output =
     (if code_point \<le> 0x7f then (1, output @ [u8 code_point])
      else
        let output' = output @ CBU8_APPEND_UNSAFE code_point in (length output' - length output, output'))"

definition WriteUnicodeCharacter16 :: "int \<Rightarrow> int list \<Rightarrow> nat \<times> int list" where
  "WriteUnicodeCharacter16 code_point output =
     (if CBU16_LENGTH code_point = 1 then (1, output @ [u16 code_point])
      else (2, output @ CBU16_APPEND_UNSAFE code_point))"

section \<open>Is a string ASCII?\<close>

text \<open>
  \<open>DoIsStringASCII\<close> reads the text in aligned machine words of eight bytes, little-endian. \<open>sz\<close> is the
  size of a character, \<open>a\<close> the address of the first one; \<open>None\<close> is a read past the end.
\<close>

definition kMachineWordAlignmentMask :: int where "kMachineWordAlignmentMask = 8 - 1"

definition IsAlignedToMachineWord :: "int \<Rightarrow> bool" where
  "IsAlignedToMachineWord pointer \<longleftrightarrow> pointer AND kMachineWordAlignmentMask = 0"

definition AlignToMachineWord :: "int \<Rightarrow> int" where
  "AlignToMachineWord pointer = pointer AND NOT kMachineWordAlignmentMask"

definition NonASCIIMask :: "nat \<Rightarrow> int" where
  "NonASCIIMask sz = (if sz = 1 then 0x8080808080808080 else if sz = 2 then 0xFF80FF80FF80FF80 else 0xFFFFFF80FFFFFF80)"

fun load_word :: "nat \<Rightarrow> int list \<Rightarrow> int" where
  "load_word sz [] = 0"
| "load_word sz (c # cs) = c OR push_bit (8 * sz) (load_word sz cs)"

fun ascii_prologue :: "nat \<Rightarrow> int \<Rightarrow> int list \<Rightarrow> int \<Rightarrow> int \<times> int list \<times> int" where
  "ascii_prologue sz a [] all_char_bits = (a, [], all_char_bits)"
| "ascii_prologue sz a (c # s) all_char_bits =
     (if \<not> IsAlignedToMachineWord a then ascii_prologue sz (a + int sz) s (all_char_bits OR c)
      else (a, c # s, all_char_bits))"

function ascii_words :: "nat \<Rightarrow> int \<Rightarrow> int \<Rightarrow> int list \<Rightarrow> int \<Rightarrow> (int list \<times> int) option" where
  "ascii_words sz word_end a s all_char_bits =
     (if a < word_end then
        let loop_increment = 8 div sz in
        if length s < loop_increment then None
        else ascii_words sz word_end (a + 8) (drop loop_increment s)
               (all_char_bits OR load_word sz (take loop_increment s))
      else Some (s, all_char_bits))"
  by auto
termination
  by (relation "measure (\<lambda>(sz, word_end, a, s, bits). nat (word_end - a))") auto

fun ascii_epilogue :: "int list \<Rightarrow> int \<Rightarrow> int" where
  "ascii_epilogue [] all_char_bits = all_char_bits"
| "ascii_epilogue (c # s) all_char_bits = ascii_epilogue s (all_char_bits OR c)"

definition IsStringASCII :: "nat \<Rightarrow> int \<Rightarrow> int list \<Rightarrow> bool option" where
  "IsStringASCII sz characters str =
     (let (a, s, bits) = ascii_prologue sz characters str 0 in do {
        (s, bits) \<leftarrow> ascii_words sz (AlignToMachineWord (characters + int (sz * length str))) a s bits;
        Some (ascii_epilogue s bits AND NonASCIIMask sz = 0)
      })"

section \<open>Conversions\<close>

definition kErrorCodePoint :: int where "kErrorCodePoint = 0xFFFD"

text \<open>
  Writing at the end of what is in the destination, which has room for \<open>cap\<close> units; its length
  is an \<open>int32_t\<close>. \<open>app\<close> gives the units of a code point in the encoding of the destination.
\<close>

definition UnicodeAppendUnsafe :: "(int \<Rightarrow> int list) \<Rightarrow> nat \<Rightarrow> int list \<Rightarrow> int \<Rightarrow> int list option" where
  "UnicodeAppendUnsafe app cap dest code_point =
     (let dest' = dest @ app code_point in
      if length dest' \<le> cap \<and> length dest' < 2 ^ 31 then Some dest' else None)"

lemma utf8_nextCharSafeBody_suffix: "length (snd (utf8_nextCharSafeBody s c strict)) \<le> length s"
  by (simp add: utf8_nextCharSafeBody_def Let_def)

lemma CBU8_NEXT_less: "CBU8_NEXT s = Some (c, r) \<Longrightarrow> length r < length s"
proof (cases s)
  case (Cons b t)
  moreover assume "CBU8_NEXT s = Some (c, r)"
  ultimately have "length r \<le> length t"
    using utf8_nextCharSafeBody_suffix [of t "u8 b" "- 1"]
    by (simp add: Let_def split: if_splits) (auto simp: dest: arg_cong [where f = snd])
  then show ?thesis using Cons by simp
qed simp

function DoUTFConversion8 :: "(int \<Rightarrow> int list) \<Rightarrow> nat \<Rightarrow> int list \<Rightarrow> int list \<Rightarrow> bool \<Rightarrow> (int list \<times> bool) option" where
  "DoUTFConversion8 app cap src dest success =
     (if src = [] then Some (dest, success)
      else do {
        (code_point, src) \<leftarrow> CBU8_NEXT src;
        let (code_point, success) = (if IsValidCodepoint code_point then (code_point, success) else (kErrorCodePoint, False));
        dest \<leftarrow> UnicodeAppendUnsafe app cap dest code_point;
        DoUTFConversion8 app cap src dest success
      })"
  by auto
termination
  by (relation "measure (\<lambda>(app, cap, src, dest, success). length src)") (auto dest: CBU8_NEXT_less)

definition ConvertSingleChar :: "int \<Rightarrow> bool \<Rightarrow> int \<times> bool" where
  "ConvertSingleChar c success =
     (if \<not> CBU16_IS_SINGLE c \<or> \<not> IsValidCodepoint c then (kErrorCodePoint, False) else (c, success))"

fun DoUTFConversion16 :: "(int \<Rightarrow> int list) \<Rightarrow> nat \<Rightarrow> int list \<Rightarrow> int list \<Rightarrow> bool \<Rightarrow> (int list \<times> bool) option" where
  "DoUTFConversion16 app cap (u # v # src) dest success =
     (if CBU16_IS_LEAD u \<and> CBU16_IS_TRAIL v then
        let code_point = CBU16_GET_SUPPLEMENTARY u v;
            (code_point, success) = (if IsValidCodepoint code_point then (code_point, success) else (kErrorCodePoint, False))
        in do { dest \<leftarrow> UnicodeAppendUnsafe app cap dest code_point; DoUTFConversion16 app cap src dest success }
      else
        let (code_point, success) = ConvertSingleChar u success
        in do { dest \<leftarrow> UnicodeAppendUnsafe app cap dest code_point; DoUTFConversion16 app cap (v # src) dest success })"
| "DoUTFConversion16 app cap [u] dest success =
     (let (code_point, success) = ConvertSingleChar u success
      in do { dest \<leftarrow> UnicodeAppendUnsafe app cap dest code_point; Some (dest, success) })"
| "DoUTFConversion16 app cap [] dest success = Some (dest, success)"

fun DoUTFConversion32 :: "(int \<Rightarrow> int list) \<Rightarrow> nat \<Rightarrow> int list \<Rightarrow> int list \<Rightarrow> bool \<Rightarrow> (int list \<times> bool) option" where
  "DoUTFConversion32 app cap [] dest success = Some (dest, success)"
| "DoUTFConversion32 app cap (u # src) dest success =
     (let (code_point, success) = (if IsValidCodepoint u then (u, success) else (kErrorCodePoint, False))
      in do { dest \<leftarrow> UnicodeAppendUnsafe app cap dest code_point; DoUTFConversion32 app cap src dest success })"

text \<open>
  \<open>UTFConversion\<close>: the sizes of the characters select the coefficient and the driver; \<open>a\<close> is the
  address of the source. The result is the destination and the success flag.
\<close>

definition size_coefficient :: "nat \<Rightarrow> nat \<Rightarrow> nat" where
  "size_coefficient src dest = (if src < dest then 1 else if src = 2 \<and> dest = 1 then 3 else if src = 4 \<and> dest = 1 then 4 else 2)"

definition unicode_append :: "nat \<Rightarrow> int \<Rightarrow> int list" where
  "unicode_append sz = (if sz = 1 then CBU8_APPEND_UNSAFE else if sz = 2 then CBU16_APPEND_UNSAFE else (\<lambda>c. [c]))"

definition DoUTFConversion ::
  "nat \<Rightarrow> (int \<Rightarrow> int list) \<Rightarrow> nat \<Rightarrow> int list \<Rightarrow> int list \<Rightarrow> bool \<Rightarrow> (int list \<times> bool) option" where
  "DoUTFConversion sz = (if sz = 1 then DoUTFConversion8 else if sz = 2 then DoUTFConversion16 else DoUTFConversion32)"

definition UTFConversion :: "nat \<Rightarrow> nat \<Rightarrow> int \<Rightarrow> int list \<Rightarrow> (int list \<times> bool) option" where
  "UTFConversion ssz dsz a src_str = do {
     ascii \<leftarrow> IsStringASCII ssz a src_str;
     if ascii then Some (src_str, True)
     else
       let cap = length src_str * size_coefficient ssz dsz;
           src_len32 = static_cast int32 (int (length src_str))
       in DoUTFConversion ssz (unicode_append dsz) cap (take (nat src_len32) src_str) [] True
   }"

definition UTF8ToUTF16 :: "int \<Rightarrow> int list \<Rightarrow> (int list \<times> bool) option" where
  "UTF8ToUTF16 = UTFConversion 1 2"

definition UTF16ToUTF8 :: "int \<Rightarrow> int list \<Rightarrow> (int list \<times> bool) option" where
  "UTF16ToUTF8 = UTFConversion 2 1"

definition WideToUTF16 :: "int \<Rightarrow> int list \<Rightarrow> (int list \<times> bool) option" where
  "WideToUTF16 = UTFConversion 4 2"

definition UTF16ToWide :: "int \<Rightarrow> int list \<Rightarrow> (int list \<times> bool) option" where
  "UTF16ToWide = UTFConversion 2 4"

definition UTF8ToWide :: "int \<Rightarrow> int list \<Rightarrow> (int list \<times> bool) option" where
  "UTF8ToWide = UTFConversion 1 4"

definition WideToUTF8 :: "int \<Rightarrow> int list \<Rightarrow> (int list \<times> bool) option" where
  "WideToUTF8 = UTFConversion 4 1"

definition ASCIIToUTF16 :: "int \<Rightarrow> int list \<Rightarrow> int list option" where
  "ASCIIToUTF16 a s = do { ascii \<leftarrow> IsStringASCII 1 a s; if ascii then Some s else None }"

definition UTF16ToASCII :: "int \<Rightarrow> int list \<Rightarrow> int list option" where
  "UTF16ToASCII a s = do { ascii \<leftarrow> IsStringASCII 2 a s; if ascii then Some (map u8 s) else None }"

section \<open>Checking and truncating UTF-8\<close>

function utf8_all_valid :: "int list \<Rightarrow> bool option" where
  "utf8_all_valid src =
     (if src = [] then Some True
      else do {
        (code_point, src) \<leftarrow> CBU8_NEXT src;
        if \<not> IsValidCharacter code_point then Some False else utf8_all_valid src
      })"
  by auto
termination
  by (relation "measure length") (auto dest: CBU8_NEXT_less)

definition IsStringUTF8 :: "int list \<Rightarrow> bool option" where
  "IsStringUTF8 str = utf8_all_valid (take (nat (static_cast int32 (int (length str)))) str)"

text \<open>
  The backward search of \<open>TruncateUTF8ToByteSize\<close>: from \<open>char_index = i - 1\<close> down, over the text cut
  at the truncation length; the result is \<open>char_index\<close> after the loop.
\<close>

fun truncate_search :: "int list \<Rightarrow> nat \<Rightarrow> int option" where
  "truncate_search s 0 = Some (- 1)"
| "truncate_search s (Suc i) = do {
     (code_point, rest) \<leftarrow> CBU8_NEXT (drop i s);
     if \<not> IsValidCharacter code_point \<or> \<not> IsValidCodepoint code_point then truncate_search s i
     else Some (int (length s - length rest))
   }"

definition TruncateUTF8ToByteSize :: "int list \<Rightarrow> nat \<Rightarrow> int list option" where
  "TruncateUTF8ToByteSize input byte_size =
     (if byte_size > length input then Some input
      else if int byte_size > 2 ^ 31 - 1 then None
      else do {
        char_index \<leftarrow> truncate_search (take byte_size input) byte_size;
        Some (if char_index \<ge> 0 then take (nat char_index) input else [])
      })"

declare DoUTFConversion8.simps [simp del] ascii_words.simps [simp del] utf8_all_valid.simps [simp del]

section \<open>Bit operations as arithmetic\<close>

lemma and_mask_mod: "x AND mask n = x mod 2 ^ n" for x :: int
  by (simp add: take_bit_eq_mask [symmetric] take_bit_eq_mod)

lemma and_low_masks [simp]:
  fixes x :: int
  shows "x AND 7 = x mod 8" "x AND 15 = x mod 16" "x AND 31 = x mod 32" "x AND 63 = x mod 64" "x AND 1023 = x mod 1024"
  using and_mask_mod [of x 3] and_mask_mod [of x 4] and_mask_mod [of x 5] and_mask_mod [of x 6] and_mask_mod [of x 10]
  by (simp_all add: mask_eq_exp_minus_1)

lemma or_shift:
  fixes x y :: int
  assumes "0 \<le> y" "y < 2 ^ n"
  shows "push_bit n x OR y = x * 2 ^ n + y" and "y OR push_bit n x = x * 2 ^ n + y"
proof -
  have "push_bit n x AND take_bit n y = 0" by (auto simp: bit_eq_iff bit_simps)
  then have "push_bit n x AND y = 0" using assms by (simp add: take_bit_int_eq_self)
  then show "push_bit n x OR y = x * 2 ^ n + y" using disjunctive_add_eq_or [of "push_bit n x" y] by (simp add: push_bit_eq_mult)
  then show "y OR push_bit n x = x * 2 ^ n + y" by (simp add: or.commute)
qed

lemma or_lead:
  fixes y :: int
  shows "0 \<le> y \<Longrightarrow> y < 64 \<Longrightarrow> y OR 128 = 128 + y" "0 \<le> y \<Longrightarrow> y < 32 \<Longrightarrow> y OR 192 = 192 + y"
  "0 \<le> y \<Longrightarrow> y < 16 \<Longrightarrow> y OR 224 = 224 + y" "0 \<le> y \<Longrightarrow> y < 8 \<Longrightarrow> y OR 240 = 240 + y"
  "0 \<le> y \<Longrightarrow> y < 1024 \<Longrightarrow> y OR 56320 = 56320 + y"
  using or_shift(2) [of y 6 2] or_shift(2) [of y 5 6] or_shift(2) [of y 4 14] or_shift(2) [of y 3 30] or_shift(2) [of y 10 55]
  by (simp_all add: push_bit_eq_mult)

lemma mod_window: "k * n \<le> t \<Longrightarrow> t < k * n + n \<Longrightarrow> t mod n = t - k * n" for k n t :: int
  using mod_mult_self1 [of "t - k * n" k n] by (simp add: mult.commute)

lemma div_mult_window:
  fixes x y n :: int
  shows "0 \<le> y \<Longrightarrow> y < n \<Longrightarrow> (x * n + y) div n = x" and "0 \<le> y \<Longrightarrow> y < n \<Longrightarrow> (x * n + y) mod n = y"
  by simp_all

section \<open>UTF-8\<close>

text \<open>The reference: the scalar values of Unicode and their UTF-8 encoding.\<close>

definition scalar :: "int \<Rightarrow> bool" where
  "scalar c \<longleftrightarrow> 0 \<le> c \<and> c < 0xd800 \<or> 0xe000 \<le> c \<and> c < 0x110000"

definition utf8_enc :: "int \<Rightarrow> int list" where
  "utf8_enc c =
     (if c < 0x80 then [c]
      else if c < 0x800 then [0xc0 + c div 64, 0x80 + c mod 64]
      else if c < 0x10000 then [0xe0 + c div 4096, 0x80 + c div 64 mod 64, 0x80 + c mod 64]
      else [0xf0 + c div 262144, 0x80 + c div 4096 mod 64, 0x80 + c div 64 mod 64, 0x80 + c mod 64])"

lemma CBU8_APPEND_enc:
  assumes "scalar c"
  shows "CBU8_APPEND_UNSAFE c = utf8_enc c"
proof -
  have "0 \<le> c" "c < 0x110000" using assms by (auto simp: scalar_def)
  then show ?thesis
    by (auto simp: CBU8_APPEND_UNSAFE_def utf8_enc_def u8_def drop_bit_eq_div or_lead)
qed

lemma IS_SINGLE_iff: "0 \<le> c \<Longrightarrow> c < 256 \<Longrightarrow> CBU8_IS_SINGLE c \<longleftrightarrow> c < 128"
proof -
  assume c: "0 \<le> c" "c < 256"
  have "CBU8_IS_SINGLE c \<longleftrightarrow> \<not> bit c 7"
    using and_exp_eq_0_iff_not_bit [of c 7] by (simp add: CBU8_IS_SINGLE_def)
  also have "\<dots> \<longleftrightarrow> c div 128 = 0" using c by (cases "c < 128") (simp_all add: bit_iff_odd int_div_pos_eq [of c 128 1 "c - 128"])
  also have "\<dots> \<longleftrightarrow> c < 128" using c by linarith
  finally show ?thesis .
qed

lemma lead3_table: "list_all (\<lambda>j. list_all (\<lambda>k. (CBU8_LEAD3_T1_BITS ! j AND push_bit k 1 \<noteq> 0) \<longleftrightarrow>
    (k = 4 \<or> k = 5) \<and> (j = 0 \<longrightarrow> k = 5) \<and> (j = 13 \<longrightarrow> k = 4)) [0..<8]) [0..<16]"
  by code_simp

lemma lead4_table: "list_all (\<lambda>j. list_all (\<lambda>k. (CBU8_LEAD4_T1_BITS ! k AND push_bit j 1 \<noteq> 0) \<longleftrightarrow>
    (8 \<le> k \<and> k < 12) \<and> (j = 0 \<longrightarrow> 9 \<le> k) \<and> (j = 4 \<longrightarrow> k = 8)) [0..<16]) [0..<5]"
  by code_simp

lemma VALID_LEAD3_iff:
  assumes "0xe0 \<le> l" "l < 0xf0" "0 \<le> t" "t < 256"
  shows "CBU8_IS_VALID_LEAD3_AND_T1 l t \<longleftrightarrow> 0x80 \<le> t \<and> t < 0xc0 \<and> (l = 0xe0 \<longrightarrow> 0xa0 \<le> t) \<and> (l = 0xed \<longrightarrow> t < 0xa0)"
proof -
  have m: "l mod 16 = l - 0xe0" using assms mod_window [of 14 16 l] by simp
  have d: "nat (t div 32) = 4 \<longleftrightarrow> 128 \<le> t \<and> t < 160" "nat (t div 32) = 5 \<longleftrightarrow> 160 \<le> t \<and> t < 192"
    using assms by linarith+
  have n: "nat (l mod 16) = 0 \<longleftrightarrow> l = 0xe0" "nat (l mod 16) = 13 \<longleftrightarrow> l = 0xed" unfolding m using assms(1) by auto
  have "nat (l mod 16) < 16" "nat (t div 32) < 8" "u8 t = t" using assms by (auto simp: u8_def)
  then have "CBU8_IS_VALID_LEAD3_AND_T1 l t \<longleftrightarrow> (nat (t div 32) = 4 \<or> nat (t div 32) = 5)
      \<and> (nat (l mod 16) = 0 \<longrightarrow> nat (t div 32) = 5) \<and> (nat (l mod 16) = 13 \<longrightarrow> nat (t div 32) = 4)"
    using lead3_table by (simp add: list_all_iff CBU8_IS_VALID_LEAD3_AND_T1_def drop_bit_eq_div)
  then show ?thesis unfolding d n by auto
qed

lemma VALID_LEAD4_iff:
  assumes "0 \<le> l" "l < 5" "0 \<le> t" "t < 256"
  shows "CBU8_IS_VALID_LEAD4_AND_T1 l t \<longleftrightarrow> 0x80 \<le> t \<and> t < 0xc0 \<and> (l = 0 \<longrightarrow> 0x90 \<le> t) \<and> (l = 4 \<longrightarrow> t < 0x90)"
proof -
  have "nat (l mod 8) < 5" "nat (t div 16) < 16" using assms by auto
  then have "(CBU8_LEAD4_T1_BITS ! nat (t div 16) AND push_bit (nat (l mod 8)) 1 \<noteq> 0) \<longleftrightarrow>
    (8 \<le> nat (t div 16) \<and> nat (t div 16) < 12) \<and> (nat (l mod 8) = 0 \<longrightarrow> 9 \<le> nat (t div 16)) \<and> (nat (l mod 8) = 4 \<longrightarrow> nat (t div 16) = 8)"
    using lead4_table by (simp add: list_all_iff)
  moreover have "u8 t = t" using assms by (simp add: u8_def)
  moreover have "nat (l mod 8) = nat l" using assms by simp
  moreover have "8 \<le> nat (t div 16) \<longleftrightarrow> 128 \<le> t" "9 \<le> nat (t div 16) \<longleftrightarrow> 144 \<le> t" "nat (t div 16) < 12 \<longleftrightarrow> t < 192"
    "nat (t div 16) = 8 \<longleftrightarrow> 128 \<le> t \<and> t < 144"
    using assms by linarith+
  ultimately show ?thesis using assms by (auto simp: CBU8_IS_VALID_LEAD4_AND_T1_def drop_bit_eq_div)
qed

text \<open>What the decoder does on bytes, written with comparisons: the cases of a valid sequence.\<close>

definition bytes :: "int list \<Rightarrow> bool" where
  "bytes s \<longleftrightarrow> (\<forall>b \<in> set s. 0 \<le> b \<and> b < 256)"

lemma bytes_simps [simp]: "bytes []" "bytes (b # s) \<longleftrightarrow> 0 \<le> b \<and> b < 256 \<and> bytes s" "bytes (s @ t) \<longleftrightarrow> bytes s \<and> bytes t"
  by (auto simp: bytes_def)

lemma bytes_drop [simp]: "bytes s \<Longrightarrow> bytes (drop n s)" "bytes s \<Longrightarrow> bytes (take n s)"
  by (auto simp: bytes_def dest: in_set_dropD in_set_takeD)

definition trail :: "int \<Rightarrow> bool" where
  "trail b \<longleftrightarrow> 0x80 \<le> b \<and> b < 0xc0"

lemma trail_mod: "trail t \<Longrightarrow> t mod 64 = t - 128"
  using mod_window [of 2 64 t] by (simp add: trail_def)

lemma u8_trail: "0 \<le> b \<Longrightarrow> b < 256 \<Longrightarrow> u8 (b - 128) \<le> 63 \<longleftrightarrow> trail b"
  using mod_window [of 0 256 "b - 128"] mod_window [of "- 1" 256 "b - 128"] by (cases "128 \<le> b") (auto simp: u8_def trail_def)

lemma u8_not_trail: "0 \<le> b \<Longrightarrow> b < 256 \<Longrightarrow> 63 < u8 (b - 128) \<longleftrightarrow> \<not> trail b"
  using u8_trail [of b] by linarith

lemma u8_trail_val: "trail b \<Longrightarrow> u8 (b - 128) = b - 128"
  by (simp add: u8_def trail_def)

lemma u8_id: "0 \<le> b \<Longrightarrow> b < 256 \<Longrightarrow> u8 b = b"
  by (simp add: u8_def)

definition dec3 :: "int \<Rightarrow> int \<Rightarrow> int \<Rightarrow> int" where
  "dec3 b t1 t2 = (b - 0xe0) * 4096 + (t1 - 0x80) * 64 + (t2 - 0x80)"

definition dec4 :: "int \<Rightarrow> int \<Rightarrow> int \<Rightarrow> int \<Rightarrow> int" where
  "dec4 b t1 t2 t3 = (b - 0xf0) * 262144 + (t1 - 0x80) * 4096 + (t2 - 0x80) * 64 + (t3 - 0x80)"

lemma or_dec2: "0xc2 \<le> b \<Longrightarrow> b < 0xe0 \<Longrightarrow> trail t \<Longrightarrow> push_bit 6 (b mod 32) OR (t - 128) = (b - 0xc0) * 64 + (t - 0x80)"
  using or_shift(1) [of "t - 128" 6 "b mod 32"] mod_window [of 6 32 b] by (simp add: trail_def)

lemma or_dec3:
  assumes "0 \<le> x" "trail t1" "trail t2"
  shows "push_bit 12 x OR push_bit 6 (t1 mod 64) OR (t2 - 128) = x * 4096 + (t1 - 0x80) * 64 + (t2 - 0x80)"
proof -
  have "push_bit 6 (t1 mod 64) OR (t2 - 128) = t1 mod 64 * 64 + (t2 - 128)"
    using or_shift(1) [of "t2 - 128" 6 "t1 mod 64"] assms(3) by (simp add: trail_def)
  then show ?thesis using or_shift(1) [of "t1 mod 64 * 64 + (t2 - 128)" 12 x] assms(2,3) trail_mod [OF assms(2)]
    by (simp add: trail_def or.assoc)
qed

lemma or_dec4:
  assumes "0 \<le> x" "trail t1" "trail t2" "trail t3"
  shows "push_bit 18 x OR push_bit 12 (t1 mod 64) OR push_bit 6 (t2 - 128) OR (t3 - 128)
    = x * 262144 + (t1 - 0x80) * 4096 + (t2 - 0x80) * 64 + (t3 - 0x80)"
proof -
  have "push_bit 12 (t1 mod 64) OR push_bit 6 (t2 - 128) OR (t3 - 128) = t1 mod 64 * 4096 + (t2 - 128) * 64 + (t3 - 128)"
    using or_dec3 [of "t1 mod 64" t2 t3] assms trail_mod [OF assms(3)] by simp
  then show ?thesis
    using or_shift(1) [of "t1 mod 64 * 4096 + (t2 - 128) * 64 + (t3 - 128)" 18 x] assms(2-4) trail_mod [OF assms(2)]
    by (simp add: trail_def or.assoc)
qed

lemma CBU8_NEXT_1: "0 \<le> b \<Longrightarrow> b < 128 \<Longrightarrow> CBU8_NEXT (b # s) = Some (b, s)"
  by (simp add: u8_id IS_SINGLE_iff)

lemma CBU8_NEXT_2:
  assumes "0xc2 \<le> b" "b < 0xe0" "trail t"
  shows "CBU8_NEXT (b # t # s) = Some ((b - 0xc0) * 64 + (t - 0x80), s)"
  using assms or_dec2 [OF assms] u8_trail_val [OF assms(3)] by (simp add: u8_id IS_SINGLE_iff trail_def)

lemma CBU8_NEXT_3:
  assumes "0xe0 \<le> b" "b < 0xf0" "trail t1" "b = 0xe0 \<longrightarrow> 0xa0 \<le> t1" "b = 0xed \<longrightarrow> t1 < 0xa0" "trail t2"
  shows "CBU8_NEXT (b # t1 # t2 # s) = Some (dec3 b t1 t2, s)"
proof -
  have "CBU8_IS_VALID_LEAD3_AND_T1 b t1" using assms VALID_LEAD3_iff [of b t1] by (simp add: trail_def)
  then show ?thesis
    using assms or_dec3 [of "b - 224" t1 t2] u8_trail_val [OF assms(6)] mod_window [of 14 16 b]
    by (simp add: u8_id IS_SINGLE_iff trail_def dec3_def)
qed

lemma CBU8_NEXT_4:
  assumes "0xf0 \<le> b" "b < 0xf5" "trail t1" "b = 0xf0 \<longrightarrow> 0x90 \<le> t1" "b = 0xf4 \<longrightarrow> t1 < 0x90" "trail t2" "trail t3"
  shows "CBU8_NEXT (b # t1 # t2 # t3 # s) = Some (dec4 b t1 t2 t3, s)"
proof -
  have m: "b mod 8 = b - 240" using assms mod_window [of 30 8 b] by simp
  have "CBU8_IS_VALID_LEAD4_AND_T1 (b mod 8) t1" using assms m VALID_LEAD4_iff [of "b - 240" t1] by (simp add: trail_def)
  then show ?thesis
    using assms m or_dec4 [of "b - 240" t1 t2 t3] u8_trail_val [OF assms(6)] u8_trail_val [OF assms(7)]
    by (simp add: u8_id IS_SINGLE_iff trail_def dec4_def utf8_nextCharSafeBody_def Let_def)
qed

declare CBU8_NEXT.simps [simp del]

lemma CBU8_NEXT_Nil [simp]: "CBU8_NEXT [] = None"
  by (simp add: CBU8_NEXT.simps)

lemma CBU8_NEXT_enc:
  assumes "scalar c"
  shows "CBU8_NEXT (utf8_enc c @ s) = Some (c, s)"
proof -
  define a b d where "a = c div 4096" and "b = c div 64 mod 64" and "d = c mod 64"
  have "a = c div 64 div 64" using zdiv_zmult2_eq [of 64 c 64] by (simp add: a_def)
  then have "c div 64 = a * 64 + b" by (simp add: b_def)
  moreover have "c = c div 64 * 64 + d" by (simp add: d_def)
  ultimately have c: "c = a * 4096 + b * 64 + d" by simp
  have r: "0 \<le> b" "b < 64" "0 \<le> d" "d < 64" by (simp_all add: b_def d_def)
  have t: "trail (128 + b)" "trail (128 + d)" using r by (simp_all add: trail_def)
  consider "c < 0x80" | "0x80 \<le> c" "c < 0x800" | "0x800 \<le> c" "c < 0x10000" | "0x10000 \<le> c" by linarith
  then show ?thesis
  proof cases
    case 1
    then show ?thesis using assms by (auto simp: utf8_enc_def scalar_def intro!: CBU8_NEXT_1)
  next
    case 2
    then show ?thesis using CBU8_NEXT_2 [of "0xc0 + c div 64" "128 + d" s] t(2)
      by (simp add: utf8_enc_def d_def)
  next
    case 3
    then have "CBU8_NEXT ((0xe0 + a) # (128 + b) # (128 + d) # s) = Some (dec3 (0xe0 + a) (128 + b) (128 + d), s)"
      using r c t assms by (intro CBU8_NEXT_3) (auto simp: scalar_def)
    moreover have "utf8_enc c = [0xe0 + a, 128 + b, 128 + d]" using 3 by (simp add: utf8_enc_def a_def b_def d_def)
    moreover have "dec3 (0xe0 + a) (128 + b) (128 + d) = c" using c by (simp add: dec3_def)
    ultimately show ?thesis by simp
  next
    case 4
    define e f where "e = a div 64" and "f = a mod 64"
    have a: "a = e * 64 + f" "0 \<le> f" "f < 64" by (simp_all add: e_def f_def)
    then have "CBU8_NEXT ((0xf0 + e) # (128 + f) # (128 + b) # (128 + d) # s) = Some (dec4 (0xf0 + e) (128 + f) (128 + b) (128 + d), s)"
      using 4 r c t assms by (intro CBU8_NEXT_4) (auto simp: scalar_def trail_def)
    moreover have "e = c div 262144" using zdiv_zmult2_eq [of 64 c 4096] by (simp add: e_def a_def)
    then have "utf8_enc c = [0xf0 + e, 128 + f, 128 + b, 128 + d]" using 4 by (simp add: utf8_enc_def f_def a_def b_def d_def)
    moreover have "dec4 (0xf0 + e) (128 + f) (128 + b) (128 + d) = c" using c a by (simp add: dec4_def)
    ultimately show ?thesis by simp
  qed
qed

lemma VALID_LEAD3_mod: "CBU8_IS_VALID_LEAD3_AND_T1 (l mod 16) t = CBU8_IS_VALID_LEAD3_AND_T1 l t"
  by (simp add: CBU8_IS_VALID_LEAD3_AND_T1_def)

lemma CBU8_NEXT_cases:
  assumes "bytes s" "CBU8_NEXT s = Some (c, r)" "c \<noteq> - 1"
  shows "(\<exists>b. s = b # r \<and> 0 \<le> b \<and> b < 128 \<and> c = b)
    \<or> (\<exists>b t. s = b # t # r \<and> 0xc2 \<le> b \<and> b < 0xe0 \<and> trail t \<and> c = (b - 0xc0) * 64 + (t - 0x80))
    \<or> (\<exists>b t1 t2. s = b # t1 # t2 # r \<and> 0xe0 \<le> b \<and> b < 0xf0 \<and> trail t1 \<and> trail t2 \<and> (b = 0xe0 \<longrightarrow> 0xa0 \<le> t1)
         \<and> (b = 0xed \<longrightarrow> t1 < 0xa0) \<and> c = dec3 b t1 t2)
    \<or> (\<exists>b t1 t2 t3. s = b # t1 # t2 # t3 # r \<and> 0xf0 \<le> b \<and> b < 0xf5 \<and> trail t1 \<and> trail t2 \<and> trail t3
         \<and> (b = 0xf0 \<longrightarrow> 0x90 \<le> t1) \<and> (b = 0xf4 \<longrightarrow> t1 < 0x90) \<and> c = dec4 b t1 t2 t3)"
proof -
  obtain b x where s: "s = b # x" using assms(2) by (cases s) auto
  have b: "0 \<le> b" "b < 256" "bytes x" using assms(1) s by auto
  note defs = CBU8_NEXT.simps u8_id IS_SINGLE_iff u8_trail u8_not_trail Let_def utf8_nextCharSafeBody_def errorValue_def CBU_SENTINEL_def
  consider "b < 128" | "128 \<le> b" "b < 0xc2" | "0xc2 \<le> b" "b < 0xe0" | "0xe0 \<le> b" "b < 0xf0" | "0xf0 \<le> b" "b < 0xf5" | "0xf5 \<le> b"
    by linarith
  then show ?thesis
  proof cases
    case 1
    then show ?thesis using assms(2) s b CBU8_NEXT_1 [of b x] by auto
  next
    case 3
    obtain t y where x: "x = t # y" "trail t"
      using assms(2,3) s b 3 by (cases x) (auto simp: defs split: if_splits)
    then show ?thesis using assms(2) s 3 CBU8_NEXT_2 [of b t y] by auto
  next
    case 4
    obtain t1 y where x: "x = t1 # y" using assms(2,3) s b 4 by (cases x) (auto simp: defs)
    have v: "CBU8_IS_VALID_LEAD3_AND_T1 b t1"
      using assms(2,3) s b 4 x by (auto simp: defs VALID_LEAD3_mod split: if_splits)
    obtain t2 z where y: "y = t2 # z" "trail t2"
      using assms(2,3) s b 4 x v by (cases y) (auto simp: defs VALID_LEAD3_mod split: if_splits)
    have "trail t1 \<and> (b = 0xe0 \<longrightarrow> 0xa0 \<le> t1) \<and> (b = 0xed \<longrightarrow> t1 < 0xa0)"
      using v VALID_LEAD3_iff [of b t1] b 4 x by (auto simp: trail_def)
    then show ?thesis using assms(2) s 4 x y CBU8_NEXT_3 [of b t1 t2 z] by auto
  next
    case 5
    have m: "b mod 8 = b - 240" using 5 mod_window [of 30 8 b] by simp
    obtain t1 y where x: "x = t1 # y" using assms(2,3) s b 5 by (cases x) (auto simp: defs)
    have v: "CBU8_IS_VALID_LEAD4_AND_T1 (b - 240) t1"
      using assms(2,3) s b 5 x m by (auto simp: defs split: if_splits)
    obtain t2 z where y: "y = t2 # z" "trail t2"
      using assms(2,3) s b 5 x m v by (cases y) (auto simp: defs split: if_splits)
    obtain t3 w where z: "z = t3 # w" "trail t3"
      using assms(2,3) s b 5 x m v y by (cases z) (auto simp: defs split: if_splits)
    have "trail t1 \<and> (b = 0xf0 \<longrightarrow> 0x90 \<le> t1) \<and> (b = 0xf4 \<longrightarrow> t1 < 0x90)"
      using v VALID_LEAD4_iff [of "b - 240" t1] b 5 x by (auto simp: trail_def)
    then show ?thesis using assms(2) s 5 x y z CBU8_NEXT_4 [of b t1 t2 t3 w] by auto
  next
    case 2
    then show ?thesis using assms(2,3) s b by (auto simp: defs split: if_splits)
  next
    case 6
    then show ?thesis using assms(2,3) s b by (auto simp: defs split: if_splits)
  qed
qed

lemma CBU8_NEXT_scalar:
  assumes "bytes s" "CBU8_NEXT s = Some (c, r)" "c \<noteq> - 1"
  shows "scalar c" and "s = utf8_enc c @ r"
proof -
  have "scalar c \<and> s = utf8_enc c @ r"
    using CBU8_NEXT_cases [OF assms]
  proof (elim disjE exE conjE)
    fix b assume "s = b # r" "0 \<le> b" "b < 128" "c = b"
    then show ?thesis by (auto simp: scalar_def utf8_enc_def)
  next
    fix b t assume h: "s = b # t # r" "0xc2 \<le> b" "b < 0xe0" "trail t" "c = (b - 0xc0) * 64 + (t - 0x80)"
    then have "c div 64 = b - 0xc0" "c mod 64 = t - 0x80"
      using div_mult_window [of "t - 0x80" 64 "b - 0xc0"] by (simp_all add: trail_def)
    then show ?thesis using h by (auto simp: scalar_def utf8_enc_def trail_def)
  next
    fix b t1 t2 assume h: "s = b # t1 # t2 # r" "0xe0 \<le> b" "b < 0xf0" "trail t1" "trail t2" "b = 0xe0 \<longrightarrow> 0xa0 \<le> t1"
      "b = 0xed \<longrightarrow> t1 < 0xa0" "c = dec3 b t1 t2"
    then have "c = ((b - 0xe0) * 64 + (t1 - 0x80)) * 64 + (t2 - 0x80)" by (simp add: dec3_def)
    then have "c div 64 = (b - 0xe0) * 64 + (t1 - 0x80)" "c mod 64 = t2 - 0x80"
      using h(5) div_mult_window [of "t2 - 0x80" 64 "(b - 0xe0) * 64 + (t1 - 0x80)"] by (simp_all add: trail_def)
    moreover from this have "c div 4096 = b - 0xe0" "c div 64 mod 64 = t1 - 0x80"
      using h(4) zdiv_zmult2_eq [of 64 c 64] div_mult_window [of "t1 - 0x80" 64 "b - 0xe0"] by (simp_all add: trail_def)
    moreover have "0x800 \<le> c" using h(2-8) unfolding dec3_def trail_def by (cases "b = 0xe0") auto
    moreover have "c < 0x10000" using h(2-8) unfolding dec3_def trail_def by auto
    moreover have "c < 0xd800 \<or> 0xe000 \<le> c"
      using h(2-8) unfolding dec3_def trail_def by (cases "b < 0xed"; cases "b = 0xed") auto
    ultimately show ?thesis using h(1) by (auto simp: scalar_def utf8_enc_def)
  next
    fix b t1 t2 t3 assume h: "s = b # t1 # t2 # t3 # r" "0xf0 \<le> b" "b < 0xf5" "trail t1" "trail t2" "trail t3"
      "b = 0xf0 \<longrightarrow> 0x90 \<le> t1" "b = 0xf4 \<longrightarrow> t1 < 0x90" "c = dec4 b t1 t2 t3"
    then have "c = (((b - 0xf0) * 64 + (t1 - 0x80)) * 64 + (t2 - 0x80)) * 64 + (t3 - 0x80)" by (simp add: dec4_def)
    then have e1: "c div 64 = ((b - 0xf0) * 64 + (t1 - 0x80)) * 64 + (t2 - 0x80)" and d1: "c mod 64 = t3 - 0x80"
      using h(6) div_mult_window [of "t3 - 0x80" 64 "((b - 0xf0) * 64 + (t1 - 0x80)) * 64 + (t2 - 0x80)"]
      by (simp_all add: trail_def)
    from e1 have e2: "c div 4096 = (b - 0xf0) * 64 + (t1 - 0x80)" and d2: "c div 64 mod 64 = t2 - 0x80"
      using h(5) zdiv_zmult2_eq [of 64 c 64] div_mult_window [of "t2 - 0x80" 64 "(b - 0xf0) * 64 + (t1 - 0x80)"]
      by (simp_all add: trail_def)
    from e2 have d4: "c div 262144 = b - 0xf0" and d3: "c div 4096 mod 64 = t1 - 0x80"
      using h(4) zdiv_zmult2_eq [of 64 c 4096] div_mult_window [of "t1 - 0x80" 64 "b - 0xf0"] by (simp_all add: trail_def)
    have t: "128 \<le> t1" "t1 < 192" "128 \<le> t2" "t2 < 192" "128 \<le> t3" "t3 < 192" using h by (simp_all add: trail_def)
    have lo: "0x10000 \<le> c"
    proof (cases "b = 0xf0")
      case True
      then have "0x90 \<le> t1" using h(7) by blast
      with True t(3,5) show ?thesis unfolding h(9) dec4_def by simp
    next
      case False
      with h(2) have "0xf1 \<le> b" by simp
      with t(1,3,5) show ?thesis unfolding h(9) dec4_def by simp
    qed
    have hi: "c < 0x110000"
    proof (cases "b = 0xf4")
      case True
      then have "t1 < 0x90" using h(8) by blast
      with True t(4,6) show ?thesis unfolding h(9) dec4_def by simp
    next
      case False
      with h(3) have "b \<le> 0xf3" by simp
      with t(2,4,6) show ?thesis unfolding h(9) dec4_def by simp
    qed
    have "utf8_enc c = [b, t1, t2, t3]" unfolding utf8_enc_def d1 d2 d3 d4 using lo by simp
    then show ?thesis using h(1) lo hi by (simp add: scalar_def)
  qed
  then show "scalar c" "s = utf8_enc c @ r" by auto
qed

lemma CBU8_NEXT_total: "s \<noteq> [] \<Longrightarrow> \<exists>c r. CBU8_NEXT s = Some (c, r)"
  by (cases s) (auto simp: CBU8_NEXT.simps simp del: split_paired_Ex intro: surj_pair)

lemma snd_if_drop: "\<exists>n. snd x = drop n s \<Longrightarrow> \<exists>n. snd y = drop n s \<Longrightarrow> \<exists>n. snd (if P then x else y) = drop n s"
  by simp

lemma utf8_nextCharSafeBody_drop: "\<exists>n. snd (utf8_nextCharSafeBody s c strict) = drop n s"
  unfolding utf8_nextCharSafeBody_def Let_def by (intro snd_if_drop; rule exI, rule snd_conv)

lemma CBU8_NEXT_drop:
  assumes "CBU8_NEXT s = Some (c, r)"
  shows "\<exists>n > 0. r = drop n s"
proof -
  obtain b t where s: "s = b # t" using assms by (cases s) auto
  obtain n where "snd (utf8_nextCharSafeBody t (u8 b) (- 1)) = drop n t" using utf8_nextCharSafeBody_drop by blast
  then have "\<exists>n. r = drop n t" using assms s by (auto simp: CBU8_NEXT.simps Let_def split: if_splits intro: exI [of _ 0])
  then show ?thesis using s by (metis drop_Suc_Cons zero_less_Suc)
qed

section \<open>UTF-16 and UTF-32\<close>

definition utf16_enc :: "int \<Rightarrow> int list" where
  "utf16_enc c = (if c < 0x10000 then [c] else [0xd800 + (c - 0x10000) div 1024, 0xdc00 + (c - 0x10000) mod 1024])"

lemma and_high:
  fixes c :: int
  assumes "0 \<le> c" "c < 2 ^ 16"
  shows "c AND 0xfffffc00 = c div 1024 * 1024" and "c AND 0xfffff800 = c div 2048 * 2048"
proof -
  have shift: "c AND push_bit n (mask m) = c div 2 ^ n * 2 ^ n" if "c div 2 ^ n < 2 ^ m" for n m
  proof -
    have "c AND push_bit n (mask m) = push_bit n (drop_bit n c AND mask m)" by (auto simp: bit_eq_iff bit_simps)
    also have "drop_bit n c AND mask m = c div 2 ^ n"
      using that assms by (simp add: drop_bit_eq_div flip: take_bit_eq_mask) (simp add: take_bit_int_eq_self pos_imp_zdiv_nonneg_iff)
    finally show ?thesis by (simp add: push_bit_eq_mult)
  qed
  show "c AND 0xfffffc00 = c div 1024 * 1024" using shift [of 10 22] assms by (simp add: push_bit_eq_mult mask_eq_exp_minus_1)
  show "c AND 0xfffff800 = c div 2048 * 2048" using shift [of 11 21] assms by (simp add: push_bit_eq_mult mask_eq_exp_minus_1)
qed

lemma CBU16_iff:
  assumes "0 \<le> c" "c < 0x10000"
  shows "CBU16_IS_LEAD c \<longleftrightarrow> 0xd800 \<le> c \<and> c < 0xdc00" and "CBU16_IS_TRAIL c \<longleftrightarrow> 0xdc00 \<le> c \<and> c < 0xe000"
    and "CBU_IS_SURROGATE c \<longleftrightarrow> 0xd800 \<le> c \<and> c < 0xe000"
  using and_high [of c] assms by (auto simp: CBU16_IS_LEAD_def CBU16_IS_TRAIL_def CBU_IS_SURROGATE_def)

lemma CBU16_SUPPLEMENTARY:
  "CBU16_GET_SUPPLEMENTARY u v = (u - 0xd800) * 1024 + (v - 0xdc00) + 0x10000"
  by (simp add: CBU16_GET_SUPPLEMENTARY_def CBU16_SURROGATE_OFFSET_def push_bit_eq_mult)

lemma CBU16_APPEND_enc: "scalar c \<Longrightarrow> CBU16_APPEND_UNSAFE c = utf16_enc c"
proof -
  assume "scalar c"
  then have c: "0 \<le> c" "c < 0x110000" by (auto simp: scalar_def)
  have "c div 1024 = (c - 0x10000) div 1024 + 64" "c mod 1024 = (c - 0x10000) mod 1024"
    using div_mult_self1 [of 1024 "c - 0x10000" 64] mod_mult_self1 [of "c - 0x10000" 64 1024] by simp_all
  moreover have "0 \<le> (c - 0x10000) div 1024 \<and> (c - 0x10000) div 1024 < 1024" if "0x10000 \<le> c" using that c by auto
  ultimately show ?thesis using c
    by (auto simp: CBU16_APPEND_UNSAFE_def utf16_enc_def u16_def drop_bit_eq_div or_lead mod_pos_pos_trivial)
qed

definition units16 :: "int list \<Rightarrow> bool" where
  "units16 s \<longleftrightarrow> (\<forall>u \<in> set s. 0 \<le> u \<and> u < 0x10000)"

lemma CBU16_NEXT_enc: "scalar c \<Longrightarrow> CBU16_NEXT (utf16_enc c @ s) = Some (c, s)"
proof -
  assume sc: "scalar c"
  show ?thesis
  proof (cases "c < 0x10000")
    case True
    then show ?thesis using sc CBU16_iff(1) [of c] by (auto simp: utf16_enc_def scalar_def)
  next
    case False
    let ?u = "0xd800 + (c - 0x10000) div 1024" and ?v = "0xdc00 + (c - 0x10000) mod 1024"
    have "0 \<le> (c - 0x10000) div 1024" "(c - 0x10000) div 1024 < 1024" using False sc by (auto simp: scalar_def)
    then have "CBU16_IS_LEAD ?u" "CBU16_IS_TRAIL ?v" using CBU16_iff(1) [of ?u] CBU16_iff(2) [of ?v] by auto
    moreover have "CBU16_GET_SUPPLEMENTARY ?u ?v = c" by (simp add: CBU16_SUPPLEMENTARY)
    ultimately show ?thesis using False by (simp add: utf16_enc_def)
  qed
qed

lemma CBU16_NEXT_scalar:
  assumes "units16 s" "CBU16_NEXT s = Some (c, r)" "scalar c"
  shows "s = utf16_enc c @ r"
proof -
  obtain u t where s: "s = u # t" using assms(2) by (cases s) auto
  have u: "0 \<le> u" "u < 0x10000" using assms(1) s by (auto simp: units16_def)
  show ?thesis
  proof (cases "CBU16_IS_LEAD u \<and> t \<noteq> [] \<and> CBU16_IS_TRAIL (hd t)")
    case True
    then obtain v where t: "t = v # r" and c: "c = (u - 0xd800) * 1024 + (v - 0xdc00) + 0x10000"
      using assms(2) s by (cases t) (auto simp: CBU16_SUPPLEMENTARY)
    have v: "0xdc00 \<le> v" "v < 0xe000" "0xd800 \<le> u" "u < 0xdc00"
      using True assms(1) s t CBU16_iff [of u] CBU16_iff [of v] by (auto simp: units16_def)
    have e: "c - 0x10000 = (u - 0xd800) * 1024 + (v - 0xdc00)" using c by simp
    have "(c - 0x10000) div 1024 = u - 0xd800" unfolding e using v by (intro div_mult_window(1)) simp_all
    moreover have "(c - 0x10000) mod 1024 = v - 0xdc00" unfolding e using v by (intro div_mult_window(2)) simp_all
    moreover have "0x10000 \<le> c" using c v by simp
    ultimately show ?thesis using s t by (simp add: utf16_enc_def)
  next
    case False
    then show ?thesis using assms(2) s u by (auto simp: utf16_enc_def split: if_splits)
  qed
qed

section \<open>Encodings\<close>

text \<open>
  What the conversions and the pattern matcher rely on in an encoding: reading a character off the
  text takes at least one unit, gives back a scalar value that was encoded, and gives a scalar
  value only for its encoding. Everything about whole texts follows.
\<close>

definition utf_encode :: "(int \<Rightarrow> int list) \<Rightarrow> int list \<Rightarrow> int list" where
  "utf_encode enc cs = concat (map enc cs)"

lemma utf_encode_simps [simp]:
  "utf_encode enc [] = []" "utf_encode enc (c # cs) = enc c @ utf_encode enc cs"
  "utf_encode enc (cs @ ds) = utf_encode enc cs @ utf_encode enc ds"
  by (simp_all add: utf_encode_def)

definition well_formed :: "(int \<Rightarrow> int list) \<Rightarrow> int list \<Rightarrow> bool" where
  "well_formed enc s \<longleftrightarrow> (\<exists>cs. list_all scalar cs \<and> s = utf_encode enc cs)"

definition or_error :: "int \<Rightarrow> int" where
  "or_error c = (if scalar c then c else 0xFFFD)"

lemma scalar_or_error [simp]: "scalar (or_error c)"
  by (simp add: or_error_def scalar_def)

text \<open>The driver of the conversions over any reader; its guard only makes it total.\<close>

function utf_convert :: "(int list \<Rightarrow> (int \<times> int list) option) \<Rightarrow> (int \<Rightarrow> int list) \<Rightarrow> nat \<Rightarrow> int list \<Rightarrow> int list \<Rightarrow> bool
    \<Rightarrow> (int list \<times> bool) option" where
  "utf_convert rd app cap s dest ok =
     (if s = [] then Some (dest, ok)
      else do {
        (c, r) \<leftarrow> rd s;
        if length r < length s then do {
          dest \<leftarrow> UnicodeAppendUnsafe app cap dest (or_error c);
          utf_convert rd app cap r dest (ok \<and> scalar c)
        } else None
      })"
  by auto
termination
  by (relation "measure (\<lambda>(rd, app, cap, s, dest, ok). length s)") auto

declare utf_convert.simps [simp del]

locale utf_encoding =
  fixes rd :: "int list \<Rightarrow> (int \<times> int list) option" and enc :: "int \<Rightarrow> int list" and units :: "int list \<Rightarrow> bool"
  assumes rd_total: "s \<noteq> [] \<Longrightarrow> \<exists>c r. rd s = Some (c, r)"
    and rd_drop: "rd s = Some (c, r) \<Longrightarrow> \<exists>n > 0. n \<le> length s \<and> r = drop n s"
    and rd_enc: "scalar c \<Longrightarrow> rd (enc c @ s) = Some (c, s)"
    and rd_scalar: "units s \<Longrightarrow> rd s = Some (c, r) \<Longrightarrow> scalar c \<Longrightarrow> s = enc c @ r"
    and units_drop: "units s \<Longrightarrow> units (drop n s)"
begin

lemma rd_less: "rd s = Some (c, r) \<Longrightarrow> length r < length s"
  using rd_drop by fastforce

lemma enc_ne: "scalar c \<Longrightarrow> enc c \<noteq> []"
  using rd_enc [of c "[]"] rd_less [of "[]" c "[]"] by auto

lemma encode_inj:
  "list_all scalar cs \<Longrightarrow> list_all scalar ds \<Longrightarrow> utf_encode enc cs = utf_encode enc ds \<Longrightarrow> cs = ds"
proof (induction cs arbitrary: ds)
  case Nil
  then show ?case using enc_ne by (cases ds) auto
next
  case (Cons c cs)
  have "enc c \<noteq> []" using Cons.prems(1) enc_ne by simp
  then obtain d ds' where ds: "ds = d # ds'" using Cons.prems(3) by (cases ds) auto
  have "rd (enc c @ utf_encode enc cs) = rd (enc d @ utf_encode enc ds')" using Cons.prems(3) by (simp add: ds)
  then have "Some (c, utf_encode enc cs) = Some (d, utf_encode enc ds')" using Cons.prems(1,2) by (simp add: ds rd_enc)
  then show ?case using Cons.IH [of ds'] Cons.prems(1,2) ds by simp
qed

lemma well_formed_step:
  assumes "units s" "rd s = Some (c, r)"
  shows "well_formed enc s \<longleftrightarrow> scalar c \<and> well_formed enc r"
proof
  assume "well_formed enc s"
  then obtain cs where cs: "list_all scalar cs" "s = utf_encode enc cs" by (auto simp: well_formed_def)
  moreover have "s \<noteq> []" using rd_less [OF assms(2)] by auto
  ultimately obtain d ds where "cs = d # ds" by (cases cs) auto
  then show "scalar c \<and> well_formed enc r" using cs assms(2) rd_enc [of d "utf_encode enc ds"] by (auto simp: well_formed_def)
next
  assume "scalar c \<and> well_formed enc r"
  then obtain cs where "list_all scalar cs" "r = utf_encode enc cs" "scalar c" by (auto simp: well_formed_def)
  then show "well_formed enc s" using rd_scalar [OF assms] by (auto simp: well_formed_def intro!: exI [of _ "c # cs"])
qed

text \<open>A conversion needs room for what a unit of the source can become, and no more.\<close>

lemma convert_total:
  assumes "units s" and k: "\<And>s c r. units s \<Longrightarrow> rd s = Some (c, r) \<Longrightarrow> length (app (or_error c)) \<le> k * (length s - length r)"
    and "length dest + k * length s \<le> cap" "length dest + k * length s < 2 ^ 31"
  shows "\<exists>cs. list_all scalar cs \<and> utf_convert rd app cap s dest ok = Some (dest @ utf_encode app cs, ok \<and> well_formed enc s)
    \<and> length (utf_encode app cs) \<le> k * length s \<and> (well_formed enc s \<longrightarrow> s = utf_encode enc cs)"
  using assms(1,3,4)
proof (induction "length s" arbitrary: s dest ok rule: less_induct)
  case less
  show ?case
  proof (cases "s = []")
    case True
    then show ?thesis by (intro exI [of _ "[]"]) (auto simp: utf_convert.simps [of rd app cap "[]"] well_formed_def intro: exI [of _ "[]"])
  next
    case False
    then obtain c r where r: "rd s = Some (c, r)" using rd_total by blast
    then have lt: "length r < length s" and ur: "units r" using rd_less rd_drop [OF r] units_drop less.prems(1) by auto
    have "k * length r + k * (length s - length r) = k * length s" using lt by (simp flip: add_mult_distrib2)
    then have b: "length (dest @ app (or_error c)) + k * length r \<le> length dest + k * length s"
      using k [OF less.prems(1) r] by simp
    obtain cs where cs: "list_all scalar cs"
        "utf_convert rd app cap r (dest @ app (or_error c)) (ok \<and> scalar c)
         = Some ((dest @ app (or_error c)) @ utf_encode app cs, (ok \<and> scalar c) \<and> well_formed enc r)"
        "length (utf_encode app cs) \<le> k * length r" "well_formed enc r \<longrightarrow> r = utf_encode enc cs"
      using less.hyps [OF lt ur, of "dest @ app (or_error c)" "ok \<and> scalar c"] b less.prems(2,3) by (meson le_less_trans order_trans)
    have "UnicodeAppendUnsafe app cap dest (or_error c) = Some (dest @ app (or_error c))"
      using b less.prems(2,3) by (simp add: UnicodeAppendUnsafe_def)
    then have "utf_convert rd app cap s dest ok = Some (dest @ utf_encode app (or_error c # cs), ok \<and> well_formed enc s)"
      using False r lt cs(2) well_formed_step [OF less.prems(1) r] by (subst utf_convert.simps) simp
    moreover have "well_formed enc s \<longrightarrow> s = utf_encode enc (or_error c # cs)"
      using well_formed_step [OF less.prems(1) r] rd_scalar [OF less.prems(1) r] cs(4) by (auto simp: or_error_def)
    moreover have "length (utf_encode app (or_error c # cs)) \<le> k * length s" using b cs(3) by simp
    ultimately show ?thesis using cs(1) by (intro exI [of _ "or_error c # cs"]) simp
  qed
qed

end

interpretation utf8: utf_encoding CBU8_NEXT utf8_enc bytes
proof
  show "\<exists>c r. CBU8_NEXT s = Some (c, r)" if "s \<noteq> []" for s using CBU8_NEXT_total [OF that] .
  show "\<exists>n > 0. n \<le> length s \<and> r = drop n s" if "CBU8_NEXT s = Some (c, r)" for s c r
    using CBU8_NEXT_drop [OF that] CBU8_NEXT_less [OF that] by (metis drop_all le_refl length_drop linorder_le_cases list.size(3) not_gr_zero)
  show "CBU8_NEXT (utf8_enc c @ s) = Some (c, s)" if "scalar c" for c s using CBU8_NEXT_enc [OF that] .
  show "s = utf8_enc c @ r" if "bytes s" "CBU8_NEXT s = Some (c, r)" "scalar c" for s c r
    using CBU8_NEXT_scalar(2) [OF that(1,2)] that(3) by (auto simp: scalar_def)
qed simp

interpretation utf16: utf_encoding CBU16_NEXT utf16_enc units16
proof
  show "\<exists>c r. CBU16_NEXT s = Some (c, r)" if "s \<noteq> []" for s using that by (cases s) auto
  show "\<exists>n > 0. n \<le> length s \<and> r = drop n s" if "CBU16_NEXT s = Some (c, r)" for s c r
  proof (cases s)
    case (Cons u t)
    then have "r = t \<or> r = drop 1 t \<and> t \<noteq> []" using that by (auto simp: drop_Suc split: if_splits)
    then show ?thesis using Cons by (auto intro: exI [of _ 1] exI [of _ 2] simp: Suc_le_eq)
  qed (use that in simp)
qed (auto simp: units16_def CBU16_NEXT_enc intro: CBU16_NEXT_scalar dest: in_set_dropD)

fun rd32 :: "int list \<Rightarrow> (int \<times> int list) option" where
  "rd32 [] = None"
| "rd32 (c # s) = Some (c, s)"

interpretation utf32: utf_encoding rd32 "\<lambda>c. [c]" "\<lambda>s. \<forall>u \<in> set s. 0 \<le> u \<and> u < 2 ^ 32"
proof
  show "\<exists>c r. rd32 s = Some (c, r)" if "s \<noteq> []" for s using that by (cases s) auto
  show "\<exists>n > 0. n \<le> length s \<and> r = drop n s" if "rd32 s = Some (c, r)" for s c r
    using that by (cases s) (auto intro: exI [of _ 1])
  show "s = [c] @ r" if "rd32 s = Some (c, r)" for s c r using that by (cases s) auto
qed (auto dest: in_set_dropD)

section \<open>The machine-word scan for ASCII\<close>

lemma and_push_mask:
  fixes c :: int
  assumes "0 \<le> c" "c < 2 ^ (n + m)"
  shows "c AND push_bit n (mask m) = c div 2 ^ n * 2 ^ n"
proof -
  have "c AND push_bit n (mask m) = push_bit n (drop_bit n c AND mask m)" by (auto simp: bit_eq_iff bit_simps)
  also have "drop_bit n c AND mask m = take_bit m (drop_bit n c)" by (simp add: take_bit_eq_mask)
  also have "\<dots> = drop_bit n (take_bit (m + n) c)" by (simp add: take_bit_drop_bit)
  also have "take_bit (m + n) c = c" using assms by (simp add: take_bit_int_eq_self add.commute)
  finally show ?thesis by (simp add: push_bit_eq_mult drop_bit_eq_div)
qed

lemma and_or_push:
  fixes c m w M :: int
  assumes "0 \<le> c" "c < 2 ^ k" "0 \<le> m" "m < 2 ^ k"
  shows "(c OR push_bit k w) AND (m OR push_bit k M) = 0 \<longleftrightarrow> c AND m = 0 \<and> w AND M = 0"
proof -
  have "take_bit k c = c" "take_bit k m = m" using assms by (simp_all add: take_bit_int_eq_self)
  then have "k \<le> n \<Longrightarrow> \<not> bit c n" "k \<le> n \<Longrightarrow> \<not> bit m n" for n by (metis bit_take_bit_iff leD)+
  then have "(c OR push_bit k w) AND (m OR push_bit k M) = (c AND m) OR push_bit k (w AND M)"
    by (auto simp: bit_eq_iff bit_simps)
  then show ?thesis by (simp add: or_eq_0_iff push_bit_eq_mult)
qed

lemma or_and_0: "(x OR y) AND m = 0 \<longleftrightarrow> x AND m = 0 \<and> y AND m = 0" for x y m :: int
  by (simp add: bit.conj_disj_distrib2 or_eq_0_iff)

fun ascii_mask :: "nat \<Rightarrow> nat \<Rightarrow> int" where
  "ascii_mask sz 0 = 0"
| "ascii_mask sz (Suc n) = push_bit 7 (mask (8 * sz - 7)) OR push_bit (8 * sz) (ascii_mask sz n)"

lemma NonASCIIMask_eq: "sz \<in> {1, 2, 4} \<Longrightarrow> NonASCIIMask sz = ascii_mask sz (8 div sz)"
proof -
  have "ascii_mask 1 8 = 0x8080808080808080" "ascii_mask 2 4 = 0xFF80FF80FF80FF80" "ascii_mask 4 2 = 0xFFFFFF80FFFFFF80"
    by code_simp+
  then show "sz \<in> {1, 2, 4} \<Longrightarrow> ?thesis" by (auto simp: NonASCIIMask_def)
qed

definition in_units :: "nat \<Rightarrow> int list \<Rightarrow> bool" where
  "in_units sz s \<longleftrightarrow> (\<forall>c \<in> set s. 0 \<le> c \<and> c < 2 ^ (8 * sz))"

lemma in_units_simps [simp]: "in_units sz []" "in_units sz (c # s) \<longleftrightarrow> 0 \<le> c \<and> c < 2 ^ (8 * sz) \<and> in_units sz s"
    "in_units sz (s @ t) \<longleftrightarrow> in_units sz s \<and> in_units sz t"
  by (auto simp: in_units_def)

lemma in_units_take [simp]: "in_units sz s \<Longrightarrow> in_units sz (take n s)" "in_units sz s \<Longrightarrow> in_units sz (drop n s)"
  by (auto simp: in_units_def dest: in_set_takeD in_set_dropD)

lemma low_mask_char:
  fixes c :: int
  assumes "0 < sz" "0 \<le> c" "c < 2 ^ (8 * sz)"
  shows "c AND push_bit 7 (mask (8 * sz - 7)) = 0 \<longleftrightarrow> c < 128"
  using and_push_mask [of c 7 "8 * sz - 7"] assms by (auto simp: zdiv_eq_0_iff)

lemma low_mask_range: "0 < sz \<Longrightarrow> 0 \<le> push_bit 7 (mask (8 * sz - 7) :: int) \<and> push_bit 7 (mask (8 * sz - 7) :: int) < 2 ^ (8 * sz)"
proof -
  assume "0 < sz"
  then have "(2 :: int) ^ 7 * 2 ^ (8 * sz - 7) = 2 ^ (8 * sz)" using power_add [of "2 :: int" 7 "8 * sz - 7"] by simp
  moreover have "(1 :: int) \<le> 2 ^ (8 * sz - 7)" by simp
  ultimately show ?thesis by (simp add: push_bit_eq_mult mask_eq_exp_minus_1 left_diff_distrib)
qed

lemma load_word_ascii:
  assumes "0 < sz" "in_units sz cs"
  shows "load_word sz cs AND ascii_mask sz (length cs) = 0 \<longleftrightarrow> (\<forall>c \<in> set cs. c < 128)"
  using assms(2)
proof (induction cs)
  case (Cons c cs)
  then show ?case using and_or_push [of c "8 * sz" "push_bit 7 (mask (8 * sz - 7))" "load_word sz cs" "ascii_mask sz (length cs)"]
      low_mask_range [OF assms(1)] low_mask_char [OF assms(1), of c] by simp
qed simp

lemma char_ascii:
  assumes "0 < sz" "0 \<le> c" "c < 2 ^ (8 * sz)"
  shows "c AND ascii_mask sz (Suc n) = 0 \<longleftrightarrow> c < 128"
  using and_or_push [of c "8 * sz" "push_bit 7 (mask (8 * sz - 7))" 0 "ascii_mask sz n"] low_mask_range [OF assms(1)]
    low_mask_char [OF assms] assms by simp

lemma ascii_prologue_spec:
  assumes "0 < sz" "in_units sz s"
  shows "\<exists>p q b'. ascii_prologue sz a s b = (a + int (sz * length p), q, b') \<and> s = p @ q
    \<and> (q = [] \<or> IsAlignedToMachineWord (a + int (sz * length p)))
    \<and> (b' AND ascii_mask sz (Suc n) = 0 \<longleftrightarrow> b AND ascii_mask sz (Suc n) = 0 \<and> (\<forall>c \<in> set p. c < 128))"
  using assms(2)
proof (induction s arbitrary: a b)
  case Nil
  then show ?case by (intro exI [of _ "[]"]) simp
next
  case (Cons c s)
  show ?case
  proof (cases "IsAlignedToMachineWord a")
    case True
    then show ?thesis by (intro exI [of _ "[]"] exI [of _ "c # s"] exI [of _ b]) simp
  next
    case False
    obtain p q b' where "ascii_prologue sz (a + int sz) s (b OR c) = (a + int sz + int (sz * length p), q, b')" "s = p @ q"
      "q = [] \<or> IsAlignedToMachineWord (a + int sz + int (sz * length p))"
      "b' AND ascii_mask sz (Suc n) = 0 \<longleftrightarrow> (b OR c) AND ascii_mask sz (Suc n) = 0 \<and> (\<forall>c \<in> set p. c < 128)"
      using Cons.IH [of "a + int sz" "b OR c"] Cons.prems by auto
    moreover have "c AND ascii_mask sz (Suc n) = 0 \<longleftrightarrow> c < 128" using char_ascii [OF assms(1)] Cons.prems by simp
    ultimately show ?thesis using False
      by (intro exI [of _ "c # p"] exI [of _ q] exI [of _ b']) (auto simp: or_and_0 algebra_simps simp del: ascii_mask.simps)
  qed
qed

lemma ascii_words_spec:
  assumes "sz \<in> {1, 2, 4}" "in_units sz s" "a mod 8 = 0" "we mod 8 = 0" "we \<le> a + int (sz * length s)"
  shows "\<exists>p q b'. ascii_words sz we a s b = Some (q, b') \<and> s = p @ q
    \<and> (b' AND ascii_mask sz (8 div sz) = 0 \<longleftrightarrow> b AND ascii_mask sz (8 div sz) = 0 \<and> (\<forall>c \<in> set p. c < 128))"
  using assms(2-5)
proof (induction "length s" arbitrary: s a b rule: less_induct)
  case less
  show ?case
  proof (cases "a < we")
    case False
    then show ?thesis by (intro exI [of _ "[]"] exI [of _ s] exI [of _ b]) (simp add: ascii_words.simps [of sz we a])
  next
    case True
    let ?n = "8 div sz" and ?M = "ascii_mask sz (8 div sz)"
    have "a + 8 \<le> we" using True less.prems(2,3) by presburger
    then have big: "8 \<le> int (sz * length s)" using less.prems(4) by simp
    then have n: "?n \<le> length s" "0 < ?n" "int (sz * ?n) = 8" "0 < sz" using assms(1) by auto
    have l: "length (drop ?n s) < length s" using n by simp
    have w8: "we \<le> (a + 8) + int (sz * length (drop ?n s))" using less.prems(4) n by (simp add: right_diff_distrib' of_nat_diff)
    have a8: "(a + 8) mod 8 = 0" using less.prems(2) by simp
    obtain p q b' where IH: "ascii_words sz we (a + 8) (drop ?n s) (b OR load_word sz (take ?n s)) = Some (q, b')"
      "drop ?n s = p @ q" "b' AND ?M = 0 \<longleftrightarrow> (b OR load_word sz (take ?n s)) AND ?M = 0 \<and> (\<forall>c \<in> set p. c < 128)"
      using less.hyps [OF l in_units_take(2) [OF less.prems(1)] a8 less.prems(3) w8, of "b OR load_word sz (take ?n s)"]
      by (elim exE conjE) (rule that)
    have w: "load_word sz (take ?n s) AND ?M = 0 \<longleftrightarrow> (\<forall>c \<in> set (take ?n s). c < 128)"
      using load_word_ascii [OF n(4), of "take ?n s"] less.prems(1) n(1) by simp
    have "ascii_words sz we a s b = Some (q, b')"
      using True n(1) IH(1) by (subst ascii_words.simps) simp
    moreover have "s = (take ?n s @ p) @ q" using IH(2) by (metis append.assoc append_take_drop_id)
    moreover have "b' AND ?M = 0 \<longleftrightarrow> b AND ?M = 0 \<and> (\<forall>c \<in> set (take ?n s @ p). c < 128)"
      using IH(3) w by (auto simp: or_and_0)
    ultimately show ?thesis by blast
  qed
qed

lemma ascii_epilogue_spec:
  assumes "0 < sz" "in_units sz s"
  shows "ascii_epilogue s b AND ascii_mask sz (Suc n) = 0 \<longleftrightarrow> b AND ascii_mask sz (Suc n) = 0 \<and> (\<forall>c \<in> set s. c < 128)"
  using assms(2)
proof (induction s arbitrary: b)
  case (Cons c s)
  then show ?case using char_ascii [OF assms(1), of c n] by (auto simp: or_and_0 simp del: ascii_mask.simps)
qed simp

lemma IsAligned_mod: "IsAlignedToMachineWord a \<longleftrightarrow> a mod 8 = 0"
  by (simp add: IsAlignedToMachineWord_def kMachineWordAlignmentMask_def)

lemma AlignToMachineWord_mod: "AlignToMachineWord a = a - a mod 8"
proof -
  have "a AND 7 OR a AND NOT 7 = a" "(a AND 7) AND (a AND NOT 7) = 0"
    by (auto simp: bit_eq_iff bit_simps simp del: and_low_masks)
  then have "(a AND 7) + (a AND NOT 7) = a" by (metis disjunctive_add_eq_or)
  then show ?thesis by (simp add: AlignToMachineWord_def kMachineWordAlignmentMask_def)
qed

lemma IsStringASCII_spec:
  assumes "sz \<in> {1, 2, 4}" "in_units sz s"
  shows "IsStringASCII sz a s = Some (\<forall>c \<in> set s. c < 128)"
proof -
  obtain m where m: "8 div sz = Suc m" "0 < sz" using assms(1) by auto
  let ?M = "ascii_mask sz (Suc m)" and ?we = "AlignToMachineWord (a + int (sz * length s))"
  obtain p q b where p: "ascii_prologue sz a s 0 = (a + int (sz * length p), q, b)" "s = p @ q"
      "q = [] \<or> IsAlignedToMachineWord (a + int (sz * length p))" "b AND ?M = 0 \<longleftrightarrow> (\<forall>c \<in> set p. c < 128)"
    using ascii_prologue_spec [OF m(2) assms(2), of a 0 m] by auto
  have we: "?we \<le> a + int (sz * length s)" "?we mod 8 = 0"
    by (simp_all add: AlignToMachineWord_mod mod_eq_0_iff_dvd dvd_minus_mod)
  have "\<exists>u v b'. ascii_words sz ?we (a + int (sz * length p)) q b = Some (v, b') \<and> q = u @ v
    \<and> (b' AND ?M = 0 \<longleftrightarrow> b AND ?M = 0 \<and> (\<forall>c \<in> set u. c < 128))"
  proof (cases "q = []")
    case True
    then have "\<not> a + int (sz * length p) < ?we" using we(1) p(2) by simp
    then have "ascii_words sz ?we (a + int (sz * length p)) q b = Some (q, b)" by (subst ascii_words.simps) (simp only: if_False)
    then show ?thesis using True by (intro exI [of _ "[]"] exI [of _ b]) simp
  next
    case False
    then have "(a + int (sz * length p)) mod 8 = 0" using p(3) by (simp add: IsAligned_mod)
    moreover have "?we \<le> a + int (sz * length p) + int (sz * length q)" using we(1) p(2) by (simp add: algebra_simps)
    ultimately show ?thesis
      using ascii_words_spec [OF assms(1), of q "a + int (sz * length p)" ?we b] we(2) assms(2) p(2) m(1) by auto
  qed
  then obtain u v b' where w: "ascii_words sz ?we (a + int (sz * length p)) q b = Some (v, b')" "q = u @ v"
      "b' AND ?M = 0 \<longleftrightarrow> b AND ?M = 0 \<and> (\<forall>c \<in> set u. c < 128)" by blast
  have "ascii_epilogue v b' AND ?M = 0 \<longleftrightarrow> b' AND ?M = 0 \<and> (\<forall>c \<in> set v. c < 128)"
    using ascii_epilogue_spec [OF m(2), of v b' m] assms(2) p(2) w(2) by simp
  then have "ascii_epilogue v b' AND ?M = 0 \<longleftrightarrow> (\<forall>c \<in> set s. c < 128)" using w(2,3) p(2,4) by auto
  then show ?thesis
    using p(1) w(1) NonASCIIMask_eq [OF assms(1)] m(1) by (simp add: IsStringASCII_def del: ascii_mask.simps)
qed

section \<open>The conversions\<close>

lemma IsValidCodepoint_scalar: "0 \<le> c \<Longrightarrow> c < 2 ^ 32 \<Longrightarrow> IsValidCodepoint c \<longleftrightarrow> scalar c"
  by (auto simp: IsValidCodepoint_def scalar_def)

lemma IsValidCodepoint_neg [simp]: "\<not> IsValidCodepoint (- 1)" "\<not> IsValidCharacter (- 1)"
  by (simp_all add: IsValidCodepoint_def IsValidCharacter_def)

lemma CBU8_NEXT_valid:
  assumes "bytes s" "CBU8_NEXT s = Some (c, r)"
  shows "IsValidCodepoint c \<longleftrightarrow> scalar c"
proof (cases "c = - 1")
  case False
  then have "scalar c" using CBU8_NEXT_scalar(1) assms by blast
  then show ?thesis using IsValidCodepoint_scalar [of c] by (auto simp: scalar_def)
qed (simp add: scalar_def)

lemma DoUTFConversion8_convert:
  "bytes s \<Longrightarrow> DoUTFConversion8 app cap s dest ok = utf_convert CBU8_NEXT app cap s dest ok"
proof (induction "length s" arbitrary: s dest ok rule: less_induct)
  case less
  show ?case
  proof (cases "s = []")
    case True
    then show ?thesis by (simp add: DoUTFConversion8.simps utf_convert.simps)
  next
    case False
    then obtain c r where r: "CBU8_NEXT s = Some (c, r)" using CBU8_NEXT_total by blast
    then have lt: "length r < length s" and br: "bytes r" using CBU8_NEXT_less CBU8_NEXT_drop [OF r] less.prems by auto
    have "(if IsValidCodepoint c then (c, ok) else (kErrorCodePoint, False)) = (or_error c, ok \<and> scalar c)"
      using CBU8_NEXT_valid [OF less.prems r] by (simp add: or_error_def kErrorCodePoint_def)
    then show ?thesis using False r lt less.hyps [OF lt br]
      by (subst DoUTFConversion8.simps, subst utf_convert.simps) (simp split: bind_split)
  qed
qed

lemma ConvertSingleChar_eq: "0 \<le> u \<Longrightarrow> u < 0x10000 \<Longrightarrow> ConvertSingleChar u ok = (or_error u, ok \<and> scalar u)"
  using IsValidCodepoint_scalar [of u] CBU16_iff(3) [of u]
  by (auto simp: ConvertSingleChar_def CBU16_IS_SINGLE_def or_error_def kErrorCodePoint_def scalar_def)

lemma supplementary_scalar:
  assumes "CBU16_IS_LEAD u" "CBU16_IS_TRAIL v" "0 \<le> u" "u < 0x10000" "0 \<le> v" "v < 0x10000"
  shows "scalar (CBU16_GET_SUPPLEMENTARY u v) \<and> IsValidCodepoint (CBU16_GET_SUPPLEMENTARY u v)"
proof -
  have "0xd800 \<le> u" "u < 0xdc00" "0xdc00 \<le> v" "v < 0xe000" using assms CBU16_iff by auto
  then have "scalar (CBU16_GET_SUPPLEMENTARY u v)" by (simp add: scalar_def CBU16_SUPPLEMENTARY)
  then show ?thesis using IsValidCodepoint_scalar [of "CBU16_GET_SUPPLEMENTARY u v"] by (auto simp: scalar_def)
qed

lemma DoUTFConversion16_convert:
  "units16 s \<Longrightarrow> DoUTFConversion16 app cap s dest ok = utf_convert CBU16_NEXT app cap s dest ok"
proof (induction app cap s dest ok rule: DoUTFConversion16.induct)
  case (1 app cap u v src dest ok)
  have u: "0 \<le> u" "u < 0x10000" "0 \<le> v" "v < 0x10000" "units16 src" "units16 (v # src)" using 1(3) by (auto simp: units16_def)
  show ?case
  proof (cases "CBU16_IS_LEAD u \<and> CBU16_IS_TRAIL v")
    case True
    then show ?thesis using 1(1) [OF True refl] u supplementary_scalar [of u v]
      by (subst utf_convert.simps) (auto simp: Let_def or_error_def intro!: bind_option_cong)
  next
    case False
    then show ?thesis using 1(2) [OF False] u ConvertSingleChar_eq [of u ok]
      by (subst utf_convert.simps) (auto simp: Let_def intro!: bind_option_cong)
  qed
next
  case (2 app cap u dest ok)
  then have "0 \<le> u" "u < 0x10000" by (auto simp: units16_def)
  then show ?case using ConvertSingleChar_eq [of u ok]
    by (subst utf_convert.simps) (auto simp: Let_def utf_convert.simps [of _ _ _ "[]"] intro!: bind_option_cong)
next
  case (3 app cap dest ok)
  then show ?case by (simp add: utf_convert.simps)
qed

lemma DoUTFConversion32_convert:
  "\<forall>u \<in> set s. 0 \<le> u \<and> u < 2 ^ 32 \<Longrightarrow> DoUTFConversion32 app cap s dest ok = utf_convert rd32 app cap s dest ok"
proof (induction s arbitrary: dest ok)
  case (Cons u s)
  then have "(if IsValidCodepoint u then (u, ok) else (kErrorCodePoint, False)) = (or_error u, ok \<and> scalar u)"
    using IsValidCodepoint_scalar [of u] by (simp add: or_error_def kErrorCodePoint_def)
  then show ?case using Cons by (subst utf_convert.simps) (auto simp: Let_def intro!: bind_option_cong)
qed (simp add: utf_convert.simps)

text \<open>Room: how many units of the destination a character needs for each one it takes in the source.\<close>

lemma length_enc: "scalar c \<Longrightarrow> length (utf8_enc c) = (if c < 0x80 then 1 else if c < 0x800 then 2 else if c < 0x10000 then 3 else 4)"
    "length (utf16_enc c) = (if c < 0x10000 then 1 else 2)"
  by (simp_all add: utf8_enc_def utf16_enc_def)

lemma length_append:
  "length (CBU8_APPEND_UNSAFE (or_error c)) \<le> 4" "length (CBU16_APPEND_UNSAFE (or_error c)) \<le> 2"
  "\<not> scalar c \<Longrightarrow> length (CBU8_APPEND_UNSAFE (or_error c)) = 3" "\<not> scalar c \<Longrightarrow> length (CBU16_APPEND_UNSAFE (or_error c)) = 1"
  by (auto simp: CBU8_APPEND_enc CBU16_APPEND_enc length_enc or_error_def scalar_def)

lemma room_8_16:
  assumes "bytes s" "CBU8_NEXT s = Some (c, r)"
  shows "length (CBU16_APPEND_UNSAFE (or_error c)) \<le> 1 * (length s - length r)"
proof (cases "scalar c")
  case True
  then have "length s - length r = length (utf8_enc c)" using utf8.rd_scalar [OF assms] by simp
  then show ?thesis using True by (simp add: CBU16_APPEND_enc or_error_def length_enc)
next
  case False
  then show ?thesis using length_append(4) [OF False] CBU8_NEXT_less [OF assms(2)] by simp
qed

lemma room_16_8:
  assumes "units16 s" "CBU16_NEXT s = Some (c, r)"
  shows "length (CBU8_APPEND_UNSAFE (or_error c)) \<le> 3 * (length s - length r)"
proof (cases "scalar c")
  case True
  then have "length s - length r = length (utf16_enc c)" using utf16.rd_scalar [OF assms] by simp
  then show ?thesis using True by (simp add: CBU8_APPEND_enc or_error_def length_enc)
next
  case False
  then show ?thesis using length_append(3) [OF False] utf16.rd_less [OF assms(2)] by simp
qed

definition enc_of :: "nat \<Rightarrow> int \<Rightarrow> int list" where
  "enc_of sz = (if sz = 1 then utf8_enc else if sz = 2 then utf16_enc else (\<lambda>c. [c]))"

lemma unicode_append_enc: "sz \<in> {1, 2, 4} \<Longrightarrow> list_all scalar cs \<Longrightarrow> utf_encode (unicode_append sz) cs = utf_encode (enc_of sz) cs"
  by (induction cs) (auto simp: unicode_append_def enc_of_def CBU8_APPEND_enc CBU16_APPEND_enc)

lemma ascii_encode: "\<forall>c \<in> set s. 0 \<le> c \<and> c < 128 \<Longrightarrow> list_all scalar s \<and> utf_encode (enc_of sz) s = s"
  by (induction s) (auto simp: enc_of_def utf8_enc_def utf16_enc_def scalar_def)

lemma in_units_bytes: "in_units 1 s \<Longrightarrow> bytes s" "in_units 2 s \<Longrightarrow> units16 s" "in_units 4 s \<Longrightarrow> \<forall>u \<in> set s. 0 \<le> u \<and> u < 2 ^ 32"
  by (auto simp: in_units_def bytes_def units16_def)

lemma DoUTFConversion_spec:
  assumes "ssz \<in> {1, 2, 4}" "dsz \<in> {1, 2, 4}" "ssz \<noteq> dsz" "in_units ssz src" "4 * length src < 2 ^ 31"
  shows "\<exists>cs. list_all scalar cs
    \<and> DoUTFConversion ssz (unicode_append dsz) (length src * size_coefficient ssz dsz) src [] True
      = Some (utf_encode (unicode_append dsz) cs, well_formed (enc_of ssz) src)
    \<and> (well_formed (enc_of ssz) src \<longrightarrow> src = utf_encode (enc_of ssz) cs)"
proof -
  have four: "k * length src < 2 ^ 31" if "k \<le> 4" for k
    using that assms(5) mult_le_mono1 [of k 4 "length src"] by linarith
  consider "ssz = 1" "dsz = 2" | "ssz = 1" "dsz = 4" | "ssz = 2" "dsz = 1" | "ssz = 2" "dsz = 4" | "ssz = 4" "dsz = 1" | "ssz = 4" "dsz = 2"
    using assms(1-3) by auto
  then show ?thesis
  proof cases
    case 1
    then show ?thesis using utf8.convert_total [of src CBU16_APPEND_UNSAFE 1 "[]" "length src" True] room_8_16 in_units_bytes(1) assms(4) four [of 1]
      by (simp add: DoUTFConversion_def unicode_append_def size_coefficient_def enc_of_def DoUTFConversion8_convert) blast
  next
    case 2
    have "length [or_error c] \<le> 1 * (length s - length r)" if "CBU8_NEXT s = Some (c, r)" for s c r using CBU8_NEXT_less [OF that] by simp
    then show ?thesis using 2 utf8.convert_total [of src "\<lambda>c. [c]" 1 "[]" "length src" True] in_units_bytes(1) assms(4) four [of 1]
      by (simp add: DoUTFConversion_def unicode_append_def size_coefficient_def enc_of_def DoUTFConversion8_convert) blast
  next
    case 3
    then show ?thesis using utf16.convert_total [of src CBU8_APPEND_UNSAFE 3 "[]" "length src * 3" True] room_16_8 in_units_bytes(2) assms(4) four [of 3]
      by (simp add: DoUTFConversion_def unicode_append_def size_coefficient_def enc_of_def DoUTFConversion16_convert) blast
  next
    case 4
    have "length [or_error c] \<le> 1 * (length s - length r)" if "CBU16_NEXT s = Some (c, r)" for s c r using utf16.rd_less [OF that] by simp
    then show ?thesis using 4 utf16.convert_total [of src "\<lambda>c. [c]" 1 "[]" "length src" True] in_units_bytes(2) assms(4) four [of 1]
      by (simp add: DoUTFConversion_def unicode_append_def size_coefficient_def enc_of_def DoUTFConversion16_convert) blast
  next
    case 5
    have "length (CBU8_APPEND_UNSAFE (or_error c)) \<le> 4 * (length s - length r)" if "rd32 s = Some (c, r)" for s c r
      using utf32.rd_less [OF that] length_append(1) [of c] by simp
    then show ?thesis using 5 utf32.convert_total [of src CBU8_APPEND_UNSAFE 4 "[]" "length src * 4" True] in_units_bytes(3) assms(4) four [of 4]
      by (simp add: DoUTFConversion_def unicode_append_def size_coefficient_def enc_of_def DoUTFConversion32_convert) blast
  next
    case 6
    have "length (CBU16_APPEND_UNSAFE (or_error c)) \<le> 2 * (length s - length r)" if "rd32 s = Some (c, r)" for s c r
      using utf32.rd_less [OF that] length_append(2) [of c] by simp
    then show ?thesis using 6 utf32.convert_total [of src CBU16_APPEND_UNSAFE 2 "[]" "length src * 2" True] in_units_bytes(3) assms(4) four [of 2]
      by (simp add: DoUTFConversion_def unicode_append_def size_coefficient_def enc_of_def DoUTFConversion32_convert) blast
  qed
qed

text \<open>
  The conversions never write past the destination they sized, never read past the source, and
  report success exactly on well-formed text; the result is always well-formed.
\<close>

lemma UTFConversion_spec:
  assumes "ssz \<in> {1, 2, 4}" "dsz \<in> {1, 2, 4}" "ssz \<noteq> dsz" "in_units ssz src" "4 * length src < 2 ^ 31"
  shows "\<exists>cs. list_all scalar cs
    \<and> UTFConversion ssz dsz a src = Some (utf_encode (enc_of dsz) cs, well_formed (enc_of ssz) src)
    \<and> (well_formed (enc_of ssz) src \<longrightarrow> src = utf_encode (enc_of ssz) cs)"
proof (cases "\<forall>c \<in> set src. c < 128")
  case True
  then have "list_all scalar src" "utf_encode (enc_of sz) src = src" for sz
    using ascii_encode [of src] assms(4) by (auto simp: in_units_def)
  moreover from this have "well_formed (enc_of ssz) src" by (auto simp: well_formed_def intro!: exI [of _ src])
  ultimately show ?thesis using True IsStringASCII_spec [OF assms(1,4)] by (intro exI [of _ src]) (simp add: UTFConversion_def)
next
  case False
  have "nat (static_cast int32 (int (length src))) = length src" using assms(5) by (subst static_cast_id) (auto simp: ctype_defs)
  then have "UTFConversion ssz dsz a src
    = DoUTFConversion ssz (unicode_append dsz) (length src * size_coefficient ssz dsz) src [] True"
    using False IsStringASCII_spec [OF assms(1,4), of a] by (auto simp: UTFConversion_def Let_def)
  then show ?thesis using DoUTFConversion_spec [OF assms] unicode_append_enc [OF assms(2)] by auto
qed

lemma enc_of_inj:
  "list_all scalar cs \<Longrightarrow> list_all scalar ds \<Longrightarrow> utf_encode (enc_of sz) cs = utf_encode (enc_of sz) ds \<Longrightarrow> cs = ds"
  using utf8.encode_inj [of cs ds] utf16.encode_inj [of cs ds] utf32.encode_inj [of cs ds] by (simp add: enc_of_def split: if_splits)

lemma utf8_enc_bytes: "scalar c \<Longrightarrow> bytes (utf8_enc c)"
proof -
  assume "scalar c"
  then have c: "0 \<le> c" "c < 0x110000" by (auto simp: scalar_def)
  have m: "0 \<le> x mod 64 \<and> x mod 64 < 64" for x :: int by simp
  consider "c < 0x80" | "0x80 \<le> c" "c < 0x800" | "0x800 \<le> c" "c < 0x10000" | "0x10000 \<le> c" by linarith
  then show ?thesis
  proof cases
    case 2
    then have "0 \<le> c div 64" "c div 64 < 32" by auto
    then show ?thesis using 2 m [of c] by (auto simp: utf8_enc_def)
  next
    case 3
    then have "0 \<le> c div 4096" "c div 4096 < 16" by auto
    then show ?thesis using 3 m [of c] m [of "c div 64"] by (auto simp: utf8_enc_def)
  next
    case 4
    then have "0 \<le> c div 262144" "c div 262144 < 5" using c by auto
    then show ?thesis using 4 m [of c] m [of "c div 64"] m [of "c div 4096"] by (auto simp: utf8_enc_def)
  qed (use c in \<open>simp add: utf8_enc_def\<close>)
qed

lemma utf16_enc_units: "scalar c \<Longrightarrow> units16 (utf16_enc c)"
proof -
  assume "scalar c"
  then have c: "0 \<le> c" "c < 0x110000" by (auto simp: scalar_def)
  have "0 \<le> (c - 0x10000) div 1024" "(c - 0x10000) div 1024 < 1024" if "0x10000 \<le> c" using that c by auto
  moreover have "0 \<le> (c - 0x10000) mod 1024 \<and> (c - 0x10000) mod 1024 < 1024" by simp
  ultimately show ?thesis using c by (auto simp: utf16_enc_def units16_def)
qed

lemma enc_of_units: "sz \<in> {1, 2, 4} \<Longrightarrow> list_all scalar cs \<Longrightarrow> in_units sz (utf_encode (enc_of sz) cs)"
proof (induction cs)
  case (Cons c cs)
  then have "scalar c" by simp
  then have "in_units sz (enc_of sz c)" using Cons.prems(1) utf8_enc_bytes [of c] utf16_enc_units [of c]
    by (auto simp: enc_of_def in_units_def bytes_def units16_def scalar_def)
  then show ?case using Cons by simp
qed simp

lemma enc_of_length: "list_all scalar cs \<Longrightarrow> length cs \<le> length (utf_encode (enc_of sz) cs) \<and> length (utf_encode (enc_of sz) cs) \<le> 4 * length cs"
  by (induction cs) (auto simp: enc_of_def length_enc)

text \<open>
  C10: Conversions between UTF-8, UTF-16 and UTF-32 are safe and right on sources of fewer than
  2 ^ 27 units, so that 16 times the number of units is below 2 ^ 31: the code counts units in
  \<open>int32_t\<close>, a conversion makes the text up to four times as long, and converting back sizes its
  destination by up to four times that. For every such source of code
  units, well-formed or not, at every address, the conversion returns: nothing is read past the
  source or written past the destination sized by \<open>SizeCoefficient\<close>, and the text written is
  well-formed. It reports success exactly when the source is well-formed, and then the result
  encodes the same characters and converting back gives the source again.
\<close>

theorem utf_conversions_correct:
  assumes "ssz \<in> {1, 2, 4}" "dsz \<in> {1, 2, 4}" "ssz \<noteq> dsz" "in_units ssz src" "16 * length src < 2 ^ 31"
  shows "\<exists>out ok. UTFConversion ssz dsz a src = Some (out, ok) \<and> well_formed (enc_of dsz) out
    \<and> (ok \<longleftrightarrow> well_formed (enc_of ssz) src)
    \<and> (ok \<longrightarrow> (\<exists>cs. list_all scalar cs \<and> src = utf_encode (enc_of ssz) cs \<and> out = utf_encode (enc_of dsz) cs)
         \<and> UTFConversion dsz ssz a' out = Some (src, True))"
proof -
  obtain cs where cs: "list_all scalar cs" "UTFConversion ssz dsz a src = Some (utf_encode (enc_of dsz) cs, well_formed (enc_of ssz) src)"
    "well_formed (enc_of ssz) src \<longrightarrow> src = utf_encode (enc_of ssz) cs"
    using UTFConversion_spec [OF assms(1-4), of a] assms(5) by auto
  let ?out = "utf_encode (enc_of dsz) cs"
  have wf: "well_formed (enc_of dsz) ?out" using cs(1) by (auto simp: well_formed_def)
  have "UTFConversion dsz ssz a' ?out = Some (src, True)" if "well_formed (enc_of ssz) src"
  proof -
    have src: "src = utf_encode (enc_of ssz) cs" using that cs(3) by blast
    then have "4 * length ?out < 2 ^ 31" using enc_of_length [OF cs(1), of ssz] enc_of_length [OF cs(1), of dsz] assms(5) by simp
    from UTFConversion_spec [OF assms(2,1) assms(3) [symmetric] enc_of_units [OF assms(2) cs(1)] this, of a'] wf
    obtain ds where ds: "list_all scalar ds" "UTFConversion dsz ssz a' ?out = Some (utf_encode (enc_of ssz) ds, True)"
      "?out = utf_encode (enc_of dsz) ds" by auto
    then show ?thesis using enc_of_inj [OF cs(1) ds(1) ds(3)] src by simp
  qed
  then show ?thesis using cs wf by auto
qed

theorem utf_conversions_correct_witness:
  "\<exists>out ok. UTFConversion 1 2 3 [0x61, 0xc3, 0xa9, 0xf0, 0x9f, 0x98, 0x80, 0xff] = Some (out, ok) \<and> well_formed utf16_enc out
    \<and> (ok \<longleftrightarrow> well_formed utf8_enc [0x61, 0xc3, 0xa9, 0xf0, 0x9f, 0x98, 0x80, 0xff])"
  using utf_conversions_correct [of 1 2 "[0x61, 0xc3, 0xa9, 0xf0, 0x9f, 0x98, 0x80, 0xff]" 3 0] by (auto simp: enc_of_def)

section \<open>Checking and truncating text\<close>

abbreviation valid_chars :: "int list \<Rightarrow> bool" where
  "valid_chars \<equiv> list_all (\<lambda>c. scalar c \<and> IsValidCharacter c)"

lemma valid_chars_scalar: "valid_chars cs \<Longrightarrow> list_all scalar cs"
  by (simp add: list_all_iff)

lemma utf8_all_valid_spec:
  "bytes s \<Longrightarrow> utf8_all_valid s = Some (\<exists>cs. valid_chars cs \<and> s = utf_encode utf8_enc cs)"
proof (induction "length s" arbitrary: s rule: less_induct)
  case less
  show ?case
  proof (cases "s = []")
    case True
    then show ?thesis by (auto simp: utf8_all_valid.simps intro: exI [of _ "[]"])
  next
    case False
    then obtain c r where r: "CBU8_NEXT s = Some (c, r)" using CBU8_NEXT_total by blast
    then have lt: "length r < length s" and br: "bytes r" using CBU8_NEXT_less CBU8_NEXT_drop [OF r] less.prems by auto
    have step: "utf8_all_valid s = (if IsValidCharacter c then utf8_all_valid r else Some False)"
      using False r by (subst utf8_all_valid.simps) simp
    have sc: "IsValidCharacter c \<Longrightarrow> scalar c" using CBU8_NEXT_scalar(1) [OF less.prems r] by (cases "c = - 1") auto
    have "(\<exists>cs. valid_chars cs \<and> s = utf_encode utf8_enc cs)
      \<longleftrightarrow> IsValidCharacter c \<and> (\<exists>cs. valid_chars cs \<and> r = utf_encode utf8_enc cs)"
    proof
      assume "\<exists>cs. valid_chars cs \<and> s = utf_encode utf8_enc cs"
      then obtain d ds where "valid_chars (d # ds)" "s = utf_encode utf8_enc (d # ds)"
        using False by (metis list.exhaust utf_encode_simps(1))
      then show "IsValidCharacter c \<and> (\<exists>cs. valid_chars cs \<and> r = utf_encode utf8_enc cs)" using r CBU8_NEXT_enc [of d] by auto
    next
      assume "IsValidCharacter c \<and> (\<exists>cs. valid_chars cs \<and> r = utf_encode utf8_enc cs)"
      then obtain cs where "valid_chars (c # cs)" "r = utf_encode utf8_enc cs" using sc by auto
      then show "\<exists>cs. valid_chars cs \<and> s = utf_encode utf8_enc cs"
        using utf8.rd_scalar [OF less.prems r] by (intro exI [of _ "c # cs"]) simp
    qed
    then show ?thesis using step less.hyps [OF lt br] by auto
  qed
qed

lemma utf8_enc_shape: "scalar c \<Longrightarrow> \<not> trail (hd (utf8_enc c)) \<and> list_all trail (tl (utf8_enc c))"
proof -
  assume "scalar c"
  then have c: "0 \<le> c" "c < 0x110000" by (auto simp: scalar_def)
  have m: "0 \<le> x mod 64 \<and> x mod 64 < 64" for x :: int by simp
  have "0 \<le> c div 64" "0 \<le> c div 4096" "0 \<le> c div 262144" using c by simp_all
  then show ?thesis using m [of c] m [of "c div 64"] m [of "c div 4096"] by (auto simp: utf8_enc_def trail_def)
qed

lemma CBU8_NEXT_trail: "bytes (t # s) \<Longrightarrow> trail t \<Longrightarrow> \<exists>r. CBU8_NEXT (t # s) = Some (- 1, r)"
proof -
  assume t: "bytes (t # s)" "trail t"
  obtain c r where r: "CBU8_NEXT (t # s) = Some (c, r)" using CBU8_NEXT_total by blast
  have "c = - 1"
  proof (rule ccontr)
    assume c: "c \<noteq> - 1"
    then have "t # s = utf8_enc c @ r" "scalar c" using CBU8_NEXT_scalar [OF t(1) r] by auto
    then show False using t(2) utf8_enc_shape [of c] utf8.enc_ne [of c] by (cases "utf8_enc c") auto
  qed
  then show ?thesis using r by auto
qed

lemma CBU8_NEXT_partial:
  assumes "scalar e" "utf8_enc e = p @ q" "q \<noteq> []" "p \<noteq> []"
  shows "\<exists>r. CBU8_NEXT p = Some (- 1, r)"
proof -
  have bp: "bytes p" using utf8_enc_bytes [OF assms(1)] assms(2) by simp
  obtain c r where r: "CBU8_NEXT p = Some (c, r)" using CBU8_NEXT_total [OF assms(4)] by blast
  have "c = - 1"
  proof (rule ccontr)
    assume c: "c \<noteq> - 1"
    then have p: "p = utf8_enc c @ r" "scalar c" using CBU8_NEXT_scalar [OF bp r] by auto
    have "CBU8_NEXT (utf8_enc e @ []) = CBU8_NEXT (utf8_enc c @ (r @ q))" using assms(2) p(1) by simp
    then have "r @ q = []" using CBU8_NEXT_enc [OF assms(1), of "[]"] CBU8_NEXT_enc [OF p(2), of "r @ q"] by simp
    then show False using assms(3) by simp
  qed
  then show ?thesis using r by auto
qed

lemma truncate_search_skip:
  "(\<And>i. n \<le> i \<Longrightarrow> i < m \<Longrightarrow> \<exists>r. CBU8_NEXT (drop i s) = Some (- 1, r)) \<Longrightarrow> n \<le> m \<Longrightarrow> truncate_search s m = truncate_search s n"
proof (induction m)
  case (Suc m)
  show ?case
  proof (cases "n = Suc m")
    case False
    then have "n \<le> m" using Suc.prems(2) by simp
    moreover obtain r where "CBU8_NEXT (drop m s) = Some (- 1, r)" using Suc.prems(1) [of m] calculation by auto
    ultimately show ?thesis using Suc by simp
  qed simp
qed simp

lemma encode_split:
  "list_all scalar cs \<Longrightarrow> n \<le> length (utf_encode utf8_enc cs) \<Longrightarrow> \<exists>ds es p. cs = ds @ es \<and> take n (utf_encode utf8_enc cs) = utf_encode utf8_enc ds @ p
    \<and> (if es = [] then p = [] else \<exists>q. q \<noteq> [] \<and> utf8_enc (hd es) = p @ q)"
proof (induction cs arbitrary: n)
  case (Cons c cs)
  show ?case
  proof (cases "length (utf8_enc c) \<le> n")
    case True
    have "list_all scalar cs" "n - length (utf8_enc c) \<le> length (utf_encode utf8_enc cs)" using Cons.prems by auto
    from Cons.IH [OF this]
    obtain ds es p where "cs = ds @ es" "take (n - length (utf8_enc c)) (utf_encode utf8_enc cs) = utf_encode utf8_enc ds @ p"
      "if es = [] then p = [] else \<exists>q. q \<noteq> [] \<and> utf8_enc (hd es) = p @ q"
      by (elim exE conjE) (rule that)
    then show ?thesis using True by (intro exI [of _ "c # ds"] exI [of _ es] exI [of _ p]) auto
  next
    case False
    then have "utf8_enc c = take n (utf8_enc c) @ drop n (utf8_enc c)" "drop n (utf8_enc c) \<noteq> []" by auto
    then have "\<exists>q. q \<noteq> [] \<and> utf8_enc c = take n (utf8_enc c) @ q" by blast
    then show ?thesis using False by (intro exI [of _ "[]"] exI [of _ "c # cs"] exI [of _ "take n (utf8_enc c)"]) simp
  qed
qed simp

lemma CBU8_NEXT_inside:
  assumes "scalar c" "utf8_enc c = p @ q" "0 < j" "j < length p" "bytes r"
  shows "\<exists>x. CBU8_NEXT (drop j p @ r) = Some (- 1, x)"
proof -
  have "drop j p \<noteq> []" using assms(4) by simp
  then obtain t s where d: "drop j p = t # s" by (cases "drop j p") auto
  then have "t \<in> set (tl (utf8_enc c))" using assms(2-4) by (cases p; cases j) (auto dest: in_set_dropD [of t _ p] simp: drop_Suc intro: in_set_dropD [of t "j - 1"])
  then have "trail t" using utf8_enc_shape [OF assms(1)] by (simp add: list_all_iff)
  moreover have "bytes (drop j p)" using utf8_enc_bytes [OF assms(1)] assms(2) by simp
  ultimately show ?thesis using CBU8_NEXT_trail [of t "s @ r"] d assms(5) by auto
qed

lemma truncate_search_spec:
  assumes "valid_chars ds" "s = utf_encode utf8_enc ds @ p" "p = [] \<or> (\<exists>e q. scalar e \<and> q \<noteq> [] \<and> utf8_enc e = p @ q)"
  shows "truncate_search s (length s) = Some (if ds = [] then - 1 else int (length (utf_encode utf8_enc ds)))"
proof -
  let ?n = "length (utf_encode utf8_enc ds)"
  have bp: "bytes p" using assms(3) utf8_enc_bytes by fastforce
  have "\<exists>r. CBU8_NEXT (drop i s) = Some (- 1, r)" if "?n \<le> i" "i < length s" for i
  proof -
    have d: "drop i s = drop (i - ?n) p" "i - ?n < length p" using that assms(2) by auto
    then obtain e q where e: "scalar e" "q \<noteq> []" "utf8_enc e = p @ q" using assms(3) by auto
    show ?thesis
    proof (cases "i = ?n")
      case True
      then show ?thesis using CBU8_NEXT_partial [OF e(1,3,2)] d by auto
    next
      case False
      then show ?thesis using CBU8_NEXT_inside [OF e(1,3), of "i - ?n" "[]"] d that(1) by auto
    qed
  qed
  then have skip: "truncate_search s (length s) = truncate_search s ?n" using assms(2) by (intro truncate_search_skip) auto
  show ?thesis
  proof (cases ds rule: rev_cases)
    case Nil
    then show ?thesis using skip by simp
  next
    case (snoc ds' d)
    let ?m = "length (utf_encode utf8_enc ds')"
    have d: "scalar d" "IsValidCharacter d" using assms(1) snoc by auto
    have s: "s = utf_encode utf8_enc ds' @ utf8_enc d @ p" "?n = ?m + length (utf8_enc d)" using assms(2) snoc by auto
    have "\<exists>r. CBU8_NEXT (drop i s) = Some (- 1, r)" if "Suc ?m \<le> i" "i < ?n" for i
      using CBU8_NEXT_inside [OF d(1), of "utf8_enc d" "[]" "i - ?m" p] that s bp by auto
    moreover have "0 < length (utf8_enc d)" using utf8.enc_ne [OF d(1)] by simp
    ultimately have "truncate_search s ?n = truncate_search s (Suc ?m)" using s(2) by (intro truncate_search_skip) (auto simp: Suc_le_eq)
    moreover have "CBU8_NEXT (drop ?m s) = Some (d, p)" using s(1) CBU8_NEXT_enc [OF d(1), of p] by simp
    moreover have "IsValidCodepoint d" using d(1) IsValidCodepoint_scalar [of d] by (auto simp: scalar_def)
    ultimately show ?thesis using skip d(2) s snoc by simp
  qed
qed

lemma IsStringUTF8_long: "2 ^ 31 \<le> length s \<and> length s < 2 ^ 32 \<Longrightarrow> IsStringUTF8 s = Some True"
proof -
  assume s: "2 ^ 31 \<le> length s \<and> length s < 2 ^ 32"
  have r: "in_range int32 (int (length s) - 2 ^ 32)" using s by (simp add: ctype_defs)
  have "static_cast int32 (int (length s)) = static_cast int32 (int (length s) - 2 ^ 32)" by (intro static_cast_cong) simp_all
  also have "\<dots> = int (length s) - 2 ^ 32" using r by (rule static_cast_id)
  finally have "nat (static_cast int32 (int (length s))) = 0" using s by simp
  then show ?thesis by (simp add: IsStringUTF8_def utf8_all_valid.simps)
qed

text \<open>
  C38: Cutting UTF-8 to a number of bytes keeps as many whole characters as fit. On text of any
  length made of valid characters \<open>TruncateUTF8ToByteSize\<close>, asked for fewer than 2 ^ 31 bytes as its
  own check demands, returns the encoding of the longest prefix of the
  characters that fits; its backward search over arbitrary cut points never takes a fragment of a
  character for one. And \<open>IsStringUTF8\<close> accepts exactly such text among the strings of fewer than
  2 ^ 31 bytes; from there to 2 ^ 32 bytes it accepts every string, valid or not, because the length
  is cast to \<open>int32_t\<close> and is then negative.
\<close>

theorem TruncateUTF8_longest_prefix:
  assumes "valid_chars cs" "input = utf_encode utf8_enc cs" "n < 2 ^ 31"
  shows "(\<exists>ds es. cs = ds @ es \<and> TruncateUTF8ToByteSize input n = Some (utf_encode utf8_enc ds) \<and> length (utf_encode utf8_enc ds) \<le> n
      \<and> (es = [] \<or> n < length (utf_encode utf8_enc (ds @ [hd es]))))
    \<and> (bytes s \<and> length s < 2 ^ 31 \<longrightarrow> IsStringUTF8 s = Some (\<exists>cs. valid_chars cs \<and> s = utf_encode utf8_enc cs))
    \<and> (2 ^ 31 \<le> length s \<and> length s < 2 ^ 32 \<longrightarrow> IsStringUTF8 s = Some True)"
proof (intro conjI impI)
  show "\<exists>ds es. cs = ds @ es \<and> TruncateUTF8ToByteSize input n = Some (utf_encode utf8_enc ds) \<and> length (utf_encode utf8_enc ds) \<le> n
      \<and> (es = [] \<or> n < length (utf_encode utf8_enc (ds @ [hd es])))"
  proof (cases "length input < n")
    case True
    then show ?thesis using assms(2) by (intro exI [of _ cs] exI [of _ "[]"]) (simp add: TruncateUTF8ToByteSize_def)
  next
    case False
    obtain ds es p where d: "cs = ds @ es" "take n input = utf_encode utf8_enc ds @ p"
      "if es = [] then p = [] else \<exists>q. q \<noteq> [] \<and> utf8_enc (hd es) = p @ q"
      using encode_split [OF valid_chars_scalar [OF assms(1)], of n] False assms(2) by auto
    have p: "p = [] \<or> (\<exists>e q. scalar e \<and> q \<noteq> [] \<and> utf8_enc e = p @ q)" using d(1,3) assms(1) by (cases es) auto
    have len: "length (take n input) = n" using False by simp
    have ts: "truncate_search (take n input) n = Some (if ds = [] then - 1 else int (length (utf_encode utf8_enc ds)))"
      using truncate_search_spec [OF _ d(2) p] d(1) assms(1) len by simp
    have n: "n = length (utf_encode utf8_enc ds) + length p" using arg_cong [OF d(2), of length] len by simp
    have "take (length (utf_encode utf8_enc ds)) input = utf_encode utf8_enc ds" using assms(2) d(1) by simp
    then have "TruncateUTF8ToByteSize input n = Some (utf_encode utf8_enc ds)"
      using False assms(3) ts by (auto simp: TruncateUTF8ToByteSize_def)
    moreover have "es = [] \<or> n < length (utf_encode utf8_enc (ds @ [hd es]))"
    proof (cases "es = []")
      case False
      then obtain q where "q \<noteq> []" "utf8_enc (hd es) = p @ q" using d(3) by auto
      then show ?thesis by (simp add: n)
    qed simp
    ultimately show ?thesis using d(1) n by (metis le_add1)
  qed
next
  assume s: "bytes s \<and> length s < 2 ^ 31"
  have "nat (static_cast int32 (int (length s))) = length s" using s by (subst static_cast_id) (auto simp: ctype_defs)
  then show "IsStringUTF8 s = Some (\<exists>cs. valid_chars cs \<and> s = utf_encode utf8_enc cs)"
    using s utf8_all_valid_spec by (simp add: IsStringUTF8_def)
next
  assume "2 ^ 31 \<le> length s \<and> length s < 2 ^ 32"
  then show "IsStringUTF8 s = Some True" by (rule IsStringUTF8_long)
qed

theorem TruncateUTF8_longest_prefix_witness:
  "\<exists>ds es. [0x61, 0x20ac, 0x62] = ds @ es
    \<and> TruncateUTF8ToByteSize [0x61, 0xe2, 0x82, 0xac, 0x62] 3 = Some (utf_encode utf8_enc ds) \<and> length (utf_encode utf8_enc ds) \<le> 3
    \<and> (es = [] \<or> 3 < length (utf_encode utf8_enc (ds @ [hd es])))"
proof -
  have e: "[0x61, 0xe2, 0x82, 0xac, 0x62] = utf_encode utf8_enc [0x61, 0x20ac, 0x62]" by (simp add: utf8_enc_def)
  have v: "valid_chars [0x61, 0x20ac, 0x62]" by (simp add: scalar_def IsValidCharacter_def)
  show ?thesis using TruncateUTF8_longest_prefix [OF v e, of 3 "[]"] by simp
qed

text \<open>What \<open>WriteUnicodeCharacter\<close> appends, \<open>ReadUnicodeCharacter\<close> reads, ending on its last unit.\<close>

lemma Write_Read_UnicodeCharacter8:
  assumes "scalar c"
  shows "WriteUnicodeCharacter8 c output = (length (utf8_enc c), output @ utf8_enc c)"
    and "ReadUnicodeCharacter8 (output @ utf8_enc c @ rest) (length output) = Some (True, length output + length (utf8_enc c) - 1, c)"
proof -
  show "WriteUnicodeCharacter8 c output = (length (utf8_enc c), output @ utf8_enc c)"
    using assms by (auto simp: WriteUnicodeCharacter8_def CBU8_APPEND_enc utf8_enc_def u8_def scalar_def Let_def)
  have "IsValidCodepoint c" "c mod 2 ^ 32 = c" using assms IsValidCodepoint_scalar [of c] by (auto simp: scalar_def)
  then show "ReadUnicodeCharacter8 (output @ utf8_enc c @ rest) (length output) = Some (True, length output + length (utf8_enc c) - 1, c)"
    using CBU8_NEXT_enc [OF assms, of rest] by (simp add: ReadUnicodeCharacter8_def)
qed

lemma Write_Read_UnicodeCharacter16:
  assumes "scalar c"
  shows "WriteUnicodeCharacter16 c output = (length (utf16_enc c), output @ utf16_enc c)"
    and "ReadUnicodeCharacter16 (output @ utf16_enc c @ rest) (length output) junk = Some (True, length output + length (utf16_enc c) - 1, c)"
proof -
  show "WriteUnicodeCharacter16 c output = (length (utf16_enc c), output @ utf16_enc c)"
    using assms by (auto simp: WriteUnicodeCharacter16_def CBU16_LENGTH_def CBU16_APPEND_enc utf16_enc_def u16_def scalar_def)
  have v: "IsValidCodepoint c" using assms IsValidCodepoint_scalar [of c] by (auto simp: scalar_def)
  show "ReadUnicodeCharacter16 (output @ utf16_enc c @ rest) (length output) junk = Some (True, length output + length (utf16_enc c) - 1, c)"
  proof (cases "c < 0x10000")
    case True
    then have "\<not> CBU16_IS_SURROGATE c" using assms CBU16_iff(3) [of c] by (auto simp: scalar_def CBU16_IS_SURROGATE_def)
    then show ?thesis using True v by (simp add: ReadUnicodeCharacter16_def utf16_enc_def)
  next
    case False
    let ?u = "0xd800 + (c - 0x10000) div 1024" and ?v = "0xdc00 + (c - 0x10000) mod 1024"
    have q: "0 \<le> (c - 0x10000) div 1024" "(c - 0x10000) div 1024 < 1024" using False assms by (auto simp: scalar_def)
    then have "CBU16_IS_SURROGATE ?u" "CBU16_IS_TRAIL ?v" using CBU16_iff(3) [of ?u] CBU16_iff(2) [of ?v] by (auto simp: CBU16_IS_SURROGATE_def)
    moreover have "CBU16_IS_SURROGATE_LEAD ?u"
    proof -
      have "?u div 1024 = 54" using q by simp
      then have "\<not> bit ?u 10" by (simp add: bit_iff_odd)
      then show ?thesis using and_exp_eq_0_iff_not_bit [of ?u 10] by (simp add: CBU16_IS_SURROGATE_LEAD_def)
    qed
    moreover have "CBU16_GET_SUPPLEMENTARY ?u ?v = c" by (simp add: CBU16_SUPPLEMENTARY)
    ultimately show ?thesis using False v by (simp add: ReadUnicodeCharacter16_def utf16_enc_def nth_append Let_def)
  qed
qed

end
