(* ===== verification/Pattern.thy ===== *)
theory Pattern
  imports Utf
begin

text \<open>
  Wildcard matching, \<open>base/strings/pattern.cc\<close>: the matcher over UTF-8 (character size 1) or UTF-16
  (size 2) text. A pointer into a string is the suffix that starts there. The distances are
  integers, -1 for no limit, as in the code; they stay in the range of \<open>int\<close> for texts shorter than
  two gigabytes.
\<close>

section \<open>The matcher\<close>

definition next_char :: "nat \<Rightarrow> int list \<Rightarrow> (int \<times> int list) option" where
  "next_char sz = (if sz = 1 then CBU8_NEXT else CBU16_NEXT)"

lemma next_char_less: "next_char sz s = Some (c, r) \<Longrightarrow> length r < length s"
  using CBU8_NEXT_less utf16.rd_less by (auto simp: next_char_def split: if_splits)

definition IsWildcard :: "int \<Rightarrow> bool" where
  "IsWildcard character \<longleftrightarrow> character = 42 \<or> character = 63"

text \<open>
  \<open>string_start\<close> is where the current attempt began. The result is the return value and where the
  two pointers are left; \<open>None\<close> is a read past the end.
\<close>

function SearchForChars ::
  "nat \<Rightarrow> int list \<Rightarrow> int list \<Rightarrow> int list \<Rightarrow> int list \<Rightarrow> bool \<Rightarrow> int \<Rightarrow> (bool \<times> int list \<times> int list) option" where
  "SearchForChars sz pattern_start pattern string_start str escape maximum_distance =
     (let mismatch = (\<lambda>escape.
        if maximum_distance = 0 then Some (False, pattern, str)
        else do {
          (_, string_start) \<leftarrow> next_char sz string_start;
          SearchForChars sz pattern_start pattern_start string_start string_start escape (maximum_distance - 1)
        }) in
      if pattern = [] then
        if str = [] then Some (True, pattern, str) else mismatch escape
      else if \<not> escape \<and> IsWildcard (hd pattern) then Some (True, pattern, str)
      else if \<not> escape \<and> hd pattern = 92 then do {
        (_, pattern) \<leftarrow> next_char sz pattern;
        SearchForChars sz pattern_start pattern string_start str True maximum_distance
      }
      else if str = [] then Some (False, pattern, str)
      else do {
        (pattern_char, pattern_next) \<leftarrow> next_char sz pattern;
        (string_char, string_next) \<leftarrow> next_char sz str;
        if pattern_char = string_char \<and> pattern_char \<noteq> CBU_SENTINEL
        then SearchForChars sz pattern_start pattern_next string_start string_next False maximum_distance
        else mismatch False
      })"
  by auto
termination
  by (relation "measures [\<lambda>(sz, ps, p, ss, s, e, d). length ss, \<lambda>(sz, ps, p, ss, s, e, d). length p]")
    (auto dest: next_char_less)

function EatWildcards :: "nat \<Rightarrow> int list \<Rightarrow> int \<Rightarrow> bool \<Rightarrow> (int \<times> int list) option" where
  "EatWildcards sz pattern num_question_marks has_asterisk =
     (if pattern \<noteq> [] \<and> IsWildcard (hd pattern) then do {
        let num_question_marks = (if hd pattern = 63 then num_question_marks + 1 else num_question_marks);
        let has_asterisk = (has_asterisk \<or> hd pattern = 42);
        (_, pattern) \<leftarrow> next_char sz pattern;
        EatWildcards sz pattern num_question_marks has_asterisk
      }
      else Some (if has_asterisk then - 1 else num_question_marks, pattern))"
  by auto
termination
  by (relation "measure (\<lambda>(sz, p, n, b). length p)") (auto dest: next_char_less)

declare SearchForChars.simps [simp del] EatWildcards.simps [simp del]

partial_function (option) MatchPatternT :: "nat \<Rightarrow> int list \<Rightarrow> int list \<Rightarrow> bool option" where
  "MatchPatternT sz eval pattern = do {
     (maximum_wildcard_length, pattern) \<leftarrow> EatWildcards sz pattern 0 False;
     (found, pattern, eval) \<leftarrow> SearchForChars sz pattern pattern eval eval False maximum_wildcard_length;
     if \<not> found then Some False
     else if pattern \<noteq> [] then MatchPatternT sz eval pattern
     else Some True
   }"

definition MatchPattern8 :: "int list \<Rightarrow> int list \<Rightarrow> bool option" where
  "MatchPattern8 eval pattern = MatchPatternT 1 eval pattern"

definition MatchPattern16 :: "int list \<Rightarrow> int list \<Rightarrow> bool option" where
  "MatchPattern16 eval pattern = MatchPatternT 2 eval pattern"

section \<open>The reference\<close>

text \<open>
  The meaning of a pattern: its tokens, and the documented relation between tokens and text,
  with \<open>?\<close> for zero or one character and \<open>*\<close> for any number of them. A malformed character (-1)
  equals nothing, not even itself. A pattern that ends in a lone backslash has no tokens.
\<close>

datatype glob_token = Lit int | Query | Star

fun glob :: "glob_token list \<Rightarrow> int list \<Rightarrow> bool" where
  "glob [] s \<longleftrightarrow> s = []"
| "glob (Lit c # p) s \<longleftrightarrow> s \<noteq> [] \<and> hd s = c \<and> c \<noteq> - 1 \<and> glob p (tl s)"
| "glob (Query # p) s \<longleftrightarrow> glob p s \<or> s \<noteq> [] \<and> glob p (tl s)"
| "glob (Star # p) s \<longleftrightarrow> (\<exists>k \<le> length s. glob p (drop k s))"

function chars :: "nat \<Rightarrow> int list \<Rightarrow> int list" where
  "chars sz s = (case next_char sz s of None \<Rightarrow> [] | Some (c, r) \<Rightarrow> c # chars sz r)"
  by auto
termination
  by (relation "measure (\<lambda>(sz, s). length s)") (auto dest: next_char_less)

function glob_tokens :: "nat \<Rightarrow> int list \<Rightarrow> glob_token list option" where
  "glob_tokens sz p =
     (if p = [] then Some []
      else if IsWildcard (hd p) then do {
        (_, r) \<leftarrow> next_char sz p; ts \<leftarrow> glob_tokens sz r; Some ((if hd p = 63 then Query else Star) # ts)
      }
      else do {
        (c, r) \<leftarrow> next_char sz p;
        if hd p = 92 then do { (c, r) \<leftarrow> next_char sz r; ts \<leftarrow> glob_tokens sz r; Some (Lit c # ts) }
        else do { ts \<leftarrow> glob_tokens sz r; Some (Lit c # ts) }
      })"
  by auto
termination
  by (relation "measure (\<lambda>(sz, p). length p)") (auto dest!: next_char_less intro: less_trans)

declare chars.simps [simp del] glob_tokens.simps [simp del]

section \<open>Termination\<close>

lemma next_char_Nil [simp]: "next_char sz [] = None"
  by (simp add: next_char_def)

lemma next_char_total: "s \<noteq> [] \<Longrightarrow> \<exists>c r. next_char sz s = Some (c, r)"
  using CBU8_NEXT_total utf16.rd_total by (auto simp: next_char_def)

lemma chars_Nil [simp]: "chars sz [] = []"
  by (simp add: chars.simps)

lemma chars_next: "next_char sz s = Some (c, r) \<Longrightarrow> chars sz s = c # chars sz r"
  by (simp add: chars.simps [of sz s])

text \<open>The steps of the search.\<close>

definition retry :: "nat \<Rightarrow> int list \<Rightarrow> int list \<Rightarrow> bool \<Rightarrow> int \<Rightarrow> int list \<Rightarrow> int list \<Rightarrow> (bool \<times> int list \<times> int list) option" where
  "retry sz p0 ss escape d pat str =
     (if d = 0 then Some (False, pat, str)
      else do { (_, ss) \<leftarrow> next_char sz ss; SearchForChars sz p0 p0 ss ss escape (d - 1) })"

lemma search_end: "SearchForChars sz p0 [] ss str escape d = (if str = [] then Some (True, [], []) else retry sz p0 ss escape d [] str)"
  by (simp add: SearchForChars.simps [of sz p0 "[]"] retry_def Let_def)

lemma search_wildcard: "pat \<noteq> [] \<Longrightarrow> IsWildcard (hd pat) \<Longrightarrow> SearchForChars sz p0 pat ss str False d = Some (True, pat, str)"
  by (simp add: SearchForChars.simps [of sz p0 pat] Let_def)

lemma search_escape: "pat \<noteq> [] \<Longrightarrow> hd pat = 92 \<Longrightarrow> next_char sz pat = Some (c, pn) \<Longrightarrow>
    SearchForChars sz p0 pat ss str False d = SearchForChars sz p0 pn ss str True d"
  by (simp add: SearchForChars.simps [of sz p0 pat] IsWildcard_def Let_def)

lemma search_exhausted: "pat \<noteq> [] \<Longrightarrow> escape \<or> \<not> IsWildcard (hd pat) \<and> hd pat \<noteq> 92 \<Longrightarrow>
    SearchForChars sz p0 pat ss [] escape d = Some (False, pat, [])"
  by (auto simp: SearchForChars.simps [of sz p0 pat] Let_def)

lemma search_compare: "escape \<or> \<not> IsWildcard (hd pat) \<and> hd pat \<noteq> 92 \<Longrightarrow>
    next_char sz pat = Some (pc, pn) \<Longrightarrow> next_char sz str = Some (sc, sn) \<Longrightarrow>
    SearchForChars sz p0 pat ss str escape d =
      (if pc = sc \<and> pc \<noteq> - 1 then SearchForChars sz p0 pn ss sn False d else retry sz p0 ss False d pat str)"
proof -
  assume h: "escape \<or> \<not> IsWildcard (hd pat) \<and> hd pat \<noteq> 92" "next_char sz pat = Some (pc, pn)" "next_char sz str = Some (sc, sn)"
  then have "pat \<noteq> []" "str \<noteq> []" by auto
  then show ?thesis using h by (auto simp: SearchForChars.simps [of sz p0 pat] Let_def retry_def CBU_SENTINEL_def)
qed

definition search_result :: "int list \<Rightarrow> (bool \<times> int list \<times> int list) option \<Rightarrow> bool" where
  "search_result p0 res \<longleftrightarrow> (\<exists>b p s. res = Some (b, p, s) \<and> (p = p0 \<or> length p < length p0) \<and> (b \<longrightarrow> p = [] \<or> IsWildcard (hd p)))"

lemma search_total_inner:
  assumes retry: "\<And>e pat str. str \<noteq> [] \<Longrightarrow> length str \<le> length ss \<Longrightarrow> pat = p0 \<or> length pat < length p0 \<Longrightarrow> search_result p0 (retry sz p0 ss e d pat str)"
    and "length str \<le> length ss" "pat = p0 \<or> length pat < length p0"
  shows "search_result p0 (SearchForChars sz p0 pat ss str escape d)"
  using assms(2,3)
proof (induction "length pat" arbitrary: pat str escape rule: less_induct)
  case less
  show ?case
  proof (cases "pat = []")
    case True
    then show ?thesis using retry [OF _ less.prems, of escape] less.prems(2) by (auto simp: search_end search_result_def)
  next
    case False
    then obtain pc pn where pn: "next_char sz pat = Some (pc, pn)" using next_char_total by blast
    then have lt: "length pn < length pat" by (rule next_char_less)
    then have sh: "pn = p0 \<or> length pn < length p0" using less.prems(2) by auto
    consider "\<not> escape" "IsWildcard (hd pat)" | "\<not> escape" "hd pat = 92" | "escape \<or> \<not> IsWildcard (hd pat) \<and> hd pat \<noteq> 92" by blast
    then show ?thesis
    proof cases
      case 1
      then show ?thesis using False less.prems(2) by (auto simp: search_wildcard search_result_def)
    next
      case 2
      then show ?thesis using search_escape [OF False 2(2) pn] less.hyps [OF lt less.prems(1) sh] by simp
    next
      case 3
      show ?thesis
      proof (cases "str = []")
        case True
        then show ?thesis using search_exhausted [OF False 3] less.prems(2) by (auto simp: search_result_def)
      next
        case ne: False
        then obtain sc sn where sn: "next_char sz str = Some (sc, sn)" using next_char_total by blast
        then have "length sn \<le> length ss" using next_char_less [OF sn] less.prems(1) by simp
        then show ?thesis using search_compare [OF 3 pn sn] less.hyps [OF lt _ sh] retry [OF ne less.prems] by simp
      qed
    qed
  qed
qed

lemma search_total:
  "length str \<le> length ss \<Longrightarrow> pat = p0 \<or> length pat < length p0 \<Longrightarrow> search_result p0 (SearchForChars sz p0 pat ss str escape d)"
proof (induction "length ss" arbitrary: ss d pat str escape rule: less_induct)
  case less
  show ?case
  proof (rule search_total_inner [OF _ less.prems])
    fix e and pat' str' :: "int list" assume a: "str' \<noteq> []" "length str' \<le> length ss" "pat' = p0 \<or> length pat' < length p0"
    then have "ss \<noteq> []" by auto
    then obtain c s1 where s1: "next_char sz ss = Some (c, s1)" using next_char_total by blast
    then show "search_result p0 (retry sz p0 ss e d pat' str')"
      using less.hyps [OF next_char_less [OF s1], of s1 p0 e "d - 1"] a(3) by (auto simp: retry_def search_result_def)
  qed
qed

lemma EatWildcards_total:
  "\<exists>m p'. EatWildcards sz p n a = Some (m, p') \<and> (p' = p \<and> (p = [] \<or> \<not> IsWildcard (hd p)) \<or> length p' < length p) \<and> (p' = [] \<or> \<not> IsWildcard (hd p'))"
proof (induction sz p n a rule: EatWildcards.induct)
  case (1 sz p n a)
  show ?case
  proof (cases "p \<noteq> [] \<and> IsWildcard (hd p)")
    case True
    then obtain c r where r: "next_char sz p = Some (c, r)" using next_char_total by blast
    obtain m p' where "EatWildcards sz r (if hd p = 63 then n + 1 else n) (a \<or> hd p = 42) = Some (m, p')"
      "length p' \<le> length r" "p' = [] \<or> \<not> IsWildcard (hd p')"
      using 1 [OF True refl refl r refl] by auto
    then show ?thesis using True r next_char_less [OF r] by (simp add: EatWildcards.simps [of sz p])
  next
    case False
    then show ?thesis by (auto simp: EatWildcards.simps [of sz p])
  qed
qed

lemma MatchPatternT_total: "\<exists>b. MatchPatternT sz e p = Some b"
proof (induction "length p" arbitrary: e p rule: less_induct)
  case less
  obtain m p1 where e: "EatWildcards sz p 0 False = Some (m, p1)" "p1 = p \<and> (p = [] \<or> \<not> IsWildcard (hd p)) \<or> length p1 < length p"
      "p1 = [] \<or> \<not> IsWildcard (hd p1)"
    using EatWildcards_total by blast
  obtain b p2 s where r: "SearchForChars sz p1 p1 e e False m = Some (b, p2, s)" "p2 = p1 \<or> length p2 < length p1"
      "b \<longrightarrow> p2 = [] \<or> IsWildcard (hd p2)"
    using search_total [of e e p1 p1 sz False m] by (auto simp: search_result_def)
  have "length p2 < length p" if "b" "p2 \<noteq> []" using that r e by auto
  then have "b \<Longrightarrow> p2 \<noteq> [] \<Longrightarrow> \<exists>b. MatchPatternT sz s p2 = Some b" using less.hyps by blast
  then show ?case using e(1) r(1) by (subst MatchPatternT.simps) auto
qed

section \<open>Segments\<close>

text \<open>The literal characters from a place in the pattern up to the next wildcard, and that place.\<close>

function parse_seg :: "nat \<Rightarrow> int list \<Rightarrow> (int list \<times> int list) option" where
  "parse_seg sz p =
     (if p = [] \<or> IsWildcard (hd p) then Some ([], p)
      else do {
        (c, r) \<leftarrow> next_char sz p;
        if hd p = 92 then do { (c, r) \<leftarrow> next_char sz r; (L, q) \<leftarrow> parse_seg sz r; Some (c # L, q) }
        else do { (L, q) \<leftarrow> parse_seg sz r; Some (c # L, q) }
      })"
  by auto
termination
  by (relation "measure (\<lambda>(sz, p). length p)") (auto dest!: next_char_less intro: less_trans)

declare parse_seg.simps [simp del]

definition seg_ok :: "int list \<Rightarrow> bool \<Rightarrow> int list \<Rightarrow> bool" where
  "seg_ok L fin xs \<longleftrightarrow> take (length L) xs = L \<and> - 1 \<notin> set L \<and> (fin \<longrightarrow> length xs = length L)"

fun seg_search :: "int list \<Rightarrow> bool \<Rightarrow> int list \<Rightarrow> int \<Rightarrow> int list option" where
  "seg_search L fin [] d = (if seg_ok L fin [] then Some [] else None)"
| "seg_search L fin (x # xs) d =
     (if seg_ok L fin (x # xs) then Some (drop (length L) (x # xs)) else if d = 0 then None else seg_search L fin xs (d - 1))"

lemma seg_ok_Cons: "seg_ok (c # L) fin (x # xs) \<longleftrightarrow> c = x \<and> c \<noteq> - 1 \<and> seg_ok L fin xs"
  by (auto simp: seg_ok_def)

lemma seg_ok_Nil [simp]: "seg_ok [] fin xs \<longleftrightarrow> (fin \<longrightarrow> xs = [])" "\<not> seg_ok (c # L) fin []"
  by (auto simp: seg_ok_def)

lemma seg_ok_length: "seg_ok L fin xs \<Longrightarrow> length L \<le> length xs"
  by (metis length_take min.cobounded1 seg_ok_def)

lemma seg_search_short: "length xs < length L \<Longrightarrow> seg_search L fin xs d = None"
proof (induction xs arbitrary: d)
  case Nil
  then show ?case using seg_ok_length [of L fin "[]"] by auto
next
  case (Cons x xs)
  then have "\<not> seg_ok L fin (x # xs)" using seg_ok_length by fastforce
  then show ?case using Cons by auto
qed

lemma seg_search_some:
  "seg_search L fin xs d = Some rest \<Longrightarrow> \<exists>k \<le> length xs. (d < 0 \<or> int k \<le> d) \<and> seg_ok L fin (drop k xs) \<and> rest = drop (k + length L) xs
     \<and> (\<forall>j < k. \<not> seg_ok L fin (drop j xs))"
proof (induction xs arbitrary: d)
  case Nil
  then show ?case by (auto split: if_splits)
next
  case (Cons x xs)
  show ?case
  proof (cases "seg_ok L fin (x # xs)")
    case True
    then show ?thesis using Cons.prems by (intro exI [of _ 0]) auto
  next
    case False
    then obtain k where k: "k \<le> length xs" "d \<noteq> 0" "d - 1 < 0 \<or> int k \<le> d - 1" "seg_ok L fin (drop k xs)" "rest = drop (k + length L) xs"
      "\<forall>j < k. \<not> seg_ok L fin (drop j xs)" using Cons.IH [of "d - 1"] Cons.prems by (auto split: if_splits)
    have "\<not> seg_ok L fin (drop j (x # xs))" if "j < Suc k" for j using k(6) False that by (cases j) auto
    then show ?thesis using k by (intro exI [of _ "Suc k"]) auto
  qed
qed

lemma seg_search_none:
  "seg_search L fin xs d = None \<Longrightarrow> k \<le> length xs \<Longrightarrow> d < 0 \<or> int k \<le> d \<Longrightarrow> \<not> seg_ok L fin (drop k xs)"
proof (induction xs arbitrary: d k)
  case (Cons x xs)
  then show ?case by (cases k) (auto split: if_splits)
qed (simp split: if_splits)

text \<open>An attempt at one place of the string either succeeds, runs out of text, or is given up for the next place.\<close>

lemma search_attempt:
  assumes "parse_seg sz p = Some (L, q)" "length s \<le> length ss"
  shows "if seg_ok L (q = []) (chars sz s)
    then \<exists>s'. SearchForChars sz p0 p ss s False d = Some (True, q, s') \<and> chars sz s' = drop (length L) (chars sz s)
    else (\<exists>p' s'. SearchForChars sz p0 p ss s False d = Some (False, p', s') \<and> length (chars sz s) < length L)
      \<or> (\<exists>p' s'. s' \<noteq> [] \<and> length s' \<le> length ss \<and> SearchForChars sz p0 p ss s False d = retry sz p0 ss False d p' s')"
  using assms
proof (induction L arbitrary: p s)
  case Nil
  have q: "q = p" "p = [] \<or> IsWildcard (hd p)"
    using Nil(1) by (auto simp: parse_seg.simps [of sz p] bind_eq_Some_conv split: if_splits)
  show ?case
  proof (cases "p = []")
    case True
    then show ?thesis using q Nil(2) next_char_total [of s sz] by (cases "s = []") (auto simp: search_end chars_next)
  next
    case False
    then show ?thesis using q by (auto simp: search_wildcard)
  qed
next
  case (Cons c L)
  let ?S = "SearchForChars sz p0 p ss s False d"
  have p: "p \<noteq> []" "\<not> IsWildcard (hd p)" using Cons.prems(1) by (auto simp: parse_seg.simps [of sz p])
  obtain p1 r e where r: "next_char sz p1 = Some (c, r)" "parse_seg sz r = Some (L, q)"
      "e \<or> \<not> IsWildcard (hd p1) \<and> hd p1 \<noteq> 92" "?S = SearchForChars sz p0 p1 ss s e d" "p1 \<noteq> []"
  proof (cases "hd p = 92")
    case True
    then obtain c' p1 r where "next_char sz p = Some (c', p1)" "next_char sz p1 = Some (c, r)" "parse_seg sz r = Some (L, q)"
      using p Cons.prems(1) by (auto simp: parse_seg.simps [of sz p] bind_eq_Some_conv)
    then show ?thesis using that [of p1 r True] search_escape [OF p(1) True] by force
  next
    case False
    then obtain r where "next_char sz p = Some (c, r)" "parse_seg sz r = Some (L, q)"
      using p Cons.prems(1) by (auto simp: parse_seg.simps [of sz p] bind_eq_Some_conv)
    then show ?thesis using that [of p r False] p False by blast
  qed
  show ?case
  proof (cases "s = []")
    case True
    then show ?thesis using r(4) search_exhausted [OF r(5,3)] by simp
  next
    case False
    then obtain x sn where sn: "next_char sz s = Some (x, sn)" using next_char_total by blast
    have len: "length sn \<le> length ss" using next_char_less [OF sn] Cons.prems(2) by simp
    have S: "?S = (if c = x \<and> c \<noteq> - 1 then SearchForChars sz p0 r ss sn False d else retry sz p0 ss False d p1 s)"
      using r(4) search_compare [OF r(3,1) sn] by simp
    show ?thesis
    proof (cases "c = x \<and> c \<noteq> - 1")
      case True
      then show ?thesis using Cons.IH [OF r(2) len] S chars_next [OF sn] by (simp add: seg_ok_Cons split: if_splits)
    next
      case no: False
      then have "\<not> seg_ok (c # L) (q = []) (chars sz s)" using chars_next [OF sn] by (simp add: seg_ok_Cons)
      then show ?thesis using S no False Cons.prems(2) by auto
    qed
  qed
qed

lemma search_segment:
  assumes "parse_seg sz p = Some (L, q)"
  shows "\<exists>b p' s'. SearchForChars sz p p ss ss False d = Some (b, p', s')
    \<and> (case seg_search L (q = []) (chars sz ss) d of None \<Rightarrow> \<not> b | Some rest \<Rightarrow> b \<and> p' = q \<and> chars sz s' = rest)"
proof (induction "length ss" arbitrary: ss d rule: less_induct)
  case less
  show ?case
  proof (cases "seg_ok L (q = []) (chars sz ss)")
    case True
    moreover have "seg_search L (q = []) (chars sz ss) d = Some (drop (length L) (chars sz ss))" using True by (cases "chars sz ss") auto
    ultimately show ?thesis using search_attempt [OF assms, of ss ss p d] by auto
  next
    case False
    have "(\<exists>p' s'. SearchForChars sz p p ss ss False d = Some (False, p', s') \<and> length (chars sz ss) < length L)
      \<or> (\<exists>p' s'. s' \<noteq> [] \<and> length s' \<le> length ss \<and> SearchForChars sz p p ss ss False d = retry sz p ss False d p' s')"
      using search_attempt [OF assms, of ss ss p d] False by simp
    then show ?thesis
    proof (elim disjE exE conjE)
      fix p' s' assume "SearchForChars sz p p ss ss False d = Some (False, p', s')" "length (chars sz ss) < length L"
      then show ?thesis by (intro exI [of _ False]) (simp add: seg_search_short)
    next
      fix p' s' assume h: "s' \<noteq> []" "length s' \<le> length ss" "SearchForChars sz p p ss ss False d = retry sz p ss False d p' s'"
      then have "ss \<noteq> []" by auto
      then obtain c s1 where s1: "next_char sz ss = Some (c, s1)" using next_char_total by blast
      then have "seg_search L (q = []) (chars sz ss) d = (if d = 0 then None else seg_search L (q = []) (chars sz s1) (d - 1))"
        using False chars_next [OF s1] by simp
      then show ?thesis using h(3) s1 less.hyps [OF next_char_less [OF s1], of "d - 1"] by (auto simp: retry_def)
    qed
  qed
qed

section \<open>Tokens\<close>

definition wild :: "glob_token \<Rightarrow> bool" where
  "wild t \<longleftrightarrow> t = Query \<or> t = Star"

lemma tokens_segment:
  "glob_tokens sz p = Some ts \<Longrightarrow> \<exists>L q R. parse_seg sz p = Some (L, q) \<and> ts = map Lit L @ R \<and> glob_tokens sz q = Some R
     \<and> (q = p \<or> length q < length p) \<and> (R = [] \<longleftrightarrow> q = []) \<and> (R \<noteq> [] \<longrightarrow> wild (hd R) \<and> IsWildcard (hd q))"
proof (induction "length p" arbitrary: p ts rule: less_induct)
  case less
  show ?case
  proof (cases "p = [] \<or> IsWildcard (hd p)")
    case True
    then have "parse_seg sz p = Some ([], p)" by (simp add: parse_seg.simps)
    moreover have "(ts = [] \<longleftrightarrow> p = []) \<and> (ts \<noteq> [] \<longrightarrow> wild (hd ts) \<and> IsWildcard (hd p))"
      using True less.prems by (auto simp: glob_tokens.simps [of sz p] bind_eq_Some_conv wild_def split: if_splits)
    ultimately show ?thesis using less.prems by (intro exI [of _ "[]"] exI [of _ p] exI [of _ ts]) simp
  next
    case False
    obtain c r us where r: "parse_seg sz p = do { (L, q) \<leftarrow> parse_seg sz r; Some (c # L, q) }" "length r < length p"
      "glob_tokens sz r = Some us" "ts = Lit c # us"
    proof (cases "hd p = 92")
      case True
      then obtain c' p1 c r us where h: "next_char sz p = Some (c', p1)" "next_char sz p1 = Some (c, r)" "glob_tokens sz r = Some us" "ts = Lit c # us"
        using less.prems False by (auto simp: glob_tokens.simps [of sz p] bind_eq_Some_conv)
      then have "length r < length p" using next_char_less [OF h(1)] next_char_less [OF h(2)] by simp
      then show ?thesis using that [of r c us] h True False by (simp add: parse_seg.simps [of sz p])
    next
      case ne: False
      then obtain c r us where h: "next_char sz p = Some (c, r)" "glob_tokens sz r = Some us" "ts = Lit c # us"
        using less.prems False by (auto simp: glob_tokens.simps [of sz p] bind_eq_Some_conv)
      then show ?thesis using that [of r c us] next_char_less [OF h(1)] ne False by (simp add: parse_seg.simps [of sz p])
    qed
    obtain L q R where "parse_seg sz r = Some (L, q)" "us = map Lit L @ R" "glob_tokens sz q = Some R"
      "q = r \<or> length q < length r" "R = [] \<longleftrightarrow> q = []" "R \<noteq> [] \<longrightarrow> wild (hd R) \<and> IsWildcard (hd q)"
      using less.hyps [OF r(2,3)] by blast
    then show ?thesis using r by (intro exI [of _ "c # L"] exI [of _ q] exI [of _ R]) auto
  qed
qed

lemma tokens_eat:
  "glob_tokens sz p = Some ts \<Longrightarrow> \<exists>W p' us. EatWildcards sz p n a = Some (if a \<or> Star \<in> set W then - 1 else n + int (length W), p')
     \<and> ts = W @ us \<and> list_all wild W \<and> glob_tokens sz p' = Some us \<and> length p' + length W \<le> length p"
proof (induction "length p" arbitrary: p ts n a rule: less_induct)
  case less
  show ?case
  proof (cases "p \<noteq> [] \<and> IsWildcard (hd p)")
    case False
    then show ?thesis using less.prems
      by (intro exI [of _ "[]"] exI [of _ p] exI [of _ ts]) (auto simp: EatWildcards.simps [of sz p])
  next
    case True
    obtain c r us where r: "next_char sz p = Some (c, r)" "glob_tokens sz r = Some us" "ts = (if hd p = 63 then Query else Star) # us"
      using less.prems True by (auto simp: glob_tokens.simps [of sz p] bind_eq_Some_conv)
    have lt: "length r < length p" using next_char_less [OF r(1)] .
    let ?n = "if hd p = 63 then n + 1 else n" and ?a = "a \<or> hd p = 42" and ?w = "if hd p = 63 then Query else Star"
    obtain W p' vs where IH: "EatWildcards sz r ?n ?a = Some (if ?a \<or> Star \<in> set W then - 1 else ?n + int (length W), p')"
      "us = W @ vs" "list_all wild W" "glob_tokens sz p' = Some vs" "length p' + length W \<le> length r"
      using less.hyps [OF lt r(2), of ?n ?a] by blast
    have "EatWildcards sz p n a = EatWildcards sz r ?n ?a" using True r(1) by (simp add: EatWildcards.simps [of sz p])
    also have "\<dots> = Some (if a \<or> Star \<in> set (?w # W) then - 1 else n + int (length (?w # W)), p')"
      using True IH(1) by (auto simp: IsWildcard_def)
    finally show ?thesis using IH r(3) lt
      by (intro exI [of _ "?w # W"] exI [of _ p'] exI [of _ vs]) (auto simp: wild_def)
  qed
qed

lemma glob_wild:
  "list_all wild W \<Longrightarrow> glob (W @ T) xs \<longleftrightarrow> (\<exists>k \<le> length xs. (Star \<in> set W \<or> k \<le> length W) \<and> glob T (drop k xs))"
proof (induction W arbitrary: xs)
  case (Cons w W)
  let ?P = "\<lambda>k. k \<le> length xs \<and> (Star \<in> set (w # W) \<or> k \<le> length (w # W)) \<and> glob T (drop k xs)"
  have W: "glob (W @ T) ys \<longleftrightarrow> (\<exists>k \<le> length ys. (Star \<in> set W \<or> k \<le> length W) \<and> glob T (drop k ys))" for ys
    using Cons by simp
  have "w = Query \<or> w = Star" using Cons.prems by (simp add: wild_def)
  then show ?case
  proof
    assume q: "w = Query"
    show ?thesis
    proof
      assume "glob ((w # W) @ T) xs"
      then have "glob (W @ T) xs \<or> xs \<noteq> [] \<and> glob (W @ T) (tl xs)" using q by simp
      then show "\<exists>k. ?P k"
      proof
        assume "glob (W @ T) xs"
        then show ?thesis using W [of xs] q by auto
      next
        assume h: "xs \<noteq> [] \<and> glob (W @ T) (tl xs)"
        then obtain k where "k \<le> length (tl xs)" "Star \<in> set W \<or> k \<le> length W" "glob T (drop k (tl xs))" using W [of "tl xs"] by auto
        then show ?thesis using h by (cases xs) (auto intro!: exI [of _ "Suc k"])
      qed
    next
      assume "\<exists>k. ?P k"
      then obtain k where k: "?P k" by blast
      show "glob ((w # W) @ T) xs"
      proof (cases "Star \<in> set W \<or> k \<le> length W")
        case True
        then show ?thesis using k q W [of xs] by auto
      next
        case False
        then have "k = Suc (length W)" "xs \<noteq> []" using k q by auto
        then have "length W \<le> length (tl xs)" "glob T (drop (length W) (tl xs))" using k by (auto simp: drop_Suc)
        then have "glob (W @ T) (tl xs)" using W [of "tl xs"] by blast
        then show ?thesis using q \<open>xs \<noteq> []\<close> by simp
      qed
    qed
  next
    assume st: "w = Star"
    show ?thesis
    proof
      assume "glob ((w # W) @ T) xs"
      then obtain j where "j \<le> length xs" "glob (W @ T) (drop j xs)" using st by auto
      then obtain k where "k \<le> length (drop j xs)" "glob T (drop k (drop j xs))" using W [of "drop j xs"] by auto
      then show "\<exists>k. ?P k" using st \<open>j \<le> length xs\<close> by (intro exI [of _ "k + j"]) auto
    next
      assume "\<exists>k. ?P k"
      then obtain k where k: "?P k" by blast
      then have "glob (W @ T) (drop k xs)" using W [of "drop k xs"] by (auto intro: exI [of _ 0])
      then show "glob ((w # W) @ T) xs" using k st by auto
    qed
  qed
qed simp

lemma glob_lits: "glob (map Lit L @ R) xs \<longleftrightarrow> take (length L) xs = L \<and> - 1 \<notin> set L \<and> glob R (drop (length L) xs)"
proof (induction L arbitrary: xs)
  case (Cons c L)
  then show ?case by (cases xs) auto
qed simp

lemma glob_segment: "glob (map Lit L @ R) xs \<longleftrightarrow> seg_ok L (R = []) xs \<and> glob R (drop (length L) xs)"
  using seg_ok_length [of L "R = []" xs] by (auto simp: glob_lits seg_ok_def)

lemma glob_Star_mono: "glob (Star # p) (drop j xs) \<Longrightarrow> i \<le> j \<Longrightarrow> glob (Star # p) (drop i xs)"
proof -
  assume "glob (Star # p) (drop j xs)" and i: "i \<le> j"
  then obtain k where k: "k \<le> length (drop j xs)" "glob p (drop k (drop j xs))" by auto
  show ?thesis
  proof (cases "j \<le> length xs")
    case True
    then show ?thesis using k i by (auto intro!: exI [of _ "k + (j - i)"])
  next
    case False
    then have "glob p []" using k by simp
    then show ?thesis by (auto intro!: exI [of _ "length xs - i"])
  qed
qed

text \<open>One round of the main loop, on tokens.\<close>

lemma match_round:
  assumes "glob_tokens sz p = Some ts"
  shows "\<exists>W L R q. ts = W @ map Lit L @ R \<and> list_all wild W \<and> glob_tokens sz q = Some R
    \<and> (R \<noteq> [] \<longrightarrow> wild (hd R) \<and> length q < length p)
    \<and> (case seg_search L (R = []) (chars sz e) (if Star \<in> set W then - 1 else int (length W)) of
         None \<Rightarrow> MatchPatternT sz e p = Some False
       | Some rest \<Rightarrow> if R = [] then MatchPatternT sz e p = Some True
           else \<exists>e'. chars sz e' = rest \<and> MatchPatternT sz e p = MatchPatternT sz e' q)"
proof -
  obtain W p' us where w: "EatWildcards sz p 0 False = Some (if Star \<in> set W then - 1 else int (length W), p')" "ts = W @ us"
    "list_all wild W" "glob_tokens sz p' = Some us" "length p' + length W \<le> length p"
    using tokens_eat [OF assms, of 0 False] unfolding add_0 simp_thms by blast
  have hd': "p' = [] \<or> \<not> IsWildcard (hd p')" using EatWildcards_total [of sz p 0 False] w(1) by auto
  obtain L q R where l: "parse_seg sz p' = Some (L, q)" "us = map Lit L @ R" "glob_tokens sz q = Some R" "q = p' \<or> length q < length p'"
    "R = [] \<longleftrightarrow> q = []" "R \<noteq> [] \<longrightarrow> wild (hd R) \<and> IsWildcard (hd q)" using tokens_segment [OF w(4)] by blast
  have lt: "length q < length p" if "R \<noteq> []" using l hd' w(5) that by auto
  let ?d = "if Star \<in> set W then - 1 else int (length W)"
  obtain b p2 s where s: "SearchForChars sz p' p' e e False ?d = Some (b, p2, s)"
    "case seg_search L (q = []) (chars sz e) ?d of None \<Rightarrow> \<not> b | Some rest \<Rightarrow> b \<and> p2 = q \<and> chars sz s = rest"
    using search_segment [OF l(1), of e ?d] by blast
  have m: "MatchPatternT sz e p = (if \<not> b then Some False else if p2 \<noteq> [] then MatchPatternT sz s p2 else Some True)"
    using w(1) s(1) by (subst MatchPatternT.simps) simp
  show ?thesis
  proof (intro exI conjI)
    show "case seg_search L (R = []) (chars sz e) ?d of None \<Rightarrow> MatchPatternT sz e p = Some False
       | Some rest \<Rightarrow> if R = [] then MatchPatternT sz e p = Some True
           else \<exists>e'. chars sz e' = rest \<and> MatchPatternT sz e p = MatchPatternT sz e' q"
      using m s(2) l(5) by (cases "seg_search L (R = []) (chars sz e) ?d") auto
  qed (use w l lt in auto)
qed

lemma MatchPatternT_sound:
  "glob_tokens sz p = Some ts \<Longrightarrow> MatchPatternT sz e p = Some True \<Longrightarrow> glob ts (chars sz e)"
proof (induction "length p" arbitrary: p ts e rule: less_induct)
  case less
  obtain W L R q where r: "ts = W @ map Lit L @ R" "list_all wild W" "glob_tokens sz q = Some R" "R \<noteq> [] \<longrightarrow> wild (hd R) \<and> length q < length p"
    "case seg_search L (R = []) (chars sz e) (if Star \<in> set W then - 1 else int (length W)) of
       None \<Rightarrow> MatchPatternT sz e p = Some False
     | Some rest \<Rightarrow> if R = [] then MatchPatternT sz e p = Some True
         else \<exists>e'. chars sz e' = rest \<and> MatchPatternT sz e p = MatchPatternT sz e' q"
    using match_round [OF less.prems(1), of e] by blast
  let ?d = "if Star \<in> set W then - 1 else int (length W)"
  obtain rest where rest1: "seg_search L (R = []) (chars sz e) ?d = Some rest"
    using r(5) less.prems(2) by (cases "seg_search L (R = []) (chars sz e) ?d") simp_all
  have rest2: "\<exists>e'. chars sz e' = rest \<and> MatchPatternT sz e' q = Some True" if "R \<noteq> []"
    using r(5) less.prems(2) that unfolding rest1 by auto
  obtain k where k: "k \<le> length (chars sz e)" "Star \<in> set W \<or> k \<le> length W" "seg_ok L (R = []) (drop k (chars sz e))" "rest = drop (k + length L) (chars sz e)"
    using seg_search_some [OF rest1] by (auto split: if_splits)
  have "glob R (drop (length L) (drop k (chars sz e)))"
  proof (cases "R = []")
    case True
    then have "length (drop k (chars sz e)) = length L" using k(3) by (simp add: seg_ok_def)
    then show ?thesis using True by simp
  next
    case False
    then obtain e' where "chars sz e' = rest" "MatchPatternT sz e' q = Some True" using rest2 by auto
    then show ?thesis using less.hyps [of q R e'] r(3,4) False k(4) by (simp add: add.commute)
  qed
  then show ?case using r(1,2) k by (auto simp: glob_wild glob_segment)
qed

lemma MatchPatternT_complete:
  "glob_tokens sz p = Some ts \<Longrightarrow> Query \<notin> set ts \<Longrightarrow> glob ts (chars sz e) \<Longrightarrow> MatchPatternT sz e p = Some True"
proof (induction "length p" arbitrary: p ts e rule: less_induct)
  case less
  obtain W L R q where r: "ts = W @ map Lit L @ R" "list_all wild W" "glob_tokens sz q = Some R" "R \<noteq> [] \<longrightarrow> wild (hd R) \<and> length q < length p"
    "case seg_search L (R = []) (chars sz e) (if Star \<in> set W then - 1 else int (length W)) of
       None \<Rightarrow> MatchPatternT sz e p = Some False
     | Some rest \<Rightarrow> if R = [] then MatchPatternT sz e p = Some True
         else \<exists>e'. chars sz e' = rest \<and> MatchPatternT sz e p = MatchPatternT sz e' q"
    using match_round [OF less.prems(1), of e] by blast
  let ?d = "if Star \<in> set W then - 1 else int (length W)"
  obtain k where k: "k \<le> length (chars sz e)" "Star \<in> set W \<or> k \<le> length W" "seg_ok L (R = []) (drop k (chars sz e))"
    "glob R (drop (length L) (drop k (chars sz e)))"
    using less.prems(3) r(1,2) by (auto simp: glob_wild glob_segment)
  have "?d < 0 \<or> int k \<le> ?d" using k(2) by auto
  then have "seg_search L (R = []) (chars sz e) ?d \<noteq> None" using seg_search_none [OF _ k(1)] k(3) by blast
  then obtain rest where rest: "seg_search L (R = []) (chars sz e) ?d = Some rest" by blast
  obtain k0 where k0: "k0 \<le> length (chars sz e)" "seg_ok L (R = []) (drop k0 (chars sz e))" "rest = drop (k0 + length L) (chars sz e)"
    "\<forall>j < k0. \<not> seg_ok L (R = []) (drop j (chars sz e))"
    using seg_search_some [OF rest] by blast
  have le: "k0 \<le> k" using k0(4) k(3) by (meson leI)
  show ?case
  proof (cases "R = []")
    case True
    then show ?thesis using r(5) rest by simp
  next
    case False
    then obtain R' where R: "R = Star # R'" using r(1,4) less.prems(2) by (cases R) (auto simp: wild_def)
    have "glob R rest" using glob_Star_mono [of R' "k + length L" "chars sz e" "k0 + length L"] k(4) k0(3) le R by (simp add: add.commute)
    moreover obtain e' where e': "chars sz e' = rest" "MatchPatternT sz e p = MatchPatternT sz e' q" using r(5) rest False by auto
    moreover have "Query \<notin> set R" using less.prems(2) r(1) by simp
    ultimately show ?thesis using less.hyps [of q R e'] r(3,4) False by simp
  qed
qed

text \<open>Rules that run the matcher on given ASCII text.\<close>

lemma next_ascii: "0 \<le> b \<Longrightarrow> b < 128 \<Longrightarrow> next_char (Suc 0) (b # s) = Some (b, s)"
  by (simp add: next_char_def CBU8_NEXT_1)

lemma retry_steps: "retry sz p0 ss e 0 p s = Some (False, p, s)"
    "d \<noteq> 0 \<Longrightarrow> next_char sz ss = Some (c, s1) \<Longrightarrow> retry sz p0 ss e d p s = SearchForChars sz p0 p0 s1 s1 e (d - 1)"
  by (simp_all add: retry_def)

lemma eat_steps: "p = [] \<or> \<not> IsWildcard (hd p) \<Longrightarrow> EatWildcards sz p n a = Some (if a then - 1 else n, p)"
    "next_char sz (63 # p) = Some (c, r) \<Longrightarrow> EatWildcards sz (63 # p) n a = EatWildcards sz r (n + 1) a"
    "next_char sz (42 # p) = Some (c, r) \<Longrightarrow> EatWildcards sz (42 # p) n a = EatWildcards sz r n True"
  by (auto simp: EatWildcards.simps [of _ "63 # p"] EatWildcards.simps [of _ "42 # p"] EatWildcards.simps [of sz p] IsWildcard_def)

lemma match_steps:
  "EatWildcards sz p 0 False = Some (m, p1) \<Longrightarrow> SearchForChars sz p1 p1 e e False m = Some (False, p2, s) \<Longrightarrow> MatchPatternT sz e p = Some False"
  "EatWildcards sz p 0 False = Some (m, p1) \<Longrightarrow> SearchForChars sz p1 p1 e e False m = Some (True, p2, s) \<Longrightarrow>
   MatchPatternT sz e p = (if p2 \<noteq> [] then MatchPatternT sz s p2 else Some True)"
  by (subst MatchPatternT.simps, simp)+

lemma token_steps:
  "glob_tokens sz [] = Some []"
  "IsWildcard c \<Longrightarrow> next_char sz (c # p) = Some (d, r) \<Longrightarrow>
     glob_tokens sz (c # p) = map_option ((#) (if c = 63 then Query else Star)) (glob_tokens sz r)"
  "\<not> IsWildcard c \<Longrightarrow> c \<noteq> 92 \<Longrightarrow> next_char sz (c # p) = Some (d, r) \<Longrightarrow> glob_tokens sz (c # p) = map_option ((#) (Lit d)) (glob_tokens sz r)"
  "next_char sz (92 # p) = Some (x, q) \<Longrightarrow> next_char sz q = Some (d, r) \<Longrightarrow>
     glob_tokens sz (92 # p) = map_option ((#) (Lit d)) (glob_tokens sz r)"
  by (simp_all add: glob_tokens.simps [of _ "[]"] glob_tokens.simps [of _ "c # p"] glob_tokens.simps [of _ "92 # p"]
      IsWildcard_def map_conv_bind_option comp_def)

lemmas match_eval = next_ascii retry_steps eat_steps match_steps token_steps search_end search_wildcard search_escape
  search_exhausted search_compare IsWildcard_def MatchPattern8_def chars_next

text \<open>
  C11: Matching always ends and is the documented relation where it should be. For every text and
  every pattern, well-formed or not, in UTF-8 or UTF-16, the matcher returns without reading past
  an end. When it accepts a pattern that does not end in a lone backslash, the text does match it;
  and for patterns whose only wildcard is \<open>*\<close> it accepts exactly the texts that match: taking the
  leftmost occurrence of each literal segment loses nothing.
\<close>

theorem MatchPattern_matches:
  "(\<exists>b. MatchPatternT sz e p = Some b)
   \<and> (\<forall>ts. glob_tokens sz p = Some ts \<longrightarrow>
        (MatchPatternT sz e p = Some True \<longrightarrow> glob ts (chars sz e))
        \<and> (Query \<notin> set ts \<longrightarrow> MatchPatternT sz e p = Some (glob ts (chars sz e))))"
proof (intro conjI allI impI)
  show total: "\<exists>b. MatchPatternT sz e p = Some b" by (rule MatchPatternT_total)
  fix ts assume t: "glob_tokens sz p = Some ts"
  show sound: "MatchPatternT sz e p = Some True \<Longrightarrow> glob ts (chars sz e)" using MatchPatternT_sound [OF t] .
  assume "Query \<notin> set ts"
  then show "MatchPatternT sz e p = Some (glob ts (chars sz e))"
    using total MatchPatternT_complete [OF t] sound by (cases "MatchPatternT sz e p = Some True") auto
qed

theorem MatchPattern_matches_witness:
  "glob_tokens 1 [97, 42, 92, 42] = Some [Lit 97, Star, Lit 42]
    \<and> MatchPatternT 1 [97, 98, 42, 42] [97, 42, 92, 42] = Some (glob [Lit 97, Star, Lit 42] (chars 1 [97, 98, 42, 42]))"
proof -
  have t: "glob_tokens 1 [97, 42, 92, 42] = Some [Lit 97, Star, Lit 42]" by (simp add: match_eval)
  moreover have "Query \<notin> set [Lit 97, Star, Lit 42]" by simp
  ultimately show ?thesis using MatchPattern_matches [of 1 "[97, 98, 42, 42]" "[97, 42, 92, 42]"] by blast
qed

text \<open>
  The question mark is not complete. The text \<open>aacb\<close> matches \<open>?a?b\<close> and \<open>aab\<close> matches \<open>*a?\<close> by
  the documented meaning of the wildcards, but the matcher rejects both, because it commits to the
  leftmost occurrence of a segment even when a limited wildcard follows. And after a lone
  backslash at the end of the pattern the escape flag survives the restart of the search, so that
  \<open>*\\<close> accepts the text \<open>a\\<close> but not the text \<open>\\<close>.
\<close>
theorem question_mark_incomplete:
  "glob_tokens 1 [63, 97, 63, 98] = Some [Query, Lit 97, Query, Lit 98] \<and> glob [Query, Lit 97, Query, Lit 98] (chars 1 [97, 97, 99, 98])
   \<and> MatchPattern8 [97, 97, 99, 98] [63, 97, 63, 98] = Some False
   \<and> glob_tokens 1 [42, 97, 63] = Some [Star, Lit 97, Query] \<and> glob [Star, Lit 97, Query] (chars 1 [97, 97, 98])
   \<and> MatchPattern8 [97, 97, 98] [42, 97, 63] = Some False
   \<and> MatchPattern8 [97, 92] [42, 92] = Some True \<and> MatchPattern8 [92] [42, 92] = Some False"
proof (intro conjI)
  have c: "chars 1 [97, 97, 99, 98] = [97, 97, 99, 98]" "chars 1 [97, 97, 98] = [97, 97, 98]"
    by (simp_all add: match_eval)
  show "glob [Query, Lit 97, Query, Lit 98] (chars 1 [97, 97, 99, 98])" unfolding c by simp
  show "glob [Star, Lit 97, Query] (chars 1 [97, 97, 98])" unfolding c by (simp add: exI [of _ 1])
qed (simp_all add: match_eval)

end
