(* ===== verification/String_Numbers.thy ===== *)
theory String_Numbers
  imports Checked_Numeric "HOL-Library.Monad_Syntax"
begin

text \<open>
  Numbers and text, \<open>base/strings/string_number_conversions.cc\<close>: integers to decimal text through a
  buffer filled from its end, decimal and hexadecimal text to integers with saturation, and bytes
  to hexadecimal text and back. Characters are their codes; the type of the integer is an
  argument. \<open>None\<close> is a failed check, an overflow of a signed integer or a write outside the buffer.
  \<open>isspace\<close> is that of the C locale.
\<close>

unbundle bit_operations_syntax

section \<open>Integers to text\<close>

definition kOutputBufSize :: "ctype \<Rightarrow> nat" where
  "kOutputBufSize T = 3 * (int_bits T div 8) + (if is_signed T then 1 else 0)"

text \<open>
  The loops write at \<open>i\<close>, an index into the buffer that counts down; what is already written is the
  text from there to the end.
\<close>

definition its_put :: "nat \<Rightarrow> int list \<Rightarrow> int \<Rightarrow> (nat \<times> int list) option" where
  "its_put i written c = (if i = 0 \<or> i - 1 = 0 then None else Some (i - 1, c # written))"

function its_digits :: "nat \<Rightarrow> int list \<Rightarrow> int \<Rightarrow> (nat \<times> int list) option" where
  "its_digits i written res = do {
     (i, written) \<leftarrow> its_put i written (res mod 10 + 48);
     let res = res div 10;
     if res > 0 then its_digits i written res else Some (i, written)
   }"
  by auto
termination
  by (relation "measure (\<lambda>(i, w, res). nat res)") auto

declare its_digits.simps [simp del]

definition IntToString :: "ctype \<Rightarrow> int \<Rightarrow> int list option" where
  "IntToString T value = do {
     res \<leftarrow> cn_ValueOrDie (make_unsigned T) (make_unsigned T) (cn_UnsignedAbs T (CheckedNumeric_of T T value));
     (i, written) \<leftarrow> its_digits (kOutputBufSize T) [] res;
     if IsValueNegative T value then do { (i, written) \<leftarrow> its_put i written 45; Some written }
     else Some written
   }"

section \<open>Text to integers\<close>

definition BaseCharToDigit_le10 :: "int \<Rightarrow> int \<Rightarrow> int option" where
  "BaseCharToDigit_le10 b c = (if c \<ge> 48 \<and> c < 48 + b then Some (c - 48) else None)"

definition BaseCharToDigit_gt10 :: "int \<Rightarrow> int \<Rightarrow> int option" where
  "BaseCharToDigit_gt10 b c =
     (if c \<ge> 48 \<and> c \<le> 57 then Some (c - 48)
      else if c \<ge> 97 \<and> c < 97 + b - 10 then Some (c - 97 + 10)
      else if c \<ge> 65 \<and> c < 65 + b - 10 then Some (c - 65 + 10)
      else None)"

definition CharToDigit :: "int \<Rightarrow> int \<Rightarrow> int option" where
  "CharToDigit b c = (if b \<le> 10 then BaseCharToDigit_le10 b c else BaseCharToDigit_gt10 b c)"

definition LocalIsWhitespace :: "int \<Rightarrow> bool" where
  "LocalIsWhitespace c \<longleftrightarrow> c = 32 \<or> 9 \<le> c \<and> c \<le> 13"

text \<open>
  \<open>Sign::CheckBounds\<close> returns whether the next digit fits, and the saturated value otherwise; the
  sign is a flag, division is the truncating one of C++.
\<close>

definition CheckBounds :: "bool \<Rightarrow> ctype \<Rightarrow> int \<Rightarrow> int \<Rightarrow> int \<Rightarrow> bool \<times> int" where
  "CheckBounds negative T b output new_digit =
     (if negative then
        if output < trunc_div (nl_lowest T) b
           \<or> output = trunc_div (nl_lowest T) b \<and> new_digit > 0 - trunc_mod (nl_lowest T) b
        then (False, nl_lowest T) else (True, output)
      else
        if output > trunc_div (nl_max T) b
           \<or> output = trunc_div (nl_max T) b \<and> new_digit > trunc_mod (nl_max T) b
        then (False, nl_max T) else (True, output))"

definition Increment :: "bool \<Rightarrow> int \<Rightarrow> int \<Rightarrow> int" where
  "Increment negative output digit = (if negative then output - digit else output + digit)"

text \<open>Arithmetic on the value: a result outside the type is an overflow.\<close>

definition checked_value :: "ctype \<Rightarrow> int \<Rightarrow> int option" where
  "checked_value T v = (if in_range T v then Some v else None)"

fun rtn_digits :: "bool \<Rightarrow> ctype \<Rightarrow> int \<Rightarrow> bool \<Rightarrow> int list \<Rightarrow> int \<Rightarrow> (bool \<times> int) option" where
  "rtn_digits negative T b first [] output = Some (True, output)"
| "rtn_digits negative T b first (c # cs) output =
     (case CharToDigit b c of
        None \<Rightarrow> Some (False, output)
      | Some new_digit \<Rightarrow>
          if first then do {
            output \<leftarrow> checked_value T (Increment negative output new_digit);
            rtn_digits negative T b False cs output
          }
          else
            let (ok, output) = CheckBounds negative T b output new_digit in
            if \<not> ok then Some (False, output)
            else do {
              output \<leftarrow> checked_value T (output * b);
              output \<leftarrow> checked_value T (Increment negative output new_digit);
              rtn_digits negative T b False cs output
            })"

definition rtn_Base_Invoke :: "bool \<Rightarrow> ctype \<Rightarrow> int \<Rightarrow> int list \<Rightarrow> (bool \<times> int) option" where
  "rtn_Base_Invoke negative T b s =
     (if s = [] then Some (False, 0)
      else
        let s = (if b = 16 \<and> length s > 2 \<and> s ! 0 = 48 \<and> (s ! 1 = 120 \<or> s ! 1 = 88) then drop 2 s else s)
        in rtn_digits negative T b True s 0)"

definition IteratorRangeToNumber_Invoke :: "ctype \<Rightarrow> int \<Rightarrow> int list \<Rightarrow> (bool \<times> int) option" where
  "IteratorRangeToNumber_Invoke T b input =
     (let valid = (input = [] \<or> \<not> LocalIsWhitespace (hd input)); s = dropWhile LocalIsWhitespace input in
      if s \<noteq> [] \<and> hd s = 45 then
        if \<not> is_signed T then Some (False, 0)
        else do { (ok, output) \<leftarrow> rtn_Base_Invoke True T b (tl s); Some (valid \<and> ok, output) }
      else
        let s = (if s \<noteq> [] \<and> hd s = 43 then tl s else s) in
        do { (ok, output) \<leftarrow> rtn_Base_Invoke False T b s; Some (valid \<and> ok, output) })"

definition StringToInt :: "int list \<Rightarrow> (bool \<times> int) option" where
  "StringToInt input = IteratorRangeToNumber_Invoke int32 10 input"

definition StringToUint :: "int list \<Rightarrow> (bool \<times> int) option" where
  "StringToUint input = IteratorRangeToNumber_Invoke uint32 10 input"

definition StringToInt64 :: "int list \<Rightarrow> (bool \<times> int) option" where
  "StringToInt64 input = IteratorRangeToNumber_Invoke int64 10 input"

definition StringToUint64 :: "int list \<Rightarrow> (bool \<times> int) option" where
  "StringToUint64 input = IteratorRangeToNumber_Invoke uint64 10 input"

definition HexStringToInt :: "int list \<Rightarrow> (bool \<times> int) option" where
  "HexStringToInt input = IteratorRangeToNumber_Invoke int32 16 input"

definition HexStringToUInt :: "int list \<Rightarrow> (bool \<times> int) option" where
  "HexStringToUInt input = IteratorRangeToNumber_Invoke uint32 16 input"

definition HexStringToInt64 :: "int list \<Rightarrow> (bool \<times> int) option" where
  "HexStringToInt64 input = IteratorRangeToNumber_Invoke int64 16 input"

definition HexStringToUInt64 :: "int list \<Rightarrow> (bool \<times> int) option" where
  "HexStringToUInt64 input = IteratorRangeToNumber_Invoke uint64 16 input"

section \<open>Bytes and hexadecimal text\<close>

definition kHexChars :: "int list" where
  "kHexChars = [48, 49, 50, 51, 52, 53, 54, 55, 56, 57, 65, 66, 67, 68, 69, 70]"

definition HexEncode :: "int list \<Rightarrow> int list" where
  "HexEncode bytes = concat (map (\<lambda>b. [kHexChars ! nat (drop_bit 4 b AND 0xf), kHexChars ! nat (b AND 0xf)]) bytes)"

fun hex_pairs :: "int list \<Rightarrow> int list \<Rightarrow> bool \<times> int list" where
  "hex_pairs (h # l # input) output =
     (case (CharToDigit 16 h, CharToDigit 16 l) of
        (Some msb, Some lsb) \<Rightarrow> hex_pairs input (output @ [push_bit 4 msb OR lsb])
      | _ \<Rightarrow> (False, output))"
| "hex_pairs input output = (True, output)"

definition HexStringToBytes :: "int list \<Rightarrow> bool \<times> int list" where
  "HexStringToBytes input =
     (if length input = 0 \<or> length input mod 2 \<noteq> 0 then (False, []) else hex_pairs input [])"

section \<open>Decimal text\<close>

function dec :: "int \<Rightarrow> int list" where
  "dec n = (if n < 10 then [n + 48] else dec (n div 10) @ [n mod 10 + 48])"
  by auto
termination
  by (relation "measure nat") auto

declare dec.simps [simp del]

lemma dec_length: "0 \<le> n \<Longrightarrow> n < 10 ^ k \<Longrightarrow> 0 < k \<Longrightarrow> length (dec n) \<le> k"
proof (induction k arbitrary: n)
  case (Suc k)
  show ?case
  proof (cases "n < 10")
    case False
    then have "k \<noteq> 0" using Suc.prems(2) by (intro notI) simp
    moreover have "n div 10 < 10 ^ k" using Suc.prems(2) by (simp add: div_less_iff_less_mult)
    ultimately show ?thesis using Suc.IH [of "n div 10"] Suc.prems(1) False by (simp add: dec.simps [of n])
  qed (simp add: dec.simps)
qed simp

lemma its_digits_dec: "0 \<le> n \<Longrightarrow> length (dec n) < i \<Longrightarrow> its_digits i w n = Some (i - length (dec n), dec n @ w)"
proof (induction n arbitrary: i w rule: dec.induct)
  case (1 n)
  show ?case
  proof (cases "n < 10")
    case True
    then show ?thesis using 1(2,3) by (simp add: dec.simps [of n] its_digits.simps [of i w n] its_put_def Let_def)
  next
    case False
    then have "length (dec (n div 10)) < i - 1" using 1(3) by (simp add: dec.simps [of n])
    moreover have "0 < n div 10" using False by simp
    ultimately show ?thesis using 1(1) [OF False, of "i - 1" "(n mod 10 + 48) # w"] 1(3) False
      by (simp add: dec.simps [of n] its_digits.simps [of i w n] its_put_def Let_def)
  qed
qed

abbreviation parsed_type :: "ctype \<Rightarrow> bool" where
  "parsed_type T \<equiv> T \<in> {int32, uint32, int64, uint64}"

lemma IntToString_dec:
  assumes "parsed_type T" "in_range T v"
  shows "IntToString T v = Some ((if v < 0 then [45] else []) @ dec \<bar>v\<bar>)"
proof -
  have t: "cint T" "0 < int_bits T" using assms(1) by (auto simp: cint_def)
  have a: "SafeUnsignedAbs T v = \<bar>v\<bar>" using SafeUnsignedAbs_eq [OF t(2) assms(2)] .
  have r: "in_range (make_unsigned T) \<bar>v\<bar>" using assms by (auto simp: ctype_defs make_unsigned_def)
  have "cn_ValueOrDie (make_unsigned T) (make_unsigned T) (cn_UnsignedAbs T (CheckedNumeric_of T T v)) = Some \<bar>v\<bar>"
    using t(1) a r assms(2) by (simp add: cn_ValueOrDie_def cn_UnsignedAbs_def CheckedNumeric_of_def CheckedNumericState2_def cn_IsValid_def Let_def)
  moreover have "length (dec \<bar>v\<bar>) + 1 < kOutputBufSize T \<and> (v < 0 \<longrightarrow> length (dec \<bar>v\<bar>) + 2 < kOutputBufSize T)"
    using assms dec_length [of "\<bar>v\<bar>" 10] dec_length [of "\<bar>v\<bar>" 20] by (auto simp: kOutputBufSize_def ctype_defs abs_less_iff)
  moreover have "IsValueNegative T v \<longleftrightarrow> v < 0" using assms by (auto simp: IsValueNegative_def ctype_defs)
  ultimately show ?thesis using its_digits_dec [of "\<bar>v\<bar>" "kOutputBufSize T" "[]"]
    by (auto simp: IntToString_def its_put_def)
qed

section \<open>The value of a text\<close>

text \<open>The reference: the digits of a text in a base, its magnitude and its value.\<close>

fun digit_list :: "int \<Rightarrow> int list \<Rightarrow> int list option" where
  "digit_list b [] = Some []"
| "digit_list b (c # cs) = do { d \<leftarrow> CharToDigit b c; ds \<leftarrow> digit_list b cs; Some (d # ds) }"

definition horner :: "int \<Rightarrow> int \<Rightarrow> int list \<Rightarrow> int" where
  "horner b a ds = foldl (\<lambda>a d. a * b + d) a ds"

definition magnitude :: "int \<Rightarrow> int list \<Rightarrow> int option" where
  "magnitude b s =
     (if s = [] then None
      else map_option (horner b 0) (digit_list b
        (if b = 16 \<and> length s > 2 \<and> s ! 0 = 48 \<and> (s ! 1 = 120 \<or> s ! 1 = 88) then drop 2 s else s)))"

definition num_value :: "int \<Rightarrow> int list \<Rightarrow> int option" where
  "num_value b s =
     (if s \<noteq> [] \<and> hd s = 45 then map_option uminus (magnitude b (tl s))
      else magnitude b (if s \<noteq> [] \<and> hd s = 43 then tl s else s))"

lemma CharToDigit_range: "CharToDigit b c = Some d \<Longrightarrow> b \<in> {10, 16} \<Longrightarrow> 0 \<le> d \<and> d < b"
  by (auto simp: CharToDigit_def BaseCharToDigit_le10_def BaseCharToDigit_gt10_def split: if_splits)

lemma digit_list_range: "digit_list b s = Some ds \<Longrightarrow> b \<in> {10, 16} \<Longrightarrow> \<forall>d \<in> set ds. 0 \<le> d"
proof (induction s arbitrary: ds)
  case (Cons c s)
  then show ?case using CharToDigit_range by (fastforce simp: bind_eq_Some_conv)
qed simp

lemma horner_mono: "\<forall>d \<in> set ds. 0 \<le> d \<Longrightarrow> 1 \<le> b \<Longrightarrow> 0 \<le> a \<Longrightarrow> a \<le> horner b a ds"
proof (induction ds arbitrary: a)
  case (Cons d ds)
  have "a * 1 \<le> a * b" using Cons.prems by (intro mult_left_mono) auto
  then have "a \<le> a * b + d" using Cons.prems by simp
  also have "\<dots> \<le> horner b (a * b + d) ds" using Cons.prems \<open>a \<le> a * b + d\<close> by (intro Cons.IH) auto
  finally show ?case by (simp add: horner_def)
qed (simp add: horner_def)

lemma magnitude_nonneg: "magnitude b s = Some n \<Longrightarrow> b \<in> {10, 16} \<Longrightarrow> 0 \<le> n"
  using horner_mono [of _ b 0] digit_list_range [of b _] by (fastforce simp: magnitude_def split: if_splits)

section \<open>Parsing\<close>

definition lim :: "bool \<Rightarrow> ctype \<Rightarrow> int" where
  "lim neg T = (if neg then - nl_lowest T else nl_max T)"

definition sg :: "bool \<Rightarrow> int \<Rightarrow> int" where
  "sg neg v = (if neg then - v else v)"

lemma lim_ge_0 [simp]: "0 \<le> lim neg T"
  by (simp add: lim_def)

lemma in_range_sg: "0 \<le> v \<Longrightarrow> v \<le> lim neg T \<Longrightarrow> in_range T (sg neg v)"
  using order_trans [OF nl_lowest_le_0 [of T], of v] order_trans [of "- v" 0 "nl_max T"]
  by (auto simp: lim_def sg_def in_range_def)

lemma fits_iff:
  fixes m b a d :: int
  assumes "0 < b" "0 \<le> d" "d < b"
  shows "a * b + d \<le> m \<longleftrightarrow> a < m div b \<or> a = m div b \<and> d \<le> m mod b"
proof -
  have m: "m = m div b * b + m mod b" "0 \<le> m mod b" "m mod b < b" using assms by simp_all
  consider "a < m div b" | "a = m div b" | "m div b + 1 \<le> a" by linarith
  then show ?thesis
  proof cases
    case 1
    then have "(a + 1) * b \<le> m div b * b" using assms by (intro mult_right_mono) auto
    then have "a * b + b \<le> m" using m distrib_right [of a 1 b] by linarith
    then show ?thesis using 1 assms by simp
  next
    case 2
    then show ?thesis using m(1) by (metis add_le_cancel_left less_irrefl)
  next
    case 3
    then have "(m div b + 1) * b \<le> a * b" using assms by (intro mult_right_mono) auto
    then have "m < a * b" using m distrib_right [of "m div b" 1 b] by linarith
    then show ?thesis using 3 assms by simp
  qed
qed

lemma trunc_nonneg: "0 \<le> m \<Longrightarrow> 0 < b \<Longrightarrow> trunc_div m b = m div b \<and> trunc_mod m b = m mod b"
  by (auto simp: trunc_div_sgn trunc_mod_def sgn_if minus_div_mult_eq_mod)

lemma trunc_nonpos: "0 \<le> m \<Longrightarrow> 0 < b \<Longrightarrow> trunc_div (- m) b = - (m div b) \<and> trunc_mod (- m) b = - (m mod b)"
  by (auto simp: trunc_div_sgn trunc_mod_def sgn_if minus_mult_div_eq_mod [symmetric] algebra_simps)

lemma CheckBounds_eq:
  assumes "0 < b" "0 \<le> d" "d < b"
  shows "CheckBounds neg T b (sg neg a) d = (if a * b + d \<le> lim neg T then (True, sg neg a) else (False, sg neg (lim neg T)))"
proof (cases neg)
  case True
  have "trunc_div (nl_lowest T) b = - (lim True T div b)" "trunc_mod (nl_lowest T) b = - (lim True T mod b)"
    using trunc_nonpos [of "lim True T" b] assms(1) by (simp_all add: lim_def)
  then show ?thesis using True fits_iff [OF assms, of a "lim True T"] by (auto simp: CheckBounds_def sg_def lim_def)
next
  case False
  have "trunc_div (nl_max T) b = lim False T div b" "trunc_mod (nl_max T) b = lim False T mod b"
    using trunc_nonneg [of "lim False T" b] assms(1) by (simp_all add: lim_def)
  then show ?thesis using False fits_iff [OF assms, of a "lim False T"] by (auto simp: CheckBounds_def sg_def lim_def)
qed

lemma rtn_digits_spec:
  assumes "b \<in> {10, 16}"
  shows "0 \<le> a \<Longrightarrow> a \<le> lim neg T \<Longrightarrow> \<exists>ok v. rtn_digits neg T b False s (sg neg a) = Some (ok, sg neg v) \<and> 0 \<le> v \<and> v \<le> lim neg T
    \<and> (case digit_list b s of None \<Rightarrow> \<not> ok | Some ds \<Rightarrow> (ok \<longleftrightarrow> horner b a ds \<le> lim neg T) \<and> v = min (horner b a ds) (lim neg T))"
proof (induction s arbitrary: a)
  case Nil
  then show ?case by (intro exI [of _ True] exI [of _ a]) (simp add: horner_def)
next
  case (Cons c s)
  show ?case
  proof (cases "CharToDigit b c")
    case None
    then show ?thesis using Cons.prems by (intro exI [of _ False] exI [of _ a]) simp
  next
    case (Some d)
    then have d: "0 \<le> d" "d < b" "0 < b" using CharToDigit_range [OF Some assms] assms by auto
    show ?thesis
    proof (cases "a * b + d \<le> lim neg T")
      case True
      have ab: "0 \<le> a * b" "a * b \<le> lim neg T" using True d Cons.prems by (auto intro: mult_nonneg_nonneg)
      have "rtn_digits neg T b False (c # s) (sg neg a) = rtn_digits neg T b False s (sg neg (a * b + d))"
        using Some True CheckBounds_eq [OF d(3,1,2), of neg T a] in_range_sg [OF ab] in_range_sg [of "a * b + d" neg T] d ab
        by (cases neg) (simp_all add: checked_value_def Increment_def sg_def)
      moreover obtain ok v where "rtn_digits neg T b False s (sg neg (a * b + d)) = Some (ok, sg neg v)" "0 \<le> v" "v \<le> lim neg T"
        "case digit_list b s of None \<Rightarrow> \<not> ok
         | Some ds \<Rightarrow> (ok \<longleftrightarrow> horner b (a * b + d) ds \<le> lim neg T) \<and> v = min (horner b (a * b + d) ds) (lim neg T)"
        using Cons.IH [of "a * b + d"] True d ab by auto
      ultimately show ?thesis using Some
        by (intro exI [of _ ok] exI [of _ v]) (cases "digit_list b s", auto simp: horner_def)
    next
      case False
      have "rtn_digits neg T b False (c # s) (sg neg a) = Some (False, sg neg (lim neg T))"
        using Some False CheckBounds_eq [OF d(3,1,2), of neg T a] by simp
      moreover have "lim neg T < horner b a (d # ds)" if "digit_list b s = Some ds" for ds
        using horner_mono [of ds b "a * b + d"] digit_list_range [OF that assms] False d Cons.prems(1) by (simp add: horner_def)
      ultimately show ?thesis using Some
        by (intro exI [of _ False] exI [of _ "lim neg T"]) (cases "digit_list b s", fastforce+)
    qed
  qed
qed

lemma rtn_digits_first:
  assumes "b \<in> {10, 16}" "parsed_type T" "neg \<longrightarrow> is_signed T"
  shows "rtn_digits neg T b True s 0 = rtn_digits neg T b False s 0"
proof (cases s)
  case (Cons c cs)
  show ?thesis
  proof (cases "CharToDigit b c")
    case (Some d)
    then have d: "0 \<le> d" "d < b" "0 < b" using CharToDigit_range [OF Some assms(1)] assms(1) by auto
    have "16 \<le> lim neg T" using assms(2,3) by (auto simp: lim_def nl_lowest_def nl_max_def)
    then have "0 * b + d \<le> lim neg T" using d assms(1) by auto
    moreover have "in_range T 0" using assms(2) by auto
    moreover have "sg neg 0 = 0" by (simp add: sg_def)
    ultimately show ?thesis using Cons Some CheckBounds_eq [OF d(3,1,2), of neg T 0] by (simp add: checked_value_def)
  qed (simp add: Cons)
qed simp

lemma rtn_Base_Invoke_spec:
  assumes "b \<in> {10, 16}" "parsed_type T" "neg \<longrightarrow> is_signed T"
  shows "\<exists>ok v. rtn_Base_Invoke neg T b s = Some (ok, sg neg v) \<and> 0 \<le> v \<and> v \<le> lim neg T
    \<and> (case magnitude b s of None \<Rightarrow> \<not> ok | Some n \<Rightarrow> 0 \<le> n \<and> (ok \<longleftrightarrow> n \<le> lim neg T) \<and> v = min n (lim neg T))"
proof (cases "s = []")
  case True
  then show ?thesis by (intro exI [of _ False] exI [of _ 0]) (simp add: rtn_Base_Invoke_def magnitude_def sg_def)
next
  case False
  let ?s = "if b = 16 \<and> length s > 2 \<and> s ! 0 = 48 \<and> (s ! 1 = 120 \<or> s ! 1 = 88) then drop 2 s else s"
  have i: "rtn_Base_Invoke neg T b s = rtn_digits neg T b False ?s (sg neg 0)"
    using False rtn_digits_first [OF assms] by (simp add: rtn_Base_Invoke_def sg_def)
  have m: "magnitude b s = map_option (horner b 0) (digit_list b ?s)" using False by (simp add: magnitude_def)
  have n: "0 \<le> n" if "magnitude b s = Some n" for n using magnitude_nonneg [OF that assms(1)] .
  obtain ok v where v: "rtn_digits neg T b False ?s (sg neg 0) = Some (ok, sg neg v)" "0 \<le> v" "v \<le> lim neg T"
    "case digit_list b ?s of None \<Rightarrow> \<not> ok
     | Some ds \<Rightarrow> (ok \<longleftrightarrow> horner b 0 ds \<le> lim neg T) \<and> v = min (horner b 0 ds) (lim neg T)"
    using rtn_digits_spec [OF assms(1), of 0 neg T ?s] lim_ge_0 [of neg T] by blast
  show ?thesis unfolding i using v n m by (intro exI [of _ ok] exI [of _ v]) (cases "digit_list b ?s", auto)
qed

lemma num_value_space:
  assumes "LocalIsWhitespace c" "b \<in> {10, 16}"
  shows "num_value b (c # s) = None"
proof -
  have c: "c \<noteq> 45" "c \<noteq> 43" "c \<noteq> 48" "c < 48" using assms(1) by (auto simp: LocalIsWhitespace_def)
  then have "CharToDigit b c = None" using assms(2) by (auto simp: CharToDigit_def BaseCharToDigit_le10_def BaseCharToDigit_gt10_def)
  then have "magnitude b (c # s) = None" using c(3) by (simp add: magnitude_def)
  then show ?thesis using c(1,2) by (simp add: num_value_def)
qed

lemma parse_exact:
  assumes "b \<in> {10, 16}" "parsed_type T"
  shows "\<exists>ok v. IteratorRangeToNumber_Invoke T b s = Some (ok, v) \<and> in_range T v
    \<and> (ok \<longleftrightarrow> (\<exists>n. num_value b s = Some n \<and> in_range T n) \<and> (is_signed T \<or> s = [] \<or> hd s \<noteq> 45))
    \<and> (ok \<longrightarrow> num_value b s = Some v)
    \<and> (\<forall>n. num_value b s = Some n \<longrightarrow> (n > nl_max T \<longrightarrow> v = nl_max T) \<and> (n < nl_lowest T \<longrightarrow> v = nl_lowest T))"
proof -
  define t where "t = dropWhile LocalIsWhitespace s"
  define valid where "valid \<longleftrightarrow> s = [] \<or> \<not> LocalIsWhitespace (hd s)"
  have t: "valid \<Longrightarrow> t = s" "\<not> valid \<Longrightarrow> num_value b s = None"
    using num_value_space [OF _ assms(1)] by (cases s; auto simp: t_def valid_def)+
  have lims: "lim True T = - nl_lowest T" "lim False T = nl_max T" by (simp_all add: lim_def)
  show ?thesis
  proof (cases "t \<noteq> [] \<and> hd t = 45")
    case True
    show ?thesis
    proof (cases "is_signed T")
      case False
      then have "IteratorRangeToNumber_Invoke T b s = Some (False, 0)"
        using True by (simp add: IteratorRangeToNumber_Invoke_def t_def [symmetric] Let_def)
      moreover have "n \<le> 0 \<and> s \<noteq> [] \<and> hd s = 45" if "num_value b s = Some n" for n
        using that t True magnitude_nonneg [OF _ assms(1), of "tl s"] by (cases valid) (auto simp: num_value_def)
      moreover have "\<not> nl_max T < n" if "n \<le> 0" for n using that nl_max_ge_0 [of T] by linarith
      moreover have "nl_lowest T = 0" using False by (simp add: nl_lowest_def)
      ultimately show ?thesis using False by (auto simp: in_range_def)
    next
      case sgn: True
      then obtain ok v where v: "rtn_Base_Invoke True T b (tl t) = Some (ok, - v)" "0 \<le> v" "v \<le> - nl_lowest T"
        "case magnitude b (tl t) of None \<Rightarrow> \<not> ok | Some n \<Rightarrow> 0 \<le> n \<and> (ok \<longleftrightarrow> n \<le> - nl_lowest T) \<and> v = min n (- nl_lowest T)"
        using rtn_Base_Invoke_spec [OF assms, of True "tl t", unfolded lims sg_def if_True simp_thms] by blast
      have "IteratorRangeToNumber_Invoke T b s = Some (valid \<and> ok, - v)"
        using True sgn v(1) by (simp add: IteratorRangeToNumber_Invoke_def t_def [symmetric] valid_def Let_def)
      moreover have "in_range T (- v)" using in_range_sg [of v True T] v(2,3) by (simp add: sg_def lims)
      moreover have "num_value b s = (if valid then map_option uminus (magnitude b (tl t)) else None)"
        using t True by (cases valid) (simp_all add: num_value_def)
      ultimately show ?thesis using v sgn by (auto simp: in_range_def split: option.splits)
    qed
  next
    case False
    let ?u = "if t \<noteq> [] \<and> hd t = 43 then tl t else t"
    obtain ok v where v: "rtn_Base_Invoke False T b ?u = Some (ok, v)" "0 \<le> v" "v \<le> nl_max T"
      "case magnitude b ?u of None \<Rightarrow> \<not> ok | Some n \<Rightarrow> 0 \<le> n \<and> (ok \<longleftrightarrow> n \<le> nl_max T) \<and> v = min n (nl_max T)"
      using rtn_Base_Invoke_spec [OF assms, of False ?u, unfolded lims sg_def if_False simp_thms] by blast
    have "IteratorRangeToNumber_Invoke T b s = Some (valid \<and> ok, v)"
      using v(1) unfolding IteratorRangeToNumber_Invoke_def t_def [symmetric] valid_def Let_def if_not_P [OF False] by simp
    moreover have "in_range T v" using in_range_sg [of v False T] v(2,3) by (simp add: sg_def lims)
    moreover have "num_value b s = (if valid then magnitude b ?u else None)" using t False by (cases valid) (auto simp: num_value_def)
    moreover have "valid \<Longrightarrow> s = [] \<or> hd s \<noteq> 45" using t(1) False by auto
    moreover have "nl_lowest T \<le> 0" by simp
    ultimately show ?thesis using v(4) by (intro exI [of _ "valid \<and> ok"] exI [of _ v]) (cases "magnitude b ?u"; auto simp: in_range_def)
  qed
qed

text \<open>
  C12: Parsing an integer is exact and saturates. On every text the conversion returns, without
  overflow, a value of the type. It succeeds exactly when the whole text is an optional sign and
  digits (after an optional \<open>0x\<close> in base 16) whose value the type has - a minus sign never for
  an unsigned type, not even in \<open>-0\<close> - and then returns that value; a value out of range gives the
  nearest limit of the type. The limits themselves are values the type has, in base 16 too, where
  the comments of the header say strictly between.
\<close>

theorem StringToNumber_exact:
  assumes "b \<in> {10, 16}" "parsed_type T"
  shows "\<exists>ok v. IteratorRangeToNumber_Invoke T b s = Some (ok, v) \<and> in_range T v
    \<and> (ok \<longleftrightarrow> (\<exists>n. num_value b s = Some n \<and> in_range T n) \<and> (is_signed T \<or> s = [] \<or> hd s \<noteq> 45))
    \<and> (ok \<longrightarrow> num_value b s = Some v)
    \<and> (\<forall>n. num_value b s = Some n \<longrightarrow> (n > nl_max T \<longrightarrow> v = nl_max T) \<and> (n < nl_lowest T \<longrightarrow> v = nl_lowest T))"
  using assms by (rule parse_exact)

theorem StringToNumber_exact_witness:
  "\<exists>ok v. IteratorRangeToNumber_Invoke int32 10 [45, 50, 49, 52, 55, 52, 56, 51, 54, 52, 56] = Some (ok, v) \<and> in_range int32 v \<and> ok
    \<and> num_value 10 [45, 50, 49, 52, 55, 52, 56, 51, 54, 52, 56] = Some v"
proof -
  have n: "num_value 10 [45, 50, 49, 52, 55, 52, 56, 51, 54, 52, 56] = Some (- 2147483648)"
    by (simp add: num_value_def magnitude_def CharToDigit_def BaseCharToDigit_le10_def horner_def)
  have "in_range int32 (- 2147483648)" by (simp add: ctype_defs)
  then show ?thesis using StringToNumber_exact [of 10 int32 "[45, 50, 49, 52, 55, 52, 56, 51, 54, 52, 56]"] n by auto
qed

text \<open>
  The comments on the functions for base 16 in \<open>string_number_conversions.h\<close> say that only values
  strictly between the limits of the type are parsed; both limits are.
\<close>

lemma hex_limits_accepted:
  "HexStringToInt (map (int \<circ> of_char) ''7fffffff'') = Some (True, nl_max int32)"
  "HexStringToInt (map (int \<circ> of_char) ''-80000000'') = Some (True, nl_lowest int32)"
  "HexStringToUInt (map (int \<circ> of_char) ''0'') = Some (True, nl_lowest uint32)"
  "HexStringToUInt (map (int \<circ> of_char) ''ffffffff'') = Some (True, nl_max uint32)"
  by code_simp+

section \<open>Round trips\<close>

lemma dec_digits: "0 \<le> n \<Longrightarrow> \<exists>ds. digit_list 10 (dec n) = Some ds \<and> horner 10 0 ds = n"
proof (induction n rule: dec.induct)
  case (1 n)
  have app: "digit_list 10 (s @ [c]) = do { ds \<leftarrow> digit_list 10 s; d \<leftarrow> CharToDigit 10 c; Some (ds @ [d]) }" for s c
    by (induction s) (auto simp: bind_assoc split: bind_split option.splits)
  have d: "CharToDigit 10 (k + 48) = Some k" if "0 \<le> k" "k < 10" for k
    using that by (simp add: CharToDigit_def BaseCharToDigit_le10_def)
  show ?case
  proof (cases "n < 10")
    case True
    then show ?thesis using 1(2) d [of n] by (simp add: dec.simps [of n] horner_def)
  next
    case False
    have "0 \<le> n div 10" using 1(2) by simp
    from 1(1) [OF False this] obtain ds where "digit_list 10 (dec (n div 10)) = Some ds" "horner 10 0 ds = n div 10" by blast
    then show ?thesis using False d [of "n mod 10"] by (simp add: dec.simps [of n] app horner_def)
  qed
qed

lemma dec_hd: "0 \<le> n \<Longrightarrow> dec n \<noteq> [] \<and> 48 \<le> hd (dec n)"
proof (induction n rule: dec.induct)
  case (1 n)
  then show ?case by (cases "n < 10") (auto simp: dec.simps [of n])
qed

lemma printed_number_read:
  assumes "parsed_type T" "in_range T v"
  shows "\<exists>s. IntToString T v = Some s \<and> IteratorRangeToNumber_Invoke T 10 s = Some (True, v)"
proof -
  let ?s = "(if v < 0 then [45] else []) @ dec \<bar>v\<bar>"
  have h: "dec \<bar>v\<bar> \<noteq> []" "48 \<le> hd (dec \<bar>v\<bar>)" using dec_hd [of "\<bar>v\<bar>"] by auto
  obtain ds where ds: "digit_list 10 (dec \<bar>v\<bar>) = Some ds" "horner 10 0 ds = \<bar>v\<bar>" using dec_digits [of "\<bar>v\<bar>"] by auto
  have nv: "num_value 10 ?s = Some v" using h ds by (auto simp: num_value_def magnitude_def)
  have "is_signed T \<or> ?s = [] \<or> hd ?s \<noteq> 45" using assms h by (auto simp: ctype_defs)
  moreover obtain ok v' where e: "IteratorRangeToNumber_Invoke T 10 ?s = Some (ok, v')"
    "ok \<longleftrightarrow> (\<exists>n. num_value 10 ?s = Some n \<and> in_range T n) \<and> (is_signed T \<or> ?s = [] \<or> hd ?s \<noteq> 45)" "ok \<longrightarrow> num_value 10 ?s = Some v'"
    using parse_exact [of 10 T ?s] assms(1) by blast
  ultimately have ok using nv assms(2) by blast
  then have "IteratorRangeToNumber_Invoke T 10 ?s = Some (True, v)" using e nv by simp
  then show ?thesis using IntToString_dec [OF assms] by simp
qed

text \<open>
  C13: Printing and reading integers are inverse. \<open>NumberToString\<close> never runs out of its buffer and
  never fails a check, for the least value of a signed type too, and what it prints
  \<open>StringToInt\<close>, \<open>StringToUint\<close>, \<open>StringToInt64\<close> and \<open>StringToUint64\<close> read back.
\<close>

theorem number_round_trip:
  assumes "parsed_type T" "in_range T v"
  shows "\<exists>s. IntToString T v = Some s \<and> IteratorRangeToNumber_Invoke T 10 s = Some (True, v)"
  using assms by (rule printed_number_read)

theorem number_round_trip_witness:
  "\<exists>s. IntToString int64 (- 9223372036854775808) = Some s \<and> IteratorRangeToNumber_Invoke int64 10 s = Some (True, - 9223372036854775808)"
  by (rule number_round_trip) (simp_all add: ctype_defs)

lemma hex_digits: "0 \<le> i \<Longrightarrow> i < 16 \<Longrightarrow> CharToDigit 16 (kHexChars ! nat i) = Some i"
proof -
  have "list_all (\<lambda>i. CharToDigit 16 (kHexChars ! i) = Some (int i)) [0..<16]" by code_simp
  then show "0 \<le> i \<Longrightarrow> i < 16 \<Longrightarrow> ?thesis" by (auto simp: list_all_iff dest: bspec [of _ _ "nat i"])
qed

lemma hex_byte:
  fixes b :: int
  assumes "0 \<le> b" "b < 256"
  shows "push_bit 4 (b div 16) OR b mod 16 = b"
proof -
  have "push_bit 4 (b div 16) AND take_bit 4 b = 0" by (auto simp: bit_eq_iff bit_simps)
  then have "push_bit 4 (b div 16) OR take_bit 4 b = push_bit 4 (b div 16) + take_bit 4 b" by (simp add: disjunctive_add_eq_or)
  then show ?thesis by (simp add: push_bit_eq_mult take_bit_eq_mod)
qed

lemma hex_pairs_encode:
  "\<forall>b \<in> set bs. 0 \<le> b \<and> b < 256 \<Longrightarrow> hex_pairs (HexEncode bs) acc = (True, acc @ bs)"
proof (induction bs arbitrary: acc)
  case (Cons b bs)
  then have b: "0 \<le> b" "b < 256" by auto
  have "drop_bit 4 b AND 15 = b div 16" "b AND 15 = b mod 16"
    using b take_bit_eq_mask [of 4 b] take_bit_int_eq_self [of "b div 16" 4] take_bit_eq_mask [of 4 "b div 16"]
    by (simp_all add: drop_bit_eq_div mask_eq_exp_minus_1 take_bit_eq_mod)
  then have "HexEncode (b # bs) = kHexChars ! nat (b div 16) # kHexChars ! nat (b mod 16) # HexEncode bs" by (simp add: HexEncode_def)
  moreover have "0 \<le> b div 16" "b div 16 < 16" using b by auto
  ultimately show ?case using Cons hex_digits [of "b div 16"] hex_digits [of "b mod 16"] hex_byte [OF b] by simp
qed (simp add: HexEncode_def)

text \<open>
  Hexadecimal text is read back as the bytes it was written from, and \<open>HexStringToBytes\<close>
  accepts a text exactly when it is a positive even number of hexadecimal digits.
\<close>

theorem hex_round_trip:
  assumes "\<forall>b \<in> set bs. 0 \<le> b \<and> b < 256" "bs \<noteq> []"
  shows "HexStringToBytes (HexEncode bs) = (True, bs)
    \<and> (fst (HexStringToBytes s) \<longleftrightarrow> s \<noteq> [] \<and> even (length s) \<and> (\<forall>c \<in> set s. CharToDigit 16 c \<noteq> None))"
proof
  have len: "length (HexEncode bs) = 2 * length bs" for bs by (induction bs) (auto simp: HexEncode_def)
  show "HexStringToBytes (HexEncode bs) = (True, bs)"
    using assms hex_pairs_encode [OF assms(1), of "[]"] len [of bs] by (simp add: HexStringToBytes_def)
  have "even (length s) \<Longrightarrow> fst (hex_pairs s acc) \<longleftrightarrow> (\<forall>c \<in> set s. CharToDigit 16 c \<noteq> None)" for acc
    by (induction s acc rule: hex_pairs.induct) (auto split: option.splits)
  then show "fst (HexStringToBytes s) \<longleftrightarrow> s \<noteq> [] \<and> even (length s) \<and> (\<forall>c \<in> set s. CharToDigit 16 c \<noteq> None)"
    by (auto simp: HexStringToBytes_def mod2_eq_if split: if_splits)
qed

theorem hex_round_trip_witness:
  "HexStringToBytes (HexEncode [0, 171, 255]) = (True, [0, 171, 255])
    \<and> (fst (HexStringToBytes [55, 103]) \<longleftrightarrow> [55, 103 :: int] \<noteq> [] \<and> even (length [55, 103 :: int]) \<and> (\<forall>c \<in> set [55, 103 :: int]. CharToDigit 16 c \<noteq> None))"
  by (rule hex_round_trip) simp_all

end
