(* ===== verification/Doubles.thy ===== *)
theory Doubles
  imports String_Numbers
begin

text \<open>
  Doubles and text, \<open>NumberToString\<close> and \<open>StringToDouble\<close> of \<open>base/strings/string_number_conversions.cc\<close>,
  on IEEE doubles that round to nearest, with the functions of the C and C++ libraries under them:
  \<open>std::to_string\<close>, which prints six decimals, and \<open>strtod\<close> of the C locale. A finite double is its sign,
  its mantissa and its exponent.
\<close>

section \<open>Doubles\<close>

datatype double = Finite bool int int | Infinite bool | NaN bool

fun is_double :: "double \<Rightarrow> bool" where
  "is_double (Finite s m e) \<longleftrightarrow> 0 \<le> m \<and> m < 2 ^ 53 \<and> - 1074 \<le> e \<and> e \<le> 971 \<and> (2 ^ 52 \<le> m \<or> e = - 1074)"
| "is_double d \<longleftrightarrow> True"

fun isfinite :: "double \<Rightarrow> bool" where
  "isfinite (Finite s m e) \<longleftrightarrow> True"
| "isfinite d \<longleftrightarrow> False"

text \<open>The magnitude of a finite double is a quotient of integers.\<close>

definition fl_num :: "int \<Rightarrow> int \<Rightarrow> int" where "fl_num m e = m * 2 ^ nat e"
definition fl_den :: "int \<Rightarrow> int" where "fl_den e = 2 ^ nat (- e)"

text \<open>The integer that a double is equal to, when it equals its \<open>std::floor\<close>.\<close>

fun integral :: "double \<Rightarrow> int option" where
  "integral (Finite s m e) =
     (if fl_num m e mod fl_den e = 0 then Some ((if s then - 1 else 1) * (fl_num m e div fl_den e)) else None)"
| "integral d = None"

section \<open>Rounding\<close>

text \<open>The integer nearest to a quotient, the even one of two.\<close>

definition half_even :: "int \<Rightarrow> int \<Rightarrow> int" where
  "half_even x y = (let q = x div y; r = x mod y in if 2 * r < y \<or> 2 * r = y \<and> even q then q else q + 1)"

function bits :: "int \<Rightarrow> nat" where
  "bits n = (if n \<le> 0 then 0 else Suc (bits (n div 2)))"
  by auto
termination
  by (relation "measure nat") auto

declare bits.simps [simp del]

text \<open>\<open>below a b k\<close>: the quotient of \<open>a\<close> and \<open>b\<close> is less than \<open>2\<close> to the power \<open>k\<close>.\<close>

definition below :: "int \<Rightarrow> int \<Rightarrow> int \<Rightarrow> bool" where
  "below a b k \<longleftrightarrow> a * 2 ^ nat (- k) < b * 2 ^ nat k"

text \<open>The exponent that leaves a quotient 53 bits before the point, or the least exponent.\<close>

definition round_exp :: "int \<Rightarrow> int \<Rightarrow> int" where
  "round_exp a b = (let k = int (bits a) - int (bits b) - 53 in max (- 1074) (if below a b (k + 53) then k else k + 1))"

text \<open>The double nearest to a quotient.\<close>

definition nearest :: "bool \<Rightarrow> int \<Rightarrow> int \<Rightarrow> double" where
  "nearest s a b =
     (if a = 0 then Finite s 0 (- 1074)
      else
        let e = round_exp a b;
            m = half_even (a * 2 ^ nat (- e)) (b * 2 ^ nat e);
            (m, e) = (if m = 2 ^ 53 then (2 ^ 52, e + 1) else (m, e))
        in if e > 971 then Infinite s else Finite s m e)"

section \<open>Doubles to text\<close>

fun places :: "nat \<Rightarrow> int \<Rightarrow> int list" where
  "places 0 n = []"
| "places (Suc k) n = places k (n div 10) @ [n mod 10 + 48]"

fun std_to_string :: "double \<Rightarrow> int list" where
  "std_to_string (Finite s m e) =
     (let n = half_even (fl_num m e * 10 ^ 6) (fl_den e)
      in (if s then [45] else []) @ dec (n div 10 ^ 6) @ [46] @ places 6 n)"
| "std_to_string (Infinite s) = (if s then [45] else []) @ [105, 110, 102]"
| "std_to_string (NaN s) = (if s then [45] else []) @ [110, 97, 110]"

primrec trim_zeros :: "int list \<Rightarrow> nat \<Rightarrow> nat" where
  "trim_zeros ret 0 = 0"
| "trim_zeros ret (Suc len) =
     (if Suc len \<ge> 2 \<and> ret ! len = 48 \<and> ret ! (len - 1) \<noteq> 46 then trim_zeros ret len else Suc len)"

definition NumberToString_double :: "double \<Rightarrow> int list" where
  "NumberToString_double value =
     (let ret = std_to_string value in if 46 \<notin> set ret then ret else take (trim_zeros ret (length ret)) ret)"

definition NumberToString16_double :: "double \<Rightarrow> int list" where
  "NumberToString16_double value =
     (let tmp = std_to_string value; ret = map (\<lambda>c. c) tmp in
      if 46 \<notin> set ret then ret else take (trim_zeros ret (length ret)) ret)"

section \<open>Text to doubles\<close>

abbreviation digit :: "int \<Rightarrow> bool" where "digit c \<equiv> 48 \<le> c \<and> c \<le> 57"

definition xdigit :: "int \<Rightarrow> bool" where
  "xdigit c \<longleftrightarrow> digit c \<or> 97 \<le> c \<and> c \<le> 102 \<or> 65 \<le> c \<and> c \<le> 70"

definition digit_value :: "int \<Rightarrow> int" where
  "digit_value c = (if c \<le> 57 then c - 48 else if 97 \<le> c then c - 87 else c - 55)"

definition digits_value :: "int \<Rightarrow> int list \<Rightarrow> int" where
  "digits_value b cs = foldl (\<lambda>n c. n * b + digit_value c) 0 cs"

definition space :: "int \<Rightarrow> bool" where
  "space c \<longleftrightarrow> c = 32 \<or> 9 \<le> c \<and> c \<le> 13"

text \<open>
  The parts of \<open>strtod\<close>: an exponent after one of two letters, which is left alone when it has no
  digits; a number in a base, whose exponent is to a base \<open>x\<close> and whose digits after the point weigh
  \<open>per\<close> powers of it; the names of infinity and of values that are no number.
\<close>

definition strtod_exponent :: "int \<Rightarrow> int \<Rightarrow> int list \<Rightarrow> int \<times> int list" where
  "strtod_exponent lower upper r =
     (if r \<noteq> [] \<and> (hd r = lower \<or> hd r = upper) then
        let t = tl r; u = (if t \<noteq> [] \<and> (hd t = 45 \<or> hd t = 43) then tl t else t); ds = takeWhile digit u in
        if ds = [] then (0, r)
        else ((if hd t = 45 then - 1 else 1) * digits_value 10 ds, dropWhile digit u)
      else (0, r))"

definition strtod_number :: "bool \<Rightarrow> (int \<Rightarrow> bool) \<Rightarrow> int \<Rightarrow> int \<Rightarrow> int \<Rightarrow> int \<Rightarrow> int \<Rightarrow> int list \<Rightarrow> (double \<times> int list) option" where
  "strtod_number s dg base x per lower upper t =
     (let ip = takeWhile dg t; r = dropWhile dg t;
          (fp, r) = (if r \<noteq> [] \<and> hd r = 46 then (takeWhile dg (tl r), dropWhile dg (tl r)) else ([], r)) in
      if ip @ fp = [] then None
      else
        let (k, r) = strtod_exponent lower upper r; k = k - per * int (length fp)
        in Some (nearest s (digits_value base (ip @ fp) * x ^ nat k) (x ^ nat (- k)), r))"

definition lower_case :: "int \<Rightarrow> int" where "lower_case c = (if 65 \<le> c \<and> c \<le> 90 then c + 32 else c)"

definition starts_with_word :: "int list \<Rightarrow> int list \<Rightarrow> bool" where
  "starts_with_word w t \<longleftrightarrow> map lower_case (take (length w) t) = w"

definition strtod_word :: "bool \<Rightarrow> int list \<Rightarrow> (double \<times> int list) option" where
  "strtod_word s t =
     (if starts_with_word [105, 110, 102, 105, 110, 105, 116, 121] t then Some (Infinite s, drop 8 t)
      else if starts_with_word [105, 110, 102] t then Some (Infinite s, drop 3 t)
      else if starts_with_word [110, 97, 110] t then
        let r = drop 3 t; name = (\<lambda>c. digit c \<or> 97 \<le> lower_case c \<and> lower_case c \<le> 122 \<or> c = 95); u = dropWhile name (tl r)
        in Some (NaN s, if r \<noteq> [] \<and> hd r = 40 \<and> u \<noteq> [] \<and> hd u = 41 then tl u else r)
      else None)"

definition strtod :: "int list \<Rightarrow> double \<times> int list" where
  "strtod input =
     (let t = dropWhile space input; s = (t \<noteq> [] \<and> hd t = 45);
          t = (if t \<noteq> [] \<and> (hd t = 45 \<or> hd t = 43) then tl t else t);
          hex = (if length t \<ge> 2 \<and> t ! 0 = 48 \<and> (t ! 1 = 120 \<or> t ! 1 = 88) then strtod_number s xdigit 16 2 4 112 80 (drop 2 t) else None)
      in case hex of Some r \<Rightarrow> r
        | None \<Rightarrow> (case strtod_number s digit 10 10 1 101 69 t of Some r \<Rightarrow> r
            | None \<Rightarrow> (case strtod_word s t of Some r \<Rightarrow> r | None \<Rightarrow> (Finite False 0 (- 1074), input))))"

text \<open>The result is the success and the value; the end of the number is compared with the end of the input.\<close>

definition StringToDouble :: "int list \<Rightarrow> bool \<times> double" where
  "StringToDouble input =
     (let (output, rest) = strtod input in
      (input \<noteq> [] \<and> rest = [] \<and> \<not> space (input ! 0) \<and> output \<noteq> Infinite False \<and> output \<noteq> Infinite True, output))"

section \<open>Rounding is exact on doubles\<close>

lemma below_nonneg: "0 \<le> k \<Longrightarrow> below a b k \<longleftrightarrow> a < b * 2 ^ nat k"
  and below_neg: "k \<le> 0 \<Longrightarrow> below a b k \<longleftrightarrow> a * 2 ^ nat (- k) < b"
  by (simp_all add: below_def)

lemma below_Suc: "below a b k \<Longrightarrow> 0 \<le> a \<Longrightarrow> 0 < b \<Longrightarrow> below a b (k + 1)"
proof (cases "0 \<le> k")
  case True
  moreover assume "below a b k" "0 \<le> a" "0 < b"
  ultimately have "a < b * 2 ^ nat k" "nat (k + 1) = Suc (nat k)" by (simp_all add: below_nonneg)
  moreover have "b * 2 ^ nat k \<le> b * 2 ^ Suc (nat k)" using \<open>0 < b\<close> by simp
  ultimately have "a < b * 2 ^ nat (k + 1)" by (metis order_less_le_trans)
  then show ?thesis using True by (simp add: below_nonneg)
next
  case False
  moreover assume "below a b k" "0 \<le> a" "0 < b"
  moreover have "nat (- k) = Suc (nat (- (k + 1)))" using False by linarith
  ultimately have "a * (2 * 2 ^ nat (- (k + 1))) < b" by (simp add: below_neg)
  moreover have "a * 2 ^ nat (- (k + 1)) \<le> a * (2 * 2 ^ nat (- (k + 1)))" using \<open>0 \<le> a\<close> by (intro mult_left_mono) auto
  ultimately show ?thesis using False by (simp add: below_neg)
qed

lemma below_mono: "below a b k \<Longrightarrow> k \<le> l \<Longrightarrow> 0 \<le> a \<Longrightarrow> 0 < b \<Longrightarrow> below a b l"
proof (induction "nat (l - k)" arbitrary: l)
  case (Suc n)
  have "n = nat (l - 1 - k)" "k \<le> l - 1" using Suc.hyps(2) by linarith+
  then have "below a b (l - 1)" using Suc.hyps(1) Suc.prems by blast
  then show ?case using below_Suc [of a b "l - 1"] Suc.prems(3,4) by simp
next
  case 0
  then have "l = k" by linarith
  then show ?case using 0(2) by simp
qed

lemma bits_bounds: "0 < n \<Longrightarrow> 2 ^ (bits n - 1) \<le> n \<and> n < 2 ^ bits n \<and> 0 < bits n"
proof (induction n rule: bits.induct)
  case (1 n)
  show ?case
  proof (cases "n = 1")
    case True
    then show ?thesis by (simp add: bits.simps [of 1] bits.simps [of 0])
  next
    case False
    define k where "k = bits (n div 2)"
    have k: "2 ^ (k - 1) \<le> n div 2" "n div 2 < 2 ^ k" "0 < k" using 1 False unfolding k_def by auto
    have b: "bits n = Suc k" using 1(2) by (simp add: bits.simps [of n] k_def)
    have "2 ^ k = 2 * (2 :: int) ^ (k - 1)" using k(3) by (cases k) auto
    then have "2 ^ k \<le> n" "n < 2 * 2 ^ k" using k(1,2) by linarith+
    then show ?thesis using b by simp
  qed
qed

text \<open>The exponent is the least that leaves fewer than 54 bits.\<close>

lemma round_exp_least:
  assumes "0 < a" "0 < b"
  shows "- 1074 \<le> round_exp a b" "below a b (round_exp a b + 53)" "round_exp a b = - 1074 \<or> \<not> below a b (round_exp a b + 52)"
proof -
  define l where "l = int (bits a) - int (bits b)"
  note A = bits_bounds [OF assms(1)] and B = bits_bounds [OF assms(2)]
  have hi: "below a b (l + 1)"
  proof -
    obtain j where j: "bits b = Suc j" using B by (cases "bits b") auto
    have e: "nat (l + 1) + j = bits a + nat (- (l + 1))" using j by (simp add: l_def)
    have "a * 2 ^ nat (- (l + 1)) < 2 ^ bits a * 2 ^ nat (- (l + 1))" using A by simp
    also have "\<dots> = 2 ^ j * 2 ^ nat (l + 1)" unfolding power_add [symmetric] using e by (metis add.commute)
    also have "\<dots> \<le> b * 2 ^ nat (l + 1)" using B j by simp
    finally show ?thesis by (simp add: below_def)
  qed
  have lo: "\<not> below a b (l - 1)"
  proof -
    obtain i where i: "bits a = Suc i" using A by (cases "bits a") auto
    have e: "nat (l - 1) + bits b = i + nat (- (l - 1))" using i by (simp add: l_def)
    have "b * 2 ^ nat (l - 1) \<le> 2 ^ bits b * 2 ^ nat (l - 1)" using B by simp
    also have "\<dots> = 2 ^ i * 2 ^ nat (- (l - 1))" unfolding power_add [symmetric] using e by (metis add.commute)
    also have "\<dots> \<le> a * 2 ^ nat (- (l - 1))" using A i by simp
    finally show ?thesis by (simp add: below_def)
  qed
  define e where "e = (if below a b l then l - 53 else l - 52)"
  have e: "below a b (e + 53)" "\<not> below a b (e + 52)" using hi lo by (auto simp: e_def add.commute)
  have r: "round_exp a b = max (- 1074) e" by (simp add: round_exp_def Let_def e_def l_def)
  show "- 1074 \<le> round_exp a b" by (simp add: r)
  show "below a b (round_exp a b + 53)" using below_mono [OF e(1), of "round_exp a b + 53"] assms by (simp add: r)
  show "round_exp a b = - 1074 \<or> \<not> below a b (round_exp a b + 52)" using e(2) by (auto simp: r max_def)
qed

lemma round_exp_unique:
  assumes "0 < a" "0 < b" "- 1074 \<le> e" "below a b (e + 53)" "e = - 1074 \<or> \<not> below a b (e + 52)"
  shows "round_exp a b = e"
proof (rule ccontr)
  note r = round_exp_least [OF assms(1,2)]
  assume "round_exp a b \<noteq> e"
  then consider "round_exp a b < e" | "e < round_exp a b" by linarith
  then show False
  proof cases
    case 1
    then have "below a b (e + 52)" using below_mono [OF r(2), of "e + 52"] assms(1,2) by simp
    then show False using assms(5) 1 r(1) by simp
  next
    case 2
    then have "below a b (round_exp a b + 52)" using below_mono [OF assms(4), of "round_exp a b + 52"] assms(1,2) by simp
    then show False using r(3) 2 assms(3) by simp
  qed
qed

lemma half_even_scale: "0 < c \<Longrightarrow> half_even (c * x) (c * y) = half_even x y"
  by (simp add: half_even_def Let_def mult.left_commute [of 2 c] mult_less_cancel_left_pos)

lemma half_even_exact: "0 < y \<Longrightarrow> half_even (m * y) y = m"
  by (simp add: half_even_def)

lemma half_even_bounds: "0 < y \<Longrightarrow> x < k * y \<Longrightarrow> half_even x y \<le> k" "0 < y \<Longrightarrow> k * y \<le> x \<Longrightarrow> k \<le> half_even x y"
proof -
  assume y: "0 < y"
  have q: "x div y \<le> half_even x y" "half_even x y \<le> x div y + 1" by (simp_all add: half_even_def Let_def)
  show "half_even x y \<le> k" if "x < k * y"
  proof -
    have "x div y * y \<le> x" using y by (simp add: minus_mod_eq_div_mult [symmetric])
    then have "x div y * y < k * y" using that by linarith
    then have "x div y < k" using y by simp
    then show ?thesis using q(2) by linarith
  qed
  show "k \<le> half_even x y" if "k * y \<le> x"
  proof -
    have "k * y div y \<le> x div y" using that y by (intro zdiv_mono1)
    then have "k \<le> x div y" using y by simp
    then show ?thesis using q(1) by linarith
  qed
qed

lemma below_scale: "0 < c \<Longrightarrow> below (c * a) (c * b) k \<longleftrightarrow> below a b k"
  by (simp add: below_def mult.assoc)

lemma round_exp_scale:
  assumes "0 < c" "0 < a" "0 < b"
  shows "round_exp (c * a) (c * b) = round_exp a b"
proof (rule round_exp_unique)
  show "- 1074 \<le> round_exp a b" "below (c * a) (c * b) (round_exp a b + 53)"
    "round_exp a b = - 1074 \<or> \<not> below (c * a) (c * b) (round_exp a b + 52)"
    unfolding below_scale [OF assms(1)] by (rule round_exp_least [OF assms(2,3)])+
qed (use assms in simp_all)

text \<open>Rounding depends on the quotient only, and leaves doubles alone.\<close>

lemma nearest_scale: "0 < c \<Longrightarrow> 0 \<le> a \<Longrightarrow> 0 < b \<Longrightarrow> nearest s (c * a) (c * b) = nearest s a b"
proof -
  assume c: "0 < c" and a: "0 \<le> a" and b: "0 < b"
  show ?thesis
  proof (cases "a = 0")
    case False
    then have "round_exp (c * a) (c * b) = round_exp a b" using round_exp_scale [OF c _ b] a by simp
    then show ?thesis using c False half_even_scale [OF c] by (simp add: nearest_def mult.assoc Let_def)
  qed (simp add: nearest_def)
qed

lemma fl_pos: "0 < fl_den e" "0 \<le> m \<Longrightarrow> 0 \<le> fl_num m e"
  by (simp_all add: fl_den_def fl_num_def)

lemma nearest_double:
  assumes "is_double (Finite s m e)"
  shows "nearest s (fl_num m e) (fl_den e) = Finite s m e"
proof (cases "m = 0")
  case True
  then show ?thesis using assms by (simp add: nearest_def fl_num_def)
next
  case False
  then have m: "0 < m" "m < 2 ^ 53" "- 1074 \<le> e" "e \<le> 971" "2 ^ 52 \<le> m \<or> e = - 1074" using assms by auto
  have split: "(x :: int) * 2 ^ nat e * 2 ^ nat (- (e + j)) < 2 ^ nat (- e) * 2 ^ nat (e + j) \<longleftrightarrow> x < 2 ^ nat j" if "0 \<le> j" for x j
  proof -
    have "x * 2 ^ nat e * 2 ^ nat (- (e + j)) = x * 2 ^ (nat e + nat (- (e + j)))" by (simp add: power_add)
    moreover have "(2 :: int) ^ nat (- e) * 2 ^ nat (e + j) = 2 ^ nat j * 2 ^ (nat e + nat (- (e + j)))"
    proof -
      have "nat (- e) + nat (e + j) = nat j + (nat e + nat (- (e + j)))" using that by linarith
      then show ?thesis by (metis power_add)
    qed
    ultimately show ?thesis by (simp only: mult_less_cancel_right_pos zero_less_power zero_less_numeral)
  qed
  have "round_exp (fl_num m e) (fl_den e) = e"
  proof (rule round_exp_unique)
    show "below (fl_num m e) (fl_den e) (e + 53)" using split [of 53 m, OF zero_le_numeral] m(2) unfolding below_def fl_num_def fl_den_def nat_numeral by blast
    show "e = - 1074 \<or> \<not> below (fl_num m e) (fl_den e) (e + 52)"
      using split [of 52 m, OF zero_le_numeral] m(5) unfolding below_def fl_num_def fl_den_def nat_numeral by (meson not_less)
  qed (use m fl_pos in \<open>simp_all add: fl_num_def\<close>)
  moreover have "half_even (fl_num m e * 2 ^ nat (- e)) (fl_den e * 2 ^ nat e) = m"
    using half_even_exact [of "2 ^ nat e * 2 ^ nat (- e)" m] by (simp add: fl_num_def fl_den_def mult_ac)
  ultimately show ?thesis using m False by (simp add: nearest_def Let_def fl_num_def [of m])
qed

text \<open>The result of rounding is a double.\<close>

lemma nearest_is_double: "0 \<le> a \<Longrightarrow> 0 < b \<Longrightarrow> is_double (nearest s a b)"
proof (cases "a = 0")
  case False
  assume "0 \<le> a" and b: "0 < b"
  then have a: "0 < a" using False by simp
  define e where "e = round_exp a b"
  define m where "m = half_even (a * 2 ^ nat (- e)) (b * 2 ^ nat e)"
  note r = round_exp_least [OF a b, folded e_def]
  have y: "0 < b * 2 ^ nat e" using b by simp
  have step: "below a b (e + j) \<longleftrightarrow> a * 2 ^ nat (- e) < 2 ^ nat j * (b * 2 ^ nat e)" if j: "0 \<le> j" for j
  proof -
    consider "0 \<le> e" | "e < 0" "0 \<le> e + j" | "e + j < 0" by linarith
    then show ?thesis
    proof cases
      case 1
      then have "nat (e + j) = nat j + nat e" using j by simp
      then show ?thesis using 1 j by (simp add: below_def power_add mult.assoc mult.left_commute)
    next
      case 2
      then have k: "nat j = nat (e + j) + nat (- e)" using j by simp
      have "2 ^ nat j * b = b * 2 ^ nat (e + j) * 2 ^ nat (- e)" unfolding k power_add by (simp add: mult_ac)
      then have "a * 2 ^ nat (- e) < 2 ^ nat j * b \<longleftrightarrow> a < b * 2 ^ nat (e + j)" by (simp only: mult_less_cancel_right_pos zero_less_power zero_less_numeral)
      then show ?thesis using 2 by (simp add: below_def)
    next
      case 3
      then have k: "nat (- e) = nat (- (e + j)) + nat j" using j by simp
      have "a * 2 ^ nat (- e) = a * 2 ^ nat (- (e + j)) * 2 ^ nat j" "2 ^ nat j * b = b * 2 ^ nat j" unfolding k power_add by (simp_all add: mult_ac)
      then have "a * 2 ^ nat (- e) < 2 ^ nat j * b \<longleftrightarrow> a * 2 ^ nat (- (e + j)) < b" by (simp only: mult_less_cancel_right_pos zero_less_power zero_less_numeral)
      then show ?thesis using 3 j by (simp add: below_def)
    qed
  qed
  have hi: "m \<le> 2 ^ 53" unfolding m_def using half_even_bounds(1) [OF y, of "a * 2 ^ nat (- e)" "2 ^ 53"] r(2) step [of 53] by simp
  have lo: "e = - 1074 \<or> 2 ^ 52 \<le> m" unfolding m_def using half_even_bounds(2) [OF y, of "2 ^ 52" "a * 2 ^ nat (- e)"] r(3) step [of 52] by (auto simp: not_less)
  have "0 \<le> m" unfolding m_def using half_even_bounds(2) [OF y, of 0 "a * 2 ^ nat (- e)"] a by simp
  moreover have "nearest s a b = (if m = 2 ^ 53 then if e + 1 > 971 then Infinite s else Finite s (2 ^ 52) (e + 1) else if e > 971 then Infinite s else Finite s m e)"
    using False by (simp add: nearest_def e_def m_def Let_def)
  ultimately show ?thesis using hi lo r(1) by auto
qed (simp add: nearest_def)

lemma nearest_finite:
  assumes "0 \<le> a" "0 < b" "a \<le> b * 2 ^ 1000"
  shows "isfinite (nearest s a b)"
proof (cases "a = 0")
  case False
  then have a: "0 < a" using assms(1) by simp
  have "b * 2 ^ 1000 < b * 2 ^ 1001" using assms(2) by simp
  then have "below a b 1001" using assms(3) below_nonneg [of 1001 a b] by (metis nat_numeral order_le_less_trans zero_le_numeral)
  then have "round_exp a b \<le> 949" using round_exp_least(3) [OF a assms(2)] below_mono [of a b 1001 "round_exp a b + 52"] a assms(2) by fastforce
  then show ?thesis using False by (simp add: nearest_def Let_def)
qed (simp add: nearest_def)

section \<open>What is printed\<close>

lemma digits_value_append: "digits_value b (xs @ ys) = digits_value b xs * b ^ length ys + digits_value b ys"
proof (induction ys rule: rev_induct)
  case (snoc y ys)
  have s: "digits_value b (zs @ [y]) = digits_value b zs * b + digit_value y" for zs by (simp add: digits_value_def)
  then show ?case using snoc s [of "xs @ ys"] by (simp add: algebra_simps)
qed (simp add: digits_value_def)

lemma digits_value_nonneg: "\<forall>c \<in> set cs. 0 \<le> digit_value c \<Longrightarrow> 0 \<le> b \<Longrightarrow> 0 \<le> digits_value b cs"
proof (induction cs rule: rev_induct)
  case (snoc c cs)
  then have "digits_value b (cs @ [c]) = digits_value b cs * b + digit_value c" by (simp add: digits_value_def)
  then show ?case using snoc by simp
qed (simp add: digits_value_def)

lemma digits_value_dec: "0 \<le> n \<Longrightarrow> digits_value 10 (dec n) = n"
proof (induction n rule: dec.induct)
  case (1 n)
  show ?case
  proof (cases "n < 10")
    case True
    then show ?thesis using 1(2) by (simp add: dec.simps [of n] digits_value_def digit_value_def)
  next
    case False
    then have "digits_value 10 (dec (n div 10)) = n div 10" using 1 by simp
    then show ?thesis using False 1(2) by (simp add: dec.simps [of n] digits_value_append) (simp add: digits_value_def digit_value_def)
  qed
qed

lemma dec_digit: "0 \<le> n \<Longrightarrow> list_all digit (dec n)"
proof (induction n rule: dec.induct)
  case (1 n)
  then show ?case by (cases "n < 10") (auto simp: dec.simps [of n] intro: order_trans [of _ 0])
qed

lemma dec_leading: "0 \<le> n \<Longrightarrow> hd (dec n) = 48 \<Longrightarrow> length (dec n) = 1"
proof (induction n rule: dec.induct)
  case (1 n)
  show ?case
  proof (cases "n < 10")
    case False
    then have "hd (dec (n div 10)) = 48" "length (dec (n div 10)) = 1" using 1 dec_hd [of "n div 10"] by (auto simp: dec.simps [of n] hd_append)
    moreover have "n div 10 < 10 \<Longrightarrow> dec (n div 10) = [n div 10 + 48]" by (simp add: dec.simps [of "n div 10"])
    moreover have "\<not> n div 10 < 10 \<Longrightarrow> 1 < length (dec (n div 10))" using dec_hd [of "n div 10 div 10"] 1(2) pos_imp_zdiv_nonneg_iff [of 10 "n div 10"] pos_imp_zdiv_nonneg_iff [of 10 n] by (cases "dec (n div 10 div 10)") (simp_all add: dec.simps [of "n div 10"])
    ultimately show ?thesis using False by (cases "n div 10 < 10") auto
  qed (simp add: dec.simps [of n])
qed

lemma places_digit: "list_all digit (places k n)" "length (places k n) = k" "digits_value 10 (places k n) = n mod 10 ^ k"
proof (induction k arbitrary: n)
  case (Suc k)
  case 1
  show ?case using Suc(1) by simp
  case 2
  show ?case using Suc(2) by simp
  case 3
  have "digits_value 10 [n mod 10 + 48] = n mod 10" by (simp add: digits_value_def digit_value_def)
  then show ?case using Suc(3) [of "n div 10"] by (simp add: digits_value_append zmod_zmult2_eq [of "10 ^ k" n 10] mult.commute)
qed (simp_all add: digits_value_def)

text \<open>The loop of \<open>NumberToString\<close> drops zeros at the end, but not the first digit after the point.\<close>

lemma trim_zeros_cut: "n \<le> length r \<Longrightarrow> trim_zeros (r @ x) n = trim_zeros r n"
  by (induction n) (auto simp: nth_append)

lemma trim_fraction:
  assumes "f \<noteq> []" "list_all digit f"
  shows "\<exists>g j. g \<noteq> [] \<and> f = g @ replicate j 48 \<and> take (trim_zeros (p @ 46 # f) (length (p @ 46 # f))) (p @ 46 # f) = p @ 46 # g"
  using assms
proof (induction f rule: rev_induct)
  case (snoc c f)
  let ?r = "p @ 46 # f"
  have l: "length (p @ 46 # f @ [c]) = Suc (length ?r)" by simp
  have at: "(p @ 46 # f @ [c]) ! length ?r = c" using nth_append_length [of ?r c "[]"] by simp
  have before: "(p @ 46 # f @ [c]) ! (length ?r - 1) = last ?r" by (cases f rule: rev_cases) (simp_all add: nth_append)
  show ?case
  proof (cases "c = 48 \<and> f \<noteq> []")
    case True
    then have "last ?r \<noteq> 46" using snoc.prems(2) by (cases f rule: rev_cases) auto
    then have t: "trim_zeros (p @ 46 # f @ [c]) (length (p @ 46 # f @ [c])) = trim_zeros ?r (length ?r)"
      unfolding l using True at before trim_zeros_cut [of "length ?r" ?r "[c]"] length_greater_0_conv [of ?r] by (simp del: length_append length_greater_0_conv)
    obtain g j where g: "g \<noteq> []" "f = g @ replicate j 48" "take (trim_zeros ?r (length ?r)) ?r = p @ 46 # g"
      using snoc.IH snoc.prems(2) True by (metis list_all_append)
    have le: "trim_zeros ?r n \<le> n" for n by (induction n) auto
    have "take (trim_zeros ?r (length ?r)) (?r @ [c]) = take (trim_zeros ?r (length ?r)) ?r" using le [of "length ?r"] by (metis append_Nil2 diff_is_0_eq take_0 take_append)
    then have "take (trim_zeros ?r (length ?r)) (?r @ [c]) = p @ 46 # g" using g(3) by (rule trans)
    moreover have "f @ [c] = g @ replicate (Suc j) 48" using g(2) True by (simp add: replicate_append_same)
    ultimately show ?thesis using g(1) t by (intro exI [of _ g] exI [of _ "Suc j"]) simp
  next
    case False
    then have "c \<noteq> 48 \<or> last ?r = 46" by auto
    then have "trim_zeros (p @ 46 # f @ [c]) (length (p @ 46 # f @ [c])) = length (p @ 46 # f @ [c])"
      unfolding l using at before by (auto simp del: length_append)
    then show ?thesis by (intro exI [of _ "f @ [c]"] exI [of _ 0]) simp
  qed
qed simp

text \<open>A finite double is printed with its magnitude rounded to six decimals, without the zeros at the end.\<close>

definition micro :: "int \<Rightarrow> int \<Rightarrow> int" where
  "micro m e = half_even (fl_num m e * 10 ^ 6) (fl_den e)"

lemma micro_nonneg: "0 \<le> m \<Longrightarrow> 0 \<le> micro m e"
  unfolding micro_def using half_even_bounds(2) [OF fl_pos(1), of 0 e] fl_pos(2) [of m e] by simp

lemma NumberToString_text:
  assumes "0 \<le> m"
  obtains g j where "NumberToString_double (Finite s m e) = (if s then [45] else []) @ dec (micro m e div 10 ^ 6) @ 46 # g"
    "g \<noteq> []" "list_all digit g" "length g + j = 6" "digits_value 10 g * 10 ^ j = micro m e mod 10 ^ 6"
proof -
  let ?n = "micro m e" and ?p = "(if s then [45] else []) @ dec (micro m e div 10 ^ 6)"
  have tx: "std_to_string (Finite s m e) = ?p @ 46 # places 6 ?n" by (simp add: micro_def Let_def)
  note f = places_digit [where k = 6 and n = ?n]
  then have "places 6 ?n \<noteq> []" by auto
  then obtain g j where g: "g \<noteq> []" "places 6 ?n = g @ replicate j 48"
    "take (trim_zeros (?p @ 46 # places 6 ?n) (length (?p @ 46 # places 6 ?n))) (?p @ 46 # places 6 ?n) = ?p @ 46 # g"
    using trim_fraction [OF _ f(1), of ?p] by blast
  have "digits_value 10 (replicate j 48) = 0" by (induction j) (simp_all add: digits_value_def digit_value_def)
  then have "digits_value 10 g * 10 ^ j = ?n mod 10 ^ 6" using f(3) unfolding g(2) digits_value_append by simp
  moreover have "list_all digit g" "length g + j = 6" using f(1,2) unfolding g(2) by auto
  moreover have "NumberToString_double (Finite s m e) = ?p @ 46 # g" unfolding NumberToString_double_def tx Let_def using g(3) by simp
  ultimately show ?thesis using that g(1) by simp
qed

section \<open>What is read\<close>

text \<open>The numbers of JSON: a sign, digits without a leading zero, a fraction and an exponent.\<close>

definition exponent_text :: "int list \<Rightarrow> bool" where
  "exponent_text s \<longleftrightarrow> s = [] \<or> (hd s = 101 \<or> hd s = 69)
     \<and> (let t = tl s; t = (if t \<noteq> [] \<and> (hd t = 45 \<or> hd t = 43) then tl t else t) in t \<noteq> [] \<and> list_all digit t)"

definition fraction_text :: "int list \<Rightarrow> bool" where
  "fraction_text s \<longleftrightarrow>
     (if s \<noteq> [] \<and> hd s = 46 then takeWhile digit (tl s) \<noteq> [] \<and> exponent_text (dropWhile digit (tl s)) else exponent_text s)"

definition number_text :: "int list \<Rightarrow> bool" where
  "number_text s \<longleftrightarrow>
     (let s = (if s \<noteq> [] \<and> hd s = 45 then tl s else s); ds = takeWhile digit s in
      ds \<noteq> [] \<and> (hd ds = 48 \<longrightarrow> length ds = 1) \<and> fraction_text (dropWhile digit s))"

lemma all_digits: "list_all digit t \<Longrightarrow> takeWhile digit t = t" "list_all digit t \<Longrightarrow> dropWhile digit t = []"
  by (auto simp: list_all_iff takeWhile_eq_all_conv)

lemma strtod_exponent_text: "exponent_text r \<Longrightarrow> snd (strtod_exponent 101 69 r) = []"
  by (auto simp: exponent_text_def strtod_exponent_def Let_def all_digits list_all_iff split: if_splits)

lemma strtod_number_read:
  assumes "dropWhile space t = t" "(t \<noteq> [] \<and> hd t = 45) = s" "(if t \<noteq> [] \<and> (hd t = 45 \<or> hd t = 43) then tl t else t) = u"
    and "\<not> (2 \<le> length u \<and> u ! 0 = 48 \<and> (u ! 1 = 120 \<or> u ! 1 = 88))" "strtod_number s digit 10 10 1 101 69 u = Some r"
  shows "strtod t = r"
  unfolding strtod_def Let_def assms(1-3) if_not_P [OF assms(4)] assms(5) by simp

text \<open>All of such a text is read, as a decimal number.\<close>

lemma strtod_text:
  assumes "number_text t"
  obtains s a b where "strtod t = (nearest s a b, [])" "0 \<le> a" "0 < b"
proof -
  define s where "s \<longleftrightarrow> hd t = 45"
  define u where "u = (if s then tl t else t)"
  have t: "t \<noteq> []" using assms by (auto simp: number_text_def)
  have n: "takeWhile digit u \<noteq> []" "hd (takeWhile digit u) = 48 \<longrightarrow> length (takeWhile digit u) = 1" "fraction_text (dropWhile digit u)"
    using assms t by (simp_all add: number_text_def u_def s_def Let_def)
  then obtain c v where u: "u = c # v" "digit c" by (cases u) (auto split: if_splits)
  have c: "hd t = 45 \<or> hd t = c" using u(1) by (auto simp: u_def s_def split: if_splits)
  have sp: "dropWhile space t = t" using t c u(2) by (cases t) (auto simp: space_def)
  have sg: "(if t \<noteq> [] \<and> (hd t = 45 \<or> hd t = 43) then tl t else t) = u" using t c u by (auto simp: u_def s_def)
  have hex: "\<not> (2 \<le> length u \<and> u ! 0 = 48 \<and> (u ! 1 = 120 \<or> u ! 1 = 88))"
  proof
    assume a: "2 \<le> length u \<and> u ! 0 = 48 \<and> (u ! 1 = 120 \<or> u ! 1 = 88)"
    then obtain d w where v: "v = d # w" "c = 48" "d = 120 \<or> d = 88" using u(1) by (cases v) auto
    then have "dropWhile digit u = d # w" using u by auto
    then show False using n(3) v(3) by (auto simp: fraction_text_def exponent_text_def)
  qed
  define r where "r = dropWhile digit u"
  define f where "f = (if r \<noteq> [] \<and> hd r = 46 then (takeWhile digit (tl r), dropWhile digit (tl r)) else ([], r))"
  obtain k r' where k: "strtod_exponent 101 69 (snd f) = (k, r')" by fastforce
  have "exponent_text (snd f)" using n(3) by (auto simp: fraction_text_def f_def r_def [symmetric])
  then have r': "r' = []" using strtod_exponent_text k by fastforce
  define ds where "ds = takeWhile digit u @ fst f"
  define k' where "k' = k - int (length (fst f))"
  have num: "strtod_number s digit 10 10 1 101 69 u = Some (nearest s (digits_value 10 ds * 10 ^ nat k') (10 ^ nat (- k')), [])"
    using n(1) k r' unfolding strtod_number_def Let_def r_def [symmetric] f_def [symmetric] ds_def k'_def by (simp add: split_beta)
  have "strtod t = (nearest s (digits_value 10 ds * 10 ^ nat k') (10 ^ nat (- k')), [])"
    using strtod_number_read [OF sp _ sg hex num] t by (simp add: s_def)
  moreover have "\<forall>x \<in> set ds. 0 \<le> digit_value x"
    by (auto simp: ds_def f_def digit_value_def dest!: set_takeWhileD split: if_splits)
  then have "0 \<le> digits_value 10 ds" by (intro digits_value_nonneg) auto
  ultimately show ?thesis using that by simp
qed

text \<open>A number of JSON is read unless it is too large for a double.\<close>

lemma StringToDouble_text:
  assumes "number_text t"
  shows "StringToDouble t = (isfinite (fst (strtod t)), fst (strtod t))" "is_double (fst (strtod t))"
    "isfinite (fst (strtod t)) \<or> (\<exists>s. fst (strtod t) = Infinite s)"
proof -
  obtain s a b where r: "strtod t = (nearest s a b, [])" "0 \<le> a" "0 < b" using strtod_text [OF assms] by blast
  have f: "isfinite (nearest s a b) \<or> nearest s a b = Infinite s" by (simp add: nearest_def Let_def)
  have t: "t \<noteq> []" using assms by (auto simp: number_text_def)
  then have "\<not> space (t ! 0)" using assms by (cases t) (auto simp: number_text_def space_def Let_def split: if_splits)
  moreover have "isfinite (nearest s a b) \<longleftrightarrow> nearest s a b \<noteq> Infinite False \<and> nearest s a b \<noteq> Infinite True" using f by auto
  ultimately show "StringToDouble t = (isfinite (fst (strtod t)), fst (strtod t))" using r(1) t by (auto simp: StringToDouble_def)
  show "is_double (fst (strtod t))" using nearest_is_double [OF r(2,3)] r(1) by simp
  show "isfinite (fst (strtod t)) \<or> (\<exists>s. fst (strtod t) = Infinite s)" using f r(1) by auto
qed

lemma takeWhile_digits: "list_all digit i \<Longrightarrow> takeWhile digit (i @ 46 # g) = i" "list_all digit i \<Longrightarrow> dropWhile digit (i @ 46 # g) = 46 # g"
  by (auto simp: list_all_iff takeWhile_append2 dropWhile_append2)

lemma strtod_decimal:
  assumes "list_all digit i" "i \<noteq> []" "list_all digit g" "g \<noteq> []"
  shows "strtod ((if s then [45] else []) @ i @ 46 # g) = (nearest s (digits_value 10 (i @ g)) (10 ^ length g), [])"
proof -
  let ?t = "(if s then [45] else []) @ i @ 46 # g" and ?u = "i @ 46 # g"
  obtain c v where c: "i = c # v" "digit c" using assms(1,2) by (cases i) auto
  have sp: "dropWhile space ?t = ?t" using c by (auto simp: space_def)
  have sg: "(if ?t \<noteq> [] \<and> (hd ?t = 45 \<or> hd ?t = 43) then tl ?t else ?t) = ?u" "(?t \<noteq> [] \<and> hd ?t = 45) = s" using c by auto
  have hex: "\<not> (2 \<le> length ?u \<and> ?u ! 0 = 48 \<and> (?u ! 1 = 120 \<or> ?u ! 1 = 88))" using c assms(1) by (cases v) auto
  have "strtod_number s digit 10 10 1 101 69 ?u = Some (nearest s (digits_value 10 (i @ g)) (10 ^ length g), [])"
    unfolding strtod_number_def takeWhile_digits [OF assms(1)] using assms by (simp add: Let_def all_digits strtod_exponent_def)
  then show ?thesis by (rule strtod_number_read [OF sp sg(2,1) hex])
qed

text \<open>The text of a finite double is a number of JSON that is read as the double nearest to what was printed.\<close>

lemma NumberToString_read:
  assumes "is_double (Finite s m e)"
  shows "number_text (NumberToString_double (Finite s m e))" "46 \<in> set (NumberToString_double (Finite s m e))"
    "StringToDouble (NumberToString_double (Finite s m e)) = (True, nearest s (micro m e) (10 ^ 6))" "isfinite (nearest s (micro m e) (10 ^ 6))"
proof -
  have m: "0 \<le> m" "m < 2 ^ 53" "- 1074 \<le> e" using assms by simp_all
  define i where "i = dec (micro m e div 10 ^ 6)"
  obtain g j where g: "NumberToString_double (Finite s m e) = (if s then [45] else []) @ i @ 46 # g"
    "g \<noteq> []" "list_all digit g" "length g + j = 6" "digits_value 10 g * 10 ^ j = micro m e mod 10 ^ 6"
    using NumberToString_text [OF m(1), of s e, folded i_def] by blast
  have n: "0 \<le> micro m e div 10 ^ 6" using micro_nonneg [OF m(1)] by (simp add: pos_imp_zdiv_nonneg_iff)
  have i: "list_all digit i" "i \<noteq> []" "hd i \<noteq> 45" "hd i = 48 \<longrightarrow> length i = 1" "digits_value 10 i = micro m e div 10 ^ 6"
    using dec_digit [OF n] dec_hd [OF n] dec_leading [OF n] digits_value_dec [OF n] by (auto simp: i_def)
  have "(if (if s then [45] else []) @ i @ 46 # g \<noteq> [] \<and> hd ((if s then [45] else []) @ i @ 46 # g) = 45
      then tl ((if s then [45] else []) @ i @ 46 # g) else (if s then [45] else []) @ i @ 46 # g) = i @ 46 # g" using i(2,3) by auto
  then show nt: "number_text (NumberToString_double (Finite s m e))"
    unfolding g(1) number_text_def using i g(2,3) by (simp add: Let_def takeWhile_digits fraction_text_def all_digits exponent_text_def)
  show "46 \<in> set (NumberToString_double (Finite s m e))" by (simp add: g(1))
  have "digits_value 10 (i @ g) * 10 ^ j = micro m e"
  proof -
    have "digits_value 10 (i @ g) * 10 ^ j = digits_value 10 i * 10 ^ (length g + j) + digits_value 10 g * 10 ^ j"
      by (simp add: digits_value_append power_add algebra_simps)
    then show ?thesis unfolding g(4,5) i(5) by simp
  qed
  moreover have "10 ^ length g * 10 ^ j = (10 :: int) ^ 6" by (simp only: power_add [symmetric] g(4))
  moreover have "0 \<le> digits_value 10 (i @ g)"
  proof -
    have "\<forall>c \<in> set (i @ g). 0 \<le> digit_value c" using i(1) g(3) by (auto simp: list_all_iff digit_value_def)
    then show ?thesis by (rule digits_value_nonneg) simp
  qed
  ultimately have v: "strtod (NumberToString_double (Finite s m e)) = (nearest s (micro m e) (10 ^ 6), [])"
    unfolding g(1) strtod_decimal [OF i(1,2) g(3,2)]
    using nearest_scale [of "10 ^ j" "digits_value 10 (i @ g)" "10 ^ length g" s] by (simp add: mult.commute)
  show f: "isfinite (nearest s (micro m e) (10 ^ 6))"
  proof (cases "0 \<le> e")
    case True
    then have "fl_den e = 1" by (simp add: fl_den_def)
    then have "micro m e = 10 ^ 6 * fl_num m e" using half_even_exact [of 1 "fl_num m e * 10 ^ 6"] by (simp add: micro_def)
    then have "nearest s (micro m e) (10 ^ 6) = Finite s m e"
      using nearest_scale [of "10 ^ 6" "fl_num m e" 1 s] nearest_double [OF assms] \<open>fl_den e = 1\<close> fl_pos(2) [OF m(1)] by simp
    then show ?thesis by simp
  next
    case False
    then have "fl_num m e = m" by (simp add: fl_num_def)
    then have "fl_num m e * 10 ^ 6 < (2 ^ 53 * 10 ^ 6) * fl_den e"
    proof -
      have "m * 10 ^ 6 < 2 ^ 53 * 10 ^ 6" using m(2) by simp
      also have "\<dots> \<le> (2 ^ 53 * 10 ^ 6) * fl_den e" using fl_pos(1) [of e] by (simp add: fl_den_def)
      finally show ?thesis using \<open>fl_num m e = m\<close> by simp
    qed
    then have "micro m e \<le> 2 ^ 53 * 10 ^ 6" unfolding micro_def by (rule half_even_bounds(1) [OF fl_pos(1)])
    also have "\<dots> \<le> 10 ^ 6 * 2 ^ 1000" by simp
    finally show ?thesis using nearest_finite [of "micro m e" "10 ^ 6" s] micro_nonneg [OF m(1)] by simp
  qed
  show "StringToDouble (NumberToString_double (Finite s m e)) = (True, nearest s (micro m e) (10 ^ 6))"
    using StringToDouble_text(1) [OF nt] v f by simp
qed

text \<open>Doubles with at most six decimals are printed exactly.\<close>

lemma six_decimals_exact:
  assumes "is_double (Finite s m e)" "10 ^ 6 * fl_num m e mod fl_den e = 0"
  shows "nearest s (micro m e) (10 ^ 6) = Finite s m e"
proof -
  obtain q where q: "10 ^ 6 * fl_num m e = q * fl_den e" using assms(2) by (metis mod_0_imp_dvd dvdE mult.commute)
  have "micro m e = q" unfolding micro_def using q half_even_exact [OF fl_pos(1), of q e] by (simp add: mult.commute)
  moreover have "nearest s (10 ^ 6 * fl_num m e) (10 ^ 6 * fl_den e) = Finite s m e"
    using nearest_scale [of "10 ^ 6" "fl_num m e" "fl_den e" s] nearest_double [OF assms(1)] fl_pos assms(1) by simp
  moreover have "0 \<le> q" using q fl_pos(1) [of e] fl_pos(2) [of m e] assms(1) by (metis is_double.simps(1) mult_nonneg_nonneg zero_le_mult_iff zero_le_power zero_le_numeral not_less)
  then have "nearest s (fl_den e * q) (fl_den e * 10 ^ 6) = nearest s q (10 ^ 6)" by (intro nearest_scale fl_pos) simp_all
  moreover have "10 ^ 6 * fl_num m e = fl_den e * q" using q by (simp add: mult.commute)
  ultimately show ?thesis by (metis mult.commute)
qed

section \<open>Properties\<close>

text \<open>
  C39: Doubles as text. What \<open>NumberToString\<close> prints of a finite double, \<open>StringToDouble\<close> accepts, and it
  reads the double nearest to the magnitude rounded to six decimals, half to even, with the sign
  kept; this is the same double again when the magnitude has at most six decimals, so for every
  integer and every multiple of a 64th. \<open>NumberToString16\<close> prints the same text.
\<close>

theorem double_text_round_trip:
  assumes "is_double (Finite s m e)"
  shows "StringToDouble (NumberToString_double (Finite s m e))
      = (True, nearest s (half_even (fl_num m e * 10 ^ 6) (fl_den e)) (10 ^ 6))
    \<and> (fl_den e dvd 10 ^ 6 * fl_num m e
        \<longrightarrow> StringToDouble (NumberToString_double (Finite s m e)) = (True, Finite s m e))
    \<and> NumberToString16_double (Finite s m e) = NumberToString_double (Finite s m e)"
  using NumberToString_read(3) [OF assms] six_decimals_exact [OF assms]
  by (simp add: micro_def NumberToString16_double_def NumberToString_double_def)

theorem double_text_round_trip_witness:
  "StringToDouble (NumberToString_double (Finite True (2 ^ 52) (- 53))) = (True, Finite True (2 ^ 52) (- 53))
    \<and> StringToDouble (NumberToString_double (Finite False 7378697629483821 (- 83)))
      = (True, Finite False 0 (- 1074))"
proof -
  have h: "half_even (fl_num 7378697629483821 (- 83) * 10 ^ 6) (fl_den (- 83)) = 0" by (simp add: half_even_def fl_num_def fl_den_def)
  have d: "fl_den (- 53) dvd 10 ^ 6 * fl_num (2 ^ 52) (- 53)" by (simp add: fl_den_def fl_num_def)
  have "nearest False 0 (10 ^ 6) = Finite False 0 (- 1074)" by (simp add: nearest_def)
  then show ?thesis
    using double_text_round_trip [of True "2 ^ 52" "- 53"] double_text_round_trip [of False 7378697629483821 "- 83"] d
    unfolding h by auto
qed

end
