(* ===== verification/String_Piece.thy ===== *)
theory String_Piece
  imports Utf
begin

text \<open>
  Views of strings, \<open>base/strings/string_piece.cc\<close>: the searches of \<open>BasicStringPiece\<close> for
  characters, sets of characters and substrings, forwards and backwards, and \<open>substr\<close>. A piece is
  the list of its characters; the 8-bit overloads go through a table of 256 flags, the 16-bit ones
  compare with every wanted character. Positions are of a 64-bit \<open>size_t\<close>, and \<open>npos\<close> is its
  greatest value.
\<close>

definition npos :: nat where "npos = 2 ^ 64 - 1"

section \<open>The loops of the searches\<close>

text \<open>
  \<open>for (i = pos; i < n; ++i) if (test) return i;\<close> and
  \<open>for (; ; --i) { if (test) return i; if (i == 0) break; }\<close>, both followed by \<open>return npos\<close>.
\<close>

function scan_up :: "(nat \<Rightarrow> bool) \<Rightarrow> nat \<Rightarrow> nat \<Rightarrow> nat" where
  "scan_up test i n = (if i < n then if test i then i else scan_up test (i + 1) n else npos)"
  by auto
termination
  by (relation "measure (\<lambda>(t, i, n). n - i)") auto

fun scan_down :: "(nat \<Rightarrow> bool) \<Rightarrow> nat \<Rightarrow> nat" where
  "scan_down test i = (if test i then i else case i of 0 \<Rightarrow> npos | Suc j \<Rightarrow> scan_down test j)"

declare scan_up.simps [simp del] scan_down.simps [simp del]

text \<open>\<open>std::search\<close> and \<open>std::find_end\<close>; both return the end of the searched range when nothing is found.\<close>

definition matches_at :: "'a list \<Rightarrow> 'a list \<Rightarrow> nat \<Rightarrow> bool" where
  "matches_at xs s i \<longleftrightarrow> i + length s \<le> length xs \<and> take (length s) (drop i xs) = s"

function std_search :: "'a list \<Rightarrow> nat \<Rightarrow> 'a list \<Rightarrow> nat" where
  "std_search xs i s =
     (if i + length s \<le> length xs then if matches_at xs s i then i else std_search xs (i + 1) s
      else length xs)"
  by auto
termination
  by (relation "measure (\<lambda>(xs, i, s). Suc (length xs) - i)") auto

fun std_find_end :: "'a list \<Rightarrow> nat \<Rightarrow> 'a list \<Rightarrow> nat \<Rightarrow> nat" where
  "std_find_end xs last_pos s i =
     (if matches_at xs s i then i else case i of 0 \<Rightarrow> last_pos | Suc j \<Rightarrow> std_find_end xs last_pos s j)"

declare std_search.simps [simp del] std_find_end.simps [simp del]

section \<open>Searching\<close>

definition BuildLookupTable :: "int list \<Rightarrow> bool list \<Rightarrow> bool list" where
  "BuildLookupTable characters_wanted table = foldl (\<lambda>t c. t[nat (u8 c) := True]) table characters_wanted"

definition lookup :: "bool list \<Rightarrow> int \<Rightarrow> bool" where
  "lookup table c = table ! nat (u8 c)"

definition sp_find :: "int list \<Rightarrow> int list \<Rightarrow> nat \<Rightarrow> nat" where
  "sp_find self s pos =
     (if pos > length self then npos
      else let xpos = std_search self pos s in if xpos + length s \<le> length self then xpos else npos)"

definition sp_find_char :: "int list \<Rightarrow> int \<Rightarrow> nat \<Rightarrow> nat" where
  "sp_find_char self c pos = (if pos \<ge> length self then npos else scan_up (\<lambda>i. self ! i = c) pos (length self))"

definition sp_rfind :: "int list \<Rightarrow> int list \<Rightarrow> nat \<Rightarrow> nat" where
  "sp_rfind self s pos =
     (if length self < length s then npos
      else if s = [] then min (length self) pos
      else let last_pos = min (length self - length s) pos + length s;
               result = std_find_end self last_pos s (last_pos - length s)
           in if result \<noteq> last_pos then result else npos)"

definition sp_rfind_char :: "int list \<Rightarrow> int \<Rightarrow> nat \<Rightarrow> nat" where
  "sp_rfind_char self c pos =
     (if length self = 0 then npos else scan_down (\<lambda>i. self ! i = c) (min pos (length self - 1)))"

definition find_first_of8 :: "int list \<Rightarrow> int list \<Rightarrow> nat \<Rightarrow> nat" where
  "find_first_of8 self s pos =
     (if length self = 0 \<or> length s = 0 then npos
      else if length s = 1 then sp_find_char self (s ! 0) pos
      else let table = BuildLookupTable s (replicate 256 False)
           in scan_up (\<lambda>i. lookup table (self ! i)) pos (length self))"

text \<open>
  The 16-bit overload starts at \<open>self.begin() + pos\<close> without looking at the size; beyond the end
  the search is undefined, \<open>None\<close>.
\<close>

definition find_first_of16 :: "int list \<Rightarrow> int list \<Rightarrow> nat \<Rightarrow> nat option" where
  "find_first_of16 self s pos =
     (if pos > length self then None else Some (scan_up (\<lambda>i. self ! i \<in> set s) pos (length self)))"

definition find_first_not_of_char :: "int list \<Rightarrow> int \<Rightarrow> nat \<Rightarrow> nat" where
  "find_first_not_of_char self c pos =
     (if length self = 0 then npos else scan_up (\<lambda>i. self ! i \<noteq> c) pos (length self))"

definition find_first_not_of8 :: "int list \<Rightarrow> int list \<Rightarrow> nat \<Rightarrow> nat" where
  "find_first_not_of8 self s pos =
     (if length self = 0 then npos
      else if length s = 0 then 0
      else if length s = 1 then find_first_not_of_char self (s ! 0) pos
      else let table = BuildLookupTable s (replicate 256 False)
           in scan_up (\<lambda>i. \<not> lookup table (self ! i)) pos (length self))"

fun found_in :: "int \<Rightarrow> int list \<Rightarrow> bool" where
  "found_in c [] = False"
| "found_in c (x # s) = (if c = x then True else found_in c s)"

definition find_first_not_of16 :: "int list \<Rightarrow> int list \<Rightarrow> nat \<Rightarrow> nat" where
  "find_first_not_of16 self s pos =
     (if length self = 0 then npos else scan_up (\<lambda>i. \<not> found_in (self ! i) s) pos (length self))"

definition find_last_of8 :: "int list \<Rightarrow> int list \<Rightarrow> nat \<Rightarrow> nat" where
  "find_last_of8 self s pos =
     (if length self = 0 \<or> length s = 0 then npos
      else if length s = 1 then sp_rfind_char self (s ! 0) pos
      else let table = BuildLookupTable s (replicate 256 False)
           in scan_down (\<lambda>i. lookup table (self ! i)) (min pos (length self - 1)))"

definition find_last_of16 :: "int list \<Rightarrow> int list \<Rightarrow> nat \<Rightarrow> nat" where
  "find_last_of16 self s pos =
     (if length self = 0 then npos else scan_down (\<lambda>i. found_in (self ! i) s) (min pos (length self - 1)))"

definition find_last_not_of_char :: "int list \<Rightarrow> int \<Rightarrow> nat \<Rightarrow> nat" where
  "find_last_not_of_char self c pos =
     (if length self = 0 then npos else scan_down (\<lambda>i. self ! i \<noteq> c) (min pos (length self - 1)))"

definition find_last_not_of8 :: "int list \<Rightarrow> int list \<Rightarrow> nat \<Rightarrow> nat" where
  "find_last_not_of8 self s pos =
     (if length self = 0 then npos
      else let i = min pos (length self - 1) in
        if length s = 0 then i
        else if length s = 1 then find_last_not_of_char self (s ! 0) pos
        else let table = BuildLookupTable s (replicate 256 False)
             in scan_down (\<lambda>i. \<not> lookup table (self ! i)) i)"

definition find_last_not_of16 :: "int list \<Rightarrow> int list \<Rightarrow> nat \<Rightarrow> nat" where
  "find_last_not_of16 self s pos =
     (if length self = 0 then npos else scan_down (\<lambda>i. \<not> found_in (self ! i) s) (min pos (length self - 1)))"

definition sp_substr :: "'a list \<Rightarrow> nat \<Rightarrow> nat \<Rightarrow> 'a list" where
  "sp_substr self pos n =
     (let pos = (if pos > length self then length self else pos);
          n = (if n > length self - pos then length self - pos else n)
      in take n (drop pos self))"

definition sp_equal :: "int list \<Rightarrow> int list \<Rightarrow> bool" where
  "sp_equal x y \<longleftrightarrow> (if length x \<noteq> length y then False else x = y)"

text \<open>
  \<open>CharTraits::compare\<close> on the common length, then the lengths.
\<close>

fun traits_compare :: "int list \<Rightarrow> int list \<Rightarrow> int" where
  "traits_compare (x # xs) (y # ys) = (if x < y then - 1 else if x > y then 1 else traits_compare xs ys)"
| "traits_compare _ _ = 0"

definition sp_compare :: "int list \<Rightarrow> int list \<Rightarrow> int" where
  "sp_compare self x =
     (let n = min (length self) (length x); r = traits_compare (take n self) (take n x) in
      if r = 0 then if length self < length x then - 1 else if length self > length x then 1 else 0
      else r)"

definition starts_with :: "int list \<Rightarrow> int list \<Rightarrow> bool" where
  "starts_with self x \<longleftrightarrow> length self \<ge> length x \<and> traits_compare (take (length x) self) x = 0"

definition ends_with :: "int list \<Rightarrow> int list \<Rightarrow> bool" where
  "ends_with self x \<longleftrightarrow> length self \<ge> length x \<and> traits_compare (drop (length self - length x) self) x = 0"

section \<open>What a search returns\<close>

text \<open>
  The first position from \<open>pos\<close> on, before \<open>n\<close>, where the test holds, and the last position up to
  \<open>pos\<close>; \<open>npos\<close> when there is none.
\<close>

definition is_first :: "(nat \<Rightarrow> bool) \<Rightarrow> nat \<Rightarrow> nat \<Rightarrow> nat \<Rightarrow> bool" where
  "is_first P pos n r \<longleftrightarrow>
     (if r = npos then \<forall>i. pos \<le> i \<longrightarrow> i < n \<longrightarrow> \<not> P i
      else pos \<le> r \<and> r < n \<and> P r \<and> (\<forall>i. pos \<le> i \<longrightarrow> i < r \<longrightarrow> \<not> P i))"

definition is_last :: "(nat \<Rightarrow> bool) \<Rightarrow> nat \<Rightarrow> nat \<Rightarrow> nat \<Rightarrow> bool" where
  "is_last P pos n r \<longleftrightarrow>
     (if r = npos then \<forall>i. i \<le> pos \<longrightarrow> i < n \<longrightarrow> \<not> P i
      else r \<le> pos \<and> r < n \<and> P r \<and> (\<forall>i. r < i \<longrightarrow> i \<le> pos \<longrightarrow> i < n \<longrightarrow> \<not> P i))"

lemma is_first_here: "P i \<Longrightarrow> i < n \<Longrightarrow> n \<le> npos \<Longrightarrow> is_first P i n i"
  by (simp add: is_first_def)

lemma is_first_next:
  assumes "\<not> P i" "is_first P (i + 1) n r"
  shows "is_first P i n r"
proof -
  have "\<not> P j" if "i \<le> j" "i + 1 \<le> j \<Longrightarrow> \<not> P j" for j
    using that assms(1) by (cases "i = j") auto
  then show ?thesis using assms(2) by (auto simp: is_first_def split: if_splits)
qed

lemma scan_up_first: "n \<le> npos \<Longrightarrow> is_first P i n (scan_up P i n)"
proof (induction P i n rule: scan_up.induct)
  case (1 P i n)
  note step = scan_up.simps [of P i n]
  consider "\<not> i < n" | "i < n" "P i" | "i < n" "\<not> P i" by blast
  then show ?case
  proof cases
    case 1
    then show ?thesis unfolding step by (simp add: is_first_def)
  next
    case 2
    then show ?thesis unfolding step using is_first_here [of P i n] 1(2) by simp
  next
    case 3
    then show ?thesis unfolding step using is_first_next [OF 3(2) 1(1) [OF 3 1(2)]] by simp
  qed
qed

lemma is_last_here: "P i \<Longrightarrow> i < n \<Longrightarrow> n \<le> npos \<Longrightarrow> is_last P i n i"
  by (simp add: is_last_def)

lemma is_last_next: "\<not> P (Suc i) \<Longrightarrow> is_last P i n r \<Longrightarrow> is_last P (Suc i) n r"
  by (auto simp: is_last_def le_Suc_eq split: if_splits)

lemma scan_down_last:
  assumes "i < n" "n \<le> npos"
  shows "is_last P i n (scan_down P i)"
  using assms(1)
proof (induction i)
  case 0
  then show ?case using assms(2) by (simp add: is_last_def scan_down.simps [of P 0])
next
  case (Suc i)
  then show ?case
    using is_last_here [of P "Suc i" n] is_last_next [of P i n "scan_down P i"] assms(2)
    by (simp add: scan_down.simps [of P "Suc i"])
qed

lemma is_last_min: "0 < n \<Longrightarrow> is_last P (min pos (n - 1)) n r \<Longrightarrow> is_last P pos n r"
  by (auto simp: is_last_def min_def split: if_splits)

lemma scan_down_clamped: "0 < n \<Longrightarrow> n \<le> npos \<Longrightarrow> is_last P pos n (scan_down P (min pos (n - 1)))"
  by (rule is_last_min, simp) (rule scan_down_last, auto)

lemma is_first_cong: "(\<And>i. i < n \<Longrightarrow> P i \<longleftrightarrow> Q i) \<Longrightarrow> is_first P pos n r \<Longrightarrow> is_first Q pos n r"
  by (auto simp: is_first_def split: if_splits)

lemma is_last_cong: "(\<And>i. i < n \<Longrightarrow> P i \<longleftrightarrow> Q i) \<Longrightarrow> is_last P pos n r \<Longrightarrow> is_last Q pos n r"
  by (auto simp: is_last_def split: if_splits)

lemma BuildLookupTable_length [simp]: "length (BuildLookupTable s t) = length t"
  unfolding BuildLookupTable_def by (induction s arbitrary: t) auto

lemma lookup_BuildLookupTable:
  assumes "bytes s" "0 \<le> c" "c < 256" "length t = 256"
  shows "lookup (BuildLookupTable s t) c \<longleftrightarrow> lookup t c \<or> c \<in> set s"
  using assms(1,4) unfolding BuildLookupTable_def
proof (induction s arbitrary: t)
  case (Cons x s)
  have "lookup (t[nat (u8 x) := True]) c \<longleftrightarrow> lookup t c \<or> c = x"
    using Cons.prems assms(2,3) by (auto simp: lookup_def u8_def bytes_def nth_list_update)
  then show ?case using Cons by (auto simp: bytes_def)
qed simp

lemma lookup_wanted [simp]:
  "bytes s \<Longrightarrow> 0 \<le> c \<Longrightarrow> c < 256 \<Longrightarrow> lookup (BuildLookupTable s (replicate 256 False)) c \<longleftrightarrow> c \<in> set s"
  by (subst lookup_BuildLookupTable) (auto simp: lookup_def u8_def)

lemma bytes_nth: "bytes s \<Longrightarrow> i < length s \<Longrightarrow> 0 \<le> s ! i \<and> s ! i < 256"
  using nth_mem by (fastforce simp: bytes_def)

lemma lookup_at:
  "bytes self \<Longrightarrow> bytes s \<Longrightarrow> i < length self \<Longrightarrow>
   lookup (BuildLookupTable s (replicate 256 False)) (self ! i) \<longleftrightarrow> self ! i \<in> set s"
  using bytes_nth lookup_wanted by blast

lemma found_in_iff [simp]: "found_in c s \<longleftrightarrow> c \<in> set s"
  by (induction s) auto

lemma singleton_set: "length s = 1 \<Longrightarrow> c \<in> set s \<longleftrightarrow> c = s ! 0"
  by (cases s) auto

lemma std_search_spec:
  assumes "i \<le> length xs"
  shows "(\<forall>j. i \<le> j \<longrightarrow> \<not> matches_at xs s j) \<and> std_search xs i s = length xs \<or>
    matches_at xs s (std_search xs i s) \<and> i \<le> std_search xs i s \<and>
    (\<forall>j. i \<le> j \<longrightarrow> j < std_search xs i s \<longrightarrow> \<not> matches_at xs s j)"
  using assms
proof (induction xs i s rule: std_search.induct)
  case (1 xs i s)
  note step = std_search.simps [of xs i s]
  consider "\<not> i + length s \<le> length xs" | "i + length s \<le> length xs" "matches_at xs s i"
    | "i + length s \<le> length xs" "\<not> matches_at xs s i" by blast
  then show ?case
  proof cases
    case 1
    then show ?thesis unfolding step by (auto simp: matches_at_def)
  next
    case 2
    then show ?thesis unfolding step by simp
  next
    case 3
    have "s \<noteq> []" using 3 by (auto simp: matches_at_def)
    then have le: "i + 1 \<le> length xs" using 3(1) by (cases s) auto
    have *: "\<not> matches_at xs s j" if "i \<le> j" "i + 1 \<le> j \<Longrightarrow> \<not> matches_at xs s j" for j
      using that 3(2) by (cases "i = j") auto
    have eq: "std_search xs i s = std_search xs (i + 1) s" unfolding step using 3 by simp
    from 1(1) [OF 3 le] show ?thesis unfolding eq using * by auto
  qed
qed

lemma sp_find_first:
  assumes "length self < npos"
  shows "is_first (matches_at self s) pos (length self + 1) (sp_find self s pos)"
proof (cases "pos > length self")
  case True
  then show ?thesis by (auto simp: sp_find_def is_first_def)
next
  case False
  let ?x = "std_search self pos s"
  have m: "matches_at self s i \<Longrightarrow> i \<noteq> npos \<and> i < length self + 1 \<and> i + length s \<le> length self" for i
    using assms by (auto simp: matches_at_def)
  have spec: "(\<forall>j. pos \<le> j \<longrightarrow> \<not> matches_at self s j) \<and> ?x = length self \<or>
    matches_at self s ?x \<and> pos \<le> ?x \<and> (\<forall>j. pos \<le> j \<longrightarrow> j < ?x \<longrightarrow> \<not> matches_at self s j)"
    using False by (intro std_search_spec) simp
  have ne: "s \<noteq> []" if "\<forall>j. pos \<le> j \<longrightarrow> \<not> matches_at self s j" "pos \<le> length self"
    using that by (auto simp: matches_at_def)
  from spec show ?thesis using False m [of ?x] ne by (auto simp: sp_find_def is_first_def Let_def)
qed

lemma std_find_end_spec:
  "(\<forall>j \<le> i. \<not> matches_at xs s j) \<and> std_find_end xs l s i = l \<or>
    matches_at xs s (std_find_end xs l s i) \<and> std_find_end xs l s i \<le> i \<and>
    (\<forall>j. std_find_end xs l s i < j \<longrightarrow> j \<le> i \<longrightarrow> \<not> matches_at xs s j)"
proof (induction i)
  case 0
  then show ?case unfolding std_find_end.simps [of xs l s 0] by auto
next
  case (Suc i)
  then show ?case unfolding std_find_end.simps [of xs l s "Suc i"] by (auto simp: le_Suc_eq)
qed

lemma sp_rfind_last:
  assumes "length self < npos"
  shows "is_last (matches_at self s) pos (length self + 1) (sp_rfind self s pos)"
proof -
  consider "length self < length s" | "s = []" | "s \<noteq> []" "length s \<le> length self" by linarith
  then show ?thesis
  proof cases
    case 1
    then show ?thesis by (auto simp: sp_rfind_def is_last_def matches_at_def)
  next
    case 2
    then show ?thesis using assms by (auto simp: sp_rfind_def is_last_def matches_at_def min_def)
  next
    case 3
    define m where "m = min (length self - length s) pos"
    let ?r = "std_find_end self (m + length s) s m"
    have r: "sp_rfind self s pos = (if ?r \<noteq> m + length s then ?r else npos)"
      using 3 by (simp add: sp_rfind_def m_def Let_def)
    have top: "\<not> matches_at self s j" if "m < j" "j \<le> pos" for j
      using that 3 by (auto simp: matches_at_def m_def min_def split: if_splits)
    have spec: "(\<forall>j \<le> m. \<not> matches_at self s j) \<and> ?r = m + length s \<or>
      matches_at self s ?r \<and> ?r \<le> m \<and> (\<forall>j. ?r < j \<longrightarrow> j \<le> m \<longrightarrow> \<not> matches_at self s j)"
      by (rule std_find_end_spec)
    have le: "m \<le> pos" "m < length self + 1" by (auto simp: m_def)
    from spec show ?thesis
    proof (elim disjE conjE)
      assume none: "\<forall>j \<le> m. \<not> matches_at self s j" and e: "?r = m + length s"
      have "\<not> matches_at self s i" if "i \<le> pos" for i using none top [of i] that by (cases "i \<le> m") auto
      then show ?thesis unfolding r using e by (simp add: is_last_def)
    next
      assume some: "matches_at self s ?r" "?r \<le> m" "\<forall>j. ?r < j \<longrightarrow> j \<le> m \<longrightarrow> \<not> matches_at self s j"
      have "\<not> matches_at self s i" if "?r < i" "i \<le> pos" for i using some(3) top [of i] that by (cases "i \<le> m") auto
      moreover have "?r \<noteq> npos" "?r \<noteq> m + length s" using some(2) le assms 3(1) by auto
      ultimately show ?thesis unfolding r using some le by (auto simp: is_last_def)
    qed
  qed
qed

lemma is_first_empty [simp]: "n \<le> pos \<Longrightarrow> is_first P pos n npos" and is_last_empty [simp]: "is_last P pos 0 npos"
  by (simp_all add: is_first_def is_last_def)

lemma sp_find_char_first: "length self < npos \<Longrightarrow> is_first (\<lambda>i. self ! i = c) pos (length self) (sp_find_char self c pos)"
  using scan_up_first [of "length self" "\<lambda>i. self ! i = c" pos] by (simp add: sp_find_char_def)

lemma sp_rfind_char_last: "length self < npos \<Longrightarrow> is_last (\<lambda>i. self ! i = c) pos (length self) (sp_rfind_char self c pos)"
  using scan_down_clamped [of "length self" "\<lambda>i. self ! i = c" pos] by (simp add: sp_rfind_char_def)

lemma find_first_of8_first:
  assumes "length self < npos" "bytes self" "bytes s"
  shows "is_first (\<lambda>i. self ! i \<in> set s) pos (length self) (find_first_of8 self s pos)"
proof -
  consider "self = [] \<or> s = []" | "self \<noteq> []" "length s = 1" | "self \<noteq> []" "s \<noteq> []" "length s \<noteq> 1" by blast
  then show ?thesis
  proof cases
    case 1
    then show ?thesis by (auto simp: find_first_of8_def is_first_def)
  next
    case 2
    then show ?thesis using is_first_cong [OF _ sp_find_char_first [OF assms(1), of "s ! 0" pos]] singleton_set [OF 2(2)]
      by (simp add: find_first_of8_def)
  next
    case 3
    then show ?thesis using is_first_cong [OF lookup_at [OF assms(2,3)] scan_up_first] assms(1)
      by (simp add: find_first_of8_def Let_def)
  qed
qed

lemma find_first_of16_first:
  assumes "length self < npos" "pos \<le> length self"
  shows "\<exists>r. find_first_of16 self s pos = Some r \<and> is_first (\<lambda>i. self ! i \<in> set s) pos (length self) r"
  using assms scan_up_first [of "length self" "\<lambda>i. self ! i \<in> set s" pos] by (simp add: find_first_of16_def)

lemma find_first_not_of_char_first:
  "length self < npos \<Longrightarrow> is_first (\<lambda>i. self ! i \<noteq> c) pos (length self) (find_first_not_of_char self c pos)"
  using scan_up_first [of "length self" "\<lambda>i. self ! i \<noteq> c" pos] by (simp add: find_first_not_of_char_def)

lemma find_first_not_of8_first:
  assumes "length self < npos" "bytes self" "bytes s" "s \<noteq> [] \<or> pos = 0"
  shows "is_first (\<lambda>i. self ! i \<notin> set s) pos (length self) (find_first_not_of8 self s pos)"
proof -
  consider "self = []" | "self \<noteq> []" "s = []" | "self \<noteq> []" "length s = 1" | "self \<noteq> []" "s \<noteq> []" "length s \<noteq> 1" by blast
  then show ?thesis
  proof cases
    case 1
    then show ?thesis by (auto simp: find_first_not_of8_def is_first_def)
  next
    case 2
    then show ?thesis using assms(1,4) is_first_here [of "\<lambda>i. self ! i \<notin> set s" 0 "length self"]
      by (simp add: find_first_not_of8_def)
  next
    case 3
    then show ?thesis using is_first_cong [OF _ find_first_not_of_char_first [OF assms(1), of "s ! 0" pos]] singleton_set [OF 3(2)]
      by (simp add: find_first_not_of8_def)
  next
    case 4
    have "is_first (\<lambda>i. self ! i \<notin> set s) pos (length self)
        (scan_up (\<lambda>i. \<not> lookup (BuildLookupTable s (replicate 256 False)) (self ! i)) pos (length self))"
      by (rule is_first_cong [OF _ scan_up_first]) (use assms(1) lookup_at [OF assms(2,3)] in auto)
    then show ?thesis using 4 by (simp add: find_first_not_of8_def Let_def)
  qed
qed

lemma find_first_not_of16_first:
  "length self < npos \<Longrightarrow> is_first (\<lambda>i. self ! i \<notin> set s) pos (length self) (find_first_not_of16 self s pos)"
  using scan_up_first [of "length self" "\<lambda>i. \<not> found_in (self ! i) s" pos] by (simp add: find_first_not_of16_def)

lemma find_last_of8_last:
  assumes "length self < npos" "bytes self" "bytes s"
  shows "is_last (\<lambda>i. self ! i \<in> set s) pos (length self) (find_last_of8 self s pos)"
proof -
  consider "self = [] \<or> s = []" | "self \<noteq> []" "length s = 1" | "self \<noteq> []" "s \<noteq> []" "length s \<noteq> 1" by blast
  then show ?thesis
  proof cases
    case 1
    then show ?thesis by (auto simp: find_last_of8_def is_last_def)
  next
    case 2
    then show ?thesis using is_last_cong [OF _ sp_rfind_char_last [OF assms(1), of "s ! 0" pos]] singleton_set [OF 2(2)]
      by (simp add: find_last_of8_def)
  next
    case 3
    then show ?thesis using is_last_cong [OF lookup_at [OF assms(2,3)] scan_down_clamped] assms(1)
      by (simp add: find_last_of8_def Let_def)
  qed
qed

lemma find_last_of16_last:
  "length self < npos \<Longrightarrow> is_last (\<lambda>i. self ! i \<in> set s) pos (length self) (find_last_of16 self s pos)"
  using scan_down_clamped [of "length self" "\<lambda>i. found_in (self ! i) s" pos] by (simp add: find_last_of16_def)

lemma find_last_not_of_char_last:
  "length self < npos \<Longrightarrow> is_last (\<lambda>i. self ! i \<noteq> c) pos (length self) (find_last_not_of_char self c pos)"
  using scan_down_clamped [of "length self" "\<lambda>i. self ! i \<noteq> c" pos] by (simp add: find_last_not_of_char_def)

lemma find_last_not_of8_last:
  assumes "length self < npos" "bytes self" "bytes s"
  shows "is_last (\<lambda>i. self ! i \<notin> set s) pos (length self) (find_last_not_of8 self s pos)"
proof -
  consider "self = []" | "self \<noteq> []" "s = []" | "self \<noteq> []" "length s = 1" | "self \<noteq> []" "s \<noteq> []" "length s \<noteq> 1" by blast
  then show ?thesis
  proof cases
    case 1
    then show ?thesis by (auto simp: find_last_not_of8_def is_last_def)
  next
    case 2
    then have "min pos (length self - 1) < length self" by (cases self) (auto simp: min_def)
    then show ?thesis using 2 assms(1) is_last_min [OF _ is_last_here [of "\<lambda>i. self ! i \<notin> set s" "min pos (length self - 1)" "length self"]]
      by (simp add: find_last_not_of8_def Let_def)
  next
    case 3
    then show ?thesis using is_last_cong [OF _ find_last_not_of_char_last [OF assms(1), of "s ! 0" pos]] singleton_set [OF 3(2)]
      by (simp add: find_last_not_of8_def Let_def)
  next
    case 4
    have "is_last (\<lambda>i. self ! i \<notin> set s) pos (length self)
        (scan_down (\<lambda>i. \<not> lookup (BuildLookupTable s (replicate 256 False)) (self ! i)) (min pos (length self - 1)))"
      by (rule is_last_cong [OF _ scan_down_clamped]) (use assms(1) 4 lookup_at [OF assms(2,3)] in auto)
    then show ?thesis using 4 by (simp add: find_last_not_of8_def Let_def)
  qed
qed

lemma find_last_not_of16_last:
  "length self < npos \<Longrightarrow> is_last (\<lambda>i. self ! i \<notin> set s) pos (length self) (find_last_not_of16 self s pos)"
  using scan_down_clamped [of "length self" "\<lambda>i. \<not> found_in (self ! i) s" pos] by (simp add: find_last_not_of16_def)

lemma sp_substr_eq: "sp_substr self pos n = take n (drop pos self)"
  by (auto simp: sp_substr_def Let_def)

lemma is_first_unique: "is_first P pos n r \<Longrightarrow> is_first P pos n r' \<Longrightarrow> r = r'"
  unfolding is_first_def by (metis linorder_neqE_nat)

lemma is_last_unique: "is_last P pos n r \<Longrightarrow> is_last P pos n r' \<Longrightarrow> r = r'"
  unfolding is_last_def by (metis linorder_neqE_nat)

lemma traits_compare_0: "length x = length y \<Longrightarrow> traits_compare x y = 0 \<longleftrightarrow> x = y"
  by (induction x y rule: traits_compare.induct) auto

lemma starts_with_iff: "starts_with self x \<longleftrightarrow> (\<exists>ys. self = x @ ys)"
proof
  assume "starts_with self x"
  then have "take (length x) self = x" by (auto simp: starts_with_def traits_compare_0)
  then show "\<exists>ys. self = x @ ys" by (metis append_take_drop_id)
qed (auto simp: starts_with_def traits_compare_0)

lemma ends_with_iff: "ends_with self x \<longleftrightarrow> (\<exists>ys. self = ys @ x)"
proof
  assume "ends_with self x"
  then have "drop (length self - length x) self = x" by (auto simp: ends_with_def traits_compare_0)
  then show "\<exists>ys. self = ys @ x" by (metis append_take_drop_id)
qed (auto simp: ends_with_def traits_compare_0)

section \<open>Properties\<close>

text \<open>
  C24: the searches of \<open>StringPiece\<close>, for strings shorter than \<open>npos\<close>. Those for a substring, for a
  character and for another character than a given one return the first position not before \<open>pos\<close>, or
  the last not after it, that fits, and \<open>npos\<close> when there is none. So do those for a set of characters
  and for its complement: the 16-bit overloads, which compare with every character of the set, on all
  strings, \<open>find_first_of\<close> only when \<open>pos\<close> is not past the end; the 8-bit ones, with their lookup table,
  on strings of bytes, except that \<open>find_first_not_of\<close> of the empty set in a non-empty string is 0
  wherever it starts.
\<close>
theorem string_searches_correct:
  assumes "length self < npos"
  shows "is_first (matches_at self s) pos (length self + 1) (sp_find self s pos)
    \<and> is_last (matches_at self s) pos (length self + 1) (sp_rfind self s pos)
    \<and> is_first (\<lambda>i. self ! i = c) pos (length self) (sp_find_char self c pos)
    \<and> is_last (\<lambda>i. self ! i = c) pos (length self) (sp_rfind_char self c pos)
    \<and> is_first (\<lambda>i. self ! i \<noteq> c) pos (length self) (find_first_not_of_char self c pos)
    \<and> is_last (\<lambda>i. self ! i \<noteq> c) pos (length self) (find_last_not_of_char self c pos)
    \<and> (pos \<le> length self \<longrightarrow> (\<exists>r. find_first_of16 self s pos = Some r \<and> is_first (\<lambda>i. self ! i \<in> set s) pos (length self) r))
    \<and> is_first (\<lambda>i. self ! i \<notin> set s) pos (length self) (find_first_not_of16 self s pos)
    \<and> is_last (\<lambda>i. self ! i \<in> set s) pos (length self) (find_last_of16 self s pos)
    \<and> is_last (\<lambda>i. self ! i \<notin> set s) pos (length self) (find_last_not_of16 self s pos)
    \<and> (bytes self \<longrightarrow> bytes s \<longrightarrow>
         is_first (\<lambda>i. self ! i \<in> set s) pos (length self) (find_first_of8 self s pos)
       \<and> (if s = [] \<and> self \<noteq> [] then find_first_not_of8 self s pos = 0
          else is_first (\<lambda>i. self ! i \<notin> set s) pos (length self) (find_first_not_of8 self s pos))
       \<and> is_last (\<lambda>i. self ! i \<in> set s) pos (length self) (find_last_of8 self s pos)
       \<and> is_last (\<lambda>i. self ! i \<notin> set s) pos (length self) (find_last_not_of8 self s pos))"
proof -
  have empty: "if s = [] \<and> self \<noteq> [] then find_first_not_of8 self s pos = 0
      else is_first (\<lambda>i. self ! i \<notin> set s) pos (length self) (find_first_not_of8 self s pos)" if "bytes self" "bytes s"
  proof (cases "s = []")
    case True
    have "find_first_not_of8 [] s pos = find_first_not_of16 [] s pos" by (simp add: find_first_not_of8_def find_first_not_of16_def)
    then have "self = [] \<Longrightarrow> is_first (\<lambda>i. self ! i \<notin> set s) pos (length self) (find_first_not_of8 self s pos)"
      using find_first_not_of16_first [OF assms, of s pos] by simp
    moreover have "self \<noteq> [] \<Longrightarrow> find_first_not_of8 self s pos = 0" using True by (simp add: find_first_not_of8_def)
    ultimately show ?thesis using True by (metis (full_types))
  next
    case False
    then show ?thesis using find_first_not_of8_first [OF assms that, of pos] by (simp only: if_False simp_thms)
  qed
  note searches = sp_find_first [OF assms, of s pos] sp_rfind_last [OF assms, of s pos] sp_find_char_first [OF assms, of c pos]
    sp_rfind_char_last [OF assms, of c pos] find_first_not_of_char_first [OF assms, of c pos] find_last_not_of_char_last [OF assms, of c pos]
    find_first_of16_first [OF assms, of pos s] find_first_not_of16_first [OF assms, of s pos] find_last_of16_last [OF assms, of s pos]
    find_last_not_of16_last [OF assms, of s pos]
  note tables = find_first_of8_first [OF assms, of s pos] empty find_last_of8_last [OF assms, of s pos] find_last_not_of8_last [OF assms, of s pos]
  show ?thesis by (intro conjI impI) (fact searches | erule (1) tables)+
qed

theorem string_searches_correct_witness:
  "is_last (matches_at [97, 98, 97, 98, 97] [97, 98 :: int]) 4 (length [97, 98, 97, 98, 97 :: int] + 1) (sp_rfind [97, 98, 97, 98, 97] [97, 98] 4)
    \<and> is_first (\<lambda>i. [97, 98, 97, 98, 97] ! i \<in> set [97, 98 :: int]) 4 (length [97, 98, 97, 98, 97 :: int]) (find_first_of8 [97, 98, 97, 98, 97] [97, 98] 4)"
proof -
  have "length [97, 98, 97, 98, 97 :: int] < npos" "bytes [97, 98, 97, 98, 97]" "bytes [97, 98]" by (simp_all add: npos_def)
  then show ?thesis using string_searches_correct [of "[97, 98, 97, 98, 97]" "[97, 98]" 4 0] by blast
qed

text \<open>
  Where the two widths of the same search differ. With an empty set of characters every
  character fits, but the 8-bit \<open>find_first_not_of\<close> answers 0 whatever the start, even a position
  before it, while the 16-bit one starts at \<open>pos\<close>. Past the end of the string the 8-bit
  \<open>find_first_of\<close> answers \<open>npos\<close> and the 16-bit one runs off the buffer.
\<close>
theorem string_searches_differ_by_width:
  assumes "self \<noteq> []" "length self < npos" "bytes self" "bytes s"
  shows "find_first_not_of8 self [] pos = 0
    \<and> find_first_not_of16 self [] pos = (if pos < length self then pos else npos)
    \<and> (length self < pos \<longrightarrow> find_first_of16 self s pos = None \<and> find_first_of8 self s pos = npos)"
proof -
  have "find_first_not_of16 self [] pos = (if pos < length self then pos else npos)"
    using assms(1) by (simp add: find_first_not_of16_def scan_up.simps [of _ pos])
  moreover have "find_first_of8 self s pos = npos" if "length self < pos"
    using find_first_of8_first [OF assms(2,3,4), of pos] that by (auto simp: is_first_def split: if_splits)
  ultimately show ?thesis using assms(1) by (simp add: find_first_not_of8_def find_first_of16_def)
qed

theorem string_searches_differ_by_width_witness:
  "find_first_not_of8 [97, 98] [] 1 = 0 \<and> find_first_not_of16 [97, 98] [] 1 = 1 \<and> find_first_of16 [97, 98] [97] 3 = None"
proof -
  have "length [97, 98 :: int] < npos" "bytes [97, 98]" "bytes [97]" by (simp_all add: npos_def)
  then show ?thesis using string_searches_differ_by_width [of "[97, 98]" "[97]" 1] string_searches_differ_by_width [of "[97, 98]" "[97]" 3]
    by simp
qed

end
