(* ===== verification/String_Util.thy ===== *)
theory String_Util
  imports String_Piece "HOL-Library.Monad_Syntax"
begin

text \<open>
  The string utilities of \<open>base/strings/string_util.cc\<close> that trim, collapse, compare, join, format and
  copy strings, and \<open>base/strings/string_split.cc\<close>. The templates are instantiated at 8-bit and
  16-bit characters; \<open>w\<close> is the size of a character in bytes and picks the overload of the
  searches. Arithmetic on \<open>size_t\<close> wraps at 64 bits. \<open>None\<close> is a failed check, an access outside a
  buffer, a signed overflow, an exception or, for the loops that may not end, not returning.
\<close>

unbundle bit_operations_syntax

definition size_add :: "nat \<Rightarrow> nat \<Rightarrow> nat" where "size_add a b = (a + b) mod (npos + 1)"
definition size_sub :: "nat \<Rightarrow> nat \<Rightarrow> nat" where "size_sub a b = (a + (npos + 1) - b) mod (npos + 1)"

text \<open>\<open>std::string::substr\<close>, which throws on a position past the end.\<close>

definition str_substr :: "'a list \<Rightarrow> nat \<Rightarrow> nat \<Rightarrow> 'a list option" where
  "str_substr s pos n = (if pos > length s then None else Some (take n (drop pos s)))"

section \<open>Case\<close>

definition ToLowerASCII :: "int \<Rightarrow> int" where
  "ToLowerASCII c = (if c \<ge> 65 \<and> c \<le> 90 then c + (97 - 65) else c)"

definition ToUpperASCII :: "int \<Rightarrow> int" where
  "ToUpperASCII c = (if c \<ge> 97 \<and> c \<le> 122 then c + (65 - 97) else c)"

definition ToLowerASCIIImpl :: "int list \<Rightarrow> int list" where
  "ToLowerASCIIImpl str = foldl (\<lambda>ret c. ret @ [ToLowerASCII c]) [] str"

definition ToUpperASCIIImpl :: "int list \<Rightarrow> int list" where
  "ToUpperASCIIImpl str = foldl (\<lambda>ret c. ret @ [ToUpperASCII c]) [] str"

function CompareCaseInsensitiveASCIIT :: "int list \<Rightarrow> int list \<Rightarrow> nat \<Rightarrow> int" where
  "CompareCaseInsensitiveASCIIT a b i =
     (if i < length a \<and> i < length b then
        let lower_a = ToLowerASCII (a ! i); lower_b = ToLowerASCII (b ! i) in
        if lower_a < lower_b then - 1 else if lower_a > lower_b then 1
        else CompareCaseInsensitiveASCIIT a b (i + 1)
      else if length a = length b then 0
      else if length a < length b then - 1 else 1)"
  by auto
termination
  by (relation "measure (\<lambda>(a, b, i). length a - i)") auto

declare CompareCaseInsensitiveASCIIT.simps [simp del]

definition EqualsCaseInsensitiveASCII :: "int list \<Rightarrow> int list \<Rightarrow> bool" where
  "EqualsCaseInsensitiveASCII a b \<longleftrightarrow>
     (if length a \<noteq> length b then False else CompareCaseInsensitiveASCIIT a b 0 = 0)"

definition CaseInsensitiveCompareASCII :: "int \<Rightarrow> int \<Rightarrow> bool" where
  "CaseInsensitiveCompareASCII x y \<longleftrightarrow> ToLowerASCII x = ToLowerASCII y"

definition DoLowerCaseEqualsASCII :: "int list \<Rightarrow> int list \<Rightarrow> bool" where
  "DoLowerCaseEqualsASCII str lowercase_ascii \<longleftrightarrow>
     (if length str \<noteq> length lowercase_ascii then False
      else list_all2 (\<lambda>x y. ToLowerASCII x = y) str lowercase_ascii)"

definition EqualsASCII :: "int list \<Rightarrow> int list \<Rightarrow> bool" where
  "EqualsASCII str ascii \<longleftrightarrow>
     (if length str \<noteq> length ascii then False else list_all2 (\<lambda>x y. x = y) ascii str)"

datatype CompareCase = SENSITIVE | INSENSITIVE_ASCII

definition StartsWithT :: "int list \<Rightarrow> int list \<Rightarrow> CompareCase \<Rightarrow> bool" where
  "StartsWithT str search_for case_sensitivity \<longleftrightarrow>
     (if length search_for > length str then False
      else let source = sp_substr str 0 (length search_for) in
        case case_sensitivity of
          SENSITIVE \<Rightarrow> sp_equal source search_for
        | INSENSITIVE_ASCII \<Rightarrow> list_all2 CaseInsensitiveCompareASCII search_for source)"

definition EndsWithT :: "int list \<Rightarrow> int list \<Rightarrow> CompareCase \<Rightarrow> bool" where
  "EndsWithT str search_for case_sensitivity \<longleftrightarrow>
     (if length search_for > length str then False
      else let source = sp_substr str (length str - length search_for) (length search_for) in
        case case_sensitivity of
          SENSITIVE \<Rightarrow> sp_equal source search_for
        | INSENSITIVE_ASCII \<Rightarrow> list_all2 CaseInsensitiveCompareASCII source search_for)"

section \<open>Trimming\<close>

definition TRIM_NONE :: nat where "TRIM_NONE = 0"
definition TRIM_LEADING :: nat where "TRIM_LEADING = push_bit 0 1"
definition TRIM_TRAILING :: nat where "TRIM_TRAILING = push_bit 1 1"
definition TRIM_ALL :: nat where "TRIM_ALL = TRIM_LEADING OR TRIM_TRAILING"

definition find_first_not_of :: "nat \<Rightarrow> int list \<Rightarrow> int list \<Rightarrow> nat \<Rightarrow> nat" where
  "find_first_not_of w self s pos = (if w = 1 then find_first_not_of8 self s pos else find_first_not_of16 self s pos)"

definition find_last_not_of :: "nat \<Rightarrow> int list \<Rightarrow> int list \<Rightarrow> nat \<Rightarrow> nat" where
  "find_last_not_of w self s pos = (if w = 1 then find_last_not_of8 self s pos else find_last_not_of16 self s pos)"

text \<open>Returns the trimmed positions and the output.\<close>

definition TrimStringT :: "nat \<Rightarrow> int list \<Rightarrow> int list \<Rightarrow> nat \<Rightarrow> (nat \<times> int list) option" where
  "TrimStringT w input trim_chars positions =
     (let last_char = size_sub (length input) 1;
          first_good_char = (if positions AND TRIM_LEADING \<noteq> 0 then find_first_not_of w input trim_chars 0 else 0);
          last_good_char = (if positions AND TRIM_TRAILING \<noteq> 0 then find_last_not_of w input trim_chars npos else last_char)
      in if input = [] \<or> first_good_char = npos \<or> last_good_char = npos
         then Some (if input = [] then TRIM_NONE else positions, [])
         else do {
           out \<leftarrow> str_substr input first_good_char (size_add (size_sub last_good_char first_good_char) 1);
           Some ((if first_good_char = 0 then TRIM_NONE else TRIM_LEADING) OR
                 (if last_good_char = last_char then TRIM_NONE else TRIM_TRAILING), out)
         })"

definition TrimString :: "nat \<Rightarrow> int list \<Rightarrow> int list \<Rightarrow> (bool \<times> int list) option" where
  "TrimString w input trim_chars = do {
     (trimmed, out) \<leftarrow> TrimStringT w input trim_chars TRIM_ALL;
     Some (trimmed \<noteq> TRIM_NONE, out)
   }"

definition TrimStringPieceT :: "nat \<Rightarrow> int list \<Rightarrow> int list \<Rightarrow> nat \<Rightarrow> int list" where
  "TrimStringPieceT w input trim_chars positions =
     (let begin_pos = (if positions AND TRIM_LEADING \<noteq> 0 then find_first_not_of w input trim_chars 0 else 0);
          end_pos = (if positions AND TRIM_TRAILING \<noteq> 0 then size_add (find_last_not_of w input trim_chars npos) 1
                     else length input)
      in sp_substr input begin_pos (size_sub end_pos begin_pos))"

text \<open>The null-terminated tables, without the terminator.\<close>

definition kWhitespaceWide :: "int list" where
  "kWhitespaceWide = [0x0009, 0x000A, 0x000B, 0x000C, 0x000D, 0x0020, 0x0085, 0x00A0, 0x1680, 0x2000,
     0x2001, 0x2002, 0x2003, 0x2004, 0x2005, 0x2006, 0x2007, 0x2008, 0x2009, 0x200A, 0x2028, 0x2029,
     0x202F, 0x205F, 0x3000]"

definition kWhitespaceASCII :: "int list" where
  "kWhitespaceASCII = [0x09, 0x0A, 0x0B, 0x0C, 0x0D, 0x20]"

definition WhitespaceForType :: "nat \<Rightarrow> int list" where
  "WhitespaceForType w = (if w = 1 then kWhitespaceASCII else kWhitespaceWide)"

definition TrimWhitespace :: "nat \<Rightarrow> int list \<Rightarrow> nat \<Rightarrow> (nat \<times> int list) option" where
  "TrimWhitespace w input positions = TrimStringT w input (WhitespaceForType w) positions"

definition TrimWhitespacePiece :: "nat \<Rightarrow> int list \<Rightarrow> nat \<Rightarrow> int list" where
  "TrimWhitespacePiece w input positions = TrimStringPieceT w input (WhitespaceForType w) positions"

definition ContainsOnlyChars :: "nat \<Rightarrow> int list \<Rightarrow> int list \<Rightarrow> bool" where
  "ContainsOnlyChars w input characters \<longleftrightarrow> find_first_not_of w input characters 0 = npos"

section \<open>Collapsing whitespace\<close>

definition IsUnicodeWhitespace :: "int \<Rightarrow> bool" where
  "IsUnicodeWhitespace c \<longleftrightarrow> found_in c kWhitespaceWide"

text \<open>\<open>result[chars_written++] = c\<close>, with \<open>chars_written\<close> a 32-bit \<open>int\<close>.\<close>

definition cw_put :: "int list \<Rightarrow> int \<Rightarrow> int \<Rightarrow> (int list \<times> int) option" where
  "cw_put result chars_written c =
     (if 0 \<le> chars_written \<and> nat chars_written < length result \<and> chars_written < 2 ^ 31 - 1
      then Some (result[nat chars_written := c], chars_written + 1) else None)"

fun cw_loop :: "bool \<Rightarrow> int list \<Rightarrow> int list \<Rightarrow> int \<Rightarrow> bool \<Rightarrow> bool \<Rightarrow> (int list \<times> int \<times> bool \<times> bool) option" where
  "cw_loop trim_sequences_with_line_breaks [] result chars_written in_whitespace already_trimmed =
     Some (result, chars_written, in_whitespace, already_trimmed)"
| "cw_loop trim_sequences_with_line_breaks (c # text) result chars_written in_whitespace already_trimmed =
     (if IsUnicodeWhitespace c then do {
        (result, chars_written) \<leftarrow>
          (if \<not> in_whitespace then cw_put result chars_written 32 else Some (result, chars_written));
        let trim_now = trim_sequences_with_line_breaks \<and> \<not> already_trimmed \<and> (c = 10 \<or> c = 13);
        cw_loop trim_sequences_with_line_breaks text result
          (if trim_now then chars_written - 1 else chars_written) True (trim_now \<or> already_trimmed)
      } else do {
        (result, chars_written) \<leftarrow> cw_put result chars_written c;
        cw_loop trim_sequences_with_line_breaks text result chars_written False False
      })"

definition CollapseWhitespaceT :: "int list \<Rightarrow> bool \<Rightarrow> int list option" where
  "CollapseWhitespaceT text trim_sequences_with_line_breaks = do {
     (result, chars_written, in_whitespace, already_trimmed) \<leftarrow>
       cw_loop trim_sequences_with_line_breaks text (replicate (length text) 0) 0 True True;
     let chars_written = (if in_whitespace \<and> \<not> already_trimmed then chars_written - 1 else chars_written);
     if 0 \<le> chars_written \<and> nat chars_written \<le> length result then Some (take (nat chars_written) result) else None
   }"

section \<open>Joining and splitting\<close>

text \<open>
  The reserved size has no effect on the result, and the check at the end that it is the size of the
  result cannot fail while that fits in a \<open>size_t\<close> (lemma \<open>Join_size\<close>); both are left out.
\<close>

fun JoinStringT :: "int list list \<Rightarrow> int list \<Rightarrow> int list" where
  "JoinStringT [] sep = []"
| "JoinStringT (part # parts) sep = foldl (\<lambda>result p. result @ sep @ p) part parts"

datatype WhitespaceHandling = KEEP_WHITESPACE | TRIM_WHITESPACE
datatype SplitResult = SPLIT_WANT_ALL | SPLIT_WANT_NONEMPTY

definition FindFirstOf_char :: "int list \<Rightarrow> int \<Rightarrow> nat \<Rightarrow> nat option" where
  "FindFirstOf_char piece c pos = Some (sp_find_char piece c pos)"

definition FindFirstOf_set :: "nat \<Rightarrow> int list \<Rightarrow> int list \<Rightarrow> nat \<Rightarrow> nat option" where
  "FindFirstOf_set w piece one_of pos =
     (if w = 1 then Some (find_first_of8 piece one_of pos) else find_first_of16 piece one_of pos)"

definition split_keep :: "nat \<Rightarrow> WhitespaceHandling \<Rightarrow> SplitResult \<Rightarrow> int list \<Rightarrow> int list list \<Rightarrow> int list list" where
  "split_keep w whitespace result_type piece result =
     (let piece = (if whitespace = TRIM_WHITESPACE then TrimStringPieceT w piece (WhitespaceForType w) TRIM_ALL else piece)
      in if result_type = SPLIT_WANT_ALL \<or> piece \<noteq> [] then result @ [piece] else result)"

text \<open>The loop of \<open>SplitStringT\<close> over the search for its delimiter, a character or a set.\<close>

partial_function (option) split_loop ::
    "nat \<Rightarrow> int list \<Rightarrow> (nat \<Rightarrow> nat option) \<Rightarrow> WhitespaceHandling \<Rightarrow> SplitResult \<Rightarrow> nat \<Rightarrow> int list list \<Rightarrow> int list list option" where
  "split_loop w str FindFirstOf whitespace result_type start result =
     (if start = npos then Some result
      else do {
        end_pos \<leftarrow> FindFirstOf start;
        if end_pos = npos
        then split_loop w str FindFirstOf whitespace result_type npos
               (split_keep w whitespace result_type (sp_substr str start npos) result)
        else split_loop w str FindFirstOf whitespace result_type (end_pos + 1)
               (split_keep w whitespace result_type (sp_substr str start (end_pos - start)) result)
      })"

definition SplitStringT :: "nat \<Rightarrow> int list \<Rightarrow> (nat \<Rightarrow> nat option) \<Rightarrow> WhitespaceHandling \<Rightarrow> SplitResult \<Rightarrow> int list list option" where
  "SplitStringT w str FindFirstOf whitespace result_type =
     (if str = [] then Some [] else split_loop w str FindFirstOf whitespace result_type 0 [])"

definition SplitString :: "nat \<Rightarrow> int list \<Rightarrow> int list \<Rightarrow> WhitespaceHandling \<Rightarrow> SplitResult \<Rightarrow> int list list option" where
  "SplitString w input separators whitespace result_type =
     (if length separators = 1 then SplitStringT w input (FindFirstOf_char input (separators ! 0)) whitespace result_type
      else SplitStringT w input (FindFirstOf_set w input separators) whitespace result_type)"

partial_function (option) substr_loop ::
    "nat \<Rightarrow> int list \<Rightarrow> int list \<Rightarrow> WhitespaceHandling \<Rightarrow> SplitResult \<Rightarrow> nat \<Rightarrow> int list list \<Rightarrow> int list list option" where
  "substr_loop w input delimiter whitespace result_type begin_index result =
     (let end_index = sp_find input delimiter begin_index;
          piece = (if end_index = npos then sp_substr input begin_index npos
                  else sp_substr input begin_index (end_index - begin_index));
          result = split_keep w whitespace result_type piece result
      in if end_index = npos then Some result
         else substr_loop w input delimiter whitespace result_type (size_add end_index (length delimiter)) result)"

definition SplitStringUsingSubstr :: "nat \<Rightarrow> int list \<Rightarrow> int list \<Rightarrow> WhitespaceHandling \<Rightarrow> SplitResult \<Rightarrow> int list list option" where
  "SplitStringUsingSubstr w input delimiter whitespace result_type =
     substr_loop w input delimiter whitespace result_type 0 []"

text \<open>The pair that was appended, and whether it has a key and a value.\<close>

definition AppendStringKeyValue ::
    "int list \<Rightarrow> int \<Rightarrow> (int list \<times> int list) list \<Rightarrow> bool \<times> (int list \<times> int list) list" where
  "AppendStringKeyValue input delimiter result =
     (let end_key_pos = sp_find_char input delimiter 0 in
      if end_key_pos = npos then (False, result @ [([], [])])
      else let key = sp_substr input 0 end_key_pos;
               remains = sp_substr input end_key_pos (length input - end_key_pos);
               begin_value_pos = find_first_not_of_char remains delimiter 0 in
        if begin_value_pos = npos then (False, result @ [(key, [])])
        else (True, result @ [(key, sp_substr remains begin_value_pos (length remains - begin_value_pos))]))"

definition SplitStringIntoKeyValuePairs :: "int list \<Rightarrow> int \<Rightarrow> int \<Rightarrow> (bool \<times> (int list \<times> int list) list) option" where
  "SplitStringIntoKeyValuePairs input key_value_delimiter key_value_pair_delimiter = do {
     pairs \<leftarrow> SplitString 1 input [key_value_pair_delimiter] TRIM_WHITESPACE SPLIT_WANT_NONEMPTY;
     Some (foldl (\<lambda>(success, kvs) pair.
             let (ok, kvs) = AppendStringKeyValue pair key_value_delimiter kvs in (success \<and> ok, kvs))
           (True, []) pairs)
   }"

section \<open>Comparison\<close>

lemma ToLowerASCIIImpl_map [simp]: "ToLowerASCIIImpl str = map ToLowerASCII str"
proof -
  have "foldl (\<lambda>ret c. ret @ [ToLowerASCII c]) acc str = acc @ map ToLowerASCII str" for acc
    by (induction str arbitrary: acc) auto
  then show ?thesis by (simp add: ToLowerASCIIImpl_def)
qed

lemma ToUpperASCIIImpl_map [simp]: "ToUpperASCIIImpl str = map ToUpperASCII str"
proof -
  have "foldl (\<lambda>ret c. ret @ [ToUpperASCII c]) acc str = acc @ map ToUpperASCII str" for acc
    by (induction str arbitrary: acc) auto
  then show ?thesis by (simp add: ToUpperASCIIImpl_def)
qed

lemma sp_compare_simps:
  "sp_compare [] [] = 0" "sp_compare (x # xs) [] = 1" "sp_compare [] (y # ys) = - 1"
  "sp_compare (x # xs) (y # ys) = (if x < y then - 1 else if x > y then 1 else sp_compare xs ys)"
  by (simp_all add: sp_compare_def Let_def)

lemma sp_compare_swap: "sp_compare ys xs = - sp_compare xs ys"
proof (induction xs arbitrary: ys)
  case Nil
  then show ?case by (cases ys) (simp_all add: sp_compare_simps)
next
  case (Cons x xs)
  then show ?case by (cases ys) (simp_all add: sp_compare_simps)
qed

lemma sp_compare_0: "sp_compare xs ys = 0 \<longleftrightarrow> xs = ys"
proof (induction xs arbitrary: ys)
  case Nil
  then show ?case by (cases ys) (simp_all add: sp_compare_simps)
next
  case (Cons x xs)
  then show ?case by (cases ys) (auto simp: sp_compare_simps)
qed

lemma sp_compare_less: "sp_compare xs ys = - 1 \<longleftrightarrow> ord_class.lexordp xs ys"
proof (induction xs arbitrary: ys)
  case Nil
  then show ?case by (cases ys) (simp_all add: sp_compare_simps)
next
  case (Cons x xs)
  then show ?case by (cases ys) (auto simp: sp_compare_simps)
qed

lemma CompareCaseInsensitive_drop:
  "CompareCaseInsensitiveASCIIT a b i = sp_compare (map ToLowerASCII (drop i a)) (map ToLowerASCII (drop i b))"
  if "i \<le> length a" "i \<le> length b"
  using that
proof (induction a b i rule: CompareCaseInsensitiveASCIIT.induct)
  case (1 a b i)
  note step = CompareCaseInsensitiveASCIIT.simps [of a b i]
  show ?case
  proof (cases "i < length a \<and> i < length b")
    case True
    then have "drop i a = a ! i # drop (i + 1) a" "drop i b = b ! i # drop (i + 1) b"
      by (simp_all add: Cons_nth_drop_Suc)
    then show ?thesis unfolding step using True 1(1) [OF True refl refl]
      by (simp add: sp_compare_simps Let_def)
  next
    case False
    then have "drop i a = [] \<or> drop i b = []" by auto
    then show ?thesis unfolding step using False 1(2,3)
      by (cases "drop i a"; cases "drop i b") (auto simp: sp_compare_simps)
  qed
qed

lemma list_all2_eq: "list_all2 (\<lambda>x y. f x = g y) xs ys \<longleftrightarrow> map f xs = map g ys"
  by (induction xs arbitrary: ys) (auto simp: list_all2_Cons1 map_eq_Cons_conv Cons_eq_map_conv)

lemma CaseInsensitive_all2: "list_all2 CaseInsensitiveCompareASCII xs ys \<longleftrightarrow> map ToLowerASCII xs = map ToLowerASCII ys"
  using list_all2_eq [of ToLowerASCII ToLowerASCII xs ys] by (simp add: CaseInsensitiveCompareASCII_def [abs_def])

text \<open>
  the case-insensitive comparisons are the plain ones of the lower-cased strings:
  \<open>CompareCaseInsensitiveASCII\<close> is the three-way lexicographic comparison, negative exactly when
  the first comes before the second in the lexicographic order, and \<open>EqualsCaseInsensitiveASCII\<close>,
  \<open>LowerCaseEqualsASCII\<close>, \<open>StartsWith\<close> and \<open>EndsWith\<close> compare equal exactly when the lower-cased
  strings, their prefixes or their suffixes do.
\<close>
theorem case_insensitive_comparisons:
  "CompareCaseInsensitiveASCIIT a b 0 = sp_compare (ToLowerASCIIImpl a) (ToLowerASCIIImpl b)
    \<and> (CompareCaseInsensitiveASCIIT a b 0 = - 1 \<longleftrightarrow> ord_class.lexordp (ToLowerASCIIImpl a) (ToLowerASCIIImpl b))
    \<and> CompareCaseInsensitiveASCIIT b a 0 = - CompareCaseInsensitiveASCIIT a b 0
    \<and> (EqualsCaseInsensitiveASCII a b \<longleftrightarrow> ToLowerASCIIImpl a = ToLowerASCIIImpl b)
    \<and> (DoLowerCaseEqualsASCII a b \<longleftrightarrow> ToLowerASCIIImpl a = b)
    \<and> (StartsWithT a b INSENSITIVE_ASCII \<longleftrightarrow> starts_with (ToLowerASCIIImpl a) (ToLowerASCIIImpl b))
    \<and> (EndsWithT a b INSENSITIVE_ASCII \<longleftrightarrow> ends_with (ToLowerASCIIImpl a) (ToLowerASCIIImpl b))
    \<and> (StartsWithT a b SENSITIVE \<longleftrightarrow> starts_with a b) \<and> (EndsWithT a b SENSITIVE \<longleftrightarrow> ends_with a b)"
proof -
  have cmp: "CompareCaseInsensitiveASCIIT a b 0 = sp_compare (map ToLowerASCII a) (map ToLowerASCII b)" for a b
    using CompareCaseInsensitive_drop [of 0 a b] by simp
  have "length a = length b" if "map ToLowerASCII a = map ToLowerASCII b" using that map_eq_imp_length_eq by blast
  then have "EqualsCaseInsensitiveASCII a b \<longleftrightarrow> map ToLowerASCII a = map ToLowerASCII b"
    by (auto simp: EqualsCaseInsensitiveASCII_def cmp sp_compare_0)
  moreover have "DoLowerCaseEqualsASCII a b \<longleftrightarrow> map ToLowerASCII a = b"
    using list_all2_eq [of ToLowerASCII "\<lambda>y. y" a b] by (auto simp: DoLowerCaseEqualsASCII_def)
  moreover have "StartsWithT a b INSENSITIVE_ASCII \<longleftrightarrow> starts_with (map ToLowerASCII a) (map ToLowerASCII b)"
    by (auto simp: StartsWithT_def Let_def sp_substr_eq CaseInsensitive_all2 starts_with_def traits_compare_0 take_map)
  moreover have "EndsWithT a b INSENSITIVE_ASCII \<longleftrightarrow> ends_with (map ToLowerASCII a) (map ToLowerASCII b)"
    by (auto simp: EndsWithT_def Let_def sp_substr_eq CaseInsensitive_all2 ends_with_def traits_compare_0 drop_map)
  moreover have "StartsWithT a b SENSITIVE \<longleftrightarrow> starts_with a b" "EndsWithT a b SENSITIVE \<longleftrightarrow> ends_with a b"
    by (auto simp: StartsWithT_def EndsWithT_def Let_def sp_substr_eq sp_equal_def starts_with_def ends_with_def traits_compare_0)
  ultimately show ?thesis by (simp add: cmp sp_compare_less sp_compare_swap [of "map ToLowerASCII b"])
qed

section \<open>Trimming removes exactly the characters at the ends\<close>

definition trimmed :: "nat \<Rightarrow> int list \<Rightarrow> int list \<Rightarrow> int list" where
  "trimmed positions cs input =
     (let s = (if positions \<in> {TRIM_LEADING, TRIM_ALL} then dropWhile (\<lambda>c. c \<in> set cs) input else input)
      in if positions \<in> {TRIM_TRAILING, TRIM_ALL} then rev (dropWhile (\<lambda>c. c \<in> set cs) (rev s)) else s)"

lemma dropWhile_first:
  assumes "is_first (\<lambda>i. \<not> P (xs ! i)) 0 (length xs) r"
  shows "dropWhile P xs = (if r = npos then [] else drop r xs)"
proof (cases "r = npos")
  case True
  then show ?thesis using assms by (auto simp: is_first_def all_set_conv_all_nth)
next
  case False
  then have r: "r < length xs" "\<not> P (xs ! r)" "\<And>i. i < r \<Longrightarrow> P (xs ! i)" using assms by (auto simp: is_first_def)
  then have "takeWhile P xs = take r xs" by (intro takeWhile_eq_take_P_nth) auto
  then show ?thesis using False r(1) by (simp add: dropWhile_eq_drop)
qed

lemma is_first_rev:
  assumes "is_last (\<lambda>i. P (xs ! i)) pos (length xs) r" "length xs \<le> Suc pos" "length xs < npos"
  shows "is_first (\<lambda>i. P (rev xs ! i)) 0 (length xs) (if r = npos then npos else length xs - Suc r)"
proof (cases "r = npos")
  case True
  then show ?thesis using assms by (auto simp: is_first_def is_last_def rev_nth)
next
  case False
  then have *: "r < length xs" "P (xs ! r)" "\<And>i. r < i \<Longrightarrow> i < length xs \<Longrightarrow> \<not> P (xs ! i)"
    using assms by (auto simp: is_last_def)
  then have "length xs - Suc r \<noteq> npos" using assms(3) by simp
  moreover have "\<not> P (rev xs ! i)" if "i < length xs - Suc r" for i
    using that * by (auto simp: rev_nth)
  ultimately show ?thesis using False * by (auto simp: is_first_def rev_nth)
qed

lemma dropWhile_last:
  assumes "is_last (\<lambda>i. \<not> P (xs ! i)) pos (length xs) r" "length xs \<le> Suc pos" "length xs < npos"
  shows "rev (dropWhile P (rev xs)) = (if r = npos then [] else take (Suc r) xs)"
proof -
  have "r < length xs" if "r \<noteq> npos" using that assms(1) by (simp add: is_last_def)
  moreover have "length xs - Suc r \<noteq> npos" using assms(3) by simp
  ultimately show ?thesis using dropWhile_first [of P "rev xs"] is_first_rev [OF assms] by (auto simp: rev_drop)
qed

lemma find_first_not_of_first:
  assumes "length input < npos" "w = 1 \<longrightarrow> bytes input \<and> bytes cs"
  shows "is_first (\<lambda>i. input ! i \<notin> set cs) 0 (length input) (find_first_not_of w input cs 0)"
  using assms find_first_not_of8_first [of input cs 0] find_first_not_of16_first [of input cs 0]
  by (simp add: find_first_not_of_def)

lemma find_last_not_of_last:
  assumes "length input < npos" "w = 1 \<longrightarrow> bytes input \<and> bytes cs"
  shows "is_last (\<lambda>i. input ! i \<notin> set cs) npos (length input) (find_last_not_of w input cs npos)"
  using assms find_last_not_of8_last [of input cs npos] find_last_not_of16_last [of input cs npos]
  by (simp add: find_last_not_of_def)

lemma trim_bits [simp]:
  "0 AND TRIM_LEADING = 0" "0 AND TRIM_TRAILING = 0" "TRIM_LEADING AND TRIM_LEADING = TRIM_LEADING"
  "TRIM_TRAILING AND TRIM_TRAILING = TRIM_TRAILING" "TRIM_LEADING AND TRIM_TRAILING = 0" "TRIM_TRAILING AND TRIM_LEADING = 0"
  "TRIM_ALL AND TRIM_LEADING = TRIM_LEADING" "TRIM_ALL AND TRIM_TRAILING = TRIM_TRAILING"
  "TRIM_NONE AND TRIM_LEADING = 0" "TRIM_NONE AND TRIM_TRAILING = 0"
  "0 < TRIM_LEADING" "0 < TRIM_TRAILING" "TRIM_NONE = 0" "TRIM_ALL = 3"
  by (simp_all add: TRIM_NONE_def TRIM_LEADING_def TRIM_TRAILING_def TRIM_ALL_def)

lemma size_sub_le [simp]: "b \<le> a \<Longrightarrow> a \<le> npos \<Longrightarrow> size_sub a b = a - b"
proof -
  assume "b \<le> a" "a \<le> npos"
  then have "a + (npos + 1) - b = (a - b) + (npos + 1)" "a - b < npos + 1" by auto
  then show ?thesis unfolding size_sub_def by (metis mod_add_self2 mod_less)
qed

lemma size_add_le [simp]: "a + b \<le> npos \<Longrightarrow> size_add a b = a + b"
  by (simp add: size_add_def)

lemma size_add_npos [simp]: "size_add npos (Suc 0) = 0"
  by (simp add: size_add_def)

lemma rev_dropWhile_drop:
  assumes "x \<in> set (drop f xs)" "\<not> P x"
  shows "rev (dropWhile P (rev (drop f xs))) = drop f (rev (dropWhile P (rev xs)))"
proof -
  have "rev xs = rev (drop f xs) @ rev (take f xs)" by (metis append_take_drop_id rev_append)
  then have "rev (dropWhile P (rev xs)) = take f xs @ rev (dropWhile P (rev (drop f xs)))"
    using dropWhile_append1 [of x "rev (drop f xs)" P "rev (take f xs)"] assms by simp
  moreover have "f \<le> length xs" using assms(1) by (cases "f \<le> length xs") auto
  ultimately show ?thesis by simp
qed

text \<open>The two positions a trim looks for, and what they say about the reference.\<close>

lemma trim_positions:
  assumes "length input < npos" "w = 1 \<longrightarrow> bytes input \<and> bytes cs"
  defines "f \<equiv> find_first_not_of w input cs 0" and "l \<equiv> find_last_not_of w input cs npos"
    and "P \<equiv> \<lambda>c. c \<in> set cs"
  shows "dropWhile P input = (if f = npos then [] else drop f input)" (is ?first)
    and "rev (dropWhile P (rev input)) = (if l = npos then [] else take (Suc l) input)" (is ?last)
    and "f = npos \<longleftrightarrow> l = npos" "f \<noteq> npos \<Longrightarrow> f \<le> l \<and> l < length input"
    and "f \<noteq> npos \<Longrightarrow> rev (dropWhile P (rev (drop f input))) = take (Suc l - f) (drop f input)"
    and "input \<noteq> [] \<Longrightarrow> f \<noteq> npos \<Longrightarrow> f = 0 \<longleftrightarrow> hd input \<notin> set cs"
    and "input \<noteq> [] \<Longrightarrow> l \<noteq> npos \<Longrightarrow> l = length input - 1 \<longleftrightarrow> last input \<notin> set cs"
proof -
  have f: "is_first (\<lambda>i. input ! i \<notin> set cs) 0 (length input) f" unfolding f_def by (rule find_first_not_of_first [OF assms(1,2)])
  have l: "is_last (\<lambda>i. input ! i \<notin> set cs) npos (length input) l" unfolding l_def by (rule find_last_not_of_last [OF assms(1,2)])
  show ?first using dropWhile_first [of P input f] f by (simp add: P_def)
  show lt: ?last using dropWhile_last [of P input npos l] l assms(1) by (simp add: P_def)
  have f': "f < length input" "input ! f \<notin> set cs" "\<And>i. i < f \<Longrightarrow> input ! i \<in> set cs" if "f \<noteq> npos"
    using f that by (auto simp: is_first_def)
  have l': "l < length input" "input ! l \<notin> set cs" "\<And>i. l < i \<Longrightarrow> i < length input \<Longrightarrow> input ! i \<in> set cs" if "l \<noteq> npos"
    using l that assms(1) by (auto simp: is_last_def)
  have none: "input ! i \<in> set cs" if "f = npos \<or> l = npos" "i < length input" for i
    using f l that assms(1) by (auto simp: is_first_def is_last_def)
  show eq: "f = npos \<longleftrightarrow> l = npos" using none f' l' by blast
  show le: "f \<le> l \<and> l < length input" if "f \<noteq> npos"
    using l'(1) l'(3) [of f] f'(1,2) that eq by (cases "f \<le> l") auto
  show "rev (dropWhile P (rev (drop f input))) = take (Suc l - f) (drop f input)" if "f \<noteq> npos"
  proof -
    have "input ! f \<in> set (drop f input)" using f'(1) [OF that] by (simp add: Cons_nth_drop_Suc [symmetric])
    then have "rev (dropWhile P (rev (drop f input))) = drop f (rev (dropWhile P (rev input)))"
      using f'(2) [OF that] by (intro rev_dropWhile_drop) (auto simp: P_def)
    then show ?thesis using lt eq that by (simp add: drop_take)
  qed
  show "f = 0 \<longleftrightarrow> hd input \<notin> set cs" if "input \<noteq> []" "f \<noteq> npos"
    using f' [OF that(2)] that(1) hd_conv_nth [of input] by (cases "f = 0") auto
  show "l = length input - 1 \<longleftrightarrow> last input \<notin> set cs" if "input \<noteq> []" "l \<noteq> npos"
    using l' [OF that(2)] that(1) last_conv_nth [of input] by (cases "l = length input - 1") auto
qed

lemma trim_piece_exact:
  assumes "length input < npos" "w = 1 \<longrightarrow> bytes input \<and> bytes cs" "positions \<in> {TRIM_NONE, TRIM_LEADING, TRIM_TRAILING, TRIM_ALL}"
  shows "TrimStringPieceT w input cs positions = trimmed positions cs input"
proof -
  note pos = trim_positions [OF assms(1,2)]
  define f where "f = find_first_not_of w input cs 0"
  define l where "l = find_last_not_of w input cs npos"
  note pos = pos [folded f_def l_def]
  have e: "TRIM_LEADING = 1" "TRIM_TRAILING = 2" by (simp_all add: TRIM_LEADING_def TRIM_TRAILING_def)
  have far: "drop npos input = []" using assms(1) by simp
  have d: "TrimStringPieceT w input cs positions =
    (let b = if positions AND TRIM_LEADING \<noteq> 0 then f else 0;
         en = if positions AND TRIM_TRAILING \<noteq> 0 then size_add l 1 else length input in take (size_sub en b) (drop b input))"
    by (simp add: TrimStringPieceT_def sp_substr_eq f_def l_def)
  consider "positions = TRIM_NONE" | "positions = TRIM_LEADING" | "positions = TRIM_TRAILING" | "positions = TRIM_ALL"
    using assms(3) by blast
  then show ?thesis
  proof cases
    case 1
    then show ?thesis unfolding d using assms(1) by (simp add: trimmed_def e)
  next
    case 2
    then show ?thesis unfolding d using assms(1) pos(1,4) far
      by (cases "f = npos") (simp_all add: trimmed_def e del: dropWhile_eq_Nil_conv)
  next
    case 3
    then show ?thesis unfolding d using assms(1) pos(2,3,4) by (cases "f = npos") (simp_all add: trimmed_def e Let_def)
  next
    case 4
    then show ?thesis unfolding d using assms(1) pos(1,3,4,5) far
      by (cases "f = npos") (simp_all add: trimmed_def e Let_def del: dropWhile_eq_Nil_conv)
  qed
qed

text \<open>Where \<open>TrimStringT\<close> says it trimmed.\<close>

definition trim_report :: "nat \<Rightarrow> int list \<Rightarrow> int list \<Rightarrow> nat" where
  "trim_report positions cs input =
     (if input = [] then TRIM_NONE
      else if trimmed positions cs input = [] then positions
      else (if positions \<in> {TRIM_LEADING, TRIM_ALL} \<and> hd input \<in> set cs then TRIM_LEADING else TRIM_NONE) OR
           (if positions \<in> {TRIM_TRAILING, TRIM_ALL} \<and> last input \<in> set cs then TRIM_TRAILING else TRIM_NONE))"

lemma trim_string_exact:
  assumes "length input < npos" "w = 1 \<longrightarrow> bytes input \<and> bytes cs" "positions \<in> {TRIM_NONE, TRIM_LEADING, TRIM_TRAILING, TRIM_ALL}"
  shows "TrimStringT w input cs positions = Some (trim_report positions cs input, trimmed positions cs input)"
proof (cases "input = []")
  case True
  then show ?thesis by (simp add: TrimStringT_def trim_report_def trimmed_def)
next
  case False
  note pos = trim_positions [OF assms(1,2)]
  define f where "f = find_first_not_of w input cs 0"
  define l where "l = find_last_not_of w input cs npos"
  note pos = pos [folded f_def l_def]
  have e: "TRIM_LEADING = 1" "TRIM_TRAILING = 2" by (simp_all add: TRIM_LEADING_def TRIM_TRAILING_def)
  have last: "size_sub (length input) 1 = length input - 1" "Suc (length input - 1) = length input" "length input - 1 \<noteq> npos"
    using False assms(1) by (cases input; simp)+
  have 0: "npos \<noteq> 0" using assms(1) by auto
  have d: "TrimStringT w input cs positions =
    (let ff = if positions AND TRIM_LEADING \<noteq> 0 then f else 0;
         ll = if positions AND TRIM_TRAILING \<noteq> 0 then l else length input - 1 in
     if ff = npos \<or> ll = npos then Some (positions, [])
     else do { out \<leftarrow> str_substr input ff (size_add (size_sub ll ff) 1);
       Some ((if ff = 0 then TRIM_NONE else TRIM_LEADING) OR (if ll = length input - 1 then TRIM_NONE else TRIM_TRAILING), out) })"
    using False last by (simp add: TrimStringT_def f_def l_def Let_def)
  consider "positions = TRIM_NONE" | "positions = TRIM_LEADING" | "positions = TRIM_TRAILING" | "positions = TRIM_ALL"
    using assms(3) by blast
  then show ?thesis
  proof cases
    case 1
    then show ?thesis unfolding d using assms(1) False last 0 by (simp add: trimmed_def trim_report_def str_substr_def e)
  next
    case 2
    have "size_add (size_sub (length input - 1) f) 1 = length input - f" if "f \<noteq> npos"
    proof -
      have "f \<le> length input - 1" "length input - 1 < npos" "length input - 1 - f + 1 = length input - f"
        using pos(4) [OF that] assms(1) by auto
      then show ?thesis using assms(1) by simp
    qed
    then show ?thesis unfolding d using 2 assms(1) False last pos(1,4,6)
      by (cases "f = npos") (simp_all add: trimmed_def trim_report_def str_substr_def e Let_def del: dropWhile_eq_Nil_conv)
  next
    case 3
    then show ?thesis unfolding d using assms(1) False last 0 pos(2,3,4,7)
      by (cases "f = npos") (simp_all add: trimmed_def trim_report_def str_substr_def e Let_def)
  next
    case 4
    have "size_add (size_sub l f) 1 = Suc l - f" if "f \<noteq> npos"
    proof -
      have "f \<le> l" "l < npos" using pos(4) [OF that] assms(1) by auto
      then show ?thesis by (simp add: Suc_diff_le)
    qed
    then show ?thesis unfolding d using 4 assms(1) False last pos
      by (cases "f = npos") (simp_all add: trimmed_def trim_report_def str_substr_def e Let_def Suc_diff_le del: dropWhile_eq_Nil_conv)
  qed
qed

text \<open>
  C25: trimming, of strings shorter than \<open>npos\<close> and of either width, in both forms of the code (a
  string with a report, a view). The result is the input without the longest run of trimmed
  characters at the ends asked for, also when all of the string is trimmed and \<open>npos\<close> goes through
  the arithmetic on positions; the report is exact: nothing for an empty input, the positions asked
  for when nothing is left, and otherwise the ends that lost a character. No check or
  \<open>substr\<close> fails.
\<close>
theorem trim_exact:
  assumes "length input < npos" "w = 1 \<longrightarrow> bytes input \<and> bytes cs" "positions \<in> {TRIM_NONE, TRIM_LEADING, TRIM_TRAILING, TRIM_ALL}"
  shows "TrimStringT w input cs positions = Some (trim_report positions cs input, trimmed positions cs input)
    \<and> TrimStringPieceT w input cs positions = trimmed positions cs input"
  using trim_string_exact [of input w cs positions] trim_piece_exact [of input w cs positions] assms by blast

theorem trim_exact_witness:
  "TrimStringT 1 [32, 97, 32, 98, 32] kWhitespaceASCII TRIM_ALL = Some (TRIM_ALL, [97, 32, 98])
    \<and> TrimStringPieceT 2 [32, 32] kWhitespaceWide TRIM_TRAILING = []"
proof -
  have "length [32, 97, 32, 98, 32 :: int] < npos" "bytes [32, 97, 32, 98, 32]" "bytes kWhitespaceASCII" "length [32, 32 :: int] < npos"
    by (simp_all add: npos_def kWhitespaceASCII_def)
  moreover have "trim_report TRIM_ALL kWhitespaceASCII [32, 97, 32, 98, 32] = TRIM_ALL" by code_simp
  moreover have "trimmed TRIM_ALL kWhitespaceASCII [32, 97, 32, 98, 32] = [97, 32, 98]" by code_simp
  moreover have "trimmed TRIM_TRAILING kWhitespaceWide [32, 32] = []" by code_simp
  ultimately show ?thesis
    using trim_exact [of "[32, 97, 32, 98, 32]" 1 kWhitespaceASCII TRIM_ALL] trim_exact [of "[32, 32]" 2 kWhitespaceWide TRIM_TRAILING]
    by simp
qed

section \<open>Collapsing whitespace between words\<close>

text \<open>
  The reference: words are the longest runs without whitespace; two neighbouring words are joined by
  one space, or by nothing when runs with line breaks are dropped and the run between them has one.
\<close>

abbreviation "ws \<equiv> IsUnicodeWhitespace"

definition line_break :: "int \<Rightarrow> bool" where "line_break c \<longleftrightarrow> c = 10 \<or> c = 13"

function collapsed :: "bool \<Rightarrow> int list \<Rightarrow> int list" where
  "collapsed trim str =
     (let s = dropWhile ws str;
          word = takeWhile (\<lambda>c. \<not> ws c) s;
          rest = dropWhile (\<lambda>c. \<not> ws c) s;
          more = dropWhile ws rest
      in if more = [] then word
         else word @ (if trim \<and> (\<exists>c \<in> set (takeWhile ws rest). line_break c) then [] else [32]) @ collapsed trim more)"
  by auto
termination
proof (relation "measure (\<lambda>(trim, str). length str)", goal_cases)
  case (2 trim str s word rest more)
  have "rest \<noteq> []" using 2(4,5) by (cases rest) simp_all
  then have "s \<noteq> []" using 2(3) by (cases s) simp_all
  then have "\<not> ws (hd s)" using 2(1) by (simp add: hd_dropWhile)
  then have "length rest < length s" using \<open>s \<noteq> []\<close> 2(3) by (cases s) (auto simp: le_imp_less_Suc length_dropWhile_le)
  moreover have "length more \<le> length rest" "length s \<le> length str" using 2 by (auto simp: length_dropWhile_le)
  ultimately show ?case by simp
qed simp

declare collapsed.simps [simp del]

text \<open>The same, one character at a time: what is pending between two words is the state.\<close>

datatype gap = NoGap | Space | Dropped

fun collapse_from :: "bool \<Rightarrow> gap \<Rightarrow> int list \<Rightarrow> int list" where
  "collapse_from trim g [] = []"
| "collapse_from trim g (c # str) =
     (if ws c then collapse_from trim (if g = Dropped \<or> trim \<and> line_break c then Dropped else Space) str
      else (if g = Space then [32] else []) @ c # collapse_from trim NoGap str)"

lemma collapse_from_gap:
  assumes "\<forall>c \<in> set xs. ws c" "xs \<noteq> [] \<or> g = Dropped \<or> g = Space"
  shows "collapse_from trim g (xs @ ys) =
    collapse_from trim (if g = Dropped \<or> trim \<and> (\<exists>c \<in> set xs. line_break c) then Dropped else Space) ys"
  using assms
proof (induction xs arbitrary: g)
  case (Cons x xs)
  let ?g = "if g = Dropped \<or> trim \<and> line_break x then Dropped else Space"
  have "ws x" "\<forall>c \<in> set xs. ws c" using Cons.prems(1) by simp_all
  moreover have "xs \<noteq> [] \<or> ?g = Dropped \<or> ?g = Space" by simp
  ultimately have "collapse_from trim g ((x # xs) @ ys) =
      collapse_from trim (if ?g = Dropped \<or> trim \<and> (\<exists>c \<in> set xs. line_break c) then Dropped else Space) ys"
    using Cons.IH [of ?g] by simp
  moreover have "?g = Dropped \<or> trim \<and> (\<exists>c \<in> set xs. line_break c) \<longleftrightarrow> g = Dropped \<or> trim \<and> (\<exists>c \<in> set (x # xs). line_break c)"
    by auto
  ultimately show ?case by presburger
qed auto

lemma collapse_from_word: "\<forall>c \<in> set xs. \<not> ws c \<Longrightarrow> collapse_from trim NoGap (xs @ ys) = xs @ collapse_from trim NoGap ys"
  by (induction xs) auto

lemma collapse_from_next:
  assumes "ys \<noteq> []" "\<not> ws (hd ys)"
  shows "collapse_from trim g ys = (if g = Space then [32] else []) @ collapse_from trim NoGap ys"
  using assms by (cases ys) auto

lemma collapse_from_collapsed: "collapse_from trim Dropped str = collapsed trim str"
proof (induction trim str rule: collapsed.induct)
  case (1 trim str)
  define s where "s = dropWhile ws str"
  define word where "word = takeWhile (\<lambda>c. \<not> ws c) s"
  define rest where "rest = dropWhile (\<lambda>c. \<not> ws c) s"
  define gap where "gap = takeWhile ws rest"
  define more where "more = dropWhile ws rest"
  note defs = s_def [symmetric] word_def [symmetric] rest_def [symmetric] gap_def [symmetric] more_def [symmetric]
  have split: "str = takeWhile ws str @ s" "s = word @ rest" "rest = gap @ more"
    by (simp_all add: s_def word_def rest_def gap_def more_def)
  have all: "\<forall>c \<in> set (takeWhile ws str). ws c" "\<forall>c \<in> set word. \<not> ws c" "\<forall>c \<in> set gap. ws c"
    by (auto simp: word_def gap_def dest: set_takeWhileD)
  have "collapse_from trim Dropped str = collapse_from trim Dropped s"
    using collapse_from_gap [OF all(1), of Dropped trim s] split(1) by simp
  also have "\<dots> = collapse_from trim NoGap s"
  proof (cases "s = []")
    case False
    then show ?thesis using collapse_from_next [of s trim Dropped] by (simp add: s_def hd_dropWhile)
  qed simp
  also have "\<dots> = word @ collapse_from trim NoGap rest"
    using collapse_from_word [OF all(2), of trim rest] split(2) by simp
  also have "collapse_from trim NoGap rest =
    (if more = [] then [] else (if trim \<and> (\<exists>c \<in> set gap. line_break c) then [] else [32]) @ collapse_from trim Dropped more)"
  proof (cases "gap = []")
    case True
    have "rest = []"
    proof (rule ccontr)
      assume r: "rest \<noteq> []"
      then have "ws (hd rest)" using hd_dropWhile [of "\<lambda>c. \<not> ws c" s] by (simp add: rest_def)
      then show False using True r by (cases rest) (simp_all add: gap_def)
    qed
    then show ?thesis by (simp add: more_def)
  next
    case False
    let ?g = "if trim \<and> (\<exists>c \<in> set gap. line_break c) then Dropped else Space"
    have "collapse_from trim NoGap rest = collapse_from trim ?g more"
      using collapse_from_gap [OF all(3), of NoGap trim more] False split(3) by simp
    moreover have "\<not> ws (hd more)" if "more \<noteq> []" using that by (simp add: more_def hd_dropWhile)
    ultimately show ?thesis using collapse_from_next [of more trim ?g] collapse_from_next [of more trim Dropped]
      by (cases "trim \<and> (\<exists>c \<in> set gap. line_break c)") (auto simp del: collapse_from.simps(2))
  qed
  also have "word @ (if more = [] then [] else (if trim \<and> (\<exists>c \<in> set gap. line_break c) then [] else [32]) @ collapse_from trim Dropped more)
    = collapsed trim str"
    unfolding collapsed.simps [of trim str] Let_def defs
    using 1 [OF s_def word_def rest_def more_def] by simp
  finally show ?case .
qed

definition cw_inv :: "gap \<Rightarrow> int list \<Rightarrow> nat \<Rightarrow> bool \<Rightarrow> bool \<Rightarrow> int list \<Rightarrow> nat \<Rightarrow> bool" where
  "cw_inv g result k in_whitespace already_trimmed out n \<longleftrightarrow>
     k + n \<le> length result \<and> length result < 2 ^ 31 \<and>
     (case g of NoGap \<Rightarrow> \<not> in_whitespace \<and> \<not> already_trimmed \<and> take k result = out
      | Space \<Rightarrow> in_whitespace \<and> \<not> already_trimmed \<and> take k result = out @ [32]
      | Dropped \<Rightarrow> in_whitespace \<and> already_trimmed \<and> take k result = out)"

definition cw_finish :: "int list \<times> int \<times> bool \<times> bool \<Rightarrow> int list option" where
  "cw_finish = (\<lambda>(result, chars_written, in_whitespace, already_trimmed).
     let chars_written = (if in_whitespace \<and> \<not> already_trimmed then chars_written - 1 else chars_written) in
     if 0 \<le> chars_written \<and> nat chars_written \<le> length result then Some (take (nat chars_written) result) else None)"

lemma cw_put_ok:
  assumes "k < length result" "length result < 2 ^ 31"
  shows "cw_put result (int k) c = Some (result[k := c], int (Suc k))" "take (Suc k) (result[k := c]) = take k result @ [c]"
  using assms by (simp_all add: cw_put_def take_Suc_conv_app_nth)

lemma take_pred: "take k xs = out @ [c] \<Longrightarrow> k \<le> length xs \<Longrightarrow> 0 < k \<and> take (k - 1) xs = out"
  by (metis Suc_pred' append_butlast_last_id butlast_snoc butlast_take gr0I snoc_eq_iff_butlast take_0)

lemma cw_loop_spec:
  "cw_inv g result k iw al out (length str) \<Longrightarrow>
   cw_loop trim str result (int k) iw al \<bind> cw_finish = Some (out @ collapse_from trim g str)"
proof (induction str arbitrary: g result k iw al out)
  case Nil
  have "take k result = out @ [32] \<Longrightarrow> k \<le> length result \<Longrightarrow> 0 < k \<and> take (k - 1) result = out" by (rule take_pred)
  then show ?case using Nil
    by (cases g) (auto simp: cw_inv_def cw_finish_def nat_diff_distrib)
next
  case (Cons c str)
  have k: "k < length result" "length result < 2 ^ 31" "k + Suc (length str) \<le> length result" using Cons.prems by (auto simp: cw_inv_def)
  note put = cw_put_ok [OF k(1,2)]
  show ?case
  proof (cases "ws c")
    case False
    have "cw_inv NoGap (result[k := c]) (Suc k) False False (out @ (if g = Space then [32] else []) @ [c]) (length str)"
      using Cons.prems put(2) [of c] by (cases g) (auto simp: cw_inv_def)
    from Cons.IH [OF this] show ?thesis using False put(1) [of c] by (simp add: add.commute)
  next
    case True
    show ?thesis
    proof (cases g)
      case NoGap
      then have st: "\<not> iw" "\<not> al" "take k result = out" using Cons.prems by (auto simp: cw_inv_def)
      show ?thesis
      proof (cases "trim \<and> line_break c")
        case lb: True
        have "cw_inv Dropped (result[k := 32]) k True True out (length str)" using k st by (simp add: cw_inv_def)
        from Cons.IH [OF this] show ?thesis using True NoGap st lb put(1) [of 32] by (simp add: line_break_def)
      next
        case lb: False
        have "cw_inv Space (result[k := 32]) (Suc k) True False out (length str)" using k st put(2) [of 32] by (simp add: cw_inv_def)
        from Cons.IH [OF this] show ?thesis using True NoGap st lb put(1) [of 32] by (auto simp: line_break_def add.commute)
      qed
    next
      case Space
      then have st: "iw" "\<not> al" "take k result = out @ [32]" using Cons.prems by (auto simp: cw_inv_def)
      then have pred: "0 < k" "take (k - 1) result = out" using take_pred [of k result out 32] k by auto
      show ?thesis
      proof (cases "trim \<and> line_break c")
        case lb: True
        have "cw_inv Dropped result (k - 1) True True out (length str)" using k pred by (simp add: cw_inv_def)
        from Cons.IH [OF this] show ?thesis using True Space st lb pred(1) by (simp add: line_break_def of_nat_diff)
      next
        case lb: False
        have "cw_inv Space result k True False out (length str)" using k st by (simp add: cw_inv_def)
        from Cons.IH [OF this] show ?thesis using True Space st lb by (auto simp: line_break_def)
      qed
    next
      case Dropped
      then have st: "iw" "al" "take k result = out" using Cons.prems by (auto simp: cw_inv_def)
      have "cw_inv Dropped result k True True out (length str)" using k st by (simp add: cw_inv_def)
      from Cons.IH [OF this] show ?thesis using True Dropped st by simp
    qed
  qed
qed

lemma CollapseWhitespaceT_finish:
  "CollapseWhitespaceT str trim = cw_loop trim str (replicate (length str) 0) 0 True True \<bind> cw_finish"
  unfolding CollapseWhitespaceT_def cw_finish_def by (rule arg_cong [where f = "Option.bind _"]) (auto simp: Let_def fun_eq_iff)

text \<open>
  C26: collapsing whitespace. For text of fewer than \<open>2\<^sup>3\<^sup>1\<close> characters the loop never writes outside
  its buffer and never counts below zero, and the result is the words of the text joined by single
  spaces, or by nothing where line breaks are to be dropped and the run between two words has one;
  leading and trailing whitespace is gone.
\<close>
theorem CollapseWhitespace_exact:
  assumes "length str < 2 ^ 31"
  shows "CollapseWhitespaceT str trim_sequences_with_line_breaks = Some (collapsed trim_sequences_with_line_breaks str)"
proof -
  have "cw_inv Dropped (replicate (length str) 0) 0 True True [] (length str)" using assms by (simp add: cw_inv_def)
  from cw_loop_spec [OF this] show ?thesis by (simp add: CollapseWhitespaceT_finish collapse_from_collapsed)
qed

theorem CollapseWhitespace_exact_witness:
  "CollapseWhitespaceT [32, 97, 32, 32, 98, 10, 32, 99, 13] True = Some [97, 32, 98, 99]"
proof -
  have "collapse_from True Dropped [32, 97, 32, 32, 98, 10, 32, 99, 13] = [97, 32, 98, 99]" by code_simp
  then have "collapsed True [32, 97, 32, 32, 98, 10, 32, 99, 13] = [97, 32, 98, 99]" unfolding collapse_from_collapsed .
  then show ?thesis using CollapseWhitespace_exact [of "[32, 97, 32, 32, 98, 10, 32, 99, 13]" True] by (simp add: collapse_from_collapsed del: collapse_from.simps)
qed

text \<open>
  The 8-bit overload looks a \<open>char\<close> up among the Unicode spaces. Where \<open>char\<close> is unsigned, the bytes
  0x85 and 0xA0 count as whitespace although they are also trailing bytes of UTF-8: collapsing the
  text \<open>U+00E0\<close> leaves half of a character.
\<close>
theorem CollapseWhitespaceASCII_splits_character:
  "CollapseWhitespaceT (utf8_enc 0xE0) False = Some [0xC3]"
  by code_simp

section \<open>Splitting and joining\<close>

text \<open>The pieces between separators, and what the whitespace and result options make of them.\<close>

fun splits :: "('a \<Rightarrow> bool) \<Rightarrow> 'a list \<Rightarrow> 'a list list" where
  "splits P [] = [[]]"
| "splits P (c # cs) = (if P c then [] # splits P cs else (c # hd (splits P cs)) # tl (splits P cs))"

text \<open>The text before and after the first occurrence of \<open>d\<close>, and the pieces between all of them.\<close>

fun cut_at :: "'a list \<Rightarrow> 'a list \<Rightarrow> ('a list \<times> 'a list) option" where
  "cut_at d s = (if matches_at s d 0 then Some ([], drop (length d) s)
     else case s of [] \<Rightarrow> None | c # s' \<Rightarrow> map_option (\<lambda>(p, rest). (c # p, rest)) (cut_at d s'))"

declare cut_at.simps [simp del]

lemma cut_Some: "cut_at d s = Some (p, rest) \<Longrightarrow> s = p @ d @ rest"
proof (induction s arbitrary: p)
  case Nil
  then show ?case by (simp add: cut_at.simps [of d "[]"] matches_at_def split: if_splits)
next
  case (Cons c s)
  show ?case
  proof (cases "matches_at (c # s) d 0")
    case True
    then show ?thesis using Cons.prems by (simp add: cut_at.simps [of d "c # s"] matches_at_def) (metis append_take_drop_id)
  next
    case False
    then show ?thesis using Cons by (auto simp: cut_at.simps [of d "c # s"])
  qed
qed

function substr_splits :: "'a list \<Rightarrow> 'a list \<Rightarrow> 'a list list" where
  "substr_splits d s = (if d = [] then [s] else case cut_at d s of None \<Rightarrow> [s] | Some (p, rest) \<Rightarrow> p # substr_splits d rest)"
  by auto
termination
  by (relation "measure (\<lambda>(d, s). length s)") (auto dest: cut_Some)

declare substr_splits.simps [simp del]

definition kept :: "nat \<Rightarrow> WhitespaceHandling \<Rightarrow> SplitResult \<Rightarrow> int list list \<Rightarrow> int list list" where
  "kept w whitespace result_type pieces =
     filter (\<lambda>p. result_type = SPLIT_WANT_ALL \<or> p \<noteq> [])
       (map (\<lambda>p. if whitespace = TRIM_WHITESPACE then trimmed TRIM_ALL (WhitespaceForType w) p else p) pieces)"

lemma kept_simps [simp]: "kept w wh rt [] = []" "ps \<noteq> [] \<Longrightarrow> kept w wh rt (p # ps) = kept w wh rt [p] @ kept w wh rt ps"
  "kept w KEEP_WHITESPACE SPLIT_WANT_ALL ps = ps"
  by (simp_all add: kept_def)

lemma bytes_whitespace: "bytes kWhitespaceASCII"
  by (simp add: kWhitespaceASCII_def)

lemma split_keep_kept:
  assumes "length piece < npos" "w = 1 \<longrightarrow> bytes piece"
  shows "split_keep w wh rt piece result = result @ kept w wh rt [piece]"
  using trim_piece_exact [of piece w "WhitespaceForType w" TRIM_ALL] assms bytes_whitespace
  by (auto simp: split_keep_def kept_def WhitespaceForType_def Let_def)

lemma splits_none: "\<forall>x \<in> set xs. \<not> P x \<Longrightarrow> splits P xs = [xs]"
  by (induction xs) auto

lemma splits_some: "\<forall>x \<in> set xs. \<not> P x \<Longrightarrow> P c \<Longrightarrow> splits P (xs @ c # ys) = xs # splits P ys"
  by (induction xs) auto

lemma splits_ne [simp]: "splits P xs \<noteq> []"
  by (cases xs) auto

lemma splits_first:
  assumes "is_first (\<lambda>i. P (str ! i)) start (length str) r" "start \<le> length str"
  shows "splits P (drop start str) =
    (if r = npos then [drop start str] else take (r - start) (drop start str) # splits P (drop (r + 1) str))"
proof (cases "r = npos")
  case True
  then have "\<forall>x \<in> set (drop start str). \<not> P x" using assms by (auto simp: is_first_def in_set_conv_nth)
  then show ?thesis using True splits_none by auto
next
  case False
  then have r: "start \<le> r" "r < length str" "P (str ! r)" "\<And>i. start \<le> i \<Longrightarrow> i < r \<Longrightarrow> \<not> P (str ! i)"
    using assms(1) by (auto simp: is_first_def)
  have "drop start str = take (r - start) (drop start str) @ str ! r # drop (r + 1) str"
    using r(1,2) id_take_nth_drop [of "r - start" "drop start str"] by simp
  moreover have "\<forall>x \<in> set (take (r - start) (drop start str)). \<not> P x"
    using r by (auto simp: in_set_conv_nth)
  ultimately show ?thesis using False splits_some [of "take (r - start) (drop start str)" P "str ! r" "drop (r + 1) str"] r(3) by simp
qed

lemma bytes_sub: "bytes s \<Longrightarrow> bytes (take n (drop k s))"
  by (auto simp: bytes_def dest!: in_set_takeD in_set_dropD)

lemma split_loop_spec:
  assumes str: "length str < npos" "w = 1 \<longrightarrow> bytes str"
    and fnd: "\<And>pos. pos \<le> length str \<Longrightarrow> \<exists>r. fnd pos = Some r \<and> is_first (\<lambda>i. P (str ! i)) pos (length str) r"
  shows "start \<le> length str \<Longrightarrow>
    split_loop w str fnd wh rt start result = Some (result @ kept w wh rt (splits P (drop start str)))"
proof (induction "length str - start" arbitrary: start result rule: less_induct)
  case less
  obtain r where r: "fnd start = Some r" "is_first (\<lambda>i. P (str ! i)) start (length str) r"
    using fnd [OF less.prems] by blast
  note split = splits_first [OF r(2) less.prems]
  have keep: "split_keep w wh rt (take n (drop start str)) result = result @ kept w wh rt [take n (drop start str)]" for n
    using str bytes_sub by (intro split_keep_kept) auto
  have start: "start \<noteq> npos" using less.prems str(1) by simp
  show ?case
  proof (cases "r = npos")
    case True
    have stop: "split_loop w str fnd wh rt npos xs = Some xs" for xs by (simp add: split_loop.simps)
    have "take npos (drop start str) = drop start str" using str(1) by simp
    then show ?thesis using True start r(1) split keep [of npos] stop
      by (simp add: split_loop.simps [of w str fnd wh rt start] sp_substr_eq)
  next
    case False
    then have "start \<le> r" "r < length str" using r(2) by (auto simp: is_first_def)
    then have "split_loop w str fnd wh rt (r + 1) xs = Some (xs @ kept w wh rt (splits P (drop (r + 1) str)))" for xs
      using less.prems by (intro less.hyps) auto
    then show ?thesis using False start r(1) split keep [of "r - start"]
      by (simp add: split_loop.simps [of w str fnd wh rt start] sp_substr_eq)
  qed
qed

lemma FindFirstOf_char_first:
  "length str < npos \<Longrightarrow> \<exists>r. FindFirstOf_char str c pos = Some r \<and> is_first (\<lambda>i. str ! i = c) pos (length str) r"
  by (simp add: FindFirstOf_char_def sp_find_char_first)

lemma FindFirstOf_set_first:
  assumes "length str < npos" "w = 1 \<longrightarrow> bytes str \<and> bytes s" "pos \<le> length str"
  shows "\<exists>r. FindFirstOf_set w str s pos = Some r \<and> is_first (\<lambda>i. str ! i \<in> set s) pos (length str) r"
  using assms find_first_of8_first [of str s pos] find_first_of16_first [of str pos s] by (simp add: FindFirstOf_set_def)

lemma SplitString_kept:
  assumes "length input < npos" "w = 1 \<longrightarrow> bytes input \<and> bytes separators"
  shows "SplitString w input separators wh rt =
    Some (if input = [] then [] else kept w wh rt (splits (\<lambda>c. c \<in> set separators) input))"
proof (cases "length separators = 1")
  case True
  then obtain d where d: "separators = [d]" by (cases separators) auto
  show ?thesis using split_loop_spec [of input w "FindFirstOf_char input d" "\<lambda>c. c = d" 0 wh rt "[]"]
      FindFirstOf_char_first [of input d] assms d by (simp add: SplitString_def SplitStringT_def)
next
  case False
  then show ?thesis using split_loop_spec [of input w "FindFirstOf_set w input separators" "\<lambda>c. c \<in> set separators" 0 wh rt "[]"]
      FindFirstOf_set_first [OF assms] assms by (simp add: SplitString_def SplitStringT_def)
qed

lemma matches_at_Suc: "matches_at (c # s) d (Suc i) \<longleftrightarrow> matches_at s d i"
  by (simp add: matches_at_def)

lemma matches_at_drop: "start \<le> length s \<Longrightarrow> matches_at (drop start s) d i \<longleftrightarrow> matches_at s d (start + i)"
  by (auto simp: matches_at_def add.commute)

lemma cut_eq_Some:
  "matches_at s d r \<Longrightarrow> (\<And>i. i < r \<Longrightarrow> \<not> matches_at s d i) \<Longrightarrow> cut_at d s = Some (take r s, drop (r + length d) s)"
proof (induction s arbitrary: r)
  case Nil
  then show ?case by (auto simp: cut_at.simps [of _ "[]"] matches_at_def)
next
  case (Cons c s)
  show ?case
  proof (cases r)
    case 0
    then show ?thesis using Cons.prems(1) by (simp add: cut_at.simps [of d "c # s"])
  next
    case (Suc q)
    have "cut_at d s = Some (take q s, drop (q + length d) s)"
      using Cons.prems Suc matches_at_Suc [of c s d] by (intro Cons.IH) auto
    then show ?thesis using Cons.prems(2) [of 0] Suc by (simp add: cut_at.simps [of d "c # s"])
  qed
qed

lemma cut_eq_None: "(\<And>i. \<not> matches_at s d i) \<Longrightarrow> cut_at d s = None"
proof (induction s)
  case Nil
  then show ?case by (simp add: cut_at.simps [of d "[]"])
next
  case (Cons c s)
  have "\<not> matches_at s d i" for i using Cons.prems [of "Suc i"] matches_at_Suc [of c s d] by simp
  then show ?case using Cons by (simp add: cut_at.simps [of d "c # s"])
qed

lemma cut_first:
  assumes "is_first (matches_at s d) start (length s + 1) r" "start \<le> length s"
  shows "cut_at d (drop start s) = (if r = npos then None else Some (take (r - start) (drop start s), drop (r + length d) s))"
proof (cases "r = npos")
  case True
  have "\<not> matches_at (drop start s) d i" for i
  proof
    assume m: "matches_at (drop start s) d i"
    then have "start + i < length s + 1" using assms(2) by (auto simp: matches_at_def)
    then show False using m assms True matches_at_drop [OF assms(2)] by (auto simp: is_first_def)
  qed
  then show ?thesis using True cut_eq_None [of "drop start s" d] by simp
next
  case False
  then have r: "start \<le> r" "matches_at s d r" "\<And>i. start \<le> i \<Longrightarrow> i < r \<Longrightarrow> \<not> matches_at s d i"
    using assms(1) by (auto simp: is_first_def)
  then have "cut_at d (drop start s) = Some (take (r - start) (drop start s), drop (r - start + length d) (drop start s))"
    using matches_at_drop [OF assms(2), of d] by (intro cut_eq_Some) auto
  then show ?thesis using False r(1) by (simp add: add.commute)
qed

lemma substr_loop_spec:
  assumes str: "length input < npos" "w = 1 \<longrightarrow> bytes input" "d \<noteq> []"
  shows "start \<le> length input \<Longrightarrow>
    substr_loop w input d wh rt start result = Some (result @ kept w wh rt (substr_splits d (drop start input)))"
proof (induction "length input - start" arbitrary: start result rule: less_induct)
  case less
  define r where "r = sp_find input d start"
  have first: "is_first (matches_at input d) start (length input + 1) r"
    unfolding r_def by (rule sp_find_first [OF str(1)])
  note c = cut_first [OF first less.prems]
  have keep: "split_keep w wh rt (take n (drop start input)) result = result @ kept w wh rt [take n (drop start input)]" for n
    using str bytes_sub by (intro split_keep_kept) auto
  note step = substr_loop.simps [of w input d wh rt start result, folded r_def]
  show ?case
  proof (cases "r = npos")
    case True
    have "take npos (drop start input) = drop start input" using str(1) by simp
    then show ?thesis using True c keep [of npos] str(3)
      by (simp add: step sp_substr_eq substr_splits.simps [of d "drop start input"])
  next
    case False
    then have r: "start \<le> r" "r + length d \<le> length input" using first by (auto simp: is_first_def matches_at_def)
    then have "substr_loop w input d wh rt (r + length d) xs = Some (xs @ kept w wh rt (substr_splits d (drop (r + length d) input)))" for xs
      using str(3) less.prems by (intro less.hyps) (cases d; auto)+
    moreover have "size_add r (length d) = r + length d" using r(2) str(1) by simp
    moreover have "substr_splits d xs \<noteq> []" for xs by (auto simp: substr_splits.simps [of d xs] split: option.splits)
    ultimately show ?thesis using False c keep [of "r - start"] str(3)
      by (simp add: step sp_substr_eq substr_splits.simps [of d "drop start input"])
  qed
qed

lemma substr_loop_diverges:
  assumes "length input < npos" "begin_index \<le> length input"
  shows "substr_loop w input [] wh rt begin_index result = None"
proof -
  have False if "substr_loop w str d wh rt start res = Some y" "d = []" "str = input" "start \<le> length str" for str d start res y
    using that
  proof (induction w str d wh rt start res y rule: substr_loop.raw_induct [rotated, consumes 1, case_names step])
    case (step f w str d wh rt start res y)
    have "sp_find str [] start = start"
      using step.prems(3) std_search.simps [of str start "[]"] by (simp add: sp_find_def matches_at_def)
    moreover have "start \<noteq> npos" using step.prems(2,3) assms(1) by auto
    ultimately have "f w str d wh rt (size_add start 0) (split_keep w wh rt (sp_substr str start 0) res) = Some y"
      using step.hyps step.prems(1) by (simp add: Let_def)
    then show ?case using step.IH [of w str d wh rt "size_add start 0"] step.prems assms(1) by simp
  qed
  then show ?thesis using assms(2) not_None_eq [of "substr_loop w input [] wh rt begin_index result"] by blast
qed

lemma Join_Cons: "JoinStringT (p # q # ps) sep = p @ sep @ JoinStringT (q # ps) sep"
proof -
  have "foldl (\<lambda>result p. result @ sep @ p) (a @ b) ps = a @ foldl (\<lambda>result p. result @ sep @ p) b ps" for a b
    by (induction ps arbitrary: b) simp_all
  from this [of "p @ sep" q] show ?thesis by simp
qed

lemma Join_single [simp]: "JoinStringT [p] sep = p"
  by simp

declare JoinStringT.simps(2) [simp del]

lemma Join_ne: "ps \<noteq> [] \<Longrightarrow> JoinStringT (p # ps) sep = p @ sep @ JoinStringT ps sep"
  using Join_Cons [of p "hd ps" "tl ps" sep] by simp

text \<open>The size that \<open>JoinStringT\<close> reserves and compares with that of its result at the end.\<close>

lemma Join_size: "parts \<noteq> [] \<Longrightarrow> (length parts - 1) * length sep + sum_list (map length parts) = length (JoinStringT parts sep)"
proof (induction parts)
  case (Cons p ps)
  then show ?case by (cases ps) (simp_all add: Join_Cons)
qed simp

lemma Join_splits: "JoinStringT (splits (\<lambda>x. x = c) s) [c] = s"
proof (induction s)
  case (Cons x s)
  show ?case
  proof (cases "x = c")
    case True
    then show ?thesis using Cons by (simp add: Join_ne)
  next
    case False
    obtain p ps where ps: "splits (\<lambda>x. x = c) s = p # ps" by (cases "splits (\<lambda>x. x = c) s") auto
    then show ?thesis using Cons False by (cases ps) (simp_all add: Join_ne)
  qed
qed simp

lemma splits_Join:
  "parts \<noteq> [] \<Longrightarrow> \<forall>p \<in> set parts. c \<notin> set p \<Longrightarrow> splits (\<lambda>x. x = c) (JoinStringT parts [c]) = parts"
proof (induction parts)
  case (Cons p ps)
  have p: "\<forall>x \<in> set p. x \<noteq> c" using Cons.prems(2) by auto
  show ?case
  proof (cases "ps = []")
    case True
    then show ?thesis using splits_none [OF p] by simp
  next
    case False
    then show ?thesis using Cons splits_some [OF p refl, of "JoinStringT ps [c]"] by (simp add: Join_ne)
  qed
qed simp

lemma Join_substr_splits: "JoinStringT (substr_splits d s) d = s"
proof (induction d s rule: substr_splits.induct)
  case (1 d s)
  show ?case
  proof (cases "d = [] \<or> cut_at d s = None")
    case True
    then show ?thesis by (auto simp: substr_splits.simps [of d s])
  next
    case False
    then obtain p rest where c: "cut_at d s = Some (p, rest)" by auto
    have "substr_splits d rest \<noteq> []" by (auto simp: substr_splits.simps [of d rest] split: option.splits)
    then show ?thesis using 1 [OF _ c refl] False c cut_Some [OF c, symmetric] by (simp add: substr_splits.simps [of d s] Join_ne)
  qed
qed

lemma substr_splits_single: "(\<And>i. \<not> matches_at s d i) \<Longrightarrow> substr_splits d s = [s]"
  using cut_eq_None [of s d] by (simp add: substr_splits.simps [of d s])

lemma cut_prefix_free: "cut_at d s = Some (p, rest) \<Longrightarrow> d \<noteq> [] \<Longrightarrow> \<not> matches_at p d i"
proof (induction s arbitrary: p i)
  case Nil
  then show ?case by (simp add: cut_at.simps [of d "[]"] matches_at_def split: if_splits)
next
  case (Cons c s)
  show ?case
  proof (cases "matches_at (c # s) d 0")
    case True
    then show ?thesis using Cons.prems by (simp add: cut_at.simps [of d "c # s"] matches_at_def)
  next
    case False
    then obtain q where q: "cut_at d s = Some (q, rest)" "p = c # q" using Cons.prems(1) by (auto simp: cut_at.simps [of d "c # s"])
    have "\<not> matches_at p d 0"
      using False cut_Some [OF Cons.prems(1)] by (auto simp: matches_at_def)
    then show ?thesis using q Cons.IH [OF q(1) Cons.prems(2)] matches_at_Suc [of c q d] by (cases i) auto
  qed
qed

lemma substr_splits_free: "d \<noteq> [] \<Longrightarrow> p \<in> set (substr_splits d s) \<Longrightarrow> \<not> matches_at p d i"
proof (induction d s rule: substr_splits.induct)
  case (1 d s)
  show ?case
  proof (cases "cut_at d s")
    case None
    have "\<not> matches_at s d j" for j
    proof
      assume m: "matches_at s d j"
      have "\<exists>r. matches_at s d r \<and> (\<forall>i < r. \<not> matches_at s d i)" using m by (rule exists_least_iff [THEN iffD1, OF exI])
      then show False using cut_eq_Some [of s d] None by fastforce
    qed
    then show ?thesis using 1(2,3) None by (simp add: substr_splits.simps [of d s])
  next
    case (Some pr)
    then show ?thesis using 1 cut_prefix_free [of d s] by (cases pr) (auto simp: substr_splits.simps [of d s])
  qed
qed

text \<open>
  C22: splitting. For strings of either width shorter than \<open>npos\<close>, \<open>SplitString\<close> returns, whichever
  of its searches it takes, the pieces between the separator characters, each trimmed and empty ones
  dropped as the options say, and nothing at all for an empty input; \<open>SplitStringUsingSubstr\<close> with a
  non-empty delimiter returns the pieces between its leftmost non-overlapping occurrences. Both
  loops end, and no search starts outside the string.
\<close>
theorem split_exact:
  assumes "length input < npos" "w = 1 \<longrightarrow> bytes input \<and> bytes separators"
  shows "SplitString w input separators whitespace result_type =
      Some (if input = [] then [] else kept w whitespace result_type (splits (\<lambda>c. c \<in> set separators) input))
    \<and> (separators \<noteq> [] \<longrightarrow> SplitStringUsingSubstr w input separators whitespace result_type =
      Some (kept w whitespace result_type (substr_splits separators input)))"
  using SplitString_kept [OF assms] substr_loop_spec [of input w separators 0 whitespace result_type "[]"] assms
  by (simp add: SplitStringUsingSubstr_def)

theorem split_exact_witness:
  "SplitString 1 [32, 97, 44, 44, 98, 59, 99] [44, 59] TRIM_WHITESPACE SPLIT_WANT_NONEMPTY = Some [[97], [98], [99]]
    \<and> SplitStringUsingSubstr 2 [97, 44, 44, 98] [44, 44] KEEP_WHITESPACE SPLIT_WANT_ALL = Some [[97], [98]]"
proof -
  have "kept 1 TRIM_WHITESPACE SPLIT_WANT_NONEMPTY (splits (\<lambda>c. c \<in> set [44, 59]) [32, 97, 44, 44, 98, 59, 99]) = [[97], [98], [99 :: int]]"
    by code_simp
  moreover have "kept 2 KEEP_WHITESPACE SPLIT_WANT_ALL (substr_splits [44, 44] [97, 44, 44, 98 :: int]) = [[97], [98]]" by code_simp
  moreover have "length [32, 97, 44, 44, 98, 59, 99 :: int] < npos" "bytes [32, 97, 44, 44, 98, 59, 99]" "bytes [44, 59]"
    "length [97, 44, 44, 98 :: int] < npos"
    by (simp_all add: npos_def)
  ultimately show ?thesis
    using split_exact [of "[32, 97, 44, 44, 98, 59, 99]" 1 "[44, 59]" TRIM_WHITESPACE SPLIT_WANT_NONEMPTY]
      split_exact [of "[97, 44, 44, 98]" 2 "[44, 44]" KEEP_WHITESPACE SPLIT_WANT_ALL]
    by (simp del: kept_simps splits.simps)
qed

text \<open>
  C23: splitting and joining, when the split keeps empty pieces and whitespace (\<open>KEEP_WHITESPACE\<close> and
  \<open>SPLIT_WANT_ALL\<close>) and the separator is a single character: a string that \<open>SplitString\<close> splits at it
  and \<open>JoinString\<close> joins with it again is the same string, and parts that do not contain it come
  back when their join is split, unless their join is the empty string. For
  \<open>SplitStringUsingSubstr\<close> and a non-empty substring, in the same modes, only the first half holds:
  the pieces joined again are the string, and no piece contains the substring.
\<close>
theorem split_join_round_trip:
  assumes "length input < npos" "w = 1 \<longrightarrow> bytes input \<and> bytes [c] \<and> bytes delimiter" "delimiter \<noteq> []"
    and "parts \<noteq> []" "\<forall>p \<in> set parts. c \<notin> set p" "input = JoinStringT parts [c]"
  shows "(\<exists>pieces. SplitString w input [c] KEEP_WHITESPACE SPLIT_WANT_ALL = Some pieces \<and> JoinStringT pieces [c] = input
      \<and> (input \<noteq> [] \<longrightarrow> pieces = parts))
    \<and> (\<exists>pieces. SplitStringUsingSubstr w input delimiter KEEP_WHITESPACE SPLIT_WANT_ALL = Some pieces
      \<and> JoinStringT pieces delimiter = input \<and> (\<forall>p \<in> set pieces. \<forall>i. \<not> matches_at p delimiter i))"
proof -
  have "SplitString w input [c] KEEP_WHITESPACE SPLIT_WANT_ALL = Some (if input = [] then [] else splits (\<lambda>x. x = c) input)"
    using SplitString_kept [of input w "[c]" KEEP_WHITESPACE SPLIT_WANT_ALL] assms(1,2) by simp
  moreover have "SplitStringUsingSubstr w input delimiter KEEP_WHITESPACE SPLIT_WANT_ALL = Some (substr_splits delimiter input)"
    using substr_loop_spec [of input w delimiter 0 KEEP_WHITESPACE SPLIT_WANT_ALL "[]"] assms(1-3) by (simp add: SplitStringUsingSubstr_def)
  moreover have "splits (\<lambda>x. x = c) input = parts" unfolding assms(6) by (rule splits_Join [OF assms(4,5)])
  ultimately show ?thesis
    using Join_splits [of c input] Join_substr_splits [of delimiter input] substr_splits_free [OF assms(3)] by auto
qed

theorem split_join_round_trip_witness:
  "SplitString 1 [97, 44, 98] [44] KEEP_WHITESPACE SPLIT_WANT_ALL = Some [[97], [98]]
    \<and> (\<exists>pieces. SplitStringUsingSubstr 1 [97, 44, 98] [44, 98] KEEP_WHITESPACE SPLIT_WANT_ALL = Some pieces
      \<and> JoinStringT pieces [44, 98] = [97, 44, 98])"
proof -
  have "length [97, 44, 98 :: int] < npos" "[97, 44, 98] = JoinStringT [[97], [98]] [44]"
    "(1::nat) = 1 \<longrightarrow> bytes [97, 44, 98] \<and> bytes [44] \<and> bytes [44, 98]" "\<forall>p \<in> set [[97], [98 :: int]]. 44 \<notin> set p"
    by (simp_all add: npos_def Join_ne)
  from split_join_round_trip [OF this(1,3) _ _ this(4,2)] show ?thesis by blast
qed

text \<open>
  With an empty delimiter \<open>SplitStringUsingSubstr\<close> finds it at the position it starts from, again and
  again: it never returns.
\<close>
theorem empty_delimiter_never_returns:
  assumes "length input < npos"
  shows "SplitStringUsingSubstr w input [] whitespace result_type = None"
  using substr_loop_diverges [of input 0] assms by (simp add: SplitStringUsingSubstr_def)

theorem empty_delimiter_never_returns_witness: "SplitStringUsingSubstr 1 [97] [] KEEP_WHITESPACE SPLIT_WANT_ALL = None"
  by (rule empty_delimiter_never_returns) (simp add: npos_def)

text \<open>
  A pair with an empty key is not reported by \<open>SplitStringIntoKeyValuePairs\<close>, here \<open>":v"\<close>.
\<close>
theorem key_value_empty_key:
  "SplitStringIntoKeyValuePairs [58, 118] 58 44 = Some (True, [([], [118])])"
proof -
  have "SplitString 1 [58, 118] [44] TRIM_WHITESPACE SPLIT_WANT_NONEMPTY =
      Some (kept 1 TRIM_WHITESPACE SPLIT_WANT_NONEMPTY (splits (\<lambda>c. c \<in> set [44]) [58, 118]))"
    using SplitString_kept [of "[58, 118]" 1 "[44]" TRIM_WHITESPACE SPLIT_WANT_NONEMPTY] by (simp add: npos_def)
  moreover have "kept 1 TRIM_WHITESPACE SPLIT_WANT_NONEMPTY (splits (\<lambda>c. c \<in> set [44]) [58, 118]) = [[58, 118]]" by code_simp
  moreover have "AppendStringKeyValue [58, 118] 58 [] = (True, [([], [118])])"
  proof -
    have "sp_find_char [58, 118] 58 0 = 0" "find_first_not_of_char [58, 118] 58 0 = 1" by code_simp+
    moreover have "npos \<noteq> 0" "npos \<noteq> 1" by (simp_all add: npos_def)
    ultimately show ?thesis by (simp add: AppendStringKeyValue_def sp_substr_eq)
  qed
  ultimately show ?thesis by (simp add: SplitStringIntoKeyValuePairs_def del: kept_simps splits.simps)
qed

end
