(* ===== verification/String_Replace.thy ===== *)
theory String_Replace
  imports String_Util
begin

text \<open>
  Replacing in strings, \<open>base/strings/string_util.cc\<close>: \<open>DoReplaceMatchesAfterOffset\<close>, which finds and
  replaces substrings or characters in linear time, in the buffer of the string where it can, and
  the functions on top of it; the placeholders of \<open>ReplaceStringPlaceholders\<close>; and the bounded copy
  of \<open>strlcpy\<close>. The capacity of the string is an argument. \<open>None\<close> is a copy outside the string, an exception or not returning.
\<close>

section \<open>The code\<close>

text \<open>\<open>std::basic_string::find\<close> and \<open>find_first_of\<close>.\<close>

definition str_find :: "int list \<Rightarrow> int list \<Rightarrow> nat \<Rightarrow> nat" where
  "str_find input s pos =
     (if pos > length input then npos
      else let i = std_search input pos s in if i + length s \<le> length input then i else npos)"

definition str_find_first_of :: "int list \<Rightarrow> int list \<Rightarrow> nat \<Rightarrow> nat" where
  "str_find_first_of input s pos = scan_up (\<lambda>i. input ! i \<in> set s) pos (length input)"

text \<open>\<open>CharTraits::copy\<close> into the buffer of a string and \<open>CharTraits::move\<close> inside it.\<close>

definition buf_copy :: "int list \<Rightarrow> nat \<Rightarrow> int list \<Rightarrow> int list option" where
  "buf_copy buffer pos xs =
     (if pos + length xs \<le> length buffer then Some (take pos buffer @ xs @ drop (pos + length xs) buffer) else None)"

definition buf_move :: "int list \<Rightarrow> nat \<Rightarrow> nat \<Rightarrow> nat \<Rightarrow> int list option" where
  "buf_move buffer dst src n =
     (if src + n \<le> length buffer then buf_copy buffer dst (take n (drop src buffer)) else None)"

text \<open>\<open>str.append(src, pos, n)\<close>, \<open>str.replace(pos1, n1, src, pos2, n2)\<close> and \<open>str.resize(n)\<close>.\<close>

definition str_append :: "int list \<Rightarrow> int list \<Rightarrow> nat \<Rightarrow> nat \<Rightarrow> int list option" where
  "str_append str src pos n = (if pos > length src then None else Some (str @ take n (drop pos src)))"

definition str_replace :: "int list \<Rightarrow> nat \<Rightarrow> nat \<Rightarrow> int list \<Rightarrow> nat \<Rightarrow> nat \<Rightarrow> int list option" where
  "str_replace str pos1 n1 src pos2 n2 =
     (if pos1 > length str \<or> pos2 > length src then None
      else Some (take pos1 str @ take n2 (drop pos2 src) @ drop (pos1 + n1) str))"

definition str_resize :: "int list \<Rightarrow> nat \<Rightarrow> int list" where
  "str_resize str n = take n str @ replicate (n - length str) 0"

datatype Matcher = SubstringMatcher "int list" | CharacterMatcher "int list"

fun matcher_Find :: "Matcher \<Rightarrow> int list \<Rightarrow> nat \<Rightarrow> nat" where
  "matcher_Find (SubstringMatcher find_this) input pos = str_find input find_this pos"
| "matcher_Find (CharacterMatcher find_any_of_these) input pos = str_find_first_of input find_any_of_these pos"

fun MatchSize :: "Matcher \<Rightarrow> nat" where
  "MatchSize (SubstringMatcher find_this) = length find_this"
| "MatchSize (CharacterMatcher find_any_of_these) = 1"

datatype ReplaceType = REPLACE_ALL | REPLACE_FIRST

text \<open>
  The loops, over the search of the matcher: replacing each match by a text of its length; counting
  the matches; building the result in a new string; and alternating replacements and moves in place.
\<close>

partial_function (option) replace_same ::
    "(int list \<Rightarrow> nat \<Rightarrow> nat) \<Rightarrow> int list \<Rightarrow> int list \<Rightarrow> nat \<Rightarrow> int list option" where
  "replace_same fnd replace_with str pos =
     (if pos = npos then Some str
      else do {
        str \<leftarrow> buf_copy str pos replace_with;
        replace_same fnd replace_with str (fnd str (size_add pos (length replace_with)))
      })"

partial_function (option) count_matches ::
    "(int list \<Rightarrow> nat \<Rightarrow> nat) \<Rightarrow> nat \<Rightarrow> nat \<Rightarrow> int list \<Rightarrow> nat \<Rightarrow> nat \<Rightarrow> nat \<Rightarrow> (nat \<times> nat) option" where
  "count_matches fnd find_length expansion_per_match str match expansion num_matches =
     (if match = npos then Some (expansion, num_matches)
      else count_matches fnd find_length expansion_per_match str (fnd str (size_add match find_length))
             (size_add expansion expansion_per_match) (size_add num_matches 1))"

partial_function (option) replace_append ::
    "(int list \<Rightarrow> nat \<Rightarrow> nat) \<Rightarrow> nat \<Rightarrow> int list \<Rightarrow> int list \<Rightarrow> int list \<Rightarrow> nat \<Rightarrow> nat \<Rightarrow> nat \<Rightarrow> (int list \<times> nat) option" where
  "replace_append fnd find_length replace_with src str pos match num_matches = do {
     str \<leftarrow> str_append str src pos (size_sub match pos);
     let str = str @ replace_with;
     let pos = size_add match find_length;
     let num_matches = size_sub num_matches 1;
     if num_matches = 0 then Some (str, pos)
     else replace_append fnd find_length replace_with src str pos (fnd src pos) num_matches
   }"

partial_function (option) replace_moving ::
    "(int list \<Rightarrow> nat \<Rightarrow> nat) \<Rightarrow> nat \<Rightarrow> int list \<Rightarrow> nat \<Rightarrow> int list \<Rightarrow> nat \<Rightarrow> nat \<Rightarrow> (int list \<times> nat) option" where
  "replace_moving fnd find_length replace_with str_length str write_offset read_offset = do {
     str \<leftarrow> (if length replace_with \<noteq> 0 then buf_copy str write_offset replace_with else Some str);
     let write_offset = write_offset + length replace_with;
     let read_offset = read_offset + find_length;
     let match = min (fnd str read_offset) str_length;
     let n = size_sub match read_offset;
     str \<leftarrow> (if n \<noteq> 0 then buf_move str write_offset read_offset n else Some str);
     let write_offset = write_offset + n;
     let read_offset = read_offset + n;
     if read_offset < str_length
     then replace_moving fnd find_length replace_with str_length str write_offset read_offset
     else Some (str, write_offset)
   }"

text \<open>
  The template, over \<open>Find\<close> and \<open>MatchSize\<close> of its matcher. Returns whether a match was found, and the
  string.
\<close>

definition replace_matches ::
    "(int list \<Rightarrow> nat \<Rightarrow> nat) \<Rightarrow> nat \<Rightarrow> int list \<Rightarrow> nat \<Rightarrow> nat \<Rightarrow> int list \<Rightarrow> ReplaceType \<Rightarrow> (bool \<times> int list) option" where
  "replace_matches fnd find_length str str_capacity initial_offset replace_with replace_type =
     (if find_length = 0 then Some (False, str)
      else let first_match = fnd str initial_offset in
      if first_match = npos then Some (False, str)
      else let replace_length = length replace_with in
      if replace_type = REPLACE_FIRST then do {
        str \<leftarrow> str_replace str first_match find_length replace_with 0 replace_length;
        Some (True, str)
      }
      else if find_length = replace_length then do {
        str \<leftarrow> replace_same fnd replace_with str first_match;
        Some (True, str)
      }
      else if replace_length > find_length then do {
        let str_length = length str;
        let expansion_per_match = replace_length - find_length;
        (expansion, num_matches) \<leftarrow> count_matches fnd find_length expansion_per_match str first_match 0 0;
        let final_length = size_add str_length expansion;
        if str_capacity < final_length then do {
          (out, pos) \<leftarrow> replace_append fnd find_length replace_with str [] 0 first_match num_matches;
          out \<leftarrow> str_append out str pos (size_sub str_length pos);
          Some (True, out)
        } else do {
          let shift_src = size_add first_match find_length;
          let shift_dst = size_add shift_src expansion;
          let str = (if shift_dst > str_length then str_resize str shift_dst else str);
          str \<leftarrow> str_replace str shift_dst (size_sub str_length shift_src) str shift_src (size_sub str_length shift_src);
          (str, write_offset) \<leftarrow> replace_moving fnd find_length replace_with final_length str first_match (size_add first_match expansion);
          Some (True, str_resize str write_offset)
        }
      }
      else do {
        (str, write_offset) \<leftarrow> replace_moving fnd find_length replace_with (length str) str first_match first_match;
        Some (True, str_resize str write_offset)
      })"

definition DoReplaceMatchesAfterOffset ::
    "int list \<Rightarrow> nat \<Rightarrow> nat \<Rightarrow> Matcher \<Rightarrow> int list \<Rightarrow> ReplaceType \<Rightarrow> (bool \<times> int list) option" where
  "DoReplaceMatchesAfterOffset str str_capacity initial_offset matcher replace_with replace_type =
     replace_matches (matcher_Find matcher) (MatchSize matcher) str str_capacity initial_offset replace_with replace_type"

definition ReplaceCharsT :: "int list \<Rightarrow> nat \<Rightarrow> int list \<Rightarrow> int list \<Rightarrow> (bool \<times> int list) option" where
  "ReplaceCharsT input output_capacity find_any_of_these replace_with =
     DoReplaceMatchesAfterOffset input output_capacity 0 (CharacterMatcher find_any_of_these) replace_with REPLACE_ALL"

definition RemoveChars :: "int list \<Rightarrow> nat \<Rightarrow> int list \<Rightarrow> (bool \<times> int list) option" where
  "RemoveChars input output_capacity remove_chars = ReplaceCharsT input output_capacity remove_chars []"

definition ReplaceFirstSubstringAfterOffset :: "int list \<Rightarrow> nat \<Rightarrow> nat \<Rightarrow> int list \<Rightarrow> int list \<Rightarrow> int list option" where
  "ReplaceFirstSubstringAfterOffset str str_capacity start_offset find_this replace_with =
     map_option snd (DoReplaceMatchesAfterOffset str str_capacity start_offset (SubstringMatcher find_this) replace_with REPLACE_FIRST)"

definition ReplaceSubstringsAfterOffset :: "int list \<Rightarrow> nat \<Rightarrow> nat \<Rightarrow> int list \<Rightarrow> int list \<Rightarrow> int list option" where
  "ReplaceSubstringsAfterOffset str str_capacity start_offset find_this replace_with =
     map_option snd (DoReplaceMatchesAfterOffset str str_capacity start_offset (SubstringMatcher find_this) replace_with REPLACE_ALL)"

text \<open>
  \<open>DoReplaceStringPlaceholders\<close>: the inner loop over a run of dollar signs, the insertion of an offset
  at its \<open>upper_bound\<close>, and the scan over the format string. \<open>want_offsets\<close> says whether the caller
  passed a vector for the offsets, to which they are appended; the offset goes through an \<open>int\<close>.
\<close>

fun rsp_dollars :: "int list \<Rightarrow> int list \<Rightarrow> int list \<times> int list" where
  "rsp_dollars (c # rest) formatted = (if c = 36 then rsp_dollars rest (formatted @ [36]) else (c # rest, formatted))"
| "rsp_dollars [] formatted = ([], formatted)"

definition insert_offset :: "nat \<times> nat \<Rightarrow> (nat \<times> nat) list \<Rightarrow> (nat \<times> nat) list" where
  "insert_offset e offs = takeWhile (\<lambda>x. \<not> fst e < fst x) offs @ e # dropWhile (\<lambda>x. \<not> fst e < fst x) offs"

lemma rsp_dollars_length: "length (fst (rsp_dollars rest formatted)) \<le> length rest"
  by (induction rest formatted rule: rsp_dollars.induct) auto

function rsp_loop :: "int list list \<Rightarrow> bool \<Rightarrow> int list \<Rightarrow> int list \<Rightarrow> (nat \<times> nat) list \<Rightarrow> int list \<times> (nat \<times> nat) list" where
  "rsp_loop subst want_offsets [] formatted r_offsets = (formatted, r_offsets)"
| "rsp_loop subst want_offsets (c # rest) formatted r_offsets =
     (if c = 36 then
        case rest of [] \<Rightarrow> rsp_loop subst want_offsets [] formatted r_offsets
        | d # rest' \<Rightarrow>
            if d = 36 then
              let (rest', formatted) = rsp_dollars rest formatted in rsp_loop subst want_offsets rest' formatted r_offsets
            else if d < 49 \<or> d > 57 then rsp_loop subst want_offsets rest' formatted r_offsets
            else let index = nat (d - 49);
                     r_offset = nat (static_cast uint64 (static_cast int32 (int (length formatted)))) in
              rsp_loop subst want_offsets rest'
                (if index < length subst then formatted @ subst ! index else formatted)
                (if want_offsets then insert_offset (index, r_offset) r_offsets else r_offsets)
      else rsp_loop subst want_offsets rest (formatted @ [c]) r_offsets)"
  by pat_completeness auto
termination
  by (relation "measure (\<lambda>(s, w, rest, f, r). length rest)")
    (auto simp: less_Suc_eq_le, metis fst_conv length_Cons le_SucI rsp_dollars_length)

definition DoReplaceStringPlaceholders :: "int list \<Rightarrow> int list list \<Rightarrow> nat list option \<Rightarrow> (int list \<times> nat list option) option" where
  "DoReplaceStringPlaceholders format_string subst offsets =
     (if length subst \<ge> 10 then None
      else let (formatted, r_offsets) = rsp_loop subst (offsets \<noteq> None) format_string [] []
           in Some (formatted, map_option (\<lambda>os. os @ map snd r_offsets) offsets))"

text \<open>The shortcut for one parameter, which expects one offset.\<close>

definition ReplaceStringPlaceholders1 :: "int list \<Rightarrow> int list \<Rightarrow> (int list \<times> nat) option" where
  "ReplaceStringPlaceholders1 format_string a = do {
     (result, offsets) \<leftarrow> DoReplaceStringPlaceholders format_string [a] (Some []);
     case offsets of Some [offset] \<Rightarrow> Some (result, offset) | _ \<Rightarrow> None
   }"

text \<open>\<open>lcpyT\<close>: the copying loop, with the position of the terminator if it was met, and the loop over the rest of \<open>src\<close>.\<close>

function lcpy_loop :: "int list \<Rightarrow> int list \<Rightarrow> nat \<Rightarrow> nat \<Rightarrow> (int list \<times> nat option) option" where
  "lcpy_loop dst src dst_size i =
     (if i < dst_size then
        if i \<ge> length dst \<or> i \<ge> length src then None
        else let dst = dst[i := src ! i] in
          if src ! i = 0 then Some (dst, Some i) else lcpy_loop dst src dst_size (i + 1)
      else Some (dst, None))"
  by auto
termination
  by (relation "measure (\<lambda>(d, s, n, i). n - i)") auto

function lcpy_count :: "int list \<Rightarrow> nat \<Rightarrow> nat option" where
  "lcpy_count src n = (if n \<ge> length src then None else if src ! n \<noteq> 0 then lcpy_count src (n + 1) else Some n)"
  by auto
termination
  by (relation "measure (\<lambda>(s, n). length s - n)") auto

declare lcpy_loop.simps [simp del] lcpy_count.simps [simp del]

definition lcpyT :: "int list \<Rightarrow> int list \<Rightarrow> nat \<Rightarrow> (nat \<times> int list) option" where
  "lcpyT dst src dst_size = do {
     (dst, met) \<leftarrow> lcpy_loop dst src dst_size 0;
     case met of Some i \<Rightarrow> Some (i, dst)
     | None \<Rightarrow> do {
         dst \<leftarrow> (if dst_size \<noteq> 0 then if dst_size - 1 < length dst then Some (dst[dst_size - 1 := 0]) else None else Some dst);
         n \<leftarrow> lcpy_count src dst_size;
         Some (n, dst)
       }
   }"

section \<open>The reference: from left to right, without overlaps\<close>

text \<open>A match is a window of the matcher's length; \<open>ok\<close> says which windows match.\<close>

definition window_at :: "(int list \<Rightarrow> bool) \<Rightarrow> nat \<Rightarrow> int list \<Rightarrow> nat \<Rightarrow> bool" where
  "window_at ok len s i \<longleftrightarrow> i + len \<le> length s \<and> ok (take len (drop i s))"

function replaced :: "(int list \<Rightarrow> bool) \<Rightarrow> nat \<Rightarrow> int list \<Rightarrow> int list \<Rightarrow> int list" where
  "replaced ok len r s =
     (if s = [] \<or> len = 0 then s
      else if window_at ok len s 0 then r @ replaced ok len r (drop len s)
      else hd s # replaced ok len r (tl s))"
  by auto
termination
  by (relation "measure (\<lambda>(ok, len, r, s). length s)") auto

function match_count :: "(int list \<Rightarrow> bool) \<Rightarrow> nat \<Rightarrow> int list \<Rightarrow> nat" where
  "match_count ok len s =
     (if s = [] \<or> len = 0 then 0
      else if window_at ok len s 0 then Suc (match_count ok len (drop len s))
      else match_count ok len (tl s))"
  by auto
termination
  by (relation "measure (\<lambda>(ok, len, s). length s)") auto

declare replaced.simps [simp del] match_count.simps [simp del]

fun matcher_ok :: "Matcher \<Rightarrow> int list \<Rightarrow> bool" where
  "matcher_ok (SubstringMatcher s) window \<longleftrightarrow> window = s"
| "matcher_ok (CharacterMatcher cs) window \<longleftrightarrow> hd window \<in> set cs"

lemma replaced_Nil [simp]: "replaced ok len r [] = []" and match_count_Nil [simp]: "match_count ok len [] = 0"
  by (simp_all add: replaced.simps [of ok len r "[]"] match_count.simps [of ok len "[]"])

lemma window_drop: "p \<le> length s \<Longrightarrow> window_at ok len (drop p s) i \<longleftrightarrow> window_at ok len s (p + i)"
  by (auto simp: window_at_def add.commute)

lemma window_tl: "window_at ok len (tl s) i \<longleftrightarrow> window_at ok len s (Suc i)" if "s \<noteq> []"
  using that by (cases s) (auto simp: window_at_def)

lemma replaced_skip:
  assumes "0 < len" "k \<le> length s" "\<And>i. i < k \<Longrightarrow> \<not> window_at ok len s i"
  shows "replaced ok len r s = take k s @ replaced ok len r (drop k s) \<and> match_count ok len s = match_count ok len (drop k s)"
  using assms(2,3)
proof (induction k arbitrary: s)
  case (Suc k)
  have s: "s \<noteq> []" using Suc.prems(1) by auto
  have "replaced ok len r (tl s) = take k (tl s) @ replaced ok len r (drop k (tl s))
      \<and> match_count ok len (tl s) = match_count ok len (drop k (tl s))"
    using Suc.prems s by (intro Suc.IH) (auto simp: window_tl)
  moreover have "\<not> window_at ok len s 0" using Suc.prems(2) by blast
  moreover have "take (Suc k) s = hd s # take k (tl s)" "drop (Suc k) s = drop k (tl s)" using s by (cases s; simp)+
  ultimately show ?case using s assms(1) by (simp add: replaced.simps [of ok len r s] match_count.simps [of ok len s])
qed simp

lemma length_replaced:
  "0 < len \<Longrightarrow> len \<le> length r \<Longrightarrow> length (replaced ok len r s) = length s + match_count ok len s * (length r - len)"
proof (induction ok len r s rule: replaced.induct)
  case (1 ok len r s)
  consider "s = []" | "s \<noteq> []" "window_at ok len s 0" | "s \<noteq> []" "\<not> window_at ok len s 0" by blast
  then show ?case
  proof cases
    case 1
    then show ?thesis by (simp add: replaced.simps [of ok len r s] match_count.simps [of ok len s])
  next
    case 2
    then have "len \<le> length s" by (simp add: window_at_def)
    then show ?thesis using 2 1(1,3,4)
      by (simp add: replaced.simps [of ok len r s] match_count.simps [of ok len s])
  next
    case 3
    then show ?thesis using 1(2,3,4) by (simp add: replaced.simps [of ok len r s] match_count.simps [of ok len s])
  qed
qed

lemma length_replaced_le: "0 < len \<Longrightarrow> length r \<le> len \<Longrightarrow> length (replaced ok len r s) \<le> length s"
proof (induction ok len r s rule: replaced.induct)
  case (1 ok len r s)
  consider "s = []" | "s \<noteq> []" "window_at ok len s 0" | "s \<noteq> []" "\<not> window_at ok len s 0" by blast
  then show ?case
  proof cases
    case 1
    then show ?thesis by (simp add: replaced.simps [of ok len r s])
  next
    case 2
    then have "len \<le> length s" by (simp add: window_at_def)
    then show ?thesis using 2 1(1,3,4) by (simp add: replaced.simps [of ok len r s])
  next
    case 3
    then have "length (replaced ok len r s) = Suc (length (replaced ok len r (tl s)))" "length s = Suc (length (tl s))"
      using 1(3) by (simp_all add: replaced.simps [of ok len r s])
    then show ?thesis using 3 1(2,3,4) by (cases s) simp_all
  qed
qed

lemma match_count_le: "match_count ok len s \<le> length s"
proof (induction ok len s rule: match_count.induct)
  case (1 ok len s)
  consider "s = [] \<or> len = 0" | "s \<noteq> []" "0 < len" "window_at ok len s 0" | "s \<noteq> []" "0 < len" "\<not> window_at ok len s 0" by blast
  then show ?case
  proof cases
    case 1
    then show ?thesis by (simp add: match_count.simps [of ok len s])
  next
    case 2
    then have "Suc (length (drop len s)) \<le> length s" by (auto simp: window_at_def)
    then show ?thesis using 2 1(1) by (simp add: match_count.simps [of ok len s])
  next
    case 3
    then have "match_count ok len s = match_count ok len (tl s)" by (simp add: match_count.simps [of ok len s])
    then show ?thesis using 3 1(2) by simp
  qed
qed

lemma copy_in_place:
  assumes "w + length xs \<le> length b"
  obtains b' where "(if length xs \<noteq> 0 then buf_copy b w xs else Some b) = Some b'" "length b' = length b"
    "take (w + length xs) b' = take w b @ xs" "\<And>k. w + length xs \<le> k \<Longrightarrow> drop k b' = drop k b"
proof
  let ?b = "take w b @ xs @ drop (w + length xs) b"
  have eq: "?b = b" if "xs = []" using that by simp
  show "(if length xs \<noteq> 0 then buf_copy b w xs else Some b) = Some ?b" using assms eq by (auto simp: buf_copy_def)
  show "length ?b = length b" "take (w + length xs) ?b = take w b @ xs" using assms by simp_all
  show "drop k ?b = drop k b" if "w + length xs \<le> k" for k using assms that by simp
qed

lemma move_in_place:
  assumes "w \<le> p" "p + n \<le> length b"
  obtains b' where "(if n \<noteq> 0 then buf_move b w p n else Some b) = Some b'" "length b' = length b"
    "take (w + n) b' = take w b @ take n (drop p b)" "\<And>k. w + n \<le> k \<Longrightarrow> drop k b' = drop k b"
proof -
  have l: "length (take n (drop p b)) = n" using assms(2) by simp
  then have "(if n \<noteq> 0 then buf_move b w p n else Some b) =
      (if length (take n (drop p b)) \<noteq> 0 then buf_copy b w (take n (drop p b)) else Some b)"
    using assms(2) by (simp add: buf_move_def)
  moreover have "w + length (take n (drop p b)) \<le> length b" using l assms by simp
  ultimately show thesis using copy_in_place [of w "take n (drop p b)" b] that unfolding l by metis
qed

section \<open>The loops compute the reference\<close>

text \<open>
  What the loops need of a matcher: matches are windows of a fixed, positive length, and the search
  returns the first match from a position on.
\<close>

locale replace_matcher =
  fixes ok :: "int list \<Rightarrow> bool" and len :: nat and fnd :: "int list \<Rightarrow> nat \<Rightarrow> nat"
  assumes len_pos: "0 < len"
    and fnd_first: "length s < npos \<Longrightarrow> is_first (window_at ok len s) pos (length s + 1) (fnd s pos)"
begin

lemma fnd_none:
  assumes "length s < npos" "p \<le> length s" "fnd s p = npos"
  shows "replaced ok len r (drop p s) = drop p s" "match_count ok len (drop p s) = 0"
proof -
  have none: "\<not> window_at ok len (drop p s) i" for i
  proof
    assume w: "window_at ok len (drop p s) i"
    then have "p + i < length s + 1" using assms(2) by (auto simp: window_at_def)
    then show False using w window_drop [OF assms(2)] fnd_first [OF assms(1), of p] assms(3) by (auto simp: is_first_def)
  qed
  have "replaced ok len r (drop p s) = take (length (drop p s)) (drop p s) @ replaced ok len r (drop (length (drop p s)) (drop p s))
      \<and> match_count ok len (drop p s) = match_count ok len (drop (length (drop p s)) (drop p s))"
    by (rule replaced_skip [OF len_pos]) (use none in auto)
  then show "replaced ok len r (drop p s) = drop p s" "match_count ok len (drop p s) = 0"
    by (simp_all add: replaced.simps [of ok len r "[]"] match_count.simps [of ok len "[]"])
qed

lemma fnd_some:
  assumes "length s < npos" "p \<le> length s" "fnd s p = k" "k \<noteq> npos"
  shows "p \<le> k" "k + len \<le> length s"
    "replaced ok len r (drop p s) = take (k - p) (drop p s) @ r @ replaced ok len r (drop (k + len) s)"
    "match_count ok len (drop p s) = Suc (match_count ok len (drop (k + len) s))"
proof -
  have k: "p \<le> k" "window_at ok len s k" "\<And>i. p \<le> i \<Longrightarrow> i < k \<Longrightarrow> \<not> window_at ok len s i"
    using fnd_first [OF assms(1), of p] assms(3,4) by (auto simp: is_first_def)
  show le: "p \<le> k" "k + len \<le> length s" using k(1,2) by (auto simp: window_at_def)
  have "replaced ok len r (drop p s) = take (k - p) (drop p s) @ replaced ok len r (drop (k - p) (drop p s))
      \<and> match_count ok len (drop p s) = match_count ok len (drop (k - p) (drop p s))"
    using k le window_drop [OF assms(2)] by (intro replaced_skip [OF len_pos]) auto
  moreover have "drop (k - p) (drop p s) = drop k s" using le(1) by simp
  moreover have "drop k s \<noteq> []" using le(2) len_pos by auto
  moreover have "window_at ok len (drop k s) 0" using k(2) window_drop [of k s] le by simp
  ultimately show "replaced ok len r (drop p s) = take (k - p) (drop p s) @ r @ replaced ok len r (drop (k + len) s)"
    "match_count ok len (drop p s) = Suc (match_count ok len (drop (k + len) s))"
    using len_pos by (simp_all add: replaced.simps [of ok len r "drop k s"] match_count.simps [of ok len "drop k s"] add.commute)
qed

lemma replace_same_spec:
  assumes "length r = len" "length s < npos"
  shows "k \<noteq> npos \<Longrightarrow> k + len \<le> length s \<Longrightarrow>
    replace_same fnd r s k = Some (take k s @ r @ replaced ok len r (drop (k + len) s))"
  using assms(2)
proof (induction "length s - k" arbitrary: s k rule: less_induct)
  case less
  let ?s = "take k s @ r @ drop (k + len) s"
  have copy: "buf_copy s k r = Some ?s" using less.prems(2) assms(1) by (simp add: buf_copy_def)
  have add: "size_add k (length r) = k + len" using less.prems assms(1) by simp
  have l: "length ?s = length s" "drop (k + len) ?s = drop (k + len) s" "take (k + len) ?s = take k s @ r"
    using less.prems(2) assms(1) by simp_all
  define k' where "k' = fnd ?s (k + len)"
  have step: "replace_same fnd r s k = replace_same fnd r ?s k'"
    using less.prems(1) copy add by (simp add: replace_same.simps [of fnd r s k] k'_def)
  show ?case
  proof (cases "k' = npos")
    case True
    have "replaced ok len r (drop (k + len) s) = drop (k + len) s"
      using fnd_none(1) [of ?s "k + len" r] True l less.prems k'_def by simp
    then show ?thesis unfolding step using True by (simp add: replace_same.simps [of fnd r ?s npos])
  next
    case False
    note some = fnd_some [of ?s "k + len" k', unfolded l, OF less.prems(3,2) k'_def [symmetric] False]
    have "replace_same fnd r ?s k' = Some (take k' ?s @ r @ replaced ok len r (drop (k' + len) ?s))"
      using False some(1,2) less.prems len_pos l(1) by (intro less.hyps) auto
    moreover have "take k' ?s = take k s @ r @ take (k' - (k + len)) (drop (k + len) s)"
      using some(1) less.prems(2) assms(1) by (simp add: add.commute)
    ultimately show ?thesis unfolding step some(3) [of r] using l by simp
  qed
qed

lemma count_matches_spec:
  assumes "length s < npos"
  shows "k \<noteq> npos \<Longrightarrow> k + len \<le> length s \<Longrightarrow> e \<le> npos \<Longrightarrow> n + Suc (match_count ok len (drop (k + len) s)) \<le> npos \<Longrightarrow>
    count_matches fnd len per s k e n =
      Some ((e + Suc (match_count ok len (drop (k + len) s)) * per) mod (npos + 1), n + Suc (match_count ok len (drop (k + len) s)))"
proof (induction "length s - k" arbitrary: k e n rule: less_induct)
  case less
  have add: "size_add k len = k + len" "size_add n 1 = n + 1" using less.prems assms by simp_all
  define k' where "k' = fnd s (k + len)"
  have step: "count_matches fnd len per s k e n = count_matches fnd len per s k' (size_add e per) (n + 1)"
    using less.prems(1) add by (simp add: count_matches.simps [of fnd len per s k] k'_def)
  show ?case
  proof (cases "k' = npos")
    case True
    have "match_count ok len (drop (k + len) s) = 0"
      using fnd_none(2) [of s "k + len"] True less.prems assms k'_def by simp
    then show ?thesis unfolding step using True by (simp add: count_matches.simps [of fnd len per s npos] size_add_def)
  next
    case False
    note some = fnd_some [OF assms less.prems(2) k'_def [symmetric] False]
    let ?N = "match_count ok len (drop (k' + len) s)"
    have "size_add e per \<le> npos" by (simp add: size_add_def less_Suc_eq_le [symmetric])
    then have "count_matches fnd len per s k' (size_add e per) (n + 1) =
        Some ((size_add e per + Suc ?N * per) mod (npos + 1), n + 1 + Suc ?N)"
      using False some less.prems len_pos by (intro less.hyps) auto
    then show ?thesis unfolding step some(4) by (simp add: size_add_def mod_simps add.assoc)
  qed
qed

lemma replace_append_spec:
  assumes "length s < npos"
  shows "k \<noteq> npos \<Longrightarrow> pos \<le> k \<Longrightarrow> k + len \<le> length s \<Longrightarrow>
    replace_append fnd len r s out pos k (Suc (match_count ok len (drop (k + len) s)))
      \<bind> (\<lambda>(out, pos). str_append out s pos (size_sub (length s) pos)) =
    Some (out @ take (k - pos) (drop pos s) @ r @ replaced ok len r (drop (k + len) s))"
proof (induction "length s - k" arbitrary: k pos out rule: less_induct)
  case less
  let ?N = "match_count ok len (drop (k + len) s)"
  let ?out = "(out @ take (k - pos) (drop pos s)) @ r"
  have N: "?N < npos" using match_count_le [of ok len "drop (k + len) s"] assms less.prems(3) by (simp add: less_imp_diff_less)
  have add: "size_add k len = k + len" "size_sub k pos = k - pos" "size_sub (Suc ?N) 1 = ?N" "pos \<le> length s"
    using less.prems assms N by simp_all
  define k' where "k' = fnd s (k + len)"
  have step: "replace_append fnd len r s out pos k (Suc ?N) =
      (if ?N = 0 then Some (?out, k + len) else replace_append fnd len r s ?out (k + len) k' ?N)"
    using add by (simp add: replace_append.simps [of fnd len r s out] k'_def str_append_def Let_def)
  show ?case
  proof (cases "k' = npos")
    case True
    have "?N = 0" "replaced ok len r (drop (k + len) s) = drop (k + len) s"
      using fnd_none [of s "k + len"] True less.prems assms k'_def by simp_all
    then show ?thesis unfolding step using less.prems assms by (simp add: str_append_def)
  next
    case False
    note some = fnd_some [OF assms less.prems(3) k'_def [symmetric] False]
    have "replace_append fnd len r s ?out (k + len) k' (Suc (match_count ok len (drop (k' + len) s)))
        \<bind> (\<lambda>(out, pos). str_append out s pos (size_sub (length s) pos)) =
      Some (?out @ take (k' - (k + len)) (drop (k + len) s) @ r @ replaced ok len r (drop (k' + len) s))"
      using False some less.prems len_pos by (intro less.hyps) auto
    then show ?thesis unfolding step using some(3,4) by simp
  qed
qed

lemma replace_moving_spec:
  assumes "L < npos"
  shows "length b = L \<Longrightarrow> rd + len \<le> L \<Longrightarrow> w \<le> rd \<Longrightarrow> w + length r \<le> rd + len \<Longrightarrow>
    length r \<le> len \<or> w + length r + length (replaced ok len r (drop (rd + len) b)) \<le> L \<Longrightarrow>
    \<exists>b' w'. replace_moving fnd len r L b w rd = Some (b', w') \<and> w' \<le> length b' \<and>
      take w' b' = take w b @ r @ replaced ok len r (drop (rd + len) b)"
proof (induction "L - rd" arbitrary: b rd w rule: less_induct)
  case less
  note prems = less.prems
  have "w + length r \<le> length b" using prems(1,2,4) by linarith
  then obtain b1 where b1: "(if length r \<noteq> 0 then buf_copy b w r else Some b) = Some b1" "length b1 = length b"
    "take (w + length r) b1 = take w b @ r" "\<And>k. w + length r \<le> k \<Longrightarrow> drop k b1 = drop k b"
    by (rule copy_in_place) blast
  have L1: "length b1 < npos" "rd + len \<le> length b1" "length b1 = L" using b1(2) prems(1,2) assms by simp_all
  have rest: "drop (rd + len) b1 = drop (rd + len) b" using b1(4) prems(4) by blast
  define k where "k = fnd b1 (rd + len)"
  define n where "n = min k L - (rd + len)"
  have k: "rd + len \<le> min k L" "rd + len + n = min k L"
    using fnd_some(1) [OF L1(1,2) k_def [symmetric]] L1 assms by (auto simp: n_def min_def)
  have sub: "size_sub (min k L) (rd + len) = n" using k(1) assms by (simp add: n_def)
  have "w + length r \<le> rd + len" "rd + len + n \<le> length b1" using prems(4) k L1 by simp_all
  then obtain b2 where b2: "(if n \<noteq> 0 then buf_move b1 (w + length r) (rd + len) n else Some b1) = Some b2" "length b2 = length b1"
    "take (w + length r + n) b2 = take (w + length r) b1 @ take n (drop (rd + len) b1)"
    "\<And>j. w + length r + n \<le> j \<Longrightarrow> drop j b2 = drop j b1"
    by (rule move_in_place) blast
  have step: "replace_moving fnd len r L b w rd =
      (if rd + len + n < L then replace_moving fnd len r L b2 (w + length r + n) (rd + len + n) else Some (b2, w + length r + n))"
    using b1(1) b2(1) sub by (cases "n = 0") (simp_all add: replace_moving.simps [of fnd len r L b] k_def Let_def)
  have w2: "w + length r + n \<le> length b2" using prems(4) k(2) L1 b2(2) by simp
  show ?case
  proof (cases "k = npos")
    case True
    then have "n = L - (rd + len)" "rd + len + n = L" using k assms by simp_all
    moreover have "replaced ok len r (drop (rd + len) b) = drop (rd + len) b"
      using fnd_none(1) [OF L1(1,2), of r] True k_def rest by simp
    ultimately show ?thesis unfolding step using b1 b2 rest L1 w2 by simp
  next
    case False
    note some = fnd_some [OF L1(1,2) k_def [symmetric] False]
    let ?rest = "drop (k + len) b"
    have m: "min k L = k" "rd + len + n = k" "k < L" using some(2) L1 k(2) len_pos by simp_all
    have R: "replaced ok len r (drop (rd + len) b) = take n (drop (rd + len) b) @ r @ replaced ok len r (drop (k + len) b)"
      using some(3) [of r] rest b1(4) [of "k + len"] prems(4) some(1) m(2) diff_add_inverse [of "rd + len" n] by simp
    have len_n: "length (take n (drop (rd + len) b)) = n" using m prems(1) by simp
    have d2: "drop (k + len) b2 = ?rest" using b2(4) [of "k + len"] b1(4) [of "k + len"] prems(4) m(2) some(1) by simp
    have fits: "w + length r + n + length r \<le> k + len"
    proof (cases "length r \<le> len")
      case True
      then show ?thesis using prems(4) m(2) by simp
    next
      case False
      then have "length ?rest \<le> length (replaced ok len r ?rest)" using length_replaced [OF len_pos, of r ok ?rest] by simp
      moreover have "w + length r + (n + length r + length (replaced ok len r ?rest)) \<le> L"
        using prems(5) False R len_n by simp
      moreover have "k + len + length ?rest = L" using some(2) L1 prems(1) by simp
      ultimately show ?thesis by linarith
    qed
    have "\<exists>b' w'. replace_moving fnd len r L b2 (w + length r + n) k = Some (b', w') \<and> w' \<le> length b' \<and>
        take w' b' = take (w + length r + n) b2 @ r @ replaced ok len r (drop (k + len) b2)"
    proof (rule less.hyps)
      show "L - k < L - rd" "length b2 = L" "k + len \<le> L" "w + length r + n \<le> k" "w + length r + n + length r \<le> k + len"
        using m some(2) L1 b2(2) prems len_pos fits by simp_all
      show "length r \<le> len \<or> w + length r + n + length r + length (replaced ok len r (drop (k + len) b2)) \<le> L"
        using prems(5) R len_n d2 by auto
    qed
    then show ?thesis unfolding step R using m b1(3) b2(3) d2 rest by simp
  qed
qed

end

text \<open>Both matchers of the code meet the contract.\<close>

interpretation substring_matcher: replace_matcher "matcher_ok (SubstringMatcher (c # s))" "MatchSize (SubstringMatcher (c # s))"
  "matcher_Find (SubstringMatcher (c # s))"
proof (unfold_locales, goal_cases)
  case (2 str pos)
  have "matcher_Find (SubstringMatcher (c # s)) str pos = sp_find str (c # s) pos" by (simp add: str_find_def sp_find_def)
  moreover have "window_at (matcher_ok (SubstringMatcher (c # s))) (MatchSize (SubstringMatcher (c # s))) str = matches_at str (c # s)"
    by (auto simp: fun_eq_iff window_at_def matches_at_def)
  ultimately show ?case using sp_find_first [OF 2] by simp
qed simp

interpretation character_matcher: replace_matcher "matcher_ok (CharacterMatcher cs)" "MatchSize (CharacterMatcher cs)"
  "matcher_Find (CharacterMatcher cs)"
proof (unfold_locales, goal_cases)
  case (2 str pos)
  have w: "window_at (matcher_ok (CharacterMatcher cs)) (MatchSize (CharacterMatcher cs)) str i \<longleftrightarrow> i < length str \<and> str ! i \<in> set cs" for i
    by (auto simp: window_at_def hd_drop_conv_nth take_Suc hd_conv_nth)
  have "is_first (\<lambda>i. str ! i \<in> set cs) pos (length str) (matcher_Find (CharacterMatcher cs) str pos)"
    using scan_up_first [of "length str" "\<lambda>i. str ! i \<in> set cs" pos] 2 by (simp add: str_find_first_of_def)
  then show ?case using w by (auto simp: is_first_def split: if_splits)
qed simp

lemma matcher_contract: "0 < MatchSize m \<Longrightarrow> replace_matcher (matcher_ok m) (MatchSize m) (matcher_Find m)"
proof (cases m)
  case (SubstringMatcher s)
  assume "0 < MatchSize m"
  then obtain c t where "s = c # t" using SubstringMatcher by (cases s) auto
  then show ?thesis using SubstringMatcher substring_matcher.replace_matcher_axioms by blast
next
  case (CharacterMatcher cs)
  then show ?thesis using character_matcher.replace_matcher_axioms by blast
qed

section \<open>Replacing all matches\<close>

lemma str_resize_take: "n \<le> length s \<Longrightarrow> str_resize s n = take n s"
  by (simp add: str_resize_def)

text \<open>The string once its tail is shifted to the end: the first match ends where it did, the rest is \<open>expansion\<close> further.\<close>

lemma shifted_string:
  fixes f len e :: nat
  assumes "f + len \<le> length s"
  defines "s1 \<equiv> (if f + len + e > length s then str_resize s (f + len + e) else s)"
  obtains s2 where "str_replace s1 (f + len + e) (length s - (f + len)) s1 (f + len) (length s - (f + len)) = Some s2"
    "length s2 = length s + e" "take (f + len) s2 = take (f + len) s" "drop (f + len + e) s2 = drop (f + len) s"
proof
  let ?n = "length s - (f + len)"
  let ?s2 = "take (f + len + e) s1 @ take ?n (drop (f + len) s1) @ drop (f + len + e + ?n) s1"
  have s1: "length s1 = max (length s) (f + len + e)" "take (length s) s1 = s"
    by (auto simp: s1_def str_resize_def)
  have tail: "take ?n (drop (f + len) s1) = drop (f + len) s"
    using s1(2) assms(1) by (metis drop_take)
  have nothing: "drop (f + len + e + ?n) s1 = []" using s1(1) assms(1) by simp
  show "str_replace s1 (f + len + e) ?n s1 (f + len) ?n = Some ?s2" using s1(1) assms(1) by (simp add: str_replace_def)
  show "length ?s2 = length s + e" unfolding tail nothing using s1(1) assms(1) by simp
  have "take (f + len) s1 = take (f + len) s" using s1(2) assms(1) by (metis min_absorb1 take_take)
  then show "take (f + len) ?s2 = take (f + len) s" using s1(1) by simp
  show "drop (f + len + e) ?s2 = drop (f + len) s" unfolding tail nothing using s1(1) by simp
qed

context replace_matcher
begin

lemma replace_first_spec:
  assumes "length s < npos" "off \<le> length s"
  shows "replace_matches fnd len s cap off r REPLACE_FIRST =
    (if fnd s off = npos then Some (False, s) else Some (True, take (fnd s off) s @ r @ drop (fnd s off + len) s))"
proof -
  have "fnd s off \<le> length s" if "fnd s off \<noteq> npos" using fnd_some(2) [OF assms refl that] by simp
  then show ?thesis using len_pos by (cases "fnd s off = npos") (simp_all add: replace_matches_def str_replace_def Let_def)
qed

lemma replace_growing:
  assumes s: "length s < npos" "off \<le> length s" and f: "fnd s off = f" "f \<noteq> npos" and grow: "len < length r"
    and small: "f + length r + length (replaced ok len r (drop (f + len) s)) < npos"
  shows "replace_matches fnd len s cap off r REPLACE_ALL = Some (True, take f s @ r @ replaced ok len r (drop (f + len) s))"
proof -
  note some = fnd_some [OF s f]
  define N where "N = match_count ok len (drop (f + len) s)"
  define per where "per = length r - len"
  define e where "e = Suc N * per"
  have R: "length (replaced ok len r (drop (f + len) s)) = length s - (f + len) + N * per"
    using length_replaced [OF len_pos, of r ok "drop (f + len) s"] grow by (simp add: N_def per_def)
  have e: "length s + e = f + length r + length (replaced ok len r (drop (f + len) s))"
    using some(2) grow unfolding R e_def by (simp add: per_def)
  have le: "length s + e < npos" using small e by simp
  have N: "N < npos" using match_count_le [of ok len "drop (f + len) s"] s(1) some(2) by (simp add: N_def less_imp_diff_less)
  have count: "count_matches fnd len per s f 0 0 = Some (e, Suc N)"
    using count_matches_spec [OF s(1) f(2) some(2), of 0 0 per] N le by (simp add: N_def [symmetric] e_def)
  show ?thesis
  proof (cases "cap < length s + e")
    case True
    have "replace_append fnd len r s [] 0 f (Suc N) \<bind> (\<lambda>(out, pos). str_append out s pos (size_sub (length s) pos)) =
        Some (take f s @ r @ replaced ok len r (drop (f + len) s))"
      using replace_append_spec [OF s(1) f(2) _ some(2), of 0 r "[]"] by (simp add: N_def)
    then obtain out pos where "replace_append fnd len r s [] 0 f (Suc N) = Some (out, pos)"
      "str_append out s pos (size_sub (length s) pos) = Some (take f s @ r @ replaced ok len r (drop (f + len) s))"
      by (auto split: bind_splits)
    then show ?thesis using f grow count le True len_pos
      by (simp add: replace_matches_def Let_def per_def [symmetric])
  next
    case False
    obtain s2 where s2: "str_replace (if f + len + e > length s then str_resize s (f + len + e) else s) (f + len + e) (length s - (f + len))
        (if f + len + e > length s then str_resize s (f + len + e) else s) (f + len) (length s - (f + len)) = Some s2"
      "length s2 = length s + e" "take (f + len) s2 = take (f + len) s" "drop (f + len + e) s2 = drop (f + len) s"
      by (rule shifted_string [OF some(2), of e]) blast
    have d: "drop (f + e + len) s2 = drop (f + len) s" using s2(4) by (simp add: add.commute add.left_commute)
    have fr: "f + length r \<le> f + e + len" using grow by (simp add: e_def per_def)
    obtain b w where b: "replace_moving fnd len r (length s + e) s2 f (f + e) = Some (b, w)" "w \<le> length b"
      "take w b = take f s2 @ r @ replaced ok len r (drop (f + e + len) s2)"
      using replace_moving_spec [of "length s + e" s2 "f + e" f r] le s2(2) some(2) fr e d by auto
    have t: "take f s2 = take f s" using s2(3) by (metis le_add1 min_absorb1 take_take)
    have sizes: "size_add (length s) e = length s + e" "size_add f len = f + len" "size_add (f + len) e = f + len + e"
      "size_add f e = f + e" "size_sub (length s) (f + len) = length s - (f + len)" "(e mod (npos + 1)) = e"
      using le some(2) s(1) by simp_all
    show ?thesis using f grow count False len_pos s2(1) b t d sizes
      by (cases "length s < f + len + e") (simp_all add: replace_matches_def Let_def per_def [symmetric] str_resize_take)
  qed
qed

lemma replace_all_spec:
  assumes s: "length s < npos" "off \<le> length s"
    and small: "off + length (replaced ok len r (drop off s)) < npos"
  shows "replace_matches fnd len s cap off r REPLACE_ALL =
    Some (match_count ok len (drop off s) \<noteq> 0, take off s @ replaced ok len r (drop off s))"
proof (cases "fnd s off = npos")
  case True
  then show ?thesis using fnd_none [OF s] len_pos by (simp add: replace_matches_def)
next
  case False
  define f where "f = fnd s off"
  note some = fnd_some [OF s f_def [symmetric]] False [folded f_def]
  have out: "take off s @ replaced ok len r (drop off s) = take f s @ r @ replaced ok len r (drop (f + len) s)"
  proof -
    have "take f s = take off s @ take (f - off) (drop off s)" using some(1) False f_def by (simp add: take_add [symmetric])
    then show ?thesis using some(3) [of r] False f_def by simp
  qed
  have n: "match_count ok len (drop off s) \<noteq> 0" using some(4) False f_def by simp
  have le: "f + len \<le> length s" using some(2) False f_def by simp
  consider "len = length r" | "len < length r" | "length r < len" by linarith
  then show ?thesis
  proof cases
    case 1
    have "replace_same fnd r s f = Some (take f s @ r @ replaced ok len r (drop (f + len) s))"
      using replace_same_spec [OF 1 [symmetric] s(1)] False le f_def by simp
    then show ?thesis unfolding out using n 1 False f_def len_pos by (simp add: replace_matches_def Let_def)
  next
    case 2
    have "off + length (replaced ok len r (drop off s)) = length (take off s @ replaced ok len r (drop off s))" using s(2) by simp
    also have "\<dots> = f + length r + length (replaced ok len r (drop (f + len) s))" unfolding out using le by simp
    finally show ?thesis unfolding out using replace_growing [OF s f_def [symmetric] _ 2] small n False f_def by simp
  next
    case 3
    obtain b w where "replace_moving fnd len r (length s) s f f = Some (b, w)" "w \<le> length b"
      "take w b = take f s @ r @ replaced ok len r (drop (f + len) s)"
      using replace_moving_spec [OF s(1), of s f f r] le 3 by auto
    then show ?thesis unfolding out using n 3 False f_def len_pos by (simp add: replace_matches_def Let_def str_resize_take)
  qed
qed

end

section \<open>Properties\<close>

text \<open>
  C21: replacing is exact. For a string and a result shorter than \<open>npos\<close>, a start inside the string
  and either matcher, whatever the capacity of the string (so in every one of the strategies: equal
  lengths, shrinking, growing in place after shifting the tail, growing into a new buffer), all
  loops end, no copy or move leaves the buffer or overwrites text not yet searched, and the result
  is the text before the start followed by the rest with its leftmost non-overlapping matches
  replaced; the return value says whether there was one. Replacing only the first match changes
  exactly that one.
\<close>
theorem replace_matches_exact:
  assumes "length s < npos" "off \<le> length s" "0 < MatchSize m"
    and "off + length (replaced (matcher_ok m) (MatchSize m) r (drop off s)) < npos"
  shows "DoReplaceMatchesAfterOffset s cap off m r REPLACE_ALL =
      Some (match_count (matcher_ok m) (MatchSize m) (drop off s) \<noteq> 0,
        take off s @ replaced (matcher_ok m) (MatchSize m) r (drop off s))
    \<and> (\<exists>k. is_first (window_at (matcher_ok m) (MatchSize m) s) off (length s + 1) k
      \<and> DoReplaceMatchesAfterOffset s cap off m r REPLACE_FIRST =
        (if k = npos then Some (False, s) else Some (True, take k s @ r @ drop (k + MatchSize m) s)))"
proof -
  note contract = matcher_contract [OF assms(3)]
  show ?thesis unfolding DoReplaceMatchesAfterOffset_def
    using replace_matcher.replace_all_spec [OF contract assms(1,2,4), of cap]
      replace_matcher.replace_first_spec [OF contract assms(1,2), of cap r]
      replace_matcher.fnd_first [OF contract assms(1), of off] by blast
qed

theorem replace_matches_exact_witness:
  "DoReplaceMatchesAfterOffset [97, 120, 98, 120] 10 1 (SubstringMatcher [120]) [121, 122] REPLACE_ALL = Some (True, [97, 121, 122, 98, 121, 122])"
proof -
  have r: "replaced (matcher_ok (SubstringMatcher [120])) (MatchSize (SubstringMatcher [120])) [121, 122] (drop 1 [97, 120, 98, 120])
      = [121, 122, 98, 121, 122]"
    "match_count (matcher_ok (SubstringMatcher [120])) (MatchSize (SubstringMatcher [120])) (drop 1 [97, 120, 98, 120]) = 2"
    by code_simp+
  then have "1 + length (replaced (matcher_ok (SubstringMatcher [120])) (MatchSize (SubstringMatcher [120])) [121, 122] (drop 1 [97, 120, 98, 120])) < npos"
    by (simp only: r) (simp add: npos_def)
  moreover have "length [97, 120, 98, 120 :: int] < npos" by (simp add: npos_def)
  ultimately show ?thesis
    using replace_matches_exact [of "[97, 120, 98, 120]" 1 "SubstringMatcher [120]" "[121, 122]" 10] by (simp only: r) simp
qed

lemma match_count_all: "match_count (matcher_ok (CharacterMatcher [a])) 1 (replicate n a) = n"
proof (induction n)
  case (Suc n)
  then show ?case by (simp add: match_count.simps [of _ _ "a # replicate n a"] window_at_def)
qed simp

text \<open>
  C27: the size of a growing string is not checked. In the case where the growth of all matches wraps
  to zero, the string counts as large enough for the result and the first replacement is copied past
  its end: so with \<open>n\<close> matches in a string of \<open>n\<close> characters and a replacement of more than \<open>n\<close> characters whose
  growth \<open>n * (length r - 1)\<close> is \<open>2\<^sup>6\<^sup>4\<close>.
\<close>
theorem replace_size_overflow:
  assumes "0 < n" "n < npos" "n * (length r - 1) = npos + 1" "n < length r" "n \<le> cap"
  shows "DoReplaceMatchesAfterOffset (replicate n a) cap 0 (CharacterMatcher [a]) r REPLACE_ALL = None"
proof -
  let ?s = "replicate n a" and ?fnd = "matcher_Find (CharacterMatcher [a])"
  obtain k where n: "n = Suc k" using assms(1) by (cases n) auto
  have s: "?s = a # replicate k a" using n by simp
  have first: "?fnd ?s 0 = 0" using assms(1) by (simp add: str_find_first_of_def scan_up.simps [of _ 0])
  have mc: "match_count (matcher_ok (CharacterMatcher [a])) 1 (drop (0 + 1) ?s) = k"
    unfolding s using match_count_all [of a k] by simp
  have ne: "(0::nat) \<noteq> npos" using assms(2) by auto
  have "count_matches ?fnd 1 (length r - 1) ?s 0 0 0 = Some ((Suc k * (length r - 1)) mod (npos + 1), Suc k)"
    using character_matcher.count_matches_spec [of ?s 0 "[a]" 0 0 "length r - 1"] mc ne assms(1,2) n by simp
  then have count: "count_matches ?fnd 1 (length r - 1) ?s 0 0 0 = Some (0, n)"
    using assms(3) n by (simp del: mult_Suc add_Suc_right)
  have "str_replace ?s 1 (n - 1) ?s 1 (n - 1) = Some ?s" using assms(1) n by (simp add: str_replace_def)
  moreover have "replace_moving ?fnd 1 r n ?s 0 0 = None"
    unfolding replace_moving.simps [of ?fnd 1 r n ?s] using assms(4) by (auto simp: buf_copy_def)
  moreover have "size_add n 0 = n" "size_add 0 1 = 1" "size_add 1 0 = 1" "size_add 0 0 = 0" "size_sub n 1 = n - 1" using assms(1,2) by simp_all
  moreover have "1 < length r" "length r \<noteq> 1" using assms(1,4) by simp_all
  ultimately show ?thesis using first ne count assms(1,5)
    by (simp add: DoReplaceMatchesAfterOffset_def replace_matches_def Let_def)
qed

theorem replace_size_overflow_witness:
  "DoReplaceMatchesAfterOffset (replicate (2 ^ 32) 97) (2 ^ 32) 0 (CharacterMatcher [97]) (replicate (2 ^ 32 + 1) 98) REPLACE_ALL = None"
  by (rule replace_size_overflow) (simp_all add: npos_def del: replicate.simps)

section \<open>Placeholders\<close>

text \<open>
  What a format string denotes: literal characters and parameters, counted from 0. A run of dollar
  signs stands for one less; a dollar sign with another character, or at the end, for nothing.
\<close>

datatype placeholder = Text int | Param nat

function placeholders :: "int list \<Rightarrow> placeholder list" where
  "placeholders [] = []"
| "placeholders (c # rest) =
     (if c \<noteq> 36 then Text c # placeholders rest
      else if rest = [] then []
      else if hd rest = 36 then map Text (takeWhile (\<lambda>x. x = 36) rest) @ placeholders (dropWhile (\<lambda>x. x = 36) rest)
      else (if 49 \<le> hd rest \<and> hd rest \<le> 57 then [Param (nat (hd rest - 49))] else []) @ placeholders (tl rest))"
  by pat_completeness auto
termination
  by (relation "measure length") (auto simp: le_imp_less_Suc length_dropWhile_le)

fun expansion :: "int list list \<Rightarrow> placeholder \<Rightarrow> int list" where
  "expansion subst (Text c) = [c]"
| "expansion subst (Param k) = (if k < length subst then subst ! k else [])"

definition expanded :: "int list list \<Rightarrow> placeholder list \<Rightarrow> int list" where
  "expanded subst ts = concat (map (expansion subst) ts)"

text \<open>The parameters in the order of the format string, with the positions of their texts in the result.\<close>

fun occurrences :: "int list list \<Rightarrow> nat \<Rightarrow> placeholder list \<Rightarrow> (nat \<times> nat) list" where
  "occurrences subst pos [] = []"
| "occurrences subst pos (Text c # ts) = occurrences subst (Suc pos) ts"
| "occurrences subst pos (Param k # ts) = (k, pos) # occurrences subst (pos + length (expansion subst (Param k))) ts"

lemma expanded_simps [simp]: "expanded subst [] = []" "expanded subst (t # ts) = expansion subst t @ expanded subst ts"
  "expanded subst (ts @ us) = expanded subst ts @ expanded subst us" "expanded subst (map Text cs) = cs"
  by (simp_all add: expanded_def) (induction cs; simp)

lemma occurrences_text: "occurrences subst pos (map Text cs @ ts) = occurrences subst (pos + length cs) ts"
  by (induction cs arbitrary: pos) auto

lemma rsp_dollars_eq:
  "rsp_dollars rest formatted = (dropWhile (\<lambda>x. x = 36) rest, formatted @ takeWhile (\<lambda>x. x = 36) rest)"
  by (induction rest formatted rule: rsp_dollars.induct) auto

lemma offset_cast: "n < 2 ^ 31 \<Longrightarrow> nat (static_cast uint64 (static_cast int32 (int n))) = n"
proof -
  assume "n < 2 ^ 31"
  then have "in_range int32 (int n)" "in_range uint64 (int n)" by (simp_all add: ctype_defs)
  then show ?thesis by simp
qed

lemma rsp_loop_spec:
  "length formatted + length (expanded subst (placeholders fmt)) < 2 ^ 31 \<Longrightarrow>
   rsp_loop subst want fmt formatted offs = (formatted @ expanded subst (placeholders fmt),
     if want then foldl (\<lambda>r e. insert_offset e r) offs (occurrences subst (length formatted) (placeholders fmt)) else offs)"
proof (induction subst want fmt formatted offs rule: rsp_loop.induct)
  case (2 subst want c rest formatted offs)
  note IH = 2(1-5) and small = 2(6)
  consider "c \<noteq> 36" | "c = 36" "rest = []" | d r where "c = 36" "rest = d # r" "d = 36"
    | d r where "c = 36" "rest = d # r" "d \<noteq> 36" "d < 49 \<or> d > 57"
    | d r where "c = 36" "rest = d # r" "d \<noteq> 36" "49 \<le> d" "d \<le> 57"
    by (cases "c = 36"; cases rest) force+
  then show ?case
  proof cases
    case 1
    then show ?thesis using IH(5) small by simp
  next
    case 2
    then show ?thesis by simp
  next
    case 3
    let ?f = "formatted @ takeWhile (\<lambda>x. x = 36) rest" and ?r = "dropWhile (\<lambda>x. x = 36) rest"
    have p: "placeholders (c # rest) = map Text (takeWhile (\<lambda>x. x = 36) rest) @ placeholders ?r" using 3 by simp
    have "rsp_loop subst want ?r ?f offs = (?f @ expanded subst (placeholders ?r),
        if want then foldl (\<lambda>r e. insert_offset e r) offs (occurrences subst (length ?f) (placeholders ?r)) else offs)"
      using IH(2) [OF 3] small p rsp_dollars_eq by simp
    moreover have "rsp_loop subst want (c # rest) formatted offs = rsp_loop subst want ?r ?f offs"
      using 3 rsp_dollars_eq [of rest formatted] by simp
    ultimately show ?thesis unfolding p by (simp add: occurrences_text)
  next
    case 4
    then show ?thesis using IH(3) [OF 4(1-3)] small by auto
  next
    case 5
    have off: "nat (static_cast uint64 (static_cast int32 (int (length formatted)))) = length formatted"
      using small by (intro offset_cast) simp
    have "\<not> (d < 49 \<or> d > 57)" using 5 by simp
    then show ?thesis using 5 IH(4) [OF 5(1-3) _ refl off [symmetric]] small by (auto simp: off Let_def)
  qed
qed simp

lemma sorted_insert_between:
  fixes f :: "'a \<Rightarrow> 'b::linorder"
  assumes "sorted (map f (A @ B))" "\<forall>x \<in> set A. f x \<le> f e" "\<forall>y \<in> set B. f e < f y"
  shows "sorted (map f (A @ e # B))"
proof -
  have "sorted (map f B)" using assms(1) by (simp add: sorted_append)
  moreover have "\<forall>y \<in> set B. f e \<le> f y" using assms(3) less_imp_le by blast
  ultimately have "sorted (map f (e # B))" by simp
  moreover have "sorted (map f A)" "\<forall>x \<in> set A. \<forall>y \<in> set B. f x \<le> f y" using assms(1) by (simp_all add: sorted_append)
  ultimately show ?thesis using assms(2) by (simp add: sorted_append)
qed

lemma insert_offset_sort: "insert_offset e (sort_key fst xs) = sort_key fst (xs @ [e])"
proof -
  define P where "P = (\<lambda>x :: nat \<times> nat. \<not> fst e < fst x)"
  define A where "A = takeWhile P (sort_key fst xs)"
  define B where "B = dropWhile P (sort_key fst xs)"
  have ys: "sort_key fst xs = A @ B" by (simp add: A_def B_def)
  have low: "\<forall>x \<in> set A. fst x \<le> fst e" by (auto simp: A_def P_def dest: set_takeWhileD)
  have sorted: "sorted (map fst (A @ B))" unfolding ys [symmetric] by simp
  have high: "\<forall>y \<in> set B. fst e < fst y"
  proof (cases B)
    case (Cons z zs)
    have "\<not> P z" using hd_dropWhile [of P "sort_key fst xs"] Cons unfolding B_def by (metis list.distinct(1) list.sel(1))
    moreover have "sorted (map fst B)" using sorted by (simp add: sorted_append)
    ultimately show ?thesis using Cons by (auto simp: P_def)
  qed simp
  have "sort_key fst (xs @ [e]) = A @ e # B"
  proof (rule properties_for_sort_key)
    have "mset (A @ B) = mset xs" unfolding ys [symmetric] by simp
    then show "mset (A @ e # B) = mset (xs @ [e])" by simp
    show "sorted (map fst (A @ e # B))" by (rule sorted_insert_between [OF sorted low high])
    show "filter (\<lambda>x. fst k = fst x) (A @ e # B) = filter (\<lambda>x. fst k = fst x) (xs @ [e])" for k
    proof -
      have "filter (\<lambda>x. fst k = fst x) (A @ B) = filter (\<lambda>x. fst k = fst x) xs" unfolding ys [symmetric]
        using sort_key_stable [of fst "fst k" xs] by (simp add: eq_commute [of "fst k"])
      moreover have "filter (\<lambda>x. fst k = fst x) B = []" if "fst k = fst e" using high that by (auto simp: filter_empty_conv)
      ultimately show ?thesis by auto
    qed
  qed
  then show ?thesis by (simp add: insert_offset_def P_def [symmetric] A_def [symmetric] B_def [symmetric])
qed

lemma foldl_insert_offset: "foldl (\<lambda>r e. insert_offset e r) (sort_key fst xs) ys = sort_key fst (xs @ ys)"
proof (induction ys arbitrary: xs)
  case (Cons y ys)
  then show ?case using insert_offset_sort [of y xs] Cons.IH [of "xs @ [y]"] by simp
qed simp

lemma occurrences_at:
  "(k, i) \<in> set (occurrences subst pos ts) \<Longrightarrow> k < length subst \<Longrightarrow>
   \<exists>pre suf. expanded subst ts = pre @ subst ! k @ suf \<and> i = pos + length pre"
proof (induction subst pos ts rule: occurrences.induct)
  case (2 subst pos c ts)
  then obtain pre suf where "expanded subst ts = pre @ subst ! k @ suf" "i = Suc pos + length pre" by auto
  then show ?case by (intro exI [of _ "c # pre"] exI [of _ suf]) simp
next
  case (3 subst pos k' ts)
  show ?case
  proof (cases "(k, i) = (k', pos)")
    case True
    then show ?thesis using 3(3) by (intro exI [of _ "[]"] exI [of _ "expanded subst ts"]) simp
  next
    case False
    then obtain pre suf where "expanded subst ts = pre @ subst ! k @ suf"
      "i = pos + length (expansion subst (Param k')) + length pre" using 3 by auto
    then show ?thesis by (intro exI [of _ "expansion subst (Param k') @ pre"] exI [of _ suf]) simp
  qed
qed simp

text \<open>
  placeholders. With at most nine parameters and a result of fewer than \<open>2\<^sup>3\<^sup>1\<close> characters, the
  formatted string is the expansion of the format string, and the offsets, appended when asked for,
  are those of the placeholders in it ordered by parameter and, for one parameter, by position; the
  text of the parameter stands in the result at each of them.
\<close>
theorem placeholders_exact:
  assumes "length subst < 10" "length (expanded subst (placeholders format_string)) < 2 ^ 31"
  defines "result \<equiv> expanded subst (placeholders format_string)"
    and "occs \<equiv> occurrences subst 0 (placeholders format_string)"
  shows "DoReplaceStringPlaceholders format_string subst None = Some (result, None)
    \<and> DoReplaceStringPlaceholders format_string subst (Some os) = Some (result, Some (os @ map snd (sort_key fst occs)))
    \<and> (\<forall>(k, i) \<in> set occs. k < length subst \<longrightarrow> take (length (subst ! k)) (drop i result) = subst ! k)"
proof -
  have "foldl (\<lambda>r e. insert_offset e r) [] occs = sort_key fst occs" using foldl_insert_offset [of "[]" occs] by simp
  then have loop: "rsp_loop subst want format_string [] [] = (result, if want then sort_key fst occs else [])" for want
    using rsp_loop_spec [of "[]" subst format_string want "[]"] assms(2) by (simp add: result_def occs_def)
  have "take (length (subst ! k)) (drop i result) = subst ! k" if "(k, i) \<in> set occs" "k < length subst" for k i
    using occurrences_at [of k i subst 0 "placeholders format_string"] that by (auto simp: result_def occs_def)
  then show ?thesis using assms(1) loop by (auto simp: DoReplaceStringPlaceholders_def)
qed

theorem placeholders_exact_witness:
  "DoReplaceStringPlaceholders [36, 50, 44, 36, 49, 36, 36] [[97], [98, 99]] (Some []) = Some ([98, 99, 44, 97, 36], Some [3, 0])"
proof -
  have "expanded [[97], [98, 99]] (placeholders [36, 50, 44, 36, 49, 36, 36]) = [98, 99, 44, 97, 36]"
    "map snd (sort_key fst (occurrences [[97], [98, 99]] 0 (placeholders [36, 50, 44, 36, 49, 36, 36]))) = [3, 0]"
    by code_simp+
  then show ?thesis using placeholders_exact [of "[[97], [98, 99]]" "[36, 50, 44, 36, 49, 36, 36]" "[]"]
    by (simp del: placeholders.simps expanded_simps occurrences.simps)
qed

section \<open>Bounded copies\<close>

lemma lcpy_count_spec:
  assumes "0 \<notin> set s"
  shows "n \<le> length s \<Longrightarrow> lcpy_count (s @ 0 # junk) n = Some (length s)"
proof (induction "length s - n" arbitrary: n)
  case 0
  then have "n = length s" by simp
  then show ?case by (simp add: lcpy_count.simps [of _ "length s"])
next
  case (Suc k)
  then have n: "n < length s" by simp
  then have "s ! n \<noteq> 0" using assms nth_mem by metis
  then show ?case using n Suc by (simp add: lcpy_count.simps [of _ n] nth_append)
qed

lemma lcpy_loop_spec:
  assumes "0 \<notin> set s" "dst_size \<le> length dst"
  shows "i \<le> dst_size \<Longrightarrow> i \<le> length s \<Longrightarrow> take i d = take i s \<Longrightarrow> drop i d = drop i dst \<Longrightarrow> length d = length dst \<Longrightarrow>
    lcpy_loop d (s @ 0 # junk) dst_size i =
      (if length s < dst_size then Some (s @ 0 # drop (Suc (length s)) dst, Some (length s))
       else Some (take dst_size s @ drop dst_size dst, None))"
proof (induction "dst_size - i" arbitrary: i d)
  case 0
  then have "i = dst_size" by simp
  then have "d = take dst_size s @ drop dst_size dst" using 0 by (metis append_take_drop_id)
  then show ?case using 0 \<open>i = dst_size\<close> by (simp add: lcpy_loop.simps [of _ _ dst_size dst_size])
next
  case (Suc k)
  have i: "i < dst_size" "i < length d" using Suc assms(2) by auto
  let ?c = "(s @ 0 # junk) ! i"
  have upd: "d[i := ?c] = take i s @ ?c # drop (Suc i) dst"
    using Suc i by (metis Cons_nth_drop_Suc drop_Suc_Cons upd_conv_take_nth_drop drop_drop plus_1_eq_Suc tl_drop drop_Suc)
  show ?case
  proof (cases "i = length s")
    case True
    then show ?thesis unfolding lcpy_loop.simps [of d "s @ 0 # junk" dst_size i] using i upd by simp
  next
    case False
    then have "i < length s" using Suc by simp
    then have "s ! i \<noteq> 0" using assms(1) by (metis nth_mem)
    then have c: "?c = s ! i" "s ! i \<noteq> 0" using \<open>i < length s\<close> by (simp_all add: nth_append)
    have "lcpy_loop (d[i := ?c]) (s @ 0 # junk) dst_size (i + 1) =
      (if length s < dst_size then Some (s @ 0 # drop (Suc (length s)) dst, Some (length s))
       else Some (take dst_size s @ drop dst_size dst, None))"
      using Suc i c upd \<open>i < length s\<close> by (intro Suc.hyps(1)) (auto simp: take_Suc_conv_app_nth)
    then show ?thesis using i c \<open>i < length s\<close> by (simp add: lcpy_loop.simps [of d _ dst_size i])
  qed
qed

text \<open>
  \<open>strlcpy\<close> and \<open>wcslcpy\<close>. For a null-terminated source, a destination with room for \<open>dst_size\<close>
  characters and any size, the copy stays inside both, returns the length of the source, and leaves
  the destination holding the source, cut to \<open>dst_size - 1\<close> characters, and a terminator; a size of
  zero leaves the destination alone.
\<close>
theorem lcpy_exact:
  assumes "0 \<notin> set s" "dst_size \<le> length dst"
  shows "lcpyT dst (s @ 0 # junk) dst_size = Some (length s,
    if dst_size = 0 then dst else take (dst_size - 1) s @ 0 # drop (Suc (min (length s) (dst_size - 1))) dst)"
proof -
  have loop: "lcpy_loop dst (s @ 0 # junk) dst_size 0 =
      (if length s < dst_size then Some (s @ 0 # drop (Suc (length s)) dst, Some (length s))
       else Some (take dst_size s @ drop dst_size dst, None))"
    by (rule lcpy_loop_spec [OF assms]) simp_all
  show ?thesis
  proof (cases "length s < dst_size")
    case True
    then show ?thesis using loop by (simp add: lcpyT_def min_def)
  next
    case False
    then have n: "lcpy_count (s @ 0 # junk) dst_size = Some (length s)" using lcpy_count_spec [OF assms(1)] by simp
    show ?thesis
    proof (cases dst_size)
      case 0
      then show ?thesis using loop n False by (simp add: lcpyT_def)
    next
      case (Suc m)
      have "(take (Suc m) s @ drop (Suc m) dst)[m := 0] = take m s @ 0 # drop (Suc m) dst"
        using False Suc by (simp add: list_update_append take_Suc_conv_app_nth)
      then show ?thesis using loop n False Suc assms(2) by (simp add: lcpyT_def min_def)
    qed
  qed
qed

theorem lcpy_exact_witness: "lcpyT [1, 2, 3, 4] [97, 98, 99, 0, 7] 3 = Some (3, [97, 98, 0, 4])"
  using lcpy_exact [of "[97, 98, 99]" 3 "[1, 2, 3, 4]" "[7]"] by simp

end
