(* ===== verification/Json.thy ===== *)
theory Json
  imports String_Util Doubles Flat_Tree
begin

text \<open>
  JSON values and the parser, \<open>base/json/json_parser.cc\<close>, with its position, line and error
  bookkeeping, and the reader on top of it. Text is a list of bytes. \<open>None\<close> as the outer result is a
  failed check or running out of fuel; the options of C++ (\<open>nullopt\<close>) are inside. The line number is
  unbounded; an \<open>int\<close> holds it unless there are more than 2 ^ 30 line ends.
\<close>

unbundle bit_operations_syntax

section \<open>Values\<close>

datatype Value =
    NONE | BOOLEAN bool | INTEGER int | DOUBLE double | STRING "int list" | BINARY "int list"
  | DICTIONARY "(int list \<times> Value) list" | LIST "Value list"

text \<open>The order of \<open>std::string\<close>, and the storage of a dictionary, a \<open>flat_map\<close> that keeps the last duplicate.\<close>

definition str_less :: "int list \<Rightarrow> int list \<Rightarrow> bool" where
  "str_less x y \<longleftrightarrow> sp_compare x y < 0"

definition DictStorage :: "(int list \<times> Value) list \<Rightarrow> (int list \<times> Value) list" where
  "DictStorage items = ft_of_range str_less fst items KEEP_LAST_OF_DUPES"

section \<open>The parser\<close>

datatype JsonParseError =
    JSON_NO_ERROR | JSON_INVALID_ESCAPE | JSON_SYNTAX_ERROR | JSON_UNEXPECTED_TOKEN | JSON_TRAILING_COMMA
  | JSON_TOO_MUCH_NESTING | JSON_UNEXPECTED_DATA_AFTER_ROOT | JSON_UNSUPPORTED_ENCODING
  | JSON_UNQUOTED_DICTIONARY_KEY | JSON_TOO_LARGE | JSON_PARSE_ERROR_COUNT

datatype Token =
    T_OBJECT_BEGIN | T_OBJECT_END | T_ARRAY_BEGIN | T_ARRAY_END | T_STRING | T_NUMBER | T_BOOL_TRUE
  | T_BOOL_FALSE | T_NULL | T_LIST_SEPARATOR | T_OBJECT_PAIR_SEPARATOR | T_END_OF_INPUT | T_INVALID_TOKEN

definition JSON_ALLOW_TRAILING_COMMAS :: nat where "JSON_ALLOW_TRAILING_COMMAS = push_bit 0 1"
definition JSON_REPLACE_INVALID_CHARACTERS :: nat where "JSON_REPLACE_INVALID_CHARACTERS = push_bit 1 1"
definition kStackMaxDepth :: int where "kStackMaxDepth = 200"
definition kUnicodeReplacementPoint :: int where "kUnicodeReplacementPoint = 0xFFFD"
definition kUnicodeReplacementString :: "int list" where "kUnicodeReplacementString = [0xEF, 0xBF, 0xBD]"

text \<open>The mutable members of \<open>JSONParser\<close>; \<open>input_\<close>, \<open>options_\<close> and \<open>max_depth_\<close> are arguments.\<close>

record JSONParser =
  jp_index :: nat
  jp_stack_depth :: int
  jp_line_number :: int
  jp_index_last_line :: nat
  jp_error_code :: JsonParseError
  jp_error_line :: int
  jp_error_column :: int

definition ReportError :: "JsonParseError \<Rightarrow> int \<Rightarrow> JSONParser \<Rightarrow> JSONParser" where
  "ReportError code column_adjust p =
     p\<lparr>jp_error_code := code, jp_error_line := jp_line_number p,
       jp_error_column := int (jp_index p) - int (jp_index_last_line p) + column_adjust\<rparr>"

definition PeekChars :: "int list \<Rightarrow> JSONParser \<Rightarrow> nat \<Rightarrow> int list option" where
  "PeekChars input p n = (if jp_index p + n > length input then None else Some (take n (drop (jp_index p) input)))"

definition PeekChar :: "int list \<Rightarrow> JSONParser \<Rightarrow> int option" where
  "PeekChar input p = map_option (\<lambda>chars. chars ! 0) (PeekChars input p 1)"

definition ConsumeChars :: "int list \<Rightarrow> JSONParser \<Rightarrow> nat \<Rightarrow> int list option \<times> JSONParser" where
  "ConsumeChars input p n =
     (case PeekChars input p n of None \<Rightarrow> (None, p) | Some chars \<Rightarrow> (Some chars, p\<lparr>jp_index := jp_index p + n\<rparr>))"

definition ConsumeChar :: "int list \<Rightarrow> JSONParser \<Rightarrow> int option \<times> JSONParser" where
  "ConsumeChar input p = (let (chars, p) = ConsumeChars input p 1 in (map_option (\<lambda>cs. cs ! 0) chars, p))"

definition ConsumeIfMatch :: "int list \<Rightarrow> int list \<Rightarrow> JSONParser \<Rightarrow> bool \<times> JSONParser" where
  "ConsumeIfMatch input match p =
     (if PeekChars input p (length match) = Some match then (True, snd (ConsumeChars input p (length match)))
      else (False, p))"

text \<open>The two loops of \<open>EatComment\<close>, over the rest of the input.\<close>

fun eat_line :: "int list \<Rightarrow> nat \<Rightarrow> bool \<times> nat" where
  "eat_line [] index = (False, index)"
| "eat_line (c # rest) index = (if c = 10 \<or> c = 13 then (True, index) else eat_line rest (index + 1))"

fun eat_block :: "int list \<Rightarrow> int \<Rightarrow> nat \<Rightarrow> bool \<times> nat" where
  "eat_block [] previous_char index = (False, index)"
| "eat_block (c # rest) previous_char index =
     (if previous_char = 42 \<and> c = 47 then (True, index + 1) else eat_block rest c (index + 1))"

definition EatComment :: "int list \<Rightarrow> JSONParser \<Rightarrow> bool \<times> JSONParser" where
  "EatComment input p =
     (case ConsumeChars input p 2 of
        (None, p) \<Rightarrow> (False, p)
      | (Some comment_start, p) \<Rightarrow>
          if comment_start = [47, 47] then
            let (r, i) = eat_line (drop (jp_index p) input) (jp_index p) in (r, p\<lparr>jp_index := i\<rparr>)
          else if comment_start = [47, 42] then
            let (r, i) = eat_block (drop (jp_index p) input) 0 (jp_index p) in (r, p\<lparr>jp_index := i\<rparr>)
          else (False, p))"

lemma eat_line_index: "index \<le> snd (eat_line rest index)" "snd (eat_line rest index) \<le> index + length rest"
  by (induction rest index rule: eat_line.induct) auto

lemma eat_block_index: "index \<le> snd (eat_block rest c index)" "snd (eat_block rest c index) \<le> index + length rest"
  by (induction rest c index rule: eat_block.induct) auto

lemma EatComment_index:
  "EatComment input p = (ok, q) \<Longrightarrow> (ok \<longrightarrow> jp_index p < jp_index q) \<and> jp_index p \<le> jp_index q \<and> (jp_index p \<le> length input \<longrightarrow> jp_index q \<le> length input)"
  using eat_line_index [where index = "jp_index p + 2" and rest = "drop (jp_index p + 2) input"]
    eat_block_index [where index = "jp_index p + 2" and rest = "drop (jp_index p + 2) input" and c = 0]
  by (auto simp: EatComment_def ConsumeChars_def PeekChars_def split: option.splits if_splits prod.splits)

lemma PeekChar_Some: "PeekChar input p = Some c \<longleftrightarrow> jp_index p < length input \<and> c = input ! jp_index p"
  by (auto simp: PeekChar_def PeekChars_def)

lemma ConsumeChar_next [simp]: "jp_index p < length input \<Longrightarrow> ConsumeChar input p = (Some (input ! jp_index p), p\<lparr>jp_index := jp_index p + 1\<rparr>)"
  by (simp add: ConsumeChar_def ConsumeChars_def PeekChars_def)

function EatWhitespaceAndComments :: "int list \<Rightarrow> JSONParser \<Rightarrow> JSONParser" where
  "EatWhitespaceAndComments input p =
     (case PeekChar input p of
        None \<Rightarrow> p
      | Some c \<Rightarrow>
          if c = 13 \<or> c = 10 then
            let p = p\<lparr>jp_index_last_line := jp_index p,
                      jp_line_number := (if \<not> (c = 10 \<and> jp_index p > 0 \<and> input ! (jp_index p - 1) = 13)
                                       then jp_line_number p + 1 else jp_line_number p)\<rparr>
            in EatWhitespaceAndComments input (snd (ConsumeChar input p))
          else if c = 32 \<or> c = 9 then EatWhitespaceAndComments input (snd (ConsumeChar input p))
          else if c = 47 then
            (case EatComment input p of (False, q) \<Rightarrow> q | (True, q) \<Rightarrow> EatWhitespaceAndComments input q)
          else p)"
  by pat_completeness auto
termination
proof (relation "measure (\<lambda>(input, p). length input - jp_index p)", goal_cases)
  case (4 input p c b q)
  then show ?case using EatComment_index [of input p True q] by (auto simp: PeekChar_Some)
qed (auto simp: PeekChar_Some)

declare EatWhitespaceAndComments.simps [simp del]

definition GetNextToken :: "int list \<Rightarrow> JSONParser \<Rightarrow> Token \<times> JSONParser" where
  "GetNextToken input p =
     (let p = EatWhitespaceAndComments input p in
      (case PeekChar input p of
         None \<Rightarrow> T_END_OF_INPUT
       | Some c \<Rightarrow>
           if c = 123 then T_OBJECT_BEGIN else if c = 125 then T_OBJECT_END
           else if c = 91 then T_ARRAY_BEGIN else if c = 93 then T_ARRAY_END
           else if c = 34 then T_STRING
           else if c \<ge> 48 \<and> c \<le> 57 \<or> c = 45 then T_NUMBER
           else if c = 116 then T_BOOL_TRUE else if c = 102 then T_BOOL_FALSE else if c = 110 then T_NULL
           else if c = 44 then T_LIST_SEPARATOR else if c = 58 then T_OBJECT_PAIR_SEPARATOR
           else T_INVALID_TOKEN, p))"

text \<open>
  \<open>StringBuilder\<close>: a range of the input, from \<open>sb_pos\<close>, until the text has to be converted.
\<close>

record StringBuilder =
  sb_pos :: nat
  sb_length :: nat
  sb_string :: "int list option"

definition sb_Convert :: "int list \<Rightarrow> StringBuilder \<Rightarrow> StringBuilder" where
  "sb_Convert input sb =
     (case sb_string sb of Some _ \<Rightarrow> sb
      | None \<Rightarrow> sb\<lparr>sb_string := Some (take (sb_length sb) (drop (sb_pos sb) input))\<rparr>)"

definition sb_Append :: "int list \<Rightarrow> int \<Rightarrow> StringBuilder \<Rightarrow> StringBuilder option" where
  "sb_Append input point sb =
     (if \<not> IsValidCharacter point then None
      else if point < 0x80 \<and> sb_string sb = None then
        if sb_pos sb + sb_length sb < length input \<and> input ! (sb_pos sb + sb_length sb) = point
        then Some (sb\<lparr>sb_length := sb_length sb + 1\<rparr>) else None
      else let sb = sb_Convert input sb; str = the (sb_string sb) in
        Some (sb\<lparr>sb_string := Some (if point = kUnicodeReplacementPoint then str @ kUnicodeReplacementString
                                   else snd (WriteUnicodeCharacter8 point str))\<rparr>))"

definition DestructiveAsString :: "int list \<Rightarrow> StringBuilder \<Rightarrow> int list" where
  "DestructiveAsString input sb =
     (case sb_string sb of Some str \<Rightarrow> str | None \<Rightarrow> take (sb_length sb) (drop (sb_pos sb) input))"

definition DecodeUTF16 :: "int list \<Rightarrow> nat \<Rightarrow> JSONParser \<Rightarrow> (int option \<times> JSONParser) option" where
  "DecodeUTF16 input options p =
     (case ConsumeChars input p 4 of
        (None, p) \<Rightarrow> Some (None, p)
      | (Some escape_sequence, p) \<Rightarrow> do {
          (ok, code_unit16_high) \<leftarrow> HexStringToInt escape_sequence;
          if \<not> ok then Some (None, p)
          else if CBU16_IS_SURROGATE code_unit16_high then
            if \<not> CBU16_IS_SURROGATE_LEAD code_unit16_high then Some (None, p)
            else (case ConsumeIfMatch input [92, 117] p of
              (False, p) \<Rightarrow> Some (None, p)
            | (True, p) \<Rightarrow>
                (case ConsumeChars input p 4 of
                   (None, p) \<Rightarrow> Some (None, p)
                 | (Some escape_sequence, p) \<Rightarrow> do {
                     (ok, code_unit16_low) \<leftarrow> HexStringToInt escape_sequence;
                     if \<not> ok \<or> \<not> CBU16_IS_TRAIL code_unit16_low then Some (None, p)
                     else
                       let code_point = CBU16_GET_SUPPLEMENTARY code_unit16_high code_unit16_low in
                       if \<not> IsValidCharacter code_point then Some (None, p) else Some (Some code_point, p)
                   }))
          else if \<not> CBU16_IS_SINGLE code_unit16_high then None
          else if \<not> IsValidCharacter code_unit16_high then
            if options AND JSON_REPLACE_INVALID_CHARACTERS = 0 then Some (None, p)
            else Some (Some kUnicodeReplacementPoint, p)
          else Some (Some code_unit16_high, p)
        })"

text \<open>
  One round of the loop of \<open>ConsumeStringRaw\<close>: it returns, with its success, or goes on. The simple
  escapes are a table.
\<close>

datatype string_round = Stop bool JSONParser StringBuilder | More JSONParser StringBuilder

definition simple_escape :: "int \<Rightarrow> int option" where
  "simple_escape c =
     (if c = 34 then Some 34 else if c = 92 then Some 92 else if c = 47 then Some 47
      else if c = 98 then Some 8 else if c = 102 then Some 12 else if c = 110 then Some 10
      else if c = 114 then Some 13 else if c = 116 then Some 9 else if c = 118 then Some 11 else None)"

definition consume_escape :: "int list \<Rightarrow> nat \<Rightarrow> JSONParser \<Rightarrow> StringBuilder \<Rightarrow> string_round option" where
  "consume_escape input options p sb =
     (let sb = sb_Convert input sb in
      case ConsumeChars input p 2 of
        (None, p) \<Rightarrow> Some (Stop False (ReportError JSON_INVALID_ESCAPE 0 p) sb)
      | (Some escape_sequence, p) \<Rightarrow>
          let e = escape_sequence ! 1 in
          if e = 120 then
            (case ConsumeChars input p 2 of
               (None, p) \<Rightarrow> Some (Stop False (ReportError JSON_INVALID_ESCAPE (- 2) p) sb)
             | (Some escape_sequence, p) \<Rightarrow> do {
                 (ok, hex_digit) \<leftarrow> HexStringToInt escape_sequence;
                 if \<not> ok \<or> \<not> IsValidCharacter hex_digit
                 then Some (Stop False (ReportError JSON_INVALID_ESCAPE (- 2) p) sb)
                 else do { sb \<leftarrow> sb_Append input hex_digit sb; Some (More p sb) }
               })
          else if e = 117 then do {
            (code_point, p) \<leftarrow> DecodeUTF16 input options p;
            case code_point of
              None \<Rightarrow> Some (Stop False (ReportError JSON_INVALID_ESCAPE 0 p) sb)
            | Some c \<Rightarrow> do { sb \<leftarrow> sb_Append input c sb; Some (More p sb) }
          }
          else (case simple_escape e of
              None \<Rightarrow> Some (Stop False (ReportError JSON_INVALID_ESCAPE 0 p) sb)
            | Some c \<Rightarrow> do { sb \<leftarrow> sb_Append input c sb; Some (More p sb) }))"

definition string_round :: "int list \<Rightarrow> nat \<Rightarrow> JSONParser \<Rightarrow> StringBuilder \<Rightarrow> string_round option" where
  "string_round input options p sb =
     (case PeekChar input p of
        None \<Rightarrow> Some (Stop False (ReportError JSON_SYNTAX_ERROR 0 p) sb)
      | Some _ \<Rightarrow> do {
          (ok, i, next_char) \<leftarrow> ReadUnicodeCharacter8 input (jp_index p);
          let p = p\<lparr>jp_index := i\<rparr>;
          if \<not> ok \<or> \<not> IsValidCharacter next_char then
            if options AND JSON_REPLACE_INVALID_CHARACTERS = 0
            then Some (Stop False (ReportError JSON_UNSUPPORTED_ENCODING 1 p) sb)
            else do {
              sb \<leftarrow> sb_Append input kUnicodeReplacementPoint sb;
              Some (More (snd (ConsumeChar input p)) sb)
            }
          else if next_char = 34 then Some (Stop True (snd (ConsumeChar input p)) sb)
          else if next_char \<noteq> 92 then do {
            sb \<leftarrow> sb_Append input next_char sb;
            Some (More (snd (ConsumeChar input p)) sb)
          }
          else consume_escape input options p sb
        })"

text \<open>Every round that goes on has read at least a byte.\<close>

lemma ConsumeChars_Some: "ConsumeChars input p n = (Some cs, q) \<Longrightarrow>
  q = p\<lparr>jp_index := jp_index p + n\<rparr> \<and> jp_index p + n \<le> length input \<and> cs = take n (drop (jp_index p) input)"
  by (auto simp: ConsumeChars_def PeekChars_def split: option.splits if_splits)

lemma ConsumeChars_None: "ConsumeChars input p n = (None, q) \<Longrightarrow> q = p"
  by (auto simp: ConsumeChars_def split: option.splits)

lemma ConsumeIfMatch_index: "ConsumeIfMatch input m p = (b, q) \<Longrightarrow>
  jp_index p \<le> jp_index q \<and> (jp_index p \<le> length input \<longrightarrow> jp_index q \<le> length input)"
  by (auto simp: ConsumeIfMatch_def ConsumeChars_def PeekChars_def split: if_splits)

lemma DecodeUTF16_index: "DecodeUTF16 input options p = Some (c, q) \<Longrightarrow>
  jp_index p \<le> jp_index q \<and> (jp_index p \<le> length input \<longrightarrow> jp_index q \<le> length input)"
  by (auto simp: DecodeUTF16_def Let_def split: prod.splits option.splits bind_splits if_splits bool.splits
      dest!: ConsumeChars_Some ConsumeChars_None ConsumeIfMatch_index)

lemma ReadUnicodeCharacter8_index:
  assumes "ReadUnicodeCharacter8 input i = Some (ok, j, c)" "i < length input"
  shows "i \<le> j" "j < length input"
proof -
  obtain cp rest where r: "CBU8_NEXT (drop i input) = Some (cp, rest)" "j = length input - length rest - 1"
    using assms(1) by (auto simp: ReadUnicodeCharacter8_def split: bind_splits)
  then show "i \<le> j" "j < length input" using CBU8_NEXT_less [OF r(1)] assms(2) by auto
qed

lemma string_round_More:
  assumes "string_round input options p sb = Some (More q sb')"
  shows "jp_index p < jp_index q" "jp_index p < length input" "jp_index q \<le> length input"
proof -
  from assms obtain c where c: "PeekChar input p = Some c" by (auto simp: string_round_def split: option.splits)
  then have len: "jp_index p < length input" by (simp add: PeekChar_Some)
  from assms c obtain ok i nc where r: "ReadUnicodeCharacter8 input (jp_index p) = Some (ok, i, nc)"
    by (auto simp: string_round_def split: bind_splits)
  note i = ReadUnicodeCharacter8_index [OF r len]
  have e: "jp_index p < jp_index q \<and> jp_index q \<le> length input" if "consume_escape input options (p\<lparr>jp_index := i\<rparr>) sb = Some (More q sb')"
    using that i by (auto simp: consume_escape_def Let_def split: prod.splits option.splits bind_splits if_splits
        dest!: ConsumeChars_Some ConsumeChars_None DecodeUTF16_index)
  have "jp_index p < jp_index q \<and> jp_index q \<le> length input"
    using assms c r i e by (auto simp: string_round_def Let_def split: bind_splits if_splits)
  then show "jp_index p < jp_index q" "jp_index p < length input" "jp_index q \<le> length input" using len by auto
qed

function string_loop :: "int list \<Rightarrow> nat \<Rightarrow> JSONParser \<Rightarrow> StringBuilder \<Rightarrow> (bool \<times> JSONParser \<times> StringBuilder) option" where
  "string_loop input options p sb =
     (case string_round input options p sb of
        None \<Rightarrow> None
      | Some (Stop ok q sb') \<Rightarrow> Some (ok, q, sb')
      | Some (More q sb') \<Rightarrow> string_loop input options q sb')"
  by pat_completeness auto
termination
proof (relation "measure (\<lambda>(input, options, p, sb). length input - jp_index p)", goal_cases)
  case (2 input options p sb r q sb')
  then show ?case using string_round_More [of input options p sb q sb'] by auto
qed auto

declare string_loop.simps [simp del]

text \<open>\<open>ConsumeStringRaw\<close> and \<open>ConsumeString\<close>; \<open>pos()\<close> checks that the index is in the input.\<close>

definition ConsumeStringRaw :: "int list \<Rightarrow> nat \<Rightarrow> JSONParser \<Rightarrow> (StringBuilder option \<times> JSONParser) option" where
  "ConsumeStringRaw input options p =
     (let (c, p) = ConsumeChar input p in
      if c \<noteq> Some 34 then Some (None, ReportError JSON_UNEXPECTED_TOKEN 1 p)
      else if jp_index p > length input then None
      else do {
        (ok, p, sb) \<leftarrow> string_loop input options p \<lparr>sb_pos = jp_index p, sb_length = 0, sb_string = None\<rparr>;
        Some (if ok then Some sb else None, p)
      })"

definition ConsumeString :: "int list \<Rightarrow> nat \<Rightarrow> JSONParser \<Rightarrow> (Value option \<times> JSONParser) option" where
  "ConsumeString input options p = do {
     (sb, p) \<leftarrow> ConsumeStringRaw input options p;
     Some (map_option (\<lambda>sb. STRING (DestructiveAsString input sb)) sb, p)
   }"

text \<open>\<open>ReadInt\<close>: the loop over the digits counts them and keeps the first.\<close>

fun read_digits :: "int list \<Rightarrow> nat \<Rightarrow> int \<Rightarrow> nat \<times> int" where
  "read_digits [] len first = (len, first)"
| "read_digits (c # rest) len first =
     (if \<not> (c \<ge> 48 \<and> c \<le> 57) then (len, first) else read_digits rest (len + 1) (if len = 0 then c else first))"

definition ReadInt :: "int list \<Rightarrow> bool \<Rightarrow> JSONParser \<Rightarrow> bool \<times> JSONParser" where
  "ReadInt input allow_leading_zeros p =
     (let (len, first) = read_digits (drop (jp_index p) input) 0 0;
          p = p\<lparr>jp_index := jp_index p + len\<rparr>
      in (if len = 0 then False else if \<not> allow_leading_zeros \<and> len > 1 \<and> first = 48 then False else True, p))"

text \<open>\<open>ConsumeNumber\<close>: the fraction, the exponent, and what follows the number.\<close>

definition number_fraction :: "int list \<Rightarrow> JSONParser \<Rightarrow> bool \<times> JSONParser" where
  "number_fraction input p =
     (if PeekChar input p = Some 46 then ReadInt input True (snd (ConsumeChar input p)) else (True, p))"

definition number_exponent :: "int list \<Rightarrow> JSONParser \<Rightarrow> bool \<times> JSONParser" where
  "number_exponent input p =
     (let c = PeekChar input p in
      if c = Some 101 \<or> c = Some 69 then
        let p = snd (ConsumeChar input p); c = PeekChar input p;
            p = (if c = Some 45 \<or> c = Some 43 then snd (ConsumeChar input p) else p)
        in ReadInt input True p
      else (True, p))"

definition number_end :: "int list \<Rightarrow> nat \<Rightarrow> JSONParser \<Rightarrow> (Value option \<times> JSONParser) option" where
  "number_end input start_index p =
     (let end_index = jp_index p; exit_index = jp_index p; (token, p) = GetNextToken input p in
      if token \<notin> {T_OBJECT_END, T_ARRAY_END, T_LIST_SEPARATOR, T_END_OF_INPUT}
      then Some (None, ReportError JSON_SYNTAX_ERROR 1 p)
      else
        let p = p\<lparr>jp_index := exit_index\<rparr>;
            num_string = take (end_index - start_index) (drop start_index input) in do {
          (ok, num_int) \<leftarrow> StringToInt num_string;
          if ok then Some (Some (INTEGER num_int), p)
          else
            let (ok, num_double) = StringToDouble num_string in
            if ok \<and> isfinite num_double then Some (Some (DOUBLE num_double), p) else Some (None, p)
        })"

definition ConsumeNumber :: "int list \<Rightarrow> JSONParser \<Rightarrow> (Value option \<times> JSONParser) option" where
  "ConsumeNumber input p =
     (if jp_index p > length input then None
      else
        let start_index = jp_index p;
            p = (if PeekChar input p = Some 45 then snd (ConsumeChar input p) else p);
            (ok, p) = ReadInt input False p in
        if \<not> ok then Some (None, ReportError JSON_SYNTAX_ERROR 1 p)
        else
          let (ok, p) = number_fraction input p in
          if \<not> ok then Some (None, ReportError JSON_SYNTAX_ERROR 1 p)
          else
            let (ok, p) = number_exponent input p in
            if \<not> ok then Some (None, ReportError JSON_SYNTAX_ERROR 1 p) else number_end input start_index p)"

definition ConsumeLiteral :: "int list \<Rightarrow> JSONParser \<Rightarrow> Value option \<times> JSONParser" where
  "ConsumeLiteral input p =
     (case ConsumeIfMatch input [116, 114, 117, 101] p of
        (True, p) \<Rightarrow> (Some (BOOLEAN True), p)
      | (False, p) \<Rightarrow>
          (case ConsumeIfMatch input [102, 97, 108, 115, 101] p of
             (True, p) \<Rightarrow> (Some (BOOLEAN False), p)
           | (False, p) \<Rightarrow>
               (case ConsumeIfMatch input [110, 117, 108, 108] p of
                  (True, p) \<Rightarrow> (Some NONE, p)
                | (False, p) \<Rightarrow> (None, ReportError JSON_SYNTAX_ERROR 1 p))))"

text \<open>
  Entering a list or a dictionary: the constructor of \<open>StackMarker\<close> counts the depth up and checks it,
  its destructor counts it down on every way out.
\<close>

definition StackMarker :: "int \<Rightarrow> JSONParser \<Rightarrow> JSONParser option" where
  "StackMarker max_depth p =
     (let p = p\<lparr>jp_stack_depth := jp_stack_depth p + 1\<rparr> in if jp_stack_depth p \<le> max_depth then Some p else None)"

definition IsTooDeep :: "int \<Rightarrow> JSONParser \<Rightarrow> bool" where
  "IsTooDeep max_depth p \<longleftrightarrow> jp_stack_depth p \<ge> max_depth"

definition StackMarker_destroy :: "'a \<times> JSONParser \<Rightarrow> 'a \<times> JSONParser" where
  "StackMarker_destroy = (\<lambda>(r, p). (r, p\<lparr>jp_stack_depth := jp_stack_depth p - 1\<rparr>))"

text \<open>
  What follows an item of a list or a dictionary, up to the end of the round of the loop: \<open>None\<close> when
  an error was reported, else the token of the next round.
\<close>

definition next_round :: "int list \<Rightarrow> nat \<Rightarrow> Token \<Rightarrow> int \<Rightarrow> JSONParser \<Rightarrow> Token option \<times> JSONParser" where
  "next_round input options close column_adjust p =
     (let (token, p) = GetNextToken input p in
      if token = T_LIST_SEPARATOR then
        let (token, p) = GetNextToken input (snd (ConsumeChar input p)) in
        if token = close \<and> options AND JSON_ALLOW_TRAILING_COMMAS = 0 then (None, ReportError JSON_TRAILING_COMMA 1 p)
        else (Some token, p)
      else if token \<noteq> close then (None, ReportError JSON_SYNTAX_ERROR column_adjust p)
      else (Some token, p))"

text \<open>
  The recursive descent. \<open>parse\<close> is \<open>ParseToken\<close>, one level deeper. A round of the loops of
  \<open>ConsumeDictionary\<close> and \<open>ConsumeList\<close> gives the next token and the storage, or \<open>None\<close> when the function
  returns \<open>nullopt\<close>. The rounds are counted by fuel, one more than the length of the input, since each
  reads a byte.
\<close>

type_synonym parse = "Token \<Rightarrow> JSONParser \<Rightarrow> (Value option \<times> JSONParser) option"

primrec item_loop :: "(Token \<Rightarrow> JSONParser \<Rightarrow> 's \<Rightarrow> ((Token \<times> 's) option \<times> JSONParser) option) \<Rightarrow> Token \<Rightarrow> nat
    \<Rightarrow> Token \<Rightarrow> JSONParser \<Rightarrow> 's \<Rightarrow> ('s option \<times> JSONParser) option" where
  "item_loop round close 0 token p storage = None"
| "item_loop round close (Suc fuel) token p storage =
     (if token = close then Some (Some storage, p)
      else do {
        (r, p) \<leftarrow> round token p storage;
        case r of None \<Rightarrow> Some (None, p)
        | Some (token, storage) \<Rightarrow> item_loop round close fuel token p storage
      })"

definition dict_round :: "parse \<Rightarrow> int list \<Rightarrow> nat \<Rightarrow> Token \<Rightarrow> JSONParser \<Rightarrow> (int list \<times> Value) list
    \<Rightarrow> ((Token \<times> (int list \<times> Value) list) option \<times> JSONParser) option" where
  "dict_round parse input options token p dict_storage =
     (if token \<noteq> T_STRING then Some (None, ReportError JSON_UNQUOTED_DICTIONARY_KEY 1 p)
      else do {
        (key, p) \<leftarrow> ConsumeStringRaw input options p;
        case key of None \<Rightarrow> Some (None, p)
        | Some key \<Rightarrow>
            let (token, p) = GetNextToken input p in
            if token \<noteq> T_OBJECT_PAIR_SEPARATOR then Some (None, ReportError JSON_SYNTAX_ERROR 1 p)
            else
              let (token, p) = GetNextToken input (snd (ConsumeChar input p)) in do {
                (value, p) \<leftarrow> parse token p;
                case value of None \<Rightarrow> Some (None, p)
                | Some value \<Rightarrow>
                    let (token, p) = next_round input options T_OBJECT_END 0 p in
                    Some (map_option (\<lambda>t. (t, dict_storage @ [(DestructiveAsString input key, value)])) token, p)
              }
      })"

definition ConsumeDictionary :: "parse \<Rightarrow> int list \<Rightarrow> nat \<Rightarrow> int \<Rightarrow> JSONParser \<Rightarrow> (Value option \<times> JSONParser) option" where
  "ConsumeDictionary parse input options max_depth p =
     (let (c, p) = ConsumeChar input p in
      if c \<noteq> Some 123 then Some (None, ReportError JSON_UNEXPECTED_TOKEN 1 p)
      else do {
        p \<leftarrow> StackMarker max_depth p;
        if IsTooDeep max_depth p then Some (StackMarker_destroy (None, ReportError JSON_TOO_MUCH_NESTING 0 p))
        else
          let (token, p) = GetNextToken input p in do {
            (dict_storage, p) \<leftarrow> item_loop (dict_round parse input options) T_OBJECT_END (length input + 1) token p [];
            Some (StackMarker_destroy (case dict_storage of None \<Rightarrow> (None, p)
              | Some kvs \<Rightarrow> (Some (DICTIONARY (DictStorage kvs)), snd (ConsumeChar input p))))
          }
      })"

definition list_round :: "parse \<Rightarrow> int list \<Rightarrow> nat \<Rightarrow> Token \<Rightarrow> JSONParser \<Rightarrow> Value list
    \<Rightarrow> ((Token \<times> Value list) option \<times> JSONParser) option" where
  "list_round parse input options token p list_storage = do {
     (item, p) \<leftarrow> parse token p;
     case item of None \<Rightarrow> Some (None, p)
     | Some item \<Rightarrow>
         let (token, p) = next_round input options T_ARRAY_END 1 p in
         Some (map_option (\<lambda>t. (t, list_storage @ [item])) token, p)
   }"

definition ConsumeList :: "parse \<Rightarrow> int list \<Rightarrow> nat \<Rightarrow> int \<Rightarrow> JSONParser \<Rightarrow> (Value option \<times> JSONParser) option" where
  "ConsumeList parse input options max_depth p =
     (let (c, p) = ConsumeChar input p in
      if c \<noteq> Some 91 then Some (None, ReportError JSON_UNEXPECTED_TOKEN 1 p)
      else do {
        p \<leftarrow> StackMarker max_depth p;
        if IsTooDeep max_depth p then Some (StackMarker_destroy (None, ReportError JSON_TOO_MUCH_NESTING 0 p))
        else
          let (token, p) = GetNextToken input p in do {
            (list_storage, p) \<leftarrow> item_loop (list_round parse input options) T_ARRAY_END (length input + 1) token p [];
            Some (StackMarker_destroy (case list_storage of None \<Rightarrow> (None, p)
              | Some vs \<Rightarrow> (Some (LIST vs), snd (ConsumeChar input p))))
          }
      })"

text \<open>The levels of \<open>ParseToken\<close> are counted by \<open>levels\<close>; \<open>max_depth\<close> of them are never used up.\<close>

primrec ParseToken :: "int list \<Rightarrow> nat \<Rightarrow> int \<Rightarrow> nat \<Rightarrow> Token \<Rightarrow> JSONParser \<Rightarrow> (Value option \<times> JSONParser) option" where
  "ParseToken input options max_depth 0 token p = None"
| "ParseToken input options max_depth (Suc levels) token p =
     (let parse = ParseToken input options max_depth levels in
     case token of
       T_OBJECT_BEGIN \<Rightarrow> ConsumeDictionary parse input options max_depth p
     | T_ARRAY_BEGIN \<Rightarrow> ConsumeList parse input options max_depth p
     | T_STRING \<Rightarrow> ConsumeString input options p
     | T_NUMBER \<Rightarrow> ConsumeNumber input p
     | T_BOOL_TRUE \<Rightarrow> Some (ConsumeLiteral input p)
     | T_BOOL_FALSE \<Rightarrow> Some (ConsumeLiteral input p)
     | T_NULL \<Rightarrow> Some (ConsumeLiteral input p)
     | _ \<Rightarrow> Some (None, ReportError JSON_UNEXPECTED_TOKEN 1 p))"

text \<open>
  \<open>Parse\<close>. The members are set as it sets them; the depth keeps its value.
\<close>

definition Parse_reset :: "JSONParser \<Rightarrow> JSONParser" where
  "Parse_reset p = p\<lparr>jp_index := 0, jp_line_number := 1, jp_index_last_line := 0, jp_error_code := JSON_NO_ERROR,
     jp_error_line := 0, jp_error_column := 0\<rparr>"

definition Parse :: "nat \<Rightarrow> int \<Rightarrow> int list \<Rightarrow> JSONParser \<Rightarrow> (Value option \<times> JSONParser) option" where
  "Parse options max_depth input p =
     (let p = Parse_reset p in
      if \<not> int (length input) < 2 ^ 31 then Some (None, ReportError JSON_TOO_LARGE 0 p)
      else
        let (_, p) = ConsumeIfMatch input [0xEF, 0xBB, 0xBF] p; (token, p) = GetNextToken input p in do {
          (root, p) \<leftarrow> ParseToken input options max_depth (nat max_depth + 1) token p;
          case root of None \<Rightarrow> Some (None, p)
          | Some v \<Rightarrow>
              let (token, p) = GetNextToken input p in
              if token \<noteq> T_END_OF_INPUT then Some (None, ReportError JSON_UNEXPECTED_DATA_AFTER_ROOT 1 p)
              else Some (Some v, p)
        })"

definition new_parser :: "int \<Rightarrow> JSONParser option" where
  "new_parser max_depth = (if max_depth \<le> kStackMaxDepth
     then Some \<lparr>jp_index = 0, jp_stack_depth = 0, jp_line_number = 0, jp_index_last_line = 0,
       jp_error_code = JSON_NO_ERROR, jp_error_line = 0, jp_error_column = 0\<rparr> else None)"

text \<open>
  \<open>JSONReader::Read\<close> and \<open>ReadAndReturnError\<close>, whose parser has the default depth and which sets the code,
  the line and the column only without a result.
\<close>

definition JSONReader_Read :: "int list \<Rightarrow> nat \<Rightarrow> int \<Rightarrow> Value option option" where
  "JSONReader_Read json options max_depth = do {
     p \<leftarrow> new_parser max_depth;
     (root, p) \<leftarrow> Parse options max_depth json p;
     Some root
   }"

definition ReadAndReturnError :: "int list \<Rightarrow> nat \<Rightarrow> (Value option \<times> (JsonParseError \<times> int \<times> int) option) option" where
  "ReadAndReturnError json options = do {
     p \<leftarrow> new_parser kStackMaxDepth;
     (root, p) \<leftarrow> Parse options kStackMaxDepth json p;
     Some (root, case root of None \<Rightarrow> Some (jp_error_code p, jp_error_line p, jp_error_column p) | Some _ \<Rightarrow> None)
   }"

end
