(* ===== verification/Json_Total.thy ===== *)
theory Json_Total
  imports Json
begin

text \<open>
  The parser on every input: it returns, no check fails, the depth is restored, and a result is
  nested less deeply than the limit.
\<close>

section \<open>Dictionaries\<close>

lemma str_less_lex: "str_less x y \<longleftrightarrow> ord_class.lexordp x y"
proof -
  have "sp_compare x y \<in> {- 1, 0, 1}"
    by (induction x arbitrary: y; case_tac y) (auto simp: sp_compare_simps)
  then show ?thesis by (auto simp: str_less_def sp_compare_less [symmetric])
qed

lemma str_less_total: "x \<noteq> y \<Longrightarrow> str_less x y \<or> str_less y x"
  using sp_compare_swap [of x y] sp_compare_0 [of x y] by (auto simp: str_less_def)

interpretation string_order: strict_weak_order str_less
proof (unfold_locales, goal_cases)
  case (1 a)
  then show ?case using sp_compare_0 [of a a] by (simp add: str_less_def)
next
  case (2 a b c)
  then show ?case unfolding str_less_lex using lexordp_trans by blast
next
  case (3 a b c)
  then have "a = b" "b = c" using str_less_total [of a b] str_less_total [of b c] by (auto simp: ft_eqv_def)
  then show ?case using 3 by simp
qed

lemma DictStorage_subset: "set (DictStorage kvs) \<subseteq> set kvs"
proof
  fix x assume x: "x \<in> set (DictStorage kvs)"
  note r = string_order.of_range_spec [where ky = fst and vs = kvs and dupes = KEEP_LAST_OF_DUPES]
  have "ft_look str_less fst (DictStorage kvs) (fst x) = Some x"
    using r x string_order.look_Some_iff [of fst "DictStorage kvs" "fst x" x] by (auto simp: DictStorage_def)
  then have "ft_look str_less fst (rev kvs) (fst x) = Some x"
    using r by (auto simp: DictStorage_def string_order.range_view_def split: option.splits)
  then show "x \<in> set kvs" by (auto simp: ft_look_def find_Some_iff rev_nth)
qed

section \<open>Positions and errors\<close>

text \<open>
  What every operation keeps: the index moves forward inside the input and the depth is the same.
  \<open>outcome\<close> is what a function that may return \<open>nullopt\<close> promises: a result has read something and
  reported nothing, and satisfies \<open>good\<close>; without a result, an error was reported or \<open>mute\<close> holds where it stopped.
\<close>

definition adv :: "int list \<Rightarrow> JSONParser \<Rightarrow> JSONParser \<Rightarrow> bool" where
  "adv input p q \<longleftrightarrow> jp_index p \<le> jp_index q \<and> (jp_index p \<le> length input \<longrightarrow> jp_index q \<le> length input)
     \<and> jp_stack_depth q = jp_stack_depth p"

definition quiet :: "JSONParser \<Rightarrow> JSONParser \<Rightarrow> bool" where
  "quiet p q \<longleftrightarrow> jp_error_code q = jp_error_code p"

definition outcome :: "int list \<Rightarrow> (nat \<Rightarrow> bool) \<Rightarrow> ('a \<Rightarrow> bool) \<Rightarrow> JSONParser \<Rightarrow> 'a option \<times> JSONParser \<Rightarrow> bool" where
  "outcome input mute good p = (\<lambda>(r, q). adv input p q
     \<and> (case r of None \<Rightarrow> jp_error_code q \<noteq> JSON_NO_ERROR \<or> mute (jp_index q)
        | Some v \<Rightarrow> jp_index p < jp_index q \<and> quiet p q \<and> good v))"

lemma adv_refl [simp]: "adv input p p"
  by (simp add: adv_def)

lemma adv_trans [trans]: "adv input p q \<Longrightarrow> adv input q r \<Longrightarrow> adv input p r"
  by (auto simp: adv_def)

lemma quiet_refl [simp]: "quiet p p"
  by (simp add: quiet_def)

lemma quiet_trans [trans]: "quiet p q \<Longrightarrow> quiet q r \<Longrightarrow> quiet p r"
  by (simp add: quiet_def)

lemma still_trans: "adv input p q \<and> quiet p q \<Longrightarrow> adv input q r \<and> quiet q r \<Longrightarrow> adv input p r \<and> quiet p r"
  using adv_trans quiet_trans by blast

lemma ReportError_adv [simp]: "adv input p (ReportError code n q) \<longleftrightarrow> adv input p q"
  "jp_error_code (ReportError code n q) = code"
  by (simp_all add: adv_def ReportError_def)

lemma ConsumeChar_adv [simp]: "adv input p (snd (ConsumeChar input p))" "quiet p (snd (ConsumeChar input p))"
  by (auto simp: ConsumeChar_def ConsumeChars_def PeekChars_def adv_def quiet_def split: option.splits)

lemma ConsumeChars_adv: "ConsumeChars input p n = (r, q) \<Longrightarrow> adv input p q \<and> quiet p q"
  by (auto simp: ConsumeChars_def PeekChars_def adv_def quiet_def split: option.splits if_splits)

lemma ConsumeIfMatch_adv: "ConsumeIfMatch input m p = (r, q) \<Longrightarrow> adv input p q \<and> quiet p q"
  by (auto simp: ConsumeIfMatch_def ConsumeChars_def PeekChars_def adv_def quiet_def split: option.splits if_splits)

lemma EatComment_adv: "EatComment input p = (r, q) \<Longrightarrow> adv input p q \<and> quiet p q"
  using EatComment_index [of input p r q]
  by (auto simp: EatComment_def ConsumeChars_def PeekChars_def adv_def quiet_def split: option.splits if_splits prod.splits)

lemma EatWhitespaceAndComments_adv: "adv input p (EatWhitespaceAndComments input p) \<and> quiet p (EatWhitespaceAndComments input p)"
proof (induction input p rule: EatWhitespaceAndComments.induct)
  case (1 input p)
  show ?case
  proof (cases "PeekChar input p")
    case None
    then show ?thesis by (simp add: EatWhitespaceAndComments.simps [of input p])
  next
    case (Some c)
    let ?l = "p\<lparr>jp_index_last_line := jp_index p,
      jp_line_number := (if \<not> (c = 10 \<and> jp_index p > 0 \<and> input ! (jp_index p - 1) = 13) then jp_line_number p + 1 else jp_line_number p)\<rparr>"
    have l: "adv input p ?l \<and> quiet p ?l" by (simp add: adv_def quiet_def)
    consider "c = 13 \<or> c = 10" | "\<not> (c = 13 \<or> c = 10)" "c = 32 \<or> c = 9" | "c = 47" | "\<not> (c = 13 \<or> c = 10)" "\<not> (c = 32 \<or> c = 9)" "c \<noteq> 47" by blast
    then show ?thesis
    proof cases
      case 1
      then have "EatWhitespaceAndComments input p = EatWhitespaceAndComments input (snd (ConsumeChar input ?l))"
        using Some by (simp add: EatWhitespaceAndComments.simps [of input p])
      then show ?thesis using still_trans [OF still_trans [OF l conjI [OF ConsumeChar_adv]] "1.IH"(1) [OF Some 1 refl]] by (simp only:)
    next
      case 2
      then have "EatWhitespaceAndComments input p = EatWhitespaceAndComments input (snd (ConsumeChar input p))"
        using Some by (simp add: EatWhitespaceAndComments.simps [of input p])
      then show ?thesis using still_trans [OF conjI [OF ConsumeChar_adv] "1.IH"(2) [OF Some 2]] by (simp only:)
    next
      case 3
      obtain ok q where q: "EatComment input p = (ok, q)" by fastforce
      then have "EatWhitespaceAndComments input p = (if ok then EatWhitespaceAndComments input q else q)"
        using Some 3 by (simp add: EatWhitespaceAndComments.simps [of input p] split: bool.splits)
      moreover have "ok \<Longrightarrow> adv input q (EatWhitespaceAndComments input q) \<and> quiet q (EatWhitespaceAndComments input q)"
        using "1.IH"(3) [OF Some _ _ 3 q [symmetric]] 3 by auto
      ultimately show ?thesis using EatComment_adv [OF q] adv_trans quiet_trans by (cases ok) auto
    next
      case 4
      then show ?thesis using Some by (simp add: EatWhitespaceAndComments.simps [of input p])
    qed
  qed
qed

lemma GetNextToken_adv: "GetNextToken input p = (t, q) \<Longrightarrow> adv input p q \<and> quiet p q"
  using EatWhitespaceAndComments_adv [of input p] by (auto simp: GetNextToken_def Let_def)

section \<open>Strings\<close>

definition sb_ok :: "JSONParser \<Rightarrow> StringBuilder \<Rightarrow> bool" where
  "sb_ok p sb \<longleftrightarrow> (sb_string sb = None \<longrightarrow> sb_pos sb + sb_length sb = jp_index p)"

lemma sb_Append_converted:
  "IsValidCharacter c \<Longrightarrow> sb_string sb \<noteq> None \<or> \<not> c < 0x80 \<Longrightarrow> \<exists>sb' str. sb_Append input c sb = Some sb' \<and> sb_string sb' = Some str"
  by (auto simp: sb_Append_def Let_def sb_Convert_def)

lemma HexStringToInt_total: "\<exists>ok v. HexStringToInt s = Some (ok, v)"
  using parse_exact [of 16 int32 s] by (auto simp: HexStringToInt_def)

lemma StringToInt_total: "\<exists>ok v. StringToInt s = Some (ok, v)"
  using parse_exact [of 10 int32 s] by (auto simp: StringToInt_def)

lemma sb_Convert_string [simp]: "\<exists>str. sb_string (sb_Convert input sb) = Some str"
  by (auto simp: sb_Convert_def split: option.splits)

lemma DecodeUTF16_total:
  "\<exists>c q. DecodeUTF16 input options p = Some (c, q) \<and> adv input p q \<and> quiet p q \<and> (\<forall>v. c = Some v \<longrightarrow> IsValidCharacter v)"
proof -
  have k: "IsValidCharacter kUnicodeReplacementPoint" by (simp add: IsValidCharacter_def kUnicodeReplacementPoint_def)
  obtain r1 p1 where 1: "ConsumeChars input p 4 = (r1, p1)" by fastforce
  note a1 = ConsumeChars_adv [OF 1]
  show ?thesis
  proof (cases r1)
    case None
    then show ?thesis using 1 a1 by (simp add: DecodeUTF16_def)
  next
    case (Some e)
    obtain ok hi where h: "HexStringToInt e = Some (ok, hi)" using HexStringToInt_total by blast
    obtain b p2 where 2: "ConsumeIfMatch input [92, 117] p1 = (b, p2)" by fastforce
    obtain r3 p3 where 3: "ConsumeChars input p2 4 = (r3, p3)" by fastforce
    note a2 = ConsumeIfMatch_adv [OF 2] and a3 = ConsumeChars_adv [OF 3]
    obtain ok' lo where l: "HexStringToInt (the r3) = Some (ok', lo)" using HexStringToInt_total by blast
    have "adv input p p2" "quiet p p2" "adv input p p3" "quiet p p3" using a1 a2 a3 adv_trans quiet_trans by blast+
    then show ?thesis using 1 2 3 Some h l a1 k
      by (cases b; cases r3) (auto simp: DecodeUTF16_def Let_def CBU16_IS_SINGLE_def CBU16_IS_SURROGATE_def)
  qed
qed

text \<open>Every round of the loop: it fails with an error, ends, or goes on with the builder in step.\<close>

definition round_ok :: "int list \<Rightarrow> JSONParser \<Rightarrow> string_round \<Rightarrow> bool" where
  "round_ok input p r = (case r of
     Stop ok q sb \<Rightarrow> adv input p q \<and> (if ok then jp_index p < jp_index q \<and> quiet p q else jp_error_code q \<noteq> JSON_NO_ERROR)
   | More q sb \<Rightarrow> adv input p q \<and> quiet p q \<and> sb_ok q sb)"

lemma append_More:
  assumes "IsValidCharacter c" "sb_string sb \<noteq> None" "adv input p q" "quiet p q"
  shows "\<exists>r. do { sb \<leftarrow> sb_Append input c sb; Some (More q sb) } = Some r \<and> round_ok input p r"
  using sb_Append_converted [of c sb input] assms by (auto simp: round_ok_def sb_ok_def)

lemma consume_escape_total: "\<exists>r. consume_escape input options p sb = Some r \<and> round_ok input p r"
proof -
  obtain str where str: "sb_string (sb_Convert input sb) = Some str" using sb_Convert_string by blast
  obtain r1 p1 where 1: "ConsumeChars input p 2 = (r1, p1)" by fastforce
  note a1 = ConsumeChars_adv [OF 1]
  show ?thesis
  proof (cases r1)
    case None
    then show ?thesis using 1 a1 by (auto simp: consume_escape_def round_ok_def Let_def)
  next
    case (Some e)
    consider "e ! 1 = 120" | "e ! 1 = 117" | "e ! 1 \<noteq> 120" "e ! 1 \<noteq> 117" by blast
    then show ?thesis
    proof cases
      case x: 1
      obtain r2 p2 where 2: "ConsumeChars input p1 2 = (r2, p2)" by fastforce
      have a: "adv input p p2" "quiet p p2" using a1 ConsumeChars_adv [OF 2] adv_trans quiet_trans by blast+
      obtain ok d where d: "HexStringToInt (the r2) = Some (ok, d)" using HexStringToInt_total by blast
      have stop: "round_ok input p (Stop False (ReportError JSON_INVALID_ESCAPE (- 2) p2) (sb_Convert input sb))"
        using a by (simp add: round_ok_def)
      show ?thesis
      proof (cases "r2 = None \<or> \<not> ok \<or> \<not> IsValidCharacter d")
        case True
        then show ?thesis using 1 2 Some x d stop by (auto simp: consume_escape_def Let_def split: option.splits)
      next
        case False
        then show ?thesis using 1 2 Some x d append_More [of d "sb_Convert input sb" input p p2] a str
          by (auto simp: consume_escape_def Let_def split: option.splits)
      qed
    next
      case u: 2
      obtain c p2 where 2: "DecodeUTF16 input options p1 = Some (c, p2)" "adv input p1 p2" "quiet p1 p2" "\<forall>v. c = Some v \<longrightarrow> IsValidCharacter v"
        using DecodeUTF16_total by blast
      have a: "adv input p p2" "quiet p p2" using a1 2 adv_trans quiet_trans by blast+
      show ?thesis
        using 1 2 Some u a append_More [of "the c" "sb_Convert input sb" input p p2] str
        by (cases c) (auto simp: consume_escape_def Let_def round_ok_def)
    next
      case 3
      have "\<forall>v. simple_escape (e ! 1) = Some v \<longrightarrow> IsValidCharacter v" by (auto simp: simple_escape_def IsValidCharacter_def)
      then show ?thesis using 1 3 Some a1 append_More [of "the (simple_escape (e ! 1))" "sb_Convert input sb" input p p1] str
        by (cases "simple_escape (e ! 1)") (auto simp: consume_escape_def Let_def round_ok_def)
    qed
  qed
qed

lemma sb_Append_in_step:
  assumes "bytes input" "jp_index p < length input" "CBU8_NEXT (drop (jp_index p) input) = Some (c, rest)" "IsValidCharacter c"
    and "scalar c" "sb_ok p sb"
  shows "\<exists>sb'. sb_Append input c sb = Some sb' \<and> sb_ok (p\<lparr>jp_index := length input - length rest\<rparr>) sb'"
proof (cases "sb_string sb \<noteq> None \<or> \<not> c < 0x80")
  case True
  then show ?thesis using sb_Append_converted [OF assms(4) True, of input] by (auto simp: sb_ok_def)
next
  case False
  have "drop (jp_index p) input = utf8_enc c @ rest" "utf8_enc c = [c]"
    using CBU8_NEXT_scalar(2) [OF _ assms(3)] assms(1,5) False by (auto simp: utf8_enc_def scalar_def)
  then have "input ! jp_index p = c" "length rest = length input - jp_index p - 1"
    using assms(2) by (auto simp: Cons_nth_drop_Suc [symmetric] dest: arg_cong [where f = length])
  then show ?thesis using False assms(2,4,6) by (auto simp: sb_Append_def sb_ok_def)
qed

lemma string_round_total:
  assumes "bytes input" "sb_ok p sb"
  shows "\<exists>r. string_round input options p sb = Some r \<and> round_ok input p r"
proof (cases "PeekChar input p")
  case None
  then show ?thesis by (auto simp: string_round_def round_ok_def)
next
  case (Some b)
  then have i: "jp_index p < length input" by (simp add: PeekChar_Some)
  obtain c rest where c: "CBU8_NEXT (drop (jp_index p) input) = Some (c, rest)"
    using CBU8_NEXT_total [of "drop (jp_index p) input"] i by auto
  define j where "j = length input - length rest - 1"
  have rd: "ReadUnicodeCharacter8 input (jp_index p) = Some (IsValidCodepoint c, j, c mod 2 ^ 32)"
    using c by (simp add: ReadUnicodeCharacter8_def j_def)
  have j: "jp_index p \<le> j" "j < length input" "Suc j = length input - length rest"
    using ReadUnicodeCharacter8_index [OF rd i] CBU8_NEXT_less [OF c] by (simp_all add: j_def)
  let ?p = "p\<lparr>jp_index := j\<rparr>" and ?q = "p\<lparr>jp_index := Suc j\<rparr>"
  have a: "adv input p ?p" "quiet p ?p" "adv input p ?q" "quiet p ?q" using j by (simp_all add: adv_def quiet_def)
  have nx: "snd (ConsumeChar input ?p) = ?q" using j by simp
  show ?thesis
  proof (cases "IsValidCodepoint c \<and> IsValidCharacter (c mod 2 ^ 32)")
    case False
    have k: "IsValidCharacter kUnicodeReplacementPoint" "\<not> kUnicodeReplacementPoint < 0x80"
      by (simp_all add: IsValidCharacter_def kUnicodeReplacementPoint_def)
    obtain sb' str where "sb_Append input kUnicodeReplacementPoint sb = Some sb'" "sb_string sb' = Some str"
      using sb_Append_converted k by blast
    then have "string_round input options p sb = Some (if options AND JSON_REPLACE_INVALID_CHARACTERS = 0
        then Stop False (ReportError JSON_UNSUPPORTED_ENCODING 1 ?p) sb else More ?q sb')" "sb_ok ?q sb'"
      using False Some rd nx by (auto simp: string_round_def Let_def sb_ok_def)
    then show ?thesis using a by (auto simp: round_ok_def)
  next
    case True
    then have "scalar c" using CBU8_NEXT_valid [OF _ c] assms(1) by simp
    then have m: "c mod 2 ^ 32 = c" by (auto simp: scalar_def)
    obtain sb' where sb': "sb_Append input c sb = Some sb'" "sb_ok ?q sb'"
      using sb_Append_in_step [OF assms(1) i c _ \<open>scalar c\<close> assms(2)] True m j(3) by auto
    obtain r where r: "consume_escape input options ?p sb = Some r" "round_ok input ?p r" using consume_escape_total by blast
    have "round_ok input p r" using r(2) j(1) a(1,2) adv_trans quiet_trans
      by (auto simp: round_ok_def split: string_round.splits if_splits)
    moreover have "string_round input options p sb =
        (if c = 34 then Some (Stop True ?q sb) else if c \<noteq> 92 then Some (More ?q sb') else consume_escape input options ?p sb)"
      using Some rd True m nx sb' by (simp add: string_round_def Let_def)
    moreover have "jp_index p < Suc j" using j by simp
    ultimately show ?thesis using a(3,4) r(1) sb'(2) by (auto simp: round_ok_def)
  qed
qed

lemma string_loop_total:
  "bytes input \<Longrightarrow> sb_ok p sb \<Longrightarrow> \<exists>ok q sb'. string_loop input options p sb = Some (ok, q, sb') \<and> round_ok input p (Stop ok q sb')"
proof (induction input options p sb rule: string_loop.induct)
  case (1 input options p sb)
  obtain r where r: "string_round input options p sb = Some r" "round_ok input p r"
    using string_round_total [OF 1(2,3)] by blast
  show ?case
  proof (cases r)
    case (Stop ok q sb')
    then show ?thesis using r by (simp add: string_loop.simps [of input options p sb])
  next
    case (More q sb')
    then have m: "adv input p q" "quiet p q" "sb_ok q sb'" using r(2) by (simp_all add: round_ok_def)
    obtain ok q' sb'' where l: "string_loop input options q sb' = Some (ok, q', sb'')" "round_ok input q (Stop ok q' sb'')"
      using 1(1) [OF r(1) More 1(2) m(3)] by blast
    have "jp_index p \<le> jp_index q" using m(1) by (simp add: adv_def)
    then have "round_ok input p (Stop ok q' sb'')"
      using l(2) m(1,2) adv_trans [OF m(1)] quiet_trans [OF m(2)] by (auto simp: round_ok_def split: if_splits)
    then show ?thesis using r(1) More l(1) by (simp add: string_loop.simps [of input options p sb])
  qed
qed

abbreviation anything :: "'a \<Rightarrow> bool" where "anything \<equiv> \<lambda>_. True"

lemma outcome_error: "adv input p q \<Longrightarrow> code \<noteq> JSON_NO_ERROR \<Longrightarrow> outcome input mute good p (None, ReportError code n q)"
  by (simp add: outcome_def)

lemma outcome_from:
  "outcome input mute good q r \<Longrightarrow> adv input p q \<Longrightarrow> quiet p q \<Longrightarrow> outcome input mute good p r"
  using adv_trans [of input p q] quiet_trans [of p q] by (auto simp: outcome_def adv_def split: option.splits prod.splits)

lemma ConsumeChar_cases:
  obtains "ConsumeChar input p = (None, p)" | c where "ConsumeChar input p = (Some c, p\<lparr>jp_index := jp_index p + 1\<rparr>)" "jp_index p < length input"
  by (cases "jp_index p < length input") (auto simp: ConsumeChar_def ConsumeChars_def PeekChars_def)

lemma ConsumeStringRaw_total:
  assumes "bytes input"
  shows "\<exists>r. ConsumeStringRaw input options p = Some r \<and> outcome input (\<lambda>_. False) anything p r"
proof -
  obtain c q where c: "ConsumeChar input p = (c, q)" by fastforce
  have a: "adv input p q" "quiet p q" using ConsumeChar_adv [where input = input and p = p] c by simp_all
  show ?thesis
  proof (cases "c = Some 34")
    case False
    then show ?thesis using c a by (auto simp: ConsumeStringRaw_def intro!: outcome_error)
  next
    case True
    then have "jp_index q \<le> length input" using c by (cases rule: ConsumeChar_cases [of input p]) auto
    moreover obtain ok q' sb where l: "string_loop input options q \<lparr>sb_pos = jp_index q, sb_length = 0, sb_string = None\<rparr> = Some (ok, q', sb)"
      "round_ok input q (Stop ok q' sb)"
      using string_loop_total [OF assms, of q "\<lparr>sb_pos = jp_index q, sb_length = 0, sb_string = None\<rparr>" options]
      by (auto simp: sb_ok_def simp del: split_paired_Ex)
    moreover have "outcome input (\<lambda>_. False) anything q (if ok then Some sb else None, q')"
      using l(2) by (auto simp: round_ok_def outcome_def split: if_splits)
    ultimately show ?thesis using c True outcome_from [OF _ a] by (auto simp: ConsumeStringRaw_def)
  qed
qed

lemma ConsumeString_total:
  assumes "bytes input" "\<And>s. good (STRING s)"
  shows "\<exists>r. ConsumeString input options p = Some r \<and> outcome input mute good p r"
proof -
  obtain sb q where "ConsumeStringRaw input options p = Some (sb, q)" "outcome input (\<lambda>_. False) anything p (sb, q)"
    using ConsumeStringRaw_total [OF assms(1), of options p] by auto
  then show ?thesis using assms(2) by (cases sb) (simp_all add: ConsumeString_def outcome_def)
qed

section \<open>Numbers and literals\<close>

text \<open>
  Where the parser gives up without a report: right after a number of JSON that is too large for a
  double.
\<close>

definition unreadable :: "int list \<Rightarrow> nat \<Rightarrow> bool" where
  "unreadable input i \<longleftrightarrow> (\<exists>u t v. input = u @ t @ v \<and> i = length (u @ t) \<and> number_text t \<and> \<not> isfinite (fst (strtod t)))"

lemma read_digits_len: "len \<le> fst (read_digits s len first) \<and> fst (read_digits s len first) \<le> len + length s"
  by (induction s len first rule: read_digits.induct) auto

lemma ReadInt_adv: "ReadInt input z p = (ok, q) \<Longrightarrow> adv input p q \<and> quiet p q \<and> (ok \<longrightarrow> jp_index p < jp_index q)"
  using read_digits_len [of 0 "drop (jp_index p) input" 0]
  by (auto simp: ReadInt_def Let_def adv_def quiet_def split: prod.splits if_splits)

lemma number_fraction_adv:
  assumes "number_fraction input p = (ok, q)"
  shows "adv input p q \<and> quiet p q"
proof (cases "PeekChar input p = Some 46")
  case True
  then have "ReadInt input True (snd (ConsumeChar input p)) = (ok, q)" using assms by (simp add: number_fraction_def)
  then show ?thesis using ReadInt_adv still_trans [OF conjI [OF ConsumeChar_adv]] by blast
qed (use assms in \<open>simp add: number_fraction_def\<close>)

lemma number_exponent_adv:
  assumes "number_exponent input p = (ok, q)"
  shows "adv input p q \<and> quiet p q"
proof (cases "PeekChar input p = Some 101 \<or> PeekChar input p = Some 69")
  case True
  define s where "s = snd (ConsumeChar input p)"
  define t where "t = (if PeekChar input s = Some 45 \<or> PeekChar input s = Some 43 then snd (ConsumeChar input s) else s)"
  have s: "adv input p s \<and> quiet p s" by (simp add: s_def)
  moreover have "adv input s t \<and> quiet s t" by (simp add: t_def)
  ultimately have "adv input p t \<and> quiet p t" by (rule still_trans)
  moreover have "ReadInt input True t = (ok, q)" using assms True unfolding number_exponent_def s_def t_def Let_def by (simp only: if_True)
  ultimately show ?thesis using ReadInt_adv [of input True t ok q] still_trans [of input p t q] by simp
next
  case False
  then show ?thesis using assms by (simp add: number_exponent_def Let_def)
qed

text \<open>What the parts of a number consume.\<close>

definition consumes :: "int list \<Rightarrow> JSONParser \<Rightarrow> int list \<Rightarrow> JSONParser \<Rightarrow> bool" where
  "consumes input p x q \<longleftrightarrow> drop (jp_index p) input = x @ drop (jp_index q) input \<and> jp_index q = jp_index p + length x"

lemma consumes_refl [simp]: "consumes input p [] p"
  by (simp add: consumes_def)

lemma consumes_trans: "consumes input p x q \<Longrightarrow> consumes input q y r \<Longrightarrow> consumes input p (x @ y) r"
  by (simp add: consumes_def)

lemma consumes_char: "PeekChar input p = Some c \<Longrightarrow> consumes input p [c] (snd (ConsumeChar input p))"
  by (auto simp: PeekChar_Some consumes_def Cons_nth_drop_Suc)

lemma consumes_take: "consumes input p x q \<Longrightarrow> take (jp_index q - jp_index p) (drop (jp_index p) input) = x"
  by (simp add: consumes_def)

lemma read_digits_takeWhile: "read_digits s len first =
  (len + length (takeWhile digit s), if len = 0 \<and> takeWhile digit s \<noteq> [] then hd (takeWhile digit s) else first)"
  by (induction s len first rule: read_digits.induct) auto

lemma ReadInt_consumes:
  assumes "ReadInt input z p = (True, q)"
  obtains ds where "consumes input p ds q" "ds \<noteq> []" "list_all digit ds" "z \<or> (hd ds = 48 \<longrightarrow> length ds = 1)"
    "drop (jp_index q) input = [] \<or> \<not> digit (hd (drop (jp_index q) input))"
proof -
  define r where "r = drop (jp_index p) input"
  let ?ds = "takeWhile digit r"
  have q: "q = p\<lparr>jp_index := jp_index p + length ?ds\<rparr>" "?ds \<noteq> []" "z \<or> \<not> (1 < length ?ds \<and> hd ?ds = 48)"
    using assms by (auto simp: ReadInt_def Let_def read_digits_takeWhile r_def [symmetric] split: if_splits)
  have d: "drop (jp_index q) input = dropWhile digit r" using q(1) dropWhile_eq_drop [of digit r] by (simp add: r_def add.commute)
  have "consumes input p ?ds q" using q(1) d by (simp add: consumes_def r_def)
  moreover have "list_all digit ?ds" by (auto simp: list_all_iff dest: set_takeWhileD)
  moreover have "z \<or> (hd ?ds = 48 \<longrightarrow> length ?ds = 1)" using q(2,3) by (cases ?ds; cases "tl ?ds") auto
  moreover have "dropWhile digit r = [] \<or> \<not> digit (hd (dropWhile digit r))" using hd_dropWhile [of digit r] by blast
  ultimately show ?thesis using that q(2) d by metis
qed

lemma number_exponent_consumes:
  assumes "number_exponent input p = (True, q)"
  obtains x where "consumes input p x q" "exponent_text x"
proof (cases "PeekChar input p = Some 101 \<or> PeekChar input p = Some 69")
  case True
  then obtain e where e: "PeekChar input p = Some e" "e = 101 \<or> e = 69" by auto
  define s where "s = snd (ConsumeChar input p)"
  have s: "consumes input p [e] s" unfolding s_def by (rule consumes_char [OF e(1)])
  define t where "t = (if PeekChar input s = Some 45 \<or> PeekChar input s = Some 43 then snd (ConsumeChar input s) else s)"
  have "ReadInt input True t = (True, q)" using assms True unfolding number_exponent_def s_def t_def Let_def by (simp only: if_True)
  then obtain ds where ds: "consumes input t ds q" "ds \<noteq> []" "list_all digit ds" by (rule ReadInt_consumes)
  have hd: "hd ds \<noteq> 45" "hd ds \<noteq> 43" using ds(2,3) by (cases ds; auto)+
  consider c where "PeekChar input s = Some c" "c = 45 \<or> c = 43" | "t = s"
    by (cases "PeekChar input s = Some 45 \<or> PeekChar input s = Some 43") (auto simp: t_def)
  then show ?thesis
  proof cases
    case (1 c)
    then have "consumes input s [c] t" using consumes_char [OF 1(1)] by (auto simp: t_def)
    then have "consumes input p ([e] @ [c] @ ds) q" using s ds(1) consumes_trans by blast
    moreover have "exponent_text ([e] @ [c] @ ds)" using e(2) 1(2) ds(2,3) by (auto simp: exponent_text_def)
    ultimately show ?thesis by (rule that)
  next
    case 2
    then have "consumes input p ([e] @ ds) q" using s ds(1) consumes_trans by blast
    moreover have "exponent_text ([e] @ ds)" using e(2) hd ds(2,3) by (auto simp: exponent_text_def)
    ultimately show ?thesis by (rule that)
  qed
next
  case False
  then have "q = p" using assms by (simp add: number_exponent_def Let_def)
  then show ?thesis using that [of "[]"] by (simp add: exponent_text_def)
qed

lemma exponent_text_digits: "exponent_text x \<Longrightarrow> list_all digit ds \<Longrightarrow> takeWhile digit (ds @ x) = ds \<and> dropWhile digit (ds @ x) = x"
  by (cases x) (auto simp: exponent_text_def list_all_iff takeWhile_append2 dropWhile_append2)

lemma number_fraction_consumes:
  assumes "number_fraction input p = (True, q)" "number_exponent input q = (True, r)"
  obtains x where "consumes input p x r" "fraction_text x"
proof -
  obtain y where y: "consumes input q y r" "exponent_text y" using number_exponent_consumes [OF assms(2)] by blast
  show ?thesis
  proof (cases "PeekChar input p = Some 46")
    case True
    let ?s = "snd (ConsumeChar input p)"
    have "ReadInt input True ?s = (True, q)" using assms(1) True by (simp add: number_fraction_def)
    then obtain ds where ds: "consumes input ?s ds q" "ds \<noteq> []" "list_all digit ds" by (rule ReadInt_consumes)
    have "consumes input p ([46] @ ds @ y) r" using consumes_char [OF True] ds(1) y(1) consumes_trans by blast
    moreover have "fraction_text ([46] @ ds @ y)" using exponent_text_digits [OF y(2) ds(3)] ds(2) y(2) by (simp add: fraction_text_def)
    ultimately show ?thesis by (rule that)
  next
    case False
    then have "q = p" using assms(1) by (simp add: number_fraction_def)
    moreover have "fraction_text y" using y(2) by (auto simp: fraction_text_def exponent_text_def)
    ultimately show ?thesis using that y(1) by blast
  qed
qed

lemma number_consumes:
  assumes "p1 = (if PeekChar input p = Some 45 then snd (ConsumeChar input p) else p)"
    and "ReadInt input False p1 = (True, p2)" "number_fraction input p2 = (True, p3)" "number_exponent input p3 = (True, p4)"
  shows "number_text (take (jp_index p4 - jp_index p) (drop (jp_index p) input))"
proof -
  obtain ds where ds: "consumes input p1 ds p2" "ds \<noteq> []" "list_all digit ds" "hd ds = 48 \<longrightarrow> length ds = 1"
    using ReadInt_consumes [OF assms(2)] by blast
  obtain x where x: "consumes input p2 x p4" "fraction_text x" using number_fraction_consumes [OF assms(3,4)] by blast
  define sg where "sg = (if PeekChar input p = Some 45 then [45] else [] :: int list)"
  have "consumes input p sg p1" using consumes_char [of input p 45] assms(1) by (auto simp: sg_def)
  then have "consumes input p (sg @ ds @ x) p4" using ds(1) x(1) consumes_trans by blast
  moreover have "takeWhile digit (ds @ x) = ds \<and> dropWhile digit (ds @ x) = x"
    using x(2) exponent_text_digits [of x ds] ds(3) takeWhile_digits [of ds "tl x"] by (cases x) (auto simp: fraction_text_def split: if_splits)
  then have "number_text (sg @ ds @ x)" using ds(2-4) x(2) by (cases ds) (auto simp: number_text_def sg_def Let_def)
  ultimately show ?thesis using consumes_take by metis
qed

lemma number_end_total:
  assumes "jp_index p \<le> length input" "jp_index p < jp_index q" "adv input p q" "quiet p q" "\<And>v. good (INTEGER v)" "\<And>v. good (DOUBLE v)"
    and "number_text (take (jp_index q - jp_index p) (drop (jp_index p) input))"
  shows "\<exists>r. number_end input (jp_index p) q = Some r \<and> outcome input (unreadable input) good p r"
proof -
  obtain t q' where t: "GetNextToken input q = (t, q')" by fastforce
  note a = GetNextToken_adv [OF t]
  let ?s = "take (jp_index q - jp_index p) (drop (jp_index p) input)" and ?q = "q'\<lparr>jp_index := jp_index q\<rparr>"
  have q: "adv input p ?q" "quiet p ?q" "jp_index p < jp_index ?q" "adv input p q'" using assms(2-4) a adv_trans by (auto simp: adv_def quiet_def)
  obtain ok v where v: "StringToInt ?s = Some (ok, v)" using StringToInt_total by blast
  note d = StringToDouble_text(1) [OF assms(7)]
  show ?thesis
  proof (cases "t \<in> {T_OBJECT_END, T_ARRAY_END, T_LIST_SEPARATOR, T_END_OF_INPUT}")
    case True
    have "input = take (jp_index p) input @ ?s @ drop (jp_index q - jp_index p) (drop (jp_index p) input)" by (simp only: append_take_drop_id)
    moreover have "jp_index q = length (take (jp_index p) input @ ?s)" using assms(1-3) by (auto simp: adv_def)
    ultimately have u: "\<not> isfinite (fst (strtod ?s)) \<Longrightarrow> unreadable input (jp_index q)" unfolding unreadable_def using assms(7) by blast
    then show ?thesis using True t v d q assms(5,6)
      by (cases ok; cases "isfinite (fst (strtod ?s))") (simp_all add: outcome_def Let_def number_end_def)
  qed (use t q in \<open>auto simp: Let_def number_end_def intro!: outcome_error\<close>)
qed

lemma ConsumeNumber_total:
  assumes "jp_index p \<le> length input" "\<And>v. good (INTEGER v)" "\<And>v. good (DOUBLE v)"
  shows "\<exists>r. ConsumeNumber input p = Some r \<and> outcome input (unreadable input) good p r"
proof -
  define p1 where "p1 = (if PeekChar input p = Some 45 then snd (ConsumeChar input p) else p)"
  obtain ok2 p2 where 2: "ReadInt input False p1 = (ok2, p2)" by fastforce
  obtain ok3 p3 where 3: "number_fraction input p2 = (ok3, p3)" by fastforce
  obtain ok4 p4 where 4: "number_exponent input p3 = (ok4, p4)" by fastforce
  have a1: "adv input p p1 \<and> quiet p p1" by (simp add: p1_def)
  have a2: "adv input p1 p2 \<and> quiet p1 p2" "ok2 \<Longrightarrow> jp_index p1 < jp_index p2" using ReadInt_adv [OF 2] by auto
  note a3 = number_fraction_adv [OF 3] and a4 = number_exponent_adv [OF 4]
  note ap2 = still_trans [OF a1 a2(1)]
  note ap3 = still_trans [OF ap2 a3]
  note ap4 = still_trans [OF ap3 a4]
  have idx: "jp_index p < jp_index p4" if ok2 using a1 a2 a3 a4 that by (auto simp: adv_def)
  have e: "ConsumeNumber input p =
    (if \<not> ok2 then Some (None, ReportError JSON_SYNTAX_ERROR 1 p2) else if \<not> ok3 then Some (None, ReportError JSON_SYNTAX_ERROR 1 p3)
     else if \<not> ok4 then Some (None, ReportError JSON_SYNTAX_ERROR 1 p4) else number_end input (jp_index p) p4)"
    using assms(1) 2 3 4 by (simp add: ConsumeNumber_def p1_def [symmetric] Let_def)
  have err: "outcome input (unreadable input) good p (None, ReportError JSON_SYNTAX_ERROR 1 q)" if "adv input p q \<and> quiet p q" for q
    using that by (simp add: outcome_error)
  show ?thesis
  proof (cases "ok2 \<and> ok3 \<and> ok4")
    case True
    have nt: "number_text (take (jp_index p4 - jp_index p) (drop (jp_index p) input))" using number_consumes [OF p1_def] 2 3 4 True by simp
    show ?thesis unfolding e using number_end_total [where good = good, OF assms(1) idx _ _ assms(2,3) nt] ap4 True by simp
  next
    case False
    then show ?thesis unfolding e using err [OF ap2] err [OF ap3] err [OF ap4] by auto
  qed
qed

lemma ConsumeLiteral_outcome:
  assumes "good NONE" "\<And>b. good (BOOLEAN b)"
  shows "outcome input mute good p (ConsumeLiteral input p)"
proof -
  have m: "ConsumeIfMatch input m p = (True, q) \<Longrightarrow> m \<noteq> [] \<Longrightarrow> jp_index p < jp_index q" "ConsumeIfMatch input m p = (False, q) \<Longrightarrow> q = p" for m q
    by (auto simp: ConsumeIfMatch_def ConsumeChars_def PeekChars_def split: if_splits)
  show ?thesis using assms
    by (auto simp: ConsumeLiteral_def outcome_def split: prod.splits bool.splits dest: m ConsumeIfMatch_adv)
qed

section \<open>Lists and dictionaries\<close>

fun nesting :: "Value \<Rightarrow> nat" where
  "nesting (LIST vs) = Suc (foldr max (map nesting vs) 0)"
| "nesting (DICTIONARY kvs) = Suc (foldr max (map (\<lambda>(k, v). nesting v) kvs) 0)"
| "nesting _ = 0"

lemma foldr_max_le: "foldr max ns 0 \<le> (n :: nat) \<longleftrightarrow> (\<forall>m \<in> set ns. m \<le> n)"
  by (induction ns) auto

lemma next_round_outcome:
  assumes "next_round input options close n p = (t, q)"
  shows "adv input p q \<and> (case t of None \<Rightarrow> jp_error_code q \<noteq> JSON_NO_ERROR | Some _ \<Rightarrow> quiet p q)"
proof -
  obtain t1 p1 where 1: "GetNextToken input p = (t1, p1)" by fastforce
  obtain t2 p2 where 2: "GetNextToken input (snd (ConsumeChar input p1)) = (t2, p2)" by fastforce
  note a1 = GetNextToken_adv [OF 1]
  note a2 = still_trans [OF a1 still_trans [OF conjI [OF ConsumeChar_adv] GetNextToken_adv [OF 2]]]
  show ?thesis using assms 1 2 a1 a2 by (auto simp: next_round_def Let_def split: if_splits)
qed

lemma next_round_item:
  assumes "outcome input mute good p (Some v, q)" "next_round input options close n q = (t, q')" "good' (f (the t))"
  shows "outcome input mute good' p (map_option f t, q')"
proof -
  have q: "adv input p q" "quiet p q" "jp_index p < jp_index q" using assms(1) by (simp_all add: outcome_def)
  note n = next_round_outcome [OF assms(2)]
  have "adv input p q'" "jp_index p < jp_index q'" using q n adv_trans [OF q(1)] by (auto simp: adv_def)
  then show ?thesis using n assms(3) quiet_trans [OF q(2)] by (cases t) (simp_all add: outcome_def)
qed

text \<open>The loop, for every round that promises an outcome.\<close>

lemma item_loop_total:
  assumes round: "\<And>token p st. jp_index p \<le> length input \<Longrightarrow> jp_stack_depth p = d \<Longrightarrow> good st
    \<Longrightarrow> \<exists>r. round token p st = Some r \<and> outcome input mute (\<lambda>(t, st). good st) p r"
  shows "jp_index p \<le> length input \<Longrightarrow> jp_stack_depth p = d \<Longrightarrow> good st \<Longrightarrow> length input - jp_index p < fuel
    \<Longrightarrow> \<exists>r q. item_loop round close fuel token p st = Some (r, q) \<and> adv input p q
      \<and> (case r of None \<Rightarrow> jp_error_code q \<noteq> JSON_NO_ERROR \<or> mute (jp_index q) | Some st \<Rightarrow> quiet p q \<and> good st)"
proof (induction fuel arbitrary: token p st)
  case (Suc fuel)
  show ?case
  proof (cases "token = close")
    case False
    obtain r q where r: "round token p st = Some (r, q)" "outcome input mute (\<lambda>(t, st). good st) p (r, q)"
      using round [OF Suc.prems(1-3)] by (metis surj_pair)
    show ?thesis
    proof (cases r)
      case None
      then show ?thesis using False r by (auto simp: outcome_def)
    next
      case (Some tv)
      obtain t st' where tv: "tv = (t, st')" by fastforce
      have q: "adv input p q" "quiet p q" "jp_index p < jp_index q" "good st'" using r(2) Some tv by (simp_all add: outcome_def)
      then have "jp_index q \<le> length input" "jp_stack_depth q = d" "length input - jp_index q < fuel"
        using Suc.prems by (auto simp: adv_def)
      then obtain r' q' where l: "item_loop round close fuel t q st' = Some (r', q')" "adv input q q'"
        "case r' of None \<Rightarrow> jp_error_code q' \<noteq> JSON_NO_ERROR \<or> mute (jp_index q') | Some st \<Rightarrow> quiet q q' \<and> good st"
        using Suc.IH [of q st' t] q(4) by blast
      have "item_loop round close (Suc fuel) token p st = Some (r', q')" using False r(1) Some tv l(1) by simp
      moreover have "case r' of None \<Rightarrow> jp_error_code q' \<noteq> JSON_NO_ERROR \<or> mute (jp_index q') | Some st \<Rightarrow> quiet p q' \<and> good st"
        using l(3) quiet_trans [OF q(2)] by (cases r') simp_all
      ultimately show ?thesis using adv_trans [OF q(1) l(2)] by blast
    qed
  qed (use Suc.prems in auto)
qed simp

text \<open>What \<open>ParseToken\<close> promises; the loops make use of it for the items.\<close>

abbreviation shallow :: "int \<Rightarrow> int \<Rightarrow> Value \<Rightarrow> bool" where
  "shallow max_depth d v \<equiv> int (nesting v) + d < max_depth"

definition parses :: "int list \<Rightarrow> int \<Rightarrow> int \<Rightarrow> parse \<Rightarrow> bool" where
  "parses input max_depth d parse \<longleftrightarrow> (\<forall>token p. jp_index p \<le> length input \<longrightarrow> jp_stack_depth p = d
     \<longrightarrow> (\<exists>r. parse token p = Some r \<and> outcome input (unreadable input) (shallow max_depth d) p r))"

lemma list_round_total:
  assumes "parses input max_depth d parse" "jp_index p \<le> length input" "jp_stack_depth p = d" "\<forall>v \<in> set vs. shallow max_depth d v"
  shows "\<exists>r. list_round parse input options token p vs = Some r
    \<and> outcome input (unreadable input) (\<lambda>(t, vs). \<forall>v \<in> set vs. shallow max_depth d v) p r"
proof -
  obtain r q where r: "parse token p = Some (r, q)" "outcome input (unreadable input) (shallow max_depth d) p (r, q)"
    using assms(1-3) unfolding parses_def by (metis surj_pair)
  show ?thesis
  proof (cases r)
    case None
    then show ?thesis using r by (auto simp: list_round_def outcome_def)
  next
    case (Some v)
    obtain t q' where n: "next_round input options T_ARRAY_END 1 q = (t, q')" by fastforce
    have "shallow max_depth d v" using r(2) Some by (simp add: outcome_def)
    then show ?thesis using next_round_item [OF r(2) [unfolded Some] n, where f = "\<lambda>t. (t, vs @ [v])"] r(1) Some n assms(4)
      by (auto simp: list_round_def)
  qed
qed

lemma dict_round_total:
  assumes "bytes input" "parses input max_depth d parse" "jp_index p \<le> length input" "jp_stack_depth p = d"
    and "\<forall>(k, v) \<in> set kvs. shallow max_depth d v"
  shows "\<exists>r. dict_round parse input options token p kvs = Some r
    \<and> outcome input (unreadable input) (\<lambda>(t, kvs). \<forall>(k, v) \<in> set kvs. shallow max_depth d v) p r"
proof (cases "token = T_STRING")
  case True
  obtain key p1 where 1: "ConsumeStringRaw input options p = Some (key, p1)" "outcome input (\<lambda>_. False) anything p (key, p1)"
    using ConsumeStringRaw_total [OF assms(1), of options p] by auto
  obtain t2 p2 where 2: "GetNextToken input p1 = (t2, p2)" by fastforce
  obtain t3 p3 where 3: "GetNextToken input (snd (ConsumeChar input p2)) = (t3, p3)" by fastforce
  show ?thesis
  proof (cases key)
    case None
    then show ?thesis using True 1 by (auto simp: dict_round_def outcome_def)
  next
    case (Some k)
    then have a1: "adv input p p1 \<and> quiet p p1" using 1(2) by (simp add: outcome_def)
    note a2 = still_trans [OF a1 GetNextToken_adv [OF 2]]
    note a3 = still_trans [OF a2 still_trans [OF conjI [OF ConsumeChar_adv] GetNextToken_adv [OF 3]]]
    then have i3: "jp_index p3 \<le> length input" "jp_stack_depth p3 = d" using assms(3,4) by (auto simp: adv_def)
    obtain r q where r: "parse t3 p3 = Some (r, q)" "outcome input (unreadable input) (shallow max_depth d) p3 (r, q)"
      using assms(2) i3 unfolding parses_def by (metis surj_pair)
    note rp = outcome_from [OF r(2) conjunct1 [OF a3] conjunct2 [OF a3]]
    show ?thesis
    proof (cases "t2 = T_OBJECT_PAIR_SEPARATOR")
      case False
      then show ?thesis using True 1(1) 2 Some a2 by (auto simp: dict_round_def outcome_error)
    next
      case sep: True
      show ?thesis
      proof (cases r)
        case None
        then show ?thesis using True 1(1) 2 3 Some sep r(1) rp by (auto simp: dict_round_def outcome_def)
      next
        case val: (Some v)
        obtain t q' where n: "next_round input options T_OBJECT_END 0 q = (t, q')" by fastforce
        have "shallow max_depth d v" using r(2) val by (simp add: outcome_def)
        then show ?thesis using True 1(1) 2 3 Some sep r(1) val n assms(5)
            next_round_item [OF rp [unfolded val] n, where f = "\<lambda>t. (t, kvs @ [(DestructiveAsString input k, v)])"]
          by (auto simp: dict_round_def)
      qed
    qed
  qed
qed (auto simp: dict_round_def outcome_error)

text \<open>Both containers: the bracket, the marker, the loop and the closing bracket.\<close>

definition container :: "int \<Rightarrow> Token \<Rightarrow> ('s \<Rightarrow> Value) \<Rightarrow> 's
    \<Rightarrow> (Token \<Rightarrow> JSONParser \<Rightarrow> 's \<Rightarrow> ((Token \<times> 's) option \<times> JSONParser) option) \<Rightarrow> int list \<Rightarrow> int \<Rightarrow> JSONParser
    \<Rightarrow> (Value option \<times> JSONParser) option" where
  "container bracket close mk st round input max_depth p =
     (let (c, p) = ConsumeChar input p in
      if c \<noteq> Some bracket then Some (None, ReportError JSON_UNEXPECTED_TOKEN 1 p)
      else do {
        p \<leftarrow> StackMarker max_depth p;
        if IsTooDeep max_depth p then Some (StackMarker_destroy (None, ReportError JSON_TOO_MUCH_NESTING 0 p))
        else
          let (token, p) = GetNextToken input p in do {
            (storage, p) \<leftarrow> item_loop round close (length input + 1) token p st;
            Some (StackMarker_destroy (case storage of None \<Rightarrow> (None, p)
              | Some vs \<Rightarrow> (Some (mk vs), snd (ConsumeChar input p))))
          }
      })"

lemma containers:
  "ConsumeList parse input options max_depth p = container 91 T_ARRAY_END LIST [] (list_round parse input options) input max_depth p"
  "ConsumeDictionary parse input options max_depth p
     = container 123 T_OBJECT_END (\<lambda>kvs. DICTIONARY (DictStorage kvs)) [] (dict_round parse input options) input max_depth p"
  by (simp_all add: ConsumeList_def ConsumeDictionary_def container_def)

lemma container_total:
  assumes p: "jp_index p \<le> length input" "0 \<le> jp_stack_depth p" "jp_stack_depth p < max_depth"
    and round: "\<And>token q st. jp_stack_depth p + 1 < max_depth \<Longrightarrow> jp_index q \<le> length input \<Longrightarrow> jp_stack_depth q = jp_stack_depth p + 1
      \<Longrightarrow> good st \<Longrightarrow> \<exists>r. round token q st = Some r \<and> outcome input mute (\<lambda>(t, st). good st) q r"
    and st: "good st"
    and good: "\<And>st. jp_stack_depth p + 1 < max_depth \<Longrightarrow> good st \<Longrightarrow> good' (mk st)"
  shows "\<exists>r. container bracket close mk st round input max_depth p = Some r \<and> outcome input mute good' p r"
proof (cases "fst (ConsumeChar input p) = Some bracket")
  case False
  then show ?thesis using ConsumeChar_adv(1) [where input = input and p = p]
    by (cases "ConsumeChar input p") (simp add: container_def outcome_error)
next
  case True
  let ?p = "p\<lparr>jp_index := Suc (jp_index p)\<rparr>" and ?e = "p\<lparr>jp_index := Suc (jp_index p), jp_stack_depth := jp_stack_depth p + 1\<rparr>"
  have c: "ConsumeChar input p = (Some bracket, ?p)" "jp_index p < length input"
    using True by (cases rule: ConsumeChar_cases [of input p]; simp)+
  have m: "StackMarker max_depth ?p = Some ?e" using p(3) by (simp add: StackMarker_def Let_def)
  show ?thesis
  proof (cases "jp_stack_depth p + 1 < max_depth")
    case False
    then have "IsTooDeep max_depth ?e" by (simp add: IsTooDeep_def)
    then show ?thesis using c m by (simp add: container_def StackMarker_destroy_def outcome_def adv_def ReportError_def)
  next
    case deep: True
    then have d: "\<not> IsTooDeep max_depth ?e" by (simp add: IsTooDeep_def)
    obtain token q0 where g: "GetNextToken input ?e = (token, q0)" by fastforce
    have q0: "jp_index q0 \<le> length input" "jp_stack_depth q0 = jp_stack_depth p + 1"
      using GetNextToken_adv [OF g] c(2) by (simp_all add: adv_def)
    define n where "n = Suc (length input)"
    have "length input - jp_index q0 < n" by (simp add: n_def)
    note loop = item_loop_total [of input "jp_stack_depth p + 1" good round mute q0 st n close token,
        OF round [OF deep] q0 st this]
    obtain r q where r: "item_loop round close n token q0 st = Some (r, q)" "adv input q0 q"
      "case r of None \<Rightarrow> jp_error_code q \<noteq> JSON_NO_ERROR \<or> mute (jp_index q) | Some st \<Rightarrow> quiet q0 q \<and> good st"
      using loop by blast
    have a: "adv input ?e q" "quiet ?e q0" using adv_trans [OF _ r(2)] GetNextToken_adv [OF g] by blast+
    have e: "container bracket close mk st round input max_depth p = Some (StackMarker_destroy (case r of None \<Rightarrow> (None, q)
        | Some vs \<Rightarrow> (Some (mk vs), snd (ConsumeChar input q))))"
      using c d g m n_def r(1) by (simp add: container_def n_def [symmetric] del: item_loop.simps)
    show ?thesis
    proof (cases r)
      case None
      then show ?thesis unfolding e using r(3) a(1) c(2) by (auto simp: StackMarker_destroy_def outcome_def adv_def)
    next
      case (Some vs)
      let ?q = "snd (ConsumeChar input q)"
      have "adv input ?e ?q" "quiet ?e ?q" using Some r(3) adv_trans [OF a(1)] quiet_trans [OF quiet_trans [OF a(2)]] by auto
      then show ?thesis unfolding e using Some r(3) c(2) good [OF deep]
        by (auto simp: StackMarker_destroy_def outcome_def adv_def quiet_def)
    qed
  qed
qed

lemma shallow_list: "\<forall>v \<in> set vs. shallow max_depth (d + 1) v \<Longrightarrow> d + 1 < max_depth \<Longrightarrow> shallow max_depth d (LIST vs)"
  using foldr_max_le [of "map nesting vs" "nat (max_depth - d - 2)"] by (auto simp: nat_le_eq_zle le_nat_iff)

lemma shallow_dict: "\<forall>(k, v) \<in> set kvs. shallow max_depth (d + 1) v \<Longrightarrow> d + 1 < max_depth \<Longrightarrow> shallow max_depth d (DICTIONARY kvs)"
  using foldr_max_le [of "map (\<lambda>(k, v). nesting v) kvs" "nat (max_depth - d - 2)"] by (auto simp: le_nat_iff)

lemma ParseToken_total:
  assumes "bytes input"
  shows "0 \<le> d \<Longrightarrow> d < max_depth \<Longrightarrow> max_depth - d \<le> int levels \<Longrightarrow> parses input max_depth d (ParseToken input options max_depth levels)"
proof (induction levels arbitrary: d)
  case (Suc levels)
  let ?parse = "ParseToken input options max_depth levels"
  have IH: "parses input max_depth (d + 1) ?parse" if "d + 1 < max_depth" using Suc.IH [of "d + 1"] Suc.prems that by simp
  show ?case unfolding parses_def
  proof (intro allI impI)
    fix token and p :: JSONParser assume p: "jp_index p \<le> length input" "jp_stack_depth p = d"
    have l: "\<exists>r. ConsumeList ?parse input options max_depth p = Some r \<and> outcome input (unreadable input) (shallow max_depth d) p r"
      unfolding containers using p Suc.prems IH list_round_total shallow_list
      by (intro container_total [where good = "\<lambda>vs. \<forall>v \<in> set vs. shallow max_depth (d + 1) v"]) auto
    have k: "\<exists>r. ConsumeDictionary ?parse input options max_depth p = Some r \<and> outcome input (unreadable input) (shallow max_depth d) p r"
      unfolding containers
    proof (intro container_total [where good = "\<lambda>kvs. \<forall>(k, v) \<in> set kvs. shallow max_depth (d + 1) v"], goal_cases)
      case (4 token q st)
      then show ?case using p IH dict_round_total [OF assms] by blast
    next
      case (6 kvs)
      then show ?case using p(2) DictStorage_subset [of kvs] by (intro shallow_dict) auto
    qed (use p Suc.prems in auto)
    have lit: "outcome input (unreadable input) (shallow max_depth d) p (ConsumeLiteral input p)"
      using Suc.prems by (intro ConsumeLiteral_outcome) simp_all
    have str: "\<exists>r. ConsumeString input options p = Some r \<and> outcome input (unreadable input) (shallow max_depth d) p r"
      using Suc.prems by (intro ConsumeString_total [OF assms]) simp
    have num: "\<exists>r. ConsumeNumber input p = Some r \<and> outcome input (unreadable input) (shallow max_depth d) p r"
      using Suc.prems by (intro ConsumeNumber_total [OF p(1)]) simp_all
    show "\<exists>r. ParseToken input options max_depth (Suc levels) token p = Some r \<and> outcome input (unreadable input) (shallow max_depth d) p r"
      using l k lit str num by (cases token) (simp_all add: outcome_error Let_def)
  qed
qed simp

section \<open>The parser\<close>

lemma Parse_total:
  assumes "bytes input" "0 \<le> jp_stack_depth p" "jp_stack_depth p < max_depth"
  shows "\<exists>r q. Parse options max_depth input p = Some (r, q) \<and> jp_stack_depth q = jp_stack_depth p \<and> jp_index q \<le> length input
    \<and> (case r of None \<Rightarrow> jp_error_code q \<noteq> JSON_NO_ERROR \<or> unreadable input (jp_index q)
       | Some v \<Rightarrow> jp_error_code q = JSON_NO_ERROR \<and> shallow max_depth (jp_stack_depth p) v)"
proof (cases "int (length input) < 2 ^ 31")
  case False
  then show ?thesis by (simp add: Parse_def Let_def Parse_reset_def ReportError_def)
next
  case True
  define p0 where "p0 = Parse_reset p"
  obtain b p1 where 1: "ConsumeIfMatch input [0xEF, 0xBB, 0xBF] p0 = (b, p1)" by fastforce
  obtain t p2 where 2: "GetNextToken input p1 = (t, p2)" by fastforce
  note a = still_trans [OF ConsumeIfMatch_adv [OF 1] GetNextToken_adv [OF 2]]
  have p2: "jp_index p2 \<le> length input" "jp_stack_depth p2 = jp_stack_depth p" "jp_error_code p2 = JSON_NO_ERROR"
    using a by (auto simp: p0_def Parse_reset_def adv_def quiet_def)
  have "parses input max_depth (jp_stack_depth p) (ParseToken input options max_depth (nat max_depth + 1))"
    using assms by (intro ParseToken_total) auto
  then obtain r q where r: "ParseToken input options max_depth (nat max_depth + 1) t p2 = Some (r, q)"
    "outcome input (unreadable input) (shallow max_depth (jp_stack_depth p)) p2 (r, q)"
    using p2 unfolding parses_def by (metis surj_pair)
  obtain t' q' where 3: "GetNextToken input q = (t', q')" by fastforce
  have e: "Parse options max_depth input p = (case r of None \<Rightarrow> Some (None, q)
      | Some v \<Rightarrow> if t' \<noteq> T_END_OF_INPUT then Some (None, ReportError JSON_UNEXPECTED_DATA_AFTER_ROOT 1 q') else Some (Some v, q'))"
    using True 1 2 3 r(1) by (simp add: Parse_def p0_def [symmetric] Let_def del: ParseToken.simps split: option.splits)
  have q: "adv input p2 q" using r(2) by (simp add: outcome_def)
  note q' = adv_trans [OF q, of q'] GetNextToken_adv [OF 3]
  show ?thesis
  proof (cases r)
    case None
    then show ?thesis unfolding e using r(2) q p2 by (simp add: outcome_def adv_def)
  next
    case (Some v)
    then show ?thesis unfolding e using r(2) q q' p2
      by (auto simp: outcome_def adv_def quiet_def ReportError_def)
  qed
qed

text \<open>
  C15: The parser returns on every input. Whatever the bytes and the options, for every limit from 1
  to 200 it neither recurses deeper than the limit nor fails a check - the builder of a string stays
  in step with the input, every \<open>StackMarker\<close> is in its bounds - and the depth is back at 0. A result
  comes with \<open>JSON_NO_ERROR\<close> and is nested less deeply than the limit; without one an error was
  reported, unless the parser stopped right after a number of JSON too large for a double.
\<close>
theorem json_parse_total:
  assumes "bytes input" "1 \<le> max_depth" "max_depth \<le> kStackMaxDepth"
  shows "\<exists>p r q. new_parser max_depth = Some p \<and> Parse options max_depth input p = Some (r, q)
    \<and> jp_stack_depth q = 0 \<and> jp_index q \<le> length input
    \<and> (case r of None \<Rightarrow> jp_error_code q \<noteq> JSON_NO_ERROR \<or> unreadable input (jp_index q)
       | Some v \<Rightarrow> jp_error_code q = JSON_NO_ERROR \<and> int (nesting v) < max_depth)"
proof -
  obtain p where p: "new_parser max_depth = Some p" "jp_stack_depth p = 0" using assms(3) by (auto simp: new_parser_def)
  then have "\<exists>r q. Parse options max_depth input p = Some (r, q) \<and> jp_stack_depth q = 0 \<and> jp_index q \<le> length input
    \<and> (case r of None \<Rightarrow> jp_error_code q \<noteq> JSON_NO_ERROR \<or> unreadable input (jp_index q)
       | Some v \<Rightarrow> jp_error_code q = JSON_NO_ERROR \<and> int (nesting v) < max_depth)"
    using Parse_total [OF assms(1), of p max_depth options, unfolded p(2) add_0_right] assms(2) by simp
  then show ?thesis using p(1) by blast
qed

theorem json_parse_total_witness:
  "\<exists>p r q. new_parser 2 = Some p \<and> Parse 0 2 [91, 91, 93] p = Some (r, q)
    \<and> jp_stack_depth q = 0 \<and> jp_index q \<le> length ([91, 91, 93] :: int list)
    \<and> (case r of None \<Rightarrow> jp_error_code q \<noteq> JSON_NO_ERROR \<or> unreadable [91, 91, 93] (jp_index q)
       | Some v \<Rightarrow> jp_error_code q = JSON_NO_ERROR \<and> int (nesting v) < 2)"
  by (rule json_parse_total) (simp_all add: kStackMaxDepth_def)

text \<open>
  Four places where the parser departs from JSON or from its own reports. A line end after a number
  is counted twice, so the error in \<open>[1\<close>, line end, \<open>,x]\<close> is reported in line 3, with \<open>true\<close> for \<open>1\<close> in
  line 2; a slash that starts no comment is skipped together with the next character, so \<open>/x5\<close> is the
  number 5; \<open>"\u0x41"\<close> is the string \<open>A\<close>, since the four characters are read as a number that may have a
  prefix; and a number that is not finite, here \<open>1e400\<close>, gives no result and no error.
\<close>
lemma json_parser_deviations:
  "ReadAndReturnError [91, 49, 10, 44, 120, 93] 0 = Some (None, Some (JSON_UNEXPECTED_TOKEN, 3, 3))"
  "ReadAndReturnError [91, 116, 114, 117, 101, 10, 44, 120, 93] 0 = Some (None, Some (JSON_UNEXPECTED_TOKEN, 2, 3))"
  "ReadAndReturnError [47, 120, 53] 0 = Some (Some (INTEGER 5), None)"
  "ReadAndReturnError [34, 92, 117, 48, 120, 52, 49, 34] 0 = Some (Some (STRING [65]), None)"
  "ReadAndReturnError [49, 101, 52, 48, 48] 0 = Some (None, Some (JSON_NO_ERROR, 0, 0))"
  by code_simp+

end
