(* ===== verification/Json_Writer.thy ===== *)
theory Json_Writer
  imports Json_Total
begin

text \<open>
  Escaping, \<open>base/json/string_escape.cc\<close>, and the writer, \<open>base/json/json_writer.cc\<close>, with the round
  trip through the parser. The text written so far is an argument and a result. \<open>sz\<close> is the size of
  the characters of a string, 1 for UTF-8 and 2 for UTF-16. \<open>None\<close> is a failed check or a conversion
  whose result is undefined.
\<close>

unbundle bit_operations_syntax

section \<open>Escaping\<close>

definition kReplacementCodePoint :: int where "kReplacementCodePoint = 0xFFFD"

definition EscapeSpecialCodePoint :: "int \<Rightarrow> int list option" where
  "EscapeSpecialCodePoint code_point =
     (if code_point = 8 then Some [92, 98] else if code_point = 12 then Some [92, 102]
      else if code_point = 10 then Some [92, 110] else if code_point = 13 then Some [92, 114]
      else if code_point = 9 then Some [92, 116] else if code_point = 92 then Some [92, 92]
      else if code_point = 34 then Some [92, 34]
      else if code_point = 60 then Some [92, 117, 48, 48, 51, 67]
      else if code_point = 0x2028 then Some [92, 117, 50, 48, 50, 56]
      else if code_point = 0x2029 then Some [92, 117, 50, 48, 50, 57]
      else None)"

text \<open>\<open>kU16EscapeFormat\<close>: four hexadecimal digits, for a value below 65536.\<close>

definition hex4 :: "int \<Rightarrow> int list" where
  "hex4 c = map (\<lambda>k. kHexChars ! nat (drop_bit (4 * k) c AND 0xf)) [3, 2, 1, 0]"

definition kU16EscapeFormat :: "int \<Rightarrow> int list" where
  "kU16EscapeFormat c = [92, 117] @ hex4 c"

definition read_char :: "nat \<Rightarrow> int list \<Rightarrow> nat \<Rightarrow> (bool \<times> nat \<times> int) option" where
  "read_char sz str i = (if sz = 1 then ReadUnicodeCharacter8 str i else ReadUnicodeCharacter16 str i 0)"

lemma read_char_index: "read_char sz str i = Some (ok, j, c) \<Longrightarrow> i < length str \<Longrightarrow> i \<le> j \<and> j < length str"
  using ReadUnicodeCharacter8_index [of str i ok j c]
  by (auto simp: read_char_def ReadUnicodeCharacter16_def Let_def split: if_splits)

definition escape_char :: "int \<Rightarrow> int list \<Rightarrow> int list" where
  "escape_char code_point dest =
     (case EscapeSpecialCodePoint code_point of
        Some e \<Rightarrow> dest @ e
      | None \<Rightarrow> if code_point < 32 then dest @ kU16EscapeFormat code_point else snd (WriteUnicodeCharacter8 code_point dest))"

function escape_loop :: "nat \<Rightarrow> int list \<Rightarrow> nat \<Rightarrow> int list \<Rightarrow> bool \<Rightarrow> (int list \<times> bool) option" where
  "escape_loop sz str i dest did_replacement =
     (if i < length str then
        case read_char sz str i of
          None \<Rightarrow> None
        | Some (ok, j, code_point) \<Rightarrow>
            let bad = (\<not> ok \<or> code_point = CBU_SENTINEL mod 2 ^ 32 \<or> \<not> IsValidCharacter code_point);
                code_point = (if bad then kReplacementCodePoint else code_point)
            in escape_loop sz str (j + 1) (escape_char code_point dest) (did_replacement \<or> bad)
      else Some (dest, did_replacement))"
  by pat_completeness auto
termination
  by (relation "measure (\<lambda>(sz, str, i, dest, r). length str - i)") (auto dest: read_char_index)

declare escape_loop.simps [simp del]

definition EscapeJSONStringImpl :: "nat \<Rightarrow> int list \<Rightarrow> bool \<Rightarrow> int list \<Rightarrow> (bool \<times> int list) option" where
  "EscapeJSONStringImpl sz str put_in_quotes dest =
     (let dest = (if put_in_quotes then dest @ [34] else dest) in
      if \<not> int (length str) \<le> 2 ^ 31 - 1 then None
      else do {
        (dest, did_replacement) \<leftarrow> escape_loop sz str 0 dest False;
        let dest = (if put_in_quotes then dest @ [34] else dest);
        Some (\<not> did_replacement, dest)
      })"

definition GetQuotedJSONString :: "nat \<Rightarrow> int list \<Rightarrow> int list option" where
  "GetQuotedJSONString sz str = do {
     (ok, dest) \<leftarrow> EscapeJSONStringImpl sz str True [];
     if ok then Some dest else None
   }"

definition EscapeBytesAsInvalidJSONString :: "int list \<Rightarrow> bool \<Rightarrow> int list" where
  "EscapeBytesAsInvalidJSONString str put_in_quotes =
     (let quote = (if put_in_quotes then [34] else []) in
      quote @ concat (map (\<lambda>c. case EscapeSpecialCodePoint c of Some e \<Rightarrow> e
        | None \<Rightarrow> if c < 32 \<or> c > 126 then kU16EscapeFormat c else [c]) str) @ quote)"

section \<open>The writer\<close>

definition OPTIONS_OMIT_BINARY_VALUES :: nat where "OPTIONS_OMIT_BINARY_VALUES = push_bit 0 1"
definition OPTIONS_OMIT_DOUBLE_TYPE_PRESERVATION :: nat where "OPTIONS_OMIT_DOUBLE_TYPE_PRESERVATION = push_bit 1 1"
definition OPTIONS_PRETTY_PRINT :: nat where "OPTIONS_PRETTY_PRINT = push_bit 2 1"
definition kPrettyPrintLineEnding :: "int list" where "kPrettyPrintLineEnding = [10]"

record JSONWriter =
  omit_binary_values :: bool
  omit_double_type_preservation :: bool
  pretty_print :: bool

definition new_writer :: "nat \<Rightarrow> JSONWriter" where
  "new_writer options = \<lparr>
     omit_binary_values = options AND OPTIONS_OMIT_BINARY_VALUES \<noteq> 0,
     omit_double_type_preservation = options AND OPTIONS_OMIT_DOUBLE_TYPE_PRESERVATION \<noteq> 0,
     pretty_print = options AND OPTIONS_PRETTY_PRINT \<noteq> 0\<rparr>"

definition IndentLine :: "nat \<Rightarrow> int list" where
  "IndentLine depth = replicate (depth * 3) 32"

text \<open>
  A double. The limits of \<open>int64_t\<close> it is compared with are converted to \<open>double\<close> first, where the
  greatest becomes \<open>2 ^ 63\<close>; converting a value outside \<open>int64_t\<close> is undefined.
\<close>

definition real_text :: "double \<Rightarrow> int list" where
  "real_text value =
     (let real = NumberToString_double value;
          real = (if 46 \<notin> set real \<and> 101 \<notin> set real \<and> 69 \<notin> set real then real @ [46, 48] else real)
      in if real \<noteq> [] \<and> real ! 0 = 46 then 48 # real
         else if length real > 1 \<and> real ! 0 = 45 \<and> real ! 1 = 46 then take 1 real @ 48 # drop 1 real
         else real)"

definition write_double :: "JSONWriter \<Rightarrow> double \<Rightarrow> int list \<Rightarrow> (bool \<times> int list) option" where
  "write_double w value json =
     (case if omit_double_type_preservation w then integral value else None of
        Some n \<Rightarrow>
          if n \<le> 2 ^ 63 \<and> n \<ge> - (2 ^ 63) then
            if in_range int64 n then do { s \<leftarrow> IntToString int64 n; Some (True, json @ s) } else None
          else Some (True, json @ real_text value)
      | None \<Rightarrow> Some (True, json @ real_text value))"

fun BuildJSONString :: "JSONWriter \<Rightarrow> nat \<Rightarrow> Value \<Rightarrow> int list \<Rightarrow> (bool \<times> int list) option"
and build_list :: "JSONWriter \<Rightarrow> nat \<Rightarrow> Value list \<Rightarrow> bool \<Rightarrow> bool \<Rightarrow> int list \<Rightarrow> (bool \<times> int list) option"
and build_dict :: "JSONWriter \<Rightarrow> nat \<Rightarrow> (int list \<times> Value) list \<Rightarrow> bool \<Rightarrow> bool \<Rightarrow> int list \<Rightarrow> (bool \<times> int list) option" where
  "BuildJSONString w depth NONE json = Some (True, json @ [110, 117, 108, 108])"
| "BuildJSONString w depth (BOOLEAN value) json =
     Some (True, json @ (if value then [116, 114, 117, 101] else [102, 97, 108, 115, 101]))"
| "BuildJSONString w depth (INTEGER value) json = do { s \<leftarrow> IntToString int32 value; Some (True, json @ s) }"
| "BuildJSONString w depth (DOUBLE value) json = write_double w value json"
| "BuildJSONString w depth (STRING value) json = do {
     (_, json) \<leftarrow> EscapeJSONStringImpl 1 value True json;
     Some (True, json)
   }"
| "BuildJSONString w depth (LIST list) json = do {
     (result, json) \<leftarrow> build_list w depth list False True (json @ [91] @ (if pretty_print w then [32] else []));
     Some (result, json @ (if pretty_print w then [32] else []) @ [93])
   }"
| "BuildJSONString w depth (DICTIONARY dict) json = do {
     (result, json) \<leftarrow> build_dict w depth dict False True (json @ [123] @ (if pretty_print w then kPrettyPrintLineEnding else []));
     Some (result, json @ (if pretty_print w then kPrettyPrintLineEnding @ IndentLine depth else []) @ [125])
   }"
| "BuildJSONString w depth (BINARY blob) json = Some (omit_binary_values w, json)"
| "build_list w depth [] first_value_has_been_output result json = Some (result, json)"
| "build_list w depth (value # rest) first_value_has_been_output result json =
     (if omit_binary_values w \<and> (case value of BINARY _ \<Rightarrow> True | _ \<Rightarrow> False)
      then build_list w depth rest first_value_has_been_output result json
      else do {
        (ok, json) \<leftarrow> BuildJSONString w depth value
          (if first_value_has_been_output then json @ [44] @ (if pretty_print w then [32] else []) else json);
        build_list w depth rest True (result \<and> ok) json
      })"
| "build_dict w depth [] first_value_has_been_output result json = Some (result, json)"
| "build_dict w depth ((key, value) # rest) first_value_has_been_output result json =
     (if omit_binary_values w \<and> (case value of BINARY _ \<Rightarrow> True | _ \<Rightarrow> False)
      then build_dict w depth rest first_value_has_been_output result json
      else do {
        (_, json) \<leftarrow> EscapeJSONStringImpl 1 key True
          ((if first_value_has_been_output then json @ [44] @ (if pretty_print w then kPrettyPrintLineEnding else []) else json)
           @ (if pretty_print w then IndentLine (depth + 1) else []));
        (ok, json) \<leftarrow> BuildJSONString w (depth + 1) value (json @ [58] @ (if pretty_print w then [32] else []));
        build_dict w depth rest True (result \<and> ok) json
      })"

definition WriteWithOptions :: "Value \<Rightarrow> nat \<Rightarrow> (bool \<times> int list) option" where
  "WriteWithOptions node options = do {
     (result, json) \<leftarrow> BuildJSONString (new_writer options) 0 node [];
     Some (result, json @ (if options AND OPTIONS_PRETTY_PRINT \<noteq> 0 then kPrettyPrintLineEnding else []))
   }"

definition JSONWriter_Write :: "Value \<Rightarrow> (bool \<times> int list) option" where
  "JSONWriter_Write node = WriteWithOptions node 0"

section \<open>Reading what is ahead\<close>

text \<open>\<open>ahead\<close>: the input from the index on. \<open>intact\<close>: the depth and the error code are the same.\<close>

definition ahead :: "int list \<Rightarrow> JSONParser \<Rightarrow> int list \<Rightarrow> bool" where
  "ahead input p s \<longleftrightarrow> jp_index p \<le> length input \<and> drop (jp_index p) input = s"

definition intact :: "JSONParser \<Rightarrow> JSONParser \<Rightarrow> bool" where
  "intact p q \<longleftrightarrow> jp_stack_depth q = jp_stack_depth p \<and> jp_error_code q = jp_error_code p"

lemma intact_refl [simp]: "intact p p"
  by (simp add: intact_def)

lemma intact_trans: "intact p q \<Longrightarrow> intact q r \<Longrightarrow> intact p r"
  by (simp add: intact_def)

lemma intact_index [simp]: "intact p (p\<lparr>jp_index := i\<rparr>)"
  by (simp add: intact_def)

lemma ahead_length: "ahead input p s \<Longrightarrow> length input = jp_index p + length s"
  by (auto simp: ahead_def)

lemma ahead_append: "ahead input p (s @ t) \<Longrightarrow> ahead input (p\<lparr>jp_index := jp_index p + length s\<rparr>) t"
proof -
  assume a: "ahead input p (s @ t)"
  then have "length (drop (jp_index p) input) = length (s @ t)" by (simp add: ahead_def)
  moreover have "drop (length s) (drop (jp_index p) input) = t" using a by (simp add: ahead_def)
  ultimately show ?thesis using a by (auto simp: ahead_def add.commute)
qed

lemma ahead_Cons: "ahead input p (c # s) \<Longrightarrow> ahead input (p\<lparr>jp_index := Suc (jp_index p)\<rparr>) s"
  using ahead_append [of input p "[c]" s] by simp

lemma ahead_ConsumeChars: "ahead input p (s @ t) \<Longrightarrow> ConsumeChars input p (length s) = (Some s, p\<lparr>jp_index := jp_index p + length s\<rparr>)"
proof -
  assume a: "ahead input p (s @ t)"
  then have "length (drop (jp_index p) input) = length (s @ t)" by (simp add: ahead_def)
  then show ?thesis using a by (auto simp: ahead_def ConsumeChars_def PeekChars_def)
qed

lemma ahead_nth: "ahead input p (c # s) \<Longrightarrow> jp_index p < length input \<and> input ! jp_index p = c"
  by (auto simp: ahead_def nth_via_drop) (metis drop_eq_Nil leI list.distinct(1))

lemma ahead_PeekChar [simp]: "ahead input p (c # s) \<Longrightarrow> PeekChar input p = Some c"
  using ahead_nth [of input p c s] by (simp add: PeekChar_Some)

lemma ahead_PeekChar_Nil [simp]: "ahead input p [] \<Longrightarrow> PeekChar input p = None"
  by (auto simp: ahead_def PeekChar_def PeekChars_def)

lemma ahead_ConsumeChar [simp]: "ahead input p (c # s) \<Longrightarrow> ConsumeChar input p = (Some c, p\<lparr>jp_index := Suc (jp_index p)\<rparr>)"
  using ahead_nth [of input p c s] by simp

lemma ahead_ConsumeIfMatch:
  assumes "ahead input p s" "length m \<le> length s"
  shows "ConsumeIfMatch input m p = (if take (length m) s = m then (True, p\<lparr>jp_index := jp_index p + length m\<rparr>) else (False, p))"
  using assms by (auto simp: ahead_def ConsumeIfMatch_def ConsumeChars_def PeekChars_def)

definition spaces :: "int list \<Rightarrow> bool" where
  "spaces bl \<longleftrightarrow> set bl \<subseteq> {32, 10}"

lemma spaces_simps [simp]: "spaces []" "spaces (c # bl) \<longleftrightarrow> (c = 32 \<or> c = 10) \<and> spaces bl" "spaces (bl @ bl') \<longleftrightarrow> spaces bl \<and> spaces bl'"
  by (auto simp: spaces_def)

abbreviation solid :: "int list \<Rightarrow> bool" where
  "solid s \<equiv> s = [] \<or> hd s \<notin> {9, 10, 13, 32, 47}"

lemma EatWhitespace_solid: "ahead input p s \<Longrightarrow> solid s \<Longrightarrow> EatWhitespaceAndComments input p = p"
  by (cases s) (simp_all add: EatWhitespaceAndComments.simps [of input p])

lemma EatWhitespace_spaces:
  "spaces bl \<Longrightarrow> ahead input p (bl @ s) \<Longrightarrow> solid s \<Longrightarrow> \<exists>q. EatWhitespaceAndComments input p = q \<and> ahead input q s \<and> intact p q"
proof (induction bl arbitrary: p)
  case Nil
  then show ?case by (simp add: EatWhitespace_solid)
next
  case (Cons c bl)
  obtain q where q: "EatWhitespaceAndComments input p = EatWhitespaceAndComments input q" "ahead input q (bl @ s)" "intact p q"
  proof (cases "c = 32")
    case True
    then show ?thesis using Cons.prems ahead_Cons [of input p c "bl @ s"]
      by (intro that [of "p\<lparr>jp_index := Suc (jp_index p)\<rparr>"]) (simp_all add: EatWhitespaceAndComments.simps [of input p])
  next
    case False
    then have c: "c = 10" using Cons.prems(1) by simp
    let ?l = "p\<lparr>jp_index_last_line := jp_index p,
      jp_line_number := (if \<not> (c = 10 \<and> jp_index p > 0 \<and> input ! (jp_index p - 1) = 13) then jp_line_number p + 1 else jp_line_number p)\<rparr>"
    have l: "ahead input ?l (c # bl @ s)" using Cons.prems(2) by (simp add: ahead_def)
    have "EatWhitespaceAndComments input p = EatWhitespaceAndComments input (snd (ConsumeChar input ?l))"
      using Cons.prems(2) c by (simp add: EatWhitespaceAndComments.simps [of input p])
    then show ?thesis using ahead_ConsumeChar [OF l] ahead_Cons [OF l]
      by (intro that [of "?l\<lparr>jp_index := Suc (jp_index p)\<rparr>"]) (simp_all add: intact_def)
  qed
  then show ?case using Cons.IH [OF _ q(2) Cons.prems(3)] Cons.prems(1) intact_trans [OF q(3)] by auto
qed

text \<open>The token a text starts with.\<close>

definition next_token :: "int list \<Rightarrow> Token" where
  "next_token s = fst (GetNextToken s \<lparr>jp_index = 0, jp_stack_depth = 0, jp_line_number = 0, jp_index_last_line = 0,
     jp_error_code = JSON_NO_ERROR, jp_error_line = 0, jp_error_column = 0\<rparr>)"

lemma GetNextToken_spaces:
  assumes "spaces bl" "ahead input p (bl @ s)" "solid s"
  shows "\<exists>q. GetNextToken input p = (next_token s, q) \<and> ahead input q s \<and> intact p q"
proof -
  let ?z = "\<lparr>jp_index = 0, jp_stack_depth = 0, jp_line_number = 0, jp_index_last_line = 0,
     jp_error_code = JSON_NO_ERROR, jp_error_line = 0, jp_error_column = 0\<rparr>"
  have z: "ahead s ?z s" by (simp add: ahead_def)
  obtain q where q: "EatWhitespaceAndComments input p = q" "ahead input q s" "intact p q" using EatWhitespace_spaces [OF assms] by blast
  have "PeekChar input q = PeekChar s ?z" using q(2) z by (cases s) simp_all
  then have "fst (GetNextToken input p) = next_token s"
    using EatWhitespace_solid [OF z assms(3)] q(1) by (simp add: next_token_def GetNextToken_def Let_def)
  moreover have "snd (GetNextToken input p) = q" using q(1) by (simp add: GetNextToken_def Let_def)
  ultimately show ?thesis using q(2,3) by (metis prod.collapse)
qed

lemma next_token_Cons: "solid (c # s) \<Longrightarrow> next_token (c # s) =
  (if c = 123 then T_OBJECT_BEGIN else if c = 125 then T_OBJECT_END else if c = 91 then T_ARRAY_BEGIN else if c = 93 then T_ARRAY_END
   else if c = 34 then T_STRING else if c \<ge> 48 \<and> c \<le> 57 \<or> c = 45 then T_NUMBER
   else if c = 116 then T_BOOL_TRUE else if c = 102 then T_BOOL_FALSE else if c = 110 then T_NULL
   else if c = 44 then T_LIST_SEPARATOR else if c = 58 then T_OBJECT_PAIR_SEPARATOR else T_INVALID_TOKEN)"
  using EatWhitespace_solid [of "c # s" "\<lparr>jp_index = 0, jp_stack_depth = 0, jp_line_number = 0, jp_index_last_line = 0,
     jp_error_code = JSON_NO_ERROR, jp_error_line = 0, jp_error_column = 0\<rparr>" "c # s"]
  by (simp add: next_token_def GetNextToken_def Let_def ahead_def PeekChar_def PeekChars_def)

lemma next_token_Nil [simp]: "next_token [] = T_END_OF_INPUT"
  by (simp add: next_token_def GetNextToken_def Let_def PeekChar_def PeekChars_def EatWhitespaceAndComments.simps)

section \<open>Strings\<close>

text \<open>A code point as it is written.\<close>

abbreviation esc :: "int \<Rightarrow> int list" where
  "esc c \<equiv> escape_char c []"

definition hexed :: "int \<Rightarrow> bool" where
  "hexed c \<longleftrightarrow> c = 60 \<or> c = 0x2028 \<or> c = 0x2029 \<or> 0 \<le> c \<and> c < 32 \<and> c \<notin> {8, 9, 10, 12, 13}"

lemma escape_char_append: "escape_char c dest = dest @ esc c"
  by (auto simp: escape_char_def WriteUnicodeCharacter8_def Let_def split: option.splits)

lemma esc_cases:
  assumes "scalar c"
  obtains (simple) e where "esc c = [92, e]" "simple_escape e = Some c" "e \<noteq> 120" "e \<noteq> 117"
  | (hexed) "esc c = [92, 117] @ hex4 c" "hexed c"
  | (plain) "esc c = utf8_enc c" "c \<noteq> 34" "c \<noteq> 92" "32 \<le> c"
proof -
  have s: "EscapeSpecialCodePoint c = Some [92, e] \<Longrightarrow> esc c = [92, e]" for e by (simp add: escape_char_def)
  have c0: "0 \<le> c" using assms by (auto simp: scalar_def)
  consider "c \<in> {8, 9, 10, 12, 13, 34, 92}" | "hexed c" | "c \<notin> {8, 9, 10, 12, 13, 34, 92}" "\<not> hexed c" by blast
  then show ?thesis
  proof cases
    case 1
    have "list_all (\<lambda>c. let e = esc c ! 1 in esc c = [92, e] \<and> simple_escape e = Some c \<and> e \<noteq> 120 \<and> e \<noteq> 117) [8, 9, 10, 12, 13, 34, 92]"
      by code_simp
    then show ?thesis using 1 by (intro simple [of "esc c ! 1"]) (auto simp: Let_def)
  next
    case 2
    have "list_all (\<lambda>c. hex4 c = drop 2 (the (EscapeSpecialCodePoint c))) [60, 0x2028, 0x2029]" by code_simp
    then show ?thesis using 2 by (intro hexed) (auto simp: hexed_def escape_char_def EscapeSpecialCodePoint_def kU16EscapeFormat_def)
  next
    case 3
    then have "esc c = utf8_enc c" "32 \<le> c"
      using c0 Write_Read_UnicodeCharacter8(1) [OF assms, of "[]"] by (auto simp: escape_char_def EscapeSpecialCodePoint_def hexed_def)
    then show ?thesis using 3 by (intro plain) auto
  qed
qed

lemma hex4_read: "hexed c \<Longrightarrow> HexStringToInt (hex4 c) = Some (True, c) \<and> length (hex4 c) = 4"
proof -
  have "list_all (\<lambda>c. HexStringToInt (hex4 c) = Some (True, c)) ([0..31] @ [60, 0x2028, 0x2029])" by code_simp
  then show "hexed c \<Longrightarrow> ?thesis" unfolding list_all_iff hexed_def by (auto simp: hex4_def)
qed

text \<open>A round of the loop reads a code point as it was written and appends its encoding.\<close>

lemma sb_Append_text:
  assumes "scalar c" "IsValidCharacter c" "sb_string sb = Some str"
  shows "sb_Append input c sb = Some (sb\<lparr>sb_string := Some (str @ utf8_enc c)\<rparr>)"
proof -
  have "utf8_enc kUnicodeReplacementPoint = kUnicodeReplacementString"
    by (simp add: utf8_enc_def kUnicodeReplacementPoint_def kUnicodeReplacementString_def)
  then show ?thesis using assms Write_Read_UnicodeCharacter8(1) [OF assms(1)] by (auto simp: sb_Append_def sb_Convert_def Let_def)
qed

lemma Convert_text [simp]: "DestructiveAsString input (sb_Convert input sb) = DestructiveAsString input sb"
  "sb_string (sb_Convert input sb) = Some (DestructiveAsString input sb)"
  by (simp_all add: sb_Convert_def DestructiveAsString_def split: option.splits)

lemma ahead_read:
  assumes "ahead input p (utf8_enc c @ s)" "scalar c"
  shows "ReadUnicodeCharacter8 input (jp_index p) = Some (True, jp_index p + length (utf8_enc c) - 1, c)"
proof -
  have "input = take (jp_index p) input @ utf8_enc c @ s" "length (take (jp_index p) input) = jp_index p"
    using assms(1) by (simp_all add: ahead_def) (metis append_take_drop_id)
  then show ?thesis using Write_Read_UnicodeCharacter8(2) [OF assms(2), of "take (jp_index p) input" s] by metis
qed

lemma string_round_backslash:
  assumes "ahead input p (92 # s)"
  shows "string_round input options p sb = consume_escape input options p sb"
  using ahead_read [of input p 92 s] assms by (simp add: string_round_def utf8_enc_def scalar_def IsValidCharacter_def Let_def)

lemma string_round_simple:
  assumes "ahead input p ([92, e] @ s)" "simple_escape e = Some c" "e \<noteq> 120" "e \<noteq> 117" "scalar c" "IsValidCharacter c"
  shows "string_round input options p sb = Some (More (p\<lparr>jp_index := jp_index p + 2\<rparr>)
    ((sb_Convert input sb)\<lparr>sb_string := Some (DestructiveAsString input sb @ utf8_enc c)\<rparr>))"
  using assms ahead_ConsumeChars [OF assms(1)] string_round_backslash [of input p "e # s" options sb]
    sb_Append_text [OF assms(5,6), of "sb_Convert input sb"] by (simp add: consume_escape_def Let_def numeral_2_eq_2)

lemma string_round_hexed:
  assumes "ahead input p ([92, 117] @ hex4 c @ s)" "hexed c" "scalar c" "IsValidCharacter c"
  shows "string_round input options p sb = Some (More (p\<lparr>jp_index := jp_index p + 6\<rparr>)
    ((sb_Convert input sb)\<lparr>sb_string := Some (DestructiveAsString input sb @ utf8_enc c)\<rparr>))"
proof -
  let ?p = "p\<lparr>jp_index := jp_index p + 2\<rparr>"
  have e: "ConsumeChars input p 2 = (Some [92, 117], ?p)" using ahead_ConsumeChars [OF assms(1)] by (simp add: numeral_2_eq_2)
  have "ahead input ?p (hex4 c @ s)" using ahead_append [OF assms(1)] by (simp add: numeral_2_eq_2)
  then have h: "ConsumeChars input ?p 4 = (Some (hex4 c), p\<lparr>jp_index := jp_index p + 6\<rparr>)"
    using ahead_ConsumeChars [of input ?p "hex4 c" s] hex4_read [OF assms(2)] by simp
  have "0 \<le> c" "c < 0xd800" using assms(2) by (auto simp: hexed_def)
  then have "\<not> CBU16_IS_SURROGATE c" using CBU16_iff(3) [of c] by (simp add: CBU16_IS_SURROGATE_def)
  then have "DecodeUTF16 input options ?p = Some (Some c, p\<lparr>jp_index := jp_index p + 6\<rparr>)"
    using h hex4_read [OF assms(2)] assms(4) by (simp add: DecodeUTF16_def CBU16_IS_SINGLE_def CBU16_IS_SURROGATE_def)
  then show ?thesis using e assms string_round_backslash [of input p "117 # hex4 c @ s" options sb]
      sb_Append_text [OF assms(3,4), of "sb_Convert input sb"] by (simp add: consume_escape_def Let_def)
qed

lemma sb_Append_plain:
  assumes "ahead input p (utf8_enc c @ s)" "scalar c" "IsValidCharacter c" "sb_ok p sb"
  shows "\<exists>sb'. sb_Append input c sb = Some sb' \<and> sb_ok (p\<lparr>jp_index := jp_index p + length (utf8_enc c)\<rparr>) sb'
    \<and> DestructiveAsString input sb' = DestructiveAsString input sb @ utf8_enc c"
proof (cases "sb_string sb = None \<and> c < 0x80")
  case True
  then have "utf8_enc c = [c]" by (simp add: utf8_enc_def)
  moreover have "jp_index p < length input" "input ! jp_index p = c" using ahead_nth [of input p c s] assms(1) calculation by simp_all
  ultimately show ?thesis using True assms(3,4)
    by (auto simp: sb_Append_def sb_ok_def DestructiveAsString_def take_Suc_conv_app_nth)
next
  case False
  have "sb_Append input c sb = sb_Append input c (sb_Convert input sb)"
    using False by (auto simp: sb_Append_def Let_def sb_Convert_def split: option.splits)
  then show ?thesis using sb_Append_text [OF assms(2,3), of "sb_Convert input sb" _ input]
    by (auto simp: sb_ok_def DestructiveAsString_def split: option.splits)
qed

lemma string_round_esc:
  assumes "ahead input p (esc c @ s)" "scalar c" "IsValidCharacter c" "sb_ok p sb"
  shows "\<exists>q sb'. string_round input options p sb = Some (More q sb') \<and> ahead input q s \<and> intact p q \<and> sb_ok q sb'
    \<and> DestructiveAsString input sb' = DestructiveAsString input sb @ utf8_enc c"
  using assms(2)
proof (cases rule: esc_cases)
  case (simple e)
  then show ?thesis using string_round_simple [of input p e s c options sb] assms ahead_append [of input p "[92, e]" s]
    by (simp add: sb_ok_def DestructiveAsString_def)
next
  case hexed
  then show ?thesis using string_round_hexed [of input p c s options sb] assms ahead_append [of input p "[92, 117] @ hex4 c" s] hex4_read [of c]
    by (simp add: sb_ok_def DestructiveAsString_def)
next
  case plain
  then have a: "ahead input p (utf8_enc c @ s)" using assms(1) by simp
  let ?q = "p\<lparr>jp_index := jp_index p + length (utf8_enc c)\<rparr>"
  obtain sb' where sb': "sb_Append input c sb = Some sb'" "sb_ok ?q sb'" "DestructiveAsString input sb' = DestructiveAsString input sb @ utf8_enc c"
    using sb_Append_plain [OF a assms(2-4)] by blast
  obtain b t where b: "utf8_enc c @ s = b # t" "0 < length (utf8_enc c)" using utf8.enc_ne [OF assms(2)] by (cases "utf8_enc c") auto
  have n: "snd (ConsumeChar input (p\<lparr>jp_index := jp_index p + length (utf8_enc c) - 1\<rparr>)) = ?q"
  proof -
    have "jp_index p + length (utf8_enc c) - 1 < length input" using b(2) ahead_length [OF a, unfolded List.length_append] by linarith
    then show ?thesis using b(2) by simp
  qed
  have "string_round input options p sb = Some (More ?q sb')"
    using ahead_PeekChar [of input p b t] a b(1) ahead_read [OF a assms(2)] assms(3) plain sb'(1) n by (simp add: string_round_def Let_def)
  then show ?thesis using sb' ahead_append [OF a] by (intro exI [of _ ?q] exI [of _ sb']) simp
qed

lemma string_loop_esc:
  "ahead input p (concat (map esc cs) @ 34 # s) \<Longrightarrow> valid_chars cs \<Longrightarrow> sb_ok p sb
    \<Longrightarrow> \<exists>q sb'. string_loop input options p sb = Some (True, q, sb') \<and> ahead input q s \<and> intact p q
      \<and> DestructiveAsString input sb' = DestructiveAsString input sb @ utf_encode utf8_enc cs"
proof (induction cs arbitrary: p sb)
  case Nil
  then have a: "ahead input p (34 # s)" by simp
  have "string_round input options p sb = Some (Stop True (p\<lparr>jp_index := Suc (jp_index p)\<rparr>) sb)"
    using ahead_read [of input p 34 s] a by (simp add: string_round_def utf8_enc_def scalar_def IsValidCharacter_def Let_def)
  then show ?case using ahead_Cons [OF a] by (simp add: string_loop.simps [of input options p sb])
next
  case (Cons c cs)
  obtain q sb' where q: "string_round input options p sb = Some (More q sb')" "ahead input q (concat (map esc cs) @ 34 # s)" "intact p q"
    "sb_ok q sb'" "DestructiveAsString input sb' = DestructiveAsString input sb @ utf8_enc c"
    using string_round_esc [of input p c "concat (map esc cs) @ 34 # s" sb options] Cons.prems by auto
  have l: "string_loop input options p sb = string_loop input options q sb'" using q(1) by (simp add: string_loop.simps [of input options p sb])
  obtain q' sb'' where "string_loop input options q sb' = Some (True, q', sb'')" "ahead input q' s" "intact q q'"
    "DestructiveAsString input sb'' = DestructiveAsString input sb' @ utf_encode utf8_enc cs"
    using Cons.IH [OF q(2) _ q(4)] Cons.prems(2) by auto
  then show ?case unfolding l using intact_trans [OF q(3)] q(5) by auto
qed

text \<open>The text of a string, and that the parser reads it back.\<close>

definition quoted :: "int list \<Rightarrow> int list" where
  "quoted str = (case EscapeJSONStringImpl 1 str True [] of Some (_, t) \<Rightarrow> t | None \<Rightarrow> [])"

definition utf8_text :: "int list \<Rightarrow> bool" where
  "utf8_text s \<longleftrightarrow> bytes s \<and> utf8_all_valid s = Some True \<and> int (length s) < 2 ^ 31"

lemma utf8_text_chars:
  assumes "utf8_text s"
  obtains cs where "valid_chars cs" "s = utf_encode utf8_enc cs"
  using assms utf8_all_valid_spec [of s] by (auto simp: utf8_text_def)

lemma escape_loop_esc:
  "valid_chars cs \<Longrightarrow> str = pre @ utf_encode utf8_enc cs
    \<Longrightarrow> escape_loop 1 str (length pre) dest r = Some (dest @ concat (map esc cs), r)"
proof (induction cs arbitrary: pre dest)
  case Nil
  then show ?case by (simp add: escape_loop.simps)
next
  case (Cons c cs)
  have c: "scalar c" "IsValidCharacter c" "c \<noteq> 4294967295" using Cons.prems(1) by (auto simp: scalar_def)
  have ne: "0 < length (utf8_enc c)" using utf8.enc_ne [OF c(1)] by simp
  have "read_char 1 str (length pre) = Some (True, length pre + length (utf8_enc c) - 1, c)"
    using Write_Read_UnicodeCharacter8(2) [OF c(1), of pre "utf_encode utf8_enc cs"] Cons.prems(2) by (simp add: read_char_def)
  then have "escape_loop 1 str (length pre) dest r = escape_loop 1 str (length (pre @ utf8_enc c)) (escape_char c dest) r"
    using ne c Cons.prems(2) unfolding escape_loop.simps [of 1 str "length pre"] by (simp add: CBU_SENTINEL_def Let_def)
  then show ?case using Cons.IH [of "pre @ utf8_enc c" "escape_char c dest"] Cons.prems escape_char_append [of c dest] by simp
qed

lemma EscapeJSONString_text:
  assumes "utf8_text s"
  shows "EscapeJSONStringImpl 1 s True json = Some (True, json @ quoted s)"
    and "\<exists>cs. valid_chars cs \<and> s = utf_encode utf8_enc cs \<and> quoted s = 34 # concat (map esc cs) @ [34]"
proof -
  obtain cs where cs: "valid_chars cs" "s = utf_encode utf8_enc cs" using assms by (rule utf8_text_chars)
  have l: "int (length s) \<le> 2 ^ 31 - 1" using assms by (simp add: utf8_text_def)
  have e: "EscapeJSONStringImpl 1 s True json = Some (True, json @ 34 # concat (map esc cs) @ [34])" for json
    using escape_loop_esc [OF cs(1), of s "[]" "json @ [34]" False] cs(2) l by (simp add: EscapeJSONStringImpl_def)
  then have q: "quoted s = 34 # concat (map esc cs) @ [34]" by (simp add: quoted_def)
  then show "EscapeJSONStringImpl 1 s True json = Some (True, json @ quoted s)"
    "\<exists>cs. valid_chars cs \<and> s = utf_encode utf8_enc cs \<and> quoted s = 34 # concat (map esc cs) @ [34]" using e cs by auto
qed

lemma ConsumeStringRaw_esc:
  assumes "valid_chars cs" "ahead input p (34 # concat (map esc cs) @ 34 # s)"
  shows "\<exists>q sb. ConsumeStringRaw input options p = Some (Some sb, q) \<and> DestructiveAsString input sb = utf_encode utf8_enc cs
    \<and> ahead input q s \<and> intact p q"
proof -
  let ?p = "p\<lparr>jp_index := Suc (jp_index p)\<rparr>" and ?sb = "\<lparr>sb_pos = Suc (jp_index p), sb_length = 0, sb_string = None\<rparr>"
  note b = ahead_Cons [OF assms(2)]
  have "jp_index ?p \<le> length input" using b by (simp add: ahead_def)
  moreover obtain q sb where "string_loop input options ?p ?sb = Some (True, q, sb)" "ahead input q s" "intact ?p q"
    "DestructiveAsString input sb = utf_encode utf8_enc cs"
    using string_loop_esc [OF b assms(1), of ?sb options] by (auto simp: sb_ok_def DestructiveAsString_def)
  ultimately show ?thesis using ahead_ConsumeChar [OF assms(2)] by (auto simp: ConsumeStringRaw_def intact_def simp del: ConsumeChar_next)
qed

lemma ConsumeStringRaw_quoted:
  assumes "utf8_text str" "ahead input p (quoted str @ s)"
  shows "\<exists>q sb. ConsumeStringRaw input options p = Some (Some sb, q) \<and> DestructiveAsString input sb = str \<and> ahead input q s \<and> intact p q"
  using EscapeJSONString_text(2) [OF assms(1)] ConsumeStringRaw_esc [of _ input p s options] assms(2) by auto

section \<open>Numbers\<close>

text \<open>\<open>ends\<close>: what may follow a value.\<close>

definition ends :: "int list \<Rightarrow> bool" where
  "ends s \<longleftrightarrow> (\<exists>bl r. s = bl @ r \<and> spaces bl \<and> (r = [] \<or> hd r \<in> {44, 93, 125}))"

lemma ends_hd: "ends s \<Longrightarrow> s = [] \<or> hd s \<in> {32, 10, 44, 93, 125}"
proof -
  assume "ends s"
  then obtain bl r where "s = bl @ r" "spaces bl" "r = [] \<or> hd r \<in> {44, 93, 125}" by (auto simp: ends_def)
  then show ?thesis by (cases bl) auto
qed

lemma digits_append:
  assumes "ends s"
  shows "takeWhile digit (t @ s) = takeWhile digit t" "dropWhile digit (t @ s) = dropWhile digit t @ s"
  using ends_hd [OF assms] by (induction t; cases s; auto)+

lemma ReadInt_ahead:
  assumes "ahead input p s" "ds = takeWhile digit s"
  shows "\<exists>q. ReadInt input z p = (ds \<noteq> [] \<and> (z \<or> \<not> (length ds > 1 \<and> hd ds = 48)), q) \<and> ahead input q (dropWhile digit s) \<and> intact p q"
proof -
  have "ahead input (p\<lparr>jp_index := jp_index p + length ds\<rparr>) (dropWhile digit s)"
    using ahead_append [of input p ds "dropWhile digit s"] assms by simp
  moreover have "drop (jp_index p) input = s" using assms(1) by (simp add: ahead_def)
  ultimately show ?thesis using assms(2)
    by (intro exI [of _ "p\<lparr>jp_index := jp_index p + length ds\<rparr>"]) (auto simp: ReadInt_def read_digits_takeWhile Let_def)
qed

lemma number_exponent_ahead:
  assumes "ahead input p (t @ s)" "exponent_text t" "ends s"
  shows "\<exists>q. number_exponent input p = (True, q) \<and> ahead input q s \<and> intact p q"
proof (cases t)
  case Nil
  then have "PeekChar input p \<noteq> Some 101 \<and> PeekChar input p \<noteq> Some 69" using assms(1) ends_hd [OF assms(3)] by (cases s) auto
  then show ?thesis using assms(1) Nil by (auto simp: number_exponent_def)
next
  case (Cons e u)
  let ?p = "p\<lparr>jp_index := Suc (jp_index p)\<rparr>"
  have e: "e = 101 \<or> e = 69" using assms(2) Cons by (simp add: exponent_text_def)
  have a: "ahead input p (e # u @ s)" using assms(1) Cons by simp
  note b = ahead_Cons [OF a]
  define v where "v = (if u \<noteq> [] \<and> (hd u = 45 \<or> hd u = 43) then tl u else u)"
  have v: "v \<noteq> []" "list_all digit v" using assms(2) Cons by (simp_all add: exponent_text_def v_def Let_def)
  obtain r where r: "(if PeekChar input ?p = Some 45 \<or> PeekChar input ?p = Some 43 then snd (ConsumeChar input ?p) else ?p) = r"
    "ahead input r (v @ s)" "intact p r"
  proof (cases u)
    case Nil
    then show ?thesis using v(1) by (simp add: v_def)
  next
    case (Cons c w)
    then have c: "ahead input ?p (c # w @ s)" using b by simp
    then show ?thesis
    proof (cases "c = 45 \<or> c = 43")
      case True
      then show ?thesis using c ahead_Cons [OF c] Cons ahead_PeekChar [OF c] ahead_ConsumeChar [OF c]
        by (intro that [of "?p\<lparr>jp_index := Suc (jp_index ?p)\<rparr>"]) (simp_all add: v_def del: ConsumeChar_next)
    next
      case False
      then show ?thesis using c Cons by (intro that [of ?p]) (simp_all add: v_def)
    qed
  qed
  obtain q where q: "ReadInt input True r = (True, q)" "ahead input q s" "intact r q"
  proof -
    have "takeWhile digit (v @ s) = v" "dropWhile digit (v @ s) = s" unfolding digits_append [OF assms(3)] using v(2) by (simp_all add: all_digits)
    then show ?thesis using ReadInt_ahead [OF r(2) refl, of True] v(1) that by auto
  qed
  have "number_exponent input p = ReadInt input True r"
    using e unfolding number_exponent_def Let_def ahead_PeekChar [OF a] ahead_ConsumeChar [OF a] snd_conv r(1) by simp
  then show ?thesis using q intact_trans [OF r(3)] by auto
qed

lemma number_fraction_ahead:
  assumes "ahead input p (t @ s)" "fraction_text t" "ends s"
  shows "\<exists>q u. number_fraction input p = (True, q) \<and> ahead input q (u @ s) \<and> exponent_text u \<and> intact p q"
proof (cases "t \<noteq> [] \<and> hd t = 46")
  case True
  then obtain w where t: "t = 46 # w" by (cases t) auto
  then have a: "ahead input p (46 # w @ s)" using assms(1) by simp
  have w: "takeWhile digit w \<noteq> []" "exponent_text (dropWhile digit w)" using assms(2) t by (simp_all add: fraction_text_def)
  obtain q where "ReadInt input True (p\<lparr>jp_index := Suc (jp_index p)\<rparr>) = (True, q)" "ahead input q (dropWhile digit w @ s)" "intact (p\<lparr>jp_index := Suc (jp_index p)\<rparr>) q"
    using ReadInt_ahead [OF ahead_Cons [OF a] refl, of True] w(1) digits_append [OF assms(3), of w] by auto
  then show ?thesis using ahead_PeekChar [OF a] ahead_ConsumeChar [OF a] w(2) intact_trans [OF intact_index [of p]]
    by (auto simp: number_fraction_def simp del: ConsumeChar_next)
next
  case False
  then have "PeekChar input p \<noteq> Some 46" using assms(1) ends_hd [OF assms(3)] by (cases t; cases s) auto
  then show ?thesis using assms(1,2) False by (auto simp: number_fraction_def fraction_text_def)
qed

lemma next_token_ends:
  assumes "ends s" "ahead input p s"
  shows "\<exists>t q. GetNextToken input p = (t, q) \<and> t \<in> {T_OBJECT_END, T_ARRAY_END, T_LIST_SEPARATOR, T_END_OF_INPUT} \<and> intact p q"
proof -
  obtain bl r where r: "s = bl @ r" "spaces bl" "r = [] \<or> hd r \<in> {44, 93, 125}" using assms(1) by (auto simp: ends_def)
  have "solid r" using r(3) by auto
  moreover have "next_token r \<in> {T_OBJECT_END, T_ARRAY_END, T_LIST_SEPARATOR, T_END_OF_INPUT}"
    using r(3) by (cases r) (auto simp: next_token_Cons)
  ultimately show ?thesis using GetNextToken_spaces [of bl input p r] assms(2) r(1,2) by auto
qed

lemma ConsumeNumber_text:
  assumes "ahead input p (t @ s)" "number_text t" "ends s" "StringToInt t = Some (ok, n)"
    and "ok \<or> fst (StringToDouble t) \<and> isfinite (snd (StringToDouble t))"
  shows "\<exists>q. ConsumeNumber input p = Some (Some (if ok then INTEGER n else DOUBLE (snd (StringToDouble t))), q) \<and> ahead input q s \<and> intact p q"
proof -
  define t1 where "t1 = (if t \<noteq> [] \<and> hd t = 45 then tl t else t)"
  have t1: "takeWhile digit t1 \<noteq> []" "hd (takeWhile digit t1) = 48 \<longrightarrow> length (takeWhile digit t1) = 1" "fraction_text (dropWhile digit t1)"
    using assms(2) by (simp_all add: number_text_def t1_def Let_def)
  have "t1 \<noteq> []" using t1(1) by auto
  then have tne: "t \<noteq> []" by (auto simp: t1_def)
  then obtain c u where t: "t = c # u" by (cases t) auto
  have a: "ahead input p (c # u @ s)" using assms(1) t by simp
  define p1 where "p1 = (if PeekChar input p = Some 45 then snd (ConsumeChar input p) else p)"
  have p1: "ahead input p1 (t1 @ s)" "intact p p1"
    using a ahead_PeekChar [OF a] ahead_ConsumeChar [OF a] ahead_Cons [OF a] t by (auto simp: p1_def t1_def simp del: ConsumeChar_next)
  obtain p2 where 2: "ReadInt input False p1 = (True, p2)" "ahead input p2 (dropWhile digit t1 @ s)" "intact p1 p2"
    using ReadInt_ahead [OF p1(1) refl, of False] t1(1,2) digits_append [OF assms(3), of t1] by auto
  obtain p3 v where 3: "number_fraction input p2 = (True, p3)" "ahead input p3 (v @ s)" "exponent_text v" "intact p2 p3"
    using number_fraction_ahead [OF 2(2) t1(3) assms(3)] by blast
  obtain p4 where 4: "number_exponent input p3 = (True, p4)" "ahead input p4 s" "intact p3 p4"
    using number_exponent_ahead [OF 3(2,3) assms(3)] by blast
  obtain tk p5 where 5: "GetNextToken input p4 = (tk, p5)" "tk \<in> {T_OBJECT_END, T_ARRAY_END, T_LIST_SEPARATOR, T_END_OF_INPUT}" "intact p4 p5"
    using next_token_ends [OF assms(3) 4(2)] by blast
  let ?q = "p5\<lparr>jp_index := jp_index p4\<rparr>"
  have k: "intact p ?q" using p1(2) 2(3) 3(4) 4(3) 5(3) by (simp add: intact_def)
  have idx: "jp_index p4 = jp_index p + length t" using ahead_length [OF 4(2)] ahead_length [OF assms(1), unfolded List.length_append] by linarith
  then have num: "take (jp_index p4 - jp_index p) (drop (jp_index p) input) = t" using assms(1) by (simp add: ahead_def)
  have e: "ConsumeNumber input p = number_end input (jp_index p) p4"
    using assms(1) 2(1) 3(1) 4(1) by (simp add: ConsumeNumber_def p1_def [symmetric] Let_def ahead_def)
  have "number_end input (jp_index p) p4 = Some (Some (if ok then INTEGER n else DOUBLE (snd (StringToDouble t))), ?q)"
    using 5(1,2) num assms(4,5) by (cases "StringToDouble t") (auto simp: number_end_def Let_def)
  then show ?thesis using e k 4(2) by (auto simp: ahead_def)
qed

lemma int_text:
  assumes "in_range int32 v"
  shows "\<exists>s. IntToString int32 v = Some s \<and> number_text s \<and> StringToInt s = Some (True, v) \<and> s \<noteq> []"
proof -
  let ?s = "(if v < 0 then [45] else []) @ dec \<bar>v\<bar>"
  have s: "IntToString int32 v = Some ?s" using IntToString_dec [of int32 v] assms by simp
  have d: "dec \<bar>v\<bar> \<noteq> []" "hd (dec \<bar>v\<bar>) \<noteq> 45" "list_all digit (dec \<bar>v\<bar>)" using dec_hd [of "\<bar>v\<bar>"] dec_digit [of "\<bar>v\<bar>"] by auto
  have "(if ?s \<noteq> [] \<and> hd ?s = 45 then tl ?s else ?s) = dec \<bar>v\<bar>" using d(1,2) by auto
  then have "number_text ?s" unfolding number_text_def using d(1,3) dec_leading [of "\<bar>v\<bar>"]
    by (auto simp: all_digits fraction_text_def exponent_text_def Let_def list_all_iff)
  moreover have "StringToInt ?s = Some (True, v)" using printed_number_read [of int32 v] assms s by (simp add: StringToInt_def)
  ultimately show ?thesis using s d(1) by auto
qed

section \<open>The text of a value\<close>

text \<open>
  The reference for the writer: the text of a value as a function of the value. \<open>items_text\<close> puts
  commas between texts, \<open>lw\<close> before the first and \<open>sw\<close> after each comma.
\<close>

fun items_text :: "int list \<Rightarrow> int list \<Rightarrow> int list list \<Rightarrow> int list" where
  "items_text lw sw [] = []"
| "items_text lw sw (t # ts) = lw @ t @ concat (map (\<lambda>t. 44 # sw @ t) ts)"

abbreviation sp :: "JSONWriter \<Rightarrow> int list" where "sp w \<equiv> if pretty_print w then [32] else []"
abbreviation nl :: "JSONWriter \<Rightarrow> nat \<Rightarrow> int list" where "nl w d \<equiv> if pretty_print w then kPrettyPrintLineEnding @ IndentLine d else []"

fun json_text :: "JSONWriter \<Rightarrow> nat \<Rightarrow> Value \<Rightarrow> int list" where
  "json_text w depth NONE = [110, 117, 108, 108]"
| "json_text w depth (BOOLEAN b) = (if b then [116, 114, 117, 101] else [102, 97, 108, 115, 101])"
| "json_text w depth (INTEGER n) = the (IntToString int32 n)"
| "json_text w depth (DOUBLE d) = real_text d"
| "json_text w depth (STRING s) = quoted s"
| "json_text w depth (BINARY b) = []"
| "json_text w depth (LIST vs) = [91] @ sp w @ items_text [] (sp w) (map (json_text w depth) vs) @ sp w @ [93]"
| "json_text w depth (DICTIONARY kvs) = [123] @ (if kvs = [] \<and> pretty_print w then kPrettyPrintLineEnding else [])
     @ items_text (nl w (depth + 1)) (nl w (depth + 1)) (map (\<lambda>(k, v). quoted k @ [58] @ sp w @ json_text w (depth + 1) v) kvs)
     @ nl w depth @ [125]"

text \<open>
  The values that are written so that they can be read: integers of 32 bits, finite doubles, valid
  UTF-8, sorted dictionaries without duplicates, no binary values. \<open>reread\<close> is what is read: every
  double is the one nearest to its value rounded to six decimals, \<open>exact\<close> values are unchanged.
\<close>

fun six_decimals :: "double \<Rightarrow> double" where
  "six_decimals (Finite s m e) = nearest s (micro m e) (10 ^ 6)"
| "six_decimals d = d"

fun reread :: "Value \<Rightarrow> Value" where
  "reread (DOUBLE d) = DOUBLE (six_decimals d)"
| "reread (LIST vs) = LIST (map reread vs)"
| "reread (DICTIONARY kvs) = DICTIONARY (map (\<lambda>(k, v). (k, reread v)) kvs)"
| "reread v = v"

fun writable :: "Value \<Rightarrow> bool" where
  "writable (INTEGER n) \<longleftrightarrow> in_range int32 n"
| "writable (DOUBLE d) \<longleftrightarrow> is_double d \<and> isfinite d"
| "writable (STRING s) \<longleftrightarrow> utf8_text s"
| "writable (BINARY b) \<longleftrightarrow> False"
| "writable (LIST vs) \<longleftrightarrow> list_all writable vs"
| "writable (DICTIONARY kvs) \<longleftrightarrow> ft_sorted str_less fst kvs \<and> list_all (\<lambda>(k, v). utf8_text k \<and> writable v) kvs"
| "writable v \<longleftrightarrow> True"

fun exact :: "Value \<Rightarrow> bool" where
  "exact (DOUBLE (Finite s m e)) \<longleftrightarrow> 10 ^ 6 * fl_num m e mod fl_den e = 0"
| "exact (LIST vs) \<longleftrightarrow> list_all exact vs"
| "exact (DICTIONARY kvs) \<longleftrightarrow> list_all (\<lambda>(k, v). exact v) kvs"
| "exact v \<longleftrightarrow> True"

lemma reread_exact: "writable v \<Longrightarrow> exact v \<Longrightarrow> reread v = v"
proof (induction v)
  case (DOUBLE d)
  then show ?case using six_decimals_exact by (cases d) auto
next
  case (DICTIONARY kvs)
  have "(\<lambda>(k, v). (k, reread v)) x = x" if "x \<in> set kvs" for x
    using DICTIONARY.IH [of x "snd x"] DICTIONARY.prems that by (cases x) (auto simp: list_all_iff)
  then show ?case by (simp add: map_idI)
next
  case (LIST vs)
  then show ?case by (auto simp: list_all_iff intro!: map_idI)
qed simp_all

text \<open>The text of a finite double.\<close>

lemma real_text_read:
  assumes "is_double d" "isfinite d"
  shows "number_text (real_text d)" "StringToDouble (real_text d) = (True, six_decimals d)" "isfinite (six_decimals d)"
proof -
  obtain s m e where d: "d = Finite s m e" using assms(2) by (cases d) auto
  note r = NumberToString_read [OF assms(1) [unfolded d]]
  let ?t = "NumberToString_double d"
  have "\<not> (?t \<noteq> [] \<and> ?t ! 0 = 46)" "\<not> (1 < length ?t \<and> ?t ! 0 = 45 \<and> ?t ! 1 = 46)"
    using r(1) unfolding d [symmetric] by (cases ?t; cases "tl ?t"; auto simp: number_text_def Let_def split: if_splits)+
  note n = if_not_P [OF this(1)] if_not_P [OF this(2)]
  have "(46 \<notin> set ?t \<and> 101 \<notin> set ?t \<and> 69 \<notin> set ?t) = False" using r(2) unfolding d [symmetric] by simp
  then have "real_text d = ?t" unfolding real_text_def Let_def by (simp only: if_False n)
  then show "number_text (real_text d)" "StringToDouble (real_text d) = (True, six_decimals d)" "isfinite (six_decimals d)"
    using r by (simp_all add: d)
qed

lemma writable_not_binary: "writable v \<Longrightarrow> (case v of BINARY _ \<Rightarrow> True | _ \<Rightarrow> False) = False"
  by (cases v) simp_all

lemma build_list_text:
  assumes "\<And>v json. v \<in> set vs \<Longrightarrow> BuildJSONString w depth v json = Some (True, json @ json_text w depth v)" "list_all writable vs"
  shows "build_list w depth vs first result json = Some (result,
    json @ (if first then concat (map (\<lambda>t. 44 # sp w @ t) (map (json_text w depth) vs)) else items_text [] (sp w) (map (json_text w depth) vs)))"
  using assms
proof (induction vs arbitrary: first result json)
  case (Cons v vs)
  have "build_list w depth (v # vs) first result json = build_list w depth vs True result
      ((if first then json @ [44] @ sp w else json) @ json_text w depth v)"
    using Cons.prems(1) [of v] Cons.prems(2) writable_not_binary [of v] by simp
  then show ?case using Cons.IH [of True result] Cons.prems by simp
qed simp

lemma build_dict_text:
  assumes "\<And>k v json. (k, v) \<in> set kvs \<Longrightarrow> BuildJSONString w (depth + 1) v json = Some (True, json @ json_text w (depth + 1) v)"
    and "list_all (\<lambda>(k, v). utf8_text k \<and> writable v) kvs"
  shows "build_dict w depth kvs first result json = Some (result,
    json @ (let ts = map (\<lambda>(k, v). quoted k @ [58] @ sp w @ json_text w (depth + 1) v) kvs in
      if first then concat (map (\<lambda>t. 44 # nl w (depth + 1) @ t) ts)
      else items_text (if pretty_print w then IndentLine (depth + 1) else []) (nl w (depth + 1)) ts))"
  using assms
proof (induction kvs arbitrary: first result json)
  case (Cons kv kvs)
  obtain k v where kv: "kv = (k, v)" by fastforce
  have "build_dict w depth (kv # kvs) first result json = build_dict w depth kvs True result
      ((if first then json @ [44] @ nl w (depth + 1) else json @ (if pretty_print w then IndentLine (depth + 1) else []))
        @ quoted k @ [58] @ sp w @ json_text w (depth + 1) v)"
    using Cons.prems(1) [of k v] Cons.prems(2) kv writable_not_binary [of v] EscapeJSONString_text(1) [of k] by simp
  moreover have "build_dict w depth kvs True result j = Some (result,
      j @ concat (map (\<lambda>t. 44 # nl w (depth + 1) @ t) (map (\<lambda>(k, v). quoted k @ [58] @ sp w @ json_text w (depth + 1) v) kvs)))" for j
    by (subst Cons.IH) (use Cons.prems in \<open>auto simp: Let_def\<close>)
  ultimately show ?case using kv by (simp add: Let_def)
qed simp

lemma BuildJSONString_text:
  "writable v \<Longrightarrow> \<not> omit_double_type_preservation w \<Longrightarrow> BuildJSONString w depth v json = Some (True, json @ json_text w depth v)"
proof (induction v arbitrary: depth json)
  case (INTEGER n)
  then show ?case using int_text [of n] by auto
next
  case (DOUBLE d)
  then show ?case by (simp add: write_double_def)
next
  case (STRING s)
  then show ?case using EscapeJSONString_text(1) [of s] by simp
next
  case (DICTIONARY kvs)
  have "build_dict w depth kvs False True json = Some (True, json @ (let ts = map (\<lambda>(k, v). quoted k @ [58] @ sp w @ json_text w (depth + 1) v) kvs in
      items_text (if pretty_print w then IndentLine (depth + 1) else []) (nl w (depth + 1)) ts))" for json
    using DICTIONARY.prems by (subst build_dict_text) (auto intro: DICTIONARY.IH simp: list_all_iff)
  then show ?case by (cases kvs) (simp_all add: Let_def)
next
  case (LIST vs)
  have "build_list w depth vs False True json = Some (True, json @ items_text [] (sp w) (map (json_text w depth) vs))" for json
    using LIST.prems by (subst build_list_text) (auto intro: LIST.IH simp: list_all_iff)
  then show ?case by simp
qed simp_all

section \<open>Reading a text back\<close>

abbreviation starter :: "int \<Rightarrow> bool" where
  "starter c \<equiv> c \<in> {34, 45, 91, 102, 110, 116, 123} \<or> digit c"

lemma starter_token:
  "starter c \<Longrightarrow> solid (c # s) \<and> next_token (c # s) \<notin> {T_ARRAY_END, T_OBJECT_END, T_LIST_SEPARATOR, T_OBJECT_PAIR_SEPARATOR, T_END_OF_INPUT}"
  by (auto simp: next_token_Cons)

lemma number_text_start: "number_text s \<Longrightarrow> \<exists>c t. s = c # t \<and> (c = 45 \<or> digit c)"
  by (cases s) (auto simp: number_text_def Let_def split: if_splits)

lemma quoted_start: "utf8_text s \<Longrightarrow> \<exists>t. quoted s = 34 # t"
  using EscapeJSONString_text(2) [of s] by auto

definition starts :: "int list \<Rightarrow> bool" where
  "starts t \<longleftrightarrow> t \<noteq> [] \<and> starter (hd t)"

lemma startsE: "starts t \<Longrightarrow> (\<And>c u. t = c # u \<Longrightarrow> starter c \<Longrightarrow> P) \<Longrightarrow> P"
  by (cases t) (auto simp: starts_def)

lemma json_text_start: "writable v \<Longrightarrow> starts (json_text w depth v)"
proof (cases v)
  case (INTEGER n)
  moreover assume "writable v"
  ultimately obtain s where "IntToString int32 n = Some s" "number_text s" using int_text [of n] by auto
  then show ?thesis using INTEGER number_text_start [of s] by (auto simp: starts_def)
next
  case (DOUBLE d)
  moreover assume "writable v"
  ultimately show ?thesis using number_text_start [of "real_text d"] real_text_read(1) [of d] by (auto simp: starts_def)
next
  case (STRING s)
  moreover assume "writable v"
  ultimately show ?thesis using quoted_start [of s] by (auto simp: starts_def)
qed (auto simp: starts_def)

text \<open>The rest of a container, after an item and before the next one.\<close>

definition tail_text :: "('x \<Rightarrow> int list) \<Rightarrow> int list \<Rightarrow> int list \<Rightarrow> int list \<Rightarrow> 'x list \<Rightarrow> int list" where
  "tail_text tx sw cw s xs = concat (map (\<lambda>x. 44 # sw @ tx x) xs) @ cw @ s"

definition first_text :: "('x \<Rightarrow> int list) \<Rightarrow> int list \<Rightarrow> int list \<Rightarrow> int list \<Rightarrow> 'x list \<Rightarrow> int list" where
  "first_text tx sw cw s xs = (case xs of [] \<Rightarrow> s | x # xs \<Rightarrow> tx x @ tail_text tx sw cw s xs)"

lemma ends_tail: "spaces cw \<Longrightarrow> cc \<in> {93, 125} \<Longrightarrow> ends (tail_text tx sw cw (cc # s) xs)"
proof (cases xs)
  case Nil
  moreover assume "spaces cw" "cc \<in> {93, 125}"
  ultimately show ?thesis unfolding ends_def by (intro exI [of _ cw] exI [of _ "cc # s"]) (simp add: tail_text_def)
next
  case (Cons x ys)
  then show ?thesis unfolding ends_def by (intro exI [of _ "[]"] exI [of _ "tail_text tx sw cw (cc # s) xs"]) (simp add: tail_text_def)
qed

abbreviation brackets :: "int \<Rightarrow> Token \<Rightarrow> bool" where
  "brackets cc close \<equiv> (cc, close) \<in> {(93, T_ARRAY_END), (125, T_OBJECT_END)}"

lemma next_round_tail:
  assumes "ahead input p (tail_text tx sw cw (cc # s) xs)" "spaces sw" "spaces cw" "brackets cc close"
    and "\<And>x. x \<in> set xs \<Longrightarrow> starts (tx x)"
  shows "\<exists>q. next_round input options close n p = (Some (next_token (first_text tx sw cw (cc # s) xs)), q)
    \<and> ahead input q (first_text tx sw cw (cc # s) xs) \<and> intact p q"
proof (cases xs)
  case Nil
  then obtain q where q: "GetNextToken input p = (next_token (cc # s), q)" "ahead input q (cc # s)" "intact p q"
    using GetNextToken_spaces [OF assms(3), of input p "cc # s"] assms(1,4) by (auto simp: tail_text_def)
  have "next_token (cc # s) = close" using assms(4) by (auto simp: next_token_Cons)
  then show ?thesis using q Nil assms(4) by (auto simp: next_round_def first_text_def)
next
  case (Cons x ys)
  let ?r = "tx x @ tail_text tx sw cw (cc # s) ys"
  have a: "ahead input p (44 # sw @ ?r)" using assms(1) Cons by (simp add: tail_text_def)
  obtain q where q: "GetNextToken input p = (next_token (44 # sw @ ?r), q)" "ahead input q (44 # sw @ ?r)" "intact p q"
    using GetNextToken_spaces [of "[]" input p "44 # sw @ ?r"] a by auto
  let ?q = "q\<lparr>jp_index := Suc (jp_index q)\<rparr>"
  obtain c t where c: "tx x = c # t" "starter c" using assms(5) [of x] Cons by (auto elim: startsE)
  note st = starter_token [OF c(2), of "t @ tail_text tx sw cw (cc # s) ys"]
  obtain q' where q': "GetNextToken input ?q = (next_token ?r, q')" "ahead input q' ?r" "intact ?q q'"
    using GetNextToken_spaces [OF assms(2) ahead_Cons [OF q(2)]] st c(1) by auto
  have "next_token (44 # sw @ ?r) = T_LIST_SEPARATOR" by (simp add: next_token_Cons)
  moreover have "next_token ?r \<noteq> close" using st c(1) assms(4) by auto
  moreover have "intact p q'" using q(3) q'(3) by (simp add: intact_def)
  ultimately show ?thesis using q(1) q' ahead_ConsumeChar [OF q(2)] Cons
    by (auto simp: next_round_def first_text_def Let_def simp del: ConsumeChar_next)
qed

text \<open>An item is read, up to what follows it.\<close>

definition reads_item :: "int list \<Rightarrow> nat \<Rightarrow> Token \<Rightarrow> int \<Rightarrow> int \<Rightarrow> ('x \<Rightarrow> int list) \<Rightarrow> ('x \<Rightarrow> 'y)
    \<Rightarrow> (Token \<Rightarrow> JSONParser \<Rightarrow> 'y list \<Rightarrow> ((Token \<times> 'y list) option \<times> JSONParser) option) \<Rightarrow> 'x \<Rightarrow> bool" where
  "reads_item input options close n d tx out round x \<longleftrightarrow> (\<forall>p acc r. ahead input p (tx x @ r) \<longrightarrow> ends r \<longrightarrow> jp_stack_depth p = d
     \<longrightarrow> (\<exists>q. round (next_token (tx x @ r)) p acc = Some (map_prod (map_option (\<lambda>t. (t, acc @ [out x]))) id (next_round input options close n q))
           \<and> ahead input q r \<and> intact p q))"

lemma item_loop_text:
  assumes w: "spaces sw" "spaces cw" "brackets cc close"
  shows "(\<And>x. x \<in> set xs \<Longrightarrow> starts (tx x))
    \<Longrightarrow> (\<And>x. x \<in> set xs \<Longrightarrow> reads_item input options close n d tx out round x)
    \<Longrightarrow> ahead input p (first_text tx sw cw (cc # s) xs) \<Longrightarrow> jp_stack_depth p = d \<Longrightarrow> length xs < fuel
    \<Longrightarrow> \<exists>q. item_loop round close fuel (next_token (first_text tx sw cw (cc # s) xs)) p acc = Some (Some (acc @ map out xs), q)
      \<and> ahead input q (cc # s) \<and> intact p q"
proof (induction xs arbitrary: p acc fuel)
  case Nil
  have "next_token (cc # s) = close" using w(3) by (auto simp: next_token_Cons)
  then show ?case using Nil.prems by (cases fuel) (simp_all add: first_text_def)
next
  case (Cons x xs)
  obtain f where f: "fuel = Suc f" "length xs < f" using Cons.prems(5) by (cases fuel) auto
  let ?r = "tail_text tx sw cw (cc # s) xs"
  have a: "ahead input p (tx x @ ?r)" using Cons.prems(3) by (simp add: first_text_def)
  have e: "ends ?r" using w(3) by (intro ends_tail [OF w(2)]) auto
  obtain c t where c: "tx x = c # t" "starter c" using Cons.prems(1) [of x] by (auto elim: startsE)
  obtain q where q: "round (next_token (tx x @ ?r)) p acc = Some (map_prod (map_option (\<lambda>t. (t, acc @ [out x]))) id (next_round input options close n q))"
    "ahead input q ?r" "intact p q"
  proof -
    have "reads_item input options close n d tx out round x" using Cons.prems(2) by simp
    then show ?thesis using a e Cons.prems(4) that unfolding reads_item_def by blast
  qed
  obtain q' where q': "next_round input options close n q = (Some (next_token (first_text tx sw cw (cc # s) xs)), q')"
    "ahead input q' (first_text tx sw cw (cc # s) xs)" "intact q q'"
    using next_round_tail [OF q(2) w Cons.prems(1)] by auto
  have k: "intact p q'" using q(3) q'(3) by (rule intact_trans)
  then have d: "jp_stack_depth q' = d" using Cons.prems(4) by (simp add: intact_def)
  have "next_token (tx x @ ?r) \<noteq> close" using starter_token [OF c(2), of "t @ ?r"] c(1) w(3) by auto
  then have "item_loop round close fuel (next_token (first_text tx sw cw (cc # s) (x # xs))) p acc
      = item_loop round close f (next_token (first_text tx sw cw (cc # s) xs)) q' (acc @ [out x])"
    using q(1) q'(1) f(1) by (simp add: first_text_def)
  moreover obtain q'' where "item_loop round close f (next_token (first_text tx sw cw (cc # s) xs)) q' (acc @ [out x]) = Some (Some ((acc @ [out x]) @ map out xs), q'')"
    "ahead input q'' (cc # s)" "intact q' q''"
    using Cons.IH [OF _ _ q'(2) d f(2), of "acc @ [out x]"] Cons.prems(1,2) by auto
  ultimately show ?case using intact_trans [OF k] by auto
qed

lemma tail_length: "(\<And>x. x \<in> set xs \<Longrightarrow> tx x \<noteq> []) \<Longrightarrow> length xs < length (tail_text tx sw cw (cc # s) xs)"
  by (induction xs) (auto simp: tail_text_def)

lemma first_length:
  assumes "\<And>x. x \<in> set xs \<Longrightarrow> starts (tx x)"
  shows "length xs \<le> length (first_text tx sw cw (cc # s) xs)"
proof (cases xs)
  case (Cons x ys)
  then have "tx x \<noteq> []" using assms [of x] by (simp add: starts_def)
  moreover have "length ys < length (tail_text tx sw cw (cc # s) ys)" using assms Cons by (intro tail_length) (auto simp: starts_def)
  ultimately show ?thesis using Cons by (cases "tx x") (simp_all add: first_text_def)
qed simp

lemma container_text:
  assumes w: "spaces sw" "spaces cw" "brackets cc close"
    and st: "\<And>x. x \<in> set xs \<Longrightarrow> starts (tx x)"
    and item: "\<And>x. x \<in> set xs \<Longrightarrow> reads_item input options close n (jp_stack_depth p + 1) tx out round x"
    and a: "ahead input p (bracket # bl @ first_text tx sw cw (cc # s) xs)" "spaces bl" "jp_stack_depth p + 1 < max_depth"
  shows "\<exists>q. container bracket close mk [] round input max_depth p = Some (Some (mk (map out xs)), q) \<and> ahead input q s \<and> intact p q"
proof -
  let ?f = "first_text tx sw cw (cc # s) xs" and ?p = "p\<lparr>jp_index := Suc (jp_index p)\<rparr>"
  let ?e = "?p\<lparr>jp_stack_depth := jp_stack_depth p + 1\<rparr>"
  have e: "ahead input ?e (bl @ ?f)" using ahead_Cons [OF a(1)] by (simp add: ahead_def)
  have "solid ?f"
  proof (cases xs)
    case Nil
    then show ?thesis using w(3) by (auto simp: first_text_def)
  next
    case (Cons x ys)
    then obtain c t where "tx x = c # t" "starter c" using st [of x] by (auto elim: startsE)
    then show ?thesis using Cons starter_token [of c "[]"] by (simp add: first_text_def)
  qed
  then obtain q where q: "GetNextToken input ?e = (next_token ?f, q)" "ahead input q ?f" "intact ?e q"
    using GetNextToken_spaces [OF a(2) e] by blast
  define m where "m = Suc (length input)"
  have "length xs < m" using first_length [of xs tx sw cw cc s, OF st] ahead_length [OF q(2)] by (simp add: m_def)
  moreover have "jp_stack_depth q = jp_stack_depth p + 1" using q(3) by (simp add: intact_def)
  ultimately obtain q' where q': "item_loop round close m (next_token ?f) q [] = Some (Some (map out xs), q')" "ahead input q' (cc # s)" "intact q q'"
    using item_loop_text [OF w st item q(2), of m "[]"] by auto
  have d: "StackMarker max_depth ?p = Some ?e" "\<not> IsTooDeep max_depth ?e" using a(3) by (simp_all add: StackMarker_def IsTooDeep_def Let_def)
  let ?q = "q'\<lparr>jp_index := Suc (jp_index q'), jp_stack_depth := jp_stack_depth q' - 1\<rparr>"
  have "container bracket close mk [] round input max_depth p = Some (Some (mk (map out xs)), ?q)"
    using ahead_ConsumeChar [OF a(1)] ahead_ConsumeChar [OF q'(2)] d q(1) q'(1)
    by (simp add: container_def m_def [symmetric] StackMarker_destroy_def del: ConsumeChar_next item_loop.simps)
  moreover have "ahead input ?q s" using ahead_Cons [OF q'(2)] by (simp add: ahead_def)
  moreover have "intact p ?q" using q(3) q'(3) by (simp add: intact_def)
  ultimately show ?thesis by blast
qed

text \<open>Sorted dictionaries are stored as they are.\<close>

lemma sorted_same_set: "ft_sorted str_less ky xs \<Longrightarrow> ft_sorted str_less ky ys \<Longrightarrow> set xs = set ys \<Longrightarrow> xs = ys"
proof (induction xs arbitrary: ys)
  case (Cons x xs)
  then obtain y zs where ys: "ys = y # zs" by (cases ys) auto
  have irr: "\<not> str_less a a" for a by (rule string_order.irrefl)
  have x: "\<forall>z \<in> set xs. str_less (ky x) (ky z)" "ft_sorted str_less ky xs" and y: "\<forall>z \<in> set zs. str_less (ky y) (ky z)" "ft_sorted str_less ky zs"
    using Cons.prems(1,2) ys by (auto simp: ft_sorted_def)
  have "x = y"
  proof (rule ccontr)
    assume "x \<noteq> y"
    then have "x \<in> set zs" "y \<in> set xs" using Cons.prems(3) ys by auto
    then show False using x(1) y(1) string_order.asym by blast
  qed
  moreover have "x \<notin> set xs" "y \<notin> set zs" using x(1) y(1) irr by blast+
  ultimately have "set xs = set zs" using Cons.prems(3) ys by auto
  then show ?case using Cons.IH [OF x(2) y(2)] ys \<open>x = y\<close> by simp
qed simp

lemma DictStorage_sorted:
  assumes "ft_sorted str_less fst kvs"
  shows "DictStorage kvs = kvs"
proof -
  note r = string_order.of_range_spec [where ky = fst and vs = kvs and dupes = KEEP_LAST_OF_DUPES]
  have s: "ft_sorted str_less fst (DictStorage kvs)" using r by (simp add: DictStorage_def)
  have "x \<in> set (DictStorage kvs)" if "x \<in> set kvs" for x
  proof -
    have "ft_look str_less fst (rev kvs) (fst x) \<noteq> None"
      using that string_order.eqv_refl [of "fst x"] unfolding ft_look_def find_None_iff set_rev by blast
    then obtain y where y: "ft_look str_less fst (rev kvs) (fst x) = Some y" by blast
    then have "ft_look str_less fst (DictStorage kvs) (fst x) = Some y" using r by (simp add: DictStorage_def string_order.range_view_def)
    then have yd: "y \<in> set (DictStorage kvs)" "ft_eqv str_less (fst y) (fst x)" using string_order.look_Some_iff [OF s] by auto
    then have "y \<in> set kvs" using DictStorage_subset by blast
    moreover have "fst y = fst x" using yd(2) str_less_total [of "fst y" "fst x"] by (auto simp: ft_eqv_def)
    ultimately have "y = x" using that assms string_order.look_Some_iff [OF assms, of "fst x"] by (metis option.inject string_order.eqv_refl)
    then show ?thesis using yd(1) by simp
  qed
  then show ?thesis using sorted_same_set [OF s assms] DictStorage_subset by blast
qed

lemma spaces_layout [simp]: "spaces (sp w)" "spaces (nl w d)" "spaces kPrettyPrintLineEnding"
  by (auto simp: spaces_def kPrettyPrintLineEnding_def IndentLine_def)

lemma list_text: "json_text w depth (LIST vs) @ s =
  91 # (if vs = [] then sp w @ sp w else sp w) @ first_text (json_text w depth) (sp w) (sp w) (93 # s) vs"
  by (cases vs) (simp_all add: first_text_def tail_text_def o_def)

abbreviation pair_text :: "JSONWriter \<Rightarrow> nat \<Rightarrow> int list \<times> Value \<Rightarrow> int list" where
  "pair_text w depth \<equiv> \<lambda>(k, v). quoted k @ [58] @ sp w @ json_text w (depth + 1) v"

lemma dict_text: "json_text w depth (DICTIONARY kvs) @ s =
  123 # (if kvs = [] then (if pretty_print w then kPrettyPrintLineEnding else []) @ nl w depth else nl w (depth + 1))
    @ first_text (pair_text w depth) (nl w (depth + 1)) (nl w depth) (125 # s) kvs"
  by (cases kvs) (simp_all add: first_text_def tail_text_def o_def)

text \<open>What \<open>ParseToken\<close> does on the text of a value, one level down.\<close>

definition reads_value :: "int list \<Rightarrow> JSONWriter \<Rightarrow> nat \<Rightarrow> parse \<Rightarrow> int \<Rightarrow> Value \<Rightarrow> bool" where
  "reads_value input w depth parse d v \<longleftrightarrow> (\<forall>p s. ahead input p (json_text w depth v @ s) \<longrightarrow> ends s \<longrightarrow> jp_stack_depth p = d
     \<longrightarrow> (\<exists>q. parse (next_token (json_text w depth v @ s)) p = Some (Some (reread v), q) \<and> ahead input q s \<and> intact p q))"

lemma list_item:
  assumes "reads_value input w depth parse d v"
  shows "reads_item input options T_ARRAY_END 1 d (json_text w depth) reread (list_round parse input options) v"
  unfolding reads_item_def
proof (intro allI impI)
  fix p acc r assume "ahead input p (json_text w depth v @ r)" "ends r" "jp_stack_depth p = d"
  then obtain q where "parse (next_token (json_text w depth v @ r)) p = Some (Some (reread v), q)" "ahead input q r" "intact p q"
    using assms unfolding reads_value_def by blast
  then show "\<exists>q. list_round parse input options (next_token (json_text w depth v @ r)) p acc
      = Some (map_prod (map_option (\<lambda>t. (t, acc @ [reread v]))) id (next_round input options T_ARRAY_END 1 q)) \<and> ahead input q r \<and> intact p q"
    by (intro exI [of _ q]) (simp add: list_round_def split: prod.splits)
qed

lemma dict_item:
  assumes "reads_value input w (depth + 1) parse d v" "utf8_text k" "writable v"
  shows "reads_item input options T_OBJECT_END 0 d (pair_text w depth) (\<lambda>(k, v). (k, reread v)) (dict_round parse input options) (k, v)"
  unfolding reads_item_def
proof (intro allI impI)
  fix p acc r assume a: "ahead input p (pair_text w depth (k, v) @ r)" and r: "ends r" "jp_stack_depth p = d"
  let ?v = "json_text w (depth + 1) v @ r"
  obtain t where t: "quoted k = 34 # t" using quoted_start [OF assms(2)] by blast
  have tk: "next_token (pair_text w depth (k, v) @ r) = T_STRING" using t by (simp add: next_token_Cons)
  obtain q1 sb where 1: "ConsumeStringRaw input options p = Some (Some sb, q1)" "DestructiveAsString input sb = k"
    "ahead input q1 (58 # sp w @ ?v)" "intact p q1"
    using ConsumeStringRaw_quoted [OF assms(2), of input p "58 # sp w @ ?v" options] a by auto
  obtain q2 where 2: "GetNextToken input q1 = (next_token (58 # sp w @ ?v), q2)" "ahead input q2 (58 # sp w @ ?v)" "intact q1 q2"
    using GetNextToken_spaces [of "[]" input q1 "58 # sp w @ ?v"] 1(3) by auto
  have sep: "next_token (58 # sp w @ ?v) = T_OBJECT_PAIR_SEPARATOR" by (simp add: next_token_Cons)
  have "solid ?v"
  proof -
    obtain c u where "json_text w (depth + 1) v = c # u" "starter c" using json_text_start [OF assms(3)] startsE by blast
    then show ?thesis using starter_token [of c "u @ r"] by simp
  qed
  then obtain q3 where 3: "GetNextToken input (q2\<lparr>jp_index := Suc (jp_index q2)\<rparr>) = (next_token ?v, q3)" "ahead input q3 ?v" "intact (q2\<lparr>jp_index := Suc (jp_index q2)\<rparr>) q3"
    using GetNextToken_spaces [OF spaces_layout(1) ahead_Cons [OF 2(2)]] by blast
  have k3: "intact p q3" using 1(4) 2(3) 3(3) by (simp add: intact_def)
  then have "jp_stack_depth q3 = d" using r(2) by (simp add: intact_def)
  then obtain q where q: "parse (next_token ?v) q3 = Some (Some (reread v), q)" "ahead input q r" "intact q3 q"
    using assms(1) 3(2) r(1) unfolding reads_value_def by blast
  have "dict_round parse input options (next_token (pair_text w depth (k, v) @ r)) p acc
      = Some (map_prod (map_option (\<lambda>t. (t, acc @ [(k, reread v)]))) id (next_round input options T_OBJECT_END 0 q))"
    unfolding tk dict_round_def using 1(1,2) 2(1) sep ahead_ConsumeChar [OF 2(2)] 3(1) q(1)
    by (simp add: Let_def del: ConsumeChar_next split: prod.splits)
  then show "\<exists>q. dict_round parse input options (next_token (pair_text w depth (k, v) @ r)) p acc
      = Some (map_prod (map_option (\<lambda>t. (t, acc @ [(\<lambda>(k, v). (k, reread v)) (k, v)]))) id (next_round input options T_OBJECT_END 0 q)) \<and> ahead input q r \<and> intact p q"
    using q(2) intact_trans [OF k3 q(3)] by auto
qed

lemma ConsumeLiteral_text:
  assumes "ahead input p (t @ s)" "(t, v) \<in> {([110, 117, 108, 108], NONE), ([116, 114, 117, 101], BOOLEAN True), ([102, 97, 108, 115, 101], BOOLEAN False)}"
  shows "\<exists>q. ConsumeLiteral input p = (Some v, q) \<and> ahead input q s \<and> intact p q"
proof -
  have d: "drop (jp_index p) input = t @ s" "length input = jp_index p + length t + length s"
    using assms(1) ahead_length [OF assms(1)] by (simp_all add: ahead_def)
  have m: "ConsumeIfMatch input m p = (if take (length m) (t @ s) = m then (True, p\<lparr>jp_index := jp_index p + length m\<rparr>) else (False, p))"
    if "length m \<le> length t + length s \<or> hd m \<noteq> hd t" "m \<noteq> []" "t \<noteq> []" for m
    using that d by (cases m; cases t) (auto simp: ConsumeIfMatch_def ConsumeChars_def PeekChars_def)
  show ?thesis using assms(2) ahead_append [OF assms(1)] by (auto simp: ConsumeLiteral_def m)
qed

lemma digit_list_None: "c \<in> set s \<Longrightarrow> CharToDigit b c = None \<Longrightarrow> digit_list b s = None"
  by (induction s) (auto split: bind_splits)

lemma real_text_not_int: "\<exists>n. StringToInt (real_text d) = Some (False, n)"
proof -
  let ?s = "real_text d"
  define r where "r = (let real = NumberToString_double d in if 46 \<notin> set real \<and> 101 \<notin> set real \<and> 69 \<notin> set real then real @ [46, 48] else real)"
  have "46 \<in> set r \<or> 101 \<in> set r \<or> 69 \<in> set r" by (simp add: r_def Let_def)
  then obtain c where c: "c \<in> set r" "c \<in> {46, 101, 69}" by blast
  have "?s = r \<or> ?s = 48 # r \<or> ?s = take 1 r @ 48 # drop 1 r" unfolding r_def real_text_def Let_def by simp
  moreover have "set (take 1 r @ 48 # drop 1 r) = insert 48 (set r)" using append_take_drop_id [of 1 r] by (metis Un_insert_right list.simps(15) set_append)
  ultimately have "set r \<subseteq> set ?s" by auto
  then have c: "c \<in> set ?s" "c \<in> {46, 101, 69}" using c by auto
  have n: "CharToDigit 10 c = None" "c \<noteq> 45" "c \<noteq> 43" using c(2) by (auto simp: CharToDigit_def BaseCharToDigit_le10_def)
  then have "?s \<noteq> [] \<Longrightarrow> hd ?s = 45 \<or> hd ?s = 43 \<Longrightarrow> c \<in> set (tl ?s)" using c(1) by (cases ?s) auto
  then have "num_value 10 ?s = None" using c(1) n(1) digit_list_None by (auto simp: num_value_def magnitude_def)
  then show ?thesis using parse_exact [of 10 int32 ?s] by (auto simp: StringToInt_def)
qed

lemma ParseToken_number:
  assumes "number_text t" "StringToInt t = Some (ok, n)" "ok \<or> fst (StringToDouble t) \<and> isfinite (snd (StringToDouble t))"
    and "json_text w depth v = t" "reread v = (if ok then INTEGER n else DOUBLE (snd (StringToDouble t)))"
  shows "reads_value input w depth (ParseToken input options max_depth (Suc l)) d v"
  unfolding reads_value_def
proof (intro allI impI)
  fix p s assume a: "ahead input p (json_text w depth v @ s)" "ends s"
  obtain c u where c: "t = c # u" "c = 45 \<or> digit c" using number_text_start [OF assms(1)] by blast
  then have "next_token (json_text w depth v @ s) = T_NUMBER" using assms(4) by (auto simp: next_token_Cons)
  then show "\<exists>q. ParseToken input options max_depth (Suc l) (next_token (json_text w depth v @ s)) p = Some (Some (reread v), q) \<and> ahead input q s \<and> intact p q"
    using ConsumeNumber_text [OF a(1) [unfolded assms(4)] assms(1) a(2) assms(2,3)] assms(5) by simp
qed

lemma ParseToken_literal:
  assumes "(json_text w depth v, v) \<in> {([110, 117, 108, 108], NONE), ([116, 114, 117, 101], BOOLEAN True), ([102, 97, 108, 115, 101], BOOLEAN False)}"
  shows "reads_value input w depth (ParseToken input options max_depth (Suc l)) d v"
  unfolding reads_value_def
proof (intro allI impI)
  fix p s assume a: "ahead input p (json_text w depth v @ s)"
  have "next_token (json_text w depth v @ s) \<in> {T_NULL, T_BOOL_TRUE, T_BOOL_FALSE}" using assms by (auto simp: next_token_Cons)
  then show "\<exists>q. ParseToken input options max_depth (Suc l) (next_token (json_text w depth v @ s)) p = Some (Some (reread v), q) \<and> ahead input q s \<and> intact p q"
    using ConsumeLiteral_text [OF a assms] assms by auto
qed

lemma ParseToken_string:
  assumes "utf8_text str"
  shows "reads_value input w depth (ParseToken input options max_depth (Suc l)) d (STRING str)"
  unfolding reads_value_def
proof (intro allI impI)
  fix p s assume a: "ahead input p (json_text w depth (STRING str) @ s)"
  have "next_token (json_text w depth (STRING str) @ s) = T_STRING" using quoted_start [OF assms] by (auto simp: next_token_Cons)
  then show "\<exists>q. ParseToken input options max_depth (Suc l) (next_token (json_text w depth (STRING str) @ s)) p = Some (Some (reread (STRING str)), q)
      \<and> ahead input q s \<and> intact p q"
    using ConsumeStringRaw_quoted [OF assms, of input p s options] a by (auto simp: ConsumeString_def)
qed

lemma ParseToken_scalar:
  assumes "writable v" "nesting v = 0"
  shows "reads_value input w depth (ParseToken input options max_depth (Suc l)) d v"
proof (cases v)
  case (INTEGER n)
  then obtain t where "IntToString int32 n = Some t" "number_text t" "StringToInt t = Some (True, n)" using int_text [of n] assms(1) by auto
  then show ?thesis using INTEGER by (intro ParseToken_number [of t True n]) auto
next
  case (DOUBLE x)
  obtain n where "StringToInt (real_text x) = Some (False, n)" using real_text_not_int [of x] by auto
  then show ?thesis using DOUBLE assms(1) by (intro ParseToken_number [of "real_text x" False n]) (auto simp: real_text_read)
next
  case (BOOLEAN b)
  then show ?thesis by (cases b) (auto intro: ParseToken_literal)
qed (use assms in \<open>auto intro: ParseToken_string ParseToken_literal\<close>)

lemma nesting_less:
  "v \<in> set vs \<Longrightarrow> nesting v < nesting (LIST vs)" "(k, v) \<in> set kvs \<Longrightarrow> nesting v < nesting (DICTIONARY kvs)"
  using foldr_max_le [of "map nesting vs" "foldr max (map nesting vs) 0"]
    foldr_max_le [of "map (\<lambda>(k, v). nesting v) kvs" "foldr max (map (\<lambda>(k, v). nesting v) kvs) 0"]
  by (auto simp: less_Suc_eq_le)

lemma ParseToken_text:
  "writable v \<Longrightarrow> int (nesting v) + d < max_depth \<Longrightarrow> nesting v < levels
    \<Longrightarrow> reads_value input w depth (ParseToken input options max_depth levels) d v"
proof (induction v arbitrary: depth d levels)
  case (LIST vs)
  obtain l where l: "levels = Suc l" using LIST.prems(3) by (cases levels) auto
  let ?parse = "ParseToken input options max_depth l"
  have item: "reads_item input options T_ARRAY_END 1 (d + 1) (json_text w depth) reread (list_round ?parse input options) v" if "v \<in> set vs" for v
    using LIST.IH [OF that, of "d + 1" l depth] LIST.prems nesting_less(1) [OF that] that l by (intro list_item) (auto simp: list_all_iff)
  have st: "starts (json_text w depth v)" if "v \<in> set vs" for v using LIST.prems(1) that by (auto simp: list_all_iff intro: json_text_start)
  have deep: "d + 1 < max_depth" using LIST.prems(2) by simp
  show ?case unfolding reads_value_def
  proof (intro allI impI)
    fix p s assume a: "ahead input p (json_text w depth (LIST vs) @ s)" and s: "ends s" "jp_stack_depth p = d"
    have "next_token (json_text w depth (LIST vs) @ s) = T_ARRAY_BEGIN" by (simp add: next_token_Cons)
    moreover have "\<exists>q. container 91 T_ARRAY_END LIST [] (list_round ?parse input options) input max_depth p = Some (Some (LIST (map reread vs)), q) \<and> ahead input q s \<and> intact p q"
      using a [unfolded list_text] item st deep s(2) by (intro container_text [where cc = 93 and tx = "json_text w depth"]) auto
    ultimately show "\<exists>q. ParseToken input options max_depth levels (next_token (json_text w depth (LIST vs) @ s)) p = Some (Some (reread (LIST vs)), q)
        \<and> ahead input q s \<and> intact p q"
      unfolding l by (simp add: containers)
  qed
next
  case (DICTIONARY kvs)
  obtain l where l: "levels = Suc l" using DICTIONARY.prems(3) by (cases levels) auto
  let ?parse = "ParseToken input options max_depth l"
  have kv: "utf8_text k" "writable v" if "(k, v) \<in> set kvs" for k v using DICTIONARY.prems(1) that by (auto simp: list_all_iff)
  have item: "reads_item input options T_OBJECT_END 0 (d + 1) (pair_text w depth) (\<lambda>(k, v). (k, reread v)) (dict_round ?parse input options) x" if "x \<in> set kvs" for x
  proof (cases x)
    case (Pair k v)
    then have "reads_value input w (depth + 1) ?parse (d + 1) v"
      using DICTIONARY.IH [OF that, of v "d + 1" l "depth + 1"] DICTIONARY.prems(2,3) nesting_less(2) [of k v kvs] that l kv [of k v] by auto
    then show ?thesis unfolding Pair using kv [of k v] that Pair by (intro dict_item) auto
  qed
  have st: "starts (pair_text w depth x)" if "x \<in> set kvs" for x
    using quoted_start [OF kv(1) [of "fst x" "snd x"]] that by (cases x) (auto simp: starts_def)
  have deep: "d + 1 < max_depth" using DICTIONARY.prems(2) by simp
  let ?kvs = "map (\<lambda>(k, v). (k, reread v)) kvs"
  have "ft_sorted str_less fst ?kvs" using DICTIONARY.prems(1) by (simp add: ft_sorted_def sorted_wrt_map split_beta)
  then have mk: "DictStorage ?kvs = ?kvs" by (rule DictStorage_sorted)
  show ?case unfolding reads_value_def
  proof (intro allI impI)
    fix p s assume a: "ahead input p (json_text w depth (DICTIONARY kvs) @ s)" and s: "ends s" "jp_stack_depth p = d"
    have "next_token (json_text w depth (DICTIONARY kvs) @ s) = T_OBJECT_BEGIN" by (simp add: next_token_Cons)
    moreover have "\<exists>q. container 123 T_OBJECT_END (\<lambda>kvs. DICTIONARY (DictStorage kvs)) [] (dict_round ?parse input options) input max_depth p
        = Some (Some (DICTIONARY (DictStorage (map (\<lambda>(k, v). (k, reread v)) kvs))), q) \<and> ahead input q s \<and> intact p q"
      using a [unfolded dict_text] item st deep s(2) by (intro container_text [where cc = 125 and tx = "pair_text w depth"]) auto
    ultimately show "\<exists>q. ParseToken input options max_depth levels (next_token (json_text w depth (DICTIONARY kvs) @ s)) p = Some (Some (reread (DICTIONARY kvs)), q)
        \<and> ahead input q s \<and> intact p q"
      unfolding l by (simp add: containers mk)
  qed
qed (use ParseToken_scalar in \<open>fastforce elim: less_natE\<close>)+

lemma no_byte_order_mark: "ahead input p (c # s) \<Longrightarrow> c \<noteq> 0xEF \<Longrightarrow> ConsumeIfMatch input [0xEF, 0xBB, 0xBF] p = (False, p)"
  by (auto simp: ahead_def ConsumeIfMatch_def PeekChars_def)

lemma Parse_text:
  assumes "writable v" "int (nesting v) + jp_stack_depth p < max_depth" "spaces bl" "0 \<le> jp_stack_depth p"
    and "input = json_text w depth v @ bl" "int (length input) < 2 ^ 31"
  shows "\<exists>q. Parse options max_depth input p = Some (Some (reread v), q)"
proof -
  define p0 where "p0 = Parse_reset p"
  have a: "ahead input p0 input" by (simp add: p0_def Parse_reset_def ahead_def)
  obtain c t where c: "json_text w depth v = c # t" "starter c" using json_text_start [OF assms(1), of w depth] by (auto elim: startsE)
  have i: "input = c # t @ bl" using c(1) assms(5) by simp
  have bom: "ConsumeIfMatch input [0xEF, 0xBB, 0xBF] p0 = (False, p0)" using no_byte_order_mark [of input p0 c "t @ bl"] a c(2) i by auto
  have "solid input" using starter_token [OF c(2)] i by simp
  then obtain q where q: "GetNextToken input p0 = (next_token input, q)" "ahead input q input" "intact p0 q"
    using GetNextToken_spaces [of "[]" input p0 input] a by auto
  have "jp_stack_depth q = jp_stack_depth p" using q(3) by (simp add: intact_def p0_def Parse_reset_def)
  moreover have "reads_value input w depth (ParseToken input options max_depth (nat max_depth + 1)) (jp_stack_depth p) v"
    using assms(2,4) by (intro ParseToken_text [OF assms(1,2)]) linarith
  moreover have "ends bl" unfolding ends_def using assms(3) by (intro exI [of _ bl] exI [of _ "[]"]) simp
  ultimately obtain r where r: "ParseToken input options max_depth (nat max_depth + 1) (next_token input) q = Some (Some (reread v), r)" "ahead input r bl"
    using q(2) assms(5) unfolding reads_value_def by blast
  obtain r' where "GetNextToken input r = (T_END_OF_INPUT, r')" using GetNextToken_spaces [OF assms(3), of input r "[]"] r(2) by auto
  then show ?thesis using assms(6) bom q(1) r(1) unfolding Parse_def p0_def [symmetric] by (simp add: Let_def del: ParseToken.simps)
qed

text \<open>
  C14: What the writer writes, the parser reads back. For every value of 32-bit integers, finite
  doubles, valid UTF-8 strings, lists and sorted dictionaries, \<open>WriteWithOptions\<close> succeeds, compact or
  pretty-printed but without \<open>OPTIONS_OMIT_DOUBLE_TYPE_PRESERVATION\<close>, and \<open>JSONReader::Read\<close>, whatever
  its options, returns the value with every double replaced by the one nearest to its six decimals,
  the same value if six decimals are enough for its doubles; as long as the value is nested less
  deeply than the limit and the text is shorter than 2 GiB.
\<close>
theorem json_round_trip:
  assumes "writable v" "int (nesting v) < max_depth" "max_depth \<le> kStackMaxDepth" "options AND OPTIONS_OMIT_DOUBLE_TYPE_PRESERVATION = 0"
  shows "\<exists>json. WriteWithOptions v options = Some (True, json)
    \<and> (int (length json) < 2 ^ 31 \<longrightarrow> JSONReader_Read json read_options max_depth = Some (Some (reread v))) \<and> (exact v \<longrightarrow> reread v = v)"
proof -
  let ?w = "new_writer options" and ?bl = "if options AND OPTIONS_PRETTY_PRINT \<noteq> 0 then kPrettyPrintLineEnding else []"
  have "\<not> omit_double_type_preservation ?w" using assms(4) by (simp add: new_writer_def)
  then have w: "WriteWithOptions v options = Some (True, json_text ?w 0 v @ ?bl)"
    using BuildJSONString_text [OF assms(1), of ?w 0 "[]"] by (simp add: WriteWithOptions_def)
  obtain p where p: "new_parser max_depth = Some p" "jp_stack_depth p = 0" using assms(3) by (auto simp: new_parser_def)
  have "JSONReader_Read (json_text ?w 0 v @ ?bl) read_options max_depth = Some (Some (reread v))" if "int (length (json_text ?w 0 v @ ?bl)) < 2 ^ 31"
    using Parse_text [OF assms(1), of p max_depth ?bl "json_text ?w 0 v @ ?bl" ?w 0 read_options] p assms(2) that
    by (auto simp: JSONReader_Read_def)
  then show ?thesis using w reread_exact [OF assms(1)] by blast
qed

theorem json_round_trip_witness:
  "\<exists>json. WriteWithOptions (DICTIONARY [([97], LIST [DOUBLE (Finite True 8444249301319680 (- 50)), INTEGER (- 5), STRING [34, 60, 0xC3, 0xA9]]), ([98], NONE)]) 4 = Some (True, json)
    \<and> (int (length json) < 2 ^ 31 \<longrightarrow> JSONReader_Read json 0 3
         = Some (Some (DICTIONARY [([97], LIST [DOUBLE (Finite True 8444249301319680 (- 50)), INTEGER (- 5), STRING [34, 60, 0xC3, 0xA9]]), ([98], NONE)])))"
proof -
  let ?v = "DICTIONARY [([97], LIST [DOUBLE (Finite True 8444249301319680 (- 50)), INTEGER (- 5), STRING [34, 60, 0xC3, 0xA9]]), ([98], NONE)]"
  have v: "writable ?v" "exact ?v" by code_simp+
  have n: "int (nesting ?v) < 3" "3 \<le> kStackMaxDepth" "4 AND OPTIONS_OMIT_DOUBLE_TYPE_PRESERVATION = 0"
    by (simp_all add: kStackMaxDepth_def OPTIONS_OMIT_DOUBLE_TYPE_PRESERVATION_def)
  show ?thesis using json_round_trip [OF v(1) n, of 0] v(2) by metis
qed

text \<open>Six decimals lose doubles: \<open>1e-7\<close> is written as \<open>0.0\<close>.\<close>

lemma small_double_lost: "WriteWithOptions (DOUBLE (nearest False 1 10000000)) 0 = Some (True, [48, 46, 48])"
  by code_simp

text \<open>A double that is not finite is written as \<open>inf.0\<close> or \<open>nan.0\<close>, and the writer reports success.\<close>

lemma infinite_double_text: "WriteWithOptions (DOUBLE (Infinite False)) 0 = Some (True, [105, 110, 102, 46, 48])"
  by code_simp

section \<open>Escaping arbitrary bytes\<close>

lemma valid_encoding_step:
  assumes "bytes s" "CBU8_NEXT s = Some (c, r)"
  shows "(\<exists>cs. valid_chars cs \<and> s = utf_encode utf8_enc cs)
    \<longleftrightarrow> scalar c \<and> IsValidCharacter c \<and> (\<exists>cs. valid_chars cs \<and> r = utf_encode utf8_enc cs)"
proof
  assume "\<exists>cs. valid_chars cs \<and> s = utf_encode utf8_enc cs"
  then obtain d ds where d: "valid_chars (d # ds)" "s = utf_encode utf8_enc (d # ds)"
    using assms(2) by (metis CBU8_NEXT_Nil list.exhaust option.distinct(1) utf_encode_simps(1))
  then have "c = d" "r = utf_encode utf8_enc ds" using CBU8_NEXT_enc [of d "utf_encode utf8_enc ds"] assms(2) by auto
  then show "scalar c \<and> IsValidCharacter c \<and> (\<exists>cs. valid_chars cs \<and> r = utf_encode utf8_enc cs)" using d(1) by auto
next
  assume r: "scalar c \<and> IsValidCharacter c \<and> (\<exists>cs. valid_chars cs \<and> r = utf_encode utf8_enc cs)"
  then obtain cs where "valid_chars (c # cs)" "r = utf_encode utf8_enc cs" by auto
  moreover have "s = utf8_enc c @ r" using CBU8_NEXT_scalar(2) [OF assms] r by (auto simp: scalar_def)
  ultimately show "\<exists>cs. valid_chars cs \<and> s = utf_encode utf8_enc cs" by (intro exI [of _ "c # cs"]) simp
qed

lemma escape_loop_bytes:
  "bytes str \<Longrightarrow> i \<le> length str \<Longrightarrow> \<exists>cs bad. escape_loop 1 str i dest r = Some (dest @ concat (map esc cs), r \<or> bad) \<and> valid_chars cs
    \<and> (bad \<longleftrightarrow> \<not> (\<exists>cs. valid_chars cs \<and> drop i str = utf_encode utf8_enc cs)) \<and> (\<not> bad \<longrightarrow> drop i str = utf_encode utf8_enc cs)"
proof (induction "length str - i" arbitrary: i dest r rule: less_induct)
  case less
  show ?case
  proof (cases "i = length str")
    case True
    then show ?thesis by (intro exI [of _ "[]"] exI [of _ False]) (auto simp: escape_loop.simps intro: exI [of _ "[]"])
  next
    case False
    then have i: "i < length str" using less.prems(2) by simp
    obtain c rest where c: "CBU8_NEXT (drop i str) = Some (c, rest)" using CBU8_NEXT_total [of "drop i str"] i by auto
    obtain n where n: "rest = drop n (drop i str)" using CBU8_NEXT_drop [OF c] by blast
    define j where "j = length str - length rest"
    have lr: "length rest < length str - i" using CBU8_NEXT_less [OF c] by simp
    have j: "i < j" "j \<le> length str" using lr i by (simp_all add: j_def)
    have jr: "rest = drop j str" using n by (cases "n + i \<le> length str") (simp_all add: j_def)
    have b: "bytes (drop i str)" using less.prems(1) by simp
    have rd: "read_char 1 str i = Some (IsValidCodepoint c, j - 1, c mod 2 ^ 32)" using c by (simp add: read_char_def ReadUnicodeCharacter8_def j_def)
    have v: "IsValidCodepoint c \<longleftrightarrow> scalar c" using CBU8_NEXT_valid [OF b c] .
    have m: "scalar c \<Longrightarrow> c mod 2 ^ 32 = c \<and> c \<noteq> 4294967295" by (auto simp: scalar_def)
    define good where "good \<longleftrightarrow> scalar c \<and> IsValidCharacter c"
    define c' where "c' = (if good then c else kReplacementCodePoint)"
    have c': "scalar c'" "IsValidCharacter c'" by (auto simp: c'_def good_def kReplacementCodePoint_def scalar_def IsValidCharacter_def)
    have e: "escape_loop 1 str i dest r = escape_loop 1 str j (dest @ esc c') (r \<or> \<not> good)"
      using i rd v m j(1) escape_char_append [of c' dest] unfolding escape_loop.simps [of 1 str i]
      by (cases "scalar c") (auto simp: good_def c'_def CBU_SENTINEL_def Let_def)
    obtain cs bad where l: "escape_loop 1 str j (dest @ esc c') (r \<or> \<not> good) = Some ((dest @ esc c') @ concat (map esc cs), (r \<or> \<not> good) \<or> bad)"
      "valid_chars cs" "bad \<longleftrightarrow> \<not> (\<exists>cs. valid_chars cs \<and> rest = utf_encode utf8_enc cs)" "\<not> bad \<longrightarrow> rest = utf_encode utf8_enc cs"
      using less.hyps [OF diff_less_mono2 [OF j(1) i] less.prems(1) j(2), of "dest @ esc c'" "r \<or> \<not> good"] unfolding jr [symmetric] by blast
    have v: "(\<exists>cs. valid_chars cs \<and> drop i str = utf_encode utf8_enc cs) \<longleftrightarrow> good \<and> \<not> bad"
      using valid_encoding_step [OF b c] l(3) by (simp add: good_def)
    have u: "drop i str = utf_encode utf8_enc (c' # cs)" if good "\<not> bad"
      using that l(4) CBU8_NEXT_scalar(2) [OF b c] by (auto simp: c'_def good_def scalar_def)
    have "escape_loop 1 str i dest r = Some (dest @ concat (map esc (c' # cs)), r \<or> (\<not> good \<or> bad))"
      unfolding e l(1) by simp
    moreover have "valid_chars (c' # cs)" using c' l(2) by simp
    moreover have "(\<not> good \<or> bad) \<longleftrightarrow> \<not> (\<exists>cs. valid_chars cs \<and> drop i str = utf_encode utf8_enc cs)" using v by blast
    moreover have "\<not> (\<not> good \<or> bad) \<longrightarrow> drop i str = utf_encode utf8_enc (c' # cs)" using u by blast
    ultimately show ?thesis by blast
  qed
qed

lemma esc_safe:
  assumes "scalar c"
  shows "\<forall>b \<in> set (esc c). 32 \<le> b \<and> b \<noteq> 60"
  using assms
proof (cases rule: esc_cases)
  case (simple e)
  then show ?thesis by (auto simp: simple_escape_def split: if_splits)
next
  case hexed
  have k: "list_all (\<lambda>c. 48 \<le> c \<and> c \<noteq> 60) kHexChars" "length kHexChars = 16" by code_simp+
  have "48 \<le> kHexChars ! nat (x AND 0xf) \<and> kHexChars ! nat (x AND 0xf) \<noteq> 60" for x
  proof -
    have "nat (x mod 16) < 16" using nat_less_iff [of "x mod 16" 16] by simp
    then show ?thesis using k by (simp add: list_all_length)
  qed
  then have "\<forall>b \<in> set (hex4 c). 48 \<le> b \<and> b \<noteq> 60" by (auto simp: hex4_def)
  then show ?thesis using hexed by auto
next
  case plain
  have "c \<noteq> 60" using plain(1) by (auto simp: escape_char_def EscapeSpecialCodePoint_def utf8_enc_def)
  then show ?thesis using plain assms by (auto simp: utf8_enc_def scalar_def)
qed

lemma Read_quoted:
  assumes "valid_chars cs" "int (length (34 # concat (map esc cs) @ [34])) < 2 ^ 31"
  shows "JSONReader_Read (34 # concat (map esc cs) @ [34]) options 1 = Some (Some (STRING (utf_encode utf8_enc cs)))"
proof -
  define input where "input = 34 # concat (map esc cs) @ [34]"
  obtain p where p: "new_parser 1 = Some p" by (auto simp: new_parser_def kStackMaxDepth_def)
  define p0 where "p0 = Parse_reset p"
  have a: "ahead input p0 (34 # concat (map esc cs) @ 34 # [])" by (simp add: p0_def Parse_reset_def ahead_def input_def)
  have bom: "ConsumeIfMatch input [0xEF, 0xBB, 0xBF] p0 = (False, p0)" using no_byte_order_mark [OF a] by simp
  obtain q where q: "GetNextToken input p0 = (T_STRING, q)" "ahead input q (34 # concat (map esc cs) @ 34 # [])"
    using GetNextToken_spaces [of "[]" input p0 "34 # concat (map esc cs) @ 34 # []"] a by (auto simp: next_token_Cons)
  obtain r sb where r: "ConsumeStringRaw input options q = Some (Some sb, r)" "DestructiveAsString input sb = utf_encode utf8_enc cs" "ahead input r []"
    using ConsumeStringRaw_esc [OF assms(1) q(2)] by blast
  obtain r' where "GetNextToken input r = (T_END_OF_INPUT, r')" using GetNextToken_spaces [of "[]" input r "[]"] r(3) by auto
  then have "\<exists>r. Parse options 1 input p = Some (Some (STRING (utf_encode utf8_enc cs)), r)"
    using assms(2) bom q(1) r(1,2) unfolding Parse_def p0_def [symmetric] by (simp add: Let_def ConsumeString_def input_def)
  then show ?thesis using p by (auto simp: JSONReader_Read_def input_def)
qed

text \<open>
  C16: Escaping is safe for any bytes. \<open>EscapeJSONString\<close> never fails a check on a text of less than 2 GiB;
  it tells whether the text is valid UTF-8; and what it writes holds neither a control character nor
  a \<open><\<close>, is valid JSON for the parser, and is read back as the text if that is valid, and as some
  valid text otherwise.
\<close>
theorem json_escape_safe:
  assumes "bytes str" "int (length str) < 2 ^ 31"
  shows "\<exists>ok t str'. EscapeJSONStringImpl 1 str True dest = Some (ok, dest @ t)
    \<and> utf8_all_valid str = Some ok \<and> (\<forall>b \<in> set t. 32 \<le> b \<and> b \<noteq> 60)
    \<and> (int (length t) < 2 ^ 31 \<longrightarrow> JSONReader_Read t options 1 = Some (Some (STRING str'))) \<and> (ok \<longrightarrow> str' = str)"
proof -
  obtain cs bad where l: "escape_loop 1 str 0 (dest @ [34]) False = Some ((dest @ [34]) @ concat (map esc cs), False \<or> bad)" "valid_chars cs"
    "bad \<longleftrightarrow> \<not> (\<exists>cs. valid_chars cs \<and> str = utf_encode utf8_enc cs)" "\<not> bad \<longrightarrow> str = utf_encode utf8_enc cs"
    using escape_loop_bytes [OF assms(1) le0, of "dest @ [34]" False] unfolding drop_0 by blast
  let ?t = "34 # concat (map esc cs) @ [34]" and ?s = "utf_encode utf8_enc cs"
  have e: "EscapeJSONStringImpl 1 str True dest = Some (\<not> bad, dest @ ?t)" using l(1) assms(2) by (simp add: EscapeJSONStringImpl_def)
  have u: "utf8_all_valid str = Some (\<not> bad)" using utf8_all_valid_spec [OF assms(1)] l(3) by simp
  have s: "\<forall>b \<in> set ?t. 32 \<le> b \<and> b \<noteq> 60" using esc_safe l(2) by (fastforce simp: list_all_iff)
  have "JSONReader_Read ?t options 1 = Some (Some (STRING ?s))" if "int (length ?t) < 2 ^ 31"
    using that Read_quoted [OF l(2)] by simp
  then show ?thesis using e u s l(4) by (intro exI [of _ "\<not> bad"] exI [of _ ?t] exI [of _ ?s] conjI impI) simp_all
qed

theorem json_escape_safe_witness:
  "\<exists>ok t str'. EscapeJSONStringImpl 1 [60, 0xFF, 10] True [] = Some (ok, [] @ t)
    \<and> utf8_all_valid [60, 0xFF, 10] = Some ok \<and> (\<forall>b \<in> set t. 32 \<le> b \<and> b \<noteq> 60)
    \<and> (int (length t) < 2 ^ 31 \<longrightarrow> JSONReader_Read t 0 1 = Some (Some (STRING str'))) \<and> (ok \<longrightarrow> str' = [60, 0xFF, 10])"
  by (rule json_escape_safe) simp_all

text \<open>
  A double of \<open>2 ^ 63\<close> written with \<open>OPTIONS_OMIT_DOUBLE_TYPE_PRESERVATION\<close> is undefined: the comparison with the
  greatest \<open>int64_t\<close> is made in \<open>double\<close>, where that limit is \<open>2 ^ 63\<close>, and the conversion that follows
  is out of range. Without the option it is written.
\<close>
theorem write_double_limit_undefined:
  assumes "integral d = Some (2 ^ 63)"
  shows "WriteWithOptions (DOUBLE d) OPTIONS_OMIT_DOUBLE_TYPE_PRESERVATION = None
    \<and> WriteWithOptions (DOUBLE d) 0 = Some (True, real_text d)"
  using assms by (simp add: WriteWithOptions_def new_writer_def write_double_def OPTIONS_OMIT_DOUBLE_TYPE_PRESERVATION_def OPTIONS_PRETTY_PRINT_def
      OPTIONS_OMIT_BINARY_VALUES_def in_range_def nl_max_def)

theorem write_double_limit_undefined_witness:
  "WriteWithOptions (DOUBLE (Finite False (2 ^ 52) 11)) OPTIONS_OMIT_DOUBLE_TYPE_PRESERVATION = None
    \<and> WriteWithOptions (DOUBLE (Finite False (2 ^ 52) 11)) 0 = Some (True, real_text (Finite False (2 ^ 52) 11))"
  by (rule write_double_limit_undefined) (simp add: fl_num_def fl_den_def)

end
