(* ===== verification/Version.thy ===== *)
theory Version
  imports String_Util String_Numbers
begin

text \<open>
  Version numbers, \<open>base/version.cc\<close>: parsing, printing, comparison and wildcards. A version is the list
  of its components; the empty list is the invalid version. \<open>None\<close> is a failed check.
\<close>

section \<open>Parsing and printing\<close>

fun version_numbers :: "bool \<Rightarrow> int list list \<Rightarrow> int list \<Rightarrow> (bool \<times> int list) option" where
  "version_numbers first [] parsed = Some (True, parsed)"
| "version_numbers first (it # numbers) parsed =
     (if StartsWithT it [43] SENSITIVE then Some (False, parsed)
      else do {
        (ok, num) \<leftarrow> StringToUint it;
        if \<not> ok then Some (False, parsed)
        else do {
          bad \<leftarrow> (if first then do { s \<leftarrow> IntToString uint32 num; Some (s \<noteq> it) } else Some False);
          if bad then Some (False, parsed) else version_numbers False numbers (parsed @ [num])
        }
      })"

definition ParseVersionNumbers :: "int list \<Rightarrow> (bool \<times> int list) option" where
  "ParseVersionNumbers version_str = do {
     numbers \<leftarrow> SplitString 1 version_str [46] KEEP_WHITESPACE SPLIT_WANT_ALL;
     if numbers = [] then Some (False, []) else version_numbers True numbers []
   }"

definition Version_of_string :: "int list \<Rightarrow> int list option" where
  "Version_of_string version_str = do {
     (ok, parsed) \<leftarrow> ParseVersionNumbers version_str;
     Some (if ok then parsed else [])
   }"

definition IsValid :: "int list \<Rightarrow> bool" where
  "IsValid components \<longleftrightarrow> components \<noteq> []"

fun GetString :: "int list \<Rightarrow> int list option" where
  "GetString [] = None"
| "GetString [c] = IntToString uint32 c"
| "GetString (c # cs) = do { s \<leftarrow> IntToString uint32 c; rest \<leftarrow> GetString cs; Some (s @ [46] @ rest) }"

section \<open>Comparison\<close>

text \<open>The loops over the common positions and over the rest of the longer list.\<close>

fun CompareVersionComponents :: "int list \<Rightarrow> int list \<Rightarrow> int" where
  "CompareVersionComponents (x # xs) (y # ys) =
     (if x > y then 1 else if x < y then - 1 else CompareVersionComponents xs ys)"
| "CompareVersionComponents (x # xs) [] = (if x > 0 then 1 else CompareVersionComponents xs [])"
| "CompareVersionComponents [] (y # ys) = (if y > 0 then - 1 else CompareVersionComponents [] ys)"
| "CompareVersionComponents [] [] = 0"

definition CompareTo :: "int list \<Rightarrow> int list \<Rightarrow> int option" where
  "CompareTo v other = (if IsValid v \<and> IsValid other then Some (CompareVersionComponents v other) else None)"

definition v_less :: "int list \<Rightarrow> int list \<Rightarrow> bool option" where "v_less v1 v2 = map_option (\<lambda>c. c < 0) (CompareTo v1 v2)"
definition v_equal :: "int list \<Rightarrow> int list \<Rightarrow> bool option" where "v_equal v1 v2 = map_option (\<lambda>c. c = 0) (CompareTo v1 v2)"
definition v_not_equal :: "int list \<Rightarrow> int list \<Rightarrow> bool option" where "v_not_equal v1 v2 = map_option Not (v_equal v1 v2)"
definition v_less_equal :: "int list \<Rightarrow> int list \<Rightarrow> bool option" where "v_less_equal v1 v2 = map_option (\<lambda>c. c \<le> 0) (CompareTo v1 v2)"
definition v_greater_equal :: "int list \<Rightarrow> int list \<Rightarrow> bool option" where "v_greater_equal v1 v2 = map_option (\<lambda>c. c \<ge> 0) (CompareTo v1 v2)"
definition v_greater :: "int list \<Rightarrow> int list \<Rightarrow> bool option" where "v_greater v1 v2 = map_option (\<lambda>c. c > 0) (CompareTo v1 v2)"

definition IsValidWildcardString :: "int list \<Rightarrow> bool option" where
  "IsValidWildcardString wildcard_string =
     (let version_string = (if EndsWithT wildcard_string [46, 42] SENSITIVE
        then take (length wildcard_string - 2) wildcard_string else wildcard_string)
      in do { v \<leftarrow> Version_of_string version_string; Some (IsValid v) })"

fun same_prefix :: "int list \<Rightarrow> int list \<Rightarrow> bool" where
  "same_prefix (x # xs) (y # ys) \<longleftrightarrow> x = y \<and> same_prefix xs ys"
| "same_prefix xs ys \<longleftrightarrow> True"

definition CompareToWildcardString :: "int list \<Rightarrow> int list \<Rightarrow> int option" where
  "CompareToWildcardString v wildcard_string = do {
     ok \<leftarrow> IsValidWildcardString wildcard_string;
     if \<not> (IsValid v \<and> ok) then None
     else if \<not> EndsWithT wildcard_string [46, 42] SENSITIVE then do {
       version \<leftarrow> Version_of_string wildcard_string;
       if IsValid version then CompareTo v version else None
     }
     else do {
       (success, parsed) \<leftarrow> ParseVersionNumbers (take (length wildcard_string - 2) wildcard_string);
       if \<not> success then None
       else
         let comparison = CompareVersionComponents v parsed in
         if comparison = - 1 \<or> comparison = 0 then Some comparison
         else if \<not> 0 < length parsed then None
         else Some (if same_prefix v parsed then 0 else 1)
     }
   }"

section \<open>Printed versions are read back\<close>

lemma uint_text:
  assumes "in_range uint32 c"
  obtains s where "IntToString uint32 c = Some s" "StringToUint s = Some (True, c)" "s \<noteq> []" "46 \<notin> set s" "hd s \<noteq> 43" "bytes s"
proof -
  have c: "0 \<le> c" using assms by (simp add: ctype_defs)
  have s: "IntToString uint32 c = Some (dec c)" using IntToString_dec [of uint32 c] assms c by simp
  have d: "\<forall>x \<in> set (dec c). 48 \<le> x \<and> x \<le> 57" using c
  proof (induction c rule: dec.induct)
    case (1 n)
    then show ?case by (cases "n < 10") (auto simp: dec.simps [of n] intro: order_trans [of _ 0])
  qed
  moreover have "dec c \<noteq> []" using dec_hd [OF c] by simp
  moreover have "hd (dec c) \<noteq> 43" using dec_hd [OF c] by auto
  moreover have "StringToUint (dec c) = Some (True, c)" using printed_number_read [of uint32 c] assms s by (simp add: StringToUint_def)
  moreover have "46 \<notin> set (dec c)" "bytes (dec c)" using d by (auto simp: bytes_def)
  ultimately show ?thesis using s that by blast
qed

abbreviation texts :: "int list \<Rightarrow> int list list \<Rightarrow> bool" where
  "texts \<equiv> list_all2 (\<lambda>c t. IntToString uint32 c = Some t)"

lemma GetString_Join:
  "v \<noteq> [] \<Longrightarrow> \<forall>c \<in> set v. in_range uint32 c \<Longrightarrow> \<exists>parts. texts v parts \<and> GetString v = Some (JoinStringT parts [46])"
proof (induction v rule: GetString.induct)
  case (2 c)
  obtain s where "IntToString uint32 c = Some s" using 2(2) by (auto intro: uint_text)
  then show ?case by (intro exI [of _ "[s]"]) simp
next
  case (3 c d cs)
  obtain s where s: "IntToString uint32 c = Some s" using 3(3) by (auto intro: uint_text)
  obtain parts where p: "texts (d # cs) parts" "GetString (d # cs) = Some (JoinStringT parts [46])" using 3(1) [OF s] 3(3) by auto
  have "parts \<noteq> []" using p(1) by auto
  then show ?case using s p by (intro exI [of _ "s # parts"]) (simp add: Join_ne)
qed simp

lemma version_numbers_texts:
  "texts v parts \<Longrightarrow> \<forall>c \<in> set v. in_range uint32 c \<Longrightarrow> version_numbers first parts parsed = Some (True, parsed @ v)"
proof (induction v parts arbitrary: first parsed rule: list_all2_induct)
  case (Cons c v s parts)
  have c: "in_range uint32 c" using Cons.prems by simp
  obtain t where t: "IntToString uint32 c = Some t" "StringToUint t = Some (True, c)" "hd t \<noteq> 43" "t \<noteq> []" using uint_text [OF c] by metis
  then have r: "StringToUint s = Some (True, c)" "hd s \<noteq> 43" "s \<noteq> []" using Cons.hyps(1) by auto
  have "\<not> StartsWithT s [43] SENSITIVE" using r(2,3) by (cases s) (simp_all add: StartsWithT_def sp_equal_def sp_substr_def Let_def)
  then show ?case using r Cons.hyps(1) Cons.IH [of False "parsed @ [c]"] Cons.prems by simp
qed simp

lemma bytes_Join: "\<forall>x \<in> set parts. bytes x \<Longrightarrow> bytes (JoinStringT parts [46])"
proof (induction parts)
  case (Cons p ps)
  then show ?case by (cases "ps = []") (simp_all add: Join_ne)
qed simp

lemma texts_free:
  assumes "texts v parts" "\<forall>c \<in> set v. in_range uint32 c" "x \<in> set parts"
  shows "46 \<notin> set x \<and> x \<noteq> [] \<and> bytes x"
proof -
  obtain i where i: "i < length parts" "x = parts ! i" using assms(3) by (auto simp: in_set_conv_nth)
  define c where "c = v ! i"
  have "c \<in> set v" "IntToString uint32 c = Some x" using i assms(1) by (auto simp: list_all2_conv_all_nth c_def)
  then show ?thesis using uint_text [of c] assms(2) by (metis option.inject)
qed

lemma parse_GetString:
  assumes "v \<noteq> []" "\<forall>c \<in> set v. in_range uint32 c" "GetString v = Some s" "length s < npos"
  shows "ParseVersionNumbers s = Some (True, v)"
proof -
  obtain parts where p: "texts v parts" "s = JoinStringT parts [46]" using GetString_Join [OF assms(1,2)] assms(3) by auto
  note t = texts_free [OF p(1) assms(2)]
  have ne: "parts \<noteq> []" using assms(1) p(1) by auto
  have "s \<noteq> []" using ne t [of "hd parts"] p(2) by (cases parts; cases "tl parts") (auto simp: Join_ne)
  moreover have "splits (\<lambda>x. x = 46) s = parts" unfolding p(2) using t by (intro splits_Join [OF ne]) auto
  moreover have "bytes s" using bytes_Join t p(2) by auto
  ultimately have "SplitString 1 s [46] KEEP_WHITESPACE SPLIT_WANT_ALL = Some parts"
    using SplitString_kept [of s 1 "[46]" KEEP_WHITESPACE SPLIT_WANT_ALL] assms(4) by simp
  then show ?thesis using version_numbers_texts [OF p(1) assms(2)] ne by (simp add: ParseVersionNumbers_def)
qed

section \<open>The order\<close>

text \<open>The components of a version, padded with zeros.\<close>

definition padded :: "int list \<Rightarrow> nat \<Rightarrow> int" where
  "padded v i = (if i < length v then v ! i else 0)"

lemma padded_simps [simp]: "padded [] i = 0" "padded (c # v) 0 = c" "padded (c # v) (Suc i) = padded v i"
  by (simp_all add: padded_def)

lemma less_Suc_all: "(\<forall>j < Suc i. P j) \<longleftrightarrow> P 0 \<and> (\<forall>j < i. P (Suc j))"
  by (auto simp: less_Suc_eq_0_disj)

definition lex_below :: "int list \<Rightarrow> int list \<Rightarrow> bool" where
  "lex_below v u \<longleftrightarrow> (\<exists>i. padded v i < padded u i \<and> (\<forall>j < i. padded v j = padded u j))"

lemma Compare_lex:
  assumes "\<forall>c \<in> set v. 0 \<le> c" "\<forall>c \<in> set u. 0 \<le> c"
  shows "CompareVersionComponents v u = (if lex_below v u then - 1 else if lex_below u v then 1 else 0)"
    and "\<not> (lex_below v u \<and> lex_below u v)"
    and "\<not> lex_below v u \<and> \<not> lex_below u v \<longleftrightarrow> (\<forall>i. padded v i = padded u i)"
proof -
  have step: "lex_below v u \<longleftrightarrow> padded v 0 < padded u 0 \<or> padded v 0 = padded u 0 \<and> lex_below (tl v) (tl u)" for v u
  proof -
    have split: "Ex Q \<longleftrightarrow> Q 0 \<or> Ex (Q \<circ> Suc)" for Q by (metis comp_apply not0_implies_Suc)
    show ?thesis unfolding lex_below_def split [of "\<lambda>i. padded v i < padded u i \<and> (\<forall>j < i. padded v j = padded u j)"]
      by (cases v; cases u) (auto simp: less_Suc_all)
  qed
  have zero: "\<not> lex_below [] []" by (simp add: lex_below_def)
  show "CompareVersionComponents v u = (if lex_below v u then - 1 else if lex_below u v then 1 else 0)"
    using assms by (induction v u rule: CompareVersionComponents.induct) (simp_all add: step [of "_ # _"] step [of "[]" "_ # _"] zero)
  show "\<not> (lex_below v u \<and> lex_below u v)"
    unfolding lex_below_def by (metis linorder_neqE_nat order_less_asym less_irrefl)
  show "\<not> lex_below v u \<and> \<not> lex_below u v \<longleftrightarrow> (\<forall>i. padded v i = padded u i)"
  proof
    assume n: "\<not> lex_below v u \<and> \<not> lex_below u v"
    show "\<forall>i. padded v i = padded u i"
    proof
      fix i show "padded v i = padded u i"
      proof (induction i rule: less_induct)
        case (less i)
        then show ?case using n unfolding lex_below_def by (metis linorder_neqE)
      qed
    qed
  qed (simp add: lex_below_def)
qed

text \<open>What \<open>.*\<close> at the end of a string is cut to.\<close>

lemma EndsWith_wildcard: "EndsWithT (s @ [46, 42]) [46, 42] SENSITIVE"
  by (simp add: EndsWithT_def sp_substr_eq sp_equal_def traits_compare_0 Let_def)

lemma same_prefix_comp: "same_prefix v u \<longleftrightarrow> (\<forall>i < min (length v) (length u). v ! i = u ! i)"
  by (induction v u rule: same_prefix.induct) (auto simp: less_Suc_eq_0_disj)

lemma Compare_1_prefix:
  assumes "\<forall>c \<in> set v. 0 \<le> c" "\<forall>c \<in> set u. 0 \<le> c" "CompareVersionComponents v u = 1"
  shows "same_prefix v u \<longleftrightarrow> (\<forall>i < length u. padded v i = u ! i)"
  using assms
proof (induction v u rule: CompareVersionComponents.induct)
  case (1 x xs y ys)
  then show ?case by (auto simp: less_Suc_eq_0_disj split: if_splits)
next
  case (3 y ys)
  have "CompareVersionComponents [] ys \<noteq> 1" for ys by (induction ys) auto
  then show ?case using 3 by (auto split: if_splits)
qed auto

lemma Compare_not_1_prefix:
  assumes "\<forall>c \<in> set v. 0 \<le> c" "\<forall>c \<in> set u. 0 \<le> c"
  shows "CompareVersionComponents v u = 0 \<Longrightarrow> \<forall>i < length u. padded v i = u ! i"
    and "CompareVersionComponents v u = - 1 \<Longrightarrow> \<exists>i < length u. padded v i \<noteq> u ! i"
proof -
  assume "CompareVersionComponents v u = 0"
  then have "\<forall>i. padded v i = padded u i" using Compare_lex(1,3) [OF assms] by (auto split: if_splits)
  then show "\<forall>i < length u. padded v i = u ! i" by (simp add: padded_def)
next
  assume "CompareVersionComponents v u = - 1"
  then obtain i where i: "padded v i < padded u i" using Compare_lex(1) [OF assms] by (auto simp: lex_below_def split: if_splits)
  have "0 \<le> padded v i" using assms(1) by (simp add: padded_def)
  then show "\<exists>i < length u. padded v i \<noteq> u ! i" using i by (intro exI [of _ i]) (auto simp: padded_def split: if_splits)
qed

abbreviation version :: "int list \<Rightarrow> bool" where
  "version v \<equiv> v \<noteq> [] \<and> (\<forall>c \<in> set v. in_range uint32 c)"

text \<open>
  C20: Versions. What \<open>GetString\<close> prints is parsed as the same version. \<open>CompareTo\<close> is the lexicographic order
  of the components padded with zeros, so \<open>1.2\<close> and \<open>1.2.0\<close> are equal and the result changes sign when
  the arguments are swapped. Against a version followed by \<open>.*\<close> the result is 0 exactly when the version,
  padded with zeros, starts with it, and that of the plain comparison otherwise.
\<close>
theorem version_comparison:
  assumes "version v" "version u" "GetString u = Some s" "length s + 2 < npos"
  shows "Version_of_string s = Some u
    \<and> CompareTo v u = Some (if lex_below v u then - 1 else if lex_below u v then 1 else 0)
    \<and> (CompareTo v u = Some 0 \<longleftrightarrow> (\<forall>i. padded v i = padded u i)) \<and> CompareTo u v = map_option uminus (CompareTo v u)
    \<and> CompareToWildcardString v (s @ [46, 42]) = (if \<forall>i < length u. padded v i = u ! i then Some 0 else CompareTo v u)"
proof -
  have nn: "\<forall>c \<in> set v. 0 \<le> c" "\<forall>c \<in> set u. 0 \<le> c" using assms(1,2) by (auto simp: ctype_defs)
  have p: "ParseVersionNumbers s = Some (True, u)" using parse_GetString [of u s] assms(2-4) by simp
  then have vs: "Version_of_string s = Some u" by (simp add: Version_of_string_def)
  let ?c = "CompareVersionComponents v u"
  have c: "CompareTo v u = Some ?c" "CompareTo u v = Some (CompareVersionComponents u v)" using assms(1,2) by (simp_all add: CompareTo_def IsValid_def)
  note l = Compare_lex [OF nn] and l' = Compare_lex(1) [OF nn(2,1)]
  have z: "?c = 0 \<longleftrightarrow> (\<forall>i. padded v i = padded u i)" using l by auto
  have sw: "CompareVersionComponents u v = - ?c" using l(2) unfolding l(1) l' by auto
  have w: "CompareToWildcardString v (s @ [46, 42]) = (if ?c = - 1 \<or> ?c = 0 then Some ?c else Some (if same_prefix v u then 0 else 1))"
    using EndsWith_wildcard [of s] p vs assms(1,2)
    by (simp add: CompareToWildcardString_def IsValidWildcardString_def IsValid_def Let_def)
  have cs: "?c = - 1 \<or> ?c = 0 \<or> ?c = 1" unfolding l(1) by auto
  have "CompareToWildcardString v (s @ [46, 42]) = (if \<forall>i < length u. padded v i = u ! i then Some 0 else CompareTo v u)"
    using cs
  proof (elim disjE)
    assume a: "?c = - 1"
    then show ?thesis using w c(1) Compare_not_1_prefix(2) [OF nn a] by auto
  next
    assume a: "?c = 0"
    then show ?thesis using w c(1) Compare_not_1_prefix(1) [OF nn a] by simp
  next
    assume a: "?c = 1"
    then show ?thesis using w c(1) Compare_1_prefix [OF nn a] by simp
  qed
  then show ?thesis using vs c l(1) z sw by simp
qed

theorem version_comparison_witness:
  "Version_of_string [49, 46, 50] = Some [1, 2] \<and> CompareTo [1, 2, 3] [1, 2] = Some 1
    \<and> CompareToWildcardString [1, 2, 3] ([49, 46, 50] @ [46, 42]) = Some 0"
proof -
  have s: "GetString [1, 2] = Some [49, 46, 50]" by code_simp
  have "version [1, 2, 3]" "version [1, 2]" "length [49, 46, 50 :: int] + 2 < npos" by (simp_all add: ctype_defs npos_def)
  from version_comparison [OF this(1,2) s this(3)] show ?thesis by (simp add: CompareTo_def IsValid_def less_Suc_eq_0_disj)
qed

text \<open>
  The header says that a component is limited to \<open>uint16_t\<close>; the parser takes every \<open>uint32_t\<close>.
\<close>
lemma version_component_limit: "Version_of_string [54, 53, 53, 51, 54] = Some [65536]"
proof -
  have "GetString [65536] = Some [54, 53, 53, 51, 54]" by code_simp
  then show ?thesis using parse_GetString [of "[65536]" "[54, 53, 53, 51, 54]"] by (simp add: Version_of_string_def ctype_defs npos_def)
qed

end
