(* ===== verification/File_Path.thy ===== *)
theory File_Path
  imports String_Util
begin

text \<open>
  Paths, \<open>base/files/file_path.cc\<close>, as it is compiled on POSIX: one separator, no drive letters. A path
  is the list of its bytes. Positions are integers, and \<open>npos\<close> is -1, as the comments of the source
  have it: adding 1 or 2 to it gives 0 or 1. \<open>None\<close> is a failed check.
\<close>

section \<open>Helpers\<close>

definition kSeparators :: "int list" where "kSeparators = [47]"
definition kCurrentDirectory :: "int list" where "kCurrentDirectory = [46]"
definition kParentDirectory :: "int list" where "kParentDirectory = [46, 46]"
definition kExtensionSeparator :: int where "kExtensionSeparator = 46"
definition kStringTerminator :: int where "kStringTerminator = 0"

definition kCommonDoubleExtensionSuffixes :: "int list list" where
  "kCommonDoubleExtensionSuffixes = [[103, 122], [122], [98, 122, 50], [98, 122]]"
definition kCommonDoubleExtensions :: "int list list" where
  "kCommonDoubleExtensions = [[117, 115, 101, 114, 46, 106, 115]]"

definition no_pos :: int where "no_pos = - 1"

text \<open>\<open>rfind\<close> and \<open>find_last_of\<close> of the standard library: the last position below \<open>n\<close> that fits.\<close>

fun last_pos :: "(int \<Rightarrow> bool) \<Rightarrow> int list \<Rightarrow> nat \<Rightarrow> int" where
  "last_pos P s 0 = no_pos"
| "last_pos P s (Suc n) = (if P (s ! n) then int n else last_pos P s n)"

definition contains :: "int list \<Rightarrow> int list \<Rightarrow> bool" where
  "contains s d \<longleftrightarrow> list_ex (matches_at s d) [0..<length s + 1]"

definition FindDriveLetter :: "int list \<Rightarrow> int" where
  "FindDriveLetter path = no_pos"

definition IsSeparator :: "int \<Rightarrow> bool" where
  "IsSeparator character \<longleftrightarrow> list_ex (\<lambda>s. character = s) kSeparators"

definition IsPathAbsolute :: "int list \<Rightarrow> bool" where
  "IsPathAbsolute path \<longleftrightarrow> length path > 0 \<and> IsSeparator (path ! 0)"

definition AreAllSeparators :: "int list \<Rightarrow> bool" where
  "AreAllSeparators input \<longleftrightarrow> list_all IsSeparator input"

definition FinalExtensionSeparatorPosition :: "int list \<Rightarrow> int" where
  "FinalExtensionSeparatorPosition path =
     (if path = kCurrentDirectory \<or> path = kParentDirectory then no_pos
      else last_pos (\<lambda>c. c = kExtensionSeparator) path (length path))"

definition ExtensionSeparatorPosition :: "int list \<Rightarrow> int" where
  "ExtensionSeparatorPosition path =
     (let last_dot = FinalExtensionSeparatorPosition path in
      if last_dot = no_pos \<or> last_dot = 0 then last_dot
      else
        let penultimate_dot = last_pos (\<lambda>c. c = kExtensionSeparator) path (nat last_dot);
            last_separator = last_pos IsSeparator path (nat last_dot) in
        if penultimate_dot = no_pos \<or> last_separator \<noteq> no_pos \<and> penultimate_dot < last_separator then last_dot
        else if list_ex (DoLowerCaseEqualsASCII (drop (nat (penultimate_dot + 1)) path)) kCommonDoubleExtensions then penultimate_dot
        else if list_ex (\<lambda>e. DoLowerCaseEqualsASCII (drop (nat (last_dot + 1)) path) e
            \<and> last_dot - penultimate_dot \<le> 5 \<and> last_dot - penultimate_dot > 1) kCommonDoubleExtensionSuffixes
        then penultimate_dot
        else last_dot)"

definition IsEmptyOrSpecialCase :: "int list \<Rightarrow> bool" where
  "IsEmptyOrSpecialCase path \<longleftrightarrow> path = [] \<or> path = kCurrentDirectory \<or> path = kParentDirectory"

text \<open>The constructor: the path ends at the first terminator.\<close>

definition FilePath :: "int list \<Rightarrow> int list" where
  "FilePath path = takeWhile (\<lambda>c. c \<noteq> kStringTerminator) path"

section \<open>Directory and base name\<close>

fun strip_loop :: "nat \<Rightarrow> int list \<Rightarrow> nat \<Rightarrow> int \<Rightarrow> int list" where
  "strip_loop start path 0 last_stripped = path"
| "strip_loop start path (Suc pos) last_stripped =
     (if Suc pos > start \<and> IsSeparator (path ! pos) then
        if Suc pos \<noteq> start + 1 \<or> last_stripped = int start + 2 \<or> \<not> IsSeparator (path ! (start - 1))
        then strip_loop start (take pos path) pos (int pos + 1)
        else strip_loop start path pos last_stripped
      else path)"

definition StripTrailingSeparatorsInternal :: "int list \<Rightarrow> int list" where
  "StripTrailingSeparatorsInternal path = strip_loop (nat (FindDriveLetter path + 2)) path (length path) no_pos"

definition DirName :: "int list \<Rightarrow> int list" where
  "DirName path =
     (let new_path = StripTrailingSeparatorsInternal (FilePath path);
          letter = FindDriveLetter new_path;
          last_separator = last_pos IsSeparator new_path (length new_path);
          new_path =
            (if last_separator = no_pos then take (nat (letter + 1)) new_path
             else if last_separator = letter + 1 then take (nat (letter + 2)) new_path
             else if last_separator = letter + 2 \<and> IsSeparator (new_path ! nat (letter + 1)) then take (nat (letter + 3)) new_path
             else if last_separator \<noteq> 0 then take (nat last_separator) new_path
             else new_path);
          new_path = StripTrailingSeparatorsInternal new_path
      in if length new_path = 0 then kCurrentDirectory else new_path)"

definition BaseName :: "int list \<Rightarrow> int list" where
  "BaseName path =
     (let new_path = StripTrailingSeparatorsInternal (FilePath path);
          letter = FindDriveLetter new_path;
          new_path = (if letter \<noteq> no_pos then drop (nat (letter + 1)) new_path else new_path);
          last_separator = last_pos IsSeparator new_path (length new_path)
      in if last_separator \<noteq> no_pos \<and> last_separator < int (length new_path) - 1
         then drop (nat (last_separator + 1)) new_path else new_path)"

section \<open>Extensions\<close>

definition Extension :: "int list \<Rightarrow> int list" where
  "Extension path =
     (let base = BaseName path; dot = ExtensionSeparatorPosition base in
      if dot = no_pos then [] else drop (nat dot) base)"

definition FinalExtension :: "int list \<Rightarrow> int list" where
  "FinalExtension path =
     (let base = BaseName path; dot = FinalExtensionSeparatorPosition base in
      if dot = no_pos then [] else drop (nat dot) base)"

definition RemoveExtension :: "int list \<Rightarrow> int list" where
  "RemoveExtension path =
     (if Extension path = [] then path
      else let dot = ExtensionSeparatorPosition path in
        if dot = no_pos then path else FilePath (take (nat dot) path))"

definition RemoveFinalExtension :: "int list \<Rightarrow> int list" where
  "RemoveFinalExtension path =
     (if FinalExtension path = [] then path
      else let dot = FinalExtensionSeparatorPosition path in
        if dot = no_pos then path else FilePath (take (nat dot) path))"

definition InsertBeforeExtension :: "int list \<Rightarrow> int list \<Rightarrow> int list" where
  "InsertBeforeExtension path suffix =
     (if suffix = [] then FilePath path
      else if IsEmptyOrSpecialCase (BaseName path) then []
      else FilePath (RemoveExtension path @ suffix @ Extension path))"

definition AddExtension :: "int list \<Rightarrow> int list \<Rightarrow> int list" where
  "AddExtension path extension =
     (if IsEmptyOrSpecialCase (BaseName path) then []
      else if extension = [] \<or> length extension = 1 \<and> extension ! 0 = kExtensionSeparator then path
      else FilePath (path
        @ (if extension ! 0 \<noteq> kExtensionSeparator \<and> last path \<noteq> kExtensionSeparator then [kExtensionSeparator] else [])
        @ extension))"

definition ReplaceExtension :: "int list \<Rightarrow> int list \<Rightarrow> int list" where
  "ReplaceExtension path extension =
     (if IsEmptyOrSpecialCase (BaseName path) then []
      else
        let no_ext = RemoveExtension path in
        if extension = [] \<or> length extension = 1 \<and> extension ! 0 = kExtensionSeparator then no_ext
        else FilePath (no_ext @ (if extension ! 0 \<noteq> kExtensionSeparator then [kExtensionSeparator] else []) @ extension))"

text \<open>\<open>strcasecmp\<close> of the C locale compares up to the terminator, in lower case.\<close>

definition CompareIgnoreCase :: "int list \<Rightarrow> int list \<Rightarrow> int" where
  "CompareIgnoreCase string1 string2 =
     (let comparison = sp_compare (map ToLowerASCII (FilePath string1)) (map ToLowerASCII (FilePath string2)) in
      if comparison < 0 then - 1 else if comparison > 0 then 1 else 0)"

definition MatchesExtension :: "int list \<Rightarrow> int list \<Rightarrow> bool option" where
  "MatchesExtension path extension =
     (if \<not> (extension = [] \<or> extension ! 0 = kExtensionSeparator) then None
      else Some (let current_extension = Extension path in
        if length current_extension \<noteq> length extension then False else CompareIgnoreCase extension current_extension = 0))"

section \<open>Appending and separators\<close>

definition Append :: "int list \<Rightarrow> int list \<Rightarrow> int list option" where
  "Append path component =
     (let appended = FilePath component in
      if IsPathAbsolute appended then None
      else if path = kCurrentDirectory \<and> appended \<noteq> [] then Some (FilePath appended)
      else
        let new_path = StripTrailingSeparatorsInternal (FilePath path);
            new_path = (if appended \<noteq> [] \<and> new_path \<noteq> [] \<and> \<not> IsSeparator (last new_path)
              \<and> FindDriveLetter new_path + 1 \<noteq> int (length new_path) then new_path @ [kSeparators ! 0] else new_path)
        in Some (new_path @ appended))"

definition IsAbsolute :: "int list \<Rightarrow> bool" where
  "IsAbsolute path = IsPathAbsolute path"

definition EndsWithSeparator :: "int list \<Rightarrow> bool" where
  "EndsWithSeparator path \<longleftrightarrow> (if path = [] then False else IsSeparator (last path))"

definition AsEndingWithSeparator :: "int list \<Rightarrow> int list" where
  "AsEndingWithSeparator path = (if EndsWithSeparator path \<or> path = [] then path else FilePath (path @ [kSeparators ! 0]))"

definition StripTrailingSeparators :: "int list \<Rightarrow> int list" where
  "StripTrailingSeparators path = StripTrailingSeparatorsInternal (FilePath path)"

definition NormalizePathSeparators :: "int list \<Rightarrow> int list" where
  "NormalizePathSeparators path = path"

section \<open>Stripping separators\<close>

lemma IsSeparator_iff [simp]: "IsSeparator c \<longleftrightarrow> c = 47"
  by (simp add: IsSeparator_def kSeparators_def)

lemma FindDriveLetter_eq [simp]: "FindDriveLetter path = - 1"
  by (simp add: FindDriveLetter_def no_pos_def)

abbreviation seps :: "nat \<Rightarrow> int list" where "seps n \<equiv> replicate n 47"

text \<open>A path is made of separators only, or has a last name \<open>b\<close>, after \<open>d\<close> and before more separators.\<close>

lemma path_cases:
  obtains (seps) n where "p = seps n"
  | (name) d b n where "p = d @ b @ seps n" "b \<noteq> []" "47 \<notin> set b" "d = [] \<or> last d = 47"
proof -
  define t where "t = takeWhile (\<lambda>c. c = 47) (rev p)"
  define r where "r = dropWhile (\<lambda>c. c = 47) (rev p)"
  define b where "b = rev (takeWhile (\<lambda>c. c \<noteq> 47) r)"
  define d where "d = rev (dropWhile (\<lambda>c. c \<noteq> 47) r)"
  have t: "t = seps (length t)" by (metis (mono_tags, lifting) replicate_length_same set_takeWhileD t_def)
  have "rev p = t @ r" by (simp add: t_def r_def)
  then have p: "p = rev r @ rev t" by (metis rev_append rev_rev_ident)
  have r: "rev r = d @ b" by (simp add: b_def d_def rev_append [symmetric])
  have p': "p = d @ b @ seps (length t)" using p r t by (metis append_assoc rev_replicate)
  have "47 \<notin> set b" by (auto simp: b_def dest: set_takeWhileD)
  moreover have "d = [] \<or> last d = 47" unfolding d_def last_rev using hd_dropWhile [of "\<lambda>c. c \<noteq> 47" r] by auto
  moreover have "b = [] \<Longrightarrow> r = []" using hd_dropWhile [of "\<lambda>c. c = 47" "rev p"] unfolding b_def r_def [symmetric] by (cases r) auto
  ultimately show ?thesis using seps name p p' t r by (metis append_Nil rev.simps(1) rev_replicate)
qed

lemma strip_loop_name:
  "b \<noteq> [] \<Longrightarrow> 47 \<notin> set b \<Longrightarrow> strip_loop 1 (d @ b @ seps n) (length (d @ b) + n) ls = d @ b"
proof (induction n arbitrary: ls)
  case 0
  then obtain b' c where b: "b = b' @ [c]" "c \<noteq> 47" by (cases b rule: rev_cases) auto
  then show ?case by (simp add: nth_append)
next
  case (Suc n)
  let ?m = "length (d @ b) + n" and ?p = "d @ b @ seps (Suc n)"
  have at: "?p ! ?m = 47" by (simp add: nth_append del: replicate_Suc)
  have first: "?m = 1 \<Longrightarrow> ?p ! 0 \<noteq> 47"
  proof -
    assume "?m = 1"
    then have "d = []" "length b = 1" using Suc.prems(1) by (cases d; cases b; simp)+
    then show "?p ! 0 \<noteq> 47" using Suc.prems(2) by (cases b) auto
  qed
  have m: "0 < ?m" using Suc.prems(1) by simp
  have "take ?m ?p = d @ b @ seps n" by (simp add: take_replicate del: replicate_Suc)
  moreover have "strip_loop 1 ?p (Suc ?m) ls = strip_loop 1 (take ?m ?p) ?m (int ?m + 1)"
    using at first m by (auto simp del: take_append)
  ultimately show ?case using Suc.IH [of "int ?m + 1"] Suc.prems by simp
qed

lemma strip_name: "b \<noteq> [] \<Longrightarrow> 47 \<notin> set b \<Longrightarrow> StripTrailingSeparatorsInternal (d @ b @ seps n) = d @ b"
  using strip_loop_name [of b d n no_pos] by (simp add: StripTrailingSeparatorsInternal_def add.assoc)

lemma strip_loop_seps: "2 \<le> n \<Longrightarrow> (n = 2 \<Longrightarrow> ls = 3) \<Longrightarrow> strip_loop 1 (seps n) n ls = [47]"
proof (induction n arbitrary: ls)
  case (Suc n)
  show ?case
  proof (cases "n = 1")
    case True
    then show ?thesis using Suc.prems by simp
  next
    case False
    then have "strip_loop 1 (seps (Suc n)) (Suc n) ls = strip_loop 1 (seps n) n (int n + 1)" using Suc.prems(1) by (simp add: take_replicate del: replicate_Suc)
    then show ?thesis using Suc.IH [of "int n + 1"] False Suc.prems(1) by simp
  qed
qed simp

lemma strip_seps: "StripTrailingSeparatorsInternal (seps n) = (if n = 0 then [] else if n = 2 then [47, 47] else [47])"
proof -
  consider "n = 0" | "n = 1" | "n = 2" | "3 \<le> n" by linarith
  then show ?thesis
  proof cases
    case 4
    then show ?thesis using strip_loop_seps [of n no_pos] by (simp add: StripTrailingSeparatorsInternal_def no_pos_def)
  qed (simp_all add: StripTrailingSeparatorsInternal_def no_pos_def numeral_2_eq_2)
qed

lemma strip_ne: "p \<noteq> [] \<Longrightarrow> StripTrailingSeparatorsInternal p \<noteq> []"
proof (cases p rule: path_cases)
  case (seps n)
  moreover assume "p \<noteq> []"
  ultimately show ?thesis by (simp add: strip_seps)
next
  case (name d b n)
  then show ?thesis by (simp add: strip_name)
qed

lemma butlast_seps: "0 < k \<Longrightarrow> butlast (xs @ seps k) = xs @ seps (k - 1)"
proof (cases k)
  case (Suc j)
  have "seps (Suc j) = seps j @ [47]" by (induction j) auto
  then show ?thesis using Suc by (simp add: butlast_append)
qed simp

section \<open>What directory and base name are\<close>

lemma FilePath_id: "0 \<notin> set p \<Longrightarrow> FilePath p = p"
  by (auto simp: FilePath_def kStringTerminator_def takeWhile_eq_all_conv)

lemma last_pos_cut: "m \<le> length d \<Longrightarrow> last_pos P (d @ b) m = last_pos P d m"
  by (induction m) (auto simp: nth_append)

lemma last_pos_append: "\<forall>c \<in> set b. \<not> P c \<Longrightarrow> n \<le> length b \<Longrightarrow> last_pos P (d @ b) (length d + n) = last_pos P d (length d)"
proof (induction n)
  case 0
  then show ?case by (simp add: last_pos_cut)
next
  case (Suc n)
  then have "\<not> P (b ! n)" by simp
  then show ?case using Suc by (simp add: nth_append)
qed

lemma last_pos_last: "d \<noteq> [] \<Longrightarrow> P (last d) \<Longrightarrow> last_pos P d (length d) = int (length d) - 1"
  by (cases d rule: rev_cases) (simp_all add: nth_append)

lemma last_sep:
  assumes "47 \<notin> set b" "d = [] \<or> last d = 47"
  shows "last_pos IsSeparator (d @ b) (length (d @ b)) = int (length d) - 1"
  using last_pos_append [of b IsSeparator "length b" d] last_pos_last [of d IsSeparator] assms by (cases "d = []") (auto simp: no_pos_def)

lemma BaseName_name:
  assumes "0 \<notin> set p" "p = d @ b @ seps n" "b \<noteq> []" "47 \<notin> set b" "d = [] \<or> last d = 47"
  shows "BaseName p = b"
  using assms FilePath_id [of p] strip_name [of b d n] last_sep [of b d]
  by (cases d) (auto simp: BaseName_def Let_def no_pos_def nat_add_distrib)

lemma BaseName_seps: "BaseName (seps n) = StripTrailingSeparatorsInternal (seps n)"
  using FilePath_id [of "seps n"] by (auto simp: BaseName_def Let_def no_pos_def strip_seps)

text \<open>The directory of a path that has a name: what precedes the name, without its separators.\<close>

lemma DirName_name:
  assumes "0 \<notin> set p" "p = d @ b @ seps n" "b \<noteq> []" "47 \<notin> set b" "d = [] \<or> last d = 47"
  shows "DirName p = (if d = [] then [46] else if length d \<le> 2 \<and> d ! 0 = 47 then d else StripTrailingSeparatorsInternal (butlast d))"
proof -
  have fp: "FilePath p = p" using assms(1) by (rule FilePath_id)
  have st: "StripTrailingSeparatorsInternal p = d @ b" unfolding assms(2) using assms(3,4) by (rule strip_name)
  note ls = last_sep [OF assms(4,5)]
  have strip0: "StripTrailingSeparatorsInternal [] = []" using strip_seps [of 0] by simp
  consider "d = []" | "length d = 1" | "length d = 2" "d ! 0 = 47" | "length d = 2" "d ! 0 \<noteq> 47" | "3 \<le> length d"
    by (cases d; cases "tl d"; cases "tl (tl d)") auto
  then show ?thesis
  proof cases
    case 1
    then show ?thesis using fp st ls by (simp add: DirName_def Let_def no_pos_def strip0 kCurrentDirectory_def)
  next
    case 2
    then have "d = [47]" using assms(5) by (cases d) auto
    then show ?thesis using fp st ls strip_seps [of 1] by (simp add: DirName_def Let_def no_pos_def)
  next
    case 3
    then have "d = [47, 47]" using assms(5) by (cases d; cases "tl d") auto
    then show ?thesis using fp st ls strip_seps [of 2] by (simp add: DirName_def Let_def no_pos_def numeral_2_eq_2)
  next
    case 4
    then obtain x where d: "d = [x, 47]" "x \<noteq> 47" using assms(5) by (cases d; cases "tl d") auto
    then show ?thesis using fp st ls strip_name [of "[x]" "[]" 0] by (simp add: DirName_def Let_def no_pos_def)
  next
    case 5
    have "nat (int (length d) - 1) = length d - 1" by simp
    then have "take (nat (int (length d) - 1)) (d @ b) = butlast d" by (simp add: butlast_conv_take)
    moreover have "butlast d \<noteq> []" using 5 by (cases d; cases "tl d") auto
    ultimately show ?thesis using 5 strip_ne [of "butlast d"] unfolding DirName_def Let_def fp st ls by (auto simp: no_pos_def)
  qed
qed

lemma DirName_seps: "DirName (seps n) = (if n = 0 then [46] else if n = 2 then [47, 47] else [47])"
proof -
  have "FilePath (seps n) = seps n" by (rule FilePath_id) simp
  then show ?thesis using strip_seps [of n] strip_seps [of 1] strip_seps [of 2] strip_seps [of 0]
    by (auto simp: DirName_def Let_def no_pos_def kCurrentDirectory_def numeral_2_eq_2)
qed

text \<open>The directory as it depends on what precedes the name.\<close>

lemma DirName_cases:
  assumes "0 \<notin> set p" "p = d @ b @ seps n" "b \<noteq> []" "47 \<notin> set b" "d = [] \<or> last d = 47"
  obtains (here) "d = []" "DirName p = [46]"
  | (root) k where "d = seps k" "0 < k" "DirName p = (if k = 2 \<or> k = 3 then [47, 47] else [47])"
  | (parent) d' b' k where "d = d' @ b' @ seps k" "0 < k" "b' \<noteq> []" "47 \<notin> set b'" "d' = [] \<or> last d' = 47" "DirName p = d' @ b'"
proof (cases d rule: path_cases)
  case (seps k)
  show ?thesis
  proof (cases "k = 0")
    case True
    then show ?thesis using here seps DirName_name [OF assms] by simp
  next
    case False
    have "butlast (seps k) = seps (k - 1)" using False butlast_seps [of k "[]"] by simp
    then show ?thesis using root [of k] seps False DirName_name [OF assms] strip_seps [of "k - 1"]
      by (cases "k = 1"; cases "k = 2"; cases "k = 3") (auto simp: numeral_2_eq_2)
  qed
next
  case (name d' b' k)
  then have d: "d \<noteq> []" "last d = 47" using assms(5) by auto
  have k: "0 < k"
  proof (rule ccontr)
    assume "\<not> 0 < k"
    then have "last d = last b'" using name by simp
    then show False using d(2) name(2,3) last_in_set [of b'] by auto
  qed
  have "butlast d = d' @ b' @ seps (k - 1)" using name(1) k butlast_seps [of k "d' @ b'"] by simp
  moreover have "\<not> (length d \<le> 2 \<and> d ! 0 = 47)"
  proof
    assume a: "length d \<le> 2 \<and> d ! 0 = 47"
    moreover have "length d = length d' + length b' + k" using name(1) by simp
    moreover have "0 < length b'" using name(2) by simp
    ultimately have "length d' = 0" "length b' = 1" using k by linarith+
    then show False using a name(1,3) by (cases b') auto
  qed
  ultimately have "DirName p = d' @ b'" using DirName_name [OF assms] d(1) strip_name [OF name(2,3), of d' "k - 1"] by auto
  then show ?thesis using parent name k by blast
qed

section \<open>Components\<close>

lemma no_nul_parts:
  assumes "0 \<notin> set (d @ b @ seps n)"
  shows "0 \<notin> set d" "0 \<notin> set b"
  using assms by auto

definition path_measure :: "int list \<Rightarrow> nat" where
  "path_measure p = (if p = [] then 3 else 2 * length p + (if p = [46] then 0 else 1))"

lemma FilePath_no_nul: "0 \<notin> set (FilePath p)"
  by (auto simp: FilePath_def kStringTerminator_def dest: set_takeWhileD)

lemma FilePath_length: "length (FilePath p) \<le> length p"
  by (simp add: FilePath_def length_takeWhile_le)

lemma DirName_FilePath: "DirName (FilePath p) = DirName p"
  by (simp add: DirName_def FilePath_id [OF FilePath_no_nul])

lemma DirName_measure_free:
  assumes "0 \<notin> set p" "p \<noteq> DirName p"
  shows "path_measure (DirName p) < path_measure p"
proof (cases p rule: path_cases)
  case (seps n)
  then show ?thesis using assms(2) DirName_seps [of n]
    by (cases "n = 0"; cases "n = 1"; cases "n = 2") (auto simp: path_measure_def numeral_2_eq_2)
next
  case (name d b n)
  have b: "1 \<le> length b" using name(2) by (cases b) auto
  show ?thesis
  proof (rule DirName_cases [OF assms(1) name])
    assume a: "d = []" "DirName p = [46]"
    then show ?thesis using assms(2) name(1) b by (auto simp: path_measure_def)
  next
    fix k assume a: "d = seps k" "0 < k" "DirName p = (if k = 2 \<or> k = 3 then [47, 47] else [47])"
    have "path_measure (DirName p) = (if k = 2 \<or> k = 3 then 5 else 3)" using a(3) by (simp add: path_measure_def)
    moreover have "path_measure p = 2 * (k + length b + n) + 1" using a(1,2) name(1) b by (cases k) (auto simp: path_measure_def)
    ultimately show ?thesis using a(2) b by auto
  next
    fix d' b' k assume a: "d = d' @ b' @ seps k" "0 < k" "b' \<noteq> []" "DirName p = d' @ b'"
    have "path_measure (DirName p) \<le> 2 * length (d' @ b') + 1" using a(3,4) by (simp add: path_measure_def)
    moreover have "length (d' @ b') + 2 \<le> length p" using a(1,2) name(1) b by simp
    moreover have "2 * length p \<le> path_measure p" by (simp add: path_measure_def)
    ultimately show ?thesis by linarith
  qed
qed

lemma DirName_measure:
  assumes "p \<noteq> DirName p"
  shows "path_measure (DirName p) < path_measure p"
proof (cases "0 \<in> set p")
  case False
  then show ?thesis using assms by (rule DirName_measure_free)
next
  case True
  define q where "q = FilePath p"
  have l: "length q < length p" using True by (metis FilePath_length FilePath_no_nul le_neq_implies_less q_def FilePath_def takeWhile_eq_take take_all_iff order_refl)
  have p: "path_measure p = 2 * length p + 1" using True l by (auto simp: path_measure_def)
  have d: "DirName p = DirName q" by (simp add: q_def DirName_FilePath)
  show ?thesis
  proof (cases "q = DirName q")
    case True
    then have "q \<noteq> []" using DirName_seps [of 0] by auto
    then show ?thesis using True d p l by (simp add: path_measure_def)
  next
    case False
    then have "path_measure (DirName q) < path_measure q" using DirName_measure_free [of q] FilePath_no_nul q_def by simp
    then show ?thesis using d p l by (auto simp: path_measure_def split: if_splits)
  qed
qed

function components_loop :: "int list \<Rightarrow> int list list \<Rightarrow> int list \<times> int list list" where
  "components_loop current ret_val =
     (if current \<noteq> DirName current then
        let base = BaseName current in
        components_loop (DirName current) (if \<not> AreAllSeparators base then ret_val @ [base] else ret_val)
      else (current, ret_val))"
  by pat_completeness auto
termination
  by (relation "measure (\<lambda>(p, _). path_measure p)") (simp_all add: DirName_measure)

declare components_loop.simps [simp del]

definition GetComponents :: "int list \<Rightarrow> int list list" where
  "GetComponents path =
     (if path = [] then []
      else
        let (current, ret_val) = components_loop path [];
            base = BaseName current;
            ret_val = (if base \<noteq> [] \<and> base \<noteq> kCurrentDirectory then ret_val @ [BaseName current] else ret_val);
            dir = DirName current;
            letter = FindDriveLetter dir;
            ret_val = (if letter \<noteq> no_pos then ret_val @ [take (nat (letter + 1)) dir] else ret_val)
        in rev ret_val)"

fun append_all :: "int list \<Rightarrow> int list list \<Rightarrow> int list option" where
  "append_all path [] = Some path"
| "append_all path (c # cs) = do { path' \<leftarrow> Append path c; append_all path' cs }"

text \<open>The result, and the path that was passed for the components that the child adds.\<close>

definition AppendRelativePath :: "int list \<Rightarrow> int list \<Rightarrow> int list option \<Rightarrow> (bool \<times> int list option) option" where
  "AppendRelativePath this child path =
     (let parent_components = GetComponents this; child_components = GetComponents child in
      if parent_components = [] \<or> length parent_components \<ge> length child_components then Some (False, path)
      else if \<not> list_all2 (\<lambda>a b. a = b) parent_components (take (length parent_components) child_components) then Some (False, path)
      else case path of None \<Rightarrow> Some (True, None)
        | Some p \<Rightarrow> do { p' \<leftarrow> append_all p (drop (length parent_components) child_components); Some (True, Some p') })"

definition IsParent :: "int list \<Rightarrow> int list \<Rightarrow> bool option" where
  "IsParent this child = map_option fst (AppendRelativePath this child None)"

definition ReferencesParent :: "int list \<Rightarrow> bool" where
  "ReferencesParent path =
     (if \<not> contains path kParentDirectory then False
      else list_ex (\<lambda>component. list_all (\<lambda>c. c \<in> set [46, 32, 10, 13, 9]) component \<and> contains component kParentDirectory)
        (GetComponents path))"

lemma components_loop_acc:
  "components_loop p acc = (fst (components_loop p []), acc @ snd (components_loop p []))"
proof (induction "path_measure p" arbitrary: p acc rule: less_induct)
  case less
  show ?case
  proof (cases "p = DirName p")
    case True
    then show ?thesis by (simp add: components_loop.simps [of p])
  next
    case False
    let ?x = "if \<not> AreAllSeparators (BaseName p) then [BaseName p] else []"
    have step: "components_loop p acc = components_loop (DirName p) (acc @ ?x)" for acc using False by (simp add: components_loop.simps [of p acc] Let_def)
    show ?thesis unfolding step less [OF DirName_measure [OF False], of "acc @ ?x"] less [OF DirName_measure [OF False], of "[] @ ?x"] by simp
  qed
qed

lemma DirName_ne: "DirName p \<noteq> []"
  by (simp add: DirName_def Let_def kCurrentDirectory_def)

lemma GetComponents_step:
  assumes "p \<noteq> []" "p \<noteq> DirName p"
  shows "GetComponents p = GetComponents (DirName p) @ (if AreAllSeparators (BaseName p) then [] else [BaseName p])"
proof -
  let ?x = "if AreAllSeparators (BaseName p) then [] else [BaseName p]"
  have "components_loop p [] = components_loop (DirName p) ?x" using assms(2) by (simp add: components_loop.simps [of p "[]"] Let_def)
  also have "\<dots> = (fst (components_loop (DirName p) []), ?x @ snd (components_loop (DirName p) []))" by (rule components_loop_acc)
  finally show ?thesis using assms(1) DirName_ne [of p] by (simp add: GetComponents_def Let_def no_pos_def split: prod.splits)
qed

lemma GetComponents_fix:
  "p = DirName p \<Longrightarrow> GetComponents p = (if BaseName p = [] \<or> BaseName p = kCurrentDirectory then [] else [BaseName p])"
  using DirName_ne [of p] by (simp add: GetComponents_def components_loop.simps [of p] Let_def no_pos_def)

text \<open>The names in a path, and what its components are in terms of them.\<close>

definition names :: "int list \<Rightarrow> int list list" where
  "names p = filter (\<lambda>n. n \<noteq> []) (splits (\<lambda>c. c = 47) p)"

definition leading :: "int list \<Rightarrow> nat" where
  "leading p = length (takeWhile (\<lambda>c. c = 47) p)"

definition path_components :: "int list \<Rightarrow> int list list" where
  "path_components p =
     (if leading p > 0 then (if leading p = 2 \<or> leading p = 3 \<and> names p \<noteq> [] then [47, 47] else [47]) # names p
      else if p = [46] \<or> length (names p) > 1 \<and> hd (names p) = [46] then tl (names p)
      else names p)"

lemma splits_append: "splits (\<lambda>c. c = x) (d @ x # y) = splits (\<lambda>c. c = x) d @ splits (\<lambda>c. c = x) y"
  by (induction d) simp_all

lemma names_append: "names (d @ 47 # y) = names d @ names y"
  by (simp add: names_def splits_append)

lemma names_seps [simp]: "names (seps n) = []" "names (seps n @ y) = names y"
  by (induction n) (simp_all add: names_def)

lemma names_single: "b \<noteq> [] \<Longrightarrow> 47 \<notin> set b \<Longrightarrow> names b = [b]"
proof -
  assume "b \<noteq> []" "47 \<notin> set b"
  moreover have "\<forall>x \<in> set b. \<not> x = 47" using calculation(2) by auto
  ultimately show ?thesis by (simp add: names_def splits_none)
qed

lemma names_name: "b \<noteq> [] \<Longrightarrow> 47 \<notin> set b \<Longrightarrow> names (b @ seps n) = [b]"
  using names_append [of b "seps (n - 1)"] by (cases n) (simp_all add: names_single)

lemma names_last:
  assumes "b \<noteq> []" "47 \<notin> set b" "d = [] \<or> last d = 47"
  shows "names (d @ b @ seps n) = names d @ [b]"
proof (cases d rule: rev_cases)
  case Nil
  then show ?thesis using names_name [OF assms(1,2), of n] by (simp add: names_def)
next
  case (snoc e c)
  then have d: "d = e @ [47]" using assms(3) by simp
  have "names d = names e" unfolding d using names_append [of e "[]"] by (simp add: names_def)
  then show ?thesis unfolding d using names_append [of e "b @ seps n"] names_name [OF assms(1,2), of n] by simp
qed

lemma leading_name: "b \<noteq> [] \<Longrightarrow> 47 \<notin> set b \<Longrightarrow> leading (seps k @ b @ y) = k"
  by (induction k) (cases b, auto simp: leading_def)

lemma leading_more: "b \<noteq> [] \<Longrightarrow> 47 \<notin> set b \<Longrightarrow> leading (d @ b @ y) = leading (d @ b)"
  by (induction d) (cases b, auto simp: leading_def)

lemma relative_names: "d \<noteq> [] \<Longrightarrow> last d = 47 \<Longrightarrow> leading (d @ b) = 0 \<Longrightarrow> names d \<noteq> []"
proof (cases d)
  case (Cons c cs)
  moreover assume "leading (d @ b) = 0"
  ultimately have "c \<noteq> 47" by (auto simp: leading_def)
  then show ?thesis using Cons by (simp add: names_def)
qed simp

lemma components_seps: "GetComponents (seps n) = path_components (seps n)"
proof -
  have l: "leading (seps n) = n" unfolding leading_def by (induction n) auto
  have one: "GetComponents [47] = [[47]]" "GetComponents [47, 47] = [[47, 47]]"
    using GetComponents_fix [of "[47]"] GetComponents_fix [of "[47, 47]"] DirName_seps [of 1] DirName_seps [of 2]
      BaseName_seps [of 1] BaseName_seps [of 2] strip_seps [of 1] strip_seps [of 2] by (simp_all add: kCurrentDirectory_def numeral_2_eq_2)
  consider "n = 0" | "n = 1" | "n = 2" | "3 \<le> n" by linarith
  then show ?thesis
  proof cases
    case 1
    then show ?thesis by (simp add: GetComponents_def path_components_def leading_def names_def)
  next
    case 4
    have "seps n \<noteq> DirName (seps n)" using 4 DirName_seps [of n] by (cases n) auto
    moreover have "AreAllSeparators (BaseName (seps n))" unfolding BaseName_seps strip_seps by (simp add: AreAllSeparators_def)
    ultimately show ?thesis using GetComponents_step [of "seps n"] one(1) 4 DirName_seps [of n] l by (auto simp: path_components_def)
  qed (use one l in \<open>simp_all add: path_components_def names_def numeral_2_eq_2\<close>)
qed

text \<open>A name below another adds itself.\<close>

lemma path_components_below:
  assumes b: "b \<noteq> []" "47 \<notin> set b" and b': "b' \<noteq> []" "47 \<notin> set b'" and d: "d = [] \<or> last d = 47" and k: "0 < k"
  shows "path_components (d @ b' @ seps k @ b @ seps n) = path_components (d @ b') @ [b]"
proof -
  let ?p = "(d @ b' @ seps k) @ b @ seps n"
  have "last (d @ b' @ seps k) = 47" using k by simp
  then have n: "names ?p = names (d @ b' @ seps k) @ [b]" using names_last [OF b, of "d @ b' @ seps k" n] by simp
  have nd: "names (d @ b' @ seps k) = names d @ [b']" "names (d @ b') = names d @ [b']"
    using names_last [OF b' d, of k] names_last [OF b' d, of 0] by simp_all
  have ld: "leading ?p = leading (d @ b')" using leading_more [OF b', of d "seps k @ b @ seps n"] by simp
  have dot: "?p \<noteq> [46]" using b(1) b'(1) k by (cases d; cases b'; cases b) auto
  consider "leading ?p \<noteq> 0" | "leading ?p = 0" "d = []" | "leading ?p = 0" "d \<noteq> []" by blast
  then have "path_components ?p = path_components (d @ b') @ [b]"
  proof cases
    case 1
    then show ?thesis unfolding path_components_def n nd using ld by simp
  next
    case 2
    have "names [] = []" by (simp add: names_def)
    then show ?thesis using 2 ld dot unfolding path_components_def n nd by auto
  next
    case 3
    then have "names d \<noteq> []" using relative_names [of d b'] d ld by simp
    moreover have "d @ b' \<noteq> [46]" using 3 b'(1) by (cases d; cases b') auto
    ultimately show ?thesis using 3 ld dot unfolding path_components_def n nd by (cases "names d") auto
  qed
  then show ?thesis by simp
qed

lemma components_dot: "GetComponents [46] = []"
  using GetComponents_fix [of "[46]"] DirName_name [of "[46]" "[]" "[46]" 0] BaseName_name [of "[46]" "[]" "[46]" 0]
  by (simp add: kCurrentDirectory_def)

lemma GetComponents_spec: "0 \<notin> set p \<Longrightarrow> GetComponents p = path_components p"
proof (induction "path_measure p" arbitrary: p rule: less_induct)
  case less
  show ?case
  proof (cases p rule: path_cases)
    case (seps n)
    then show ?thesis using components_seps by simp
  next
    case (name d b n)
    have p: "p \<noteq> []" using name(1,2) by simp
    have "\<not> AreAllSeparators b" using name(2,3) by (cases b) (auto simp: AreAllSeparators_def)
    then have step: "p \<noteq> DirName p \<Longrightarrow> GetComponents p = GetComponents (DirName p) @ [b]"
      using GetComponents_step [OF p] BaseName_name [OF less.prems name] by simp
    have IH: "p \<noteq> DirName p \<Longrightarrow> 0 \<notin> set (DirName p) \<Longrightarrow> GetComponents (DirName p) = path_components (DirName p)"
      using less.hyps DirName_measure by blast
    have n: "names p = names d @ [b]" unfolding name(1) by (rule names_last [OF name(2-4)])
    show ?thesis
    proof (rule DirName_cases [OF less.prems name])
      assume a: "d = []" "DirName p = [46]"
      have "leading p = 0" using leading_name [OF name(2,3), of 0 "seps n"] name(1) a(1) by simp
      moreover have "names p = [b]" using n a(1) names_seps(1) [of 0] by simp
      ultimately show ?thesis using components_dot step a by (cases "p = [46]") (simp_all add: path_components_def)
    next
      fix k assume a: "d = seps k" "0 < k" "DirName p = (if k = 2 \<or> k = 3 then [47, 47] else [47])"
      have "hd b \<in> set p" "hd b \<noteq> 47" using name(1-3) by (cases b; simp)+
      then have "p \<noteq> DirName p" using a(3) by (auto split: if_splits)
      moreover have "leading p = k" using leading_name [OF name(2,3), of k "seps n"] name(1) a(1) by simp
      moreover have "names p = [b]" using n a(1) by simp
      moreover have "GetComponents (DirName p) = [DirName p]"
        using a(3) components_seps [of 1] components_seps [of 2] names_seps(1) [of 1] names_seps(1) [of 2]
        by (auto simp: path_components_def leading_def numeral_2_eq_2)
      ultimately show ?thesis using step a by (auto simp: path_components_def)
    next
      fix d' b' k
      assume a: "d = d' @ b' @ seps k" "0 < k" "b' \<noteq> []" "47 \<notin> set b'" "d' = [] \<or> last d' = 47" "DirName p = d' @ b'"
      have "p \<noteq> DirName p" "0 \<notin> set (DirName p)" using a(1,2,6) name(1) less.prems by auto
      then show ?thesis using step IH path_components_below [OF name(2,3) a(3-5,2), of n] a(1,6) name(1) by simp
    qed
  qed
qed


lemma contains_iff: "contains s d \<longleftrightarrow> (\<exists>u v. s = u @ d @ v)"
proof
  assume "contains s d"
  then obtain i where "matches_at s d i" by (auto simp: contains_def list_ex_iff)
  then have "s = take i s @ d @ drop (length d) (drop i s)" using append_take_drop_id [of "length d" "drop i s"] by (simp add: matches_at_def)
  then show "\<exists>u v. s = u @ d @ v" by blast
next
  assume "\<exists>u v. s = u @ d @ v"
  then obtain u v where "s = u @ d @ v" by blast
  then have "matches_at s d (length u)" "length u < length s + 1" by (simp_all add: matches_at_def)
  then show "contains s d" unfolding contains_def list_ex_iff set_upt by (intro bexI [of _ "length u"]) auto
qed

lemma splits_sublist: "b \<in> set (splits P p) \<Longrightarrow> \<exists>u v. p = u @ b @ v"
proof (induction P p arbitrary: b rule: splits.induct)
  case (2 P c cs)
  obtain h t where ht: "splits P cs = h # t" by (cases "splits P cs") auto
  have "\<exists>v. cs = hd (splits P cs) @ v"
  proof (induction cs)
    case (Cons x xs)
    then show ?case by auto
  qed simp
  then obtain v where v: "cs = h @ v" using ht by auto
  show ?case
  proof (cases "P c")
    case True
    then consider "b = []" | "b \<in> set (splits P cs)" using "2.prems" by auto
    then show ?thesis
    proof cases
      case 2
      then obtain u v where "cs = u @ b @ v" using "2.IH"(1) [OF True] by blast
      then show ?thesis by (intro exI [of _ "c # u"] exI [of _ v]) simp
    qed auto
  next
    case False
    then consider "b = c # h" | "b \<in> set t" using "2.prems" ht by auto
    then show ?thesis
    proof cases
      case 1
      then show ?thesis using v by (intro exI [of _ "[]"] exI [of _ v]) simp
    next
      case 2
      then have "b \<in> set (splits P cs)" using ht by simp
      then obtain u v where "cs = u @ b @ v" using "2.IH"(2) [OF False] by blast
      then show ?thesis by (intro exI [of _ "c # u"] exI [of _ v]) simp
    qed
  qed
qed simp

lemma contains_short: "\<not> contains [c] kParentDirectory" "\<not> contains [47, 47] kParentDirectory"
  by (simp_all add: contains_def matches_at_def kParentDirectory_def)

lemma ReferencesParent_spec:
  assumes "0 \<notin> set p"
  shows "ReferencesParent p \<longleftrightarrow> (\<exists>n \<in> set (names p). contains n kParentDirectory \<and> set n \<subseteq> {46, 32, 10, 13, 9})"
proof -
  have up: "contains p kParentDirectory" if m: "n \<in> set (names p)" and c: "contains n kParentDirectory" for n
  proof -
    have "n \<in> set (splits (\<lambda>c. c = 47) p)" using m by (simp add: names_def)
    then obtain u v where p: "p = u @ n @ v" using splits_sublist by blast
    obtain u' v' where "n = u' @ kParentDirectory @ v'" using c contains_iff by auto
    then have "p = (u @ u') @ kParentDirectory @ (v' @ v)" using p by simp
    then show ?thesis using contains_iff by blast
  qed
  have same: "c \<in> set (GetComponents p) \<and> contains c kParentDirectory \<longleftrightarrow> c \<in> set (names p) \<and> contains c kParentDirectory" for c
    using contains_short names_single [of "[46]"] unfolding GetComponents_spec [OF assms] path_components_def
    by (cases "names p") (auto split: if_splits)
  have all: "list_all (\<lambda>c. c \<in> set [46, 32, 10, 13, 9]) n \<longleftrightarrow> set n \<subseteq> {46, 32, 10, 13, 9}" for n :: "int list" by (auto simp: list_all_iff)
  show ?thesis unfolding ReferencesParent_def list_ex_iff all using up same by auto
qed

lemma IsParent_spec:
  "IsParent p q = Some (GetComponents p \<noteq> [] \<and> (\<exists>rest. rest \<noteq> [] \<and> GetComponents q = GetComponents p @ rest))"
proof -
  let ?a = "GetComponents p" and ?b = "GetComponents q"
  have eq: "list_all2 (\<lambda>a b. a = b) ?a (take (length ?a) ?b) \<longleftrightarrow> ?a = take (length ?a) ?b" by (simp add: list.rel_eq)
  have "length ?a < length ?b \<and> ?a = take (length ?a) ?b \<longleftrightarrow> (\<exists>rest. rest \<noteq> [] \<and> ?b = ?a @ rest)"
  proof
    assume a: "length ?a < length ?b \<and> ?a = take (length ?a) ?b"
    then have "?b = ?a @ drop (length ?a) ?b" by (metis append_take_drop_id)
    then show "\<exists>rest. rest \<noteq> [] \<and> ?b = ?a @ rest" using a by (intro exI [of _ "drop (length ?a) ?b"]) simp
  qed auto
  then show ?thesis unfolding IsParent_def AppendRelativePath_def Let_def eq by auto
qed

section \<open>Appending\<close>

lemma path_components_strip:
  assumes "b \<noteq> []" "47 \<notin> set b" "d = [] \<or> last d = 47" "d @ b \<noteq> [46]"
  shows "path_components (d @ b @ seps n) = path_components (d @ b)"
proof -
  have "names (d @ b @ seps n) = names (d @ b)" using names_last [OF assms(1-3), of n] names_last [OF assms(1-3), of 0] by simp
  moreover have "leading (d @ b @ seps n) = leading (d @ b)" by (rule leading_more [OF assms(1,2)])
  moreover have "d @ b @ seps n = [46] \<longleftrightarrow> n = 0 \<and> d @ b = [46]" using assms(1) by (cases d; cases b; cases n) auto
  ultimately show ?thesis using assms(4) by (simp add: path_components_def)
qed

text \<open>What appending a name to a path gives.\<close>

lemma Append_name:
  assumes "0 \<notin> set p" "0 \<notin> set c" "c \<noteq> []" "47 \<notin> set c"
  shows "Append p c = Some (if p = [46] then c
    else let s = StripTrailingSeparatorsInternal p in s @ (if s = [] \<or> last s = 47 then [] else [47]) @ c)"
proof -
  have "\<not> IsPathAbsolute c" using assms(3,4) by (cases c) (auto simp: IsPathAbsolute_def)
  then show ?thesis using assms(3) FilePath_id [OF assms(1)] FilePath_id [OF assms(2)]
    by (auto simp: Append_def Let_def kCurrentDirectory_def kSeparators_def)
qed

text \<open>
  Appending a name to a path gives a path whose base name is the name, whose directory is the path
  without its trailing separators, and whose components are those of the path and the name: for a
  root, and for a path that ends in a name.
\<close>
lemma Append_root:
  assumes "p = seps n" "n \<noteq> 0" "0 \<notin> set c" "c \<noteq> []" "47 \<notin> set c"
  obtains r where "Append p c = Some r" "BaseName r = c" "DirName r = StripTrailingSeparatorsInternal p" "GetComponents r = GetComponents p @ [c]"
proof -
  define k where "k = (if n = 2 then 2 else 1 :: nat)"
  define r where "r = seps k @ c"
  have p: "0 \<notin> set p" "p \<noteq> [46]" using assms(1,2) by (cases n; auto)+
  have k: "StripTrailingSeparatorsInternal p = seps k" "0 < k" using assms(1,2) strip_seps [of n] by (auto simp: k_def numeral_2_eq_2)
  have l: "leading p = n" unfolding assms(1) leading_def by (induction n) auto
  have r: "Append p c = Some r" using Append_name [OF p(1) assms(3-5)] p(2) k by (simp add: r_def Let_def)
  have nul: "0 \<notin> set r" using assms(3) by (auto simp: r_def)
  have "r = seps k @ c @ seps 0" "seps k = [] \<or> last (seps k) = 47" using k(2) by (simp_all add: r_def)
  note nm = nul this(1) assms(4,5) this(2)
  have d: "DirName r = seps k" using DirName_name [OF nm] by (auto simp: k_def numeral_2_eq_2)
  have "leading r = k" unfolding r_def using leading_name [OF assms(4,5), of k "[]"] by simp
  moreover have "names r = [c]" unfolding r_def using names_single [OF assms(4,5)] by simp
  ultimately have "GetComponents r = GetComponents p @ [c]"
    using GetComponents_spec [OF nul] GetComponents_spec [OF p(1)] l assms(1,2) by (auto simp: path_components_def k_def)
  then show ?thesis using that r BaseName_name [OF nm] d k(1) by simp
qed

lemma Append_below:
  assumes "p = d @ b @ seps n" "b \<noteq> []" "47 \<notin> set b" "d = [] \<or> last d = 47" "d @ b \<noteq> [46]"
    and "0 \<notin> set p" "0 \<notin> set c" "c \<noteq> []" "47 \<notin> set c"
  obtains r where "Append p c = Some r" "BaseName r = c" "DirName r = StripTrailingSeparatorsInternal p" "GetComponents r = GetComponents p @ [c]"
proof -
  have s: "StripTrailingSeparatorsInternal p = d @ b" unfolding assms(1) by (rule strip_name [OF assms(2,3)])
  have p: "p \<noteq> [46]" using assms(1,2,5) by (cases d; cases b; cases n) auto
  have "last (d @ b) \<noteq> 47" using assms(2,3) by (metis last_appendR last_in_set)
  then have r: "Append p c = Some (d @ b @ 47 # c)" using Append_name [OF assms(6-9)] p s assms(2) by (simp add: Let_def)
  have nul: "0 \<notin> set (d @ b @ 47 # c)" using assms(1,6,7) by auto
  have nm: "d @ b @ 47 # c = (d @ b @ [47]) @ c @ seps 0" "d @ b @ [47] = [] \<or> last (d @ b @ [47]) = 47" by simp_all
  have "\<not> (length (d @ b @ [47]) \<le> 2 \<and> (d @ b @ [47]) ! 0 = 47)" using assms(2,3) by (cases d; cases b) auto
  then have "DirName (d @ b @ 47 # c) = d @ b"
    using DirName_name [OF nul nm(1) assms(8,9) nm(2)] strip_name [OF assms(2,3), of d 0] by (simp add: butlast_append)
  moreover have "GetComponents p = path_components (d @ b)"
    using path_components_strip [OF assms(2-5), of n] GetComponents_spec [OF assms(6)] assms(1) by simp
  moreover have "GetComponents (d @ b @ 47 # c) = path_components (d @ b) @ [c]"
    using path_components_below [OF assms(8,9,2-4), of 1 0] GetComponents_spec [OF nul] by simp
  ultimately show ?thesis using that r BaseName_name [OF nul nm(1) assms(8,9) nm(2)] s by simp
qed

lemma Append_exact:
  assumes "0 \<notin> set p" "0 \<notin> set c" "c \<noteq> []" "47 \<notin> set c" "c \<noteq> [46]" "p = [46] \<or> StripTrailingSeparators p \<noteq> [46]"
  obtains r where "Append p c = Some r" "BaseName r = c"
    "DirName r = (if p = [] then [46] else StripTrailingSeparators p)" "GetComponents r = GetComponents p @ [c]"
proof -
  have st: "StripTrailingSeparators p = StripTrailingSeparatorsInternal p" using FilePath_id [OF assms(1)] by (simp add: StripTrailingSeparators_def)
  show ?thesis
  proof (cases "p = [46] \<or> p = []")
    case True
    have "GetComponents c = [c]" "BaseName c = c" "DirName c = [46]"
      using GetComponents_spec [OF assms(2)] names_single [OF assms(3,4)] leading_name [OF assms(3,4), of 0 "[]"]
        BaseName_name [of c "[]" c 0] DirName_name [of c "[]" c 0] assms(2-5) by (simp_all add: path_components_def)
    moreover have "GetComponents [] = []" by (simp add: GetComponents_def)
    ultimately show ?thesis
      using that [of c] True Append_name [OF assms(1-4)] components_dot st strip_seps [of 0] strip_name [of "[46]" "[]" 0] by auto
  next
    case False
    show ?thesis
    proof (cases p rule: path_cases)
      case (seps n)
      then have "n \<noteq> 0" using False by auto
      then show ?thesis using Append_root [OF seps _ assms(2-4)] that False st by metis
    next
      case (name d b n)
      have "d @ b \<noteq> [46]" using assms(6) st strip_name [OF name(2,3), of d n] name(1) False by auto
      then show ?thesis using Append_below [OF name _ assms(1-4)] that False st by metis
    qed
  qed
qed

section \<open>Extensions\<close>

lemma last_pos_range: "last_pos P s n = no_pos \<or> 0 \<le> last_pos P s n \<and> last_pos P s n < int n \<and> P (s ! nat (last_pos P s n))"
  by (induction n) (auto simp: less_Suc_eq)

lemma last_pos_none: "last_pos P s n = no_pos \<longleftrightarrow> (\<forall>i < n. \<not> P (s ! i))"
  by (induction n) (auto simp: no_pos_def less_Suc_eq)

text \<open>Searching a name below its directory.\<close>

lemma last_pos_shift:
  "m \<le> length b \<Longrightarrow> last_pos P (d @ b) (length d + m) =
     (if last_pos P b m = no_pos then last_pos P d (length d) else int (length d) + last_pos P b m)"
proof (induction m)
  case 0
  then show ?case by (simp add: last_pos_cut)
next
  case (Suc m)
  then show ?case by (auto simp: nth_append no_pos_def)
qed

lemma Final_below:
  assumes "47 \<notin> set b" "d = [] \<or> last d = 47" "FinalExtensionSeparatorPosition b \<noteq> no_pos"
  shows "FinalExtensionSeparatorPosition (d @ b) = int (length d) + FinalExtensionSeparatorPosition b"
proof -
  let ?dot = "\<lambda>c. c = kExtensionSeparator"
  have b: "b \<noteq> kCurrentDirectory" "b \<noteq> kParentDirectory" "last_pos ?dot b (length b) \<noteq> no_pos"
    using assms(3) by (auto simp: FinalExtensionSeparatorPosition_def split: if_splits)
  have "d @ b \<noteq> kCurrentDirectory \<and> d @ b \<noteq> kParentDirectory"
  proof (cases d rule: rev_cases)
    case Nil
    then show ?thesis using b by simp
  next
    case (snoc e c)
    then have "47 \<in> set (d @ b)" using assms(2) by simp
    moreover have "47 \<notin> set kCurrentDirectory" "47 \<notin> set kParentDirectory" by (simp_all add: kCurrentDirectory_def kParentDirectory_def)
    ultimately show ?thesis by metis
  qed
  then show ?thesis using b last_pos_shift [of "length b" b ?dot d] by (simp add: FinalExtensionSeparatorPosition_def)
qed

text \<open>Where the last dot of a name is, the positions of an extension in a path are those in the name.\<close>

lemma Separator_below:
  assumes "47 \<notin> set b" "d = [] \<or> last d = 47" "ExtensionSeparatorPosition b \<noteq> no_pos"
  shows "ExtensionSeparatorPosition (d @ b) = int (length d) + ExtensionSeparatorPosition b"
proof -
  let ?dot = "\<lambda>c. c = kExtensionSeparator"
  define l where "l = FinalExtensionSeparatorPosition b"
  have ln: "l \<noteq> no_pos" using assms(3) by (auto simp: ExtensionSeparatorPosition_def l_def)
  have L: "FinalExtensionSeparatorPosition (d @ b) = int (length d) + l" using Final_below [OF assms(1,2)] ln by (simp add: l_def)
  have lr: "0 \<le> l" "nat l \<le> length b" using last_pos_range [of ?dot b "length b"] ln by (auto simp: l_def FinalExtensionSeparatorPosition_def split: if_splits)
  have sep: "last_pos IsSeparator b (nat l) = no_pos" unfolding last_pos_none using assms(1) lr(2) by (metis IsSeparator_iff nth_mem order_less_le_trans)
  have at: "nat (int (length d) + l) = length d + nat l" using lr(1) by simp
  have SEP: "last_pos IsSeparator (d @ b) (nat (int (length d) + l)) = int (length d) - 1"
    unfolding at last_pos_shift [OF lr(2)] using sep assms(2) last_pos_last [of d IsSeparator] by (cases "d = []") (auto simp: no_pos_def)
  define q where "q = last_pos ?dot b (nat l)"
  define Q where "Q = last_pos ?dot (d @ b) (nat (int (length d) + l))"
  have Q: "Q = (if q = no_pos then last_pos ?dot d (length d) else int (length d) + q)" unfolding Q_def q_def at using last_pos_shift [OF lr(2)] .
  show ?thesis
  proof (cases "q = no_pos")
    case True
    have "Q = no_pos \<or> d \<noteq> [] \<and> Q < int (length d) - 1"
    proof (cases "d = []")
      case False
      then have "d ! (length d - 1) \<noteq> kExtensionSeparator" using assms(2) by (simp add: last_conv_nth kExtensionSeparator_def)
      moreover have "Q = no_pos \<or> Q < int (length d) \<and> d ! nat Q = kExtensionSeparator" using last_pos_range [of ?dot d "length d"] Q True by auto
      moreover have "Q = int (length d) - 1 \<Longrightarrow> nat Q = length d - 1" by simp
      ultimately show ?thesis using False by (metis zle_diff1_eq order_le_less)
    qed (use Q True in simp)
    then have "ExtensionSeparatorPosition (d @ b) = int (length d) + l"
      using SEP L lr(1) unfolding ExtensionSeparatorPosition_def Let_def L Q_def [symmetric] by (auto simp: no_pos_def)
    moreover have "ExtensionSeparatorPosition b = l" using True unfolding ExtensionSeparatorPosition_def Let_def l_def [symmetric] q_def [symmetric] by simp
    ultimately show ?thesis by simp
  next
    case False
    have q: "0 \<le> q" "q < l" using False lr(1) last_pos_range [of ?dot b "nat l"] by (auto simp: q_def)
    have Q': "Q = int (length d) + q" using Q False by simp
    have l: "l \<noteq> 0" using q by simp
    have cut: "nat (int (length d) + q + 1) - length d = nat (q + 1)" "nat (int (length d) + l + 1) - length d = nat (l + 1)" using q by auto
    show ?thesis
      using L Q' q l ln SEP sep False unfolding ExtensionSeparatorPosition_def Let_def L Q_def [symmetric] l_def [symmetric] q_def [symmetric] SEP sep Q'
      by (simp add: cut no_pos_def)
  qed
qed

lemma dot_range:
  "FinalExtensionSeparatorPosition b = no_pos \<or> 0 \<le> FinalExtensionSeparatorPosition b \<and> FinalExtensionSeparatorPosition b < int (length b)"
  "ExtensionSeparatorPosition b = no_pos \<or> 0 \<le> ExtensionSeparatorPosition b \<and> ExtensionSeparatorPosition b < int (length b)"
proof -
  let ?dot = "\<lambda>c. c = kExtensionSeparator"
  show f: "FinalExtensionSeparatorPosition b = no_pos \<or> 0 \<le> FinalExtensionSeparatorPosition b \<and> FinalExtensionSeparatorPosition b < int (length b)"
    using last_pos_range [of ?dot b "length b"] by (auto simp: FinalExtensionSeparatorPosition_def)
  show "ExtensionSeparatorPosition b = no_pos \<or> 0 \<le> ExtensionSeparatorPosition b \<and> ExtensionSeparatorPosition b < int (length b)"
    using f last_pos_range [of ?dot b "nat (FinalExtensionSeparatorPosition b)"] by (auto simp: ExtensionSeparatorPosition_def Let_def)
qed

lemma cut_below:
  assumes "0 \<le> x" "x < int (length b)"
  shows "take (nat (int (length d) + x)) (d @ b) @ drop (nat x) b = d @ b" "drop (nat x) b \<noteq> []"
proof -
  have "nat (int (length d) + x) = length d + nat x" using assms(1) by simp
  then show "take (nat (int (length d) + x)) (d @ b) @ drop (nat x) b = d @ b" by simp
  show "drop (nat x) b \<noteq> []" using assms by simp
qed

text \<open>The extension of a path that ends in a name is what removing it removes.\<close>

lemma extension_cut:
  assumes "0 \<notin> set p" "p = [] \<or> last p \<noteq> 47"
  shows "RemoveExtension p @ Extension p = p" "RemoveFinalExtension p @ FinalExtension p = p"
proof -
  have "RemoveExtension p @ Extension p = p \<and> RemoveFinalExtension p @ FinalExtension p = p"
  proof (cases p rule: path_cases)
    case (seps n)
    then have "p = []" using assms(2) last_replicate [of n "47 :: int"] by (cases "n = 0") auto
    moreover have "BaseName [] = []" using BaseName_seps [of 0] strip_seps [of 0] by simp
    ultimately show ?thesis
      by (simp add: RemoveExtension_def RemoveFinalExtension_def Extension_def FinalExtension_def Let_def)
  next
    case (name d b n)
    have "n = 0" using name(1) assms(2) last_replicate [of n "47 :: int"] by (cases "n = 0") auto
    then have p: "p = d @ b" using name(1) by simp
    have base: "BaseName p = b" using BaseName_name [OF assms(1) name] .
    have fp: "FilePath (take m p) = take m p" for m using assms(1) FilePath_id [of "take m p"] by (meson in_set_takeD)
    note s = Separator_below [OF name(3,4)] Final_below [OF name(3,4)] and r = dot_range [of b]
    have "RemoveExtension p @ Extension p = p"
    proof (cases "ExtensionSeparatorPosition b = no_pos")
      case False
      then have c: "0 \<le> ExtensionSeparatorPosition b" "ExtensionSeparatorPosition b < int (length b)" using r(2) by auto
      let ?x = "ExtensionSeparatorPosition b"
      have e: "Extension p = drop (nat ?x) b" by (simp add: Extension_def Let_def base False)
      have "ExtensionSeparatorPosition p = int (length d) + ?x" using s(1) [OF False] p by simp
      then have "RemoveExtension p = take (nat (int (length d) + ?x)) p"
        using cut_below(2) [OF c] e c(1) fp by (simp add: RemoveExtension_def Let_def no_pos_def)
      then show ?thesis using cut_below(1) [OF c, of d] e p by simp
    qed (simp add: RemoveExtension_def Extension_def Let_def base)
    moreover have "RemoveFinalExtension p @ FinalExtension p = p"
    proof (cases "FinalExtensionSeparatorPosition b = no_pos")
      case False
      then have c: "0 \<le> FinalExtensionSeparatorPosition b" "FinalExtensionSeparatorPosition b < int (length b)" using r(1) by auto
      let ?x = "FinalExtensionSeparatorPosition b"
      have e: "FinalExtension p = drop (nat ?x) b" by (simp add: FinalExtension_def Let_def base False)
      have "FinalExtensionSeparatorPosition p = int (length d) + ?x" using s(2) [OF False] p by simp
      then have "RemoveFinalExtension p = take (nat (int (length d) + ?x)) p"
        using cut_below(2) [OF c] e c(1) fp by (simp add: RemoveFinalExtension_def Let_def no_pos_def)
      then show ?thesis using cut_below(1) [OF c, of d] e p by simp
    qed (simp add: RemoveFinalExtension_def FinalExtension_def Let_def base)
    ultimately show ?thesis by blast
  qed
  then show "RemoveExtension p @ Extension p = p" "RemoveFinalExtension p @ FinalExtension p = p" by blast+
qed

section \<open>Properties\<close>

text \<open>
  C17: The components of a path, which \<open>GetComponents\<close> finds by taking directories until nothing changes,
  are the root, if any, and the non-empty names between separators; a first name \<open>.\<close> of a relative path
  is left out. One path is the parent of another exactly when its components are a non-empty proper
  prefix, and a path references a parent exactly when one of its names has two dots in a row and
  consists of dots and whitespace.
\<close>
theorem path_components_exact:
  assumes "0 \<notin> set p" "0 \<notin> set q"
  shows "GetComponents p = path_components p
    \<and> IsParent p q = Some (path_components p \<noteq> [] \<and> (\<exists>rest. rest \<noteq> [] \<and> path_components q = path_components p @ rest))
    \<and> (ReferencesParent p \<longleftrightarrow> (\<exists>n \<in> set (names p). contains n kParentDirectory \<and> set n \<subseteq> {46, 32, 10, 13, 9}))"
  using GetComponents_spec [OF assms(1)] GetComponents_spec [OF assms(2)] IsParent_spec [of p q] ReferencesParent_spec [OF assms(1)] by simp

theorem path_components_exact_witness:
  "GetComponents [47, 47, 97, 47, 46, 46] = [[47, 47], [97], [46, 46]]
    \<and> IsParent [47, 47, 97, 47, 46, 46] [47, 47, 97, 47, 47, 46, 46, 47, 98] = Some True \<and> ReferencesParent [47, 47, 97, 47, 46, 46]"
proof -
  have "0 \<notin> set [47, 47, 97, 47, 46, 46 :: int]" "0 \<notin> set [47, 47, 97, 47, 47, 46, 46, 47, 98 :: int]" by simp_all
  from path_components_exact [OF this] show ?thesis
    by (simp add: path_components_def names_def leading_def contains_def matches_at_def kParentDirectory_def)
qed

text \<open>
  C18: Appending a name to a path and taking the path apart. \<open>BaseName\<close> returns the name and \<open>DirName\<close> the
  path without its trailing separators, the components are those of the path and the name, and the
  path is a parent of the result unless it has no components. The name is not empty, has no separator and
  is not \<open>.\<close>, and neither string has a null character. (A path that is \<open>.\<close> with separators
  after it is the exception: its component \<open>.\<close> is not one of the result.)
\<close>
theorem path_append_exact:
  assumes "0 \<notin> set p" "0 \<notin> set c" "c \<noteq> []" "47 \<notin> set c" "c \<noteq> [46]" "p = [46] \<or> StripTrailingSeparators p \<noteq> [46]"
  shows "\<exists>r. Append p c = Some r \<and> BaseName r = c \<and> DirName r = (if p = [] then [46] else StripTrailingSeparators p)
    \<and> GetComponents r = GetComponents p @ [c] \<and> IsParent p r = Some (GetComponents p \<noteq> [])"
proof -
  obtain r where r: "Append p c = Some r" "BaseName r = c" "DirName r = (if p = [] then [46] else StripTrailingSeparators p)"
    "GetComponents r = GetComponents p @ [c]" using Append_exact [OF assms] by blast
  then have "IsParent p r = Some (GetComponents p \<noteq> [])" using IsParent_spec [of p r] by simp
  then show ?thesis using r by blast
qed

theorem path_append_exact_witness:
  "\<exists>r. Append [47, 97, 47, 47] [98] = Some r \<and> BaseName r = [98] \<and> DirName r = [47, 97]
    \<and> GetComponents r = GetComponents [47, 97, 47, 47] @ [[98]] \<and> IsParent [47, 97, 47, 47] r = Some (GetComponents [47, 97, 47, 47] \<noteq> [])"
proof -
  have s: "StripTrailingSeparators [47, 97, 47, 47] = [47, 97]" by code_simp
  show ?thesis using path_append_exact [of "[47, 97, 47, 47]" "[98]"] unfolding s by simp
qed



section \<open>Deviations\<close>

text \<open>
  Three separators before a name count as the alternate root that two stand for, four as the root.
\<close>
lemma root_of_three_separators: "DirName [47, 47, 47, 97] = [47, 47] \<and> DirName [47, 47, 47, 47, 97] = [47]"
  by code_simp

text \<open>
  \<open>Extension\<close> looks at the base name and \<open>RemoveExtension\<close> at the whole path: after \<open>a.tar.gz/\<close> the one is
  \<open>.tar.gz\<close> and the other leaves \<open>a.tar\<close>, so inserting \<open>X\<close> before the extension gives \<open>a.tarX.tar.gz\<close>.
  \<open>AddExtension\<close> writes the extension after the separator.
\<close>
lemma extension_of_directory:
  "Extension [97, 46, 116, 97, 114, 46, 103, 122, 47] = [46, 116, 97, 114, 46, 103, 122]"
  "RemoveExtension [97, 46, 116, 97, 114, 46, 103, 122, 47] = [97, 46, 116, 97, 114]"
  "InsertBeforeExtension [97, 46, 116, 97, 114, 46, 103, 122, 47] [88] = [97, 46, 116, 97, 114, 88, 46, 116, 97, 114, 46, 103, 122]"
  "AddExtension [97, 47] [98] = [97, 47, 46, 98]"
  by code_simp+

text \<open>A trailing separator changes the components of the current directory.\<close>

lemma components_of_current: "GetComponents [46, 47] = [[46]] \<and> GetComponents [46] = []"
  by code_simp

end
