(* ===== verification/Spec2Isabelle.thy ===== *)
theory Spec2Isabelle
  imports Clamped_Math Circular_Deque Geometry Flat_Tree Lazily_Deallocated_Deque Task_Queue_Selector Pickle
    Pattern Doubles String_Replace Json_Writer Version File_Path
begin

text \<open>
  A verification library for libchrome, Chromium's base library: checked and saturating integer
  arithmetic, containers, integer geometry, the task queues of the sequence manager, serialisation,
  strings and Unicode, JSON, version numbers and file paths.

  \<^bold>\<open>The parts of the program and the theories that model them.\<close> Paths are below \<open>src/\<close>.

  \<^item> \<open>Prelude\<close>: the C++ integer types by signedness and width, their limits, promotions and
    conversions, and the generic lemmas on truncation that the numeric theories share.
  \<^item> \<open>Safe_Conversions\<close> (\<open>base/numerics/safe_conversions_impl.h\<close>, \<open>safe_conversions.h\<close>,
    \<open>ranges.h\<close>): range checks, cross-type comparisons, \<open>checked_cast\<close>, \<open>saturated_cast\<close>,
    \<open>strict_cast\<close>. A template parameter is an argument of type \<open>ctype\<close>, a specialisation a case.
  \<^item> \<open>Checked_Math\<close>, \<open>Checked_Numeric\<close> (\<open>checked_math_impl.h\<close>, \<open>checked_math.h\<close>,
    \<open>safe_math_clang_gcc_impl.h\<close>, \<open>safe_math_shared_impl.h\<close>): the operations
    \<open>Checked*Op::Do\<close> on the portable, GCC and Clang backends and the class \<open>CheckedNumeric\<close>.
  \<^item> \<open>Clamped_Math\<close> (\<open>clamped_math.h\<close>, \<open>clamped_math_impl.h\<close>): saturating operations and
    \<open>ClampedNumeric\<close>, built on the checked ones.
  \<^item> \<open>Vector_Buffer\<close> (\<open>base/containers/vector_buffer.h\<close>): raw storage as a list of raw or live
    cells. \<open>Circular_Deque\<close> (\<open>base/containers/circular_deque.h\<close>): the deque over it, its
    iterators and their debug generation.
  \<^item> \<open>Flat_Tree\<close> (\<open>base/containers/flat_tree.h\<close>, \<open>flat_map.h\<close>, \<open>flat_set.h\<close>): the sorted-vector
    containers over any strict weak order.
  \<^item> \<open>Geometry\<close> (\<open>ui/gfx/geometry/{point,vector2d,size,insets,rect}\<close>): integer geometry on the
    clamped arithmetic.
  \<^item> \<open>Intrusive_Heap\<close> (\<open>base/task/sequence_manager/intrusive_heap.h\<close>): the array heap whose
    elements know their position. \<open>Work_Queue\<close> (\<open>work_queue.cc\<close>, \<open>work_queue_sets.cc\<close> and the
    fences and reloads of \<open>task_queue_impl.cc\<close>): the queues of tasks and the heaps that find the
    one with the oldest task. \<open>Task_Queue_Selector\<close> (\<open>task_queue_selector.cc\<close>): priorities,
    starvation scores and the choice of the next queue to serve.
    \<open>Lazily_Deallocated_Deque\<close> (\<open>lazily_deallocated_deque.h\<close>): the chain of ring buffers that holds
    the tasks of one queue.
  \<^item> \<open>Pickle\<close> (\<open>base/pickle.cc\<close>, \<open>pickle.h\<close>): writing values into a block of bytes and the iterator
    that reads them back.
  \<^item> \<open>Utf\<close> (\<open>base/third_party/icu/icu_utf.h\<close>, \<open>icu_utf.cc\<close>, \<open>base/strings/utf_string_conversion_utils.cc\<close>,
    \<open>utf_string_conversions.cc\<close> and the decoding functions of \<open>string_util.cc\<close>): UTF-8, UTF-16 and UTF-32.
    \<open>Pattern\<close> (\<open>base/strings/pattern.cc\<close>): wildcards over such text.
  \<^item> \<open>String_Piece\<close> (\<open>base/strings/string_piece.cc\<close>): searches. \<open>String_Util\<close> (\<open>string_util.cc\<close>,
    \<open>string_split.cc\<close>): trimming, collapsing, comparing, joining, splitting. \<open>String_Replace\<close>
    (\<open>string_util.cc\<close>): replacing in place, placeholders, bounded copies. \<open>String_Numbers\<close>
    (\<open>string_number_conversions.cc\<close>): integers to text and back. \<open>Doubles\<close> (the same file): IEEE doubles
    to text and back, with \<open>std::to_string\<close> and \<open>strtod\<close> below them.
  \<^item> \<open>Json\<close>, \<open>Json_Total\<close>, \<open>Json_Writer\<close> (\<open>base/json/json_parser.cc\<close>, \<open>json_writer.cc\<close>,
    \<open>string_escape.cc\<close>): the parser and what it does on every input, escaping and the writer. They
    use the number, double, string and UTF theories, and the flat tree for dictionaries.
  \<^item> \<open>Version\<close> (\<open>base/version.cc\<close>): dotted versions and wildcards, on splitting and numbers.
    \<open>File_Path\<close> (\<open>base/files/file_path.cc\<close>): paths of the POSIX build.
  \<^item> \<open>Refinement\<close>: the interfaces as locales: \<open>data_refinement\<close> (an implementation simulates an
    abstract step function, so it simulates its runs) and \<open>fifo_queue\<close>. \<open>Flat_Tree\<close> adds
    \<open>strict_weak_order\<close>, interpreted on the built-in order, points, rectangles and the keys of JSON
    dictionaries, \<open>Intrusive_Heap\<close> adds \<open>total_preorder\<close> and \<open>handle_queue\<close>, interpreted on the keys of
    the work queues, \<open>Geometry\<close> adds \<open>saturating_int\<close>, interpreted on the clamped operations, \<open>Utf\<close>
    adds \<open>utf_encoding\<close>, interpreted on the three encodings, and \<open>String_Replace\<close> adds
    \<open>replace_matcher\<close>, interpreted on substrings and on sets of characters.

  \<^bold>\<open>Conventions.\<close> The state of a class is a record or a list; a method returns the new state.
  \<open>None\<close> as a result of an operation stands for a failed \<open>CHECK\<close> or \<open>DCHECK\<close>, undefined behaviour
  or misuse of raw memory, so a theorem that an operation returns \<open>Some\<close> also says that none of
  these happens. Machine integers are integers with the wrap-around written out where the code
  can reach it; container sizes and enqueue orders are unbounded naturals, since the code relies
  on them never overflowing, and allocation never fails. The strings are lists of code units
  (\<open>char\<close> unsigned), with a \<open>size_t\<close> of 64 bits whose greatest value is \<open>npos\<close>. Loops are structural
  recursion, functions with a termination proof or, where the code may not return, \<open>partial_function\<close>
  over \<open>option\<close> with theorems that say when it does. Fuel is used in the JSON parser only: the loop
  over the items of a list or dictionary has one round more than the input has bytes, and the nesting of
  values one level more than the limit on the depth; \<open>json_parse_total\<close> shows that this is enough
  on every input. A double is its sign, mantissa and exponent, and rounding is to nearest even; only
  the conversions of doubles to and from text and their comparison with integers occur. The code
  counts the units of UTF text, the bytes of a pickle and the input of the JSON parser in 32-bit
  integers, so the theorems about them have a limit on the length, which each claim states: 2 ^ 27 units
  for a conversion of text and back, 2 ^ 31 bytes elsewhere. The line number of the JSON
  parser and the counts and distances of the pattern matcher, which are of type \<open>int\<close>, are unbounded.
  The work queues are kept in one store, because queues, heaps and handles point to
  each other.

  \<^bold>\<open>What is shown.\<close>

  \<^item> Arithmetic, on pairs of types that a common integer type contains: checked operations are exact
    integer arithmetic with a validity bit on every backend, clamped ones are exact results clamped
    to the type; on all pairs comparisons between types decide
    the mathematical order, casts respect their ranges; the operations where this fails
    (remainders, mixed signs, one saturation in the wrong direction) are pinned down by counterexamples.
  \<^item> Containers: every run of calls within the documented preconditions on a circular deque
    behaves as on a list and on a flat tree as on a map, without a failed check, a raw read or a
    leak; capacity policy; iterators that a \<open>reserve\<close> leaves undetected.
  \<^item> Geometry: the rectangle invariant (edges never overflow), intersection as the set of points,
    union and subtraction as bounding boxes, splitting, and the operator that breaks the invariant.
  \<^item> Task queues: a run on an intrusive heap refines a map with its least element on top; a run on
    work queues and sets that keeps to the preconditions refines plain queues of tasks, the heaps holding exactly the queues that
    may run a task; the selector serves the right queue, starves no priority above best effort and
    keeps its scores bounded; re-prioritising a disabled queue is a round trip; two ways to break
    the heap invariant with fences. The chain of rings behaves as a list and reclaims its memory
    within a bound; its iterator skips to the wrong cell after growth.
  \<^item> Pickle: what is written is read back; a read of any bytes stays inside the block; a copy of a
    read-only pickle overwrites its payload.
  \<^item> Unicode and patterns: conversions between the encodings are exact on well-formed text and
    replace what is not, truncation keeps the longest prefix of whole characters, and validation
    breaks down at 2 ^ 31 bytes; the matcher
    returns on all input and is exact without question marks, with which it misses matches.
  \<^item> Strings: searches find the first or last fitting position, splitting returns the pieces between
    separators and joining undoes it, replacing in the buffer equals replacing left to right unless
    the size wraps around, trimming and collapsing are exact; parsing numbers is exact with
    saturation and undoes printing; doubles are read back as printed, with six decimals.
  \<^item> JSON: what the writer writes the parser reads back, with doubles rounded to the six decimals
    that are written; the parser returns on every input without a failed check and reports an error
    when it has no result, unless it stopped after a number too large for a double; escaped text is accepted by the parser and free of control characters; inputs on
    which the parser deviates from JSON or reports no error.
  \<^item> Versions and paths: comparison is the lexicographic order of padded components; the components
    of a path are its root and names, \<open>DirName\<close> and \<open>BaseName\<close> undo \<open>Append\<close>, extensions cut a path in two;
    paths with trailing or three leading separators, on which this fails.

  \<^bold>\<open>Not modelled.\<close> Floating-point arithmetic, also in the numeric templates; aliasing of an argument
  with an element of a container; the accessors of \<open>base::Value\<close>, the time
  classes, the sequence manager above its queues, and the remaining containers; formatted printing;
  platform code (files, processes, threads, sockets, Android and Windows layers, the wide and
  native encodings of paths), whose behaviour is that of the operating system;
  tracing, histograms and logging, which have no effect on the modelled state; locks and atomics,
  so each call is one atomic step; generated bindings (Mojo, JNI) and vendored libraries.
\<close>

end
